(* ===== verification/EnginePrelude.thy ===== *)
theory EnginePrelude
  imports Complex_Main
begin

text \<open>
  Shared vocabulary of the development: JSON values as the engine stores them, the
  JavaScript collections the code uses (insertion-ordered sets and maps, array reads at
  a number), decimal printing of iteration counters, and the generic list lemmas the
  component theories rely on.

  Numbers that reach the engine from outside (slot indices, a batch size) come out of a
  JSON document, so they are rational numbers: \<open>Number.isInteger\<close> is a real test on
  them, and reading an array at a fraction or a negative number yields
  \<open>undefined\<close>, modelled as \<open>None\<close>.
\<close>

section \<open>Collections of facts\<close>

named_theorems js_simps \<open>rewriting of the JavaScript collection operations\<close>
named_theorems engine_intros \<open>introduction rules for the engine's invariants\<close>

section \<open>Values\<close>

type_synonym js_number = rat

datatype json =
    JNull
  | JBool bool
  | JNumber js_number
  | JString string
  | JArray "json list"
  | JObject "(string \<times> json) list"

text \<open>\<open>Number.isInteger\<close> on a finite number.\<close>

definition isInteger :: "js_number \<Rightarrow> bool" where
  "isInteger x \<longleftrightarrow> of_int \<lfloor>x\<rfloor> = x"

text \<open>\<open>xs[i]\<close>: an array read at a number that is not an index of the array is \<open>undefined\<close>.\<close>

definition js_index :: "'a list \<Rightarrow> js_number \<Rightarrow> 'a option" where
  "js_index xs i =
     (if isInteger i \<and> 0 \<le> i \<and> i < of_nat (length xs) then Some (xs ! nat \<lfloor>i\<rfloor>) else None)"

text \<open>\<open>Boolean(flags[i])\<close> on a list of booleans: an absent entry is falsy.\<close>

definition js_flag :: "bool list \<Rightarrow> js_number \<Rightarrow> bool" where
  "js_flag xs i = (js_index xs i = Some True)"

text \<open>Own-property lookup on a JSON object; a key written twice keeps its last value.\<close>

definition json_field :: "(string \<times> json) list \<Rightarrow> string \<Rightarrow> json option" where
  "json_field fields k = map_of (rev fields) k"

lemma isInteger_of_int [simp]: "isInteger (of_int n)"
  by (simp add: isInteger_def)

lemma isInteger_of_nat [simp]: "isInteger (of_nat n)"
  using isInteger_of_int [of "int n"] by simp

lemma isInteger_numeral [simp]: "isInteger (numeral n)" "isInteger 0" "isInteger 1"
  by (simp_all add: isInteger_def)

lemma isIntegerE:
  assumes "isInteger x"
  obtains n where "x = of_int n"
  using assms unfolding isInteger_def by metis

lemma isInteger_nonneg:
  assumes "isInteger x" and "0 \<le> x"
  obtains n where "x = of_nat n"
proof -
  obtain z where z: "x = of_int z" using assms(1) by (rule isIntegerE)
  with assms(2) have "0 \<le> z" by simp
  then have "x = of_nat (nat z)" using z by simp
  then show thesis by (rule that)
qed

lemma js_index_of_nat [simp]:
  "js_index xs (of_nat n) = (if n < length xs then Some (xs ! n) else None)"
  by (simp add: js_index_def)

lemma js_index_0 [simp]: "js_index xs 0 = (if xs = [] then None else Some (xs ! 0))"
  using js_index_of_nat [of xs 0] by simp

lemma js_index_1 [simp]: "js_index xs 1 = (if 1 < length xs then Some (xs ! 1) else None)"
  using js_index_of_nat [of xs 1] by simp

lemma js_index_numeral [simp]:
  "js_index xs (numeral k) =
     (if numeral k < length xs then Some (xs ! numeral k) else None)"
  using js_index_of_nat [of xs "numeral k"] by simp

lemma js_index_SomeD:
  assumes "js_index xs i = Some v"
  shows "\<exists>n < length xs. i = of_nat n \<and> v = xs ! n"
proof -
  from assms have i: "isInteger i" "0 \<le> i" "i < of_nat (length xs)"
    by (auto simp: js_index_def split: if_splits)
  obtain n where n: "i = of_nat n" using i(1,2) by (rule isInteger_nonneg)
  with i(3) have "n < length xs" by simp
  with assms n show ?thesis by auto
qed

lemma js_index_in_set: "js_index xs i = Some v \<Longrightarrow> v \<in> set xs"
  using js_index_SomeD by fastforce

lemma js_index_map: "js_index (map f xs) i = map_option f (js_index xs i)"
proof (cases "isInteger i \<and> 0 \<le> i")
  case True
  then obtain n where "i = of_nat n" using isInteger_nonneg by blast
  then show ?thesis by simp
qed (auto simp: js_index_def)

section \<open>Insertion-ordered sets\<close>

text \<open>
  A JavaScript \<open>Set\<close> iterates in insertion order and ignores a second insertion. It is a
  distinct list here; \<open>set_add\<close> is \<open>Set.prototype.add\<close> and \<open>js_set\<close> is
  \<open>new Set(xs)\<close>.
\<close>

definition set_add :: "'a \<Rightarrow> 'a list \<Rightarrow> 'a list" where
  "set_add x xs = (if x \<in> set xs then xs else xs @ [x])"

definition js_set :: "'a list \<Rightarrow> 'a list" where
  "js_set xs = foldl (\<lambda>acc x. set_add x acc) [] xs"

lemma set_set_add [simp]: "set (set_add x xs) = insert x (set xs)"
  by (auto simp: set_add_def)

lemma distinct_set_add [simp]: "distinct (set_add x xs) = distinct xs"
  by (auto simp: set_add_def)

lemma foldl_set_add:
  "set (foldl (\<lambda>acc x. set_add x acc) acc xs) = set acc \<union> set xs"
  "distinct acc \<Longrightarrow> distinct (foldl (\<lambda>acc x. set_add x acc) acc xs)"
  by (induction xs arbitrary: acc) auto

lemma set_js_set [simp]: "set (js_set xs) = set xs"
  by (simp add: js_set_def foldl_set_add)

lemma distinct_js_set [simp]: "distinct (js_set xs)"
  by (simp add: js_set_def foldl_set_add)

lemma foldl_set_add_distinct:
  "distinct (acc @ xs) \<Longrightarrow> foldl (\<lambda>acc x. set_add x acc) acc xs = acc @ xs"
  by (induction xs arbitrary: acc) (auto simp: set_add_def)

lemma js_set_distinct [simp]: "distinct xs \<Longrightarrow> js_set xs = xs"
  using foldl_set_add_distinct [of "[]" xs] by (simp add: js_set_def)

lemma js_set_Nil_iff [simp]: "js_set xs = [] \<longleftrightarrow> xs = []"
  using set_js_set [of xs] by (metis set_empty)

section \<open>Searching lists\<close>

lemma find_cong_set:
  "(\<And>x. x \<in> set xs \<Longrightarrow> P x = Q x) \<Longrightarrow> List.find P xs = List.find Q xs"
  by (induction xs) auto

lemma find_Some_in: "List.find P xs = Some x \<Longrightarrow> x \<in> set xs \<and> P x"
  by (induction xs) (auto split: if_splits)

lemma find_None_all: "List.find P xs = None \<longleftrightarrow> (\<forall>x \<in> set xs. \<not> P x)"
  by (induction xs) auto

lemma find_eq_unique:
  assumes "x \<in> set xs" and "P x" and "\<And>y. y \<in> set xs \<Longrightarrow> P y \<Longrightarrow> y = x"
  shows "List.find P xs = Some x"
proof (cases "List.find P xs")
  case None
  with assms(1,2) show ?thesis by (simp add: find_None_all)
next
  case (Some y)
  with find_Some_in [OF Some] assms(3) have "y = x" by blast
  with Some show ?thesis by simp
qed

lemma sorted_wrt_irrefl_distinct:
  "sorted_wrt P xs \<Longrightarrow> (\<And>x. \<not> P x x) \<Longrightarrow> distinct xs"
  by (induction xs) auto

section \<open>Decimal numerals\<close>

text \<open>The string form of a non-negative integer, as template literals print it.\<close>

definition digit_char :: "nat \<Rightarrow> char" where
  "digit_char d = ''0123456789'' ! d"

fun nat_to_string :: "nat \<Rightarrow> string" where
  "nat_to_string n =
     (if n < 10 then [digit_char n] else nat_to_string (n div 10) @ [digit_char (n mod 10)])"

declare nat_to_string.simps [simp del]

lemma less_10_cases:
  "(d::nat) < 10 \<Longrightarrow> d \<in> {0, 1, 2, 3, 4, 5, 6, 7, 8, 9}"
  by auto

lemma digit_char_inj: "a < 10 \<Longrightarrow> b < 10 \<Longrightarrow> digit_char a = digit_char b \<Longrightarrow> a = b"
proof -
  assume ab: "a < 10" "b < 10" "digit_char a = digit_char b"
  have "distinct ''0123456789''" by simp
  moreover have "length ''0123456789'' = 10" by simp
  ultimately show "a = b"
    using ab nth_eq_iff_index_eq [of "''0123456789''" a b] by (simp add: digit_char_def)
qed

lemma nat_to_string_nonempty [simp]: "nat_to_string n \<noteq> []" "[] \<noteq> nat_to_string n"
  by (subst nat_to_string.simps, simp)+

lemma nat_to_string_digits: "c \<in> set (nat_to_string n) \<Longrightarrow> c \<in> set ''0123456789''"
proof (induction n rule: nat_to_string.induct)
  case (1 n)
  have digit: "d < 10 \<Longrightarrow> digit_char d \<in> set ''0123456789''" for d :: nat
    unfolding digit_char_def by (rule nth_mem) simp
  show ?case
  proof (cases "n < 10")
    case True
    with "1.prems" digit [of n] show ?thesis by (simp add: nat_to_string.simps [of n])
  next
    case False
    from "1.prems" False
    have "c \<in> set (nat_to_string (n div 10)) \<or> c = digit_char (n mod 10)"
      by (auto simp: nat_to_string.simps [of n])
    then show ?thesis using "1.IH" [OF False] digit [of "n mod 10"] by auto
  qed
qed

lemma nat_to_string_inj: "nat_to_string m = nat_to_string n \<Longrightarrow> m = n"
proof (induction m arbitrary: n rule: nat_to_string.induct)
  case (1 m)
  show ?case
  proof (cases "m < 10")
    case True
    with "1.prems" have "nat_to_string n = [digit_char m]"
      by (simp add: nat_to_string.simps [of m])
    then have "n < 10 \<and> digit_char n = digit_char m"
      by (cases "n < 10") (auto simp: nat_to_string.simps [of n])
    with True show ?thesis using digit_char_inj [of n m] by simp
  next
    case False
    with "1.prems"
    have eq: "nat_to_string n = nat_to_string (m div 10) @ [digit_char (m mod 10)]"
      by (simp add: nat_to_string.simps [of m])
    then have n: "\<not> n < 10"
      by (auto simp: nat_to_string.simps [of n])
    with eq have "nat_to_string (m div 10) = nat_to_string (n div 10)"
      and "digit_char (m mod 10) = digit_char (n mod 10)"
      by (auto simp: nat_to_string.simps [of n])
    then have "m div 10 = n div 10" and "m mod 10 = n mod 10"
      using "1.IH" [OF False] digit_char_inj [of "m mod 10" "n mod 10"] by auto
    then show ?thesis by (metis div_mult_mod_eq)
  qed
qed

lemma nat_to_string_eq_iff [simp]: "nat_to_string m = nat_to_string n \<longleftrightarrow> m = n"
  using nat_to_string_inj by auto

text \<open>A name, a separator and a decimal suffix determine the name and the number.\<close>

lemma suffixed_inj:
  assumes "a @ sep # nat_to_string m = b @ sep # nat_to_string n"
    and "sep \<notin> set ''0123456789''"
  shows "a = b \<and> m = n"
proof -
  have no_sep: "sep \<notin> set (nat_to_string k)" for k
    using assms(2) nat_to_string_digits by blast
  have split: "takeWhile (\<lambda>c. c \<noteq> sep) (rev (xs @ sep # nat_to_string k)) = rev (nat_to_string k)" for xs k
    using no_sep [of k] by (auto simp: takeWhile_append)
  from assms(1) have "rev (nat_to_string m) = rev (nat_to_string n)"
    using split [of a m] split [of b n] by simp
  then have "m = n" by simp
  with assms(1) show ?thesis by simp
qed

section \<open>Results\<close>

text \<open>A computation that may throw: \<open>Inl\<close> carries the error.\<close>

definition rbind :: "'e + 'a \<Rightarrow> ('a \<Rightarrow> 'e + 'b) \<Rightarrow> 'e + 'b" where
  "rbind r f = (case r of Inl e \<Rightarrow> Inl e | Inr a \<Rightarrow> f a)"

lemma rbind_simps [simp]: "rbind (Inl e) f = Inl e" "rbind (Inr a) f = f a"
  by (simp_all add: rbind_def)

lemma rbind_Inr_iff: "rbind r f = Inr b \<longleftrightarrow> (\<exists>a. r = Inr a \<and> f a = Inr b)"
  by (cases r) auto

lemma rbind_unit_iff: "rbind (r :: 'e + unit) f = Inr b \<longleftrightarrow> r = Inr () \<and> f () = Inr b"
  by (cases r) auto

text \<open>A \<open>for\<close> loop whose body only checks: it stops at the first error.\<close>

fun forEach :: "'a list \<Rightarrow> ('a \<Rightarrow> 'e + unit) \<Rightarrow> 'e + unit" where
  "forEach [] f = Inr ()"
| "forEach (x # xs) f = rbind (f x) (\<lambda>_. forEach xs f)"

lemma forEach_Inr_iff: "forEach xs f = Inr () \<longleftrightarrow> (\<forall>x \<in> set xs. f x = Inr ())"
  by (induction xs) (auto simp: rbind_Inr_iff)

text \<open>\<open>if (cond) throw error\<close>.\<close>

definition throwIf :: "bool \<Rightarrow> 'e \<Rightarrow> 'e + unit" where
  "throwIf b e = (if b then Inl e else Inr ())"

lemma throwIf_Inr_iff [simp]: "throwIf b e = Inr () \<longleftrightarrow> \<not> b"
  by (simp add: throwIf_def)

lemma throwIf_simps [simp]: "throwIf True e = Inl e" "throwIf False e = Inr ()"
  by (simp_all add: throwIf_def)

text \<open>\<open>xs.map(f)\<close> with a callback that may throw: the first error in list order wins.\<close>

fun traverse :: "('a \<Rightarrow> 'e + 'b) \<Rightarrow> 'a list \<Rightarrow> 'e + 'b list" where
  "traverse f [] = Inr []"
| "traverse f (x # xs) = rbind (f x) (\<lambda>y. rbind (traverse f xs) (\<lambda>ys. Inr (y # ys)))"

lemma traverse_Inr_iff: "traverse f xs = Inr ys \<longleftrightarrow> list_all2 (\<lambda>x y. f x = Inr y) xs ys"
proof (induction xs arbitrary: ys)
  case (Cons x xs)
  then show ?case by (cases ys) (auto simp: rbind_Inr_iff)
qed auto

lemma traverse_map: "traverse f (map g xs) = traverse (\<lambda>x. f (g x)) xs"
  by (induction xs) auto

lemma traverse_ok: "(\<And>x. x \<in> set xs \<Longrightarrow> f x = Inr (h x)) \<Longrightarrow> traverse f xs = Inr (map h xs)"
  by (induction xs) auto

text \<open>\<open>xs.slice(from, to)\<close> with bounds that are not negative.\<close>

definition slice :: "'a list \<Rightarrow> nat \<Rightarrow> nat \<Rightarrow> 'a list" where
  "slice xs start stop = take (stop - start) (drop start xs)"

lemma slice_empty_iff [simp]: "slice xs a b = [] \<longleftrightarrow> b \<le> a \<or> length xs \<le> a"
  by (auto simp: slice_def)

lemma length_slice: "length (slice xs a b) = min (b - a) (length xs - a)"
  by (auto simp: slice_def)

lemma concat_slices: "concat (map (\<lambda>i. slice xs (i * b) (i * b + b)) [0..<n]) = take (n * b) xs"
proof (induction n)
  case (Suc n)
  then show ?case using take_add [of "n * b" b xs] by (simp add: slice_def add.commute)
qed simp

end
