(* ===== verification/WorkflowGraph.thy ===== *)
theory WorkflowGraph
  imports EnginePrelude
begin

text \<open>
  The execution graph of the engine (\<open>packages/@n8n/engine/src/graph\<close>): the data types of
  \<open>workflow-graph.ts\<close> and the queries of \<open>workflow-graph-queries.ts\<close>. The breadth-first
  search of \<open>getDescendantNodeIds\<close> keeps the source's shape, a queue that doubles as the
  result and an index that only moves forward; its termination measure and its exact
  meaning (the transitive closure of the edge relation) are proved here.
\<close>

section \<open>Data\<close>

datatype step_type = Trigger | V1Node | Wait | Subworkflow | Batch

record graph_node =
  node_id :: string
  node_name :: string
  node_type :: step_type
  node_config :: "json option"

record graph_edge =
  edge_from :: string
  edge_to :: string
  outputIndex :: js_number
  inputIndex :: js_number
  isBackEdge :: bool

record workflow_graph =
  nodes :: "graph_node list"
  edges :: "graph_edge list"

text \<open>
  \<open>isBatchStepConfig\<close>: a non-null object whose \<open>batchSize\<close> is a whole number of at least 1.
  An array is an object too, with no \<open>batchSize\<close>.
\<close>

definition isBatchStepConfig :: "json option \<Rightarrow> bool" where
  "isBatchStepConfig config =
     (case config of
        Some (JObject props) \<Rightarrow>
          (case json_field props ''batchSize'' of
             Some (JNumber n) \<Rightarrow> isInteger n \<and> n \<ge> 1
           | _ \<Rightarrow> False)
      | _ \<Rightarrow> False)"

text \<open>The batch size of a configuration that \<open>isBatchStepConfig\<close> accepts.\<close>

definition batchSize :: "json option \<Rightarrow> nat" where
  "batchSize config =
     (case config of
        Some (JObject props) \<Rightarrow>
          (case json_field props ''batchSize'' of
             Some (JNumber n) \<Rightarrow> nat \<lfloor>n\<rfloor>
           | _ \<Rightarrow> 0)
      | _ \<Rightarrow> 0)"

lemma isBatchStepConfigE:
  assumes "isBatchStepConfig config"
  obtains props n where "config = Some (JObject props)"
    and "json_field props ''batchSize'' = Some (JNumber n)" and "isInteger n" and "n \<ge> 1"
proof -
  obtain props where c: "config = Some (JObject props)"
    using assms unfolding isBatchStepConfig_def by (cases config; cases "the config"; simp)
  obtain n where n: "json_field props ''batchSize'' = Some (JNumber n)"
    using assms c unfolding isBatchStepConfig_def
    by (cases "json_field props ''batchSize''"; cases "the (json_field props ''batchSize'')"; simp)
  with assms c have "isInteger n \<and> n \<ge> 1" by (simp add: isBatchStepConfig_def)
  with c n show thesis by (intro that) auto
qed

lemma batchSize_pos:
  assumes "isBatchStepConfig config"
  shows "1 \<le> batchSize config"
proof -
  obtain props n where c: "config = Some (JObject props)"
    "json_field props ''batchSize'' = Some (JNumber n)" and n: "n \<ge> 1"
    using assms by (rule isBatchStepConfigE)
  from n have "1 \<le> \<lfloor>n\<rfloor>" by (simp add: le_floor_iff)
  then have "1 \<le> nat \<lfloor>n\<rfloor>" by linarith
  with c show ?thesis by (simp add: batchSize_def)
qed

section \<open>Queries\<close>

definition findTriggerNode :: "workflow_graph \<Rightarrow> graph_node option" where
  "findTriggerNode graph = List.find (\<lambda>node. node_type node = Trigger) (nodes graph)"

fun successorsLoop :: "graph_edge list \<Rightarrow> string \<Rightarrow> string list \<Rightarrow> string list" where
  "successorsLoop [] nodeId successors = successors"
| "successorsLoop (e # es) nodeId successors =
     (if edge_from e = nodeId \<and> edge_to e \<notin> set successors
      then successorsLoop es nodeId (successors @ [edge_to e])
      else successorsLoop es nodeId successors)"

definition getSuccessorNodeIds :: "workflow_graph \<Rightarrow> string \<Rightarrow> string list" where
  "getSuccessorNodeIds graph nodeId = successorsLoop (edges graph) nodeId []"

fun predecessorsLoop :: "graph_edge list \<Rightarrow> string \<Rightarrow> string list \<Rightarrow> string list" where
  "predecessorsLoop [] nodeId predecessors = predecessors"
| "predecessorsLoop (e # es) nodeId predecessors =
     (if edge_to e = nodeId \<and> edge_from e \<notin> set predecessors
      then predecessorsLoop es nodeId (predecessors @ [edge_from e])
      else predecessorsLoop es nodeId predecessors)"

definition getPredecessorNodeIds :: "workflow_graph \<Rightarrow> string \<Rightarrow> string list" where
  "getPredecessorNodeIds graph nodeId = predecessorsLoop (edges graph) nodeId []"

text \<open>The inner \<open>for\<close> loop of the search: unseen successors join the queue and \<open>visited\<close>.\<close>

fun enqueueUnvisited ::
  "string list \<Rightarrow> string list \<Rightarrow> string list \<Rightarrow> string list \<times> string list" where
  "enqueueUnvisited [] descendants visited = (descendants, visited)"
| "enqueueUnvisited (s # ss) descendants visited =
     (if s \<in> set visited then enqueueUnvisited ss descendants visited
      else enqueueUnvisited ss (descendants @ [s]) (set_add s visited))"

definition edge_targets :: "workflow_graph \<Rightarrow> string set" where
  "edge_targets graph = edge_to ` set (edges graph)"

lemma successorsLoop_set:
  "set (successorsLoop es n acc) = set acc \<union> {edge_to e | e. e \<in> set es \<and> edge_from e = n}"
  by (induction es n acc rule: successorsLoop.induct) auto

lemma successorsLoop_distinct: "distinct acc \<Longrightarrow> distinct (successorsLoop es n acc)"
  by (induction es n acc rule: successorsLoop.induct) auto

lemma predecessorsLoop_set:
  "set (predecessorsLoop es n acc) = set acc \<union> {edge_from e | e. e \<in> set es \<and> edge_to e = n}"
  by (induction es n acc rule: predecessorsLoop.induct) auto

lemma predecessorsLoop_distinct: "distinct acc \<Longrightarrow> distinct (predecessorsLoop es n acc)"
  by (induction es n acc rule: predecessorsLoop.induct) auto

lemma set_getSuccessorNodeIds:
  "set (getSuccessorNodeIds g n) = {edge_to e | e. e \<in> set (edges g) \<and> edge_from e = n}"
  by (simp add: getSuccessorNodeIds_def successorsLoop_set)

lemma distinct_getSuccessorNodeIds: "distinct (getSuccessorNodeIds g n)"
  by (simp add: getSuccessorNodeIds_def successorsLoop_distinct)

lemma set_getPredecessorNodeIds:
  "set (getPredecessorNodeIds g n) = {edge_from e | e. e \<in> set (edges g) \<and> edge_to e = n}"
  by (simp add: getPredecessorNodeIds_def predecessorsLoop_set)

lemma getSuccessorNodeIds_targets: "set (getSuccessorNodeIds g n) \<subseteq> edge_targets g"
  by (auto simp: set_getSuccessorNodeIds edge_targets_def)

lemma finite_edge_targets [simp]: "finite (edge_targets g)"
  by (simp add: edge_targets_def)

lemma enqueueUnvisited_props:
  assumes "enqueueUnvisited ss d v = (d', v')"
  shows "\<exists>new. d' = d @ new \<and> set v' = set v \<union> set new \<and> distinct new
      \<and> set new = set ss - set v"
  using assms
proof (induction ss d v rule: enqueueUnvisited.induct)
  case (1 d v)
  then show ?case by simp
next
  case (2 s ss d v)
  show ?case
  proof (cases "s \<in> set v")
    case True
    with 2 show ?thesis by auto
  next
    case False
    with 2 obtain new where "d' = (d @ [s]) @ new" "set v' = insert s (set v) \<union> set new"
      "distinct new" "set new = set ss - insert s (set v)"
      by auto
    with False show ?thesis by (intro exI [of _ "s # new"]) auto
  qed
qed

lemma enqueueUnvisited_measure:
  assumes "enqueueUnvisited (getSuccessorNodeIds g n) d v = (d', v')" and "i < length d"
  shows "card (edge_targets g - set v') + (length d' - Suc i)
    < card (edge_targets g - set v) + (length d - i)"
proof -
  obtain new where new: "d' = d @ new" "set v' = set v \<union> set new" "distinct new"
    "set new = set (getSuccessorNodeIds g n) - set v"
    using enqueueUnvisited_props [OF assms(1)] by blast
  have sub: "set new \<subseteq> edge_targets g - set v"
    using new(4) getSuccessorNodeIds_targets by blast
  have "edge_targets g - set v' = (edge_targets g - set v) - set new"
    using new(2) by auto
  then have "card (edge_targets g - set v') = card (edge_targets g - set v) - length new"
    using card_Diff_subset [OF _ sub] distinct_card [OF new(3)] by simp
  moreover have "length new \<le> card (edge_targets g - set v)"
    using card_mono [OF _ sub] distinct_card [OF new(3)] by simp
  ultimately show ?thesis using assms(2) new(1) by simp
qed

function descendantsLoop ::
  "workflow_graph \<Rightarrow> string list \<Rightarrow> string list \<Rightarrow> nat \<Rightarrow> string list" where
  "descendantsLoop graph descendants visited i =
     (if i < length descendants
      then (let (descendants', visited') =
                  enqueueUnvisited (getSuccessorNodeIds graph (descendants ! i)) descendants visited
            in descendantsLoop graph descendants' visited' (Suc i))
      else descendants)"
  by pat_completeness auto
termination
proof (relation "measure (\<lambda>(g, d, v, i). card (edge_targets g - set v) + (length d - i))")
  fix g d v i x d' v'
  assume "i < length d"
    and "x = enqueueUnvisited (getSuccessorNodeIds g (d ! i)) d v" and "(d', v') = x"
  then have "card (edge_targets g - set v') + (length d' - Suc i)
      < card (edge_targets g - set v) + (length d - i)"
    using enqueueUnvisited_measure by metis
  then show "((g, d', v', Suc i), (g, d, v, i))
      \<in> measure (\<lambda>(g, d, v, i). card (edge_targets g - set v) + (length d - i))"
    by simp
qed simp

declare descendantsLoop.simps [simp del]

definition getDescendantNodeIds :: "workflow_graph \<Rightarrow> string \<Rightarrow> string list" where
  "getDescendantNodeIds graph nodeId =
     (let descendants = getSuccessorNodeIds graph nodeId
      in descendantsLoop graph descendants (js_set descendants) 0)"

section \<open>The edge relation and what the queries compute\<close>

definition edge_rel :: "graph_edge list \<Rightarrow> (string \<times> string) set" where
  "edge_rel es = {(edge_from e, edge_to e) | e. e \<in> set es}"

lemma edge_relI: "e \<in> set es \<Longrightarrow> (edge_from e, edge_to e) \<in> edge_rel es"
  by (auto simp: edge_rel_def)

lemma edge_relE:
  assumes "(a, b) \<in> edge_rel es"
  obtains e where "e \<in> set es" "edge_from e = a" "edge_to e = b"
  using assms by (auto simp: edge_rel_def)

lemma finite_edge_rel [simp]: "finite (edge_rel es)"
proof -
  have "edge_rel es = (\<lambda>e. (edge_from e, edge_to e)) ` set es" by (auto simp: edge_rel_def)
  then show ?thesis by simp
qed

lemma edge_rel_mono: "set es \<subseteq> set es' \<Longrightarrow> edge_rel es \<subseteq> edge_rel es'"
  by (auto simp: edge_rel_def)

lemma successor_iff_edge: "m \<in> set (getSuccessorNodeIds g n) \<longleftrightarrow> (n, m) \<in> edge_rel (edges g)"
  by (auto simp: set_getSuccessorNodeIds edge_rel_def)

lemma predecessor_iff_edge: "m \<in> set (getPredecessorNodeIds g n) \<longleftrightarrow> (m, n) \<in> edge_rel (edges g)"
  by (auto simp: set_getPredecessorNodeIds edge_rel_def)

text \<open>
  The invariant of the search started at \<open>n\<close>: the queue is distinct, \<open>visited\<close> holds the
  same ids, everything queued is reachable from \<open>n\<close> in at least one edge, the direct
  successors are queued, and every id before the index has all its successors queued.
\<close>

definition bfs_inv :: "workflow_graph \<Rightarrow> string \<Rightarrow> string list \<Rightarrow> string list \<Rightarrow> nat \<Rightarrow> bool" where
  "bfs_inv g n d v i \<longleftrightarrow>
     distinct d \<and> set v = set d
     \<and> (\<forall>m \<in> set d. (n, m) \<in> (edge_rel (edges g))\<^sup>+)
     \<and> set (getSuccessorNodeIds g n) \<subseteq> set d
     \<and> (\<forall>j < min i (length d). set (getSuccessorNodeIds g (d ! j)) \<subseteq> set d)"

lemma bfs_inv_step:
  assumes inv: "bfs_inv g n d v i" and i: "i < length d"
    and step: "enqueueUnvisited (getSuccessorNodeIds g (d ! i)) d v = (d', v')"
  shows "bfs_inv g n d' v' (Suc i)"
proof -
  obtain new where new: "d' = d @ new" "set v' = set v \<union> set new" "distinct new"
    "set new = set (getSuccessorNodeIds g (d ! i)) - set v"
    using enqueueUnvisited_props [OF step] by blast
  have reach: "(n, m) \<in> (edge_rel (edges g))\<^sup>+" if "m \<in> set new" for m
  proof -
    have "(d ! i, m) \<in> edge_rel (edges g)" using that new(4) by (simp add: successor_iff_edge)
    moreover have "(n, d ! i) \<in> (edge_rel (edges g))\<^sup>+" using inv i by (simp add: bfs_inv_def)
    ultimately show ?thesis by (rule trancl_into_trancl [rotated])
  qed
  have cover: "set (getSuccessorNodeIds g (d' ! j)) \<subseteq> set d'" if "j < Suc i" for j
  proof (cases "j = i")
    case True
    then show ?thesis using new i inv by (auto simp: bfs_inv_def nth_append)
  next
    case False
    with that have "j < i" by simp
    then show ?thesis using inv i new(1) by (fastforce simp: bfs_inv_def nth_append)
  qed
  show ?thesis
    using inv new reach cover unfolding bfs_inv_def by auto
qed

lemma bfs_inv_result:
  "bfs_inv g n d v i \<Longrightarrow> \<exists>v' j. bfs_inv g n (descendantsLoop g d v i) v' j
      \<and> length (descendantsLoop g d v i) \<le> j"
proof (induction g d v i rule: descendantsLoop.induct)
  case (1 g d v i)
  show ?case
  proof (cases "i < length d")
    case True
    obtain d' v' where step: "enqueueUnvisited (getSuccessorNodeIds g (d ! i)) d v = (d', v')"
      by fastforce
    have "bfs_inv g n d' v' (Suc i)" by (rule bfs_inv_step [OF "1.prems" True step])
    with "1.IH" [OF True step [symmetric] refl] show ?thesis
      using True step by (simp add: descendantsLoop.simps [of g d v i])
  next
    case False
    with "1.prems" show ?thesis
      by (intro exI [of _ v] exI [of _ i]) (simp add: descendantsLoop.simps [of g d v i])
  qed
qed

lemma descendants_inv:
  "\<exists>v j. bfs_inv g n (getDescendantNodeIds g n) v j \<and> length (getDescendantNodeIds g n) \<le> j"
proof -
  have "bfs_inv g n (getSuccessorNodeIds g n) (js_set (getSuccessorNodeIds g n)) 0"
    by (simp add: bfs_inv_def distinct_getSuccessorNodeIds successor_iff_edge r_into_trancl')
  then show ?thesis
    unfolding getDescendantNodeIds_def Let_def by (rule bfs_inv_result)
qed

lemma distinct_getDescendantNodeIds: "distinct (getDescendantNodeIds g n)"
  using descendants_inv [of g n] by (auto simp: bfs_inv_def)

lemma set_getDescendantNodeIds:
  "set (getDescendantNodeIds g n) = {m. (n, m) \<in> (edge_rel (edges g))\<^sup>+}"
proof -
  let ?d = "getDescendantNodeIds g n"
  obtain v j where inv: "bfs_inv g n ?d v j" and j: "length ?d \<le> j"
    using descendants_inv by blast
  have closed: "b \<in> set ?d" if a: "a \<in> set ?d" and "(a, b) \<in> edge_rel (edges g)" for a b
  proof -
    obtain k where k: "k < length ?d" "a = ?d ! k"
      using a unfolding in_set_conv_nth by blast
    have b: "b \<in> set (getSuccessorNodeIds g a)" using that(2) by (simp add: successor_iff_edge)
    from inv have "\<forall>k < min j (length ?d). set (getSuccessorNodeIds g (?d ! k)) \<subseteq> set ?d"
      unfolding bfs_inv_def by (elim conjE)
    moreover have "k < min j (length ?d)" using k(1) j by simp
    ultimately have "set (getSuccessorNodeIds g a) \<subseteq> set ?d" using k(2) by simp
    with b show ?thesis by blast
  qed
  have "m \<in> set ?d" if "(n, m) \<in> (edge_rel (edges g))\<^sup>+" for m
    using that
  proof (induction rule: trancl_induct)
    case (base y)
    with inv show ?case by (auto simp: bfs_inv_def successor_iff_edge)
  next
    case (step y z)
    then show ?case using closed by blast
  qed
  moreover from inv have "\<forall>m \<in> set ?d. (n, m) \<in> (edge_rel (edges g))\<^sup>+"
    unfolding bfs_inv_def by (elim conjE)
  ultimately show ?thesis by blast
qed

section \<open>Node lookups\<close>

definition node_ids :: "workflow_graph \<Rightarrow> string list" where
  "node_ids g = map node_id (nodes g)"

lemma findTriggerNode_Some:
  "findTriggerNode g = Some t \<Longrightarrow> t \<in> set (nodes g) \<and> node_type t = Trigger"
  unfolding findTriggerNode_def by (rule find_Some_in)

end
