(* ===== verification/SccCorrect.thy ===== *)
theory SccCorrect
  imports SccTarjan
begin

text \<open>
  Correctness of the strongly-connected-component map of \<open>computeSccMembership\<close>. The
  invariant speaks about the nodes whose \<open>connect\<close> call is still active (the argument
  \<open>G\<close>): an older stack entry reaches every younger one, every stack entry reaches an
  active one at least as old, and what has been popped is a union of complete components
  with no edge leaving it.
\<close>

section \<open>Specification\<close>

definition scc_of :: "graph_edge list \<Rightarrow> string \<Rightarrow> string set" where
  "scc_of es v = {w. (v, w) \<in> (edge_rel es)\<^sup>* \<and> (w, v) \<in> (edge_rel es)\<^sup>*}"

lemma scc_of_refl [simp]: "v \<in> scc_of es v"
  by (simp add: scc_of_def)

lemma scc_of_sym: "w \<in> scc_of es v \<longleftrightarrow> v \<in> scc_of es w"
  by (auto simp: scc_of_def)

lemma scc_of_eq: "w \<in> scc_of es v \<Longrightarrow> scc_of es w = scc_of es v"
  unfolding scc_of_def by (auto intro: rtrancl_trans)

section \<open>Invariant\<close>

definition idx :: "tarjan \<Rightarrow> string \<Rightarrow> nat" where
  "idx s v = the (indexById s v)"

definition low :: "tarjan \<Rightarrow> string \<Rightarrow> nat" where
  "low s v = the (lowlinkById s v)"

definition finished :: "tarjan \<Rightarrow> string set" where
  "finished s = fst ` set (membership s)"

definition stack_ok :: "tarjan \<Rightarrow> bool" where
  "stack_ok s \<longleftrightarrow> onStack s = set (stack s)
     \<and> sorted_wrt (\<lambda>x y. idx s y < idx s x) (stack s)"

definition index_ok :: "tarjan \<Rightarrow> bool" where
  "index_ok s \<longleftrightarrow> (\<forall>v \<in> dom (indexById s). idx s v < nextIndex s)
     \<and> dom (indexById s) = set (stack s) \<union> finished s
     \<and> set (stack s) \<inter> finished s = {}
     \<and> dom (lowlinkById s) = dom (indexById s)"

definition gray_ok :: "graph_edge list \<Rightarrow> string set \<Rightarrow> tarjan \<Rightarrow> bool" where
  "gray_ok es G s \<longleftrightarrow> G \<subseteq> set (stack s)
     \<and> (\<forall>y \<in> set (stack s). \<exists>g \<in> G. idx s g \<le> idx s y \<and> (y, g) \<in> (edge_rel es)\<^sup>*)
     \<and> (\<forall>x \<in> set (stack s). \<forall>y \<in> set (stack s).
          idx s x \<le> idx s y \<longrightarrow> (x, y) \<in> (edge_rel es)\<^sup>*)"

definition edges_ok :: "graph_edge list \<Rightarrow> string set \<Rightarrow> tarjan \<Rightarrow> bool" where
  "edges_ok es G s \<longleftrightarrow>
     (\<forall>x \<in> dom (indexById s) - G. \<forall>y. (x, y) \<in> edge_rel es \<longrightarrow> y \<in> dom (indexById s))
     \<and> (\<forall>x \<in> finished s. \<forall>y. (x, y) \<in> edge_rel es \<longrightarrow> y \<in> finished s)"

definition member_ok :: "graph_edge list \<Rightarrow> tarjan \<Rightarrow> bool" where
  "member_ok es s \<longleftrightarrow> distinct (map fst (membership s))
     \<and> (\<forall>(v, m) \<in> set (membership s). set m = scc_of es v \<and> distinct m)"

definition twf :: "graph_edge list \<Rightarrow> string set \<Rightarrow> tarjan \<Rightarrow> bool" where
  "twf es G s \<longleftrightarrow> stack_ok s \<and> index_ok s \<and> gray_ok es G s \<and> edges_ok es G s \<and> member_ok es s"

lemmas twf_defs = twf_def stack_ok_def index_ok_def gray_ok_def edges_ok_def member_ok_def

lemma twf_onStack: "twf es G s \<Longrightarrow> onStack s = set (stack s)"
  and twf_sorted: "twf es G s \<Longrightarrow> sorted_wrt (\<lambda>x y. idx s y < idx s x) (stack s)"
  and twf_idx_lt: "twf es G s \<Longrightarrow> v \<in> dom (indexById s) \<Longrightarrow> idx s v < nextIndex s"
  and twf_dom: "twf es G s \<Longrightarrow> dom (indexById s) = set (stack s) \<union> finished s"
  and twf_disjoint: "twf es G s \<Longrightarrow> set (stack s) \<inter> finished s = {}"
  and twf_dom_low: "twf es G s \<Longrightarrow> dom (lowlinkById s) = dom (indexById s)"
  and twf_gray_sub: "twf es G s \<Longrightarrow> G \<subseteq> set (stack s)"
  and twf_gray: "twf es G s \<Longrightarrow> y \<in> set (stack s) \<Longrightarrow>
     \<exists>g \<in> G. idx s g \<le> idx s y \<and> (y, g) \<in> (edge_rel es)\<^sup>*"
  and twf_order: "twf es G s \<Longrightarrow> x \<in> set (stack s) \<Longrightarrow> y \<in> set (stack s) \<Longrightarrow>
     idx s x \<le> idx s y \<Longrightarrow> (x, y) \<in> (edge_rel es)\<^sup>*"
  and twf_black: "twf es G s \<Longrightarrow> x \<in> dom (indexById s) \<Longrightarrow> x \<notin> G \<Longrightarrow>
     (x, y) \<in> edge_rel es \<Longrightarrow> y \<in> dom (indexById s)"
  and twf_closed: "twf es G s \<Longrightarrow> x \<in> finished s \<Longrightarrow> (x, y) \<in> edge_rel es \<Longrightarrow> y \<in> finished s"
  and twf_member: "twf es G s \<Longrightarrow> member_ok es s"
  unfolding twf_def stack_ok_def index_ok_def gray_ok_def edges_ok_def by blast+

lemma twfI:
  assumes "onStack s = set (stack s)" and "sorted_wrt (\<lambda>x y. idx s y < idx s x) (stack s)"
    and "\<And>v. v \<in> dom (indexById s) \<Longrightarrow> idx s v < nextIndex s"
    and "dom (indexById s) = set (stack s) \<union> finished s" and "set (stack s) \<inter> finished s = {}"
    and "dom (lowlinkById s) = dom (indexById s)" and "G \<subseteq> set (stack s)"
    and "\<And>y. y \<in> set (stack s) \<Longrightarrow> \<exists>g \<in> G. idx s g \<le> idx s y \<and> (y, g) \<in> (edge_rel es)\<^sup>*"
    and "\<And>x y. x \<in> set (stack s) \<Longrightarrow> y \<in> set (stack s) \<Longrightarrow> idx s x \<le> idx s y \<Longrightarrow>
      (x, y) \<in> (edge_rel es)\<^sup>*"
    and "\<And>x y. x \<in> dom (indexById s) \<Longrightarrow> x \<notin> G \<Longrightarrow> (x, y) \<in> edge_rel es \<Longrightarrow>
      y \<in> dom (indexById s)"
    and "\<And>x y. x \<in> finished s \<Longrightarrow> (x, y) \<in> edge_rel es \<Longrightarrow> y \<in> finished s"
    and "member_ok es s"
  shows "twf es G s"
proof -
  have "stack_ok s" using assms(1,2) by (simp add: stack_ok_def)
  moreover have "index_ok s"
    unfolding index_ok_def by (intro conjI ballI assms(3-6))
  moreover have "gray_ok es G s"
    unfolding gray_ok_def by (intro conjI ballI impI assms(7-9))
  moreover have "edges_ok es G s"
    unfolding edges_ok_def using assms(10,11) by (intro conjI ballI allI impI) blast+
  ultimately show ?thesis using assms(12) by (simp add: twf_def)
qed

lemma twf_init: "twf es {} initTarjan"
  by (simp add: twf_defs initTarjan_def finished_def)

lemma twf_distinct_stack: "twf es G s \<Longrightarrow> distinct (stack s)"
  by (rule sorted_wrt_irrefl_distinct [of "\<lambda>x y. idx s y < idx s x"]) (simp_all add: twf_sorted)

lemma twf_stack_dom: "twf es G s \<Longrightarrow> v \<in> set (stack s) \<Longrightarrow> v \<in> dom (indexById s)"
  by (simp add: twf_dom)

section \<open>Frame\<close>

text \<open>What a call leaves alone: old indices, the counter's direction, other low links.\<close>

definition ext :: "string set \<Rightarrow> tarjan \<Rightarrow> tarjan \<Rightarrow> bool" where
  "ext X s s' \<longleftrightarrow> indexById s \<subseteq>\<^sub>m indexById s' \<and> nextIndex s \<le> nextIndex s'
     \<and> (\<forall>u \<in> dom (indexById s) - X. lowlinkById s' u = lowlinkById s u)
     \<and> (\<forall>u \<in> dom (indexById s') - dom (indexById s). nextIndex s \<le> idx s' u)"

lemma ext_refl [simp]: "ext X s s"
  by (simp add: ext_def)

lemma ext_idx: "ext X s s' \<Longrightarrow> u \<in> dom (indexById s) \<Longrightarrow> idx s' u = idx s u"
  by (auto simp: ext_def idx_def map_le_def)

lemma ext_dom: "ext X s s' \<Longrightarrow> u \<in> dom (indexById s) \<Longrightarrow> u \<in> dom (indexById s')"
  by (auto simp: ext_def map_le_def dom_def)

lemma ext_trans:
  assumes a: "ext X s s'" and b: "ext Y s' s''" and sub: "Y \<inter> dom (indexById s) \<subseteq> X"
  shows "ext X s s''"
proof -
  have "lowlinkById s'' u = lowlinkById s u" if u: "u \<in> dom (indexById s) - X" for u
  proof -
    have "u \<in> dom (indexById s') - Y" using u sub ext_dom [OF a] by blast
    then have "lowlinkById s'' u = lowlinkById s' u" using b by (simp add: ext_def)
    also have "\<dots> = lowlinkById s u" using a u by (simp add: ext_def)
    finally show ?thesis .
  qed
  moreover have "nextIndex s \<le> idx s'' u" if u: "u \<in> dom (indexById s'') - dom (indexById s)" for u
  proof (cases "u \<in> dom (indexById s')")
    case True
    then have "idx s'' u = idx s' u" by (rule ext_idx [OF b])
    with True u a show ?thesis by (simp add: ext_def)
  next
    case False
    with u b have "nextIndex s' \<le> idx s'' u" by (simp add: ext_def)
    with a show ?thesis by (simp add: ext_def)
  qed
  ultimately show ?thesis
    using a b by (auto simp: ext_def intro: map_le_trans)
qed

lemma idx_updates [simp]:
  "idx (lowerTo v n s) = idx s"
  "idx (popScc v s) = idx s"
  by (rule ext, simp add: idx_def)+

lemma lowerTo_sel [simp]:
  "stack (lowerTo v n s) = stack s" "onStack (lowerTo v n s) = onStack s"
  "membership (lowerTo v n s) = membership s" "nextIndex (lowerTo v n s) = nextIndex s"
  "finished (lowerTo v n s) = finished s"
  by (simp_all add: lowerTo_def finished_def)

lemma low_lowerTo [simp]: "low (lowerTo v n s) v = min (low s v) n"
  by (simp add: lowerTo_def low_def)

lemma ext_lowerTo: "ext {v} s (lowerTo v n s)"
  by (auto simp: ext_def lowerTo_def)

lemma pushNode_sel [simp]:
  "stack (pushNode v s) = v # stack s" "onStack (pushNode v s) = insert v (onStack s)"
  "membership (pushNode v s) = membership s" "nextIndex (pushNode v s) = Suc (nextIndex s)"
  "finished (pushNode v s) = finished s"
  "lowlinkById (pushNode v s) = (lowlinkById s)(v \<mapsto> nextIndex s)"
  by (simp_all add: pushNode_def finished_def)

lemma idx_pushNode: "idx (pushNode v s) u = (if u = v then nextIndex s else idx s u)"
  by (simp add: idx_def)

lemma ext_pushNode: "indexById s v = None \<Longrightarrow> ext {} s (pushNode v s)"
  by (auto simp: ext_def idx_pushNode map_le_def)

lemma twf_lowerTo:
  assumes wf: "twf es G s" and v: "v \<in> dom (indexById s)"
  shows "twf es G (lowerTo v n s)"
proof -
  have "dom (lowlinkById (lowerTo v n s)) = insert v (dom (lowlinkById s))"
    by (auto simp: lowerTo_def)
  also have "\<dots> = dom (indexById s)" using twf_dom_low [OF wf] v by auto
  finally have dom: "dom (lowlinkById (lowerTo v n s)) = dom (indexById s)" .
  show ?thesis
  proof (rule twfI, goal_cases)
    case 3 then show ?case using twf_idx_lt [OF wf] by simp
  next
    case 4 show ?case using twf_dom [OF wf] by simp
  next
    case 8 then show ?case using twf_gray [OF wf] by simp
  next
    case 9 then show ?case using twf_order [OF wf] by simp
  next
    case 10 then show ?case using twf_black [OF wf] by simp
  next
    case 11 then show ?case using twf_closed [OF wf] by simp
  next
    case 12 show ?case using twf_member [OF wf] by (simp add: member_ok_def)
  qed (use dom twf_onStack [OF wf] twf_sorted [OF wf] twf_disjoint [OF wf] twf_gray_sub [OF wf]
      in simp_all)
qed

section \<open>Entering a node\<close>

lemma twf_push:
  assumes wf: "twf es G s" and new: "indexById s v = None"
    and reach: "\<forall>g \<in> G. (g, v) \<in> (edge_rel es)\<^sup>*"
  shows "twf es (insert v G) (pushNode v s)"
proof -
  let ?s = "pushNode v s"
  have v: "v \<notin> dom (indexById s)" using new by (simp add: domIff)
  have neq: "u \<noteq> v" if "u \<in> set (stack s)" for u
    using twf_stack_dom [OF wf that] v by blast
  have idx_old: "idx ?s u = idx s u" if "u \<in> set (stack s)" for u
    using neq [OF that] by (simp add: idx_pushNode)
  have idx_lt: "idx s u < nextIndex s" if "u \<in> set (stack s)" for u
    by (rule twf_idx_lt [OF wf twf_stack_dom [OF wf that]])
  have to_v: "(x, v) \<in> (edge_rel es)\<^sup>*" if "x \<in> set (stack s)" for x
    using twf_gray [OF wf that] reach by (meson rtrancl_trans)
  have "sorted_wrt (\<lambda>x y. idx ?s y < idx ?s x) (stack s)"
    by (rule sorted_wrt_mono_rel [OF _ twf_sorted [OF wf]]) (simp add: idx_old)
  then have sorted: "sorted_wrt (\<lambda>x y. idx ?s y < idx ?s x) (stack ?s)"
    using idx_old idx_lt by (simp add: idx_pushNode)
  have order: "(x, y) \<in> (edge_rel es)\<^sup>*"
    if x: "x \<in> set (stack ?s)" and y: "y \<in> set (stack ?s)" and le: "idx ?s x \<le> idx ?s y" for x y
  proof (cases "y = v")
    case True
    with x to_v show ?thesis by auto
  next
    case False
    then have y': "y \<in> set (stack s)" using y by simp
    then have "x \<noteq> v" using le idx_lt [OF y'] idx_old [OF y'] by (auto simp: idx_pushNode)
    then have x': "x \<in> set (stack s)" using x by simp
    show ?thesis
      by (rule twf_order [OF wf x' y']) (use le idx_old [OF x'] idx_old [OF y'] in simp)
  qed
  have gray: "\<exists>g \<in> insert v G. idx ?s g \<le> idx ?s y \<and> (y, g) \<in> (edge_rel es)\<^sup>*"
    if y: "y \<in> set (stack ?s)" for y
  proof (cases "y = v")
    case False
    with y have y': "y \<in> set (stack s)" by simp
    then obtain g where g: "g \<in> G" "idx s g \<le> idx s y" "(y, g) \<in> (edge_rel es)\<^sup>*"
      using twf_gray [OF wf] by blast
    have "g \<in> set (stack s)" using twf_gray_sub [OF wf] g(1) by blast
    with g y' show ?thesis by (auto simp: idx_old)
  qed auto
  show ?thesis
  proof (rule twfI, goal_cases)
    case 1 show ?case using twf_onStack [OF wf] by simp
  next
    case 3 then show ?case
      using twf_idx_lt [OF wf] by (auto simp: idx_pushNode less_Suc_eq)
  next
    case 4 show ?case using twf_dom [OF wf] unfolding dom_pushNode by simp
  next
    case 5 show ?case using twf_disjoint [OF wf] twf_dom [OF wf] v by simp
  next
    case 6 show ?case using twf_dom_low [OF wf] unfolding dom_pushNode by simp
  next
    case 7 show ?case using twf_gray_sub [OF wf] by auto
  next
    case 10 then show ?case using twf_black [OF wf] unfolding dom_pushNode by blast
  next
    case 11 then show ?case using twf_closed [OF wf] by simp
  next
    case 12 show ?case using twf_member [OF wf] by (simp add: member_ok_def)
  qed (use sorted gray order in blast)+
qed

section \<open>The loop over the outgoing edges\<close>

text \<open>
  \<open>loop_inv\<close>: \<open>v\<close> is active with \<open>st\<close> below it on the stack, and the targets \<open>D\<close> have been
  looked at. The low link of \<open>v\<close> bounds every edge found so far into \<open>st\<close> and, when it is
  smaller than \<open>v\<close>'s index, is the index of a node of \<open>st\<close> that \<open>v\<close> reaches.
\<close>

definition loop_inv ::
  "graph_edge list \<Rightarrow> string set \<Rightarrow> string \<Rightarrow> string list \<Rightarrow> string set \<Rightarrow> tarjan \<Rightarrow> bool" where
  "loop_inv es G v st D s \<longleftrightarrow> twf es (insert v G) s \<and> G \<subseteq> set st
     \<and> (\<forall>g \<in> G. (g, v) \<in> (edge_rel es)\<^sup>*)
     \<and> (\<exists>new. stack s = new @ v # st
          \<and> (\<forall>x \<in> set new. \<forall>y \<in> set st. (x, y) \<in> edge_rel es \<longrightarrow> low s v \<le> idx s y))
     \<and> D \<subseteq> dom (indexById s) \<and> (\<forall>y \<in> D \<inter> set st. low s v \<le> idx s y)
     \<and> low s v \<le> idx s v
     \<and> (low s v < idx s v \<longrightarrow> (\<exists>y \<in> set st. idx s y = low s v \<and> (v, y) \<in> (edge_rel es)\<^sup>*))"

definition connect_post ::
  "graph_edge list \<Rightarrow> string set \<Rightarrow> string \<Rightarrow> tarjan \<Rightarrow> tarjan \<Rightarrow> bool" where
  "connect_post es G v s s' \<longleftrightarrow> twf es G s' \<and> ext {} s s' \<and> v \<in> dom (indexById s')
     \<and> (\<exists>new. stack s' = new @ stack s
          \<and> (\<forall>x \<in> set new. \<forall>y \<in> set (stack s). (x, y) \<in> edge_rel es \<longrightarrow> low s' v \<le> idx s' y))
     \<and> low s' v \<le> idx s' v
     \<and> (low s' v < idx s' v \<longrightarrow>
          (\<exists>y \<in> set (stack s). idx s' y = low s' v \<and> (v, y) \<in> (edge_rel es)\<^sup>*))"

lemma loop_init:
  assumes wf: "twf es G s" and new: "indexById s v = None"
    and reach: "\<forall>g \<in> G. (g, v) \<in> (edge_rel es)\<^sup>*"
  shows "loop_inv es G v (stack s) {} (pushNode v s)"
proof -
  have "low (pushNode v s) v = idx (pushNode v s) v"
    by (simp add: low_def idx_pushNode)
  then show ?thesis
    using twf_push [OF wf new reach] twf_gray_sub [OF wf] reach by (simp add: loop_inv_def)
qed

lemma loop_split: "loop_inv es G v st D s \<Longrightarrow> \<exists>new. stack s = new @ v # st"
  unfolding loop_inv_def by blast

text \<open>Below \<open>v\<close> on the stack the indices are smaller, above it they are larger.\<close>

lemma loop_below:
  assumes "loop_inv es G v st D s" and "y \<in> set st"
  shows "idx s y < idx s v"
proof -
  obtain new where "stack s = new @ v # st" using assms(1) unfolding loop_inv_def by blast
  moreover have "sorted_wrt (\<lambda>x y. idx s y < idx s x) (stack s)"
    using assms(1) unfolding loop_inv_def by (blast intro: twf_sorted)
  ultimately show ?thesis using assms(2) by (simp add: sorted_wrt_append)
qed

lemma loop_smaller:
  assumes "loop_inv es G v st D s" and "y \<in> set (stack s)" and "idx s y < idx s v"
  shows "y \<in> set st"
proof -
  obtain new where "stack s = new @ v # st" using assms(1) unfolding loop_inv_def by blast
  moreover have "sorted_wrt (\<lambda>x y. idx s y < idx s x) (stack s)"
    using assms(1) unfolding loop_inv_def by (blast intro: twf_sorted)
  ultimately show ?thesis using assms(2,3) by (auto simp: sorted_wrt_append)
qed

lemma loop_stack:
  assumes "loop_inv es G v st D s"
  shows "v \<in> set (stack s)" and "set st \<subseteq> set (stack s)" and "v \<in> dom (indexById s)"
    and "twf es (insert v G) s"
proof -
  obtain new where "stack s = new @ v # st" using assms unfolding loop_inv_def by blast
  then show "v \<in> set (stack s)" "set st \<subseteq> set (stack s)" by auto
  moreover show "twf es (insert v G) s" using assms unfolding loop_inv_def by blast
  ultimately show "v \<in> dom (indexById s)" using twf_stack_dom by metis
qed

text \<open>A lowered link keeps the invariant when the new bound is justified.\<close>

lemma loop_lower:
  assumes inv: "loop_inv es G v st D s"
    and low: "n < low s v \<Longrightarrow> \<exists>y \<in> set st. idx s y = n \<and> (v, y) \<in> (edge_rel es)\<^sup>*"
    and w: "w \<in> dom (indexById s)" and bound: "w \<in> set st \<Longrightarrow> n \<le> idx s w"
  shows "loop_inv es G v st (insert w D) (lowerTo v n s)"
proof -
  let ?s = "lowerTo v n s"
  have wf: "twf es (insert v G) ?s"
    by (rule twf_lowerTo [OF loop_stack(4) [OF inv] loop_stack(3) [OF inv]])
  have low_v: "low ?s v = min (low s v) n" by simp
  have reach: "\<exists>y \<in> set st. idx ?s y = low ?s v \<and> (v, y) \<in> (edge_rel es)\<^sup>*"
    if lt: "low ?s v < idx ?s v"
  proof (cases "n < low s v")
    case True
    with low show ?thesis by simp
  next
    case False
    then have "low ?s v = low s v" by simp
    with lt inv show ?thesis unfolding loop_inv_def by auto
  qed
  obtain new where new: "stack s = new @ v # st"
    "\<forall>x \<in> set new. \<forall>y \<in> set st. (x, y) \<in> edge_rel es \<longrightarrow> low s v \<le> idx s y"
    using inv unfolding loop_inv_def by blast
  have "\<exists>new. stack ?s = new @ v # st
      \<and> (\<forall>x \<in> set new. \<forall>y \<in> set st. (x, y) \<in> edge_rel es \<longrightarrow> low ?s v \<le> idx ?s y)"
    using new by (intro exI [of _ new]) (auto simp: low_v intro: min.coboundedI1)
  moreover have "\<forall>y \<in> insert w D \<inter> set st. low ?s v \<le> idx ?s y"
  proof
    fix y assume y: "y \<in> insert w D \<inter> set st"
    show "low ?s v \<le> idx ?s y"
    proof (cases "y = w")
      case True
      with y bound have "n \<le> idx s y" by simp
      then show ?thesis by (simp add: low_v min.coboundedI2)
    next
      case False
      with y inv have "low s v \<le> idx s y" unfolding loop_inv_def by blast
      then show ?thesis by (simp add: low_v min.coboundedI1)
    qed
  qed
  moreover have "low ?s v \<le> idx ?s v"
    using inv unfolding loop_inv_def by (simp add: low_v min.coboundedI1)
  moreover have "G \<subseteq> set st" "\<forall>g \<in> G. (g, v) \<in> (edge_rel es)\<^sup>*" "insert w D \<subseteq> dom (indexById ?s)"
    using inv w unfolding loop_inv_def by auto
  ultimately show ?thesis using wf reach unfolding loop_inv_def by blast
qed

lemma loop_onStack:
  assumes inv: "loop_inv es G v st D s" and edge: "(v, w) \<in> edge_rel es"
    and on: "w \<in> onStack s"
  shows "loop_inv es G v st (insert w D) (lowerTo v (idx s w) s)"
proof (rule loop_lower [OF inv])
  have st: "w \<in> set (stack s)" using on twf_onStack [OF loop_stack(4) [OF inv]] by simp
  then show "w \<in> dom (indexById s)" by (rule twf_stack_dom [OF loop_stack(4) [OF inv]])
  assume "idx s w < low s v"
  then have "idx s w < idx s v" using inv unfolding loop_inv_def by simp
  then have "w \<in> set st" by (rule loop_smaller [OF inv st])
  with edge show "\<exists>y \<in> set st. idx s y = idx s w \<and> (v, y) \<in> (edge_rel es)\<^sup>*" by blast
qed simp

lemma loop_finished:
  assumes inv: "loop_inv es G v st D s" and "indexById s w \<noteq> None" and off: "w \<notin> onStack s"
  shows "loop_inv es G v st (insert w D) s"
proof -
  have "w \<notin> set st"
    using off twf_onStack [OF loop_stack(4) [OF inv]] loop_stack(2) [OF inv] by blast
  moreover have "w \<in> dom (indexById s)" using assms(2) by blast
  ultimately show ?thesis using inv unfolding loop_inv_def by blast
qed

text \<open>Returning from a recursive call on an unindexed target \<open>w\<close>.\<close>

lemma connect_low_bound:
  assumes inv: "loop_inv es G v st D s" and edge: "(v, w) \<in> edge_rel es"
    and new: "indexById s w = None" and post: "connect_post es (insert v G) w s s'"
    and lt: "low s' w < low s v"
  shows "\<exists>y \<in> set st. idx s y = low s' w \<and> (v, y) \<in> (edge_rel es)\<^sup>*"
proof -
  have ext: "ext {} s s'" using post unfolding connect_post_def by blast
  have le_v: "low s v \<le> idx s v" using inv unfolding loop_inv_def by blast
  have "w \<in> dom (indexById s') - dom (indexById s)"
    using post new unfolding connect_post_def by (auto simp: domIff)
  then have "nextIndex s \<le> idx s' w" using ext unfolding ext_def by blast
  moreover have "idx s v < nextIndex s"
    by (rule twf_idx_lt [OF loop_stack(4) [OF inv] loop_stack(3) [OF inv]])
  ultimately have "low s' w < idx s' w" using lt le_v by simp
  then obtain y where y: "y \<in> set (stack s)" "idx s' y = low s' w" "(w, y) \<in> (edge_rel es)\<^sup>*"
    using post unfolding connect_post_def by blast
  have "idx s y = low s' w"
    using y(2) ext_idx [OF ext twf_stack_dom [OF loop_stack(4) [OF inv] y(1)]] by simp
  moreover have "y \<in> set st"
    by (rule loop_smaller [OF inv y(1)]) (use calculation lt le_v in simp)
  moreover have "(v, y) \<in> (edge_rel es)\<^sup>*"
    using edge y(3) by (rule converse_rtrancl_into_rtrancl)
  ultimately show ?thesis by blast
qed

lemma loop_return:
  assumes inv: "loop_inv es G v st D s" and edge: "(v, w) \<in> edge_rel es"
    and new: "indexById s w = None" and post: "connect_post es (insert v G) w s s'"
  shows "loop_inv es G v st (insert w D) (lowerTo v (low s' w) s')"
proof -
  let ?s = "lowerTo v (low s' w) s'"
  have ext: "ext {} s s'" and wf: "twf es (insert v G) s'" and w: "w \<in> dom (indexById s')"
    using post unfolding connect_post_def by blast+
  have v_dom: "v \<in> dom (indexById s')" by (rule ext_dom [OF ext loop_stack(3) [OF inv]])
  have st_sub: "set st \<subseteq> dom (indexById s)"
    using loop_stack(2) [OF inv] twf_stack_dom [OF loop_stack(4) [OF inv]] by blast
  have st: "idx ?s y = idx s y" if "y \<in> set st" for y
    using ext_idx [OF ext, of y] st_sub that by auto
  have v: "idx ?s v = idx s v" using ext_idx [OF ext loop_stack(3) [OF inv]] by simp
  have "low s' v = low s v"
    using ext loop_stack(3) [OF inv] unfolding ext_def low_def by auto
  then have low: "low ?s v = min (low s v) (low s' w)" by simp
  obtain old where old: "stack s = old @ v # st"
    "\<forall>x \<in> set old. \<forall>y \<in> set st. (x, y) \<in> edge_rel es \<longrightarrow> low s v \<le> idx s y"
    using inv unfolding loop_inv_def by blast
  obtain add where add: "stack s' = add @ stack s"
    "\<forall>x \<in> set add. \<forall>y \<in> set (stack s). (x, y) \<in> edge_rel es \<longrightarrow> low s' w \<le> idx s' y"
    using post unfolding connect_post_def by blast
  have bound: "low ?s v \<le> idx ?s y"
    if x: "x \<in> set (add @ old)" and y: "y \<in> set st" and xy: "(x, y) \<in> edge_rel es" for x y
  proof (cases "x \<in> set old")
    case True
    with old(2) y xy have "low s v \<le> idx s y" by blast
    then show ?thesis by (simp add: low st [OF y] del: idx_updates low_lowerTo)
  next
    case False
    with x have "x \<in> set add" by simp
    moreover have "y \<in> set (stack s)" using y loop_stack(2) [OF inv] by blast
    ultimately have "low s' w \<le> idx ?s y" using add(2) xy by simp
    then show ?thesis by (simp add: low del: idx_updates low_lowerTo)
  qed
  have "\<exists>new. stack ?s = new @ v # st
      \<and> (\<forall>x \<in> set new. \<forall>y \<in> set st. (x, y) \<in> edge_rel es \<longrightarrow> low ?s v \<le> idx ?s y)"
    using old(1) add(1) bound by (intro exI [of _ "add @ old"]) auto
  moreover have "twf es (insert v G) ?s" by (rule twf_lowerTo [OF wf v_dom])
  moreover have "insert w D \<subseteq> dom (indexById ?s)"
    using inv w ext_dom [OF ext] unfolding loop_inv_def indexById_updates by blast
  moreover have "\<forall>y \<in> insert w D \<inter> set st. low ?s v \<le> idx ?s y"
  proof
    fix y assume y: "y \<in> insert w D \<inter> set st"
    have "y \<noteq> w" using y st_sub new by (auto simp: domIff)
    with y inv have "low s v \<le> idx s y" unfolding loop_inv_def by blast
    with y show "low ?s v \<le> idx ?s y" by (simp add: low st del: idx_updates low_lowerTo)
  qed
  moreover have "low ?s v \<le> idx ?s v"
  proof -
    have "low s v \<le> idx s v" using inv unfolding loop_inv_def by blast
    then show ?thesis by (simp add: low v del: idx_updates low_lowerTo)
  qed
  moreover have "low ?s v < idx ?s v \<longrightarrow>
      (\<exists>y \<in> set st. idx ?s y = low ?s v \<and> (v, y) \<in> (edge_rel es)\<^sup>*)"
  proof
    assume lt: "low ?s v < idx ?s v"
    show "\<exists>y \<in> set st. idx ?s y = low ?s v \<and> (v, y) \<in> (edge_rel es)\<^sup>*"
    proof (cases "low s' w < low s v")
      case True
      with connect_low_bound [OF inv edge new post True] st low show ?thesis by auto
    next
      case False
      then have "low ?s v = low s v" using low by simp
      with lt v inv st show ?thesis unfolding loop_inv_def by auto
    qed
  qed
  ultimately show ?thesis using inv unfolding loop_inv_def by blast
qed

section \<open>Leaving a node\<close>

text \<open>All edges of \<open>v\<close> have been visited: an edge out of the nodes above \<open>st\<close> stays visited.\<close>

lemma loop_done_edges:
  assumes inv: "loop_inv es G v st D s" and D: "{y. (v, y) \<in> edge_rel es} \<subseteq> D"
    and x: "x \<in> set (stack s) - set st" and xy: "(x, y) \<in> edge_rel es"
  shows "y \<in> dom (indexById s)" and "y \<in> set st \<Longrightarrow> low s v \<le> idx s y"
proof -
  note wf = loop_stack(4) [OF inv]
  obtain new where new: "stack s = new @ v # st"
    "\<forall>x \<in> set new. \<forall>y \<in> set st. (x, y) \<in> edge_rel es \<longrightarrow> low s v \<le> idx s y"
    using inv unfolding loop_inv_def by blast
  have "G \<subseteq> set st" using inv unfolding loop_inv_def by blast
  show "y \<in> dom (indexById s)"
  proof (cases "x = v")
    case True
    with D xy have "y \<in> D" by blast
    with inv show ?thesis unfolding loop_inv_def by blast
  next
    case False
    with \<open>G \<subseteq> set st\<close> x have "x \<notin> insert v G" by blast
    moreover have "x \<in> dom (indexById s)" using x twf_stack_dom [OF wf] by blast
    ultimately show ?thesis using twf_black [OF wf] xy by blast
  qed
  assume y: "y \<in> set st"
  show "low s v \<le> idx s y"
  proof (cases "x = v")
    case True
    with D xy y have "y \<in> D \<inter> set st" by blast
    with inv show ?thesis unfolding loop_inv_def by blast
  next
    case False
    with x new(1) have "x \<in> set new" by auto
    with new(2) xy y show ?thesis by blast
  qed
qed

text \<open>The low link stayed below the index: \<open>v\<close> joins the component of an older node.\<close>

lemma loop_keep:
  assumes inv: "loop_inv es G v st D s" and D: "{y. (v, y) \<in> edge_rel es} \<subseteq> D"
    and lt: "low s v < idx s v"
  shows "twf es G s"
proof -
  note wf = loop_stack(4) [OF inv]
  obtain y where y: "y \<in> set st" "idx s y = low s v" "(v, y) \<in> (edge_rel es)\<^sup>*"
    using inv lt unfolding loop_inv_def by blast
  have y_st: "y \<in> set (stack s)" using y(1) loop_stack(2) [OF inv] by blast
  obtain g where g: "g \<in> insert v G" "idx s g \<le> idx s y" "(y, g) \<in> (edge_rel es)\<^sup>*"
    using twf_gray [OF wf y_st] by blast
  then have gG: "g \<in> G" using y(2) lt by auto
  have gray: "\<exists>g \<in> G. idx s g \<le> idx s z \<and> (z, g) \<in> (edge_rel es)\<^sup>*" if z: "z \<in> set (stack s)" for z
  proof -
    obtain h where h: "h \<in> insert v G" "idx s h \<le> idx s z" "(z, h) \<in> (edge_rel es)\<^sup>*"
      using twf_gray [OF wf z] by blast
    show ?thesis
    proof (cases "h = v")
      case True
      then have "(z, g) \<in> (edge_rel es)\<^sup>*" using h(3) y(3) g(3) by (meson rtrancl_trans)
      moreover have "idx s g \<le> idx s z" using True h(2) g(2) y(2) lt by simp
      ultimately show ?thesis using gG by blast
    next
      case False
      with h show ?thesis by blast
    qed
  qed
  have black: "y \<in> dom (indexById s)"
    if "x \<in> dom (indexById s)" "x \<notin> G" "(x, y) \<in> edge_rel es" for x y
  proof (cases "x = v")
    case True
    with D that(3) have "y \<in> D" by blast
    with inv show ?thesis unfolding loop_inv_def by blast
  next
    case False
    with that show ?thesis using twf_black [OF wf] by blast
  qed
  show ?thesis
  proof (rule twfI, goal_cases)
    case 7 show ?case using twf_gray_sub [OF wf] by blast
  next
    case 8 then show ?case by (rule gray)
  next
    case 10 then show ?case by (rule black)
  qed (fact twf_onStack [OF wf] twf_sorted [OF wf] twf_dom [OF wf] twf_disjoint [OF wf]
      twf_dom_low [OF wf] twf_member [OF wf] | erule twf_idx_lt [OF wf]
      | erule (2) twf_order [OF wf] | erule (1) twf_closed [OF wf])+
qed

text \<open>The low link equals the index: what is above \<open>st\<close> is exactly the component of \<open>v\<close>.\<close>

lemma loop_component:
  assumes inv: "loop_inv es G v st D s" and D: "{y. (v, y) \<in> edge_rel es} \<subseteq> D"
    and eq: "low s v = idx s v"
  shows "set (stack s) - set st = scc_of es v"
    and "\<And>x y. x \<in> set (stack s) - set st \<Longrightarrow> (x, y) \<in> edge_rel es \<Longrightarrow>
      y \<in> set (stack s) - set st \<union> finished s"
proof -
  let ?M = "set (stack s) - set st"
  note wf = loop_stack(4) [OF inv]
  obtain new where new: "stack s = new @ v # st" using inv unfolding loop_inv_def by blast
  have "distinct (stack s)" by (rule twf_distinct_stack [OF wf])
  with new have M: "?M = insert v (set new)" by auto
  have sorted: "sorted_wrt (\<lambda>x y. idx s y < idx s x) (new @ v # st)"
    using twf_sorted [OF wf] new by simp
  have no_st: "y \<notin> set st" if "x \<in> ?M" "(x, y) \<in> edge_rel es" for x y
    using loop_done_edges(2) [OF inv D that] eq loop_below [OF inv, of y] by fastforce
  show step: "y \<in> ?M \<union> finished s" if "x \<in> ?M" "(x, y) \<in> edge_rel es" for x y
    using loop_done_edges(1) [OF inv D that] no_st [OF that] twf_dom [OF wf] by blast
  have mutual: "x \<in> scc_of es v" if x: "x \<in> ?M" for x
  proof -
    have x_st: "x \<in> set (stack s)" using x by blast
    have le: "idx s v \<le> idx s x" using x M sorted by (auto simp: sorted_wrt_append)
    have vx: "(v, x) \<in> (edge_rel es)\<^sup>*"
      by (rule twf_order [OF wf loop_stack(1) [OF inv] x_st le])
    obtain g where g: "g \<in> insert v G" "(x, g) \<in> (edge_rel es)\<^sup>*"
      using twf_gray [OF wf x_st] by blast
    moreover have "(g, v) \<in> (edge_rel es)\<^sup>*" using g(1) inv unfolding loop_inv_def by blast
    ultimately have "(x, v) \<in> (edge_rel es)\<^sup>*" by (meson rtrancl_trans)
    with vx show ?thesis by (simp add: scc_of_def)
  qed
  have v_unfinished: "v \<notin> finished s"
    using loop_stack(1) [OF inv] twf_disjoint [OF wf] by blast
  have stuck: "b \<in> finished s" if "(a, b) \<in> (edge_rel es)\<^sup>*" "a \<in> finished s" for a b
    using that by (induction rule: rtrancl_induct) (blast intro: twf_closed [OF wf])+
  have inside: "y \<in> ?M \<union> finished s" if "(v, y) \<in> (edge_rel es)\<^sup>*" for y
    using that
  proof (induction rule: rtrancl_induct)
    case base
    show ?case using M by blast
  next
    case (step y z)
    then show ?case using \<open>\<And>x y. x \<in> ?M \<Longrightarrow> (x, y) \<in> edge_rel es \<Longrightarrow> y \<in> ?M \<union> finished s\<close>
        twf_closed [OF wf] by blast
  qed
  have "y \<in> ?M" if "y \<in> scc_of es v" for y
  proof (rule ccontr)
    assume "y \<notin> ?M"
    with that inside have "y \<in> finished s" by (auto simp: scc_of_def)
    with that stuck have "v \<in> finished s" by (auto simp: scc_of_def)
    with v_unfinished show False by blast
  qed
  with mutual show "?M = scc_of es v" by blast
qed

lemma popUntil_append:
  "v \<notin> set new \<Longrightarrow> distinct (acc @ new @ [v]) \<Longrightarrow>
     popUntil v (new @ v # st) acc = (acc @ new @ [v], st)"
  by (induction new arbitrary: acc) (auto simp: set_add_def)

lemma loop_pop:
  assumes inv: "loop_inv es G v st D s" and D: "{y. (v, y) \<in> edge_rel es} \<subseteq> D"
    and eq: "low s v = idx s v"
  shows "twf es G (popScc v s)" and "stack (popScc v s) = st"
    and "lowlinkById (popScc v s) = lowlinkById s" and "nextIndex (popScc v s) = nextIndex s"
proof -
  note wf = loop_stack(4) [OF inv]
  obtain new where new: "stack s = new @ v # st" using inv unfolding loop_inv_def by blast
  have dist: "distinct (new @ v # st)" using twf_distinct_stack [OF wf] new by simp
  define M where "M = new @ [v]"
  have M: "distinct M" "set M = set (stack s) - set st" using dist new by (auto simp: M_def)
  have "popUntil v (stack s) [] = (M, st)"
    unfolding new M_def using popUntil_append [of v new "[]" st] dist by simp
  then have pop: "popScc v s = s\<lparr>stack := st, onStack := onStack s - set M,
      membership := membership s @ map (\<lambda>m. (m, M)) M\<rparr>"
    by (simp add: popScc_def)
  then show stack: "stack (popScc v s) = st" and low: "lowlinkById (popScc v s) = lowlinkById s"
    and nxt: "nextIndex (popScc v s) = nextIndex s"
    by simp_all
  have fin: "finished (popScc v s) = finished s \<union> set M"
    unfolding pop by (simp add: finished_def image_Un image_image)
  have scc: "set M = scc_of es v" using loop_component(1) [OF inv D eq] M(2) by simp
  have st_sub: "set st \<subseteq> set (stack s)" by (rule loop_stack(2) [OF inv])
  have G: "G \<subseteq> set st" using inv unfolding loop_inv_def by blast
  have gray: "\<exists>g \<in> G. idx s g \<le> idx s y \<and> (y, g) \<in> (edge_rel es)\<^sup>*" if y: "y \<in> set st" for y
  proof -
    have "y \<in> set (stack s)" using y st_sub by blast
    from twf_gray [OF wf this] loop_below [OF inv y] show ?thesis by auto
  qed
  have member: "member_ok es (popScc v s)"
  proof -
    have old: "distinct (map fst (membership s))"
      "\<forall>(u, m) \<in> set (membership s). set m = scc_of es u \<and> distinct m"
      using twf_member [OF wf] by (simp_all add: member_ok_def)
    have "set M \<inter> finished s = {}" using M(2) twf_disjoint [OF wf] by blast
    then have "distinct (map fst (membership s @ map (\<lambda>m. (m, M)) M))"
      using old(1) M(1) by (auto simp: finished_def comp_def)
    moreover have "set M = scc_of es m" if "m \<in> set M" for m
      using that scc scc_of_eq by blast
    ultimately show ?thesis using old(2) M(1) pop by (auto simp: member_ok_def)
  qed
  have M_dom: "set M \<union> set st = set (stack s)" using M(2) st_sub by auto
  show "twf es G (popScc v s)"
  proof (rule twfI, goal_cases)
    case 1
    have "onStack (popScc v s) = onStack s - set M" using pop by simp
    then show ?case using twf_onStack [OF wf] M(2) st_sub stack by auto
  next
    case 2
    have "sorted_wrt (\<lambda>x y. idx s y < idx s x) (new @ v # st)"
      using twf_sorted [OF wf] new by simp
    then show ?case by (simp add: stack sorted_wrt_append)
  next
    case 3 then show ?case using twf_idx_lt [OF wf] nxt by simp
  next
    case 4 show ?case using twf_dom [OF wf] fin stack M_dom by auto
  next
    case 5 show ?case using twf_disjoint [OF wf] fin stack M(2) st_sub by auto
  next
    case 6 show ?case using twf_dom_low [OF wf] low by simp
  next
    case 7 show ?case using G stack by simp
  next
    case 8 then show ?case using gray stack by simp
  next
    case 9 then show ?case using twf_order [OF wf] stack st_sub by auto
  next
    case (10 x y)
    show ?case
    proof (cases "x = v")
      case True
      with D 10(3) inv show ?thesis unfolding loop_inv_def indexById_updates by blast
    next
      case False
      with 10 show ?thesis using twf_black [OF wf] unfolding indexById_updates by blast
    qed
  next
    case (11 x y)
    then show ?case
      using loop_component(2) [OF inv D eq] twf_closed [OF wf] fin M(2) by blast
  next
    case 12 show ?case by (rule member)
  qed
qed

section \<open>The main induction\<close>

lemma connect_correct:
  "twf es G s \<Longrightarrow> indexById s v = None \<Longrightarrow> \<forall>g \<in> G. (g, v) \<in> (edge_rel es)\<^sup>* \<Longrightarrow>
     connect_post es G v s (connect es v s)"
  "loop_inv es G v st D s \<Longrightarrow> set rest \<subseteq> set (outgoing es v) \<Longrightarrow>
     loop_inv es G v st (D \<union> edge_to ` set rest) (visitEdges es v rest s)
     \<and> ext {v} s (visitEdges es v rest s)"
proof (induction es v s and es v rest s arbitrary: G and G D st rule: connect_visitEdges.induct)
  case (1 es v s)
  let ?s1 = "pushNode v s"
  let ?s2 = "visitEdges es v (outgoing es v) ?s1"
  have init: "loop_inv es G v (stack s) {} ?s1" by (rule loop_init [OF "1.prems"])
  with "1.IH" [OF init] have inv: "loop_inv es G v (stack s) (edge_to ` set (outgoing es v)) ?s2"
    and ext2: "ext {v} ?s1 ?s2" by auto
  have D: "{y. (v, y) \<in> edge_rel es} \<subseteq> edge_to ` set (outgoing es v)"
    by (auto simp: edge_rel_def outgoing_def)
  have ext: "ext {} s ?s2"
    by (rule ext_trans [OF ext_pushNode [OF "1.prems"(2)] ext2]) (use "1.prems"(2) in auto)
  have v: "v \<in> dom (indexById ?s2)" by (rule loop_stack(3) [OF inv])
  moreover have "v \<in> dom (lowlinkById ?s2)"
    using twf_dom_low [OF loop_stack(4) [OF inv]] v by simp
  ultimately have test: "lowlinkById ?s2 v = indexById ?s2 v \<longleftrightarrow> low ?s2 v = idx ?s2 v"
    by (auto simp: low_def idx_def)
  have le: "low ?s2 v \<le> idx ?s2 v" using inv unfolding loop_inv_def by blast
  show ?case
  proof (cases "low ?s2 v = idx ?s2 v")
    case True
    then have res: "connect es v s = popScc v ?s2"
      using test by (simp add: connect.simps [of es v s] Let_def)
    note pop = loop_pop [OF inv D True]
    have "ext {} ?s2 (popScc v ?s2)" using pop(3,4) by (simp add: ext_def)
    then have "ext {} s (popScc v ?s2)" using ext_trans [OF ext] by blast
    moreover have "low (popScc v ?s2) v = idx (popScc v ?s2) v"
      using True pop(3) by (simp add: low_def)
    ultimately show ?thesis
      using pop(1,2) v unfolding res connect_post_def by auto
  next
    case False
    then have res: "connect es v s = ?s2"
      using test by (simp add: connect.simps [of es v s] Let_def)
    obtain new where new: "stack ?s2 = new @ v # stack s" using loop_split [OF inv] ..
    have "distinct (stack ?s2)" by (rule twf_distinct_stack [OF loop_stack(4) [OF inv]])
    then have "\<forall>x \<in> set (new @ [v]). \<forall>y \<in> set (stack s). (x, y) \<in> edge_rel es \<longrightarrow>
        low ?s2 v \<le> idx ?s2 y"
      using loop_done_edges(2) [OF inv D] new by auto
    then have "\<exists>new. stack ?s2 = new @ stack s \<and> (\<forall>x \<in> set new. \<forall>y \<in> set (stack s).
        (x, y) \<in> edge_rel es \<longrightarrow> low ?s2 v \<le> idx ?s2 y)"
      using new by (intro exI [of _ "new @ [v]"]) simp
    moreover have "twf es G ?s2" by (rule loop_keep [OF inv D]) (use False le in simp)
    moreover have "low ?s2 v < idx ?s2 v \<longrightarrow>
        (\<exists>y \<in> set (stack s). idx ?s2 y = low ?s2 v \<and> (v, y) \<in> (edge_rel es)\<^sup>*)"
      using inv unfolding loop_inv_def by blast
    ultimately show ?thesis using ext v le unfolding res connect_post_def by blast
  qed
next
  case (2 es v s)
  then show ?case by simp
next
  case (3 es v e rest s)
  have edge: "(v, edge_to e) \<in> edge_rel es" and rest: "set rest \<subseteq> set (outgoing es v)"
    using "3.prems"(2) by (auto simp: outgoing_def edge_rel_def)
  have D: "D \<union> edge_to ` set (e # rest) = insert (edge_to e) D \<union> edge_to ` set rest" by auto
  show ?case
  proof (cases "indexById s (edge_to e) = None")
    case True
    let ?s1 = "connect es (edge_to e) s"
    let ?s2 = "lowerTo v (the (lowlinkById ?s1 (edge_to e))) ?s1"
    have "\<forall>g \<in> insert v G. (g, edge_to e) \<in> (edge_rel es)\<^sup>*"
      using "3.prems"(1) edge unfolding loop_inv_def by (auto intro: rtrancl_into_rtrancl)
    with "3.IH"(1) [OF True loop_stack(4) [OF "3.prems"(1)] True]
    have post: "connect_post es (insert v G) (edge_to e) s ?s1" by blast
    then have inv: "loop_inv es G v st (insert (edge_to e) D) ?s2"
      using loop_return [OF "3.prems"(1) edge True] by (simp add: low_def)
    have "ext {} s ?s1" using post unfolding connect_post_def by blast
    then have "ext {v} s ?s1" by (simp add: ext_def)
    then have "ext {v} s ?s2" by (rule ext_trans [OF _ ext_lowerTo]) auto
    moreover note IH = "3.IH"(2) [OF True refl inv rest]
    moreover have "visitEdges es v (e # rest) s = visitEdges es v rest ?s2"
      using True by (simp add: visitEdges.simps(2) Let_def)
    ultimately show ?thesis
      unfolding D using ext_trans [OF _ conjunct2 [OF IH], of "{v}" s] by auto
  next
    case False
    show ?thesis
    proof (cases "edge_to e \<in> onStack s")
      case True
      let ?s2 = "lowerTo v (the (indexById s (edge_to e))) s"
      have inv: "loop_inv es G v st (insert (edge_to e) D) ?s2"
        using loop_onStack [OF "3.prems"(1) edge True] by (simp add: idx_def)
      have "ext {v} s ?s2" by (rule ext_lowerTo)
      moreover note IH = "3.IH"(3) [OF False True inv rest]
      moreover have "visitEdges es v (e # rest) s = visitEdges es v rest ?s2"
        using True False by (auto simp: visitEdges.simps(2))
      ultimately show ?thesis
        unfolding D using ext_trans [OF _ conjunct2 [OF IH], of "{v}" s] by auto
    next
      case off: False
      have inv: "loop_inv es G v st (insert (edge_to e) D) s"
        by (rule loop_finished [OF "3.prems"(1) False off])
      have "visitEdges es v (e # rest) s = visitEdges es v rest s"
        using off False by (auto simp: visitEdges.simps(2))
      with "3.IH"(4) [OF False off inv rest] show ?thesis unfolding D by simp
    qed
  qed
qed

section \<open>The whole map\<close>

lemma twf_no_active: "twf es {} s \<Longrightarrow> stack s = []"
  using twf_gray [of es "{}" s] by (cases "stack s") auto

lemma connectNodes_correct:
  "twf es {} s \<Longrightarrow> twf es {} (connectNodes es ns s)
     \<and> dom (indexById s) \<subseteq> dom (indexById (connectNodes es ns s))
     \<and> node_id ` set ns \<subseteq> dom (indexById (connectNodes es ns s))"
proof (induction ns arbitrary: s)
  case Nil
  then show ?case by simp
next
  case (Cons n ns)
  let ?s = "if indexById s (node_id n) = None then connect es (node_id n) s else s"
  have "twf es {} ?s \<and> dom (indexById s) \<subseteq> dom (indexById ?s) \<and> node_id n \<in> dom (indexById ?s)"
  proof (cases "indexById s (node_id n) = None")
    case True
    have post: "connect_post es {} (node_id n) s (connect es (node_id n) s)"
      by (rule connect_correct(1) [OF Cons.prems True]) simp
    then have "ext {} s (connect es (node_id n) s)" unfolding connect_post_def by blast
    then have "dom (indexById s) \<subseteq> dom (indexById (connect es (node_id n) s))"
      using ext_dom by blast
    with post True show ?thesis unfolding connect_post_def by simp
  next
    case False
    with Cons.prems show ?thesis by auto
  qed
  moreover from this Cons.IH [of ?s] have "twf es {} (connectNodes es ns ?s)"
    "dom (indexById ?s) \<subseteq> dom (indexById (connectNodes es ns ?s))"
    "node_id ` set ns \<subseteq> dom (indexById (connectNodes es ns ?s))" by blast+
  ultimately show ?case unfolding connectNodes.simps list.set image_insert by blast
qed

text \<open>
  The map sends every node of the graph to its strongly connected component, each key
  once, and every set of the map is such a component.
\<close>

lemma computeSccMembership_ok: "member_ok es (connectNodes es (nodes g) initTarjan)"
  using connectNodes_correct [OF twf_init, of es "nodes g"] twf_member by blast

lemma computeSccMembership_entries:
  assumes "(v, m) \<in> set (computeSccMembership g es)"
  shows "set m = scc_of es v" and "distinct m"
  using computeSccMembership_ok [of es g] assms
  unfolding computeSccMembership_def member_ok_def by blast+

lemma computeSccMembership_distinct: "distinct (map fst (computeSccMembership g es))"
  using computeSccMembership_ok [of es g]
  unfolding computeSccMembership_def member_ok_def by blast

lemma computeSccMembership_covers: "node_id ` set (nodes g) \<subseteq> fst ` set (computeSccMembership g es)"
proof -
  let ?s = "connectNodes es (nodes g) initTarjan"
  have wf: "twf es {} ?s" and sub: "node_id ` set (nodes g) \<subseteq> dom (indexById ?s)"
    using connectNodes_correct [OF twf_init, of es "nodes g"] by blast+
  have "dom (indexById ?s) = finished ?s" using twf_dom [OF wf] twf_no_active [OF wf] by simp
  with sub show ?thesis by (simp add: computeSccMembership_def finished_def)
qed

lemma computeSccMembership_lookup:
  assumes "v \<in> node_id ` set (nodes g)"
  obtains m where "map_of (computeSccMembership g es) v = Some m"
    and "set m = scc_of es v" and "distinct m"
proof -
  have "v \<in> fst ` set (computeSccMembership g es)"
    using assms computeSccMembership_covers by blast
  then obtain m where "map_of (computeSccMembership g es) v = Some m"
    by (metis map_of_eq_None_iff not_None_eq)
  moreover from this have "(v, m) \<in> set (computeSccMembership g es)" by (rule map_of_SomeD)
  ultimately show thesis using computeSccMembership_entries that by blast
qed

end
