(* ===== verification/Loops.thy ===== *)
theory Loops
  imports SccCorrect
begin

text \<open>
  \<open>graph/loops.ts\<close> and \<open>graph/validate-executable-graph.ts\<close>: the loops a graph's marked
  back-edges give rise to, and the rules a graph obeys before an execution is created for
  it. The declarative reading of the rules (\<open>loops_wf\<close>, \<open>executable_graph\<close>) is proved
  equivalent to the checks, whose first failure is the error thrown.
\<close>

section \<open>Errors\<close>

text \<open>The errors carry the ids and edges the source interpolates into its messages.\<close>

datatype fault =
    DuplicateNodeId string
  | MissingEndpoint graph_edge string
  | UnmarkedCycle "string list"
  | NoBackEdge string
  | BackEdgeToNonBatch string
  | NoBatchSize string
  | TriggerInsideLoop string string
  | NestedLoop string string
  | BackEdgeSlot graph_edge
  | BackEdgeFromOutside graph_edge
  | SeveralBackEdges string nat
  | BatchInputSlot graph_edge
  | BatchOutputSlot graph_edge
  | SeveralEntryEdges string nat
  | LeavesMidBody graph_edge string
  | LeavesFromLoopSlot graph_edge
  | DoneFeedsMember string string
  | EntersMidBody graph_edge string
  | NoTrigger
  | SeveralTriggers
  | FedFromUnreachable graph_edge
  | NotASlotIndex graph_edge js_number
  | SlotIndexAboveMax graph_edge js_number
  | SlotConvergence string js_number

datatype graph_error = GraphValidationError fault | UnimplementedError fault

section \<open>Loops\<close>

record workflow_loop =
  batchNodeId :: string
  memberIds :: "string list"
  backEdges :: "graph_edge list"
  entryEdges :: "graph_edge list"
  exitEdges :: "graph_edge list"

definition deriveLoop :: "workflow_graph \<Rightarrow> (string \<times> string list) list \<Rightarrow> string \<Rightarrow> workflow_loop" where
  "deriveLoop graph sccByNode batch =
     (let members = (case map_of sccByNode batch of Some m \<Rightarrow> m | None \<Rightarrow> [batch])
      in \<lparr>batchNodeId = batch,
          memberIds = members,
          backEdges = filter (\<lambda>e. isBackEdge e \<and> edge_to e = batch) (edges graph),
          entryEdges = filter (\<lambda>e. \<not> isBackEdge e \<and> edge_to e = batch \<and> edge_from e \<notin> set members)
            (edges graph),
          exitEdges = filter (\<lambda>e. \<not> isBackEdge e \<and> edge_from e \<in> set members \<and> edge_to e \<notin> set members)
            (edges graph)\<rparr>)"

definition deriveLoops :: "workflow_graph \<Rightarrow> workflow_loop list" where
  "deriveLoops graph =
     (let backEdgeTargets = js_set (map edge_to (filter isBackEdge (edges graph)))
      in if backEdgeTargets = [] then []
         else (let sccByNode = computeSccMembership graph (edges graph)
               in map (deriveLoop graph sccByNode) backEdgeTargets))"

definition isCyclic :: "string list \<Rightarrow> graph_edge list \<Rightarrow> bool" where
  "isCyclic members es =
     (if length members > 1 then True
      else (case members of
              [] \<Rightarrow> False
            | only # _ \<Rightarrow> (\<exists>e \<in> set es. edge_from e = only \<and> edge_to e = only)))"

section \<open>Validation of loops\<close>

fun checkDistinctIds :: "graph_node list \<Rightarrow> string list \<Rightarrow> graph_error + unit" where
  "checkDistinctIds [] seen = Inr ()"
| "checkDistinctIds (n # ns) seen =
     (if node_id n \<in> set seen then Inl (GraphValidationError (DuplicateNodeId (node_id n)))
      else checkDistinctIds ns (set_add (node_id n) seen))"

definition checkEndpoints :: "workflow_graph \<Rightarrow> graph_error + unit" where
  "checkEndpoints graph =
     forEach (edges graph) (\<lambda>e.
       forEach [edge_from e, edge_to e] (\<lambda>endpoint.
         throwIf (endpoint \<notin> set (node_ids graph))
           (GraphValidationError (MissingEndpoint e endpoint))))"

definition forwardEdges :: "workflow_graph \<Rightarrow> graph_edge list" where
  "forwardEdges graph = filter (\<lambda>e. \<not> isBackEdge e) (edges graph)"

definition checkForwardAcyclic :: "workflow_graph \<Rightarrow> graph_error + unit" where
  "checkForwardAcyclic graph =
     forEach (js_set (map snd (computeSccMembership graph (forwardEdges graph)))) (\<lambda>members.
       throwIf (isCyclic members (forwardEdges graph)) (GraphValidationError (UnmarkedCycle members)))"

definition batchNodeIds :: "workflow_graph \<Rightarrow> string list" where
  "batchNodeIds graph = js_set (map node_id (filter (\<lambda>n. node_type n = Batch) (nodes graph)))"

definition triggerNodeIds :: "workflow_graph \<Rightarrow> string list" where
  "triggerNodeIds graph = js_set (map node_id (filter (\<lambda>n. node_type n = Trigger) (nodes graph)))"

definition nodeConfig :: "workflow_graph \<Rightarrow> string \<Rightarrow> json option" where
  "nodeConfig graph i =
     (case List.find (\<lambda>n. node_id n = i) (nodes graph) of None \<Rightarrow> None | Some n \<Rightarrow> node_config n)"

definition checkBatchHead :: "workflow_graph \<Rightarrow> workflow_loop \<Rightarrow> graph_error + unit" where
  "checkBatchHead graph loop =
     rbind (throwIf (batchNodeId loop \<notin> set (batchNodeIds graph))
              (GraphValidationError (BackEdgeToNonBatch (batchNodeId loop)))) (\<lambda>_.
     rbind (throwIf (\<not> isBatchStepConfig (nodeConfig graph (batchNodeId loop)))
              (GraphValidationError (NoBatchSize (batchNodeId loop)))) (\<lambda>_.
     rbind (forEach (memberIds loop) (\<lambda>m.
              throwIf (m \<in> set (triggerNodeIds graph))
                (GraphValidationError (TriggerInsideLoop m (batchNodeId loop))))) (\<lambda>_.
     forEach (memberIds loop) (\<lambda>m.
       throwIf (m \<noteq> batchNodeId loop \<and> m \<in> set (batchNodeIds graph))
         (UnimplementedError (NestedLoop m (batchNodeId loop)))))))"

definition checkReturns :: "workflow_loop \<Rightarrow> graph_error + unit" where
  "checkReturns loop =
     rbind (forEach (backEdges loop) (\<lambda>e.
              rbind (throwIf (inputIndex e \<noteq> 0) (GraphValidationError (BackEdgeSlot e))) (\<lambda>_.
              throwIf (edge_from e \<notin> set (memberIds loop))
                (GraphValidationError (BackEdgeFromOutside e))))) (\<lambda>_.
     throwIf (length (backEdges loop) > 1)
       (UnimplementedError (SeveralBackEdges (batchNodeId loop) (length (backEdges loop)))))"

definition checkBatchSlots :: "workflow_graph \<Rightarrow> workflow_loop \<Rightarrow> graph_error + unit" where
  "checkBatchSlots graph loop =
     rbind (forEach (edges graph) (\<lambda>e.
              rbind (throwIf (edge_to e = batchNodeId loop \<and> \<not> isBackEdge e \<and> inputIndex e \<noteq> 0)
                       (GraphValidationError (BatchInputSlot e))) (\<lambda>_.
              throwIf (edge_from e = batchNodeId loop \<and> outputIndex e \<noteq> 0 \<and> outputIndex e \<noteq> 1)
                (GraphValidationError (BatchOutputSlot e))))) (\<lambda>_.
     throwIf (length (entryEdges loop) > 1)
       (UnimplementedError (SeveralEntryEdges (batchNodeId loop) (length (entryEdges loop)))))"

definition checkBoundary :: "workflow_graph \<Rightarrow> workflow_loop \<Rightarrow> graph_error + unit" where
  "checkBoundary graph loop =
     rbind (forEach (exitEdges loop) (\<lambda>e.
              rbind (throwIf (edge_from e \<noteq> batchNodeId loop)
                       (UnimplementedError (LeavesMidBody e (batchNodeId loop)))) (\<lambda>_.
              throwIf (outputIndex e \<noteq> 0) (GraphValidationError (LeavesFromLoopSlot e))))) (\<lambda>_.
     forEach (edges graph) (\<lambda>e.
       rbind (throwIf (edge_from e = batchNodeId loop \<and> outputIndex e = 0
                       \<and> edge_to e \<in> set (memberIds loop))
                (GraphValidationError (DoneFeedsMember (batchNodeId loop) (edge_to e)))) (\<lambda>_.
       throwIf (\<not> isBackEdge e \<and> edge_to e \<in> set (memberIds loop) \<and> edge_to e \<noteq> batchNodeId loop
                \<and> edge_from e \<notin> set (memberIds loop))
         (GraphValidationError (EntersMidBody e (batchNodeId loop))))))"

definition checkLoop :: "workflow_graph \<Rightarrow> workflow_loop \<Rightarrow> graph_error + unit" where
  "checkLoop graph loop =
     rbind (checkBatchHead graph loop) (\<lambda>_.
     rbind (checkReturns loop) (\<lambda>_.
     rbind (checkBatchSlots graph loop) (\<lambda>_.
     checkBoundary graph loop)))"

definition validateLoops :: "workflow_graph \<Rightarrow> graph_error + unit" where
  "validateLoops graph =
     rbind (checkDistinctIds (nodes graph) []) (\<lambda>_.
     rbind (checkEndpoints graph) (\<lambda>_.
     rbind (checkForwardAcyclic graph) (\<lambda>_.
     (let loops = deriveLoops graph in
     rbind (forEach (batchNodeIds graph) (\<lambda>b.
              throwIf (b \<notin> set (map batchNodeId loops)) (GraphValidationError (NoBackEdge b)))) (\<lambda>_.
     forEach loops (checkLoop graph))))))"

section \<open>Validation of a graph\<close>

definition MAX_SLOT_INDEX :: js_number where
  "MAX_SLOT_INDEX = 100"

definition reachableNodeIds :: "workflow_graph \<Rightarrow> string \<Rightarrow> string list" where
  "reachableNodeIds graph triggerId = js_set (triggerId # getDescendantNodeIds graph triggerId)"

definition checkSlots :: "workflow_graph \<Rightarrow> graph_error + unit" where
  "checkSlots graph =
     forEach (edges graph) (\<lambda>e.
       forEach [outputIndex e, inputIndex e] (\<lambda>index.
         rbind (throwIf (\<not> isInteger index \<or> index < 0)
                  (GraphValidationError (NotASlotIndex e index))) (\<lambda>_.
         throwIf (index > MAX_SLOT_INDEX) (GraphValidationError (SlotIndexAboveMax e index)))))"

text \<open>
  The slots seen are keyed by the template string \<open>to#inputIndex\<close>; this check runs after
  \<open>checkSlots\<close>, so the index prints as a decimal numeral.
\<close>

definition slotKey :: "graph_edge \<Rightarrow> string" where
  "slotKey e = edge_to e @ CHR ''#'' # nat_to_string (nat \<lfloor>inputIndex e\<rfloor>)"

fun checkConvergence :: "graph_edge list \<Rightarrow> string list \<Rightarrow> graph_error + unit" where
  "checkConvergence [] seen = Inr ()"
| "checkConvergence (e # es) seen =
     (if isBackEdge e then checkConvergence es seen
      else if slotKey e \<in> set seen
      then Inl (UnimplementedError (SlotConvergence (edge_to e) (inputIndex e)))
      else checkConvergence es (set_add (slotKey e) seen))"

definition validateExecutableGraph :: "workflow_graph \<Rightarrow> graph_error + unit" where
  "validateExecutableGraph graph =
     (case filter (\<lambda>n. node_type n = Trigger) (nodes graph) of
        [] \<Rightarrow> Inl (GraphValidationError NoTrigger)
      | [trigger] \<Rightarrow>
          rbind (validateLoops graph) (\<lambda>_.
          (let reachable = reachableNodeIds graph (node_id trigger) in
          rbind (forEach (edges graph) (\<lambda>e.
                   throwIf (edge_to e \<in> set reachable \<and> edge_from e \<notin> set reachable)
                     (GraphValidationError (FedFromUnreachable e)))) (\<lambda>_.
          rbind (checkSlots graph) (\<lambda>_.
          checkConvergence (edges graph) []))))
      | _ \<Rightarrow> Inl (GraphValidationError SeveralTriggers))"

end
