(* ===== verification/GraphValidation.thy ===== *)
theory GraphValidation
  imports Loops
begin

text \<open>
  What an accepted graph looks like. The rules of \<open>validateLoops\<close> and
  \<open>validateExecutableGraph\<close> are stated over the graph itself (\<open>loops_wf\<close>,
  \<open>executable_graph\<close>) and the checks are proved to accept exactly those graphs; the
  consequences the planner relies on follow.
\<close>

section \<open>Derived loops\<close>

definition endpoints_ok :: "workflow_graph \<Rightarrow> bool" where
  "endpoints_ok g \<longleftrightarrow>
     (\<forall>e \<in> set (edges g). edge_from e \<in> set (node_ids g) \<and> edge_to e \<in> set (node_ids g))"

lemma deriveLoops_map:
  "deriveLoops g = map (deriveLoop g (computeSccMembership g (edges g)))
     (js_set (map edge_to (filter isBackEdge (edges g))))"
  by (simp add: deriveLoops_def Let_def)

lemma deriveLoop_sel [simp]:
  "batchNodeId (deriveLoop g scc b) = b"
  "backEdges (deriveLoop g scc b) = filter (\<lambda>e. isBackEdge e \<and> edge_to e = b) (edges g)"
  "entryEdges (deriveLoop g scc b) =
     filter (\<lambda>e. \<not> isBackEdge e \<and> edge_to e = b \<and> edge_from e \<notin> set (memberIds (deriveLoop g scc b)))
       (edges g)"
  "exitEdges (deriveLoop g scc b) =
     filter (\<lambda>e. \<not> isBackEdge e \<and> edge_from e \<in> set (memberIds (deriveLoop g scc b))
       \<and> edge_to e \<notin> set (memberIds (deriveLoop g scc b))) (edges g)"
  by (simp_all add: deriveLoop_def Let_def)

lemma batchNodeIds_deriveLoops:
  "map batchNodeId (deriveLoops g) = js_set (map edge_to (filter isBackEdge (edges g)))"
  by (simp add: deriveLoops_map comp_def)

lemma deriveLoops_unique:
  assumes "l \<in> set (deriveLoops g)" "l' \<in> set (deriveLoops g)" "batchNodeId l = batchNodeId l'"
  shows "l = l'"
  using assms by (auto simp: deriveLoops_map)

lemma distinct_deriveLoops: "distinct (map batchNodeId (deriveLoops g))"
  by (simp add: batchNodeIds_deriveLoops)

lemma deriveLoops_members:
  assumes "endpoints_ok g" and l: "l \<in> set (deriveLoops g)"
  shows "set (memberIds l) = scc_of (edges g) (batchNodeId l)" and "distinct (memberIds l)"
proof -
  obtain e where e: "e \<in> set (edges g)" "isBackEdge e"
    and l_eq: "l = deriveLoop g (computeSccMembership g (edges g)) (edge_to e)"
    using l by (auto simp: deriveLoops_map)
  have "edge_to e \<in> node_id ` set (nodes g)"
    using assms(1) e(1) by (auto simp: endpoints_ok_def node_ids_def)
  then obtain m where "map_of (computeSccMembership g (edges g)) (edge_to e) = Some m"
    "set m = scc_of (edges g) (edge_to e)" "distinct m"
    by (rule computeSccMembership_lookup)
  then show "set (memberIds l) = scc_of (edges g) (batchNodeId l)" and "distinct (memberIds l)"
    by (simp_all add: l_eq deriveLoop_def)
qed

section \<open>Acyclicity of the forward edges\<close>

lemma isCyclic_iff:
  assumes "set members = scc_of es v" and "distinct members"
  shows "isCyclic members es \<longleftrightarrow> (v, v) \<in> (edge_rel es)\<^sup>+"
proof (cases "length members > 1")
  case True
  then have "card (set members) > 1" using distinct_card [OF assms(2)] by simp
  then have "\<not> set members \<subseteq> {v}" using card_mono [of "{v}" "set members"] by auto
  then obtain w where w: "w \<in> set members" "w \<noteq> v" by blast
  then have "(v, w) \<in> (edge_rel es)\<^sup>+" "(w, v) \<in> (edge_rel es)\<^sup>+"
    using assms(1) by (auto simp: scc_of_def rtrancl_eq_or_trancl)
  then have "(v, v) \<in> (edge_rel es)\<^sup>+" by (rule trancl_trans)
  with True show ?thesis by (simp add: isCyclic_def)
next
  case False
  have "v \<in> set members" using assms(1) by simp
  with False have single: "members = [v]" by (cases members) (auto simp: Suc_lessI)
  have "(v, v) \<in> (edge_rel es)\<^sup>+ \<longleftrightarrow> (v, v) \<in> edge_rel es"
  proof
    assume "(v, v) \<in> (edge_rel es)\<^sup>+"
    then obtain u where u: "(v, u) \<in> edge_rel es" "(u, v) \<in> (edge_rel es)\<^sup>*"
      by (meson tranclD)
    then have "u \<in> scc_of es v" by (auto simp: scc_of_def)
    then have "u \<in> set members" using assms(1) by simp
    then have "u = v" using single by simp
    with u show "(v, v) \<in> edge_rel es" by simp
  qed blast
  with single show ?thesis by (auto simp: isCyclic_def edge_rel_def)
qed

lemma set_forwardEdges: "set (forwardEdges g) = {e \<in> set (edges g). \<not> isBackEdge e}"
  by (simp add: forwardEdges_def)

lemma checkForwardAcyclic_iff:
  assumes ends: "endpoints_ok g"
  shows "checkForwardAcyclic g = Inr () \<longleftrightarrow> acyclic (edge_rel (forwardEdges g))"
proof -
  let ?es = "forwardEdges g"
  let ?m = "computeSccMembership g ?es"
  have "checkForwardAcyclic g = Inr () \<longleftrightarrow> (\<forall>(v, m) \<in> set ?m. \<not> isCyclic m ?es)"
    by (auto simp: checkForwardAcyclic_def forEach_Inr_iff)
  also have "\<dots> \<longleftrightarrow> (\<forall>v \<in> fst ` set ?m. (v, v) \<notin> (edge_rel ?es)\<^sup>+)"
    using isCyclic_iff [OF computeSccMembership_entries] by fastforce
  also have "\<dots> \<longleftrightarrow> acyclic (edge_rel ?es)"
  proof
    assume all: "\<forall>v \<in> fst ` set ?m. (v, v) \<notin> (edge_rel ?es)\<^sup>+"
    have "(v, v) \<notin> (edge_rel ?es)\<^sup>+" for v
    proof
      assume cyc: "(v, v) \<in> (edge_rel ?es)\<^sup>+"
      then obtain u where "(v, u) \<in> edge_rel ?es" by (meson tranclD)
      then have "v \<in> node_id ` set (nodes g)"
        using ends by (auto simp: edge_rel_def forwardEdges_def endpoints_ok_def node_ids_def)
      then have "v \<in> fst ` set ?m" using computeSccMembership_covers by blast
      with all cyc show False by blast
    qed
    then show "acyclic (edge_rel ?es)" by (simp add: acyclic_def)
  qed (simp add: acyclic_def)
  finally show ?thesis .
qed

section \<open>The loop rules, declaratively\<close>

definition is_batch_node :: "workflow_graph \<Rightarrow> string \<Rightarrow> bool" where
  "is_batch_node g i \<longleftrightarrow> (\<exists>n \<in> set (nodes g). node_id n = i \<and> node_type n = Batch)"

definition is_trigger_node :: "workflow_graph \<Rightarrow> string \<Rightarrow> bool" where
  "is_trigger_node g i \<longleftrightarrow> (\<exists>n \<in> set (nodes g). node_id n = i \<and> node_type n = Trigger)"

definition loop_wf :: "workflow_graph \<Rightarrow> workflow_loop \<Rightarrow> bool" where
  "loop_wf g l \<longleftrightarrow>
     is_batch_node g (batchNodeId l) \<and> isBatchStepConfig (nodeConfig g (batchNodeId l))
     \<and> (\<forall>m \<in> set (memberIds l). \<not> is_trigger_node g m \<and> (is_batch_node g m \<longrightarrow> m = batchNodeId l))
     \<and> (\<forall>e \<in> set (backEdges l). inputIndex e = 0 \<and> edge_from e \<in> set (memberIds l))
     \<and> length (backEdges l) \<le> 1
     \<and> (\<forall>e \<in> set (edges g). edge_to e = batchNodeId l \<and> \<not> isBackEdge e \<longrightarrow> inputIndex e = 0)
     \<and> (\<forall>e \<in> set (edges g). edge_from e = batchNodeId l \<longrightarrow> outputIndex e = 0 \<or> outputIndex e = 1)
     \<and> length (entryEdges l) \<le> 1
     \<and> (\<forall>e \<in> set (exitEdges l). edge_from e = batchNodeId l \<and> outputIndex e = 0)
     \<and> (\<forall>e \<in> set (edges g). edge_from e = batchNodeId l \<and> outputIndex e = 0 \<longrightarrow>
          edge_to e \<notin> set (memberIds l))
     \<and> (\<forall>e \<in> set (edges g). \<not> isBackEdge e \<and> edge_to e \<in> set (memberIds l) \<and>
          edge_to e \<noteq> batchNodeId l \<longrightarrow> edge_from e \<in> set (memberIds l))"

lemma loop_wf_batch: "loop_wf g l \<Longrightarrow> is_batch_node g (batchNodeId l)"
  and loop_wf_config: "loop_wf g l \<Longrightarrow> isBatchStepConfig (nodeConfig g (batchNodeId l))"
  and loop_wf_no_trigger: "loop_wf g l \<Longrightarrow> m \<in> set (memberIds l) \<Longrightarrow> \<not> is_trigger_node g m"
  and loop_wf_only_batch: "loop_wf g l \<Longrightarrow> m \<in> set (memberIds l) \<Longrightarrow> is_batch_node g m \<Longrightarrow>
      m = batchNodeId l"
  and loop_wf_returns: "loop_wf g l \<Longrightarrow> e \<in> set (backEdges l) \<Longrightarrow>
      inputIndex e = 0 \<and> edge_from e \<in> set (memberIds l)"
  and loop_wf_back_le: "loop_wf g l \<Longrightarrow> length (backEdges l) \<le> 1"
  and loop_wf_entry_le: "loop_wf g l \<Longrightarrow> length (entryEdges l) \<le> 1"
  and loop_wf_exits: "loop_wf g l \<Longrightarrow> e \<in> set (exitEdges l) \<Longrightarrow>
      edge_from e = batchNodeId l \<and> outputIndex e = 0"
  and loop_wf_done: "loop_wf g l \<Longrightarrow> e \<in> set (edges g) \<Longrightarrow> edge_from e = batchNodeId l \<Longrightarrow>
      outputIndex e = 0 \<Longrightarrow> edge_to e \<notin> set (memberIds l)"
  and loop_wf_out_slots: "loop_wf g l \<Longrightarrow> e \<in> set (edges g) \<Longrightarrow> edge_from e = batchNodeId l \<Longrightarrow>
      outputIndex e = 0 \<or> outputIndex e = 1"
  and loop_wf_entrance: "loop_wf g l \<Longrightarrow> e \<in> set (edges g) \<Longrightarrow> \<not> isBackEdge e \<Longrightarrow>
      edge_to e \<in> set (memberIds l) \<Longrightarrow> edge_to e \<noteq> batchNodeId l \<Longrightarrow> edge_from e \<in> set (memberIds l)"
  unfolding loop_wf_def by blast+

definition loops_wf :: "workflow_graph \<Rightarrow> bool" where
  "loops_wf g \<longleftrightarrow> distinct (node_ids g) \<and> endpoints_ok g
     \<and> acyclic (edge_rel (forwardEdges g))
     \<and> (\<forall>i. is_batch_node g i \<longrightarrow> (\<exists>e \<in> set (edges g). isBackEdge e \<and> edge_to e = i))
     \<and> (\<forall>l \<in> set (deriveLoops g). loop_wf g l)"

lemma set_batchNodeIds [simp]: "i \<in> set (batchNodeIds g) \<longleftrightarrow> is_batch_node g i"
  by (auto simp: batchNodeIds_def is_batch_node_def)

lemma set_triggerNodeIds [simp]: "i \<in> set (triggerNodeIds g) \<longleftrightarrow> is_trigger_node g i"
  by (auto simp: triggerNodeIds_def is_trigger_node_def)

lemma checkDistinctIds_iff:
  "checkDistinctIds ns seen = Inr () \<longleftrightarrow>
     distinct (map node_id ns) \<and> set (map node_id ns) \<inter> set seen = {}"
  by (induction ns seen rule: checkDistinctIds.induct) auto

lemma checkEndpoints_iff: "checkEndpoints g = Inr () \<longleftrightarrow> endpoints_ok g"
  by (simp add: checkEndpoints_def endpoints_ok_def forEach_Inr_iff rbind_unit_iff)

lemma checkBatchHead_iff:
  "checkBatchHead g l = Inr () \<longleftrightarrow>
     is_batch_node g (batchNodeId l) \<and> isBatchStepConfig (nodeConfig g (batchNodeId l))
     \<and> (\<forall>m \<in> set (memberIds l). \<not> is_trigger_node g m \<and> (is_batch_node g m \<longrightarrow> m = batchNodeId l))"
  by (auto simp: checkBatchHead_def rbind_unit_iff forEach_Inr_iff)

lemma checkReturns_iff:
  "checkReturns l = Inr () \<longleftrightarrow>
     (\<forall>e \<in> set (backEdges l). inputIndex e = 0 \<and> edge_from e \<in> set (memberIds l))
     \<and> length (backEdges l) \<le> 1"
  by (auto simp: checkReturns_def rbind_unit_iff forEach_Inr_iff)

lemma checkBatchSlots_iff:
  "checkBatchSlots g l = Inr () \<longleftrightarrow>
     (\<forall>e \<in> set (edges g). edge_to e = batchNodeId l \<and> \<not> isBackEdge e \<longrightarrow> inputIndex e = 0)
     \<and> (\<forall>e \<in> set (edges g). edge_from e = batchNodeId l \<longrightarrow> outputIndex e = 0 \<or> outputIndex e = 1)
     \<and> length (entryEdges l) \<le> 1"
  by (auto simp: checkBatchSlots_def rbind_unit_iff forEach_Inr_iff)

lemma checkBoundary_iff:
  "checkBoundary g l = Inr () \<longleftrightarrow>
     (\<forall>e \<in> set (exitEdges l). edge_from e = batchNodeId l \<and> outputIndex e = 0)
     \<and> (\<forall>e \<in> set (edges g). edge_from e = batchNodeId l \<and> outputIndex e = 0 \<longrightarrow>
          edge_to e \<notin> set (memberIds l))
     \<and> (\<forall>e \<in> set (edges g). \<not> isBackEdge e \<and> edge_to e \<in> set (memberIds l) \<and>
          edge_to e \<noteq> batchNodeId l \<longrightarrow> edge_from e \<in> set (memberIds l))"
  by (auto simp: checkBoundary_def rbind_unit_iff forEach_Inr_iff)

lemma checkLoop_iff: "checkLoop g l = Inr () \<longleftrightarrow> loop_wf g l"
  unfolding checkLoop_def rbind_unit_iff checkBatchHead_iff checkReturns_iff checkBatchSlots_iff
    checkBoundary_iff loop_wf_def
  by (simp only: conj_assoc)

lemma validateLoops_iff: "validateLoops g = Inr () \<longleftrightarrow> loops_wf g"
proof -
  have "set (map batchNodeId (deriveLoops g)) = edge_to ` {e \<in> set (edges g). isBackEdge e}"
    unfolding batchNodeIds_deriveLoops by simp
  then have "i \<in> set (map batchNodeId (deriveLoops g)) \<longleftrightarrow>
      (\<exists>e \<in> set (edges g). isBackEdge e \<and> edge_to e = i)" for i
    by (simp only: image_iff) blast
  then have heads: "forEach (batchNodeIds g) (\<lambda>b. throwIf (b \<notin> set (map batchNodeId (deriveLoops g)))
        (GraphValidationError (NoBackEdge b))) = Inr () \<longleftrightarrow>
      (\<forall>i. is_batch_node g i \<longrightarrow> (\<exists>e \<in> set (edges g). isBackEdge e \<and> edge_to e = i))"
    unfolding forEach_Inr_iff throwIf_Inr_iff not_not Ball_def set_batchNodeIds by (simp only:)
  show ?thesis
  proof (cases "endpoints_ok g")
    case True
    have "forEach (deriveLoops g) (checkLoop g) = Inr () \<longleftrightarrow> (\<forall>l \<in> set (deriveLoops g). loop_wf g l)"
      by (simp add: forEach_Inr_iff checkLoop_iff)
    with heads True show ?thesis
      unfolding validateLoops_def loops_wf_def Let_def rbind_unit_iff checkEndpoints_iff
        checkForwardAcyclic_iff [OF True] checkDistinctIds_iff node_ids_def
      by simp
  next
    case False
    then show ?thesis
      by (simp add: validateLoops_def loops_wf_def rbind_unit_iff checkEndpoints_iff)
  qed
qed

section \<open>The executable graphs\<close>

definition slot_index_ok :: "js_number \<Rightarrow> bool" where
  "slot_index_ok i \<longleftrightarrow> isInteger i \<and> 0 \<le> i \<and> i \<le> MAX_SLOT_INDEX"

definition slots_ok :: "workflow_graph \<Rightarrow> bool" where
  "slots_ok g \<longleftrightarrow> (\<forall>e \<in> set (edges g). slot_index_ok (outputIndex e) \<and> slot_index_ok (inputIndex e))"

definition one_edge_per_slot :: "workflow_graph \<Rightarrow> bool" where
  "one_edge_per_slot g \<longleftrightarrow> distinct (map (\<lambda>e. (edge_to e, inputIndex e)) (forwardEdges g))"

definition executable_graph :: "workflow_graph \<Rightarrow> bool" where
  "executable_graph g \<longleftrightarrow>
     (\<exists>t. filter (\<lambda>n. node_type n = Trigger) (nodes g) = [t]
        \<and> (\<forall>e \<in> set (edges g). (node_id t, edge_to e) \<in> (edge_rel (edges g))\<^sup>* \<longrightarrow>
             (node_id t, edge_from e) \<in> (edge_rel (edges g))\<^sup>*))
     \<and> loops_wf g \<and> slots_ok g \<and> one_edge_per_slot g"

lemma set_reachableNodeIds:
  "set (reachableNodeIds g t) = {m. (t, m) \<in> (edge_rel (edges g))\<^sup>*}"
  by (auto simp: reachableNodeIds_def set_getDescendantNodeIds rtrancl_eq_or_trancl)

lemma checkSlots_iff: "checkSlots g = Inr () \<longleftrightarrow> slots_ok g"
  by (auto simp: checkSlots_def slots_ok_def slot_index_ok_def forEach_Inr_iff rbind_unit_iff
      not_less)

lemma slotKey_eq_iff:
  assumes "slot_index_ok (inputIndex e)" "slot_index_ok (inputIndex e')"
  shows "slotKey e = slotKey e' \<longleftrightarrow> edge_to e = edge_to e' \<and> inputIndex e = inputIndex e'"
proof
  assume "slotKey e = slotKey e'"
  then have "edge_to e = edge_to e' \<and> nat \<lfloor>inputIndex e\<rfloor> = nat \<lfloor>inputIndex e'\<rfloor>"
    unfolding slotKey_def by (rule suffixed_inj) simp
  moreover obtain i where "inputIndex e = of_nat i"
    using assms(1) isInteger_nonneg by (auto simp: slot_index_ok_def)
  moreover obtain j where "inputIndex e' = of_nat j"
    using assms(2) isInteger_nonneg by (auto simp: slot_index_ok_def)
  ultimately show "edge_to e = edge_to e' \<and> inputIndex e = inputIndex e'" by simp
qed (simp add: slotKey_def)

lemma checkConvergence_iff:
  "checkConvergence es seen = Inr () \<longleftrightarrow>
     distinct (map slotKey (filter (\<lambda>e. \<not> isBackEdge e) es))
     \<and> slotKey ` {e \<in> set es. \<not> isBackEdge e} \<inter> set seen = {}"
  by (induction es seen rule: checkConvergence.induct) auto

lemma checkConvergence_spec:
  assumes "slots_ok g"
  shows "checkConvergence (edges g) [] = Inr () \<longleftrightarrow> one_edge_per_slot g"
proof -
  have ok: "slot_index_ok (inputIndex e)" if "e \<in> set (forwardEdges g)" for e
    using assms that by (auto simp: slots_ok_def forwardEdges_def)
  have "inj_on slotKey (set (forwardEdges g)) \<longleftrightarrow>
      inj_on (\<lambda>e. (edge_to e, inputIndex e)) (set (forwardEdges g))"
    unfolding inj_on_def using slotKey_eq_iff ok by simp
  then show ?thesis
    by (simp add: checkConvergence_iff one_edge_per_slot_def distinct_map forwardEdges_def)
qed

lemma validateExecutableGraph_iff: "validateExecutableGraph g = Inr () \<longleftrightarrow> executable_graph g"
proof (cases "filter (\<lambda>n. node_type n = Trigger) (nodes g)")
  case Nil
  then show ?thesis by (simp add: validateExecutableGraph_def executable_graph_def)
next
  case (Cons t ts)
  show ?thesis
  proof (cases ts)
    case Nil
    with Cons show ?thesis
      by (auto simp: validateExecutableGraph_def executable_graph_def Let_def rbind_unit_iff
          validateLoops_iff forEach_Inr_iff set_reachableNodeIds checkSlots_iff
          checkConvergence_spec)
  next
    case (Cons t' ts')
    with \<open>filter _ _ = _\<close> show ?thesis
      by (simp add: validateExecutableGraph_def executable_graph_def)
  qed
qed

section \<open>Consequences\<close>

text \<open>Loops of a valid graph do not overlap: a second batch node in a loop is rejected.\<close>

lemma loops_disjoint:
  assumes wf: "loops_wf g" and l: "l \<in> set (deriveLoops g)" and l': "l' \<in> set (deriveLoops g)"
    and n: "n \<in> set (memberIds l)" and n': "n \<in> set (memberIds l')"
  shows "l = l'"
proof -
  have ends: "endpoints_ok g" using wf by (simp add: loops_wf_def)
  have m: "set (memberIds l) = scc_of (edges g) (batchNodeId l)"
    and m': "set (memberIds l') = scc_of (edges g) (batchNodeId l')"
    by (rule deriveLoops_members(1) [OF ends l], rule deriveLoops_members(1) [OF ends l'])
  have "scc_of (edges g) n = scc_of (edges g) (batchNodeId l)"
    by (rule scc_of_eq) (use n m in simp)
  moreover have "scc_of (edges g) n = scc_of (edges g) (batchNodeId l')"
    by (rule scc_of_eq) (use n' m' in simp)
  ultimately have "batchNodeId l' \<in> set (memberIds l)" using m by (metis scc_of_refl)
  moreover have "loop_wf g l" "loop_wf g l'" using wf l l' by (simp_all add: loops_wf_def)
  ultimately have "batchNodeId l' = batchNodeId l"
    using loop_wf_only_batch loop_wf_batch by blast
  then show ?thesis using deriveLoops_unique [OF l l'] by simp
qed

lemma batch_member:
  assumes "endpoints_ok g" "l \<in> set (deriveLoops g)"
  shows "batchNodeId l \<in> set (memberIds l)"
  using deriveLoops_members(1) [OF assms] by simp

text \<open>A valid loop has exactly one back-edge.\<close>

lemma loop_one_back_edge:
  assumes "loops_wf g" and l: "l \<in> set (deriveLoops g)"
  shows "\<exists>e. backEdges l = [e]"
proof -
  have "backEdges l \<noteq> []" using l by (auto simp: deriveLoops_map filter_empty_conv)
  moreover have "length (backEdges l) \<le> 1"
    using assms loop_wf_back_le unfolding loops_wf_def by blast
  ultimately show ?thesis by (cases "backEdges l") auto
qed

end
