(* ===== verification/ExecutionTypes.thy ===== *)
theory ExecutionTypes
  imports GraphValidation
begin

text \<open>
  The records of \<open>execution/execution.types.ts\<close> and \<open>execution/step-store.ts\<close>: statuses,
  step keys and their string form, step rows and the planning view of a row. A step row and
  a summary extend a step key, as the source passes either where a \<open>StepKey\<close> is expected.
\<close>

section \<open>Statuses\<close>

datatype execution_status = EQueued | ERunning | ECompleted | EFailed | ECancelled

datatype execution_mode = Production | Manual

datatype step_status = Queued | Running | Completed | Failed | Skipped | Cancelled

definition SETTLED_STEP_STATUSES :: "step_status list" where
  "SETTLED_STEP_STATUSES = [Completed, Failed, Skipped, Cancelled]"

definition isSettledStatus :: "step_status \<Rightarrow> bool" where
  "isSettledStatus status \<longleftrightarrow> status \<in> set SETTLED_STEP_STATUSES"

lemma isSettledStatus_iff [simp]:
  "isSettledStatus status \<longleftrightarrow> status \<noteq> Queued \<and> status \<noteq> Running"
  by (cases status) (simp_all add: isSettledStatus_def SETTLED_STEP_STATUSES_def)

section \<open>Step keys\<close>

record step_key =
  nodeId :: string
  iteration :: nat

definition stepKeyId :: "'a step_key_scheme \<Rightarrow> string" where
  "stepKeyId k = nodeId k @ CHR ''@'' # nat_to_string (iteration k)"

definition keyOf :: "'a step_key_scheme \<Rightarrow> step_key" where
  "keyOf r = \<lparr>nodeId = nodeId r, iteration = iteration r\<rparr>"

abbreviation mk_key :: "string \<Rightarrow> nat \<Rightarrow> step_key" where
  "mk_key n i \<equiv> \<lparr>nodeId = n, iteration = i\<rparr>"

lemma keyOf_sel [simp]: "nodeId (keyOf r) = nodeId r" "iteration (keyOf r) = iteration r"
  by (simp_all add: keyOf_def)

lemma keyOf_key [simp]: "keyOf (k :: step_key) = k"
  by (simp add: keyOf_def)

lemma stepKeyId_keyOf [simp]: "stepKeyId (keyOf r) = stepKeyId r"
  by (simp add: stepKeyId_def)

lemma stepKeyId_components:
  "stepKeyId a = stepKeyId b \<longleftrightarrow> nodeId a = nodeId b \<and> iteration a = iteration b"
proof
  assume "stepKeyId a = stepKeyId b"
  then show "nodeId a = nodeId b \<and> iteration a = iteration b"
    unfolding stepKeyId_def by (rule suffixed_inj) simp
qed (simp add: stepKeyId_def)

lemma stepKeyId_eq_keyOf: "stepKeyId a = stepKeyId b \<longleftrightarrow> keyOf a = keyOf b"
  by (simp add: stepKeyId_components keyOf_def)

lemma stepKeyId_eq_iff [simp]: "stepKeyId (a :: step_key) = stepKeyId (b :: step_key) \<longleftrightarrow> a = b"
  by (simp add: stepKeyId_eq_keyOf)

lemma inj_stepKeyId: "inj (stepKeyId :: step_key \<Rightarrow> string)"
  by (rule injI) simp

section \<open>Rows\<close>

type_synonym step_slots = "json list"

record step_error =
  error_name :: string
  error_message :: string
  error_stack :: "string option"

record step_summary = step_key +
  sum_id :: string
  sum_status :: step_status
  filledOutputSlots :: "bool list"

record step_record = step_key +
  step_id :: string
  executionId :: string
  status :: step_status
  outputs :: "step_slots option"
  step_error :: "step_error option"

text \<open>
  The planning view, computed in the database by \<open>FILLED_OUTPUT_SLOTS\<close>: per output slot
  whether it holds something other than JSON \<open>null\<close>; no outputs give no slots.
\<close>

definition filledSlots :: "step_slots option \<Rightarrow> bool list" where
  "filledSlots outs = (case outs of None \<Rightarrow> [] | Some vs \<Rightarrow> map (\<lambda>v. v \<noteq> JNull) vs)"

definition summaryOf :: "step_record \<Rightarrow> step_summary" where
  "summaryOf r = \<lparr>nodeId = nodeId r, iteration = iteration r, sum_id = step_id r,
     sum_status = status r, filledOutputSlots = filledSlots (outputs r)\<rparr>"

lemma summaryOf_sel [simp]:
  "nodeId (summaryOf r) = nodeId r" "iteration (summaryOf r) = iteration r"
  "sum_id (summaryOf r) = step_id r" "sum_status (summaryOf r) = status r"
  "filledOutputSlots (summaryOf r) = filledSlots (outputs r)"
  by (simp_all add: summaryOf_def)

end
