(* ===== verification/IterationMapping.thy ===== *)
theory IterationMapping
  imports ExecutionTypes
begin

text \<open>
  \<open>execution/iteration-mapping.ts\<close>: which rows an edge connects when a loop member has one
  row per pass. \<open>targetKey\<close> and \<open>sourceRow\<close> are shown to be inverse to each other on the
  rows an edge of each class connects.
\<close>

section \<open>Definitions\<close>

datatype edge_class = Plain | Entry | Intra | Back | Exit

datatype source_row = Row step_key | NoRow | Pending

definition loopOf :: "workflow_loop list \<Rightarrow> string \<Rightarrow> workflow_loop option" where
  "loopOf loops n = List.find (\<lambda>l. n \<in> set (memberIds l)) loops"

text \<open>
  The source compares the two loop objects by identity; both are the first match in the same
  list, so equal loops are the same object.
\<close>

definition classifyEdge :: "graph_edge \<Rightarrow> workflow_loop list \<Rightarrow> edge_class" where
  "classifyEdge edge loops =
     (if isBackEdge edge then Back
      else (let sourceLoop = loopOf loops (edge_from edge);
                targetLoop = loopOf loops (edge_to edge)
            in if sourceLoop \<noteq> None \<and> sourceLoop = targetLoop then Intra
               else if sourceLoop \<noteq> None then Exit
               else if targetLoop \<noteq> None then Entry
               else Plain))"

definition targetKey :: "graph_edge \<Rightarrow> edge_class \<Rightarrow> 'a step_key_scheme \<Rightarrow> step_key" where
  "targetKey edge edgeClass source =
     (case edgeClass of
        Back \<Rightarrow> mk_key (edge_to edge) (iteration source + 1)
      | Exit \<Rightarrow> mk_key (edge_to edge) 0
      | Entry \<Rightarrow> mk_key (edge_to edge) 0
      | _ \<Rightarrow> mk_key (edge_to edge) (iteration source))"

definition sourceRow ::
  "graph_edge \<Rightarrow> edge_class \<Rightarrow> 'a step_key_scheme \<Rightarrow> nat option \<Rightarrow> source_row" where
  "sourceRow edge edgeClass target terminalIteration =
     (case edgeClass of
        Back \<Rightarrow> if iteration target = 0 then NoRow else Row (mk_key (edge_from edge) (iteration target - 1))
      | Entry \<Rightarrow> if iteration target > 0 then NoRow else Row (mk_key (edge_from edge) 0)
      | Exit \<Rightarrow>
          if iteration target > 0 then NoRow
          else (case terminalIteration of None \<Rightarrow> Pending | Some t \<Rightarrow> Row (mk_key (edge_from edge) t))
      | _ \<Rightarrow> Row (mk_key (edge_from edge) (iteration target)))"

section \<open>Properties\<close>

lemma targetKey_node [simp]: "nodeId (targetKey e c s) = edge_to e"
  by (cases c) (simp_all add: targetKey_def)

lemma targetKey_keyOf [simp]: "targetKey e c (keyOf s) = targetKey e c s"
  by (cases c) (simp_all add: targetKey_def)

lemma sourceRow_keyOf [simp]: "sourceRow e c (keyOf s) t = sourceRow e c s t"
  by (cases c) (simp_all add: sourceRow_def)

lemma sourceRow_node: "sourceRow e c t ti = Row k \<Longrightarrow> nodeId k = edge_from e"
  by (cases c) (auto simp: sourceRow_def split: if_splits option.splits)

text \<open>
  The source iterations an edge of a class has: an entry edge starts outside every loop
  (iteration 0), an exit edge at the terminal pass.
\<close>

definition source_iteration_ok :: "edge_class \<Rightarrow> nat option \<Rightarrow> nat \<Rightarrow> bool" where
  "source_iteration_ok c terminal i =
     (case c of Entry \<Rightarrow> i = 0 | Exit \<Rightarrow> terminal = Some i | _ \<Rightarrow> True)"

lemma sourceRow_targetKey:
  assumes "nodeId k = edge_from e" and "source_iteration_ok c ti (iteration k)"
  shows "sourceRow e c (targetKey e c k) ti = Row (keyOf k)"
  using assms by (cases c) (auto simp: sourceRow_def targetKey_def source_iteration_ok_def keyOf_def)

lemma targetKey_sourceRow:
  assumes "nodeId t = edge_to e" and "sourceRow e c t ti = Row k"
  shows "targetKey e c k = keyOf t" and "source_iteration_ok c ti (iteration k)"
  using assms by (cases c; auto simp: sourceRow_def targetKey_def source_iteration_ok_def keyOf_def
      split: if_splits option.splits)+

lemma loopOf_Some: "loopOf loops n = Some l \<Longrightarrow> l \<in> set loops \<and> n \<in> set (memberIds l)"
  unfolding loopOf_def by (rule find_Some_in)

lemma loopOf_None: "loopOf loops n = None \<longleftrightarrow> (\<forall>l \<in> set loops. n \<notin> set (memberIds l))"
  unfolding loopOf_def by (rule find_None_all)

text \<open>In a valid graph the loop of a node is the only one it belongs to.\<close>

lemma loopOf_deriveLoops:
  assumes "loops_wf g" and "l \<in> set (deriveLoops g)" and "n \<in> set (memberIds l)"
  shows "loopOf (deriveLoops g) n = Some l"
  unfolding loopOf_def
  by (rule find_eq_unique) (use assms loops_disjoint [OF assms(1)] in blast)+

lemma classifyEdge_simps:
  "isBackEdge e \<Longrightarrow> classifyEdge e loops = Back"
  "classifyEdge e loops = Back \<longleftrightarrow> isBackEdge e"
  "classifyEdge e loops = Intra \<longleftrightarrow> \<not> isBackEdge e \<and> loopOf loops (edge_from e) \<noteq> None
     \<and> loopOf loops (edge_from e) = loopOf loops (edge_to e)"
  "classifyEdge e loops = Exit \<longleftrightarrow> \<not> isBackEdge e \<and> loopOf loops (edge_from e) \<noteq> None
     \<and> loopOf loops (edge_from e) \<noteq> loopOf loops (edge_to e)"
  "classifyEdge e loops = Entry \<longleftrightarrow> \<not> isBackEdge e \<and> loopOf loops (edge_from e) = None
     \<and> loopOf loops (edge_to e) \<noteq> None"
  "classifyEdge e loops = Plain \<longleftrightarrow> \<not> isBackEdge e \<and> loopOf loops (edge_from e) = None
     \<and> loopOf loops (edge_to e) = None"
  by (auto simp: classifyEdge_def Let_def split: if_splits)

end
