(* ===== verification/Settlement.thy ===== *)
theory Settlement
  imports IterationMapping
begin

text \<open>
  \<open>execution/loop-ledger.ts\<close> and \<open>execution/settlement.ts\<close>: when a batch step ends its loop,
  which loops an exit edge needs the last pass of, and how a settled step decides its direct
  successors. The fate of a candidate is a pure function of the settled steps; the theory
  proves the loop with early returns equal to an order-independent reading of the rules, that
  \<open>decisionKeys\<close> names every step \<open>decideSuccessors\<close> reads, and that a fate once decided
  never changes as more steps settle.
\<close>

section \<open>The ledger of a loop\<close>

definition DONE_SLOT :: js_number where "DONE_SLOT = 0"

definition LOOP_SLOT :: js_number where "LOOP_SLOT = 1"

definition endsLoop :: "step_status \<Rightarrow> bool \<Rightarrow> bool" where
  "endsLoop st loopSlotFilled \<longleftrightarrow> isSettledStatus st \<and> \<not> loopSlotFilled"

definition isTerminalStep :: "step_summary \<Rightarrow> bool" where
  "isTerminalStep step = endsLoop (sum_status step) (js_flag (filledOutputSlots step) LOOP_SLOT)"

fun exitSourcesLoop ::
  "graph_edge list \<Rightarrow> workflow_loop list \<Rightarrow> string list \<Rightarrow> string list \<Rightarrow> string list" where
  "exitSourcesLoop [] loops targets sources = sources"
| "exitSourcesLoop (e # es) loops targets sources =
     exitSourcesLoop es loops targets
       (if edge_to e \<in> set targets \<and> classifyEdge e loops = Exit then set_add (edge_from e) sources
        else sources)"

definition exitSourcesInto ::
  "workflow_graph \<Rightarrow> workflow_loop list \<Rightarrow> string list \<Rightarrow> string list" where
  "exitSourcesInto graph loops targetNodeIds =
     (if loops = [] then [] else exitSourcesLoop (edges graph) loops (js_set targetNodeIds) [])"

section \<open>Deciding successors\<close>

datatype fate = FQueued | FSkipped | FUndecidable | FOutside

record successor_decisions =
  toQueue :: "step_key list"
  toSkip :: "step_key list"

type_synonym step_map = "string \<rightharpoonup> step_summary"
type_synonym terminals = "string \<rightharpoonup> nat"

definition batchStepDecides :: "edge_class \<Rightarrow> step_summary \<Rightarrow> bool" where
  "batchStepDecides edgeClass batchStep =
     (if isTerminalStep batchStep then edgeClass = Exit else edgeClass \<noteq> Exit)"

definition isPastLoopEnd :: "workflow_loop list \<Rightarrow> step_key \<Rightarrow> step_map \<Rightarrow> bool" where
  "isPastLoopEnd loops candidate steps =
     (case loopOf loops (nodeId candidate) of
        None \<Rightarrow> False
      | Some loop \<Rightarrow>
          if nodeId candidate = batchNodeId loop then False
          else (case steps (stepKeyId (mk_key (batchNodeId loop) (iteration candidate))) of
                  None \<Rightarrow> False
                | Some batchStep \<Rightarrow> isTerminalStep batchStep))"

definition isLive :: "step_summary \<Rightarrow> graph_edge \<Rightarrow> bool" where
  "isLive source edge \<longleftrightarrow>
     sum_status source = Completed \<and> js_flag (filledOutputSlots source) (outputIndex edge)"

text \<open>The \<open>for\<close> loop of \<open>decideNodeFate\<close> over the incoming edges, with its two locals.\<close>

fun fateLoop ::
  "graph_edge list \<Rightarrow> workflow_loop list \<Rightarrow> step_key \<Rightarrow> step_map \<Rightarrow> terminals \<Rightarrow> nat \<Rightarrow> bool \<Rightarrow> fate" where
  "fateLoop [] loops candidate steps ti applicable live =
     (if applicable = 0 then FOutside else if live then FQueued else FSkipped)"
| "fateLoop (e # es) loops candidate steps ti applicable live =
     (case sourceRow e (classifyEdge e loops) candidate (ti (edge_from e)) of
        NoRow \<Rightarrow> fateLoop es loops candidate steps ti applicable live
      | Pending \<Rightarrow> FUndecidable
      | Row key \<Rightarrow>
          (case steps (stepKeyId key) of
             None \<Rightarrow> FUndecidable
           | Some sourceStep \<Rightarrow>
               if \<not> isSettledStatus (sum_status sourceStep) then FUndecidable
               else fateLoop es loops candidate steps ti (applicable + 1)
                      (if isLive sourceStep e then True else live)))"

definition incomingEdges :: "workflow_graph \<Rightarrow> string \<Rightarrow> graph_edge list" where
  "incomingEdges graph n = filter (\<lambda>e. edge_to e = n) (edges graph)"

definition outgoingEdges :: "workflow_graph \<Rightarrow> string \<Rightarrow> graph_edge list" where
  "outgoingEdges graph n = filter (\<lambda>e. edge_from e = n) (edges graph)"

definition decideNodeFate ::
  "workflow_graph \<Rightarrow> workflow_loop list \<Rightarrow> step_key \<Rightarrow> step_map \<Rightarrow> terminals \<Rightarrow> fate" where
  "decideNodeFate graph loops candidate steps ti =
     (if isPastLoopEnd loops candidate steps then FOutside
      else fateLoop (incomingEdges graph (nodeId candidate)) loops candidate steps ti 0 False)"

fun successorLoop ::
  "graph_edge list \<Rightarrow> workflow_graph \<Rightarrow> workflow_loop list \<Rightarrow> step_key \<Rightarrow> step_map \<Rightarrow> terminals \<Rightarrow>
     step_summary option \<Rightarrow> string list \<Rightarrow> successor_decisions \<Rightarrow> successor_decisions" where
  "successorLoop [] graph loops settled steps ti batchStep decided decisions = decisions"
| "successorLoop (e # es) graph loops settled steps ti batchStep decided decisions =
     (let edgeClass = classifyEdge e loops;
          target = targetKey e edgeClass settled;
          targetId = stepKeyId target
      in if (case batchStep of None \<Rightarrow> False | Some b \<Rightarrow> \<not> batchStepDecides edgeClass b)
         then successorLoop es graph loops settled steps ti batchStep decided decisions
         else if steps targetId \<noteq> None \<or> targetId \<in> set decided
         then successorLoop es graph loops settled steps ti batchStep decided decisions
         else successorLoop es graph loops settled steps ti batchStep (set_add targetId decided)
                (case decideNodeFate graph loops target steps ti of
                   FQueued \<Rightarrow> decisions\<lparr>toQueue := toQueue decisions @ [target]\<rparr>
                 | FSkipped \<Rightarrow> decisions\<lparr>toSkip := toSkip decisions @ [target]\<rparr>
                 | _ \<Rightarrow> decisions))"

definition settledBatchStep :: "workflow_loop list \<Rightarrow> step_key \<Rightarrow> step_map \<Rightarrow> step_summary option" where
  "settledBatchStep loops settled steps =
     (if \<exists>l \<in> set loops. batchNodeId l = nodeId settled then steps (stepKeyId settled) else None)"

definition decideSuccessors ::
  "workflow_graph \<Rightarrow> workflow_loop list \<Rightarrow> step_key \<Rightarrow> step_map \<Rightarrow> terminals \<Rightarrow> successor_decisions" where
  "decideSuccessors graph loops settled steps ti =
     successorLoop (outgoingEdges graph (nodeId settled)) graph loops settled steps ti
       (settledBatchStep loops settled steps) [] \<lparr>toQueue = [], toSkip = []\<rparr>"

section \<open>The steps a decision reads\<close>

text \<open>
  The \<open>Map\<close> of \<open>decisionKeys\<close> is keyed by \<open>stepKeyId\<close>, which is injective, so its values are
  the distinct keys in insertion order.
\<close>

fun addSourceKeys ::
  "graph_edge list \<Rightarrow> workflow_loop list \<Rightarrow> step_key \<Rightarrow> terminals \<Rightarrow> step_key list \<Rightarrow> step_key list" where
  "addSourceKeys [] loops target ti keys = keys"
| "addSourceKeys (e # es) loops target ti keys =
     addSourceKeys es loops target ti
       (case sourceRow e (classifyEdge e loops) target (ti (edge_from e)) of
          Row key \<Rightarrow> set_add key keys
        | _ \<Rightarrow> keys)"

fun addTargetKeys ::
  "graph_edge list \<Rightarrow> workflow_graph \<Rightarrow> workflow_loop list \<Rightarrow> step_key \<Rightarrow> terminals \<Rightarrow>
     step_key list \<Rightarrow> step_key list" where
  "addTargetKeys [] graph loops settled ti keys = keys"
| "addTargetKeys (e # es) graph loops settled ti keys =
     (let target = targetKey e (classifyEdge e loops) settled;
          keys1 = addSourceKeys (incomingEdges graph (nodeId target)) loops target ti (set_add target keys);
          keys2 = (case loopOf loops (nodeId target) of
                     None \<Rightarrow> keys1
                   | Some l \<Rightarrow> set_add (mk_key (batchNodeId l) (iteration target)) keys1)
      in addTargetKeys es graph loops settled ti keys2)"

definition decisionKeys ::
  "workflow_graph \<Rightarrow> workflow_loop list \<Rightarrow> step_key \<Rightarrow> terminals \<Rightarrow> step_key list" where
  "decisionKeys graph loops settled ti =
     addTargetKeys (outgoingEdges graph (nodeId settled)) graph loops settled ti [settled]"

section \<open>An order-independent reading of a fate\<close>

definition edge_blocked ::
  "workflow_loop list \<Rightarrow> step_key \<Rightarrow> step_map \<Rightarrow> terminals \<Rightarrow> graph_edge \<Rightarrow> bool" where
  "edge_blocked loops c steps ti e =
     (case sourceRow e (classifyEdge e loops) c (ti (edge_from e)) of
        NoRow \<Rightarrow> False
      | Pending \<Rightarrow> True
      | Row k \<Rightarrow> (case steps (stepKeyId k) of
                    None \<Rightarrow> True | Some s \<Rightarrow> \<not> isSettledStatus (sum_status s)))"

definition edge_applies :: "workflow_loop list \<Rightarrow> step_key \<Rightarrow> terminals \<Rightarrow> graph_edge \<Rightarrow> bool" where
  "edge_applies loops c ti e \<longleftrightarrow>
     sourceRow e (classifyEdge e loops) c (ti (edge_from e)) \<noteq> NoRow"

definition edge_live ::
  "workflow_loop list \<Rightarrow> step_key \<Rightarrow> step_map \<Rightarrow> terminals \<Rightarrow> graph_edge \<Rightarrow> bool" where
  "edge_live loops c steps ti e =
     (case sourceRow e (classifyEdge e loops) c (ti (edge_from e)) of
        Row k \<Rightarrow> (case steps (stepKeyId k) of None \<Rightarrow> False | Some s \<Rightarrow> isLive s e)
      | _ \<Rightarrow> False)"

definition fate_spec ::
  "workflow_graph \<Rightarrow> workflow_loop list \<Rightarrow> step_key \<Rightarrow> step_map \<Rightarrow> terminals \<Rightarrow> fate" where
  "fate_spec g loops c steps ti =
     (let es = set (incomingEdges g (nodeId c)) in
      if isPastLoopEnd loops c steps then FOutside
      else if \<exists>e \<in> es. edge_blocked loops c steps ti e then FUndecidable
      else if \<not> (\<exists>e \<in> es. edge_applies loops c ti e) then FOutside
      else if \<exists>e \<in> es. edge_live loops c steps ti e then FQueued else FSkipped)"

lemma fateLoop_spec:
  "fateLoop es loops c steps ti a lv =
     (if \<exists>e \<in> set es. edge_blocked loops c steps ti e then FUndecidable
      else if a = 0 \<and> \<not> (\<exists>e \<in> set es. edge_applies loops c ti e) then FOutside
      else if lv \<or> (\<exists>e \<in> set es. edge_live loops c steps ti e) then FQueued else FSkipped)"
proof (induction es loops c steps ti a lv rule: fateLoop.induct)
  case (1 loops c steps ti a lv)
  then show ?case by simp
next
  case (2 e es loops c steps ti a lv)
  show ?case
  proof (cases "sourceRow e (classifyEdge e loops) c (ti (edge_from e))")
    case (Row k)
    note row = Row
    show ?thesis
    proof (cases "steps (stepKeyId k)")
      case None
      with row show ?thesis by (simp add: edge_blocked_def)
    next
      case (Some s)
      show ?thesis
      proof (cases "isSettledStatus (sum_status s)")
        case True
        then have "\<not> edge_blocked loops c steps ti e" "edge_applies loops c ti e"
          "edge_live loops c steps ti e = isLive s e"
          using row Some by (simp_all add: edge_blocked_def edge_applies_def edge_live_def)
        with True row Some "2.IH"(1) [OF row Some] show ?thesis by simp
      next
        case False
        then have "edge_blocked loops c steps ti e" using row Some by (simp add: edge_blocked_def)
        with False row Some show ?thesis by simp
      qed
    qed
  next
    case NoRow
    then have "\<not> edge_blocked loops c steps ti e" "\<not> edge_applies loops c ti e"
      "\<not> edge_live loops c steps ti e"
      by (simp_all add: edge_blocked_def edge_applies_def edge_live_def)
    with NoRow "2.IH"(2) [OF NoRow] show ?thesis by simp
  next
    case Pending
    then show ?thesis by (simp add: edge_blocked_def)
  qed
qed

lemma decideNodeFate_spec: "decideNodeFate g loops c steps ti = fate_spec g loops c steps ti"
  by (simp add: decideNodeFate_def fate_spec_def fateLoop_spec Let_def)

section \<open>Reading only the decision keys\<close>

lemma addSourceKeys_set:
  "set (addSourceKeys es loops t ti keys) = set keys \<union>
     {k. \<exists>e \<in> set es. sourceRow e (classifyEdge e loops) t (ti (edge_from e)) = Row k}"
  by (induction es loops t ti keys rule: addSourceKeys.induct) (auto split: source_row.splits)

lemma addTargetKeys_mono: "set keys \<subseteq> set (addTargetKeys es g loops k ti keys)"
proof (induction es g loops k ti keys rule: addTargetKeys.induct)
  case (2 e es g loops k ti keys)
  show ?case
    unfolding addTargetKeys.simps Let_def
    by (rule order.trans [OF _ "2.IH" [OF refl refl refl]])
      (auto simp: addSourceKeys_set split: option.splits)
qed simp

text \<open>What a candidate reads: its own row, its sources' rows, and its loop's batch row.\<close>

definition candidate_keys ::
  "workflow_graph \<Rightarrow> workflow_loop list \<Rightarrow> terminals \<Rightarrow> step_key \<Rightarrow> step_key set" where
  "candidate_keys g loops ti c = {c}
     \<union> {k. \<exists>e \<in> set (incomingEdges g (nodeId c)).
          sourceRow e (classifyEdge e loops) c (ti (edge_from e)) = Row k}
     \<union> (case loopOf loops (nodeId c) of None \<Rightarrow> {} | Some l \<Rightarrow> {mk_key (batchNodeId l) (iteration c)})"

lemma addTargetKeys_candidates:
  "e \<in> set es \<Longrightarrow> candidate_keys g loops ti (targetKey e (classifyEdge e loops) k)
     \<subseteq> set (addTargetKeys es g loops k ti keys)"
proof (induction es g loops k ti keys rule: addTargetKeys.induct)
  case (2 e' es g loops k ti keys)
  show ?case
  proof (cases "e = e'")
    case True
    then show ?thesis
      unfolding addTargetKeys.simps Let_def
      by (intro order.trans [OF _ addTargetKeys_mono])
        (auto simp: candidate_keys_def addSourceKeys_set split: option.splits)
  next
    case False
    with "2.prems" "2.IH" [OF refl refl refl] show ?thesis by (simp add: Let_def)
  qed
qed simp

lemma decisionKeys_settled: "k \<in> set (decisionKeys g loops k ti)"
  using addTargetKeys_mono [of "[k]"] by (simp add: decisionKeys_def)

lemma decisionKeys_candidates:
  "e \<in> set (outgoingEdges g (nodeId k)) \<Longrightarrow>
     candidate_keys g loops ti (targetKey e (classifyEdge e loops) k) \<subseteq> set (decisionKeys g loops k ti)"
  unfolding decisionKeys_def by (rule addTargetKeys_candidates)

lemma fate_agree:
  assumes agree: "\<And>k. k \<in> candidate_keys g loops ti c \<Longrightarrow> steps (stepKeyId k) = steps' (stepKeyId k)"
  shows "decideNodeFate g loops c steps ti = decideNodeFate g loops c steps' ti"
proof -
  have "isPastLoopEnd loops c steps = isPastLoopEnd loops c steps'"
  proof (cases "loopOf loops (nodeId c)")
    case (Some l)
    then have "mk_key (batchNodeId l) (iteration c) \<in> candidate_keys g loops ti c"
      by (simp add: candidate_keys_def)
    from agree [OF this] Some show ?thesis by (simp add: isPastLoopEnd_def)
  qed (simp add: isPastLoopEnd_def)
  moreover have "edge_blocked loops c steps ti e = edge_blocked loops c steps' ti e
      \<and> edge_live loops c steps ti e = edge_live loops c steps' ti e"
    if e: "e \<in> set (incomingEdges g (nodeId c))" for e
  proof (cases "sourceRow e (classifyEdge e loops) c (ti (edge_from e))")
    case (Row k)
    then have "k \<in> candidate_keys g loops ti c" using e by (auto simp: candidate_keys_def)
    from agree [OF this] Row show ?thesis by (simp add: edge_blocked_def edge_live_def)
  qed (simp_all add: edge_blocked_def edge_live_def)
  ultimately show ?thesis by (simp add: decideNodeFate_spec fate_spec_def Let_def cong: bex_cong)
qed

lemma successorLoop_agree:
  assumes "\<And>e k'. e \<in> set es \<Longrightarrow> k' \<in> candidate_keys g loops ti (targetKey e (classifyEdge e loops) k) \<Longrightarrow>
      steps (stepKeyId k') = steps' (stepKeyId k')"
  shows "successorLoop es g loops k steps ti b decided ds = successorLoop es g loops k steps' ti b decided ds"
  using assms
proof (induction es arbitrary: decided ds)
  case (Cons e es)
  let ?t = "targetKey e (classifyEdge e loops) k"
  have "steps (stepKeyId ?t) = steps' (stepKeyId ?t)"
    by (rule Cons.prems [of e]) (simp_all add: candidate_keys_def)
  moreover have "decideNodeFate g loops ?t steps ti = decideNodeFate g loops ?t steps' ti"
    by (rule fate_agree) (use Cons.prems in auto)
  moreover have "successorLoop es g loops k steps ti b d s = successorLoop es g loops k steps' ti b d s" for d s
    by (rule Cons.IH) (use Cons.prems in auto)
  ultimately show ?case by (simp add: Let_def)
qed simp

lemma decideSuccessors_agree:
  assumes "\<And>k'. k' \<in> set (decisionKeys g loops k ti) \<Longrightarrow> steps (stepKeyId k') = steps' (stepKeyId k')"
  shows "decideSuccessors g loops k steps ti = decideSuccessors g loops k steps' ti"
proof -
  have "settledBatchStep loops k steps = settledBatchStep loops k steps'"
    using assms [OF decisionKeys_settled] by (simp add: settledBatchStep_def)
  moreover have "steps (stepKeyId k') = steps' (stepKeyId k')"
    if "e \<in> set (outgoingEdges g (nodeId k))"
      and "k' \<in> candidate_keys g loops ti (targetKey e (classifyEdge e loops) k)" for e k'
    using assms decisionKeys_candidates [OF that(1)] that(2) by blast
  ultimately show ?thesis
    unfolding decideSuccessors_def using successorLoop_agree by metis
qed

section \<open>What \<open>decideSuccessors\<close> decides\<close>

definition considers ::
  "workflow_loop list \<Rightarrow> step_summary option \<Rightarrow> graph_edge \<Rightarrow> bool" where
  "considers loops b e = (case b of None \<Rightarrow> True | Some s \<Rightarrow> batchStepDecides (classifyEdge e loops) s)"

definition candidates ::
  "graph_edge list \<Rightarrow> workflow_loop list \<Rightarrow> step_key \<Rightarrow> step_map \<Rightarrow> step_summary option \<Rightarrow>
     string list \<Rightarrow> step_key set" where
  "candidates es loops k steps b decided =
     {targetKey e (classifyEdge e loops) k | e. e \<in> set es \<and> considers loops b e
        \<and> steps (stepKeyId (targetKey e (classifyEdge e loops) k)) = None
        \<and> stepKeyId (targetKey e (classifyEdge e loops) k) \<notin> set decided}"

definition record_fate :: "fate \<Rightarrow> step_key \<Rightarrow> successor_decisions \<Rightarrow> successor_decisions" where
  "record_fate f t ds =
     (case f of FQueued \<Rightarrow> ds\<lparr>toQueue := toQueue ds @ [t]\<rparr>
      | FSkipped \<Rightarrow> ds\<lparr>toSkip := toSkip ds @ [t]\<rparr> | _ \<Rightarrow> ds)"

lemma record_fate_sets [simp]:
  "set (toQueue (record_fate f t ds)) = set (toQueue ds) \<union> (if f = FQueued then {t} else {})"
  "set (toSkip (record_fate f t ds)) = set (toSkip ds) \<union> (if f = FSkipped then {t} else {})"
  by (cases f; simp add: record_fate_def)+

lemma candidates_Cons:
  fixes e loops k
  defines "t \<equiv> targetKey e (classifyEdge e loops) k"
  shows "candidates (e # es) loops k steps b decided =
     (if considers loops b e \<and> steps (stepKeyId t) = None \<and> stepKeyId t \<notin> set decided
      then insert t (candidates es loops k steps b (set_add (stepKeyId t) decided))
      else candidates es loops k steps b decided)"
  unfolding candidates_def t_def by auto

lemma successorLoop_Cons:
  fixes e loops k
  defines "t \<equiv> targetKey e (classifyEdge e loops) k"
  shows "successorLoop (e # es) g loops k steps ti b decided ds =
     (if considers loops b e \<and> steps (stepKeyId t) = None \<and> stepKeyId t \<notin> set decided
      then successorLoop es g loops k steps ti b (set_add (stepKeyId t) decided)
             (record_fate (decideNodeFate g loops t steps ti) t ds)
      else successorLoop es g loops k steps ti b decided ds)"
  by (auto simp: Let_def t_def considers_def record_fate_def split: option.splits)

declare successorLoop.simps(2) [simp del]

lemma successorLoop_sets:
  "set (toQueue (successorLoop es g loops k steps ti b decided ds)) = set (toQueue ds) \<union>
      {c \<in> candidates es loops k steps b decided. decideNodeFate g loops c steps ti = FQueued}"
  "set (toSkip (successorLoop es g loops k steps ti b decided ds)) = set (toSkip ds) \<union>
      {c \<in> candidates es loops k steps b decided. decideNodeFate g loops c steps ti = FSkipped}"
proof (induction es arbitrary: decided ds)
  case Nil
  { case 1 then show ?case by (simp add: candidates_def) }
  { case 2 then show ?case by (simp add: candidates_def) }
next
  case (Cons e es)
  { case 1 show ?case
      unfolding successorLoop_Cons candidates_Cons using Cons.IH(1) by simp blast }
  { case 2 show ?case
      unfolding successorLoop_Cons candidates_Cons using Cons.IH(2) by simp blast }
qed

lemma decideSuccessors_sets:
  "set (toQueue (decideSuccessors g loops k steps ti)) =
     {c \<in> candidates (outgoingEdges g (nodeId k)) loops k steps (settledBatchStep loops k steps) [].
        decideNodeFate g loops c steps ti = FQueued}"
  "set (toSkip (decideSuccessors g loops k steps ti)) =
     {c \<in> candidates (outgoingEdges g (nodeId k)) loops k steps (settledBatchStep loops k steps) [].
        decideNodeFate g loops c steps ti = FSkipped}"
  by (simp_all add: decideSuccessors_def successorLoop_sets)

text \<open>No successor is decided twice.\<close>

lemma successorLoop_distinct:
  assumes "distinct (toQueue ds @ toSkip ds)"
    and "stepKeyId ` set (toQueue ds @ toSkip ds) \<subseteq> set decided"
  shows "distinct (toQueue (successorLoop es g loops k steps ti b decided ds)
      @ toSkip (successorLoop es g loops k steps ti b decided ds))"
  using assms
proof (induction es arbitrary: decided ds)
  case (Cons e es)
  let ?t = "targetKey e (classifyEdge e loops) k"
  let ?ds = "record_fate (decideNodeFate g loops ?t steps ti) ?t ds"
  have "distinct (toQueue ?ds @ toSkip ?ds)" if "stepKeyId ?t \<notin> set decided"
    using Cons.prems that
    by (cases "decideNodeFate g loops ?t steps ti") (auto simp: record_fate_def)
  moreover have "stepKeyId ` set (toQueue ?ds @ toSkip ?ds) \<subseteq> set (set_add (stepKeyId ?t) decided)"
    using Cons.prems(2) by (auto split: if_splits)
  ultimately show ?case
    unfolding successorLoop_Cons using Cons.IH Cons.prems by simp
qed simp

lemma decideSuccessors_distinct:
  "distinct (toQueue (decideSuccessors g loops k steps ti) @ toSkip (decideSuccessors g loops k steps ti))"
  unfolding decideSuccessors_def by (rule successorLoop_distinct) simp_all

section \<open>Fates never change\<close>

text \<open>\<open>settles_to\<close>: every settled step of the first map is in the second, unchanged.\<close>

definition settles_to :: "step_map \<Rightarrow> step_map \<Rightarrow> bool" where
  "settles_to steps steps' \<longleftrightarrow>
     (\<forall>k s. steps k = Some s \<and> isSettledStatus (sum_status s) \<longrightarrow> steps' k = Some s)"

text \<open>The batch step of the pass a candidate belongs to has settled (body candidates only).\<close>

definition pass_settled :: "workflow_loop list \<Rightarrow> step_map \<Rightarrow> step_key \<Rightarrow> bool" where
  "pass_settled loops steps c =
     (case loopOf loops (nodeId c) of
        None \<Rightarrow> True
      | Some l \<Rightarrow> nodeId c = batchNodeId l
          \<or> (case steps (stepKeyId (mk_key (batchNodeId l) (iteration c))) of
               None \<Rightarrow> False | Some b \<Rightarrow> isSettledStatus (sum_status b)))"

lemma sourceRow_terminal_mono:
  assumes "sourceRow e c t ti \<noteq> Pending" and "\<And>i. ti = Some i \<Longrightarrow> ti' = Some i"
  shows "sourceRow e c t ti' = sourceRow e c t ti"
  using assms by (cases c) (auto simp: sourceRow_def split: option.splits if_splits)

lemma fate_stable:
  assumes mono: "settles_to steps steps'" and ti: "ti \<subseteq>\<^sub>m ti'"
    and pass: "pass_settled loops steps c"
    and fate: "decideNodeFate g loops c steps ti = f" and f: "f = FQueued \<or> f = FSkipped"
  shows "decideNodeFate g loops c steps' ti' = f"
proof -
  let ?es = "set (incomingEdges g (nodeId c))"
  have spec: "fate_spec g loops c steps ti = f" using fate by (simp add: decideNodeFate_spec)
  have past: "\<not> isPastLoopEnd loops c steps"
    and free: "\<forall>e \<in> ?es. \<not> edge_blocked loops c steps ti e"
    using spec f by (auto simp: fate_spec_def Let_def split: if_splits)
  have past': "\<not> isPastLoopEnd loops c steps'"
    using past pass mono
    by (auto simp: isPastLoopEnd_def pass_settled_def settles_to_def split: option.splits if_splits)
  have same: "edge_blocked loops c steps' ti' e = edge_blocked loops c steps ti e
      \<and> edge_applies loops c ti' e = edge_applies loops c ti e
      \<and> edge_live loops c steps' ti' e = edge_live loops c steps ti e" if e: "e \<in> ?es" for e
  proof -
    let ?row = "sourceRow e (classifyEdge e loops) c"
    have "?row (ti (edge_from e)) \<noteq> Pending"
      using free e by (auto simp: edge_blocked_def)
    moreover have "ti' (edge_from e) = Some i" if "ti (edge_from e) = Some i" for i
      using ti that by (auto simp: map_le_def dom_def)
    ultimately have row: "?row (ti' (edge_from e)) = ?row (ti (edge_from e))"
      by (rule sourceRow_terminal_mono)
    show ?thesis
    proof (cases "?row (ti (edge_from e))")
      case (Row k)
      have "\<not> edge_blocked loops c steps ti e" using free e by blast
      with Row obtain s where "steps (stepKeyId k) = Some s" "isSettledStatus (sum_status s)"
        by (cases "steps (stepKeyId k)") (simp_all add: edge_blocked_def)
      then have "steps' (stepKeyId k) = steps (stepKeyId k)"
        using mono unfolding settles_to_def by (simp del: isSettledStatus_iff)
      with row Row show ?thesis
        unfolding edge_blocked_def edge_applies_def edge_live_def by simp
    qed (use row in \<open>simp_all add: edge_blocked_def edge_applies_def edge_live_def\<close>)
  qed
  have "fate_spec g loops c steps' ti' = fate_spec g loops c steps ti"
    using past past' same by (simp add: fate_spec_def Let_def cong: bex_cong)
  with spec show ?thesis by (simp add: decideNodeFate_spec)
qed

end
