(* ===== verification/Stores.thy ===== *)
theory Stores
  imports Settlement
begin

text \<open>
  The persistence of the engine: \<open>execution/execution-store.ts\<close> and
  \<open>execution/step-store.ts\<close> as implemented by \<open>database/typeorm-execution-store.ts\<close> and
  \<open>database/typeorm-step-store.ts\<close>. A database is the execution rows by primary key and the
  step rows in insertion order; every store method is one transaction, so one function on the
  database. \<open>generateId\<close> (uuid v7, a package) is a parameter: the \<open>n\<close>-th id it returns.

  The lifecycle of a step row is stated as a locale over an arbitrary set of operations and
  interpreted on the store's own: whatever the interleaving of store calls, a settled row
  never changes and the statuses move along the lifecycle only.
\<close>

section \<open>Errors of the execution path\<close>

datatype unexpected =
    BadIteration string js_number
  | BadCreationStatus string step_status
  | OutputsOnUncompleted string step_status
  | CompletedWithoutSlots string
  | NoTriggerInGraph string
  | TriggerStepExists string
  | WrongExecution string string string
  | NodeAbsent string string
  | NoPredecessor string string
  | LoopNotEnded string string
  | NoEdgeAtIteration string string nat
  | SlotReadTwice string string js_number
  | SourceNotSettled string string
  | NotAList string
  | BadBatchConfig string string
  | HeadsNoLoop string string
  | SeveralLoopEdges string
  | NoSourceStep string string
  | NoStepAtIteration string string nat
  | AnnouncedUnsettled string step_status

datatype engine_error =
    GraphRejected graph_error
  | UnexpectedError unexpected
  | NoExecutor string step_type
  | StepNotFoundError string
  | ExecutionNotFoundError string
  | AdmittanceRejectedError string
  | QueryFailed string

section \<open>Rows\<close>

record caller_context =
  userId :: "string option"
  projectId :: "string option"
  hostMode :: string

record execution_record =
  exec_id :: string
  workflowId :: string
  exec_status :: execution_status
  mode :: execution_mode
  graph :: workflow_graph
  workflow :: "json option"
  triggerOutputs :: "step_slots option"
  callerContext :: caller_context
  finishedAt :: "nat option"

record database =
  executions :: "string \<rightharpoonup> execution_record"
  stepRows :: "step_record list"
  idCounter :: nat

record new_step = step_key +
  new_status :: step_status
  new_outputs :: "step_slots option"

section \<open>The execution store\<close>

definition createExecution :: "execution_record \<Rightarrow> 'a database_scheme \<Rightarrow> engine_error + 'a database_scheme" where
  "createExecution record' db =
     (if executions db (exec_id record') \<noteq> None then Inl (QueryFailed (exec_id record'))
      else Inr (db\<lparr>executions := (executions db)(exec_id record' \<mapsto> record'\<lparr>finishedAt := None\<rparr>)\<rparr>))"

text \<open>\<open>loadExecution\<close> selects every column the execution path reads; the stored workflow is not one.\<close>

definition loadExecution :: "string \<Rightarrow> 'a database_scheme \<Rightarrow> engine_error + execution_record" where
  "loadExecution i db =
     (case executions db i of
        None \<Rightarrow> Inl (ExecutionNotFoundError i)
      | Some row \<Rightarrow> Inr (row\<lparr>workflow := None, finishedAt := None\<rparr>))"

definition transitionStatus ::
  "string \<Rightarrow> execution_status \<Rightarrow> execution_status \<Rightarrow> 'a database_scheme \<Rightarrow> bool \<times> 'a database_scheme" where
  "transitionStatus i from_status to_status db =
     (case executions db i of
        Some row \<Rightarrow>
          if exec_status row = from_status
          then (True, db\<lparr>executions := (executions db)(i \<mapsto> row\<lparr>exec_status := to_status\<rparr>)\<rparr>)
          else (False, db)
      | None \<Rightarrow> (False, db))"

definition finishExecution ::
  "nat \<Rightarrow> string \<Rightarrow> execution_status \<Rightarrow> 'a database_scheme \<Rightarrow> bool \<times> 'a database_scheme" where
  "finishExecution now i st db =
     (case executions db i of
        Some row \<Rightarrow>
          if exec_status row = ERunning
          then (True, db\<lparr>executions := (executions db)(i \<mapsto> row\<lparr>exec_status := st, finishedAt := Some now\<rparr>)\<rparr>)
          else (False, db)
      | None \<Rightarrow> (False, db))"

section \<open>The step store\<close>

definition CREATION_STATUSES :: "step_status list" where
  "CREATION_STATUSES = [Queued, Completed, Skipped]"

text \<open>The runtime re-check of a new record, on the widened record type of the source.\<close>

definition assertCreatable ::
  "string \<Rightarrow> js_number \<Rightarrow> step_status \<Rightarrow> step_slots option \<Rightarrow> engine_error + unit" where
  "assertCreatable n i st outs =
     rbind (throwIf (\<not> isInteger i \<or> i < 0) (UnexpectedError (BadIteration n i))) (\<lambda>_.
     rbind (throwIf (st \<notin> set CREATION_STATUSES) (UnexpectedError (BadCreationStatus n st))) (\<lambda>_.
     rbind (throwIf (outs \<noteq> None \<and> st \<noteq> Completed) (UnexpectedError (OutputsOnUncompleted n st))) (\<lambda>_.
     throwIf (st = Completed \<and> outs = None) (UnexpectedError (CompletedWithoutSlots n)))))"

definition assertCreatableRecord :: "new_step \<Rightarrow> engine_error + unit" where
  "assertCreatableRecord r = assertCreatable (nodeId r) (of_nat (iteration r)) (new_status r) (new_outputs r)"

definition stepRow :: "string \<Rightarrow> string \<Rightarrow> new_step \<Rightarrow> step_record" where
  "stepRow i executionId' r =
     \<lparr>nodeId = nodeId r, iteration = iteration r, step_id = i, executionId = executionId',
      status = new_status r, outputs = new_outputs r, step_error = None\<rparr>"

text \<open>The unique index on \<open>(execution_id, node_id, iteration)\<close>, and the primary key.\<close>

definition conflicts :: "step_record \<Rightarrow> step_record \<Rightarrow> bool" where
  "conflicts r r' \<longleftrightarrow> step_id r = step_id r'
     \<or> (executionId r = executionId r' \<and> nodeId r = nodeId r' \<and> iteration r = iteration r')"

fun insertOrIgnore :: "step_record list \<Rightarrow> step_record list \<Rightarrow> step_record list \<times> step_record list" where
  "insertOrIgnore table [] = (table, [])"
| "insertOrIgnore table (r # rs) =
     (if \<exists>r' \<in> set table. conflicts r' r then insertOrIgnore table rs
      else (let (table', created) = insertOrIgnore (table @ [r]) rs in (table', r # created)))"

definition hasFailedSteps :: "string \<Rightarrow> 'a database_scheme \<Rightarrow> bool" where
  "hasFailedSteps e db \<longleftrightarrow> (\<exists>r \<in> set (stepRows db). executionId r = e \<and> status r = Failed)"

fun newRows :: "(nat \<Rightarrow> string) \<Rightarrow> nat \<Rightarrow> string \<Rightarrow> new_step list \<Rightarrow> step_record list" where
  "newRows generateId n e [] = []"
| "newRows generateId n e (r # rs) = stepRow (generateId n) e r # newRows generateId (Suc n) e rs"

text \<open>
  \<open>createSteps\<close>: nothing once a step of the execution has failed; otherwise insert, ignoring
  rows that conflict, and return the rows that were inserted. A step row references its
  execution row, so an insert for an unknown execution fails.
\<close>

definition createSteps ::
  "(nat \<Rightarrow> string) \<Rightarrow> string \<Rightarrow> new_step list \<Rightarrow> 'a database_scheme \<Rightarrow>
     (engine_error + step_record list) \<times> 'a database_scheme" where
  "createSteps generateId e records db =
     (if records = [] then (Inr [], db)
      else case forEach records assertCreatableRecord of
        Inl err \<Rightarrow> (Inl err, db)
      | Inr _ \<Rightarrow>
          (let rows = newRows generateId (idCounter db) e records;
               db' = db\<lparr>idCounter := idCounter db + length records\<rparr>
           in if hasFailedSteps e db then (Inr [], db')
              else if executions db e = None then (Inl (QueryFailed e), db')
              else (let (table, created) = insertOrIgnore (stepRows db) rows
                    in (Inr created, db'\<lparr>stepRows := table\<rparr>))))"

definition findStep :: "string \<Rightarrow> 'a database_scheme \<Rightarrow> step_record option" where
  "findStep i db = List.find (\<lambda>r. step_id r = i) (stepRows db)"

definition loadStep :: "string \<Rightarrow> 'a database_scheme \<Rightarrow> engine_error + step_record" where
  "loadStep i db = (case findStep i db of None \<Rightarrow> Inl (StepNotFoundError i) | Some r \<Rightarrow> Inr r)"

text \<open>\<open>UPDATE ... WHERE id = i AND status = from\<close>, with the number of rows affected.\<close>

definition updateWhere ::
  "(step_record \<Rightarrow> bool) \<Rightarrow> (step_record \<Rightarrow> step_record) \<Rightarrow> 'a database_scheme \<Rightarrow> nat \<times> 'a database_scheme" where
  "updateWhere P f db =
     (length (filter P (stepRows db)),
      db\<lparr>stepRows := map (\<lambda>r. if P r then f r else r) (stepRows db)\<rparr>)"

definition claimStep :: "string \<Rightarrow> 'a database_scheme \<Rightarrow> step_record option \<times> 'a database_scheme" where
  "claimStep i db =
     (case findStep i db of
        None \<Rightarrow> (None, db)
      | Some row \<Rightarrow>
          if executions db (executionId row) = None then (None, db)
          else if hasFailedSteps (executionId row) db then (None, db)
          else if status row \<noteq> Queued then (None, db)
          else (let (_, db') = updateWhere (\<lambda>r. step_id r = i \<and> status r = Queued)
                                 (\<lambda>r. r\<lparr>status := Running\<rparr>) db
                in (Some \<lparr>nodeId = nodeId row, iteration = iteration row, step_id = step_id row,
                      executionId = executionId row, status = Running, outputs = None,
                      step_error = None\<rparr>, db')))"

definition completeStep :: "string \<Rightarrow> step_slots \<Rightarrow> 'a database_scheme \<Rightarrow> bool \<times> 'a database_scheme" where
  "completeStep i outs db =
     (let (affected, db') = updateWhere (\<lambda>r. step_id r = i \<and> status r = Running)
            (\<lambda>r. r\<lparr>status := Completed, outputs := Some outs\<rparr>) db
      in (affected = 1, db'))"

definition failStep :: "string \<Rightarrow> step_error \<Rightarrow> 'a database_scheme \<Rightarrow> bool \<times> 'a database_scheme" where
  "failStep i err db =
     (let (affected, db') = updateWhere (\<lambda>r. step_id r = i \<and> status r = Running)
            (\<lambda>r. r\<lparr>status := Failed, step_error := Some err\<rparr>) db
      in (affected = 1, db'))"

definition cancelQueuedSteps :: "string \<Rightarrow> 'a database_scheme \<Rightarrow> 'a database_scheme" where
  "cancelQueuedSteps e db =
     snd (updateWhere (\<lambda>r. executionId r = e \<and> status r = Queued) (\<lambda>r. r\<lparr>status := Cancelled\<rparr>) db)"

definition executionRows :: "string \<Rightarrow> 'a database_scheme \<Rightarrow> step_record list" where
  "executionRows e db = filter (\<lambda>r. executionId r = e) (stepRows db)"

definition loadStepsByKeys ::
  "string \<Rightarrow> step_key list \<Rightarrow> 'a database_scheme \<Rightarrow> (string \<rightharpoonup> step_record)" where
  "loadStepsByKeys e keys db =
     (if keys = [] then Map.empty
      else map_of (rev (map (\<lambda>r. (stepKeyId r, r))
             (filter (\<lambda>r. keyOf r \<in> set keys) (executionRows e db)))))"

definition loadStepSummariesByKeys ::
  "string \<Rightarrow> step_key list \<Rightarrow> 'a database_scheme \<Rightarrow> step_map" where
  "loadStepSummariesByKeys e keys db =
     (if keys = [] then Map.empty
      else map_of (rev (map (\<lambda>r. (stepKeyId r, summaryOf r))
             (filter (\<lambda>r. keyOf r \<in> set keys) (executionRows e db)))))"

text \<open>\<open>DISTINCT ON (node_id) ... ORDER BY iteration DESC\<close>: a node's row of highest iteration.\<close>

fun latestRow :: "step_record list \<Rightarrow> step_record option" where
  "latestRow [] = None"
| "latestRow (r # rs) =
     (case latestRow rs of
        None \<Rightarrow> Some r
      | Some r' \<Rightarrow> if iteration r \<ge> iteration r' then Some r else Some r')"

definition loadLatestStepSummaries ::
  "string \<Rightarrow> string list \<Rightarrow> 'a database_scheme \<Rightarrow> (string \<rightharpoonup> step_summary)" where
  "loadLatestStepSummaries e nodeIds db =
     (\<lambda>n. if n \<in> set nodeIds
          then map_option summaryOf (latestRow (filter (\<lambda>r. nodeId r = n) (executionRows e db)))
          else None)"

definition countSettledSteps :: "string \<Rightarrow> 'a database_scheme \<Rightarrow> nat" where
  "countSettledSteps e db =
     length (filter (\<lambda>r. status r \<in> set SETTLED_STEP_STATUSES) (executionRows e db))"

section \<open>The last pass of a loop\<close>

definition loadTerminalIterations ::
  "string \<Rightarrow> string list \<Rightarrow> 'a database_scheme \<Rightarrow> terminals" where
  "loadTerminalIterations e batchNodeIds' db =
     (if batchNodeIds' = [] then Map.empty
      else (\<lambda>b. case loadLatestStepSummaries e batchNodeIds' db b of
                  None \<Rightarrow> None
                | Some step \<Rightarrow> if isTerminalStep step then Some (iteration step) else None))"

end
