(* ===== verification/BatchStep.thy ===== *)
theory BatchStep
  imports Stores
begin

text \<open>
  \<open>execution/batch-step.ts\<close> and \<open>execution/store-loop-reader.ts\<close>: one pass of a batch node. A
  pass cuts its share out of the list that entered the loop by its own number alone; the pass
  that finds nothing left gathers what the body returned on every earlier pass and ends the
  loop. The theory proves that the passes partition the list in order, which pass ends the
  loop, and what the loop hands on.
\<close>

section \<open>One pass\<close>

definition asList :: "json \<Rightarrow> string \<Rightarrow> engine_error + json list" where
  "asList value displayName =
     (case value of
        JNull \<Rightarrow> Inr []
      | JArray vs \<Rightarrow> Inr vs
      | _ \<Rightarrow> Inl (UnexpectedError (NotAList displayName)))"

definition slot :: "js_number \<Rightarrow> json list \<Rightarrow> step_slots" where
  "slot filled value = (if filled = DONE_SLOT then [JArray value, JNull] else [JNull, JArray value])"

text \<open>The reader of a loop: its two database reads, the second of them by pass.\<close>

record loop_reader =
  readOriginalItems :: "engine_error + json"
  readArrivals :: "nat \<Rightarrow> engine_error + json list"

definition arrivalName :: "nat \<Rightarrow> string" where
  "arrivalName index = ''arrival '' @ nat_to_string index @ '' of the batch node''"

definition runBatchStep :: "json option \<Rightarrow> nat \<Rightarrow> loop_reader \<Rightarrow> engine_error + step_slots" where
  "runBatchStep config iter reader =
     rbind (readOriginalItems reader) (\<lambda>original.
     rbind (asList original ''the batch node input'') (\<lambda>originalItems.
       let start = iter * batchSize config;
           share = slice originalItems start (start + batchSize config)
       in if share \<noteq> [] then Inr (slot LOOP_SLOT share)
          else rbind (readArrivals reader iter) (\<lambda>arrivals.
               rbind (traverse (\<lambda>(index, arrival). asList arrival (arrivalName index)) (enumerate 0 arrivals)) (\<lambda>lists.
               let accumulated = concat lists
               in if accumulated = [] then Inr [JNull, JNull] else Inr (slot DONE_SLOT accumulated)))))"

section \<open>The reads of a loop\<close>

text \<open>\<open>step.outputs?.[index] ?? null\<close>\<close>

definition outputAt :: "step_slots option \<Rightarrow> js_number \<Rightarrow> json" where
  "outputAt outs index =
     (case outs of None \<Rightarrow> JNull | Some vs \<Rightarrow> (case js_index vs index of None \<Rightarrow> JNull | Some v \<Rightarrow> v))"

definition readStepOutput ::
  "string \<Rightarrow> string \<Rightarrow> graph_edge \<Rightarrow> step_key \<Rightarrow> (string \<rightharpoonup> step_record) \<Rightarrow> engine_error + json" where
  "readStepOutput batch source edge key steps =
     (case steps (stepKeyId key) of
        None \<Rightarrow> Inl (UnexpectedError (NoStepAtIteration batch source (iteration key)))
      | Some step \<Rightarrow> Inr (outputAt (outputs step) (outputIndex edge)))"

definition originalItemsRead ::
  "string \<Rightarrow> workflow_loop list \<Rightarrow> workflow_loop \<Rightarrow> terminals \<Rightarrow> 'a database_scheme \<Rightarrow> engine_error + json" where
  "originalItemsRead e loops loop ti db =
     (case entryEdges loop of
        [] \<Rightarrow> Inr JNull
      | entryEdge # _ \<Rightarrow>
          (case sourceRow entryEdge (classifyEdge entryEdge loops) (mk_key (batchNodeId loop) 0)
                  (ti (edge_from entryEdge)) of
             Row key \<Rightarrow> readStepOutput (batchNodeId loop) (edge_from entryEdge) entryEdge key
                          (loadStepsByKeys e [key] db)
           | _ \<Rightarrow> Inl (UnexpectedError (NoSourceStep (batchNodeId loop) (edge_from entryEdge)))))"

definition arrivalsRead ::
  "string \<Rightarrow> workflow_loop \<Rightarrow> 'a database_scheme \<Rightarrow> nat \<Rightarrow> engine_error + json list" where
  "arrivalsRead e loop db iter =
     (case backEdges loop of
        [] \<Rightarrow> Inr []
      | backEdge # _ \<Rightarrow>
          if iter = 0 then Inr []
          else (let keys = map (\<lambda>index. mk_key (edge_from backEdge) index) [0..<iter];
                    steps = loadStepsByKeys e keys db
                in traverse (\<lambda>key. readStepOutput (batchNodeId loop) (edge_from backEdge) backEdge key steps) keys))"

definition createStoreLoopReader ::
  "string \<Rightarrow> workflow_loop list \<Rightarrow> workflow_loop \<Rightarrow> terminals \<Rightarrow> 'a database_scheme \<Rightarrow> engine_error + loop_reader" where
  "createStoreLoopReader e loops loop ti db =
     (if length (entryEdges loop) > 1 \<or> length (backEdges loop) > 1
      then Inl (UnexpectedError (SeveralLoopEdges (batchNodeId loop)))
      else Inr \<lparr>readOriginalItems = originalItemsRead e loops loop ti db,
                readArrivals = arrivalsRead e loop db\<rparr>)"

section \<open>What a pass does\<close>

definition share_of :: "json option \<Rightarrow> json list \<Rightarrow> nat \<Rightarrow> json list" where
  "share_of config items i = slice items (i * batchSize config) (i * batchSize config + batchSize config)"

lemma share_of_empty_iff:
  "isBatchStepConfig config \<Longrightarrow> share_of config items i = [] \<longleftrightarrow> length items \<le> i * batchSize config"
  using batchSize_pos [of config] by (auto simp: share_of_def)

lemma runBatchStep_share:
  assumes "readOriginalItems reader = Inr (JArray items)" and "share_of config items i \<noteq> []"
  shows "runBatchStep config i reader = Inr [JNull, JArray (share_of config items i)]"
  using assms by (simp add: runBatchStep_def asList_def share_of_def Let_def slot_def DONE_SLOT_def LOOP_SLOT_def)

lemma runBatchStep_end:
  assumes "readOriginalItems reader = Inr (JArray items)" and "share_of config items i = []"
    and "readArrivals reader i = Inr (map JArray returned)"
  shows "runBatchStep config i reader =
     Inr (if concat returned = [] then [JNull, JNull] else [JArray (concat returned), JNull])"
proof -
  have "traverse (\<lambda>(index, arrival). asList arrival (arrivalName index)) (enumerate n (map JArray vs)) = Inr vs" for n vs
    by (induction vs arbitrary: n) (auto simp: asList_def)
  with assms show ?thesis
    by (simp add: runBatchStep_def asList_def share_of_def Let_def slot_def DONE_SLOT_def LOOP_SLOT_def)
qed

text \<open>A completed batch step with these outputs ends its loop exactly when nothing was left.\<close>

definition batch_summary :: "string \<Rightarrow> nat \<Rightarrow> string \<Rightarrow> step_slots \<Rightarrow> step_summary" where
  "batch_summary n i sid outs = \<lparr>nodeId = n, iteration = i, sum_id = sid, sum_status = Completed,
     filledOutputSlots = filledSlots (Some outs)\<rparr>"

lemma js_flag_pair [simp]: "js_flag [a, b] 0 = a" "js_flag [a, b] 1 = b"
  by (simp_all add: js_flag_def)

lemma isTerminal_share: "\<not> isTerminalStep (batch_summary n i sid [JNull, JArray vs])"
  by (simp add: isTerminalStep_def batch_summary_def endsLoop_def filledSlots_def LOOP_SLOT_def)

lemma isTerminal_end: "isTerminalStep (batch_summary n i sid [v, JNull])"
  by (simp add: isTerminalStep_def batch_summary_def endsLoop_def filledSlots_def LOOP_SLOT_def)

lemma shares_partition:
  assumes "length items \<le> t * batchSize config"
  shows "concat (map (share_of config items) [0..<t]) = items"
  using concat_slices [of items "batchSize config" t] assms
  by (simp add: share_of_def [abs_def])

end
