(* ===== verification/Completion.thy ===== *)
theory Completion
  imports BatchStep
begin

text \<open>
  \<open>execution/completion.ts\<close>: how many settled steps a finished execution owes. The theory
  states which steps these are (\<open>owed_keys\<close>) and proves that the count is their number.
\<close>

section \<open>The count\<close>

fun owedByLoops ::
  "workflow_loop list \<Rightarrow> terminals \<Rightarrow> int \<Rightarrow> string list \<Rightarrow> (int \<times> string list) option" where
  "owedByLoops [] ti expected members = Some (expected, members)"
| "owedByLoops (loop # loops) ti expected members =
     (case ti (batchNodeId loop) of
        None \<Rightarrow> None
      | Some terminal \<Rightarrow>
          owedByLoops loops ti
            (expected + int terminal + 1 + int terminal * (int (length (memberIds loop)) - 1))
            (foldl (\<lambda>ms m. set_add m ms) members (memberIds loop)))"

definition countExpectedSettledSteps ::
  "workflow_loop list \<Rightarrow> string list \<Rightarrow> terminals \<Rightarrow> int option" where
  "countExpectedSettledSteps loops reachable ti =
     (case owedByLoops (filter (\<lambda>l. batchNodeId l \<in> set reachable) loops) ti 0 [] of
        None \<Rightarrow> None
      | Some (expected, members) \<Rightarrow>
          Some (expected + int (length (filter (\<lambda>n. n \<notin> set members) reachable))))"

section \<open>The steps owed\<close>

definition loop_keys :: "workflow_loop \<Rightarrow> nat \<Rightarrow> step_key set" where
  "loop_keys l t = {k. nodeId k = batchNodeId l \<and> iteration k \<le> t}
     \<union> {k. nodeId k \<in> set (memberIds l) - {batchNodeId l} \<and> iteration k < t}"

definition owed_keys :: "workflow_loop list \<Rightarrow> string set \<Rightarrow> terminals \<Rightarrow> step_key set" where
  "owed_keys loops reachable ti =
     (\<Union>l \<in> {l \<in> set loops. batchNodeId l \<in> reachable}. loop_keys l (the (ti (batchNodeId l))))
     \<union> {k. nodeId k \<in> reachable \<and> iteration k = 0
          \<and> (\<forall>l \<in> set loops. batchNodeId l \<in> reachable \<longrightarrow> nodeId k \<notin> set (memberIds l))}"

lemma key_set_eq: "{k. nodeId k \<in> A \<and> iteration k \<in> B} = (\<lambda>(n, i). mk_key n i) ` (A \<times> B)"
  by (force simp: image_iff)

lemma inj_on_key: "inj_on (\<lambda>(n, i). mk_key n i) S"
  by (auto simp: inj_on_def)

lemma finite_keys: "finite A \<Longrightarrow> finite B \<Longrightarrow> finite {k :: step_key. nodeId k \<in> A \<and> iteration k \<in> B}"
  by (simp add: key_set_eq)

lemma card_keys: "card {k :: step_key. nodeId k \<in> A \<and> iteration k \<in> B} = card A * card B"
  by (simp add: key_set_eq card_image [OF inj_on_key] card_cartesian_product)

lemma loop_keys_split:
  "loop_keys l t = {k. nodeId k \<in> {batchNodeId l} \<and> iteration k \<in> {..t}}
     \<union> {k. nodeId k \<in> set (memberIds l) - {batchNodeId l} \<and> iteration k \<in> {..<t}}"
  by (auto simp: loop_keys_def)

lemma finite_loop_keys: "finite (loop_keys l t)"
  unfolding loop_keys_split by (intro finite_UnI finite_keys) auto

lemma card_loop_keys:
  assumes "distinct (memberIds l)" and "batchNodeId l \<in> set (memberIds l)"
  shows "int (card (loop_keys l t)) = int t + 1 + int t * (int (length (memberIds l)) - 1)"
proof -
  have "card (set (memberIds l) - {batchNodeId l}) = length (memberIds l) - 1"
    using assms by (simp add: distinct_card)
  moreover have "1 \<le> length (memberIds l)" using assms(2) by (cases "memberIds l") auto
  moreover have "card (loop_keys l t) = card {k :: step_key. nodeId k \<in> {batchNodeId l} \<and> iteration k \<in> {..t}}
      + card {k :: step_key. nodeId k \<in> set (memberIds l) - {batchNodeId l} \<and> iteration k \<in> {..<t}}"
    unfolding loop_keys_split by (rule card_Un_disjoint) (blast intro: finite_keys finite_atMost
        finite_lessThan finite_Diff finite_set finite.intros)+
  ultimately show ?thesis by (simp only: card_keys) (simp add: of_nat_diff algebra_simps)
qed

definition loops_ok :: "workflow_loop list \<Rightarrow> bool" where
  "loops_ok loops \<longleftrightarrow> distinct loops
     \<and> (\<forall>l \<in> set loops. distinct (memberIds l) \<and> batchNodeId l \<in> set (memberIds l))
     \<and> (\<forall>l \<in> set loops. \<forall>l' \<in> set loops. l \<noteq> l' \<longrightarrow> set (memberIds l) \<inter> set (memberIds l') = {})"

lemma owedByLoops_eq:
  assumes "loops_ok loops" and "\<forall>l \<in> set loops. ti (batchNodeId l) \<noteq> None"
  shows "owedByLoops loops ti x ms = Some
     (x + int (card (\<Union>l \<in> set loops. loop_keys l (the (ti (batchNodeId l))))),
      foldl (\<lambda>ms m. set_add m ms) ms (concat (map memberIds loops)))"
  using assms
proof (induction loops arbitrary: x ms)
  case (Cons l ls)
  let ?t = "the (ti (batchNodeId l))"
  let ?U = "\<Union>l \<in> set ls. loop_keys l (the (ti (batchNodeId l)))"
  have sub: "nodeId k \<in> set (memberIds l')" if "k \<in> loop_keys l' t" "l' \<in> set (l # ls)" for k l' t
    using that Cons.prems(1) by (auto simp: loop_keys_def loops_ok_def)
  have "loop_keys l ?t \<inter> ?U = {}"
  proof -
    have False if "k \<in> loop_keys l ?t" "l' \<in> set ls" "k \<in> loop_keys l' t" for k l' t
    proof -
      have "nodeId k \<in> set (memberIds l)" "nodeId k \<in> set (memberIds l')" "l \<noteq> l'"
        using sub [OF that(1)] sub [OF that(3)] that(2) Cons.prems(1) by (auto simp: loops_ok_def)
      then show False using Cons.prems(1) that(2) by (auto simp: loops_ok_def)
    qed
    then show ?thesis by blast
  qed
  then have "card (loop_keys l ?t \<union> ?U) = card (loop_keys l ?t) + card ?U"
    by (intro card_Un_disjoint) (auto simp: finite_loop_keys)
  moreover have "loops_ok ls" using Cons.prems(1) by (auto simp: loops_ok_def)
  moreover have "int (card (loop_keys l ?t)) = int ?t + 1 + int ?t * (int (length (memberIds l)) - 1)"
    by (rule card_loop_keys) (use Cons.prems(1) in \<open>auto simp: loops_ok_def\<close>)
  ultimately show ?case using Cons.IH Cons.prems(2) by (auto simp: add.assoc)
qed simp

lemma owedByLoops_None:
  "owedByLoops loops ti x ms = None \<longleftrightarrow> (\<exists>l \<in> set loops. ti (batchNodeId l) = None)"
  by (induction loops arbitrary: x ms) (auto split: option.splits)

lemma foldl_add_set: "set (foldl (\<lambda>ms m. set_add m ms) ms xs) = set ms \<union> set xs"
  by (induction xs arbitrary: ms) auto

lemma countExpectedSettledSteps_None:
  "countExpectedSettledSteps loops reachable ti = None \<longleftrightarrow>
     (\<exists>l \<in> set loops. batchNodeId l \<in> set reachable \<and> ti (batchNodeId l) = None)"
proof -
  let ?o = "owedByLoops (filter (\<lambda>l. batchNodeId l \<in> set reachable) loops) ti 0 []"
  have "countExpectedSettledSteps loops reachable ti = None \<longleftrightarrow> ?o = None"
    by (simp add: countExpectedSettledSteps_def split: option.split)
  then show ?thesis by (auto simp: owedByLoops_None)
qed

lemma finite_owed_keys: "finite (owed_keys loops (set reachable) ti)"
proof -
  have "finite {k :: step_key. nodeId k \<in> set reachable \<and> iteration k = 0
      \<and> (\<forall>l \<in> set loops. batchNodeId l \<in> set reachable \<longrightarrow> nodeId k \<notin> set (memberIds l))}"
    by (rule finite_subset [OF _ finite_keys [of "set reachable" "{0}"]]) auto
  then show ?thesis
    unfolding owed_keys_def by (simp add: finite_loop_keys)
qed

lemma countExpectedSettledSteps_card:
  assumes ok: "loops_ok loops" and "distinct reachable"
    and ti: "\<forall>l \<in> set loops. batchNodeId l \<in> set reachable \<longrightarrow> ti (batchNodeId l) \<noteq> None"
  shows "countExpectedSettledSteps loops reachable ti = Some (int (card (owed_keys loops (set reachable) ti)))"
proof -
  let ?ls = "filter (\<lambda>l. batchNodeId l \<in> set reachable) loops"
  let ?L = "\<Union>l \<in> {l \<in> set loops. batchNodeId l \<in> set reachable}. loop_keys l (the (ti (batchNodeId l)))"
  let ?free = "\<lambda>n. \<forall>l \<in> set loops. batchNodeId l \<in> set reachable \<longrightarrow> n \<notin> set (memberIds l)"
  let ?F = "{k :: step_key. nodeId k \<in> set reachable \<and> iteration k = 0 \<and> ?free (nodeId k)}"
  have "loops_ok ?ls" using ok by (auto simp: loops_ok_def)
  then have by_loops: "owedByLoops ?ls ti 0 [] = Some (int (card ?L),
      foldl (\<lambda>ms m. set_add m ms) [] (concat (map memberIds ?ls)))"
    using owedByLoops_eq [of ?ls ti 0 "[]"] ti by simp
  have "?L \<inter> ?F = {}"
  proof -
    have "nodeId k \<in> set (memberIds l)" if "k \<in> loop_keys l t" "l \<in> set loops" for k l t
      using that ok by (auto simp: loop_keys_def loops_ok_def)
    then show ?thesis by blast
  qed
  moreover have "finite ?L" "finite ?F"
    using finite_owed_keys [of loops reachable ti] unfolding owed_keys_def by simp_all
  ultimately have "card (?L \<union> ?F) = card ?L + card ?F" by (intro card_Un_disjoint)
  moreover have "card ?F = length (filter ?free reachable)"
  proof -
    have "?F = {k :: step_key. nodeId k \<in> set (filter ?free reachable) \<and> iteration k \<in> {0}}" by auto
    then have "card ?F = card (set (filter ?free reachable))" by (simp only: card_keys) simp
    then show ?thesis using distinct_card [of "filter ?free reachable"] assms(2) by simp
  qed
  moreover have "filter (\<lambda>n. n \<notin> set (foldl (\<lambda>ms m. set_add m ms) [] (concat (map memberIds ?ls)))) reachable
      = filter ?free reachable"
    by (rule filter_cong [OF refl]) (auto simp: foldl_add_set)
  ultimately show ?thesis
    using by_loops by (simp only: countExpectedSettledSteps_def owed_keys_def option.case prod.case) simp
qed

end
