(* ===== verification/Handlers.thy ===== *)
theory Handlers
  imports Completion
begin

text \<open>
  The handlers of the execution path: \<open>execution/start-execution.service.ts\<close>,
  \<open>execution/execution-start-handler.ts\<close>, \<open>execution/step-ready-handler.ts\<close>,
  \<open>execution/step-settled-handler.ts\<close>, \<open>execution/validate-step-context.ts\<close> and the two
  workers. The world a handler runs in is the database extended with the pending messages of
  the two queues, the lifecycle events and the responses it has published. A handler is a
  function from a world to a result or error and the world it leaves; what it has done before
  it throws stays done.
\<close>

section \<open>Messages, events and responses\<close>

datatype orchestration_message =
    ExecutionEnqueued (msg_execution: string)
  | StepSettled (msg_execution: string) (msg_step: string)

datatype step_message = StepReady (ready_execution: string) (ready_step: string)

record step_fields =
  ev_execution :: string
  ev_step :: string
  ev_node :: string
  ev_node_name :: string
  ev_iteration :: nat
  ev_at :: nat

datatype lifecycle_event =
    ExecutionStarted string string execution_mode string nat
  | ExecutionCompleted string string nat
  | ExecutionFailed string string nat
  | StepStarted step_fields
  | StepCompleted step_fields step_slots
  | StepFailed step_fields

datatype outcome = OutcomeCompleted | OutcomeFailed

record last_step =
  last_node :: string
  last_node_name :: string
  last_status :: step_status
  last_outputs :: "step_slots option"
  last_error :: "(string \<times> string) option"

datatype execution_response = Ended string string outcome last_step

record world = database +
  stepQueue :: "step_message list"
  orchestrationQueue :: "orchestration_message list"
  lifecycleEvents :: "lifecycle_event list"
  responses :: "execution_response list"
  clock :: nat

section \<open>What the host supplies\<close>

record execution_context =
  ctx_execution :: string
  ctx_step :: string
  ctx_workflow :: string
  ctx_mode :: execution_mode
  ctx_iteration :: nat
  ctx_caller :: caller_context

record execution_request =
  req_node :: graph_node
  req_inputs :: step_slots
  req_context :: execution_context

text \<open>What a callback throws: an error of the engine, another \<open>Error\<close>, or any other value.\<close>

datatype thrown =
    EngineThrown engine_error
  | ErrorThrown step_error
  | ValueThrown string

text \<open>
  \<open>generateId\<close> (uuid), the executor of v1 nodes (absent when the host gives none), the admittance
  policy (\<open>Some reason\<close> is a rejection) and the \<open>Error\<close> object the runtime makes of an engine error.
\<close>

record host =
  newId :: "nat \<Rightarrow> string"
  v1StepExecutor :: "(world \<Rightarrow> execution_request \<Rightarrow> thrown + step_slots) option"
  admittance :: "string \<Rightarrow> string option"
  errorObject :: "engine_error \<Rightarrow> step_error"

section \<open>Running in a world\<close>

type_synonym 'a engine = "world \<Rightarrow> (engine_error + 'a) \<times> world"

definition ereturn :: "'a \<Rightarrow> 'a engine" where
  "ereturn a w = (Inr a, w)"

definition ebind :: "'a engine \<Rightarrow> ('a \<Rightarrow> 'b engine) \<Rightarrow> 'b engine" where
  "ebind m f w = (case m w of (Inl err, w') \<Rightarrow> (Inl err, w') | (Inr a, w') \<Rightarrow> f a w')"

text \<open>A computation that may throw, a read of the world, and a store call that reports a value.\<close>

definition lift :: "engine_error + 'a \<Rightarrow> 'a engine" where
  "lift r w = (r, w)"

definition ask :: "(world \<Rightarrow> engine_error + 'a) \<Rightarrow> 'a engine" where
  "ask f w = (f w, w)"

definition call :: "(world \<Rightarrow> 'a \<times> world) \<Rightarrow> 'a engine" where
  "call f w = (case f w of (a, w') \<Rightarrow> (Inr a, w'))"

definition modify :: "(world \<Rightarrow> world) \<Rightarrow> unit engine" where
  "modify f w = (Inr (), f w)"

fun forEachE :: "'a list \<Rightarrow> ('a \<Rightarrow> unit engine) \<Rightarrow> unit engine" where
  "forEachE [] f = ereturn ()"
| "forEachE (x # xs) f = ebind (f x) (\<lambda>_. forEachE xs f)"

definition publishOrchestration :: "orchestration_message \<Rightarrow> unit engine" where
  "publishOrchestration m = modify (\<lambda>w. w\<lparr>orchestrationQueue := orchestrationQueue w @ [m]\<rparr>)"

definition publishStep :: "step_message \<Rightarrow> unit engine" where
  "publishStep m = modify (\<lambda>w. w\<lparr>stepQueue := stepQueue w @ [m]\<rparr>)"

text \<open>An event carries the time it is published at.\<close>

definition emit :: "(nat \<Rightarrow> lifecycle_event) \<Rightarrow> unit engine" where
  "emit ev = modify (\<lambda>w. w\<lparr>lifecycleEvents := lifecycleEvents w @ [ev (clock w)]\<rparr>)"

definition respond :: "execution_response \<Rightarrow> unit engine" where
  "respond r = modify (\<lambda>w. w\<lparr>responses := responses w @ [r]\<rparr>)"

definition DEFAULT_TRIGGER_OUTPUTS :: step_slots where
  "DEFAULT_TRIGGER_OUTPUTS = []"

section \<open>Starting an execution\<close>

record start_request =
  start_workflowId :: string
  start_graph :: workflow_graph
  start_workflow :: json
  start_triggerOutputs :: "step_slots option"
  start_mode :: "execution_mode option"
  start_callerContext :: caller_context
  start_executionId :: string

definition startService :: "host \<Rightarrow> start_request \<Rightarrow> string engine" where
  "startService h request =
     ebind (lift (case validateExecutableGraph (start_graph request) of
                    Inl err \<Rightarrow> Inl (GraphRejected err) | Inr _ \<Rightarrow> Inr ())) (\<lambda>_.
     ebind (lift (case admittance h (start_workflowId request) of
                    Some reason \<Rightarrow> Inl (AdmittanceRejectedError reason) | None \<Rightarrow> Inr ())) (\<lambda>_.
     ebind (\<lambda>w. case createExecution
                  \<lparr>exec_id = start_executionId request,
                   workflowId = start_workflowId request,
                   exec_status = EQueued,
                   mode = (case start_mode request of None \<Rightarrow> Production | Some m \<Rightarrow> m),
                   graph = start_graph request,
                   workflow = Some (start_workflow request),
                   triggerOutputs = start_triggerOutputs request,
                   callerContext = start_callerContext request,
                   finishedAt = None\<rparr> w of
                Inl err \<Rightarrow> (Inl err, w) | Inr w' \<Rightarrow> (Inr (), w')) (\<lambda>_.
     ebind (publishOrchestration (ExecutionEnqueued (start_executionId request))) (\<lambda>_.
     ereturn (start_executionId request)))))"

definition executionStart_handle :: "host \<Rightarrow> string \<Rightarrow> unit engine" where
  "executionStart_handle h e =
     ebind (call (transitionStatus e EQueued ERunning)) (\<lambda>claimed.
     if \<not> claimed then ereturn ()
     else
       ebind (ask (loadExecution e)) (\<lambda>execution.
       ebind (emit (ExecutionStarted (exec_id execution) (workflowId execution) (mode execution)
                      (hostMode (callerContext execution)))) (\<lambda>_.
       case findTriggerNode (graph execution) of
         None \<Rightarrow> lift (Inl (UnexpectedError (NoTriggerInGraph e)))
       | Some trigger \<Rightarrow>
           ebind (createSteps (newId h) e
                    [\<lparr>nodeId = node_id trigger, iteration = 0, new_status = Completed,
                      new_outputs = Some (case triggerOutputs execution of
                        None \<Rightarrow> DEFAULT_TRIGGER_OUTPUTS | Some outs \<Rightarrow> outs)\<rparr>]) (\<lambda>created.
           case created of
             [] \<Rightarrow> lift (Inl (UnexpectedError (TriggerStepExists e)))
           | triggerStep # _ \<Rightarrow> publishOrchestration (StepSettled e (step_id triggerStep))))))"

section \<open>Agreement of step and execution\<close>

definition validateStepContext :: "step_record \<Rightarrow> execution_record \<Rightarrow> engine_error + graph_node" where
  "validateStepContext step execution =
     (if executionId step \<noteq> exec_id execution
      then Inl (UnexpectedError (WrongExecution (step_id step) (executionId step) (exec_id execution)))
      else case List.find (\<lambda>candidate. node_id candidate = nodeId step) (nodes (graph execution)) of
             None \<Rightarrow> Inl (UnexpectedError (NodeAbsent (step_id step) (nodeId step)))
           | Some node \<Rightarrow> Inr node)"

section \<open>Inputs of a step\<close>

type_synonym input_read = "graph_edge \<times> step_key"

fun readsLoop ::
  "graph_edge list \<Rightarrow> workflow_loop list \<Rightarrow> step_record \<Rightarrow> terminals \<Rightarrow> engine_error + input_read list" where
  "readsLoop [] loops step ti = Inr []"
| "readsLoop (edge # es) loops step ti =
     (case sourceRow edge (classifyEdge edge loops) step (ti (edge_from edge)) of
        Row key \<Rightarrow> rbind (readsLoop es loops step ti) (\<lambda>reads. Inr ((edge, key) # reads))
      | NoRow \<Rightarrow> readsLoop es loops step ti
      | Pending \<Rightarrow> Inl (UnexpectedError (LoopNotEnded (step_id step) (edge_from edge))))"

fun checkInputSlots ::
  "input_read list \<Rightarrow> step_record \<Rightarrow> js_number list \<Rightarrow> engine_error + unit" where
  "checkInputSlots [] step filled = Inr ()"
| "checkInputSlots ((edge, key) # reads) step filled =
     (if inputIndex edge \<in> set filled
      then Inl (UnexpectedError (SlotReadTwice (step_id step) (nodeId step) (inputIndex edge)))
      else checkInputSlots reads step (set_add (inputIndex edge) filled))"

definition resolveInputReads ::
  "graph_edge list \<Rightarrow> workflow_loop list \<Rightarrow> step_record \<Rightarrow> terminals \<Rightarrow> engine_error + input_read list" where
  "resolveInputReads incoming loops step ti =
     rbind (readsLoop incoming loops step ti) (\<lambda>reads.
     if reads = []
     then Inl (UnexpectedError (NoEdgeAtIteration (step_id step) (nodeId step) (iteration step)))
     else rbind (checkInputSlots reads step []) (\<lambda>_. Inr reads))"

definition readEdgeValue ::
  "graph_edge \<Rightarrow> step_key \<Rightarrow> step_record \<Rightarrow> (string \<rightharpoonup> step_record) \<Rightarrow> engine_error + json" where
  "readEdgeValue edge source step rows =
     (case rows (stepKeyId source) of
        None \<Rightarrow> Inl (UnexpectedError (SourceNotSettled (step_id step) (edge_from edge)))
      | Some row \<Rightarrow>
          if \<not> isSettledStatus (status row)
          then Inl (UnexpectedError (SourceNotSettled (step_id step) (edge_from edge)))
          else if status row \<noteq> Completed then Inr JNull
          else Inr (outputAt (outputs row) (outputIndex edge)))"

text \<open>\<open>inputs[i] = v\<close> on an array that has the slot; at any other number the elements stay.\<close>

definition js_store :: "'a list \<Rightarrow> js_number \<Rightarrow> 'a \<Rightarrow> 'a list" where
  "js_store xs i v =
     (if isInteger i \<and> 0 \<le> i \<and> i < of_nat (length xs) then xs[nat \<lfloor>i\<rfloor> := v] else xs)"

fun fillInputs ::
  "input_read list \<Rightarrow> step_record \<Rightarrow> (string \<rightharpoonup> step_record) \<Rightarrow> step_slots \<Rightarrow> engine_error + step_slots" where
  "fillInputs [] step rows inputs = Inr inputs"
| "fillInputs ((edge, key) # reads) step rows inputs =
     rbind (readEdgeValue edge key step rows) (\<lambda>v.
     fillInputs reads step rows (js_store inputs (inputIndex edge) v))"

definition inputCount :: "input_read list \<Rightarrow> nat" where
  "inputCount reads = nat \<lfloor>Max (set (map (\<lambda>(edge, key). inputIndex edge) reads)) + 1\<rfloor>"

definition terminalsInto ::
  "string \<Rightarrow> workflow_graph \<Rightarrow> string list \<Rightarrow> 'a database_scheme \<Rightarrow> terminals" where
  "terminalsInto e g targets db =
     loadTerminalIterations e (exitSourcesInto g (deriveLoops g) targets) db"

definition gatherInputs ::
  "execution_record \<Rightarrow> step_record \<Rightarrow> 'a database_scheme \<Rightarrow> engine_error + step_slots" where
  "gatherInputs execution step db =
     (let g = graph execution;
          incoming = filter (\<lambda>edge. edge_to edge = nodeId step) (edges g)
      in if incoming = []
         then Inl (UnexpectedError (NoPredecessor (step_id step) (nodeId step)))
         else rbind (resolveInputReads incoming (deriveLoops g) step
                       (terminalsInto (exec_id execution) g [nodeId step] db)) (\<lambda>reads.
              let rows = loadStepsByKeys (exec_id execution) (js_set (map snd reads)) db
              in fillInputs reads step rows (replicate (inputCount reads) JNull)))"

section \<open>Running a step\<close>

definition executorFor ::
  "host \<Rightarrow> step_record \<Rightarrow> graph_node \<Rightarrow> engine_error + (world \<Rightarrow> execution_request \<Rightarrow> thrown + step_slots)" where
  "executorFor h step node =
     (if node_type node = V1Node
      then (case v1StepExecutor h of
              None \<Rightarrow> Inl (NoExecutor (step_id step) V1Node)
            | Some executor \<Rightarrow> Inr executor)
      else Inl (NoExecutor (step_id step) (node_type node)))"

definition runStep ::
  "step_record \<Rightarrow> execution_record \<Rightarrow> graph_node \<Rightarrow> step_slots \<Rightarrow>
     (world \<Rightarrow> execution_request \<Rightarrow> thrown + step_slots) \<Rightarrow> world \<Rightarrow> thrown + step_slots" where
  "runStep step execution node inputs executor w =
     executor w
       \<lparr>req_node = node, req_inputs = inputs,
        req_context = \<lparr>ctx_execution = exec_id execution, ctx_step = step_id step,
          ctx_workflow = workflowId execution, ctx_mode = mode execution,
          ctx_iteration = iteration step, ctx_caller = callerContext execution\<rparr>\<rparr>"

definition runBatchNode ::
  "step_record \<Rightarrow> execution_record \<Rightarrow> graph_node \<Rightarrow> 'a database_scheme \<Rightarrow> engine_error + step_slots" where
  "runBatchNode step execution node db =
     (if \<not> isBatchStepConfig (node_config node)
      then Inl (UnexpectedError (BadBatchConfig (step_id step) (nodeId step)))
      else let g = graph execution; loops = deriveLoops g in
        case List.find (\<lambda>l. batchNodeId l = nodeId step) loops of
          None \<Rightarrow> Inl (UnexpectedError (HeadsNoLoop (step_id step) (nodeId step)))
        | Some loop \<Rightarrow>
            rbind (createStoreLoopReader (exec_id execution) loops loop
                     (terminalsInto (exec_id execution) g [nodeId step] db) db) (\<lambda>reader.
            runBatchStep (node_config node) (iteration step) reader))"

definition stepEventFields :: "step_record \<Rightarrow> graph_node \<Rightarrow> nat \<Rightarrow> step_fields" where
  "stepEventFields step node now =
     \<lparr>ev_execution = executionId step, ev_step = step_id step, ev_node = nodeId step,
      ev_node_name = node_name node, ev_iteration = iteration step, ev_at = now\<rparr>"

definition toStepError :: "host \<Rightarrow> thrown \<Rightarrow> step_error" where
  "toStepError h thrown =
     (case thrown of
        EngineThrown err \<Rightarrow> errorObject h err
      | ErrorThrown err \<Rightarrow> err
      | ValueThrown text \<Rightarrow> \<lparr>error_name = ''Error'', error_message = text, error_stack = None\<rparr>)"

definition stepReady_handle :: "host \<Rightarrow> string \<Rightarrow> string \<Rightarrow> unit engine" where
  "stepReady_handle h e i =
     ebind (call (claimStep i)) (\<lambda>claimed.
     case claimed of
       None \<Rightarrow> ereturn ()
     | Some step \<Rightarrow>
         ebind (ask (loadExecution e)) (\<lambda>execution.
         ebind (lift (validateStepContext step execution)) (\<lambda>node.
         ebind (lift (if node_type node = Batch then Inr None
                      else map_sum id Some (executorFor h step node))) (\<lambda>executor.
         if exec_status execution \<noteq> ERunning then ereturn ()
         else
           ebind (emit (\<lambda>now. StepStarted (stepEventFields step node now))) (\<lambda>_.
           ebind (ask (gatherInputs execution step)) (\<lambda>inputs.
           ebind (ask (\<lambda>w. Inr (case executor of
                    Some f \<Rightarrow> runStep step execution node inputs f w
                  | None \<Rightarrow> map_sum EngineThrown id (runBatchNode step execution node w)))) (\<lambda>run.
           ebind (call (case run of
                    Inr outs \<Rightarrow> completeStep i outs
                  | Inl thrown \<Rightarrow> failStep i (toStepError h thrown))) (\<lambda>recorded.
           if \<not> recorded then ereturn ()
           else
             ebind (emit (\<lambda>now. case run of
                      Inr outs \<Rightarrow> StepCompleted (stepEventFields step node now) outs
                    | Inl _ \<Rightarrow> StepFailed (stepEventFields step node now))) (\<lambda>_.
             publishOrchestration (StepSettled e i))))))))))"

section \<open>A settled step\<close>

definition announceEnd ::
  "execution_record \<Rightarrow> step_record \<Rightarrow> graph_node \<Rightarrow> outcome \<Rightarrow> unit engine" where
  "announceEnd execution step node result =
     (if \<not> isSettledStatus (status step)
      then lift (Inl (UnexpectedError (AnnouncedUnsettled (nodeId step) (status step))))
      else respond (Ended (exec_id execution) (workflowId execution) result
             \<lparr>last_node = nodeId step, last_node_name = node_name node, last_status = status step,
              last_outputs = outputs step,
              last_error = map_option (\<lambda>err. (error_name err, error_message err)) (step_error step)\<rparr>))"

definition failExecution :: "execution_record \<Rightarrow> step_record \<Rightarrow> graph_node \<Rightarrow> unit engine" where
  "failExecution execution step node =
     ebind (\<lambda>w. call (finishExecution (clock w) (exec_id execution) EFailed) w) (\<lambda>finished.
     ebind (if finished
            then ebind (emit (ExecutionFailed (exec_id execution) (workflowId execution))) (\<lambda>_.
                 announceEnd execution step node OutcomeFailed)
            else ereturn ()) (\<lambda>_.
     modify (cancelQueuedSteps (exec_id execution))))"

definition queuedStep :: "step_key \<Rightarrow> new_step" where
  "queuedStep k = \<lparr>nodeId = nodeId k, iteration = iteration k, new_status = Queued, new_outputs = None\<rparr>"

definition skippedStep :: "step_key \<Rightarrow> new_step" where
  "skippedStep k = \<lparr>nodeId = nodeId k, iteration = iteration k, new_status = Skipped, new_outputs = None\<rparr>"

fun announceCreatedSteps :: "string \<Rightarrow> step_record list \<Rightarrow> string set \<Rightarrow> nat \<Rightarrow> nat engine" where
  "announceCreatedSteps e [] queuedKeys queued = ereturn queued"
| "announceCreatedSteps e (r # rs) queuedKeys queued =
     (if stepKeyId r \<in> queuedKeys
      then ebind (publishStep (StepReady e (step_id r))) (\<lambda>_. announceCreatedSteps e rs queuedKeys (queued + 1))
      else ebind (publishOrchestration (StepSettled e (step_id r))) (\<lambda>_.
           announceCreatedSteps e rs queuedKeys queued))"

definition planDecisions ::
  "execution_record \<Rightarrow> step_record \<Rightarrow> 'a database_scheme \<Rightarrow> successor_decisions" where
  "planDecisions execution step db =
     (let g = graph execution;
          loops = deriveLoops g;
          candidates' = getSuccessorNodeIds g (nodeId step);
          ti = terminalsInto (exec_id execution) g candidates' db;
          steps = loadStepSummariesByKeys (exec_id execution) (decisionKeys g loops (keyOf step) ti) db
      in decideSuccessors g loops (keyOf step) steps ti)"

definition planSuccessors :: "host \<Rightarrow> execution_record \<Rightarrow> step_record \<Rightarrow> nat engine" where
  "planSuccessors h execution step =
     ebind (ask (\<lambda>w. Inr (planDecisions execution step w))) (\<lambda>decisions.
     if toQueue decisions = [] \<and> toSkip decisions = [] then ereturn 0
     else
       ebind (createSteps (newId h) (exec_id execution)
                (map queuedStep (toQueue decisions) @ map skippedStep (toSkip decisions))) (\<lambda>created.
       announceCreatedSteps (exec_id execution) created (stepKeyId ` set (toQueue decisions)) 0))"

definition reachableFromTrigger :: "execution_record \<Rightarrow> engine_error + string list" where
  "reachableFromTrigger execution =
     (case findTriggerNode (graph execution) of
        None \<Rightarrow> Inl (UnexpectedError (NoTriggerInGraph (exec_id execution)))
      | Some trigger \<Rightarrow>
          Inr (js_set (node_id trigger # getDescendantNodeIds (graph execution) (node_id trigger))))"

definition finishExecutionIfDone :: "execution_record \<Rightarrow> step_record \<Rightarrow> graph_node \<Rightarrow> unit engine" where
  "finishExecutionIfDone execution step node =
     ebind (lift (reachableFromTrigger execution)) (\<lambda>reachable.
     let loops = deriveLoops (graph execution) in
     ebind (ask (\<lambda>w. Inr (loadTerminalIterations (exec_id execution)
              (map batchNodeId (filter (\<lambda>l. batchNodeId l \<in> set reachable) loops)) w))) (\<lambda>ti.
     case countExpectedSettledSteps loops reachable ti of
       None \<Rightarrow> ereturn ()
     | Some expected \<Rightarrow>
         ebind (ask (\<lambda>w. Inr (countSettledSteps (exec_id execution) w))) (\<lambda>settled.
         if int settled < expected then ereturn ()
         else
           ebind (ask (\<lambda>w. Inr (hasFailedSteps (exec_id execution) w))) (\<lambda>failed.
           ebind (\<lambda>w. call (finishExecution (clock w) (exec_id execution)
                          (if failed then EFailed else ECompleted)) w) (\<lambda>finished.
           if \<not> finished then ereturn ()
           else
             ebind (emit ((if failed then ExecutionFailed else ExecutionCompleted)
                      (exec_id execution) (workflowId execution))) (\<lambda>_.
             announceEnd execution step node (if failed then OutcomeFailed else OutcomeCompleted)))))))"

definition stepSettled_handle :: "host \<Rightarrow> string \<Rightarrow> string \<Rightarrow> unit engine" where
  "stepSettled_handle h e i =
     ebind (ask (loadStep i)) (\<lambda>step.
     ebind (ask (loadExecution e)) (\<lambda>execution.
     ebind (lift (validateStepContext step execution)) (\<lambda>node.
     if status step = Failed then failExecution execution step node
     else if exec_status execution \<noteq> ERunning then ereturn ()
     else
       ebind (ask (\<lambda>w. Inr ((status step = Completed \<or> status step = Skipped)
                \<and> hasFailedSteps (exec_id execution) w))) (\<lambda>failing.
       if failing then failExecution execution step node
       else
         ebind (if status step = Completed \<or> status step = Skipped
                then planSuccessors h execution step else ereturn 0) (\<lambda>queued.
         if queued > 0 then ereturn ()
         else finishExecutionIfDone execution step node)))))"

section \<open>The workers\<close>

definition orchestrationWorker :: "host \<Rightarrow> orchestration_message \<Rightarrow> unit engine" where
  "orchestrationWorker h message =
     (case message of
        ExecutionEnqueued e \<Rightarrow> executionStart_handle h e
      | StepSettled e i \<Rightarrow> stepSettled_handle h e i)"

definition stepWorker :: "host \<Rightarrow> step_message \<Rightarrow> unit engine" where
  "stepWorker h message = (case message of StepReady e i \<Rightarrow> stepReady_handle h e i)"

end
