(* ===== verification/StoreLifecycle.thy ===== *)
theory StoreLifecycle
  imports Stores
begin

text \<open>
  What the stores guarantee under every interleaving. The operations the engine performs on
  its database form a data type; a history is any list of them, from any number of workers.
  The theory proves the well-formedness of the tables, the lifecycle of a step row (through
  the locale \<open>step_lifecycle\<close>), that a claim and an outcome are won at most once, and that no
  step is created or claimed once a step of its execution has failed.
\<close>

section \<open>Operations\<close>

datatype store_op =
    CreateExecution execution_record
  | ClaimExecution string
  | FinishCompleted nat string
  | FinishFailed nat string
  | CreateSteps string "new_step list"
  | ClaimStep string
  | CompleteStep string step_slots
  | FailStep string step_error
  | CancelQueuedSteps string

fun apply_op :: "(nat \<Rightarrow> string) \<Rightarrow> store_op \<Rightarrow> 'a database_scheme \<Rightarrow> 'a database_scheme" where
  "apply_op gen (CreateExecution r) db = (case createExecution r db of Inl _ \<Rightarrow> db | Inr db' \<Rightarrow> db')"
| "apply_op gen (ClaimExecution e) db = snd (transitionStatus e EQueued ERunning db)"
| "apply_op gen (FinishCompleted now e) db = snd (finishExecution now e ECompleted db)"
| "apply_op gen (FinishFailed now e) db = snd (finishExecution now e EFailed db)"
| "apply_op gen (CreateSteps e rs) db = snd (createSteps gen e rs db)"
| "apply_op gen (ClaimStep i) db = snd (claimStep i db)"
| "apply_op gen (CompleteStep i outs) db = snd (completeStep i outs db)"
| "apply_op gen (FailStep i err) db = snd (failStep i err db)"
| "apply_op gen (CancelQueuedSteps e) db = cancelQueuedSteps e db"

text \<open>Whether an operation reports to its caller that it performed the change.\<close>

fun wins :: "store_op \<Rightarrow> 'a database_scheme \<Rightarrow> bool" where
  "wins (ClaimExecution e) db = fst (transitionStatus e EQueued ERunning db)"
| "wins (FinishCompleted now e) db = fst (finishExecution now e ECompleted db)"
| "wins (FinishFailed now e) db = fst (finishExecution now e EFailed db)"
| "wins (ClaimStep i) db = (fst (claimStep i db) \<noteq> None)"
| "wins (CompleteStep i outs) db = fst (completeStep i outs db)"
| "wins (FailStep i err) db = fst (failStep i err db)"
| "wins _ db = False"

fun run_ops :: "(nat \<Rightarrow> string) \<Rightarrow> store_op list \<Rightarrow> 'a database_scheme \<Rightarrow> 'a database_scheme" where
  "run_ops gen [] db = db"
| "run_ops gen (x # xs) db = run_ops gen xs (apply_op gen x db)"

text \<open>How many operations of a history that satisfy \<open>P\<close> won.\<close>

fun won :: "(nat \<Rightarrow> string) \<Rightarrow> (store_op \<Rightarrow> bool) \<Rightarrow> store_op list \<Rightarrow> 'a database_scheme \<Rightarrow> nat" where
  "won gen P [] db = 0"
| "won gen P (x # xs) db = (if P x \<and> wins x db then 1 else 0) + won gen P xs (apply_op gen x db)"

section \<open>The lifecycle of a row\<close>

inductive lifecycle :: "step_status \<Rightarrow> step_status \<Rightarrow> bool" where
  claimed: "lifecycle Queued Running"
| completed: "lifecycle Running Completed"
| failed: "lifecycle Running Failed"
| cancelled: "lifecycle Queued Cancelled"

inductive_simps lifecycle_simps [simp]: "lifecycle Queued s" "lifecycle Running s"
  "lifecycle Completed s" "lifecycle Failed s" "lifecycle Skipped s" "lifecycle Cancelled s"

lemma settled_no_step: "isSettledStatus s \<Longrightarrow> \<not> lifecycle s s'"
  by (cases s) auto

definition same_row :: "step_record \<Rightarrow> step_record \<Rightarrow> bool" where
  "same_row r r' \<longleftrightarrow> step_id r' = step_id r \<and> executionId r' = executionId r
     \<and> nodeId r' = nodeId r \<and> iteration r' = iteration r"

definition evolves :: "step_record \<Rightarrow> step_record \<Rightarrow> bool" where
  "evolves r r' \<longleftrightarrow> r' = r \<or> (same_row r r' \<and> lifecycle (status r) (status r'))"

lemma evolves_same: "evolves r r' \<Longrightarrow> same_row r r'"
  by (auto simp: evolves_def same_row_def)

lemma evolves_settled: "evolves r r' \<Longrightarrow> isSettledStatus (status r) \<Longrightarrow> r' = r"
  unfolding evolves_def using settled_no_step by blast

locale step_lifecycle =
  fixes apply_to :: "'op \<Rightarrow> 'db \<Rightarrow> 'db" and row :: "'db \<Rightarrow> string \<Rightarrow> step_record option"
  assumes row_evolves: "row db i = Some r \<Longrightarrow> \<exists>r'. row (apply_to x db) i = Some r' \<and> evolves r r'"
begin

lemma run_evolves:
  "row db i = Some r \<Longrightarrow>
     \<exists>r'. row (fold apply_to xs db) i = Some r' \<and> same_row r r' \<and> lifecycle\<^sup>*\<^sup>* (status r) (status r')"
proof (induction xs arbitrary: db r)
  case Nil
  then show ?case by (simp add: same_row_def)
next
  case (Cons x xs)
  obtain r1 where r1: "row (apply_to x db) i = Some r1" "evolves r r1"
    using row_evolves [OF Cons.prems] by blast
  from Cons.IH [OF r1(1)] obtain r2 where
    "row (fold apply_to xs (apply_to x db)) i = Some r2" "same_row r1 r2"
    "lifecycle\<^sup>*\<^sup>* (status r1) (status r2)" by blast
  moreover have "same_row r r1" "lifecycle\<^sup>*\<^sup>* (status r) (status r1)"
    using r1(2) evolves_same by (auto simp: evolves_def)
  ultimately show ?case by (auto simp: same_row_def)
qed

lemma settled_immutable:
  "row db i = Some r \<Longrightarrow> isSettledStatus (status r) \<Longrightarrow> row (fold apply_to xs db) i = Some r"
proof (induction xs arbitrary: db)
  case (Cons x xs)
  obtain r1 where "row (apply_to x db) i = Some r1" "evolves r r1"
    using row_evolves [OF Cons.prems(1)] by blast
  then have "row (apply_to x db) i = Some r" using evolves_settled Cons.prems(2) by blast
  from Cons.IH [OF this Cons.prems(2)] show ?case by simp
qed simp

end

section \<open>What one operation does to the rows\<close>

lemma updateWhere_snd [simp]:
  "stepRows (snd (updateWhere P f db)) = map (\<lambda>r. if P r then f r else r) (stepRows db)"
  "executions (snd (updateWhere P f db)) = executions db"
  "idCounter (snd (updateWhere P f db)) = idCounter db"
  by (simp_all add: updateWhere_def)

lemma insertOrIgnore_append:
  "insertOrIgnore table rs = (table', created) \<Longrightarrow>
     table' = table @ created \<and> set created \<subseteq> set rs"
proof (induction table rs arbitrary: created rule: insertOrIgnore.induct)
  case (2 table r rs)
  show ?case
  proof (cases "\<exists>r' \<in> set table. conflicts r' r")
    case True
    with "2.IH"(1) [OF True] "2.prems" show ?thesis by auto
  next
    case False
    obtain t c where rec: "insertOrIgnore (table @ [r]) rs = (t, c)" by fastforce
    with False "2.prems" have "table' = t" "created = r # c" by auto
    with "2.IH"(2) [OF False, of c] rec show ?thesis by auto
  qed
qed simp

lemma execution_ops_rows [simp]:
  "stepRows (snd (transitionStatus e a b db)) = stepRows db"
  "stepRows (snd (finishExecution now e st db)) = stepRows db"
  by (simp_all add: transitionStatus_def finishExecution_def split: option.split)

lemma createSteps_rows:
  "\<exists>created. stepRows (snd (createSteps gen e rs db)) = stepRows db @ created
     \<and> set created \<subseteq> set (newRows gen (idCounter db) e rs)"
proof -
  obtain table created where ins:
    "insertOrIgnore (stepRows db) (newRows gen (idCounter db) e rs) = (table, created)" by fastforce
  from insertOrIgnore_append [OF ins] have "table = stepRows db @ created"
    "set created \<subseteq> set (newRows gen (idCounter db) e rs)" by auto
  with ins show ?thesis
    by (auto simp: createSteps_def Let_def split: sum.splits)
qed

lemma claimStep_rows:
  "stepRows (snd (claimStep i db)) =
     (if fst (claimStep i db) = None then stepRows db
      else map (\<lambda>r. if step_id r = i \<and> status r = Queued then r\<lparr>status := Running\<rparr> else r) (stepRows db))"
  by (auto simp: claimStep_def split: option.splits prod.split)
    (simp_all add: updateWhere_def)

text \<open>Every operation maps the existing rows along the lifecycle and appends new ones.\<close>

definition rows_evolve :: "step_record list \<Rightarrow> step_record list \<Rightarrow> bool" where
  "rows_evolve rs rs' \<longleftrightarrow>
     (\<exists>f created. rs' = map f rs @ created \<and> (\<forall>r \<in> set rs. evolves r (f r))
        \<and> (\<forall>r \<in> set created. status r \<in> set CREATION_STATUSES))"

lemma rows_evolve_map:
  "(\<And>r. P r \<Longrightarrow> evolves r (f r)) \<Longrightarrow> rows_evolve rs (map (\<lambda>r. if P r then f r else r) rs)"
  unfolding rows_evolve_def
  by (intro exI [of _ "\<lambda>r. if P r then f r else r"] exI [of _ "[]"]) (auto simp: evolves_def)

lemma rows_evolve_append:
  "(\<And>r. r \<in> set created \<Longrightarrow> status r \<in> set CREATION_STATUSES) \<Longrightarrow> rows_evolve rs (rs @ created)"
  unfolding rows_evolve_def
  by (intro exI [of _ "\<lambda>r. r"] exI [of _ created]) (auto simp: evolves_def)

lemma rows_evolve_refl [simp]: "rows_evolve rs rs"
  using rows_evolve_append [of "[]" rs] by simp

lemma newRows_props:
  "r \<in> set (newRows gen n e rs) \<Longrightarrow>
     (\<exists>x \<in> set rs. nodeId r = nodeId x \<and> iteration r = iteration x \<and> status r = new_status x
        \<and> outputs r = new_outputs x) \<and> step_error r = None \<and> executionId r = e
     \<and> (\<exists>j < length rs. step_id r = gen (n + j))"
proof (induction gen n e rs rule: newRows.induct)
  case (2 gen n e x rs)
  show ?case
  proof (cases "r = stepRow (gen n) e x")
    case True
    then show ?thesis by (auto simp: stepRow_def)
  next
    case False
    with "2.prems" "2.IH" obtain j where "j < length rs" "step_id r = gen (Suc n + j)" by auto
    then have "\<exists>j < length (x # rs). step_id r = gen (n + j)" by (intro exI [of _ "Suc j"]) simp
    with False "2.prems" "2.IH" show ?thesis by auto
  qed
qed simp

lemma assertCreatableRecord_iff:
  "assertCreatableRecord r = Inr () \<longleftrightarrow>
     new_status r \<in> set CREATION_STATUSES \<and> (new_outputs r \<noteq> None \<longleftrightarrow> new_status r = Completed)"
  by (auto simp: assertCreatableRecord_def assertCreatable_def rbind_unit_iff)

lemma createSteps_cases:
  obtains "stepRows (snd (createSteps gen e rs db)) = stepRows db"
  | created where "stepRows (snd (createSteps gen e rs db)) = stepRows db @ created"
    and "set created \<subseteq> set (newRows gen (idCounter db) e rs)"
    and "\<forall>x \<in> set rs. assertCreatableRecord x = Inr ()"
    and "\<not> hasFailedSteps e db" and "executions db e \<noteq> None"
    and "fst (createSteps gen e rs db) = Inr created"
    and "insertOrIgnore (stepRows db) (newRows gen (idCounter db) e rs) = (stepRows db @ created, created)"
proof -
  obtain table created where ins:
    "insertOrIgnore (stepRows db) (newRows gen (idCounter db) e rs) = (table, created)" by fastforce
  note app = insertOrIgnore_append [OF ins]
  show thesis
  proof (cases "rs = [] \<or> (\<exists>err. forEach rs assertCreatableRecord = Inl err) \<or> hasFailedSteps e db
      \<or> executions db e = None")
    case True
    then have "stepRows (snd (createSteps gen e rs db)) = stepRows db"
      by (auto simp: createSteps_def Let_def split: sum.split)
    then show thesis by (rule that(1))
  next
    case False
    then have ok: "forEach rs assertCreatableRecord = Inr ()"
      by (cases "forEach rs assertCreatableRecord") auto
    then have "createSteps gen e rs db = (Inr created,
        db\<lparr>idCounter := idCounter db + length rs, stepRows := table\<rparr>)"
      using False ins by (simp add: createSteps_def Let_def)
    with app ins ok False show thesis by (intro that(2)) (auto simp: forEach_Inr_iff)
  qed
qed

lemma apply_op_rows_evolve: "rows_evolve (stepRows db) (stepRows (apply_op gen x db))"
proof (cases x)
  case (CreateExecution r)
  then show ?thesis by (simp add: createExecution_def)
next
  case (CreateSteps e rs)
  show ?thesis
  proof (cases rule: createSteps_cases [of gen e rs db])
    case 1
    then show ?thesis by (simp add: CreateSteps)
  next
    case (2 created)
    have "status r \<in> set CREATION_STATUSES" if "r \<in> set created" for r
      using newRows_props [of r gen "idCounter db" e rs] that 2(2,3) assertCreatableRecord_iff by fastforce
    then show ?thesis by (simp add: CreateSteps 2(1) rows_evolve_append)
  qed
next
  case (ClaimStep i)
  then show ?thesis
    by (auto simp: claimStep_rows evolves_def same_row_def intro!: rows_evolve_map)
qed (auto simp: completeStep_def failStep_def cancelQueuedSteps_def Let_def updateWhere_def
    intro!: rows_evolve_map simp: evolves_def same_row_def)

section \<open>Interpretation on the store\<close>

lemma find_map_append:
  assumes "List.find P xs = Some x" and "\<And>y. y \<in> set xs \<Longrightarrow> P (f y) = P y"
  shows "List.find P (map f xs @ ys) = Some (f x)"
  using assms by (induction xs) (auto split: if_splits)

lemma findStep_evolves:
  assumes "rows_evolve (stepRows db) (stepRows db')" and "findStep i db = Some r"
  shows "\<exists>r'. findStep i db' = Some r' \<and> evolves r r'"
proof -
  obtain f created where f: "stepRows db' = map f (stepRows db) @ created"
    "\<forall>r \<in> set (stepRows db). evolves r (f r)"
    using assms(1) unfolding rows_evolve_def by blast
  note found = assms(2) [unfolded findStep_def]
  have same: "(step_id (f y) = i) = (step_id y = i)" if "y \<in> set (stepRows db)" for y
  proof -
    have "same_row y (f y)" using f(2) that by (blast intro: evolves_same)
    then show ?thesis by (simp add: same_row_def)
  qed
  have "findStep i db' = Some (f r)"
    unfolding findStep_def f(1) by (rule find_map_append [OF found same])
  moreover have "evolves r (f r)"
    using f(2) find_Some_in [OF found] by simp
  ultimately show ?thesis by blast
qed

interpretation store: step_lifecycle "apply_op gen" "\<lambda>db i. findStep i db" for gen
  by unfold_locales (rule findStep_evolves [OF apply_op_rows_evolve])

lemma run_ops_fold: "run_ops gen xs db = fold (apply_op gen) xs db"
  by (induction xs arbitrary: db) auto

section \<open>Well-formed tables\<close>

definition row_key :: "step_record \<Rightarrow> string \<times> string \<times> nat" where
  "row_key r = (executionId r, nodeId r, iteration r)"

definition row_ok :: "step_record \<Rightarrow> bool" where
  "row_ok r \<longleftrightarrow> (outputs r \<noteq> None \<longleftrightarrow> status r = Completed)
     \<and> (step_error r \<noteq> None \<longleftrightarrow> status r = Failed)"

definition db_wf :: "'a database_scheme \<Rightarrow> bool" where
  "db_wf db \<longleftrightarrow> distinct (map step_id (stepRows db)) \<and> distinct (map row_key (stepRows db))
     \<and> (\<forall>r \<in> set (stepRows db). row_ok r \<and> executions db (executionId r) \<noteq> None)"

definition empty_db :: database where
  "empty_db = \<lparr>executions = Map.empty, stepRows = [], idCounter = 0\<rparr>"

lemma db_wf_empty: "db_wf empty_db"
  by (simp add: db_wf_def empty_db_def)

lemma conflicts_iff: "conflicts r r' \<longleftrightarrow> step_id r = step_id r' \<or> row_key r = row_key r'"
  by (auto simp: conflicts_def row_key_def)

lemma insertOrIgnore_distinct:
  assumes "insertOrIgnore table rs = (table', created)"
    and "distinct (map step_id table)" and "distinct (map row_key table)"
  shows "distinct (map step_id table') \<and> distinct (map row_key table')"
  using assms
proof (induction table rs arbitrary: created rule: insertOrIgnore.induct)
  case (2 table r rs)
  show ?case
  proof (cases "\<exists>r' \<in> set table. conflicts r' r")
    case True
    with "2.IH"(1) [OF True] "2.prems" show ?thesis by auto
  next
    case False
    obtain t c where rec: "insertOrIgnore (table @ [r]) rs = (t, c)" by fastforce
    moreover from False "2.prems" rec have "table' = t" by auto
    moreover have "distinct (map step_id (table @ [r]))" "distinct (map row_key (table @ [r]))"
      using False "2.prems"(2,3) unfolding conflicts_iff by force+
    ultimately show ?thesis using "2.IH"(2) [OF False, of c] by simp
  qed
qed simp

lemma db_wf_map:
  assumes "db_wf db" and "stepRows db' = map f (stepRows db)" and "executions db' = executions db"
    and "\<And>r. r \<in> set (stepRows db) \<Longrightarrow> row_ok r \<Longrightarrow> row_ok (f r) \<and> same_row r (f r)"
  shows "db_wf db'"
proof -
  have same: "same_row r (f r)" "row_ok (f r)" if "r \<in> set (stepRows db)" for r
    using assms(1,4) that by (auto simp: db_wf_def)
  have "map step_id (stepRows db') = map step_id (stepRows db)"
    "map row_key (stepRows db') = map row_key (stepRows db)"
    using same(1) assms(2) by (auto simp: same_row_def row_key_def)
  moreover have "row_ok r \<and> executions db' (executionId r) \<noteq> None" if "r \<in> set (stepRows db')" for r
    using that same assms(1-3) by (auto simp: db_wf_def same_row_def)
  ultimately show ?thesis using assms(1) unfolding db_wf_def by simp
qed

lemma db_wf_executions:
  assumes "db_wf db" and "stepRows db' = stepRows db"
    and "\<And>e. executions db e \<noteq> None \<Longrightarrow> executions db' e \<noteq> None"
  shows "db_wf db'"
  using assms unfolding db_wf_def by auto

lemma db_wf_createSteps:
  assumes wf: "db_wf db"
  shows "db_wf (snd (createSteps gen e rs db))"
proof -
  have ex: "executions (snd (createSteps gen e rs db)) = executions db"
    by (auto simp: createSteps_def Let_def split: sum.split prod.split)
  show ?thesis
  proof (cases rule: createSteps_cases [of gen e rs db])
    case 1
    then show ?thesis by (rule db_wf_executions [OF wf]) (simp add: ex)
  next
    case (2 created)
    have "row_ok r \<and> executionId r = e" if "r \<in> set created" for r
    proof -
      from that 2(2) have "r \<in> set (newRows gen (idCounter db) e rs)" by blast
      then obtain x where x: "x \<in> set rs" "status r = new_status x" "outputs r = new_outputs x"
        and "step_error r = None" "executionId r = e"
        using newRows_props by blast
      moreover have "new_status x \<in> set CREATION_STATUSES \<and> (new_outputs x \<noteq> None \<longleftrightarrow> new_status x = Completed)"
        using 2(3) x(1) assertCreatableRecord_iff by blast
      ultimately show ?thesis by (auto simp: row_ok_def CREATION_STATUSES_def)
    qed
    moreover have "distinct (map step_id (stepRows db @ created)) \<and> distinct (map row_key (stepRows db @ created))"
      by (rule insertOrIgnore_distinct [OF 2(7)]) (use wf in \<open>simp_all add: db_wf_def\<close>)
    ultimately show ?thesis
      using wf 2(1,5) ex unfolding db_wf_def by auto
  qed
qed

lemma db_wf_claimStep:
  assumes "db_wf db"
  shows "db_wf (snd (claimStep i db))"
proof (cases "fst (claimStep i db) = None")
  case True
  then have "snd (claimStep i db) = db"
    by (auto simp: claimStep_def split: option.splits prod.splits if_splits)
  with assms show ?thesis by simp
next
  case False
  have ex: "executions (snd (claimStep i db)) = executions db"
    by (auto simp: claimStep_def updateWhere_def split: option.split)
  show ?thesis
    by (rule db_wf_map [OF assms claimStep_rows [of i db, unfolded if_not_P [OF False]] ex])
      (auto simp: row_ok_def same_row_def)
qed

lemma db_wf_apply_op: "db_wf db \<Longrightarrow> db_wf (apply_op gen x db)"
proof (cases x)
  case (CreateExecution r)
  assume "db_wf db"
  then show ?thesis
    unfolding CreateExecution by (auto simp: createExecution_def intro: db_wf_executions)
next
  case (CompleteStep i outs)
  assume wf: "db_wf db"
  show ?thesis
    unfolding CompleteStep
    by (rule db_wf_map [OF wf, of _ "\<lambda>r. if step_id r = i \<and> status r = Running
        then r\<lparr>status := Completed, outputs := Some outs\<rparr> else r"])
      (auto simp: completeStep_def updateWhere_def row_ok_def same_row_def)
next
  case (FailStep i err)
  assume wf: "db_wf db"
  show ?thesis
    unfolding FailStep
    by (rule db_wf_map [OF wf, of _ "\<lambda>r. if step_id r = i \<and> status r = Running
        then r\<lparr>status := Failed, step_error := Some err\<rparr> else r"])
      (auto simp: failStep_def updateWhere_def row_ok_def same_row_def)
next
  case (CancelQueuedSteps e)
  assume wf: "db_wf db"
  show ?thesis
    unfolding CancelQueuedSteps
    by (rule db_wf_map [OF wf, of _ "\<lambda>r. if executionId r = e \<and> status r = Queued
        then r\<lparr>status := Cancelled\<rparr> else r"])
      (auto simp: cancelQueuedSteps_def updateWhere_def row_ok_def same_row_def)
qed (auto simp: db_wf_createSteps db_wf_claimStep transitionStatus_def finishExecution_def
    intro: db_wf_executions split: option.splits)

lemma db_wf_run_ops: "db_wf db \<Longrightarrow> db_wf (run_ops gen xs db)"
  by (induction xs arbitrary: db) (auto simp: db_wf_apply_op)

section \<open>Changes that are won at most once\<close>

text \<open>
  An operation that satisfies \<open>P\<close> closes something when it wins; no operation opens it again, and
  nothing that satisfies \<open>P\<close> wins while it is closed.
\<close>

locale won_once =
  fixes gen :: "nat \<Rightarrow> string" and P :: "store_op \<Rightarrow> bool" and closed :: "'a database_scheme \<Rightarrow> bool"
  assumes closes: "db_wf db \<Longrightarrow> P x \<Longrightarrow> wins x db \<Longrightarrow> closed (apply_op gen x db)"
    and stays_closed: "closed db \<Longrightarrow> closed (apply_op gen x db)"
    and closed_loses: "db_wf db \<Longrightarrow> closed db \<Longrightarrow> P x \<Longrightarrow> \<not> wins x db"
begin

lemma closed_none: "db_wf db \<Longrightarrow> closed db \<Longrightarrow> won gen P xs db = 0"
  by (induction xs arbitrary: db) (auto simp: closed_loses stays_closed db_wf_apply_op)

lemma at_most_once: "db_wf (db :: 'a database_scheme) \<Longrightarrow> won gen P xs db \<le> 1"
  by (induction xs arbitrary: db) (auto simp: closes closed_none db_wf_apply_op)

end

definition row_status_in :: "step_status set \<Rightarrow> string \<Rightarrow> 'a database_scheme \<Rightarrow> bool" where
  "row_status_in S i db \<longleftrightarrow> (\<exists>r. findStep i db = Some r \<and> status r \<in> S)"

lemma row_status_in_apply:
  assumes "row_status_in S i db" and "\<And>s s'. s \<in> S \<Longrightarrow> lifecycle s s' \<Longrightarrow> s' \<in> S"
  shows "row_status_in S i (apply_op gen x db)"
proof -
  obtain r where r: "findStep i db = Some r" "status r \<in> S"
    using assms(1) unfolding row_status_in_def by blast
  obtain r' where "findStep i (apply_op gen x db) = Some r'" "evolves r r'"
    using store.row_evolves [OF r(1)] by blast
  moreover from this(2) r(2) have "status r' \<in> S" using assms(2) by (auto simp: evolves_def)
  ultimately show ?thesis unfolding row_status_in_def by blast
qed

fun is_claim :: "string \<Rightarrow> store_op \<Rightarrow> bool" where
  "is_claim i (ClaimStep j) = (j = i)"
| "is_claim i _ = False"

fun is_outcome :: "string \<Rightarrow> store_op \<Rightarrow> bool" where
  "is_outcome i (CompleteStep j _) = (j = i)"
| "is_outcome i (FailStep j _) = (j = i)"
| "is_outcome i _ = False"

fun is_start :: "string \<Rightarrow> store_op \<Rightarrow> bool" where
  "is_start e (ClaimExecution e') = (e' = e)"
| "is_start e _ = False"

fun is_finish :: "string \<Rightarrow> store_op \<Rightarrow> bool" where
  "is_finish e (FinishCompleted _ e') = (e' = e)"
| "is_finish e (FinishFailed _ e') = (e' = e)"
| "is_finish e _ = False"

fun_cases is_claimE: "is_claim i x"
fun_cases is_outcomeE: "is_outcome i x"
fun_cases is_startE: "is_start i x"
fun_cases is_finishE: "is_finish i x"

lemma find_map_if:
  fixes f :: "step_record \<Rightarrow> step_record"
  assumes "List.find (\<lambda>r. step_id r = i) rows = Some r" and "\<And>r. step_id (f r) = step_id r"
  shows "List.find (\<lambda>r. step_id r = i) (map f rows) = Some (f r)"
  using find_map_append [of _ rows r f "[]"] assms by simp

lemma claimStep_wins:
  assumes "fst (claimStep i db) \<noteq> None"
  obtains r where "findStep i db = Some r" and "status r = Queued" and "executions db (executionId r) \<noteq> None"
    and "\<not> hasFailedSteps (executionId r) db"
    and "findStep i (snd (claimStep i db)) = Some (r\<lparr>status := Running\<rparr>)"
proof -
  obtain r where r: "findStep i db = Some r" "status r = Queued" "executions db (executionId r) \<noteq> None"
    "\<not> hasFailedSteps (executionId r) db"
    using assms by (auto simp: claimStep_def split: option.splits if_splits)
  have "step_id r = i" using find_Some_in [of _ "stepRows db" r] r(1) by (auto simp: findStep_def)
  then have "findStep i (snd (claimStep i db)) = Some (r\<lparr>status := Running\<rparr>)"
    using find_map_if [of i "stepRows db" r
        "\<lambda>r. if step_id r = i \<and> status r = Queued then r\<lparr>status := Running\<rparr> else r"] r
    by (auto simp: claimStep_def findStep_def updateWhere_def)
  with r show thesis by (rule that)
qed

lemma updateWhere_running_wins:
  assumes "fst (updateWhere (\<lambda>r. step_id r = i \<and> status r = Running) f db) = 1"
    and "db_wf db" and "\<And>r. step_id (f r) = step_id r"
  obtains r where "findStep i db = Some r" and "status r = Running"
    and "findStep i (snd (updateWhere (\<lambda>r. step_id r = i \<and> status r = Running) f db)) = Some (f r)"
proof -
  let ?P = "\<lambda>r. step_id r = i \<and> status r = Running"
  from assms(1) have "filter ?P (stepRows db) \<noteq> []" by (auto simp: updateWhere_def)
  then obtain r where r: "r \<in> set (stepRows db)" "?P r"
    by (metis (mono_tags, lifting) filter_empty_conv)
  have found: "findStep i db = Some r"
    unfolding findStep_def
    by (rule find_eq_unique) (use r assms(2) in \<open>auto simp: db_wf_def distinct_map inj_on_def\<close>)
  then have "findStep i (snd (updateWhere ?P f db)) = Some (f r)"
    using find_map_if [of i "stepRows db" r "\<lambda>r. if ?P r then f r else r"] r(2) assms(3)
    by (simp add: findStep_def)
  with found r(2) show thesis using that by blast
qed

interpretation claim: won_once gen "is_claim i" "row_status_in (- {Queued}) i" for gen i
proof
  show "row_status_in (- {Queued}) i (apply_op gen x db)" if "is_claim i x" "wins x db" for x db
  proof -
    from that have x: "x = ClaimStep i" and "fst (claimStep i db) \<noteq> None" by (auto elim!: is_claimE)
    from this(2) show ?thesis
      by (rule claimStep_wins) (simp add: x row_status_in_def)
  qed
  show "row_status_in (- {Queued}) i (apply_op gen x db)" if "row_status_in (- {Queued}) i db" for x db
    by (rule row_status_in_apply [OF that]) (auto elim: lifecycle.cases)
  show "\<not> wins x db" if "row_status_in (- {Queued}) i db" "is_claim i x" for x db
    using that by (auto elim!: is_claimE simp: claimStep_def row_status_in_def split: if_splits)
qed

lemma outcome_wins:
  assumes "db_wf db" and "is_outcome i x" and "wins x db"
  shows "row_status_in {Running} i db \<and> row_status_in {Completed, Failed} i (apply_op gen x db)"
proof -
  consider (complete) outs where "x = CompleteStep i outs" | (failed) err where "x = FailStep i err"
    using assms(2) by (auto elim!: is_outcomeE)
  then show ?thesis
  proof cases
    case complete
    with assms(3) have "fst (updateWhere (\<lambda>r. step_id r = i \<and> status r = Running)
        (\<lambda>r. r\<lparr>status := Completed, outputs := Some outs\<rparr>) db) = 1"
      by (simp add: completeStep_def case_prod_beta)
    then show ?thesis
      by (rule updateWhere_running_wins [OF _ assms(1)])
        (simp_all add: complete completeStep_def case_prod_beta row_status_in_def)
  next
    case failed
    with assms(3) have "fst (updateWhere (\<lambda>r. step_id r = i \<and> status r = Running)
        (\<lambda>r. r\<lparr>status := Failed, step_error := Some err\<rparr>) db) = 1"
      by (simp add: failStep_def case_prod_beta)
    then show ?thesis
      by (rule updateWhere_running_wins [OF _ assms(1)])
        (simp_all add: failed failStep_def case_prod_beta row_status_in_def)
  qed
qed

interpretation outcome: won_once gen "is_outcome i" "row_status_in {Completed, Failed} i" for gen i
proof
  show "row_status_in {Completed, Failed} i (apply_op gen x db)"
    if "db_wf db" "is_outcome i x" "wins x db" for x db
    using outcome_wins [OF that] by blast
  show "row_status_in {Completed, Failed} i (apply_op gen x db)" if "row_status_in {Completed, Failed} i db" for x db
    by (rule row_status_in_apply [OF that]) auto
  show "\<not> wins x db" if "db_wf db" "row_status_in {Completed, Failed} i db" "is_outcome i x" for x db
    using outcome_wins [OF that(1,3)] that(2) by (auto simp: row_status_in_def)
qed

definition execution_status_in :: "execution_status set \<Rightarrow> string \<Rightarrow> 'a database_scheme \<Rightarrow> bool" where
  "execution_status_in S e db \<longleftrightarrow> (\<exists>x. executions db e = Some x \<and> exec_status x \<in> S)"

lemma executions_step_ops [simp]:
  "executions (snd (createSteps gen e rs db)) = executions db"
  "executions (snd (claimStep i db)) = executions db"
  "executions (snd (completeStep i outs db)) = executions db"
  "executions (snd (failStep i err db)) = executions db"
  "executions (cancelQueuedSteps e db) = executions db"
  by (auto simp: createSteps_def claimStep_def completeStep_def failStep_def cancelQueuedSteps_def
      updateWhere_def Let_def split: sum.split prod.split option.split)

lemma execution_status_in_apply:
  assumes "execution_status_in S e db" and "ERunning \<in> S \<Longrightarrow> {ECompleted, EFailed} \<subseteq> S"
    and "EQueued \<notin> S"
  shows "execution_status_in S e (apply_op gen x db)"
  using assms
  by (cases x) (auto simp: execution_status_in_def createExecution_def transitionStatus_def
      finishExecution_def split: option.split)

interpretation start: won_once gen "is_start e" "execution_status_in (- {EQueued}) e" for gen e
proof
  show "execution_status_in (- {EQueued}) e (apply_op gen x db)" if "is_start e x" "wins x db" for x db
    using that by (auto elim!: is_startE simp: execution_status_in_def transitionStatus_def split: option.splits if_splits)
  show "execution_status_in (- {EQueued}) e (apply_op gen x db)" if "execution_status_in (- {EQueued}) e db" for x db
    by (rule execution_status_in_apply [OF that]) auto
  show "\<not> wins x db" if "execution_status_in (- {EQueued}) e db" "is_start e x" for x db
    using that by (auto elim!: is_startE simp: execution_status_in_def transitionStatus_def)
qed

interpretation finish: won_once gen "is_finish e" "execution_status_in {ECompleted, EFailed} e" for gen e
proof
  show "execution_status_in {ECompleted, EFailed} e (apply_op gen x db)" if "is_finish e x" "wins x db" for x db
    using that by (auto elim!: is_finishE simp: execution_status_in_def finishExecution_def split: option.splits if_splits)
  show "execution_status_in {ECompleted, EFailed} e (apply_op gen x db)" if "execution_status_in {ECompleted, EFailed} e db" for x db
    by (rule execution_status_in_apply [OF that]) auto
  show "\<not> wins x db" if "execution_status_in {ECompleted, EFailed} e db" "is_finish e x" for x db
    using that by (auto elim!: is_finishE simp: execution_status_in_def finishExecution_def)
qed

section \<open>Fail-fast\<close>

lemma hasFailedSteps_apply:
  assumes "hasFailedSteps e db"
  shows "hasFailedSteps e (apply_op gen x db)"
proof -
  obtain r where r: "r \<in> set (stepRows db)" "executionId r = e" "status r = Failed"
    using assms unfolding hasFailedSteps_def by blast
  obtain f created where f: "stepRows (apply_op gen x db) = map f (stepRows db) @ created"
    "\<forall>r \<in> set (stepRows db). evolves r (f r)"
    using apply_op_rows_evolve [of db gen x] unfolding rows_evolve_def by blast
  then have "f r = r" using r evolves_settled [of r "f r"] by (auto simp: isSettledStatus_iff)
  then have "r \<in> set (stepRows (apply_op gen x db))" using f(1) r(1) by force
  with r(2,3) show ?thesis unfolding hasFailedSteps_def by blast
qed

lemma failed_no_creation:
  "hasFailedSteps e db \<Longrightarrow> stepRows (snd (createSteps gen e rs db)) = stepRows db"
  by (auto simp: createSteps_def Let_def split: sum.split)

text \<open>One operation on an execution with a failed step: its rows keep their keys, and a row that is
running after was running before.\<close>

definition winds_down :: "step_record list \<Rightarrow> step_record list \<Rightarrow> bool" where
  "winds_down rows rows' \<longleftrightarrow> map keyOf rows' = map keyOf rows
     \<and> (\<forall>r \<in> set rows'. status r = Running \<longrightarrow> r \<in> set rows)"

lemma winds_down_refl [simp]: "winds_down rows rows"
  by (simp add: winds_down_def)

lemma winds_down_trans: "winds_down a b \<Longrightarrow> winds_down b c \<Longrightarrow> winds_down a c"
  unfolding winds_down_def by auto

lemma filter_map_same:
  assumes "\<And>r. r \<in> set rows \<Longrightarrow> same_row r (f r)"
  shows "filter (\<lambda>r. executionId r = e) (map f rows) = map f (filter (\<lambda>r. executionId r = e) rows)"
  using assms by (induction rows) (auto simp: same_row_def)

lemma winds_down_map:
  assumes rows: "stepRows db' = map f (stepRows db)"
    and same: "\<And>r. r \<in> set (stepRows db) \<Longrightarrow> same_row r (f r)"
    and run: "\<And>r. r \<in> set (stepRows db) \<Longrightarrow> executionId r = e \<Longrightarrow> status (f r) = Running \<Longrightarrow> f r = r"
  shows "winds_down (executionRows e db) (executionRows e db')"
proof -
  have *: "executionRows e db' = map f (executionRows e db)"
    unfolding executionRows_def rows by (rule filter_map_same [OF same])
  have "map keyOf (executionRows e db') = map keyOf (executionRows e db)"
    unfolding * using same by (auto simp: executionRows_def same_row_def keyOf_def)
  moreover have "r \<in> set (executionRows e db)"
    if r: "r \<in> set (executionRows e db')" "status r = Running" for r
  proof -
    from r(1) * obtain q where "q \<in> set (executionRows e db)" "r = f q" by auto
    with r(2) run [of q] show ?thesis by (simp add: executionRows_def)
  qed
  ultimately show ?thesis unfolding winds_down_def by blast
qed

lemma winds_down_claimStep:
  assumes wf: "db_wf db" and failed: "hasFailedSteps e db"
  shows "winds_down (executionRows e db) (executionRows e (snd (claimStep i db)))"
proof (cases "fst (claimStep i db) = None")
  case True
  then have "stepRows (snd (claimStep i db)) = stepRows db" by (simp add: claimStep_rows)
  then show ?thesis by (simp add: executionRows_def)
next
  case False
  then obtain q where q: "findStep i db = Some q" "\<not> hasFailedSteps (executionId q) db"
    by (rule claimStep_wins)
  have unique: "r = q" if "r \<in> set (stepRows db)" "step_id r = i" for r
    using find_Some_in [OF q(1) [unfolded findStep_def]] that wf
    by (auto simp: db_wf_def distinct_map inj_on_def)
  show ?thesis
    by (rule winds_down_map [OF claimStep_rows [of i db, unfolded if_not_P [OF False]]])
      (use unique q(2) failed in \<open>auto simp: same_row_def\<close>)
qed

lemma winds_down_createSteps:
  assumes "hasFailedSteps e db"
  shows "winds_down (executionRows e db) (executionRows e (snd (createSteps gen e' rs db)))"
proof (cases rule: createSteps_cases [of gen e' rs db])
  case 1
  then show ?thesis by (simp add: executionRows_def)
next
  case (2 created)
  have "executionId r = e'" if "r \<in> set created" for r
    using that 2(2) newRows_props by blast
  moreover have "e' \<noteq> e" using assms 2(4) by blast
  ultimately have "filter (\<lambda>r. executionId r = e) created = []" by (auto simp: filter_empty_conv)
  then show ?thesis by (simp add: executionRows_def 2(1))
qed

lemma winds_down_apply:
  assumes wf: "db_wf db" and failed: "hasFailedSteps e db"
  shows "winds_down (executionRows e db) (executionRows e (apply_op gen x db))"
proof (cases x)
  case (CompleteStep i outs)
  show ?thesis
    unfolding CompleteStep
    by (rule winds_down_map [of _ "\<lambda>r. if step_id r = i \<and> status r = Running
        then r\<lparr>status := Completed, outputs := Some outs\<rparr> else r"])
      (auto simp: completeStep_def updateWhere_def same_row_def split: if_splits)
next
  case (FailStep i err)
  show ?thesis
    unfolding FailStep
    by (rule winds_down_map [of _ "\<lambda>r. if step_id r = i \<and> status r = Running
        then r\<lparr>status := Failed, step_error := Some err\<rparr> else r"])
      (auto simp: failStep_def updateWhere_def same_row_def split: if_splits)
next
  case (CancelQueuedSteps e')
  show ?thesis
    unfolding CancelQueuedSteps
    by (rule winds_down_map [of _ "\<lambda>r. if executionId r = e' \<and> status r = Queued
        then r\<lparr>status := Cancelled\<rparr> else r"])
      (auto simp: cancelQueuedSteps_def updateWhere_def same_row_def split: if_splits)
qed (use assms in \<open>auto simp: winds_down_claimStep winds_down_createSteps
      winds_down_createSteps [unfolded executionRows_def] winds_down_claimStep [unfolded executionRows_def]
      executionRows_def createExecution_def transitionStatus_def finishExecution_def split: option.split\<close>)

lemma winds_down_run_ops:
  "db_wf db \<Longrightarrow> hasFailedSteps e db \<Longrightarrow>
     winds_down (executionRows e db) (executionRows e (run_ops gen xs db))"
proof (induction xs arbitrary: db)
  case (Cons x xs)
  from Cons.IH [of "apply_op gen x db"] Cons.prems
  show ?case using winds_down_apply winds_down_trans
    by (simp add: db_wf_apply_op hasFailedSteps_apply) blast
qed simp

end
