(* ===== verification/PlanInvariant.thy ===== *)
theory PlanInvariant
  imports Handlers StoreLifecycle
begin

text \<open>
  Which rows an execution of a valid graph can have. \<open>plan_inv\<close> says that a row outside every
  loop is of pass 0, that a later pass of a batch node exists only once the pass before it has
  handed out a share, and that a row of a loop's body exists only once the batch node of its
  own pass has. Every decision of the settlement rules keeps it, whatever happened to the store
  between the reads of the planner and its insert; so the count of completion.ts cannot pass
  before every step it counts has settled.
\<close>

section \<open>Graph facts\<close>


lemma back_edge_loop:
  assumes "e \<in> set (edges g)" and "isBackEdge e"
  obtains l where "l \<in> set (deriveLoops g)" and "batchNodeId l = edge_to e" and "e \<in> set (backEdges l)"
proof (rule that)
  let ?l = "deriveLoop g (computeSccMembership g (edges g)) (edge_to e)"
  show "?l \<in> set (deriveLoops g)"
    unfolding deriveLoops_map set_map by (rule imageI) (use assms in simp)
  show "batchNodeId ?l = edge_to e" "e \<in> set (backEdges ?l)"
    using assms by (simp_all add: deriveLoop_def Let_def)
qed

lemma member_scc:
  assumes "loops_wf g" and "l \<in> set (deriveLoops g)"
  shows "m \<in> set (memberIds l) \<longleftrightarrow>
     (batchNodeId l, m) \<in> (edge_rel (edges g))\<^sup>* \<and> (m, batchNodeId l) \<in> (edge_rel (edges g))\<^sup>*"
  using deriveLoops_members(1) [of g l] assms by (simp add: loops_wf_def scc_of_def)

lemma forward_to_member:
  assumes wf: "loops_wf g" and l: "l \<in> set (deriveLoops g)"
    and "(batchNodeId l, v) \<in> (edge_rel (edges g))\<^sup>*" and "v \<in> set (memberIds l)"
  shows "(batchNodeId l, v) \<in> (edge_rel (forwardEdges g))\<^sup>*"
  using assms(3,4)
proof (induction rule: rtrancl_induct)
  case (step y z)
  obtain e where e: "e \<in> set (edges g)" "edge_from e = y" "edge_to e = z"
    using step.hyps(2) by (auto simp: edge_rel_def)
  have "(y, batchNodeId l) \<in> (edge_rel (edges g))\<^sup>*"
    using step.hyps(2) step.prems member_scc [OF wf l] by (meson converse_rtrancl_into_rtrancl)
  then have y: "y \<in> set (memberIds l)" using step.hyps(1) member_scc [OF wf l] by blast
  show ?case
  proof (cases "isBackEdge e")
    case True
    obtain l' where l': "l' \<in> set (deriveLoops g)" "batchNodeId l' = z"
      using back_edge_loop [OF e(1) True] e(3) by metis
    have "loop_wf g l'" "loop_wf g l" using wf l l'(1) by (auto simp: loops_wf_def)
    then have "z = batchNodeId l" using loop_wf_only_batch loop_wf_batch l'(2) step.prems by metis
    then show ?thesis by simp
  next
    case False
    then have "(y, z) \<in> edge_rel (forwardEdges g)"
      using e by (auto simp: forwardEdges_def intro!: edge_relI)
    with step.IH [OF y] show ?thesis by simp
  qed
qed simp

lemma no_forward_edge_into_batch:
  assumes wf: "loops_wf g" and l: "l \<in> set (deriveLoops g)"
    and e: "e \<in> set (edges g)" "\<not> isBackEdge e" "edge_from e \<in> set (memberIds l)"
  shows "edge_to e \<noteq> batchNodeId l"
proof
  assume to: "edge_to e = batchNodeId l"
  have "(batchNodeId l, edge_from e) \<in> (edge_rel (forwardEdges g))\<^sup>*"
    using forward_to_member [OF wf l] member_scc [OF wf l] e(3) by blast
  moreover have "(edge_from e, batchNodeId l) \<in> edge_rel (forwardEdges g)"
    using e to by (auto simp: forwardEdges_def edge_rel_def)
  ultimately have "(batchNodeId l, batchNodeId l) \<in> (edge_rel (forwardEdges g))\<^sup>+" by auto
  then show False using wf by (simp add: loops_wf_def acyclic_def)
qed

lemma loops_ok_deriveLoops: "loops_wf g \<Longrightarrow> loops_ok (deriveLoops g)"
  unfolding loops_ok_def
  using distinct_deriveLoops [of g] deriveLoops_members(2) [of g] batch_member [of g] loops_disjoint [of g]
  by (auto simp: loops_wf_def distinct_map)

section \<open>The invariant\<close>

text \<open>The batch node of loop \<open>l\<close> has handed out a share on pass \<open>i\<close>; it has ended the loop on pass \<open>t\<close>.\<close>

definition advanced :: "step_record list \<Rightarrow> workflow_loop \<Rightarrow> nat \<Rightarrow> bool" where
  "advanced rows l i \<longleftrightarrow> (\<exists>r \<in> set rows. nodeId r = batchNodeId l \<and> iteration r = i
     \<and> isSettledStatus (status r) \<and> \<not> isTerminalStep (summaryOf r))"

definition ended :: "step_record list \<Rightarrow> workflow_loop \<Rightarrow> nat \<Rightarrow> bool" where
  "ended rows l t \<longleftrightarrow> (\<exists>r \<in> set rows. nodeId r = batchNodeId l \<and> iteration r = t
     \<and> isTerminalStep (summaryOf r))"

definition reach :: "workflow_graph \<Rightarrow> string set" where
  "reach g = {m. \<exists>t. findTriggerNode g = Some t \<and> (node_id t, m) \<in> (edge_rel (edges g))\<^sup>*}"

definition key_ok :: "workflow_graph \<Rightarrow> step_record list \<Rightarrow> 'a step_key_scheme \<Rightarrow> bool" where
  "key_ok g rows k \<longleftrightarrow> nodeId k \<in> reach g
     \<and> (case loopOf (deriveLoops g) (nodeId k) of
          None \<Rightarrow> iteration k = 0
        | Some l \<Rightarrow>
            if nodeId k = batchNodeId l then iteration k = 0 \<or> advanced rows l (iteration k - 1)
            else advanced rows l (iteration k))"

definition plan_inv :: "workflow_graph \<Rightarrow> step_record list \<Rightarrow> bool" where
  "plan_inv g rows \<longleftrightarrow> (\<forall>r \<in> set rows. key_ok g rows r)"

lemma reach_step:
  assumes "n \<in> reach g" and "(n, m) \<in> (edge_rel (edges g))\<^sup>*"
  shows "m \<in> reach g"
  using assms by (auto simp: reach_def intro: rtrancl_trans)

lemma key_ok_keyOf [simp]: "key_ok g rows (keyOf k) = key_ok g rows k"
  by (simp add: key_ok_def split: option.split)

text \<open>The facts of a row about a candidate, by the class of the edge.\<close>

lemma classified_ends:
  assumes wf: "loops_wf g" and e: "e \<in> set (edges g)"
  shows "classifyEdge e (deriveLoops g) = Plain \<Longrightarrow> loopOf (deriveLoops g) (edge_to e) = None"
    and "classifyEdge e (deriveLoops g) = Entry \<or> classifyEdge e (deriveLoops g) = Exit \<Longrightarrow>
      loopOf (deriveLoops g) (edge_to e) = Some l \<Longrightarrow> edge_to e = batchNodeId l"
    and "classifyEdge e (deriveLoops g) = Intra \<Longrightarrow>
      \<exists>l. loopOf (deriveLoops g) (edge_from e) = Some l \<and> loopOf (deriveLoops g) (edge_to e) = Some l
        \<and> edge_to e \<noteq> batchNodeId l"
    and "classifyEdge e (deriveLoops g) = Back \<Longrightarrow>
      \<exists>l. loopOf (deriveLoops g) (edge_from e) = Some l \<and> loopOf (deriveLoops g) (edge_to e) = Some l
        \<and> edge_to e = batchNodeId l"
proof -
  let ?ls = "deriveLoops g"
  have lw: "loop_wf g l" if "l \<in> set ?ls" for l using wf that by (simp add: loops_wf_def)
  show "classifyEdge e ?ls = Plain \<Longrightarrow> loopOf ?ls (edge_to e) = None"
    by (simp add: classifyEdge_simps)
  show "edge_to e = batchNodeId l" if c: "classifyEdge e ?ls = Entry \<or> classifyEdge e ?ls = Exit"
    and l: "loopOf ?ls (edge_to e) = Some l"
  proof (rule ccontr)
    assume ne: "edge_to e \<noteq> batchNodeId l"
    have l_in: "l \<in> set ?ls" "edge_to e \<in> set (memberIds l)" using loopOf_Some [OF l] by simp_all
    have "\<not> isBackEdge e" using c by (auto simp: classifyEdge_simps)
    from loop_wf_entrance [OF lw [OF l_in(1)] e this l_in(2) ne]
    have "loopOf ?ls (edge_from e) = Some l" by (rule loopOf_deriveLoops [OF wf l_in(1)])
    then show False using c l by (auto simp: classifyEdge_simps)
  qed
  show "\<exists>l. loopOf ?ls (edge_from e) = Some l \<and> loopOf ?ls (edge_to e) = Some l \<and> edge_to e \<noteq> batchNodeId l"
    if c: "classifyEdge e ?ls = Intra"
  proof -
    have same: "loopOf ?ls (edge_from e) = loopOf ?ls (edge_to e)" "\<not> isBackEdge e"
      and "loopOf ?ls (edge_from e) \<noteq> None" using c unfolding classifyEdge_simps by blast+
    then obtain l where l: "loopOf ?ls (edge_from e) = Some l" "loopOf ?ls (edge_to e) = Some l"
      by (cases "loopOf ?ls (edge_from e)") auto
    with same(2) have "edge_to e \<noteq> batchNodeId l"
      using no_forward_edge_into_batch [OF wf _ e] loopOf_Some [OF l(1)] by blast
    with l show ?thesis by blast
  qed
  show "\<exists>l. loopOf ?ls (edge_from e) = Some l \<and> loopOf ?ls (edge_to e) = Some l \<and> edge_to e = batchNodeId l"
    if c: "classifyEdge e ?ls = Back"
  proof -
    have "isBackEdge e" using c by (simp add: classifyEdge_simps)
    from back_edge_loop [OF e this] obtain l where l: "l \<in> set ?ls" "batchNodeId l = edge_to e"
      and "e \<in> set (backEdges l)" by metis
    then have "edge_from e \<in> set (memberIds l)" using loop_wf_returns [OF lw [OF l(1)]] by blast
    moreover have "edge_to e \<in> set (memberIds l)"
      using batch_member [of g l] wf l by (simp add: loops_wf_def)
    ultimately show ?thesis using loopOf_deriveLoops [OF wf l(1)] l(2) by auto
  qed
qed

text \<open>A candidate the rules consider for a settled row may have a row.\<close>

lemma candidate_ok:
  fixes r :: step_record
  assumes wf: "loops_wf g" and inv: "plan_inv g rows" and r: "r \<in> set rows" "isSettledStatus (status r)"
    and e: "e \<in> set (outgoingEdges g (nodeId r))"
    and decides: "(\<exists>l \<in> set (deriveLoops g). batchNodeId l = nodeId r) \<Longrightarrow>
      batchStepDecides (classifyEdge e (deriveLoops g)) (summaryOf r)"
  shows "key_ok g rows (targetKey e (classifyEdge e (deriveLoops g)) r)"
proof -
  let ?ls = "deriveLoops g"
  have ee: "e \<in> set (edges g)" "edge_from e = nodeId r" using e by (simp_all add: outgoingEdges_def)
  have ok: "key_ok g rows r" using inv r(1) by (simp add: plan_inv_def)
  then have "nodeId r \<in> reach g" by (simp add: key_ok_def)
  then have to: "edge_to e \<in> reach g" using reach_step ee by (metis edge_relI r_into_rtrancl)
  have adv: "advanced rows l (iteration r)"
    if l: "loopOf ?ls (nodeId r) = Some l" and c: "classifyEdge e ?ls \<noteq> Exit" for l
  proof (cases "nodeId r = batchNodeId l")
    case True
    then have "batchStepDecides (classifyEdge e ?ls) (summaryOf r)"
      using decides loopOf_Some [OF l] by auto
    then have "\<not> isTerminalStep (summaryOf r)" using c by (auto simp: batchStepDecides_def split: if_splits)
    with True r show ?thesis unfolding advanced_def by blast
  next
    case False
    with ok l show ?thesis by (simp add: key_ok_def)
  qed
  show ?thesis
  proof (cases "classifyEdge e ?ls")
    case Plain
    have "loopOf ?ls (nodeId r) = None" using Plain ee by (simp add: classifyEdge_simps)
    then have "iteration r = 0" using ok by (simp add: key_ok_def)
    with Plain to classified_ends(1) [OF wf ee(1) Plain] show ?thesis by (simp add: key_ok_def targetKey_def)
  next
    case Entry
    with to classified_ends(2) [OF wf ee(1)] show ?thesis
      by (auto simp: key_ok_def targetKey_def split: option.split)
  next
    case Exit
    with to classified_ends(2) [OF wf ee(1)] show ?thesis
      by (auto simp: key_ok_def targetKey_def split: option.split)
  next
    case Intra
    obtain l where l: "loopOf ?ls (nodeId r) = Some l" "loopOf ?ls (edge_to e) = Some l"
      "edge_to e \<noteq> batchNodeId l"
      using classified_ends(3) [OF wf ee(1) Intra] ee(2) by auto
    with adv [OF l(1)] Intra to show ?thesis by (simp add: key_ok_def targetKey_def)
  next
    case Back
    obtain l where l: "loopOf ?ls (nodeId r) = Some l" "loopOf ?ls (edge_to e) = Some l"
      "edge_to e = batchNodeId l"
      using classified_ends(4) [OF wf ee(1) Back] ee(2) by auto
    with adv [OF l(1)] Back to show ?thesis by (simp add: key_ok_def targetKey_def)
  qed
qed

section \<open>The invariant over time\<close>

lemma rows_evolve_settled:
  assumes "rows_evolve rows rows'" and "r \<in> set rows" and "isSettledStatus (status r)"
  shows "r \<in> set rows'"
proof -
  obtain f created where f: "rows' = map f rows @ created" "\<forall>r \<in> set rows. evolves r (f r)"
    using assms(1) unfolding rows_evolve_def by blast
  then have "f r = r" using assms(2,3) evolves_settled by blast
  with f(1) assms(2) show ?thesis by force
qed

lemma executionRows_evolve:
  assumes "rows_evolve (stepRows db) (stepRows db')"
  shows "rows_evolve (executionRows e db) (executionRows e db')"
proof -
  obtain f created where f: "stepRows db' = map f (stepRows db) @ created"
    "\<forall>r \<in> set (stepRows db). evolves r (f r)" "\<forall>r \<in> set created. status r \<in> set CREATION_STATUSES"
    using assms unfolding rows_evolve_def by blast
  have "executionRows e db' = map f (executionRows e db) @ filter (\<lambda>r. executionId r = e) created"
    unfolding executionRows_def f(1) filter_append
    by (subst filter_map_same) (use f(2) evolves_same in blast, rule refl)
  moreover have "\<forall>r \<in> set (executionRows e db). evolves r (f r)"
    using f(2) by (simp add: executionRows_def)
  moreover have "\<forall>r \<in> set (filter (\<lambda>r. executionId r = e) created). status r \<in> set CREATION_STATUSES"
    using f(3) by simp
  ultimately show ?thesis unfolding rows_evolve_def by blast
qed

lemma advanced_mono: "rows_evolve rows rows' \<Longrightarrow> advanced rows l i \<Longrightarrow> advanced rows' l i"
  unfolding advanced_def by (blast intro: rows_evolve_settled)

lemma isTerminal_settled: "isTerminalStep (summaryOf r) \<Longrightarrow> isSettledStatus (status r)"
  by (simp add: isTerminalStep_def endsLoop_def)

lemma ended_mono: "rows_evolve rows rows' \<Longrightarrow> ended rows l i \<Longrightarrow> ended rows' l i"
  unfolding ended_def by (blast intro: rows_evolve_settled isTerminal_settled)

lemma key_ok_mono: "rows_evolve rows rows' \<Longrightarrow> key_ok g rows k \<Longrightarrow> key_ok g rows' k"
  using advanced_mono [of rows rows'] by (auto simp: key_ok_def split: option.splits if_splits)

lemma key_ok_cong: "nodeId k = nodeId k' \<Longrightarrow> iteration k = iteration k' \<Longrightarrow> key_ok g rows k = key_ok g rows k'"
  by (simp add: key_ok_def split: option.split)

lemma key_ok_same: "same_row r r' \<Longrightarrow> key_ok g rows r' = key_ok g rows r"
  by (rule key_ok_cong) (simp_all add: same_row_def)

lemma plan_inv_step:
  assumes inv: "plan_inv g rows" and rows: "rows' = map f rows @ created"
    and f: "\<forall>r \<in> set rows. evolves r (f r)" and created: "\<forall>r \<in> set created. key_ok g rows r"
    and ev: "rows_evolve rows rows'"
  shows "plan_inv g rows'"
proof -
  have "key_ok g rows r" if r: "r \<in> set rows'" for r
  proof -
    consider q where "q \<in> set rows" "r = f q" | "r \<in> set created" using r rows by auto
    then show ?thesis
    proof cases
      case 1
      then have "same_row q (f q)" using f evolves_same by simp
      then have "key_ok g rows (f q) = key_ok g rows q" by (rule key_ok_same)
      moreover have "key_ok g rows q" using inv 1 by (simp add: plan_inv_def)
      ultimately show ?thesis using 1 by simp
    qed (use created in simp)
  qed
  then show ?thesis by (simp add: plan_inv_def key_ok_mono [OF ev])
qed

fun is_creation :: "string \<Rightarrow> store_op \<Rightarrow> bool" where
  "is_creation e (CreateSteps e' _) = (e' = e)"
| "is_creation e _ = False"

lemma row_status_ops_rows:
  assumes "\<And>e' rs. x \<noteq> CreateSteps e' rs"
  obtains f where "stepRows (apply_op gen x db) = map f (stepRows db)" and "\<forall>r \<in> set (stepRows db). evolves r (f r)"
proof -
  obtain f created where f: "stepRows (apply_op gen x db) = map f (stepRows db) @ created"
    "\<forall>r \<in> set (stepRows db). evolves r (f r)"
    using apply_op_rows_evolve [of db gen x] unfolding rows_evolve_def by blast
  have "length (stepRows (apply_op gen x db)) = length (stepRows db)"
    using assms by (cases x) (auto simp: createExecution_def transitionStatus_def finishExecution_def
        claimStep_rows completeStep_def failStep_def cancelQueuedSteps_def case_prod_beta split: option.split)
  with f(1) have "created = []" by simp
  with f show thesis by (intro that [of f]) simp_all
qed

lemma executionRows_map:
  assumes "stepRows db' = map f (stepRows db)" and "\<forall>r \<in> set (stepRows db). evolves r (f r)"
  shows "executionRows e db' = map f (executionRows e db)"
  unfolding executionRows_def assms(1)
  by (rule filter_map_same) (use assms(2) evolves_same in blast)

lemma plan_inv_other_op:
  assumes "\<not> is_creation e x" and inv: "plan_inv g (executionRows e db)"
  shows "plan_inv g (executionRows e (apply_op gen x db))"
proof (cases "\<exists>e' rs. x = CreateSteps e' rs")
  case True
  then obtain e' rs where x: "x = CreateSteps e' rs" "e' \<noteq> e" using assms(1) by auto
  show ?thesis
  proof (cases rule: createSteps_cases [of gen e' rs db])
    case 1
    with x inv show ?thesis by (simp add: executionRows_def)
  next
    case (2 created)
    have "executionId r = e'" if "r \<in> set created" for r using that 2(2) newRows_props by blast
    with x(2) have "filter (\<lambda>r. executionId r = e) created = []" by (auto simp: filter_empty_conv)
    with x inv 2(1) show ?thesis by (simp add: executionRows_def)
  qed
next
  case False
  then obtain f where f: "stepRows (apply_op gen x db) = map f (stepRows db)"
    "\<forall>r \<in> set (stepRows db). evolves r (f r)" using row_status_ops_rows [of x] by metis
  have ev: "rows_evolve (executionRows e db) (executionRows e (apply_op gen x db))"
    by (rule executionRows_evolve [OF apply_op_rows_evolve])
  have rows: "executionRows e (apply_op gen x db) = map f (executionRows e db) @ []"
    using executionRows_map [OF f] by simp
  show ?thesis
    by (rule plan_inv_step [OF inv rows _ _ ev]) (use f in \<open>simp_all add: executionRows_def\<close>)
qed

lemma plan_inv_createSteps:
  assumes inv: "plan_inv g (executionRows e db)" and rs: "\<forall>x \<in> set rs. key_ok g (executionRows e db) x"
  shows "plan_inv g (executionRows e (snd (createSteps gen e rs db)))"
proof (cases rule: createSteps_cases [of gen e rs db])
  case 1
  with inv show ?thesis by (simp add: executionRows_def)
next
  case (2 created)
  have "key_ok g (executionRows e db) r" if "r \<in> set created" for r
  proof -
    from that 2(2) have "r \<in> set (newRows gen (idCounter db) e rs)" by blast
    then obtain x where "x \<in> set rs" "nodeId r = nodeId x" "iteration r = iteration x"
      using newRows_props by blast
    then show ?thesis using rs key_ok_cong by blast
  qed
  moreover have "executionRows e (snd (createSteps gen e rs db)) =
      map id (executionRows e db) @ filter (\<lambda>r. executionId r = e) created"
    by (simp add: executionRows_def 2(1))
  moreover have "rows_evolve (executionRows e db) (executionRows e (snd (createSteps gen e rs db)))"
    using executionRows_evolve [OF apply_op_rows_evolve [of db gen "CreateSteps e rs"]] by simp
  ultimately show ?thesis
    by (intro plan_inv_step [OF inv, of _ id "filter (\<lambda>r. executionId r = e) created"])
      (simp_all add: evolves_def)
qed

section \<open>Planning\<close>

lemma map_of_rev_unique:
  assumes "distinct (map fst xs)" and "(k, v) \<in> set xs"
  shows "map_of (rev xs) k = Some v"
  using assms by (intro map_of_is_SomeI) (simp_all add: rev_map [symmetric])

lemma distinct_executionRows:
  assumes "db_wf db"
  shows "distinct (map keyOf (executionRows e db))"
proof -
  have "distinct (map row_key (executionRows e db))"
    using assms unfolding db_wf_def executionRows_def by (simp add: distinct_map_filter)
  then show ?thesis
    by (auto simp: distinct_map inj_on_def executionRows_def row_key_def keyOf_def)
qed

lemma loadStepSummariesByKeys_row:
  assumes "db_wf db" and "r \<in> set (executionRows e db)" and "keyOf r \<in> set keys"
  shows "loadStepSummariesByKeys e keys db (stepKeyId r) = Some (summaryOf r)"
proof -
  let ?rows = "filter (\<lambda>r. keyOf r \<in> set keys) (executionRows e db)"
  have "distinct (map keyOf ?rows)" using distinct_executionRows [OF assms(1)] by (rule distinct_map_filter)
  then have "distinct (map stepKeyId ?rows)" by (auto simp: distinct_map inj_on_def stepKeyId_eq_keyOf)
  then have "map_of (rev (map (\<lambda>r. (stepKeyId r, summaryOf r)) ?rows)) (stepKeyId r) = Some (summaryOf r)"
    by (intro map_of_rev_unique) (use assms(2,3) in \<open>simp_all add: comp_def\<close>)
  moreover have "keys \<noteq> []" using assms(3) by auto
  ultimately show ?thesis by (simp add: loadStepSummariesByKeys_def)
qed

text \<open>The decisions for a settled row, from a snapshot of the rows and any terminal passes.\<close>

definition decisions_for ::
  "workflow_graph \<Rightarrow> string \<Rightarrow> terminals \<Rightarrow> step_record \<Rightarrow> 'a database_scheme \<Rightarrow> successor_decisions" where
  "decisions_for g e ti r db =
     decideSuccessors g (deriveLoops g) (keyOf r)
       (loadStepSummariesByKeys e (decisionKeys g (deriveLoops g) (keyOf r) ti) db) ti"

lemma planDecisions_for:
  "planDecisions execution step db =
     decisions_for (graph execution) (exec_id execution)
       (terminalsInto (exec_id execution) (graph execution) (getSuccessorNodeIds (graph execution) (nodeId step)) db)
       step db"
  by (simp add: planDecisions_def decisions_for_def Let_def)

lemma decisions_ok:
  assumes wf: "loops_wf g" and db: "db_wf db" and inv: "plan_inv g (executionRows e db)"
    and r: "r \<in> set (executionRows e db)" "isSettledStatus (status r)"
    and c: "c \<in> set (toQueue (decisions_for g e ti r db)) \<union> set (toSkip (decisions_for g e ti r db))"
  shows "key_ok g (executionRows e db) c"
proof -
  let ?ls = "deriveLoops g"
  let ?steps = "loadStepSummariesByKeys e (decisionKeys g ?ls (keyOf r) ti) db"
  let ?b = "settledBatchStep ?ls (keyOf r) ?steps"
  have "c \<in> candidates (outgoingEdges g (nodeId (keyOf r))) ?ls (keyOf r) ?steps ?b []"
    using c unfolding decisions_for_def by (auto simp only: decideSuccessors_sets Un_iff mem_Collect_eq)
  then obtain e' where e': "e' \<in> set (outgoingEdges g (nodeId r))" "considers ?ls ?b e'"
    "c = targetKey e' (classifyEdge e' ?ls) r"
    by (auto simp: candidates_def)
  have summary: "?steps (stepKeyId r) = Some (summaryOf r)"
    by (rule loadStepSummariesByKeys_row [OF db r(1) decisionKeys_settled])
  have "batchStepDecides (classifyEdge e' ?ls) (summaryOf r)"
    if "\<exists>l \<in> set ?ls. batchNodeId l = nodeId r"
    using e'(2) that summary by (simp add: considers_def settledBatchStep_def)
  then show ?thesis
    unfolding e'(3) by (intro candidate_ok [OF wf inv r e'(1)]) blast
qed

section \<open>The count cannot pass early\<close>

text \<open>With the terminal row of a loop at pass \<open>t\<close>, no row of its batch node is past \<open>t\<close>.\<close>

lemma not_past_end:
  assumes wf: "loops_wf g" and inv: "plan_inv g rows" and keys: "distinct (map keyOf rows)"
    and l: "l \<in> set (deriveLoops g)" and ended: "ended rows l t"
    and r: "r \<in> set rows" "nodeId r = batchNodeId l"
  shows "iteration r \<le> t"
proof (rule ccontr)
  assume "\<not> iteration r \<le> t"
  have not_adv: "\<not> advanced rows l t"
  proof
    assume "advanced rows l t"
    with ended obtain a b where "a \<in> set rows" "b \<in> set rows" "keyOf a = keyOf b"
      "isTerminalStep (summaryOf a)" "\<not> isTerminalStep (summaryOf b)"
      unfolding ended_def advanced_def keyOf_def by auto
    with keys show False by (auto simp: distinct_map inj_on_def)
  qed
  have loop: "loopOf (deriveLoops g) (batchNodeId l) = Some l"
    by (rule loopOf_deriveLoops [OF wf l]) (use wf l batch_member [of g l] in \<open>simp add: loops_wf_def\<close>)
  have "\<exists>q \<in> set rows. nodeId q = batchNodeId l \<and> iteration q = iteration r - n"
    if "n \<le> iteration r - Suc t" for n
    using that
  proof (induction n)
    case 0
    then show ?case using r by auto
  next
    case (Suc n)
    then obtain q where q: "q \<in> set rows" "nodeId q = batchNodeId l" "iteration q = iteration r - n"
      by auto
    moreover have "key_ok g rows q" using inv q(1) by (simp add: plan_inv_def)
    moreover have "iteration q \<noteq> 0" using q(3) Suc.prems by simp
    ultimately have "advanced rows l (iteration q - 1)" using loop by (simp add: key_ok_def)
    then show ?case using q(3) unfolding advanced_def by auto
  qed
  from this [of "iteration r - Suc t"] \<open>\<not> iteration r \<le> t\<close>
  obtain q where q: "q \<in> set rows" "nodeId q = batchNodeId l" "iteration q = Suc t" by auto
  moreover have "key_ok g rows q" using inv q(1) by (simp add: plan_inv_def)
  ultimately have "advanced rows l t" using loop by (simp add: key_ok_def)
  with not_adv show False ..
qed

lemma rows_owed:
  assumes wf: "loops_wf g" and inv: "plan_inv g rows" and keys: "distinct (map keyOf rows)"
    and ends: "\<And>l. l \<in> set (deriveLoops g) \<Longrightarrow> batchNodeId l \<in> reach g \<Longrightarrow>
      \<exists>t. ti (batchNodeId l) = Some t \<and> ended rows l t"
    and r: "r \<in> set rows"
  shows "keyOf r \<in> owed_keys (deriveLoops g) (reach g) ti"
proof -
  let ?ls = "deriveLoops g"
  have ok: "key_ok g rows r" using inv r by (simp add: plan_inv_def)
  show ?thesis
  proof (cases "loopOf ?ls (nodeId r)")
    case None
    then have "\<forall>l \<in> set ?ls. nodeId r \<notin> set (memberIds l)" by (simp add: loopOf_None)
    with None ok show ?thesis by (auto simp: key_ok_def owed_keys_def)
  next
    case (Some l)
    have l: "l \<in> set ?ls" "nodeId r \<in> set (memberIds l)" using loopOf_Some [OF Some] by simp_all
    have "batchNodeId l \<in> reach g"
      using reach_step [of "nodeId r" g "batchNodeId l"] ok member_scc [OF wf l(1)] l(2)
      by (simp add: key_ok_def)
    moreover from ends [OF l(1) this] obtain t where t: "ti (batchNodeId l) = Some t" "ended rows l t" by blast
    note past = not_past_end [OF wf inv keys l(1) t(2)]
    have "keyOf r \<in> loop_keys l t"
    proof (cases "nodeId r = batchNodeId l")
      case True
      with past [OF r] show ?thesis by (simp add: loop_keys_def)
    next
      case False
      with ok Some have "advanced rows l (iteration r)" by (simp add: key_ok_def)
      then obtain b where b: "b \<in> set rows" "nodeId b = batchNodeId l" "iteration b = iteration r"
        "\<not> isTerminalStep (summaryOf b)" unfolding advanced_def by blast
      obtain z where z: "z \<in> set rows" "nodeId z = batchNodeId l" "iteration z = t"
        "isTerminalStep (summaryOf z)" using t(2) unfolding ended_def by blast
      have "iteration r \<le> t" using past [OF b(1,2)] b(3) by simp
      moreover have "iteration r \<noteq> t"
      proof
        assume "iteration r = t"
        then have "keyOf b = keyOf z" using b z by (simp add: keyOf_def)
        with b(1,4) z(1,4) keys show False by (auto simp: distinct_map inj_on_def)
      qed
      ultimately show ?thesis using False l(2) by (simp add: loop_keys_def)
    qed
    ultimately show ?thesis using l(1) t(1) unfolding owed_keys_def by auto
  qed
qed

text \<open>When as many rows have settled as are owed, the rows are the owed ones and all have settled.\<close>

lemma count_passed:
  assumes wf: "loops_wf g" and inv: "plan_inv g rows" and keys: "distinct (map keyOf rows)"
    and ends: "\<And>l. l \<in> set (deriveLoops g) \<Longrightarrow> batchNodeId l \<in> reach g \<Longrightarrow>
      \<exists>t. ti (batchNodeId l) = Some t \<and> ended rows l t"
    and fin: "finite (owed_keys (deriveLoops g) (reach g) ti)"
    and count: "card (owed_keys (deriveLoops g) (reach g) ti) \<le>
      length (filter (\<lambda>r. status r \<in> set SETTLED_STEP_STATUSES) rows)"
  shows "keyOf ` set rows = owed_keys (deriveLoops g) (reach g) ti"
    and "\<forall>r \<in> set rows. isSettledStatus (status r)"
proof -
  let ?settled = "filter (\<lambda>r. status r \<in> set SETTLED_STEP_STATUSES) rows"
  let ?owed = "owed_keys (deriveLoops g) (reach g) ti"
  have sub: "keyOf ` set rows \<subseteq> ?owed" using rows_owed [OF wf inv keys ends] by blast
  have d: "distinct (map keyOf ?settled)" using keys by (rule distinct_map_filter)
  then have "card (keyOf ` set ?settled) = length ?settled"
    using distinct_card [OF d] by simp
  moreover have "keyOf ` set ?settled \<subseteq> ?owed" using sub by auto
  ultimately have eq: "keyOf ` set ?settled = ?owed"
    using count card_seteq [OF fin, of "keyOf ` set ?settled"] by simp
  then show "keyOf ` set rows = ?owed" using sub by auto
  show "\<forall>r \<in> set rows. isSettledStatus (status r)"
  proof
    fix r assume r: "r \<in> set rows"
    then have "keyOf r \<in> keyOf ` set ?settled" using sub eq by blast
    then obtain q where "q \<in> set rows" "status q \<in> set SETTLED_STEP_STATUSES" "keyOf q = keyOf r" by auto
    moreover from this r keys have "q = r" by (auto simp: distinct_map inj_on_def)
    ultimately show "isSettledStatus (status r)" by (simp only: isSettledStatus_def)
  qed
qed

section \<open>Concurrent planners\<close>

text \<open>
  The store and the inserts planned so far, of an execution \<open>e\<close> of graph \<open>g\<close>: any store call
  of any worker, the trigger's own row, a planner that reads the store for a settled row (with
  terminal passes it may have read earlier), and the insert of a plan made at any time before.
\<close>

inductive plan_step ::
  "(nat \<Rightarrow> string) \<Rightarrow> string \<Rightarrow> workflow_graph \<Rightarrow>
     database \<times> new_step list set \<Rightarrow> database \<times> new_step list set \<Rightarrow> bool"
  for gen :: "nat \<Rightarrow> string" and e :: string and g :: workflow_graph where
  store: "\<not> is_creation e x \<Longrightarrow> plan_step gen e g (db, plans) (apply_op gen x db, plans)"
| trigger: "findTriggerNode g = Some t \<Longrightarrow>
    plan_step gen e g (db, plans) (db, insert [\<lparr>nodeId = node_id t, iteration = 0,
      new_status = Completed, new_outputs = Some outs\<rparr>] plans)"
| plan: "r \<in> set (executionRows e db) \<Longrightarrow> isSettledStatus (status r) \<Longrightarrow>
    ds = decisions_for g e ti r db \<Longrightarrow>
    plan_step gen e g (db, plans)
      (db, insert (map queuedStep (toQueue ds) @ map skippedStep (toSkip ds)) plans)"
| insert: "rs \<in> plans \<Longrightarrow>
    plan_step gen e g (db, plans) (apply_op gen (CreateSteps e rs) db, plans)"

definition plans_inv :: "string \<Rightarrow> workflow_graph \<Rightarrow> database \<times> new_step list set \<Rightarrow> bool" where
  "plans_inv e g s \<longleftrightarrow> db_wf (fst s) \<and> plan_inv g (executionRows e (fst s))
     \<and> (\<forall>rs \<in> snd s. \<forall>x \<in> set rs. key_ok g (executionRows e (fst s)) x)"

lemma trigger_no_loop:
  assumes wf: "loops_wf g" and t: "findTriggerNode g = Some t"
  shows "loopOf (deriveLoops g) (node_id t) = None"
proof -
  have "t \<in> set (nodes g)" "node_type t = Trigger"
    using find_Some_in [of _ "nodes g" t] t by (auto simp: findTriggerNode_def)
  then have "is_trigger_node g (node_id t)" unfolding is_trigger_node_def by blast
  then show ?thesis using wf loop_wf_no_trigger unfolding loopOf_None loops_wf_def by blast
qed

lemma trigger_key_ok:
  assumes wf: "loops_wf g" and t: "findTriggerNode g = Some t" and "nodeId k = node_id t" "iteration k = 0"
  shows "key_ok g rows k"
  using assms trigger_no_loop [OF wf t] by (simp add: key_ok_def reach_def)

lemma key_ok_planned [simp]:
  "key_ok g rows (queuedStep c) = key_ok g rows c" "key_ok g rows (skippedStep c) = key_ok g rows c"
  by (rule key_ok_cong; simp add: queuedStep_def skippedStep_def)+

lemma plans_inv_step:
  assumes wf: "loops_wf g" and "plan_step gen e g s s'" and inv: "plans_inv e g s"
  shows "plans_inv e g s'"
  using assms(2,3)
proof (induction rule: plan_step.induct)
  case (store x db plans)
  have "rows_evolve (executionRows e db) (executionRows e (apply_op gen x db))"
    by (rule executionRows_evolve [OF apply_op_rows_evolve])
  with store show ?case
    by (simp add: plans_inv_def db_wf_apply_op plan_inv_other_op) (blast intro: key_ok_mono)
next
  case (trigger t db plans outs)
  then show ?case by (auto simp: plans_inv_def intro!: trigger_key_ok [OF wf trigger.hyps])
next
  case (plan r db ds ti plans)
  have "key_ok g (executionRows e db) c" if "c \<in> set (toQueue ds) \<union> set (toSkip ds)" for c
    using decisions_ok [OF wf _ _ plan.hyps(1,2)] plan that by (simp add: plans_inv_def)
  with plan.prems show ?case by (auto simp: plans_inv_def)
next
  case (insert rs plans db)
  have "rows_evolve (executionRows e db) (executionRows e (apply_op gen (CreateSteps e rs) db))"
    by (rule executionRows_evolve [OF apply_op_rows_evolve])
  with insert show ?case
    by (simp add: plans_inv_def db_wf_createSteps plan_inv_createSteps) (blast intro: key_ok_mono)
qed

lemma plans_inv_reachable:
  assumes "loops_wf g" and "(plan_step gen e g)\<^sup>*\<^sup>* (db, {}) s" and "db_wf db" and "executionRows e db = []"
  shows "plans_inv e g s"
  using assms(2)
proof (induction rule: rtranclp_induct)
  case base
  then show ?case using assms(3,4) by (simp add: plans_inv_def plan_inv_def)
next
  case (step s s')
  then show ?case using plans_inv_step [OF assms(1)] by blast
qed

section \<open>The count against a concurrent store\<close>

lemma latestRow_in: "latestRow rows = Some r \<Longrightarrow> r \<in> set rows"
  by (induction rows arbitrary: r) (auto split: option.splits if_splits)

lemma loadTerminalIterations_ended:
  assumes "loadTerminalIterations e bs db (batchNodeId l) = Some t"
  shows "ended (executionRows e db) l t"
proof -
  obtain s where s: "loadLatestStepSummaries e bs db (batchNodeId l) = Some s" "isTerminalStep s" "iteration s = t"
    using assms by (auto simp: loadTerminalIterations_def split: if_splits option.splits)
  then obtain r where r: "latestRow (filter (\<lambda>r. nodeId r = batchNodeId l) (executionRows e db)) = Some r"
    "s = summaryOf r"
    by (auto simp: loadLatestStepSummaries_def split: if_splits)
  from latestRow_in [OF r(1)] s r(2) show ?thesis unfolding ended_def by auto
qed

lemma plan_step_evolves:
  "plan_step gen e g s s' \<Longrightarrow> rows_evolve (executionRows e (fst s)) (executionRows e (fst s'))"
  by (induction rule: plan_step.induct)
    (simp_all add: executionRows_evolve [OF apply_op_rows_evolve] del: apply_op.simps)

lemma plan_steps_ended:
  "(plan_step gen e g)\<^sup>*\<^sup>* s s' \<Longrightarrow> ended (executionRows e (fst s)) l t \<Longrightarrow>
     ended (executionRows e (fst s')) l t"
  by (induction rule: rtranclp_induct) (auto intro: ended_mono plan_step_evolves)

lemma reachableFromTrigger_set:
  assumes "findTriggerNode (graph x) = Some t"
  shows "reachableFromTrigger x = Inr (js_set (node_id t # getDescendantNodeIds (graph x) (node_id t)))"
    and "set (js_set (node_id t # getDescendantNodeIds (graph x) (node_id t))) = reach (graph x)"
  using assms by (auto simp: reachableFromTrigger_def reach_def set_getDescendantNodeIds
      dest: rtranclD)

text \<open>The situation in which \<open>finishExecutionIfDone\<close> goes on: the terminal passes read in one state,
  the count in a later one.\<close>

definition count_passes ::
  "string \<Rightarrow> execution_record \<Rightarrow> 'a database_scheme \<Rightarrow> 'b database_scheme \<Rightarrow> bool" where
  "count_passes e x db db' =
     (case reachableFromTrigger x of
        Inl _ \<Rightarrow> False
      | Inr reachable \<Rightarrow>
          let loops = deriveLoops (graph x) in
          (case countExpectedSettledSteps loops reachable
                  (loadTerminalIterations e (map batchNodeId (filter (\<lambda>l. batchNodeId l \<in> set reachable) loops)) db) of
             None \<Rightarrow> False
           | Some expected \<Rightarrow> expected \<le> int (countSettledSteps e db')))"

definition all_owed_settled :: "string \<Rightarrow> workflow_graph \<Rightarrow> terminals \<Rightarrow> 'a database_scheme \<Rightarrow> bool" where
  "all_owed_settled e g ti db \<longleftrightarrow>
     (\<forall>l \<in> set (deriveLoops g). batchNodeId l \<in> reach g \<longrightarrow>
        (\<exists>t. ti (batchNodeId l) = Some t \<and> ended (executionRows e db) l t))
     \<and> keyOf ` set (executionRows e db) = owed_keys (deriveLoops g) (reach g) ti
     \<and> (\<forall>r \<in> set (executionRows e db). isSettledStatus (status r))"

lemma count_passes_owed:
  assumes wf: "loops_wf (graph x)"
    and mono: "\<And>l t. ended (executionRows e db) l t \<Longrightarrow> ended (executionRows e db') l t"
    and inv: "plan_inv (graph x) (executionRows e db')" and db': "db_wf db'"
    and passes: "count_passes e x db db'"
  shows "\<exists>ti. all_owed_settled e (graph x) ti db'"
proof -
  let ?g = "graph x"
  let ?ls = "deriveLoops ?g"
  obtain t where t: "findTriggerNode ?g = Some t"
    using passes by (auto simp: count_passes_def reachableFromTrigger_def split: option.splits)
  let ?reachable = "js_set (node_id t # getDescendantNodeIds ?g (node_id t))"
  note reachable = reachableFromTrigger_set [OF t]
  define ti where "ti = loadTerminalIterations e
    (map batchNodeId (filter (\<lambda>l. batchNodeId l \<in> set ?reachable) ?ls)) db"
  obtain n where n: "countExpectedSettledSteps ?ls ?reachable ti = Some n"
    "n \<le> int (countSettledSteps e db')"
    using passes unfolding count_passes_def reachable(1) ti_def by (auto simp: Let_def split: option.splits)
  have known: "\<forall>l \<in> set ?ls. batchNodeId l \<in> set ?reachable \<longrightarrow> ti (batchNodeId l) \<noteq> None"
    using n(1) countExpectedSettledSteps_None [of ?ls ?reachable ti] by auto
  have card: "n = int (card (owed_keys ?ls (reach ?g) ti))"
    using countExpectedSettledSteps_card [OF loops_ok_deriveLoops [OF wf] _ known] n(1) reachable(2) by simp
  have ends: "\<exists>t. ti (batchNodeId l) = Some t \<and> ended (executionRows e db') l t"
    if l: "l \<in> set ?ls" "batchNodeId l \<in> reach ?g" for l
  proof -
    obtain t' where t': "ti (batchNodeId l) = Some t'" using known l unfolding reachable(2) by blast
    then have "ended (executionRows e db) l t'"
      unfolding ti_def by (rule loadTerminalIterations_ended)
    with mono t' show ?thesis by blast
  qed
  have rows: "plan_inv ?g (executionRows e db')" "distinct (map keyOf (executionRows e db'))"
    by (rule inv, rule distinct_executionRows [OF db'])
  have fin: "finite (owed_keys ?ls (reach ?g) ti)"
    using finite_owed_keys [of ?ls ?reachable ti] reachable(2) by simp
  have "card (owed_keys ?ls (reach ?g) ti) \<le>
      length (filter (\<lambda>r. status r \<in> set SETTLED_STEP_STATUSES) (executionRows e db'))"
    using n(2) card by (simp add: countSettledSteps_def)
  from count_passed [OF wf rows ends fin this] ends show ?thesis
    unfolding all_owed_settled_def by blast
qed

lemma count_passes_owed_steps:
  assumes wf: "loops_wf (graph x)" and steps: "(plan_step gen e (graph x))\<^sup>*\<^sup>* s s'"
    and inv: "plans_inv e (graph x) s'" and passes: "count_passes e x (fst s) (fst s')"
  shows "\<exists>ti. all_owed_settled e (graph x) ti (fst s')"
  by (rule count_passes_owed [OF wf plan_steps_ended [OF steps] _ _ passes])
    (use inv in \<open>simp_all add: plans_inv_def\<close>)

text \<open>Nothing is added or changed once every owed step has settled.\<close>

lemma owed_rows_fixed:
  assumes wf: "loops_wf g" and ev: "rows_evolve (executionRows e db) (executionRows e db')"
    and plan': "plan_inv g (executionRows e db')" and keys': "distinct (map keyOf (executionRows e db'))"
    and over: "all_owed_settled e g ti db"
  shows "executionRows e db' = executionRows e db"
proof -
  let ?rows = "executionRows e db" and ?rows' = "executionRows e db'"
  obtain f created where f: "?rows' = map f ?rows @ created" "\<forall>r \<in> set ?rows. evolves r (f r)"
    using ev unfolding rows_evolve_def by blast
  have "map f ?rows = ?rows"
    by (rule map_idI) (use f(2) over evolves_settled in \<open>auto simp only: all_owed_settled_def\<close>)
  with f(1) have rows': "?rows' = ?rows @ created" by simp
  have "\<exists>t. ti (batchNodeId l) = Some t \<and> ended ?rows' l t"
    if "l \<in> set (deriveLoops g)" "batchNodeId l \<in> reach g" for l
    using over that ended_mono [OF ev] unfolding all_owed_settled_def by blast
  from rows_owed [OF wf plan' keys' this]
  have "keyOf ` set created \<subseteq> keyOf ` set ?rows"
    using over rows' by (auto simp: all_owed_settled_def)
  then have "created = []" using keys' rows' by (cases created) (auto simp: distinct_map)
  with rows' show ?thesis by simp
qed

lemma all_owed_settled_step:
  assumes wf: "loops_wf g" and step: "plan_step gen e g s s'" and inv: "plans_inv e g s"
    and over: "all_owed_settled e g ti (fst s)"
  shows "executionRows e (fst s') = executionRows e (fst s)"
proof (rule owed_rows_fixed [OF wf plan_step_evolves [OF step] _ _ over])
  have inv': "plans_inv e g s'" by (rule plans_inv_step [OF wf step inv])
  then show "plan_inv g (executionRows e (fst s'))" "distinct (map keyOf (executionRows e (fst s')))"
    using distinct_executionRows by (auto simp: plans_inv_def)
qed

lemma all_owed_settled_steps:
  assumes wf: "loops_wf g" and steps: "(plan_step gen e g)\<^sup>*\<^sup>* s s'" and inv: "plans_inv e g s"
    and over: "all_owed_settled e g ti (fst s)"
  shows "executionRows e (fst s') = executionRows e (fst s)"
proof -
  have "plans_inv e g s' \<and> executionRows e (fst s') = executionRows e (fst s)"
    using steps
  proof (induction rule: rtranclp_induct)
    case base
    then show ?case using inv by simp
  next
    case (step s1 s2)
    then have "all_owed_settled e g ti (fst s1)" using over by (simp add: all_owed_settled_def)
    with step all_owed_settled_step [OF wf step.hyps(2)] plans_inv_step [OF wf step.hyps(2)]
    show ?case by simp
  qed
  then show ?thesis ..
qed

end
