(* ===== verification/EngineRun.thy ===== *)
theory EngineRun
  imports PlanInvariant
begin

text \<open>
  The engine as a whole: worlds that starting executions and delivering messages to the two
  workers can reach, in any order and with messages lost, repeated and reordered. The theory
  proves the invariant of all of them: the plans stay sound, an execution recorded as completed
  has settled every step it owes, and a caller is answered exactly once.
\<close>

section \<open>Triples\<close>

text \<open>From a world with \<open>P\<close>, \<open>m\<close> returns \<open>a\<close> in a world with \<open>Q a\<close> or throws in a world with \<open>E\<close>.\<close>

definition valid :: "(world \<Rightarrow> bool) \<Rightarrow> 'a engine \<Rightarrow> ('a \<Rightarrow> world \<Rightarrow> bool) \<Rightarrow> (world \<Rightarrow> bool) \<Rightarrow> bool" where
  "valid P m Q E \<longleftrightarrow>
     (\<forall>w. P w \<longrightarrow> (case m w of (Inl _, w') \<Rightarrow> E w' | (Inr a, w') \<Rightarrow> Q a w'))"

named_theorems triples

lemma valid_bind:
  assumes "valid P m R E" and "\<And>a. valid (R a) (f a) Q E"
  shows "valid P (ebind m f) Q E"
  unfolding valid_def
proof (intro allI impI)
  fix w assume P: "P w"
  obtain r w1 where m: "m w = (r, w1)" by fastforce
  show "case ebind m f w of (Inl _, w') \<Rightarrow> E w' | (Inr a, w') \<Rightarrow> Q a w'"
  proof (cases r)
    case (Inl err)
    with assms(1) P m show ?thesis by (auto simp: valid_def ebind_def)
  next
    case (Inr a)
    with assms(1) P m have "R a w1" by (auto simp: valid_def)
    with assms(2) [of a] m Inr show ?thesis by (simp add: valid_def ebind_def)
  qed
qed

lemma valid_pre: "valid P' m Q E \<Longrightarrow> (\<And>w. P w \<Longrightarrow> P' w) \<Longrightarrow> valid P m Q E"
  by (simp add: valid_def)

lemma valid_post:
  assumes "valid P m Q' E" and "\<And>a w. Q' a w \<Longrightarrow> Q a w"
  shows "valid P m Q E"
  using assms unfolding valid_def by (fastforce split: prod.splits sum.splits)

lemma valid_return: "(\<And>w. P w \<Longrightarrow> Q a w) \<Longrightarrow> valid P (ereturn a) Q E"
  by (simp add: valid_def ereturn_def)

lemma valid_lift: "(\<And>w. P w \<Longrightarrow> E w) \<Longrightarrow> valid P (lift r) (\<lambda>a w. P w \<and> r = Inr a) E"
  by (auto simp: valid_def lift_def split: sum.split)

lemma valid_ask: "(\<And>w. P w \<Longrightarrow> E w) \<Longrightarrow> valid P (ask f) (\<lambda>a w. P w \<and> f w = Inr a) E"
  by (auto simp: valid_def ask_def split: sum.split)

lemma valid_call: "(\<And>w a w'. P w \<Longrightarrow> f w = (a, w') \<Longrightarrow> Q a w') \<Longrightarrow> valid P (call f) Q E"
  by (auto simp: valid_def call_def split: prod.split)

lemma valid_modify: "(\<And>w. P w \<Longrightarrow> Q () (f w)) \<Longrightarrow> valid P (modify f) Q E"
  by (simp add: valid_def modify_def)

lemma valid_assume: "(\<And>w. P w \<Longrightarrow> b) \<Longrightarrow> (b \<Longrightarrow> valid P m Q E) \<Longrightarrow> valid P m Q E"
  by (simp add: valid_def)

section \<open>The invariant of the store\<close>

definition exec_inv :: "'a database_scheme \<Rightarrow> bool" where
  "exec_inv db \<longleftrightarrow> db_wf db
     \<and> (\<forall>e x. executions db e = Some x \<longrightarrow>
          exec_id x = e \<and> executable_graph (graph x) \<and> plan_inv (graph x) (executionRows e db))"

lemma executable_loops: "executable_graph g \<Longrightarrow> loops_wf g"
  by (simp add: executable_graph_def)

lemma exec_invD:
  assumes "exec_inv db" and "executions db e = Some x"
  shows "exec_id x = e" and "executable_graph (graph x)" and "loops_wf (graph x)"
    and "plan_inv (graph x) (executionRows e db)"
proof -
  have all: "exec_id x = e \<and> executable_graph (graph x) \<and> plan_inv (graph x) (executionRows e db)"
    by (rule assms(1) [unfolded exec_inv_def, THEN conjunct2, rule_format, OF assms(2)])
  then show "exec_id x = e" "executable_graph (graph x)" "plan_inv (graph x) (executionRows e db)"
    by blast+
  from all show "loops_wf (graph x)" by (blast intro: executable_loops)
qed

lemma exec_inv_wf: "exec_inv db \<Longrightarrow> db_wf db"
  by (simp add: exec_inv_def)

lemma executions_apply_op:
  assumes "executions (apply_op gen x db) e = Some y'"
  obtains y where "executions db e = Some y" and "graph y = graph y'" and "exec_id y = exec_id y'"
  | r where "x = CreateExecution r" and "executions db e = None" and "exec_id r = e"
    and "graph y' = graph r" and "exec_id y' = e"
proof -
  have "(\<exists>y. executions db e = Some y \<and> graph y = graph y' \<and> exec_id y = exec_id y')
      \<or> (\<exists>r. x = CreateExecution r \<and> executions db e = None \<and> exec_id r = e \<and> graph y' = graph r \<and> exec_id y' = e)"
  proof (cases x)
    case (CreateExecution r)
    with assms show ?thesis by (cases "exec_id r = e"; cases "executions db (exec_id r)") (auto simp: createExecution_def)
  next
    case (ClaimExecution i)
    with assms show ?thesis
      by (cases "executions db i"; cases "i = e") (auto simp: transitionStatus_def split: if_splits)
  next
    case (FinishCompleted now i)
    with assms show ?thesis
      by (cases "executions db i"; cases "i = e") (auto simp: finishExecution_def split: if_splits)
  next
    case (FinishFailed now i)
    with assms show ?thesis
      by (cases "executions db i"; cases "i = e") (auto simp: finishExecution_def split: if_splits)
  qed (use assms in simp_all)
  then show thesis using that by blast
qed

lemma no_rows_unknown: "db_wf db \<Longrightarrow> executions db e = None \<Longrightarrow> executionRows e db = []"
  by (auto simp: db_wf_def executionRows_def filter_empty_conv)

text \<open>What an operation may do to a store that keeps the invariant.\<close>

definition op_ok :: "'a database_scheme \<Rightarrow> store_op \<Rightarrow> bool" where
  "op_ok db x \<longleftrightarrow>
     (case x of
        CreateExecution r \<Rightarrow> executable_graph (graph r) \<and> exec_status r = EQueued
      | CreateSteps e rs \<Rightarrow>
          (\<forall>y. executions db e = Some y \<longrightarrow> (\<forall>r \<in> set rs. key_ok (graph y) (executionRows e db) r))
      | _ \<Rightarrow> True)"

lemma plan_inv_op:
  assumes "op_ok db x" and "executions db e = Some y" and "plan_inv (graph y) (executionRows e db)"
  shows "plan_inv (graph y) (executionRows e (apply_op gen x db))"
proof (cases "is_creation e x")
  case True
  then obtain rs where "x = CreateSteps e rs" by (cases x) auto
  with assms show ?thesis by (simp add: op_ok_def plan_inv_createSteps)
next
  case False
  with assms(3) show ?thesis by (rule plan_inv_other_op [rotated])
qed

lemma exec_inv_op:
  assumes inv: "exec_inv db" and ok: "op_ok db x"
  shows "exec_inv (apply_op gen x db)"
proof -
  have "exec_id y' = e \<and> executable_graph (graph y') \<and> plan_inv (graph y') (executionRows e (apply_op gen x db))"
    if "executions (apply_op gen x db) e = Some y'" for e y'
    using that
  proof (cases rule: executions_apply_op)
    case (1 y)
    with exec_invD [OF inv 1(1)] plan_inv_op [OF ok 1(1)] show ?thesis by simp
  next
    case (2 r)
    have "executionRows e (apply_op gen x db) = []"
      using no_rows_unknown [OF exec_inv_wf [OF inv] 2(2)] 2(1)
      by (auto simp: executionRows_def createExecution_def)
    with 2 ok show ?thesis by (simp add: op_ok_def plan_inv_def)
  qed
  then show ?thesis
    using db_wf_apply_op [OF exec_inv_wf [OF inv]] unfolding exec_inv_def by blast
qed

section \<open>The invariant of a world\<close>

definition settled_row :: "string \<Rightarrow> 'a database_scheme \<Rightarrow> bool" where
  "settled_row i db \<longleftrightarrow> (\<exists>r. findStep i db = Some r \<and> isSettledStatus (status r))"

definition msgs_ok :: "world \<Rightarrow> bool" where
  "msgs_ok w \<longleftrightarrow> (\<forall>e i. StepSettled e i \<in> set (orchestrationQueue w) \<longrightarrow> settled_row i w)"

definition completed_ok :: "'a database_scheme \<Rightarrow> bool" where
  "completed_ok db \<longleftrightarrow> (\<forall>e x. executions db e = Some x \<and> exec_status x = ECompleted \<longrightarrow>
     (\<exists>ti. all_owed_settled e (graph x) ti db) \<and> \<not> hasFailedSteps e db)"

fun answered :: "execution_response \<Rightarrow> string" where
  "answered (Ended e workflow' result last') = e"

definition answers :: "string \<Rightarrow> world \<Rightarrow> nat" where
  "answers e w = length (filter (\<lambda>r. answered r = e) (responses w))"

definition is_over :: "string \<Rightarrow> 'a database_scheme \<Rightarrow> bool" where
  "is_over e db \<longleftrightarrow> (\<exists>x. executions db e = Some x \<and> exec_status x \<in> {ECompleted, EFailed})"

definition answers_ok :: "world \<Rightarrow> bool" where
  "answers_ok w \<longleftrightarrow> (\<forall>e. answers e w = (if is_over e w then 1 else 0))"

definition run_inv :: "world \<Rightarrow> bool" where
  "run_inv w \<longleftrightarrow> exec_inv w \<and> msgs_ok w \<and> completed_ok w \<and> answers_ok w"

lemma run_invD:
  assumes "run_inv w"
  shows "exec_inv w" and "msgs_ok w" and "completed_ok w" and "answers_ok w"
  using assms by (simp_all add: run_inv_def)

definition same_db :: "'a database_scheme \<Rightarrow> 'b database_scheme \<Rightarrow> bool" where
  "same_db db db' \<longleftrightarrow> executions db' = executions db \<and> stepRows db' = stepRows db"

lemma same_db_congs:
  assumes "same_db db db'"
  shows "executions db' = executions db" and "executionRows e db' = executionRows e db"
    and "hasFailedSteps e db' = hasFailedSteps e db" and "findStep i db' = findStep i db"
    and "db_wf db' = db_wf db" and "settled_row i db' = settled_row i db" and "is_over e db' = is_over e db"
    and "all_owed_settled e g ti db' = all_owed_settled e g ti db"
  using assms
  by (simp_all add: same_db_def executionRows_def hasFailedSteps_def findStep_def db_wf_def settled_row_def
      is_over_def all_owed_settled_def)

lemma run_inv_same_db:
  assumes inv: "run_inv w" and same: "same_db w w'"
    and msgs: "\<And>e i. StepSettled e i \<in> set (orchestrationQueue w') \<Longrightarrow>
      StepSettled e i \<in> set (orchestrationQueue w) \<or> settled_row i w"
    and resp: "responses w' = responses w"
  shows "run_inv w'"
proof -
  note congs = same_db_congs [OF same]
  have "exec_inv w'" "completed_ok w'" "answers_ok w'"
    using run_invD [OF inv]
    unfolding exec_inv_def completed_ok_def answers_ok_def answers_def congs resp by blast+
  moreover have "msgs_ok w'"
    unfolding msgs_ok_def congs using msgs run_invD(2) [OF inv] unfolding msgs_ok_def by blast
  ultimately show ?thesis by (simp add: run_inv_def)
qed

lemma world_fields_op [simp]:
  fixes w :: world
  shows "orchestrationQueue (apply_op gen x w) = orchestrationQueue w"
    and "responses (apply_op gen x w) = responses w" and "clock (apply_op gen x w) = clock w"
  by (cases x; simp add: createExecution_def transitionStatus_def finishExecution_def createSteps_def Let_def
      claimStep_def updateWhere_def completeStep_def failStep_def cancelQueuedSteps_def
      split: option.split sum.split prod.split)+

lemma settled_row_op: "settled_row i db \<Longrightarrow> settled_row i (apply_op gen x db)"
  unfolding settled_row_def using store.row_evolves evolves_settled by metis

fun is_finish_op :: "store_op \<Rightarrow> bool" where
  "is_finish_op (FinishCompleted _ _) = True"
| "is_finish_op (FinishFailed _ _) = True"
| "is_finish_op _ = False"

lemma finished_status_op:
  assumes "op_ok db x" and "\<not> is_finish_op x" and "S \<subseteq> {ECompleted, EFailed}"
  shows "(\<exists>y. executions (apply_op gen x db) e = Some y \<and> exec_status y \<in> S \<and> graph y = g)
    \<longleftrightarrow> (\<exists>y. executions db e = Some y \<and> exec_status y \<in> S \<and> graph y = g)"
  using assms
  by (cases x) (auto simp: op_ok_def createExecution_def transitionStatus_def split: option.split)

lemma completed_ok_op:
  assumes inv: "exec_inv db" and ok: "op_ok db x" and cok: "completed_ok db" and nf: "\<not> is_finish_op x"
  shows "completed_ok (apply_op gen x db)"
  unfolding completed_ok_def
proof (intro allI impI)
  fix e y assume y: "executions (apply_op gen x db) e = Some y \<and> exec_status y = ECompleted"
  then obtain y0 where y0: "executions db e = Some y0" "exec_status y0 = ECompleted" "graph y0 = graph y"
    using finished_status_op [OF ok nf, of "{ECompleted}" gen e "graph y"] by auto
  then obtain ti where ti: "all_owed_settled e (graph y) ti db" and nofail: "\<not> hasFailedSteps e db"
    using cok unfolding completed_ok_def by metis
  have inv': "exec_inv (apply_op gen x db)" by (rule exec_inv_op [OF inv ok])
  have same: "executionRows e (apply_op gen x db) = executionRows e db"
  proof (rule owed_rows_fixed [OF _ _ _ _ ti])
    show "loops_wf (graph y)" "plan_inv (graph y) (executionRows e (apply_op gen x db))"
      using exec_invD [OF inv', of e y] y by blast+
    show "rows_evolve (executionRows e db) (executionRows e (apply_op gen x db))"
      by (rule executionRows_evolve [OF apply_op_rows_evolve])
    show "distinct (map keyOf (executionRows e (apply_op gen x db)))"
      by (rule distinct_executionRows [OF exec_inv_wf [OF inv']])
  qed
  have "hasFailedSteps e db' \<longleftrightarrow> (\<exists>r \<in> set (executionRows e db'). status r = Failed)" for db' :: "'a database_scheme"
    by (auto simp: hasFailedSteps_def executionRows_def)
  with same ti nofail
  show "(\<exists>ti. all_owed_settled e (graph y) ti (apply_op gen x db)) \<and> \<not> hasFailedSteps e (apply_op gen x db)"
    unfolding all_owed_settled_def by auto
qed

lemma run_inv_op:
  assumes inv: "run_inv w" and ok: "op_ok w x" and nf: "\<not> is_finish_op x"
  shows "run_inv (apply_op gen x w)"
proof -
  note i = run_invD [OF inv]
  have "is_over e (apply_op gen x w) = is_over e w" for e
    using finished_status_op [OF ok nf order.refl, of gen e] unfolding is_over_def by blast
  then have "answers_ok (apply_op gen x w)" using i(4) by (simp add: answers_ok_def answers_def)
  moreover have "msgs_ok (apply_op gen x w)" using i(2) settled_row_op by (simp add: msgs_ok_def) blast
  ultimately show ?thesis
    using exec_inv_op [OF i(1) ok] completed_ok_op [OF i(1) ok i(3) nf] by (simp add: run_inv_def)
qed

section \<open>Finishing an execution\<close>

lemma run_inv_finish:
  assumes inv: "run_inv w" and x: "executions w e = Some x" "exec_status x = ERunning"
    and st: "st = ECompleted \<or> st = EFailed"
    and good: "st = ECompleted \<Longrightarrow> (\<exists>ti. all_owed_settled e (graph x) ti w) \<and> \<not> hasFailedSteps e w"
    and w2: "executions w2 = (executions w)(e \<mapsto> x\<lparr>exec_status := st, finishedAt := Some now\<rparr>)"
      "stepRows w2 = stepRows w" "orchestrationQueue w2 = orchestrationQueue w"
      "responses w2 = responses w @ [r]" "answered r = e"
  shows "run_inv w2"
proof -
  note i = run_invD [OF inv]
  have rows: "executionRows e' w2 = executionRows e' w" "hasFailedSteps e' w2 = hasFailedSteps e' w"
    "findStep j w2 = findStep j w" "all_owed_settled e' g ti w2 = all_owed_settled e' g ti w" for e' j g ti
    by (simp_all add: executionRows_def hasFailedSteps_def findStep_def all_owed_settled_def w2)
  have "db_wf w2" using exec_inv_wf [OF i(1)] unfolding db_wf_def w2 by auto
  moreover have "exec_id y = e' \<and> executable_graph (graph y) \<and> plan_inv (graph y) (executionRows e' w2)"
    if y: "executions w2 e' = Some y" for e' y
    using exec_invD [OF i(1), of e'] y x(1) by (cases "e' = e") (auto simp: w2 rows)
  ultimately have "exec_inv w2" unfolding exec_inv_def by blast
  moreover have "msgs_ok w2" using i(2) by (simp add: msgs_ok_def settled_row_def rows w2)
  moreover have "completed_ok w2"
    unfolding completed_ok_def rows
  proof (intro allI impI)
    fix e' y assume y: "executions w2 e' = Some y \<and> exec_status y = ECompleted"
    show "(\<exists>ti. all_owed_settled e' (graph y) ti w) \<and> \<not> hasFailedSteps e' w"
    proof (cases "e' = e")
      case True
      with y have "y = x\<lparr>exec_status := st, finishedAt := Some now\<rparr>" "st = ECompleted" by (auto simp: w2)
      with good True show ?thesis by simp
    next
      case False
      with y have "executions w e' = Some y \<and> exec_status y = ECompleted" by (simp add: w2)
      then show ?thesis using i(3) unfolding completed_ok_def by blast
    qed
  qed
  moreover have "answers_ok w2"
    unfolding answers_ok_def
  proof
    fix e'
    have "is_over e' w2 = (e' = e \<or> is_over e' w)" using st by (auto simp: is_over_def w2)
    moreover have "\<not> is_over e w" using x by (simp add: is_over_def)
    moreover have "answers e' w = (if is_over e' w then 1 else 0)" using i(4) by (simp add: answers_ok_def)
    ultimately show "answers e' w2 = (if is_over e' w2 then 1 else 0)"
      by (auto simp: answers_def w2)
  qed
  ultimately show ?thesis by (simp add: run_inv_def)
qed

text \<open>What a handler of a settled step has established before it acts.\<close>

definition settled_ctx :: "string \<Rightarrow> string \<Rightarrow> step_record \<Rightarrow> execution_record \<Rightarrow> world \<Rightarrow> bool" where
  "settled_ctx e i step execution w \<longleftrightarrow> run_inv w \<and> findStep i w = Some step \<and> executionId step = e
     \<and> isSettledStatus (status step) \<and> exec_id execution = e
     \<and> (\<exists>x. executions w e = Some x \<and> graph x = graph execution)"

lemma announced_finish:
  assumes ctx: "settled_ctx e i step execution w"
    and st: "st = ECompleted \<or> st = EFailed"
    and good: "st = ECompleted \<Longrightarrow>
      (\<exists>ti. all_owed_settled e (graph execution) ti w) \<and> \<not> hasFailedSteps e w"
    and fin: "finishExecution now e st w = (True, w1)"
  shows "run_inv (snd (ebind (emit ev) (\<lambda>_. announceEnd execution step node out) w1))"
proof -
  from fin obtain x where x: "executions w e = Some x" "exec_status x = ERunning"
    and w1: "w1 = w\<lparr>executions := (executions w)(e \<mapsto> x\<lparr>exec_status := st, finishedAt := Some now\<rparr>)\<rparr>"
    by (auto simp: finishExecution_def split: option.splits if_splits)
  from ctx x(1) have g: "graph x = graph execution" and inv: "run_inv w" and "isSettledStatus (status step)"
    and "exec_id execution = e"
    unfolding settled_ctx_def by auto
  then show ?thesis
    by (intro run_inv_finish [OF inv x st, of w2 now r for w2 r])
      (use good g in \<open>auto simp: w1 ebind_def emit_def modify_def announceEnd_def respond_def\<close>)
qed

lemma finishExecution_lost: "finishExecution now e st w = (False, w1) \<Longrightarrow> w1 = w"
  by (auto simp: finishExecution_def split: option.splits if_splits)

lemma run_inv_emit: "run_inv w \<Longrightarrow> run_inv (w\<lparr>lifecycleEvents := evs\<rparr>)"
  by (rule run_inv_same_db [of w]) (simp_all add: same_db_def)

lemma run_inv_publishStep: "run_inv w \<Longrightarrow> run_inv (w\<lparr>stepQueue := ms\<rparr>)"
  by (rule run_inv_same_db [of w]) (simp_all add: same_db_def)

lemma run_inv_publishSettled:
  "run_inv w \<Longrightarrow> settled_row i w \<Longrightarrow> run_inv (w\<lparr>orchestrationQueue := orchestrationQueue w @ [StepSettled e i]\<rparr>)"
  by (rule run_inv_same_db [of w]) (auto simp: same_db_def)

lemma run_inv_publishEnqueued:
  "run_inv w \<Longrightarrow> run_inv (w\<lparr>orchestrationQueue := orchestrationQueue w @ [ExecutionEnqueued e]\<rparr>)"
  by (rule run_inv_same_db [of w]) (auto simp: same_db_def)

lemma cancelQueuedSteps_op: "cancelQueuedSteps e db = apply_op gen (CancelQueuedSteps e) db"
  by simp

lemma failExecution_inv:
  "valid (settled_ctx e i step execution) (failExecution execution step node) (\<lambda>_. run_inv) run_inv"
  unfolding valid_def
proof (intro allI impI)
  fix w assume ctx: "settled_ctx e i step execution w"
  then have e: "exec_id execution = e" and inv: "run_inv w" and settled: "isSettledStatus (status step)"
    by (simp_all add: settled_ctx_def)
  obtain fin w1 where f: "finishExecution (clock w) e EFailed w = (fin, w1)" by fastforce
  let ?ending = "ebind (emit (ExecutionFailed (exec_id execution) (workflowId execution)))
      (\<lambda>_. announceEnd execution step node OutcomeFailed)"
  define w2 where "w2 = (if fin then snd (?ending w1) else w1)"
  have "run_inv w2"
  proof (cases fin)
    case True
    with announced_finish [OF ctx, of EFailed "clock w" w1] f show ?thesis by (simp add: w2_def)
  next
    case False
    with f have "w1 = w" by (auto dest: finishExecution_lost)
    with False inv show ?thesis by (simp add: w2_def)
  qed
  moreover have "failExecution execution step node w = (Inr (), cancelQueuedSteps e w2)"
    using f settled
    by (cases fin) (simp_all add: failExecution_def ebind_def call_def e w2_def emit_def modify_def ereturn_def
        announceEnd_def respond_def)
  moreover have "run_inv (cancelQueuedSteps e w2)" if "run_inv w2" for w2
    using run_inv_op [OF that, of "CancelQueuedSteps e"] by (simp add: op_ok_def)
  ultimately show "case failExecution execution step node w of (Inl _, w') \<Rightarrow> run_inv w' | (Inr a, w') \<Rightarrow> run_inv w'"
    by simp
qed

section \<open>Planning in a world\<close>

lemma settled_ctx_op:
  assumes ctx: "settled_ctx e i step execution w" and ok: "op_ok w (CreateSteps e rs)"
  shows "settled_ctx e i step execution (snd (createSteps gen e rs w))"
proof -
  from ctx have inv: "run_inv w" and step: "findStep i w = Some step" "isSettledStatus (status step)"
    by (simp_all add: settled_ctx_def)
  have "run_inv (snd (createSteps gen e rs w))" using run_inv_op [OF inv ok, of gen] by simp
  moreover have "findStep i (snd (createSteps gen e rs w)) = Some step"
    using store.row_evolves [OF step(1), of gen "CreateSteps e rs"] evolves_settled step(2) by fastforce
  ultimately show ?thesis using ctx by (simp add: settled_ctx_def)
qed

lemma settled_ctx_publish:
  "settled_ctx e i step execution w \<Longrightarrow> settled_ctx e i step execution (w\<lparr>stepQueue := ms\<rparr>)"
  "settled_ctx e i step execution w \<Longrightarrow> settled_row j w \<Longrightarrow>
     settled_ctx e i step execution (w\<lparr>orchestrationQueue := orchestrationQueue w @ [StepSettled e j]\<rparr>)"
  using run_inv_publishStep [of w ms] run_inv_publishSettled [of w j e]
  by (simp_all add: settled_ctx_def findStep_def)

lemma announceCreatedSteps_ctx:
  "valid (\<lambda>w. settled_ctx e i step execution w \<and> (\<forall>r \<in> set rs. stepKeyId r \<in> Q \<or> settled_row (step_id r) w))
     (announceCreatedSteps e rs Q n) (\<lambda>_. settled_ctx e i step execution) run_inv"
proof (induction rs arbitrary: n)
  case Nil
  show ?case by (simp add: valid_return)
next
  case (Cons r rs)
  let ?P = "\<lambda>w. settled_ctx e i step execution w \<and> (\<forall>r \<in> set rs. stepKeyId r \<in> Q \<or> settled_row (step_id r) w)"
  have row: "settled_row j (w\<lparr>stepQueue := ms\<rparr>) = settled_row j w"
    "settled_row j (w\<lparr>orchestrationQueue := ms'\<rparr>) = settled_row j w" for j w ms ms'
    by (simp_all add: settled_row_def findStep_def)
  show ?case
    by (cases "stepKeyId r \<in> Q"; simp;
        intro valid_bind [where R = "\<lambda>_. ?P"] valid_pre [OF Cons.IH];
        simp add: publishStep_def publishOrchestration_def;
        intro valid_modify; simp add: row settled_ctx_publish)
qed

lemma insertOrIgnore_ids:
  "insertOrIgnore table rs = (table', created) \<Longrightarrow> set created \<subseteq> set table'"
  using insertOrIgnore_append by fastforce

lemma created_settled:
  assumes db: "db_wf db" and created: "fst (createSteps gen e rs db) = Inr created"
    and r: "r \<in> set created"
  shows "\<exists>x \<in> set rs. stepKeyId r = stepKeyId x \<and> findStep (step_id r) (snd (createSteps gen e rs db)) = Some r
     \<and> status r = new_status x"
proof -
  let ?db' = "snd (createSteps gen e rs db)"
  have wf': "db_wf ?db'" by (rule db_wf_createSteps [OF db])
  have "r \<in> set (stepRows ?db') \<and> r \<in> set (newRows gen (idCounter db) e rs)"
    using created r insertOrIgnore_append
    by (fastforce simp: createSteps_def Let_def split: if_splits sum.splits prod.splits)
  then have rr: "r \<in> set (stepRows ?db')" "r \<in> set (newRows gen (idCounter db) e rs)" by simp_all
  have "findStep (step_id r) ?db' = Some r"
    unfolding findStep_def
    by (rule find_eq_unique) (use rr(1) wf' in \<open>auto simp: db_wf_def distinct_map inj_on_def\<close>)
  moreover obtain x where "x \<in> set rs" "nodeId r = nodeId x" "iteration r = iteration x" "status r = new_status x"
    using newRows_props [OF rr(2)] by blast
  ultimately show ?thesis by (auto simp: stepKeyId_components)
qed

lemma settled_ctx_row:
  assumes "settled_ctx e i step execution w"
  shows "step \<in> set (executionRows e w)" and "isSettledStatus (status step)" and "run_inv w"
    and "\<exists>x. executions w e = Some x \<and> graph x = graph execution"
  using assms find_Some_in [of _ "stepRows w" step] by (auto simp: settled_ctx_def findStep_def executionRows_def)

lemma planned_op_ok:
  assumes ctx: "settled_ctx e i step execution w" and ds: "ds = planDecisions execution step w"
  shows "op_ok w (CreateSteps e (map queuedStep (toQueue ds) @ map skippedStep (toSkip ds)))"
proof -
  note row = settled_ctx_row [OF ctx]
  obtain x where x: "executions w e = Some x" "graph x = graph execution" using row(4) by blast
  note inv = exec_invD [OF run_invD(1) [OF row(3)] x(1)]
  have "exec_id execution = e" using ctx by (simp add: settled_ctx_def)
  then have "key_ok (graph x) (executionRows e w) c" if "c \<in> set (toQueue ds) \<union> set (toSkip ds)" for c
    using decisions_ok [OF inv(3) exec_inv_wf [OF run_invD(1) [OF row(3)]] inv(4) row(1,2)] that
    unfolding ds planDecisions_for x(2) by blast
  then show ?thesis using x(1) by (auto simp: op_ok_def)
qed

lemma stepKeyId_planned [simp]:
  "stepKeyId (queuedStep c) = stepKeyId c" "stepKeyId (skippedStep c) = stepKeyId c"
  by (simp_all add: stepKeyId_components queuedStep_def skippedStep_def)

lemma planSuccessors_ctx:
  "valid (settled_ctx e i step execution) (planSuccessors h execution step)
     (\<lambda>_. settled_ctx e i step execution) run_inv"
proof -
  let ?ctx = "settled_ctx e i step execution"
  have inv: "run_inv w" if "?ctx w" for w using that by (simp add: settled_ctx_def)
  have create: "valid (\<lambda>w. ?ctx w \<and> ds = planDecisions execution step w)
      (createSteps (newId h) (exec_id execution) (map queuedStep (toQueue ds) @ map skippedStep (toSkip ds)))
      (\<lambda>created w. ?ctx w \<and> (\<forall>r \<in> set created.
          stepKeyId r \<in> stepKeyId ` set (toQueue ds) \<or> settled_row (step_id r) w)) run_inv" for ds
    unfolding valid_def
  proof (intro allI impI)
    fix w assume w: "?ctx w \<and> ds = planDecisions execution step w"
    let ?rs = "map queuedStep (toQueue ds) @ map skippedStep (toSkip ds)"
    have e: "exec_id execution = e" using w by (simp add: settled_ctx_def)
    have db: "db_wf w" using w by (simp add: settled_ctx_def run_inv_def exec_inv_def)
    have ctx: "?ctx (snd (createSteps (newId h) e ?rs w))"
      using settled_ctx_op planned_op_ok w by blast
    have "stepKeyId r \<in> stepKeyId ` set (toQueue ds) \<or> settled_row (step_id r) (snd (createSteps (newId h) e ?rs w))"
      if made: "fst (createSteps (newId h) e ?rs w) = Inr created" "r \<in> set created" for created r
    proof -
      obtain x where x: "x \<in> set ?rs" "stepKeyId r = stepKeyId x" "status r = new_status x"
        and found: "findStep (step_id r) (snd (createSteps (newId h) e ?rs w)) = Some r"
        using created_settled [OF db made] by blast
      from x(1) consider c where "c \<in> set (toQueue ds)" "x = queuedStep c" | c where "x = skippedStep c" by auto
      then show ?thesis
        using x(2,3) found by cases (auto simp: settled_row_def skippedStep_def)
    qed
    then have rows: "\<forall>created. fst (createSteps (newId h) e ?rs w) = Inr created \<longrightarrow> (\<forall>r \<in> set created.
        stepKeyId r \<in> stepKeyId ` set (toQueue ds) \<or> settled_row (step_id r) (snd (createSteps (newId h) e ?rs w)))"
      by blast
    show "case createSteps (newId h) (exec_id execution) ?rs w of (Inl err, w') \<Rightarrow> run_inv w'
      | (Inr created, w') \<Rightarrow> ?ctx w' \<and> (\<forall>r \<in> set created.
          stepKeyId r \<in> stepKeyId ` set (toQueue ds) \<or> settled_row (step_id r) w')"
      using rows ctx inv [OF ctx] unfolding e
      by (cases "createSteps (newId h) e ?rs w"; cases "fst (createSteps (newId h) e ?rs w)") simp_all
  qed
  show ?thesis
    unfolding planSuccessors_def
  proof (rule valid_bind [where R = "\<lambda>ds w. ?ctx w \<and> ds = planDecisions execution step w"])
    show "valid ?ctx (ask (\<lambda>w. Inr (planDecisions execution step w)))
        (\<lambda>ds w. ?ctx w \<and> ds = planDecisions execution step w) run_inv"
      by (rule valid_post [OF valid_ask]) (auto intro: inv)
    show "valid (\<lambda>w. ?ctx w \<and> ds = planDecisions execution step w)
       (if toQueue ds = [] \<and> toSkip ds = [] then ereturn 0
        else ebind (createSteps (newId h) (exec_id execution) (map queuedStep (toQueue ds) @ map skippedStep (toSkip ds)))
          (\<lambda>created. announceCreatedSteps (exec_id execution) created (stepKeyId ` set (toQueue ds)) 0))
       (\<lambda>_. ?ctx) run_inv" for ds
    proof (rule valid_assume [where b = "exec_id execution = e"])
      assume e: "exec_id execution = e"
      show ?thesis
        unfolding e
        using valid_bind [OF create announceCreatedSteps_ctx, unfolded e]
        by (auto intro: valid_return)
    qed (simp add: settled_ctx_def)
  qed
qed

lemma finishExecutionIfDone_inv:
  "valid (\<lambda>w. settled_ctx e i step execution w) (finishExecutionIfDone execution step node) (\<lambda>_. run_inv) run_inv"
  unfolding valid_def
proof (intro allI impI)
  fix w assume ctx: "settled_ctx e i step execution w"
  note row = settled_ctx_row [OF ctx]
  from ctx have e: "exec_id execution = e" by (simp add: settled_ctx_def)
  obtain x where x: "executions w e = Some x" "graph x = graph execution" using row(4) by blast
  note inv = exec_invD [OF run_invD(1) [OF row(3)] x(1)]
  let ?r = "finishExecutionIfDone execution step node w"
  have "run_inv (snd ?r)"
  proof (cases "count_passes e execution w w")
    case False
    then have "snd ?r = w"
      by (auto simp: finishExecutionIfDone_def count_passes_def ebind_def lift_def ask_def ereturn_def e Let_def
          split: sum.splits option.splits)
    with row(3) show ?thesis by simp
  next
    case True
    let ?failed = "hasFailedSteps e w"
    let ?st = "if ?failed then EFailed else ECompleted"
    let ?out = "if ?failed then OutcomeFailed else OutcomeCompleted"
    let ?ending = "ebind (emit ((if ?failed then ExecutionFailed else ExecutionCompleted) e (workflowId execution)))
      (\<lambda>_. announceEnd execution step node ?out)"
    have "\<exists>ti. all_owed_settled e (graph execution) ti w"
      by (rule count_passes_owed [OF _ _ _ exec_inv_wf [OF run_invD(1) [OF row(3)]] True])
        (use inv x(2) in simp_all)
    then have owed: "?st = ECompleted \<Longrightarrow>
        (\<exists>ti. all_owed_settled e (graph execution) ti w) \<and> \<not> hasFailedSteps e w"
      by (simp split: if_splits)
    obtain fin w1 where f: "finishExecution (clock w) e ?st w = (fin, w1)" by fastforce
    have "snd ?r = (if fin then snd (?ending w1) else w1)"
      using True f
      by (auto simp: finishExecutionIfDone_def count_passes_def ebind_def lift_def ask_def ereturn_def call_def e Let_def
          split: sum.splits option.splits)
    moreover have "run_inv (snd (?ending w1))" if fin
      by (rule announced_finish [OF ctx, of ?st "clock w" w1]) (use f that owed in \<open>auto split: if_splits\<close>)
    moreover have "run_inv w1" if "\<not> fin"
      using f that row(3) by (auto dest: finishExecution_lost)
    ultimately show ?thesis by simp
  qed
  then show "case ?r of (Inl _, w') \<Rightarrow> run_inv w' | (Inr a, w') \<Rightarrow> run_inv w'"
    by (auto split: prod.split sum.split)
qed

section \<open>The handlers\<close>

lemma valid_ask_keep: "valid P (ask f) (\<lambda>a w. P w \<and> f w = Inr a) run_inv" if "\<And>w. P w \<Longrightarrow> run_inv w"
  by (rule valid_ask) (rule that)

lemma valid_inv_ask: "valid run_inv (ask f) (\<lambda>_. run_inv) run_inv"
  by (rule valid_post [OF valid_ask]) simp_all

lemma valid_inv_lift: "valid run_inv (lift r) (\<lambda>_. run_inv) run_inv"
  by (rule valid_post [OF valid_lift]) simp_all

lemma valid_inv_emit: "valid run_inv (emit ev) (\<lambda>_. run_inv) run_inv"
  unfolding emit_def by (rule valid_modify) (rule run_inv_emit)

lemma loadExecution_graph:
  "loadExecution e w = Inr execution \<Longrightarrow>
     \<exists>x. executions w e = Some x \<and> graph x = graph execution \<and> exec_id x = exec_id execution"
  by (auto simp: loadExecution_def split: option.splits)

lemma stepSettled_inv:
  "valid (\<lambda>w. run_inv w \<and> settled_row i w) (stepSettled_handle h e i) (\<lambda>_. run_inv) run_inv"
  unfolding stepSettled_handle_def
proof (rule valid_bind [where R = "\<lambda>step w. run_inv w \<and> findStep i w = Some step \<and> isSettledStatus (status step)"])
  show "valid (\<lambda>w. run_inv w \<and> settled_row i w) (ask (loadStep i))
      (\<lambda>step w. run_inv w \<and> findStep i w = Some step \<and> isSettledStatus (status step)) run_inv"
    by (rule valid_post [OF valid_ask_keep])
      (auto simp: loadStep_def settled_row_def simp del: isSettledStatus_iff split: option.splits)
  fix step
  let ?A = "\<lambda>w. run_inv w \<and> findStep i w = Some step \<and> isSettledStatus (status step)"
  let ?B = "\<lambda>execution w. ?A w \<and> exec_id execution = e \<and> (\<exists>x. executions w e = Some x \<and> graph x = graph execution)"
  show "valid ?A (ebind (ask (loadExecution e)) (\<lambda>execution. ebind (lift (validateStepContext step execution)) (\<lambda>node.
     if status step = Failed then failExecution execution step node
     else if exec_status execution \<noteq> ERunning then ereturn ()
     else
       ebind (ask (\<lambda>w. Inr ((status step = Completed \<or> status step = Skipped)
                \<and> hasFailedSteps (exec_id execution) w))) (\<lambda>failing.
       if failing then failExecution execution step node
       else
         ebind (if status step = Completed \<or> status step = Skipped
                then planSuccessors h execution step else ereturn 0) (\<lambda>queued.
         if queued > 0 then ereturn ()
         else finishExecutionIfDone execution step node))))) (\<lambda>_. run_inv) run_inv"
  proof (rule valid_bind [where R = ?B])
    show "valid ?A (ask (loadExecution e)) ?B run_inv"
    proof (rule valid_post [OF valid_ask_keep])
      fix execution w assume w: "?A w \<and> loadExecution e w = Inr execution"
      then obtain x where x: "executions w e = Some x" "graph x = graph execution" "exec_id x = exec_id execution"
        using loadExecution_graph by blast
      moreover have "exec_id x = e" using exec_invD(1) [OF run_invD(1) x(1)] w by blast
      ultimately show "?B execution w" using w by auto
    qed simp
    fix execution
    let ?C = "settled_ctx e i step execution"
    have inv: "run_inv w" if "?C w" for w using that by (simp add: settled_ctx_def)
    show "valid (?B execution) (ebind (lift (validateStepContext step execution)) (\<lambda>node.
       if status step = Failed then failExecution execution step node
       else if exec_status execution \<noteq> ERunning then ereturn ()
       else
         ebind (ask (\<lambda>w. Inr ((status step = Completed \<or> status step = Skipped)
                  \<and> hasFailedSteps (exec_id execution) w))) (\<lambda>failing.
         if failing then failExecution execution step node
         else
           ebind (if status step = Completed \<or> status step = Skipped
                  then planSuccessors h execution step else ereturn 0) (\<lambda>queued.
           if queued > 0 then ereturn ()
           else finishExecutionIfDone execution step node)))) (\<lambda>_. run_inv) run_inv"
    proof (rule valid_bind [where R = "\<lambda>_. ?C"])
      show "valid (?B execution) (lift (validateStepContext step execution)) (\<lambda>_. ?C) run_inv"
        by (rule valid_post [OF valid_lift])
          (auto simp: settled_ctx_def validateStepContext_def simp del: isSettledStatus_iff split: if_splits)
      fix node
      have plan: "valid ?C (if status step = Completed \<or> status step = Skipped
          then planSuccessors h execution step else ereturn 0) (\<lambda>_. ?C) run_inv"
        by (cases "status step = Completed \<or> status step = Skipped") (simp_all add: planSuccessors_ctx valid_return)
      have rest: "valid ?C (if queued > 0 then ereturn () else finishExecutionIfDone execution step node)
          (\<lambda>_. run_inv) run_inv" for queued :: nat
        by (cases "queued > 0") (simp_all add: finishExecutionIfDone_inv valid_return inv)
      have after: "valid ?C (if failing then failExecution execution step node
         else
           ebind (if status step = Completed \<or> status step = Skipped
                  then planSuccessors h execution step else ereturn 0) (\<lambda>queued.
           if queued > 0 then ereturn ()
           else finishExecutionIfDone execution step node)) (\<lambda>_. run_inv) run_inv" for failing
        by (cases failing) (use failExecution_inv valid_bind [OF plan rest] in simp_all)
      have failing: "valid ?C (ask (\<lambda>w. Inr ((status step = Completed \<or> status step = Skipped)
                  \<and> hasFailedSteps (exec_id execution) w))) (\<lambda>_. ?C) run_inv"
        by (rule valid_post [OF valid_ask_keep]) (simp_all add: inv)
      show "valid ?C (if status step = Failed then failExecution execution step node
       else if exec_status execution \<noteq> ERunning then ereturn ()
       else
         ebind (ask (\<lambda>w. Inr ((status step = Completed \<or> status step = Skipped)
                  \<and> hasFailedSteps (exec_id execution) w))) (\<lambda>failing.
         if failing then failExecution execution step node
         else
           ebind (if status step = Completed \<or> status step = Skipped
                  then planSuccessors h execution step else ereturn 0) (\<lambda>queued.
           if queued > 0 then ereturn ()
           else finishExecutionIfDone execution step node))) (\<lambda>_. run_inv) run_inv"
        using failExecution_inv valid_bind [OF failing after]
        by (auto intro: valid_return inv)
    qed
  qed
qed

lemma valid_claim: "valid run_inv (call (claimStep i)) (\<lambda>_. run_inv) run_inv"
proof (rule valid_call)
  fix w a w' assume "run_inv w" "claimStep i w = (a, w')"
  then show "run_inv w'" using run_inv_op [of w "ClaimStep i"] by (simp add: op_ok_def)
qed

lemma valid_outcome:
  "valid run_inv (call (case run of Inr outs \<Rightarrow> completeStep i outs | Inl thrown \<Rightarrow> failStep i (toStepError h thrown)))
     (\<lambda>recorded w. run_inv w \<and> (recorded \<longrightarrow> settled_row i w)) run_inv"
proof (rule valid_call)
  fix w recorded w'
  assume inv: "run_inv w" and c: "(case run of Inr outs \<Rightarrow> completeStep i outs
      | Inl thrown \<Rightarrow> failStep i (toStepError h thrown)) w = (recorded, w')"
  define x where "x = (case run of Inr outs \<Rightarrow> CompleteStep i outs | Inl thrown \<Rightarrow> FailStep i (toStepError h thrown))"
  have x: "w' = apply_op undefined x w" "wins x w = recorded" "is_outcome i x" "op_ok w x" "\<not> is_finish_op x"
    using c by (auto simp: x_def op_ok_def split: sum.splits)
  have "settled_row i w'" if recorded
    using outcome_wins [OF exec_inv_wf [OF run_invD(1) [OF inv]] x(3), of undefined] x(1,2) that
    by (auto simp: settled_row_def row_status_in_def)
  then show "run_inv w' \<and> (recorded \<longrightarrow> settled_row i w')" using run_inv_op [OF inv x(4,5)] x(1) by simp
qed

lemma valid_publishSettled:
  "valid (\<lambda>w. run_inv w \<and> settled_row i w) (publishOrchestration (StepSettled e i)) (\<lambda>_. run_inv) run_inv"
  unfolding publishOrchestration_def by (rule valid_modify) (simp add: run_inv_publishSettled)

lemma stepReady_inv: "valid run_inv (stepReady_handle h e i) (\<lambda>_. run_inv) run_inv"
proof -
  let ?S = "\<lambda>w. run_inv w \<and> settled_row i w"
  have emit_settled: "valid ?S (emit ev) (\<lambda>_. ?S) run_inv" for ev
    unfolding emit_def by (rule valid_modify) (simp add: run_inv_emit settled_row_def findStep_def)
  have ret: "valid run_inv (ereturn ()) (\<lambda>_. run_inv) run_inv" by (rule valid_return)
  have final: "valid (\<lambda>w. run_inv w \<and> (recorded \<longrightarrow> settled_row i w))
      (if \<not> recorded then ereturn () else ebind (emit ev) (\<lambda>_. publishOrchestration (StepSettled e i)))
      (\<lambda>_. run_inv) run_inv" for recorded ev
    using ret valid_bind [OF emit_settled valid_publishSettled] by (cases recorded) simp_all
  show ?thesis
    unfolding stepReady_handle_def
    apply (rule valid_bind [OF valid_claim])
    subgoal for claimed
      by (cases claimed; simp add: ret;
          intro valid_bind [OF valid_inv_ask] valid_bind [OF valid_inv_lift];
          simp add: ret;
          intro impI valid_bind [OF valid_inv_emit] valid_bind [OF valid_inv_ask] valid_bind [OF valid_outcome] final)
    done
qed

lemma trigger_op_ok:
  assumes inv: "run_inv w" and x: "executions w e = Some x" "graph x = g" and t: "findTriggerNode g = Some t"
  shows "op_ok w (CreateSteps e [\<lparr>nodeId = node_id t, iteration = 0, new_status = st, new_outputs = outs\<rparr>])"
proof -
  have wf: "loops_wf g" using exec_invD(3) [OF run_invD(1) [OF inv] x(1)] x(2) by simp
  have "key_ok g (executionRows e w) \<lparr>nodeId = node_id t, iteration = 0, new_status = st, new_outputs = outs\<rparr>"
    by (rule trigger_key_ok [OF wf t]) simp_all
  then show ?thesis using x by (simp add: op_ok_def)
qed

lemma executionStart_inv: "valid run_inv (executionStart_handle h e) (\<lambda>_. run_inv) run_inv"
proof -
  have ret: "valid run_inv (ereturn ()) (\<lambda>_. run_inv) run_inv" by (rule valid_return)
  have claim: "valid run_inv (call (transitionStatus e EQueued ERunning)) (\<lambda>_. run_inv) run_inv"
  proof (rule valid_call)
    fix w a w' assume "run_inv w" "transitionStatus e EQueued ERunning w = (a, w')"
    then show "run_inv w'" using run_inv_op [of w "ClaimExecution e"] by (simp add: op_ok_def)
  qed
  let ?A = "\<lambda>execution w. run_inv w \<and> (\<exists>x. executions w e = Some x \<and> graph x = graph execution)"
  have load: "valid run_inv (ask (loadExecution e)) ?A run_inv"
    by (rule valid_post [OF valid_ask]) (auto dest: loadExecution_graph)
  have started: "valid (?A execution) (emit ev) (\<lambda>_. ?A execution) run_inv" for execution ev
    unfolding emit_def by (rule valid_modify) (simp add: run_inv_emit)
  have made: "valid (?A execution)
      (createSteps (newId h) e [\<lparr>nodeId = node_id t, iteration = 0, new_status = Completed, new_outputs = outs\<rparr>])
      (\<lambda>created w. run_inv w \<and> (\<forall>r \<in> set created. settled_row (step_id r) w)) run_inv"
    if t: "findTriggerNode (graph execution) = Some t" for execution t outs
    unfolding valid_def
  proof (intro allI impI)
    fix w assume w: "?A execution w"
    let ?rs = "[\<lparr>nodeId = node_id t, iteration = 0, new_status = Completed, new_outputs = outs\<rparr>]"
    let ?w' = "snd (createSteps (newId h) e ?rs w)"
    obtain x where x: "executions w e = Some x" "graph x = graph execution" using w by blast
    have ok: "op_ok w (CreateSteps e ?rs)" by (rule trigger_op_ok [OF _ x t]) (use w in simp)
    have inv: "run_inv ?w'" using run_inv_op [OF _ ok, of "newId h"] w by simp
    have "settled_row (step_id r) ?w'"
      if "fst (createSteps (newId h) e ?rs w) = Inr created" "r \<in> set created" for created r
      using created_settled [OF exec_inv_wf [OF run_invD(1)] that] w by (auto simp: settled_row_def)
    then show "case createSteps (newId h) e ?rs w of (Inl err, w') \<Rightarrow> run_inv w'
       | (Inr created, w') \<Rightarrow> run_inv w' \<and> (\<forall>r \<in> set created. settled_row (step_id r) w')"
      using inv by (cases "createSteps (newId h) e ?rs w"; cases "fst (createSteps (newId h) e ?rs w)") simp_all
  qed
  have publish: "valid (\<lambda>w. run_inv w \<and> (\<forall>r \<in> set created. settled_row (step_id r) w))
      (case created of [] \<Rightarrow> lift (Inl err) | r # _ \<Rightarrow> publishOrchestration (StepSettled e (step_id r)))
      (\<lambda>_. run_inv) run_inv" for created :: "step_record list" and err
    by (cases created) (auto intro: valid_pre [OF valid_publishSettled] valid_pre [OF valid_inv_lift])
  have rest: "valid (?A execution)
     (case findTriggerNode (graph execution) of
         None \<Rightarrow> lift (Inl (UnexpectedError (NoTriggerInGraph e)))
       | Some trigger \<Rightarrow>
           ebind (createSteps (newId h) e [\<lparr>nodeId = node_id trigger, iteration = 0, new_status = Completed,
               new_outputs = outs\<rparr>]) (\<lambda>created.
           case created of
             [] \<Rightarrow> lift (Inl (UnexpectedError (TriggerStepExists e)))
           | triggerStep # _ \<Rightarrow> publishOrchestration (StepSettled e (step_id triggerStep))))
     (\<lambda>_. run_inv) run_inv" for execution outs
    by (cases "findTriggerNode (graph execution)")
      (auto intro: valid_pre [OF valid_inv_lift] valid_bind [OF made publish])
  show ?thesis
    unfolding executionStart_handle_def
    by (rule valid_bind [OF claim]) (auto intro: ret valid_bind [OF load] valid_bind [OF started] rest)
qed

lemma startService_inv: "valid run_inv (startService h request) (\<lambda>_. run_inv) run_inv"
proof (cases "validateExecutableGraph (start_graph request)")
  case (Inl err)
  then show ?thesis by (auto simp: startService_def valid_def ebind_def lift_def)
next
  case (Inr u)
  then have g: "executable_graph (start_graph request)"
    using validateExecutableGraph_iff by simp
  have create: "valid run_inv (\<lambda>w. case createExecution r w of Inl err \<Rightarrow> (Inl err, w) | Inr w' \<Rightarrow> (Inr (), w'))
      (\<lambda>_. run_inv) run_inv" if "graph r = start_graph request" "exec_status r = EQueued" for r
    unfolding valid_def
  proof (intro allI impI)
    fix w assume w: "run_inv w"
    have "run_inv (apply_op undefined (CreateExecution r) w)"
      by (rule run_inv_op [OF w]) (use that g in \<open>simp_all add: op_ok_def\<close>)
    with w show "case (case createExecution r w of Inl err \<Rightarrow> (Inl err, w) | Inr w' \<Rightarrow> (Inr (), w')) of
        (Inl err, w') \<Rightarrow> run_inv w' | (Inr a, w') \<Rightarrow> run_inv w'"
      by (auto split: sum.split)
  qed
  have publish: "valid run_inv (publishOrchestration (ExecutionEnqueued e)) (\<lambda>_. run_inv) run_inv" for e
    unfolding publishOrchestration_def by (rule valid_modify) (rule run_inv_publishEnqueued)
  show ?thesis
    unfolding startService_def
    by (intro valid_bind [OF valid_inv_lift] valid_bind [OF create] valid_bind [OF publish] valid_return) simp_all
qed

section \<open>Every run\<close>

definition initial_world :: "nat \<Rightarrow> world" where
  "initial_world now = \<lparr>executions = Map.empty, stepRows = [], idCounter = 0, stepQueue = [],
     orchestrationQueue = [], lifecycleEvents = [], responses = [], clock = now\<rparr>"

text \<open>
  A start request, a delivery on either queue, or the passing of time. The queue left behind by
  a delivery is any list of messages that were in it: the message may stay (and be delivered
  again), others may be lost or change their order.
\<close>

inductive engine_step :: "host \<Rightarrow> world \<Rightarrow> world \<Rightarrow> bool" for h :: host where
  start: "engine_step h w (snd (startService h request w))"
| orchestrate: "m \<in> set (orchestrationQueue w) \<Longrightarrow> set ms \<subseteq> set (orchestrationQueue w) \<Longrightarrow>
    engine_step h w (snd (orchestrationWorker h m (w\<lparr>orchestrationQueue := ms\<rparr>)))"
| run_step: "m \<in> set (stepQueue w) \<Longrightarrow> set ms \<subseteq> set (stepQueue w) \<Longrightarrow>
    engine_step h w (snd (stepWorker h m (w\<lparr>stepQueue := ms\<rparr>)))"
| tick: "engine_step h w (w\<lparr>clock := now\<rparr>)"

lemma run_inv_initial: "run_inv (initial_world now)"
  by (simp add: run_inv_def exec_inv_def db_wf_def msgs_ok_def completed_ok_def answers_ok_def answers_def
      is_over_def initial_world_def)

lemma valid_snd: "valid P m (\<lambda>_. Q) Q \<Longrightarrow> P w \<Longrightarrow> Q (snd (m w))"
  unfolding valid_def by (drule spec [of _ w]) (auto split: prod.splits sum.splits)

lemma engine_step_inv: "engine_step h w w' \<Longrightarrow> run_inv w \<Longrightarrow> run_inv w'"
proof (induction rule: engine_step.induct)
  case (start w request)
  then show ?case by (rule valid_snd [OF startService_inv])
next
  case (orchestrate m w ms)
  let ?w = "w\<lparr>orchestrationQueue := ms\<rparr>"
  have inv: "run_inv ?w"
    by (rule run_inv_same_db [OF orchestrate.prems]) (use orchestrate.hyps in \<open>auto simp: same_db_def\<close>)
  show ?case
  proof (cases m)
    case (ExecutionEnqueued e)
    show ?thesis
      unfolding ExecutionEnqueued orchestrationWorker_def orchestration_message.case
      by (rule valid_snd [OF executionStart_inv inv])
  next
    case (StepSettled e i)
    then have "settled_row i ?w"
      using run_invD(2) [OF orchestrate.prems] orchestrate.hyps(1)
      by (auto simp: msgs_ok_def settled_row_def findStep_def)
    with inv show ?thesis
      unfolding StepSettled orchestrationWorker_def orchestration_message.case
      by (intro valid_snd [OF stepSettled_inv]) simp
  qed
next
  case (run_step m w ms)
  have inv: "run_inv (w\<lparr>stepQueue := ms\<rparr>)" by (rule run_inv_publishStep [OF run_step.prems])
  show ?case
    by (cases m) (simp add: stepWorker_def, rule valid_snd [OF stepReady_inv inv])
next
  case (tick w now)
  show ?case by (rule run_inv_same_db [OF tick]) (simp_all add: same_db_def)
qed

lemma engine_run_inv: "(engine_step h)\<^sup>*\<^sup>* (initial_world now) w \<Longrightarrow> run_inv w"
  by (induction rule: rtranclp_induct) (auto intro: run_inv_initial engine_step_inv)

end
