(* ===== verification/HandlerEffects.thy ===== *)
theory HandlerEffects
  imports EngineRun
begin

text \<open>
  What single handlers do: which value each input slot of a step receives, which messages a
  handler leaves behind, and that delivering a message again has no effect.
\<close>

section \<open>Input slots\<close>

definition applicable_reads ::
  "graph_edge list \<Rightarrow> workflow_loop list \<Rightarrow> step_record \<Rightarrow> terminals \<Rightarrow> input_read list" where
  "applicable_reads es loops step ti =
     concat (map (\<lambda>e. case sourceRow e (classifyEdge e loops) step (ti (edge_from e)) of
                        Row k \<Rightarrow> [(e, k)] | _ \<Rightarrow> []) es)"

lemma readsLoop_Inr:
  "readsLoop es loops step ti = Inr reads \<longleftrightarrow>
     reads = applicable_reads es loops step ti
     \<and> (\<forall>e \<in> set es. sourceRow e (classifyEdge e loops) step (ti (edge_from e)) \<noteq> Pending)"
  by (induction es loops step ti arbitrary: reads rule: readsLoop.induct)
    (auto simp: applicable_reads_def rbind_Inr_iff split: source_row.splits)

lemma checkInputSlots_Inr:
  "checkInputSlots reads step seen = Inr () \<longleftrightarrow>
     distinct (map (\<lambda>(e, k). inputIndex e) reads) \<and> set (map (\<lambda>(e, k). inputIndex e) reads) \<inter> set seen = {}"
  by (induction reads step seen rule: checkInputSlots.induct) auto

lemma resolveInputReads_Inr:
  "resolveInputReads es loops step ti = Inr reads \<longleftrightarrow>
     reads = applicable_reads es loops step ti \<and> reads \<noteq> []
     \<and> (\<forall>e \<in> set es. sourceRow e (classifyEdge e loops) step (ti (edge_from e)) \<noteq> Pending)
     \<and> distinct (map (\<lambda>(e, k). inputIndex e) reads)"
  by (auto simp: resolveInputReads_def rbind_Inr_iff readsLoop_Inr checkInputSlots_Inr)

lemma length_js_store [simp]: "length (js_store xs i v) = length xs"
  by (simp add: js_store_def)

lemma js_store_nth:
  "isInteger i \<Longrightarrow> 0 \<le> i \<Longrightarrow> j < length xs \<Longrightarrow>
     js_store xs i v ! j = (if of_nat j = i then v else xs ! j)"
  by (erule isInteger_nonneg, assumption) (simp add: js_store_def)

lemma fillInputs_Inr:
  assumes "fillInputs reads step rows inputs0 = Inr inputs"
    and "\<forall>(e, k) \<in> set reads. isInteger (inputIndex e) \<and> 0 \<le> inputIndex e"
    and "distinct (map (\<lambda>(e, k). inputIndex e) reads)"
  shows "length inputs = length inputs0
    \<and> (\<forall>(e, k) \<in> set reads. \<forall>j < length inputs0. of_nat j = inputIndex e \<longrightarrow>
         readEdgeValue e k step rows = Inr (inputs ! j))
    \<and> (\<forall>j < length inputs0. of_nat j \<notin> (\<lambda>(e, k). inputIndex e) ` set reads \<longrightarrow> inputs ! j = inputs0 ! j)"
  using assms
proof (induction reads step rows inputs0 rule: fillInputs.induct)
  case (2 e k reads step rows inputs0)
  obtain v where v: "readEdgeValue e k step rows = Inr v"
    and rest: "fillInputs reads step rows (js_store inputs0 (inputIndex e) v) = Inr inputs"
    using "2.prems"(1) by (auto simp: rbind_Inr_iff)
  have slot: "isInteger (inputIndex e)" "0 \<le> inputIndex e"
    and fresh: "inputIndex e \<notin> (\<lambda>(e, k). inputIndex e) ` set reads"
    using "2.prems"(2,3) by auto
  note IH = "2.IH" [OF rest]
  have ih: "length inputs = length inputs0"
    "\<forall>(e, k) \<in> set reads. \<forall>j < length inputs0. of_nat j = inputIndex e \<longrightarrow>
         readEdgeValue e k step rows = Inr (inputs ! j)"
    "\<forall>j < length inputs0. of_nat j \<notin> (\<lambda>(e, k). inputIndex e) ` set reads \<longrightarrow>
         inputs ! j = js_store inputs0 (inputIndex e) v ! j"
    using IH "2.prems"(2,3) by auto
  have "inputs ! j = v" if "j < length inputs0" "of_nat j = inputIndex e" for j
    using ih(3) that fresh js_store_nth [OF slot that(1)] by simp
  moreover have "inputs ! j = inputs0 ! j"
    if "j < length inputs0" "of_nat j \<notin> (\<lambda>(e, k). inputIndex e) ` set ((e, k) # reads)" for j
    using ih(3) that js_store_nth [OF slot that(1)] by simp
  ultimately show ?case using ih(1,2) v by simp
qed simp

lemma inputCount_bound:
  assumes "(e, k) \<in> set reads" and "isInteger (inputIndex e)" and "0 \<le> inputIndex e"
  obtains j where "of_nat j = inputIndex e" and "j < inputCount reads"
proof -
  obtain j where j: "inputIndex e = of_nat j" using assms(2,3) by (rule isInteger_nonneg)
  let ?M = "Max (set (map (\<lambda>(e, k). inputIndex e) reads))"
  have "of_nat j \<le> ?M" using assms(1) j by (intro Max_ge) force+
  then have "of_nat (Suc j) \<le> ?M + 1" by simp
  then have "int (Suc j) \<le> \<lfloor>?M + 1\<rfloor>" by (simp only: le_floor_iff of_int_of_nat_eq)
  then have "j < inputCount reads" unfolding inputCount_def by linarith
  with j show thesis using that by simp
qed

section \<open>Messages of a settled step\<close>

lemma announceCreatedSteps_effect:
  "announceCreatedSteps e rs Q n w =
     (Inr (n + length (filter (\<lambda>r. stepKeyId r \<in> Q) rs)),
      w\<lparr>stepQueue := stepQueue w @ map (\<lambda>r. StepReady e (step_id r)) (filter (\<lambda>r. stepKeyId r \<in> Q) rs),
        orchestrationQueue := orchestrationQueue w @
          map (\<lambda>r. StepSettled e (step_id r)) (filter (\<lambda>r. stepKeyId r \<notin> Q) rs)\<rparr>)"
  by (induction e rs Q n arbitrary: w rule: announceCreatedSteps.induct)
    (auto simp: ebind_def ereturn_def publishStep_def publishOrchestration_def modify_def)

lemma decisions_distinct:
  "distinct (toQueue (planDecisions execution step db) @ toSkip (planDecisions execution step db))"
  unfolding planDecisions_for decisions_for_def by (rule decideSuccessors_distinct)

text \<open>The rows a plan creates, and the messages it leaves: one \<open>step:ready\<close> per queued row, one
\<open>step:settled\<close> per skipped row, nothing else.\<close>

lemma createSteps_created_rows:
  "fst (createSteps gen e rs db) = Inr created \<Longrightarrow>
     stepRows (snd (createSteps gen e rs db)) = stepRows db @ created
     \<and> set created \<subseteq> set (newRows gen (idCounter db) e rs)"
proof (cases rule: createSteps_cases [of gen e rs db])
  case 1
  assume "fst (createSteps gen e rs db) = Inr created"
  moreover from this have "stepRows (snd (createSteps gen e rs db)) = stepRows db @ created
      \<and> set created \<subseteq> set (newRows gen (idCounter db) e rs)"
    using insertOrIgnore_append
    by (fastforce simp: createSteps_def Let_def split: if_splits sum.splits prod.splits)
  ultimately show ?thesis by simp
qed simp

lemma createSteps_world [simp]:
  fixes w :: world
  shows "stepQueue (snd (createSteps gen e rs w)) = stepQueue w"
    and "orchestrationQueue (snd (createSteps gen e rs w)) = orchestrationQueue w"
  by (auto simp: createSteps_def Let_def split: sum.split prod.split)

lemma planSuccessors_effect:
  assumes "planSuccessors h execution step w = (Inr n, w')"
  shows "\<exists>created. stepRows w' = stepRows w @ created
     \<and> stepQueue w' = stepQueue w @
         map (\<lambda>r. StepReady (exec_id execution) (step_id r)) (filter (\<lambda>r. status r = Queued) created)
     \<and> orchestrationQueue w' = orchestrationQueue w @
         map (\<lambda>r. StepSettled (exec_id execution) (step_id r)) (filter (\<lambda>r. status r = Skipped) created)
     \<and> n = length (filter (\<lambda>r. status r = Queued) created)
     \<and> (\<forall>r \<in> set created. executionId r = exec_id execution \<and> status r \<in> {Queued, Skipped})"
proof -
  let ?ds = "planDecisions execution step w"
  let ?e = "exec_id execution"
  let ?rs = "map queuedStep (toQueue ?ds) @ map skippedStep (toSkip ?ds)"
  let ?Q = "stepKeyId ` set (toQueue ?ds)"
  show ?thesis
  proof (cases "toQueue ?ds = [] \<and> toSkip ?ds = []")
    case True
    with assms have "w' = w \<and> n = 0" by (auto simp: planSuccessors_def ebind_def ask_def ereturn_def)
    then show ?thesis by (intro exI [of _ "[]"]) simp
  next
    case False
    obtain res w1 where c: "createSteps (newId h) ?e ?rs w = (res, w1)" by fastforce
    with False assms obtain created where created: "res = Inr created"
      and ann: "announceCreatedSteps ?e created ?Q 0 w1 = (Inr n, w')"
      by (cases res) (auto simp: planSuccessors_def ebind_def ask_def)
    have rows: "stepRows w1 = stepRows w @ created" "set created \<subseteq> set (newRows (newId h) (idCounter w) ?e ?rs)"
      using createSteps_created_rows [of "newId h" ?e ?rs w created] c created by simp_all
    have queues: "stepQueue w1 = stepQueue w" "orchestrationQueue w1 = orchestrationQueue w"
      using createSteps_world [of "newId h" ?e ?rs w] c by simp_all
    have kind: "executionId r = ?e \<and> (stepKeyId r \<in> ?Q \<longleftrightarrow> status r = Queued) \<and> status r \<in> {Queued, Skipped}"
      if r: "r \<in> set created" for r
    proof -
      obtain x where x: "x \<in> set ?rs" "nodeId r = nodeId x" "iteration r = iteration x" "status r = new_status x"
        and e: "executionId r = ?e"
        using newRows_props [of r "newId h" "idCounter w" ?e ?rs] rows(2) r by blast
      have key: "stepKeyId r = stepKeyId x" using x(2,3) by (simp add: stepKeyId_components)
      from x(1) consider k where "k \<in> set (toQueue ?ds)" "x = queuedStep k"
        | k where "k \<in> set (toSkip ?ds)" "x = skippedStep k" by auto
      then show ?thesis
      proof cases
        case 1
        then have "stepKeyId r \<in> ?Q" using key by simp
        moreover have "new_status x = Queued" using 1 by (simp add: queuedStep_def)
        ultimately show ?thesis using x(4) e by simp
      next
        case 2
        then have "stepKeyId k \<notin> ?Q" using decisions_distinct [of execution step w] by auto
        with 2 have "stepKeyId r \<notin> ?Q" using key by simp
        moreover have "new_status x = Skipped" using 2 by (simp add: skippedStep_def)
        ultimately show ?thesis using x(4) e by simp
      qed
    qed
    have "stepKeyId r \<notin> ?Q \<longleftrightarrow> status r = Skipped" if "r \<in> set created" for r
      using kind [OF that] by (cases "status r") simp_all
    then have eqs: "filter (\<lambda>r. stepKeyId r \<in> ?Q) created = filter (\<lambda>r. status r = Queued) created"
      "filter (\<lambda>r. stepKeyId r \<notin> ?Q) created = filter (\<lambda>r. status r = Skipped) created"
      using kind by (simp_all cong: filter_cong)
    from ann show ?thesis
      unfolding announceCreatedSteps_effect eqs
      using rows(1) queues kind by (intro exI [of _ created]) auto
  qed
qed

section \<open>Messages of a ready step\<close>

lemma stepReady_not_queued:
  assumes "findStep i w = Some r" and "status r \<noteq> Queued"
  shows "stepReady_handle h e i w = (Inr (), w)"
  using assms by (auto simp: stepReady_handle_def ebind_def call_def ereturn_def claimStep_def split: if_splits)

lemma executionStart_claimed:
  assumes "executions w e = Some x" and "exec_status x \<noteq> EQueued"
  shows "executionStart_handle h e w = (Inr (), w)"
  using assms by (simp add: executionStart_handle_def ebind_def call_def ereturn_def transitionStatus_def)

text \<open>A world in which step \<open>i\<close> has not settled and the orchestration queue is \<open>q\<close>; a world in which it
has and the settlement was published.\<close>

definition silent :: "string \<Rightarrow> orchestration_message list \<Rightarrow> world \<Rightarrow> bool" where
  "silent i q w \<longleftrightarrow> db_wf w \<and> \<not> settled_row i w \<and> orchestrationQueue w = q"

definition announced :: "string \<Rightarrow> string \<Rightarrow> orchestration_message list \<Rightarrow> world \<Rightarrow> bool" where
  "announced e i q w \<longleftrightarrow> settled_row i w \<and> orchestrationQueue w = q @ [StepSettled e i]"

lemma claimStep_unsettled:
  assumes "\<not> settled_row i w" and "claimStep i w = (c, w')"
  shows "\<not> settled_row i w'"
proof (cases c)
  case None
  with assms show ?thesis by (auto simp: claimStep_def split: option.splits if_splits prod.splits)
next
  case (Some step)
  then have "fst (claimStep i w) \<noteq> None" using assms(2) by simp
  then obtain r where "findStep i (snd (claimStep i w)) = Some (r\<lparr>status := Running\<rparr>)" by (rule claimStep_wins)
  then show ?thesis using assms(2) by (simp add: settled_row_def)
qed

lemma claimStep_queue:
  fixes w :: world
  shows "claimStep i w = (c, w') \<Longrightarrow> orchestrationQueue w' = orchestrationQueue w"
  by (auto simp: claimStep_def updateWhere_def split: option.splits if_splits)

lemma silent_claim: "valid (silent i q) (call (claimStep i)) (\<lambda>_. silent i q) (silent i q)"
proof (rule valid_call)
  fix w c w' assume "silent i q w" "claimStep i w = (c, w')"
  then show "silent i q w'"
    using db_wf_claimStep [of w i] by (auto simp: silent_def claimStep_unsettled claimStep_queue)
qed

lemma silent_ask: "valid (silent i q) (ask f) (\<lambda>_. silent i q) (silent i q)"
  by (rule valid_post [OF valid_ask]) simp_all

lemma silent_lift: "valid (silent i q) (lift f) (\<lambda>_. silent i q) (silent i q)"
  by (rule valid_post [OF valid_lift]) simp_all

lemma silent_emit: "valid (silent i q) (emit ev) (\<lambda>_. silent i q) (silent i q)"
  unfolding emit_def by (rule valid_modify) (simp add: silent_def settled_row_def findStep_def db_wf_def)

lemma lost_outcome:
  assumes wf: "db_wf db" and lost: "\<not> wins x db" and x: "is_outcome i x"
  shows "stepRows (apply_op gen x db) = stepRows db"
proof -
  have none: "filter (\<lambda>r. step_id r = i \<and> status r = Running) (stepRows db) = []"
    if "length (filter (\<lambda>r. step_id r = i \<and> status r = Running) (stepRows db)) \<noteq> 1"
  proof (rule ccontr)
    let ?P = "\<lambda>r. step_id r = i \<and> status r = Running"
    assume "filter ?P (stepRows db) \<noteq> []"
    then obtain r where r: "r \<in> set (stepRows db)" "?P r" by (auto simp: filter_empty_conv)
    have d: "distinct (map step_id (stepRows db))" using wf by (simp add: db_wf_def)
    have "set (filter ?P (stepRows db)) = {r}"
      using r d by (auto simp: distinct_map inj_on_def)
    moreover have "distinct (filter ?P (stepRows db))" using d by (simp add: distinct_map)
    ultimately have "length (filter ?P (stepRows db)) = 1" using distinct_card by fastforce
    with that show False by simp
  qed
  have idle: "map (\<lambda>r. if step_id r = i \<and> status r = Running then f r else r) (stepRows db) = stepRows db"
    if "length (filter (\<lambda>r. step_id r = i \<and> status r = Running) (stepRows db)) \<noteq> 1" for f
    by (rule map_idI) (use none [OF that] in \<open>auto simp: filter_empty_conv\<close>)
  consider outs where "x = CompleteStep i outs" | err where "x = FailStep i err"
    using x by (auto elim!: is_outcomeE)
  then show ?thesis
    by cases (use lost idle in \<open>auto simp: completeStep_def failStep_def case_prod_beta updateWhere_def\<close>)
qed

lemma valid_outcome_announced:
  "valid (silent i q) (call (case run of Inr outs \<Rightarrow> completeStep i outs | Inl thrown \<Rightarrow> failStep i (toStepError h thrown)))
     (\<lambda>recorded w. if recorded then settled_row i w \<and> orchestrationQueue w = q else silent i q w) E"
proof (rule valid_call)
  fix w recorded w'
  assume s: "silent i q w" and c: "(case run of Inr outs \<Rightarrow> completeStep i outs
      | Inl thrown \<Rightarrow> failStep i (toStepError h thrown)) w = (recorded, w')"
  define x where "x = (case run of Inr outs \<Rightarrow> CompleteStep i outs | Inl thrown \<Rightarrow> FailStep i (toStepError h thrown))"
  have x: "w' = apply_op undefined x w" "wins x w = recorded" "is_outcome i x"
    using c by (auto simp: x_def split: sum.splits)
  have wf: "db_wf w" using s by (simp add: silent_def)
  show "if recorded then settled_row i w' \<and> orchestrationQueue w' = q else silent i q w'"
  proof (cases recorded)
    case True
    then have "settled_row i w'"
      using outcome_wins [OF wf x(3), of undefined] x(1,2) by (auto simp: settled_row_def row_status_in_def)
    with True s show ?thesis by (simp add: x(1) silent_def)
  next
    case False
    then have "stepRows w' = stepRows w" using lost_outcome [OF wf _ x(3)] x(1,2) by simp
    then have "\<not> settled_row i w'" using s by (simp add: silent_def settled_row_def findStep_def)
    with False s db_wf_apply_op [OF wf] show ?thesis by (simp add: silent_def x(1))
  qed
qed

lemma stepReady_messages:
  "valid (silent i q) (stepReady_handle h e i) (\<lambda>_ w. silent i q w \<or> announced e i q w) (silent i q)"
proof -
  let ?Q = "\<lambda>(_ :: unit) w. silent i q w \<or> announced e i q w"
  have ret: "valid (silent i q) (ereturn ()) ?Q (silent i q)" by (rule valid_return) simp
  have emit_settled: "valid (\<lambda>w. settled_row i w \<and> orchestrationQueue w = q) (emit ev)
      (\<lambda>_ w. settled_row i w \<and> orchestrationQueue w = q) (silent i q)" for ev
    unfolding emit_def by (rule valid_modify) (simp add: settled_row_def findStep_def)
  have publish: "valid (\<lambda>w. settled_row i w \<and> orchestrationQueue w = q) (publishOrchestration (StepSettled e i))
      ?Q (silent i q)"
    unfolding publishOrchestration_def by (rule valid_modify) (simp add: announced_def settled_row_def findStep_def)
  have final: "valid (\<lambda>w. if recorded then settled_row i w \<and> orchestrationQueue w = q else silent i q w)
      (if \<not> recorded then ereturn () else ebind (emit ev) (\<lambda>_. publishOrchestration (StepSettled e i)))
      ?Q (silent i q)" for recorded ev
    using ret valid_bind [OF emit_settled publish] by (cases recorded) simp_all
  show ?thesis
    unfolding stepReady_handle_def
    apply (rule valid_bind [OF silent_claim])
    subgoal for claimed
      by (cases claimed; simp add: ret;
          intro valid_bind [OF silent_ask] valid_bind [OF silent_lift];
          simp add: ret;
          intro impI valid_bind [OF silent_emit] valid_bind [OF silent_ask]
            valid_bind [OF valid_outcome_announced] final)
    done
qed

lemma valid_cases: "valid P m Q E \<Longrightarrow> P w \<Longrightarrow> E (snd (m w)) \<or> (\<exists>a. Q a (snd (m w)))"
  unfolding valid_def by (cases "m w"; cases "fst (m w)") auto

lemma stepReady_silent_or_announced:
  assumes "db_wf w" and "\<not> settled_row i w"
  shows "silent i (orchestrationQueue w) (snd (stepReady_handle h e i w))
    \<or> announced e i (orchestrationQueue w) (snd (stepReady_handle h e i w))"
proof -
  have "silent i (orchestrationQueue w) w" using assms by (simp add: silent_def)
  from valid_cases [OF stepReady_messages this] show ?thesis by blast
qed

section \<open>Starting\<close>

lemma startService_effect:
  "startService h request w =
     (case validateExecutableGraph (start_graph request) of
        Inl err \<Rightarrow> (Inl (GraphRejected err), w)
      | Inr _ \<Rightarrow>
          (case admittance h (start_workflowId request) of
             Some reason \<Rightarrow> (Inl (AdmittanceRejectedError reason), w)
           | None \<Rightarrow>
               (case executions w (start_executionId request) of
                  Some _ \<Rightarrow> (Inl (QueryFailed (start_executionId request)), w)
                | None \<Rightarrow>
                    (Inr (start_executionId request), w
                      \<lparr>executions := (executions w)(start_executionId request \<mapsto>
                         \<lparr>exec_id = start_executionId request, workflowId = start_workflowId request,
                          exec_status = EQueued,
                          mode = (case start_mode request of None \<Rightarrow> Production | Some m \<Rightarrow> m),
                          graph = start_graph request, workflow = Some (start_workflow request),
                          triggerOutputs = start_triggerOutputs request,
                          callerContext = start_callerContext request, finishedAt = None\<rparr>),
                       orchestrationQueue := orchestrationQueue w @
                         [ExecutionEnqueued (start_executionId request)]\<rparr>))))"
  by (simp add: startService_def ebind_def lift_def createExecution_def publishOrchestration_def modify_def
      ereturn_def split: sum.split option.split)

end
