(* ===== verification/EngineProperties.thy ===== *)
theory EngineProperties
  imports HandlerEffects
begin

text \<open>
  The properties of the workflow engine (packages/@n8n/engine), each with a concrete instance.
  The instances use one graph: a trigger feeding a loop of batch size 2 whose body is one node,
  and a node behind the loop.
\<close>

section \<open>A graph with a loop\<close>

definition ex_node :: "string \<Rightarrow> step_type \<Rightarrow> json option \<Rightarrow> graph_node" where
  "ex_node i t c = \<lparr>node_id = i, node_name = i, node_type = t, node_config = c\<rparr>"

definition ex_edge :: "string \<Rightarrow> js_number \<Rightarrow> string \<Rightarrow> bool \<Rightarrow> graph_edge" where
  "ex_edge a x b back = \<lparr>edge_from = a, edge_to = b, outputIndex = x, inputIndex = 0, isBackEdge = back\<rparr>"

lemma ex_edge_sel [simp]:
  "edge_from (ex_edge a x b back) = a" "edge_to (ex_edge a x b back) = b"
  "outputIndex (ex_edge a x b back) = x" "isBackEdge (ex_edge a x b back) = back"
  by (simp_all add: ex_edge_def)

definition ex_config :: "json option" where
  "ex_config = Some (JObject [(''batchSize'', JNumber 2)])"

definition ex_graph :: workflow_graph where
  "ex_graph =
     \<lparr>nodes = [ex_node ''t'' Trigger None, ex_node ''b'' Batch ex_config, ex_node ''m'' V1Node None,
        ex_node ''z'' V1Node None],
      edges = [ex_edge ''t'' 0 ''b'' False, ex_edge ''b'' 1 ''m'' False, ex_edge ''m'' 0 ''b'' True,
        ex_edge ''b'' 0 ''z'' False]\<rparr>"

lemma ex_graph_valid: "validateExecutableGraph ex_graph = Inr ()"
  by code_simp

lemma ex_graph_loops_valid: "validateLoops ex_graph = Inr ()"
  by code_simp

lemma ex_graph_loops: "deriveLoops ex_graph =
  [\<lparr>batchNodeId = ''b'', memberIds = [''m'', ''b''], backEdges = [ex_edge ''m'' 0 ''b'' True],
    entryEdges = [ex_edge ''t'' 0 ''b'' False], exitEdges = [ex_edge ''b'' 0 ''z'' False]\<rparr>]"
  by code_simp

lemma ex_graph_wf: "loops_wf ex_graph"
  using ex_graph_valid validateExecutableGraph_iff executable_loops by blast

section \<open>Graphs\<close>

text \<open>C4: Tarjan's algorithm in \<open>computeSccMembership\<close> assigns every node of the graph, and no node
twice, the strongly connected component it belongs to: exactly the nodes that it can reach and
that can reach it. Each component is listed without repetition.\<close>

theorem scc_membership_correct:
  "node_id ` set (nodes g) \<subseteq> fst ` set (computeSccMembership g es)
   \<and> distinct (map fst (computeSccMembership g es))
   \<and> (\<forall>(v, m) \<in> set (computeSccMembership g es).
        distinct m \<and> set m = {w. (v, w) \<in> (edge_rel es)\<^sup>* \<and> (w, v) \<in> (edge_rel es)\<^sup>*})"
  using computeSccMembership_covers computeSccMembership_distinct computeSccMembership_entries
  unfolding scc_of_def by (intro conjI ballI) (auto simp: prod.case_eq_if)

theorem scc_membership_correct_witness:
  "set (the (map_of (computeSccMembership ex_graph (edges ex_graph)) ''b'')) = {''b'', ''m''}
   \<and> set (the (map_of (computeSccMembership ex_graph (edges ex_graph)) ''t'')) = {''t''}
   \<and> distinct (map fst (computeSccMembership ex_graph (edges ex_graph)))"
proof -
  have "map_of (computeSccMembership ex_graph (edges ex_graph)) ''b'' = Some [''m'', ''b'']"
    "map_of (computeSccMembership ex_graph (edges ex_graph)) ''t'' = Some [''t'']" by code_simp+
  then show ?thesis using scc_membership_correct [of ex_graph "edges ex_graph"] by auto
qed

text \<open>The worklist search of \<open>getDescendantNodeIds\<close> terminates and returns, without repetition,
exactly the nodes that a path of at least one edge leads to; the start node is among them when it
lies on a cycle.\<close>

theorem descendants_are_closure:
  "distinct (getDescendantNodeIds g n)
   \<and> set (getDescendantNodeIds g n) = {m. (n, m) \<in> (edge_rel (edges g))\<^sup>+}"
  using distinct_getDescendantNodeIds set_getDescendantNodeIds by blast

text \<open>\<open>validateLoops\<close> accepts a graph exactly when its loops obey the rules: node ids are unique
and edges have their ends in the graph, the edges that are not marked as back-edges form no cycle,
every batch node has a back-edge, and every loop has one batch node with a valid batch size, no
trigger, at most one entry and one back-edge, is entered and left only at its batch node, and
leaves it only by the done slot.\<close>

theorem validateLoops_rules:
  "validateLoops g = Inr () \<longleftrightarrow>
     distinct (node_ids g)
     \<and> (\<forall>e \<in> set (edges g). edge_from e \<in> set (node_ids g) \<and> edge_to e \<in> set (node_ids g))
     \<and> acyclic (edge_rel (forwardEdges g))
     \<and> (\<forall>i. is_batch_node g i \<longrightarrow> (\<exists>e \<in> set (edges g). isBackEdge e \<and> edge_to e = i))
     \<and> (\<forall>l \<in> set (deriveLoops g). loop_wf g l)"
  unfolding validateLoops_iff loops_wf_def endpoints_ok_def ..

theorem validateLoops_rules_witness:
  "acyclic (edge_rel (forwardEdges ex_graph)) \<and> distinct (node_ids ex_graph)"
  using validateLoops_rules [of ex_graph] ex_graph_loops_valid by blast



text \<open>The loops of a validated graph are disjoint: a node belongs to at most one of them. Each
has exactly one back-edge, its batch node is one of its members, and its members are the strongly
connected component of the batch node.\<close>

theorem loops_of_valid_graph:
  assumes "validateLoops g = Inr ()" and "l \<in> set (deriveLoops g)"
  shows "(\<forall>l' \<in> set (deriveLoops g). l' \<noteq> l \<longrightarrow> set (memberIds l) \<inter> set (memberIds l') = {})
    \<and> (\<exists>e. backEdges l = [e]) \<and> batchNodeId l \<in> set (memberIds l)
    \<and> set (memberIds l) = {m. (batchNodeId l, m) \<in> (edge_rel (edges g))\<^sup>* \<and> (m, batchNodeId l) \<in> (edge_rel (edges g))\<^sup>*}"
proof -
  have wf: "loops_wf g" using assms(1) validateLoops_iff by simp
  then have ends: "endpoints_ok g" by (simp add: loops_wf_def)
  show ?thesis
    using loops_disjoint [OF wf assms(2)] loop_one_back_edge [OF wf assms(2)] batch_member [OF ends assms(2)]
      deriveLoops_members(1) [OF ends assms(2)] unfolding scc_of_def by blast
qed

theorem loops_of_valid_graph_witness: "\<exists>l \<in> set (deriveLoops ex_graph). \<exists>e. backEdges l = [e]"
  using loops_of_valid_graph [OF ex_graph_loops_valid, of "hd (deriveLoops ex_graph)"]
  by (simp add: ex_graph_loops)

section \<open>Steps and edges\<close>

text \<open>A step key and its string form determine each other: two keys have the same string exactly
when they agree on the node and the iteration, whatever characters the node id contains.\<close>

theorem stepKeyId_faithful:
  "stepKeyId k = stepKeyId k' \<longleftrightarrow> nodeId k = nodeId k' \<and> iteration k = iteration k'"
  by (rule stepKeyId_components)

text \<open>\<open>sourceRow\<close> undoes \<open>targetKey\<close>: the row that a step delivers to along an edge reads, along that
edge, that very step. For an entry edge the source is at iteration 0, for an exit edge at the last
pass of its loop.\<close>

theorem delivered_row_reads_its_source:
  assumes "nodeId k = edge_from e" and "classifyEdge e loops = Entry \<Longrightarrow> iteration k = 0"
    and "classifyEdge e loops = Exit \<Longrightarrow> ti = Some (iteration k)"
  shows "sourceRow e (classifyEdge e loops) (targetKey e (classifyEdge e loops) k) ti = Row (keyOf k)"
  by (rule sourceRow_targetKey [OF assms(1)])
    (use assms(2,3) in \<open>auto simp: source_iteration_ok_def split: edge_class.split\<close>)

theorem delivered_row_reads_its_source_witness:
  "sourceRow (ex_edge ''m'' 0 ''b'' True) Back (mk_key ''b'' 4) None = Row (mk_key ''m'' 3)"
proof -
  have c: "classifyEdge (ex_edge ''m'' 0 ''b'' True) (deriveLoops ex_graph) = Back" by code_simp
  show ?thesis
    using delivered_row_reads_its_source [of "mk_key ''m'' 3" "ex_edge ''m'' 0 ''b'' True" "deriveLoops ex_graph" None]
    unfolding c by (simp add: targetKey_def)
qed

text \<open>\<open>targetKey\<close> undoes \<open>sourceRow\<close>: when the row of a target reads a source row along an edge, that
source delivers to exactly that target row.\<close>

theorem source_row_delivers_to_its_reader:
  assumes "nodeId t = edge_to e" and "sourceRow e c t ti = Row k"
  shows "targetKey e c k = keyOf t \<and> nodeId k = edge_from e"
  using targetKey_sourceRow(1) [OF assms] sourceRow_node [OF assms(2)] by simp

theorem source_row_delivers_to_its_reader_witness:
  "targetKey (ex_edge ''b'' 0 ''z'' False) Exit (mk_key ''b'' 2) = mk_key ''z'' 0"
  using source_row_delivers_to_its_reader [of "mk_key ''z'' 0" "ex_edge ''b'' 0 ''z'' False" Exit "Some 2" "mk_key ''b'' 2"]
  by (simp add: sourceRow_def)

text \<open>In a validated graph an edge inside a loop never targets the batch node, a back-edge runs from a
member of a loop to that loop's batch node, and an edge that enters a loop from outside targets its
batch node.\<close>

theorem edge_classes_of_valid_graph:
  assumes "validateLoops g = Inr ()" and "e \<in> set (edges g)"
  shows "(classifyEdge e (deriveLoops g) = Intra \<longrightarrow>
       (\<exists>l. loopOf (deriveLoops g) (edge_from e) = Some l \<and> loopOf (deriveLoops g) (edge_to e) = Some l
          \<and> edge_to e \<noteq> batchNodeId l))
    \<and> (classifyEdge e (deriveLoops g) = Back \<longrightarrow>
       (\<exists>l. loopOf (deriveLoops g) (edge_from e) = Some l \<and> loopOf (deriveLoops g) (edge_to e) = Some l
          \<and> edge_to e = batchNodeId l))
    \<and> (classifyEdge e (deriveLoops g) = Entry \<or> classifyEdge e (deriveLoops g) = Exit \<longrightarrow>
       (\<forall>l. loopOf (deriveLoops g) (edge_to e) = Some l \<longrightarrow> edge_to e = batchNodeId l))"
proof -
  have wf: "loops_wf g" using assms(1) validateLoops_iff by simp
  show ?thesis using classified_ends [OF wf assms(2)] by blast
qed

theorem edge_classes_of_valid_graph_witness:
  "\<exists>l. loopOf (deriveLoops ex_graph) ''m'' = Some l \<and> batchNodeId l = ''b''"
proof -
  let ?e = "ex_edge ''m'' 0 ''b'' True"
  have "classifyEdge ?e (deriveLoops ex_graph) = Back" by code_simp
  moreover have "?e \<in> set (edges ex_graph)" by (simp add: ex_graph_def)
  ultimately show ?thesis
    using edge_classes_of_valid_graph [OF ex_graph_loops_valid, of ?e] by auto
qed

section \<open>Deciding successors\<close>

text \<open>The fate of a candidate does not depend on the order of the edges: the loop with early returns
computes \<open>outside\<close> past the end of the candidate's loop, else \<open>undecidable\<close> when some edge's source
row has not settled, else \<open>outside\<close> when no edge applies, else \<open>queued\<close> when some edge is live, else
\<open>skipped\<close>.\<close>

theorem decideNodeFate_rules:
  "decideNodeFate g loops c steps ti =
     (if isPastLoopEnd loops c steps then FOutside
      else if \<exists>e \<in> set (incomingEdges g (nodeId c)). edge_blocked loops c steps ti e then FUndecidable
      else if \<not> (\<exists>e \<in> set (incomingEdges g (nodeId c)). edge_applies loops c ti e) then FOutside
      else if \<exists>e \<in> set (incomingEdges g (nodeId c)). edge_live loops c steps ti e then FQueued
      else FSkipped)"
  unfolding decideNodeFate_spec fate_spec_def Let_def ..

definition ex_summary :: "string \<Rightarrow> nat \<Rightarrow> step_status \<Rightarrow> bool list \<Rightarrow> step_summary" where
  "ex_summary n i st filled = \<lparr>nodeId = n, iteration = i, sum_id = n, sum_status = st, filledOutputSlots = filled\<rparr>"

definition ex_steps :: step_map where
  "ex_steps = [''t@0'' \<mapsto> ex_summary ''t'' 0 Completed [True], ''b@0'' \<mapsto> ex_summary ''b'' 0 Completed [False, True]]"

text \<open>C6: A fate that was decided stays decided: once a candidate is queued or skipped, reading the store
again after more steps have settled and more loops have ended gives the same fate. For a candidate
inside a loop's body, the batch step of its pass had settled.\<close>

theorem decided_fates_are_stable:
  assumes "\<And>k s. steps k = Some s \<Longrightarrow> isSettledStatus (sum_status s) \<Longrightarrow> steps' k = Some s"
    and "ti \<subseteq>\<^sub>m ti'" and "pass_settled loops steps c"
    and "decideNodeFate g loops c steps ti = f" and "f = FQueued \<or> f = FSkipped"
  shows "decideNodeFate g loops c steps' ti' = f"
  by (rule fate_stable [OF _ assms(2-5)]) (use assms(1) in \<open>auto simp: settles_to_def\<close>)

theorem decided_fates_are_stable_witness:
  "decideNodeFate ex_graph (deriveLoops ex_graph) (mk_key ''m'' 0)
     (ex_steps(''m@0'' \<mapsto> ex_summary ''m'' 0 Queued [])) [''b'' \<mapsto> 5] = FQueued"
proof (rule decided_fates_are_stable [where steps = ex_steps and ti = Map.empty])
  show "pass_settled (deriveLoops ex_graph) ex_steps (mk_key ''m'' 0)" by code_simp
  show "decideNodeFate ex_graph (deriveLoops ex_graph) (mk_key ''m'' 0) ex_steps Map.empty = FQueued" by code_simp
qed (auto simp: ex_steps_def)

text \<open>\<open>decideSuccessors\<close> reads no step outside \<open>decisionKeys\<close>: two maps that agree on these keys give the
same decisions, so loading exactly them is enough.\<close>

theorem decisionKeys_suffice:
  assumes "\<And>k'. k' \<in> set (decisionKeys g loops k ti) \<Longrightarrow> steps (stepKeyId k') = steps' (stepKeyId k')"
  shows "decideSuccessors g loops k steps ti = decideSuccessors g loops k steps' ti"
  by (rule decideSuccessors_agree) (rule assms)

theorem decisionKeys_suffice_witness:
  "decideSuccessors ex_graph (deriveLoops ex_graph) (mk_key ''b'' 0) (ex_steps(''x@7'' \<mapsto> ex_summary ''x'' 7 Failed [])) Map.empty
   = decideSuccessors ex_graph (deriveLoops ex_graph) (mk_key ''b'' 0) ex_steps Map.empty"
proof (rule decisionKeys_suffice)
  have "\<forall>k \<in> set (decisionKeys ex_graph (deriveLoops ex_graph) (mk_key ''b'' 0) Map.empty). stepKeyId k \<noteq> ''x@7''"
    by code_simp
  then show "(ex_steps(''x@7'' \<mapsto> ex_summary ''x'' 7 Failed [])) (stepKeyId k') = ex_steps (stepKeyId k')"
    if "k' \<in> set (decisionKeys ex_graph (deriveLoops ex_graph) (mk_key ''b'' 0) Map.empty)" for k'
    using that by simp
qed

text \<open>C7: \<open>decideSuccessors\<close> decides a row exactly when an outgoing edge the batch step lets through leads
to it, it has no step yet, and its fate is queued (respectively skipped); and it decides no row twice.\<close>

theorem decideSuccessors_exact:
  fixes g loops k steps ti
  defines "ds \<equiv> decideSuccessors g loops k steps ti"
    and "considered \<equiv> {targetKey e (classifyEdge e loops) k | e. e \<in> set (outgoingEdges g (nodeId k))
      \<and> (case settledBatchStep loops k steps of None \<Rightarrow> True
          | Some b \<Rightarrow> batchStepDecides (classifyEdge e loops) b)
      \<and> steps (stepKeyId (targetKey e (classifyEdge e loops) k)) = None}"
  shows "set (toQueue ds) = {c \<in> considered. decideNodeFate g loops c steps ti = FQueued}
    \<and> set (toSkip ds) = {c \<in> considered. decideNodeFate g loops c steps ti = FSkipped}
    \<and> distinct (toQueue ds @ toSkip ds)"
  unfolding ds_def considered_def
  using decideSuccessors_sets decideSuccessors_distinct by (simp add: candidates_def considers_def)

theorem decideSuccessors_exact_witness:
  "set (toQueue (decideSuccessors ex_graph (deriveLoops ex_graph) (mk_key ''b'' 0) ex_steps Map.empty)) = {mk_key ''m'' 0}
   \<and> distinct (toQueue (decideSuccessors ex_graph (deriveLoops ex_graph) (mk_key ''b'' 0) ex_steps Map.empty))"
proof -
  have "toQueue (decideSuccessors ex_graph (deriveLoops ex_graph) (mk_key ''b'' 0) ex_steps Map.empty) = [mk_key ''m'' 0]"
    by code_simp
  then show ?thesis
    using decideSuccessors_exact [of ex_graph "deriveLoops ex_graph" "mk_key ''b'' 0" ex_steps Map.empty] by simp
qed

section \<open>Loops\<close>

text \<open>The passes of a loop. With the list that entered the loop and a valid batch size, every pass
before the last hands its own slice of the list to the body and does not end the loop; the slices
are non-empty and their concatenation in pass order is the list. The first pass with nothing left
hands on, in pass order, everything the body returned (both slots empty when that is nothing) and
ends the loop.\<close>

theorem batch_passes_partition_the_list:
  assumes "isBatchStepConfig config" and "readOriginalItems reader = Inr (JArray items)"
    and "\<And>i. i < t \<Longrightarrow> i * batchSize config < length items" and "length items \<le> t * batchSize config"
    and "readArrivals reader t = Inr (map JArray returned)"
  defines "share \<equiv> \<lambda>i. slice items (i * batchSize config) (i * batchSize config + batchSize config)"
  shows "(\<forall>i < t. runBatchStep config i reader = Inr [JNull, JArray (share i)] \<and> share i \<noteq> []
       \<and> \<not> isTerminalStep (batch_summary n i sid [JNull, JArray (share i)]))
    \<and> concat (map share [0..<t]) = items
    \<and> runBatchStep config t reader =
        Inr (if concat returned = [] then [JNull, JNull] else [JArray (concat returned), JNull])
    \<and> isTerminalStep (batch_summary n t sid
        (if concat returned = [] then [JNull, JNull] else [JArray (concat returned), JNull]))"
proof -
  have share: "share = share_of config items" by (rule ext) (simp add: share_def share_of_def)
  have ne: "share_of config items i \<noteq> []" if "i < t" for i
    using assms(3) [OF that] share_of_empty_iff [OF assms(1)] by (simp add: not_le)
  have "share_of config items t = []" using assms(4) share_of_empty_iff [OF assms(1)] by simp
  note last = runBatchStep_end [OF assms(2) this assms(5)]
  have "concat (map share [0..<t]) = items"
    using shares_partition [OF assms(4)] by (simp add: share)
  moreover have "runBatchStep config i reader = Inr [JNull, JArray (share i)]" if "i < t" for i
    using runBatchStep_share [OF assms(2) ne [OF that]] by (simp add: share)
  ultimately show ?thesis
    using last ne by (simp add: share isTerminal_share isTerminal_end)
qed

definition ex_reader :: loop_reader where
  "ex_reader = \<lparr>readOriginalItems = Inr (JArray [JBool True, JNull, JBool False]),
     readArrivals = (\<lambda>_. Inr (map JArray [[JNull], [JBool True]]))\<rparr>"

theorem batch_passes_partition_the_list_witness:
  "runBatchStep ex_config 1 ex_reader = Inr [JNull, JArray [JBool False]]
   \<and> runBatchStep ex_config 2 ex_reader = Inr [JArray [JNull, JBool True], JNull]"
proof -
  have c: "isBatchStepConfig ex_config" "batchSize ex_config = 2" by code_simp+
  have small: "i * 2 < length [JBool True, JNull, JBool False]" if "i < 2" for i :: nat using that by simp
  from batch_passes_partition_the_list [of ex_config ex_reader "[JBool True, JNull, JBool False]" 2
      "[[JNull], [JBool True]]"] c small
  show ?thesis by (simp add: ex_reader_def slice_def)
qed

text \<open>For a validated graph, \<open>countExpectedSettledSteps\<close> is the number of steps a finished execution
owes: for every reachable loop that ended on pass \<open>t\<close>, its batch node at passes 0 to \<open>t\<close> and its
other members at passes 0 to \<open>t - 1\<close>; and every other reachable node once.\<close>

theorem expected_count_is_owed:
  assumes "validateLoops g = Inr ()" and "distinct reachable"
    and "\<And>l. l \<in> set (deriveLoops g) \<Longrightarrow> batchNodeId l \<in> set reachable \<Longrightarrow> ti (batchNodeId l) \<noteq> None"
  shows "countExpectedSettledSteps (deriveLoops g) reachable ti =
    Some (int (card (owed_keys (deriveLoops g) (set reachable) ti)))"
proof -
  have "loops_wf g" using assms(1) validateLoops_iff by simp
  from countExpectedSettledSteps_card [OF loops_ok_deriveLoops [OF this] assms(2)] assms(3)
  show ?thesis by blast
qed

theorem expected_count_is_owed_witness:
  "int (card (owed_keys (deriveLoops ex_graph) (set [''t'', ''b'', ''m'', ''z'']) [''b'' \<mapsto> 2 :: nat])) = 7"
proof -
  let ?ti = "[''b'' \<mapsto> 2 :: nat]" and ?r = "[''t'', ''b'', ''m'', ''z'']"
  have "countExpectedSettledSteps (deriveLoops ex_graph) ?r ?ti = Some 7" by code_simp
  moreover have "countExpectedSettledSteps (deriveLoops ex_graph) ?r ?ti =
      Some (int (card (owed_keys (deriveLoops ex_graph) (set ?r) ?ti)))"
    by (rule expected_count_is_owed [OF ex_graph_loops_valid]) (simp_all add: ex_graph_loops)
  ultimately show ?thesis by simp
qed

text \<open>C3: Concurrent planners cannot finish an execution early. Whatever store calls, planner reads and
delayed inserts are interleaved, when the number of settled rows reaches the expected count
(computed from terminal passes read at any earlier moment), every step the execution owes has a
settled row and no other step has one; and from then on the rows of the execution never change.\<close>

theorem count_never_passes_early:
  assumes "validateExecutableGraph (graph x) = Inr ()"
    and "db_wf db" and "executionRows e db = []"
    and "(plan_step gen e (graph x))\<^sup>*\<^sup>* (db, {}) s1"
    and "(plan_step gen e (graph x))\<^sup>*\<^sup>* s1 s2" and "count_passes e x (fst s1) (fst s2)"
    and "(plan_step gen e (graph x))\<^sup>*\<^sup>* s2 s3"
  shows "(\<exists>ti. keyOf ` set (executionRows e (fst s2)) = owed_keys (deriveLoops (graph x)) (reach (graph x)) ti)
    \<and> (\<forall>r \<in> set (executionRows e (fst s2)). isSettledStatus (status r))
    \<and> executionRows e (fst s3) = executionRows e (fst s2)"
proof -
  have wf: "loops_wf (graph x)" using assms(1) validateExecutableGraph_iff executable_loops by blast
  have "(plan_step gen e (graph x))\<^sup>*\<^sup>* (db, {}) s2" using assms(4,5) by (rule rtranclp_trans)
  then have inv: "plans_inv e (graph x) s2" using plans_inv_reachable [OF wf _ assms(2,3)] by blast
  obtain ti where "all_owed_settled e (graph x) ti (fst s2)"
    using count_passes_owed_steps [OF wf assms(5) inv assms(6)] by blast
  with all_owed_settled_steps [OF wf assms(7) inv] show ?thesis unfolding all_owed_settled_def by blast
qed

definition ex_single :: workflow_graph where
  "ex_single = \<lparr>nodes = [ex_node ''t'' Trigger None], edges = []\<rparr>"

definition ex_execution :: execution_record where
  "ex_execution = \<lparr>exec_id = ''e'', workflowId = ''w'', exec_status = ERunning, mode = Manual, graph = ex_single,
     workflow = None, triggerOutputs = None,
     callerContext = \<lparr>userId = None, projectId = None, hostMode = ''manual''\<rparr>, finishedAt = None\<rparr>"

definition ex_db :: database where
  "ex_db = \<lparr>executions = [''e'' \<mapsto> ex_execution], stepRows = [], idCounter = 0\<rparr>"

definition ex_trigger_step :: new_step where
  "ex_trigger_step = \<lparr>nodeId = ''t'', iteration = 0, new_status = Completed, new_outputs = Some []\<rparr>"

definition ex_planned_db :: database where
  "ex_planned_db = apply_op nat_to_string (CreateSteps ''e'' [ex_trigger_step]) ex_db"

lemma ex_single_valid: "validateExecutableGraph ex_single = Inr ()"
  by code_simp

lemma ex_db_wf: "db_wf ex_db" "executionRows ''e'' ex_db = []"
  by (simp_all add: db_wf_def ex_db_def executionRows_def)

lemma ex_plan_steps: "(plan_step nat_to_string ''e'' ex_single)\<^sup>*\<^sup>* (ex_db, {}) (ex_planned_db, {[ex_trigger_step]})"
proof -
  have t: "findTriggerNode ex_single = Some (ex_node ''t'' Trigger None)" by code_simp
  have "plan_step nat_to_string ''e'' ex_single (ex_db, {}) (ex_db, {[ex_trigger_step]})"
    using plan_step.trigger [OF t, of nat_to_string "''e''" ex_db "{}" "[]"]
    by (simp add: ex_node_def ex_trigger_step_def)
  moreover have "plan_step nat_to_string ''e'' ex_single (ex_db, {[ex_trigger_step]})
      (ex_planned_db, {[ex_trigger_step]})"
    using plan_step.insert [of "[ex_trigger_step]" "{[ex_trigger_step]}" nat_to_string "''e''" ex_single ex_db]
    by (simp add: ex_planned_db_def)
  ultimately show ?thesis by (rule converse_rtranclp_into_rtranclp [OF _ r_into_rtranclp])
qed

lemma ex_count_passes: "count_passes ''e'' ex_execution ex_planned_db ex_planned_db"
  by code_simp

theorem count_never_passes_early_witness:
  "list_all (\<lambda>r. isSettledStatus (status r)) (executionRows ''e'' ex_planned_db)"
proof -
  have g: "graph ex_execution = ex_single" by (simp add: ex_execution_def)
  show ?thesis
    using count_never_passes_early [of ex_execution ex_db "''e''" nat_to_string "(ex_planned_db, {[ex_trigger_step]})"
        "(ex_planned_db, {[ex_trigger_step]})" "(ex_planned_db, {[ex_trigger_step]})"]
      ex_single_valid ex_db_wf ex_plan_steps ex_count_passes
    unfolding g by (simp add: list_all_iff)
qed

text \<open>Concurrent planning keeps the rows of a validated graph sound: whatever is interleaved, every row
belongs to a node the trigger reaches, a row outside every loop has iteration 0, a row of a loop's
body exists only after the batch node of its own pass settled with a share, and a later pass of a
batch node exists only after the pass before it did.\<close>

theorem concurrent_rows_are_sound:
  assumes "validateExecutableGraph g = Inr ()" and "db_wf db" and "executionRows e db = []"
    and "(plan_step gen e g)\<^sup>*\<^sup>* (db, {}) s" and "r \<in> set (executionRows e (fst s))"
  shows "nodeId r \<in> reach g
    \<and> (loopOf (deriveLoops g) (nodeId r) = None \<longrightarrow> iteration r = 0)
    \<and> (\<forall>l. loopOf (deriveLoops g) (nodeId r) = Some l \<longrightarrow>
         (nodeId r \<noteq> batchNodeId l \<longrightarrow> advanced (executionRows e (fst s)) l (iteration r))
         \<and> (nodeId r = batchNodeId l \<and> iteration r > 0 \<longrightarrow>
              advanced (executionRows e (fst s)) l (iteration r - 1)))"
proof -
  have wf: "loops_wf g" using assms(1) validateExecutableGraph_iff executable_loops by blast
  have "plans_inv e g s" by (rule plans_inv_reachable [OF wf assms(4,2,3)])
  then have "key_ok g (executionRows e (fst s)) r" using assms(5) by (simp add: plans_inv_def plan_inv_def)
  then show ?thesis by (auto simp: key_ok_def)
qed

theorem concurrent_rows_are_sound_witness: "list_all (\<lambda>r. nodeId r \<in> reach ex_single) (executionRows ''e'' ex_planned_db)"
  using concurrent_rows_are_sound [OF ex_single_valid ex_db_wf ex_plan_steps] by (auto simp: list_all_iff)

section \<open>Store histories\<close>

text \<open>In any history of store calls, from any well-formed database, at most one claim of a step wins
and at most one outcome of it is recorded.\<close>

theorem step_won_at_most_once:
  assumes "db_wf db"
  shows "won gen (is_claim i) xs db \<le> 1 \<and> won gen (is_outcome i) xs db \<le> 1"
  using claim.at_most_once [OF assms] outcome.at_most_once [OF assms] by blast

definition ex_history :: "store_op list" where
  "ex_history = [CreateSteps ''e'' [\<lparr>nodeId = ''t'', iteration = 0, new_status = Queued, new_outputs = None\<rparr>],
     ClaimStep ''0'', ClaimStep ''0'', CompleteStep ''0'' [], CompleteStep ''0'' [JNull]]"

theorem step_won_at_most_once_witness:
  "won nat_to_string (is_claim ''0'') ex_history ex_db = 1 \<and> won nat_to_string (is_outcome ''0'') ex_history ex_db = 1"
proof -
  have "1 \<le> won nat_to_string (is_claim ''0'') ex_history ex_db"
    "1 \<le> won nat_to_string (is_outcome ''0'') ex_history ex_db" by code_simp+
  then show ?thesis using step_won_at_most_once [OF ex_db_wf(1), of nat_to_string "''0''" ex_history] by linarith
qed

text \<open>In any history of store calls, at most one worker wins the start of an execution and at most one
wins its outcome.\<close>

theorem execution_won_at_most_once:
  assumes "db_wf db"
  shows "won gen (is_start e) xs db \<le> 1 \<and> won gen (is_finish e) xs db \<le> 1"
  using start.at_most_once [OF assms] finish.at_most_once [OF assms] by blast

theorem execution_won_at_most_once_witness:
  "won nat_to_string (is_finish ''e'') [FinishCompleted 5 ''e'', FinishFailed 6 ''e''] ex_db = 1"
proof -
  have "1 \<le> won nat_to_string (is_finish ''e'') [FinishCompleted 5 ''e'', FinishFailed 6 ''e''] ex_db" by code_simp
  then show ?thesis
    using execution_won_at_most_once [OF ex_db_wf(1), of nat_to_string "''e''" "[FinishCompleted 5 ''e'', FinishFailed 6 ''e'']"]
    by linarith
qed

text \<open>C9: A settled step never changes: whatever store calls follow, its row keeps its status, its outputs
and its error; and any row keeps its identity and moves along the lifecycle only.\<close>

theorem settled_steps_are_final:
  assumes "findStep i db = Some r"
  shows "(isSettledStatus (status r) \<longrightarrow> findStep i (run_ops gen xs db) = Some r)
    \<and> (\<exists>r'. findStep i (run_ops gen xs db) = Some r' \<and> same_row r r' \<and> lifecycle\<^sup>*\<^sup>* (status r) (status r'))"
  using store.settled_immutable [OF assms, of gen xs] store.run_evolves [OF assms, of gen xs]
  unfolding run_ops_fold by blast

theorem settled_steps_are_final_witness:
  "findStep ''0'' (run_ops nat_to_string [ClaimStep ''0'', CancelQueuedSteps ''e'', CompleteStep ''0'' [JNull]] ex_planned_db)
   = findStep ''0'' ex_planned_db"
proof -
  have "map_option status (findStep ''0'' ex_planned_db) = Some Completed" by code_simp
  then obtain r where r: "findStep ''0'' ex_planned_db = Some r" "status r = Completed" by auto
  with settled_steps_are_final [OF r(1), of nat_to_string] show ?thesis by (simp del: run_ops.simps)
qed

text \<open>C8: Once a step of an execution has failed, whatever store calls follow, no step of that execution is
created any more and none starts running: its rows keep their keys, and a row that is running later
was already running.\<close>

theorem failed_execution_winds_down:
  assumes "db_wf db" and "hasFailedSteps e db"
  shows "map keyOf (executionRows e (run_ops gen xs db)) = map keyOf (executionRows e db)
    \<and> (\<forall>r \<in> set (executionRows e (run_ops gen xs db)). status r = Running \<longrightarrow> r \<in> set (executionRows e db))"
  using winds_down_run_ops [OF assms] unfolding winds_down_def by blast

definition ex_failed_db :: database where
  "ex_failed_db = run_ops nat_to_string
     [CreateSteps ''e'' [\<lparr>nodeId = ''t'', iteration = 0, new_status = Queued, new_outputs = None\<rparr>],
      CreateSteps ''e'' [\<lparr>nodeId = ''u'', iteration = 0, new_status = Queued, new_outputs = None\<rparr>],
      ClaimStep ''0'', FailStep ''0'' \<lparr>error_name = [], error_message = [], error_stack = None\<rparr>] ex_db"

theorem failed_execution_winds_down_witness:
  "list_all (\<lambda>r. status r \<noteq> Running) (executionRows ''e'' (run_ops nat_to_string [ClaimStep ''1''] ex_failed_db))"
proof -
  have wf: "db_wf ex_failed_db" unfolding ex_failed_db_def by (rule db_wf_run_ops [OF ex_db_wf(1)])
  have failed: "hasFailedSteps ''e'' ex_failed_db" by code_simp
  have "\<forall>r \<in> set (executionRows ''e'' ex_failed_db). status r \<noteq> Running" by code_simp
  then show ?thesis using failed_execution_winds_down [OF wf failed, of nat_to_string "[ClaimStep ''1'']"]
    unfolding list_all_iff by blast
qed

text \<open>Every store call keeps the tables well-formed: step ids and the triples of execution, node and
iteration stay unique, every row belongs to an existing execution, outputs are recorded exactly on
completed rows and errors exactly on failed ones.\<close>

theorem store_stays_well_formed:
  assumes "db_wf db"
  shows "db_wf (run_ops gen xs db)"
  by (rule db_wf_run_ops [OF assms])

theorem store_stays_well_formed_witness:
  "distinct (map row_key (stepRows (run_ops nat_to_string (ex_history @ ex_history) ex_db)))"
  using store_stays_well_formed [OF ex_db_wf(1), of nat_to_string "ex_history @ ex_history"] by (simp add: db_wf_def)

section \<open>Handlers\<close>

text \<open>The inputs of a step. When \<open>gatherInputs\<close> succeeds on a graph with valid slot indices, no two
applicable edges fill one slot, every applicable edge has delivered to its input slot the value its
source row holds (null for a source that did not complete), and every other slot is null.\<close>

theorem inputs_come_from_the_edges:
  assumes "gatherInputs execution step db = Inr inputs"
    and "\<And>e. e \<in> set (edges (graph execution)) \<Longrightarrow> slot_index_ok (inputIndex e)"
  defines "g \<equiv> graph execution"
  defines "reads \<equiv> applicable_reads (incomingEdges g (nodeId step)) (deriveLoops g) step
      (terminalsInto (exec_id execution) g [nodeId step] db)"
  defines "rows \<equiv> loadStepsByKeys (exec_id execution) (js_set (map snd reads)) db"
  shows "distinct (map (\<lambda>(e, k). inputIndex e) reads)
    \<and> (\<forall>(e, k) \<in> set reads. \<exists>j < length inputs. of_nat j = inputIndex e
         \<and> readEdgeValue e k step rows = Inr (inputs ! j))
    \<and> (\<forall>j < length inputs. of_nat j \<notin> (\<lambda>(e, k). inputIndex e) ` set reads \<longrightarrow> inputs ! j = JNull)"
proof -
  let ?ti = "terminalsInto (exec_id execution) g [nodeId step] db"
  have "incomingEdges g (nodeId step) \<noteq> []"
    and r: "resolveInputReads (incomingEdges g (nodeId step)) (deriveLoops g) step ?ti = Inr reads"
    and fill: "fillInputs reads step rows (replicate (inputCount reads) JNull) = Inr inputs"
    using assms(1) unfolding gatherInputs_def
    by (auto simp: Let_def incomingEdges_def g_def rows_def rbind_Inr_iff resolveInputReads_Inr reads_def split: if_splits)
  have d: "distinct (map (\<lambda>(e, k). inputIndex e) reads)" using r unfolding resolveInputReads_Inr by blast
  have "e \<in> set (edges g)" if "(e, k) \<in> set reads" for e k
    using that unfolding reads_def applicable_reads_def incomingEdges_def by (auto split: source_row.splits)
  then have slots: "\<forall>(e, k) \<in> set reads. isInteger (inputIndex e) \<and> 0 \<le> inputIndex e"
    using assms(2) by (auto simp: slot_index_ok_def g_def)
  have filled: "length inputs = inputCount reads"
    "\<forall>(e, k) \<in> set reads. \<forall>j < inputCount reads. of_nat j = inputIndex e \<longrightarrow> readEdgeValue e k step rows = Inr (inputs ! j)"
    "\<forall>j < inputCount reads. of_nat j \<notin> (\<lambda>(e, k). inputIndex e) ` set reads \<longrightarrow> inputs ! j = JNull"
    using fillInputs_Inr [OF fill slots d] by simp_all
  have "\<exists>j < length inputs. of_nat j = inputIndex e \<and> readEdgeValue e k step rows = Inr (inputs ! j)"
    if ek: "(e, k) \<in> set reads" for e k
  proof -
    obtain j where j: "of_nat j = inputIndex e" "j < inputCount reads"
      using inputCount_bound [OF ek] slots ek by blast
    then have "readEdgeValue e k step rows = Inr (inputs ! j)" using filled(2) ek by blast
    with j show ?thesis by (intro exI [of _ j]) (simp add: filled(1))
  qed
  with d filled show ?thesis by auto
qed

definition ex_ready_db :: database where
  "ex_ready_db = \<lparr>executions = [''e'' \<mapsto> ex_execution\<lparr>graph := ex_graph\<rparr>],
     stepRows = [\<lparr>nodeId = ''b'', iteration = 0, step_id = ''1'', executionId = ''e'', status = Completed,
       outputs = Some [JNull, JBool True], step_error = None\<rparr>], idCounter = 2\<rparr>"

definition ex_ready_step :: step_record where
  "ex_ready_step = \<lparr>nodeId = ''m'', iteration = 0, step_id = ''2'', executionId = ''e'', status = Running,
     outputs = None, step_error = None\<rparr>"

theorem inputs_come_from_the_edges_witness:
  "gatherInputs (ex_execution\<lparr>graph := ex_graph\<rparr>) ex_ready_step ex_ready_db = Inr [JBool True]
   \<and> distinct (map (\<lambda>(e, k). inputIndex e) (applicable_reads (incomingEdges ex_graph ''m'') (deriveLoops ex_graph)
        ex_ready_step (terminalsInto ''e'' ex_graph [''m''] ex_ready_db)))"
proof -
  have 1: "gatherInputs (ex_execution\<lparr>graph := ex_graph\<rparr>) ex_ready_step ex_ready_db = Inr [JBool True]" by code_simp
  have 2: "\<forall>e \<in> set (edges ex_graph). slot_index_ok (inputIndex e)" by code_simp
  show ?thesis
    using inputs_come_from_the_edges [OF 1] 1 2 by (simp add: ex_execution_def ex_ready_step_def)
qed

text \<open>Delivering a message again has no effect: a \<open>step:ready\<close> for a step that is no longer queued and
an \<open>execution:enqueued\<close> for an execution that has started leave the world as it is.\<close>

theorem redelivery_is_a_no_op:
  "(map_option status (findStep i w) \<notin> {None, Some Queued} \<longrightarrow> stepReady_handle h e i w = (Inr (), w))
   \<and> (map_option exec_status (executions w e) \<notin> {None, Some EQueued} \<longrightarrow> executionStart_handle h e w = (Inr (), w))"
  using stepReady_not_queued executionStart_claimed by auto

definition ex_host :: host where
  "ex_host = \<lparr>newId = nat_to_string, v1StepExecutor = Some (\<lambda>w request. Inr (req_inputs request)),
     admittance = (\<lambda>_. None), errorObject = (\<lambda>_. \<lparr>error_name = [], error_message = [], error_stack = None\<rparr>)\<rparr>"

definition world_of :: "database \<Rightarrow> world" where
  "world_of db = \<lparr>executions = executions db, stepRows = stepRows db, idCounter = idCounter db, stepQueue = [],
     orchestrationQueue = [], lifecycleEvents = [], responses = [], clock = 0\<rparr>"

theorem redelivery_is_a_no_op_witness:
  "stepReady_handle ex_host ''e'' ''0'' (world_of ex_planned_db) = (Inr (), world_of ex_planned_db)"
proof -
  have "map_option status (findStep ''0'' (world_of ex_planned_db)) = Some Completed" by code_simp
  then show ?thesis using redelivery_is_a_no_op [of "''0''" "world_of ex_planned_db" ex_host "''e''"] by auto
qed

text \<open>The ready handler announces a settlement exactly when it recorded one: from a world in which the
step has not settled, it either leaves the step unsettled and the orchestration queue as it was, or
it leaves the step settled and has appended the one message \<open>step:settled\<close> for it.\<close>

theorem ready_handler_announces_what_it_recorded:
  assumes "db_wf w" and "\<not> settled_row i w" and "w' = snd (stepReady_handle h e i w)"
  shows "(\<not> settled_row i w' \<and> orchestrationQueue w' = orchestrationQueue w)
    \<or> (settled_row i w' \<and> orchestrationQueue w' = orchestrationQueue w @ [StepSettled e i])"
  using stepReady_silent_or_announced [OF assms(1,2)] unfolding assms(3) silent_def announced_def by blast

definition ex_run_db :: database where
  "ex_run_db = ex_ready_db\<lparr>executions := [''e'' \<mapsto> ex_execution\<lparr>graph := ex_graph\<rparr>],
     stepRows := stepRows ex_ready_db @ [ex_ready_step\<lparr>status := Queued\<rparr>]\<rparr>"

theorem ready_handler_announces_what_it_recorded_witness:
  "orchestrationQueue (snd (stepReady_handle ex_host ''e'' ''2'' (world_of ex_run_db))) = [StepSettled ''e'' ''2'']"
proof -
  have wf: "db_wf (world_of ex_run_db)"
    by (simp add: db_wf_def world_of_def ex_run_db_def ex_ready_db_def ex_ready_step_def row_key_def row_ok_def)
  have queued: "map_option status (findStep ''2'' (world_of ex_run_db)) = Some Queued" by code_simp
  then have "\<not> settled_row ''2'' (world_of ex_run_db)" by (auto simp: settled_row_def)
  moreover have "map_option status (findStep ''2'' (snd (stepReady_handle ex_host ''e'' ''2'' (world_of ex_run_db)))) = Some Completed"
    by code_simp
  then have "settled_row ''2'' (snd (stepReady_handle ex_host ''e'' ''2'' (world_of ex_run_db)))"
    by (auto simp: settled_row_def)
  ultimately show ?thesis
    using ready_handler_announces_what_it_recorded [OF wf _ refl, of "''2''" ex_host "''e''"]
    by (simp add: world_of_def)
qed

text \<open>Planning creates rows and announces each of them exactly once: the rows it appends are queued or
skipped, it appends one \<open>step:ready\<close> per queued row to the step queue and one \<open>step:settled\<close> per
skipped row to the orchestration queue, and it returns the number of queued rows.\<close>

theorem planning_announces_what_it_created:
  assumes "planSuccessors h execution step w = (Inr n, w')"
  shows "\<exists>created. stepRows w' = stepRows w @ created
     \<and> stepQueue w' = stepQueue w @
         map (\<lambda>r. StepReady (exec_id execution) (step_id r)) (filter (\<lambda>r. status r = Queued) created)
     \<and> orchestrationQueue w' = orchestrationQueue w @
         map (\<lambda>r. StepSettled (exec_id execution) (step_id r)) (filter (\<lambda>r. status r = Skipped) created)
     \<and> n = length (filter (\<lambda>r. status r = Queued) created)
     \<and> (\<forall>r \<in> set created. executionId r = exec_id execution \<and> status r \<in> {Queued, Skipped})"
  by (rule planSuccessors_effect [OF assms])

theorem planning_announces_what_it_created_witness:
  "\<exists>created. stepRows (snd (planSuccessors ex_host (ex_execution\<lparr>graph := ex_graph\<rparr>) (hd (stepRows ex_ready_db)) (world_of ex_ready_db)))
     = stepRows ex_ready_db @ created \<and> length (filter (\<lambda>r. status r = Queued) created) = 1"
proof -
  let ?m = "planSuccessors ex_host (ex_execution\<lparr>graph := ex_graph\<rparr>) (hd (stepRows ex_ready_db)) (world_of ex_ready_db)"
  have "(case fst ?m of Inl _ \<Rightarrow> False | Inr n \<Rightarrow> n = 1)" by code_simp
  then have m: "?m = (Inr 1, snd ?m)" by (cases ?m; cases "fst ?m") auto
  from planning_announces_what_it_created [OF m] show ?thesis by (auto simp: world_of_def)
qed

text \<open>Starting an execution is all or nothing: a refusal (an invalid graph, the admittance policy, an id
that is taken) leaves the world as it was, and an acceptance returns the caller's id, leaves one queued
execution of the validated graph under it and publishes its one \<open>execution:enqueued\<close>.\<close>

theorem start_is_all_or_nothing:
  "(case startService h request w of
      (Inl err, w') \<Rightarrow> w' = w
    | (Inr i, w') \<Rightarrow>
        i = start_executionId request \<and> validateExecutableGraph (start_graph request) = Inr ()
        \<and> admittance h (start_workflowId request) = None \<and> executions w i = None
        \<and> (\<exists>x. executions w' = (executions w)(i \<mapsto> x) \<and> exec_id x = i \<and> exec_status x = EQueued
             \<and> graph x = start_graph request)
        \<and> stepRows w' = stepRows w \<and> orchestrationQueue w' = orchestrationQueue w @ [ExecutionEnqueued i])"
  unfolding startService_effect by (auto split: sum.split option.split)

section \<open>Runs of the engine\<close>

text \<open>C1: In every run of the engine, whatever requests arrive and however the messages of both queues are
lost, repeated or reordered: an execution that is recorded as completed has a settled row for every
step it owes and no other row, and none of its steps failed.\<close>

theorem completed_executions_owe_nothing:
  assumes "(engine_step h)\<^sup>*\<^sup>* (initial_world now) w"
    and "executions w e = Some x" and "exec_status x = ECompleted"
  shows "(\<exists>ti. keyOf ` set (executionRows e w) = owed_keys (deriveLoops (graph x)) (reach (graph x)) ti)
    \<and> (\<forall>r \<in> set (executionRows e w). isSettledStatus (status r) \<and> status r \<noteq> Failed)"
proof -
  have "completed_ok w" using engine_run_inv [OF assms(1)] run_invD by blast
  with assms(2,3) obtain ti where "all_owed_settled e (graph x) ti w" and "\<not> hasFailedSteps e w"
    unfolding completed_ok_def by blast
  then show ?thesis
    unfolding all_owed_settled_def hasFailedSteps_def executionRows_def by auto
qed

definition ex_request :: start_request where
  "ex_request = \<lparr>start_workflowId = ''w'', start_graph = ex_single, start_workflow = JNull,
     start_triggerOutputs = Some [JNull], start_mode = None,
     start_callerContext = \<lparr>userId = None, projectId = None, hostMode = ''webhook''\<rparr>, start_executionId = ''e''\<rparr>"

definition ex_world1 :: world where
  "ex_world1 = snd (startService ex_host ex_request (initial_world 0))"

definition ex_world2 :: world where
  "ex_world2 = snd (orchestrationWorker ex_host (ExecutionEnqueued ''e'') (ex_world1\<lparr>orchestrationQueue := []\<rparr>))"

definition ex_world3 :: world where
  "ex_world3 = snd (orchestrationWorker ex_host (StepSettled ''e'' ''0'') (ex_world2\<lparr>orchestrationQueue := []\<rparr>))"

lemma ex_run: "(engine_step ex_host)\<^sup>*\<^sup>* (initial_world 0) ex_world3"
proof -
  have 1: "engine_step ex_host (initial_world 0) ex_world1"
    unfolding ex_world1_def by (rule engine_step.start)
  have m2: "ExecutionEnqueued ''e'' \<in> set (orchestrationQueue ex_world1)" by code_simp
  have 2: "engine_step ex_host ex_world1 ex_world2"
    unfolding ex_world2_def by (rule engine_step.orchestrate [OF m2]) simp
  have m3: "StepSettled ''e'' ''0'' \<in> set (orchestrationQueue ex_world2)" by code_simp
  have 3: "engine_step ex_host ex_world2 ex_world3"
    unfolding ex_world3_def by (rule engine_step.orchestrate [OF m3]) simp
  from 1 2 3 show ?thesis by (meson converse_rtranclp_into_rtranclp r_into_rtranclp)
qed

theorem completed_executions_owe_nothing_witness:
  "list_all (\<lambda>r. isSettledStatus (status r) \<and> status r \<noteq> Failed) (executionRows ''e'' ex_world3)"
proof -
  have "map_option exec_status (executions ex_world3 ''e'') = Some ECompleted" by code_simp
  then obtain x where x: "executions ex_world3 ''e'' = Some x" "exec_status x = ECompleted" by auto
  show ?thesis using completed_executions_owe_nothing [OF ex_run x] unfolding list_all_iff by blast
qed



end
