(* ===== verification/JsMaps.thy ===== *)
theory JsMaps
  imports EnginePrelude
begin

text \<open>
  The JavaScript collections the partial-execution code mutates: \<open>Map\<close> and plain objects
  used as dictionaries (insertion-ordered association lists without a repeated key),
  arrays written at an index past their end, and \<open>for\<close> loops whose body threads a
  state and may throw.
\<close>

section \<open>Maps\<close>

type_synonym ('k, 'v) js_map = "('k \<times> 'v) list"

abbreviation jm_get :: "('k, 'v) js_map \<Rightarrow> 'k \<Rightarrow> 'v option" where
  "jm_get \<equiv> map_of"

abbreviation jm_has :: "('k, 'v) js_map \<Rightarrow> 'k \<Rightarrow> bool" where
  "jm_has m k \<equiv> k \<in> set (map fst m)"

abbreviation jm_values :: "('k, 'v) js_map \<Rightarrow> 'v list" where
  "jm_values m \<equiv> map snd m"

text \<open>\<open>Map.set\<close>: a key that is present keeps its position and gets the new value.\<close>

fun jm_set :: "('k, 'v) js_map \<Rightarrow> 'k \<Rightarrow> 'v \<Rightarrow> ('k, 'v) js_map" where
  "jm_set [] k v = [(k, v)]"
| "jm_set ((k', v') # m) k v = (if k' = k then (k, v) # m else (k', v') # jm_set m k v)"

definition jm_delete :: "('k, 'v) js_map \<Rightarrow> 'k \<Rightarrow> ('k, 'v) js_map" where
  "jm_delete m k = filter (\<lambda>(k', _). k' \<noteq> k) m"

lemma map_of_jm_set [simp]: "map_of (jm_set m k v) = (map_of m)(k \<mapsto> v)"
  by (induction m k v rule: jm_set.induct) auto

lemma keys_jm_set [simp]: "fst ` set (jm_set m k v) = insert k (fst ` set m)"
  by (induction m k v rule: jm_set.induct) auto

lemma distinct_jm_set [simp]:
  "distinct (map fst m) \<Longrightarrow> distinct (map fst (jm_set m k v))"
proof (induction m k v rule: jm_set.induct)
  case (2 k' v' m k v)
  then show ?case using keys_jm_set [of m k v] by (auto simp del: keys_jm_set)
qed simp

lemma set_jm_set:
  "distinct (map fst m) \<Longrightarrow> set (jm_set m k v) = {(k', v') \<in> set m. k' \<noteq> k} \<union> {(k, v)}"
  by (induction m k v rule: jm_set.induct) (auto simp: rev_image_eqI)

lemma jm_set_new: "k \<notin> fst ` set m \<Longrightarrow> jm_set m k v = m @ [(k, v)]"
  by (induction m k v rule: jm_set.induct) auto

lemma jm_set_same: "map_of m k = Some v \<Longrightarrow> jm_set m k v = m"
  by (induction m k v rule: jm_set.induct) (auto split: if_splits)

lemma set_jm_delete [simp]: "set (jm_delete m k) = {(k', v') \<in> set m. k' \<noteq> k}"
  by (auto simp: jm_delete_def)

lemma map_of_jm_delete [simp]: "map_of (jm_delete m k) = (map_of m)(k := None)"
  by (induction m) (auto simp: jm_delete_def fun_eq_iff)

lemma distinct_filter_keys: "distinct (map fst m) \<Longrightarrow> distinct (map fst (filter P m))"
  by (induction m) auto

lemma distinct_jm_delete [simp]:
  "distinct (map fst m) \<Longrightarrow> distinct (map fst (jm_delete m k))"
  by (simp add: jm_delete_def distinct_filter_keys)

lemma value_iff: "v \<in> snd ` set m \<longleftrightarrow> (\<exists>k. (k, v) \<in> set m)"
  by force

lemma set_jm_values_get: "map_of m k = Some v \<Longrightarrow> v \<in> snd ` set m"
  by (drule map_of_SomeD) force

section \<open>Arrays\<close>

text \<open>
  Writing \<open>xs[i] = v\<close> extends the array with holes when \<open>i\<close> is past its end; a hole
  and an entry read as \<open>undefined\<close> are \<open>None\<close>.
\<close>

definition arr_get :: "'a option list \<Rightarrow> nat \<Rightarrow> 'a option" where
  "arr_get xs i = (if i < length xs then xs ! i else None)"

definition arr_set :: "'a option list \<Rightarrow> nat \<Rightarrow> 'a \<Rightarrow> 'a option list" where
  "arr_set xs i v = (xs @ replicate (Suc i - length xs) None)[i := Some v]"

lemma arr_get_set [simp]: "arr_get (arr_set xs i v) j = (if j = i then Some v else arr_get xs j)"
  by (auto simp: arr_get_def arr_set_def nth_append nth_list_update)

lemma length_arr_set [simp]: "length (arr_set xs i v) = max (length xs) (Suc i)"
  by (auto simp: arr_set_def)

text \<open>\<open>xs.at(i)\<close>: a negative index counts from the end.\<close>

definition js_at :: "'a list \<Rightarrow> int \<Rightarrow> 'a option" where
  "js_at xs i =
     (let j = (if i < 0 then int (length xs) + i else i)
      in if 0 \<le> j \<and> j < int (length xs) then Some (xs ! nat j) else None)"

lemma js_at_of_nat [simp]: "js_at xs (int i) = (if i < length xs then Some (xs ! i) else None)"
  by (simp add: js_at_def)

lemma js_at_minus_one [simp]: "js_at xs (- 1) = (if xs = [] then None else Some (last xs))"
  by (auto simp: js_at_def last_conv_nth nat_minus_as_int)

section \<open>Loops that may throw\<close>

lemma rbind_cong [fundef_cong]:
  "r = r' \<Longrightarrow> (\<And>a. r' = Inr a \<Longrightarrow> f a = g a) \<Longrightarrow> rbind r f = rbind r' g"
  by (cases r') simp_all

lemma rbind_Inl_iff: "rbind r f = Inl e \<longleftrightarrow> r = Inl e \<or> (\<exists>a. r = Inr a \<and> f a = Inl e)"
  by (cases r) auto

fun foldE :: "('a \<Rightarrow> 's \<Rightarrow> 'e + 's) \<Rightarrow> 'a list \<Rightarrow> 's \<Rightarrow> 'e + 's" where
  "foldE f [] s = Inr s"
| "foldE f (x # xs) s = rbind (f x s) (foldE f xs)"

lemma foldE_append: "foldE f (xs @ ys) s = rbind (foldE f xs s) (foldE f ys)"
proof (induction xs arbitrary: s)
  case (Cons x xs)
  then show ?case by (cases "f x s") simp_all
qed simp

text \<open>An invariant of the body under which it does not throw is one of the loop.\<close>

lemma foldE_ok:
  assumes "I s" and "\<And>x s. x \<in> set xs \<Longrightarrow> I s \<Longrightarrow> \<exists>s'. f x s = Inr s' \<and> I s'"
  shows "\<exists>s'. foldE f xs s = Inr s' \<and> I s'"
  using assms
proof (induction xs arbitrary: s)
  case (Cons x xs)
  obtain s' where s': "f x s = Inr s'" "I s'" using Cons.prems by fastforce
  moreover have "\<exists>s''. foldE f xs s' = Inr s'' \<and> I s''"
    using Cons.IH [OF s'(2)] Cons.prems(2) by simp
  ultimately show ?case by simp
qed simp

lemma foldE_invariant:
  assumes "foldE f xs s = Inr s'" and "I s"
    and "\<And>x s t. x \<in> set xs \<Longrightarrow> I s \<Longrightarrow> f x s = Inr t \<Longrightarrow> I t"
  shows "I s'"
  using assms
proof (induction xs arbitrary: s)
  case (Cons x xs)
  then obtain t where t: "f x s = Inr t" "foldE f xs t = Inr s'" by (auto simp: rbind_Inr_iff)
  have "I t" by (rule Cons.prems(3) [OF _ Cons.prems(2) t(1)]) simp
  show ?case
  proof (rule Cons.IH [OF t(2) \<open>I t\<close>])
    fix y u w
    assume "y \<in> set xs" and "I u" and "f y u = Inr w"
    then show "I w" using Cons.prems(3) [of y u w] by simp
  qed
qed simp

lemma foldE_cong [fundef_cong]:
  "xs = ys \<Longrightarrow> s = t \<Longrightarrow> (\<And>x u. x \<in> set ys \<Longrightarrow> f x u = g x u) \<Longrightarrow> foldE f xs s = foldE g ys t"
proof (induction ys arbitrary: xs s t)
  case (Cons y ys)
  then show ?case by (cases "g y t") simp_all
qed simp

text \<open>A body that cannot throw.\<close>

lemma foldE_Inr: "foldE (\<lambda>x s. Inr (f x s)) xs s = Inr (foldl (\<lambda>s x. f x s) s xs)"
  by (induction xs arbitrary: s) simp_all

end
