(* ===== verification/DirectedGraph.thy ===== *)
theory DirectedGraph
  imports JsMaps
begin

text \<open>
  The editable workflow graph of partial executions
  (\<open>packages/core/src/execution-engine/partial-execution-utils/directed-graph.ts\<close>):
  nodes and connections are insertion-ordered maps, the node map keyed by name and the
  connection map by the string \<open>makeKey\<close> builds. The code compares nodes with
  \<open>===\<close>, so a node carries the identity of its object; two nodes with the same
  contents and different identities are different nodes of the graph.

  A failing \<open>assert.ok\<close> and a \<open>TypeError\<close> are values of \<open>assertion\<close>.
\<close>

section \<open>Nodes and connections\<close>

record node =
  n_ident :: nat
  n_name :: string
  n_type :: string
  n_typeVersion :: js_number
  n_disabled :: bool

type_synonym connection_type = string

definition Main :: connection_type where
  "Main = ''main''"

record connection =
  c_from :: node
  c_to :: node
  c_type :: connection_type
  c_outputIndex :: nat
  c_inputIndex :: nat

record digraph =
  g_nodes :: "(string, node) js_map"
  g_connections :: "(string, connection) js_map"

datatype assertion =
    NodeNotInGraph string
  | SourceNotInGraph string
  | TargetNotInGraph string
  | UnknownNode string
  | UndefinedProperty string
  | ContainsDisabledNode string
  | NoIncomingData string string
  | CycleNotConnected

definition emptyGraph :: digraph where
  "emptyGraph = \<lparr>g_nodes = [], g_connections = []\<rparr>"

text \<open>The key of a connection: its parts joined with hyphens.\<close>

definition makeKey :: "connection \<Rightarrow> string" where
  "makeKey c =
     n_name (c_from c) @ ''-'' @ c_type c @ ''-'' @ nat_to_string (c_outputIndex c) @ ''-'' @
     nat_to_string (c_inputIndex c) @ ''-'' @ n_name (c_to c)"

section \<open>Queries\<close>

definition hasNode :: "digraph \<Rightarrow> string \<Rightarrow> bool" where
  "hasNode g k = jm_has (g_nodes g) k"

definition getNodes :: "digraph \<Rightarrow> node list" where
  "getNodes g = jm_values (g_nodes g)"

definition getNodesByNames :: "digraph \<Rightarrow> string list \<Rightarrow> node list" where
  "getNodesByNames g ks =
     foldl (\<lambda>acc k. case jm_get (g_nodes g) k of None \<Rightarrow> acc | Some n \<Rightarrow> set_add n acc) [] ks"

definition getConnections :: "digraph \<Rightarrow> node option \<Rightarrow> connection list" where
  "getConnections g target =
     filter (\<lambda>c. case target of None \<Rightarrow> True | Some n \<Rightarrow> c_to c = n) (jm_values (g_connections g))"

text \<open>\<open>this.nodes.get(node.name) === node\<close>.\<close>

definition isMember :: "digraph \<Rightarrow> node \<Rightarrow> bool" where
  "isMember g n \<longleftrightarrow> jm_get (g_nodes g) (n_name n) = Some n"

definition getDirectChildConnections :: "digraph \<Rightarrow> node \<Rightarrow> assertion + connection list" where
  "getDirectChildConnections g n =
     (if isMember g n then Inr (filter (\<lambda>c. c_from c = n) (jm_values (g_connections g)))
      else Inl (NodeNotInGraph (n_name n)))"

definition getDirectParentConnections :: "digraph \<Rightarrow> node \<Rightarrow> assertion + connection list" where
  "getDirectParentConnections g n =
     (if isMember g n then Inr (filter (\<lambda>c. c_to c = n) (jm_values (g_connections g)))
      else Inl (NodeNotInGraph (n_name n)))"

definition getConnection ::
  "digraph \<Rightarrow> node \<Rightarrow> nat \<Rightarrow> connection_type \<Rightarrow> nat \<Rightarrow> node \<Rightarrow> connection option" where
  "getConnection g source outputIndex ty inputIndex target =
     jm_get (g_connections g)
       (makeKey \<lparr>c_from = source, c_to = target, c_type = ty,
                 c_outputIndex = outputIndex, c_inputIndex = inputIndex\<rparr>)"

section \<open>Building a graph\<close>

definition addNode :: "node \<Rightarrow> digraph \<Rightarrow> digraph" where
  "addNode n g = g\<lparr>g_nodes := jm_set (g_nodes g) (n_name n) n\<rparr>"

definition addNodes :: "node list \<Rightarrow> digraph \<Rightarrow> digraph" where
  "addNodes ns g = foldl (\<lambda>g n. addNode n g) g ns"

text \<open>The optional fields of the argument default to the first main output and input.\<close>

record connection_input =
  i_from :: node
  i_to :: node
  i_type :: "connection_type option"
  i_outputIndex :: "nat option"
  i_inputIndex :: "nat option"

definition withDefaults :: "connection_input \<Rightarrow> connection" where
  "withDefaults i =
     \<lparr>c_from = i_from i, c_to = i_to i,
      c_type = (case i_type i of None \<Rightarrow> Main | Some t \<Rightarrow> t),
      c_outputIndex = (case i_outputIndex i of None \<Rightarrow> 0 | Some k \<Rightarrow> k),
      c_inputIndex = (case i_inputIndex i of None \<Rightarrow> 0 | Some k \<Rightarrow> k)\<rparr>"

definition putConnection :: "connection \<Rightarrow> digraph \<Rightarrow> digraph" where
  "putConnection c g = g\<lparr>g_connections := jm_set (g_connections g) (makeKey c) c\<rparr>"

definition addConnection :: "connection_input \<Rightarrow> digraph \<Rightarrow> assertion + digraph" where
  "addConnection i g =
     (if \<not> isMember g (i_from i) then Inl (SourceNotInGraph (n_name (i_from i)))
      else if \<not> isMember g (i_to i) then Inl (TargetNotInGraph (n_name (i_to i)))
      else Inr (putConnection (withDefaults i) g))"

definition addConnections :: "connection_input list \<Rightarrow> digraph \<Rightarrow> assertion + digraph" where
  "addConnections = foldE addConnection"

text \<open>A complete connection passed where the optional fields are allowed.\<close>

definition asInput :: "connection \<Rightarrow> connection_input" where
  "asInput c =
     \<lparr>i_from = c_from c, i_to = c_to c, i_type = Some (c_type c),
      i_outputIndex = Some (c_outputIndex c), i_inputIndex = Some (c_inputIndex c)\<rparr>"

definition clone :: "digraph \<Rightarrow> assertion + digraph" where
  "clone g = addConnections (map asInput (getConnections g None)) (addNodes (getNodes g) emptyGraph)"

section \<open>Removing a node\<close>

definition touches :: "node \<Rightarrow> connection \<Rightarrow> bool" where
  "touches n c \<longleftrightarrow> c_to c = n \<or> c_from c = n"

definition dropNode :: "node \<Rightarrow> digraph \<Rightarrow> digraph" where
  "dropNode n g =
     \<lparr>g_nodes = jm_delete (g_nodes g) (n_name n),
      g_connections = filter (\<lambda>(_, c). \<not> touches n c) (g_connections g)\<rparr>"

text \<open>Every kept incoming connection is joined with every kept outgoing one.\<close>

definition bridge :: "connection \<Rightarrow> connection \<Rightarrow> connection" where
  "bridge incoming outgoing =
     incoming\<lparr>c_to := c_to outgoing, c_inputIndex := c_inputIndex outgoing\<rparr>"

definition bridges ::
  "(connection \<Rightarrow> bool) \<Rightarrow> connection list \<Rightarrow> connection list \<Rightarrow> connection list" where
  "bridges skip ins outs =
     concat (map (\<lambda>i. if skip i then []
                      else map (bridge i) (filter (\<lambda>out. \<not> skip out) outs)) ins)"

text \<open>
  The reconnecting branch deletes the connections of the node, adds the bridges and then
  deletes the node; it returns the bridges. The other branch is \<open>dropNode\<close>.
\<close>

definition removeNode ::
  "node \<Rightarrow> bool \<Rightarrow> (connection \<Rightarrow> bool) \<Rightarrow> digraph \<Rightarrow> assertion + digraph \<times> connection list" where
  "removeNode n reconnect skip g =
     (if reconnect then
        rbind (getDirectParentConnections g n) (\<lambda>ins.
        rbind (getDirectChildConnections g n) (\<lambda>outs.
        let new = bridges skip ins outs;
            kept = filter (\<lambda>(_, c). \<not> touches n c) (g_connections g)
        in Inr (\<lparr>g_nodes = jm_delete (g_nodes g) (n_name n),
                 g_connections = foldl (\<lambda>m c. jm_set m (makeKey c) c) kept new\<rparr>, new)))
      else Inr (dropNode n g, []))"

section \<open>The nested format of workflows\<close>

text \<open>
  \<open>IConnections\<close>: for every source node, for every output type, a list of outputs, each
  with its targets or \<open>null\<close>. The lists of pairs are the entries in the order
  \<open>Object.entries\<close> gives them.
\<close>

record iconnection =
  ic_node :: string
  ic_type :: connection_type
  ic_index :: nat

type_synonym outputs_of = "iconnection list option list"
type_synonym iconnections = "(string, (connection_type, outputs_of) js_map) js_map"

record flow =
  f_nodes :: "(string, node) js_map"
  f_connectionsBySourceNode :: iconnections
  f_pinData :: "string list"

definition addTargets ::
  "(string \<Rightarrow> node option) \<Rightarrow> node \<Rightarrow> connection_type \<Rightarrow> nat \<Rightarrow> iconnection \<Rightarrow> digraph
     \<Rightarrow> assertion + digraph" where
  "addTargets lookup source ty outputIndex conn g =
     (case lookup (ic_node conn) of
        None \<Rightarrow> Inl (UnknownNode (ic_node conn))
      | Some target \<Rightarrow>
          addConnection \<lparr>i_from = source, i_to = target, i_type = Some ty,
                         i_outputIndex = Some outputIndex, i_inputIndex = Some (ic_index conn)\<rparr> g)"

definition addIConnections ::
  "(string \<Rightarrow> node option) \<Rightarrow> iconnections \<Rightarrow> digraph \<Rightarrow> assertion + digraph" where
  "addIConnections lookup =
     foldE (\<lambda>(fromName, iConnection) g.
       case lookup fromName of
         None \<Rightarrow> Inl (UnknownNode fromName)
       | Some source \<Rightarrow>
           foldE (\<lambda>(outputType, outs) g.
             foldE (\<lambda>(outputIndex, conns) g.
               foldE (addTargets lookup source outputType outputIndex)
                 (case conns of None \<Rightarrow> [] | Some cs \<Rightarrow> cs) g)
               (enumerate 0 outs) g)
             iConnection g)"

definition fromWorkflow :: "flow \<Rightarrow> assertion + digraph" where
  "fromWorkflow w =
     addIConnections (jm_get (f_nodes w)) (f_connectionsBySourceNode w)
       (addNodes (jm_values (f_nodes w)) emptyGraph)"

definition fromNodesAndConnections :: "node list \<Rightarrow> iconnections \<Rightarrow> assertion + digraph" where
  "fromNodesAndConnections ns cs =
     (let nodeMap = foldl (\<lambda>m n. jm_set m (n_name n) n) [] ns
      in addIConnections (jm_get nodeMap) cs (addNodes ns emptyGraph))"

text \<open>
  Exporting: the entry of a source is created with the type of its first connection only,
  so the property of a second type is \<open>undefined\<close> and indexing it is a
  \<open>TypeError\<close>.
\<close>

definition exportConnection :: "connection \<Rightarrow> iconnections \<Rightarrow> assertion + iconnections" where
  "exportConnection c result =
     (let source = n_name (c_from c);
          entry = (case jm_get result source of None \<Rightarrow> [(c_type c, [])] | Some e \<Rightarrow> e)
      in case jm_get entry (c_type c) of
           None \<Rightarrow> Inl (UndefinedProperty (c_type c))
         | Some outs \<Rightarrow>
             let group = (case arr_get outs (c_outputIndex c) of None \<Rightarrow> [] | Some cs \<Rightarrow> cs);
                 item = \<lparr>ic_node = n_name (c_to c), ic_type = c_type c, ic_index = c_inputIndex c\<rparr>
             in Inr (jm_set result source
                      (jm_set entry (c_type c) (arr_set outs (c_outputIndex c) (group @ [item])))))"

definition toIConnections :: "digraph \<Rightarrow> assertion + iconnections" where
  "toIConnections g = foldE exportConnection (jm_values (g_connections g)) []"

end
