(* ===== verification/GraphShape.thy ===== *)
theory GraphShape
  imports DirectedGraph
begin

text \<open>
  The type invariant of the editable graph: names and keys agree with the values they
  lead to, and both ends of a connection are nodes of the graph (by identity). Every
  operation is characterised by its effect on the set of nodes and the set of
  connections.
\<close>

section \<open>The invariant\<close>

definition members :: "digraph \<Rightarrow> node set" where
  "members g = set (getNodes g)"

definition conns :: "digraph \<Rightarrow> connection set" where
  "conns g = set (jm_values (g_connections g))"

lemma connsI: "(k, c) \<in> set (g_connections g) \<Longrightarrow> c \<in> conns g"
  by (auto simp: conns_def value_iff)

definition wf_graph :: "digraph \<Rightarrow> bool" where
  "wf_graph g \<longleftrightarrow>
     distinct (map fst (g_nodes g)) \<and> distinct (map fst (g_connections g)) \<and>
     list_all (\<lambda>(k, n). k = n_name n) (g_nodes g) \<and>
     list_all (\<lambda>(k, c). k = makeKey c \<and> isMember g (c_from c) \<and> isMember g (c_to c))
       (g_connections g)"

lemma wf_graphD:
  assumes "wf_graph g"
  shows "distinct (map fst (g_nodes g))" "distinct (map fst (g_connections g))"
    and "(k, n) \<in> set (g_nodes g) \<Longrightarrow> k = n_name n"
    and "(k, c) \<in> set (g_connections g) \<Longrightarrow> k = makeKey c"
    and "c \<in> conns g \<Longrightarrow> isMember g (c_from c)" "c \<in> conns g \<Longrightarrow> isMember g (c_to c)"
  using assms by (auto simp: wf_graph_def list_all_iff conns_def)

lemma isMember_iff: "wf_graph g \<Longrightarrow> isMember g n \<longleftrightarrow> n \<in> members g"
proof
  assume wf: "wf_graph g" and "n \<in> members g"
  then obtain k where k: "(k, n) \<in> set (g_nodes g)" by (auto simp: members_def getNodes_def)
  with wf_graphD(3) [OF wf] have "k = n_name n" by blast
  with k show "isMember g n" using wf_graphD(1) [OF wf] by (simp add: isMember_def)
qed (auto simp: isMember_def members_def getNodes_def dest: map_of_SomeD set_jm_values_get)

lemma members_name_inj:
  "wf_graph g \<Longrightarrow> a \<in> members g \<Longrightarrow> b \<in> members g \<Longrightarrow> n_name a = n_name b \<Longrightarrow> a = b"
  using isMember_iff [of g a] isMember_iff [of g b] by (simp add: isMember_def)

lemma getNodes_distinct: "wf_graph g \<Longrightarrow> distinct (getNodes g)"
proof -
  assume wf: "wf_graph g"
  have "map fst (g_nodes g) = map n_name (getNodes g)"
    using wf_graphD(3) [OF wf] by (auto simp: getNodes_def)
  then show ?thesis using wf_graphD(1) [OF wf] by (metis distinct_map)
qed

lemma getNodes_keys: "wf_graph g \<Longrightarrow> g_nodes g = map (\<lambda>n. (n_name n, n)) (getNodes g)"
  using wf_graphD(3) [of g] by (auto simp: getNodes_def intro!: nth_equalityI)
     (metis fst_conv nth_mem prod.collapse)

lemma hasNode_iff: "wf_graph g \<Longrightarrow> hasNode g k \<longleftrightarrow> k \<in> n_name ` members g"
  by (subst hasNode_def, subst getNodes_keys) (auto simp: members_def image_iff)

lemma conn_ends [dest]:
  "wf_graph g \<Longrightarrow> c \<in> conns g \<Longrightarrow> c_from c \<in> members g \<and> c_to c \<in> members g"
  using wf_graphD(5,6) [of g c] isMember_iff [of g] by simp

lemma conns_key: "wf_graph g \<Longrightarrow> c \<in> conns g \<longleftrightarrow> jm_get (g_connections g) (makeKey c) = Some c"
  using wf_graphD(2,4) [of g] by (auto simp: conns_def value_iff dest: map_of_SomeD)

lemma conns_keys_distinct: "wf_graph g \<Longrightarrow> inj_on makeKey (conns g)"
  by (rule inj_onI) (simp add: conns_key)

section \<open>Queries\<close>

lemma getDirectChildConnections_ok:
  "wf_graph g \<Longrightarrow> n \<in> members g \<Longrightarrow>
     getDirectChildConnections g n = Inr (filter (\<lambda>c. c_from c = n) (jm_values (g_connections g)))"
  by (simp add: getDirectChildConnections_def isMember_iff)

lemma getDirectChildConnections_InrD:
  "getDirectChildConnections g n = Inr cs \<Longrightarrow> set cs = {c \<in> conns g. c_from c = n}"
  by (auto simp: getDirectChildConnections_def conns_def value_iff split: if_splits)

lemma getDirectParentConnections_ok:
  "wf_graph g \<Longrightarrow> n \<in> members g \<Longrightarrow>
     getDirectParentConnections g n = Inr (filter (\<lambda>c. c_to c = n) (jm_values (g_connections g)))"
  by (simp add: getDirectParentConnections_def isMember_iff)

lemma getDirectParentConnections_InrD:
  "getDirectParentConnections g n = Inr cs \<Longrightarrow> set cs = {c \<in> conns g. c_to c = n}"
  by (auto simp: getDirectParentConnections_def conns_def value_iff split: if_splits)

lemma getDirectChildConnections_set:
  assumes "wf_graph g" and "n \<in> members g"
  obtains cs where "getDirectChildConnections g n = Inr cs" "set cs = {c \<in> conns g. c_from c = n}"
  using getDirectChildConnections_ok [OF assms] getDirectChildConnections_InrD by blast

lemma getDirectParentConnections_set:
  assumes "wf_graph g" and "n \<in> members g"
  obtains cs where "getDirectParentConnections g n = Inr cs" "set cs = {c \<in> conns g. c_to c = n}"
  using getDirectParentConnections_ok [OF assms] getDirectParentConnections_InrD by blast

lemma set_getConnections [simp]:
  "set (getConnections g None) = conns g"
  "set (getConnections g (Some n)) = {c \<in> conns g. c_to c = n}"
  by (auto simp: getConnections_def conns_def value_iff)

lemma getNodesByNames_aux:
  "set (foldl (\<lambda>acc k. case jm_get m k of None \<Rightarrow> acc | Some n \<Rightarrow> set_add n acc) acc ks)
     = set acc \<union> {n. \<exists>k \<in> set ks. jm_get m k = Some n}"
  by (induction ks arbitrary: acc) (auto split: option.splits)

lemma set_getNodesByNames:
  "wf_graph g \<Longrightarrow> set (getNodesByNames g ks) = {n \<in> members g. n_name n \<in> set ks}"
proof -
  assume wf: "wf_graph g"
  have "jm_get (g_nodes g) k = Some n \<longleftrightarrow> n \<in> members g \<and> n_name n = k" for k n
    using isMember_iff [OF wf, of n] wf_graphD(3) [OF wf]
    by (auto simp: isMember_def dest: map_of_SomeD)
  then show ?thesis by (auto simp: getNodesByNames_def getNodesByNames_aux)
qed

section \<open>Building\<close>

lemma wf_emptyGraph [simp]: "wf_graph emptyGraph"
  by (simp add: wf_graph_def emptyGraph_def)

lemma empty_sets [simp]: "members emptyGraph = {}" "conns emptyGraph = {}"
  by (simp_all add: members_def getNodes_def conns_def emptyGraph_def)

text \<open>A node may be added when its name is free or already its own.\<close>

definition fits :: "digraph \<Rightarrow> node \<Rightarrow> bool" where
  "fits g n \<longleftrightarrow> (\<forall>m \<in> members g. n_name m = n_name n \<longrightarrow> m = n)"

lemma fits_get: "wf_graph g \<Longrightarrow> fits g n \<Longrightarrow> jm_get (g_nodes g) (n_name n) \<in> {None, Some n}"
proof (cases "jm_get (g_nodes g) (n_name n)")
  case (Some m)
  assume wf: "wf_graph g" and "fits g n"
  from Some wf have "m \<in> members g" "n_name m = n_name n"
    using wf_graphD(3) [OF wf] by (auto simp: members_def getNodes_def dest!: map_of_SomeD)
       (force simp: image_iff)+
  with Some \<open>fits g n\<close> show ?thesis by (auto simp: fits_def)
qed simp

lemma conns_addNode [simp]: "conns (addNode n g) = conns g"
  by (simp add: conns_def addNode_def)

lemma wf_addNode:
  assumes wf: "wf_graph g" and fits: "fits g n"
  shows "wf_graph (addNode n g)" "members (addNode n g) = insert n (members g)"
proof -
  have dk: "distinct (map fst (g_nodes g))" by (rule wf_graphD(1) [OF wf])
  have stays: "isMember (addNode n g) m" if "isMember g m" for m
    using that fits_get [OF wf fits] by (auto simp: isMember_def addNode_def)
  show "wf_graph (addNode n g)"
    unfolding wf_graph_def
  proof (intro conjI)
    show "distinct (map fst (g_nodes (addNode n g)))" using dk by (simp add: addNode_def)
    show "distinct (map fst (g_connections (addNode n g)))"
      using wf_graphD(2) [OF wf] by (simp add: addNode_def)
    show "list_all (\<lambda>(k, n). k = n_name n) (g_nodes (addNode n g))"
      using wf_graphD(3) [OF wf] dk by (auto simp: list_all_iff addNode_def set_jm_set)
    show "list_all (\<lambda>(k, c). k = makeKey c \<and> isMember (addNode n g) (c_from c)
        \<and> isMember (addNode n g) (c_to c)) (g_connections (addNode n g))"
      using wf stays by (auto simp: list_all_iff wf_graph_def addNode_def)
  qed
  show "members (addNode n g) = insert n (members g)"
  proof (cases "jm_get (g_nodes g) (n_name n)")
    case None
    then have "g_nodes (addNode n g) = g_nodes g @ [(n_name n, n)]"
      by (simp add: addNode_def jm_set_new map_of_eq_None_iff)
    then show ?thesis by (auto simp: members_def getNodes_def)
  next
    case (Some m)
    with fits_get [OF wf fits] have m: "jm_get (g_nodes g) (n_name n) = Some n" by simp
    then have "addNode n g = g" by (simp add: addNode_def jm_set_same)
    moreover from m have "n \<in> members g"
      using isMember_iff [OF wf] by (simp add: isMember_def)
    ultimately show ?thesis by auto
  qed
qed

lemma wf_addNodes:
  assumes "wf_graph g"
    and "\<And>a b. a \<in> members g \<union> set ns \<Longrightarrow> b \<in> set ns \<Longrightarrow> n_name a = n_name b \<Longrightarrow> a = b"
  shows "wf_graph (addNodes ns g) \<and> members (addNodes ns g) = members g \<union> set ns
       \<and> conns (addNodes ns g) = conns g"
  using assms
proof (induction ns arbitrary: g)
  case Nil
  then show ?case by (simp add: addNodes_def)
next
  case (Cons n ns)
  have fits: "fits g n" unfolding fits_def using Cons.prems(2) by auto
  note step = wf_addNode [OF Cons.prems(1) fits]
  have "wf_graph (addNodes ns (addNode n g))
      \<and> members (addNodes ns (addNode n g)) = members (addNode n g) \<union> set ns
      \<and> conns (addNodes ns (addNode n g)) = conns (addNode n g)"
    by (rule Cons.IH [OF step(1)]) (use Cons.prems(2) step(2) in auto)
  then show ?case using step(2) by (auto simp: addNodes_def)
qed

lemma addNode_member: "wf_graph g \<Longrightarrow> n \<in> members g \<Longrightarrow> addNode n g = g"
  using isMember_iff [of g n] by (simp add: isMember_def addNode_def jm_set_same)

lemma isMember_putConnection [simp]: "isMember (putConnection c g) n = isMember g n"
  by (simp add: isMember_def putConnection_def)

lemma members_putConnection [simp]: "members (putConnection c g) = members g"
  by (simp add: members_def getNodes_def putConnection_def)

lemma wf_putConnection:
  assumes wf: "wf_graph g" and ends: "c_from c \<in> members g" "c_to c \<in> members g"
  shows "wf_graph (putConnection c g)"
    and "conns (putConnection c g) = {c' \<in> conns g. makeKey c' \<noteq> makeKey c} \<union> {c}"
proof -
  have dk: "distinct (map fst (g_connections g))" by (rule wf_graphD(2) [OF wf])
  have mem: "isMember g (c_from c)" "isMember g (c_to c)" using ends isMember_iff [OF wf] by auto
  show "wf_graph (putConnection c g)"
    unfolding wf_graph_def
  proof (intro conjI)
    show "distinct (map fst (g_nodes (putConnection c g)))"
      using wf_graphD(1) [OF wf] by (simp add: putConnection_def)
    show "distinct (map fst (g_connections (putConnection c g)))"
      using dk by (simp add: putConnection_def)
    show "list_all (\<lambda>(k, n). k = n_name n) (g_nodes (putConnection c g))"
      using wf by (simp add: wf_graph_def putConnection_def)
    show "list_all (\<lambda>(k, c'). k = makeKey c' \<and> isMember (putConnection c g) (c_from c')
        \<and> isMember (putConnection c g) (c_to c')) (g_connections (putConnection c g))"
      using wf mem dk
      by (auto simp: list_all_iff wf_graph_def putConnection_def set_jm_set isMember_def)
  qed
  have "set (g_connections (putConnection c g))
      = {(k, c') \<in> set (g_connections g). k \<noteq> makeKey c} \<union> {(makeKey c, c)}"
    using dk by (simp add: putConnection_def set_jm_set)
  then show "conns (putConnection c g) = {c' \<in> conns g. makeKey c' \<noteq> makeKey c} \<union> {c}"
    using wf_graphD(4) [OF wf] by (force simp: conns_def)
qed

lemma withDefaults_asInput [simp]: "withDefaults (asInput c) = c"
  by (simp add: withDefaults_def asInput_def)

lemma addConnection_ok:
  "wf_graph g \<Longrightarrow> c_from c \<in> members g \<Longrightarrow> c_to c \<in> members g \<Longrightarrow>
     addConnection (asInput c) g = Inr (putConnection c g)"
  using withDefaults_asInput [of c] by (simp add: addConnection_def isMember_iff asInput_def)

lemma addConnection_InrD:
  "wf_graph g \<Longrightarrow> addConnection i g = Inr g' \<Longrightarrow>
     g' = putConnection (withDefaults i) g \<and> c_from (withDefaults i) \<in> members g
     \<and> c_to (withDefaults i) \<in> members g"
  by (auto simp: addConnection_def isMember_iff withDefaults_def split: if_splits)

lemma putConnection_same:
  "wf_graph g \<Longrightarrow> c \<in> conns g \<Longrightarrow> putConnection c g = g"
  by (simp add: putConnection_def conns_key jm_set_same)

lemma putConnection_new:
  "makeKey c \<notin> makeKey ` conns g \<Longrightarrow> wf_graph g \<Longrightarrow> c_from c \<in> members g \<Longrightarrow> c_to c \<in> members g \<Longrightarrow>
     conns (putConnection c g) = insert c (conns g)"
  by (auto simp: wf_putConnection(2) rev_image_eqI)

end
