(* ===== verification/GraphEdits.thy ===== *)
theory GraphEdits
  imports GraphShape
begin

text \<open>
  What the editing operations do to a well-formed graph: cloning rebuilds the same graph,
  removing a node drops its connections or bridges them, exactly when the node has no
  connection to itself. Connection keys identify connections when no name or type holds a
  hyphen.
\<close>

section \<open>Cloning\<close>

lemma foldl_addNode:
  assumes "distinct (map n_name ns)" and "set (map n_name ns) \<inter> fst ` set (g_nodes g) = {}"
  shows "addNodes ns g = g\<lparr>g_nodes := g_nodes g @ map (\<lambda>n. (n_name n, n)) ns\<rparr>"
  using assms
proof (induction ns arbitrary: g)
  case (Cons n ns)
  from Cons.prems have "addNode n g = g\<lparr>g_nodes := g_nodes g @ [(n_name n, n)]\<rparr>"
    by (simp add: addNode_def jm_set_new)
  moreover have "addNodes ns (g\<lparr>g_nodes := g_nodes g @ [(n_name n, n)]\<rparr>)
      = g\<lparr>g_nodes := (g_nodes g @ [(n_name n, n)]) @ map (\<lambda>n. (n_name n, n)) ns\<rparr>"
    using Cons.prems by (subst Cons.IH) auto
  ultimately show ?case by (simp add: addNodes_def)
qed (simp add: addNodes_def)

lemma foldE_addConnection:
  assumes "distinct (map makeKey cs)" and "set (map makeKey cs) \<inter> fst ` set (g_connections g) = {}"
    and "\<And>c. c \<in> set cs \<Longrightarrow> isMember g (c_from c) \<and> isMember g (c_to c)"
  shows "addConnections (map asInput cs) g
       = Inr (g\<lparr>g_connections := g_connections g @ map (\<lambda>c. (makeKey c, c)) cs\<rparr>)"
  using assms
proof (induction cs arbitrary: g)
  case (Cons c cs)
  let ?g = "g\<lparr>g_connections := g_connections g @ [(makeKey c, c)]\<rparr>"
  have "addConnection (asInput c) g = Inr (putConnection c g)"
    using Cons.prems(3) [of c] withDefaults_asInput [of c]
    by (simp add: addConnection_def asInput_def)
  moreover have "putConnection c g = ?g"
    using Cons.prems(2) by (simp add: putConnection_def jm_set_new)
  moreover have "addConnections (map asInput cs) ?g
      = Inr (?g\<lparr>g_connections := g_connections ?g @ map (\<lambda>c. (makeKey c, c)) cs\<rparr>)"
    using Cons.prems by (intro Cons.IH) (auto simp: isMember_def)
  ultimately show ?case by (simp add: addConnections_def)
qed (simp add: addConnections_def)

lemma clone_same:
  assumes wf: "wf_graph g"
  shows "clone g = Inr g"
proof -
  have names: "map fst (g_nodes g) = map n_name (getNodes g)"
    using wf_graphD(3) [OF wf] by (auto simp: getNodes_def)
  have keys: "g_connections g = map (\<lambda>c. (makeKey c, c)) (getConnections g None)"
    using wf_graphD(4) [OF wf] by (auto simp: getConnections_def intro!: nth_equalityI)
       (metis fst_conv nth_mem prod.collapse)
  have nodes: "addNodes (getNodes g) emptyGraph = emptyGraph\<lparr>g_nodes := g_nodes g\<rparr>"
  proof (subst foldl_addNode)
    show "distinct (map n_name (getNodes g))" using wf_graphD(1) [OF wf] names by simp
  qed (use getNodes_keys [OF wf] in \<open>simp_all add: emptyGraph_def\<close>)
  have "map fst (g_connections g) = map makeKey (getConnections g None)"
    by (subst keys) simp
  then have dk: "distinct (map makeKey (getConnections g None))"
    using wf_graphD(2) [OF wf] by simp
  have "addConnections (map asInput (getConnections g None)) (emptyGraph\<lparr>g_nodes := g_nodes g\<rparr>)
      = Inr (emptyGraph\<lparr>g_nodes := g_nodes g,
                        g_connections := map (\<lambda>c. (makeKey c, c)) (getConnections g None)\<rparr>)"
  proof (subst foldE_addConnection)
    fix c
    assume "c \<in> set (getConnections g None)"
    then show "isMember (emptyGraph\<lparr>g_nodes := g_nodes g\<rparr>) (c_from c)
        \<and> isMember (emptyGraph\<lparr>g_nodes := g_nodes g\<rparr>) (c_to c)"
      using wf_graphD(5,6) [OF wf, of c] by (simp add: isMember_def)
  next
    show "distinct (map makeKey (getConnections g None))" by (rule dk)
  qed (simp_all add: emptyGraph_def)
  then show ?thesis
    by (simp add: clone_def nodes flip: keys)
qed

section \<open>Unambiguous keys\<close>

definition hyphen_free :: "digraph \<Rightarrow> bool" where
  "hyphen_free g \<longleftrightarrow>
     list_all (\<lambda>n. CHR ''-'' \<notin> set (n_name n)) (getNodes g) \<and>
     list_all (\<lambda>c. CHR ''-'' \<notin> set (c_type c)) (getConnections g None)"

lemma hyphen_free_iff:
  "hyphen_free g \<longleftrightarrow>
     (\<forall>n \<in> members g. CHR ''-'' \<notin> set (n_name n)) \<and> (\<forall>c \<in> conns g. CHR ''-'' \<notin> set (c_type c))"
  by (simp add: hyphen_free_def list_all_iff members_def)

lemma split_at_separator:
  assumes "a @ sep # x = b @ sep # y" and "sep \<notin> set a" and "sep \<notin> set b"
  shows "a = b \<and> x = y"
proof -
  have split: "takeWhile (\<lambda>c. c \<noteq> sep) (u @ sep # v) = u" if "sep \<notin> set u" for u v
    using that by (auto simp: takeWhile_append)
  have "a = b" using split [OF assms(2), of x] split [OF assms(3), of y] assms(1) by metis
  with assms(1) show ?thesis by simp
qed

lemma hyphen_not_digit: "CHR ''-'' \<notin> set (nat_to_string n)"
  using nat_to_string_digits [of "CHR ''-''" n] by auto

lemma makeKey_parts:
  assumes "makeKey c = makeKey c'"
    and "CHR ''-'' \<notin> set (n_name (c_from c))" "CHR ''-'' \<notin> set (n_name (c_from c'))"
    and "CHR ''-'' \<notin> set (c_type c)" "CHR ''-'' \<notin> set (c_type c')"
  shows "n_name (c_from c) = n_name (c_from c')" "n_name (c_to c) = n_name (c_to c')"
    "c_type c = c_type c'" "c_outputIndex c = c_outputIndex c'" "c_inputIndex c = c_inputIndex c'"
proof -
  note cut = split_at_separator [of _ "CHR ''-''"]
  from assms(1) have k1:
    "n_name (c_from c) @ CHR ''-'' # (c_type c @ CHR ''-'' # (nat_to_string (c_outputIndex c) @ CHR ''-'' #
        (nat_to_string (c_inputIndex c) @ CHR ''-'' # n_name (c_to c))))
     = n_name (c_from c') @ CHR ''-'' # (c_type c' @ CHR ''-'' # (nat_to_string (c_outputIndex c') @ CHR ''-'' #
        (nat_to_string (c_inputIndex c') @ CHR ''-'' # n_name (c_to c'))))"
    by (simp add: makeKey_def)
  note s1 = cut [OF k1 assms(2,3)]
  note s2 = cut [OF conjunct2 [OF s1] assms(4,5)]
  note s3 = cut [OF conjunct2 [OF s2] hyphen_not_digit hyphen_not_digit]
  note s4 = cut [OF conjunct2 [OF s3] hyphen_not_digit hyphen_not_digit]
  show "n_name (c_from c) = n_name (c_from c')" "n_name (c_to c) = n_name (c_to c')"
    "c_type c = c_type c'" "c_outputIndex c = c_outputIndex c'" "c_inputIndex c = c_inputIndex c'"
    using s1 s2 s3 s4 by simp_all
qed

lemma makeKey_inj:
  assumes wf: "wf_graph g" and hf: "\<forall>n \<in> members g. CHR ''-'' \<notin> set (n_name n)"
    and c: "c_from c \<in> members g" "c_to c \<in> members g" "CHR ''-'' \<notin> set (c_type c)"
    and c': "c_from c' \<in> members g" "c_to c' \<in> members g" "CHR ''-'' \<notin> set (c_type c')"
    and eq: "makeKey c = makeKey c'"
  shows "c = c'"
proof -
  have "CHR ''-'' \<notin> set (n_name (c_from c))" "CHR ''-'' \<notin> set (n_name (c_from c'))"
    using hf c(1) c'(1) by auto
  note p = makeKey_parts [OF eq this c(3) c'(3)]
  have "c_from c = c_from c'" "c_to c = c_to c'"
    using members_name_inj [OF wf] c c' p(1,2) by auto
  with p(3-) show ?thesis by simp
qed

section \<open>Removing a node\<close>

lemma wf_dropNode:
  assumes wf: "wf_graph g" and n: "n \<in> members g"
  shows "wf_graph (dropNode n g)" "members (dropNode n g) = members g - {n}"
    and "conns (dropNode n g) = {c \<in> conns g. \<not> touches n c}"
proof -
  have name: "m = n" if "m \<in> members g" "n_name m = n_name n" for m
    using members_name_inj [OF wf that(1) n that(2)] .
  have stays: "isMember (dropNode n g) m" if "isMember g m" "m \<noteq> n" for m
    using that name [of m] isMember_iff [OF wf] by (auto simp: isMember_def dropNode_def)
  show "conns (dropNode n g) = {c \<in> conns g. \<not> touches n c}"
    by (force simp: conns_def dropNode_def)
  show "wf_graph (dropNode n g)"
    unfolding wf_graph_def
  proof (intro conjI)
    show "distinct (map fst (g_nodes (dropNode n g)))"
      using wf_graphD(1) [OF wf] by (simp add: dropNode_def)
    show "distinct (map fst (g_connections (dropNode n g)))"
      using wf_graphD(2) [OF wf] by (simp add: dropNode_def distinct_filter_keys)
    show "list_all (\<lambda>(k, n). k = n_name n) (g_nodes (dropNode n g))"
      using wf_graphD(3) [OF wf] by (auto simp: dropNode_def list_all_iff)
    show "list_all (\<lambda>(k, c). k = makeKey c \<and> isMember (dropNode n g) (c_from c)
        \<and> isMember (dropNode n g) (c_to c)) (g_connections (dropNode n g))"
      unfolding list_all_iff
    proof (intro ballI, clarify)
      fix k c
      assume "(k, c) \<in> set (g_connections (dropNode n g))"
      then have c: "(k, c) \<in> set (g_connections g)" "c_from c \<noteq> n" "c_to c \<noteq> n"
        by (auto simp: dropNode_def touches_def)
      from this(1) have "c \<in> conns g" by (rule connsI)
      then show "k = makeKey c \<and> isMember (dropNode n g) (c_from c)
          \<and> isMember (dropNode n g) (c_to c)"
        using c stays wf_graphD(4) [OF wf c(1)] wf_graphD(5,6) [OF wf] by blast
    qed
  qed
  show "members (dropNode n g) = members g - {n}"
  proof -
    have "snd ` {(k, v) \<in> set (g_nodes g). k \<noteq> n_name n} = snd ` set (g_nodes g) - {n}"
      using wf_graphD(3) [OF wf] name unfolding members_def getNodes_def by force
    then show ?thesis by (simp add: members_def getNodes_def dropNode_def)
  qed
qed

lemma putConnections_set:
  assumes "wf_graph g" and "\<forall>n \<in> members g. CHR ''-'' \<notin> set (n_name n)"
    and "\<forall>c \<in> conns g. CHR ''-'' \<notin> set (c_type c)"
    and "\<And>c. c \<in> set cs \<Longrightarrow> c_from c \<in> members g \<and> c_to c \<in> members g \<and> CHR ''-'' \<notin> set (c_type c)"
  shows "wf_graph (foldl (\<lambda>g c. putConnection c g) g cs)
       \<and> members (foldl (\<lambda>g c. putConnection c g) g cs) = members g
       \<and> conns (foldl (\<lambda>g c. putConnection c g) g cs) = conns g \<union> set cs"
  using assms
proof (induction cs arbitrary: g)
  case (Cons c cs)
  have c: "c_from c \<in> members g" "c_to c \<in> members g" "CHR ''-'' \<notin> set (c_type c)"
    using Cons.prems(4) [of c] by auto
  note put = wf_putConnection [OF Cons.prems(1) c(1,2)]
  have "{c' \<in> conns g. makeKey c' \<noteq> makeKey c} \<union> {c} = conns g \<union> {c}"
    using makeKey_inj [OF Cons.prems(1,2) _ _ _ c] conn_ends [OF Cons.prems(1)] Cons.prems(3)
    by blast
  with put(2) have cs: "conns (putConnection c g) = conns g \<union> {c}" by simp
  have "wf_graph (foldl (\<lambda>g c. putConnection c g) (putConnection c g) cs)
       \<and> members (foldl (\<lambda>g c. putConnection c g) (putConnection c g) cs) = members (putConnection c g)
       \<and> conns (foldl (\<lambda>g c. putConnection c g) (putConnection c g) cs)
         = conns (putConnection c g) \<union> set cs"
    by (rule Cons.IH) (use put(1) Cons.prems c cs in auto)
  then show ?case using cs by auto
qed simp

lemma foldl_putConnection:
  "foldl (\<lambda>g c. putConnection c g) g cs
     = g\<lparr>g_connections := foldl (\<lambda>m c. jm_set m (makeKey c) c) (g_connections g) cs\<rparr>"
  by (induction cs arbitrary: g) (simp_all add: putConnection_def)

lemma set_bridges:
  "set (bridges skip ins outs)
     = {bridge i j | i j. i \<in> set ins \<and> \<not> skip i \<and> j \<in> set outs \<and> \<not> skip j}"
  by (auto simp: bridges_def split: if_splits)

lemma bridge_simps [simp]:
  "c_from (bridge i j) = c_from i" "c_to (bridge i j) = c_to j" "c_type (bridge i j) = c_type i"
  by (simp_all add: bridge_def)

lemma removeNode_reconnect:
  assumes wf: "wf_graph g" and hf: "hyphen_free g" and n: "n \<in> members g"
    and noloop: "\<forall>c \<in> conns g. \<not> skip c \<longrightarrow> c_from c = n \<longrightarrow> c_to c \<noteq> n"
  shows "\<exists>g' new. removeNode n True skip g = Inr (g', new) \<and> wf_graph g' \<and> hyphen_free g'
       \<and> members g' = members g - {n}
       \<and> set new = {bridge i j | i j. i \<in> conns g \<and> c_to i = n \<and> \<not> skip i
                                      \<and> j \<in> conns g \<and> c_from j = n \<and> \<not> skip j}
       \<and> conns g' = {c \<in> conns g. \<not> touches n c} \<union> set new"
proof -
  obtain ins where ins: "getDirectParentConnections g n = Inr ins"
    using getDirectParentConnections_ok [OF wf n] by blast
  obtain outs where outs: "getDirectChildConnections g n = Inr outs"
    using getDirectChildConnections_ok [OF wf n] by blast
  define new where "new = bridges skip ins outs"
  define g' where "g' = foldl (\<lambda>g c. putConnection c g) (dropNode n g) new"
  have new: "set new = {bridge i j | i j. i \<in> conns g \<and> c_to i = n \<and> \<not> skip i
                                      \<and> j \<in> conns g \<and> c_from j = n \<and> \<not> skip j}"
    using getDirectParentConnections_InrD [OF ins] getDirectChildConnections_InrD [OF outs]
    unfolding new_def set_bridges by blast
  have run: "removeNode n True skip g = Inr (g', new)"
    using ins outs by (simp add: removeNode_def new_def g'_def foldl_putConnection dropNode_def Let_def)
  note drop = wf_dropNode [OF wf n]
  have hf': "\<forall>m \<in> members (dropNode n g). CHR ''-'' \<notin> set (n_name m)"
    "\<forall>c \<in> conns (dropNode n g). CHR ''-'' \<notin> set (c_type c)"
    using hf drop by (auto simp: hyphen_free_iff)
  have ends: "c_from c \<in> members (dropNode n g) \<and> c_to c \<in> members (dropNode n g)
      \<and> CHR ''-'' \<notin> set (c_type c)" if "c \<in> set new" for c
  proof -
    from that obtain i j where ij: "c = bridge i j" "i \<in> conns g" "c_to i = n" "\<not> skip i"
        "j \<in> conns g" "c_from j = n" "\<not> skip j"
      using new by auto
    have "c_from i \<noteq> n" "c_to j \<noteq> n" using noloop ij by blast+
    then show ?thesis using ij conn_ends [OF wf] hf drop(2) by (auto simp: hyphen_free_iff)
  qed
  have "wf_graph g' \<and> members g' = members (dropNode n g) \<and> conns g' = conns (dropNode n g) \<union> set new"
    unfolding g'_def by (rule putConnections_set [OF drop(1) hf']) (rule ends)
  moreover from this have "hyphen_free g'"
    using hf' ends by (auto simp: hyphen_free_iff)
  ultimately show ?thesis using run new drop by (intro exI [of _ g'] exI [of _ new]) simp
qed

end
