(* ===== verification/Exploration.thy ===== *)
theory Exploration
  imports JsMaps
begin

text \<open>
  The contract the graph searches share. A search runs over a list of items with the set
  of keys seen so far; an item with a seen key is skipped, a new one is recorded and its
  expansion searched before the rest of the list. Whatever the items are, the keys found
  are those of the items reachable by expansion.
\<close>

locale exploration =
  fixes key :: "'c \<Rightarrow> 'k"
    and expand :: "'c \<Rightarrow> 'e + 'c list"
    and loop :: "'c list \<Rightarrow> 'k list \<Rightarrow> 'e + 'k list"
    and universe :: "'k set"
  assumes finite_universe: "finite universe"
    and expand_universe: "expand c = Inr ds \<Longrightarrow> key ` set ds \<subseteq> universe"
    and expand_by_key: "key c = key d \<Longrightarrow> expand c = expand d"
    and loop_Nil: "loop [] acc = Inr acc"
    and loop_seen: "key c \<in> set acc \<Longrightarrow> loop (c # cs) acc = loop cs acc"
    and loop_new: "key c \<notin> set acc \<Longrightarrow>
      loop (c # cs) acc =
        rbind (rbind (expand c) (\<lambda>ds. loop ds (acc @ [key c]))) (loop cs)"
begin

definition steps :: "('c \<times> 'c) set" where
  "steps = {(c, d). \<exists>ds. expand c = Inr ds \<and> d \<in> set ds}"

lemma loop_induct [consumes 1, case_names Nil Seen New]:
  assumes "key ` set cs \<subseteq> universe"
    and Nil: "\<And>acc. P [] acc"
    and Seen: "\<And>c cs acc. key ` set cs \<subseteq> universe \<Longrightarrow> key c \<in> set acc \<Longrightarrow> P cs acc \<Longrightarrow> P (c # cs) acc"
    and New: "\<And>c cs acc. key ` set cs \<subseteq> universe \<Longrightarrow> key c \<in> universe \<Longrightarrow> key c \<notin> set acc \<Longrightarrow>
      (\<And>ds. expand c = Inr ds \<Longrightarrow> P ds (acc @ [key c])) \<Longrightarrow>
      (\<And>acc'. insert (key c) (set acc) \<subseteq> set acc' \<Longrightarrow> P cs acc') \<Longrightarrow> P (c # cs) acc"
  shows "P cs acc"
proof -
  let ?m = "\<lambda>(cs, acc). (card (universe - set acc), length cs)"
  have "case x of (cs, acc) \<Rightarrow> key ` set cs \<subseteq> universe \<longrightarrow> P cs acc" for x :: "'c list \<times> 'k list"
  proof (induction x rule: wf_induct [OF wf_inv_image [of "less_than <*lex*> less_than" ?m]])
    case 1
    show ?case by (simp add: wf_lex_prod)
  next
    case (2 x)
    obtain cs acc where x: "x = (cs, acc)" by (cases x)
    show ?case
    proof (simp only: x split_conv, intro impI)
      assume u: "key ` set cs \<subseteq> universe"
      show "P cs acc"
      proof (cases cs)
        case Nil
        with assms(2) show ?thesis by simp
      next
        case (Cons c cs')
        have shrink: "card (universe - set acc') \<le> card (universe - set acc)"
          if "set acc \<subseteq> set acc'" for acc'
          using that finite_universe by (intro card_mono) auto
        have strict: "card (universe - set acc') < card (universe - set acc)"
          if "insert (key c) (set acc) \<subseteq> set acc'" "key c \<notin> set acc" for acc'
          using that finite_universe u Cons by (intro psubset_card_mono) auto
        show ?thesis
        proof (cases "key c \<in> set acc")
          case True
          have "P cs' acc" using "2.IH" u Cons x by auto
          with Seen [OF _ True] u Cons show ?thesis by auto
        next
          case False
          have ex: "P ds (acc @ [key c])" if "expand c = Inr ds" for ds
            using "2.IH" expand_universe [OF that] strict [of "acc @ [key c]"] False x by auto
          have rest: "P cs' acc'" if "insert (key c) (set acc) \<subseteq> set acc'" for acc'
            using "2.IH" strict [OF that False] u Cons x by auto
          show ?thesis unfolding Cons by (rule New) (use u Cons False ex rest in auto)
        qed
      qed
    qed
  qed
  from this [of "(cs, acc)"] assms(1) show ?thesis by simp
qed

lemma loop_grows:
  assumes "key ` set cs \<subseteq> universe" and "loop cs acc = Inr acc'"
  shows "set acc \<subseteq> set acc' \<and> key ` set cs \<subseteq> set acc' \<and> (distinct acc \<longrightarrow> distinct acc')"
  using assms
proof (induction cs acc arbitrary: acc' rule: loop_induct)
  case (New c cs acc)
  from New.prems New.hyps obtain ds mid where
    r: "expand c = Inr ds" "loop ds (acc @ [key c]) = Inr mid" "loop cs mid = Inr acc'"
    by (auto simp: loop_new rbind_Inr_iff)
  have 1: "set (acc @ [key c]) \<subseteq> set mid \<and> (distinct (acc @ [key c]) \<longrightarrow> distinct mid)"
    using New.IH(1) [OF r(1) r(2)] by blast
  then have "set mid \<subseteq> set acc' \<and> key ` set cs \<subseteq> set acc' \<and> (distinct mid \<longrightarrow> distinct acc')"
    using New.IH(2) [OF _ r(3)] by auto
  with 1 New.hyps show ?case by auto
qed (auto simp: loop_Nil loop_seen)

lemma loop_closed:
  assumes "key ` set cs \<subseteq> universe" and "loop cs acc = Inr acc'"
    and "key d \<in> set acc' - set acc"
  shows "\<exists>ds. expand d = Inr ds \<and> key ` set ds \<subseteq> set acc'"
  using assms
proof (induction cs acc arbitrary: acc' rule: loop_induct)
  case (New c cs acc)
  from New.prems New.hyps obtain ds mid where
    r: "expand c = Inr ds" "loop ds (acc @ [key c]) = Inr mid" "loop cs mid = Inr acc'"
    by (auto simp: loop_new rbind_Inr_iff)
  have mid: "set (acc @ [key c]) \<subseteq> set mid" "key ` set ds \<subseteq> set mid"
    using loop_grows [OF expand_universe [OF r(1)] r(2)] by auto
  have acc': "set mid \<subseteq> set acc'" using loop_grows [OF New.hyps(1) r(3)] by blast
  show ?case
  proof (cases "key d \<in> set mid")
    case False
    then show ?thesis using New.IH(2) [OF _ r(3)] mid(1) New.prems(2) by auto
  next
    case True
    show ?thesis
    proof (cases "key d = key c")
      case True
      then have "expand d = Inr ds" using expand_by_key r(1) by metis
      then show ?thesis using mid(2) acc' by blast
    next
      case False
      then have "\<exists>es. expand d = Inr es \<and> key ` set es \<subseteq> set mid"
        using New.IH(1) [OF r(1) r(2)] True New.prems(2) by auto
      then show ?thesis using acc' by blast
    qed
  qed
qed (auto simp: loop_Nil loop_seen)

lemma loop_sound:
  assumes "key ` set cs \<subseteq> universe" and "loop cs acc = Inr acc'"
  shows "set acc' \<subseteq> set acc \<union> key ` (steps\<^sup>* `` set cs)"
  using assms
proof (induction cs acc arbitrary: acc' rule: loop_induct)
  case (New c cs acc)
  from New.prems New.hyps obtain ds mid where
    r: "expand c = Inr ds" "loop ds (acc @ [key c]) = Inr mid" "loop cs mid = Inr acc'"
    by (auto simp: loop_new rbind_Inr_iff)
  have grow: "insert (key c) (set acc) \<subseteq> set mid"
    using loop_grows [OF expand_universe [OF r(1)] r(2)] by auto
  have "steps\<^sup>* `` set ds \<subseteq> steps\<^sup>* `` {c}"
    using r(1) by (auto simp: steps_def intro: converse_rtrancl_into_rtrancl)
  then have "set mid \<subseteq> set acc \<union> key ` (steps\<^sup>* `` {c})"
    using New.IH(1) [OF r(1) r(2)] by (auto simp: image_iff) blast
  moreover have "set acc' \<subseteq> set mid \<union> key ` (steps\<^sup>* `` set cs)"
    using New.IH(2) [OF grow r(3)] .
  ultimately show ?case by auto
qed (fastforce simp: loop_Nil loop_seen)+

lemma loop_total:
  assumes "key ` set cs \<subseteq> universe" and "set cs \<subseteq> good"
    and good: "\<And>c. c \<in> good \<Longrightarrow> \<exists>ds. expand c = Inr ds \<and> set ds \<subseteq> good"
  shows "\<exists>acc'. loop cs acc = Inr acc'"
  using assms(1,2)
proof (induction cs acc rule: loop_induct)
  case (New c cs acc)
  from good [of c] New.prems obtain ds where ds: "expand c = Inr ds" "set ds \<subseteq> good" by auto
  then obtain mid where mid: "loop ds (acc @ [key c]) = Inr mid" using New.IH(1) by blast
  then have "insert (key c) (set acc) \<subseteq> set mid"
    using loop_grows [OF expand_universe [OF ds(1)] mid] by auto
  then obtain acc' where "loop cs mid = Inr acc'"
    using New.IH(2) [of mid] New.prems by auto
  with ds mid New.hyps show ?case by (auto simp: loop_new)
qed (auto simp: loop_Nil loop_seen)

theorem loop_from_nothing:
  assumes "key ` set cs \<subseteq> universe" and run: "loop cs [] = Inr acc'"
  shows "set acc' = key ` (steps\<^sup>* `` set cs)" "distinct acc'"
proof -
  have "key d \<in> set acc'" if "(c, d) \<in> steps\<^sup>*" "c \<in> set cs" for c d
    using that
  proof (induction rule: rtrancl_induct)
    case base
    then show ?case using loop_grows [OF assms] by auto
  next
    case (step d e)
    then obtain ds where "expand d = Inr ds" "e \<in> set ds" by (auto simp: steps_def)
    moreover have "\<exists>ds. expand d = Inr ds \<and> key ` set ds \<subseteq> set acc'"
      using loop_closed [OF assms] step by simp
    ultimately show ?case by auto
  qed
  then show "set acc' = key ` (steps\<^sup>* `` set cs)"
    using loop_sound [OF assms] by auto
  show "distinct acc'" using loop_grows [OF assms] by simp
qed

end

end
