(* ===== verification/GraphSearch.thy ===== *)
theory GraphSearch
  imports GraphEdits Exploration
begin

text \<open>
  The searches of \<open>directed-graph.ts\<close>: \<open>getChildren\<close>, \<open>getParentConnections\<close> and
  \<open>depthFirstSearch\<close>. Each recursive method is one loop over the connections of the
  node it is called on, threading the set of things seen; the recursion of the method is
  the nested call. They end because a connection or a node is only expanded once.
\<close>

section \<open>Children\<close>

function childrenLoop :: "digraph \<Rightarrow> connection list \<Rightarrow> node list \<Rightarrow> assertion + node list" where
  "childrenLoop g [] children = Inr children"
| "childrenLoop g (c # cs) children =
     (if c_to c \<in> set children then childrenLoop g cs children
      else rbind (rbind (getDirectChildConnections g (c_to c))
                        (\<lambda>ds. childrenLoop g ds (children @ [c_to c])))
                 (childrenLoop g cs))"
  by pat_completeness auto

lemma childrenLoop_grows:
  "childrenLoop_dom (g, cs, acc) \<Longrightarrow> childrenLoop g cs acc = Inr acc' \<Longrightarrow> set acc \<subseteq> set acc'"
proof (induction g cs acc arbitrary: acc' rule: childrenLoop.pinduct)
  case (2 g c cs acc)
  then show ?case
    by (fastforce simp: childrenLoop.psimps rbind_Inr_iff split: if_splits)
qed (simp add: childrenLoop.psimps)

lemma conns_finite [simp]: "finite (conns g)"
  by (simp add: conns_def)

lemma unseen_shrinks:
  "finite U \<Longrightarrow> x \<in> U \<Longrightarrow> x \<notin> A \<Longrightarrow> insert x A \<subseteq> B \<Longrightarrow> V \<subseteq> U \<Longrightarrow> card (V - B) < card (U - A)"
  by (rule psubset_card_mono) auto

lemma unseen_mono:
  "finite U \<Longrightarrow> A \<subseteq> B \<Longrightarrow> V \<subseteq> U \<Longrightarrow> card (V - B) \<le> card (U - A)"
  by (rule card_mono) auto

termination childrenLoop
proof (relation "measures [\<lambda>(g, cs, acc). card (c_to ` (conns g \<union> set cs) - set acc),
                           \<lambda>(g, cs, acc). length cs]", goal_cases)
  case (2 g c cs acc)
  have "card (c_to ` (conns g \<union> set cs) - set acc) \<le> card (c_to ` (conns g \<union> set (c # cs)) - set acc)"
    by (rule unseen_mono) auto
  then show ?case by (auto simp: le_less)
next
  case (3 g c cs acc ds)
  then have "c_to ` (conns g \<union> set ds) \<subseteq> c_to ` (conns g \<union> set (c # cs))"
    by (auto dest: getDirectChildConnections_InrD)
  moreover have "c_to c \<in> c_to ` (conns g \<union> set (c # cs))" by simp
  ultimately have "card (c_to ` (conns g \<union> set ds) - set (acc @ [c_to c]))
      < card (c_to ` (conns g \<union> set (c # cs)) - set acc)"
    using 3 by (intro unseen_shrinks [where x = "c_to c"]) auto
  then show ?case by simp
next
  case (4 g c cs acc mid)
  then obtain ds where "childrenLoop g ds (acc @ [c_to c]) = Inr mid"
      "childrenLoop_dom (g, ds, acc @ [c_to c])"
    by (auto simp: rbind_Inr_iff)
  then have "insert (c_to c) (set acc) \<subseteq> set mid" using childrenLoop_grows by fastforce
  then have "card (c_to ` (conns g \<union> set cs) - set mid)
      < card (c_to ` (conns g \<union> set (c # cs)) - set acc)"
    using 4 by (intro unseen_shrinks [where x = "c_to c"]) auto
  then show ?case by simp
qed simp

definition getChildrenRecursive :: "digraph \<Rightarrow> node \<Rightarrow> node list \<Rightarrow> assertion + node list" where
  "getChildrenRecursive g n children =
     rbind (getDirectChildConnections g n) (\<lambda>cs. childrenLoop g cs children)"

definition getChildren :: "digraph \<Rightarrow> node \<Rightarrow> assertion + node list" where
  "getChildren g n = getChildrenRecursive g n []"

text \<open>The relation of a connection between two nodes.\<close>

definition child_rel :: "digraph \<Rightarrow> (node \<times> node) set" where
  "child_rel g = {(c_from c, c_to c) | c. c \<in> conns g}"

definition main_rel :: "digraph \<Rightarrow> (node \<times> node) set" where
  "main_rel g = {(c_from c, c_to c) | c. c \<in> conns g \<and> c_type c = Main}"

lemma child_relI: "c \<in> conns g \<Longrightarrow> (c_from c, c_to c) \<in> child_rel g"
  by (auto simp: child_rel_def)

lemma main_child_rel: "main_rel g \<subseteq> child_rel g"
  by (auto simp: main_rel_def child_rel_def)

lemma child_rel_members: "wf_graph g \<Longrightarrow> (a, b) \<in> child_rel g \<Longrightarrow> a \<in> members g \<and> b \<in> members g"
  by (auto simp: child_rel_def)

lemma child_trancl_members:
  "wf_graph g \<Longrightarrow> (a, b) \<in> (child_rel g)\<^sup>+ \<Longrightarrow> a \<in> members g \<and> b \<in> members g"
  by (meson child_rel_members tranclD tranclD2)

interpretation children: exploration c_to "\<lambda>c. getDirectChildConnections g (c_to c)"
    "childrenLoop g" "c_to ` conns g" for g
  by unfold_locales (auto dest: getDirectChildConnections_InrD)

lemma children_steps:
  "set cs \<subseteq> conns g \<Longrightarrow> (children.steps g)\<^sup>* `` set cs \<subseteq> conns g"
proof -
  have "d \<in> conns g" if "(c, d) \<in> (children.steps g)\<^sup>*" "c \<in> conns g" for c d
    using that
    by (induction rule: rtrancl_induct)
       (auto simp: children.steps_def dest: getDirectChildConnections_InrD)
  then show "set cs \<subseteq> conns g \<Longrightarrow> ?thesis" by auto
qed

lemma children_steps_iff:
  assumes wf: "wf_graph g" and c: "c \<in> conns g"
  shows "(c, d) \<in> children.steps g \<longleftrightarrow> d \<in> conns g \<and> c_from d = c_to c"
proof -
  have "c_to c \<in> members g" using conn_ends [OF wf c] by simp
  then obtain cs where "getDirectChildConnections g (c_to c) = Inr cs"
      "set cs = {d \<in> conns g. c_from d = c_to c}"
    using getDirectChildConnections_set [OF wf] by blast
  then show ?thesis by (simp add: children.steps_def)
qed

lemma children_reached:
  assumes wf: "wf_graph g"
  shows "c_to ` ((children.steps g)\<^sup>* `` {c \<in> conns g. c_from c = n}) = {m. (n, m) \<in> (child_rel g)\<^sup>+}"
proof (intro set_eqI iffI)
  fix m
  assume "m \<in> c_to ` ((children.steps g)\<^sup>* `` {c \<in> conns g. c_from c = n})"
  then obtain c d where c: "c \<in> conns g" "c_from c = n" and cd: "(c, d) \<in> (children.steps g)\<^sup>*"
    and m: "m = c_to d" by auto
  from cd c have "(n, c_to d) \<in> (child_rel g)\<^sup>+ \<and> d \<in> conns g"
  proof (induction rule: rtrancl_induct)
    case (step d e)
    then have "e \<in> conns g" "c_from e = c_to d" using children_steps_iff [OF wf] by auto
    with step child_relI [of e g] show ?case by (metis trancl.trancl_into_trancl)
  qed (use child_relI in blast)
  with m show "m \<in> {m. (n, m) \<in> (child_rel g)\<^sup>+}" by simp
next
  fix m
  assume "m \<in> {m. (n, m) \<in> (child_rel g)\<^sup>+}"
  then have "(n, m) \<in> (child_rel g)\<^sup>+" by simp
  then have "\<exists>d \<in> conns g. m = c_to d \<and> d \<in> (children.steps g)\<^sup>* `` {c \<in> conns g. c_from c = n}"
  proof (induction rule: trancl_induct)
    case (base m)
    then show ?case by (auto simp: child_rel_def)
  next
    case (step m m')
    then obtain d c where d: "d \<in> conns g" "m = c_to d"
        "c \<in> conns g" "c_from c = n" "(c, d) \<in> (children.steps g)\<^sup>*" by auto
    from step(2) obtain e where e: "e \<in> conns g" "c_from e = m" "c_to e = m'"
      by (auto simp: child_rel_def)
    with d have "(d, e) \<in> children.steps g" using children_steps_iff [OF wf] by simp
    with d e show ?case by (intro bexI [of _ e]) (auto intro: rtrancl_into_rtrancl)
  qed
  then show "m \<in> c_to ` ((children.steps g)\<^sup>* `` {c \<in> conns g. c_from c = n})" by auto
qed

lemma getChildren_exact:
  assumes wf: "wf_graph g" and n: "n \<in> members g"
  shows "\<exists>ns. getChildren g n = Inr ns \<and> distinct ns \<and> set ns = {m. (n, m) \<in> (child_rel g)\<^sup>+}"
proof -
  obtain cs where
    cs: "getDirectChildConnections g n = Inr cs" "set cs = {c \<in> conns g. c_from c = n}"
    using getDirectChildConnections_set [OF wf n] .
  have u: "c_to ` set cs \<subseteq> c_to ` conns g" using cs(2) by auto
  have "\<exists>ns. childrenLoop g cs [] = Inr ns"
  proof (rule children.loop_total [OF u])
    show "set cs \<subseteq> conns g" using cs(2) by auto
    show "\<exists>ds. getDirectChildConnections g (c_to c) = Inr ds \<and> set ds \<subseteq> conns g" if "c \<in> conns g" for c
      using getDirectChildConnections_ok [OF wf, of "c_to c"] conn_ends [OF wf that]
        getDirectChildConnections_InrD [of g "c_to c"] by auto
  qed
  then obtain ns where ns: "childrenLoop g cs [] = Inr ns" by blast
  note f = children.loop_from_nothing [OF u ns]
  from f(1) children_reached [OF wf] cs(2) have "set ns = {m. (n, m) \<in> (child_rel g)\<^sup>+}" by simp
  moreover have "getChildren g n = Inr ns"
    by (simp add: getChildren_def getChildrenRecursive_def cs(1) ns)
  ultimately show ?thesis using f(2) by blast
qed

section \<open>Parent connections\<close>

function parentsLoop :: "digraph \<Rightarrow> connection list \<Rightarrow> connection list \<Rightarrow> assertion + connection list" where
  "parentsLoop g [] found = Inr found"
| "parentsLoop g (c # cs) found =
     (if c \<in> set found then parentsLoop g cs found
      else rbind (rbind (getDirectParentConnections g (c_from c))
                        (\<lambda>ds. parentsLoop g ds (found @ [c])))
                 (parentsLoop g cs))"
  by pat_completeness auto

lemma parentsLoop_grows:
  "parentsLoop_dom (g, cs, acc) \<Longrightarrow> parentsLoop g cs acc = Inr acc' \<Longrightarrow> set acc \<subseteq> set acc'"
proof (induction g cs acc arbitrary: acc' rule: parentsLoop.pinduct)
  case (2 g c cs acc)
  then show ?case
    by (fastforce simp: parentsLoop.psimps rbind_Inr_iff split: if_splits)
qed (simp add: parentsLoop.psimps)

termination parentsLoop
proof (relation "measures [\<lambda>(g, cs, acc). card (conns g \<union> set cs - set acc),
                           \<lambda>(g, cs, acc). length cs]", goal_cases)
  case (2 g c cs acc)
  have "card (conns g \<union> set cs - set acc) \<le> card (conns g \<union> set (c # cs) - set acc)"
    by (rule unseen_mono) auto
  then show ?case by (auto simp: le_less)
next
  case (3 g c cs acc ds)
  then have "conns g \<union> set ds \<subseteq> conns g \<union> set (c # cs)"
    by (auto dest: getDirectParentConnections_InrD)
  then have "card (conns g \<union> set ds - set (acc @ [c])) < card (conns g \<union> set (c # cs) - set acc)"
    using 3 by (intro unseen_shrinks [where x = c]) auto
  then show ?case by simp
next
  case (4 g c cs acc mid)
  then obtain ds where "parentsLoop g ds (acc @ [c]) = Inr mid" "parentsLoop_dom (g, ds, acc @ [c])"
    by (auto simp: rbind_Inr_iff)
  then have "insert c (set acc) \<subseteq> set mid" using parentsLoop_grows by fastforce
  then have "card (conns g \<union> set cs - set mid) < card (conns g \<union> set (c # cs) - set acc)"
    using 4 by (intro unseen_shrinks [where x = c]) auto
  then show ?case by simp
qed simp

definition getParentConnectionsRecursive ::
  "digraph \<Rightarrow> node \<Rightarrow> connection list \<Rightarrow> assertion + connection list" where
  "getParentConnectionsRecursive g n found =
     rbind (getDirectParentConnections g n) (\<lambda>cs. parentsLoop g cs found)"

definition getParentConnections :: "digraph \<Rightarrow> node \<Rightarrow> assertion + connection list" where
  "getParentConnections g n = getParentConnectionsRecursive g n []"

interpretation parents: exploration "\<lambda>c. c" "\<lambda>c. getDirectParentConnections g (c_from c)"
    "parentsLoop g" "conns g" for g
  by unfold_locales (auto dest: getDirectParentConnections_InrD)

lemma parents_steps_iff:
  assumes wf: "wf_graph g" and c: "c \<in> conns g"
  shows "(c, d) \<in> parents.steps g \<longleftrightarrow> d \<in> conns g \<and> c_to d = c_from c"
proof -
  have "c_from c \<in> members g" using conn_ends [OF wf c] by simp
  then obtain cs where "getDirectParentConnections g (c_from c) = Inr cs"
      "set cs = {d \<in> conns g. c_to d = c_from c}"
    using getDirectParentConnections_set [OF wf] by blast
  then show ?thesis by (simp add: parents.steps_def)
qed

lemma parents_reached:
  assumes wf: "wf_graph g"
  shows "(parents.steps g)\<^sup>* `` {c \<in> conns g. c_to c = n}
       = {c \<in> conns g. (c_to c, n) \<in> (child_rel g)\<^sup>*}"
proof (intro set_eqI iffI)
  fix d
  assume "d \<in> (parents.steps g)\<^sup>* `` {c \<in> conns g. c_to c = n}"
  then obtain c where c: "c \<in> conns g" "c_to c = n" and cd: "(c, d) \<in> (parents.steps g)\<^sup>*" by auto
  from cd c show "d \<in> {c \<in> conns g. (c_to c, n) \<in> (child_rel g)\<^sup>*}"
  proof (induction rule: rtrancl_induct)
    case (step d e)
    then have "e \<in> conns g" "c_to e = c_from d" using parents_steps_iff [OF wf] by auto
    with step child_relI [of d g] show ?case by (auto intro: converse_rtrancl_into_rtrancl)
  qed simp
next
  fix d
  assume "d \<in> {c \<in> conns g. (c_to c, n) \<in> (child_rel g)\<^sup>*}"
  then have "(c_to d, n) \<in> (child_rel g)\<^sup>*" "d \<in> conns g" by auto
  then show "d \<in> (parents.steps g)\<^sup>* `` {c \<in> conns g. c_to c = n}"
  proof (induction "c_to d" arbitrary: d rule: converse_rtrancl_induct)
    case base
    then show ?case by auto
  next
    case (step z)
    then obtain e where e: "e \<in> conns g" "c_from e = c_to d" "c_to e = z" by (auto simp: child_rel_def)
    with step(3) [of e] have "e \<in> (parents.steps g)\<^sup>* `` {c \<in> conns g. c_to c = n}" by simp
    moreover have "(e, d) \<in> parents.steps g" using parents_steps_iff [OF wf e(1)] e step by simp
    ultimately show ?case by (auto intro: rtrancl_into_rtrancl)
  qed
qed

lemma getParentConnections_exact:
  assumes wf: "wf_graph g" and n: "n \<in> members g"
  shows "\<exists>cs. getParentConnections g n = Inr cs \<and> distinct cs
       \<and> set cs = {c \<in> conns g. (c_to c, n) \<in> (child_rel g)\<^sup>*}"
proof -
  obtain cs where
    cs: "getDirectParentConnections g n = Inr cs" "set cs = {c \<in> conns g. c_to c = n}"
    using getDirectParentConnections_set [OF wf n] .
  have u: "(\<lambda>c. c) ` set cs \<subseteq> conns g" using cs(2) by auto
  have "\<exists>ps. parentsLoop g cs [] = Inr ps"
  proof (rule parents.loop_total [OF u])
    show "set cs \<subseteq> conns g" using cs(2) by auto
    show "\<exists>ds. getDirectParentConnections g (c_from c) = Inr ds \<and> set ds \<subseteq> conns g"
      if "c \<in> conns g" for c
      using getDirectParentConnections_ok [OF wf, of "c_from c"] conn_ends [OF wf that]
        getDirectParentConnections_InrD [of g "c_from c"] by auto
  qed
  then obtain ps where ps: "parentsLoop g cs [] = Inr ps" by blast
  note f = parents.loop_from_nothing [OF u ps]
  from f(1) parents_reached [OF wf] cs(2)
  have "set ps = {c \<in> conns g. (c_to c, n) \<in> (child_rel g)\<^sup>*}" by simp
  moreover have "getParentConnections g n = Inr ps"
    by (simp add: getParentConnections_def getParentConnectionsRecursive_def cs(1) ps)
  ultimately show ?thesis using f(2) by blast
qed

end
