(* ===== verification/RunData.thy ===== *)
theory RunData
  imports GraphSearch
begin

text \<open>
  The data of a previous run and the questions a partial execution asks about it:
  \<open>get-incoming-data.ts\<close>, \<open>clean-run-data.ts\<close>, \<open>run-data-utils.ts\<close> and
  \<open>isDirty\<close> of \<open>find-start-nodes.ts\<close>. Run data maps a node name to the tasks the
  node ran, pin data to the items the user pinned.
\<close>

section \<open>Run data\<close>

type_synonym items = "json list"
type_synonym task_connections = "(connection_type, items option list) js_map"

record task_data =
  t_executionIndex :: "nat option"
  t_error :: "json option"
  t_data :: "task_connections option"

type_synonym run_data = "(string, task_data list) js_map"
type_synonym pin_data = "(string, items) js_map"

text \<open>The chain of \<open>?.\<close> and \<open>at\<close>; the result \<open>null\<close> is \<open>None\<close>.\<close>

definition getIncomingData ::
  "run_data \<Rightarrow> string \<Rightarrow> int \<Rightarrow> connection_type \<Rightarrow> int \<Rightarrow> items option" where
  "getIncomingData runData nodeName runIndex ty outputIndex =
     (case jm_get runData nodeName of
        None \<Rightarrow> None
      | Some tasks \<Rightarrow>
          (case js_at tasks runIndex of
             None \<Rightarrow> None
           | Some task \<Rightarrow>
               (case t_data task of
                  None \<Rightarrow> None
                | Some d \<Rightarrow>
                    (case jm_get d ty of
                       None \<Rightarrow> None
                     | Some outs \<Rightarrow>
                         (case js_at outs outputIndex of None \<Rightarrow> None | Some r \<Rightarrow> r)))))"

definition getRunIndexLength :: "run_data \<Rightarrow> string \<Rightarrow> nat" where
  "getRunIndexLength runData nodeName =
     (case jm_get runData nodeName of None \<Rightarrow> 0 | Some tasks \<Rightarrow> length tasks)"

fun anyRunLoop ::
  "run_data \<Rightarrow> string \<Rightarrow> connection_type \<Rightarrow> int \<Rightarrow> nat list \<Rightarrow> (items \<times> nat) option" where
  "anyRunLoop runData nodeName ty outputIndex [] = None"
| "anyRunLoop runData nodeName ty outputIndex (runIndex # rest) =
     (case getIncomingData runData nodeName (int runIndex) ty outputIndex of
        None \<Rightarrow> anyRunLoop runData nodeName ty outputIndex rest
      | Some d \<Rightarrow> if d = [] then anyRunLoop runData nodeName ty outputIndex rest
                  else Some (d, runIndex))"

definition getIncomingDataFromAnyRun ::
  "run_data \<Rightarrow> string \<Rightarrow> connection_type \<Rightarrow> int \<Rightarrow> (items \<times> nat) option" where
  "getIncomingDataFromAnyRun runData nodeName ty outputIndex =
     anyRunLoop runData nodeName ty outputIndex [0..<getRunIndexLength runData nodeName]"

lemma anyRunLoop_SomeD:
  "anyRunLoop rd k ty i rs = Some (d, r) \<Longrightarrow>
     \<exists>before after. rs = before @ r # after \<and> d \<noteq> [] \<and>
        getIncomingData rd k (int r) ty i = Some d \<and>
        (\<forall>q \<in> set before. getIncomingData rd k (int q) ty i \<in> {None, Some []})"
proof (induction rs)
  case (Cons q rs)
  show ?case
  proof (cases "getIncomingData rd k (int q) ty i \<in> {None, Some []}")
    case True
    with Cons.prems have "anyRunLoop rd k ty i rs = Some (d, r)" by auto
    from Cons.IH [OF this] obtain before after where "rs = before @ r # after" "d \<noteq> []"
        "getIncomingData rd k (int r) ty i = Some d"
        "\<forall>q \<in> set before. getIncomingData rd k (int q) ty i \<in> {None, Some []}" by blast
    with True show ?thesis by (intro exI [of _ "q # before"] exI [of _ after]) simp
  next
    case False
    then obtain e where "getIncomingData rd k (int q) ty i = Some e" "e \<noteq> []" by auto
    with Cons.prems show ?thesis by (intro exI [of _ "[]"] exI [of _ rs]) auto
  qed
qed simp

text \<open>The data found is the first non-empty one, by run index.\<close>

lemma getIncomingDataFromAnyRun_first:
  assumes "getIncomingDataFromAnyRun rd k ty i = Some (d, r)"
  shows "r < getRunIndexLength rd k" "d \<noteq> []" "getIncomingData rd k (int r) ty i = Some d"
    "q < r \<Longrightarrow> getIncomingData rd k (int q) ty i \<in> {None, Some []}"
proof -
  from assms obtain before after where
    *: "[0..<getRunIndexLength rd k] = before @ r # after" "d \<noteq> []"
       "getIncomingData rd k (int r) ty i = Some d"
       "\<forall>q \<in> set before. getIncomingData rd k (int q) ty i \<in> {None, Some []}"
    unfolding getIncomingDataFromAnyRun_def using anyRunLoop_SomeD by blast
  have "r \<in> set [0..<getRunIndexLength rd k]" unfolding *(1) by simp
  then show "r < getRunIndexLength rd k" by simp
  show "d \<noteq> []" "getIncomingData rd k (int r) ty i = Some d" using * by simp_all
  have "r = [0..<getRunIndexLength rd k] ! length before" unfolding *(1) by simp
  moreover have "length before < length [0..<getRunIndexLength rd k]" unfolding *(1) by simp
  ultimately have "r = length before" by simp
  moreover have "before = take (length before) [0..<getRunIndexLength rd k]" unfolding *(1) by simp
  ultimately have "before = [0..<r]" using \<open>r < getRunIndexLength rd k\<close> by (simp add: take_upt)
  then show "q < r \<Longrightarrow> getIncomingData rd k (int q) ty i \<in> {None, Some []}" using *(4) by simp
qed

section \<open>Dirty nodes\<close>

text \<open>
  The checks for changed options and disabled parents are constants of the code
  (\<open>false\<close>, marked as not implemented).
\<close>

definition isDirty :: "node \<Rightarrow> run_data \<Rightarrow> pin_data \<Rightarrow> bool" where
  "isDirty n runData pinData =
     (let hasAnError = (case jm_get runData (n_name n) of
                          None \<Rightarrow> False
                        | Some tasks \<Rightarrow> list_ex (\<lambda>t. t_error t \<noteq> None) tasks)
      in if hasAnError then True
         else if jm_get pinData (n_name n) \<noteq> None then False
         else if jm_get runData (n_name n) \<noteq> None then False
         else True)"

section \<open>The next execution index\<close>

definition getNextExecutionIndex :: "run_data \<Rightarrow> nat" where
  "getNextExecutionIndex runData =
     (if runData = [] then 0
      else let previousIndices = List.map_filter t_executionIndex (concat (jm_values runData))
           in if previousIndices = [] then 0 else Max (set previousIndices) + 1)"

lemma getNextExecutionIndex_above:
  assumes "(k, tasks) \<in> set rd" and "t \<in> set tasks" and "t_executionIndex t = Some i"
  shows "i < getNextExecutionIndex rd"
proof -
  let ?is = "List.map_filter t_executionIndex (concat (jm_values rd))"
  have "i \<in> set ?is" using assms by (force simp: map_filter_def)
  then have "i \<le> Max (set ?is)" "?is \<noteq> []" by auto
  then show ?thesis using assms(1) by (auto simp: getNextExecutionIndex_def Let_def)
qed

lemma getNextExecutionIndex_least:
  assumes "getNextExecutionIndex rd = Suc j"
  shows "\<exists>k tasks t. (k, tasks) \<in> set rd \<and> t \<in> set tasks \<and> t_executionIndex t = Some j"
proof -
  let ?is = "List.map_filter t_executionIndex (concat (jm_values rd))"
  from assms have "?is \<noteq> []" "Max (set ?is) = j"
    by (auto simp: getNextExecutionIndex_def Let_def split: if_splits)
  then have "j \<in> set ?is" using Max_in [of "set ?is"] by auto
  then show ?thesis by (fastforce simp: map_filter_def)
qed

section \<open>Cleaning\<close>

text \<open>
  Cleaning one node of the branch: its data and the data of the nodes above it over a
  connection that is not \<open>Main\<close>.
\<close>

definition cleanOne :: "digraph \<Rightarrow> node \<Rightarrow> run_data \<Rightarrow> assertion + run_data" where
  "cleanOne g n rd =
     rbind (getParentConnections g n) (\<lambda>subNodeConnections.
       Inr (foldl (\<lambda>rd c. if c_type c = Main then rd else jm_delete rd (n_name (c_from c)))
              (jm_delete rd (n_name n)) subNodeConnections))"

definition cleanNode :: "digraph \<Rightarrow> node \<Rightarrow> run_data \<Rightarrow> assertion + run_data" where
  "cleanNode g nodeToClean rd =
     rbind (getChildren g nodeToClean) (\<lambda>children.
       foldE (cleanOne g) (nodeToClean # children) (jm_delete rd (n_name nodeToClean)))"

definition cleanRunData :: "run_data \<Rightarrow> digraph \<Rightarrow> node list \<Rightarrow> assertion + run_data" where
  "cleanRunData runData g nodesToClean =
     rbind (foldE (cleanNode g) nodesToClean runData) (\<lambda>rd.
       Inr (foldl (\<lambda>rd k. if \<not> hasNode g k then jm_delete rd k else rd) rd (map fst rd)))"

text \<open>The names whose data goes when a node is cleaned.\<close>

definition subNodeNames :: "digraph \<Rightarrow> node \<Rightarrow> string set" where
  "subNodeNames g n =
     {n_name (c_from c) | c. c \<in> conns g \<and> c_type c \<noteq> Main \<and> (c_to c, n) \<in> (child_rel g)\<^sup>*}"

definition staleNames :: "digraph \<Rightarrow> node \<Rightarrow> string set" where
  "staleNames g n = (\<Union>m \<in> {m. (n, m) \<in> (child_rel g)\<^sup>*}. insert (n_name m) (subNodeNames g m))"

definition without :: "string set \<Rightarrow> run_data \<Rightarrow> run_data" where
  "without K rd = filter (\<lambda>(k, _). k \<notin> K) rd"

lemma jm_delete_without: "jm_delete rd k = without {k} rd"
  by (simp add: jm_delete_def without_def)

lemma without_without: "without K (without L rd) = without (L \<union> K) rd"
  by (auto simp: without_def intro!: filter_cong)

lemma without_empty [simp]: "without {} rd = rd"
  by (simp add: without_def)

lemma foldl_without:
  assumes "\<And>x rd. x \<in> set xs \<Longrightarrow> f rd x = without (K x) rd"
  shows "foldl f rd xs = without (\<Union>x \<in> set xs. K x) rd"
  using assms
proof (induction xs arbitrary: rd)
  case (Cons x xs)
  then show ?case by (simp add: without_without)
qed simp

lemma foldE_without:
  assumes "\<And>x rd. x \<in> set xs \<Longrightarrow> f x rd = Inr (without (K x) rd)"
  shows "foldE f xs rd = Inr (without (\<Union>x \<in> set xs. K x) rd)"
  using assms
proof (induction xs arbitrary: rd)
  case (Cons x xs)
  then show ?case by (simp add: without_without)
qed simp

lemma cleanOne_without:
  assumes wf: "wf_graph g" and n: "n \<in> members g"
  shows "cleanOne g n rd = Inr (without (insert (n_name n) (subNodeNames g n)) rd)"
proof -
  obtain cs where cs: "getParentConnections g n = Inr cs"
      "set cs = {c \<in> conns g. (c_to c, n) \<in> (child_rel g)\<^sup>*}"
    using getParentConnections_exact [OF wf n] by blast
  have "foldl (\<lambda>rd c. if c_type c = Main then rd else jm_delete rd (n_name (c_from c))) rd' cs
      = without (\<Union>c \<in> set cs. if c_type c = Main then {} else {n_name (c_from c)}) rd'" for rd'
    by (rule foldl_without) (simp add: jm_delete_without)
  moreover have "(\<Union>c \<in> set cs. if c_type c = Main then {} else {n_name (c_from c)}) = subNodeNames g n"
    unfolding cs(2) subNodeNames_def by auto
  ultimately show ?thesis
    by (simp add: cleanOne_def cs(1) jm_delete_without without_without)
qed

lemma cleanNode_without:
  assumes wf: "wf_graph g" and n: "n \<in> members g"
  shows "cleanNode g n rd = Inr (without (staleNames g n) rd)"
proof -
  obtain ms where ms: "getChildren g n = Inr ms" "set ms = {m. (n, m) \<in> (child_rel g)\<^sup>+}"
    using getChildren_exact [OF wf n] by blast
  have all: "set (n # ms) = {m. (n, m) \<in> (child_rel g)\<^sup>*}"
    using ms(2) by (auto simp: rtrancl_eq_or_trancl)
  have mem: "m \<in> members g" if "m \<in> set (n # ms)" for m
    using that n child_trancl_members [OF wf] ms(2) by auto
  have "foldE (cleanOne g) (n # ms) rd'
      = Inr (without (\<Union>m \<in> set (n # ms). insert (n_name m) (subNodeNames g m)) rd')" for rd'
    by (rule foldE_without) (rule cleanOne_without [OF wf mem])
  then have "cleanNode g n rd = Inr (without (insert (n_name n) (staleNames g n)) rd)"
    unfolding all by (simp only: cleanNode_def ms(1) rbind_simps jm_delete_without without_without
        staleNames_def insert_is_Un [symmetric])
  moreover have "n_name n \<in> staleNames g n" by (auto simp: staleNames_def)
  ultimately show ?thesis by (simp add: insert_absorb)
qed

lemma drop_foreign:
  "foldl (\<lambda>rd k. if \<not> P k then jm_delete rd k else rd) rd ks
     = without {k \<in> set ks. \<not> P k} rd"
proof -
  have "foldl (\<lambda>rd k. if \<not> P k then jm_delete rd k else rd) rd ks
     = without (\<Union>k \<in> set ks. if P k then {} else {k}) rd"
    by (rule foldl_without) (simp add: jm_delete_without)
  moreover have "(\<Union>k \<in> set ks. if P k then {} else {k}) = {k \<in> set ks. \<not> P k}" by auto
  ultimately show ?thesis by simp
qed

lemma cleanRunData_exact:
  assumes wf: "wf_graph g" and ns: "set ns \<subseteq> members g"
  shows "cleanRunData rd g ns =
    Inr (filter (\<lambda>(k, _). k \<in> n_name ` members g \<and> (\<forall>n \<in> set ns. k \<notin> staleNames g n)) rd)"
proof -
  have "foldE (cleanNode g) ns rd = Inr (without (\<Union>n \<in> set ns. staleNames g n) rd)"
    by (rule foldE_without) (use cleanNode_without [OF wf] ns in auto)
  moreover have "without {k \<in> set (map fst rd'). \<not> hasNode g k} rd'
      = filter (\<lambda>(k, _). k \<in> n_name ` members g) rd'" for rd'
    unfolding without_def
    by (rule filter_cong) (auto simp: hasNode_iff [OF wf] intro: rev_image_eqI)
  ultimately show ?thesis
    by (simp add: cleanRunData_def drop_foreign del: set_map)
       (auto simp: without_def intro!: filter_cong)
qed

end
