(* ===== verification/SourceGroups.thy ===== *)
theory SourceGroups
  imports RunData "HOL-Library.Multiset"
begin

text \<open>
  \<open>get-source-data-groups.ts\<close>: the connections into a start node, grouped so that every
  group feeds every input at most once. Connections are taken from two sorted lists, the
  ones whose source has data first; the loop opens a new group when no connection is left
  for the next input index. \<open>String.localeCompare\<close> belongs to the platform's locale
  data and is a parameter.
\<close>

section \<open>Sorting\<close>

type_synonym locale_compare = "string \<Rightarrow> string \<Rightarrow> int"

definition sortByInputIndexThenByName :: "locale_compare \<Rightarrow> connection \<Rightarrow> connection \<Rightarrow> int" where
  "sortByInputIndexThenByName localeCompare c1 c2 =
     (if c_inputIndex c1 = c_inputIndex c2
      then localeCompare (n_name (c_from c1)) (n_name (c_from c2))
      else int (c_inputIndex c1) - int (c_inputIndex c2))"

text \<open>
  \<open>Array.prototype.sort\<close> is a stable sort by the comparison function; an insertion sort
  computes it.
\<close>

fun insertBy :: "('a \<Rightarrow> 'a \<Rightarrow> int) \<Rightarrow> 'a \<Rightarrow> 'a list \<Rightarrow> 'a list" where
  "insertBy cmp x [] = [x]"
| "insertBy cmp x (y # ys) = (if cmp x y \<le> 0 then x # y # ys else y # insertBy cmp x ys)"

definition sortBy :: "('a \<Rightarrow> 'a \<Rightarrow> int) \<Rightarrow> 'a list \<Rightarrow> 'a list" where
  "sortBy cmp xs = foldr (insertBy cmp) xs []"

lemma mset_insertBy [simp]: "mset (insertBy cmp x ys) = add_mset x (mset ys)"
  by (induction cmp x ys rule: insertBy.induct) auto

lemma mset_sortBy [simp]: "mset (sortBy cmp xs) = mset xs"
  by (induction xs) (auto simp: sortBy_def)

lemma set_sortBy [simp]: "set (sortBy cmp xs) = set xs"
  by (rule mset_eq_setD) simp

lemma length_sortBy [simp]: "length (sortBy cmp xs) = length xs"
  by (rule mset_eq_length) simp

lemma sortBy_Nil_iff [simp]: "sortBy cmp xs = [] \<longleftrightarrow> xs = []"
  using length_sortBy [of cmp xs] by (metis length_0_conv)

section \<open>Grouping\<close>

record source_group =
  sg_complete :: bool
  sg_connections :: "connection list"

definition newGroup :: source_group where
  "newGroup = \<lparr>sg_complete = True, sg_connections = []\<rparr>"

definition hasSourceData :: "run_data \<Rightarrow> pin_data \<Rightarrow> connection \<Rightarrow> bool" where
  "hasSourceData runData pinnedData c \<longleftrightarrow>
     jm_get runData (n_name (c_from c)) \<noteq> None \<or> jm_get pinnedData (n_name (c_from c)) \<noteq> None"

text \<open>The input index the next iteration increments: one below the smallest that is left.\<close>

definition beforeSmallest :: "connection list \<Rightarrow> connection list \<Rightarrow> int" where
  "beforeSmallest withData withoutData =
     Min (set (map (\<lambda>c. int (c_inputIndex c)) (withData @ withoutData))) - 1"

definition takeInput :: "int \<Rightarrow> connection list \<Rightarrow> (connection \<times> connection list) option" where
  "takeInput i cs =
     (case List.extract (\<lambda>c. int (c_inputIndex c) = i) cs of
        None \<Rightarrow> None
      | Some (before, c, after) \<Rightarrow> Some (c, before @ after))"

lemma takeInput_SomeD:
  "takeInput i cs = Some (c, cs') \<Longrightarrow>
     int (c_inputIndex c) = i \<and> mset cs = add_mset c (mset cs') \<and> length cs = Suc (length cs')"
  by (auto simp: takeInput_def extract_Some_iff split: option.splits)

lemma takeInput_NoneD: "takeInput i cs = None \<Longrightarrow> c \<in> set cs \<Longrightarrow> int (c_inputIndex c) \<noteq> i"
  by (auto simp: takeInput_def extract_None_iff split: option.splits)

lemma beforeSmallest_hit:
  assumes "withData \<noteq> [] \<or> withoutData \<noteq> []"
  shows "\<exists>c \<in> set (withData @ withoutData). int (c_inputIndex c) = beforeSmallest withData withoutData + 1"
proof -
  let ?is = "set (map (\<lambda>c. int (c_inputIndex c)) (withData @ withoutData))"
  have "Min ?is \<in> ?is" using assms by (intro Min_in) auto
  then show ?thesis by (auto simp: beforeSmallest_def)
qed

text \<open>
  The measure: the connections left, then whether the next input index has one. After a
  group is closed it has, so a group is never closed twice in a row.
\<close>

definition nothingNext :: "connection list \<Rightarrow> connection list \<Rightarrow> int \<Rightarrow> nat" where
  "nothingNext withData withoutData i =
     (if \<exists>c \<in> set (withData @ withoutData). int (c_inputIndex c) = i + 1 then 0 else 1)"

function groupsLoop ::
  "connection list \<Rightarrow> connection list \<Rightarrow> source_group \<Rightarrow> int \<Rightarrow> source_group list \<Rightarrow> source_group list" where
  "groupsLoop withData withoutData currentGroup i groups =
     (if withData = [] \<and> withoutData = [] then groups @ [currentGroup]
      else case takeInput (i + 1) withData of
        Some (c, rest) \<Rightarrow>
          groupsLoop rest withoutData
            (currentGroup\<lparr>sg_connections := sg_connections currentGroup @ [c]\<rparr>) (i + 1) groups
      | None \<Rightarrow>
          (case takeInput (i + 1) withoutData of
             Some (c, rest) \<Rightarrow>
               groupsLoop withData rest
                 (currentGroup\<lparr>sg_connections := sg_connections currentGroup @ [c],
                               sg_complete := False\<rparr>) (i + 1) groups
           | None \<Rightarrow>
               groupsLoop withData withoutData newGroup (beforeSmallest withData withoutData)
                 (groups @ [currentGroup])))"
  by pat_completeness auto

lemma close_group_measure:
  assumes "takeInput (i + 1) w = None" and "takeInput (i + 1) wo = None" and "w \<noteq> [] \<or> wo \<noteq> []"
  shows "nothingNext w wo i = 1" "nothingNext w wo (beforeSmallest w wo) = 0"
  using takeInput_NoneD [OF assms(1)] takeInput_NoneD [OF assms(2)] beforeSmallest_hit [OF assms(3)]
  by (auto simp: nothingNext_def)

termination groupsLoop
  by (relation "measures [\<lambda>(w, wo, _, _, _). length w + length wo, \<lambda>(w, wo, _, i, _). nothingNext w wo i]")
     (auto dest: takeInput_SomeD simp: close_group_measure)

lemma groupsLoop_Nil [simp]: "groupsLoop [] [] cur i groups = groups @ [cur]"
  by simp

lemma groupsLoop_steps:
  "takeInput (i + 1) w = Some (c, rest) \<Longrightarrow> groupsLoop w wo cur i groups =
     groupsLoop rest wo (cur\<lparr>sg_connections := sg_connections cur @ [c]\<rparr>) (i + 1) groups"
  "takeInput (i + 1) w = None \<Longrightarrow> takeInput (i + 1) wo = Some (c, rest) \<Longrightarrow> groupsLoop w wo cur i groups =
     groupsLoop w rest (cur\<lparr>sg_connections := sg_connections cur @ [c], sg_complete := False\<rparr>) (i + 1) groups"
  "\<not> (w = [] \<and> wo = []) \<Longrightarrow> takeInput (i + 1) w = None \<Longrightarrow> takeInput (i + 1) wo = None \<Longrightarrow>
     groupsLoop w wo cur i groups = groupsLoop w wo newGroup (beforeSmallest w wo) (groups @ [cur])"
  by (auto dest: takeInput_SomeD)

declare groupsLoop.simps [simp del]

definition getSourceDataGroups ::
  "locale_compare \<Rightarrow> digraph \<Rightarrow> node \<Rightarrow> run_data \<Rightarrow> pin_data \<Rightarrow> source_group list" where
  "getSourceDataGroups localeCompare g n runData pinnedData =
     (let connections = getConnections g (Some n);
          withData = filter (hasSourceData runData pinnedData) connections;
          withoutData = filter (\<lambda>c. \<not> hasSourceData runData pinnedData c \<and> c_type c = Main) connections
      in if withData = [] \<and> withoutData = [] then []
         else let sortedWith = sortBy (sortByInputIndexThenByName localeCompare) withData;
                  sortedWithout = sortBy (sortByInputIndexThenByName localeCompare) withoutData
              in groupsLoop sortedWith sortedWithout newGroup
                   (beforeSmallest sortedWith sortedWithout) [])"

section \<open>What a group is\<close>

lemma groupsLoop_cases:
  obtains (finish) "withData = []" "withoutData = []"
    | (filled) c rest where "takeInput (i + 1) withData = Some (c, rest)"
    | (missing) c rest where "takeInput (i + 1) withData = None" "takeInput (i + 1) withoutData = Some (c, rest)"
    | (close) "\<not> (withData = [] \<and> withoutData = [])" "takeInput (i + 1) withData = None"
        "takeInput (i + 1) withoutData = None"
  by (metis option.exhaust surj_pair)

text \<open>
  Every group has consecutive input indices, in order; is complete exactly when all its
  sources have data; and the groups use every connection once.
\<close>

definition consecutive :: "connection list \<Rightarrow> bool" where
  "consecutive cs \<longleftrightarrow> (\<exists>i. map c_inputIndex cs = [i..<i + length cs])"

definition good_group :: "(connection \<Rightarrow> bool) \<Rightarrow> source_group \<Rightarrow> bool" where
  "good_group hasData gr \<longleftrightarrow>
     consecutive (sg_connections gr) \<and> sg_complete gr = list_all hasData (sg_connections gr)"

definition open_group :: "(connection \<Rightarrow> bool) \<Rightarrow> int \<Rightarrow> source_group \<Rightarrow> bool" where
  "open_group hasData i gr \<longleftrightarrow> good_group hasData gr \<and>
     (sg_connections gr \<noteq> [] \<longrightarrow> int (c_inputIndex (last (sg_connections gr))) = i)"

lemma open_newGroup: "open_group hasData i newGroup"
  by (simp add: open_group_def good_group_def newGroup_def consecutive_def)

lemma open_group_add:
  assumes "open_group hasData i gr" and "int (c_inputIndex c) = i + 1"
  shows "open_group hasData (i + 1)
    (gr\<lparr>sg_connections := sg_connections gr @ [c], sg_complete := sg_complete gr \<and> hasData c\<rparr>)"
proof -
  have "consecutive (sg_connections gr @ [c])"
  proof (cases "sg_connections gr = []")
    case True
    then show ?thesis by (auto simp: consecutive_def)
  next
    case False
    then obtain k where k: "map c_inputIndex (sg_connections gr) = [k..<k + length (sg_connections gr)]"
      using assms(1) by (auto simp: open_group_def good_group_def consecutive_def)
    have "c_inputIndex (last (sg_connections gr)) = last (map c_inputIndex (sg_connections gr))"
      using False by (simp add: last_map)
    also have "\<dots> = k + length (sg_connections gr) - 1"
      unfolding k using False by (simp add: last_upt)
    finally have "c_inputIndex c = k + length (sg_connections gr)"
      using assms False length_greater_0_conv [of "sg_connections gr"]
      by (simp add: open_group_def del: length_greater_0_conv)
    then show ?thesis using k by (auto simp: consecutive_def intro!: exI [of _ k])
  qed
  then show ?thesis using assms by (auto simp: open_group_def good_group_def)
qed

lemma groupsLoop_good:
  assumes "list_all hasData withData" and "list_all (\<lambda>c. \<not> hasData c) withoutData"
    and "open_group hasData i cur" and "list_all (good_group hasData) groups"
  shows "list_all (good_group hasData) (groupsLoop withData withoutData cur i groups)"
  using assms
proof (induction withData withoutData cur i groups rule: groupsLoop.induct)
  case (1 w wo cur i groups)
  show ?case
  proof (cases rule: groupsLoop_cases [where withData = w and withoutData = wo and i = i])
    case finish
    then show ?thesis using "1.prems" by (simp add: open_group_def)
  next
    case (filled c rest)
    note t = takeInput_SomeD [OF filled]
    then have ne: "w \<noteq> []" by auto
    have c: "hasData c" "list_all hasData rest"
      using t "1.prems"(1) by (auto simp: list_all_iff dest: arg_cong [of _ _ set_mset])
    have "open_group hasData (i + 1) (cur\<lparr>sg_connections := sg_connections cur @ [c]\<rparr>)"
      using open_group_add [OF "1.prems"(3), of c] t c(1) by simp
    then show ?thesis
      using "1.IH"(3) [OF _ filled] ne c "1.prems" filled by (simp add: groupsLoop_steps(1) [OF filled])
  next
    case (missing c rest)
    note t = takeInput_SomeD [OF missing(2)]
    then have ne: "wo \<noteq> []" by auto
    have c: "\<not> hasData c" "list_all (\<lambda>c. \<not> hasData c) rest"
      using t "1.prems"(2) by (auto simp: list_all_iff dest: arg_cong [of _ _ set_mset])
    have "open_group hasData (i + 1)
        (cur\<lparr>sg_connections := sg_connections cur @ [c], sg_complete := False\<rparr>)"
      using open_group_add [OF "1.prems"(3), of c] t c(1) by simp
    then show ?thesis
      using "1.IH"(2) [OF _ missing] ne c "1.prems" missing by (simp add: groupsLoop_steps(2) [OF missing])
  next
    case close
    have "list_all (good_group hasData) (groups @ [cur])"
      using "1.prems"(3,4) by (simp add: open_group_def)
    then show ?thesis
      using "1.IH"(1) [OF close] "1.prems"(1,2) open_newGroup close by (simp add: groupsLoop_steps(3) [OF close])
  qed
qed

lemma groupsLoop_mset:
  "mset (concat (map sg_connections (groupsLoop w wo cur i groups)))
     = mset (concat (map sg_connections groups)) + mset (sg_connections cur) + mset w + mset wo"
proof (induction w wo cur i groups rule: groupsLoop.induct)
  case (1 w wo cur i groups)
  show ?case
  proof (cases rule: groupsLoop_cases [where withData = w and withoutData = wo and i = i])
    case finish
    then show ?thesis by (simp)
  next
    case (filled c rest)
    note t = takeInput_SomeD [OF filled]
    then have ne: "w \<noteq> []" by auto
    show ?thesis using "1.IH"(3) [OF _ filled] ne filled t by (simp add: groupsLoop_steps(1) [OF filled])
  next
    case (missing c rest)
    note t = takeInput_SomeD [OF missing(2)]
    then have ne: "wo \<noteq> []" by auto
    show ?thesis using "1.IH"(2) [OF _ missing] ne missing t by (simp add: groupsLoop_steps(2) [OF missing])
  next
    case close
    then show ?thesis using "1.IH"(1) [OF close] by (simp add: groupsLoop_steps(3) [OF close] newGroup_def)
  qed
qed

text \<open>No group is empty: a group is closed only after an input was found for it.\<close>

lemma groupsLoop_nonempty:
  assumes "sg_connections cur \<noteq> [] \<or> nothingNext w wo i = 0 \<and> (w \<noteq> [] \<or> wo \<noteq> [])"
    and "list_all (\<lambda>gr. sg_connections gr \<noteq> []) groups"
  shows "list_all (\<lambda>gr. sg_connections gr \<noteq> []) (groupsLoop w wo cur i groups)"
  using assms
proof (induction w wo cur i groups rule: groupsLoop.induct)
  case (1 w wo cur i groups)
  show ?case
  proof (cases rule: groupsLoop_cases [where withData = w and withoutData = wo and i = i])
    case finish
    then show ?thesis using "1.prems" by (simp)
  next
    case (filled c rest)
    then have ne: "w \<noteq> []" using takeInput_SomeD [OF filled] by auto
    show ?thesis using "1.IH"(3) [OF _ filled] ne filled "1.prems" by (simp add: groupsLoop_steps(1) [OF filled])
  next
    case (missing c rest)
    then have ne: "wo \<noteq> []" using takeInput_SomeD [OF missing(2)] by auto
    show ?thesis using "1.IH"(2) [OF _ missing] ne missing "1.prems" by (simp add: groupsLoop_steps(2) [OF missing])
  next
    case close
    have "nothingNext w wo i = 1" "nothingNext w wo (beforeSmallest w wo) = 0"
      using close_group_measure [OF close(2,3)] close(1) by auto
    then show ?thesis
      using "1.IH"(1) [OF close] "1.prems" close by (simp add: groupsLoop_steps(3) [OF close])
  qed
qed

lemma getSourceDataGroups_exact:
  "mset (concat (map sg_connections (getSourceDataGroups lc g n rd pd)))
     = mset (filter (\<lambda>c. hasSourceData rd pd c \<or> c_type c = Main) (getConnections g (Some n)))"
  "list_all (\<lambda>gr. good_group (hasSourceData rd pd) gr \<and> sg_connections gr \<noteq> [])
     (getSourceDataGroups lc g n rd pd)"
proof -
  let ?has = "hasSourceData rd pd" and ?cs = "getConnections g (Some n)"
  let ?w = "sortBy (sortByInputIndexThenByName lc) (filter ?has ?cs)"
  let ?wo = "sortBy (sortByInputIndexThenByName lc) (filter (\<lambda>c. \<not> ?has c \<and> c_type c = Main) ?cs)"
  have split: "mset (filter (\<lambda>c. ?has c \<or> c_type c = Main) cs)
      = mset (filter ?has cs) + mset (filter (\<lambda>c. \<not> ?has c \<and> c_type c = Main) cs)" for cs
    by (induction cs) auto
  have len: "?w = [] \<longleftrightarrow> filter ?has ?cs = []"
    "?wo = [] \<longleftrightarrow> filter (\<lambda>c. \<not> ?has c \<and> c_type c = Main) ?cs = []"
    by simp_all
  show "mset (concat (map sg_connections (getSourceDataGroups lc g n rd pd)))
     = mset (filter (\<lambda>c. ?has c \<or> c_type c = Main) ?cs)"
    unfolding getSourceDataGroups_def Let_def split
    by (auto simp: groupsLoop_mset newGroup_def filter_empty_conv)
  have "list_all ?has ?w" "list_all (\<lambda>c. \<not> ?has c) ?wo" by (auto simp: list_all_iff)
  then have good: "list_all (good_group ?has) (groupsLoop ?w ?wo newGroup (beforeSmallest ?w ?wo) [])"
    by (rule groupsLoop_good) (simp_all add: open_newGroup)
  have "list_all (\<lambda>gr. sg_connections gr \<noteq> []) (groupsLoop ?w ?wo newGroup (beforeSmallest ?w ?wo) [])"
    if "?w \<noteq> [] \<or> ?wo \<noteq> []"
    by (rule groupsLoop_nonempty)
       (use that beforeSmallest_hit [of ?w ?wo] in \<open>auto simp: nothingNext_def\<close>)
  with good have all: "list_all (\<lambda>gr. good_group ?has gr \<and> sg_connections gr \<noteq> [])
      (groupsLoop ?w ?wo newGroup (beforeSmallest ?w ?wo) [])" if "?w \<noteq> [] \<or> ?wo \<noteq> []"
    using that by (simp add: list_all_iff)
  show "list_all (\<lambda>gr. good_group ?has gr \<and> sg_connections gr \<noteq> []) (getSourceDataGroups lc g n rd pd)"
  proof (cases "filter ?has ?cs = [] \<and> filter (\<lambda>c. \<not> ?has c \<and> c_type c = Main) ?cs = []")
    case True
    then show ?thesis by (simp add: getSourceDataGroups_def Let_def)
  next
    case False
    then have "getSourceDataGroups lc g n rd pd = groupsLoop ?w ?wo newGroup (beforeSmallest ?w ?wo) []"
      unfolding getSourceDataGroups_def Let_def by (rule if_not_P)
    then show ?thesis using all False len by simp
  qed
qed

end
