(* ===== verification/ExecutionStack.thy ===== *)
theory ExecutionStack
  imports SourceGroups
begin

text \<open>
  \<open>recreate-node-execution-stack.ts\<close>: the stack and the waiting executions a partial
  execution resumes with. A group of connections that all have data becomes an entry of
  the stack; an incomplete group becomes a waiting execution that holds what is there.
\<close>

section \<open>The state\<close>

record source_data =
  sd_previousNode :: string
  sd_previousNodeOutput :: nat
  sd_previousNodeRun :: nat

record execute_data =
  ed_node :: node
  ed_main :: "items list"
  ed_source :: "source_data list option"

type_synonym 'a waiting =
  "(string, (nat, (connection_type, 'a option list) js_map) js_map) js_map"

record stack_state =
  st_stack :: "execute_data list"
  st_waiting :: "items waiting"
  st_waitingSource :: "source_data waiting"

definition jm_or :: "('k, 'v) js_map \<Rightarrow> 'k \<Rightarrow> 'v \<Rightarrow> 'v" where
  "jm_or m k d = (case jm_get m k of None \<Rightarrow> d | Some v \<Rightarrow> v)"

definition putWaiting ::
  "'a waiting \<Rightarrow> string \<Rightarrow> nat \<Rightarrow> connection_type \<Rightarrow> nat \<Rightarrow> 'a \<Rightarrow> 'a waiting" where
  "putWaiting w nodeName runIndex inputType inputIndex v =
     (let byRun = jm_or w nodeName [];
          byType = jm_or byRun runIndex [];
          dataList = jm_or byType inputType []
      in jm_set w nodeName (jm_set byRun runIndex
           (jm_set byType inputType (arr_set dataList inputIndex v))))"

definition addWaitingExecution ::
  "items waiting \<Rightarrow> string \<Rightarrow> nat \<Rightarrow> connection_type \<Rightarrow> nat \<Rightarrow> items \<Rightarrow> items waiting" where
  "addWaitingExecution = putWaiting"

definition addWaitingExecutionSource ::
  "source_data waiting \<Rightarrow> string \<Rightarrow> nat \<Rightarrow> connection_type \<Rightarrow> nat \<Rightarrow> source_data \<Rightarrow> source_data waiting" where
  "addWaitingExecutionSource = putWaiting"

text \<open>What waits for an input of a run of a node.\<close>

definition waitsFor :: "'a waiting \<Rightarrow> string \<Rightarrow> nat \<Rightarrow> connection_type \<Rightarrow> nat \<Rightarrow> 'a option" where
  "waitsFor w nodeName runIndex inputType inputIndex =
     arr_get (jm_or (jm_or (jm_or w nodeName []) runIndex []) inputType []) inputIndex"

lemma jm_or_set [simp]: "jm_or (jm_set m k v) k' d = (if k' = k then v else jm_or m k' d)"
  by (simp add: jm_or_def)

lemma waitsFor_put:
  "waitsFor (putWaiting w k r t i v) k' r' t' i' =
     (if k' = k \<and> r' = r \<and> t' = t \<and> i' = i then Some v else waitsFor w k' r' t' i')"
  by (auto simp: waitsFor_def putWaiting_def Let_def)

section \<open>One group\<close>

definition emptyItem :: json where
  "emptyItem = JObject [(''json'', JObject [])]"

definition groupEntry ::
  "run_data \<Rightarrow> pin_data \<Rightarrow> node \<Rightarrow> connection \<Rightarrow> items list \<times> source_data list
     \<Rightarrow> assertion + items list \<times> source_data list" where
  "groupEntry runData pinData startNode c acc =
     (let (incomingData, sources) = acc;
          name = n_name (c_from c);
          src = (\<lambda>runIndex. \<lparr>sd_previousNode = name, sd_previousNodeOutput = c_outputIndex c,
                             sd_previousNodeRun = runIndex\<rparr>)
      in case jm_get pinData name of
           Some pinned \<Rightarrow> Inr (incomingData @ [pinned], sources @ [src 0])
         | None \<Rightarrow>
             if jm_get runData name = None then Inl (NoIncomingData name (n_name startNode))
             else case getIncomingDataFromAnyRun runData name (c_type c) (int (c_outputIndex c)) of
               Some (d, runIndex) \<Rightarrow> Inr (incomingData @ [d], sources @ [src runIndex])
             | None \<Rightarrow> Inr (incomingData, sources @ [src 0]))"

definition waitForGroup :: "run_data \<Rightarrow> node \<Rightarrow> connection list \<Rightarrow> stack_state \<Rightarrow> stack_state" where
  "waitForGroup runData startNode cs st =
     (let nodeName = n_name startNode;
          nextRunIndex = (case jm_get (st_waiting st) nodeName of None \<Rightarrow> 0 | Some w \<Rightarrow> length w)
      in foldl (\<lambda>st c.
           case getIncomingDataFromAnyRun runData (n_name (c_from c)) (c_type c) (int (c_outputIndex c)) of
             None \<Rightarrow> st
           | Some (d, _) \<Rightarrow>
               st\<lparr>st_waiting := addWaitingExecution (st_waiting st) nodeName nextRunIndex (c_type c)
                                 (c_inputIndex c) d,
                  st_waitingSource := addWaitingExecutionSource (st_waitingSource st) nodeName nextRunIndex
                                 (c_type c) (c_inputIndex c)
                                 \<lparr>sd_previousNode = n_name (c_from c),
                                  sd_previousNodeOutput = c_outputIndex c,
                                  sd_previousNodeRun = nextRunIndex\<rparr>\<rparr>) st cs)"

definition addGroup ::
  "run_data \<Rightarrow> pin_data \<Rightarrow> node \<Rightarrow> source_group \<Rightarrow> stack_state \<Rightarrow> assertion + stack_state" where
  "addGroup runData pinData startNode gr st =
     (if sg_complete gr then
        rbind (foldE (groupEntry runData pinData startNode) (sg_connections gr) ([], []))
          (\<lambda>(incomingData, sources).
            Inr (st\<lparr>st_stack := st_stack st @
                     [\<lparr>ed_node = startNode, ed_main = incomingData, ed_source = Some sources\<rparr>]\<rparr>))
      else Inr (waitForGroup runData startNode (sg_connections gr) st))"

definition addStartNode ::
  "locale_compare \<Rightarrow> digraph \<Rightarrow> run_data \<Rightarrow> pin_data \<Rightarrow> node \<Rightarrow> stack_state \<Rightarrow> assertion + stack_state" where
  "addStartNode localeCompare g runData pinData startNode st =
     rbind (getDirectParentConnections g startNode) (\<lambda>cs.
       if filter (\<lambda>c. c_type c = Main) cs = [] then
         Inr (st\<lparr>st_stack := st_stack st @
                  [\<lparr>ed_node = startNode, ed_main = [[emptyItem]], ed_source = None\<rparr>]\<rparr>)
       else foldE (addGroup runData pinData startNode)
              (getSourceDataGroups localeCompare g startNode runData pinData) st)"

definition recreateNodeExecutionStack ::
  "locale_compare \<Rightarrow> digraph \<Rightarrow> node list \<Rightarrow> run_data \<Rightarrow> pin_data \<Rightarrow> assertion + stack_state" where
  "recreateNodeExecutionStack localeCompare g startNodes runData pinData =
     rbind (forEach (getNodes g) (\<lambda>n. throwIf (n_disabled n) (ContainsDisabledNode (n_name n)))) (\<lambda>_.
       foldE (addStartNode localeCompare g runData pinData) startNodes
         \<lparr>st_stack = [], st_waiting = [], st_waitingSource = []\<rparr>)"

section \<open>What ends up where\<close>

lemma groupEntry_ok:
  assumes "hasSourceData rd pd c"
  shows "\<exists>ds' ss'. groupEntry rd pd n c (ds, ss) = Inr (ds', ss')
    \<and> (\<exists>s. ss' = ss @ [s] \<and> sd_previousNode s = n_name (c_from c))"
  using assms by (auto simp: groupEntry_def hasSourceData_def Let_def split: option.splits)

lemma complete_group_ok:
  assumes "list_all (hasSourceData rd pd) cs"
  shows "\<exists>ds' ss'. foldE (groupEntry rd pd n) cs (ds, ss) = Inr (ds', ss')
    \<and> map sd_previousNode ss' = map sd_previousNode ss @ map (\<lambda>c. n_name (c_from c)) cs"
  using assms
proof (induction cs arbitrary: ds ss)
  case (Cons c cs)
  obtain ds' s where 1: "groupEntry rd pd n c (ds, ss) = Inr (ds', ss @ [s])"
      "sd_previousNode s = n_name (c_from c)"
    using groupEntry_ok [of rd pd c n ds ss] Cons.prems by auto
  obtain ds'' ss'' where "foldE (groupEntry rd pd n) cs (ds', ss @ [s]) = Inr (ds'', ss'')"
      "map sd_previousNode ss'' = map sd_previousNode (ss @ [s]) @ map (\<lambda>c. n_name (c_from c)) cs"
    using Cons.IH [of ds' "ss @ [s]"] Cons.prems by auto
  with 1 show ?case by simp
qed simp

text \<open>An entry of the stack is of the given node and names the sources of one of its groups.\<close>

definition entry_of :: "source_group list \<Rightarrow> node \<Rightarrow> execute_data \<Rightarrow> bool" where
  "entry_of groups n e \<longleftrightarrow> ed_node e = n \<and>
     (\<exists>gr ss. gr \<in> set groups \<and> sg_complete gr \<and> ed_source e = Some ss \<and>
        map sd_previousNode ss = map (\<lambda>c. n_name (c_from c)) (sg_connections gr))"

lemma waitForGroup_stack [simp]: "st_stack (waitForGroup rd n cs st) = st_stack st"
proof -
  have "st_stack (foldl (\<lambda>st c.
       case getIncomingDataFromAnyRun rd (n_name (c_from c)) (c_type c) (int (c_outputIndex c)) of
         None \<Rightarrow> st
       | Some (d, _) \<Rightarrow>
           st\<lparr>st_waiting := addWaitingExecution (st_waiting st) (n_name n) k (c_type c) (c_inputIndex c) d,
              st_waitingSource := addWaitingExecutionSource (st_waitingSource st) (n_name n) k
                (c_type c) (c_inputIndex c)
                \<lparr>sd_previousNode = n_name (c_from c), sd_previousNodeOutput = c_outputIndex c,
                 sd_previousNodeRun = k\<rparr>\<rparr>) st cs) = st_stack st" for k
    by (induction cs arbitrary: st) (auto split: option.splits)
  then show ?thesis by (simp add: waitForGroup_def Let_def)
qed

lemma groups_ok:
  assumes "list_all (good_group (hasSourceData rd pd)) groups"
  shows "\<exists>st'. foldE (addGroup rd pd n) groups st = Inr st' \<and>
    (\<exists>es. st_stack st' = st_stack st @ es \<and> length es = length (filter sg_complete groups) \<and>
       list_all (entry_of groups n) es)"
  using assms
proof (induction groups arbitrary: st)
  case (Cons gr groups)
  have mono: "entry_of groups n e \<Longrightarrow> entry_of (gr # groups) n e" for e
    by (auto simp: entry_of_def)
  show ?case
  proof (cases "sg_complete gr")
    case True
    then have "list_all (hasSourceData rd pd) (sg_connections gr)"
      using Cons.prems by (simp add: good_group_def)
    then obtain ds ss where r: "foldE (groupEntry rd pd n) (sg_connections gr) ([], []) = Inr (ds, ss)"
        "map sd_previousNode ss = map (\<lambda>c. n_name (c_from c)) (sg_connections gr)"
      using complete_group_ok [of rd pd "sg_connections gr" n "[]" "[]"] by auto
    let ?e = "\<lparr>ed_node = n, ed_main = ds, ed_source = Some ss\<rparr>"
    let ?st = "st\<lparr>st_stack := st_stack st @ [?e]\<rparr>"
    have "addGroup rd pd n gr st = Inr ?st" using True r(1) by (simp add: addGroup_def)
    moreover obtain st' es where "foldE (addGroup rd pd n) groups ?st = Inr st'"
        "st_stack st' = st_stack ?st @ es" "length es = length (filter sg_complete groups)"
        "list_all (entry_of groups n) es"
      using Cons.IH [of ?st] Cons.prems by auto
    moreover have "entry_of (gr # groups) n ?e" using True r(2) by (auto simp: entry_of_def)
    ultimately show ?thesis using True mono
      by (intro exI [of _ st']) (auto simp: list_all_iff)
  next
    case False
    then have "addGroup rd pd n gr st = Inr (waitForGroup rd n (sg_connections gr) st)"
      by (simp add: addGroup_def)
    moreover obtain st' es where "foldE (addGroup rd pd n) groups (waitForGroup rd n (sg_connections gr) st) = Inr st'"
        "st_stack st' = st_stack st @ es" "length es = length (filter sg_complete groups)"
        "list_all (entry_of groups n) es"
      using Cons.IH [of "waitForGroup rd n (sg_connections gr) st"] Cons.prems by auto
    ultimately show ?thesis using False mono
      by (intro exI [of _ st']) (auto simp: list_all_iff)
  qed
qed simp

definition hasMainInput :: "digraph \<Rightarrow> node \<Rightarrow> bool" where
  "hasMainInput g n \<longleftrightarrow> list_ex (\<lambda>c. c_to c = n \<and> c_type c = Main) (getConnections g None)"

definition entriesFor :: "locale_compare \<Rightarrow> digraph \<Rightarrow> run_data \<Rightarrow> pin_data \<Rightarrow> node \<Rightarrow> nat" where
  "entriesFor lc g rd pd n =
     (if hasMainInput g n then length (filter sg_complete (getSourceDataGroups lc g n rd pd)) else 1)"

definition startEntry :: "locale_compare \<Rightarrow> digraph \<Rightarrow> run_data \<Rightarrow> pin_data \<Rightarrow> node \<Rightarrow> execute_data \<Rightarrow> bool" where
  "startEntry lc g rd pd n e \<longleftrightarrow>
     (if hasMainInput g n then entry_of (getSourceDataGroups lc g n rd pd) n e
      else e = \<lparr>ed_node = n, ed_main = [[emptyItem]], ed_source = None\<rparr>)"

lemma addStartNode_ok:
  assumes wf: "wf_graph g" and n: "n \<in> members g"
  shows "\<exists>st'. addStartNode lc g rd pd n st = Inr st' \<and>
    (\<exists>es. st_stack st' = st_stack st @ es \<and> length es = entriesFor lc g rd pd n \<and>
       list_all (startEntry lc g rd pd n) es)"
proof -
  obtain cs where cs: "getDirectParentConnections g n = Inr cs" "set cs = {c \<in> conns g. c_to c = n}"
    using getDirectParentConnections_set [OF wf n] .
  have main: "filter (\<lambda>c. c_type c = Main) cs = [] \<longleftrightarrow> \<not> hasMainInput g n"
    using cs(2) by (auto simp: filter_empty_conv hasMainInput_def list_ex_iff)
  show ?thesis
  proof (cases "hasMainInput g n")
    case True
    have "list_all (good_group (hasSourceData rd pd)) (getSourceDataGroups lc g n rd pd)"
      using getSourceDataGroups_exact(2) [of rd pd lc g n] by (simp add: list_all_iff)
    from groups_ok [OF this, of n st] show ?thesis
      using cs(1) main True
      by (auto simp: addStartNode_def entriesFor_def list_all_iff startEntry_def)
  next
    case False
    then show ?thesis using cs(1) main
      by (simp add: addStartNode_def entriesFor_def startEntry_def)
  qed
qed

lemma recreateNodeExecutionStack_ok:
  assumes wf: "wf_graph g" and starts: "set startNodes \<subseteq> members g"
    and enabled: "\<forall>n \<in> members g. \<not> n_disabled n"
  shows "\<exists>st. recreateNodeExecutionStack lc g startNodes rd pd = Inr st \<and>
    length (st_stack st) = sum_list (map (entriesFor lc g rd pd) startNodes) \<and>
    (\<forall>e \<in> set (st_stack st). \<exists>n \<in> set startNodes. startEntry lc g rd pd n e)"
proof -
  have loop: "\<exists>st'. foldE (addStartNode lc g rd pd) ns st = Inr st' \<and>
      (\<exists>es. st_stack st' = st_stack st @ es \<and> length es = sum_list (map (entriesFor lc g rd pd) ns) \<and>
        (\<forall>e \<in> set es. \<exists>n \<in> set ns. startEntry lc g rd pd n e))"
    if "set ns \<subseteq> members g" for ns st
    using that
  proof (induction ns arbitrary: st)
    case (Cons n ns)
    obtain st1 es1 where 1: "addStartNode lc g rd pd n st = Inr st1" "st_stack st1 = st_stack st @ es1"
        "length es1 = entriesFor lc g rd pd n" "list_all (startEntry lc g rd pd n) es1"
      using addStartNode_ok [OF wf, of n lc rd pd st] Cons.prems by auto
    obtain st2 es2 where "foldE (addStartNode lc g rd pd) ns st1 = Inr st2"
        "st_stack st2 = st_stack st1 @ es2" "length es2 = sum_list (map (entriesFor lc g rd pd) ns)"
        "\<forall>e \<in> set es2. \<exists>n \<in> set ns. startEntry lc g rd pd n e"
      using Cons.IH [of st1] Cons.prems by auto
    with 1 show ?case by (intro exI [of _ st2]) (auto simp: list_all_iff)
  qed simp
  have "forEach (getNodes g) (\<lambda>n. throwIf (n_disabled n) (ContainsDisabledNode (n_name n))) = Inr ()"
    using enabled by (simp add: forEach_Inr_iff members_def)
  then show ?thesis
    using loop [OF starts, of "\<lparr>st_stack = [], st_waiting = [], st_waitingSource = []\<rparr>"]
    by (auto simp: recreateNodeExecutionStack_def)
qed

end
