(* ===== verification/ConnectionMaps.thy ===== *)
theory ConnectionMaps
  imports DirectedGraph "HOL-Library.Multiset"
begin

text \<open>
  \<open>mapConnectionsByDestination\<close>
  (\<open>packages/workflow/src/common/map-connections-by-destination.ts\<close>) turns the
  connections listed by source into connections listed by destination. The nested format
  is read through two views: \<open>listed\<close>, all connections in the order the loops visit
  them, and \<open>slotAt\<close>, the connections of one node, type and index.
\<close>

section \<open>Turning the format around\<close>

text \<open>
  One connection: the entry of its destination and the array of its type are created when
  they are missing, the array is filled with empty slots up to the index, and the source is
  pushed on the slot, unless the slot is \<open>null\<close>.
\<close>

definition putIncoming ::
  "string \<Rightarrow> connection_type \<Rightarrow> nat \<Rightarrow> iconnection \<Rightarrow> iconnections \<Rightarrow> iconnections" where
  "putIncoming sourceNode ty inputIndex info result =
     (let entry = (case jm_get result (ic_node info) of None \<Rightarrow> [] | Some e \<Rightarrow> e);
          slots = (case jm_get entry (ic_type info) of None \<Rightarrow> [] | Some outs \<Rightarrow> outs);
          padded = slots @ replicate (Suc (ic_index info) - length slots) (Some []);
          item = \<lparr>ic_node = sourceNode, ic_type = ty, ic_index = inputIndex\<rparr>;
          pushed = padded[ic_index info := map_option (\<lambda>cs. cs @ [item]) (padded ! ic_index info)]
      in jm_set result (ic_node info) (jm_set entry (ic_type info) pushed))"

definition mapConnectionsByDestination :: "iconnections \<Rightarrow> iconnections" where
  "mapConnectionsByDestination connections =
     foldl (\<lambda>result (sourceNode, byType).
       foldl (\<lambda>result (ty, outs).
         foldl (\<lambda>result (inputIndex, conns).
           foldl (\<lambda>result info. putIncoming sourceNode ty inputIndex info result)
             result (case conns of None \<Rightarrow> [] | Some cs \<Rightarrow> cs))
           result (enumerate 0 outs))
         result byType)
       [] connections"

section \<open>The two views\<close>

type_synonym slot_key = "string \<times> connection_type \<times> nat"

definition listed_out :: "string \<Rightarrow> connection_type \<Rightarrow> outputs_of \<Rightarrow> (slot_key \<times> iconnection) list" where
  "listed_out n ty outs =
     concat (map (\<lambda>(i, conns). map (Pair (n, ty, i)) (case conns of None \<Rightarrow> [] | Some cs \<Rightarrow> cs))
                 (enumerate 0 outs))"

definition listed :: "iconnections \<Rightarrow> (slot_key \<times> iconnection) list" where
  "listed m = concat (map (\<lambda>(n, byType). concat (map (\<lambda>(ty, outs). listed_out n ty outs) byType)) m)"

definition slot_of :: "outputs_of \<Rightarrow> nat \<Rightarrow> iconnection list" where
  "slot_of outs i = (case arr_get outs i of None \<Rightarrow> [] | Some cs \<Rightarrow> cs)"

fun slotAt :: "iconnections \<Rightarrow> slot_key \<Rightarrow> iconnection list" where
  "slotAt m (n, ty, i) =
     (case jm_get m n of
        None \<Rightarrow> []
      | Some byType \<Rightarrow> (case jm_get byType ty of None \<Rightarrow> [] | Some outs \<Rightarrow> slot_of outs i))"

text \<open>The same connection seen from its other end.\<close>

fun turned :: "slot_key \<times> iconnection \<Rightarrow> slot_key \<times> iconnection" where
  "turned ((n, ty, i), c) =
     ((ic_node c, ic_type c, ic_index c), \<lparr>ic_node = n, ic_type = ty, ic_index = i\<rparr>)"

lemma turned_turned [simp]: "turned (turned e) = e"
  by (cases e rule: turned.cases) simp

text \<open>Objects have no repeated key.\<close>

definition keyed :: "iconnections \<Rightarrow> bool" where
  "keyed m \<longleftrightarrow> distinct (map fst m) \<and> (\<forall>(n, byType) \<in> set m. distinct (map fst byType))"

section \<open>The loops as one\<close>

definition putListed :: "iconnections \<Rightarrow> slot_key \<times> iconnection \<Rightarrow> iconnections" where
  "putListed result e = (case e of ((n, ty, i), c) \<Rightarrow> putIncoming n ty i c result)"

lemma foldl_concat: "foldl f a (concat xss) = foldl (\<lambda>a xs. foldl f a xs) a xss"
  by (induction xss arbitrary: a) auto

lemma foldl_map_body: "foldl f a (map g xs) = foldl (\<lambda>a x. f a (g x)) a xs"
  by (induction xs arbitrary: a) auto

lemma mapConnectionsByDestination_listed:
  "mapConnectionsByDestination m = foldl putListed [] (listed m)"
proof -
  have slots: "foldl putListed r (listed_out n ty outs) =
      foldl (\<lambda>result (i, conns). foldl (\<lambda>result info. putIncoming n ty i info result)
        result (case conns of None \<Rightarrow> [] | Some cs \<Rightarrow> cs)) r (enumerate 0 outs)" for r n ty outs
    unfolding listed_out_def foldl_concat foldl_map_body
    by (simp add: split_def foldl_map_body putListed_def)
  show ?thesis
    unfolding mapConnectionsByDestination_def listed_def foldl_concat foldl_map_body
    by (simp add: split_def foldl_concat foldl_map_body slots)
qed

lemma keyed_nested:
  "keyed r \<Longrightarrow> distinct (map fst (case jm_get r k of None \<Rightarrow> [] | Some e \<Rightarrow> e))"
  by (auto simp: keyed_def split: option.splits dest: map_of_SomeD)

lemma keyed_putListed: "keyed r \<Longrightarrow> keyed (putListed r e)"
  using keyed_nested [of r "ic_node (snd e)"]
  by (auto simp: putListed_def putIncoming_def Let_def keyed_def set_jm_set split: prod.splits)

lemma keyed_mapConnectionsByDestination: "keyed (mapConnectionsByDestination m)"
proof -
  have "keyed r \<Longrightarrow> keyed (foldl putListed r es)" for r es
    by (induction es arbitrary: r) (simp_all add: keyed_putListed)
  moreover have "keyed []" by (simp add: keyed_def)
  ultimately show ?thesis by (simp add: mapConnectionsByDestination_listed)
qed

section \<open>What a slotAt of the result holds\<close>

text \<open>No slot the loops create is \<open>null\<close>.\<close>

definition no_null :: "iconnections \<Rightarrow> bool" where
  "no_null r \<longleftrightarrow> (\<forall>n byType ty outs. jm_get r n = Some byType \<longrightarrow> jm_get byType ty = Some outs \<longrightarrow> None \<notin> set outs)"

lemma slot_of_push:
  assumes "None \<notin> set outs"
  shows "slot_of ((outs @ replicate (Suc i - length outs) (Some []))
           [i := map_option (\<lambda>cs. cs @ [x]) ((outs @ replicate (Suc i - length outs) (Some [])) ! i)]) j =
         slot_of outs j @ (if j = i then [x] else [])"
    and "None \<notin> set ((outs @ replicate (Suc i - length outs) (Some []))
           [i := map_option (\<lambda>cs. cs @ [x]) ((outs @ replicate (Suc i - length outs) (Some [])) ! i)])"
proof -
  let ?p = "outs @ replicate (Suc i - length outs) (Some [])"
  have p: "None \<notin> set ?p" using assms by auto
  have len: "i < length ?p" by simp
  then have "?p ! i \<in> set ?p" by (rule nth_mem)
  with p obtain cs where cs: "?p ! i = Some cs" by (metis option.exhaust)
  have "slot_of outs i = cs"
    using cs by (auto simp: slot_of_def arr_get_def nth_append split: if_splits)
  then show "slot_of (?p [i := map_option (\<lambda>cs. cs @ [x]) (?p ! i)]) j = slot_of outs j @ (if j = i then [x] else [])"
    unfolding cs by (auto simp: slot_of_def arr_get_def nth_append nth_list_update)
  show "None \<notin> set (?p [i := map_option (\<lambda>cs. cs @ [x]) (?p ! i)])"
    unfolding cs using p set_update_subset_insert [of ?p i "Some (cs @ [x])"] by auto
qed

lemma slot_putListed:
  assumes "no_null r"
  shows "slotAt (putListed r e) k = slotAt r k @ (if fst (turned e) = k then [snd (turned e)] else [])"
    and "no_null (putListed r e)"
proof -
  obtain n ty i c where e: "e = ((n, ty, i), c)" by (cases e rule: turned.cases)
  obtain n' ty' i' where k: "k = (n', ty', i')" by (cases k)
  let ?entry = "case jm_get r (ic_node c) of None \<Rightarrow> [] | Some e \<Rightarrow> e"
  let ?slots = "case jm_get ?entry (ic_type c) of None \<Rightarrow> [] | Some outs \<Rightarrow> outs"
  have nn: "None \<notin> set ?slots" using assms by (auto simp: no_null_def split: option.splits)
  note push = slot_of_push [OF nn, where i = "ic_index c" and x = "\<lparr>ic_node = n, ic_type = ty, ic_index = i\<rparr>"]
  have empty: "slot_of [] j = []" for j by (simp add: slot_of_def arr_get_def)
  show "slotAt (putListed r e) k = slotAt r k @ (if fst (turned e) = k then [snd (turned e)] else [])"
    unfolding e k putListed_def putIncoming_def Let_def
    using push(1) [of i'] by (auto simp: empty split: option.splits)
  show "no_null (putListed r e)"
    unfolding e putListed_def putIncoming_def Let_def
    using assms push(2) by (auto simp: no_null_def split: option.splits if_splits)
qed

lemma slot_foldl_putListed:
  "no_null r \<Longrightarrow> slotAt (foldl putListed r es) k = slotAt r k @ map snd (filter (\<lambda>e. fst e = k) (map turned es))"
  by (induction es arbitrary: r) (simp_all add: slot_putListed)

lemma slot_mapConnectionsByDestination:
  "slotAt (mapConnectionsByDestination m) k = map snd (filter (\<lambda>e. fst e = k) (map turned (listed m)))"
proof -
  have "slotAt [] k = []" by (cases k) simp
  then show ?thesis by (simp add: mapConnectionsByDestination_listed slot_foldl_putListed no_null_def)
qed

section \<open>Slots and the list of connections\<close>

lemma filter_listed_out:
  "filter (\<lambda>e. fst e = (n', ty', i')) (listed_out n ty outs) =
     (if n' = n \<and> ty' = ty then map (Pair (n, ty, i')) (slot_of outs i') else [])"
proof -
  have "filter (\<lambda>e. fst e = (n', ty', i'))
      (concat (map (\<lambda>(i, conns). map (Pair (n, ty, i)) (case conns of None \<Rightarrow> [] | Some cs \<Rightarrow> cs)) (enumerate k outs))) =
    (if n' = n \<and> ty' = ty \<and> k \<le> i' then map (Pair (n, ty, i')) (slot_of outs (i' - k)) else [])" for k
  proof (induction outs arbitrary: k)
    case (Cons conns outs)
    have head: "filter (\<lambda>e. fst e = (n', ty', i')) (map (Pair (n, ty, k)) cs) =
        (if n' = n \<and> ty' = ty \<and> i' = k then map (Pair (n, ty, i')) cs else [])" for cs :: "iconnection list"
      by (auto simp: filter_map o_def)
    have shift: "slot_of (conns # outs) (Suc j) = slot_of outs j"
      "slot_of (conns # outs) 0 = (case conns of None \<Rightarrow> [] | Some cs \<Rightarrow> cs)" for j
      by (simp_all add: slot_of_def arr_get_def)
    consider "i' < k" | "i' = k" | j where "i' = Suc (k + j)"
      by (metis less_iff_Suc_add linorder_less_linear)
    then show ?case using Cons.IH [of "Suc k"] by cases (auto simp: head shift Suc_diff_le)
  qed (simp add: slot_of_def arr_get_def)
  from this [of 0] show ?thesis by (simp add: listed_out_def)
qed

text \<open>Only the entry with the key contributes.\<close>

lemma filter_concat_entries:
  assumes "distinct (map fst m)" and "\<And>k v. k \<noteq> n \<Longrightarrow> filter P (f (k, v)) = []"
  shows "filter P (concat (map f m)) = (case jm_get m n of None \<Rightarrow> [] | Some v \<Rightarrow> filter P (f (n, v)))"
  using assms(1)
proof (induction m)
  case (Cons e m)
  obtain k v where e: "e = (k, v)" by fastforce
  show ?case
  proof (cases "k = n")
    case True
    with Cons.prems e have "jm_get m n = None" by (simp add: map_of_eq_None_iff)
    with True e Cons show ?thesis by simp
  next
    case False
    with Cons e show ?thesis by (simp add: assms(2))
  qed
qed simp

lemma slot_listed:
  assumes "keyed m"
  shows "slotAt m k = map snd (filter (\<lambda>e. fst e = k) (listed m))"
proof -
  obtain n ty i where k: "k = (n, ty, i)" by (cases k)
  let ?P = "\<lambda>e :: slot_key \<times> iconnection. fst e = (n, ty, i)"
  let ?inner = "\<lambda>n' byType. concat (map (\<lambda>(ty, outs). listed_out n' ty outs) byType)"
  have none: "filter ?P (?inner n' byType) = []" if "n' \<noteq> n" for n' byType
    using that by (induction byType) (auto simp: filter_listed_out)
  have inner: "filter ?P (?inner n byType) =
      (case jm_get byType ty of None \<Rightarrow> [] | Some outs \<Rightarrow> map (Pair (n, ty, i)) (slot_of outs i))"
    if "distinct (map fst byType)" for byType
    using that by (subst filter_concat_entries [of _ ty]) (auto simp: filter_listed_out split: option.splits)
  have "filter ?P (listed m) = (case jm_get m n of None \<Rightarrow> [] | Some byType \<Rightarrow> filter ?P (?inner n byType))"
    unfolding listed_def using assms none
    by (subst filter_concat_entries [of _ n]) (auto simp: keyed_def split: option.splits)
  also have "\<dots> = map (Pair k) (slotAt m k)"
  proof (cases "jm_get m n")
    case (Some byType)
    then have "distinct (map fst byType)" using assms by (auto simp: keyed_def dest: map_of_SomeD)
    with Some inner show ?thesis by (simp add: k split: option.splits)
  qed (simp add: k)
  finally show ?thesis by (simp add: k o_def)
qed

lemma mset_by_key:
  assumes "\<And>k. filter_mset (\<lambda>e. fst e = k) A = filter_mset (\<lambda>e. fst e = k) B"
  shows "A = B"
proof (rule multiset_eqI)
  fix e
  have "count (filter_mset (\<lambda>x. fst x = fst e) A) e = count (filter_mset (\<lambda>x. fst x = fst e) B) e"
    using assms by simp
  then show "count A e = count B e" by simp
qed

lemma key_and_value:
  "image_mset (Pair k) (image_mset snd (filter_mset (\<lambda>e. fst e = k) A)) = filter_mset (\<lambda>e. fst e = k) A"
  by (induction A) auto

lemma listed_mapConnectionsByDestination:
  "mset (listed (mapConnectionsByDestination m)) = image_mset turned (mset (listed m))"
proof (rule mset_by_key)
  fix k
  let ?m = "mapConnectionsByDestination m"
  have "mset (map snd (filter (\<lambda>e. fst e = k) (listed ?m))) =
      mset (map snd (filter (\<lambda>e. fst e = k) (map turned (listed m))))"
    using slot_listed [OF keyed_mapConnectionsByDestination, of m k] slot_mapConnectionsByDestination [of m k]
    by simp
  then have "image_mset (Pair k) (image_mset snd (filter_mset (\<lambda>e. fst e = k) (mset (listed ?m)))) =
      image_mset (Pair k) (image_mset snd (filter_mset (\<lambda>e. fst e = k) (image_mset turned (mset (listed m)))))"
    by simp
  then show "filter_mset (\<lambda>e. fst e = k) (mset (listed ?m)) =
      filter_mset (\<lambda>e. fst e = k) (image_mset turned (mset (listed m)))"
    unfolding key_and_value .
qed

text \<open>Turned around twice, every slot holds the connections it held.\<close>

lemma mapConnectionsByDestination_twice:
  assumes "keyed m"
  shows "mset (slotAt (mapConnectionsByDestination (mapConnectionsByDestination m)) k) = mset (slotAt m k)"
proof -
  let ?P = "\<lambda>e :: slot_key \<times> iconnection. fst e = k"
  have "mset (slotAt (mapConnectionsByDestination (mapConnectionsByDestination m)) k) =
      image_mset snd (filter_mset ?P (image_mset turned (mset (listed (mapConnectionsByDestination m)))))"
    by (simp add: slot_mapConnectionsByDestination)
  also have "\<dots> = image_mset snd (filter_mset ?P (mset (listed m)))"
    by (simp add: listed_mapConnectionsByDestination multiset.map_comp o_def)
  also have "\<dots> = mset (slotAt m k)" by (simp add: slot_listed [OF assms])
  finally show ?thesis .
qed

end
