(* ===== verification/ConnectedNodes.thy ===== *)
theory ConnectedNodes
  imports ConnectionMaps
begin

text \<open>
  The node queries of the workflow package (\<open>packages/workflow/src/common\<close>) over the nested
  connection format: \<open>getConnectedNodes\<close>, which collects what a node leads to with a memo
  and the current path, its two uses \<open>getChildNodes\<close> and \<open>getParentNodes\<close>,
  and \<open>getExecutableNodeNames\<close>.

  The memo is keyed by the string \<open>depth:name\<close>; a depth holds no colon, so the pair of
  both is the same key.
\<close>

section \<open>Connections of a node\<close>

datatype followed_type = OfType connection_type | AllTypes | AllNonMain

text \<open>The types followed at a node and, in order, the connections of all their outputs.\<close>

definition typesOf :: "followed_type \<Rightarrow> (connection_type, outputs_of) js_map \<Rightarrow> connection_type list" where
  "typesOf ft byType =
     (case ft of
        AllTypes \<Rightarrow> map fst byType
      | AllNonMain \<Rightarrow> filter (\<lambda>t. t \<noteq> Main) (map fst byType)
      | OfType t \<Rightarrow> [t])"

definition connectionsOf ::
  "followed_type \<Rightarrow> (connection_type, outputs_of) js_map \<Rightarrow> iconnection list" where
  "connectionsOf ft byType =
     concat (map (\<lambda>t. case jm_get byType t of
                         None \<Rightarrow> []
                       | Some outs \<Rightarrow> concat (map (\<lambda>o'. case o' of None \<Rightarrow> [] | Some cs \<Rightarrow> cs) outs))
                 (typesOf ft byType))"

text \<open>Remove the first occurrence, then put the name in front.\<close>

definition moveToFront :: "string \<Rightarrow> string list \<Rightarrow> string list" where
  "moveToFront k ks = k # remove1 k ks"

type_synonym memo = "(int \<times> string) \<rightharpoonup> string list"

text \<open>
  The loop over the connections of the node that was put on the path last, with the depth its
  children are called with. The inner conditional is the call for one child.
\<close>

function collectLoop ::
  "iconnections \<Rightarrow> followed_type \<Rightarrow> int \<Rightarrow> string set \<Rightarrow> iconnection list \<Rightarrow> string list \<Rightarrow> memo
     \<Rightarrow> string list \<times> memo" where
  "collectLoop conn ft depth path [] ret memo = (ret, memo)"
| "collectLoop conn ft depth path (c # cs) ret memo =
     (if ic_node c \<in> path then collectLoop conn ft depth path cs ret memo
      else
        let ret1 = moveToFront (ic_node c) ret;
            r = (if depth = 0 then ([], memo)
                 else case jm_get conn (ic_node c) of
                   None \<Rightarrow> ([], memo)
                 | Some byType \<Rightarrow>
                     (case memo (depth, ic_node c) of
                        Some cached \<Rightarrow> (cached, memo)
                      | None \<Rightarrow>
                          let r = collectLoop conn ft (if depth = - 1 then depth else depth - 1)
                                    (insert (ic_node c) path) (connectionsOf ft byType) [] memo
                          in (fst r, (snd r)((depth, ic_node c) \<mapsto> fst r))))
        in collectLoop conn ft depth path cs (foldr moveToFront (fst r) ret1) (snd r))"
  by pat_completeness auto

lemma keys_shrink:
  assumes "map_of m k = Some v" and "k \<notin> path"
  shows "card (fst ` set m - insert k path) < card (fst ` set m - path)"
proof (rule psubset_card_mono)
  have "k \<in> fst ` set m" using assms(1) by (force dest: map_of_SomeD)
  then show "fst ` set m - insert k path \<subset> fst ` set m - path" using assms(2) by auto
qed simp

termination collectLoop
  by (relation "measures [\<lambda>(conn, _, _, path, _, _, _). card (fst ` set conn - path),
                          \<lambda>(_, _, _, _, cs, _, _). length cs]")
     (auto simp: keys_shrink)

definition collectConnectedNodes ::
  "iconnections \<Rightarrow> string \<Rightarrow> followed_type \<Rightarrow> int \<Rightarrow> string set \<Rightarrow> memo \<Rightarrow> string list \<times> memo" where
  "collectConnectedNodes conn n ft depth path memo =
     (if depth = 0 then ([], memo)
      else case jm_get conn n of
        None \<Rightarrow> ([], memo)
      | Some byType \<Rightarrow>
          (case memo (depth, n) of
             Some cached \<Rightarrow> (cached, memo)
           | None \<Rightarrow>
               let r = collectLoop conn ft (if depth = - 1 then depth else depth - 1)
                         (insert n path) (connectionsOf ft byType) [] memo
               in (fst r, (snd r)((depth, n) \<mapsto> fst r))))"

lemma collectLoop_Cons:
  "collectLoop conn ft depth path (c # cs) ret memo =
     (if ic_node c \<in> path then collectLoop conn ft depth path cs ret memo
      else let r = collectConnectedNodes conn (ic_node c) ft depth path memo
           in collectLoop conn ft depth path cs (foldr moveToFront (fst r) (moveToFront (ic_node c) ret)) (snd r))"
  by (simp add: collectConnectedNodes_def Let_def)

declare collectLoop.simps(2) [simp del]

definition getConnectedNodes :: "iconnections \<Rightarrow> string \<Rightarrow> followed_type \<Rightarrow> int \<Rightarrow> string list" where
  "getConnectedNodes conn n ft depth = fst (collectConnectedNodes conn n ft depth {} Map.empty)"

definition getChildNodes :: "iconnections \<Rightarrow> string \<Rightarrow> followed_type \<Rightarrow> int \<Rightarrow> string list" where
  "getChildNodes connectionsBySourceNode n ft depth = getConnectedNodes connectionsBySourceNode n ft depth"

definition getParentNodes :: "iconnections \<Rightarrow> string \<Rightarrow> followed_type \<Rightarrow> int \<Rightarrow> string list" where
  "getParentNodes connectionsByDestinationNode n ft depth =
     getConnectedNodes connectionsByDestinationNode n ft depth"

definition getExecutableNodeNames :: "iconnections \<Rightarrow> iconnections \<Rightarrow> string \<Rightarrow> string list" where
  "getExecutableNodeNames bySource byDestination startNodeName =
     (let reachable = foldl (\<lambda>acc n. set_add n acc) [startNodeName]
                        (getChildNodes bySource startNodeName (OfType Main) (- 1))
      in foldl (\<lambda>acc n. foldl (\<lambda>acc sub. set_add sub acc) acc
                          (getParentNodes byDestination n AllNonMain (- 1))) reachable reachable)"

section \<open>What is collected\<close>

definition follows_rel :: "iconnections \<Rightarrow> followed_type \<Rightarrow> (string \<times> string) set" where
  "follows_rel conn ft =
     {(a, b). \<exists>byType. jm_get conn a = Some byType \<and> b \<in> ic_node ` set (connectionsOf ft byType)}"

lemma moveToFront_props [simp]:
  "set (moveToFront k ks) = insert k (set ks)"
  "distinct ks \<Longrightarrow> distinct (moveToFront k ks)"
  by (auto simp: moveToFront_def) (metis in_set_remove1 list.set_intros)+

lemma foldr_moveToFront [simp]:
  "set (foldr moveToFront ks acc) = set ks \<union> set acc"
  "distinct acc \<Longrightarrow> distinct (foldr moveToFront ks acc)"
  by (induction ks) auto

text \<open>
  The invariant of a call with unlimited depth, for the nodes of the memo and those without
  connections (\<open>done\<close>): a memo only names such nodes, below the node they are memoised for,
  and never a node that was on the path from the start.
\<close>

definition settled :: "iconnections \<Rightarrow> memo \<Rightarrow> string set" where
  "settled conn memo = {m. memo (- 1, m) \<noteq> None} \<union> {m. jm_get conn m = None}"

definition memo_inv :: "iconnections \<Rightarrow> followed_type \<Rightarrow> string \<Rightarrow> memo \<Rightarrow> bool" where
  "memo_inv conn ft origin memo \<longleftrightarrow>
     (\<forall>m v. memo (- 1, m) = Some v \<longrightarrow>
        set v \<subseteq> settled conn memo \<and> set v \<subseteq> {b. (m, b) \<in> (follows_rel conn ft)\<^sup>+} \<and> origin \<notin> set v \<and> distinct v)"

definition expanded :: "iconnections \<Rightarrow> followed_type \<Rightarrow> string set \<Rightarrow> string list \<Rightarrow> memo \<Rightarrow> memo \<Rightarrow> bool" where
  "expanded conn ft path ret memo memo' \<longleftrightarrow>
     (\<forall>m. memo (- 1, m) = None \<longrightarrow> memo' (- 1, m) \<noteq> None \<longrightarrow>
        m \<in> set ret \<and> (\<forall>b. (m, b) \<in> follows_rel conn ft \<longrightarrow> b \<in> path \<or> b \<in> set ret))"

definition memo_le :: "memo \<Rightarrow> memo \<Rightarrow> bool" where
  "memo_le memo memo' \<longleftrightarrow> (\<forall>m v. memo (- 1, m) = Some v \<longrightarrow> memo' (- 1, m) = Some v)"

lemma settled_mono: "memo_le memo memo' \<Longrightarrow> settled conn memo \<subseteq> settled conn memo'"
  by (auto simp: settled_def memo_le_def)

lemma expanded_trans:
  assumes "expanded conn ft path ret memo memo1" and "expanded conn ft path ret' memo1 memo2"
    and "set ret \<subseteq> set ret'" and "memo_le memo1 memo2"
  shows "expanded conn ft path ret' memo memo2"
  unfolding expanded_def
proof (intro allI impI)
  fix m
  assume m: "memo (- 1, m) = None" "memo2 (- 1, m) \<noteq> None"
  show "m \<in> set ret' \<and> (\<forall>b. (m, b) \<in> follows_rel conn ft \<longrightarrow> b \<in> path \<or> b \<in> set ret')"
  proof (cases "memo1 (- 1, m) = None")
    case True
    with assms(2) m show ?thesis unfolding expanded_def by blast
  next
    case False
    with assms(1,3) m(1) show ?thesis unfolding expanded_def by blast
  qed
qed

text \<open>One call: its result and its memo, given what its loop does.\<close>

definition loop_result ::
  "iconnections \<Rightarrow> followed_type \<Rightarrow> string \<Rightarrow> string set \<Rightarrow> iconnection list \<Rightarrow> string list \<Rightarrow> memo
     \<Rightarrow> string list \<Rightarrow> memo \<Rightarrow> bool" where
  "loop_result conn ft origin path cs ret memo ret' memo' \<longleftrightarrow>
     memo_inv conn ft origin memo' \<and> memo_le memo memo' \<and> distinct ret' \<and> origin \<notin> set ret' \<and>
     set ret \<subseteq> set ret' \<and> set ret' \<subseteq> settled conn memo' \<and>
     set ret' \<subseteq> set ret \<union> {b. \<exists>c \<in> set cs. (ic_node c, b) \<in> (follows_rel conn ft)\<^sup>*} \<and>
     (\<forall>c \<in> set cs. ic_node c \<in> path \<or> ic_node c \<in> set ret') \<and> expanded conn ft path ret' memo memo'"

definition call_result ::
  "iconnections \<Rightarrow> followed_type \<Rightarrow> string \<Rightarrow> string set \<Rightarrow> string \<Rightarrow> memo \<Rightarrow> string list \<Rightarrow> memo \<Rightarrow> bool" where
  "call_result conn ft origin path n memo r memo' \<longleftrightarrow>
     memo_inv conn ft origin memo' \<and> memo_le memo memo' \<and> origin \<notin> set r \<and> n \<in> settled conn memo' \<and>
     distinct r \<and> set r \<subseteq> settled conn memo' \<and> set r \<subseteq> {b. (n, b) \<in> (follows_rel conn ft)\<^sup>+} \<and>
     expanded conn ft path (n # r) memo memo'"

lemma follows_relI:
  "jm_get conn n = Some byType \<Longrightarrow> c \<in> set (connectionsOf ft byType) \<Longrightarrow> (n, ic_node c) \<in> follows_rel conn ft"
  by (auto simp: follows_rel_def)

lemma call_from_loop:
  assumes n: "jm_get conn n = Some byType" and new: "memo (- 1, n) = None"
    and loop: "loop_result conn ft origin (insert n path) (connectionsOf ft byType) [] memo r memo1"
  shows "call_result conn ft origin path n memo r (memo1((- 1, n) \<mapsto> r))"
proof -
  let ?memo' = "memo1((- 1, n) \<mapsto> r)"
  have l: "memo_inv conn ft origin memo1" "memo_le memo memo1" "distinct r" "origin \<notin> set r"
    "set r \<subseteq> settled conn memo1"
    "set r \<subseteq> {b. \<exists>c \<in> set (connectionsOf ft byType). (ic_node c, b) \<in> (follows_rel conn ft)\<^sup>*}"
    "\<forall>c \<in> set (connectionsOf ft byType). ic_node c \<in> insert n path \<or> ic_node c \<in> set r"
    "expanded conn ft (insert n path) r memo memo1"
    using loop by (auto simp: loop_result_def)
  have settled: "settled conn memo1 \<subseteq> settled conn ?memo'" "n \<in> settled conn ?memo'"
    by (auto simp: settled_def)
  have reach: "set r \<subseteq> {b. (n, b) \<in> (follows_rel conn ft)\<^sup>+}"
    using l(6) follows_relI [OF n] by (blast intro: rtrancl_into_trancl2)
  have "memo_inv conn ft origin ?memo'"
    unfolding memo_inv_def
  proof (intro allI impI)
    fix m v
    assume m: "?memo' (- 1, m) = Some v"
    show "set v \<subseteq> settled conn ?memo' \<and> set v \<subseteq> {b. (m, b) \<in> (follows_rel conn ft)\<^sup>+} \<and>
      origin \<notin> set v \<and> distinct v"
    proof (cases "m = n")
      case True
      with m l(3,4) reach subset_trans [OF l(5) settled(1)] show ?thesis by simp
    next
      case False
      with m have v: "memo1 (- 1, m) = Some v" by simp
      with l(1) have inv: "set v \<subseteq> settled conn memo1" "set v \<subseteq> {b. (m, b) \<in> (follows_rel conn ft)\<^sup>+}"
        "origin \<notin> set v" "distinct v"
        unfolding memo_inv_def by blast+
      from subset_trans [OF inv(1) settled(1)] inv(2-4) show ?thesis by blast
    qed
  qed
  moreover have "memo_le memo ?memo'" using l(2) new by (auto simp: memo_le_def)
  moreover have "expanded conn ft path (n # r) memo ?memo'"
    unfolding expanded_def
  proof (intro allI impI)
    fix m
    assume m: "memo (- 1, m) = None" "?memo' (- 1, m) \<noteq> None"
    show "m \<in> set (n # r) \<and> (\<forall>b. (m, b) \<in> follows_rel conn ft \<longrightarrow> b \<in> path \<or> b \<in> set (n # r))"
    proof (cases "m = n")
      case True
      then show ?thesis using l(7) n by (auto simp: follows_rel_def)
    next
      case False
      with m l(8) show ?thesis by (auto simp: expanded_def)
    qed
  qed
  ultimately show ?thesis using l(3,4,5) settled reach by (auto simp: call_result_def)
qed

lemma collectLoop_result:
  assumes "origin \<in> path" and "memo_inv conn ft origin memo" and "distinct ret"
    and "origin \<notin> set ret" and "set ret \<subseteq> settled conn memo" and "depth = - 1"
  shows "loop_result conn ft origin path cs ret memo
    (fst (collectLoop conn ft depth path cs ret memo)) (snd (collectLoop conn ft depth path cs ret memo))"
  using assms
proof (induction conn ft depth path cs ret memo rule: collectLoop.induct)
  case (1 conn ft depth path ret memo)
  then show ?case by (auto simp: loop_result_def memo_le_def expanded_def)
next
  case (2 conn ft depth path c cs ret memo)
  let ?c = "ic_node c"
  show ?case
  proof (cases "?c \<in> path")
    case True
    have "loop_result conn ft origin path cs ret memo
        (fst (collectLoop conn ft depth path cs ret memo)) (snd (collectLoop conn ft depth path cs ret memo))"
      using "2.IH"(1) [OF True] "2.prems" by blast
    with True show ?thesis by (auto simp: collectLoop_Cons loop_result_def)
  next
    case False
    obtain r memo1 where call: "collectConnectedNodes conn ?c ft depth path memo = (r, memo1)"
      by fastforce
    have cr: "call_result conn ft origin path ?c memo r memo1"
    proof (cases "jm_get conn ?c")
      case None
      with call "2.prems" show ?thesis
        by (auto simp: collectConnectedNodes_def call_result_def memo_le_def expanded_def settled_def)
    next
      case (Some byType)
      show ?thesis
      proof (cases "memo (depth, ?c)")
        case None
        let ?l = "collectLoop conn ft depth (insert ?c path) (connectionsOf ft byType) [] memo"
        have "loop_result conn ft origin (insert ?c path) (connectionsOf ft byType) [] memo (fst ?l) (snd ?l)"
          using "2.IH"(2) [OF False refl _ Some None] "2.prems" by simp
        from call_from_loop [OF Some _ this] None "2.prems"(6)
        have cr: "call_result conn ft origin path ?c memo (fst ?l) ((snd ?l)((- 1, ?c) \<mapsto> fst ?l))" by simp
        have "r = fst ?l" "memo1 = (snd ?l)((- 1, ?c) \<mapsto> fst ?l)"
          using call Some None "2.prems"(6) by (auto simp: collectConnectedNodes_def Let_def)
        with cr show ?thesis by simp
      next
        case (Some cached)
        with call \<open>jm_get conn ?c = Some byType\<close> "2.prems"(6) have "r = cached" "memo1 = memo"
          by (auto simp: collectConnectedNodes_def)
        then show ?thesis
          using Some "2.prems"(2,6) by (auto simp: call_result_def memo_inv_def memo_le_def expanded_def settled_def)
      qed
    qed
    let ?ret = "foldr moveToFront r (moveToFront ?c ret)"
    let ?l = "collectLoop conn ft depth path cs ?ret memo1"
    have le: "memo_le memo memo1" and inv1: "memo_inv conn ft origin memo1"
      and r: "origin \<notin> set r" "?c \<in> settled conn memo1" "set r \<subseteq> settled conn memo1"
        "set r \<subseteq> {b. (?c, b) \<in> (follows_rel conn ft)\<^sup>+}"
      and ex: "expanded conn ft path (?c # r) memo memo1"
      using cr by (auto simp: call_result_def)
    have ret: "set ?ret = insert ?c (set r \<union> set ret)" "distinct ?ret" "origin \<notin> set ?ret"
      "set ?ret \<subseteq> settled conn memo1"
      using "2.prems"(1,3,4,5) False r settled_mono [OF le, of conn] by auto
    have run: "collectLoop conn ft depth path (c # cs) ret memo = ?l"
      using False call by (simp add: collectLoop_Cons)
    have "loop_result conn ft origin path cs ?ret memo1 (fst ?l) (snd ?l)"
      using "2.IH"(3) [OF False refl call [unfolded collectConnectedNodes_def, symmetric]]
        "2.prems"(1,6) inv1 ret unfolding fst_conv snd_conv by blast
    then have l: "memo_inv conn ft origin (snd ?l)" "memo_le memo1 (snd ?l)" "distinct (fst ?l)"
      "origin \<notin> set (fst ?l)" "set ?ret \<subseteq> set (fst ?l)" "set (fst ?l) \<subseteq> settled conn (snd ?l)"
      "set (fst ?l) \<subseteq> set ?ret \<union> {b. \<exists>c \<in> set cs. (ic_node c, b) \<in> (follows_rel conn ft)\<^sup>*}"
      "\<forall>c \<in> set cs. ic_node c \<in> path \<or> ic_node c \<in> set (fst ?l)" "expanded conn ft path (fst ?l) memo1 (snd ?l)"
      unfolding loop_result_def by blast+
    have "set (?c # r) \<subseteq> set (fst ?l)" using l(5) ret(1) by auto
    from expanded_trans [OF ex l(9) this l(2)] have "expanded conn ft path (fst ?l) memo (snd ?l)" .
    moreover have "memo_le memo (snd ?l)" using le l(2) by (auto simp: memo_le_def)
    moreover have "set (fst ?l) \<subseteq> set ret \<union> {b. \<exists>c \<in> set (c # cs). (ic_node c, b) \<in> (follows_rel conn ft)\<^sup>*}"
      using l(7) ret(1) r(4) by (auto dest: trancl_into_rtrancl)
    ultimately show ?thesis
      unfolding run loop_result_def using l(1,3,4,5,6,8) ret(1) by auto
  qed
qed

lemma getConnectedNodes_exact:
  "distinct (getConnectedNodes conn n ft (- 1)) \<and>
   set (getConnectedNodes conn n ft (- 1)) = {m. (n, m) \<in> (follows_rel conn ft)\<^sup>+ \<and> m \<noteq> n}"
proof (cases "jm_get conn n")
  case None
  then have none: "(n, m) \<notin> follows_rel conn ft" for m by (simp add: follows_rel_def)
  then have "(n, m) \<notin> (follows_rel conn ft)\<^sup>+" for m by (meson tranclD)
  with None show ?thesis by (simp add: getConnectedNodes_def collectConnectedNodes_def)
next
  case (Some byType)
  let ?l = "collectLoop conn ft (- 1) {n} (connectionsOf ft byType) [] Map.empty"
  have "loop_result conn ft n {n} (connectionsOf ft byType) [] Map.empty (fst ?l) (snd ?l)"
    by (rule collectLoop_result) (simp_all add: memo_inv_def)
  from call_from_loop [OF Some _ this] have
    "call_result conn ft n {} n Map.empty (fst ?l) ((snd ?l)((- 1, n) \<mapsto> fst ?l))" by simp
  moreover have run: "getConnectedNodes conn n ft (- 1) = fst ?l"
    using Some by (simp add: getConnectedNodes_def collectConnectedNodes_def Let_def)
  ultimately have r: "n \<notin> set (fst ?l)" "distinct (fst ?l)"
    "set (fst ?l) \<subseteq> settled conn ((snd ?l)((- 1, n) \<mapsto> fst ?l))"
    "set (fst ?l) \<subseteq> {b. (n, b) \<in> (follows_rel conn ft)\<^sup>+}"
    "expanded conn ft {} (n # fst ?l) Map.empty ((snd ?l)((- 1, n) \<mapsto> fst ?l))"
    by (auto simp: call_result_def)
  have closed: "b \<in> insert n (set (fst ?l))"
    if "a \<in> insert n (set (fst ?l))" "(a, b) \<in> follows_rel conn ft" for a b
  proof -
    have "jm_get conn a \<noteq> None" using that(2) by (auto simp: follows_rel_def)
    then have "((snd ?l)((- 1, n) \<mapsto> fst ?l)) (- 1, a) \<noteq> None"
      using that(1) r(3) by (auto simp: settled_def)
    then show ?thesis using r(5) that(2) by (auto simp: expanded_def)
  qed
  have "m \<in> insert n (set (fst ?l))" if "(n, m) \<in> (follows_rel conn ft)\<^sup>+" for m
    using that by (induction rule: trancl_induct) (use closed in blast)+
  then show ?thesis unfolding run using r(1,2,4) by auto
qed

section \<open>Descendants and ancestors\<close>

fun admits :: "followed_type \<Rightarrow> connection_type \<Rightarrow> bool" where
  "admits AllTypes ty \<longleftrightarrow> True"
| "admits AllNonMain ty \<longleftrightarrow> ty \<noteq> Main"
| "admits (OfType t) ty \<longleftrightarrow> ty = t"

lemma in_slot_of: "c \<in> set (slot_of outs i) \<longleftrightarrow> (\<exists>cs. i < length outs \<and> outs ! i = Some cs \<and> c \<in> set cs)"
  by (cases "i < length outs"; cases "outs ! i") (simp_all add: slot_of_def arr_get_def)

lemma in_case_option:
  "c \<in> set (case x of None \<Rightarrow> [] | Some v \<Rightarrow> f v) \<longleftrightarrow> (\<exists>v. x = Some v \<and> c \<in> set (f v))"
  by (cases x) auto

lemma in_concat_map: "c \<in> set (concat (map f xs)) \<longleftrightarrow> (\<exists>x. x \<in> set xs \<and> c \<in> set (f x))"
  by auto

lemma in_connectionsOf:
  "c \<in> set (connectionsOf ft byType) \<longleftrightarrow>
     (\<exists>ty outs i. admits ft ty \<and> jm_get byType ty = Some outs \<and> c \<in> set (slot_of outs i))"
proof -
  have types: "ty \<in> set (typesOf ft byType) \<longleftrightarrow> admits ft ty" if "jm_get byType ty = Some outs" for ty outs
    using map_of_SomeD [OF that] by (cases ft) (force simp: typesOf_def)+
  have outs: "(\<exists>cs. Some cs \<in> set outs \<and> c \<in> set cs) \<longleftrightarrow> (\<exists>i. c \<in> set (slot_of outs i))" for outs
    unfolding in_slot_of in_set_conv_nth [of "Some _"] by blast
  have "c \<in> set (connectionsOf ft byType) \<longleftrightarrow>
      (\<exists>ty outs. ty \<in> set (typesOf ft byType) \<and> jm_get byType ty = Some outs \<and>
        (\<exists>cs. Some cs \<in> set outs \<and> c \<in> set cs))"
    unfolding connectionsOf_def in_concat_map in_case_option by (metis option.exhaust)
  with types outs show ?thesis by metis
qed

lemma follows_slot:
  "(a, b) \<in> follows_rel m ft \<longleftrightarrow>
     (\<exists>ty i c. admits ft ty \<and> c \<in> set (slotAt m (a, ty, i)) \<and> ic_node c = b)"
proof (cases "jm_get m a")
  case (Some byType)
  then have "(a, b) \<in> follows_rel m ft \<longleftrightarrow> (\<exists>c. c \<in> set (connectionsOf ft byType) \<and> ic_node c = b)"
    by (auto simp: follows_rel_def)
  also have "\<dots> \<longleftrightarrow> (\<exists>ty i c. admits ft ty \<and> c \<in> set (slotAt m (a, ty, i)) \<and> ic_node c = b)"
    unfolding in_connectionsOf slotAt.simps Some option.case in_case_option by blast
  finally show ?thesis .
qed (simp add: follows_rel_def)

lemma follows_listed:
  assumes "keyed m"
  shows "(a, b) \<in> follows_rel m ft \<longleftrightarrow>
     (\<exists>ty i c. admits ft ty \<and> ((a, ty, i), c) \<in> set (listed m) \<and> ic_node c = b)"
  unfolding follows_slot slot_listed [OF assms] by (auto simp: image_iff)

text \<open>A connection has the same type at both of its ends.\<close>

definition same_types :: "iconnections \<Rightarrow> bool" where
  "same_types m \<longleftrightarrow> (\<forall>((n, ty, i), c) \<in> set (listed m). ic_type c = ty)"

lemma follows_by_destination:
  assumes "keyed m" and "ft = AllTypes \<or> same_types m"
  shows "follows_rel (mapConnectionsByDestination m) ft = (follows_rel m ft)\<inverse>"
proof -
  have l: "set (listed (mapConnectionsByDestination m)) = turned ` set (listed m)"
    using arg_cong [OF listed_mapConnectionsByDestination [of m], where f = set_mset] by simp
  have "(b, a) \<in> follows_rel (mapConnectionsByDestination m) ft \<longleftrightarrow> (a, b) \<in> follows_rel m ft" for a b
  proof -
    have "(b, a) \<in> follows_rel (mapConnectionsByDestination m) ft \<longleftrightarrow>
        (\<exists>ty i c. admits ft (ic_type c) \<and> ((a, ty, i), c) \<in> set (listed m) \<and> ic_node c = b)"
      unfolding follows_listed [OF keyed_mapConnectionsByDestination] l by force
    also have "\<dots> \<longleftrightarrow> (\<exists>ty i c. admits ft ty \<and> ((a, ty, i), c) \<in> set (listed m) \<and> ic_node c = b)"
      using assms(2) by (fastforce simp: same_types_def)
    finally show ?thesis by (simp add: follows_listed [OF assms(1)])
  qed
  then show ?thesis by auto
qed

lemma getParentNodes_ancestors:
  assumes "keyed m" and "ft = AllTypes \<or> same_types m"
  shows "set (getParentNodes (mapConnectionsByDestination m) n ft (- 1)) =
    {a. (a, n) \<in> (follows_rel m ft)\<^sup>+ \<and> a \<noteq> n}"
  using getConnectedNodes_exact [of "mapConnectionsByDestination m" n ft]
  by (simp add: getParentNodes_def follows_by_destination [OF assms] trancl_converse)

lemma set_foldl_foldl_set_add:
  "set (foldl (\<lambda>acc n. foldl (\<lambda>acc sub. set_add sub acc) acc (f n)) acc ns) =
     set acc \<union> (\<Union>n \<in> set ns. set (f n))"
  by (induction ns arbitrary: acc) (auto simp: foldl_set_add)

lemma getExecutableNodeNames_exact:
  fixes startNode :: string
  assumes "keyed m" and "same_types m"
  defines "reached \<equiv> {n. (startNode, n) \<in> (follows_rel m (OfType Main))\<^sup>*}"
  shows "set (getExecutableNodeNames m (mapConnectionsByDestination m) startNode) =
    reached \<union> {s. \<exists>n \<in> reached. (s, n) \<in> (follows_rel m AllNonMain)\<^sup>+}"
proof -
  let ?r = "foldl (\<lambda>acc n. set_add n acc) [startNode] (getChildNodes m startNode (OfType Main) (- 1))"
  have r: "set ?r = reached"
    using getConnectedNodes_exact [of m startNode "OfType Main"]
    by (auto simp: foldl_set_add getChildNodes_def reached_def trancl_into_rtrancl rtrancl_eq_or_trancl)
  have "set (getExecutableNodeNames m (mapConnectionsByDestination m) startNode) =
      reached \<union> (\<Union>n \<in> reached. {s. (s, n) \<in> (follows_rel m AllNonMain)\<^sup>+ \<and> s \<noteq> n})"
    unfolding getExecutableNodeNames_def Let_def set_foldl_foldl_set_add r
    using getParentNodes_ancestors [OF assms(1), of AllNonMain] assms(2) by simp
  then show ?thesis by blast
qed

end
