(* ===== verification/WorkflowClass.thy ===== *)
theory WorkflowClass
  imports ConnectedNodes
begin

text \<open>
  The \<open>Workflow\<close> class (\<open>packages/workflow/src/workflow.ts\<close>): its nodes by name and its
  connections in both directions, the queries over the nodes, the choice of the start
  node, and renaming. Node types are a parameter, the registry \<open>getByNameAndVersion\<close>;
  of a node type the code reads its name and whether it has a trigger or poll function.
  A node's \<open>disabled\<close> is optional: an absent value and \<open>false\<close> are told apart by
  \<open>getHighestNode\<close>.
\<close>

section \<open>State\<close>

record wnode =
  w_name :: string
  w_type :: string
  w_typeVersion :: js_number
  w_disabled :: "bool option"

record node_type =
  nt_name :: string
  nt_trigger :: bool
  nt_poll :: bool

type_synonym node_types = "string \<Rightarrow> js_number \<Rightarrow> node_type option"

record workflow =
  wf_nodes :: "(string, wnode) js_map"
  wf_bySource :: iconnections
  wf_byDestination :: iconnections

definition setNodes :: "wnode list \<Rightarrow> workflow \<Rightarrow> workflow" where
  "setNodes ns w = w\<lparr>wf_nodes := foldl (\<lambda>m n. jm_set m (w_name n) n) [] ns\<rparr>"

definition setConnections :: "iconnections \<Rightarrow> workflow \<Rightarrow> workflow" where
  "setConnections connections w =
     w\<lparr>wf_bySource := connections, wf_byDestination := mapConnectionsByDestination connections\<rparr>"

definition newWorkflow :: "wnode list \<Rightarrow> iconnections \<Rightarrow> workflow" where
  "newWorkflow ns connections =
     setConnections connections (setNodes ns \<lparr>wf_nodes = [], wf_bySource = [], wf_byDestination = []\<rparr>)"

section \<open>Queries\<close>

definition isDisabled :: "wnode \<Rightarrow> bool" where
  "isDisabled n \<longleftrightarrow> w_disabled n = Some True"

definition getNode :: "workflow \<Rightarrow> string \<Rightarrow> wnode option" where
  "getNode w k = jm_get (wf_nodes w) k"

definition getNodesNamed :: "workflow \<Rightarrow> string list \<Rightarrow> wnode list" where
  "getNodesNamed w ks = concat (map (\<lambda>k. case getNode w k of None \<Rightarrow> [] | Some n \<Rightarrow> [n]) ks)"

definition queryNodes :: "node_types \<Rightarrow> (node_type \<Rightarrow> bool) \<Rightarrow> workflow \<Rightarrow> wnode list" where
  "queryNodes nodeTypes check w =
     filter (\<lambda>n. \<not> isDisabled n \<and>
               (case nodeTypes (w_type n) (w_typeVersion n) of None \<Rightarrow> False | Some t \<Rightarrow> check t))
       (jm_values (wf_nodes w))"

definition getTriggerNodes :: "node_types \<Rightarrow> workflow \<Rightarrow> wnode list" where
  "getTriggerNodes nodeTypes w = queryNodes nodeTypes nt_trigger w"

definition getPollNodes :: "node_types \<Rightarrow> workflow \<Rightarrow> wnode list" where
  "getPollNodes nodeTypes w = queryNodes nodeTypes nt_poll w"

section \<open>The highest nodes above a node\<close>

text \<open>The connections that are followed at a node, at every index or at one.\<close>

definition connectionsAt :: "outputs_of \<Rightarrow> nat option \<Rightarrow> iconnection list" where
  "connectionsAt ins index =
     concat (map (\<lambda>(i, conns). case index of
                    Some j \<Rightarrow> if j \<noteq> i then [] else (case conns of None \<Rightarrow> [] | Some cs \<Rightarrow> cs)
                  | None \<Rightarrow> (case conns of None \<Rightarrow> [] | Some cs \<Rightarrow> cs))
            (enumerate 0 ins))"

definition mainInputs :: "workflow \<Rightarrow> string \<Rightarrow> outputs_of option" where
  "mainInputs w k =
     (case jm_get (wf_byDestination w) k of None \<Rightarrow> None | Some byType \<Rightarrow> jm_get byType Main)"

definition currentHighest :: "wnode \<Rightarrow> string list" where
  "currentHighest n = (if w_disabled n = Some False then [w_name n] else [])"

text \<open>
  The loop over the connections into a node. The conditional is the recursive call for the
  parent; the list of checked nodes is shared by all calls. A node is stored under its
  name, and the name it is asked for is the one that is returned.
\<close>

function highestLoop ::
  "workflow \<Rightarrow> iconnection list \<Rightarrow> string list \<Rightarrow> string list \<Rightarrow> string list \<times> string list" where
  "highestLoop w [] ret checked = (ret, checked)"
| "highestLoop w (c # cs) ret checked =
     (if ic_node c \<in> set checked then highestLoop w cs ret checked
      else case getNode w (ic_node c) of
        None \<Rightarrow> highestLoop w cs ret checked
      | Some n \<Rightarrow>
          let current = (if w_disabled n = Some False then [ic_node c] else []);
              r = (case mainInputs w (ic_node c) of
                     None \<Rightarrow> (current, checked)
                   | Some ins \<Rightarrow> highestLoop w (connectionsAt ins None) [] (checked @ [ic_node c]));
              add = (if fst r = [] \<and> \<not> isDisabled n then [ic_node c] else fst r)
          in highestLoop w cs (foldl (\<lambda>acc k. set_add k acc) ret add) (snd r))"
  by pat_completeness auto

lemma highestLoop_grows:
  "highestLoop_dom (w, cs, ret, checked) \<Longrightarrow> set checked \<subseteq> set (snd (highestLoop w cs ret checked))"
proof (induction w cs ret checked rule: highestLoop.pinduct)
  case (2 w c cs ret checked)
  show ?case
  proof (cases "ic_node c \<in> set checked \<or> getNode w (ic_node c) = None")
    case True
    then show ?thesis using 2 by (auto simp: highestLoop.psimps)
  next
    case False
    then obtain n where n: "getNode w (ic_node c) = Some n" and new: "ic_node c \<notin> set checked" by auto
    show ?thesis
    proof (cases "mainInputs w (ic_node c)")
      case None
      then show ?thesis using 2 n new by (simp add: highestLoop.psimps Let_def)
    next
      case (Some ins)
      let ?inner = "highestLoop w (connectionsAt ins None) [] (checked @ [ic_node c])"
      let ?current = "if w_disabled n = Some False then [ic_node c] else []"
      let ?add = "if fst ?inner = [] \<and> \<not> isDisabled n then [ic_node c] else fst ?inner"
      have run: "highestLoop w (c # cs) ret checked =
          highestLoop w cs (foldl (\<lambda>acc k. set_add k acc) ret ?add) (snd ?inner)"
        using "2.hyps" n new Some by (simp add: highestLoop.psimps Let_def)
      have "set checked \<subseteq> set (snd ?inner)" using "2.IH"(3) [OF new n refl Some] by simp
      also have "\<dots> \<subseteq> set (snd (highestLoop w (c # cs) ret checked))"
        unfolding run using "2.IH"(4) [OF new n refl, of ?inner ?add] Some by simp
      finally show ?thesis .
    qed
  qed
qed (simp add: highestLoop.psimps)

definition workflow_names :: "workflow \<Rightarrow> string set" where
  "workflow_names w = fst ` set (wf_nodes w)"

lemma finite_workflow_names [simp]: "finite (workflow_names w)"
  by (simp add: workflow_names_def)

lemma getNode_names: "getNode w k = Some n \<Longrightarrow> k \<in> workflow_names w"
  by (force simp: getNode_def workflow_names_def dest: map_of_SomeD)

termination highestLoop
proof (relation "measures [\<lambda>(w, _, _, checked). card (workflow_names w - set checked),
                           \<lambda>(_, cs, _, _). length cs]", goal_cases)
  case (4 w c cs ret checked n current ins)
  then have "card (workflow_names w - set (checked @ [ic_node c])) < card (workflow_names w - set checked)"
    by (intro psubset_card_mono) (auto dest: getNode_names)
  then show ?case by simp
next
  case (5 w c cs ret checked n current r add)
  have "set checked \<subseteq> set (snd r)"
  proof (cases "mainInputs w (ic_node c)")
    case (Some ins)
    then show ?thesis using 5 highestLoop_grows [of w "connectionsAt ins None" "[]" "checked @ [ic_node c]"] by simp
  qed (use 5 in simp)
  then have "card (workflow_names w - set (snd r)) \<le> card (workflow_names w - set checked)"
    by (intro card_mono) auto
  then show ?case by (auto simp: le_less)
qed simp_all

declare highestLoop.simps(2) [simp del]

definition getHighestNode :: "workflow \<Rightarrow> string \<Rightarrow> nat option \<Rightarrow> string list \<Rightarrow> string list \<times> string list" where
  "getHighestNode w k index checked =
     (case getNode w k of
        None \<Rightarrow> ([], checked)
      | Some n \<Rightarrow>
          let current = (if w_disabled n = Some False then [k] else [])
          in case mainInputs w k of
               None \<Rightarrow> (current, checked)
             | Some ins \<Rightarrow>
                 if k \<in> set checked then (current, checked)
                 else highestLoop w (connectionsAt ins index) [] (checked @ [k]))"

lemma highestLoop_Cons:
  "highestLoop w (c # cs) ret checked =
     (if ic_node c \<in> set checked then highestLoop w cs ret checked
      else case getNode w (ic_node c) of
        None \<Rightarrow> highestLoop w cs ret checked
      | Some n \<Rightarrow>
          let r = getHighestNode w (ic_node c) None checked;
              add = (if fst r = [] \<and> \<not> isDisabled n then [ic_node c] else fst r)
          in highestLoop w cs (foldl (\<lambda>acc k. set_add k acc) ret add) (snd r))"
  by (auto simp: highestLoop.simps(2) getHighestNode_def Let_def split: option.split)

section \<open>What the highest nodes are\<close>

text \<open>The main connections between nodes the workflow has, from a node to one below it.\<close>

definition up_rel :: "workflow \<Rightarrow> (string \<times> string) set" where
  "up_rel w = {(p, m). getNode w p \<noteq> None \<and>
     (\<exists>ins. mainInputs w m = Some ins \<and> p \<in> ic_node ` set (connectionsAt ins None))}"

definition enabledNode :: "workflow \<Rightarrow> string \<Rightarrow> bool" where
  "enabledNode w k \<longleftrightarrow> (\<exists>n. getNode w k = Some n \<and> \<not> isDisabled n)"

text \<open>An enabled node nothing leads to.\<close>

definition topNode :: "workflow \<Rightarrow> string \<Rightarrow> bool" where
  "topNode w k \<longleftrightarrow> enabledNode w k \<and> k \<notin> Range (up_rel w)"

definition highest_sound :: "workflow \<Rightarrow> string list \<Rightarrow> string set \<Rightarrow> bool" where
  "highest_sound w ret below \<longleftrightarrow>
     (\<forall>r \<in> set ret. enabledNode w r \<and> (\<exists>b \<in> below. (r, b) \<in> (up_rel w)\<^sup>*))"

lemma connectionsAt_index: "set (connectionsAt ins index) \<subseteq> set (connectionsAt ins None)"
  by (auto simp: connectionsAt_def split: option.splits if_splits; force)

lemma up_relI:
  "mainInputs w m = Some ins \<Longrightarrow> c \<in> set (connectionsAt ins index) \<Longrightarrow> getNode w (ic_node c) \<noteq> None \<Longrightarrow>
     (ic_node c, m) \<in> up_rel w"
  using connectionsAt_index [of ins index] by (auto simp: up_rel_def)

lemma highestLoop_sound:
  assumes "highest_sound w ret below" and "distinct ret"
    and "\<forall>c \<in> set cs. getNode w (ic_node c) \<noteq> None \<longrightarrow> (\<exists>b \<in> below. (ic_node c, b) \<in> (up_rel w)\<^sup>*)"
  shows "highest_sound w (fst (highestLoop w cs ret checked)) below \<and> distinct (fst (highestLoop w cs ret checked))"
  using assms
proof (induction w cs ret checked arbitrary: below rule: highestLoop.induct)
  case (2 w c cs ret checked)
  show ?case
  proof (cases "ic_node c \<in> set checked \<or> getNode w (ic_node c) = None")
    case True
    then show ?thesis using "2.IH"(1,2) [of below] "2.prems" by (auto simp: highestLoop.simps(2))
  next
    case False
    then obtain n where n: "getNode w (ic_node c) = Some n" and new: "ic_node c \<notin> set checked" by auto
    define r where "r = (case mainInputs w (ic_node c) of
        None \<Rightarrow> (if w_disabled n = Some False then [ic_node c] else [], checked)
      | Some ins \<Rightarrow> highestLoop w (connectionsAt ins None) [] (checked @ [ic_node c]))"
    define add where "add = (if fst r = [] \<and> \<not> isDisabled n then [ic_node c] else fst r)"
    obtain b where b: "b \<in> below" "(ic_node c, b) \<in> (up_rel w)\<^sup>*" using "2.prems"(3) n by auto
    have "highest_sound w (fst r) {ic_node c}"
    proof (cases "mainInputs w (ic_node c)")
      case None
      then show ?thesis using n by (auto simp: r_def highest_sound_def enabledNode_def isDisabled_def)
    next
      case (Some ins)
      have "highest_sound w (fst (highestLoop w (connectionsAt ins None) [] (checked @ [ic_node c]))) {ic_node c}"
        by (rule "2.IH"(3) [OF new n refl Some, THEN conjunct1])
           (auto simp: highest_sound_def intro: r_into_rtrancl up_relI [OF Some])
      with Some show ?thesis by (simp add: r_def)
    qed
    then have "highest_sound w add {ic_node c}"
      using n by (auto simp: add_def highest_sound_def enabledNode_def)
    then have "highest_sound w add below"
      using b by (simp add: highest_sound_def) (meson rtrancl_trans)
    then have acc: "highest_sound w (foldl (\<lambda>acc k. set_add k acc) ret add) below"
        "distinct (foldl (\<lambda>acc k. set_add k acc) ret add)"
      using "2.prems"(1,2) by (auto simp: highest_sound_def foldl_set_add)
    have run: "highestLoop w (c # cs) ret checked =
        highestLoop w cs (foldl (\<lambda>acc k. set_add k acc) ret add) (snd r)"
      using n new by (simp add: highestLoop.simps(2) Let_def r_def add_def)
    show ?thesis unfolding run
      by (rule "2.IH"(4) [OF new n refl r_def add_def acc]) (use "2.prems"(3) in simp)
  qed
qed simp

definition knownNode :: "workflow \<Rightarrow> string \<Rightarrow> bool" where
  "knownNode w p \<longleftrightarrow> getNode w p \<noteq> None"

definition parentless :: "workflow \<Rightarrow> string \<Rightarrow> bool" where
  "parentless w p \<longleftrightarrow> mainInputs w p = None"

lemma topNode_known: "topNode w p \<Longrightarrow> knownNode w p"
  by (auto simp: topNode_def enabledNode_def knownNode_def)

lemma up_rel_known: "(p, m) \<in> up_rel w \<Longrightarrow> knownNode w p \<and> \<not> parentless w m"
  by (auto simp: up_rel_def knownNode_def parentless_def)

text \<open>A finished loop has checked all it leads to and returned the enabled top nodes among them.\<close>

definition highest_complete ::
  "workflow \<Rightarrow> string set \<Rightarrow> string list \<Rightarrow> string list \<Rightarrow> string list \<Rightarrow> bool" where
  "highest_complete w starts checked ret' checked' \<longleftrightarrow>
     set checked \<subseteq> set checked' \<and>
     (\<forall>p. (p \<in> starts \<or> (\<exists>m. m \<in> set checked' \<and> m \<notin> set checked \<and> (p, m) \<in> up_rel w)) \<longrightarrow>
        knownNode w p \<longrightarrow> p \<in> set checked' \<or> parentless w p) \<and>
     (\<forall>p. topNode w p \<longrightarrow> p \<notin> set checked \<longrightarrow>
        (p \<in> starts \<or> p \<in> set checked' \<or> (\<exists>m. m \<in> set checked' \<and> m \<notin> set checked \<and> (p, m) \<in> up_rel w)) \<longrightarrow>
        p \<in> set ret')"

lemma highest_complete_trans:
  assumes a: "highest_complete w S checked add C" and b: "highest_complete w T C ret' C'" and sub: "set add \<subseteq> set ret'"
  shows "highest_complete w (S \<union> T) checked ret' C'"
  unfolding highest_complete_def
proof (intro conjI allI impI)
  have C: "set checked \<subseteq> set C" "set C \<subseteq> set C'" using a b by (simp_all add: highest_complete_def)
  then show "set checked \<subseteq> set C'" by blast
  fix p
  show "p \<in> set C' \<or> parentless w p"
    if "p \<in> S \<union> T \<or> (\<exists>m. m \<in> set C' \<and> m \<notin> set checked \<and> (p, m) \<in> up_rel w)" "knownNode w p"
  proof (cases "p \<in> S \<or> (\<exists>m. m \<in> set C \<and> m \<notin> set checked \<and> (p, m) \<in> up_rel w)")
    case True
    with a that(2) have "p \<in> set C \<or> parentless w p" unfolding highest_complete_def by blast
    with C show ?thesis by blast
  next
    case False
    with that(1) have "p \<in> T \<or> (\<exists>m. m \<in> set C' \<and> m \<notin> set C \<and> (p, m) \<in> up_rel w)" by blast
    with b that(2) show ?thesis unfolding highest_complete_def by blast
  qed
  show "p \<in> set ret'" if "topNode w p" "p \<notin> set checked"
    "p \<in> S \<union> T \<or> p \<in> set C' \<or> (\<exists>m. m \<in> set C' \<and> m \<notin> set checked \<and> (p, m) \<in> up_rel w)"
  proof (cases "p \<in> set C \<or> p \<in> S \<or> (\<exists>m. m \<in> set C \<and> m \<notin> set checked \<and> (p, m) \<in> up_rel w)")
    case True
    with a that(1,2) have "p \<in> set add" unfolding highest_complete_def by blast
    with sub show ?thesis by blast
  next
    case False
    with b that show ?thesis unfolding highest_complete_def by blast
  qed
qed

lemma highestLoop_keeps: "set ret \<subseteq> set (fst (highestLoop w cs ret checked))"
proof (induction cs arbitrary: ret checked)
  case (Cons c cs)
  show ?case
    unfolding highestLoop_Cons Let_def using Cons.IH by (force simp: foldl_set_add split: option.split)
qed simp

lemma call_complete:
  assumes n: "getNode w x = Some n"
    and inner: "\<And>ins. mainInputs w x = Some ins \<Longrightarrow>
      highest_complete w (ic_node ` set (connectionsAt ins None)) (checked @ [x])
        (fst (highestLoop w (connectionsAt ins None) [] (checked @ [x])))
        (snd (highestLoop w (connectionsAt ins None) [] (checked @ [x])))"
    and new: "x \<notin> set checked"
    and r: "r = getHighestNode w x None checked"
    and added: "add = (if fst r = [] \<and> \<not> isDisabled n then [x] else fst r)"
  shows "highest_complete w {x} checked add (snd r)"
proof (cases "mainInputs w x")
  case None
  have call: "fst r = (if w_disabled n = Some False then [x] else [])" "snd r = checked"
    unfolding r getHighestNode_def using n None by simp_all
  have "x \<in> set add" if "topNode w x"
  proof -
    have "\<not> isDisabled n" using that n by (auto simp: topNode_def enabledNode_def)
    then have "add = [x]" using added call(1) by (simp split: if_splits)
    then show ?thesis by simp
  qed
  moreover have "snd r = checked" by (rule call)
  ultimately show ?thesis using None by (auto simp: highest_complete_def parentless_def)
next
  case (Some ins)
  let ?l = "highestLoop w (connectionsAt ins None) [] (checked @ [x])"
  let ?S = "ic_node ` set (connectionsAt ins None)"
  have run: "r = ?l" using r n Some new by (simp add: getHighestNode_def)
  have ic: "highest_complete w ?S (checked @ [x]) (fst ?l) (snd ?l)" by (rule inner [OF Some])
  have into_x: "p \<in> ?S" if "(p, x) \<in> up_rel w" for p using that Some by (auto simp: up_rel_def)
  have ret: "set (fst ?l) \<subseteq> set add" using added run by auto
  have top: "x \<in> set add" if "topNode w x"
  proof -
    have "getNode w (ic_node c) = None" if "c \<in> set (connectionsAt ins None)" for c
      using up_relI [OF Some that] \<open>topNode w x\<close> unfolding topNode_def by (metis RangeI)
    then have "highest_sound w (fst ?l) {}"
      by (intro highestLoop_sound [THEN conjunct1]) (auto simp: highest_sound_def)
    then have "fst ?l = []" by (auto simp: highest_sound_def)
    with that n run added show ?thesis by (simp add: topNode_def enabledNode_def)
  qed
  show ?thesis
    unfolding highest_complete_def run
  proof (intro conjI allI impI)
    show "set checked \<subseteq> set (snd ?l)" using ic by (auto simp: highest_complete_def)
    fix p
    have x_in: "x \<in> set (snd ?l)" using ic by (auto simp: highest_complete_def)
    show "p \<in> set (snd ?l) \<or> parentless w p"
      if "p \<in> {x} \<or> (\<exists>m. m \<in> set (snd ?l) \<and> m \<notin> set checked \<and> (p, m) \<in> up_rel w)" "knownNode w p"
    proof (cases "p \<in> {x}")
      case False
      with that obtain m where m: "m \<in> set (snd ?l)" "m \<notin> set checked" "(p, m) \<in> up_rel w" by blast
      show ?thesis
      proof (cases "m = x")
        case True
        with into_x m(3) have "p \<in> ?S" by simp
        with ic that(2) show ?thesis unfolding highest_complete_def by blast
      next
        case False
        with m have "m \<notin> set (checked @ [x])" by simp
        with ic m that(2) show ?thesis unfolding highest_complete_def by blast
      qed
    qed (use x_in in simp)
    show "p \<in> set add" if t: "topNode w p" "p \<notin> set checked"
      "p \<in> {x} \<or> p \<in> set (snd ?l) \<or> (\<exists>m. m \<in> set (snd ?l) \<and> m \<notin> set checked \<and> (p, m) \<in> up_rel w)"
    proof (cases "p = x")
      case False
      then have new_p: "p \<notin> set (checked @ [x])" using t(2) by simp
      have "p \<in> ?S \<or> p \<in> set (snd ?l) \<or> (\<exists>m. m \<in> set (snd ?l) \<and> m \<notin> set (checked @ [x]) \<and> (p, m) \<in> up_rel w)"
        using t(3) False into_x by auto
      with ic t(1) new_p have "p \<in> set (fst ?l)" unfolding highest_complete_def by blast
      with ret show ?thesis by blast
    qed (use top t(1) in simp)
  qed
qed

lemma highestLoop_complete:
  "highest_complete w (ic_node ` set cs) checked (fst (highestLoop w cs ret checked)) (snd (highestLoop w cs ret checked))"
proof (induction w cs ret checked rule: highestLoop.induct)
  case (1 w ret checked)
  then show ?case by (auto simp: highest_complete_def)
next
  case (2 w c cs ret checked)
  show ?case
  proof (cases "ic_node c \<in> set checked \<or> getNode w (ic_node c) = None")
    case True
    then have run: "highestLoop w (c # cs) ret checked = highestLoop w cs ret checked"
      by (auto simp: highestLoop.simps(2))
    have "highest_complete w {ic_node c} checked [] checked"
      using True topNode_known [of w "ic_node c"] by (auto simp: highest_complete_def knownNode_def)
    moreover have "highest_complete w (ic_node ` set cs) checked
        (fst (highestLoop w cs ret checked)) (snd (highestLoop w cs ret checked))"
      using True "2.IH"(1,2) by blast
    ultimately show ?thesis unfolding run using highest_complete_trans by fastforce
  next
    case False
    then obtain n where n: "getNode w (ic_node c) = Some n" and new: "ic_node c \<notin> set checked" by auto
    define r where "r = getHighestNode w (ic_node c) None checked"
    define add where "add = (if fst r = [] \<and> \<not> isDisabled n then [ic_node c] else fst r)"
    have r': "r = (case mainInputs w (ic_node c) of
        None \<Rightarrow> (if w_disabled n = Some False then [ic_node c] else [], checked)
      | Some ins \<Rightarrow> highestLoop w (connectionsAt ins None) [] (checked @ [ic_node c]))"
      using n new by (simp add: r_def getHighestNode_def Let_def split: option.split)
    have call: "highest_complete w {ic_node c} checked add (snd r)"
      by (rule call_complete [OF n _ new r_def add_def]) (rule "2.IH"(3) [OF new n refl])
    let ?ret = "foldl (\<lambda>acc k. set_add k acc) ret add"
    have run: "highestLoop w (c # cs) ret checked = highestLoop w cs ?ret (snd r)"
      using n new by (simp add: highestLoop_Cons Let_def r_def add_def)
    have rest: "highest_complete w (ic_node ` set cs) (snd r)
        (fst (highestLoop w cs ?ret (snd r))) (snd (highestLoop w cs ?ret (snd r)))"
      by (rule "2.IH"(4) [OF new n refl r' add_def])
    have "set add \<subseteq> set (fst (highestLoop w cs ?ret (snd r)))"
      using highestLoop_keeps [of ?ret w cs "snd r"] by (auto simp: foldl_set_add)
    from highest_complete_trans [OF call rest this] show ?thesis unfolding run by simp
  qed
qed

text \<open>All enabled top nodes above a node are returned, and only enabled nodes at or above it.\<close>

lemma getHighestNode_exact:
  assumes "getNode w k \<noteq> None"
  defines "result \<equiv> fst (getHighestNode w k None [])"
  shows "distinct result" and "r \<in> set result \<Longrightarrow> enabledNode w r \<and> (r, k) \<in> (up_rel w)\<^sup>*"
    and "topNode w t \<Longrightarrow> (t, k) \<in> (up_rel w)\<^sup>+ \<Longrightarrow> t \<in> set result"
proof -
  obtain n where n: "getNode w k = Some n" using assms(1) by auto
  have sound: "highest_sound w result {k} \<and> distinct result"
  proof (cases "mainInputs w k")
    case None
    then show ?thesis using n
      by (auto simp: result_def getHighestNode_def highest_sound_def enabledNode_def isDisabled_def)
  next
    case (Some ins)
    have "highest_sound w (fst (highestLoop w (connectionsAt ins None) [] [k])) {k} \<and>
        distinct (fst (highestLoop w (connectionsAt ins None) [] [k]))"
      by (rule highestLoop_sound) (auto simp: highest_sound_def intro: r_into_rtrancl up_relI [OF Some])
    with Some n show ?thesis by (simp add: result_def getHighestNode_def)
  qed
  then show "distinct result" "r \<in> set result \<Longrightarrow> enabledNode w r \<and> (r, k) \<in> (up_rel w)\<^sup>*"
    by (auto simp: highest_sound_def)
  assume t: "topNode w t" "(t, k) \<in> (up_rel w)\<^sup>+"
  then obtain q where "(q, k) \<in> up_rel w" by (meson tranclD2)
  then obtain ins where ins: "mainInputs w k = Some ins" by (auto simp: up_rel_def)
  let ?l = "highestLoop w (connectionsAt ins None) [] [k]"
  have c: "highest_complete w (ic_node ` set (connectionsAt ins None)) [k] (fst ?l) (snd ?l)"
    by (rule highestLoop_complete)
  have result: "result = fst ?l" using n ins by (simp add: result_def getHighestNode_def)
  have up_k: "p \<in> ic_node ` set (connectionsAt ins None)" if "(p, k) \<in> up_rel w" for p
    using that ins by (auto simp: up_rel_def)
  have up: "p \<in> set (snd ?l) \<or> parentless w p" if "(p, m) \<in> up_rel w" "m \<in> set (snd ?l)" for p m
  proof -
    have "knownNode w p" using up_rel_known that(1) by blast
    with c that up_k show ?thesis unfolding highest_complete_def by (cases "m = k") auto
  qed
  have k: "k \<in> set (snd ?l)" using c by (simp add: highest_complete_def)
  have "m \<in> set (snd ?l)" if "(m, k) \<in> (up_rel w)\<^sup>*" "\<not> parentless w m" for m
    using that
  proof (induction rule: converse_rtrancl_induct)
    case (step m m')
    moreover have "\<not> parentless w m'" using up_rel_known step.hyps(1) by blast
    ultimately show ?case using up by blast
  qed (rule k)
  moreover obtain m where m: "(t, m) \<in> up_rel w" "(m, k) \<in> (up_rel w)\<^sup>*" using t(2) by (meson tranclD)
  moreover have "\<not> parentless w m" using up_rel_known m(1) by blast
  ultimately have "m \<in> set (snd ?l)" by blast
  moreover have "t \<noteq> k" using t(1) \<open>(q, k) \<in> up_rel w\<close> by (auto simp: topNode_def)
  ultimately show "t \<in> set result"
    using c t(1) m(1) up_k unfolding result highest_complete_def by (cases "m = k") auto
qed

end
