(* ===== verification/ExecutionData.thy ===== *)
theory ExecutionData
  imports ExecutionStack WorkflowClass
begin

text \<open>
  The data of a running workflow (\<open>packages/core/src/execution-engine/workflow-execute.ts\<close>
  and the interfaces it uses): items, the arrays of inputs and outputs, the nodes with the
  settings the execution reads, the entries of the execution stack, the tasks of the run
  data, and the state \<open>WorkflowExecute\<close> keeps. Times, hints, telemetry and the tracking of
  dynamic credentials are left out.
\<close>

section \<open>Arrays with holes\<close>

text \<open>
  An element of an array of inputs or outputs is absent (\<open>undefined\<close>), \<open>null\<close>, or there. The
  code tells them apart: \<open>x === null\<close> holds for the second only, \<open>!x\<close> for the first two.
\<close>

datatype 'a slot = Hole | Null | Filled 'a

fun isFilled :: "'a slot \<Rightarrow> bool" where
  "isFilled (Filled _) = True"
| "isFilled _ = False"

definition sl_get :: "'a slot list \<Rightarrow> nat \<Rightarrow> 'a slot" where
  "sl_get xs i = (if i < length xs then xs ! i else Hole)"

definition sl_set :: "'a slot list \<Rightarrow> nat \<Rightarrow> 'a slot \<Rightarrow> 'a slot list" where
  "sl_set xs i v = (xs @ replicate (Suc i - length xs) Hole)[i := v]"

lemma sl_get_set [simp]: "sl_get (sl_set xs i v) j = (if j = i then v else sl_get xs j)"
  by (auto simp: sl_get_def sl_set_def nth_append nth_list_update)

lemma length_sl_set [simp]: "length (sl_set xs i v) = max (length xs) (Suc i)"
  by (auto simp: sl_set_def)

lemma sl_set_in_range: "i < length xs \<Longrightarrow> sl_set xs i v = xs[i := v]"
  by (simp add: sl_set_def)

lemma sl_get_in_range: "i < length xs \<Longrightarrow> sl_get xs i = xs ! i"
  by (simp add: sl_get_def)

lemma isFilled_iff: "isFilled s \<longleftrightarrow> (\<exists>v. s = Filled v)"
  by (cases s) auto

definition contents :: "'a slot list \<Rightarrow> 'a list" where
  "contents xs = concat (map (\<lambda>s. case s of Filled v \<Rightarrow> [v] | _ \<Rightarrow> []) xs)"

lemma contents_simps [simp]:
  "contents [] = []" "contents (Hole # xs) = contents xs" "contents (Null # xs) = contents xs"
  "contents (Filled v # xs) = v # contents xs" "contents (xs @ ys) = contents xs @ contents ys"
  "contents (replicate n Hole) = []" "contents (replicate n Null) = []"
  by (simp_all add: contents_def)

text \<open>Filling an element that is not filled adds its value.\<close>

lemma contents_update:
  "i < length xs \<Longrightarrow> \<not> isFilled (xs ! i) \<Longrightarrow>
     mset (contents (xs[i := Filled v])) = add_mset v (mset (contents xs))"
proof (induction xs arbitrary: i)
  case (Cons x xs)
  show ?case
  proof (cases i)
    case 0
    then show ?thesis using Cons.prems by (cases x) simp_all
  next
    case (Suc j)
    then show ?thesis using Cons by (cases x) simp_all
  qed
qed simp

section \<open>Items\<close>

record paired_data =
  pd_item :: nat
  pd_input :: "nat option"
  pd_sourceOverwrite :: "source_data option"

datatype paired_item = PairedNumber nat | PairedOne paired_data | PairedMany "paired_data list"

record node_error =
  ne_name :: string
  ne_message :: string

record item =
  i_json :: "(string, json) js_map"
  i_binary :: "json option"
  i_pairedItem :: "paired_item option"
  i_error :: "json option"

type_synonym item_list = "item list"
type_synonym outputs = "item_list slot list"
type_synonym task_inputs = "(connection_type, outputs) js_map"

definition emptyInput :: item where
  "emptyInput = \<lparr>i_json = [], i_binary = None, i_pairedItem = None, i_error = None\<rparr>"

definition mainOf :: "task_inputs \<Rightarrow> outputs option" where
  "mainOf d = jm_get d Main"

section \<open>Nodes, workflow and node types\<close>

text \<open>Settings the code compares with \<open>=== true\<close> are booleans; the others may be absent.\<close>

record xnode = wnode +
  xn_position :: "js_number \<times> js_number"
  xn_retryOnFail :: bool
  xn_maxTries :: "js_number option"
  xn_waitBetweenTries :: "js_number option"
  xn_alwaysOutputData :: bool
  xn_executeOnce :: bool
  xn_continueOnFail :: bool
  xn_onError :: "string option"
  xn_rewireOutputLogTo :: "connection_type option"

record xworkflow =
  xw_nodes :: "(string, xnode) js_map"
  xw_bySource :: iconnections
  xw_byDestination :: iconnections
  xw_executionOrder :: "string option"

definition baseWorkflow :: "xworkflow \<Rightarrow> workflow" where
  "baseWorkflow w =
     \<lparr>wf_nodes = map (\<lambda>(k, n). (k, wnode.truncate n)) (xw_nodes w),
      wf_bySource = xw_bySource w, wf_byDestination = xw_byDestination w\<rparr>"

definition isV1 :: "xworkflow \<Rightarrow> bool" where
  "isV1 w \<longleftrightarrow> xw_executionOrder w = Some ''v1''"

definition isLegacyExecutionOrder :: "xworkflow \<Rightarrow> bool" where
  "isLegacyExecutionOrder w \<longleftrightarrow> xw_executionOrder w \<noteq> Some ''v1''"

lemma legacy_iff [simp]: "isLegacyExecutionOrder w \<longleftrightarrow> \<not> isV1 w"
  by (simp add: isLegacyExecutionOrder_def isV1_def)

section \<open>The stack and the run data\<close>

record engine_action =
  ac_nodeName :: string
  ac_input :: "(string, json) js_map"
  ac_type :: connection_type
  ac_id :: string
  ac_parentNodeName :: "string option"
  ac_itemIndex :: "nat option"

text \<open>An action, the node that runs it and its run index.\<close>

record sub_node_action =
  sn_action :: engine_action
  sn_nodeName :: string
  sn_runIndex :: nat

record task_metadata =
  md_nodeWasResumed :: bool
  md_subNodeActions :: "sub_node_action list option"
  md_preserveSourceOverwrite :: bool
  md_preservedSourceOverwrite :: "source_data option"
  md_resumeError :: "node_error option"
  md_forwardAllOutputs :: bool

record exec_item =
  ex_node :: xnode
  ex_data :: task_inputs
  ex_source :: "(connection_type, source_data slot list) js_map option"
  ex_runIndex :: "nat option"
  ex_metadata :: "task_metadata option"

datatype task_status = TaskSuccess | TaskError | TaskWaiting | TaskRunning | TaskCanceled

record task =
  tk_executionIndex :: nat
  tk_source :: "source_data slot list"
  tk_status :: "task_status option"
  tk_data :: "task_inputs option"
  tk_inputOverride :: "task_inputs option"
  tk_error :: "node_error option"
  tk_metadata :: "task_metadata option"

type_synonym tasks = "(string, task list) js_map"

text \<open>
  \<open>waitingExecution\<close> and \<open>waitingExecutionSource\<close>: by node, by index of the waiting entry,
  the array \<open>main\<close>. The keys of an entry map are numbers; JavaScript enumerates them in
  ascending order.
\<close>

type_synonym 'a waiting_runs = "(nat, 'a slot list) js_map"
type_synonym 'a waiting_map = "(string, 'a waiting_runs) js_map"

definition numericKeys :: "(nat, 'v) js_map \<Rightarrow> nat list" where
  "numericKeys m = sort (map fst m)"

lemma set_numericKeys [simp]: "set (numericKeys m) = fst ` set m"
  by (simp add: numericKeys_def)

lemma length_numericKeys [simp]: "length (numericKeys m) = length m"
  by (simp add: numericKeys_def)

datatype run_status = New | RunRunning | RunSuccess | RunError | RunWaiting | RunCanceled

datatype hook_event = NodeExecuteBefore string | NodeExecuteAfter string

record exec_state =
  x_stack :: "exec_item list"
  x_waiting :: "item_list waiting_map"
  x_waitingSource :: "source_data waiting_map"
  x_runData :: tasks
  x_lastNodeExecuted :: "string option"
  x_error :: "node_error option"
  x_waitTill :: "nat option"
  x_executionIndex :: nat
  x_rewired :: "(string, connection_type) js_map"
  x_status :: run_status
  x_hooks :: "hook_event list"

text \<open>What the code throws: a missing value it reads, or one of its own errors.\<close>

datatype exec_failure =
    UndefinedRead
  | DestinationNotFound string string
  | NodeNotFound string
  | EndlessLoop
  | NoLastTask

definition runsOf :: "'a waiting_map \<Rightarrow> string \<Rightarrow> 'a waiting_runs" where
  "runsOf w k = jm_or w k []"

lemma runsOf_set [simp]: "runsOf (jm_set w k v) k' = (if k' = k then v else runsOf w k')"
  by (simp add: runsOf_def)

lemma runsOf_delete [simp]: "runsOf (jm_delete w k) k' = (if k' = k then [] else runsOf w k')"
  by (simp add: runsOf_def jm_or_def)

text \<open>The run at one index: absent entries have no array.\<close>

definition entryAt :: "'a waiting_map \<Rightarrow> string \<Rightarrow> nat \<Rightarrow> 'a slot list option" where
  "entryAt w k r = jm_get (runsOf w k) r"

end
