(* ===== verification/WaitingInputs.thy ===== *)
theory WaitingInputs
  imports ExecutionData
begin

text \<open>
  How the output of a node reaches the nodes below it (\<open>addNodeToBeExecuted\<close> of
  \<open>workflow-execute.ts\<close>): a node with one input goes on the execution stack, a node with
  several waits until every input has data. In the legacy execution order the sources of
  the missing inputs are looked for and put on the stack as well.
\<close>

section \<open>The operations\<close>

definition incomingData :: "tasks \<Rightarrow> iconnection \<Rightarrow> nat \<Rightarrow> item_list slot" where
  "incomingData runData c runIndex =
     (case jm_get runData (ic_node c) of
        None \<Rightarrow> Hole
      | Some ts \<Rightarrow>
          if runIndex < length ts then
            (case tk_data (ts ! runIndex) of
               None \<Rightarrow> Hole
             | Some d \<Rightarrow> (case mainOf d of None \<Rightarrow> Hole | Some outs \<Rightarrow> sl_get outs (ic_index c)))
          else Hole)"

fun incomingConnectionIsEmpty :: "tasks \<Rightarrow> iconnection list \<Rightarrow> nat \<Rightarrow> exec_failure + bool" where
  "incomingConnectionIsEmpty runData [] runIndex = Inr True"
| "incomingConnectionIsEmpty runData (c # cs) runIndex =
     (case incomingData runData c runIndex of
        Hole \<Rightarrow> incomingConnectionIsEmpty runData cs runIndex
      | Null \<Rightarrow> Inl UndefinedRead
      | Filled d \<Rightarrow> if d \<noteq> [] then Inr False else incomingConnectionIsEmpty runData cs runIndex)"

definition prepareWaitingToExecution :: "string \<Rightarrow> nat \<Rightarrow> nat \<Rightarrow> exec_state \<Rightarrow> exec_state" where
  "prepareWaitingToExecution nodeName numberOfConnections runIndex st =
     st\<lparr>x_waiting := jm_set (x_waiting st) nodeName
          (jm_set (runsOf (x_waiting st) nodeName) runIndex (replicate numberOfConnections Null)),
        x_waitingSource := jm_set (x_waitingSource st) nodeName
          (jm_set (runsOf (x_waitingSource st) nodeName) runIndex (replicate numberOfConnections Null))\<rparr>"

definition mainInputsOf :: "xworkflow \<Rightarrow> string \<Rightarrow> outputs_of option" where
  "mainInputsOf w k =
     (case jm_get (xw_byDestination w) k of None \<Rightarrow> None | Some m \<Rightarrow> jm_get m Main)"

definition numberOfInputs :: "xworkflow \<Rightarrow> string \<Rightarrow> nat" where
  "numberOfInputs w k = (case mainInputsOf w k of None \<Rightarrow> 0 | Some ins \<Rightarrow> length ins)"

definition enqueueItem :: "xworkflow \<Rightarrow> exec_item \<Rightarrow> exec_state \<Rightarrow> exec_state" where
  "enqueueItem w e st = st\<lparr>x_stack := (if isV1 w then e # x_stack st else x_stack st @ [e])\<rparr>"

definition nodeNamed :: "xworkflow \<Rightarrow> string \<Rightarrow> exec_failure + xnode" where
  "nodeNamed w k = (case jm_get (xw_nodes w) k of None \<Rightarrow> Inl (NodeNotFound k) | Some n \<Rightarrow> Inr n)"

text \<open>Writing an element of the array of an entry, which has to be there.\<close>

definition putSlot ::
  "'a waiting_map \<Rightarrow> string \<Rightarrow> nat \<Rightarrow> nat \<Rightarrow> 'a slot \<Rightarrow> exec_failure + 'a waiting_map" where
  "putSlot m k r i v =
     (case entryAt m k r of
        None \<Rightarrow> Inl UndefinedRead
      | Some xs \<Rightarrow> Inr (jm_set m k (jm_set (runsOf m k) r (sl_set xs i v))))"

text \<open>What is delivered: the output of the node that ran, and where it comes from.\<close>

record delivery =
  dl_node :: string
  dl_input :: nat
  dl_parent :: string
  dl_output :: nat
  dl_data :: "outputs option"
  dl_run :: nat

definition deliveredSlot :: "delivery \<Rightarrow> item_list slot" where
  "deliveredSlot d = (case dl_data d of None \<Rightarrow> Null | Some outs \<Rightarrow> sl_get outs (dl_output d))"

definition sourceOf :: "delivery \<Rightarrow> source_data" where
  "sourceOf d = \<lparr>sd_previousNode = dl_parent d, sd_previousNodeOutput = dl_output d,
                 sd_previousNodeRun = dl_run d\<rparr>"

definition deliveredSource :: "delivery \<Rightarrow> source_data slot" where
  "deliveredSource d = (case dl_data d of None \<Rightarrow> Null | Some outs \<Rightarrow> Filled (sourceOf d))"

text \<open>The earliest entry of the node that has no data for the input.\<close>

definition freeEntry :: "item_list waiting_runs \<Rightarrow> nat \<Rightarrow> nat option" where
  "freeEntry runs i =
     List.find (\<lambda>r. case jm_get runs r of None \<Rightarrow> False | Some main \<Rightarrow> \<not> isFilled (sl_get main i))
       (numericKeys runs)"

text \<open>
  The first half for a node with several inputs: the entry is found or created and the data
  is written. The result holds the index of the entry and whether the node was waiting.
\<close>

definition placeInput ::
  "xworkflow \<Rightarrow> delivery \<Rightarrow> exec_state \<Rightarrow> exec_failure + exec_state \<times> nat \<times> bool" where
  "placeInput w d st =
     (let k = dl_node d;
          nodeWasWaiting = (jm_get (x_waiting st) k \<noteq> None);
          st1 = (if nodeWasWaiting then st
                 else st\<lparr>x_waiting := jm_set (x_waiting st) k [],
                         x_waitingSource := jm_set (x_waitingSource st) k []\<rparr>);
          runs = runsOf (x_waiting st1) k;
          free = freeEntry runs (dl_input d);
          waitingNodeIndex = (case free of Some r \<Rightarrow> r | None \<Rightarrow> length runs);
          st2 = (if free = None
                 then prepareWaitingToExecution k (numberOfInputs w k) waitingNodeIndex st1 else st1)
      in rbind (putSlot (x_waiting st2) k waitingNodeIndex (dl_input d) (deliveredSlot d)) (\<lambda>ws.
         rbind (putSlot (x_waitingSource st2) k waitingNodeIndex (dl_input d) (deliveredSource d)) (\<lambda>ss.
           Inr (st2\<lparr>x_waiting := ws, x_waitingSource := ss\<rparr>, waitingNodeIndex, nodeWasWaiting))))"

definition removeWaitingEntry :: "string \<Rightarrow> nat \<Rightarrow> exec_state \<Rightarrow> exec_state" where
  "removeWaitingEntry k r st =
     (let ws = jm_set (x_waiting st) k (jm_delete (runsOf (x_waiting st) k) r);
          ss = jm_set (x_waitingSource st) k (jm_delete (runsOf (x_waitingSource st) k) r)
      in if runsOf ws k = []
         then st\<lparr>x_waiting := jm_delete ws k, x_waitingSource := jm_delete ss k\<rparr>
         else st\<lparr>x_waiting := ws, x_waitingSource := ss\<rparr>)"

text \<open>
  All inputs have data: the entry moves to the stack. An entry whose node the workflow does
  not have would be stored without a node; here it fails at once.
\<close>

definition releaseEntry :: "xworkflow \<Rightarrow> string \<Rightarrow> nat \<Rightarrow> exec_state \<Rightarrow> exec_failure + exec_state" where
  "releaseEntry w k r st =
     rbind (nodeNamed w k) (\<lambda>n.
       case entryAt (x_waiting st) k r of
         None \<Rightarrow> Inl UndefinedRead
       | Some main \<Rightarrow>
           Inr (removeWaitingEntry k r (enqueueItem w
             \<lparr>ex_node = n, ex_data = [(Main, main)],
              ex_source = map_option (\<lambda>ss. [(Main, ss)]) (entryAt (x_waitingSource st) k r),
              ex_runIndex = None, ex_metadata = None\<rparr> st)))"

subsection \<open>The sources of the missing inputs\<close>

definition outputNodes :: "xworkflow \<Rightarrow> string \<Rightarrow> exec_failure + string list" where
  "outputNodes w k =
     (case jm_get (xw_bySource w) k of
        None \<Rightarrow> Inl UndefinedRead
      | Some m \<Rightarrow> Inr (case jm_get m Main of
                        None \<Rightarrow> [] | Some outs \<Rightarrow> map ic_node (connectionsAt outs None)))"

definition firstInputs :: "xworkflow \<Rightarrow> string \<Rightarrow> exec_failure + iconnection list" where
  "firstInputs w k =
     (case mainInputsOf w k of None \<Rightarrow> Inl UndefinedRead | Some ins \<Rightarrow> Inr (slot_of ins 0))"

definition mainParents :: "xworkflow \<Rightarrow> string \<Rightarrow> string list" where
  "mainParents w k = getParentNodes (xw_byDestination w) k (OfType Main) (-1)"

definition stackNames :: "exec_state \<Rightarrow> string list" where
  "stackNames st = map (\<lambda>e. w_name (ex_node e)) (x_stack st)"

text \<open>The walk over the parents, the farthest first; \<open>None\<close> is no node to add.\<close>

fun pickSource ::
  "string \<Rightarrow> string list \<Rightarrow> string list \<Rightarrow> tasks \<Rightarrow> string list \<Rightarrow> string \<Rightarrow> string option" where
  "pickSource s checkOutputNodes stacked runData [] nodeToAdd = Some nodeToAdd"
| "pickSource s checkOutputNodes stacked runData (p # ps) nodeToAdd =
     (if s \<noteq> p \<and> p \<in> set checkOutputNodes then None
      else if p \<in> set stacked then None
      else if jm_get runData p \<noteq> None then Some nodeToAdd
      else pickSource s checkOutputNodes stacked runData ps p)"

definition emptyEntry :: "xnode \<Rightarrow> delivery \<Rightarrow> exec_item" where
  "emptyEntry n d =
     \<lparr>ex_node = n, ex_data = [(Main, [Filled [emptyInput]])],
      ex_source = Some [(Main, [Filled (sourceOf d)])], ex_runIndex = None, ex_metadata = None\<rparr>"

text \<open>The test whether the delivered output is empty reads its length.\<close>

definition outputIsEmpty :: "delivery \<Rightarrow> exec_failure + bool" where
  "outputIsEmpty d =
     (case dl_data d of
        None \<Rightarrow> Inl UndefinedRead
      | Some outs \<Rightarrow> (case sl_get outs (dl_output d) of Filled xs \<Rightarrow> Inr (xs = []) | _ \<Rightarrow> Inl UndefinedRead))"

definition addSourceNode ::
  "xworkflow \<Rightarrow> delivery \<Rightarrow> string \<Rightarrow> exec_state \<Rightarrow> exec_failure + exec_state" where
  "addSourceNode w d nodeToAdd st =
     rbind (if dl_parent d \<in> set (mainParents w nodeToAdd) then outputIsEmpty d else Inr False) (\<lambda>skip.
       if skip then Inr st
       else rbind (if jm_get (xw_byDestination w) nodeToAdd = None then Inr True
                   else rbind (firstInputs w nodeToAdd) (\<lambda>cs.
                          incomingConnectionIsEmpty (x_runData st) cs (dl_run d))) (\<lambda>addEmptyItem.
         if addEmptyItem then rbind (nodeNamed w nodeToAdd) (\<lambda>n. Inr (enqueueItem w (emptyEntry n d) st))
         else Inr st))"

definition addMissingSource ::
  "xworkflow \<Rightarrow> delivery \<Rightarrow> string list \<Rightarrow> string \<Rightarrow> exec_state \<Rightarrow> exec_failure + exec_state" where
  "addMissingSource w d checkOutputNodes s st =
     (if s = dl_parent d then Inr st
      else rbind (if s \<in> set checkOutputNodes
                  then rbind (firstInputs w s) (\<lambda>cs.
                    rbind (incomingConnectionIsEmpty (x_runData st) cs (dl_run d)) (\<lambda>e. Inr (\<not> e)))
                  else Inr False) (\<lambda>runsNext.
        if runsNext \<or> s \<in> set (stackNames st) \<or> jm_get (x_runData st) s \<noteq> None
           \<or> \<not> isLegacyExecutionOrder w then Inr st
        else case pickSource s checkOutputNodes (stackNames st) (x_runData st)
                    (rev (mainParents w s @ [s])) s of
               None \<Rightarrow> Inr st
             | Some nodeToAdd \<Rightarrow> addSourceNode w d nodeToAdd st))"

definition addMissingSources ::
  "xworkflow \<Rightarrow> delivery \<Rightarrow> exec_state \<Rightarrow> exec_failure + exec_state" where
  "addMissingSources w d st =
     rbind (outputNodes w (dl_parent d)) (\<lambda>checkOutputNodes.
       foldE (addMissingSource w d checkOutputNodes)
         (case mainInputsOf w (dl_node d) of
            None \<Rightarrow> [] | Some ins \<Rightarrow> map ic_node (connectionsAt ins None)) st)"

subsection \<open>Adding a node\<close>

text \<open>The data goes into the entry again, which is replaced as a whole; the sources are kept.\<close>

definition storeEntry :: "xworkflow \<Rightarrow> delivery \<Rightarrow> nat \<Rightarrow> exec_state \<Rightarrow> exec_failure + exec_state" where
  "storeEntry w d r st =
     (let k = dl_node d in
      case (entryAt (x_waiting st) k r, entryAt (x_waitingSource st) k r) of
        (Some main, Some sources) \<Rightarrow>
          (let st1 = prepareWaitingToExecution k (numberOfInputs w k) r st
           in Inr (st1\<lparr>x_waiting := jm_set (x_waiting st1) k
                        (jm_set (runsOf (x_waiting st1) k) r (sl_set main (dl_input d) (deliveredSlot d))),
                      x_waitingSource := jm_set (x_waitingSource st1) k
                        (jm_set (runsOf (x_waitingSource st1) k) r sources)\<rparr>))
      | _ \<Rightarrow> Inl UndefinedRead)"

text \<open>A node with one input: nothing happens when the workflow does not have the node.\<close>

definition addDirectly ::
  "xworkflow \<Rightarrow> delivery \<Rightarrow> nat option \<Rightarrow> task_metadata option \<Rightarrow> exec_state \<Rightarrow> exec_state" where
  "addDirectly w d newRunIndex metadata st =
     (case jm_get (xw_nodes w) (dl_node d) of
        None \<Rightarrow> st
      | Some n \<Rightarrow> enqueueItem w
          \<lparr>ex_node = n,
           ex_data = [(Main, sl_set (replicate (Suc (dl_input d)) Null) (dl_input d) (deliveredSlot d))],
           ex_source = Some [(Main, [Filled (sourceOf d)])],
           ex_runIndex = newRunIndex, ex_metadata = metadata\<rparr> st)"

definition addNodeToBeExecuted ::
  "xworkflow \<Rightarrow> delivery \<Rightarrow> nat option \<Rightarrow> task_metadata option \<Rightarrow> exec_state \<Rightarrow> exec_failure + exec_state" where
  "addNodeToBeExecuted w d newRunIndex metadata st =
     (if numberOfInputs w (dl_node d) > 1 then
        rbind (placeInput w d st) (\<lambda>(st1, waitingNodeIndex, nodeWasWaiting).
          case entryAt (x_waiting st1) (dl_node d) waitingNodeIndex of
            None \<Rightarrow> Inl UndefinedRead
          | Some main \<Rightarrow>
              if list_all (\<lambda>s. s \<noteq> Null) main then releaseEntry w (dl_node d) waitingNodeIndex st1
              else rbind (if nodeWasWaiting then Inr st1 else addMissingSources w d st1)
                     (storeEntry w d waitingNodeIndex))
      else Inr (addDirectly w d newRunIndex metadata st))"

end
