(* ===== verification/NodeOutput.thy ===== *)
theory NodeOutput
  imports WaitingInputs
begin

text \<open>
  What happens to the items before and after a node runs (\<open>workflow-execute.ts\<close>): the
  lineage of the input items, the inputs a node is called with, the pairing of output items
  with input items, the items that carry an error, and the item of a node that returned
  nothing.
\<close>

section \<open>JSON values\<close>

fun js_truthy :: "json \<Rightarrow> bool" where
  "js_truthy JNull = False"
| "js_truthy (JBool b) = b"
| "js_truthy (JNumber x) = (x \<noteq> 0)"
| "js_truthy (JString s) = (s \<noteq> [])"
| "js_truthy (JArray _) = True"
| "js_truthy (JObject _) = True"

text \<open>Reading a property fails on \<open>null\<close>; a value that is not an object has none.\<close>

fun readField :: "json \<Rightarrow> string \<Rightarrow> exec_failure + json option" where
  "readField JNull k = Inl UndefinedRead"
| "readField (JObject ps) k = Inr (json_field ps k)"
| "readField v k = Inr None"

section \<open>Lineage of the input\<close>

definition resolveSourceOverwrite :: "item \<Rightarrow> task_metadata option \<Rightarrow> source_data option" where
  "resolveSourceOverwrite it md =
     (case md of
        None \<Rightarrow> None
      | Some m \<Rightarrow>
          if \<not> md_preserveSourceOverwrite m then None
          else (case md_preservedSourceOverwrite m of
                  Some s \<Rightarrow> Some s
                | None \<Rightarrow> (case i_pairedItem it of
                             Some (PairedOne p) \<Rightarrow> pd_sourceOverwrite p
                           | _ \<Rightarrow> None)))"

definition withLineage :: "task_metadata option \<Rightarrow> nat \<Rightarrow> nat \<Rightarrow> item \<Rightarrow> item" where
  "withLineage md inputIndex itemIndex it =
     it\<lparr>i_pairedItem := Some (PairedOne
          \<lparr>pd_item = itemIndex, pd_input = (if inputIndex = 0 then None else Some inputIndex),
           pd_sourceOverwrite = resolveSourceOverwrite it md\<rparr>)\<rparr>"

definition mapFilled :: "(nat \<Rightarrow> 'a \<Rightarrow> 'b) \<Rightarrow> 'a slot list \<Rightarrow> 'b slot list" where
  "mapFilled f xs =
     map (\<lambda>(i, s). case s of Hole \<Rightarrow> Hole | Null \<Rightarrow> Null | Filled x \<Rightarrow> Filled (f i x)) (enumerate 0 xs)"

definition addPairedItemLineage :: "exec_item \<Rightarrow> task_inputs" where
  "addPairedItemLineage e =
     map (\<lambda>(ty, inputs). (ty, mapFilled (\<lambda>inputIndex items.
            map (\<lambda>(itemIndex, it). withLineage (ex_metadata e) inputIndex itemIndex it)
              (enumerate 0 items)) inputs)) (ex_data e)"

section \<open>The input a node is called with\<close>

text \<open>
  Of a node type the code reads which functions it has, whether the node asks for one of its
  custom operations, and its inputs, which are a list or an expression.
\<close>

datatype described_inputs = InputList "connection_type list" | InputExpression string

datatype required_inputs = RequiredList "nat list" | RequiredCount nat | RequiredExpression string

record exec_type =
  et_execute :: bool
  et_customOperation :: bool
  et_poll :: bool
  et_trigger :: bool
  et_webhook :: bool
  et_supplyData :: bool
  et_declarative :: bool
  et_inputs :: described_inputs
  et_requiredInputs :: "required_inputs option"

fun inputsLength :: "described_inputs \<Rightarrow> nat" where
  "inputsLength (InputList ts) = length ts"
| "inputsLength (InputExpression s) = length s"

fun nonEmptySlot :: "item_list slot \<Rightarrow> bool" where
  "nonEmptySlot (Filled xs) = (xs \<noteq> [])"
| "nonEmptySlot _ = False"

fun firstNonEmpty :: "outputs \<Rightarrow> item_list slot option" where
  "firstNonEmpty [] = None"
| "firstNonEmpty (s # ss) = (if nonEmptySlot s then Some s else firstNonEmpty ss)"

definition sourceMain :: "exec_item \<Rightarrow> source_data slot list option" where
  "sourceMain e = (case ex_source e of None \<Rightarrow> None | Some m \<Rightarrow> jm_get m Main)"

text \<open>Whether the data of an input comes from a node below the node itself.\<close>

definition loopsBack :: "xworkflow \<Rightarrow> xnode \<Rightarrow> source_data slot list \<Rightarrow> nat \<Rightarrow> bool" where
  "loopsBack w n sources i =
     (case sl_get sources i of
        Filled s \<Rightarrow> sd_previousNode s = w_name n \<or>
          sd_previousNode s \<in> set (getChildNodes (xw_bySource w) (w_name n) (OfType Main) (-1))
      | _ \<Rightarrow> False)"

fun firstLoopBack ::
  "xworkflow \<Rightarrow> xnode \<Rightarrow> source_data slot list \<Rightarrow> (nat \<times> item_list slot) list \<Rightarrow> item_list slot option" where
  "firstLoopBack w n sources [] = None"
| "firstLoopBack w n sources ((i, s) # rest) =
     (if nonEmptySlot s \<and> loopsBack w n sources i then Some s else firstLoopBack w n sources rest)"

definition chosenInput :: "xworkflow \<Rightarrow> exec_item \<Rightarrow> outputs \<Rightarrow> item_list slot" where
  "chosenInput w e main =
     (let first = sl_get main 0 in
      if isV1 w then (case firstNonEmpty main of Some s \<Rightarrow> s | None \<Rightarrow> first)
      else case sourceMain e of
             None \<Rightarrow> first
           | Some sources \<Rightarrow>
               if \<not> nonEmptySlot first \<and> sl_get sources 0 = Null
               then (case firstLoopBack w (ex_node e) sources (enumerate 0 main) of
                       Some s \<Rightarrow> s | None \<Rightarrow> first)
               else first)"

text \<open>The result \<open>None\<close> is \<open>null\<close>: the node is not run.\<close>

definition prepareConnectionInputData :: "xworkflow \<Rightarrow> exec_type \<Rightarrow> exec_item \<Rightarrow> item_list option" where
  "prepareConnectionInputData w t e =
     (if et_execute t \<or> et_customOperation t \<or> (\<not> et_poll t \<and> \<not> et_trigger t \<and> \<not> et_webhook t) then
        (case mainOf (ex_data e) of
           None \<Rightarrow> None
         | Some main \<Rightarrow>
             if main = [] then None
             else (case chosenInput w e main of
                     Filled xs \<Rightarrow> if xs = [] then None else Some xs
                   | _ \<Rightarrow> None))
      else Some [])"

definition handleExecuteOnce :: "xnode \<Rightarrow> task_inputs \<Rightarrow> task_inputs" where
  "handleExecuteOnce n inputData =
     (if xn_executeOnce n
      then map (\<lambda>(ty, inputs). (ty, mapFilled (\<lambda>_ items. take 1 items) inputs)) inputData
      else inputData)"

text \<open>The data a disabled node passes on; the result \<open>None\<close> is \<open>undefined\<close>.\<close>

definition handleDisabledNode :: "task_inputs \<Rightarrow> bool \<Rightarrow> outputs option" where
  "handleDisabledNode inputData forwardAllOutputs =
     (case mainOf inputData of
        None \<Rightarrow> None
      | Some main \<Rightarrow>
          if main = [] then None
          else if forwardAllOutputs then Some main
          else if main ! 0 = Null then None
          else Some [main ! 0])"

section \<open>Pairing\<close>

definition mainLength :: "outputs \<Rightarrow> nat option" where
  "mainLength main = (case sl_get main 0 of Filled xs \<Rightarrow> Some (length xs) | _ \<Rightarrow> None)"

text \<open>The index an item without a pairing gets; \<open>None\<close> ends the loops.\<close>

definition pairingRule :: "outputs \<Rightarrow> outputs \<Rightarrow> exec_failure + (nat \<Rightarrow> nat option)" where
  "pairingRule main outs =
     (let single = (length main = 1 \<and> mainLength main = Some 1);
          aggregated = (length outs = 1 \<and> mainLength outs = Some 1 \<and> length main = 1
                        \<and> (case mainLength main of None \<Rightarrow> False | Some n \<Rightarrow> n > 1))
      in rbind (if length outs = 1 \<and> length main = 1
                then (case sl_get outs 0 of
                        Filled xs \<Rightarrow> Inr (mainLength main = Some (length xs))
                      | _ \<Rightarrow> Inl UndefinedRead)
                else Inr False) (\<lambda>sameNumber.
           Inr (\<lambda>index. if single then Some 0
                        else if sameNumber then Some index
                        else if aggregated then Some 0 else None)))"

definition pairedWith :: "nat \<Rightarrow> item \<Rightarrow> item" where
  "pairedWith k it =
     it\<lparr>i_pairedItem := Some (PairedOne \<lparr>pd_item = k, pd_input = None, pd_sourceOverwrite = None\<rparr>)\<rparr>"

fun pairItems :: "(nat \<Rightarrow> nat option) \<Rightarrow> nat \<Rightarrow> item list \<Rightarrow> item list \<times> bool" where
  "pairItems rule index [] = ([], False)"
| "pairItems rule index (it # its) =
     (if i_pairedItem it \<noteq> None then
        (let (rest, stopped) = pairItems rule (Suc index) its in (it # rest, stopped))
      else case rule index of
        None \<Rightarrow> (it # its, True)
      | Some k \<Rightarrow> let (rest, stopped) = pairItems rule (Suc index) its in (pairedWith k it # rest, stopped))"

fun pairOutputs :: "(nat \<Rightarrow> nat option) \<Rightarrow> outputs \<Rightarrow> exec_failure + outputs" where
  "pairOutputs rule [] = Inr []"
| "pairOutputs rule (Hole # outs) = Inl UndefinedRead"
| "pairOutputs rule (Null # outs) = rbind (pairOutputs rule outs) (\<lambda>r. Inr (Null # r))"
| "pairOutputs rule (Filled its # outs) =
     (let (its', stopped) = pairItems rule 0 its
      in if stopped then Inr (Filled its' # outs)
         else rbind (pairOutputs rule outs) (\<lambda>r. Inr (Filled its' # r)))"

definition assignPairedItems :: "outputs option \<Rightarrow> task_inputs \<Rightarrow> exec_failure + outputs option" where
  "assignPairedItems nodeSuccessData inputData =
     (case nodeSuccessData of
        None \<Rightarrow> Inr None
      | Some outs \<Rightarrow>
          if outs = [] then Inr (Some [])
          else (case mainOf inputData of
                  None \<Rightarrow> Inl UndefinedRead
                | Some main \<Rightarrow> rbind (pairingRule main outs) (\<lambda>rule.
                    rbind (pairOutputs rule outs) (\<lambda>r. Inr (Some r)))))"

section \<open>Nothing returned\<close>

definition hasFirstItem :: "outputs \<Rightarrow> bool" where
  "hasFirstItem outs = nonEmptySlot (sl_get outs 0)"

definition allPairs :: "outputs \<Rightarrow> paired_data list" where
  "allPairs main =
     concat (map (\<lambda>(inputIndex, s). case s of
         Filled items \<Rightarrow> map (\<lambda>itemIndex. \<lparr>pd_item = itemIndex, pd_input = Some inputIndex,
                                             pd_sourceOverwrite = None\<rparr>) [0..<length items]
       | _ \<Rightarrow> []) (enumerate 0 main))"

definition ensureAlwaysOutputData ::
  "outputs option \<Rightarrow> exec_item \<Rightarrow> exec_failure + outputs option" where
  "ensureAlwaysOutputData nodeSuccessData e =
     (if (case nodeSuccessData of None \<Rightarrow> False | Some outs \<Rightarrow> hasFirstItem outs) then Inr nodeSuccessData
      else if \<not> xn_alwaysOutputData (ex_node e) then Inr nodeSuccessData
      else case mainOf (ex_data e) of
             None \<Rightarrow> Inl UndefinedRead
           | Some main \<Rightarrow>
               Inr (Some (sl_set (case nodeSuccessData of None \<Rightarrow> [] | Some outs \<Rightarrow> outs) 0
                 (Filled [emptyInput\<lparr>i_pairedItem := Some (PairedMany (allPairs main))\<rparr>]))))"

section \<open>Items with an error\<close>

text \<open>A property whose value is \<open>undefined\<close> is left out.\<close>

definition errorJson :: "json \<Rightarrow> exec_failure + (string, json) js_map" where
  "errorJson err =
     rbind (readField err ''message'') (\<lambda>m.
       Inr (case m of None \<Rightarrow> [] | Some v \<Rightarrow> [(''error'', v)]))"

definition normalizeItem :: "item \<Rightarrow> exec_failure + item" where
  "normalizeItem it =
     (case (jm_get (i_json it) ''$error'', jm_get (i_json it) ''$json'') of
        (Some err, Some _) \<Rightarrow> rbind (errorJson err) (\<lambda>j. Inr (it\<lparr>i_error := Some err, i_json := j\<rparr>))
      | _ \<Rightarrow> (case i_error it of
               None \<Rightarrow> Inr it
             | Some err \<Rightarrow> rbind (errorJson err) (\<lambda>j. Inr (it\<lparr>i_json := j\<rparr>))))"

definition normalizeSlot :: "item_list slot \<Rightarrow> exec_failure + item_list slot" where
  "normalizeSlot s =
     (case s of Filled its \<Rightarrow> rbind (traverse normalizeItem its) (\<lambda>r. Inr (Filled r))
      | _ \<Rightarrow> Inl UndefinedRead)"

definition normalizeNodeErrors :: "outputs option \<Rightarrow> exec_failure + outputs" where
  "normalizeNodeErrors nodeSuccessData =
     (case nodeSuccessData of None \<Rightarrow> Inl UndefinedRead | Some outs \<Rightarrow> traverse normalizeSlot outs)"

subsection \<open>The error output\<close>

text \<open>
  With \<open>continueErrorOutput\<close> the last main output is the one for errors. The item an error
  item comes from is looked up by the data proxy, which is a parameter.
\<close>

type_synonym data_proxy = "source_data \<Rightarrow> paired_data \<Rightarrow> exec_failure + item option"

definition isErrorItem :: "item \<Rightarrow> bool" where
  "isErrorItem it \<longleftrightarrow>
     (case i_error it of Some err \<Rightarrow> js_truthy err | None \<Rightarrow> False) \<or>
     ((case jm_get (i_json it) ''error'' of Some v \<Rightarrow> js_truthy v | None \<Rightarrow> False) \<and>
      list_all (\<lambda>(k, _). k \<in> {''error'', ''message'', ''details''}) (i_json it))"

definition pairedDataOf :: "item \<Rightarrow> paired_data option" where
  "pairedDataOf it =
     (case i_pairedItem it of
        Some (PairedOne p) \<Rightarrow> Some p
      | Some (PairedMany ps) \<Rightarrow> (case ps of [] \<Rightarrow> None | p # _ \<Rightarrow> Some p)
      | _ \<Rightarrow> None)"

text \<open>\<open>{...a, ...b}\<close>.\<close>

definition spread :: "(string, json) js_map \<Rightarrow> (string, json) js_map \<Rightarrow> (string, json) js_map" where
  "spread a b = foldl (\<lambda>m (k, v). jm_set m k v) a b"

definition errorItemOf :: "data_proxy \<Rightarrow> exec_item \<Rightarrow> item \<Rightarrow> exec_failure + item" where
  "errorItemOf getPairedItem e it =
     (case (ex_source e, pairedDataOf it) of
        (Some sources, Some p) \<Rightarrow>
          (case jm_get sources Main of
             None \<Rightarrow> Inl UndefinedRead
           | Some main \<Rightarrow>
               (case sl_get main (case pd_input p of None \<Rightarrow> 0 | Some i \<Rightarrow> i) of
                  Filled s \<Rightarrow> rbind (getPairedItem s p) (\<lambda>r.
                    Inr (case r of None \<Rightarrow> it | Some parent \<Rightarrow> it\<lparr>i_json := spread (i_json parent) (i_json it)\<rparr>))
                | _ \<Rightarrow> Inl UndefinedRead))
      | _ \<Rightarrow> Inr it)"

definition itemsAt :: "outputs \<Rightarrow> nat \<Rightarrow> item_list" where
  "itemsAt outs i = (case sl_get outs i of Filled xs \<Rightarrow> xs | _ \<Rightarrow> [])"

fun splitOutputs ::
  "data_proxy \<Rightarrow> exec_item \<Rightarrow> nat list \<Rightarrow> item_list \<Rightarrow> outputs \<Rightarrow> exec_failure + item_list \<times> outputs" where
  "splitOutputs getPairedItem e [] errorItems outs = Inr (errorItems, outs)"
| "splitOutputs getPairedItem e (i # js) errorItems outs =
     (let items = itemsAt outs i
      in rbind (traverse (errorItemOf getPairedItem e) (filter isErrorItem items)) (\<lambda>errs.
           splitOutputs getPairedItem e js (errorItems @ errs)
             (sl_set outs i (Filled (filter (\<lambda>it. \<not> isErrorItem it) items)))))"

text \<open>\<open>mainOutputs\<close> is the number of main outputs of the node, the error output included.\<close>

definition handleNodeErrorOutput ::
  "data_proxy \<Rightarrow> nat \<Rightarrow> exec_item \<Rightarrow> outputs \<Rightarrow> exec_failure + outputs" where
  "handleNodeErrorOutput getPairedItem mainOutputs e outs =
     rbind (splitOutputs getPairedItem e [0..<mainOutputs - 1] [] outs) (\<lambda>(errorItems, outs').
       Inr (if mainOutputs = 0 then outs' else sl_set outs' (mainOutputs - 1) (Filled errorItems)))"

end
