(* ===== verification/EngineRequests.thy ===== *)
theory EngineRequests
  imports NodeOutput
begin

text \<open>
  Requests of a node to run other nodes (\<open>requests-response.ts\<close>): an agent asks for its
  tools, the tools are put on the stack with a prepared task each, and the agent is put
  below them to resume with their results. A node whose run data is there has at least one
  task, so the index of its last run is a natural number.
\<close>

section \<open>Requests\<close>

record request_entry =
  rq_delivery :: delivery
  rq_nodeRunIndex :: nat
  rq_metadata :: task_metadata

definition AiTool :: connection_type where
  "AiTool = ''ai_tool''"

definition buildParentOutputData ::
  "(string, json) js_map \<Rightarrow> nat \<Rightarrow> nat \<Rightarrow> string \<Rightarrow> outputs" where
  "buildParentOutputData j parentRunIndex parentOutputIndex parentSourceNode =
     [Filled [emptyInput\<lparr>i_json := j, i_pairedItem := Some (PairedOne
        \<lparr>pd_item = parentRunIndex, pd_input = Some parentOutputIndex,
         pd_sourceOverwrite = Some \<lparr>sd_previousNode = parentSourceNode,
           sd_previousNodeOutput = parentOutputIndex, sd_previousNodeRun = parentRunIndex\<rparr>\<rparr>)\<rparr>]]"

definition tasksOf :: "tasks \<Rightarrow> string \<Rightarrow> task list" where
  "tasksOf runData k = jm_or runData k []"

definition preparedTask :: "source_data \<Rightarrow> outputs \<Rightarrow> task" where
  "preparedTask source displayOutputData =
     \<lparr>tk_executionIndex = 0, tk_source = [Filled source], tk_status = None, tk_data = None,
      tk_inputOverride = Some [(AiTool, displayOutputData)], tk_error = None, tk_metadata = None\<rparr>"

text \<open>The run data of the node gets a task; the result is its index.\<close>

definition initializeNodeRunData ::
  "tasks \<Rightarrow> string \<Rightarrow> source_data \<Rightarrow> outputs \<Rightarrow> tasks \<times> nat" where
  "initializeNodeRunData runData nodeName source displayOutputData =
     (let ts = tasksOf runData nodeName
      in (jm_set runData nodeName (ts @ [preparedTask source displayOutputData]), length ts))"

fun givenName :: "string option \<Rightarrow> bool" where
  "givenName None = False"
| "givenName (Some k) = (k \<noteq> [])"

text \<open>The source the code reads for the requesting node: the one at the run index.\<close>

definition parentSourceData :: "exec_item \<Rightarrow> nat \<Rightarrow> source_data option" where
  "parentSourceData e runIndex =
     (case sourceMain e of
        None \<Rightarrow> None
      | Some main \<Rightarrow> (case sl_get main runIndex of Filled s \<Rightarrow> Some s | _ \<Rightarrow> None))"

definition prepareAction ::
  "xworkflow \<Rightarrow> exec_item \<Rightarrow> nat \<Rightarrow> engine_action \<Rightarrow> exec_state
     \<Rightarrow> exec_failure + exec_state \<times> request_entry \<times> sub_node_action" where
  "prepareAction w e runIndex act st =
     rbind (nodeNamed w (ac_nodeName act)) (\<lambda>n.
       let current = w_name (ex_node e);
           psd = parentSourceData e runIndex;
           defaultOutputIndex = (case psd of Some s \<Rightarrow> sd_previousNodeOutput s | None \<Rightarrow> 0);
           defaultSourceNode = (case psd of Some s \<Rightarrow> sd_previousNode s | None \<Rightarrow> current);
           parentNode = (case ac_parentNodeName act of Some p \<Rightarrow> p | None \<Rightarrow> current);
           custom = givenName (ac_parentNodeName act);
           parentRunIndex =
             (if custom then (case jm_get (x_runData st) parentNode of Some ts \<Rightarrow> length ts - 1 | None \<Rightarrow> 0)
              else (case psd of Some s \<Rightarrow> sd_previousNodeRun s | None \<Rightarrow> 0));
           run = (if custom then parentRunIndex else runIndex);
           itemIndex = (case ac_itemIndex act of Some i \<Rightarrow> i | None \<Rightarrow> 0);
           agentJson = (case mainOf (ex_data e) of
               None \<Rightarrow> []
             | Some main \<Rightarrow> (let its = itemsAt main 0
                             in if itemIndex < length its then i_json (its ! itemIndex) else []));
           mergedJson = jm_set (spread agentJson (ac_input act)) ''toolCallId'' (JString (ac_id act));
           output = (\<lambda>j. buildParentOutputData j parentRunIndex defaultOutputIndex defaultSourceNode);
           (runData, nodeRunIndex) = initializeNodeRunData (x_runData st) (w_name n)
             \<lparr>sd_previousNode = parentNode, sd_previousNodeOutput = defaultOutputIndex,
              sd_previousNodeRun = run\<rparr> (output (spread [] (ac_input act)));
           preserved = (case ex_metadata e of None \<Rightarrow> None | Some m \<Rightarrow> md_preservedSourceOverwrite m);
           overwrite = (case preserved of Some s \<Rightarrow> s
             | None \<Rightarrow> \<lparr>sd_previousNode = defaultSourceNode, sd_previousNodeOutput = defaultOutputIndex,
                       sd_previousNodeRun = parentRunIndex\<rparr>)
       in Inr (st\<lparr>x_runData := runData, x_rewired := jm_set (x_rewired st) (w_name n) (ac_type act)\<rparr>,
            \<lparr>rq_delivery = \<lparr>dl_node = ac_nodeName act, dl_input = 0, dl_parent = parentNode, dl_output = 0,
                            dl_data = Some (output mergedJson), dl_run = run\<rparr>,
             rq_nodeRunIndex = nodeRunIndex,
             rq_metadata = \<lparr>md_nodeWasResumed = False, md_subNodeActions = None,
               md_preserveSourceOverwrite = True, md_preservedSourceOverwrite = Some overwrite,
               md_resumeError = None, md_forwardAllOutputs = False\<rparr>\<rparr>,
            \<lparr>sn_action = act, sn_nodeName = ac_nodeName act, sn_runIndex = nodeRunIndex\<rparr>))"

text \<open>The loop over the actions; what was prepared before an unknown node is kept.\<close>

fun prepareRequestedNodesForExecution ::
  "xworkflow \<Rightarrow> exec_item \<Rightarrow> nat \<Rightarrow> engine_action list \<Rightarrow> exec_state
     \<Rightarrow> exec_state \<times> (exec_failure + request_entry list \<times> sub_node_action list)" where
  "prepareRequestedNodesForExecution w e runIndex [] st = (st, Inr ([], []))"
| "prepareRequestedNodesForExecution w e runIndex (act # acts) st =
     (case prepareAction w e runIndex act st of
        Inl err \<Rightarrow> (st, Inl err)
      | Inr (st1, entry, sub) \<Rightarrow>
          let (st2, r) = prepareRequestedNodesForExecution w e runIndex acts st1
          in (st2, rbind r (\<lambda>(entries, subs). Inr (entry # entries, sub # subs))))"

text \<open>Where the requesting node resumes; without a parent node the request is ignored.\<close>

definition prepareRequestingNodeForResuming ::
  "exec_item \<Rightarrow> (string \<times> (bool \<times> source_data option)) option" where
  "prepareRequestingNodeForResuming e =
     (let parent = (case sourceMain e of
            None \<Rightarrow> None
          | Some main \<Rightarrow> (case sl_get main 0 of Filled s \<Rightarrow> Some (sd_previousNode s) | _ \<Rightarrow> None))
      in if givenName parent
         then Some (the parent,
           (case ex_metadata e of
              None \<Rightarrow> (False, None)
            | Some m \<Rightarrow> if md_preservedSourceOverwrite m \<noteq> None \<and> md_preserveSourceOverwrite m
                        then (True, md_preservedSourceOverwrite m) else (False, None)))
         else None)"

definition resumeEntry ::
  "exec_item \<Rightarrow> nat \<Rightarrow> sub_node_action list \<Rightarrow> string \<times> (bool \<times> source_data option) \<Rightarrow> request_entry" where
  "resumeEntry e runIndex subs res =
     \<lparr>rq_delivery = \<lparr>dl_node = w_name (ex_node e), dl_input = 0, dl_parent = fst res, dl_output = 0,
                     dl_data = mainOf (ex_data e), dl_run = runIndex\<rparr>,
      rq_nodeRunIndex = runIndex,
      rq_metadata = \<lparr>md_nodeWasResumed = True, md_subNodeActions = Some subs,
        md_preserveSourceOverwrite = fst (snd res), md_preservedSourceOverwrite = snd (snd res),
        md_resumeError = None, md_forwardAllOutputs = False\<rparr>\<rparr>"

definition handleRequest ::
  "xworkflow \<Rightarrow> exec_item \<Rightarrow> nat \<Rightarrow> engine_action list \<Rightarrow> exec_state
     \<Rightarrow> exec_state \<times> (exec_failure + request_entry list)" where
  "handleRequest w e runIndex actions st =
     (let (st1, r) = prepareRequestedNodesForExecution w e runIndex actions st
      in (st1, rbind r (\<lambda>(entries, subs).
           Inr (case prepareRequestingNodeForResuming e of
                  None \<Rightarrow> []
                | Some res \<Rightarrow> resumeEntry e runIndex subs res #
                    (if isV1 w then rev entries else entries)))))"

text \<open>The entries are put on the stack in order; what was added before a failure is kept.\<close>

fun addRequested ::
  "xworkflow \<Rightarrow> request_entry list \<Rightarrow> exec_state \<Rightarrow> exec_state \<times> exec_failure option" where
  "addRequested w [] st = (st, None)"
| "addRequested w (r # rs) st =
     (case addNodeToBeExecuted w (rq_delivery r) (Some (rq_nodeRunIndex r)) (Some (rq_metadata r)) st of
        Inl err \<Rightarrow> (st, Some err)
      | Inr st1 \<Rightarrow> addRequested w rs st1)"

definition handleEngineRequest ::
  "xworkflow \<Rightarrow> exec_item \<Rightarrow> nat \<Rightarrow> engine_action list \<Rightarrow> exec_state
     \<Rightarrow> exec_state \<times> exec_failure option" where
  "handleEngineRequest w e runIndex actions st =
     (let (st1, r) = handleRequest w e runIndex actions st
      in case r of Inl err \<Rightarrow> (st1, Some err) | Inr entries \<Rightarrow> addRequested w entries st1)"

text \<open>The results an agent resumes with: the action and the task of its run.\<close>

definition collectSubNodeResults :: "exec_item \<Rightarrow> tasks \<Rightarrow> (engine_action \<times> task) list" where
  "collectSubNodeResults e runData =
     (case (case ex_metadata e of None \<Rightarrow> None | Some m \<Rightarrow> md_subNodeActions m) of
        None \<Rightarrow> []
      | Some subs \<Rightarrow> concat (map (\<lambda>s. let ts = tasksOf runData (sn_nodeName s)
            in if sn_runIndex s < length ts then [(sn_action s, ts ! sn_runIndex s)] else []) subs))"

section \<open>The order in which a request runs\<close>

definition requestItem :: "xnode \<Rightarrow> request_entry \<Rightarrow> exec_item" where
  "requestItem n r =
     \<lparr>ex_node = n,
      ex_data = [(Main, [deliveredSlot (rq_delivery r)])],
      ex_source = Some [(Main, [Filled (sourceOf (rq_delivery r))])],
      ex_runIndex = Some (rq_nodeRunIndex r), ex_metadata = Some (rq_metadata r)\<rparr>"

definition directEntry :: "xworkflow \<Rightarrow> request_entry \<Rightarrow> bool" where
  "directEntry w r \<longleftrightarrow> dl_input (rq_delivery r) = 0 \<and> numberOfInputs w (dl_node (rq_delivery r)) \<le> 1
     \<and> jm_get (xw_nodes w) (dl_node (rq_delivery r)) \<noteq> None"

definition itemOfEntry :: "xworkflow \<Rightarrow> request_entry \<Rightarrow> exec_item" where
  "itemOfEntry w r = requestItem (the (jm_get (xw_nodes w) (dl_node (rq_delivery r)))) r"

lemma add_directEntry:
  "directEntry w r \<Longrightarrow>
     addNodeToBeExecuted w (rq_delivery r) (Some (rq_nodeRunIndex r)) (Some (rq_metadata r)) st
       = Inr (enqueueItem w (itemOfEntry w r) st)"
  by (auto simp: directEntry_def addNodeToBeExecuted_def addDirectly_def itemOfEntry_def requestItem_def
      sl_set_in_range)

lemma addRequested_direct:
  "list_all (directEntry w) rs \<Longrightarrow>
     addRequested w rs st = (foldl (\<lambda>s r. enqueueItem w (itemOfEntry w r) s) st rs, None)"
  by (induction rs arbitrary: st) (simp_all add: add_directEntry)

lemma enqueue_all:
  "foldl (\<lambda>s r. enqueueItem w (f r) s) st rs =
     st\<lparr>x_stack := (if isV1 w then rev (map f rs) @ x_stack st else x_stack st @ map f rs)\<rparr>"
  by (induction rs arbitrary: st) (simp_all add: enqueueItem_def)

text \<open>What preparing the actions does, one by one.\<close>

lemma prepareAction_entry:
  assumes "prepareAction w e runIndex act st = Inr (st1, entry, sub)"
  shows "dl_node (rq_delivery entry) = ac_nodeName act" "dl_input (rq_delivery entry) = 0"
    "jm_get (xw_nodes w) (ac_nodeName act) \<noteq> None"
    "sn_nodeName sub = ac_nodeName act" "sn_action sub = act"
    "sn_runIndex sub = rq_nodeRunIndex entry"
    "x_stack st1 = x_stack st" "x_waiting st1 = x_waiting st"
proof -
  obtain n where n: "jm_get (xw_nodes w) (ac_nodeName act) = Some n"
    using assms by (cases "jm_get (xw_nodes w) (ac_nodeName act)")
      (simp_all add: prepareAction_def nodeNamed_def)
  show "jm_get (xw_nodes w) (ac_nodeName act) \<noteq> None" using n by simp
  have run: "(st1, entry, sub) = projr (prepareAction w e runIndex act st)" by (simp add: assms)
  show "dl_node (rq_delivery entry) = ac_nodeName act" "dl_input (rq_delivery entry) = 0"
    "sn_nodeName sub = ac_nodeName act" "sn_action sub = act"
    "sn_runIndex sub = rq_nodeRunIndex entry"
    "x_stack st1 = x_stack st" "x_waiting st1 = x_waiting st"
    using run unfolding prepareAction_def nodeNamed_def n option.case rbind_simps Let_def case_prod_beta
      sum.sel by (simp_all only: prod.inject) simp_all
qed

lemma prepareRequested_entries:
  assumes "prepareRequestedNodesForExecution w e runIndex acts st = (st1, Inr (entries, subs))"
  shows "map (\<lambda>r. dl_node (rq_delivery r)) entries = map ac_nodeName acts
    \<and> list_all (\<lambda>r. dl_input (rq_delivery r) = 0
         \<and> jm_get (xw_nodes w) (dl_node (rq_delivery r)) \<noteq> None) entries
    \<and> map sn_action subs = acts \<and> map sn_runIndex subs = map rq_nodeRunIndex entries
    \<and> x_stack st1 = x_stack st"
  using assms
proof (induction acts arbitrary: st st1 entries subs)
  case (Cons act acts)
  obtain st2 entry sub where a: "prepareAction w e runIndex act st = Inr (st2, entry, sub)"
    using Cons.prems by (auto split: sum.splits prod.splits)
  obtain st3 r where rest: "prepareRequestedNodesForExecution w e runIndex acts st2 = (st3, r)"
    by (cases "prepareRequestedNodesForExecution w e runIndex acts st2")
  then obtain es ss where r: "r = Inr (es, ss)" "entries = entry # es" "subs = sub # ss" "st3 = st1"
    using Cons.prems a by (auto simp: rbind_Inr_iff)
  show ?case using Cons.IH [of st2 st1 es ss] rest r prepareAction_entry [OF a] by simp
qed simp

end
