(* ===== verification/NodeRun.thy ===== *)
theory NodeRun
  imports EngineRequests
begin

text \<open>
  Running one node (\<open>runNode\<close> and the tries of \<open>processRunExecutionData\<close> in
  \<open>workflow-execute.ts\<close>). The code of the nodes is a parameter: a function of a state of the
  outside world that returns data, a request or an error, and may put the execution to wait.
\<close>

section \<open>The environment\<close>

datatype node_outcome =
    Returned "outputs option"
  | Requested "engine_action list"
  | Threw node_error

record node_call =
  nc_item :: exec_item
  nc_inputData :: task_inputs
  nc_connectionInputData :: item_list
  nc_runIndex :: nat
  nc_responses :: "(engine_action \<times> task) list"

record 'w exec_env =
  ev_workflow :: xworkflow
  ev_types :: "string \<Rightarrow> js_number \<Rightarrow> exec_type option"
  ev_call :: "'w \<Rightarrow> node_call \<Rightarrow> 'w \<times> node_outcome \<times> nat option"
  ev_proxy :: "exec_state \<Rightarrow> exec_item \<Rightarrow> data_proxy"
  ev_mainOutputs :: "xnode \<Rightarrow> nat"
  ev_required :: "xnode \<Rightarrow> string \<Rightarrow> required_inputs"
  ev_pinData :: "(string, item_list) js_map"
  ev_runNodeFilter :: "string list option"
  ev_destination :: "string option"
  ev_stops :: "'w \<Rightarrow> bool"

definition typeOf :: "'w exec_env \<Rightarrow> xnode \<Rightarrow> exec_type option" where
  "typeOf env n = ev_types env (w_type n) (w_typeVersion n)"

section \<open>One run\<close>

definition continuesOnError :: "xnode \<Rightarrow> bool" where
  "continuesOnError n \<longleftrightarrow> xn_continueOnFail n \<or>
     xn_onError n \<in> {Some ''continueRegularOutput'', Some ''continueErrorOutput''}"

definition rethrowNodeError :: "node_error \<Rightarrow> node_error" where
  "rethrowNodeError err =
     (if ne_name err \<in> {''NodeOperationError'', ''NodeApiError''} then err
      else err\<lparr>ne_name := ''Error''\<rparr>)"

text \<open>What a failing read of the engine's own code is caught as.\<close>

definition caughtFailure :: "exec_failure \<Rightarrow> node_error" where
  "caughtFailure f =
     (case f of
        NodeNotFound k \<Rightarrow> \<lparr>ne_name = ''UnexpectedError'', ne_message = k\<rparr>
      | _ \<Rightarrow> \<lparr>ne_name = ''TypeError'', ne_message = []\<rparr>)"

definition resumeErrorItem :: "node_error \<Rightarrow> task_inputs \<Rightarrow> item" where
  "resumeErrorItem err inputData =
     emptyInput\<lparr>i_json := [(''error'', JString (ne_message err))],
       i_pairedItem := Some (PairedMany
         (map (\<lambda>i. \<lparr>pd_item = i, pd_input = None, pd_sourceOverwrite = None\<rparr>)
           [0..<length (itemsAt (case mainOf inputData of None \<Rightarrow> [] | Some m \<Rightarrow> m) 0)]))\<rparr>"

definition callNode ::
  "'w exec_env \<Rightarrow> exec_item \<Rightarrow> item_list \<Rightarrow> nat \<Rightarrow> (engine_action \<times> task) list \<Rightarrow> 'w \<Rightarrow> exec_state
     \<Rightarrow> 'w \<times> node_outcome \<times> exec_state" where
  "callNode env e connectionInputData runIndex responses world st =
     (let (world', outcome, wait) = ev_call env world
            \<lparr>nc_item = e, nc_inputData = handleExecuteOnce (ex_node e) (ex_data e),
             nc_connectionInputData = connectionInputData, nc_runIndex = runIndex, nc_responses = responses\<rparr>
      in (world', outcome, case wait of None \<Rightarrow> st | Some t \<Rightarrow> st\<lparr>x_waitTill := Some t\<rparr>))"

definition runNode ::
  "'w exec_env \<Rightarrow> exec_item \<Rightarrow> nat \<Rightarrow> (engine_action \<times> task) list \<Rightarrow> 'w \<Rightarrow> exec_state
     \<Rightarrow> 'w \<times> node_outcome \<times> exec_state" where
  "runNode env e runIndex responses world st =
     (let n = ex_node e; inputData = ex_data e;
          resumeError = (case ex_metadata e of None \<Rightarrow> None | Some m \<Rightarrow> md_resumeError m);
          forward = (case ex_metadata e of None \<Rightarrow> False | Some m \<Rightarrow> md_forwardAllOutputs m)
      in case resumeError of
           Some err \<Rightarrow>
             (world, if continuesOnError n then Returned (Some [Filled [resumeErrorItem err inputData]])
                     else Threw (rethrowNodeError err), st)
         | None \<Rightarrow>
             if w_disabled n = Some True then (world, Returned (handleDisabledNode inputData forward), st)
             else case typeOf env n of
               None \<Rightarrow> (world, Threw (caughtFailure UndefinedRead), st)
             | Some t \<Rightarrow>
               (case prepareConnectionInputData (ev_workflow env) t e of
                  None \<Rightarrow> (world, Returned None, st)
                | Some connectionInputData \<Rightarrow>
                    if x_lastNodeExecuted st = Some (w_name n) \<and> x_error st \<noteq> None
                    then (world, Threw (rethrowNodeError (the (x_error st))), st)
                    else if et_execute t \<or> et_customOperation t \<or> et_poll t \<or> et_trigger t
                    then callNode env e connectionInputData runIndex responses world st
                    else if et_supplyData t
                    then (world, Threw \<lparr>ne_name = ''UnexpectedError'', ne_message = w_type n\<rparr>, st)
                    else if et_webhook t \<and> \<not> et_declarative t
                    then (world, Returned (mainOf (handleExecuteOnce n inputData)), st)
                    else callNode env e connectionInputData runIndex responses world st))"

section \<open>Tries\<close>

text \<open>A returned item that carries an error counts as a failure.\<close>

fun isErrorValue :: "json option \<Rightarrow> bool" where
  "isErrorValue None = False"
| "isErrorValue (Some JNull) = False"
| "isErrorValue (Some (JBool b)) = b"
| "isErrorValue (Some _) = True"

fun checkFailure :: "node_outcome \<Rightarrow> bool" where
  "checkFailure (Returned (Some outs)) =
     (case itemsAt outs 0 of [] \<Rightarrow> False | it # _ \<Rightarrow> isErrorValue (jm_get (i_json it) ''error''))"
| "checkFailure _ = False"

definition clampNumber :: "js_number \<Rightarrow> js_number \<Rightarrow> js_number \<Rightarrow> js_number" where
  "clampNumber low high x = min high (max low x)"

definition orNumber :: "js_number option \<Rightarrow> js_number \<Rightarrow> js_number" where
  "orNumber x d = (case x of None \<Rightarrow> d | Some v \<Rightarrow> if v = 0 then d else v)"

definition getRetryParams :: "exec_item \<Rightarrow> js_number \<times> js_number" where
  "getRetryParams e =
     (let isResumedError = (case ex_metadata e of None \<Rightarrow> False | Some m \<Rightarrow> md_resumeError m \<noteq> None)
      in if \<not> xn_retryOnFail (ex_node e) \<or> isResumedError then (1, 0)
         else (clampNumber 2 5 (orNumber (xn_maxTries (ex_node e)) 3),
               clampNumber 0 5000 (orNumber (xn_waitBetweenTries (ex_node e)) 1000)))"

text \<open>The number of tries of \<open>for (tryIndex = 0; tryIndex < maxTries; tryIndex++)\<close>.\<close>

definition triesOf :: "exec_item \<Rightarrow> nat" where
  "triesOf e = nat \<lceil>fst (getRetryParams e)\<rceil>"

definition getPinnedOutput :: "'w exec_env \<Rightarrow> xnode \<Rightarrow> outputs option" where
  "getPinnedOutput env n =
     (if w_disabled n = Some True then None
      else map_option (\<lambda>items. [Filled items]) (jm_get (ev_pinData env) (w_name n)))"

text \<open>
  The inner loop: a node that failed softly runs again while tries are left. The last
  component is the number of tries that are left, the current one included; a run that
  throws leaves it as it is. With a fractional \<open>maxTries\<close> the test for the last try never
  holds; the settings allow whole numbers only.
\<close>

fun rerun ::
  "'w exec_env \<Rightarrow> exec_item \<Rightarrow> nat \<Rightarrow> nat \<Rightarrow> 'w \<times> node_outcome \<times> exec_state
     \<Rightarrow> ('w \<times> node_outcome \<times> exec_state) \<times> nat" where
  "rerun env e runIndex (Suc (Suc left)) (world, outcome, st) =
     (if checkFailure outcome then
        (let (world', outcome', st') = runNode env e runIndex [] world st
         in case outcome' of
              Threw err \<Rightarrow> ((world', outcome', st'), Suc (Suc left))
            | _ \<Rightarrow> rerun env e runIndex (Suc left) (world', outcome', st'))
      else ((world, outcome, st), Suc (Suc left)))"
| "rerun env e runIndex left r = (r, left)"

datatype try_end = Done "outputs option" | NoData | RequestScheduled | Failed node_error

text \<open>What follows the run of a node or its pinned data.\<close>

definition finishTry :: "exec_item \<Rightarrow> outputs option \<Rightarrow> exec_state \<Rightarrow> exec_state \<times> outputs option \<times> try_end" where
  "finishTry e nodeSuccessData st =
     (case assignPairedItems nodeSuccessData (ex_data e) of
        Inl f \<Rightarrow> (st, nodeSuccessData, Failed (caughtFailure f))
      | Inr paired \<Rightarrow>
          (let st1 = (if paired = None then st else st\<lparr>x_lastNodeExecuted := Some (w_name (ex_node e))\<rparr>)
           in case ensureAlwaysOutputData paired e of
                Inl f \<Rightarrow> (st1, paired, Failed (caughtFailure f))
              | Inr outs \<Rightarrow> (st1, outs, if outs = None \<and> x_waitTill st1 = None then NoData else Done outs)))"

definition processNodeOutput ::
  "'w exec_env \<Rightarrow> exec_item \<Rightarrow> exec_state \<Rightarrow> outputs option \<Rightarrow> exec_failure + outputs option" where
  "processNodeOutput env e st nodeData =
     (case nodeData of
        None \<Rightarrow> Inr None
      | Some outs \<Rightarrow>
          if xn_onError (ex_node e) = Some ''continueErrorOutput''
          then rbind (handleNodeErrorOutput (ev_proxy env st e) (ev_mainOutputs env (ex_node e)) e outs)
                 (\<lambda>r. Inr (Some r))
          else Inr (Some outs))"

text \<open>
  One try. The array the results of the sub-nodes are pushed to is made once per run of the
  node, so every try adds them again to those of the tries before.
\<close>

definition attempt ::
  "'w exec_env \<Rightarrow> exec_item \<Rightarrow> nat \<Rightarrow> nat \<Rightarrow> (engine_action \<times> task) list \<Rightarrow> outputs option \<Rightarrow> 'w \<Rightarrow> exec_state
     \<Rightarrow> 'w \<times> exec_state \<times> outputs option \<times> try_end \<times> nat" where
  "attempt env e runIndex left responses nodeSuccessData world st =
     (case getPinnedOutput env (ex_node e) of
        Some pinned \<Rightarrow> (case finishTry e (Some pinned) st of (st1, outs, r) \<Rightarrow> (world, st1, outs, r, left))
      | None \<Rightarrow>
          (case rerun env e runIndex left
                  (runNode env e runIndex (responses @ collectSubNodeResults e (x_runData st)) world st) of
             ((world1, Threw err, st1), left1) \<Rightarrow> (world1, st1, nodeSuccessData, Failed err, left1)
           | ((world1, Requested actions, st1), left1) \<Rightarrow>
               (case handleEngineRequest (ev_workflow env) e runIndex actions st1 of
                  (st2, None) \<Rightarrow> (world1, st2, nodeSuccessData, RequestScheduled, left1)
                | (st2, Some f) \<Rightarrow> (world1, st2, nodeSuccessData, Failed (caughtFailure f), left1))
           | ((world1, Returned nodeData, st1), left1) \<Rightarrow>
               (case processNodeOutput env e st1 nodeData of
                  Inl f \<Rightarrow> (world1, st1, nodeSuccessData, Failed (caughtFailure f), left1)
                | Inr outs \<Rightarrow>
                    (case finishTry e outs st1 of (st2, outs', r) \<Rightarrow> (world1, st2, outs', r, left1)))))"

lemma rerun_left: "snd (rerun env e ri left r) \<le> left"
proof (induction env e ri left r rule: rerun.induct)
  case (1 env e ri left world outcome st)
  obtain w' o' s' where r: "runNode env e ri [] world st = (w', o', s')" by (metis prod_cases3)
  show ?case using 1 [OF _ r [symmetric] refl] by (cases o') (auto simp: r intro: le_SucI)
qed simp_all

lemma attempt_left: "(w', st', d', r, left1) = attempt env e ri left rs d world st \<Longrightarrow> left1 \<le> left"
proof -
  assume "(w', st', d', r, left1) = attempt env e ri left rs d world st"
  then have left1: "left1 = snd (snd (snd (snd (attempt env e ri left rs d world st))))"
    by (metis snd_conv)
  let ?rerun = "rerun env e ri left (runNode env e ri (rs @ collectSubNodeResults e (x_runData st)) world st)"
  have "snd ?rerun \<le> left" by (rule rerun_left)
  then show "left1 \<le> left"
    unfolding left1
    by (cases ?rerun) (auto simp: attempt_def split: option.split node_outcome.split sum.split prod.split)
qed

text \<open>
  The loop over the tries. An error marks the node as the last one executed; the result of
  the last try is the result of the loop.
\<close>

function tries ::
  "'w exec_env \<Rightarrow> exec_item \<Rightarrow> nat \<Rightarrow> nat \<Rightarrow> (engine_action \<times> task) list \<Rightarrow> outputs option \<Rightarrow> 'w \<Rightarrow> exec_state
     \<Rightarrow> 'w \<times> exec_state \<times> outputs option \<times> try_end" where
  "tries env e runIndex left responses nodeSuccessData world st =
     (case attempt env e runIndex left responses nodeSuccessData world st of
        (world1, st1, outs, Failed err, left1) \<Rightarrow>
          (let st2 = st1\<lparr>x_lastNodeExecuted := Some (w_name (ex_node e))\<rparr>
           in if left1 \<le> 1 then (world1, st2, outs, Failed err)
              else tries env e runIndex (left1 - 1) (responses @ collectSubNodeResults e (x_runData st))
                    outs world1 st2)
      | (world1, st1, outs, result, left1) \<Rightarrow> (world1, st1, outs, result))"
  by pat_completeness auto
termination
  by (relation "measure (\<lambda>(env, e, ri, left, rs, d, world, st). left)")
     (auto dest!: attempt_left)

declare tries.simps [simp del]

end
