(* ===== verification/WaitingInvariant.thy ===== *)
theory WaitingInvariant
  imports WaitingInputs "HOL-Library.Multiset"
begin

text \<open>
  What \<open>addNodeToBeExecuted\<close> keeps: the shape of the waiting entries, and the data. The
  data held for the nodes is counted as a multiset over the stack and the waiting entries;
  what an operation adds and loses is read off two laws of weighted maps.
\<close>

section \<open>Weights of maps\<close>

definition weigh :: "('k \<Rightarrow> 'v \<Rightarrow> 'a multiset) \<Rightarrow> ('k, 'v) js_map \<Rightarrow> 'a multiset" where
  "weigh f m = (\<Sum>(k, v) \<leftarrow> m. f k v)"

lemma weigh_simps [simp]:
  "weigh f [] = {#}" "weigh f ((k, v) # m) = f k v + weigh f m"
  by (simp_all add: weigh_def)

definition weightAt :: "('k \<Rightarrow> 'v \<Rightarrow> 'a multiset) \<Rightarrow> ('k, 'v) js_map \<Rightarrow> 'k \<Rightarrow> 'a multiset" where
  "weightAt f m k = (case jm_get m k of None \<Rightarrow> {#} | Some v \<Rightarrow> f k v)"

lemma weigh_set: "weigh f (jm_set m k v) + weightAt f m k = weigh f m + f k v"
  by (induction m k v rule: jm_set.induct) (auto simp: weightAt_def ac_simps)

lemma jm_delete_absent: "k \<notin> fst ` set m \<Longrightarrow> jm_delete m k = m"
  by (force simp: jm_delete_def intro!: filter_True)

lemma weigh_delete:
  "distinct (map fst m) \<Longrightarrow> weigh f (jm_delete m k) + weightAt f m k = weigh f m"
proof (induction m)
  case (Cons e m)
  obtain k' v where [simp]: "e = (k', v)" by (cases e)
  show ?case
  proof (cases "k' = k")
    case True
    with Cons.prems have "k \<notin> fst ` set m" by auto
    then have "jm_delete (e # m) k = m" using True jm_delete_absent by (simp add: jm_delete_def)
    then show ?thesis using True by (simp add: weightAt_def ac_simps)
  next
    case False
    then have "jm_delete (e # m) k = e # jm_delete m k" by (simp add: jm_delete_def)
    then show ?thesis using Cons False by (simp add: weightAt_def ac_simps)
  qed
qed (simp add: jm_delete_def weightAt_def)

lemma weights_exchange:
  fixes a :: "'a multiset"
  assumes "a + b = c + d" "d + e = b + f"
  shows "a + e = c + f"
proof -
  have "a + e + b = (a + b) + e" by (simp add: ac_simps)
  also have "\<dots> = c + (d + e)" by (simp only: assms(1) ac_simps)
  also have "\<dots> = c + f + b" by (simp only: assms(2) ac_simps)
  finally show ?thesis by simp
qed

section \<open>The data that is held\<close>

abbreviation heldMain :: "string \<Rightarrow> outputs \<Rightarrow> (string \<times> item_list) multiset" where
  "heldMain k main \<equiv> image_mset (Pair k) (mset (contents main))"

definition heldRuns :: "string \<Rightarrow> item_list waiting_runs \<Rightarrow> (string \<times> item_list) multiset" where
  "heldRuns k runs = weigh (\<lambda>r. heldMain k) runs"

definition heldItem :: "exec_item \<Rightarrow> (string \<times> item_list) multiset" where
  "heldItem e = (case mainOf (ex_data e) of None \<Rightarrow> {#} | Some main \<Rightarrow> heldMain (w_name (ex_node e)) main)"

definition heldWaiting :: "exec_state \<Rightarrow> (string \<times> item_list) multiset" where
  "heldWaiting st = weigh heldRuns (x_waiting st)"

definition held :: "exec_state \<Rightarrow> (string \<times> item_list) multiset" where
  "held st = (\<Sum>e \<leftarrow> x_stack st. heldItem e) + heldWaiting st"

lemma heldRuns_Nil [simp]: "heldRuns k [] = {#}"
  by (simp add: heldRuns_def)

lemma weightAt_runs: "weightAt heldRuns m k = heldRuns k (runsOf m k)"
  by (simp add: weightAt_def runsOf_def jm_or_def split: option.split)

lemma held_enqueue: "held (enqueueItem w e st) = held st + heldItem e"
  by (simp add: held_def heldWaiting_def enqueueItem_def ac_simps)

text \<open>The data one entry holds.\<close>

definition heldEntry :: "item_list waiting_map \<Rightarrow> string \<Rightarrow> nat \<Rightarrow> (string \<times> item_list) multiset" where
  "heldEntry m k r = (case entryAt m k r of None \<Rightarrow> {#} | Some main \<Rightarrow> heldMain k main)"

lemma weightAt_entry: "weightAt (\<lambda>r. heldMain k) (runsOf m k) r = heldEntry m k r"
  by (simp add: weightAt_def heldEntry_def entryAt_def)

lemma heldWaiting_setEntry:
  "weigh heldRuns (jm_set m k (jm_set (runsOf m k) r main)) + heldEntry m k r
     = weigh heldRuns m + heldMain k main"
proof -
  have "weigh heldRuns (jm_set m k (jm_set (runsOf m k) r main)) + heldRuns k (runsOf m k)
      = weigh heldRuns m + heldRuns k (jm_set (runsOf m k) r main)"
    using weigh_set [of heldRuns m k] by (simp add: weightAt_runs)
  moreover have "heldRuns k (jm_set (runsOf m k) r main) + heldEntry m k r
      = heldRuns k (runsOf m k) + heldMain k main"
    using weigh_set [of "\<lambda>r. heldMain k" "runsOf m k" r main]
    by (simp add: heldRuns_def weightAt_entry)
  ultimately show ?thesis by (rule weights_exchange)
qed

section \<open>The shape of the waiting entries\<close>

text \<open>
  An entry has one element per input of its node, filled with data exactly where the sources
  are filled; one at least is filled and one at least is missing.
\<close>

definition entry_ok :: "nat \<Rightarrow> outputs \<Rightarrow> source_data slot list \<Rightarrow> bool" where
  "entry_ok n main sources \<longleftrightarrow> length main = n \<and> length sources = n
     \<and> Hole \<notin> set main \<and> Hole \<notin> set sources
     \<and> (\<forall>i < n. main ! i = Null \<longleftrightarrow> sources ! i = Null)
     \<and> Null \<in> set main"

definition waiting_ok :: "xworkflow \<Rightarrow> exec_state \<Rightarrow> bool" where
  "waiting_ok w st \<longleftrightarrow>
     distinct (map fst (x_waiting st)) \<and> distinct (map fst (x_waitingSource st)) \<and>
     (\<forall>k. jm_get (x_waiting st) k = None \<longleftrightarrow> jm_get (x_waitingSource st) k = None) \<and>
     (\<forall>k. jm_get (x_waiting st) k \<noteq> Some []) \<and>
     (\<forall>k. distinct (map fst (runsOf (x_waiting st) k)) \<and>
          distinct (map fst (runsOf (x_waitingSource st) k))) \<and>
     (\<forall>k r. entryAt (x_waiting st) k r = None \<longleftrightarrow> entryAt (x_waitingSource st) k r = None) \<and>
     (\<forall>k r main sources. entryAt (x_waiting st) k r = Some main \<longrightarrow>
        entryAt (x_waitingSource st) k r = Some sources \<longrightarrow>
        entry_ok (numberOfInputs w k) main sources)"

lemma entryAt_set [simp]:
  "entryAt (jm_set m k (jm_set (runsOf m k) r v)) k' r' =
     (if k' = k \<and> r' = r then Some v else entryAt m k' r')"
  by (auto simp: entryAt_def)

lemma runsOf_None: "jm_get m k = None \<Longrightarrow> runsOf m k = []"
  by (simp add: runsOf_def jm_or_def)

lemma runsOf_Some: "jm_get m k = Some runs \<Longrightarrow> runsOf m k = runs"
  by (simp add: runsOf_def jm_or_def)

lemma entryAt_create [simp]:
  "jm_get m k = None \<Longrightarrow> entryAt (jm_set m k []) k' r = entryAt m k' r"
  by (auto simp: entryAt_def runsOf_None)

text \<open>The index that is looked up is of an entry; a new one need not be.\<close>

lemma freeEntry_SomeD:
  "freeEntry runs i = Some r \<Longrightarrow>
     \<exists>main. jm_get runs r = Some main \<and> \<not> isFilled (sl_get main i) \<and> r \<in> fst ` set runs"
  by (auto simp: freeEntry_def find_Some_iff split: option.splits intro: nth_mem
      dest: map_of_SomeD) (force dest: map_of_SomeD)+

lemma freeEntry_None:
  assumes "freeEntry runs i = None" "jm_get runs r = Some main"
  shows "isFilled (sl_get main i)"
proof -
  have "r \<in> set (numericKeys runs)" using assms(2) by (force dest: map_of_SomeD)
  then show ?thesis using assms by (auto simp: freeEntry_def find_None_iff)
qed

text \<open>The earliest one is found.\<close>

lemma freeEntry_least:
  assumes "freeEntry runs i = Some r" "q < r" "jm_get runs q = Some main"
  shows "isFilled (sl_get main i)"
proof -
  let ?P = "\<lambda>r. case jm_get runs r of None \<Rightarrow> False | Some main \<Rightarrow> \<not> isFilled (sl_get main i)"
  obtain j where j: "j < length (numericKeys runs)" "r = numericKeys runs ! j"
      "\<forall>l < j. \<not> ?P (numericKeys runs ! l)"
    using assms(1) by (auto simp: freeEntry_def find_Some_iff)
  have "q \<in> set (numericKeys runs)" using assms(3) by (force dest: map_of_SomeD)
  then obtain l where l: "l < length (numericKeys runs)" "q = numericKeys runs ! l"
    by (auto simp: in_set_conv_nth simp del: set_numericKeys)
  have "sorted (numericKeys runs)" by (simp add: numericKeys_def)
  then have "l < j" using assms(2) j l sorted_nth_mono [of "numericKeys runs" j l]
    by (meson leD le_less_linear)
  then have "\<not> ?P q" using j(3) l(2) by simp
  then show ?thesis using assms(3) by simp
qed

section \<open>What adding a node does\<close>

abbreviation setEntry ::
  "'a waiting_map \<Rightarrow> string \<Rightarrow> nat \<Rightarrow> 'a slot list \<Rightarrow> 'a waiting_map" where
  "setEntry m k r v \<equiv> jm_set m k (jm_set (runsOf m k) r v)"

definition dropEntry :: "'a waiting_map \<Rightarrow> string \<Rightarrow> nat \<Rightarrow> 'a waiting_map" where
  "dropEntry m k r =
     (let runs = jm_delete (runsOf m k) r in if runs = [] then jm_delete m k else jm_set m k runs)"

lemma jm_set_set [simp]: "jm_set (jm_set m k v) k v' = jm_set m k v'"
  by (induction m k v rule: jm_set.induct) auto

lemma jm_delete_set [simp]: "jm_delete (jm_set m k v) k = jm_delete m k"
  by (induction m k v rule: jm_set.induct) (auto simp: jm_delete_def)

lemma entryAt_drop [simp]:
  "entryAt (dropEntry m k r) k' r' = (if k' = k \<and> r' = r then None else entryAt m k' r')"
proof (cases "jm_delete (runsOf m k) r = []")
  case True
  then have "fst ` set (runsOf m k) \<subseteq> {r}" by (force simp: jm_delete_def filter_empty_conv)
  then have "entryAt m k q = None" if "q \<noteq> r" for q
    using that by (auto simp: entryAt_def map_of_eq_None_iff)
  then show ?thesis using True by (auto simp: dropEntry_def entryAt_def)
next
  case False
  then show ?thesis by (auto simp: dropEntry_def entryAt_def Let_def)
qed

lemma setEntry_same: "entryAt m k r = Some v \<Longrightarrow> setEntry m k r v = m"
proof -
  assume e: "entryAt m k r = Some v"
  then obtain runs where "jm_get m k = Some runs"
    by (cases "jm_get m k") (auto simp: entryAt_def runsOf_None)
  then show ?thesis using e by (simp add: entryAt_def runsOf_Some jm_set_same)
qed

text \<open>The entry that receives the data, as it is before.\<close>

definition entryIndex :: "delivery \<Rightarrow> exec_state \<Rightarrow> nat" where
  "entryIndex d st =
     (let runs = runsOf (x_waiting st) (dl_node d)
      in case freeEntry runs (dl_input d) of Some r \<Rightarrow> r | None \<Rightarrow> length runs)"

definition entryBefore :: "xworkflow \<Rightarrow> delivery \<Rightarrow> exec_state \<Rightarrow> outputs \<times> source_data slot list" where
  "entryBefore w d st =
     (let k = dl_node d
      in case freeEntry (runsOf (x_waiting st) k) (dl_input d) of
           None \<Rightarrow> (replicate (numberOfInputs w k) Null, replicate (numberOfInputs w k) Null)
         | Some r \<Rightarrow> (the (entryAt (x_waiting st) k r), the (entryAt (x_waitingSource st) k r)))"

definition placed :: "xworkflow \<Rightarrow> delivery \<Rightarrow> exec_state \<Rightarrow> exec_state" where
  "placed w d st =
     (let k = dl_node d; r = entryIndex d st; i = dl_input d;
          before = entryBefore w d st
      in st\<lparr>x_waiting := setEntry (x_waiting st) k r ((fst before)[i := deliveredSlot d]),
            x_waitingSource := setEntry (x_waitingSource st) k r ((snd before)[i := deliveredSource d])\<rparr>)"

lemma waiting_okD:
  assumes "waiting_ok w st"
  shows "entryAt (x_waiting st) k r = None \<longleftrightarrow> entryAt (x_waitingSource st) k r = None"
    "jm_get (x_waiting st) k = None \<longleftrightarrow> jm_get (x_waitingSource st) k = None"
    "entryAt (x_waiting st) k r = Some main \<Longrightarrow>
       \<exists>sources. entryAt (x_waitingSource st) k r = Some sources
         \<and> entry_ok (numberOfInputs w k) main sources"
  using assms by (auto simp: waiting_ok_def)
     (metis not_Some_eq)

lemma entryBefore_ok:
  assumes "waiting_ok w st"
  shows "length (fst (entryBefore w d st)) = numberOfInputs w (dl_node d)"
    "length (snd (entryBefore w d st)) = numberOfInputs w (dl_node d)"
    "Hole \<notin> set (fst (entryBefore w d st))" "Hole \<notin> set (snd (entryBefore w d st))"
    "i < numberOfInputs w (dl_node d) \<Longrightarrow>
       fst (entryBefore w d st) ! i = Null \<longleftrightarrow> snd (entryBefore w d st) ! i = Null"
    "dl_input d < numberOfInputs w (dl_node d) \<Longrightarrow>
       fst (entryBefore w d st) ! dl_input d = Null"
proof -
  let ?k = "dl_node d" and ?runs = "runsOf (x_waiting st) (dl_node d)"
  have "length (fst (entryBefore w d st)) = numberOfInputs w ?k \<and>
    length (snd (entryBefore w d st)) = numberOfInputs w ?k \<and>
    Hole \<notin> set (fst (entryBefore w d st)) \<and> Hole \<notin> set (snd (entryBefore w d st)) \<and>
    (\<forall>i < numberOfInputs w ?k. fst (entryBefore w d st) ! i = Null \<longleftrightarrow> snd (entryBefore w d st) ! i = Null) \<and>
    (dl_input d < numberOfInputs w ?k \<longrightarrow> fst (entryBefore w d st) ! dl_input d = Null)"
  proof (cases "freeEntry ?runs (dl_input d)")
    case None
    then show ?thesis by (auto simp: entryBefore_def Let_def)
  next
    case (Some r)
    then obtain main where main: "jm_get ?runs r = Some main" "\<not> isFilled (sl_get main (dl_input d))"
      using freeEntry_SomeD by blast
    then have e: "entryAt (x_waiting st) ?k r = Some main" by (simp add: entryAt_def)
    obtain sources where s: "entryAt (x_waitingSource st) ?k r = Some sources"
        "entry_ok (numberOfInputs w ?k) main sources"
      using waiting_okD(3) [OF assms e] by blast
    have "entryBefore w d st = (main, sources)" using Some e s(1) by (simp add: entryBefore_def)
    moreover have "main ! dl_input d = Null" if "dl_input d < numberOfInputs w ?k"
      using that main(2) s(2) by (cases "main ! dl_input d")
        (auto simp: entry_ok_def sl_get_in_range, metis nth_mem)
    ultimately show ?thesis using s(2) by (simp add: entry_ok_def)
  qed
  then show "length (fst (entryBefore w d st)) = numberOfInputs w (dl_node d)"
    "length (snd (entryBefore w d st)) = numberOfInputs w (dl_node d)"
    "Hole \<notin> set (fst (entryBefore w d st))" "Hole \<notin> set (snd (entryBefore w d st))"
    "i < numberOfInputs w (dl_node d) \<Longrightarrow>
       fst (entryBefore w d st) ! i = Null \<longleftrightarrow> snd (entryBefore w d st) ! i = Null"
    "dl_input d < numberOfInputs w (dl_node d) \<Longrightarrow> fst (entryBefore w d st) ! dl_input d = Null"
    by simp_all
qed

lemma putSlot_eq:
  "entryAt m k r = Some xs \<Longrightarrow> i < length xs \<Longrightarrow> putSlot m k r i v = Inr (setEntry m k r (xs[i := v]))"
  by (simp add: putSlot_def sl_set_in_range)

lemma placeInput_eq:
  assumes ok: "waiting_ok w st" and i: "dl_input d < numberOfInputs w (dl_node d)"
  shows "placeInput w d st =
    Inr (placed w d st, entryIndex d st, jm_get (x_waiting st) (dl_node d) \<noteq> None)"
proof -
  let ?k = "dl_node d" and ?n = "numberOfInputs w (dl_node d)"
  let ?st1 = "if jm_get (x_waiting st) ?k \<noteq> None then st
    else st\<lparr>x_waiting := jm_set (x_waiting st) ?k [], x_waitingSource := jm_set (x_waitingSource st) ?k []\<rparr>"
  have runs: "runsOf (x_waiting ?st1) ?k = runsOf (x_waiting st) ?k"
      "runsOf (x_waitingSource ?st1) ?k = runsOf (x_waitingSource st) ?k"
    using waiting_okD(2) [OF ok, of ?k] by (auto simp: runsOf_None)
  have sets: "jm_set (x_waiting ?st1) ?k v = jm_set (x_waiting st) ?k v"
      "jm_set (x_waitingSource ?st1) ?k v' = jm_set (x_waitingSource st) ?k v'" for v v'
    by simp_all
  show ?thesis
  proof (cases "freeEntry (runsOf (x_waiting st) ?k) (dl_input d)")
    case None
    let ?r = "length (runsOf (x_waiting st) ?k)"
    have r: "entryIndex d st = ?r" using None by (simp add: entryIndex_def)
    have b: "entryBefore w d st = (replicate ?n Null, replicate ?n Null)"
      using None by (simp add: entryBefore_def Let_def)
    show ?thesis
      unfolding placeInput_def Let_def runs None option.case prepareWaitingToExecution_def
      using i by (simp add: putSlot_eq [where xs = "replicate ?n Null"] runs r b placed_def Let_def
          entryAt_def jm_set_same)
  next
    case (Some r)
    then obtain main where "jm_get (runsOf (x_waiting st) ?k) r = Some main" using freeEntry_SomeD by blast
    then have e: "entryAt (x_waiting st) ?k r = Some main" by (simp add: entryAt_def)
    obtain sources where s: "entryAt (x_waitingSource st) ?k r = Some sources"
        "entry_ok ?n main sources"
      using waiting_okD(3) [OF ok e] by blast
    have known: "jm_get (x_waiting st) ?k \<noteq> None" using e
      by (cases "jm_get (x_waiting st) ?k") (simp_all add: entryAt_def runsOf_None)
    have r: "entryIndex d st = r" and b: "entryBefore w d st = (main, sources)"
      using Some e s(1) by (simp_all add: entryIndex_def entryBefore_def)
    show ?thesis
      using i s known putSlot_eq [OF e, of "dl_input d"] putSlot_eq [OF s(1), of "dl_input d"]
      by (simp add: placeInput_def Let_def Some r b placed_def entry_ok_def)
  qed
qed

subsection \<open>The sources that are added\<close>

text \<open>
  Looking for the sources of the missing inputs changes the stack only; what it adds holds
  one empty item for a node of the workflow. In the order v1 nothing is added.
\<close>

definition only_stack :: "exec_state \<Rightarrow> exec_state \<Rightarrow> bool" where
  "only_stack st st' \<longleftrightarrow> st' = st\<lparr>x_stack := x_stack st'\<rparr>"

definition grows_by_empty :: "exec_state \<Rightarrow> exec_state \<Rightarrow> bool" where
  "grows_by_empty st st' \<longleftrightarrow> only_stack st st' \<and>
     (\<exists>names. held st' = held st + image_mset (\<lambda>k. (k, [emptyInput])) names)"

lemma grows_refl [simp]: "grows_by_empty st st"
  by (auto simp: grows_by_empty_def only_stack_def intro: exI [of _ "{#}"])

lemma grows_trans:
  assumes "grows_by_empty a b" "grows_by_empty b c"
  shows "grows_by_empty a c"
proof -
  obtain ns ms where "held b = held a + image_mset (\<lambda>k. (k, [emptyInput])) ns"
      "held c = held b + image_mset (\<lambda>k. (k, [emptyInput])) ms"
    using assms by (auto simp: grows_by_empty_def)
  then have "held c = held a + image_mset (\<lambda>k. (k, [emptyInput])) (ns + ms)" by (simp add: ac_simps)
  moreover have "only_stack a c"
    using assms unfolding grows_by_empty_def only_stack_def
    by (metis (no_types, lifting) exec_state.surjective exec_state.update_convs(1))
  ultimately show ?thesis unfolding grows_by_empty_def by blast
qed

lemma grows_enqueue_empty: "grows_by_empty st (enqueueItem w (emptyEntry n d) st)"
proof -
  have "held (enqueueItem w (emptyEntry n d) st)
      = held st + image_mset (\<lambda>k. (k, [emptyInput])) {#w_name n#}"
    by (simp add: held_enqueue heldItem_def emptyEntry_def mainOf_def)
  moreover have "only_stack st (enqueueItem w e st)" for e
    by (simp add: only_stack_def enqueueItem_def)
  ultimately show ?thesis unfolding grows_by_empty_def by blast
qed

lemma addMissingSource_grows:
  "addMissingSource w d names s st = Inr st' \<Longrightarrow> grows_by_empty st st'"
  by (auto simp: addMissingSource_def addSourceNode_def rbind_Inr_iff grows_enqueue_empty
      split: if_splits option.splits)

lemma addMissingSources_grows:
  assumes "addMissingSources w d st = Inr st'"
  shows "grows_by_empty st st'"
proof -
  from assms obtain names ss where "foldE (addMissingSource w d names) ss st = Inr st'"
    by (auto simp: addMissingSources_def rbind_Inr_iff)
  then show ?thesis
    by (rule foldE_invariant [where I = "grows_by_empty st"])
       (auto intro: grows_trans dest: addMissingSource_grows)
qed

lemma addMissingSources_v1:
  assumes "isV1 w" "addMissingSources w d st = Inr st'"
  shows "st' = st"
proof -
  from assms(2) obtain names ss where "foldE (addMissingSource w d names) ss st = Inr st'"
    by (auto simp: addMissingSources_def rbind_Inr_iff)
  then show ?thesis
    by (rule foldE_invariant [where I = "\<lambda>s. s = st"])
       (use assms(1) in \<open>auto simp: addMissingSource_def rbind_Inr_iff split: if_splits\<close>)
qed

text \<open>Storing the entry again changes nothing.\<close>

lemma storeEntry_id:
  assumes "entryAt (x_waiting st) (dl_node d) r = Some main" "main ! dl_input d = deliveredSlot d"
    "dl_input d < length main" "entryAt (x_waitingSource st) (dl_node d) r = Some sources"
  shows "storeEntry w d r st = Inr st"
proof -
  have "setEntry (x_waiting st) (dl_node d) r main = x_waiting st"
      "setEntry (x_waitingSource st) (dl_node d) r sources = x_waitingSource st"
    using assms setEntry_same by blast+
  moreover have "sl_set main (dl_input d) (deliveredSlot d) = main"
    using assms(2,3) by (simp add: sl_set_in_range flip: assms(2))
  ultimately show ?thesis using assms
    by (simp add: storeEntry_def Let_def prepareWaitingToExecution_def)
qed

subsection \<open>The two outcomes\<close>

abbreviation filledMain :: "xworkflow \<Rightarrow> delivery \<Rightarrow> exec_state \<Rightarrow> outputs" where
  "filledMain w d st \<equiv> (fst (entryBefore w d st))[dl_input d := deliveredSlot d]"

abbreviation filledSource :: "xworkflow \<Rightarrow> delivery \<Rightarrow> exec_state \<Rightarrow> source_data slot list" where
  "filledSource w d st \<equiv> (snd (entryBefore w d st))[dl_input d := deliveredSource d]"

definition joinedItem :: "xworkflow \<Rightarrow> xnode \<Rightarrow> delivery \<Rightarrow> exec_state \<Rightarrow> exec_item" where
  "joinedItem w n d st =
     \<lparr>ex_node = n, ex_data = [(Main, filledMain w d st)],
      ex_source = Some [(Main, filledSource w d st)], ex_runIndex = None, ex_metadata = None\<rparr>"

definition released :: "xworkflow \<Rightarrow> xnode \<Rightarrow> delivery \<Rightarrow> exec_state \<Rightarrow> exec_state" where
  "released w n d st =
     enqueueItem w (joinedItem w n d st)
       (st\<lparr>x_waiting := dropEntry (x_waiting st) (dl_node d) (entryIndex d st),
          x_waitingSource := dropEntry (x_waitingSource st) (dl_node d) (entryIndex d st)\<rparr>)"

lemma jm_delete_Nil_iff: "jm_delete m k = [] \<longleftrightarrow> (\<forall>k'. k' \<noteq> k \<longrightarrow> jm_get m k' = None)"
proof -
  have "jm_delete m k = [] \<longleftrightarrow> fst ` set m \<subseteq> {k}" by (force simp: jm_delete_def filter_empty_conv)
  then show ?thesis by (auto simp: map_of_eq_None_iff)
qed

lemma removeWaitingEntry_placed:
  assumes "waiting_ok w st"
  shows "removeWaitingEntry k r (st\<lparr>x_waiting := setEntry (x_waiting st) k r main,
      x_waitingSource := setEntry (x_waitingSource st) k r sources, x_stack := stack\<rparr>)
    = st\<lparr>x_waiting := dropEntry (x_waiting st) k r,
         x_waitingSource := dropEntry (x_waitingSource st) k r, x_stack := stack\<rparr>"
proof -
  have "jm_delete (runsOf (x_waiting st) k) r = [] \<longleftrightarrow> jm_delete (runsOf (x_waitingSource st) k) r = []"
    using waiting_okD(1) [OF assms, of k] by (simp add: jm_delete_Nil_iff entryAt_def)
  then show ?thesis by (auto simp: removeWaitingEntry_def dropEntry_def Let_def)
qed

lemma placed_entries [simp]:
  "entryAt (x_waiting (placed w d st)) k r =
     (if k = dl_node d \<and> r = entryIndex d st then Some (filledMain w d st) else entryAt (x_waiting st) k r)"
  "entryAt (x_waitingSource (placed w d st)) k r =
     (if k = dl_node d \<and> r = entryIndex d st then Some (filledSource w d st) else entryAt (x_waitingSource st) k r)"
  by (simp_all add: placed_def Let_def)

lemma placed_stack [simp]:
  "x_stack (placed w d st) = x_stack st" "x_runData (placed w d st) = x_runData st"
  by (simp_all add: placed_def Let_def)

lemma releaseEntry_placed:
  assumes "waiting_ok w st"
  shows "releaseEntry w (dl_node d) (entryIndex d st) (placed w d st) = Inr st' \<longleftrightarrow>
    (\<exists>n. jm_get (xw_nodes w) (dl_node d) = Some n \<and> st' = released w n d st)"
proof -
  have "removeWaitingEntry (dl_node d) (entryIndex d st)
      (enqueueItem w (joinedItem w n d st) (placed w d st)) = released w n d st" for n
    by (simp add: placed_def Let_def enqueueItem_def released_def removeWaitingEntry_placed [OF assms])
  then show ?thesis
    by (auto simp: releaseEntry_def nodeNamed_def rbind_Inr_iff joinedItem_def split: option.split)
qed

lemma addNode_cases:
  assumes ok: "waiting_ok w st" and n: "1 < numberOfInputs w (dl_node d)"
    and i: "dl_input d < numberOfInputs w (dl_node d)"
    and run: "addNodeToBeExecuted w d newRunIndex metadata st = Inr st'"
  shows "if Null \<notin> set (filledMain w d st)
    then \<exists>n. jm_get (xw_nodes w) (dl_node d) = Some n \<and> st' = released w n d st
    else grows_by_empty (placed w d st) st' \<and> (isV1 w \<longrightarrow> st' = placed w d st)"
proof -
  let ?r = "entryIndex d st" and ?p = "placed w d st"
  have all: "list_all (\<lambda>s. s \<noteq> Null) (filledMain w d st) \<longleftrightarrow> Null \<notin> set (filledMain w d st)"
    by (auto simp: list_all_iff)
  have len: "length (filledMain w d st) = numberOfInputs w (dl_node d)"
    using entryBefore_ok(1) [OF ok] by simp
  show ?thesis
  proof (cases "Null \<notin> set (filledMain w d st)")
    case True
    then show ?thesis
      using run n releaseEntry_placed [OF ok, of d st'] all
      by (simp add: addNodeToBeExecuted_def placeInput_eq [OF ok i])
  next
    case False
    let ?search = "if jm_get (x_waiting st) (dl_node d) \<noteq> None then Inr ?p else addMissingSources w d ?p"
    obtain st1 where search: "?search = Inr st1" and store: "storeEntry w d ?r st1 = Inr st'"
      using run n all False
      by (auto simp: addNodeToBeExecuted_def placeInput_eq [OF ok i] rbind_Inr_iff)
    then have st1: "grows_by_empty ?p st1" "isV1 w \<Longrightarrow> st1 = ?p"
      using addMissingSources_grows [of w d ?p st1] addMissingSources_v1 [of w d ?p st1]
      by (auto split: if_splits)
    from st1(1) have "x_waiting st1 = x_waiting ?p" "x_waitingSource st1 = x_waitingSource ?p"
      unfolding grows_by_empty_def only_stack_def
      by (metis exec_state.ext_inject exec_state.surjective exec_state.update_convs(1))+
    then have "storeEntry w d ?r st1 = Inr st1"
      using len i entryBefore_ok(1) [OF ok, of d]
      by (intro storeEntry_id [where main = "filledMain w d st" and sources = "filledSource w d st"])
        simp_all
    then show ?thesis using st1 store False by simp
  qed
qed

section \<open>The shape is kept\<close>

lemma waiting_ok_cong:
  "x_waiting st = x_waiting st' \<Longrightarrow> x_waitingSource st = x_waitingSource st' \<Longrightarrow>
     waiting_ok w st = waiting_ok w st'"
  by (simp add: waiting_ok_def)

lemma jm_set_not_Nil [simp]: "jm_set m k v \<noteq> []"
  by (induction m k v rule: jm_set.induct) auto

lemma waiting_ok_setEntry:
  assumes "waiting_ok w st" "entry_ok (numberOfInputs w k) main sources"
  shows "waiting_ok w (st\<lparr>x_waiting := setEntry (x_waiting st) k r main,
                         x_waitingSource := setEntry (x_waitingSource st) k r sources\<rparr>)"
  using assms by (simp add: waiting_ok_def)

lemma distinct_runs_drop:
  assumes "\<And>k. distinct (map fst (runsOf m k))"
  shows "distinct (map fst (runsOf (dropEntry m k r) k'))"
  using assms [of k] assms [of k'] by (auto simp: dropEntry_def Let_def)

lemma distinct_drop: "distinct (map fst m) \<Longrightarrow> distinct (map fst (dropEntry m k r))"
  by (simp add: dropEntry_def Let_def)

lemma get_drop_None:
  "jm_get (dropEntry m k r) k' = None \<longleftrightarrow>
     (if k' = k then jm_delete (runsOf m k) r = [] else jm_get m k' = None)"
  by (simp add: dropEntry_def Let_def)

lemma get_drop_Nil:
  "(\<And>k. jm_get m k \<noteq> Some []) \<Longrightarrow> jm_get (dropEntry m k r) k' \<noteq> Some []"
  by (auto simp: dropEntry_def Let_def split: if_splits)

lemma waiting_ok_drop:
  assumes "waiting_ok w st"
  shows "waiting_ok w (st\<lparr>x_waiting := dropEntry (x_waiting st) k r,
                         x_waitingSource := dropEntry (x_waitingSource st) k r\<rparr>)"
proof -
  have "jm_delete (runsOf (x_waiting st) k) r = [] \<longleftrightarrow> jm_delete (runsOf (x_waitingSource st) k) r = []"
    using waiting_okD(1) [OF assms, of k] by (simp add: jm_delete_Nil_iff entryAt_def)
  then show ?thesis
    using assms by (simp add: waiting_ok_def distinct_drop distinct_runs_drop get_drop_None get_drop_Nil
        del: map_of_eq_Some_iff)
qed

lemma enqueue_waiting [simp]:
  "x_waiting (enqueueItem w e st) = x_waiting st"
  "x_waitingSource (enqueueItem w e st) = x_waitingSource st"
  "x_runData (enqueueItem w e st) = x_runData st"
  by (simp_all add: enqueueItem_def)

lemma list_update_Hole: "Hole \<notin> set xs \<Longrightarrow> v \<noteq> Hole \<Longrightarrow> Hole \<notin> set (xs[i := v])"
  using set_update_subset_insert [of xs i v] by auto

lemma filled_entry_ok:
  assumes ok: "waiting_ok w st" and i: "dl_input d < numberOfInputs w (dl_node d)"
    and filled: "isFilled (deliveredSlot d)" and missing: "Null \<in> set (filledMain w d st)"
  shows "entry_ok (numberOfInputs w (dl_node d)) (filledMain w d st) (filledSource w d st)"
proof -
  obtain x where x: "deliveredSlot d = Filled x" using filled by (auto simp: isFilled_iff)
  then have s: "deliveredSource d = Filled (sourceOf d)"
    by (cases "dl_data d") (simp_all add: deliveredSlot_def deliveredSource_def)
  show ?thesis
    using entryBefore_ok [OF ok, where d = d] i missing
    by (auto simp: entry_ok_def x s nth_list_update list_update_Hole)
qed

lemma grows_waiting_ok:
  assumes "grows_by_empty st st'"
  shows "waiting_ok w st' \<longleftrightarrow> waiting_ok w st"
proof -
  have "st' = st\<lparr>x_stack := x_stack st'\<rparr>" using assms by (simp add: grows_by_empty_def only_stack_def)
  then show ?thesis by (metis exec_state.select_convs(2,3) exec_state.surjective
        exec_state.update_convs(1) waiting_ok_cong)
qed

lemma addNode_waiting_ok:
  assumes ok: "waiting_ok w st"
    and i: "1 < numberOfInputs w (dl_node d) \<Longrightarrow> dl_input d < numberOfInputs w (dl_node d)"
    and filled: "isFilled (deliveredSlot d)"
    and run: "addNodeToBeExecuted w d newRunIndex metadata st = Inr st'"
  shows "waiting_ok w st'"
proof (cases "1 < numberOfInputs w (dl_node d)")
  case False
  then have "x_waiting st' = x_waiting st" "x_waitingSource st' = x_waitingSource st"
    using run by (auto simp: addNodeToBeExecuted_def addDirectly_def split: option.splits)
  then show ?thesis using ok waiting_ok_cong by metis
next
  case True
  note cases = addNode_cases [OF ok True i [OF True] run]
  show ?thesis
  proof (cases "Null \<in> set (filledMain w d st)")
    case True
    have "waiting_ok w (placed w d st)"
      unfolding placed_def Let_def
      by (rule waiting_ok_setEntry [OF ok filled_entry_ok [OF ok i filled True]])
        (use \<open>1 < numberOfInputs w (dl_node d)\<close> in simp)
    then show ?thesis using cases True grows_waiting_ok by auto
  next
    case complete: False
    then obtain n where "st' = released w n d st" using cases by auto
    then show ?thesis using waiting_ok_drop [OF ok] by (simp add: released_def waiting_ok_def)
  qed
qed

section \<open>The data is kept\<close>

text \<open>
  A new entry takes the number of entries as its index. When earlier entries have been
  removed, that can be the index of an entry that is there, which is replaced.
\<close>

definition overwritten :: "delivery \<Rightarrow> exec_state \<Rightarrow> (string \<times> item_list) multiset" where
  "overwritten d st =
     (let runs = runsOf (x_waiting st) (dl_node d)
      in if freeEntry runs (dl_input d) = None
         then heldEntry (x_waiting st) (dl_node d) (length runs) else {#})"

lemma held_placed_entry:
  assumes ok: "waiting_ok w st" and i: "dl_input d < numberOfInputs w (dl_node d)"
    and x: "deliveredSlot d = Filled x"
  shows "heldMain (dl_node d) (filledMain w d st) + overwritten d st
       = heldEntry (x_waiting st) (dl_node d) (entryIndex d st) + {#(dl_node d, x)#}"
proof -
  let ?k = "dl_node d" and ?b = "fst (entryBefore w d st)"
  have "mset (contents (filledMain w d st)) = add_mset x (mset (contents ?b))"
    using contents_update [of "dl_input d" ?b x] entryBefore_ok(1,6) [OF ok, where d = d] i by (simp add: x)
  then have main: "heldMain ?k (filledMain w d st) = heldMain ?k ?b + {#(?k, x)#}" by simp
  show ?thesis
  proof (cases "freeEntry (runsOf (x_waiting st) ?k) (dl_input d)")
    case None
    then show ?thesis unfolding main
      by (simp add: entryBefore_def entryIndex_def overwritten_def Let_def)
  next
    case (Some r)
    then obtain m where "entryAt (x_waiting st) ?k r = Some m"
      using freeEntry_SomeD by (metis entryAt_def)
    then show ?thesis unfolding main using Some
      by (simp add: entryBefore_def entryIndex_def overwritten_def heldEntry_def)
  qed
qed

lemma weigh_dropEntry:
  assumes "distinct (map fst m)" "distinct (map fst (runsOf m k))"
  shows "weigh heldRuns (dropEntry m k r) + heldEntry m k r = weigh heldRuns m"
proof -
  let ?runs = "jm_delete (runsOf m k) r"
  have runs: "heldRuns k ?runs + heldEntry m k r = heldRuns k (runsOf m k)"
    using weigh_delete [OF assms(2)] by (simp add: heldRuns_def flip: weightAt_entry)
  have "weigh heldRuns (dropEntry m k r) + heldRuns k (runsOf m k) = weigh heldRuns m + heldRuns k ?runs"
  proof (cases "?runs = []")
    case True
    then show ?thesis using weigh_delete [OF assms(1), of heldRuns k]
      by (simp add: dropEntry_def weightAt_runs)
  next
    case False
    then show ?thesis using weigh_set [of heldRuns m k ?runs] by (simp add: dropEntry_def weightAt_runs)
  qed
  then have "weigh heldRuns (dropEntry m k r) + (heldRuns k ?runs + heldEntry m k r)
      = weigh heldRuns m + heldRuns k ?runs" by (simp only: runs)
  then show ?thesis by (simp add: add.left_commute add.commute)
qed

lemma addNode_keeps_data:
  assumes ok: "waiting_ok w st"
    and named: "\<And>k n. jm_get (xw_nodes w) k = Some n \<Longrightarrow> w_name n = k"
    and known: "jm_get (xw_nodes w) (dl_node d) \<noteq> None"
    and i: "1 < numberOfInputs w (dl_node d) \<Longrightarrow> dl_input d < numberOfInputs w (dl_node d)"
    and x: "deliveredSlot d = Filled x"
    and run: "addNodeToBeExecuted w d newRunIndex metadata st = Inr st'"
  shows "\<exists>added. held st' + (if 1 < numberOfInputs w (dl_node d) then overwritten d st else {#})
    = held st + {#(dl_node d, x)#} + image_mset (\<lambda>k. (k, [emptyInput])) added
    \<and> (isV1 w \<longrightarrow> added = {#})"
proof (cases "1 < numberOfInputs w (dl_node d)")
  case False
  obtain n where n: "jm_get (xw_nodes w) (dl_node d) = Some n" using known by auto
  have "contents (sl_set (replicate (Suc i) Null) i (Filled x)) = [x]" for i
  proof -
    have "sl_set (replicate (Suc i) Null) i (Filled x) = replicate i Null @ [Filled x]"
      by (simp add: sl_set_in_range list_update_append flip: replicate_append_same)
    then show ?thesis by simp
  qed
  then have "held st' = held st + {#(dl_node d, x)#}"
    using run False n named [OF n] x
    by (auto simp: addNodeToBeExecuted_def addDirectly_def held_enqueue heldItem_def mainOf_def
        simp del: replicate_Suc)
  then show ?thesis using False by (intro exI [of _ "{#}"]) simp
next
  case True
  note i = i [OF True]
  note cases = addNode_cases [OF ok True i run]
  let ?r = "entryIndex d st" and ?k = "dl_node d" and ?H = "heldMain (dl_node d) (filledMain w d st)"
  let ?E = "heldEntry (x_waiting st) (dl_node d) (entryIndex d st)"
  note entry = held_placed_entry [OF ok i x]
  show ?thesis
  proof (cases "Null \<in> set (filledMain w d st)")
    case True
    then obtain ns where ns: "held st' = held (placed w d st) + image_mset (\<lambda>k. (k, [emptyInput])) ns"
        "isV1 w \<Longrightarrow> st' = placed w d st"
      using cases by (auto simp: grows_by_empty_def)
    have "held (placed w d st) + ?E = held st + ?H"
      using heldWaiting_setEntry [of "x_waiting st" ?k ?r "filledMain w d st"]
      by (simp add: held_def heldWaiting_def placed_def Let_def add.assoc)
    then have "held (placed w d st) + overwritten d st = held st + {#(?k, x)#}"
      by (rule weights_exchange [OF _ entry])
    then show ?thesis using ns \<open>1 < numberOfInputs w (dl_node d)\<close>
      by (cases "isV1 w") (auto simp: ac_simps intro: exI [of _ "{#}"] exI [of _ ns])
  next
    case False
    then obtain n where n: "jm_get (xw_nodes w) ?k = Some n" and st': "st' = released w n d st"
      using cases by auto
    have item: "heldItem (joinedItem w n d st) = ?H"
      using named [OF n] by (simp add: heldItem_def joinedItem_def mainOf_def)
    have drop: "weigh heldRuns (dropEntry (x_waiting st) ?k ?r) + ?E = weigh heldRuns (x_waiting st)"
      using ok by (intro weigh_dropEntry) (simp_all add: waiting_ok_def)
    have "held st' + ?E = held st + ?H"
      unfolding st' released_def held_enqueue item unfolding held_def heldWaiting_def
      by (simp add: ac_simps flip: drop)
    then have "held st' + overwritten d st = held st + {#(?k, x)#}"
      by (rule weights_exchange [OF _ entry])
    then show ?thesis using \<open>1 < numberOfInputs w (dl_node d)\<close> by (intro exI [of _ "{#}"]) simp
  qed
qed

end
