(* ===== verification/WaitingScan.thy ===== *)
theory WaitingScan
  imports NodeRun WaitingInvariant
begin

text \<open>
  When the stack runs empty, \<open>processRunExecutionData\<close> looks for a waiting node that may run
  without the data of all its inputs. The scan goes through the waiting nodes in order;
  an entry without any data is dropped and the scan starts again.
\<close>

section \<open>The run that comes first\<close>

text \<open>
  The keys of the entries of a node are sorted by \<open>Array.prototype.sort\<close> without a
  comparison function, that is as strings, and the first one is taken.
\<close>

fun stringLess :: "string \<Rightarrow> string \<Rightarrow> bool" where
  "stringLess _ [] = False"
| "stringLess [] (_ # _) = True"
| "stringLess (a # as) (b # bs) =
     ((of_char a :: nat) < of_char b \<or> a = b \<and> stringLess as bs)"

fun firstAsString :: "nat list \<Rightarrow> nat option" where
  "firstAsString [] = None"
| "firstAsString (r # rs) =
     (case firstAsString rs of
        None \<Rightarrow> Some r
      | Some q \<Rightarrow> if stringLess (nat_to_string q) (nat_to_string r) then Some q else Some r)"

definition firstRunIndex :: "'a waiting_runs \<Rightarrow> nat option" where
  "firstRunIndex runs = firstAsString (numericKeys runs)"

lemma firstAsString_mem: "firstAsString rs = Some r \<Longrightarrow> r \<in> set rs"
  by (induction rs arbitrary: r) (auto split: option.splits if_splits)

lemma firstAsString_None [simp]: "firstAsString rs = None \<longleftrightarrow> rs = []"
  by (cases rs) (auto split: option.splits)

section \<open>The inputs a node requires\<close>

text \<open>In the legacy order no input is required; an expression is evaluated for the node.\<close>

definition requiredInputsOf :: "'w exec_env \<Rightarrow> xnode \<Rightarrow> exec_type \<Rightarrow> required_inputs option" where
  "requiredInputsOf env n t =
     (if isV1 (ev_workflow env) then
        (case et_requiredInputs t of
           Some (RequiredExpression s) \<Rightarrow> Some (ev_required env n s)
         | r \<Rightarrow> r)
      else None)"

fun allRequired :: "exec_type \<Rightarrow> required_inputs \<Rightarrow> bool" where
  "allRequired t (RequiredList rs) = (length rs = inputsLength (et_inputs t))"
| "allRequired t (RequiredCount n) = (n = inputsLength (et_inputs t))"
| "allRequired t (RequiredExpression s) = False"

definition inputsWithData :: "outputs \<Rightarrow> nat list" where
  "inputsWithData main = filter (\<lambda>i. isFilled (main ! i)) [0..<length main]"

fun requiredMissing :: "outputs \<Rightarrow> required_inputs \<Rightarrow> bool" where
  "requiredMissing main (RequiredList rs) = (\<not> set rs \<subseteq> set (inputsWithData main))"
| "requiredMissing main (RequiredCount n) = (length (inputsWithData main) < n)"
| "requiredMissing main (RequiredExpression s) = False"

section \<open>The scan\<close>

text \<open>\<open>null\<close> becomes an empty array; the arrays are filled up to the number of inputs.\<close>

definition taskDataMain :: "outputs \<Rightarrow> outputs" where
  "taskDataMain main = map (\<lambda>s. case s of Null \<Rightarrow> Filled [] | _ \<Rightarrow> s) main"

definition padInputs :: "exec_type \<Rightarrow> outputs \<Rightarrow> outputs" where
  "padInputs t main = main @ replicate (inputsLength (et_inputs t) - length main) (Filled [])"

definition hasAnyData :: "outputs \<Rightarrow> bool" where
  "hasAnyData main = list_ex nonEmptySlot main"

definition waitingItem :: "xnode \<Rightarrow> exec_type \<Rightarrow> string \<Rightarrow> nat \<Rightarrow> outputs \<Rightarrow> exec_state \<Rightarrow> exec_item" where
  "waitingItem n t k r main st =
     \<lparr>ex_node = n, ex_data = [(Main, padInputs t (taskDataMain main))],
      ex_source = map_option (\<lambda>ss. [(Main, ss)]) (entryAt (x_waitingSource st) k r),
      ex_runIndex = None, ex_metadata = None\<rparr>"

datatype scan_step =
    Skip
  | Release nat exec_item
  | DropEmpty nat

text \<open>What the loop does with one waiting node.\<close>

definition scanNode :: "'w exec_env \<Rightarrow> string list \<Rightarrow> string \<Rightarrow> exec_state \<Rightarrow> exec_failure + scan_step" where
  "scanNode env waitingNodes k st =
     (case jm_get (xw_nodes (ev_workflow env)) k of
        None \<Rightarrow> Inr Skip
      | Some n \<Rightarrow>
          (case typeOf env n of
             None \<Rightarrow> Inl UndefinedRead
           | Some t \<Rightarrow>
               if (case requiredInputsOf env n t of None \<Rightarrow> False | Some r \<Rightarrow> allRequired t r) then Inr Skip
               else if list_ex (\<lambda>p. p \<in> set waitingNodes) (mainParents (ev_workflow env) k) then Inr Skip
               else (case firstRunIndex (runsOf (x_waiting st) k) of
                       None \<Rightarrow> Inl UndefinedRead
                     | Some r \<Rightarrow>
                         (case entryAt (x_waiting st) k r of
                            None \<Rightarrow> Inl UndefinedRead
                          | Some main \<Rightarrow>
                              if (case requiredInputsOf env n t of None \<Rightarrow> False | Some r \<Rightarrow> requiredMissing main r)
                              then Inr Skip
                              else if hasAnyData (taskDataMain main)
                              then Inr (Release r (waitingItem n t k r main st))
                              else Inr (DropEmpty r)))))"

definition waitingEntries :: "exec_state \<Rightarrow> (string \<times> nat) set" where
  "waitingEntries st = {(k, r). entryAt (x_waiting st) k r \<noteq> None}"

lemma finite_waitingEntries [simp]: "finite (waitingEntries st)"
proof (rule finite_subset)
  show "waitingEntries st \<subseteq>
      (\<Union>k \<in> fst ` set (x_waiting st). Pair k ` fst ` set (runsOf (x_waiting st) k))"
  proof
    fix e assume "e \<in> waitingEntries st"
    then obtain k r main where e: "e = (k, r)" "entryAt (x_waiting st) k r = Some main"
      by (auto simp: waitingEntries_def)
    then have "k \<in> fst ` set (x_waiting st)"
      by (cases "jm_get (x_waiting st) k") (auto simp: entryAt_def runsOf_None rev_image_eqI
          dest: map_of_SomeD)
    moreover have "r \<in> fst ` set (runsOf (x_waiting st) k)"
      using e(2) by (auto simp: entryAt_def rev_image_eqI dest: map_of_SomeD)
    ultimately show "e \<in> (\<Union>k \<in> fst ` set (x_waiting st). Pair k ` fst ` set (runsOf (x_waiting st) k))"
      using e(1) by blast
  qed
qed simp

lemma entryAt_remove [simp]:
  "entryAt (x_waiting (removeWaitingEntry k r st)) k' r' =
     (if k' = k \<and> r' = r then None else entryAt (x_waiting st) k' r')"
proof -
  have "x_waiting (removeWaitingEntry k r st) = dropEntry (x_waiting st) k r"
    by (simp add: removeWaitingEntry_def dropEntry_def Let_def)
  then show ?thesis by simp
qed

lemma waitingEntries_remove:
  "waitingEntries (removeWaitingEntry k r st) = waitingEntries st - {(k, r)}"
  by (auto simp: waitingEntries_def)

lemma scanNode_entry:
  assumes "scanNode env ws k st = Inr (DropEmpty r) \<or> scanNode env ws k st = Inr (Release r e)"
  shows "(k, r) \<in> waitingEntries st"
  using assms
  by (auto simp: scanNode_def waitingEntries_def split: option.splits if_splits)

text \<open>The loop; the first list is what is left of \<open>waitingNodes\<close>.\<close>

function scanLoop ::
  "'w exec_env \<Rightarrow> string list \<Rightarrow> string list \<Rightarrow> exec_state \<Rightarrow> exec_failure + exec_state" where
  "scanLoop env [] waitingNodes st = Inr st"
| "scanLoop env (k # ks) waitingNodes st =
     (case scanNode env waitingNodes k st of
        Inl f \<Rightarrow> Inl f
      | Inr Skip \<Rightarrow> scanLoop env ks waitingNodes st
      | Inr (Release r e) \<Rightarrow> Inr (removeWaitingEntry k r (st\<lparr>x_stack := x_stack st @ [e]\<rparr>))
      | Inr (DropEmpty r) \<Rightarrow>
          (let st1 = removeWaitingEntry k r st; ws = map fst (x_waiting st1)
           in scanLoop env ws ws st1))"
  by pat_completeness auto
termination
proof (relation "measures [\<lambda>(env, ks, ws, st). card (waitingEntries st), \<lambda>(env, ks, ws, st). length ks]",
    goal_cases)
  case (3 env k ks waitingNodes st step r st1 ws)
  then have "(k, r) \<in> waitingEntries st" by (intro scanNode_entry [OF disjI1]) simp
  then have "card (waitingEntries st1) < card (waitingEntries st)"
    unfolding 3(3) waitingEntries_remove by (intro card_Diff1_less) simp_all
  then show ?case by simp
qed simp_all

declare scanLoop.simps(2) [simp del]

definition scanWaiting :: "'w exec_env \<Rightarrow> exec_state \<Rightarrow> exec_failure + exec_state" where
  "scanWaiting env st =
     (let ws = map fst (x_waiting st)
      in if x_stack st = [] \<and> ws \<noteq> [] then scanLoop env ws ws st else Inr st)"

end
