(* ===== verification/ExecutionLoop.thy ===== *)
theory ExecutionLoop
  imports WaitingScan
begin

text \<open>
  The loop of \<open>processRunExecutionData\<close> (\<open>workflow-execute.ts\<close>): a node is taken from the
  stack, run, its task recorded, and the nodes below it are added; then the waiting nodes
  are scanned. A workflow may loop for ever, so the loop runs on fuel; every other loop
  terminates.
\<close>

section \<open>Before a node runs\<close>

definition computeRunIndex :: "exec_item \<Rightarrow> tasks \<Rightarrow> nat" where
  "computeRunIndex e runData =
     (case ex_runIndex e of Some r \<Rightarrow> r | None \<Rightarrow> length (tasksOf runData (w_name (ex_node e))))"

definition isNodeFilteredOut :: "'w exec_env \<Rightarrow> string \<Rightarrow> bool" where
  "isNodeFilteredOut env k =
     (case ev_runNodeFilter env of None \<Rightarrow> False | Some names \<Rightarrow> k \<notin> set names)"

text \<open>
  \<open>ensureInputData\<close>: the test for the length lets an array pass that ends right before the
  input; reading it there gives \<open>undefined\<close>, which is not \<open>null\<close>.
\<close>

datatype input_check = Ready | PutBack

fun checkInputs :: "xworkflow \<Rightarrow> exec_item \<Rightarrow> nat \<Rightarrow> nat \<Rightarrow> input_check" where
  "checkInputs w e i 0 = Ready"
| "checkInputs w e i (Suc left) =
     (if fst (getHighestNode (baseWorkflow w) (w_name (ex_node e)) (Some i) []) = [] then Ready
      else case mainOf (ex_data e) of
        None \<Rightarrow> PutBack
      | Some main \<Rightarrow>
          if isLegacyExecutionOrder w \<and> (length main < i \<or> sl_get main i = Null) then PutBack
          else checkInputs w e (Suc i) left)"

definition ensureInputData :: "xworkflow \<Rightarrow> exec_item \<Rightarrow> exec_state \<Rightarrow> exec_state \<times> bool" where
  "ensureInputData w e st =
     (case checkInputs w e 0 (numberOfInputs w (w_name (ex_node e))) of
        Ready \<Rightarrow> (st, True)
      | PutBack \<Rightarrow> (st\<lparr>x_stack := x_stack st @ [e]\<rparr>, False))"

definition logHook :: "hook_event \<Rightarrow> exec_state \<Rightarrow> exec_state" where
  "logHook h st = st\<lparr>x_hooks := x_hooks st @ [h]\<rparr>"

section \<open>The task of a run\<close>

definition createTaskData :: "nat \<Rightarrow> exec_item \<Rightarrow> exec_state \<Rightarrow> task" where
  "createTaskData executionIndex e st =
     \<lparr>tk_executionIndex = executionIndex,
      tk_source = (case sourceMain e of None \<Rightarrow> [] | Some ss \<Rightarrow> ss),
      tk_status = Some (if x_waitTill st \<noteq> None then TaskWaiting else TaskSuccess),
      tk_data = None, tk_inputOverride = None, tk_error = None, tk_metadata = ex_metadata e\<rparr>"

text \<open>\<open>Object.assign\<close> keeps what the new task does not set: data, overridden input, error.\<close>

definition assignTask :: "task \<Rightarrow> task \<Rightarrow> task" where
  "assignTask old new =
     new\<lparr>tk_data := (case tk_data new of None \<Rightarrow> tk_data old | d \<Rightarrow> d),
         tk_inputOverride := (case tk_inputOverride new of None \<Rightarrow> tk_inputOverride old | d \<Rightarrow> d),
         tk_error := (case tk_error new of None \<Rightarrow> tk_error old | d \<Rightarrow> d)\<rparr>"

definition upsertTaskData :: "string \<Rightarrow> nat \<Rightarrow> task \<Rightarrow> tasks \<Rightarrow> tasks" where
  "upsertTaskData k runIndex t runData =
     (let ts = tasksOf runData k
      in jm_set runData k (if runIndex < length ts then ts[runIndex := assignTask (ts ! runIndex) t]
                           else ts @ [t]))"

definition rewiredTo :: "exec_state \<Rightarrow> xnode \<Rightarrow> connection_type option" where
  "rewiredTo st n =
     (case jm_get (x_rewired st) (w_name n) of Some ty \<Rightarrow> Some ty | None \<Rightarrow> xn_rewireOutputLogTo n)"

definition earlierOverride :: "exec_state \<Rightarrow> string \<Rightarrow> nat \<Rightarrow> task_inputs" where
  "earlierOverride st k runIndex =
     (let ts = tasksOf (x_runData st) k
      in if runIndex < length ts then (case tk_inputOverride (ts ! runIndex) of None \<Rightarrow> [] | Some d \<Rightarrow> d)
         else [])"

definition rewireOutputLog :: "exec_state \<Rightarrow> xnode \<Rightarrow> nat \<Rightarrow> outputs \<Rightarrow> task \<Rightarrow> task" where
  "rewireOutputLog st n runIndex outs t =
     (case rewiredTo st n of
        None \<Rightarrow> t
      | Some ty \<Rightarrow> t\<lparr>tk_inputOverride := Some (earlierOverride st (w_name n) runIndex),
                    tk_data := Some [(ty, outs)]\<rparr>)"

section \<open>Errors\<close>

definition errorItem :: "node_error \<Rightarrow> item" where
  "errorItem err = emptyInput\<lparr>i_json := [(''error'', JString (ne_message err))]\<rparr>"

definition isAiToolExecution :: "exec_state \<Rightarrow> exec_item \<Rightarrow> bool" where
  "isAiToolExecution st e \<longleftrightarrow> rewiredTo st (ex_node e) = Some AiTool"

definition toleratesError :: "exec_state \<Rightarrow> exec_item \<Rightarrow> bool" where
  "toleratesError st e \<longleftrightarrow> continuesOnError (ex_node e) \<or>
     (isAiToolExecution st e \<and> xn_onError (ex_node e) \<noteq> Some ''stopWorkflow'')"

text \<open>The data that goes on after a tolerated error; the last argument is what there is.\<close>

definition passedOnError :: "exec_state \<Rightarrow> exec_item \<Rightarrow> node_error \<Rightarrow> outputs option \<Rightarrow> outputs option" where
  "passedOnError st e err nodeSuccessData =
     (if isAiToolExecution st e then Some [Filled [errorItem err]]
      else case mainOf (ex_data e) of
        None \<Rightarrow> nodeSuccessData
      | Some main \<Rightarrow> if main \<noteq> [] \<and> main ! 0 \<noteq> Null then Some [main ! 0] else nodeSuccessData)"

text \<open>An error that stops the execution: the task is stored, the entry goes back on the stack.\<close>

definition stopOnError :: "exec_item \<Rightarrow> nat \<Rightarrow> node_error \<Rightarrow> task \<Rightarrow> exec_state \<Rightarrow> exec_state" where
  "stopOnError e runIndex err t st =
     (let n = ex_node e;
          t1 = t\<lparr>tk_error := Some err, tk_status := Some TaskError\<rparr>;
          t2 = rewireOutputLog st n runIndex [Filled [errorItem err]] t1
      in logHook (NodeExecuteAfter (w_name n))
           (st\<lparr>x_runData := upsertTaskData (w_name n) runIndex t2 (x_runData st),
              x_stack := e # x_stack st\<rparr>))"

section \<open>After a node has run\<close>

text \<open>A comparison of positions, and the sort that asks whether a later element comes first.\<close>

definition positionCompare :: "js_number \<times> js_number \<Rightarrow> js_number \<times> js_number \<Rightarrow> int" where
  "positionCompare a b =
     (if snd a < snd b then 1 else if snd a > snd b then -1 else if fst a > fst b then -1 else 0)"

fun insertLater :: "('a \<Rightarrow> 'a \<Rightarrow> int) \<Rightarrow> 'a \<Rightarrow> 'a list \<Rightarrow> 'a list" where
  "insertLater cmp x [] = [x]"
| "insertLater cmp x (y # ys) = (if cmp x y < 0 then x # y # ys else y # insertLater cmp x ys)"

definition arraySort :: "('a \<Rightarrow> 'a \<Rightarrow> int) \<Rightarrow> 'a list \<Rightarrow> 'a list" where
  "arraySort cmp xs = foldl (\<lambda>acc x. insertLater cmp x acc) [] xs"

definition positionOf :: "xworkflow \<Rightarrow> string \<Rightarrow> js_number \<times> js_number" where
  "positionOf w k = (case jm_get (xw_nodes w) k of None \<Rightarrow> (0, 0) | Some n \<Rightarrow> xn_position n)"

text \<open>The connections below a node, output by output.\<close>

definition mainConnections :: "xworkflow \<Rightarrow> string \<Rightarrow> (nat \<times> iconnection) list" where
  "mainConnections w k =
     (case jm_get (xw_bySource w) k of
        None \<Rightarrow> []
      | Some m \<Rightarrow>
          (case jm_get m Main of
             None \<Rightarrow> []
           | Some outs \<Rightarrow>
               concat (map (\<lambda>(i, conns). map (Pair i) (case conns of None \<Rightarrow> [] | Some cs \<Rightarrow> cs))
                 (enumerate 0 outs))))"

definition mayFollow :: "xworkflow \<Rightarrow> outputs \<Rightarrow> nat \<times> iconnection \<Rightarrow> bool" where
  "mayFollow w outs oc =
     (case sl_get outs (fst oc) of
        Filled items \<Rightarrow> items \<noteq> [] \<or> (ic_index (snd oc) > 0 \<and> isLegacyExecutionOrder w)
      | _ \<Rightarrow> False)"

definition deliveryOf :: "string \<Rightarrow> outputs \<Rightarrow> nat \<Rightarrow> nat \<times> iconnection \<Rightarrow> delivery" where
  "deliveryOf k outs runIndex oc =
     \<lparr>dl_node = ic_node (snd oc), dl_input = ic_index (snd oc), dl_parent = k, dl_output = fst oc,
      dl_data = Some outs, dl_run = runIndex\<rparr>"

definition addOne :: "xworkflow \<Rightarrow> string \<Rightarrow> outputs \<Rightarrow> nat \<Rightarrow> nat \<times> iconnection \<Rightarrow> exec_state \<Rightarrow> exec_failure + exec_state" where
  "addOne w k outs runIndex oc st = addNodeToBeExecuted w (deliveryOf k outs runIndex oc) None None st"

definition checkDestination :: "xworkflow \<Rightarrow> string \<Rightarrow> nat \<times> iconnection \<Rightarrow> exec_failure + unit" where
  "checkDestination w k oc =
     throwIf (jm_get (xw_nodes w) (ic_node (snd oc)) = None) (DestinationNotFound k (ic_node (snd oc)))"

definition addSuccessors ::
  "xworkflow \<Rightarrow> string \<Rightarrow> outputs \<Rightarrow> nat \<Rightarrow> exec_state \<Rightarrow> exec_failure + exec_state" where
  "addSuccessors w k outs runIndex st =
     (let conns = mainConnections w k in
      if isV1 w then
        rbind (forEach conns (checkDestination w k)) (\<lambda>_.
          foldE (addOne w k outs runIndex)
            (arraySort (\<lambda>a b. positionCompare (positionOf w (ic_node (snd a))) (positionOf w (ic_node (snd b))))
              (filter (mayFollow w outs) conns)) st)
      else foldE (\<lambda>oc s. rbind (checkDestination w k oc) (\<lambda>_.
             if mayFollow w outs oc then addOne w k outs runIndex oc s else Inr s)) conns st)"

section \<open>One iteration\<close>

record 'w loop_state =
  lp_world :: 'w
  lp_state :: exec_state
  lp_last :: "(string \<times> nat) option"
  lp_error :: "node_error option"

datatype iteration_end = Continue | Break | Cancelled | Crashed exec_failure

text \<open>The part after the tries, with the data of the node.\<close>

definition recordRun ::
  "'w exec_env \<Rightarrow> exec_item \<Rightarrow> nat \<Rightarrow> task \<Rightarrow> outputs option \<Rightarrow> exec_state \<Rightarrow> exec_state \<times> iteration_end" where
  "recordRun env e runIndex t nodeSuccessData st =
     (let n = ex_node e; k = w_name n; w = ev_workflow env in
      case normalizeNodeErrors nodeSuccessData of
        Inl f \<Rightarrow> (st, Crashed f)
      | Inr outs \<Rightarrow>
          (let t1 = rewireOutputLog st n runIndex outs (t\<lparr>tk_data := Some [(Main, outs)]\<rparr>);
               st1 = st\<lparr>x_runData := upsertTaskData k runIndex t1 (x_runData st)\<rparr>
           in if x_waitTill st1 \<noteq> None then
                ((logHook (NodeExecuteAfter k) st1)\<lparr>x_stack := e # x_stack st1\<rparr>, Break)
              else if ev_destination env = Some k then (logHook (NodeExecuteAfter k) st1, Continue)
              else case addSuccessors w k outs runIndex st1 of
                Inl f \<Rightarrow> (st1, Crashed f)
              | Inr st2 \<Rightarrow>
                  (let st3 = logHook (NodeExecuteAfter k) st2
                   in case scanWaiting env st3 of
                        Inl f \<Rightarrow> (st3, Crashed f)
                      | Inr st4 \<Rightarrow> (st4, Continue))))"

text \<open>The result of the tries: no data ends the branch, a request has been scheduled.\<close>

definition afterTries ::
  "'w exec_env \<Rightarrow> exec_item \<Rightarrow> nat \<Rightarrow> nat \<Rightarrow> outputs option \<Rightarrow> try_end \<Rightarrow> exec_state
     \<Rightarrow> exec_state \<times> node_error option \<times> iteration_end" where
  "afterTries env e runIndex executionIndex leftover result st =
     (let k = w_name (ex_node e);
          known = (\<lambda>s. if jm_get (x_runData s) k = None then s\<lparr>x_runData := jm_set (x_runData s) k []\<rparr> else s)
      in case result of
           NoData \<Rightarrow> (st, None, Continue)
         | RequestScheduled \<Rightarrow> (st, None, Continue)
         | Done outs \<Rightarrow>
             (let st1 = known st;
                  (st2, r) = recordRun env e runIndex (createTaskData executionIndex e st1) outs st1
              in (st2, None, r))
         | Failed err \<Rightarrow>
             (let st1 = known st; t = createTaskData executionIndex e st1
              in if toleratesError st1 e then
                   (let (st2, r) = recordRun env e runIndex
                          (t\<lparr>tk_error := Some err, tk_status := Some TaskError\<rparr>)
                          (passedOnError st1 e err leftover) st1
                    in (st2, Some err, r))
                 else (stopOnError e runIndex err t st1, Some err, Break)))"

definition wasResumed :: "exec_item \<Rightarrow> bool" where
  "wasResumed e = (case ex_metadata e of None \<Rightarrow> False | Some m \<Rightarrow> md_nodeWasResumed m)"

definition iteration :: "'w exec_env \<Rightarrow> 'w loop_state \<Rightarrow> 'w loop_state \<times> iteration_end" where
  "iteration env s =
     (if ev_stops env (lp_world s)
      then (s\<lparr>lp_state := (lp_state s)\<lparr>x_status := RunCanceled\<rparr>\<rparr>, Cancelled)
      else case x_stack (lp_state s) of
        [] \<Rightarrow> (s, Break)
      | popped # rest \<Rightarrow>
          (let e = popped\<lparr>ex_data := addPairedItemLineage popped\<rparr>;
               k = w_name (ex_node e);
               executionIndex = x_executionIndex (lp_state s);
               st = (lp_state s)\<lparr>x_stack := rest, x_executionIndex := Suc executionIndex\<rparr>;
               runIndex = computeRunIndex e (x_runData st);
               s1 = s\<lparr>lp_state := st, lp_error := None\<rparr>
           in if lp_last s = Some (k, runIndex) then (s1, Crashed EndlessLoop)
              else if isNodeFilteredOut env k then (s1, Continue)
              else case ensureInputData (ev_workflow env) e st of
                (st1, False) \<Rightarrow> (s1\<lparr>lp_state := st1, lp_last := Some (k, runIndex)\<rparr>, Continue)
              | (st1, True) \<Rightarrow>
                  (let st2 = (if wasResumed e then st1 else logHook (NodeExecuteBefore k) st1);
                       (world, st3, leftover, result) = tries env e runIndex (triesOf e) [] None (lp_world s) st2;
                       (st4, err, r) = afterTries env e runIndex executionIndex leftover result st3
                   in (s1\<lparr>lp_world := world, lp_state := st4, lp_error := err\<rparr>, r))))"

section \<open>The loop and its end\<close>

datatype loop_end = Finished | LoopCancelled | LoopCrashed exec_failure | OutOfFuel

fun execLoop :: "nat \<Rightarrow> 'w exec_env \<Rightarrow> 'w loop_state \<Rightarrow> 'w loop_state \<times> loop_end" where
  "execLoop 0 env s = (s, OutOfFuel)"
| "execLoop (Suc fuel) env s =
     (if x_stack (lp_state s) = [] then (s, Finished)
      else case iteration env s of
        (s', Continue) \<Rightarrow> execLoop fuel env s'
      | (s', Break) \<Rightarrow> (s', Finished)
      | (s', Cancelled) \<Rightarrow> (s', LoopCancelled)
      | (s', Crashed f) \<Rightarrow> (s', LoopCrashed f))"

fun isInfix :: "string \<Rightarrow> string \<Rightarrow> bool" where
  "isInfix p [] = (p = [])"
| "isInfix p (c # cs) = (take (length p) (c # cs) = p \<or> isInfix p cs)"

text \<open>The status \<open>processSuccessExecution\<close> gives the execution.\<close>

definition finalStatus :: "node_error option \<Rightarrow> exec_state \<Rightarrow> run_status" where
  "finalStatus err st =
     (case err of
        Some er \<Rightarrow> if isInfix ''canceled'' (ne_message er) \<or> isInfix ''Cancelled'' (ne_name er)
                   then RunCanceled else RunError
      | None \<Rightarrow> if x_waitTill st \<noteq> None then RunWaiting else RunSuccess)"

text \<open>
  A cancellation without an error of a node counts as an error of its own; an exception out
  of the loop leaves the status as it is.
\<close>

definition endStatus :: "'w loop_state \<times> loop_end \<Rightarrow> run_status" where
  "endStatus r =
     (case r of
        (s, LoopCrashed f) \<Rightarrow> x_status (lp_state s)
      | (s, LoopCancelled) \<Rightarrow>
          if lp_error s = None then RunCanceled else finalStatus (lp_error s) (lp_state s)
      | (s, _) \<Rightarrow> finalStatus (lp_error s) (lp_state s))"

text \<open>
  Resuming an execution that waited: the entry on top of the stack is disabled, unless it
  carries an error to resume with, and the last task of the node that waited is removed.
\<close>

definition handleWaitingState :: "exec_state \<Rightarrow> exec_failure + exec_state" where
  "handleWaitingState st =
     (if x_waitTill st = None then Inr st
      else case (x_stack st, x_lastNodeExecuted st) of
        (e # rest, Some k) \<Rightarrow>
          (let resumesWithError = (case ex_metadata e of None \<Rightarrow> False | Some m \<Rightarrow> md_resumeError m \<noteq> None);
               e' = (if resumesWithError then e else e\<lparr>ex_node := (ex_node e)\<lparr>w_disabled := Some True\<rparr>\<rparr>)
           in case jm_get (x_runData st) k of
                None \<Rightarrow> Inl NoLastTask
              | Some ts \<Rightarrow> Inr (st\<lparr>x_waitTill := None, x_stack := e' # rest,
                                 x_runData := jm_set (x_runData st) k (butlast ts)\<rparr>))
      | ([], _) \<Rightarrow> Inl UndefinedRead
      | (_, None) \<Rightarrow> Inl NoLastTask)"

section \<open>Starting an execution\<close>

text \<open>The nodes a run with a destination is limited to.\<close>

definition runFilterOf ::
  "xworkflow \<Rightarrow> string \<Rightarrow> bool \<Rightarrow> string list \<Rightarrow> string list" where
  "runFilterOf w destination inclusive additional =
     (let parents = mainParents w destination
      in js_set (parents
           @ concat (map (\<lambda>k. getParentNodes (xw_byDestination w) k AllNonMain (-1)) (destination # parents))
           @ (if inclusive then [destination] else []) @ additional))"

text \<open>The state a run starts with: the start node, with the data of its trigger if there is any.\<close>

definition initialItem :: "xnode \<Rightarrow> task_inputs option \<Rightarrow> exec_item" where
  "initialItem startNode triggerData =
     \<lparr>ex_node = startNode,
      ex_data = (case triggerData of Some d \<Rightarrow> d | None \<Rightarrow> [(Main, [Filled [emptyInput]])]),
      ex_source = None, ex_runIndex = None, ex_metadata = None\<rparr>"

definition initialState :: "xnode \<Rightarrow> task_inputs option \<Rightarrow> exec_state" where
  "initialState startNode triggerData =
     \<lparr>x_stack = [initialItem startNode triggerData], x_waiting = [], x_waitingSource = [],
      x_runData = [], x_lastNodeExecuted = None, x_error = None, x_waitTill = None,
      x_executionIndex = 0, x_rewired = [], x_status = RunRunning, x_hooks = []\<rparr>"

end
