(* ===== verification/LoopFrames.thy ===== *)
theory LoopFrames
  imports ExecutionLoop
begin

text \<open>
  What the parts of the execution loop leave alone: adding nodes and scanning the waiting
  ones changes the stack and the waiting entries only; the tries change the run data only
  through requests.
\<close>

section \<open>Adding nodes\<close>

definition keeps_core :: "exec_state \<Rightarrow> exec_state \<Rightarrow> bool" where
  "keeps_core st st' \<longleftrightarrow> x_runData st' = x_runData st \<and> x_lastNodeExecuted st' = x_lastNodeExecuted st
     \<and> x_error st' = x_error st \<and> x_waitTill st' = x_waitTill st
     \<and> x_executionIndex st' = x_executionIndex st \<and> x_rewired st' = x_rewired st
     \<and> x_status st' = x_status st \<and> x_hooks st' = x_hooks st"

lemma keeps_core_refl [simp]: "keeps_core st st"
  by (simp add: keeps_core_def)

lemma keeps_core_trans: "keeps_core a b \<Longrightarrow> keeps_core b c \<Longrightarrow> keeps_core a c"
  by (simp add: keeps_core_def)

text \<open>The entries that are added carry no run index of their own.\<close>

definition adds_plain :: "exec_state \<Rightarrow> exec_state \<Rightarrow> bool" where
  "adds_plain st st' \<longleftrightarrow> (\<forall>e \<in> set (x_stack st'). e \<in> set (x_stack st) \<or> ex_runIndex e = None)"

lemma adds_plain_refl [simp]: "adds_plain st st"
  by (simp add: adds_plain_def)

lemma adds_plain_trans: "adds_plain a b \<Longrightarrow> adds_plain b c \<Longrightarrow> adds_plain a c"
  unfolding adds_plain_def by metis

definition quiet :: "exec_state \<Rightarrow> exec_state \<Rightarrow> bool" where
  "quiet st st' \<longleftrightarrow> keeps_core st st' \<and> adds_plain st st'"

lemma quiet_refl [simp]: "quiet st st"
  by (simp add: quiet_def)

lemma quiet_trans: "quiet a b \<Longrightarrow> quiet b c \<Longrightarrow> quiet a c"
  unfolding quiet_def using keeps_core_trans adds_plain_trans by blast

lemma quiet_enqueue: "ex_runIndex e = None \<Longrightarrow> quiet st (enqueueItem w e st)"
  by (auto simp: quiet_def keeps_core_def adds_plain_def enqueueItem_def)

lemma quiet_waiting [simp]:
  "quiet st (st\<lparr>x_waiting := ws, x_waitingSource := ss\<rparr>)"
  by (simp add: quiet_def keeps_core_def adds_plain_def)

lemma quiet_prepareWaiting [simp]: "quiet st (prepareWaitingToExecution k n r st)"
  by (simp add: prepareWaitingToExecution_def)

lemma quiet_removeWaiting [simp]: "quiet st (removeWaitingEntry k r st)"
  by (simp add: removeWaitingEntry_def Let_def)

lemma placeInput_quiet: "placeInput w d st = Inr (st', r, b) \<Longrightarrow> quiet st st'"
  by (cases "jm_get (x_waiting st) (dl_node d) \<noteq> None";
      cases "freeEntry (runsOf (x_waiting st) (dl_node d)) (dl_input d)")
     (auto simp: placeInput_def Let_def rbind_Inr_iff prepareWaitingToExecution_def
      quiet_def keeps_core_def adds_plain_def runsOf_None)

lemma releaseEntry_quiet:
  assumes "releaseEntry w k r st = Inr st'"
  shows "quiet st st'"
proof -
  from assms obtain n main where "st' = removeWaitingEntry k r (enqueueItem w
      \<lparr>ex_node = n, ex_data = [(Main, main)],
       ex_source = map_option (\<lambda>ss. [(Main, ss)]) (entryAt (x_waitingSource st) k r),
       ex_runIndex = None, ex_metadata = None\<rparr> st)" (is "_ = _ (enqueueItem w ?e st)")
    by (auto simp: releaseEntry_def rbind_Inr_iff split: option.splits)
  moreover have "quiet st (enqueueItem w ?e st)" by (rule quiet_enqueue) simp
  ultimately show ?thesis by (auto intro: quiet_trans [OF _ quiet_removeWaiting])
qed

lemma addMissingSources_quiet:
  assumes "addMissingSources w d st = Inr st'"
  shows "quiet st st'"
proof -
  have one: "quiet s t" if "addMissingSource w d names k s = Inr t" for names k s t
    using that by (auto simp: addMissingSource_def addSourceNode_def rbind_Inr_iff emptyEntry_def
        intro!: quiet_enqueue split: if_splits option.splits)
  from assms obtain names ss where "foldE (addMissingSource w d names) ss st = Inr st'"
    by (auto simp: addMissingSources_def rbind_Inr_iff)
  then show ?thesis
    by (rule foldE_invariant [where I = "quiet st"]) (auto intro: quiet_trans dest: one)
qed

lemma storeEntry_quiet: "storeEntry w d r st = Inr st' \<Longrightarrow> quiet st st'"
  by (auto simp: storeEntry_def Let_def prepareWaitingToExecution_def quiet_def keeps_core_def
      adds_plain_def split: option.splits)

lemma addDirectly_quiet: "quiet st (addDirectly w d None metadata st)"
  by (auto simp: addDirectly_def intro: quiet_enqueue split: option.split)

lemma addDirectly_core: "keeps_core st (addDirectly w d run metadata st)"
  by (auto simp: addDirectly_def enqueueItem_def keeps_core_def split: option.split)

lemma addNode_waiting_quiet:
  assumes "addNodeToBeExecuted w d run metadata st = Inr st'" "1 < numberOfInputs w (dl_node d)"
  shows "quiet st st'"
  using assms
  by (auto simp: addNodeToBeExecuted_def rbind_Inr_iff split: option.splits if_splits
      dest!: placeInput_quiet releaseEntry_quiet addMissingSources_quiet storeEntry_quiet
      intro: quiet_trans)

lemma addNode_quiet:
  assumes "addNodeToBeExecuted w d None metadata st = Inr st'"
  shows "quiet st st'"
  using assms addNode_waiting_quiet [OF assms] addDirectly_quiet [of st w d metadata]
  by (cases "1 < numberOfInputs w (dl_node d)") (auto simp: addNodeToBeExecuted_def)

lemma addNode_core:
  assumes "addNodeToBeExecuted w d run metadata st = Inr st'"
  shows "keeps_core st st'"
  using assms addNode_waiting_quiet [OF assms] addDirectly_core [of st w d run metadata]
  by (cases "1 < numberOfInputs w (dl_node d)") (auto simp: addNodeToBeExecuted_def quiet_def)

lemma addSuccessors_quiet:
  assumes "addSuccessors w k outs runIndex st = Inr st'"
  shows "quiet st st'"
proof (cases "isV1 w")
  case True
  then obtain cs where "foldE (addOne w k outs runIndex) cs st = Inr st'"
    using assms by (auto simp: addSuccessors_def Let_def rbind_Inr_iff)
  then show ?thesis
    by (rule foldE_invariant [where I = "quiet st"])
       (auto simp: addOne_def intro: quiet_trans dest: addNode_quiet)
next
  case False
  then have "foldE (\<lambda>oc s. rbind (checkDestination w k oc) (\<lambda>_.
      if mayFollow w outs oc then addOne w k outs runIndex oc s else Inr s)) (mainConnections w k) st
    = Inr st'"
    using assms by (simp add: addSuccessors_def)
  then show ?thesis
    by (rule foldE_invariant [where I = "quiet st"])
       (auto simp: addOne_def rbind_Inr_iff intro: quiet_trans dest: addNode_quiet split: if_splits)
qed

section \<open>Scanning\<close>

lemma scanNode_item: "scanNode env ws k st = Inr (Release r e) \<Longrightarrow> ex_runIndex e = None"
  by (auto simp: scanNode_def waitingItem_def split: option.splits if_splits)

lemma scanLoop_quiet: "scanLoop env ks ws st = Inr st' \<Longrightarrow> quiet st st'"
proof (induction env ks ws st rule: scanLoop.induct)
  case (2 env k ks ws st)
  show ?case
  proof (cases "scanNode env ws k st")
    case (Inr step)
    show ?thesis
    proof (cases step)
      case Skip
      then show ?thesis using 2 Inr by (simp add: scanLoop.simps(2))
    next
      case (Release r e)
      then have st': "st' = removeWaitingEntry k r (st\<lparr>x_stack := x_stack st @ [e]\<rparr>)"
        using 2(3) Inr by (simp add: scanLoop.simps(2))
      have "quiet st (st\<lparr>x_stack := x_stack st @ [e]\<rparr>)"
        using scanNode_item [of env ws k st r e] Inr Release
        by (auto simp: quiet_def keeps_core_def adds_plain_def)
      then show ?thesis unfolding st' using quiet_trans quiet_removeWaiting by blast
    next
      case (DropEmpty r)
      then have "quiet (removeWaitingEntry k r st) st'"
        using 2 Inr by (simp add: scanLoop.simps(2) Let_def)
      then show ?thesis using quiet_trans quiet_removeWaiting by blast
    qed
  qed (use 2(3) in \<open>simp add: scanLoop.simps(2)\<close>)
qed simp

lemma scanWaiting_quiet: "scanWaiting env st = Inr st' \<Longrightarrow> quiet st st'"
  by (auto simp: scanWaiting_def Let_def dest: scanLoop_quiet split: if_splits)

end
