(* ===== verification/LoopHistory.thy ===== *)
theory LoopHistory
  imports LoopFrames
begin

text \<open>
  The record a run leaves: as long as no node requests others, an iteration appends at most
  one task, to the node it takes from the stack, numbered by the counter of executions. And
  the number of times a node is called for one entry of the stack.
\<close>

section \<open>Running a node\<close>

definition never_requests :: "'w exec_env \<Rightarrow> bool" where
  "never_requests env \<longleftrightarrow> (\<forall>world call actions. fst (snd (ev_call env world call)) \<noteq> Requested actions)"

text \<open>What the tries may change: the waiting time and the last node.\<close>

definition run_frame :: "exec_state \<Rightarrow> exec_state \<Rightarrow> bool" where
  "run_frame st st' \<longleftrightarrow>
     st' = st\<lparr>x_waitTill := x_waitTill st', x_lastNodeExecuted := x_lastNodeExecuted st'\<rparr>"

lemma run_frame_refl [simp]: "run_frame st st"
  by (simp add: run_frame_def)

lemma run_frameD:
  assumes "run_frame st st'"
  shows "x_stack st' = x_stack st" "x_waiting st' = x_waiting st"
    "x_waitingSource st' = x_waitingSource st" "x_runData st' = x_runData st"
    "x_executionIndex st' = x_executionIndex st" "x_hooks st' = x_hooks st"
    "x_rewired st' = x_rewired st" "x_status st' = x_status st" "x_error st' = x_error st"
  using assms unfolding run_frame_def by (metis exec_state.select_convs exec_state.surjective
      exec_state.update_convs)+

lemma run_frame_trans:
  assumes "run_frame a b" "run_frame b c"
  shows "run_frame a c"
  using run_frameD [OF assms(1)] run_frameD [OF assms(2)] by (simp add: run_frame_def)

lemma run_frame_wait [simp]: "run_frame st (st\<lparr>x_waitTill := t\<rparr>)"
  by (simp add: run_frame_def)

lemma run_frame_last: "run_frame st st' \<Longrightarrow> run_frame st (st'\<lparr>x_lastNodeExecuted := k\<rparr>)"
  using run_frameD [of st st'] by (simp add: run_frame_def)

lemma runNode_frame: "runNode env e ri rs world st = (w', o', st') \<Longrightarrow> run_frame st st'"
  by (auto simp: runNode_def callNode_def Let_def split: option.splits prod.splits if_splits)

fun is_request :: "node_outcome \<Rightarrow> bool" where
  "is_request (Requested _) = True"
| "is_request _ = False"

lemma runNode_no_request:
  assumes "never_requests env" "runNode env e ri rs world st = (w', o', st')"
  shows "\<not> is_request o'"
proof
  assume "is_request o'"
  then obtain actions where "o' = Requested actions" by (cases o') auto
  then show False using assms
    by (auto simp: runNode_def callNode_def never_requests_def Let_def
        split: option.splits prod.splits if_splits) (metis fst_conv snd_conv)+
qed

lemma rerun_frame:
  "never_requests env \<Longrightarrow> \<not> is_request out \<Longrightarrow>
    rerun env e ri left (world, out, st) = ((w', out', st'), left') \<Longrightarrow>
    run_frame st st' \<and> \<not> is_request out'"
proof (induction env e ri left "(world, out, st)" arbitrary: world out st rule: rerun.induct)
  case (1 env e ri left world out st)
  obtain w1 o1 st1 where r: "runNode env e ri [] world st = (w1, o1, st1)" by (metis prod_cases3)
  note f = runNode_frame [OF r]
  have n: "\<not> is_request o1" by (rule runNode_no_request [OF 1(3) r])
  show ?case
  proof (cases "checkFailure out")
    case False
    then show ?thesis using 1(4,5) by simp
  next
    case True
    show ?thesis
    proof (cases o1)
      case (Returned d)
      then have "rerun env e ri (Suc left) (w1, o1, st1) = ((w', out', st'), left')"
        using 1(5) True r by simp
      then show ?thesis using 1(1) [OF True r [symmetric] refl] Returned f run_frame_trans 1(3) n
        by blast
    next
      case (Threw err)
      then show ?thesis using 1(5) True r f by auto
    qed (use n in simp)
  qed
qed auto

lemma finishTry_frame: "finishTry e d st = (st', outs, r) \<Longrightarrow> run_frame st st'"
  by (auto simp: finishTry_def Let_def run_frame_last split: sum.splits if_splits)

lemma attempt_frame:
  assumes "never_requests env" "attempt env e ri left rs d world st = (w', st', d', r, left')"
  shows "run_frame st st'"
proof (cases "getPinnedOutput env (ex_node e)")
  case (Some pinned)
  then show ?thesis using assms(2) finishTry_frame by (auto simp: attempt_def split: prod.splits)
next
  case None
  obtain w0 o0 st0 where r0: "runNode env e ri (rs @ collectSubNodeResults e (x_runData st)) world st
      = (w0, o0, st0)" by (metis prod_cases3)
  obtain w1 o1 st1 left1 where r1: "rerun env e ri left (w0, o0, st0) = ((w1, o1, st1), left1)"
    by (metis prod_cases3 surj_pair)
  have 1: "run_frame st st1" "\<not> is_request o1"
    using rerun_frame [OF assms(1) runNode_no_request [OF assms(1) r0] r1] runNode_frame [OF r0]
      run_frame_trans by blast+
  show ?thesis
  proof (cases o1)
    case (Returned nodeData)
    then show ?thesis using assms(2) None r0 r1 1(1) finishTry_frame run_frame_trans
      by (auto simp: attempt_def split: sum.splits prod.splits)
  qed (use assms(2) None r0 r1 1 in \<open>auto simp: attempt_def\<close>)
qed

lemma tries_frame:
  "never_requests env \<Longrightarrow> tries env e ri left rs d world st = (w', st', d', r) \<Longrightarrow> run_frame st st'"
proof (induction env e ri left rs d world st rule: tries.induct)
  case (1 env e ri left rs d world st)
  obtain w1 st1 outs res left1 where a: "attempt env e ri left rs d world st = (w1, st1, outs, res, left1)"
    by (metis prod_cases5)
  have f: "run_frame st st1" by (rule attempt_frame [OF 1(2) a])
  show ?case
  proof (cases "\<exists>err. res = Failed err \<and> \<not> left1 \<le> 1")
    case True
    then obtain err where err: "res = Failed err" "\<not> left1 \<le> 1" by blast
    let ?st2 = "st1\<lparr>x_lastNodeExecuted := Some (w_name (ex_node e))\<rparr>"
    have "run_frame ?st2 st'"
      using 1(1) [OF a [symmetric] refl refl refl err(1) refl err(2)] 1(2,3)
      using err(2) by (simp add: tries.simps [of env e ri left rs] a err(1) Let_def)
    then show ?thesis using run_frame_trans [OF run_frame_last [OF f]] by blast
  next
    case False
    then show ?thesis using 1(3) f
      by (cases res) (auto simp: tries.simps [of env e ri left rs] a Let_def run_frame_last split: if_splits)
  qed
qed

section \<open>What one iteration records\<close>

lemma tasksOf_set [simp]: "tasksOf (jm_set m k v) k' = (if k' = k then v else tasksOf m k')"
  by (simp add: tasksOf_def)

text \<open>
  The state after the task: it is the given one but for the stack, the waiting entries and
  the hooks.
\<close>

definition same_record :: "exec_state \<Rightarrow> exec_state \<Rightarrow> bool" where
  "same_record st st' \<longleftrightarrow> x_runData st' = x_runData st \<and> x_executionIndex st' = x_executionIndex st
     \<and> adds_plain st st'"

lemma quiet_same_record: "quiet st st' \<Longrightarrow> same_record st st'"
  by (simp add: quiet_def keeps_core_def same_record_def)

lemma same_record_trans: "same_record a b \<Longrightarrow> same_record b c \<Longrightarrow> same_record a c"
  by (auto simp: same_record_def intro: adds_plain_trans)

lemma same_record_log [simp]: "same_record st (logHook h st)"
  by (simp add: same_record_def logHook_def adds_plain_def)

definition recorded :: "string \<Rightarrow> nat \<Rightarrow> task \<Rightarrow> exec_state \<Rightarrow> exec_state" where
  "recorded k runIndex t st = st\<lparr>x_runData := upsertTaskData k runIndex t (x_runData st)\<rparr>"

lemma recordRun_record:
  assumes "recordRun env e ri t d st = (st', r)" "ex_runIndex e = None"
  shows "same_record st st' \<or>
    (\<exists>t'. tk_executionIndex t' = tk_executionIndex t \<and>
       same_record (recorded (w_name (ex_node e)) ri t' st) st')"
proof (cases "normalizeNodeErrors d")
  case (Inl f)
  then show ?thesis using assms(1) by (simp add: recordRun_def Let_def same_record_def adds_plain_def)
next
  case (Inr outs)
  let ?k = "w_name (ex_node e)"
  let ?t = "rewireOutputLog st (ex_node e) ri outs (t\<lparr>tk_data := Some [(Main, outs)]\<rparr>)"
  let ?st1 = "recorded ?k ri ?t st"
  have t: "tk_executionIndex ?t = tk_executionIndex t"
    by (simp add: rewireOutputLog_def split: option.split)
  have "same_record ?st1 st'"
  proof (cases "x_waitTill ?st1 \<noteq> None \<or> ev_destination env = Some ?k")
    case True
    then show ?thesis using assms Inr
      by (cases "x_waitTill st")
        (auto simp: recordRun_def Let_def recorded_def same_record_def adds_plain_def logHook_def)
  next
    case False
    show ?thesis
    proof (cases "addSuccessors (ev_workflow env) ?k outs ri ?st1")
      case (Inl f)
      then show ?thesis using assms(1) Inr False
        by (auto simp: recordRun_def Let_def recorded_def same_record_def adds_plain_def)
    next
      case add: (Inr st2)
      let ?st3 = "logHook (NodeExecuteAfter ?k) st2"
      have 3: "same_record ?st1 ?st3"
        using addSuccessors_quiet [OF add] quiet_same_record same_record_trans same_record_log by blast
      show ?thesis
      proof (cases "scanWaiting env ?st3")
        case (Inl f)
        then have "st' = ?st3" using assms(1) Inr add False
          by (auto simp: recordRun_def Let_def recorded_def)
        then show ?thesis using 3 by simp
      next
        case scan: (Inr st4)
        then have "st' = st4" using assms(1) Inr add False
          by (auto simp: recordRun_def Let_def recorded_def)
        then show ?thesis using 3 scanWaiting_quiet [OF scan] quiet_same_record same_record_trans by blast
      qed
    qed
  qed
  then show ?thesis using t by blast
qed

lemma afterTries_record:
  assumes "afterTries env e ri n left res st = (st', err, r)" "ex_runIndex e = None"
  shows "\<exists>st1. x_stack st1 = x_stack st \<and> x_executionIndex st1 = x_executionIndex st
    \<and> tasksOf (x_runData st1) = tasksOf (x_runData st)
    \<and> (same_record st1 st' \<or>
       (\<exists>t. tk_executionIndex t = n \<and> same_record (recorded (w_name (ex_node e)) ri t st1) st'))"
proof -
  let ?k = "w_name (ex_node e)"
  let ?st1 = "if jm_get (x_runData st) ?k = None then st\<lparr>x_runData := jm_set (x_runData st) ?k []\<rparr> else st"
  have st1: "x_stack ?st1 = x_stack st" "x_executionIndex ?st1 = x_executionIndex st"
      "tasksOf (x_runData ?st1) = tasksOf (x_runData st)"
    by (auto simp: fun_eq_iff tasksOf_def jm_or_def)
  have made: "tk_executionIndex (createTaskData n e ?st1) = n" by (simp add: createTaskData_def)
  have stopped: "\<exists>t. tk_executionIndex t = n \<and>
      same_record (recorded ?k ri t ?st1) (stopOnError e ri er (createTaskData n e ?st1) ?st1)" for er
    using assms(2) made
    by (intro exI [of _ "rewireOutputLog ?st1 (ex_node e) ri [Filled [errorItem er]]
        ((createTaskData n e ?st1)\<lparr>tk_error := Some er, tk_status := Some TaskError\<rparr>)"])
      (auto simp: stopOnError_def Let_def recorded_def same_record_def adds_plain_def logHook_def
        rewireOutputLog_def split: option.split)
  show ?thesis
  proof (cases res)
    case (Done outs)
    then have "recordRun env e ri (createTaskData n e ?st1) outs ?st1 = (st', r)"
      using assms(1) by (auto simp: afterTries_def Let_def split: prod.splits)
    from recordRun_record [OF this assms(2)] show ?thesis using st1 made by auto
  next
    case (Failed er)
    show ?thesis
    proof (cases "toleratesError ?st1 e")
      case True
      then have "recordRun env e ri ((createTaskData n e ?st1)\<lparr>tk_error := Some er,
          tk_status := Some TaskError\<rparr>) (passedOnError ?st1 e er left) ?st1 = (st', r)"
        using assms(1) Failed by (auto simp: afterTries_def Let_def split: prod.splits)
      from recordRun_record [OF this assms(2)] show ?thesis using st1 made by auto
    next
      case False
      then have "st' = stopOnError e ri er (createTaskData n e ?st1) ?st1"
        using assms(1) Failed by (auto simp: afterTries_def Let_def split: prod.splits)
      then show ?thesis using st1 stopped [of er] by blast
    qed
  qed (use assms(1) in \<open>auto simp: afterTries_def same_record_def adds_plain_def\<close>)
qed

section \<open>The history of a run\<close>

definition newTasks :: "tasks \<Rightarrow> exec_state \<Rightarrow> string \<Rightarrow> task list" where
  "newTasks before st k = drop (length (tasksOf before k)) (tasksOf (x_runData st) k)"

definition plain :: "exec_state \<Rightarrow> bool" where
  "plain st \<longleftrightarrow> (\<forall>e \<in> set (x_stack st). ex_runIndex e = None)"

text \<open>
  The earlier tasks are there; the new ones of a node are in the order of their numbers, no
  number is given twice, and all lie between the counter at the start and the counter now.
\<close>

definition history :: "nat \<Rightarrow> tasks \<Rightarrow> exec_state \<Rightarrow> bool" where
  "history start before st \<longleftrightarrow> plain st \<and> start \<le> x_executionIndex st \<and>
     (\<forall>k. tasksOf (x_runData st) k = tasksOf before k @ newTasks before st k) \<and>
     (\<forall>k. \<forall>t \<in> set (newTasks before st k).
        start \<le> tk_executionIndex t \<and> tk_executionIndex t < x_executionIndex st) \<and>
     (\<forall>k. sorted_wrt (<) (map tk_executionIndex (newTasks before st k))) \<and>
     (\<forall>k k' t t'. k \<noteq> k' \<longrightarrow> t \<in> set (newTasks before st k) \<longrightarrow> t' \<in> set (newTasks before st k') \<longrightarrow>
        tk_executionIndex t \<noteq> tk_executionIndex t')"

lemma history_start:
  "plain st \<Longrightarrow> history (x_executionIndex st) (x_runData st) st"
  by (simp add: history_def newTasks_def)

lemma plain_same_record: "same_record st st' \<Longrightarrow> plain st \<Longrightarrow> plain st'"
  unfolding plain_def same_record_def adds_plain_def by metis

text \<open>A step that keeps the tasks and does not turn back the counter.\<close>

lemma history_keep:
  assumes h: "history start before st" and p: "plain st'"
    and t: "tasksOf (x_runData st') = tasksOf (x_runData st)"
    and i: "x_executionIndex st \<le> x_executionIndex st'"
  shows "history start before st'"
proof -
  have "newTasks before st' = newTasks before st" by (simp add: newTasks_def t fun_eq_iff)
  then show ?thesis using h p i t unfolding history_def by (auto intro: less_le_trans)
qed

text \<open>A step that appends a task with the number of the counter.\<close>

lemma history_append:
  assumes h: "history start before st" and p: "plain st'"
    and t: "tasksOf (x_runData st') = (tasksOf (x_runData st))(k := tasksOf (x_runData st) k @ [new])"
    and n: "tk_executionIndex new = x_executionIndex st"
    and i: "x_executionIndex st' = Suc (x_executionIndex st)"
  shows "history start before st'"
proof -
  have pre: "tasksOf (x_runData st) k' = tasksOf before k' @ newTasks before st k'" for k'
    using h by (simp add: history_def)
  have new: "newTasks before st' k' = newTasks before st k' @ (if k' = k then [new] else [])" for k'
  proof -
    have "length (tasksOf before k) \<le> length (tasksOf (x_runData st) k)" using pre [of k]
      by (metis le_add1 length_append)
    then show ?thesis by (simp add: newTasks_def t)
  qed
  have bound: "u \<in> set (newTasks before st k') \<Longrightarrow>
      start \<le> tk_executionIndex u \<and> tk_executionIndex u < x_executionIndex st" for u k'
    using h by (simp add: history_def)
  have start: "start \<le> x_executionIndex st" using h by (simp add: history_def)
  show ?thesis
    unfolding history_def
  proof (intro conjI allI ballI impI)
    fix k' u assume "u \<in> set (newTasks before st' k')"
    then show "start \<le> tk_executionIndex u" "tk_executionIndex u < x_executionIndex st'"
      using bound [of u k'] n i start by (auto simp: new split: if_splits)
  next
    fix k' show "sorted_wrt (<) (map tk_executionIndex (newTasks before st' k'))"
      using h bound [of _ k'] n by (auto simp: new history_def sorted_wrt_append)
  next
    fix k1 k2 u v
    assume k: "k1 \<noteq> k2" and uv: "u \<in> set (newTasks before st' k1)" "v \<in> set (newTasks before st' k2)"
    have "tk_executionIndex u' \<noteq> tk_executionIndex v'"
      if "u' \<in> set (newTasks before st k1)" "v' \<in> set (newTasks before st k2)" for u' v'
      using h k that unfolding history_def by blast
    then show "tk_executionIndex u \<noteq> tk_executionIndex v"
      using uv k n bound [of u k1] bound [of v k2] by (auto simp: new split: if_splits)
  qed (use p start i pre new t in auto)
qed

text \<open>The three ways an iteration goes: nothing to do, an entry that is not run, a run.\<close>

definition loaded :: "exec_item \<Rightarrow> exec_item" where
  "loaded popped = popped\<lparr>ex_data := addPairedItemLineage popped\<rparr>"

definition afterPop :: "'w loop_state \<Rightarrow> exec_item list \<Rightarrow> exec_state" where
  "afterPop s rest =
     (lp_state s)\<lparr>x_stack := rest, x_executionIndex := Suc (x_executionIndex (lp_state s))\<rparr>"

lemma iteration_pop:
  assumes "\<not> ev_stops env (lp_world s)" "x_stack (lp_state s) = popped # rest"
  defines "e \<equiv> loaded popped" and "st \<equiv> afterPop s rest"
  defines "k \<equiv> w_name (ex_node e)" and "ri \<equiv> computeRunIndex e (x_runData st)"
    and "s1 \<equiv> s\<lparr>lp_state := st, lp_error := None\<rparr>"
  shows "iteration env s =
    (if lp_last s = Some (k, ri) then (s1, Crashed EndlessLoop)
     else if isNodeFilteredOut env k then (s1, Continue)
     else case ensureInputData (ev_workflow env) e st of
       (st1, False) \<Rightarrow> (s1\<lparr>lp_state := st1, lp_last := Some (k, ri)\<rparr>, Continue)
     | (st1, True) \<Rightarrow>
         (let st2 = (if wasResumed e then st1 else logHook (NodeExecuteBefore k) st1);
              (world, st3, leftover, result) = tries env e ri (triesOf e) [] None (lp_world s) st2;
              (st4, err, r) = afterTries env e ri (x_executionIndex (lp_state s)) leftover result st3
          in (s1\<lparr>lp_world := world, lp_state := st4, lp_error := err\<rparr>, r)))"
  unfolding e_def st_def k_def ri_def s1_def loaded_def afterPop_def
  by (simp only: iteration_def assms(1,2) list.case Let_def if_False)

lemma iteration_cases:
  assumes it: "iteration env s = (s', r)"
  obtains
    (idle) "ev_stops env (lp_world s) \<or> x_stack (lp_state s) = []" "lp_world s' = lp_world s"
      "lp_state s' = (lp_state s)\<lparr>x_status := x_status (lp_state s')\<rparr>" "r \<noteq> Continue" "lp_error s' = lp_error s"
  | (skipped) popped rest where "x_stack (lp_state s) = popped # rest" "lp_world s' = lp_world s"
      "lp_state s' = afterPop s rest \<or> lp_state s' = (afterPop s rest)\<lparr>x_stack := rest @ [loaded popped]\<rparr>"
      "r \<noteq> Break" "lp_error s' = None"
  | (ran) popped rest e st st2 ri world st3 left res where
      "x_stack (lp_state s) = popped # rest" "e = loaded popped" "st = afterPop s rest"
      "ri = computeRunIndex e (x_runData st)" "\<not> isNodeFilteredOut env (w_name (ex_node e))"
      "st2 = (if wasResumed e then st else logHook (NodeExecuteBefore (w_name (ex_node e))) st)"
      "tries env e ri (triesOf e) [] None (lp_world s) st2 = (world, st3, left, res)"
      "afterTries env e ri (x_executionIndex (lp_state s)) left res st3 = (lp_state s', lp_error s', r)"
      "lp_world s' = world"
proof (cases "ev_stops env (lp_world s) \<or> x_stack (lp_state s) = []")
  case True
  then show ?thesis using it by (intro idle) (auto simp: iteration_def split: list.splits if_splits)
next
  case False
  then obtain popped rest where stack: "x_stack (lp_state s) = popped # rest"
    by (cases "x_stack (lp_state s)") auto
  have "\<not> ev_stops env (lp_world s)" using False by simp
  note step = iteration_pop [OF this stack]
  let ?e = "loaded popped" and ?st = "afterPop s rest"
  let ?k = "w_name (ex_node ?e)" and ?ri = "computeRunIndex ?e (x_runData ?st)"
  obtain st1 b where ens: "ensureInputData (ev_workflow env) ?e ?st = (st1, b)" by fastforce
  then have st1: "if b then st1 = ?st else st1 = ?st\<lparr>x_stack := rest @ [?e]\<rparr>"
    by (auto simp: ensureInputData_def afterPop_def split: input_check.splits)
  show ?thesis
  proof (cases "lp_last s = Some (?k, ?ri) \<or> isNodeFilteredOut env ?k \<or> \<not> b")
    case True
    then show ?thesis
      using it ens st1 by (intro skipped [OF stack]) (auto simp: step split: if_splits)
  next
    case False
    define st2 where "st2 = (if wasResumed ?e then ?st else logHook (NodeExecuteBefore ?k) ?st)"
    obtain world st3 left res where tr: "tries env ?e ?ri (triesOf ?e) [] None (lp_world s) st2
        = (world, st3, left, res)" by (metis prod_cases4)
    obtain st4 err r' where after:
        "afterTries env ?e ?ri (x_executionIndex (lp_state s)) left res st3 = (st4, err, r')"
      by (metis prod_cases3)
    have "lp_state s' = st4" "lp_error s' = err" "r' = r" "lp_world s' = world"
      using it False ens st1 after tr by (auto simp: step st2_def Let_def)
    then show ?thesis using False after by (intro ran [OF stack refl refl refl _ st2_def tr]) auto
  qed
qed

lemma iteration_history:
  assumes nr: "never_requests env" and h: "history start before (lp_state s)"
    and it: "iteration env s = (s', r)"
  shows "history start before (lp_state s')"
proof -
  have pl: "plain (lp_state s)" using h by (simp add: history_def)
  from it show ?thesis
  proof (cases rule: iteration_cases)
    case idle
    then have "x_stack (lp_state s') = x_stack (lp_state s)" "x_runData (lp_state s') = x_runData (lp_state s)"
      "x_executionIndex (lp_state s') = x_executionIndex (lp_state s)"
      by (metis exec_state.select_convs exec_state.surjective exec_state.update_convs)+
    then show ?thesis using pl by (intro history_keep [OF h]) (simp_all add: plain_def)
  next
    case (skipped popped rest)
    then show ?thesis using pl
      by (intro history_keep [OF h]) (auto simp: plain_def afterPop_def loaded_def)
  next
    case (ran popped rest e st st2 ri world st3 left res)
    let ?n = "x_executionIndex (lp_state s)" and ?k = "w_name (ex_node e)"
    have e: "ex_runIndex e = None" and rest: "plain st"
      using pl ran(1-3) by (auto simp: plain_def loaded_def afterPop_def)
    have st: "x_runData st = x_runData (lp_state s)" "x_executionIndex st = Suc ?n"
      using ran(3) by (simp_all add: afterPop_def)
    have ri: "ri = length (tasksOf (x_runData st) ?k)" using ran(4) e by (simp add: computeRunIndex_def)
    note fr = run_frameD [OF tries_frame [OF nr ran(7)]]
    have 3: "x_stack st3 = x_stack st" "x_executionIndex st3 = Suc ?n" "x_runData st3 = x_runData st"
      using fr st by (simp_all add: ran(6) logHook_def)
    obtain st5 where 5: "x_stack st5 = x_stack st" "x_executionIndex st5 = Suc ?n"
        "tasksOf (x_runData st5) = tasksOf (x_runData st)"
        "same_record st5 (lp_state s') \<or>
         (\<exists>t. tk_executionIndex t = ?n \<and> same_record (recorded ?k ri t st5) (lp_state s'))"
      using afterTries_record [OF ran(8) e] 3 by auto
    have plain5: "plain st5" using rest 5(1) by (simp add: plain_def)
    from 5(4) show ?thesis
    proof
      assume same: "same_record st5 (lp_state s')"
      then show ?thesis
        using plain_same_record [OF same plain5] 5 st
        by (intro history_keep [OF h]) (simp_all add: same_record_def)
    next
      assume "\<exists>t. tk_executionIndex t = ?n \<and> same_record (recorded ?k ri t st5) (lp_state s')"
      then obtain t where t: "tk_executionIndex t = ?n" "same_record (recorded ?k ri t st5) (lp_state s')"
        by blast
      have "plain (recorded ?k ri t st5)" using plain5 by (simp add: plain_def recorded_def)
      then have p4: "plain (lp_state s')" using plain_same_record t(2) by blast
      have "tasksOf (x_runData (lp_state s'))
          = (tasksOf (x_runData (lp_state s)))(?k := tasksOf (x_runData (lp_state s)) ?k @ [t])"
        using t(2) 5(3) ri st(1)
        by (auto simp: same_record_def recorded_def upsertTaskData_def Let_def fun_eq_iff)
      then show ?thesis using t 5(2) p4
        by (intro history_append [OF h p4, where k = ?k and new = t])
          (simp_all add: same_record_def recorded_def)
    qed
  qed
qed

lemma execLoop_history:
  "never_requests env \<Longrightarrow> history start before (lp_state s) \<Longrightarrow> execLoop fuel env s = (s', r) \<Longrightarrow>
     history start before (lp_state s')"
proof (induction fuel env s rule: execLoop.induct)
  case (2 fuel env s)
  then show ?case
    by (auto split: if_splits prod.splits iteration_end.splits dest: iteration_history)
qed simp

end
