(* ===== verification/LoopBounds.thy ===== *)
theory LoopBounds
  imports LoopHistory
begin

text \<open>
  How often a node is called for one entry of the stack, what a failing node leaves, and
  which nodes are run at all.
\<close>

section \<open>The number of calls\<close>

definition counts_calls :: "('w \<Rightarrow> nat) \<Rightarrow> 'w exec_env \<Rightarrow> bool" where
  "counts_calls calls env \<longleftrightarrow> (\<forall>world call. calls (fst (ev_call env world call)) \<le> Suc (calls world))"

lemma runNode_calls:
  "counts_calls calls env \<Longrightarrow> runNode env e ri rs world st = (w', o', st') \<Longrightarrow> calls w' \<le> Suc (calls world)"
  by (auto simp: runNode_def callNode_def counts_calls_def Let_def
      split: option.splits prod.splits if_splits) (metis fst_conv)+

lemma rerun_calls:
  "counts_calls calls env \<Longrightarrow> rerun env e ri left (world, out, st) = ((w', out', st'), left') \<Longrightarrow>
     calls w' + left' \<le> Suc (calls world + left) \<and> (left' \<le> 1 \<longrightarrow> calls w' + left' \<le> calls world + left)
     \<and> (left \<ge> 1 \<longrightarrow> left' \<ge> 1)"
proof (induction env e ri left "(world, out, st)" arbitrary: world out st rule: rerun.induct)
  case (1 env e ri left world out st)
  obtain w1 o1 st1 where r: "runNode env e ri [] world st = (w1, o1, st1)" by (metis prod_cases3)
  have c: "calls w1 \<le> Suc (calls world)" by (rule runNode_calls [OF 1(3) r])
  show ?case
  proof (cases "checkFailure out")
    case False
    then show ?thesis using 1(4) by auto
  next
    case True
    show ?thesis
    proof (cases o1)
      case (Returned d)
      then have "rerun env e ri (Suc left) (w1, o1, st1) = ((w', out', st'), left')"
        using 1(4) True r by simp
      from 1(1) [OF True r [symmetric] refl refl Returned 1(3) this] show ?thesis using c by auto
    next
      case (Requested acts)
      then have "rerun env e ri (Suc left) (w1, o1, st1) = ((w', out', st'), left')"
        using 1(4) True r by simp
      from 1(2) [OF True r [symmetric] refl refl Requested 1(3) this] show ?thesis using c by auto
    next
      case (Threw err)
      then show ?thesis using 1(4) True r c by auto
    qed
  qed
qed auto

lemma attempt_calls:
  assumes "counts_calls calls env" "attempt env e ri left rs d world st = (w', st', d', r, left')"
  shows "calls w' + left' \<le> calls world + left + 2 \<and> (left' \<le> 1 \<longrightarrow> calls w' + left' \<le> Suc (calls world + left))
    \<and> (left \<ge> 1 \<longrightarrow> left' \<ge> 1)"
proof (cases "getPinnedOutput env (ex_node e)")
  case (Some pinned)
  then show ?thesis using assms(2) by (auto simp: attempt_def split: prod.splits)
next
  case None
  obtain w0 o0 st0 where r0: "runNode env e ri (rs @ collectSubNodeResults e (x_runData st)) world st
      = (w0, o0, st0)" by (metis prod_cases3)
  obtain w1 o1 st1 left1 where r1: "rerun env e ri left (w0, o0, st0) = ((w1, o1, st1), left1)"
    by (metis prod_cases3 surj_pair)
  have "w' = w1 \<and> left' = left1"
    using assms(2) None r0 r1
    by (cases o1) (auto simp: attempt_def split: sum.splits prod.splits option.splits)
  then show ?thesis
    using runNode_calls [OF assms(1) r0] rerun_calls [OF assms(1) r1] by auto
qed

lemma tries_calls:
  "counts_calls calls env \<Longrightarrow> 1 \<le> left \<Longrightarrow> tries env e ri left rs d world st = (w', st', d', r) \<Longrightarrow>
     Suc (calls w') \<le> calls world + 2 * left"
proof (induction env e ri left rs d world st rule: tries.induct)
  case (1 env e ri left rs d world st)
  obtain w1 st1 outs res left1 where a: "attempt env e ri left rs d world st = (w1, st1, outs, res, left1)"
    by (metis prod_cases5)
  note c = attempt_calls [OF 1(2) a]
  have le: "left1 \<le> left" by (rule attempt_left [OF a [symmetric]])
  show ?case
  proof (cases "\<exists>err. res = Failed err \<and> \<not> left1 \<le> 1")
    case True
    then obtain err where err: "res = Failed err" "\<not> left1 \<le> 1" by blast
    have "Suc (calls w') \<le> calls w1 + 2 * (left1 - 1)"
      using 1(1) [OF a [symmetric] refl refl refl err(1) refl err(2)] 1(2,4) err(2)
      by (simp add: tries.simps [of env e ri left rs] a err(1) Let_def)
    then show ?thesis using c le err(2) by linarith
  next
    case False
    then have "w' = w1" using 1(4)
      by (cases res) (auto simp: tries.simps [of env e ri left rs] a Let_def split: if_splits)
    then show ?thesis using c 1(3) by (cases "left1 \<le> 1") auto
  qed
qed

lemma clampNumber_range: "low \<le> high \<Longrightarrow> low \<le> clampNumber low high x \<and> clampNumber low high x \<le> high"
  by (simp add: clampNumber_def)

lemma triesOf_range: "1 \<le> triesOf e \<and> triesOf e \<le> 5"
proof -
  have "1 \<le> fst (getRetryParams e) \<and> fst (getRetryParams e) \<le> 5"
    using clampNumber_range [of 2 5 "orNumber (xn_maxTries (ex_node e)) 3"]
    by (auto simp: getRetryParams_def Let_def)
  then have "1 \<le> \<lceil>fst (getRetryParams e)\<rceil> \<and> \<lceil>fst (getRetryParams e)\<rceil> \<le> 5"
    by (simp add: ceiling_le_iff one_le_ceiling)
  then show ?thesis by (simp add: triesOf_def nat_le_iff) linarith
qed

section \<open>The nodes that run\<close>

text \<open>The hooks that announce a run, in order.\<close>

definition started :: "exec_state \<Rightarrow> string list" where
  "started st = concat (map (\<lambda>h. case h of NodeExecuteBefore k \<Rightarrow> [k] | NodeExecuteAfter k \<Rightarrow> []) (x_hooks st))"

lemma started_log [simp]:
  "started (logHook (NodeExecuteAfter k) st) = started st"
  "started (logHook (NodeExecuteBefore k) st) = started st @ [k]"
  by (simp_all add: started_def logHook_def)

lemma started_quiet: "quiet st st' \<Longrightarrow> started st' = started st"
  by (simp add: quiet_def keeps_core_def started_def)

lemma started_cong: "x_hooks st' = x_hooks st \<Longrightarrow> started st' = started st"
  by (simp add: started_def)

lemma recordRun_started:
  assumes "recordRun env e ri t d st = (st', r)"
  shows "started st' = started st"
proof (cases "normalizeNodeErrors d")
  case (Inl f)
  then show ?thesis using assms by (simp add: recordRun_def Let_def)
next
  case (Inr outs)
  let ?k = "w_name (ex_node e)"
  let ?t = "rewireOutputLog st (ex_node e) ri outs (t\<lparr>tk_data := Some [(Main, outs)]\<rparr>)"
  let ?st1 = "st\<lparr>x_runData := upsertTaskData ?k ri ?t (x_runData st)\<rparr>"
  have 1: "started ?st1 = started st" by (rule started_cong) simp
  show ?thesis
  proof (cases "x_waitTill ?st1 \<noteq> None \<or> ev_destination env = Some ?k")
    case True
    then show ?thesis using assms Inr 1
      by (cases "x_waitTill st") (auto simp: recordRun_def Let_def started_def logHook_def)
  next
    case False
    show ?thesis
    proof (cases "addSuccessors (ev_workflow env) ?k outs ri ?st1")
      case (Inl f)
      then show ?thesis using assms Inr False 1 by (auto simp: recordRun_def Let_def)
    next
      case add: (Inr st2)
      then have 2: "started st2 = started st" using 1 started_quiet [OF addSuccessors_quiet] by metis
      show ?thesis
        using assms Inr False add 2
        by (cases "scanWaiting env (logHook (NodeExecuteAfter ?k) st2)")
          (auto simp: recordRun_def Let_def dest!: started_quiet [OF scanWaiting_quiet])
    qed
  qed
qed

lemma afterTries_started:
  assumes "afterTries env e ri n left res st = (st', err, r)"
  shows "started st' = started st"
proof -
  let ?k = "w_name (ex_node e)"
  let ?st1 = "if jm_get (x_runData st) ?k = None then st\<lparr>x_runData := jm_set (x_runData st) ?k []\<rparr> else st"
  have 1: "started ?st1 = started st" by (rule started_cong) simp
  have stop: "started (stopOnError e ri er t ?st1) = started st" for er t
    using 1 by (simp add: stopOnError_def Let_def started_def logHook_def)
  show ?thesis
    using assms 1 stop
    by (cases res) (auto simp: afterTries_def Let_def dest!: recordRun_started split: prod.splits if_splits)
qed

text \<open>Requests leave the hooks alone.\<close>

lemma prepareAction_hooks:
  assumes "prepareAction w e runIndex act st = Inr (st1, entry, sub)"
  shows "x_hooks st1 = x_hooks st"
proof -
  obtain n where n: "jm_get (xw_nodes w) (ac_nodeName act) = Some n"
    using assms by (cases "jm_get (xw_nodes w) (ac_nodeName act)")
      (simp_all add: prepareAction_def nodeNamed_def)
  have run: "(st1, entry, sub) = projr (prepareAction w e runIndex act st)" by (simp add: assms)
  show ?thesis
    using run unfolding prepareAction_def nodeNamed_def n option.case rbind_simps Let_def case_prod_beta
      sum.sel by (simp_all only: prod.inject) simp_all
qed

lemma prepareRequested_hooks:
  "prepareRequestedNodesForExecution w e ri acts st = (st', r) \<Longrightarrow> x_hooks st' = x_hooks st"
proof (induction acts arbitrary: st r)
  case (Cons act acts)
  show ?case
  proof (cases "prepareAction w e ri act st")
    case (Inr p)
    obtain st1 entry sub where "p = (st1, entry, sub)" by (metis prod_cases3)
    then show ?thesis using Cons Inr prepareAction_hooks [of w e ri act st st1 entry sub]
      by (auto split: prod.splits)
  qed (use Cons.prems in auto)
qed simp

lemma addRequested_hooks: "addRequested w rs st = (st', r) \<Longrightarrow> x_hooks st' = x_hooks st"
proof (induction rs arbitrary: st)
  case (Cons q rs)
  then show ?case by (auto simp: keeps_core_def dest!: addNode_core split: sum.splits)
qed simp

lemma handleEngineRequest_hooks:
  assumes "handleEngineRequest w e ri acts st = (st', r)"
  shows "x_hooks st' = x_hooks st"
proof -
  obtain st1 q where h: "handleRequest w e ri acts st = (st1, q)" by fastforce
  then have "x_hooks st1 = x_hooks st"
    using prepareRequested_hooks [of w e ri acts st] by (auto simp: handleRequest_def split: prod.splits)
  then show ?thesis using assms h addRequested_hooks
    by (auto simp: handleEngineRequest_def split: sum.splits)
qed

lemma rerun_hooks:
  "rerun env e ri left (world, out, st) = ((w', out', st'), left') \<Longrightarrow> x_hooks st' = x_hooks st"
proof (induction env e ri left "(world, out, st)" arbitrary: world out st rule: rerun.induct)
  case (1 env e ri left world out st)
  obtain w1 o1 st1 where r: "runNode env e ri [] world st = (w1, o1, st1)" by (metis prod_cases3)
  have h: "x_hooks st1 = x_hooks st" by (rule run_frameD(6) [OF runNode_frame [OF r]])
  show ?case
  proof (cases "checkFailure out")
    case True
    then show ?thesis using 1 r h by (cases o1) (auto simp: r)
  qed (use 1(3) in auto)
qed auto

lemma attempt_hooks:
  assumes "attempt env e ri left rs d world st = (w', st', d', r, left')"
  shows "x_hooks st' = x_hooks st"
proof (cases "getPinnedOutput env (ex_node e)")
  case (Some pinned)
  then show ?thesis using assms run_frameD(6) [OF finishTry_frame]
    by (auto simp: attempt_def split: prod.splits)
next
  case None
  obtain w0 o0 st0 where r0: "runNode env e ri (rs @ collectSubNodeResults e (x_runData st)) world st
      = (w0, o0, st0)" by (metis prod_cases3)
  obtain w1 o1 st1 left1 where r1: "rerun env e ri left (w0, o0, st0) = ((w1, o1, st1), left1)"
    by (metis prod_cases3 surj_pair)
  have "x_hooks st1 = x_hooks st"
    using rerun_hooks [OF r1] run_frameD(6) [OF runNode_frame [OF r0]] by simp
  then show ?thesis
    using assms None r0 r1
    by (cases o1) (auto simp: attempt_def split: sum.splits prod.splits option.splits
        dest!: handleEngineRequest_hooks run_frameD(6) [OF finishTry_frame])
qed

lemma tries_hooks: "tries env e ri left rs d world st = (w', st', d', r) \<Longrightarrow> x_hooks st' = x_hooks st"
proof (induction env e ri left rs d world st rule: tries.induct)
  case (1 env e ri left rs d world st)
  obtain w1 st1 outs res left1 where a: "attempt env e ri left rs d world st = (w1, st1, outs, res, left1)"
    by (metis prod_cases5)
  note h = attempt_hooks [OF a]
  show ?case
  proof (cases "\<exists>err. res = Failed err \<and> \<not> left1 \<le> 1")
    case True
    then obtain err where err: "res = Failed err" "\<not> left1 \<le> 1" by blast
    show ?thesis
      using 1(1) [OF a [symmetric] refl refl refl err(1) refl err(2)] 1(2) err(2) h
      by (simp add: tries.simps [of env e ri left rs] a err(1) Let_def)
  next
    case False
    then show ?thesis using 1(2) h
      by (cases res) (auto simp: tries.simps [of env e ri left rs] a Let_def split: if_splits)
  qed
qed

text \<open>One iteration announces at most the node it takes from the stack, and only if it may run.\<close>

lemma iteration_started:
  assumes "iteration env s = (s', r)"
  shows "started (lp_state s') = started (lp_state s) \<or>
    (\<exists>k. started (lp_state s') = started (lp_state s) @ [k] \<and> \<not> isNodeFilteredOut env k)"
  using assms
proof (cases rule: iteration_cases)
  case idle
  then have "x_hooks (lp_state s') = x_hooks (lp_state s)"
    by (metis exec_state.select_convs(11) exec_state.surjective exec_state.update_convs(10))
  then show ?thesis by (simp add: started_def)
next
  case (skipped popped rest)
  then show ?thesis by (auto simp: started_def afterPop_def)
next
  case (ran popped rest e st st2 ri world st3 left res)
  have "started st = started (lp_state s)" by (rule started_cong) (simp add: ran(3) afterPop_def)
  moreover have "started (lp_state s') = started st2"
    using afterTries_started [OF ran(8)] started_cong [OF tries_hooks [OF ran(7)]] by simp
  ultimately show ?thesis using ran(5) by (auto simp: ran(6))
qed

lemma execLoop_started:
  "execLoop fuel env s = (s', r) \<Longrightarrow>
     \<exists>ks. started (lp_state s') = started (lp_state s) @ ks \<and> (\<forall>k \<in> set ks. \<not> isNodeFilteredOut env k)"
proof (induction fuel env s rule: execLoop.induct)
  case (2 fuel env s)
  show ?case
  proof (cases "x_stack (lp_state s) = []")
    case False
    obtain s1 i where it: "iteration env s = (s1, i)" by fastforce
    then obtain ks where ks: "started (lp_state s1) = started (lp_state s) @ ks"
        "\<forall>k \<in> set ks. \<not> isNodeFilteredOut env k"
      using iteration_started [OF it] by (metis append_Nil2 empty_iff empty_set set_ConsD)
    show ?thesis
    proof (cases i)
      case Continue
      then have "\<exists>ks'. started (lp_state s') = started (lp_state s1) @ ks' \<and>
          (\<forall>k \<in> set ks'. \<not> isNodeFilteredOut env k)"
        using 2 False it by auto
      then obtain ks' where "started (lp_state s') = started (lp_state s1) @ ks'"
          "\<forall>k \<in> set ks'. \<not> isNodeFilteredOut env k" by blast
      then show ?thesis using ks by (intro exI [of _ "ks @ ks'"]) auto
    qed (use 2(2) False it ks in auto)
  qed (use 2(2) in auto)
qed simp

end
