(* ===== verification/LoopOrder.thy ===== *)
theory LoopOrder
  imports LoopBounds
begin

text \<open>
  The order in which nodes follow each other: the nodes below a node from top left to bottom
  right, and the waiting nodes, none of which is forgotten when the stack is empty.
\<close>

section \<open>Sorting by position\<close>

lemma mset_insertLater [simp]: "mset (insertLater cmp x ys) = add_mset x (mset ys)"
  by (induction cmp x ys rule: insertLater.induct) auto

lemma set_insertLater [simp]: "set (insertLater cmp x ys) = insert x (set ys)"
  by (induction cmp x ys rule: insertLater.induct) auto

lemma arraySort_invariant:
  assumes "I []" and "\<And>x ys. I ys \<Longrightarrow> I (insertLater cmp x ys)"
  shows "I (arraySort cmp xs)"
proof -
  have "I acc \<Longrightarrow> I (foldl (\<lambda>acc x. insertLater cmp x acc) acc xs)" for acc
    by (induction xs arbitrary: acc) (auto intro: assms(2))
  then show ?thesis using assms(1) by (simp add: arraySort_def)
qed

lemma mset_arraySort [simp]: "mset (arraySort cmp xs) = mset xs"
proof -
  have "mset (foldl (\<lambda>acc x. insertLater cmp x acc) acc xs) = mset acc + mset xs" for acc
    by (induction xs arbitrary: acc) auto
  then show ?thesis by (simp add: arraySort_def)
qed

lemma set_arraySort [simp]: "set (arraySort cmp xs) = set xs"
  by (rule mset_eq_setD) simp

definition topLeft :: "js_number \<times> js_number \<Rightarrow> js_number \<times> js_number \<Rightarrow> bool" where
  "topLeft a b \<longleftrightarrow> snd a < snd b \<or> snd a = snd b \<and> fst a \<le> fst b"

lemma positionCompare_less: "positionCompare a b < 0 \<longleftrightarrow> \<not> topLeft a b"
  by (auto simp: positionCompare_def topLeft_def)

lemma topLeft_order:
  "topLeft a b \<or> topLeft b a" "topLeft a b \<Longrightarrow> topLeft b c \<Longrightarrow> topLeft a c"
  by (auto simp: topLeft_def)

text \<open>The sorted list runs from bottom right to top left.\<close>

lemma insertLater_sorted:
  assumes "sorted_wrt (\<lambda>a b. topLeft (f b) (f a)) ys"
  shows "sorted_wrt (\<lambda>a b. topLeft (f b) (f a))
    (insertLater (\<lambda>a b. positionCompare (f a) (f b)) x ys)"
  using assms
proof (induction ys)
  case (Cons y ys)
  show ?case
  proof (cases "topLeft (f x) (f y)")
    case True
    then show ?thesis using Cons by (simp add: positionCompare_less)
  next
    case False
    then show ?thesis using Cons topLeft_order [where a = "f x" and b = "f y"]
        topLeft_order(2) [where b = "f y" and c = "f x"]
      by (auto simp: positionCompare_less)
  qed
qed simp

lemma arraySort_sorted:
  "sorted_wrt (\<lambda>a b. topLeft (f b) (f a)) (arraySort (\<lambda>a b. positionCompare (f a) (f b)) xs)"
  by (rule arraySort_invariant) (auto intro: insertLater_sorted)

section \<open>The nodes below a node\<close>

definition directConnection :: "xworkflow \<Rightarrow> nat \<times> iconnection \<Rightarrow> bool" where
  "directConnection w oc \<longleftrightarrow> numberOfInputs w (ic_node (snd oc)) \<le> 1"

definition followItem :: "xworkflow \<Rightarrow> string \<Rightarrow> outputs \<Rightarrow> nat \<Rightarrow> nat \<times> iconnection \<Rightarrow> exec_item" where
  "followItem w k outs ri oc =
     \<lparr>ex_node = the (jm_get (xw_nodes w) (ic_node (snd oc))),
      ex_data = [(Main, sl_set (replicate (Suc (ic_index (snd oc))) Null) (ic_index (snd oc))
                          (sl_get outs (fst oc)))],
      ex_source = Some [(Main, [Filled \<lparr>sd_previousNode = k, sd_previousNodeOutput = fst oc,
                                        sd_previousNodeRun = ri\<rparr>])],
      ex_runIndex = None, ex_metadata = None\<rparr>"

lemma addOne_direct:
  assumes "directConnection w oc" "jm_get (xw_nodes w) (ic_node (snd oc)) \<noteq> None"
  shows "addOne w k outs ri oc st = Inr (enqueueItem w (followItem w k outs ri oc) st)"
  using assms
  by (auto simp: addOne_def directConnection_def addNodeToBeExecuted_def addDirectly_def deliveryOf_def
      followItem_def deliveredSlot_def sourceOf_def)

lemma addSuccessors_v1:
  assumes "isV1 w" and known: "\<And>oc. oc \<in> set (mainConnections w k) \<Longrightarrow>
      jm_get (xw_nodes w) (ic_node (snd oc)) \<noteq> None"
    and direct: "\<And>oc. oc \<in> set (mainConnections w k) \<Longrightarrow> mayFollow w outs oc \<Longrightarrow> directConnection w oc"
  shows "addSuccessors w k outs ri st =
    Inr (st\<lparr>x_stack := rev (map (followItem w k outs ri)
        (arraySort (\<lambda>a b. positionCompare (positionOf w (ic_node (snd a))) (positionOf w (ic_node (snd b))))
          (filter (mayFollow w outs) (mainConnections w k)))) @ x_stack st\<rparr>)"
proof -
  let ?cs = "arraySort (\<lambda>a b. positionCompare (positionOf w (ic_node (snd a))) (positionOf w (ic_node (snd b))))
    (filter (mayFollow w outs) (mainConnections w k))"
  have check: "forEach (mainConnections w k) (checkDestination w k) = Inr ()"
    using known by (auto simp: forEach_Inr_iff checkDestination_def)
  have "foldE (addOne w k outs ri) cs st = Inr (st\<lparr>x_stack := rev (map (followItem w k outs ri) cs) @ x_stack st\<rparr>)"
    if "set cs \<subseteq> set (filter (mayFollow w outs) (mainConnections w k))" for cs
    using that
  proof (induction cs arbitrary: st)
    case (Cons oc cs)
    have "addOne w k outs ri oc st = Inr (enqueueItem w (followItem w k outs ri oc) st)"
      using Cons.prems known direct by (intro addOne_direct) auto
    then show ?case using Cons assms(1) by (simp add: enqueueItem_def)
  qed simp
  from this [of ?cs] show ?thesis using assms(1) check by (simp add: addSuccessors_def Let_def)
qed

section \<open>The scan\<close>

text \<open>
  When the scan leaves the stack empty, it has gone through all waiting nodes and every one of
  them has to wait.
\<close>

lemma scanLoop_exhausted:
  "scanLoop env ks ws st = Inr st' \<Longrightarrow> x_stack st = [] \<Longrightarrow> x_stack st' = [] \<Longrightarrow>
     ws = map fst (x_waiting st) \<Longrightarrow> (\<And>k. k \<in> set ws \<Longrightarrow> k \<notin> set ks \<Longrightarrow> scanNode env ws k st = Inr Skip) \<Longrightarrow>
     set ks \<subseteq> set ws \<Longrightarrow>
     (\<forall>k \<in> fst ` set (x_waiting st'). scanNode env (map fst (x_waiting st')) k st' = Inr Skip)"
proof (induction env ks ws st rule: scanLoop.induct)
  case (1 env ws st)
  then show ?case by auto
next
  case (2 env k ks ws st)
  obtain step where step: "scanNode env ws k st = Inr step"
    using 2(3) by (cases "scanNode env ws k st") (auto simp: scanLoop.simps(2))
  show ?case
  proof (cases step)
    case Skip
    show ?thesis
    proof (rule 2(1) [OF step Skip])
      show "scanLoop env ks ws st = Inr st'" using 2(3) step Skip by (simp add: scanLoop.simps(2))
      show "set ks \<subseteq> set ws" using 2(8) by simp
      fix k' assume "k' \<in> set ws" "k' \<notin> set ks"
      then show "scanNode env ws k' st = Inr Skip" using 2(7) [of k'] step Skip by (cases "k' = k") auto
    qed (use 2(4,5,6) in auto)
  next
    case (Release r e)
    then have "st' = removeWaitingEntry k r (st\<lparr>x_stack := x_stack st @ [e]\<rparr>)"
      using 2(3) step by (simp add: scanLoop.simps(2))
    then have "x_stack st' \<noteq> []" by (simp add: removeWaitingEntry_def Let_def)
    then show ?thesis using 2(5) by simp
  next
    case (DropEmpty r)
    let ?st1 = "removeWaitingEntry k r st" and ?ws = "map fst (x_waiting (removeWaitingEntry k r st))"
    have "x_stack ?st1 = x_stack st" by (simp add: removeWaitingEntry_def Let_def)
    then show ?thesis
      using 2(3,4,5) step DropEmpty
      by (intro 2(2) [OF step DropEmpty refl refl]) (simp_all add: scanLoop.simps(2) Let_def)
  qed
qed

lemma scanWaiting_exhausted:
  assumes "scanWaiting env st = Inr st'" "x_stack st' = []" "k \<in> fst ` set (x_waiting st')"
  shows "scanNode env (map fst (x_waiting st')) k st' = Inr Skip"
proof (cases "x_stack st = [] \<and> map fst (x_waiting st) \<noteq> []")
  case True
  then show ?thesis
    using assms scanLoop_exhausted [of env "map fst (x_waiting st)" "map fst (x_waiting st)" st st']
    by (auto simp: scanWaiting_def Let_def)
next
  case False
  then show ?thesis using assms by (auto simp: scanWaiting_def Let_def split: if_splits)
qed

text \<open>
  Where no node requires its inputs, a waiting node is passed over only because a node above
  it waits as well.
\<close>

lemma skip_because_of_parent:
  assumes "scanNode env ws k st = Inr Skip" "jm_get (xw_nodes (ev_workflow env)) k = Some n"
    "\<And>t. typeOf env n = Some t \<Longrightarrow> requiredInputsOf env n t = None"
  shows "\<exists>p \<in> set ws. p \<in> set (mainParents (ev_workflow env) k)"
  using assms by (auto simp: scanNode_def list_ex_iff split: option.splits if_splits)

lemma nothing_waits:
  assumes scan: "scanWaiting env st = Inr st'" "x_stack st' = []"
    and known: "\<And>k. k \<in> fst ` set (x_waiting st') \<Longrightarrow>
      \<exists>n. jm_get (xw_nodes (ev_workflow env)) k = Some n \<and>
        (\<forall>t. typeOf env n = Some t \<longrightarrow> requiredInputsOf env n t = None)"
    and acyclic: "acyclic {(p, k). p \<in> set (mainParents (ev_workflow env) k)}"
  shows "x_waiting st' = []"
proof (rule ccontr)
  let ?K = "fst ` set (x_waiting st')"
  let ?R = "{(p, k). p \<in> ?K \<and> k \<in> ?K \<and> p \<in> set (mainParents (ev_workflow env) k)}"
  assume "x_waiting st' \<noteq> []"
  then obtain k0 where k0: "k0 \<in> ?K" by (cases "x_waiting st'") auto
  have "finite ?R" by (rule finite_subset [of _ "?K \<times> ?K"]) auto
  moreover have "acyclic ?R" by (rule acyclic_subset [OF acyclic]) auto
  ultimately have "wf ?R" by (rule finite_acyclic_wf)
  then obtain k where k: "k \<in> ?K" "\<And>p. (p, k) \<in> ?R \<Longrightarrow> p \<notin> ?K"
    using k0 by (rule wfE_min) blast
  obtain n where n: "jm_get (xw_nodes (ev_workflow env)) k = Some n"
      "\<And>t. typeOf env n = Some t \<Longrightarrow> requiredInputsOf env n t = None"
    using known [OF k(1)] by blast
  obtain p where "p \<in> ?K" "p \<in> set (mainParents (ev_workflow env) k)"
    using skip_because_of_parent [OF scanWaiting_exhausted [OF scan k(1)] n] by auto
  then show False using k by blast
qed

section \<open>The error output\<close>

lemma splitOutputs_exact:
  assumes "splitOutputs proxy e js errs outs = Inr (errs', outs')" "distinct js"
  shows "(\<forall>i \<in> set js. sl_get outs' i = Filled (filter (\<lambda>it. \<not> isErrorItem it) (itemsAt outs i)))
    \<and> (\<forall>i. i \<notin> set js \<longrightarrow> sl_get outs' i = sl_get outs i)
    \<and> (\<exists>es. errs' = errs @ es \<and>
         list_all2 (\<lambda>it it'. errorItemOf proxy e it = Inr it')
           (concat (map (\<lambda>i. filter isErrorItem (itemsAt outs i)) js)) es)"
  using assms
proof (induction js arbitrary: errs outs)
  case (Cons i js)
  let ?outs = "sl_set outs i (Filled (filter (\<lambda>it. \<not> isErrorItem it) (itemsAt outs i)))"
  obtain es where es: "traverse (errorItemOf proxy e) (filter isErrorItem (itemsAt outs i)) = Inr es"
      "splitOutputs proxy e js (errs @ es) ?outs = Inr (errs', outs')"
    using Cons.prems(1) by (auto simp: Let_def rbind_Inr_iff)
  have items: "itemsAt ?outs j = itemsAt outs j" if "j \<in> set js" for j
    using that Cons.prems(2) by (auto simp: itemsAt_def)
  then have same: "map (\<lambda>i. filter isErrorItem (itemsAt ?outs i)) js
      = map (\<lambda>i. filter isErrorItem (itemsAt outs i)) js" by simp
  have IH: "(\<forall>j \<in> set js. sl_get outs' j = Filled (filter (\<lambda>it. \<not> isErrorItem it) (itemsAt ?outs j)))"
      "(\<forall>j. j \<notin> set js \<longrightarrow> sl_get outs' j = sl_get ?outs j)"
      "\<exists>fs. errs' = (errs @ es) @ fs \<and> list_all2 (\<lambda>it it'. errorItemOf proxy e it = Inr it')
         (concat (map (\<lambda>i. filter isErrorItem (itemsAt ?outs i)) js)) fs"
    using Cons.IH [OF es(2)] Cons.prems(2) by simp_all
  then obtain fs where fs: "errs' = errs @ es @ fs" "list_all2 (\<lambda>it it'. errorItemOf proxy e it = Inr it')
         (concat (map (\<lambda>i. filter isErrorItem (itemsAt outs i)) js)) fs"
    unfolding same by auto
  have "list_all2 (\<lambda>it it'. errorItemOf proxy e it = Inr it') (filter isErrorItem (itemsAt outs i)) es"
    using es(1) by (simp add: traverse_Inr_iff)
  then have "list_all2 (\<lambda>it it'. errorItemOf proxy e it = Inr it')
         (concat (map (\<lambda>i. filter isErrorItem (itemsAt outs i)) (i # js))) (es @ fs)"
    using fs(2) by (simp add: list_all2_appendI)
  then show ?case using IH(1,2) items fs(1) Cons.prems(2) by auto
qed simp

end
