(* ===== verification/ExecutionProperties.thy ===== *)
theory ExecutionProperties
  imports LoopOrder
begin

text \<open>
  The properties of the execution of workflows, with witnesses, and the inputs on which the
  code does not do what it means to.
\<close>

section \<open>Sample workflows\<close>

definition sampleNode :: "string \<Rightarrow> xnode" where
  "sampleNode k =
     \<lparr>w_name = k, w_type = ''t'', w_typeVersion = 1, w_disabled = None, xn_position = (0, 0),
      xn_retryOnFail = False, xn_maxTries = None, xn_waitBetweenTries = None,
      xn_alwaysOutputData = False, xn_executeOnce = False, xn_continueOnFail = False,
      xn_onError = None, xn_rewireOutputLogTo = None\<rparr>"

definition mainTo :: "string \<Rightarrow> nat \<Rightarrow> iconnection" where
  "mainTo k i = \<lparr>ic_node = k, ic_type = Main, ic_index = i\<rparr>"

text \<open>Two nodes A and B that feed the two inputs of M.\<close>

definition joinWorkflow :: "string option \<Rightarrow> xworkflow" where
  "joinWorkflow order =
     \<lparr>xw_nodes = [(''A'', sampleNode ''A''), (''B'', sampleNode ''B''), (''M'', sampleNode ''M'')],
      xw_bySource = [(''A'', [(Main, [Some [mainTo ''M'' 0]])]), (''B'', [(Main, [Some [mainTo ''M'' 1]])])],
      xw_byDestination = [(''M'', [(Main, [Some [mainTo ''A'' 0], Some [mainTo ''B'' 0]])])],
      xw_executionOrder = order\<rparr>"

definition emptyState :: exec_state where
  "emptyState = (initialState (sampleNode ''A'') None)\<lparr>x_stack := []\<rparr>"

definition itemsNamed :: "string \<Rightarrow> item_list" where
  "itemsNamed s = [emptyInput\<lparr>i_json := [(''v'', JString s)]\<rparr>]"

definition deliver :: "string \<Rightarrow> nat \<Rightarrow> string \<Rightarrow> delivery" where
  "deliver k i s = \<lparr>dl_node = ''M'', dl_input = i, dl_parent = k, dl_output = 0,
                   dl_data = Some [Filled (itemsNamed s)], dl_run = 0\<rparr>"

section \<open>Joining inputs\<close>


lemma waiting_ok_empty [simp]: "waiting_ok w emptyState"
  by (simp add: waiting_ok_def emptyState_def initialState_def entryAt_def runsOf_def jm_or_def)

lemma is_Inr: "\<not> isl r \<Longrightarrow> r = Inr (projr r)"
  by (cases r) auto

abbreviation joinV1 :: xworkflow where
  "joinV1 \<equiv> joinWorkflow (Some ''v1'')"

definition addFrom :: "xworkflow \<Rightarrow> string \<Rightarrow> nat \<Rightarrow> string \<Rightarrow> exec_state \<Rightarrow> exec_state" where
  "addFrom w k i s st = projr (addNodeToBeExecuted w (deliver k i s) None None st)"

definition oneWaiting :: exec_state where
  "oneWaiting = addFrom joinV1 ''A'' 0 ''a'' emptyState"


text \<open>(invariant) The entries that wait for data keep their shape, in both execution orders:
  waiting data and waiting sources have the same nodes and entries, an entry has one place per
  input of its node, data and source of an input are there or missing together, at least one
  is missing, and no node is listed without an entry.\<close>

theorem waiting_entries_keep_their_shape:
  assumes "waiting_ok w st" and "isFilled (deliveredSlot d)"
    and "1 < numberOfInputs w (dl_node d) \<Longrightarrow> dl_input d < numberOfInputs w (dl_node d)"
    and "addNodeToBeExecuted w d newRunIndex metadata st = Inr st'"
  shows "waiting_ok w st'"
  using addNode_waiting_ok [OF assms(1,3,2,4)] .

lemma addFrom_run:
  "\<not> isl (addNodeToBeExecuted w (deliver k i s) None None st) \<Longrightarrow>
     addNodeToBeExecuted w (deliver k i s) None None st = Inr (addFrom w k i s st)"
  unfolding addFrom_def by (rule is_Inr)

theorem waiting_entries_keep_their_shape_witness:
  "waiting_ok (joinWorkflow None) (addFrom (joinWorkflow None) ''A'' 0 ''a'' emptyState)
    \<and> stackNames (addFrom (joinWorkflow None) ''A'' 0 ''a'' emptyState) = [''B'']"
proof
  have "\<not> isl (addNodeToBeExecuted (joinWorkflow None) (deliver ''A'' 0 ''a'') None None emptyState)"
    by code_simp
  note run = addFrom_run [OF this]
  show "waiting_ok (joinWorkflow None) (addFrom (joinWorkflow None) ''A'' 0 ''a'' emptyState)"
  proof (rule waiting_entries_keep_their_shape [OF waiting_ok_empty _ _ run])
    show "isFilled (deliveredSlot (deliver ''A'' 0 ''a''))" by code_simp
    show "dl_input (deliver ''A'' 0 ''a'') < numberOfInputs (joinWorkflow None) (dl_node (deliver ''A'' 0 ''a''))"
      by code_simp
  qed
  show "stackNames (addFrom (joinWorkflow None) ''A'' 0 ''a'' emptyState) = [''B'']" by code_simp
qed

text \<open>C11: Data that is delivered to a node is held for it, on the stack or in a waiting entry,
  and nothing held before gets lost, but for the data of an entry that a new entry replaces
  (\<open>overwritten\<close>: the index of a new entry is the number of entries). The legacy order adds
  entries with one empty item for sources that have not run; the order v1 adds nothing.\<close>

theorem delivered_data_is_kept:
  assumes "waiting_ok w st" and "\<And>k n. jm_get (xw_nodes w) k = Some n \<Longrightarrow> w_name n = k"
    and "jm_get (xw_nodes w) (dl_node d) \<noteq> None"
    and "1 < numberOfInputs w (dl_node d) \<Longrightarrow> dl_input d < numberOfInputs w (dl_node d)"
    and "deliveredSlot d = Filled x"
    and "addNodeToBeExecuted w d newRunIndex metadata st = Inr st'"
  shows "\<exists>added. held st' + (if 1 < numberOfInputs w (dl_node d) then overwritten d st else {#})
    = held st + {#(dl_node d, x)#} + image_mset (\<lambda>k. (k, [emptyInput])) added
    \<and> (isV1 w \<longrightarrow> added = {#})"
  using addNode_keeps_data [OF assms] by blast

lemma joinWorkflow_named: "jm_get (xw_nodes (joinWorkflow order)) k = Some n \<Longrightarrow> w_name n = k"
  by (auto simp: joinWorkflow_def sampleNode_def split: if_splits)

theorem delivered_data_is_kept_witness:
  "held oneWaiting = {#(''M'', itemsNamed ''a'')#}"
proof -
  let ?d = "deliver ''A'' 0 ''a''"
  have "\<not> isl (addNodeToBeExecuted joinV1 ?d None None emptyState)" by code_simp
  then have run: "addNodeToBeExecuted joinV1 ?d None None emptyState = Inr oneWaiting"
    unfolding oneWaiting_def by (rule addFrom_run)
  have facts: "jm_get (xw_nodes joinV1) (dl_node ?d) \<noteq> None"
    "dl_input ?d < numberOfInputs joinV1 (dl_node ?d)" "deliveredSlot ?d = Filled (itemsNamed ''a'')"
    "isV1 joinV1" "1 < numberOfInputs joinV1 (dl_node ?d)" "dl_node ?d = ''M''" by code_simp+
  have "held emptyState = {#}" "overwritten ?d emptyState = {#}"
    by (simp_all add: held_def heldWaiting_def emptyState_def initialState_def overwritten_def
        runsOf_def jm_or_def heldEntry_def entryAt_def Let_def)
  then show ?thesis
    using delivered_data_is_kept [OF waiting_ok_empty joinWorkflow_named facts(1,2,3) run] facts(4-6)
    by auto
qed

text \<open>
  The index of a new entry can be the index of an entry that is there: A delivers twice, B
  once, A a third time, and what A delivered the second time is gone.
\<close>

theorem waiting_data_can_be_overwritten:
  "map fst (runsOf (x_waiting (addFrom joinV1 ''A'' 0 ''a3'' (addFrom joinV1 ''B'' 1 ''b1''
      (addFrom joinV1 ''A'' 0 ''a2'' (addFrom joinV1 ''A'' 0 ''a1'' emptyState))))) ''M'') = [1]
   \<and> entryAt (x_waiting (addFrom joinV1 ''A'' 0 ''a3'' (addFrom joinV1 ''B'' 1 ''b1''
      (addFrom joinV1 ''A'' 0 ''a2'' (addFrom joinV1 ''A'' 0 ''a1'' emptyState))))) ''M'' 1
     = Some [Filled (itemsNamed ''a3''), Null]"
  by code_simp

text \<open>With eleven entries the tenth is taken for the earliest after the first two: as strings.\<close>

theorem tenth_entry_comes_before_the_second: "firstAsString [2, 3, 10] = Some 10"
  by code_simp

section \<open>Running\<close>

definition passType :: exec_type where
  "passType =
     \<lparr>et_execute = True, et_customOperation = False, et_poll = False, et_trigger = False,
      et_webhook = False, et_supplyData = False, et_declarative = False,
      et_inputs = InputList [Main], et_requiredInputs = None\<rparr>"

text \<open>An environment whose world counts the calls; the nodes are given by a function.\<close>

definition sampleEnv :: "xworkflow \<Rightarrow> (nat \<Rightarrow> node_call \<Rightarrow> node_outcome) \<Rightarrow> nat exec_env" where
  "sampleEnv w f =
     \<lparr>ev_workflow = w, ev_types = (\<lambda>_ _. Some passType),
      ev_call = (\<lambda>world call. (Suc world, f world call, None)),
      ev_proxy = (\<lambda>_ _ _ _. Inr None), ev_mainOutputs = (\<lambda>_. 1),
      ev_required = (\<lambda>_ _. RequiredCount 1), ev_pinData = [], ev_runNodeFilter = None,
      ev_destination = None, ev_stops = (\<lambda>_. False)\<rparr>"

definition passOn :: "nat \<Rightarrow> node_call \<Rightarrow> node_outcome" where
  "passOn world call = Returned (Some [Filled (nc_connectionInputData call)])"

definition sampleStart :: "exec_state \<Rightarrow> nat loop_state" where
  "sampleStart st = \<lparr>lp_world = 0, lp_state = st, lp_last = None, lp_error = None\<rparr>"

definition ranJoin :: "nat loop_state \<times> loop_end" where
  "ranJoin = execLoop 5 (sampleEnv joinV1 passOn) (sampleStart (initialState (sampleNode ''A'') None))"

text \<open>C12: (history) While no node requests others, a run only adds to the run data: the tasks
  a node had stay first in its list, the new ones follow in the order of their execution
  numbers, every number lies between the counter before and after, and none is used twice.\<close>

theorem runs_are_recorded_in_order:
  assumes "never_requests env" and "\<forall>e \<in> set (x_stack (lp_state s)). ex_runIndex e = None"
    and "execLoop fuel env s = (s', r)"
  defines "before \<equiv> x_runData (lp_state s)" and "st \<equiv> lp_state s'"
  shows "(\<forall>k. tasksOf (x_runData st) k = tasksOf before k @ newTasks before st k)
    \<and> (\<forall>k. \<forall>t \<in> set (newTasks before st k).
         x_executionIndex (lp_state s) \<le> tk_executionIndex t \<and> tk_executionIndex t < x_executionIndex st)
    \<and> (\<forall>k. sorted_wrt (<) (map tk_executionIndex (newTasks before st k)))
    \<and> (\<forall>k k'. k \<noteq> k' \<longrightarrow> tk_executionIndex ` set (newTasks before st k)
                        \<inter> tk_executionIndex ` set (newTasks before st k') = {})"
proof -
  have "history (x_executionIndex (lp_state s)) before st"
    using execLoop_history [OF assms(1) history_start assms(3)] assms(2)
    by (simp add: plain_def before_def st_def)
  then show ?thesis unfolding history_def by blast
qed

lemma passOn_never_requests: "never_requests (sampleEnv w passOn)"
  by (simp add: never_requests_def sampleEnv_def passOn_def)

text \<open>A runs, then M with the data of A and an empty input, which is padded by the scan.\<close>

theorem runs_are_recorded_in_order_witness:
  "map tk_executionIndex (tasksOf (x_runData (lp_state (fst ranJoin))) ''M'') = [1]
   \<and> sorted_wrt (<) (map tk_executionIndex (newTasks [] (lp_state (fst ranJoin)) ''M''))
   \<and> snd ranJoin = Finished"
proof -
  let ?s = "sampleStart (initialState (sampleNode ''A'') None)"
  have "execLoop 5 (sampleEnv joinV1 passOn) ?s = (fst ranJoin, snd ranJoin)" by (simp add: ranJoin_def)
  moreover have "\<forall>e \<in> set (x_stack (lp_state ?s)). ex_runIndex e = None"
    by (simp add: sampleStart_def initialState_def initialItem_def)
  moreover have "x_runData (lp_state ?s) = []" by (simp add: sampleStart_def initialState_def)
  ultimately have "sorted_wrt (<) (map tk_executionIndex (newTasks [] (lp_state (fst ranJoin)) ''M''))"
    using runs_are_recorded_in_order [OF passOn_never_requests, of ?s 5 joinV1] by metis
  moreover have "map tk_executionIndex (tasksOf (x_runData (lp_state (fst ranJoin))) ''M'') = [1]"
      "snd ranJoin = Finished" by code_simp+
  ultimately show ?thesis by blast
qed

text \<open>A node outside the filter of the run is never announced as started, and so never run,
  whatever is on the stack.\<close>

theorem filtered_nodes_never_run:
  assumes "execLoop fuel env s = (s', r)" and "isNodeFilteredOut env k"
    and "k \<notin> set (started (lp_state s))"
  shows "k \<notin> set (started (lp_state s'))"
  using execLoop_started [OF assms(1)] assms(2,3) by auto

definition onlyA :: "nat exec_env" where
  "onlyA = (sampleEnv joinV1 passOn)\<lparr>ev_runNodeFilter := Some [''A'']\<rparr>"

theorem filtered_nodes_never_run_witness:
  "''M'' \<notin> set (started (lp_state (fst (execLoop 5 onlyA (sampleStart (initialState (sampleNode ''A'') None))))))
   \<and> started (lp_state (fst (execLoop 5 onlyA (sampleStart (initialState (sampleNode ''A'') None))))) = [''A'']"
proof
  let ?s = "sampleStart (initialState (sampleNode ''A'') None)"
  have "isNodeFilteredOut onlyA ''M''" by code_simp
  moreover have "''M'' \<notin> set (started (lp_state ?s))" by code_simp
  ultimately show "''M'' \<notin> set (started (lp_state (fst (execLoop 5 onlyA ?s))))"
    using filtered_nodes_never_run [of 5 onlyA ?s "fst (execLoop 5 onlyA ?s)" "snd (execLoop 5 onlyA ?s)" "''M''"]
    by simp
  show "started (lp_state (fst (execLoop 5 onlyA ?s))) = [''A'']" by code_simp
qed

text \<open>(bounds) One turn of the loop calls the code of a node at most nine times, and at most
  once when the node is not to be tried again.\<close>

theorem retries_are_bounded:
  assumes "\<forall>world call. calls (fst (ev_call env world call)) \<le> Suc (calls world)"
    and "iteration env s = (s', r)" and "x_stack (lp_state s) = popped # rest"
  shows "calls (lp_world s') \<le> calls (lp_world s) + (if xn_retryOnFail (ex_node popped) then 9 else 1)"
  using assms(2)
proof (cases rule: iteration_cases)
  case (ran popped' rest' e st st2 ri world st3 left res)
  have "Suc (calls world) \<le> calls (lp_world s) + 2 * triesOf e"
    using tries_calls [OF _ _ ran(7)] assms(1) triesOf_range [of e] by (simp add: counts_calls_def)
  moreover have "xn_retryOnFail (ex_node popped) \<or> triesOf e = 1"
    using ran(1,2) assms(3) by (simp add: triesOf_def getRetryParams_def loaded_def)
  ultimately show ?thesis using triesOf_range [of e] ran(9) by auto
qed simp_all

definition stubborn :: "nat \<Rightarrow> node_call \<Rightarrow> node_outcome" where
  "stubborn world call =
     (if even world then Returned (Some [Filled [errorItem \<lparr>ne_name = ''E'', ne_message = ''soft''\<rparr>]])
      else Threw \<lparr>ne_name = ''E'', ne_message = ''hard''\<rparr>)"

definition retryingNode :: xnode where
  "retryingNode = (sampleNode ''A'')\<lparr>xn_retryOnFail := True, xn_maxTries := Some 3\<rparr>"

definition retryingStart :: "nat loop_state" where
  "retryingStart = sampleStart (initialState retryingNode None)"

text \<open>
  The bound is not the number of tries: a run of the inner loop that throws does not use up a
  try. With three tries, a node that fails softly and throws in turn is called five times.
\<close>

theorem retries_are_bounded_witness:
  "lp_world (fst (iteration (sampleEnv joinV1 stubborn) retryingStart)) \<le> 9
   \<and> lp_world (fst (iteration (sampleEnv joinV1 stubborn) retryingStart)) = 5
   \<and> triesOf (initialItem retryingNode None) = 3"
proof -
  let ?env = "sampleEnv joinV1 stubborn"
  have "\<forall>world call. id (fst (ev_call ?env world call)) \<le> Suc (id world)" by (simp add: sampleEnv_def)
  moreover have "iteration ?env retryingStart = (fst (iteration ?env retryingStart), snd (iteration ?env retryingStart))"
    by simp
  moreover have "x_stack (lp_state retryingStart) = initialItem retryingNode None # []"
    by (simp add: retryingStart_def sampleStart_def initialState_def)
  ultimately have "id (lp_world (fst (iteration ?env retryingStart))) \<le> id (lp_world retryingStart)
      + (if xn_retryOnFail (ex_node (initialItem retryingNode None)) then 9 else 1)"
    by (rule retries_are_bounded)
  then have "lp_world (fst (iteration ?env retryingStart)) \<le> 9"
    by (simp add: retryingStart_def sampleStart_def retryingNode_def initialItem_def)
  moreover have "lp_world (fst (iteration ?env retryingStart)) = 5" "triesOf (initialItem retryingNode None) = 3"
    by code_simp+
  ultimately show ?thesis by blast
qed

lemma recordRun_Break:
  "recordRun env e ri t d st = (st', Break) \<Longrightarrow> x_waitTill st' \<noteq> None"
  by (auto simp: recordRun_def Let_def logHook_def split: sum.splits if_splits)

lemma afterTries_Break:
  "afterTries env e ri n left res st = (st', err', Break) \<Longrightarrow> x_waitTill st' \<noteq> None \<or>
     (\<exists>err t st0. err' = Some err \<and> st' = stopOnError e ri err t st0)"
  by (cases res) (auto simp: afterTries_def Let_def dest: recordRun_Break split: prod.splits if_splits)

text \<open>C14: (error) When the loop stops at a node and the execution does not wait, the node has
  failed: its last task carries the error, its entry is on top of the stack again, so that the
  execution can be retried from there, and the execution ends as failed or cancelled.\<close>

theorem failed_node_is_kept_for_a_retry:
  assumes "iteration env s = (s', Break)" and "x_stack (lp_state s) = popped # rest"
    and "x_waitTill (lp_state s') = None" and "\<not> ev_stops env (lp_world s)"
  shows "\<exists>err t below. lp_error s' = Some err
    \<and> x_stack (lp_state s') = loaded popped # below
    \<and> t \<in> set (tasksOf (x_runData (lp_state s')) (w_name (ex_node popped)))
    \<and> tk_error t = Some err \<and> tk_status t = Some TaskError
    \<and> finalStatus (lp_error s') (lp_state s') \<in> {RunError, RunCanceled}"
  using assms(1)
proof (cases rule: iteration_cases)
  case (ran popped' rest' e st st2 ri world st3 left res)
  let ?k = "w_name (ex_node e)"
  obtain err t st0 where err: "lp_error s' = Some err" "lp_state s' = stopOnError e ri err t st0"
    using afterTries_Break [OF ran(8)] assms(3) by auto
  have e: "e = loaded popped" "ex_node e = ex_node popped"
    using ran(1,2) assms(2) by (simp_all add: loaded_def)
  let ?t = "rewireOutputLog st0 (ex_node e) ri [Filled [errorItem err]]
      (t\<lparr>tk_error := Some err, tk_status := Some TaskError\<rparr>)"
  have t: "tk_error ?t = Some err" "tk_status ?t = Some TaskError"
    by (simp_all add: rewireOutputLog_def split: option.split)
  have run: "x_runData (lp_state s') = upsertTaskData ?k ri ?t (x_runData st0)"
      and stack: "x_stack (lp_state s') = loaded popped # x_stack st0"
    using err(2) e by (simp_all add: stopOnError_def Let_def logHook_def)
  have "\<exists>t' \<in> set (tasksOf (x_runData (lp_state s')) ?k). tk_error t' = Some err \<and> tk_status t' = Some TaskError"
  proof (cases "ri < length (tasksOf (x_runData st0) ?k)")
    case True
    let ?u = "assignTask (tasksOf (x_runData st0) ?k ! ri) ?t"
    have "?u \<in> set (tasksOf (x_runData (lp_state s')) ?k)"
      using True by (simp add: run upsertTaskData_def Let_def set_update_memI)
    moreover have "tk_error ?u = Some err" "tk_status ?u = Some TaskError" using t by (simp_all add: assignTask_def)
    ultimately show ?thesis by blast
  next
    case False
    then show ?thesis using t by (auto simp: run upsertTaskData_def Let_def)
  qed
  then show ?thesis using err(1) stack e(2) by (auto simp: finalStatus_def)
qed (use assms(2,4) in auto)

definition failing :: "nat \<Rightarrow> node_call \<Rightarrow> node_outcome" where
  "failing world call = Threw \<lparr>ne_name = ''E'', ne_message = ''no''\<rparr>"

definition failed :: "nat loop_state" where
  "failed = fst (iteration (sampleEnv joinV1 failing) (sampleStart (initialState (sampleNode ''A'') None)))"

theorem failed_node_is_kept_for_a_retry_witness:
  "stackNames (lp_state failed) = [''A''] \<and> finalStatus (lp_error failed) (lp_state failed) = RunError
   \<and> lp_error failed \<noteq> None"
proof -
  let ?env = "sampleEnv joinV1 failing" and ?s = "sampleStart (initialState (sampleNode ''A'') None)"
  have "snd (iteration ?env ?s) = Break" by code_simp
  then have "iteration ?env ?s = (failed, Break)" unfolding failed_def by (metis prod.collapse)
  moreover have "x_stack (lp_state ?s) = initialItem (sampleNode ''A'') None # []"
    by (simp add: sampleStart_def initialState_def)
  moreover have "x_waitTill (lp_state failed) = None" by code_simp
  moreover have "\<not> ev_stops ?env (lp_world ?s)" by (simp add: sampleEnv_def)
  ultimately have "lp_error failed \<noteq> None" using failed_node_is_kept_for_a_retry by fastforce
  moreover have "stackNames (lp_state failed) = [''A'']"
      "finalStatus (lp_error failed) (lp_state failed) = RunError" by code_simp+
  ultimately show ?thesis by blast
qed

text \<open>
  A tolerated error of the node that runs last is still the error of the loop: the execution
  ends as failed although the node is to continue on errors.
\<close>

theorem tolerated_error_fails_the_execution:
  "endStatus (execLoop 5 (sampleEnv joinV1 failing) (sampleStart (initialState
     ((sampleNode ''M'')\<lparr>xn_onError := Some ''continueRegularOutput''\<rparr>) None))) = RunError"
  by code_simp

section \<open>The order of the nodes\<close>

text \<open>(order v1) The nodes that follow a node and have one input each go on top of the
  stack, once for every connection whose output has items, the one that lies more to the top,
  and in one row more to the left, first.\<close>

theorem successors_run_from_the_top_left:
  assumes "isV1 w"
    and "\<And>oc. oc \<in> set (mainConnections w k) \<Longrightarrow> jm_get (xw_nodes w) (ic_node (snd oc)) \<noteq> None"
    and "\<And>oc. oc \<in> set (mainConnections w k) \<Longrightarrow> mayFollow w outs oc \<Longrightarrow>
           numberOfInputs w (ic_node (snd oc)) \<le> 1"
  shows "\<exists>new. addSuccessors w k outs ri st = Inr (st\<lparr>x_stack := new @ x_stack st\<rparr>)
    \<and> sorted_wrt (\<lambda>a b. topLeft (xn_position (ex_node a)) (xn_position (ex_node b))) new
    \<and> mset (map (\<lambda>e. mainOf (ex_data e)) new)
        = mset (map (\<lambda>oc. mainOf (ex_data (followItem w k outs ri oc)))
                    (filter (mayFollow w outs) (mainConnections w k)))
    \<and> mset (map ex_node new)
        = mset (map (\<lambda>oc. the (jm_get (xw_nodes w) (ic_node (snd oc))))
                    (filter (mayFollow w outs) (mainConnections w k)))"
proof -
  let ?cs = "filter (mayFollow w outs) (mainConnections w k)"
  let ?pos = "\<lambda>oc. positionOf w (ic_node (snd oc))"
  let ?sorted = "arraySort (\<lambda>a b. positionCompare (?pos a) (?pos b)) ?cs"
  let ?new = "rev (map (followItem w k outs ri) ?sorted)"
  have pos: "xn_position (ex_node (followItem w k outs ri oc)) = ?pos oc" if "oc \<in> set ?cs" for oc
    using assms(2) [of oc] that by (auto simp: followItem_def positionOf_def)
  have "sorted_wrt (\<lambda>a b. topLeft (?pos b) (?pos a)) ?sorted"
    by (rule arraySort_sorted)
  then have "sorted_wrt (\<lambda>a b. topLeft (xn_position (ex_node (followItem w k outs ri b)))
      (xn_position (ex_node (followItem w k outs ri a)))) ?sorted"
    by (rule sorted_wrt_mono_rel [rotated]) (simp add: pos)
  then have "sorted_wrt (\<lambda>a b. topLeft (xn_position (ex_node a)) (xn_position (ex_node b))) ?new"
    by (simp add: sorted_wrt_rev sorted_wrt_map)
  moreover have "addSuccessors w k outs ri st = Inr (st\<lparr>x_stack := ?new @ x_stack st\<rparr>)"
    using assms by (intro addSuccessors_v1) (simp_all add: directConnection_def)
  moreover have new: "mset (map g ?new) = mset (map (\<lambda>oc. g (followItem w k outs ri oc)) ?cs)" for g :: "exec_item \<Rightarrow> 'b"
  proof -
    have "mset (map g ?new) = image_mset (\<lambda>oc. g (followItem w k outs ri oc)) (mset ?sorted)"
      by (simp add: rev_map multiset.map_comp comp_def)
    then show ?thesis by simp
  qed
  moreover have "map (\<lambda>oc. ex_node (followItem w k outs ri oc)) ?cs
      = map (\<lambda>oc. the (jm_get (xw_nodes w) (ic_node (snd oc)))) ?cs"
    by (simp add: followItem_def)
  ultimately show ?thesis
    using new [of ex_node] new [of "\<lambda>e. mainOf (ex_data e)"]
    by (intro exI [of _ ?new] conjI) (simp_all only:)
qed

text \<open>X is above and left of Y, which is left of Z; R feeds all three.\<close>

definition fanNode :: "string \<Rightarrow> js_number \<times> js_number \<Rightarrow> xnode" where
  "fanNode k p = (sampleNode k)\<lparr>xn_position := p\<rparr>"

definition fanWorkflow :: xworkflow where
  "fanWorkflow =
     \<lparr>xw_nodes = [(''R'', sampleNode ''R''), (''Z'', fanNode ''Z'' (9, 5)), (''X'', fanNode ''X'' (1, 1)),
                  (''Y'', fanNode ''Y'' (2, 5))],
      xw_bySource = [(''R'', [(Main, [Some [mainTo ''Z'' 0, mainTo ''X'' 0, mainTo ''Y'' 0]])])],
      xw_byDestination = [(''Z'', [(Main, [Some [mainTo ''R'' 0]])]), (''X'', [(Main, [Some [mainTo ''R'' 0]])]),
                          (''Y'', [(Main, [Some [mainTo ''R'' 0]])])],
      xw_executionOrder = Some ''v1''\<rparr>"

theorem successors_run_from_the_top_left_witness:
  "stackNames (projr (addSuccessors fanWorkflow ''R'' [Filled [emptyInput]] 0 emptyState)) = [''X'', ''Y'', ''Z'']
   \<and> sorted_wrt (\<lambda>a b. topLeft (xn_position (ex_node a)) (xn_position (ex_node b)))
       (x_stack (projr (addSuccessors fanWorkflow ''R'' [Filled [emptyInput]] 0 emptyState)))"
proof
  show "stackNames (projr (addSuccessors fanWorkflow ''R'' [Filled [emptyInput]] 0 emptyState)) = [''X'', ''Y'', ''Z'']"
    by code_simp
  have conns: "mainConnections fanWorkflow ''R'' = [(0, mainTo ''Z'' 0), (0, mainTo ''X'' 0), (0, mainTo ''Y'' 0)]"
    by code_simp
  have known: "list_all (\<lambda>oc. jm_get (xw_nodes fanWorkflow) (ic_node (snd oc)) \<noteq> None
      \<and> numberOfInputs fanWorkflow (ic_node (snd oc)) \<le> 1) (mainConnections fanWorkflow ''R'')"
    by code_simp
  have "isV1 fanWorkflow" by code_simp
  then obtain new where
    "addSuccessors fanWorkflow ''R'' [Filled [emptyInput]] 0 emptyState = Inr (emptyState\<lparr>x_stack := new @ x_stack emptyState\<rparr>)"
    "sorted_wrt (\<lambda>a b. topLeft (xn_position (ex_node a)) (xn_position (ex_node b))) new"
    using successors_run_from_the_top_left [of fanWorkflow "''R''" "[Filled [emptyInput]]" 0 emptyState] known
    by (auto simp: list_all_iff)
  moreover have "x_stack emptyState = []" by code_simp
  ultimately show "sorted_wrt (\<lambda>a b. topLeft (xn_position (ex_node a)) (xn_position (ex_node b)))
       (x_stack (projr (addSuccessors fanWorkflow ''R'' [Filled [emptyInput]] 0 emptyState)))" by simp
qed




text \<open>
  The arrays of a released node are filled up to the length of its inputs; for a node whose
  inputs are an expression that is the length of the expression. And in the legacy order an
  input right past the end of the data counts as there.
\<close>

theorem expression_inputs_pad_by_their_length:
  "map (\<lambda>e. map_option length (mainOf (ex_data e))) (x_stack (projr (scanWaiting
     ((sampleEnv joinV1 passOn)\<lparr>ev_types := \<lambda>_ _. Some (passType\<lparr>et_inputs := InputExpression ''={{ inputs }}''\<rparr>)\<rparr>)
     oneWaiting))) = [Some 13]"
  by code_simp

theorem missing_input_passes_the_check:
  "snd (ensureInputData (joinWorkflow None)
     (initialItem (sampleNode ''M'') (Some [(Main, [Filled (itemsNamed ''a'')])])) emptyState)"
  by code_simp

section \<open>Requests\<close>

text \<open>(order v1) When a node asks for others to be run, these come next, in the order it
  asked for them, each with the run index of the task prepared for it; below them the node
  itself resumes, knowing which action was run where.\<close>

theorem requests_run_in_order:
  assumes "isV1 w" and "\<And>k n. jm_get (xw_nodes w) k = Some n \<Longrightarrow> w_name n = k"
    and "jm_get (xw_nodes w) (w_name (ex_node e)) \<noteq> None"
    and "\<forall>k \<in> insert (w_name (ex_node e)) (ac_nodeName ` set acts). numberOfInputs w k \<le> 1"
    and "prepareRequestingNodeForResuming e \<noteq> None"
    and "handleEngineRequest w e ri acts st = (st', None)"
  shows "\<exists>requested resumed subs. x_stack st' = requested @ resumed # x_stack st
    \<and> map (\<lambda>r. w_name (ex_node r)) requested = map ac_nodeName acts
    \<and> w_name (ex_node resumed) = w_name (ex_node e) \<and> ex_runIndex resumed = Some ri \<and> wasResumed resumed
    \<and> map_option md_subNodeActions (ex_metadata resumed) = Some (Some subs)
    \<and> map sn_action subs = acts
    \<and> map (\<lambda>s. Some (sn_runIndex s)) subs = map ex_runIndex requested"
proof -
  obtain st1 r where prep: "prepareRequestedNodesForExecution w e ri acts st = (st1, r)" by fastforce
  then obtain entries subs where r: "r = Inr (entries, subs)"
    using assms(6) by (cases r) (auto simp: handleEngineRequest_def handleRequest_def)
  note es = prepareRequested_entries [OF prep [unfolded r]]
  obtain res where res: "prepareRequestingNodeForResuming e = Some res" using assms(5) by auto
  let ?resume = "resumeEntry e ri subs res"
  have direct: "list_all (directEntry w) (?resume # rev entries)"
  proof -
    have "dl_node (rq_delivery q) \<in> ac_nodeName ` set acts" if "q \<in> set entries" for q
      using es that by (metis (mono_tags, lifting) image_eqI image_set)
    then have "numberOfInputs w (dl_node (rq_delivery q)) \<le> 1" if "q \<in> set entries" for q
      using assms(4) that by blast
    moreover have "directEntry w ?resume"
      using assms(3,4) by (simp add: directEntry_def resumeEntry_def)
    ultimately show ?thesis using es by (auto simp: list_all_iff directEntry_def)
  qed
  have "handleEngineRequest w e ri acts st = addRequested w (?resume # rev entries) st1"
    using prep r res assms(1) by (simp add: handleEngineRequest_def handleRequest_def)
  then have "st' = foldl (\<lambda>s q. enqueueItem w (itemOfEntry w q) s) st1 (?resume # rev entries)"
    using assms(6) addRequested_direct [OF direct, of st1] by simp
  then have stack: "x_stack st' = map (itemOfEntry w) entries @ itemOfEntry w ?resume # x_stack st"
    using assms(1) es by (simp add: enqueue_all rev_map del: foldl_Cons)
  have name: "w_name (ex_node (itemOfEntry w q)) = dl_node (rq_delivery q)"
    if "jm_get (xw_nodes w) (dl_node (rq_delivery q)) \<noteq> None" for q
    using that assms(2) by (auto simp: itemOfEntry_def requestItem_def)
  have "map (\<lambda>q. w_name (ex_node (itemOfEntry w q))) entries = map (\<lambda>q. dl_node (rq_delivery q)) entries"
  proof (rule map_cong [OF refl])
    fix q assume "q \<in> set entries"
    then show "w_name (ex_node (itemOfEntry w q)) = dl_node (rq_delivery q)"
      using es name [of q] by (auto simp: list_all_iff)
  qed
  then have "map (\<lambda>r. w_name (ex_node r)) (map (itemOfEntry w) entries) = map ac_nodeName acts"
    using es by (simp add: comp_def)
  moreover have "map ex_runIndex (map (itemOfEntry w) entries) = map (\<lambda>s. Some (sn_runIndex s)) subs"
  proof -
    have "map Some (map rq_nodeRunIndex entries) = map Some (map sn_runIndex subs)" using es by simp
    then show ?thesis by (simp add: itemOfEntry_def requestItem_def comp_def)
  qed
  moreover have "w_name (ex_node (itemOfEntry w ?resume)) = w_name (ex_node e)"
    using name [of ?resume] assms(3) by (simp add: resumeEntry_def)
  moreover have "ex_runIndex (itemOfEntry w ?resume) = Some ri"
      "ex_metadata (itemOfEntry w ?resume) = Some (rq_metadata ?resume)"
      "md_nodeWasResumed (rq_metadata ?resume)" "md_subNodeActions (rq_metadata ?resume) = Some subs"
    by (simp_all add: itemOfEntry_def requestItem_def resumeEntry_def)
  ultimately show ?thesis using stack es
    by (intro exI [of _ "map (itemOfEntry w) entries"] exI [of _ "itemOfEntry w ?resume"] exI [of _ subs])
      (simp add: wasResumed_def)
qed

text \<open>An agent A, fed by T, asks for the tools X and Y.\<close>

definition agentWorkflow :: "string option \<Rightarrow> xworkflow" where
  "agentWorkflow order =
     \<lparr>xw_nodes = [(''T'', sampleNode ''T''), (''A'', sampleNode ''A''), (''X'', sampleNode ''X''),
                  (''Y'', sampleNode ''Y'')],
      xw_bySource = [(''T'', [(Main, [Some [mainTo ''A'' 0]])])],
      xw_byDestination = [(''A'', [(Main, [Some [mainTo ''T'' 0]])])],
      xw_executionOrder = order\<rparr>"

definition agentItem :: exec_item where
  "agentItem =
     \<lparr>ex_node = sampleNode ''A'', ex_data = [(Main, [Filled (itemsNamed ''q'')])],
      ex_source = Some [(Main, [Filled \<lparr>sd_previousNode = ''T'', sd_previousNodeOutput = 0,
                                        sd_previousNodeRun = 0\<rparr>])],
      ex_runIndex = None, ex_metadata = None\<rparr>"

definition askFor :: "string \<Rightarrow> engine_action" where
  "askFor k = \<lparr>ac_nodeName = k, ac_input = [], ac_type = AiTool, ac_id = k, ac_parentNodeName = None,
               ac_itemIndex = None\<rparr>"

definition asked :: "string option \<Rightarrow> exec_state" where
  "asked order = fst (handleEngineRequest (agentWorkflow order) agentItem 0 [askFor ''X'', askFor ''Y''] emptyState)"

theorem requests_run_in_order_witness:
  "stackNames (asked (Some ''v1'')) = [''X'', ''Y'', ''A'']
   \<and> wasResumed (last (x_stack (asked (Some ''v1''))))"
proof -
  let ?w = "agentWorkflow (Some ''v1'')" and ?acts = "[askFor ''X'', askFor ''Y'']"
  have named: "jm_get (xw_nodes ?w) k = Some n \<Longrightarrow> w_name n = k" for k n
    by (auto simp: agentWorkflow_def sampleNode_def split: if_splits)
  have "isV1 ?w" by code_simp
  moreover have "jm_get (xw_nodes ?w) (w_name (ex_node agentItem)) \<noteq> None" by code_simp
  moreover have "\<forall>k \<in> insert (w_name (ex_node agentItem)) (ac_nodeName ` set ?acts). numberOfInputs ?w k \<le> 1"
    by code_simp
  moreover have "prepareRequestingNodeForResuming agentItem \<noteq> None" by code_simp
  moreover have "snd (handleEngineRequest ?w agentItem 0 ?acts emptyState) = None" by code_simp
  then have "handleEngineRequest ?w agentItem 0 ?acts emptyState = (asked (Some ''v1''), None)"
    unfolding asked_def by (metis prod.collapse)
  ultimately obtain requested resumed where
      "x_stack (asked (Some ''v1'')) = requested @ resumed # x_stack emptyState" "wasResumed resumed"
    using requests_run_in_order [of ?w agentItem ?acts 0 emptyState] named by blast
  moreover have "x_stack emptyState = []" by code_simp
  ultimately have "wasResumed (last (x_stack (asked (Some ''v1''))))" by simp
  moreover have "stackNames (asked (Some ''v1'')) = [''X'', ''Y'', ''A'']" by code_simp
  ultimately show ?thesis by blast
qed

text \<open>
  In the legacy order the requesting node comes first: it resumes before its tools have run,
  with the tasks prepared for them. A node that was not started by another is ignored, but the
  tasks prepared for its tools stay. And the source is read at the run index, not at an input.
\<close>

theorem legacy_requests_resume_first: "stackNames (asked None) = [''A'', ''X'', ''Y'']"
  by code_simp

theorem ignored_requests_leave_tasks:
  "(let st = fst (handleEngineRequest (agentWorkflow (Some ''v1'')) (agentItem\<lparr>ex_source := None\<rparr>) 0
                   [askFor ''X''] emptyState)
    in x_stack st = [] \<and> length (tasksOf (x_runData st) ''X'') = 1)"
  by code_simp

theorem later_runs_lose_their_source:
  "map_option sd_previousNode (parentSourceData agentItem 0) = Some ''T'' \<and> parentSourceData agentItem 1 = None"
  by code_simp

text \<open>
  A resumed agent that is tried again gets the results of its tools once more: the array they
  are pushed to lives as long as the loop over the tries.
\<close>

definition resumedAgent :: exec_item where
  "resumedAgent =
     agentItem\<lparr>ex_node := (sampleNode ''A'')\<lparr>xn_retryOnFail := True\<rparr>,
       ex_metadata := Some \<lparr>md_nodeWasResumed = True,
         md_subNodeActions = Some [\<lparr>sn_action = askFor ''X'', sn_nodeName = ''X'', sn_runIndex = 0\<rparr>],
         md_preserveSourceOverwrite = False, md_preservedSourceOverwrite = None, md_resumeError = None,
         md_forwardAllOutputs = False\<rparr>\<rparr>"

text \<open>A node that throws when it is called first, and then returns an item for every response.\<close>

definition countResponses :: "nat \<Rightarrow> node_call \<Rightarrow> node_outcome" where
  "countResponses world call =
     (if world = 0 then Threw \<lparr>ne_name = ''E'', ne_message = ''first''\<rparr>
      else Returned (Some [Filled (replicate (length (nc_responses call)) emptyInput)]))"

definition afterTool :: exec_state where
  "afterTool = emptyState\<lparr>x_runData := [(''X'', [createTaskData 0 resumedAgent emptyState])]\<rparr>"

theorem retried_agents_get_responses_twice:
  "length (collectSubNodeResults resumedAgent (x_runData afterTool)) = 1
   \<and> (case tries (sampleEnv (agentWorkflow (Some ''v1'')) countResponses) resumedAgent 0
               (triesOf resumedAgent) [] None 0 afterTool of
        (world, st, outs, Done (Some outs')) \<Rightarrow> length (itemsAt outs' 0) = 2
      | _ \<Rightarrow> False)"
  by code_simp

section \<open>Errors of items\<close>

text \<open>(error output) Of a node that routes errors, the outputs before the last keep the items
  without an error, in order, and the last one gets the items with one, output by output, each
  replaced by what the item it comes from adds; the other outputs stay.\<close>

theorem error_items_get_their_own_output:
  assumes "handleNodeErrorOutput proxy mainOutputs e outs = Inr outs'" and "0 < mainOutputs"
  shows "(\<forall>i < mainOutputs - 1. sl_get outs' i = Filled (filter (\<lambda>it. \<not> isErrorItem it) (itemsAt outs i)))
    \<and> (\<exists>errs. sl_get outs' (mainOutputs - 1) = Filled errs \<and>
         list_all2 (\<lambda>it it'. errorItemOf proxy e it = Inr it')
           (concat (map (\<lambda>i. filter isErrorItem (itemsAt outs i)) [0..<mainOutputs - 1])) errs)
    \<and> (\<forall>i \<ge> mainOutputs. sl_get outs' i = sl_get outs i)"
proof -
  obtain errs outs1 where s: "splitOutputs proxy e [0..<mainOutputs - 1] [] outs = Inr (errs, outs1)"
      "outs' = sl_set outs1 (mainOutputs - 1) (Filled errs)"
    using assms by (auto simp: handleNodeErrorOutput_def rbind_Inr_iff)
  show ?thesis using splitOutputs_exact [OF s(1)] s(2) assms(2) by auto
qed

definition badItem :: item where
  "badItem = emptyInput\<lparr>i_json := [(''error'', JString ''bad'')]\<rparr>"

theorem error_items_get_their_own_output_witness:
  "handleNodeErrorOutput (\<lambda>_ _. Inr None) 2 agentItem [Filled [emptyInput, badItem, emptyInput]]
     = Inr [Filled [emptyInput, emptyInput], Filled [badItem]]
   \<and> sl_get (projr (handleNodeErrorOutput (\<lambda>_ _. Inr None) 2 agentItem [Filled [emptyInput, badItem, emptyInput]])) 0
     = Filled (filter (\<lambda>it. \<not> isErrorItem it) [emptyInput, badItem, emptyInput])"
proof
  let ?r = "handleNodeErrorOutput (\<lambda>_ _. Inr None) 2 agentItem [Filled [emptyInput, badItem, emptyInput]]"
  show "?r = Inr [Filled [emptyInput, emptyInput], Filled [badItem]]" by code_simp
  have "\<not> isl ?r" by code_simp
  then have "?r = Inr (projr ?r)" by (rule is_Inr)
  from error_items_get_their_own_output [OF this]
  have "sl_get (projr ?r) 0 = Filled (filter (\<lambda>it. \<not> isErrorItem it) (itemsAt [Filled [emptyInput, badItem, emptyInput]] 0))"
    by simp
  then show "sl_get (projr ?r) 0 = Filled (filter (\<lambda>it. \<not> isErrorItem it) [emptyInput, badItem, emptyInput])"
    by (simp add: itemsAt_def sl_get_def)
qed

end
