(* ===== verification/Subgraph.thy ===== *)
theory Subgraph
  imports GraphSearch
begin

text \<open>
  The two graph transformations a partial execution starts with:
  \<open>filterDisabledNodes\<close> (\<open>filter-disabled-nodes.ts\<close>) bridges the main connections over
  every disabled node, \<open>findSubgraph\<close> (\<open>find-subgraph.ts\<close>) keeps the branches that
  lead from the trigger to the destination and the utility nodes attached to them.
\<close>

section \<open>Disabled nodes\<close>

definition notMain :: "connection \<Rightarrow> bool" where
  "notMain c \<longleftrightarrow> c_type c \<noteq> Main"

definition dropDisabled :: "node \<Rightarrow> digraph \<Rightarrow> assertion + digraph" where
  "dropDisabled n g =
     (if n_disabled n then rbind (removeNode n True notMain g) (\<lambda>(g', _). Inr g') else Inr g)"

definition filterDisabledNodes :: "digraph \<Rightarrow> assertion + digraph" where
  "filterDisabledNodes g =
     rbind (clone g) (\<lambda>filtered. foldE dropDisabled (getNodes filtered) filtered)"

lemma main_relI: "c \<in> conns g \<Longrightarrow> c_type c = Main \<Longrightarrow> (c_from c, c_to c) \<in> main_rel g"
  by (auto simp: main_rel_def)

text \<open>Bridging over a node composes the main relation through it.\<close>

lemma removeNode_main_rel:
  assumes wf: "wf_graph g" and hf: "hyphen_free g" and n: "n \<in> members g"
    and noloop: "(n, n) \<notin> main_rel g"
  shows "\<exists>g' new. removeNode n True notMain g = Inr (g', new) \<and> wf_graph g' \<and> hyphen_free g'
    \<and> members g' = members g - {n}
    \<and> main_rel g' = {(a, b). a \<noteq> n \<and> b \<noteq> n \<and>
        ((a, b) \<in> main_rel g \<or> (a, n) \<in> main_rel g \<and> (n, b) \<in> main_rel g)}"
proof -
  have "\<forall>c \<in> conns g. \<not> notMain c \<longrightarrow> c_from c = n \<longrightarrow> c_to c \<noteq> n"
    using main_relI [of _ g] noloop by (force simp: notMain_def)
  from removeNode_reconnect [OF wf hf n this] obtain g' new where
    r: "removeNode n True notMain g = Inr (g', new)" "wf_graph g'" "hyphen_free g'"
      "members g' = members g - {n}"
      "set new = {bridge i j | i j. i \<in> conns g \<and> c_to i = n \<and> \<not> notMain i
                                     \<and> j \<in> conns g \<and> c_from j = n \<and> \<not> notMain j}"
      "conns g' = {c \<in> conns g. \<not> touches n c} \<union> set new"
    by (elim exE conjE) blast+
  have "(a, b) \<in> main_rel g' \<longleftrightarrow> a \<noteq> n \<and> b \<noteq> n \<and>
        ((a, b) \<in> main_rel g \<or> (a, n) \<in> main_rel g \<and> (n, b) \<in> main_rel g)" (is "?L \<longleftrightarrow> ?R") for a b
  proof
    assume ?L
    then obtain c where c: "c \<in> conns g'" "c_type c = Main" "a = c_from c" "b = c_to c"
      by (auto simp: main_rel_def)
    then consider "c \<in> conns g" "\<not> touches n c" | "c \<in> set new" using r(6) by auto
    then show ?R
    proof cases
      case 1
      with c show ?thesis by (auto simp: touches_def main_rel_def)
    next
      case 2
      then obtain i j where ij: "c = bridge i j" "i \<in> conns g" "c_to i = n" "\<not> notMain i"
          "j \<in> conns g" "c_from j = n" "\<not> notMain j" using r(5) by auto
      then have "(a, n) \<in> main_rel g" "(n, b) \<in> main_rel g"
        using main_relI [of i g] main_relI [of j g] c by (auto simp: notMain_def)
      with noloop show ?thesis by auto
    qed
  next
    assume R: ?R
    show ?L
    proof (cases "(a, b) \<in> main_rel g")
      case True
      then obtain c where c: "c \<in> conns g" "c_type c = Main" "a = c_from c" "b = c_to c"
        by (auto simp: main_rel_def)
      then have "c \<in> conns g'" using R r(6) by (auto simp: touches_def)
      with c main_relI [of c g'] show ?thesis by simp
    next
      case False
      with R have "(a, n) \<in> main_rel g" "(n, b) \<in> main_rel g" by auto
      then obtain i j where ij: "i \<in> conns g" "c_type i = Main" "c_from i = a" "c_to i = n"
          "j \<in> conns g" "c_type j = Main" "c_from j = n" "c_to j = b"
        by (auto simp: main_rel_def)
      then have "bridge i j \<in> set new" unfolding r(5) by (auto simp: notMain_def)
      then have "bridge i j \<in> conns g'" using r(6) by simp
      with main_relI [of "bridge i j" g'] ij show ?thesis by simp
    qed
  qed
  then have "main_rel g' = {(a, b). a \<noteq> n \<and> b \<noteq> n \<and>
        ((a, b) \<in> main_rel g \<or> (a, n) \<in> main_rel g \<and> (n, b) \<in> main_rel g)}" by auto
  with r show ?thesis by blast
qed

text \<open>
  The relation between two nodes that a chain of disabled nodes may lie between, and the
  graphs it can be computed on: no cycle of disabled nodes.
\<close>

definition disabled_rel :: "digraph \<Rightarrow> (node \<times> node) set" where
  "disabled_rel g = {(a, b) \<in> main_rel g. n_disabled a \<and> n_disabled b}"

lemma main_rel_members: "wf_graph g \<Longrightarrow> (a, b) \<in> main_rel g \<Longrightarrow> a \<in> members g \<and> b \<in> members g"
  using main_child_rel child_rel_members by blast

lemma compose_trancl:
  assumes "\<And>a b. (a, b) \<in> r' \<longleftrightarrow>
    a \<noteq> n \<and> b \<noteq> n \<and> ((a, b) \<in> r \<or> (a, n) \<in> r \<and> (n, b) \<in> r)"
  shows "r'\<^sup>+ \<subseteq> r\<^sup>+"
    and "(n, n) \<notin> r \<Longrightarrow> a \<noteq> n \<Longrightarrow> b \<noteq> n \<Longrightarrow> (a, b) \<in> r\<^sup>+ \<longleftrightarrow> (a, b) \<in> r'\<^sup>+"
proof -
  have "r' \<subseteq> r\<^sup>+"
  proof (intro subrelI)
    fix a b
    assume "(a, b) \<in> r'"
    with assms consider "(a, b) \<in> r" | "(a, n) \<in> r" "(n, b) \<in> r" by blast
    then show "(a, b) \<in> r\<^sup>+" by cases auto
  qed
  then show sub: "r'\<^sup>+ \<subseteq> r\<^sup>+"
    using trancl_mono [of _ r' "r\<^sup>+"] by auto
  assume loop: "(n, n) \<notin> r" and a: "a \<noteq> n" and b: "b \<noteq> n"
  show "(a, b) \<in> r\<^sup>+ \<longleftrightarrow> (a, b) \<in> r'\<^sup>+"
  proof
    assume "(a, b) \<in> r'\<^sup>+"
    then show "(a, b) \<in> r\<^sup>+" using sub by blast
  next
    have "(y \<noteq> n \<longrightarrow> (a, y) \<in> r'\<^sup>+) \<and> (y = n \<longrightarrow> (\<exists>x. (x = a \<or> (a, x) \<in> r'\<^sup>+) \<and> x \<noteq> n \<and> (x, n) \<in> r))"
      if "(a, y) \<in> r\<^sup>+" for y
      using that
    proof (induction rule: trancl_induct)
      case (base y)
      then show ?case using a assms by auto
    next
      case (step y z)
      show ?case
      proof (cases "y = n")
        case True
        then obtain x where x: "x = a \<or> (a, x) \<in> r'\<^sup>+" "x \<noteq> n" "(x, n) \<in> r" using step by blast
        have "z \<noteq> n" using step(2) True loop by auto
        then have "(x, z) \<in> r'" using assms x step(2) True by blast
        with x \<open>z \<noteq> n\<close> show ?thesis by (auto intro: trancl_into_trancl)
      next
        case False
        then have y: "(a, y) \<in> r'\<^sup>+" using step by blast
        show ?thesis
        proof (cases "z = n")
          case True
          then show ?thesis using y False step(2) by blast
        next
          case z: False
          then have "(y, z) \<in> r'" using assms False step(2) by blast
          with y z show ?thesis by (auto intro: trancl_into_trancl)
        qed
      qed
    qed
    then show "(a, b) \<in> r\<^sup>+ \<Longrightarrow> (a, b) \<in> r'\<^sup>+" using b by blast
  qed
qed

definition filter_inv :: "digraph \<Rightarrow> node set \<Rightarrow> digraph \<Rightarrow> bool" where
  "filter_inv g gone g' \<longleftrightarrow>
     wf_graph g' \<and> hyphen_free g' \<and> members g' = members g - gone \<and> acyclic (disabled_rel g') \<and>
     (\<forall>a b. a \<notin> gone \<longrightarrow> b \<notin> gone \<longrightarrow> ((a, b) \<in> (main_rel g)\<^sup>+ \<longleftrightarrow> (a, b) \<in> (main_rel g')\<^sup>+))"

lemma dropDisabled_step:
  assumes inv: "filter_inv g gone g'" and n: "n \<in> members g'" "n_disabled n"
  shows "\<exists>g''. dropDisabled n g' = Inr g'' \<and> filter_inv g (insert n gone) g''"
proof -
  have wf: "wf_graph g'" and hf: "hyphen_free g'" and ac: "acyclic (disabled_rel g')"
    and mem: "members g' = members g - gone"
    and reach: "\<And>a b. a \<notin> gone \<Longrightarrow> b \<notin> gone \<Longrightarrow>
      (a, b) \<in> (main_rel g)\<^sup>+ \<longleftrightarrow> (a, b) \<in> (main_rel g')\<^sup>+"
    using inv by (auto simp: filter_inv_def)
  have loop: "(n, n) \<notin> main_rel g'"
    using ac n(2) by (auto simp: acyclic_def disabled_rel_def)
  obtain g'' new where r: "removeNode n True notMain g' = Inr (g'', new)" "wf_graph g''"
      "hyphen_free g''" "members g'' = members g' - {n}"
      "main_rel g'' = {(a, b). a \<noteq> n \<and> b \<noteq> n \<and>
        ((a, b) \<in> main_rel g' \<or> (a, n) \<in> main_rel g' \<and> (n, b) \<in> main_rel g')}"
    using removeNode_main_rel [OF wf hf n(1) loop] by blast
  have rel: "\<And>a b. (a, b) \<in> main_rel g'' \<longleftrightarrow>
      a \<noteq> n \<and> b \<noteq> n \<and> ((a, b) \<in> main_rel g' \<or> (a, n) \<in> main_rel g' \<and> (n, b) \<in> main_rel g')"
    unfolding r(5) by blast
  have drel: "\<And>a b. (a, b) \<in> disabled_rel g'' \<longleftrightarrow>
      a \<noteq> n \<and> b \<noteq> n \<and> ((a, b) \<in> disabled_rel g' \<or> (a, n) \<in> disabled_rel g' \<and> (n, b) \<in> disabled_rel g')"
    using rel n(2) by (auto simp: disabled_rel_def)
  have "(disabled_rel g'')\<^sup>+ \<subseteq> (disabled_rel g')\<^sup>+"
    by (rule compose_trancl(1) [OF drel])
  then have "acyclic (disabled_rel g'')" using ac by (auto simp: acyclic_def)
  moreover have "(a, b) \<in> (main_rel g)\<^sup>+ \<longleftrightarrow> (a, b) \<in> (main_rel g'')\<^sup>+"
    if "a \<notin> insert n gone" "b \<notin> insert n gone" for a b
    using that reach [of a b] compose_trancl(2) [OF rel loop, of a b] by simp
  moreover have "dropDisabled n g' = Inr g''" using n(2) r(1) by (simp add: dropDisabled_def)
  ultimately show ?thesis using r(2-4) mem unfolding filter_inv_def by (intro exI [of _ g'']) auto
qed

lemma dropDisabled_loop:
  assumes "filter_inv g gone g'" and "set ns \<subseteq> members g'" and "distinct ns"
  shows "\<exists>g''. foldE dropDisabled ns g' = Inr g'' \<and>
    filter_inv g (gone \<union> {n \<in> set ns. n_disabled n}) g''"
  using assms
proof (induction ns arbitrary: gone g')
  case (Cons n ns)
  show ?case
  proof (cases "n_disabled n")
    case True
    obtain h where h: "dropDisabled n g' = Inr h" "filter_inv g (insert n gone) h"
      using dropDisabled_step [OF Cons.prems(1) _ True] Cons.prems(2) by auto
    have "members h = members g' - {n}"
      using h(2) Cons.prems(1) by (auto simp: filter_inv_def)
    then obtain k where "foldE dropDisabled ns h = Inr k"
        "filter_inv g (insert n gone \<union> {n \<in> set ns. n_disabled n}) k"
      using Cons.IH [OF h(2)] Cons.prems(2,3) by auto
    moreover have "insert n gone \<union> {n \<in> set ns. n_disabled n}
        = gone \<union> {m \<in> set (n # ns). n_disabled m}" using True by auto
    ultimately show ?thesis using h(1) by simp
  next
    case False
    then have "{m \<in> set (n # ns). n_disabled m} = {m \<in> set ns. n_disabled m}" by auto
    then show ?thesis using Cons False by (simp add: dropDisabled_def)
  qed
qed simp

lemma filterDisabledNodes_exact:
  assumes wf: "wf_graph g" and hf: "hyphen_free g" and ac: "acyclic (disabled_rel g)"
  shows "\<exists>g'. filterDisabledNodes g = Inr g' \<and> wf_graph g' \<and>
    members g' = {n \<in> members g. \<not> n_disabled n} \<and>
    (\<forall>a \<in> members g'. \<forall>b \<in> members g'. (a, b) \<in> (main_rel g')\<^sup>+ \<longleftrightarrow> (a, b) \<in> (main_rel g)\<^sup>+)"
proof -
  have "filter_inv g {} g" using assms by (simp add: filter_inv_def)
  moreover have "set (getNodes g) \<subseteq> members g" by (simp add: members_def)
  ultimately obtain g' where g': "foldE dropDisabled (getNodes g) g = Inr g'"
      "filter_inv g {n \<in> set (getNodes g). n_disabled n} g'"
    using dropDisabled_loop getNodes_distinct [OF wf] by fastforce
  then have "filterDisabledNodes g = Inr g'" by (simp add: filterDisabledNodes_def clone_same [OF wf])
  moreover have "wf_graph g'" "members g' = {n \<in> members g. \<not> n_disabled n}"
    using g'(2) by (auto simp: filter_inv_def members_def)
  moreover have "(a, b) \<in> (main_rel g')\<^sup>+ \<longleftrightarrow> (a, b) \<in> (main_rel g)\<^sup>+"
    if "a \<in> members g'" "b \<in> members g'" for a b
    using that g'(2) by (auto simp: filter_inv_def members_def)
  ultimately show ?thesis by blast
qed

section \<open>The branches from the trigger to the destination\<close>

definition keepConnection :: "connection \<Rightarrow> digraph \<Rightarrow> assertion + digraph" where
  "keepConnection c newGraph = addConnection (asInput c) (addNodes [c_from c, c_to c] newGraph)"

definition keepBranch :: "connection list \<Rightarrow> digraph \<Rightarrow> assertion + digraph" where
  "keepBranch = foldE keepConnection"

text \<open>
  The recursion of \<open>findSubgraphRecursive\<close>: every call adds a connection into a node the
  branch has not entered yet.
\<close>

function findSubgraphRecursive ::
  "digraph \<Rightarrow> node \<Rightarrow> node \<Rightarrow> node \<Rightarrow> digraph \<Rightarrow> connection list \<Rightarrow> assertion + digraph" where
  "findSubgraphRecursive g destination current trigger newGraph branch =
     (if current = trigger then keepBranch branch (addNode trigger newGraph)
      else rbind (getDirectParentConnections g current) (\<lambda>parentConnections.
        if parentConnections = [] then Inr newGraph
        else if current = destination \<and> (\<exists>c \<in> set branch. c_to c = destination) then Inr newGraph
        else if \<exists>c \<in> set branch. c_to c = current then keepBranch branch newGraph
        else foldE (\<lambda>p newGraph.
               if c_type p \<noteq> Main then Inr newGraph
               else findSubgraphRecursive g destination (c_from p) trigger newGraph (branch @ [p]))
             parentConnections newGraph))"
  by pat_completeness auto

termination findSubgraphRecursive
proof (relation "measure (\<lambda>(g, _, _, _, _, branch). card (c_to ` conns g - c_to ` set branch))",
    goal_cases)
  case (2 g destination current trigger newGraph branch ps p)
  have "p \<in> conns g" "c_to p = current" using getDirectParentConnections_InrD [OF 2(2)] 2(6) by auto
  then have "card (c_to ` conns g - c_to ` set (branch @ [p])) < card (c_to ` conns g - c_to ` set branch)"
    using 2(5) by (intro unseen_shrinks [where x = current]) auto
  then show ?case by simp
qed simp

declare findSubgraphRecursive.simps [simp del]

definition addUtilities :: "digraph \<Rightarrow> node \<Rightarrow> digraph \<Rightarrow> assertion + digraph" where
  "addUtilities g n subgraph =
     rbind (getParentConnections g n) (\<lambda>cs.
       foldE (\<lambda>c sub. if c_type c = Main then Inr sub else keepConnection c sub) cs subgraph)"

definition findSubgraph :: "digraph \<Rightarrow> node \<Rightarrow> node \<Rightarrow> assertion + digraph" where
  "findSubgraph g destination trigger =
     rbind (findSubgraphRecursive g destination destination trigger emptyGraph [])
       (\<lambda>subgraph. foldE (addUtilities g) (getNodes subgraph) subgraph)"

text \<open>Every graph on the way is a part of the input graph.\<close>

definition part_of :: "digraph \<Rightarrow> digraph \<Rightarrow> bool" where
  "part_of h g \<longleftrightarrow> wf_graph h \<and> members h \<subseteq> members g \<and> conns h \<subseteq> conns g"

lemma keepConnection_ok:
  assumes wf: "wf_graph g" and part: "part_of h g" and c: "c \<in> conns g"
  shows "\<exists>h'. keepConnection c h = Inr h' \<and> part_of h' g
    \<and> members h' = members h \<union> {c_from c, c_to c} \<and> conns h' = insert c (conns h)"
proof -
  have p: "wf_graph h" "members h \<subseteq> members g" "conns h \<subseteq> conns g" using part by (auto simp: part_of_def)
  have ends: "c_from c \<in> members g" "c_to c \<in> members g" using conn_ends [OF wf c] by auto
  let ?h = "addNodes [c_from c, c_to c] h"
  have h: "wf_graph ?h \<and> members ?h = members h \<union> {c_from c, c_to c} \<and> conns ?h = conns h"
    using wf_addNodes [OF p(1), of "[c_from c, c_to c]"] members_name_inj [OF wf] ends p(2)
    by (auto simp: subset_iff)
  then have run: "keepConnection c h = Inr (putConnection c ?h)"
    by (simp add: keepConnection_def addConnection_ok)
  have "{c' \<in> conns h. makeKey c' \<noteq> makeKey c} \<union> {c} = insert c (conns h)"
    using conns_keys_distinct [OF wf] c p(3) by (auto simp: inj_on_def)
  then have "conns (putConnection c ?h) = insert c (conns h)" "wf_graph (putConnection c ?h)"
    using wf_putConnection [of ?h c] h by auto
  then show ?thesis using run h p c ends by (auto simp: part_of_def)
qed

lemma keepBranch_ok:
  assumes wf: "wf_graph g" and "part_of h g" and "set cs \<subseteq> conns g"
  shows "\<exists>h'. keepBranch cs h = Inr h' \<and> part_of h' g
    \<and> members h' = members h \<union> c_from ` set cs \<union> c_to ` set cs \<and> conns h' = conns h \<union> set cs"
  using assms(2,3)
proof (induction cs arbitrary: h)
  case (Cons c cs)
  obtain k where k: "keepConnection c h = Inr k" "part_of k g"
      "members k = members h \<union> {c_from c, c_to c}" "conns k = insert c (conns h)"
    using keepConnection_ok [OF wf Cons.prems(1), of c] Cons.prems(2) by auto
  obtain h' where "keepBranch cs k = Inr h'" "part_of h' g"
      "members h' = members k \<union> c_from ` set cs \<union> c_to ` set cs" "conns h' = conns k \<union> set cs"
    using Cons.IH [OF k(2)] Cons.prems(2) by auto
  with k show ?case by (auto simp: keepBranch_def)
qed (simp add: keepBranch_def)

text \<open>A branch: main connections from \<open>x\<close> backwards to \<open>y\<close>.\<close>

fun backpath :: "digraph \<Rightarrow> node \<Rightarrow> connection list \<Rightarrow> node \<Rightarrow> bool" where
  "backpath g x [] y \<longleftrightarrow> x = y"
| "backpath g x (c # cs) y \<longleftrightarrow>
     c \<in> conns g \<and> c_type c = Main \<and> c_to c = x \<and> backpath g (c_from c) cs y"

lemma backpath_append: "backpath g x (cs @ ds) z \<longleftrightarrow> (\<exists>y. backpath g x cs y \<and> backpath g y ds z)"
  by (induction cs arbitrary: x) auto

lemma backpath_rtrancl: "backpath g x cs y \<Longrightarrow> (y, x) \<in> (main_rel g)\<^sup>*"
  by (induction cs arbitrary: x) (auto simp: main_rel_def intro: rtrancl_into_rtrancl)

lemma backpath_tos: "backpath g x cs y \<Longrightarrow> c \<in> set cs \<Longrightarrow> (c_to c, x) \<in> (main_rel g)\<^sup>*"
proof (induction cs arbitrary: x)
  case (Cons d cs)
  then consider "c = d" | "c \<in> set cs" by auto
  then show ?case
  proof cases
    case 2
    with Cons have "(c_to c, c_from d) \<in> (main_rel g)\<^sup>*" by auto
    with Cons.prems show ?thesis by (auto simp: main_rel_def intro: rtrancl_into_rtrancl)
  qed (use Cons.prems in simp)
qed simp

lemma backpath_conns: "backpath g x cs y \<Longrightarrow> set cs \<subseteq> {c \<in> conns g. c_type c = Main}"
  by (induction cs arbitrary: x) auto

lemma simple_backpath:
  assumes "(y, x) \<in> (main_rel g)\<^sup>*"
  shows "\<exists>cs. backpath g x cs y \<and> distinct (map c_to cs) \<and> y \<notin> c_to ` set cs"
  using assms
proof (induction rule: rtrancl_induct)
  case base
  show ?case by (rule exI [of _ "[]"]) simp
next
  case (step x z)
  then obtain cs where cs: "backpath g x cs y" "distinct (map c_to cs)" "y \<notin> c_to ` set cs" by blast
  obtain c where c: "c \<in> conns g" "c_type c = Main" "c_from c = x" "c_to c = z"
    using step(2) by (auto simp: main_rel_def)
  consider "z = y" | "z \<in> c_to ` set cs" | "z \<noteq> y" "z \<notin> c_to ` set cs" by blast
  then show ?case
  proof cases
    case 1
    then show ?thesis by (intro exI [of _ "[]"]) simp
  next
    case 2
    then obtain d us vs where d: "cs = us @ d # vs" "c_to d = z" by (auto dest!: split_list)
    with cs show ?thesis by (intro exI [of _ "d # vs"]) (auto simp: backpath_append)
  next
    case 3
    with c cs show ?thesis by (intro exI [of _ "c # cs"]) auto
  qed
qed

text \<open>What one call keeps: nothing but branches into its node, and nothing is lost.\<close>

definition keeps :: "digraph \<Rightarrow> node \<Rightarrow> digraph \<Rightarrow> digraph \<Rightarrow> bool" where
  "keeps g destination h h' \<longleftrightarrow>
     part_of h' g \<and> members h \<subseteq> members h' \<and> conns h \<subseteq> conns h' \<and>
     (\<forall>c \<in> conns h' - conns h. c_type c = Main \<and> (c_to c, destination) \<in> (main_rel g)\<^sup>*)"

lemma keeps_trans: "keeps g d h k \<Longrightarrow> keeps g d k l \<Longrightarrow> keeps g d h l"
  unfolding keeps_def by blast

lemma keeps_branch:
  assumes wf: "wf_graph g" and "part_of h g" and "backpath g d branch x"
  shows "\<exists>h'. keepBranch branch h = Inr h' \<and> keeps g d h h' \<and> set branch \<subseteq> conns h'"
proof -
  have sub: "set branch \<subseteq> conns g" using backpath_conns [OF assms(3)] by auto
  obtain h' where h': "keepBranch branch h = Inr h'" "part_of h' g"
      "members h' = members h \<union> c_from ` set branch \<union> c_to ` set branch" "conns h' = conns h \<union> set branch"
    using keepBranch_ok [OF wf assms(2) sub] by blast
  then have "keeps g d h h'"
    using backpath_conns [OF assms(3)] backpath_tos [OF assms(3)] unfolding keeps_def by auto
  then show ?thesis using h' by auto
qed

lemma keeps_refl: "part_of h g \<Longrightarrow> keeps g d h h"
  by (simp add: keeps_def)

lemma foldE_keeps:
  assumes "part_of h g"
    and "\<And>p k. p \<in> set ps \<Longrightarrow> part_of k g \<Longrightarrow> \<exists>h'. body p k = Inr h' \<and> keeps g d k h' \<and> Q p h'"
    and mono: "\<And>p k l. Q p k \<Longrightarrow> keeps g d k l \<Longrightarrow> Q p l"
  shows "\<exists>h'. foldE body ps h = Inr h' \<and> keeps g d h h' \<and> (\<forall>p \<in> set ps. Q p h')"
  using assms(1,2)
proof (induction ps arbitrary: h)
  case Nil
  then show ?case by (simp add: keeps_refl)
next
  case (Cons p ps)
  obtain k where k: "body p h = Inr k" "keeps g d h k" "Q p k"
    using Cons.prems(2) [of p h] Cons.prems(1) by auto
  then have "part_of k g" by (simp add: keeps_def)
  then obtain h' where "foldE body ps k = Inr h'" "keeps g d k h'" "\<forall>p \<in> set ps. Q p h'"
    using Cons.IH [of k] Cons.prems(2) by auto
  with k mono [OF k(3)] show ?case using keeps_trans [OF k(2)] by auto
qed

text \<open>Every simple branch on from the current node to the trigger ends up in the graph.\<close>

definition covers :: "digraph \<Rightarrow> node \<Rightarrow> node \<Rightarrow> connection list \<Rightarrow> digraph \<Rightarrow> bool" where
  "covers g trigger current branch h \<longleftrightarrow>
     (\<forall>cs. backpath g current cs trigger \<longrightarrow> distinct (map c_to cs) \<longrightarrow> trigger \<notin> c_to ` set cs \<longrightarrow>
        c_to ` set cs \<inter> c_to ` set branch = {} \<longrightarrow>
        trigger \<in> members h \<and> set branch \<union> set cs \<subseteq> conns h)"

lemma covers_mono: "covers g t x branch k \<Longrightarrow> keeps g d k l \<Longrightarrow> covers g t x branch l"
  unfolding covers_def keeps_def by blast

lemma covers_trigger: "trigger \<in> members h \<Longrightarrow> set branch \<subseteq> conns h \<Longrightarrow> covers g trigger trigger branch h"
  unfolding covers_def
proof (intro allI impI)
  fix cs
  assume "trigger \<in> members h" "set branch \<subseteq> conns h" "backpath g trigger cs trigger" "trigger \<notin> c_to ` set cs"
  then show "trigger \<in> members h \<and> set branch \<union> set cs \<subseteq> conns h" by (cases cs) auto
qed

lemma covers_visited:
  "current \<noteq> trigger \<Longrightarrow> \<exists>c \<in> set branch. c_to c = current \<Longrightarrow> covers g trigger current branch h"
  unfolding covers_def
proof (intro allI impI)
  fix cs
  assume "current \<noteq> trigger" "\<exists>c \<in> set branch. c_to c = current" "backpath g current cs trigger"
    "c_to ` set cs \<inter> c_to ` set branch = {}"
  then show "trigger \<in> members h \<and> set branch \<union> set cs \<subseteq> conns h" by (cases cs) auto
qed

lemma covers_step:
  assumes "current \<noteq> trigger"
    and "\<And>p. p \<in> conns g \<Longrightarrow> c_to p = current \<Longrightarrow> c_type p = Main \<Longrightarrow>
      covers g trigger (c_from p) (branch @ [p]) h"
  shows "covers g trigger current branch h"
  unfolding covers_def
proof (intro allI impI)
  fix cs
  assume cs: "backpath g current cs trigger" "distinct (map c_to cs)" "trigger \<notin> c_to ` set cs"
    "c_to ` set cs \<inter> c_to ` set branch = {}"
  with assms(1) obtain p cs' where p: "cs = p # cs'" "p \<in> conns g" "c_to p = current" "c_type p = Main"
      "backpath g (c_from p) cs' trigger" by (cases cs) auto
  have "trigger \<in> members h \<and> set (branch @ [p]) \<union> set cs' \<subseteq> conns h"
    using assms(2) [OF p(2-4)] cs p(1,5) unfolding covers_def by auto
  with p(1) show "trigger \<in> members h \<and> set branch \<union> set cs \<subseteq> conns h" by auto
qed

lemma part_of_addNode:
  assumes wf: "wf_graph g" and part: "part_of h g" and n: "n \<in> members g"
  shows "part_of (addNode n h) g" "members (addNode n h) = insert n (members h)"
proof -
  have "fits h n" using part members_name_inj [OF wf] n by (auto simp: fits_def part_of_def)
  then show "part_of (addNode n h) g" "members (addNode n h) = insert n (members h)"
    using part wf_addNode [of h n] n by (auto simp: part_of_def)
qed

lemma findSubgraphRecursive_ok:
  assumes "wf_graph g" and "current \<in> members g" and "trigger \<in> members g"
    and "part_of h g" and "backpath g destination branch current"
  shows "\<exists>h'. findSubgraphRecursive g destination current trigger h branch = Inr h' \<and>
    keeps g destination h h' \<and> covers g trigger current branch h'"
  using assms
proof (induction g destination current trigger h branch rule: findSubgraphRecursive.induct)
  case (1 g destination current trigger h branch)
  note wf = "1.prems"(1) and part = "1.prems"(4) and path = "1.prems"(5)
  obtain ps where ps: "getDirectParentConnections g current = Inr ps"
      "set ps = {c \<in> conns g. c_to c = current}"
    using getDirectParentConnections_set [OF wf "1.prems"(2)] .
  consider (trigger) "current = trigger"
    | (root) "current \<noteq> trigger" "ps = []"
    | (dest) "current \<noteq> trigger" "ps \<noteq> []" "current = destination"
        "\<exists>c \<in> set branch. c_to c = current"
    | (cycle) "current \<noteq> trigger" "ps \<noteq> []" "current \<noteq> destination"
        "\<exists>c \<in> set branch. c_to c = current"
    | (inner) "current \<noteq> trigger" "ps \<noteq> []" "\<not> (\<exists>c \<in> set branch. c_to c = current)"
    by blast
  then show ?case
  proof cases
    case trigger
    note add = part_of_addNode [OF wf part "1.prems"(3)]
    obtain h' where h': "keepBranch branch (addNode trigger h) = Inr h'"
        "keeps g destination (addNode trigger h) h'" "set branch \<subseteq> conns h'"
      using keeps_branch [OF wf add(1) path] by blast
    then have "keeps g destination h h'" "trigger \<in> members h'" using add(2) by (auto simp: keeps_def)
    with h' show ?thesis
      using trigger covers_trigger by (auto simp: findSubgraphRecursive.simps)
  next
    case root
    have "covers g trigger current branch h" by (rule covers_step) (use root ps(2) in auto)
    with root ps(1) show ?thesis by (simp add: findSubgraphRecursive.simps keeps_refl [OF part])
  next
    case dest
    with ps(1) covers_visited show ?thesis
      by (auto simp: findSubgraphRecursive.simps keeps_refl [OF part])
  next
    case cycle
    obtain h' where "keepBranch branch h = Inr h'" "keeps g destination h h'"
      using keeps_branch [OF wf part path] by blast
    with cycle ps(1) covers_visited show ?thesis by (auto simp: findSubgraphRecursive.simps)
  next
    case inner
    define body where "body = (\<lambda>p newGraph. if c_type p \<noteq> Main then Inr newGraph
       else findSubgraphRecursive g destination (c_from p) trigger newGraph (branch @ [p]))"
    define Q where "Q = (\<lambda>p h. c_type p = Main \<longrightarrow> covers g trigger (c_from p) (branch @ [p]) h)"
    have run: "findSubgraphRecursive g destination current trigger h branch = foldE body ps h"
      using inner ps(1) by (auto simp: findSubgraphRecursive.simps [of _ _ current] body_def)
    have call: "\<exists>h'. body p k = Inr h' \<and> keeps g destination k h' \<and> Q p h'"
      if p: "p \<in> set ps" and k: "part_of k g" for p k
    proof (cases "c_type p = Main")
      case True
      have pc: "p \<in> conns g" "c_to p = current" using p ps(2) by auto
      then have "backpath g destination (branch @ [p]) (c_from p)" "c_from p \<in> members g"
        using path True conn_ends [OF wf pc(1)] by (auto simp: backpath_append)
      moreover have "\<not> (current = destination \<and> (\<exists>c \<in> set branch. c_to c = destination))"
        using inner(3) by blast
      ultimately show ?thesis
        using "1.IH" [OF inner(1) ps(1) inner(2) _ inner(3) p, of k] True "1.prems"(1,3) k
        by (simp add: body_def Q_def)
    qed (use k in \<open>simp add: body_def Q_def keeps_refl\<close>)
    have "\<exists>h'. foldE body ps h = Inr h' \<and> keeps g destination h h' \<and> (\<forall>p \<in> set ps. Q p h')"
      by (rule foldE_keeps [OF part call]) (auto simp: Q_def dest: covers_mono)
    then obtain h' where h': "foldE body ps h = Inr h'" "keeps g destination h h'" "\<forall>p \<in> set ps. Q p h'"
      by blast
    have "covers g trigger current branch h'"
      by (rule covers_step [OF inner(1)]) (use h'(3) ps(2) in \<open>simp add: Q_def\<close>)
    with run h'(1,2) show ?thesis by simp
  qed
qed

section \<open>The subgraph\<close>

lemma addUtilities_ok:
  assumes wf: "wf_graph g" and n: "n \<in> members g" and part: "part_of h g"
  shows "\<exists>h'. addUtilities g n h = Inr h' \<and> part_of h' g \<and> members h \<subseteq> members h' \<and>
    conns h' = conns h \<union> {c \<in> conns g. c_type c \<noteq> Main \<and> (c_to c, n) \<in> (child_rel g)\<^sup>*}"
proof -
  obtain cs where cs: "getParentConnections g n = Inr cs"
      "set cs = {c \<in> conns g. (c_to c, n) \<in> (child_rel g)\<^sup>*}"
    using getParentConnections_exact [OF wf n] by blast
  have "\<exists>h'. foldE (\<lambda>c sub. if c_type c = Main then Inr sub else keepConnection c sub) ds h = Inr h' \<and>
      part_of h' g \<and> members h \<subseteq> members h' \<and> conns h' = conns h \<union> {c \<in> set ds. c_type c \<noteq> Main}"
    if "set ds \<subseteq> conns g" for ds
    using that part
  proof (induction ds arbitrary: h)
    case (Cons d ds)
    show ?case
    proof (cases "c_type d = Main")
      case True
      moreover have "{c \<in> set (d # ds). c_type c \<noteq> Main} = {c \<in> set ds. c_type c \<noteq> Main}" using True by auto
      ultimately show ?thesis using Cons by simp
    next
      case False
      obtain k where k: "keepConnection d h = Inr k" "part_of k g"
          "members k = members h \<union> {c_from d, c_to d}" "conns k = insert d (conns h)"
        using keepConnection_ok [OF wf Cons.prems(2), of d] Cons.prems(1) by auto
      have "{c \<in> set (d # ds). c_type c \<noteq> Main} = insert d {c \<in> set ds. c_type c \<noteq> Main}"
        using False by auto
      then show ?thesis using Cons.IH [OF _ k(2)] Cons.prems(1) k False by auto
    qed
  qed simp
  from this [of cs] cs show ?thesis by (auto simp: addUtilities_def)
qed

lemma addUtilities_loop:
  assumes wf: "wf_graph g" and "set ns \<subseteq> members g" and "part_of h g"
  shows "\<exists>h'. foldE (addUtilities g) ns h = Inr h' \<and> part_of h' g \<and> members h \<subseteq> members h' \<and>
    conns h' = conns h \<union> {c \<in> conns g. c_type c \<noteq> Main \<and> (\<exists>n \<in> set ns. (c_to c, n) \<in> (child_rel g)\<^sup>*)}"
  using assms(2,3)
proof (induction ns arbitrary: h)
  case (Cons n ns)
  obtain k where k: "addUtilities g n h = Inr k" "part_of k g" "members h \<subseteq> members k"
      "conns k = conns h \<union> {c \<in> conns g. c_type c \<noteq> Main \<and> (c_to c, n) \<in> (child_rel g)\<^sup>*}"
    using addUtilities_ok [OF wf _ Cons.prems(2), of n] Cons.prems(1) by auto
  obtain h' where "foldE (addUtilities g) ns k = Inr h'" "part_of h' g" "members k \<subseteq> members h'"
      "conns h' = conns k \<union> {c \<in> conns g. c_type c \<noteq> Main \<and> (\<exists>n \<in> set ns. (c_to c, n) \<in> (child_rel g)\<^sup>*)}"
    using Cons.IH [OF _ k(2)] Cons.prems(1) by auto
  with k show ?case by auto
qed simp

lemma findSubgraph_ok:
  assumes wf: "wf_graph g" and d: "destination \<in> members g" and t: "trigger \<in> members g"
  shows "\<exists>sub. findSubgraph g destination trigger = Inr sub \<and> part_of sub g
    \<and> (\<forall>c \<in> conns sub. c_type c = Main \<longrightarrow> (c_to c, destination) \<in> (main_rel g)\<^sup>*)
    \<and> (\<forall>cs. backpath g destination cs trigger \<longrightarrow> distinct (map c_to cs) \<longrightarrow> trigger \<notin> c_to ` set cs \<longrightarrow>
         trigger \<in> members sub \<and> set cs \<subseteq> conns sub)"
proof -
  have e: "part_of emptyGraph g" by (simp add: part_of_def)
  obtain h where h: "findSubgraphRecursive g destination destination trigger emptyGraph [] = Inr h"
      "keeps g destination emptyGraph h" "covers g trigger destination [] h"
    using findSubgraphRecursive_ok [OF wf d t e, of destination "[]"] by auto
  have part: "part_of h g" and main: "\<forall>c \<in> conns h. c_type c = Main \<and> (c_to c, destination) \<in> (main_rel g)\<^sup>*"
    using h(2) by (auto simp: keeps_def)
  have "set (getNodes h) \<subseteq> members g" using part by (auto simp: part_of_def members_def)
  then obtain sub where sub: "foldE (addUtilities g) (getNodes h) h = Inr sub" "part_of sub g"
      "members h \<subseteq> members sub"
      "conns sub = conns h \<union> {c \<in> conns g. c_type c \<noteq> Main \<and> (\<exists>n \<in> set (getNodes h). (c_to c, n) \<in> (child_rel g)\<^sup>*)}"
    using addUtilities_loop [OF wf _ part] by blast
  have "findSubgraph g destination trigger = Inr sub" by (simp add: findSubgraph_def h(1) sub(1))
  moreover have "\<forall>c \<in> conns sub. c_type c = Main \<longrightarrow> (c_to c, destination) \<in> (main_rel g)\<^sup>*"
    using main sub(4) by auto
  moreover have "trigger \<in> members sub \<and> set cs \<subseteq> conns sub"
    if "backpath g destination cs trigger" "distinct (map c_to cs)" "trigger \<notin> c_to ` set cs" for cs
    using h(3) that sub(3,4) unfolding covers_def by auto
  ultimately show ?thesis using sub(2) by blast
qed

text \<open>The destination stays reachable from the trigger.\<close>

lemma findSubgraph_connected:
  assumes wf: "wf_graph g" and d: "destination \<in> members g" and t: "trigger \<in> members g"
    and path: "(trigger, destination) \<in> (main_rel g)\<^sup>*"
  shows "\<exists>sub. findSubgraph g destination trigger = Inr sub \<and> part_of sub g
    \<and> trigger \<in> members sub \<and> destination \<in> members sub
    \<and> (trigger, destination) \<in> (main_rel sub)\<^sup>*
    \<and> (\<forall>c \<in> conns sub. c_type c = Main \<longrightarrow> (c_to c, destination) \<in> (main_rel g)\<^sup>*)"
proof -
  obtain cs where cs: "backpath g destination cs trigger" "distinct (map c_to cs)" "trigger \<notin> c_to ` set cs"
    using simple_backpath [OF path] by blast
  obtain sub where sub: "findSubgraph g destination trigger = Inr sub" "part_of sub g"
      "\<forall>c \<in> conns sub. c_type c = Main \<longrightarrow> (c_to c, destination) \<in> (main_rel g)\<^sup>*"
      "trigger \<in> members sub" "set cs \<subseteq> conns sub"
    using findSubgraph_ok [OF wf d t] cs by blast
  have "backpath sub x ds y" if "backpath g x ds y" "set ds \<subseteq> conns sub" for x ds y
    using that by (induction ds arbitrary: x) auto
  then have p: "backpath sub destination cs trigger" using cs(1) sub(5) by blast
  then have reach: "(trigger, destination) \<in> (main_rel sub)\<^sup>*" by (rule backpath_rtrancl)
  have "destination \<in> members sub"
    using p sub(2,4) conn_ends [of sub] by (cases cs) (auto simp: part_of_def)
  with sub reach show ?thesis by blast
qed

end
