(* ===== verification/StartNodes.thy ===== *)
theory StartNodes
  imports RunData
begin

text \<open>
  \<open>find-start-nodes.ts\<close>: the nodes a partial execution starts from, the first node on
  every branch from the trigger that has to run again. Following a branch stops at a
  dirty node, at the destination, and at a loop node whose loop has not finished; a
  connection is followed when its output has run data or its source is pinned.
\<close>

section \<open>The search\<close>

definition isALoop :: "digraph \<Rightarrow> node \<Rightarrow> assertion + bool" where
  "isALoop g n = rbind (getChildren g n) (\<lambda>children. Inr (n \<in> set children))"

definition splitInBatches :: string where
  "splitInBatches = ''n8n-nodes-base.splitInBatches''"

definition isUnfinishedLoop :: "digraph \<Rightarrow> run_data \<Rightarrow> node \<Rightarrow> assertion + bool" where
  "isUnfinishedLoop g runData n =
     (if n_type n = splitInBatches
      then rbind (isALoop g n) (\<lambda>loop.
             Inr (case getIncomingData runData (n_name n) (- 1) Main (if loop then 0 else 1) of
                    None \<Rightarrow> True
                  | Some nodeRunData \<Rightarrow> nodeRunData = []))
      else Inr False)"

definition isFollowed :: "run_data \<Rightarrow> pin_data \<Rightarrow> connection \<Rightarrow> bool" where
  "isFollowed runData pinData c =
     (let nodeRunData = getIncomingDataFromAnyRun runData (n_name (c_from c)) (c_type c)
                          (int (c_outputIndex c));
          hasNoRunData = (case nodeRunData of None \<Rightarrow> True | Some (d, _) \<Rightarrow> d = []);
          hasNoPinnedData = (jm_get pinData (n_name (c_from c)) = None)
      in \<not> (hasNoRunData \<and> hasNoPinnedData))"

function findStartNodesRecursive ::
  "digraph \<Rightarrow> node \<Rightarrow> node \<Rightarrow> run_data \<Rightarrow> pin_data \<Rightarrow> node list \<Rightarrow> node list \<Rightarrow> assertion + node list" where
  "findStartNodesRecursive g current destination runData pinData startNodes seen =
     (if isDirty current runData pinData then Inr (set_add current startNodes)
      else if current = destination then Inr (set_add current startNodes)
      else rbind (isUnfinishedLoop g runData current) (\<lambda>unfinished.
        if unfinished then Inr (set_add current startNodes)
        else if current \<in> set seen then Inr startNodes
        else rbind (getDirectChildConnections g current) (\<lambda>outGoingConnections.
          foldE (\<lambda>c startNodes.
            if \<not> isFollowed runData pinData c then Inr startNodes
            else findStartNodesRecursive g (c_to c) destination runData pinData startNodes
                   (set_add current seen))
            outGoingConnections startNodes)))"
  by pat_completeness auto

termination findStartNodesRecursive
proof (relation "measure (\<lambda>(g, _, _, _, _, _, seen). card (c_from ` conns g - set seen))", goal_cases)
  case (2 g current destination runData pinData startNodes seen unfinished cs c)
  then have "c \<in> conns g" "c_from c = current" using getDirectChildConnections_InrD by blast+
  then have "card (c_from ` conns g - set (set_add current seen)) < card (c_from ` conns g - set seen)"
    using 2 by (intro unseen_shrinks [where x = current]) auto
  then show ?case by simp
qed simp

declare findStartNodesRecursive.simps [simp del]

definition findStartNodes ::
  "digraph \<Rightarrow> node \<Rightarrow> node \<Rightarrow> run_data \<Rightarrow> pin_data \<Rightarrow> assertion + node list" where
  "findStartNodes g trigger destination runData pinData =
     findStartNodesRecursive g trigger destination runData pinData [] []"

section \<open>What it finds\<close>

definition stopsAt :: "digraph \<Rightarrow> node \<Rightarrow> run_data \<Rightarrow> pin_data \<Rightarrow> node \<Rightarrow> bool" where
  "stopsAt g destination runData pinData n \<longleftrightarrow>
     isDirty n runData pinData \<or> n = destination \<or> isUnfinishedLoop g runData n = Inr True"

definition passed_rel :: "digraph \<Rightarrow> node \<Rightarrow> run_data \<Rightarrow> pin_data \<Rightarrow> (node \<times> node) set" where
  "passed_rel g destination runData pinData =
     {(c_from c, c_to c) | c. c \<in> conns g \<and> isFollowed runData pinData c
                              \<and> \<not> stopsAt g destination runData pinData (c_from c)}"

text \<open>A path can be taken without coming back to where it began.\<close>

lemma leave_once:
  "(x, y) \<in> r\<^sup>* \<Longrightarrow> y = x \<or> (\<exists>d. (x, d) \<in> r \<and> (d, y) \<in> {(a, b) \<in> r. a \<noteq> x}\<^sup>*)"
proof (induction rule: rtrancl_induct)
  case (step y z)
  show ?case
  proof (cases "y = x")
    case True
    with step(2) show ?thesis by blast
  next
    case False
    with step obtain d where d: "(x, d) \<in> r" "(d, y) \<in> {(a, b) \<in> r. a \<noteq> x}\<^sup>*" by blast
    moreover have "(y, z) \<in> {(a, b) \<in> r. a \<noteq> x}" using step(2) False by simp
    ultimately show ?thesis by (meson rtrancl.rtrancl_into_rtrancl)
  qed
qed simp

definition avoiding :: "'a set \<Rightarrow> ('a \<times> 'a) set \<Rightarrow> ('a \<times> 'a) set" where
  "avoiding S r = {(a, b) \<in> r. a \<notin> S}"

lemma avoiding_leave:
  assumes "x \<notin> S"
  shows "(x, y) \<in> (avoiding S r)\<^sup>* \<longleftrightarrow> y = x \<or> (\<exists>d. (x, d) \<in> r \<and> (d, y) \<in> (avoiding (insert x S) r)\<^sup>*)"
proof
  have eq: "{(a, b) \<in> avoiding S r. a \<noteq> x} = avoiding (insert x S) r" by (auto simp: avoiding_def)
  assume "(x, y) \<in> (avoiding S r)\<^sup>*"
  from leave_once [OF this] show "y = x \<or> (\<exists>d. (x, d) \<in> r \<and> (d, y) \<in> (avoiding (insert x S) r)\<^sup>*)"
    unfolding eq by (auto simp: avoiding_def)
next
  have "avoiding (insert x S) r \<subseteq> avoiding S r" by (auto simp: avoiding_def)
  then have up: "(avoiding (insert x S) r)\<^sup>* \<subseteq> (avoiding S r)\<^sup>*" by (rule rtrancl_mono)
  assume "y = x \<or> (\<exists>d. (x, d) \<in> r \<and> (d, y) \<in> (avoiding (insert x S) r)\<^sup>*)"
  then show "(x, y) \<in> (avoiding S r)\<^sup>*"
  proof
    assume "\<exists>d. (x, d) \<in> r \<and> (d, y) \<in> (avoiding (insert x S) r)\<^sup>*"
    then obtain d where "(x, d) \<in> avoiding S r" "(d, y) \<in> (avoiding S r)\<^sup>*"
      using assms up by (auto simp: avoiding_def)
    then show ?thesis by (rule converse_rtrancl_into_rtrancl)
  qed simp
qed

lemma avoiding_stuck: "x \<in> S \<or> (\<forall>y. (x, y) \<notin> r) \<Longrightarrow> (x, y) \<in> (avoiding S r)\<^sup>* \<longleftrightarrow> y = x"
  by (auto simp: avoiding_def elim: converse_rtranclE)

lemma foldE_collect:
  assumes "\<And>x acc. x \<in> set xs \<Longrightarrow>
      \<exists>acc'. f x acc = Inr acc' \<and> set acc' = set acc \<union> F x \<and> (distinct acc \<longrightarrow> distinct acc')"
  shows "\<exists>acc'. foldE f xs acc = Inr acc' \<and> set acc' = set acc \<union> (\<Union>x \<in> set xs. F x)
    \<and> (distinct acc \<longrightarrow> distinct acc')"
  using assms
proof (induction xs arbitrary: acc)
  case (Cons x xs)
  obtain mid where mid: "f x acc = Inr mid" "set mid = set acc \<union> F x" "distinct acc \<longrightarrow> distinct mid"
    using Cons.prems [of x acc] by auto
  then obtain acc' where "foldE f xs mid = Inr acc'" "set acc' = set mid \<union> (\<Union>x \<in> set xs. F x)"
      "distinct mid \<longrightarrow> distinct acc'" using Cons.IH [of mid] Cons.prems by auto
  with mid show ?case by auto
qed simp

lemma isUnfinishedLoop_total:
  assumes "wf_graph g" and "n \<in> members g"
  shows "\<exists>b. isUnfinishedLoop g rd n = Inr b"
  using getChildren_exact [OF assms] by (auto simp: isUnfinishedLoop_def isALoop_def)

lemma findStartNodesRecursive_exact:
  assumes "wf_graph g" and "current \<in> members g"
  shows "\<exists>ns. findStartNodesRecursive g current destination rd pd startNodes seen = Inr ns \<and>
    set ns = set startNodes \<union>
      {n. (current, n) \<in> (avoiding (set seen) (passed_rel g destination rd pd))\<^sup>*
          \<and> stopsAt g destination rd pd n} \<and> (distinct startNodes \<longrightarrow> distinct ns)"
  using assms
proof (induction g current destination rd pd startNodes seen rule: findStartNodesRecursive.induct)
  case (1 g current destination rd pd startNodes seen)
  let ?r = "passed_rel g destination rd pd" and ?stop = "stopsAt g destination rd pd"
  obtain u where u: "isUnfinishedLoop g rd current = Inr u"
    using isUnfinishedLoop_total [OF "1.prems"] by blast
  consider (stop) "?stop current" | (seen) "\<not> ?stop current" "current \<in> set seen"
    | (inner) "\<not> ?stop current" "current \<notin> set seen" by blast
  then show ?case
  proof cases
    case stop
    then have "findStartNodesRecursive g current destination rd pd startNodes seen
        = Inr (set_add current startNodes)"
      using u by (auto simp: findStartNodesRecursive.simps [of g current] stopsAt_def)
    moreover have "{n. (current, n) \<in> (avoiding (set seen) ?r)\<^sup>* \<and> ?stop n} = {current}"
      using stop avoiding_stuck [of current "set seen" ?r] by (auto simp: passed_rel_def)
    ultimately show ?thesis by simp
  next
    case seen
    then have "findStartNodesRecursive g current destination rd pd startNodes seen = Inr startNodes"
      using u by (auto simp: findStartNodesRecursive.simps [of g current] stopsAt_def)
    moreover have "{n. (current, n) \<in> (avoiding (set seen) ?r)\<^sup>* \<and> ?stop n} = {}"
      using seen avoiding_stuck [of current "set seen" ?r] by auto
    ultimately show ?thesis by (simp only: Un_empty_right) simp
  next
    case inner
    then have cond: "\<not> isDirty current rd pd" "current \<noteq> destination" "u = False"
      using u by (auto simp: stopsAt_def)
    obtain cs where cs: "getDirectChildConnections g current = Inr cs"
        "set cs = {c \<in> conns g. c_from c = current}"
      using getDirectChildConnections_set [OF "1.prems"] .
    let ?F = "\<lambda>c. if isFollowed rd pd c
        then {n. (c_to c, n) \<in> (avoiding (set (set_add current seen)) ?r)\<^sup>* \<and> ?stop n} else {}"
    define body where "body = (\<lambda>c startNodes. if \<not> isFollowed rd pd c then Inr startNodes
        else findStartNodesRecursive g (c_to c) destination rd pd startNodes (set_add current seen))"
    have "\<exists>acc'. body c acc = Inr acc' \<and> set acc' = set acc \<union> ?F c \<and> (distinct acc \<longrightarrow> distinct acc')"
      if c: "c \<in> set cs" for c acc
    proof (cases "isFollowed rd pd c")
      case True
      have "c_to c \<in> members g" using c cs(2) conn_ends [OF "1.prems"(1)] by auto
      then show ?thesis
        using "1.IH" [OF cond(1,2) u _ inner(2) cs(1) c, of acc] True "1.prems"(1) cond(3)
        by (simp add: body_def)
    qed (simp add: body_def)
    from foldE_collect [of cs body ?F startNodes, OF this] obtain ns where
      ns: "foldE body cs startNodes = Inr ns" "set ns = set startNodes \<union> (\<Union>c \<in> set cs. ?F c)"
        "distinct startNodes \<longrightarrow> distinct ns" by blast
    have "(\<Union>c \<in> set cs. ?F c) = {n. (current, n) \<in> (avoiding (set seen) ?r)\<^sup>* \<and> ?stop n}"
    proof (intro set_eqI iffI)
      fix n
      assume "n \<in> (\<Union>c \<in> set cs. ?F c)"
      then obtain c where c: "c \<in> set cs" "isFollowed rd pd c" "?stop n"
          "(c_to c, n) \<in> (avoiding (insert current (set seen)) ?r)\<^sup>*" by (auto split: if_splits)
      then have "(current, c_to c) \<in> ?r" using cs(2) inner(1) by (auto simp: passed_rel_def)
      with c avoiding_leave [OF inner(2)] show "n \<in> {n. (current, n) \<in> (avoiding (set seen) ?r)\<^sup>* \<and> ?stop n}"
        by auto
    next
      fix n
      assume "n \<in> {n. (current, n) \<in> (avoiding (set seen) ?r)\<^sup>* \<and> ?stop n}"
      then have n: "(current, n) \<in> (avoiding (set seen) ?r)\<^sup>*" "?stop n" by auto
      then obtain d where d: "(current, d) \<in> ?r" "(d, n) \<in> (avoiding (insert current (set seen)) ?r)\<^sup>*"
        using avoiding_leave [OF inner(2), of n ?r] inner(1) by auto
      then obtain c where "c \<in> conns g" "c_from c = current" "c_to c = d" "isFollowed rd pd c"
        by (auto simp: passed_rel_def)
      with cs(2) d(2) n(2) show "n \<in> (\<Union>c \<in> set cs. ?F c)" by auto
    qed
    moreover have "findStartNodesRecursive g current destination rd pd startNodes seen = foldE body cs startNodes"
      using cond u inner(2) cs(1) by (simp add: findStartNodesRecursive.simps [of g current] body_def)
    ultimately show ?thesis using ns by simp
  qed
qed

lemma findStartNodes_exact:
  assumes "wf_graph g" and "trigger \<in> members g"
  shows "\<exists>ns. findStartNodes g trigger destination rd pd = Inr ns \<and> distinct ns \<and>
    set ns = {n. (trigger, n) \<in> (passed_rel g destination rd pd)\<^sup>* \<and> stopsAt g destination rd pd n}"
  using findStartNodesRecursive_exact [OF assms, of destination rd pd "[]" "[]"]
  by (auto simp add: findStartNodes_def avoiding_def)

lemma passed_rel_child: "passed_rel g d rd pd \<subseteq> child_rel g"
  by (auto simp: passed_rel_def child_rel_def)

lemma findStartNodes_reachable:
  assumes "wf_graph g" and "trigger \<in> members g" and "findStartNodes g trigger destination rd pd = Inr ns"
    and "n \<in> set ns"
  shows "(trigger, n) \<in> (child_rel g)\<^sup>*" "n \<in> members g"
proof -
  have "(trigger, n) \<in> (passed_rel g destination rd pd)\<^sup>*"
    using findStartNodes_exact [OF assms(1,2)] assms(3,4) by force
  then show "(trigger, n) \<in> (child_rel g)\<^sup>*" using rtrancl_mono [OF passed_rel_child] by blast
  then show "n \<in> members g" using assms(2) child_trancl_members [OF assms(1)] by (metis rtranclD)
qed

end
