(* ===== verification/GraphDfs.thy ===== *)
theory GraphDfs
  imports GraphSearch
begin

text \<open>
  \<open>depthFirstSearch\<close> of \<open>directed-graph.ts\<close>: like \<open>Array.find\<close>, over the nodes
  reachable from a node. The loop runs over the children of a node and threads the set of
  nodes seen; the recursion on one child is the loop on a one-element list.
\<close>

function dfsLoop ::
  "digraph \<Rightarrow> (node \<Rightarrow> bool) \<Rightarrow> node list \<Rightarrow> node list \<Rightarrow> assertion + node option \<times> node list" where
  "dfsLoop g fn [] seen = Inr (None, seen)"
| "dfsLoop g fn (n # ns) seen =
     (if n \<in> set seen then dfsLoop g fn ns seen
      else if fn n then Inr (Some n, seen @ [n])
      else rbind (rbind (getDirectChildConnections g n)
                        (\<lambda>cs. dfsLoop g fn (map c_to cs) (seen @ [n])))
                 (\<lambda>r. case r of
                        (Some m, seen') \<Rightarrow> Inr (Some m, seen')
                      | (None, seen') \<Rightarrow> dfsLoop g fn ns seen'))"
  by pat_completeness auto

lemma dfsLoop_grows:
  "dfsLoop_dom (g, fn, ns, seen) \<Longrightarrow> dfsLoop g fn ns seen = Inr (r, seen') \<Longrightarrow> set seen \<subseteq> set seen'"
proof (induction g fn ns seen arbitrary: r seen' rule: dfsLoop.pinduct)
  case (2 g fn n ns seen)
  show ?case
  proof (cases "n \<in> set seen \<or> fn n")
    case True
    with 2 show ?thesis by (auto simp: dfsLoop.psimps split: if_splits)
  next
    case False
    with "2.hyps" "2.prems" obtain cs q mid where
      r: "getDirectChildConnections g n = Inr cs" "dfsLoop g fn (map c_to cs) (seen @ [n]) = Inr (q, mid)"
        "(case q of Some m \<Rightarrow> Inr (Some m, mid) | None \<Rightarrow> dfsLoop g fn ns mid) = Inr (r, seen')"
      by (auto simp: dfsLoop.psimps rbind_Inr_iff split: option.splits)
    have "set (seen @ [n]) \<subseteq> set mid" using "2.IH"(2) False r(1,2) by blast
    moreover have "set mid \<subseteq> set seen'"
    proof (cases q)
      case None
      have "rbind (getDirectChildConnections g n) (\<lambda>cs. dfsLoop g fn (map c_to cs) (seen @ [n]))
          = Inr (None, mid)" using r(1,2) None by simp
      then show ?thesis using "2.IH"(3) False None r(3) by auto
    qed (use r(3) in simp)
    ultimately show ?thesis by auto
  qed
qed (simp add: dfsLoop.psimps)

termination dfsLoop
proof (relation "measures [\<lambda>(g, fn, ns, seen). card (c_to ` conns g \<union> set ns - set seen),
                           \<lambda>(g, fn, ns, seen). length ns]", goal_cases)
  case (2 g fn n ns seen)
  have "card (c_to ` conns g \<union> set ns - set seen) \<le> card (c_to ` conns g \<union> set (n # ns) - set seen)"
    by (rule unseen_mono) auto
  then show ?case by (auto simp: le_less)
next
  case (3 g fn n ns seen cs)
  then have "c_to ` conns g \<union> set (map c_to cs) \<subseteq> c_to ` conns g \<union> set (n # ns)"
    by (auto dest: getDirectChildConnections_InrD)
  then have "card (c_to ` conns g \<union> set (map c_to cs) - set (seen @ [n]))
      < card (c_to ` conns g \<union> set (n # ns) - set seen)"
    using 3 by (intro unseen_shrinks [where x = n]) auto
  then show ?case by simp
next
  case (4 g fn n ns seen a x y)
  then have "\<exists>cs. getDirectChildConnections g n = Inr cs
      \<and> dfsLoop g fn (map c_to cs) (seen @ [n]) = Inr (None, y)"
    by (auto simp: rbind_Inr_iff)
  then obtain cs where cs: "getDirectChildConnections g n = Inr cs"
      "dfsLoop g fn (map c_to cs) (seen @ [n]) = Inr (None, y)" by blast
  from dfsLoop_grows [OF 4(6) [OF cs(1)] cs(2)] have "insert n (set seen) \<subseteq> set y" by simp
  then have "card (c_to ` conns g \<union> set ns - set y) < card (c_to ` conns g \<union> set (n # ns) - set seen)"
    using 4 by (intro unseen_shrinks [where x = n]) auto
  then show ?case by simp
qed simp

lemma dfsLoop_skip: "n \<in> set seen \<Longrightarrow> dfsLoop g fn (n # ns) seen = dfsLoop g fn ns seen"
  and dfsLoop_hit: "n \<notin> set seen \<Longrightarrow> fn n \<Longrightarrow> dfsLoop g fn (n # ns) seen = Inr (Some n, seen @ [n])"
  by simp_all

declare dfsLoop.simps(2) [simp del]

definition depthFirstSearch :: "digraph \<Rightarrow> node \<Rightarrow> (node \<Rightarrow> bool) \<Rightarrow> assertion + node option" where
  "depthFirstSearch g start fn = rbind (dfsLoop g fn [start] []) (\<lambda>(found, _). Inr found)"

section \<open>What the search finds\<close>

lemma dfsLoop_new_cases:
  assumes "dfsLoop g fn (n # ns) seen = Inr (r, seen')" and "n \<notin> set seen" and "\<not> fn n"
  obtains cs q mid where "getDirectChildConnections g n = Inr cs"
    "dfsLoop g fn (map c_to cs) (seen @ [n]) = Inr (q, mid)"
    "q \<noteq> None \<and> r = q \<and> seen' = mid \<or> q = None \<and> dfsLoop g fn ns mid = Inr (r, seen')"
proof -
  from assms obtain cs q mid where "getDirectChildConnections g n = Inr cs"
      "dfsLoop g fn (map c_to cs) (seen @ [n]) = Inr (q, mid)"
      "(case q of Some m \<Rightarrow> Inr (Some m, mid) | None \<Rightarrow> dfsLoop g fn ns mid) = Inr (r, seen')"
    by (auto simp: dfsLoop.simps(2) rbind_Inr_iff split: option.splits)
  then show thesis by (intro that [of cs q mid]) (auto split: option.splits)
qed

lemma dfsLoop_seen_grows: "dfsLoop g fn ns seen = Inr (r, seen') \<Longrightarrow> set seen \<subseteq> set seen'"
proof (induction g fn ns seen arbitrary: r seen' rule: dfsLoop.induct)
  case (2 g fn n ns seen)
  consider (skip) "n \<in> set seen" | (hit) "n \<notin> set seen" "fn n" | (new) "n \<notin> set seen" "\<not> fn n"
    by blast
  then show ?case
  proof cases
    case skip
    then show ?thesis using "2.IH"(1) "2.prems" by (simp add: dfsLoop_skip)
  next
    case hit
    with "2.prems" show ?thesis by (auto simp: dfsLoop_hit)
  next
    case new
    then obtain cs q mid where r: "getDirectChildConnections g n = Inr cs"
        "dfsLoop g fn (map c_to cs) (seen @ [n]) = Inr (q, mid)"
        "q \<noteq> None \<and> r = q \<and> seen' = mid \<or> q = None \<and> dfsLoop g fn ns mid = Inr (r, seen')"
      by (rule dfsLoop_new_cases [OF "2.prems"]) blast
    have run: "rbind (getDirectChildConnections g n) (\<lambda>cs. dfsLoop g fn (map c_to cs) (seen @ [n]))
          = Inr (q, mid)" using r(1,2) by simp
    have "set (seen @ [n]) \<subseteq> set mid" by (rule "2.IH"(2) [OF new r(1,2)])
    moreover have "set mid \<subseteq> set seen'"
      using r(3) "2.IH"(3) [OF new run] by blast
    ultimately show ?thesis by auto
  qed
qed simp

lemma dfsLoop_found:
  "dfsLoop g fn ns seen = Inr (Some m, seen') \<Longrightarrow> fn m \<and> (\<exists>n \<in> set ns. (n, m) \<in> (child_rel g)\<^sup>*)"
proof (induction g fn ns seen arbitrary: seen' rule: dfsLoop.induct)
  case (2 g fn n ns seen)
  consider (skip) "n \<in> set seen" | (hit) "n \<notin> set seen" "fn n" | (new) "n \<notin> set seen" "\<not> fn n"
    by blast
  then show ?case
  proof cases
    case skip
    with "2.IH"(1) [OF skip] "2.prems" show ?thesis by (simp add: dfsLoop_skip)
  next
    case hit
    with "2.prems" show ?thesis by (simp add: dfsLoop_hit)
  next
    case new
    note False = new
    then obtain cs q mid where r: "getDirectChildConnections g n = Inr cs"
        "dfsLoop g fn (map c_to cs) (seen @ [n]) = Inr (q, mid)"
        "q \<noteq> None \<and> Some m = q \<and> seen' = mid
         \<or> q = None \<and> dfsLoop g fn ns mid = Inr (Some m, seen')"
      by (rule dfsLoop_new_cases [OF "2.prems"]) blast
    from r(3) show ?thesis
    proof
      assume q: "q \<noteq> None \<and> Some m = q \<and> seen' = mid"
      with "2.IH"(2) [OF False r(1)] r(2)
      obtain c where c: "fn m" "c \<in> set cs" "(c_to c, m) \<in> (child_rel g)\<^sup>*" by auto
      then have "(n, c_to c) \<in> child_rel g"
        using getDirectChildConnections_InrD [OF r(1)] child_relI [of c g] by auto
      with c show ?thesis by (auto intro: converse_rtrancl_into_rtrancl)
    next
      assume q: "q = None \<and> dfsLoop g fn ns mid = Inr (Some m, seen')"
      have "rbind (getDirectChildConnections g n) (\<lambda>cs. dfsLoop g fn (map c_to cs) (seen @ [n]))
          = Inr (None, mid)" using r(1,2) q by simp
      from "2.IH"(3) [OF False this refl refl conjunct2 [OF q]] show ?thesis by auto
    qed
  qed
qed simp

lemma dfsLoop_exhausted:
  "dfsLoop g fn ns seen = Inr (None, seen') \<Longrightarrow>
     set ns \<subseteq> set seen' \<and>
     (\<forall>x \<in> set seen' - set seen. \<not> fn x \<and> (\<forall>y. (x, y) \<in> child_rel g \<longrightarrow> y \<in> set seen'))"
proof (induction g fn ns seen arbitrary: seen' rule: dfsLoop.induct)
  case (2 g fn n ns seen)
  show ?case
  proof (cases "n \<in> set seen")
    case True
    with "2.prems" have "dfsLoop g fn ns seen = Inr (None, seen')" by (simp add: dfsLoop_skip)
    with "2.IH"(1) [OF True] dfsLoop_seen_grows [OF this] True show ?thesis by auto
  next
    case False
    with "2.prems" have nf: "\<not> fn n" by (auto simp: dfsLoop_hit)
    from False nf obtain cs mid where r: "getDirectChildConnections g n = Inr cs"
        "dfsLoop g fn (map c_to cs) (seen @ [n]) = Inr (None, mid)" "dfsLoop g fn ns mid = Inr (None, seen')"
      by (rule dfsLoop_new_cases [OF "2.prems"]) auto
    have q: "rbind (getDirectChildConnections g n) (\<lambda>cs. dfsLoop g fn (map c_to cs) (seen @ [n]))
          = Inr (None, mid)" using r(1,2) by simp
    note ih1 = "2.IH"(2) [OF False nf r(1) r(2)]
    note ih2 = "2.IH"(3) [OF False nf q refl refl r(3)]
    have grow: "set (seen @ [n]) \<subseteq> set mid" "set mid \<subseteq> set seen'"
      using dfsLoop_seen_grows [OF r(2)] dfsLoop_seen_grows [OF r(3)] by auto
    have kids: "y \<in> set mid" if "(n, y) \<in> child_rel g" for y
    proof -
      from that obtain c where "c \<in> conns g" "c_from c = n" "c_to c = y" by (auto simp: child_rel_def)
      with getDirectChildConnections_InrD [OF r(1)] have "y \<in> set (map c_to cs)" by auto
      with ih1 show ?thesis by blast
    qed
    have "\<forall>x \<in> set seen' - set seen. \<not> fn x \<and> (\<forall>y. (x, y) \<in> child_rel g \<longrightarrow> y \<in> set seen')"
    proof
      fix x
      assume x: "x \<in> set seen' - set seen"
      consider (late) "x \<in> set seen' - set mid" | (self) "x = n"
        | (early) "x \<in> set mid - set (seen @ [n])" using x by auto
      then show "\<not> fn x \<and> (\<forall>y. (x, y) \<in> child_rel g \<longrightarrow> y \<in> set seen')"
      proof cases
        case late
        with ih2 show ?thesis by blast
      next
        case self
        with nf kids grow(2) show ?thesis by blast
      next
        case early
        with ih1 grow(2) show ?thesis by blast
      qed
    qed
    moreover have "set (n # ns) \<subseteq> set seen'" using ih2 grow by auto
    ultimately show ?thesis by blast
  qed
qed simp

lemma dfsLoop_total:
  assumes "wf_graph g"
  shows "set ns \<subseteq> members g \<Longrightarrow> \<exists>r. dfsLoop g fn ns seen = Inr r"
  using assms
proof (induction g fn ns seen rule: dfsLoop.induct)
  case (2 g fn n ns seen)
  show ?case
  proof (cases "n \<in> set seen \<or> fn n")
    case True
    then show ?thesis
      using "2.IH"(1) "2.prems" by (cases "n \<in> set seen") (auto simp: dfsLoop_skip dfsLoop_hit)
  next
    case False
    obtain cs where cs: "getDirectChildConnections g n = Inr cs" "set cs = {c \<in> conns g. c_from c = n}"
      using getDirectChildConnections_set [of g n] "2.prems" by auto
    then have "set (map c_to cs) \<subseteq> members g" using conn_ends [OF "2.prems"(2)] by auto
    then obtain q mid where r: "dfsLoop g fn (map c_to cs) (seen @ [n]) = Inr (q, mid)"
      using "2.IH"(2) [OF _ _ cs(1) _ "2.prems"(2)] False by fastforce
    then have q: "rbind (getDirectChildConnections g n) (\<lambda>cs. dfsLoop g fn (map c_to cs) (seen @ [n]))
          = Inr (q, mid)" using cs by simp
    show ?thesis
    proof (cases q)
      case None
      then obtain r' where "dfsLoop g fn ns mid = Inr r'"
        using "2.IH"(3) [OF _ _ q refl] "2.prems" False by auto
      with False r cs None show ?thesis by (simp add: dfsLoop.simps(2))
    qed (use False r cs in \<open>simp add: dfsLoop.simps(2)\<close>)
  qed
qed simp

lemma depthFirstSearch_exact:
  assumes wf: "wf_graph g" and n: "n \<in> members g"
  shows "\<exists>r. depthFirstSearch g n fn = Inr r
       \<and> (case r of None \<Rightarrow> \<forall>m. (n, m) \<in> (child_rel g)\<^sup>* \<longrightarrow> \<not> fn m
                  | Some m \<Rightarrow> (n, m) \<in> (child_rel g)\<^sup>* \<and> fn m)"
proof -
  obtain r seen where run: "dfsLoop g fn [n] [] = Inr (r, seen)"
    using dfsLoop_total [OF wf, of "[n]" fn "[]"] n by auto
  have none: "m \<in> set seen \<and> \<not> fn m" if "r = None" and path: "(n, m) \<in> (child_rel g)\<^sup>*" for m
  proof -
    note ex = dfsLoop_exhausted [OF run [unfolded \<open>r = None\<close>]]
    from path have "m \<in> set seen" by (induction rule: rtrancl_induct) (use ex in auto)
    with ex show ?thesis by simp
  qed
  have "depthFirstSearch g n fn = Inr r"
    by (simp add: depthFirstSearch_def run)
  moreover have "case r of None \<Rightarrow> \<forall>m. (n, m) \<in> (child_rel g)\<^sup>* \<longrightarrow> \<not> fn m
                  | Some m \<Rightarrow> (n, m) \<in> (child_rel g)\<^sup>* \<and> fn m"
    using none dfsLoop_found [of g fn "[n]" "[]"] run by (cases r) auto
  ultimately show ?thesis by blast
qed

end
