(* ===== verification/GraphScc.thy ===== *)
theory GraphScc
  imports GraphSearch
begin

text \<open>
  \<open>getStronglyConnectedComponents\<close> of \<open>directed-graph.ts\<close>. The method threads the
  ids, the low links, the stack (its top is the head of the list here) and the components
  found. It lowers a node's low link to the low link of every child on the stack and,
  when a node kept its own id, pops the nodes whose low link equals that id.

  What it reports is sound: components are disjoint and their nodes reach each other. It
  is not complete; the counterexample is stated with the properties.
\<close>

section \<open>The algorithm\<close>

record scc_state =
  s_id :: nat
  s_ids :: "node \<rightharpoonup> nat"
  s_low :: "node \<rightharpoonup> nat"
  s_stack :: "node list"
  s_components :: "node list list"

text \<open>A node is visited from the moment it has an id.\<close>

abbreviation visited :: "scc_state \<Rightarrow> node set" where
  "visited s \<equiv> dom (s_ids s)"

definition initScc :: scc_state where
  "initScc = \<lparr>s_id = 0, s_ids = Map.empty, s_low = Map.empty, s_stack = [], s_components = []\<rparr>"

definition enterNode :: "node \<Rightarrow> scc_state \<Rightarrow> scc_state" where
  "enterNode n s =
     s\<lparr>s_low := (s_low s)(n \<mapsto> s_id s), s_ids := (s_ids s)(n \<mapsto> s_id s),
       s_id := s_id s + 1, s_stack := n # s_stack s\<rparr>"

definition lowerLink :: "node \<Rightarrow> node \<Rightarrow> scc_state \<Rightarrow> scc_state" where
  "lowerLink n child s =
     (if child \<in> set (s_stack s)
      then s\<lparr>s_low := (s_low s)(n \<mapsto> min (the (s_low s child)) (the (s_low s n)))\<rparr>
      else s)"

definition closeNode :: "node \<Rightarrow> scc_state \<Rightarrow> scc_state" where
  "closeNode n s =
     (if s_ids s n = s_low s n then
        let scc = takeWhile (\<lambda>m. s_low s m = s_ids s n) (s_stack s);
            rest = dropWhile (\<lambda>m. s_low s m = s_ids s n) (s_stack s)
        in s\<lparr>s_stack := rest,
             s_components := (if scc = [] then s_components s else s_components s @ [scc])\<rparr>
      else s)"

text \<open>The loop over the children of a node; the nested call is \<open>followNode\<close>.\<close>

function followChildren ::
  "digraph \<Rightarrow> node \<Rightarrow> connection list \<Rightarrow> scc_state \<Rightarrow> assertion + scc_state" where
  "followChildren g n [] s = Inr s"
| "followChildren g n (c # cs) s =
     rbind (if c_to c \<in> visited s then Inr s
            else rbind (getDirectChildConnections g (c_to c)) (\<lambda>ds.
                 rbind (followChildren g (c_to c) ds (enterNode (c_to c) s)) (\<lambda>s.
                 Inr (closeNode (c_to c) s))))
       (\<lambda>s. followChildren g n cs (lowerLink n (c_to c) s))"
  by pat_completeness auto

lemma scc_update_simps [simp]:
  "s_ids (lowerLink n c s) = s_ids s" "s_ids (closeNode n s) = s_ids s"
  "s_ids (enterNode n s) = (s_ids s)(n \<mapsto> s_id s)"
  "s_id (lowerLink n c s) = s_id s" "s_id (closeNode n s) = s_id s"
  "s_stack (lowerLink n c s) = s_stack s"
  "s_components (lowerLink n c s) = s_components s"
  "s_components (enterNode n s) = s_components s"
  "s_low (closeNode n s) = s_low s"
  by (simp_all add: lowerLink_def closeNode_def enterNode_def Let_def)

lemma followChildren_grows:
  "followChildren_dom (g, n, cs, s) \<Longrightarrow> followChildren g n cs s = Inr s' \<Longrightarrow> visited s \<subseteq> visited s'"
proof (induction g n cs s arbitrary: s' rule: followChildren.pinduct)
  case (2 g n c cs s)
  show ?case
  proof (cases "c_to c \<in> visited s")
    case True
    with "2.hyps" "2.prems" have "followChildren g n cs (lowerLink n (c_to c) s) = Inr s'"
      by (simp add: followChildren.psimps)
    with "2.IH"(2) [of s] True show ?thesis by simp
  next
    case False
    with "2.hyps" "2.prems" obtain ds mid where
      r: "getDirectChildConnections g (c_to c) = Inr ds"
        "followChildren g (c_to c) ds (enterNode (c_to c) s) = Inr mid"
        "followChildren g n cs (lowerLink n (c_to c) (closeNode (c_to c) mid)) = Inr s'"
      by (auto simp: followChildren.psimps rbind_Inr_iff split: if_splits)
    have "visited (enterNode (c_to c) s) \<subseteq> visited mid" by (rule "2.IH"(1) [OF False r(1,2)])
    moreover have "visited mid \<subseteq> visited s'"
      using "2.IH"(2) [of "closeNode (c_to c) mid"] False r by simp
    moreover have "visited s \<subseteq> visited (enterNode (c_to c) s)" by auto
    ultimately show ?thesis by blast
  qed
qed (simp add: followChildren.psimps)

termination followChildren
proof (relation "measures [\<lambda>(g, n, cs, s). card (c_to ` (conns g \<union> set cs) - visited s),
                           \<lambda>(g, n, cs, s). length cs]", goal_cases)
  case (2 g n c cs s ds)
  then have "c_to ` (conns g \<union> set ds) \<subseteq> c_to ` (conns g \<union> set (c # cs))"
    by (auto dest: getDirectChildConnections_InrD)
  then have "card (c_to ` (conns g \<union> set ds) - visited (enterNode (c_to c) s))
      < card (c_to ` (conns g \<union> set (c # cs)) - visited s)"
    using 2 by (intro unseen_shrinks [where x = "c_to c"]) auto
  then show ?case by simp
next
  case (3 g n c cs s mid)
  have "card (c_to ` (conns g \<union> set cs) - visited mid) \<le> card (c_to ` (conns g \<union> set (c # cs)) - visited s)"
  proof (rule unseen_mono)
    show "visited s \<subseteq> visited mid"
    proof (cases "c_to c \<in> visited s")
      case False
      with 3(1) obtain ds s' where r: "getDirectChildConnections g (c_to c) = Inr ds"
          "followChildren g (c_to c) ds (enterNode (c_to c) s) = Inr s'" "mid = closeNode (c_to c) s'"
        by (auto simp: rbind_Inr_iff)
      from followChildren_grows [OF 3(2) [OF False r(1)] r(2)] r(3) show ?thesis by auto
    qed (use 3 in simp)
  qed auto
  then show ?case by (auto simp: le_less)
qed simp

declare followChildren.simps(2) [simp del]

definition followNode :: "digraph \<Rightarrow> node \<Rightarrow> scc_state \<Rightarrow> assertion + scc_state" where
  "followNode g n s =
     (if n \<in> visited s then Inr s
      else rbind (getDirectChildConnections g n) (\<lambda>ds.
           rbind (followChildren g n ds (enterNode n s)) (\<lambda>s.
           Inr (closeNode n s))))"

lemma followChildren_Cons:
  "followChildren g n (c # cs) s =
     rbind (followNode g (c_to c) s) (\<lambda>s. followChildren g n cs (lowerLink n (c_to c) s))"
  by (simp add: followChildren.simps(2) followNode_def)

definition getStronglyConnectedComponents :: "digraph \<Rightarrow> assertion + node list list" where
  "getStronglyConnectedComponents g =
     rbind (foldE (followNode g) (getNodes g) initScc) (\<lambda>s. Inr (s_components s))"

section \<open>Soundness\<close>

definition connected :: "digraph \<Rightarrow> node list \<Rightarrow> bool" where
  "connected g ns \<longleftrightarrow> (\<forall>a \<in> set ns. \<forall>b \<in> set ns. (a, b) \<in> (child_rel g)\<^sup>*)"

text \<open>
  The invariant: ids are unique and below the counter, a low link is the id of a node
  that can be reached, the stack falls in ids, and stack and components share no node.
\<close>

definition ids_inv :: "scc_state \<Rightarrow> bool" where
  "ids_inv s \<longleftrightarrow>
     (\<forall>a b i. s_ids s a = Some i \<longrightarrow> s_ids s b = Some i \<longrightarrow> a = b) \<and>
     (\<forall>a i. s_ids s a = Some i \<longrightarrow> i < s_id s)"

definition low_inv :: "digraph \<Rightarrow> scc_state \<Rightarrow> bool" where
  "low_inv g s \<longleftrightarrow>
     (\<forall>a l. s_low s a = Some l \<longrightarrow>
        l \<le> the (s_ids s a) \<and> (\<exists>b. s_ids s b = Some l \<and> (a, b) \<in> (child_rel g)\<^sup>*))"

definition components_inv :: "digraph \<Rightarrow> scc_state \<Rightarrow> bool" where
  "components_inv g s \<longleftrightarrow>
     \<Union> (set ` set (s_components s)) \<subseteq> visited s \<and>
     (\<forall>C \<in> set (s_components s). connected g C \<and> C \<noteq> [])"

definition scc_inv :: "digraph \<Rightarrow> scc_state \<Rightarrow> bool" where
  "scc_inv g s \<longleftrightarrow>
     dom (s_low s) = visited s \<and> ids_inv s \<and> low_inv g s \<and> components_inv g s \<and>
     sorted_wrt (\<lambda>a b. the (s_ids s b) < the (s_ids s a)) (s_stack s) \<and>
     set (s_stack s) \<subseteq> visited s \<and> distinct (s_stack s @ concat (s_components s))"

lemma scc_invD:
  assumes "scc_inv g s"
  shows "dom (s_low s) = visited s"
    and "\<And>a b i. s_ids s a = Some i \<Longrightarrow> s_ids s b = Some i \<Longrightarrow> a = b"
    and "\<And>a i. s_ids s a = Some i \<Longrightarrow> i < s_id s"
    and "\<And>a l. s_low s a = Some l \<Longrightarrow> l \<le> the (s_ids s a)"
    and "\<And>a l. s_low s a = Some l \<Longrightarrow> \<exists>b. s_ids s b = Some l \<and> (a, b) \<in> (child_rel g)\<^sup>*"
    and "sorted_wrt (\<lambda>a b. the (s_ids s b) < the (s_ids s a)) (s_stack s)"
    and "set (s_stack s) \<subseteq> visited s" "distinct (s_stack s @ concat (s_components s))"
    and "components_inv g s" "ids_inv s" "low_inv g s"
  using assms unfolding scc_inv_def ids_inv_def low_inv_def by simp_all

lemma components_invD:
  assumes "components_inv g s"
  shows "\<Union> (set ` set (s_components s)) \<subseteq> visited s"
    and "C \<in> set (s_components s) \<Longrightarrow> connected g C \<and> C \<noteq> []"
  using assms by (auto simp: components_inv_def)

lemma components_inv_add:
  assumes "components_inv g s" and "set C \<subseteq> visited s" and "connected g C" and "s_ids t = s_ids s"
    and "s_components t = (if C = [] then s_components s else s_components s @ [C])"
  shows "components_inv g t"
  using assms by (cases "C = []") (auto simp: components_inv_def)

lemma scc_inv_init: "scc_inv g initScc"
  by (simp add: scc_inv_def initScc_def ids_inv_def low_inv_def components_inv_def)

lemma scc_inv_enter:
  assumes inv: "scc_inv g s" and n: "n \<notin> visited s"
  shows "scc_inv g (enterNode n s)"
proof -
  note d = scc_invD [OF inv]
  have id: "s_ids s a \<noteq> Some (s_id s)" for a using d(3) by fastforce
  have st: "sorted_wrt (\<lambda>a b. the (((s_ids s)(n \<mapsto> s_id s)) b) < the (((s_ids s)(n \<mapsto> s_id s)) a))
      (n # s_stack s)"
  proof -
    have old: "((s_ids s)(n \<mapsto> s_id s)) b = s_ids s b" "the (s_ids s b) < s_id s"
      if b: "b \<in> set (s_stack s)" for b
    proof -
      from b d(7) obtain i where i: "s_ids s b = Some i" by blast
      then show "((s_ids s)(n \<mapsto> s_id s)) b = s_ids s b" using n by auto
      show "the (s_ids s b) < s_id s" using i d(3) by simp
    qed
    have "sorted_wrt (\<lambda>a b. the (((s_ids s)(n \<mapsto> s_id s)) b) < the (((s_ids s)(n \<mapsto> s_id s)) a))
        (s_stack s)"
      using d(6) by (rule sorted_wrt_mono_rel [rotated]) (simp only: old)
    then show ?thesis using old by simp
  qed
  show ?thesis
    unfolding scc_inv_def
  proof (intro conjI)
    show "dom (s_low (enterNode n s)) = visited (enterNode n s)"
      using d(1) by (simp add: enterNode_def)
    show "ids_inv (enterNode n s)"
      using d(2,3) id by (auto simp: ids_inv_def enterNode_def less_Suc_eq)
    show "low_inv g (enterNode n s)"
      unfolding low_inv_def
    proof (intro allI impI)
      fix a l
      assume low: "s_low (enterNode n s) a = Some l"
      show "l \<le> the (s_ids (enterNode n s) a) \<and>
          (\<exists>b. s_ids (enterNode n s) b = Some l \<and> (a, b) \<in> (child_rel g)\<^sup>*)"
      proof (cases "a = n")
        case True
        with low show ?thesis by (auto simp: enterNode_def)
      next
        case False
        with low have l: "s_low s a = Some l" by (simp add: enterNode_def)
        then obtain b where b: "s_ids s b = Some l" "(a, b) \<in> (child_rel g)\<^sup>*" using d(5) by blast
        then have "b \<noteq> n" using n by auto
        with b d(4) [OF l] False show ?thesis by auto
      qed
    qed
    show "components_inv g (enterNode n s)"
      using d(9) unfolding components_inv_def by auto
    show "sorted_wrt (\<lambda>a b. the (s_ids (enterNode n s) b) < the (s_ids (enterNode n s) a))
        (s_stack (enterNode n s))" using st by (simp add: enterNode_def)
    show "set (s_stack (enterNode n s)) \<subseteq> visited (enterNode n s)"
      using d(7) by (auto simp: enterNode_def)
    show "distinct (s_stack (enterNode n s) @ concat (s_components (enterNode n s)))"
      using d(7,8) components_invD(1) [OF d(9)] n by (auto simp: enterNode_def)
  qed
qed

lemma scc_inv_lower:
  assumes inv: "scc_inv g s" and n: "n \<in> visited s" and edge: "(n, c) \<in> child_rel g"
  shows "scc_inv g (lowerLink n c s)"
proof (cases "c \<in> set (s_stack s)")
  case True
  note d = scc_invD [OF inv]
  from True d(1,7) obtain lc where lc: "s_low s c = Some lc" by blast
  from n d(1) obtain ln where ln: "s_low s n = Some ln" by blast
  obtain b where b: "s_ids s b = Some lc" "(c, b) \<in> (child_rel g)\<^sup>*" using d(5) [OF lc] by blast
  have low: "s_low (lowerLink n c s) = (s_low s)(n \<mapsto> min lc ln)"
    using True lc ln by (simp add: lowerLink_def)
  have links: "l \<le> the (s_ids s a) \<and> (\<exists>b. s_ids s b = Some l \<and> (a, b) \<in> (child_rel g)\<^sup>*)"
    if "((s_low s)(n \<mapsto> min lc ln)) a = Some l" for a l
  proof (cases "a = n \<and> lc < ln")
    case True
    then have "l = lc" using that by simp
    moreover have "(n, b) \<in> (child_rel g)\<^sup>*" using edge b(2) by (rule converse_rtrancl_into_rtrancl)
    ultimately show ?thesis using True b(1) d(4) [OF ln] by auto
  next
    case False
    then have "s_low s a = Some l" using that ln by (auto split: if_splits)
    then show ?thesis using d(4,5) by blast
  qed
  have rest: "s_ids (lowerLink n c s) = s_ids s" "s_stack (lowerLink n c s) = s_stack s"
    "s_components (lowerLink n c s) = s_components s" "s_id (lowerLink n c s) = s_id s" by simp_all
  show ?thesis
    unfolding scc_inv_def
  proof (intro conjI)
    show "low_inv g (lowerLink n c s)" using links unfolding low_inv_def low rest by blast
    show "dom (s_low (lowerLink n c s)) = visited (lowerLink n c s)"
      using d(1) n unfolding low rest by auto
  qed (use d in \<open>simp_all add: ids_inv_def components_inv_def\<close>)
qed (use inv in \<open>simp add: lowerLink_def\<close>)

text \<open>The frame of one call: what it leaves above the old stack is reachable from its node.\<close>

definition extends :: "digraph \<Rightarrow> node \<Rightarrow> scc_state \<Rightarrow> scc_state \<Rightarrow> bool" where
  "extends g n s s' \<longleftrightarrow>
     (\<exists>extra. s_stack s' = extra @ s_stack s \<and> (\<forall>m \<in> set extra. (n, m) \<in> (child_rel g)\<^sup>*))"

lemma extends_refl: "extends g n s s"
  by (simp add: extends_def)

lemma extends_trans: "extends g n s t \<Longrightarrow> extends g n t u \<Longrightarrow> extends g n s u"
  by (fastforce simp: extends_def)

lemma extends_child: "(n, c) \<in> child_rel g \<Longrightarrow> extends g c s t \<Longrightarrow> extends g n s t"
  by (auto simp: extends_def intro: converse_rtrancl_into_rtrancl)

lemma close_sound:
  assumes inv: "scc_inv g s" and n: "s_ids s n = Some i"
    and stack: "s_stack s = extra @ n # base" and reach: "\<forall>m \<in> set extra. (n, m) \<in> (child_rel g)\<^sup>*"
  shows "scc_inv g (closeNode n s)" and "\<exists>kept. s_stack (closeNode n s) = kept @ base
    \<and> (\<forall>m \<in> set kept. (n, m) \<in> (child_rel g)\<^sup>*)"
proof -
  note d = scc_invD [OF inv]
  let ?P = "\<lambda>m. s_low s m = Some i"
  let ?scc = "takeWhile ?P (s_stack s)" and ?rest = "dropWhile ?P (s_stack s)"
  have below: "\<not> ?P m" if "m \<in> set base" for m
  proof
    assume "?P m"
    then have "i \<le> the (s_ids s m)" using d(4) by blast
    moreover have "the (s_ids s m) < i"
      using d(6) n that by (auto simp: stack sorted_wrt_append)
    ultimately show False by simp
  qed
  have base: "dropWhile ?P base = base" "takeWhile ?P base = []"
    using below by (cases base; auto)+
  have top: "?scc = takeWhile ?P (extra @ [n])" "?rest = dropWhile ?P (extra @ [n]) @ base"
    using base unfolding stack by (auto simp: takeWhile_append dropWhile_append)
  have from_n: "(n, m) \<in> (child_rel g)\<^sup>*" if "m \<in> set (extra @ [n])" for m
    using that reach by auto
  have scc: "(m, n) \<in> (child_rel g)\<^sup>* \<and> (n, m) \<in> (child_rel g)\<^sup>*" if "m \<in> set ?scc" for m
  proof
    from that have "?P m" by (auto dest: set_takeWhileD)
    then obtain b where "s_ids s b = Some i" "(m, b) \<in> (child_rel g)\<^sup>*" using d(5) by blast
    then show "(m, n) \<in> (child_rel g)\<^sup>*" using d(2) [OF _ n] by blast
    show "(n, m) \<in> (child_rel g)\<^sup>*"
      using that unfolding top(1) by (intro from_n) (auto dest: set_takeWhileD)
  qed
  have conn: "connected g ?scc" unfolding connected_def using scc by (meson rtrancl_trans)
  have split: "s_stack s = ?scc @ ?rest" by simp
  show "scc_inv g (closeNode n s)"
  proof (cases "s_low s n = Some i")
    case True
    have fields: "s_stack (closeNode n s) = ?rest"
      "s_components (closeNode n s)
        = (if ?scc = [] then s_components s else s_components s @ [?scc])"
      using True n by (simp_all add: closeNode_def Let_def)
    have parts: "distinct (u @ v @ w) \<Longrightarrow> distinct (v @ w @ u) \<and> (u = [] \<longrightarrow> distinct (v @ w))"
      for u v w :: "node list" by auto
    have "distinct (?scc @ ?rest @ concat (s_components s))"
      using d(8) by (simp only: append_assoc [symmetric] takeWhile_dropWhile_id)
    from parts [OF this] have dis: "distinct (?rest @ concat (s_components (closeNode n s)))"
      unfolding fields by (cases "?scc = []") (simp_all del: distinct_append)
    have sub: "set ?scc \<subseteq> visited s" "set ?rest \<subseteq> visited s"
      by (rule subset_trans [OF _ d(7)], meson set_takeWhileD set_dropWhileD subsetI)+
    have sorted: "sorted_wrt (\<lambda>a b. the (s_ids s b) < the (s_ids s a)) ?rest"
      using d(6) by (subst (asm) split) (simp only: sorted_wrt_append)
    show ?thesis
      unfolding scc_inv_def
    proof (intro conjI)
      show "components_inv g (closeNode n s)"
        by (rule components_inv_add [OF d(9) sub(1) conn _ fields(2)]) simp
      show "ids_inv (closeNode n s)" "low_inv g (closeNode n s)"
        using d(10,11) by (simp_all add: ids_inv_def low_inv_def)
      show "sorted_wrt (\<lambda>a b. the (s_ids (closeNode n s) b) < the (s_ids (closeNode n s) a))
          (s_stack (closeNode n s))" using sorted unfolding fields by simp
      show "set (s_stack (closeNode n s)) \<subseteq> visited (closeNode n s)"
        using sub(2) unfolding fields by simp
    qed (use d(1) dis in \<open>simp_all only: scc_update_simps fields(1)\<close>)
  next
    case False
    then have "closeNode n s = s" using n by (auto simp: closeNode_def)
    then show ?thesis using inv by simp
  qed
  show "\<exists>kept. s_stack (closeNode n s) = kept @ base \<and> (\<forall>m \<in> set kept. (n, m) \<in> (child_rel g)\<^sup>*)"
  proof (cases "s_low s n = Some i")
    case True
    then have "s_stack (closeNode n s) = dropWhile ?P (extra @ [n]) @ base"
      using n top(2) by (simp add: closeNode_def Let_def)
    moreover have "\<forall>m \<in> set (dropWhile ?P (extra @ [n])). (n, m) \<in> (child_rel g)\<^sup>*"
      using from_n by (meson set_dropWhileD)
    ultimately show ?thesis by blast
  next
    case False
    then have "closeNode n s = s" using n by (auto simp: closeNode_def)
    then show ?thesis using stack from_n by (intro exI [of _ "extra @ [n]"]) auto
  qed
qed

text \<open>The calls keep the invariant, do not throw on a well-formed graph and extend the stack.\<close>

definition scc_step :: "digraph \<Rightarrow> node \<Rightarrow> scc_state \<Rightarrow> scc_state \<Rightarrow> bool" where
  "scc_step g n s s' \<longleftrightarrow> scc_inv g s' \<and> visited s \<subseteq> visited s' \<and> extends g n s s'"

lemma scc_step_trans: "scc_step g n s t \<Longrightarrow> scc_step g n t u \<Longrightarrow> scc_step g n s u"
  unfolding scc_step_def using extends_trans by blast

lemma scc_close_step:
  assumes s: "scc_inv g s" "n \<notin> visited s" and run: "scc_step g n (enterNode n s) t"
  shows "scc_step g n s (closeNode n t)"
proof -
  have t: "scc_inv g t" "visited (enterNode n s) \<subseteq> visited t" using run by (auto simp: scc_step_def)
  then have "n \<in> visited t" by auto
  then obtain i where i: "s_ids t n = Some i" by blast
  from run obtain extra where e: "s_stack t = extra @ n # s_stack s"
      "\<forall>m \<in> set extra. (n, m) \<in> (child_rel g)\<^sup>*"
    by (auto simp: scc_step_def extends_def enterNode_def)
  note c = close_sound [OF t(1) i e]
  then have "extends g n s (closeNode n t)" unfolding extends_def by simp
  moreover have "visited s \<subseteq> visited t" using t(2) by auto
  ultimately show ?thesis using c(1) by (simp add: scc_step_def)
qed

lemma followChildren_step:
  assumes "wf_graph g" and "n \<in> members g"
    and "scc_inv g s" and "n \<in> visited s" and "set cs \<subseteq> {c \<in> conns g. c_from c = n}"
  shows "\<exists>s'. followChildren g n cs s = Inr s' \<and> scc_step g n s s'"
  using assms
proof (induction g n cs s rule: followChildren.induct)
  case (1 g n s)
  then show ?case by (simp add: scc_step_def extends_refl)
next
  case (2 g n c cs s)
  let ?c = "c_to c"
  have edge: "(n, ?c) \<in> child_rel g" and mem: "?c \<in> members g"
    using "2.prems"(5) child_relI [of c g] conn_ends [OF "2.prems"(1), of c] by auto
  have "\<exists>t. followNode g ?c s = Inr t \<and> scc_step g ?c s t"
  proof (cases "?c \<in> visited s")
    case True
    then show ?thesis using "2.prems"(3) by (simp add: followNode_def scc_step_def extends_refl)
  next
    case False
    obtain ds where ds: "getDirectChildConnections g ?c = Inr ds" "set ds = {d \<in> conns g. c_from d = ?c}"
      using getDirectChildConnections_set [OF "2.prems"(1) mem] .
    have "?c \<in> visited (enterNode ?c s)" by simp
    then obtain t where
      "followChildren g ?c ds (enterNode ?c s) = Inr t" "scc_step g ?c (enterNode ?c s) t"
      using "2.IH"(1) [OF False ds(1) "2.prems"(1) mem scc_inv_enter [OF "2.prems"(3) False]] ds(2)
      by blast
    then show ?thesis
      using False ds(1) scc_close_step [OF "2.prems"(3) False] by (simp add: followNode_def)
  qed
  then obtain t where t: "followNode g ?c s = Inr t" "scc_step g ?c s t" by blast
  have step: "scc_step g n s (lowerLink n ?c t)"
  proof -
    have t': "scc_inv g t" "visited s \<subseteq> visited t" "extends g n s t"
      using t(2) extends_child [OF edge] by (auto simp: scc_step_def)
    with "2.prems"(4) have "n \<in> visited t" by blast
    from scc_inv_lower [OF t'(1) this edge] t'(2,3) show ?thesis
      by (simp add: scc_step_def extends_def)
  qed
  have "(if ?c \<in> visited s then Inr s
         else rbind (getDirectChildConnections g ?c) (\<lambda>ds.
              rbind (followChildren g ?c ds (enterNode ?c s)) (\<lambda>s. Inr (closeNode ?c s)))) = Inr t"
    using t(1) by (simp add: followNode_def)
  from "2.IH"(2) [OF this "2.prems"(1,2)] step "2.prems"(4,5)
  obtain u where "followChildren g n cs (lowerLink n ?c t) = Inr u" "scc_step g n (lowerLink n ?c t) u"
    by (auto simp: scc_step_def)
  then show ?case using t(1) scc_step_trans [OF step] by (auto simp: followChildren_Cons)
qed

lemma followNode_step:
  assumes wf: "wf_graph g" and n: "n \<in> members g" and inv: "scc_inv g s"
  shows "\<exists>s'. followNode g n s = Inr s' \<and> scc_step g n s s'"
proof (cases "n \<in> visited s")
  case False
  obtain ds where ds: "getDirectChildConnections g n = Inr ds" "set ds = {d \<in> conns g. c_from d = n}"
    using getDirectChildConnections_set [OF wf n] .
  obtain t where "followChildren g n ds (enterNode n s) = Inr t" "scc_step g n (enterNode n s) t"
    using followChildren_step [OF wf n scc_inv_enter [OF inv False]] ds(2) by auto
  then show ?thesis using False ds(1) scc_close_step [OF inv False] by (simp add: followNode_def)
qed (use inv in \<open>simp add: followNode_def scc_step_def extends_refl\<close>)

lemma scc_sound:
  assumes wf: "wf_graph g"
  shows "\<exists>cs. getStronglyConnectedComponents g = Inr cs \<and> distinct (concat cs) \<and>
    (\<forall>C \<in> set cs. C \<noteq> [] \<and> connected g C)"
proof -
  have "\<exists>s. foldE (followNode g) (getNodes g) initScc = Inr s \<and> scc_inv g s"
  proof (rule foldE_ok [where I = "scc_inv g", OF scc_inv_init])
    show "\<exists>s'. followNode g n s = Inr s' \<and> scc_inv g s'" if "n \<in> set (getNodes g)" "scc_inv g s" for n s
      using followNode_step [OF wf _ that(2), of n] that(1) by (auto simp: members_def scc_step_def)
  qed
  then obtain s where s: "foldE (followNode g) (getNodes g) initScc = Inr s" "scc_inv g s" by blast
  then show ?thesis
    using scc_invD(8,9) [OF s(2)] components_invD(2)
    by (intro exI [of _ "s_components s"])
       (auto simp: getStronglyConnectedComponents_def)
qed

end
