(* ===== verification/Cycles.thy ===== *)
theory Cycles
  imports GraphDfs GraphScc
begin

text \<open>
  \<open>handle-cycles.ts\<close>: a start node inside a reported component is replaced by the first
  node of that component a depth-first search from the trigger meets. The filter on the
  components keeps those of one node too.
\<close>

definition replaceStart ::
  "digraph \<Rightarrow> node \<Rightarrow> node \<Rightarrow> node list \<Rightarrow> node list \<Rightarrow> assertion + node list" where
  "replaceStart g trigger startNode cycle newStartNodes =
     (if startNode \<in> set cycle then
        rbind (depthFirstSearch g trigger (\<lambda>n. n \<in> set cycle)) (\<lambda>firstNode.
          case firstNode of
            None \<Rightarrow> Inl CycleNotConnected
          | Some first \<Rightarrow> Inr (set_add first (removeAll startNode newStartNodes)))
      else Inr newStartNodes)"

definition handleCycles :: "digraph \<Rightarrow> node list \<Rightarrow> node \<Rightarrow> assertion + node list" where
  "handleCycles g startNodes trigger =
     rbind (getStronglyConnectedComponents g) (\<lambda>components.
     let cycles = filter (\<lambda>cycle. length cycle \<ge> 1) components
     in if cycles = [] then Inr startNodes
        else foldE (\<lambda>startNode newStartNodes.
               foldE (replaceStart g trigger startNode) cycles newStartNodes) startNodes startNodes)"

text \<open>A start node reachable from the trigger can be replaced, by a reachable node.\<close>

definition reached_members :: "digraph \<Rightarrow> node \<Rightarrow> node set" where
  "reached_members g trigger = {n \<in> members g. (trigger, n) \<in> (child_rel g)\<^sup>*}"

lemma replaceStart_ok:
  assumes wf: "wf_graph g" and t: "trigger \<in> members g" and s: "s \<in> reached_members g trigger"
    and news: "set news \<subseteq> reached_members g trigger"
  shows "\<exists>news'. replaceStart g trigger s cycle news = Inr news' \<and> set news' \<subseteq> reached_members g trigger
    \<and> (news \<noteq> [] \<longrightarrow> news' \<noteq> [])"
proof (cases "s \<in> set cycle")
  case True
  obtain r where r: "depthFirstSearch g trigger (\<lambda>n. n \<in> set cycle) = Inr r"
      "case r of None \<Rightarrow> \<forall>m. (trigger, m) \<in> (child_rel g)\<^sup>* \<longrightarrow> \<not> m \<in> set cycle
                | Some m \<Rightarrow> (trigger, m) \<in> (child_rel g)\<^sup>* \<and> m \<in> set cycle"
    using depthFirstSearch_exact [OF wf t, of "\<lambda>n. n \<in> set cycle"] by blast
  then obtain m where m: "r = Some m" "(trigger, m) \<in> (child_rel g)\<^sup>*"
    using s True by (cases r) (auto simp: reached_members_def)
  then have "m \<in> members g" using t child_trancl_members [OF wf] by (metis rtranclD)
  with m have "m \<in> reached_members g trigger" by (simp add: reached_members_def)
  moreover have "set (set_add m (removeAll s news)) \<noteq> {}" by simp
  then have "set_add m (removeAll s news) \<noteq> []" by force
  ultimately show ?thesis using r(1) m(1) news True by (auto simp: replaceStart_def)
qed (use news in \<open>simp add: replaceStart_def\<close>)

lemma handleCycles_ok:
  assumes wf: "wf_graph g" and t: "trigger \<in> members g"
    and starts: "set startNodes \<subseteq> reached_members g trigger"
  shows "\<exists>news. handleCycles g startNodes trigger = Inr news \<and> set news \<subseteq> reached_members g trigger
    \<and> (startNodes \<noteq> [] \<longrightarrow> news \<noteq> [])"
proof -
  obtain cs where cs: "getStronglyConnectedComponents g = Inr cs" using scc_sound [OF wf] by blast
  let ?cycles = "filter (\<lambda>cycle. length cycle \<ge> 1) cs"
  let ?I = "\<lambda>news. set news \<subseteq> reached_members g trigger \<and> (startNodes \<noteq> [] \<longrightarrow> news \<noteq> [])"
  have inner: "\<exists>news'. foldE (replaceStart g trigger s) ?cycles news = Inr news' \<and> ?I news'"
    if "s \<in> set startNodes" "?I news" for s news
  proof (rule foldE_ok [where I = ?I, OF that(2)])
    fix cycle news
    assume "?I news"
    then show "\<exists>news'. replaceStart g trigger s cycle news = Inr news' \<and> ?I news'"
      using replaceStart_ok [OF wf t, of s news cycle] starts that(1) by blast
  qed
  have "\<exists>news. foldE (\<lambda>s news. foldE (replaceStart g trigger s) ?cycles news) startNodes startNodes = Inr news
      \<and> ?I news"
    by (rule foldE_ok [where I = ?I]) (use starts inner in auto)
  then show ?thesis using cs starts by (auto simp: handleCycles_def Let_def)
qed

text \<open>Nothing but start nodes and entry points of components containing one of them.\<close>

lemma handleCycles_origin:
  assumes "handleCycles g startNodes trigger = Inr news"
    and "getStronglyConnectedComponents g = Inr cs" and "n \<in> set news"
  shows "n \<in> set startNodes \<or> (\<exists>cycle \<in> set cs. n \<in> set cycle \<and> (\<exists>s \<in> set startNodes. s \<in> set cycle))"
proof -
  let ?ok = "\<lambda>n. n \<in> set startNodes \<or> (\<exists>cycle \<in> set cs. n \<in> set cycle \<and> (\<exists>s \<in> set startNodes. s \<in> set cycle))"
  let ?I = "\<lambda>news. \<forall>n \<in> set news. ?ok n"
  let ?cycles = "filter (\<lambda>cycle. length cycle \<ge> 1) cs"
  have step: "?I u" if r: "replaceStart g trigger s cycle t = Inr u" and "?I t"
      and "s \<in> set startNodes" "cycle \<in> set cs" for s cycle t u
  proof (cases "s \<in> set cycle")
    case True
    with r obtain f where f: "depthFirstSearch g trigger (\<lambda>n. n \<in> set cycle) = Inr (Some f)"
        "u = set_add f (removeAll s t)"
      by (auto simp: replaceStart_def rbind_Inr_iff split: option.splits)
    from f(1) have "f \<in> set cycle"
      unfolding depthFirstSearch_def by (auto simp: rbind_Inr_iff dest: dfsLoop_found)
    with f(2) that True show ?thesis by auto
  qed (use that in \<open>simp add: replaceStart_def\<close>)
  have inner: "?I u" if "foldE (replaceStart g trigger s) ?cycles t = Inr u" "?I t" "s \<in> set startNodes" for s t u
    by (rule foldE_invariant [where I = ?I, OF that(1,2)]) (use step that(3) in auto)
  have "?I news"
  proof (cases "?cycles = []")
    case True
    then show ?thesis using assms(1,2) by (simp add: handleCycles_def)
  next
    case False
    then have "foldE (\<lambda>s news. foldE (replaceStart g trigger s) ?cycles news) startNodes startNodes = Inr news"
      using assms(1,2) by (simp add: handleCycles_def Let_def)
    then show ?thesis by (rule foldE_invariant [where I = ?I]) (use inner in auto)
  qed
  then show ?thesis using assms(3) by blast
qed

end
