(* ===== verification/PartialExecution.thy ===== *)
theory PartialExecution
  imports Subgraph StartNodes Cycles ExecutionStack
begin

text \<open>
  The preparation of a partial execution, the steps 2 to 7 of
  \<open>runPartialWorkflow2\<close> in \<open>workflow-execute.ts\<close>: filter the disabled nodes, cut out the
  subgraph between trigger and destination, clean the run data of dirty nodes, find the
  start nodes, replace those inside cycles, clean again, rebuild the execution stack.

  The composition does not trip an assertion of its parts: the graph each step produces
  is one the next accepts.
\<close>

datatype preparation_error = Assertion assertion | DisabledDestination

record preparation =
  p_graph :: digraph
  p_startNodes :: "node list"
  p_runData :: run_data
  p_stack :: stack_state
  p_nextExecutionIndex :: nat

definition orFail :: "assertion + 'a \<Rightarrow> preparation_error + 'a" where
  "orFail r = (case r of Inl e \<Rightarrow> Inl (Assertion e) | Inr a \<Rightarrow> Inr a)"

lemma orFail_Inr [simp]: "orFail (Inr a) = Inr a"
  by (simp add: orFail_def)

definition preparePartialExecution ::
  "locale_compare \<Rightarrow> digraph \<Rightarrow> node \<Rightarrow> node \<Rightarrow> run_data \<Rightarrow> pin_data \<Rightarrow> string list
     \<Rightarrow> preparation_error + preparation" where
  "preparePartialExecution localeCompare graph0 trigger destination runData0 pinData dirtyNodeNames =
     rbind (orFail (filterDisabledNodes graph0)) (\<lambda>filteredGraph.
     rbind (throwIf (n_disabled destination) DisabledDestination) (\<lambda>_.
     rbind (orFail (findSubgraph filteredGraph destination trigger)) (\<lambda>graph.
     rbind (orFail (cleanRunData runData0 graph (getNodesByNames graph dirtyNodeNames))) (\<lambda>runData1.
     rbind (orFail (findStartNodes graph trigger destination runData1 pinData)) (\<lambda>startNodes0.
     rbind (orFail (handleCycles graph startNodes0 trigger)) (\<lambda>startNodes.
     rbind (orFail (cleanRunData runData1 graph startNodes)) (\<lambda>runData.
     rbind (orFail (recreateNodeExecutionStack localeCompare graph startNodes runData pinData)) (\<lambda>stack.
     Inr \<lparr>p_graph = graph, p_startNodes = startNodes, p_runData = runData, p_stack = stack,
          p_nextExecutionIndex = getNextExecutionIndex runData\<rparr>))))))))"

definition prepared :: "node \<Rightarrow> node \<Rightarrow> digraph \<Rightarrow> preparation \<Rightarrow> bool" where
  "prepared trigger destination g0 p \<longleftrightarrow>
     wf_graph (p_graph p) \<and>
     members (p_graph p) \<subseteq> {n \<in> members g0. \<not> n_disabled n} \<and>
     (trigger, destination) \<in> (main_rel (p_graph p))\<^sup>* \<and>
     set (p_startNodes p) \<subseteq> reached_members (p_graph p) trigger \<and>
     (\<forall>n \<in> set (p_startNodes p). jm_get (p_runData p) (n_name n) = None) \<and>
     (\<forall>e \<in> set (st_stack (p_stack p)). ed_node e \<in> set (p_startNodes p))"

lemma map_of_filter_gone:
  "(\<And>v. (k, v) \<in> set m \<Longrightarrow> \<not> P (k, v)) \<Longrightarrow> map_of (filter P m) k = None"
  by (induction m) auto

lemma preparePartialExecution_ok:
  assumes wf: "wf_graph g" and hf: "hyphen_free g" and ac: "acyclic (disabled_rel g)"
    and t: "trigger \<in> members g" "\<not> n_disabled trigger"
    and d: "destination \<in> members g" "\<not> n_disabled destination"
    and path: "(trigger, destination) \<in> (main_rel g)\<^sup>*"
  shows "\<exists>p. preparePartialExecution lc g trigger destination rd pd dirty = Inr p \<and>
    prepared trigger destination g p"
proof -
  obtain f where f: "filterDisabledNodes g = Inr f" "wf_graph f"
      "members f = {n \<in> members g. \<not> n_disabled n}"
      "\<forall>a \<in> members f. \<forall>b \<in> members f. (a, b) \<in> (main_rel f)\<^sup>+ \<longleftrightarrow> (a, b) \<in> (main_rel g)\<^sup>+"
    using filterDisabledNodes_exact [OF wf hf ac] by blast
  have tf: "trigger \<in> members f" and df: "destination \<in> members f" using f(3) t d by auto
  have "(trigger, destination) \<in> (main_rel f)\<^sup>*"
    using path f(4) tf df by (auto simp: rtrancl_eq_or_trancl)
  from findSubgraph_connected [OF f(2) df tf this] obtain s where
    s: "findSubgraph f destination trigger = Inr s" "part_of s f" "trigger \<in> members s"
      "destination \<in> members s" "(trigger, destination) \<in> (main_rel s)\<^sup>*" by blast
  have ws: "wf_graph s" and ms: "members s \<subseteq> members f" using s(2) by (auto simp: part_of_def)
  have "set (getNodesByNames s dirty) \<subseteq> members s" using set_getNodesByNames [OF ws] by auto
  then obtain rd1 where rd1: "cleanRunData rd s (getNodesByNames s dirty) = Inr rd1"
    using cleanRunData_exact [OF ws] by blast
  obtain ns0 where ns0: "findStartNodes s trigger destination rd1 pd = Inr ns0"
    using findStartNodes_exact [OF ws s(3)] by blast
  have r0: "set ns0 \<subseteq> reached_members s trigger"
    using findStartNodes_reachable [OF ws s(3) ns0] by (auto simp: reached_members_def)
  obtain ns where ns: "handleCycles s ns0 trigger = Inr ns" "set ns \<subseteq> reached_members s trigger"
    using handleCycles_ok [OF ws s(3) r0] by blast
  then have nsm: "set ns \<subseteq> members s" by (auto simp: reached_members_def)
  define rd2 where "rd2 = filter (\<lambda>(k, _). k \<in> n_name ` members s \<and> (\<forall>n \<in> set ns. k \<notin> staleNames s n)) rd1"
  have rd2: "cleanRunData rd1 s ns = Inr rd2" using cleanRunData_exact [OF ws nsm] by (simp add: rd2_def)
  have gone: "jm_get rd2 (n_name n) = None" if "n \<in> set ns" for n
  proof -
    have "n_name n \<in> staleNames s n" by (auto simp: staleNames_def)
    then show ?thesis unfolding rd2_def using that by (intro map_of_filter_gone) auto
  qed
  have en: "\<forall>n \<in> members s. \<not> n_disabled n" using ms f(3) by auto
  obtain st where st: "recreateNodeExecutionStack lc s ns rd2 pd = Inr st"
      "\<forall>e \<in> set (st_stack st). \<exists>n \<in> set ns. startEntry lc s rd2 pd n e"
    using recreateNodeExecutionStack_ok [OF ws nsm en] by blast
  have "ed_node e \<in> set ns" if "e \<in> set (st_stack st)" for e
    using st(2) that by (auto simp: startEntry_def entry_of_def split: if_splits)
  then show ?thesis
    using f(1,3) d(2) s rd1 ns0 ns rd2 st(1) ws ms gone
    by (auto simp: preparePartialExecution_def prepared_def)
qed

end
