(* ===== verification/PartialProperties.thy ===== *)
theory PartialProperties
  imports PartialExecution
begin

text \<open>
  The properties of partial executions, each with an instance at a concrete graph, and the
  counterexamples that show where the code falls short of its comments.
\<close>

section \<open>Graphs to evaluate on\<close>

definition ex_node :: "nat \<Rightarrow> string \<Rightarrow> string \<Rightarrow> bool \<Rightarrow> node" where
  "ex_node i k ty disabled =
     \<lparr>n_ident = i, n_name = k, n_type = ty, n_typeVersion = 1, n_disabled = disabled\<rparr>"

definition ex_link :: "node \<Rightarrow> connection_type \<Rightarrow> nat \<Rightarrow> nat \<Rightarrow> node \<Rightarrow> connection" where
  "ex_link a ty out inp b =
     \<lparr>c_from = a, c_to = b, c_type = ty, c_outputIndex = out, c_inputIndex = inp\<rparr>"

definition ex_build :: "node list \<Rightarrow> connection list \<Rightarrow> digraph" where
  "ex_build ns cs = foldl (\<lambda>g c. putConnection c g) (addNodes ns emptyGraph) cs"

definition nTrigger :: node where "nTrigger = ex_node 0 ''Trigger'' ''manualTrigger'' False"
definition nOff :: node where "nOff = ex_node 1 ''Off'' ''set'' True"
definition nAgent :: node where "nAgent = ex_node 2 ''Agent'' ''agent'' False"
definition nLast :: node where "nLast = ex_node 3 ''Last'' ''set'' False"
definition nModel :: node where "nModel = ex_node 4 ''Model'' ''lmChat'' False"
definition nOther :: node where "nOther = ex_node 5 ''Other'' ''set'' False"

definition ai_languageModel :: connection_type where
  "ai_languageModel = ''ai_languageModel''"

text \<open>Trigger, a disabled node, an agent with its model, and the destination.\<close>

definition ex_flow :: digraph where
  "ex_flow = ex_build [nTrigger, nOff, nAgent, nLast, nModel]
     [ex_link nTrigger Main 0 0 nOff, ex_link nOff Main 0 0 nAgent, ex_link nAgent Main 0 0 nLast,
      ex_link nModel ai_languageModel 0 0 nAgent]"

lemma ex_flow_shape: "wf_graph ex_flow" "hyphen_free ex_flow"
  by code_simp+

lemma ex_flow_members: "members ex_flow = {nTrigger, nOff, nAgent, nLast, nModel}"
  by code_simp

lemma ex_flow_conns:
  "conns ex_flow = {ex_link nTrigger Main 0 0 nOff, ex_link nOff Main 0 0 nAgent,
     ex_link nAgent Main 0 0 nLast, ex_link nModel ai_languageModel 0 0 nAgent}"
  by code_simp

lemma ex_link_simps [simp]:
  "c_from (ex_link a ty i j b) = a" "c_to (ex_link a ty i j b) = b" "c_type (ex_link a ty i j b) = ty"
  by (simp_all add: ex_link_def)

lemma ai_not_main [simp]: "ai_languageModel \<noteq> Main" "Main \<noteq> ai_languageModel"
  by code_simp+


lemma ex_disabled [simp]:
  "\<not> n_disabled nTrigger" "n_disabled nOff" "\<not> n_disabled nAgent" "\<not> n_disabled nLast" "\<not> n_disabled nModel"
  by code_simp+



section \<open>Partial executions\<close>





text \<open>The subgraph keeps every simple branch of main connections from the trigger to the
  destination, is a well-formed part of the graph, and every main connection in it leads to the
  destination.\<close>

theorem subgraph_keeps_the_branches:
  assumes "wf_graph g" and "destination \<in> members g" and "trigger \<in> members g"
  shows "\<exists>sub. findSubgraph g destination trigger = Inr sub \<and> wf_graph sub \<and>
    members sub \<subseteq> members g \<and> conns sub \<subseteq> conns g \<and>
    (\<forall>c \<in> conns sub. c_type c = Main \<longrightarrow> (c_to c, destination) \<in> (main_rel g)\<^sup>*) \<and>
    (\<forall>cs. backpath g destination cs trigger \<longrightarrow> distinct (map c_to cs) \<longrightarrow> trigger \<notin> c_to ` set cs \<longrightarrow>
       trigger \<in> members sub \<and> set cs \<subseteq> conns sub)"
  using findSubgraph_ok [OF assms] unfolding part_of_def by blast

theorem subgraph_keeps_the_branches_witness:
  "\<exists>sub. findSubgraph ex_flow nLast nTrigger = Inr sub \<and>
     {ex_link nAgent Main 0 0 nLast, ex_link nOff Main 0 0 nAgent, ex_link nTrigger Main 0 0 nOff} \<subseteq> conns sub"
proof -
  let ?cs = "[ex_link nAgent Main 0 0 nLast, ex_link nOff Main 0 0 nAgent, ex_link nTrigger Main 0 0 nOff]"
  have "backpath ex_flow nLast ?cs nTrigger" by (simp add: ex_flow_conns)
  moreover have "distinct (map c_to ?cs)" "nTrigger \<notin> c_to ` set ?cs" by code_simp+
  moreover have "nTrigger \<in> members ex_flow" "nLast \<in> members ex_flow" by (simp_all add: ex_flow_members)
  ultimately obtain sub where "findSubgraph ex_flow nLast nTrigger = Inr sub" "set ?cs \<subseteq> conns sub"
    using subgraph_keeps_the_branches [OF ex_flow_shape(1), of nLast nTrigger] by blast
  then show ?thesis by auto
qed

text \<open>C17: The start nodes are exactly the nodes a search stops at (dirty, the destination, or a
  loop node whose loop has not finished) that the trigger reaches over connections with run or
  pinned data, through nodes the search does not stop at. The search always returns.\<close>

theorem start_nodes_are_exact:
  assumes "wf_graph g" and "trigger \<in> members g"
  shows "\<exists>ns. findStartNodes g trigger destination runData pinData = Inr ns \<and> distinct ns \<and>
    set ns = {n. (trigger, n) \<in> {(c_from c, c_to c) | c. c \<in> conns g \<and> isFollowed runData pinData c \<and>
                                   \<not> stopsAt g destination runData pinData (c_from c)}\<^sup>* \<and>
                 stopsAt g destination runData pinData n}"
  using findStartNodes_exact [OF assms] unfolding passed_rel_def .

definition ex_task :: task_data where
  "ex_task = \<lparr>t_executionIndex = Some 4, t_error = None, t_data = Some [(Main, [Some [JNull]])]\<rparr>"

theorem start_nodes_are_exact_witness:
  "\<exists>ns. findStartNodes ex_flow nTrigger nLast [(''Trigger'', [ex_task])] [] = Inr ns \<and> set ns = {nOff}"
proof -
  have "nTrigger \<in> members ex_flow" by (simp add: ex_flow_members)
  from start_nodes_are_exact [OF ex_flow_shape(1) this, of nLast "[(''Trigger'', [ex_task])]" "[]"]
  obtain ns where "findStartNodes ex_flow nTrigger nLast [(''Trigger'', [ex_task])] [] = Inr ns" by blast
  moreover have "findStartNodes ex_flow nTrigger nLast [(''Trigger'', [ex_task])] [] = Inr [nOff]" by code_simp
  ultimately show ?thesis by auto
qed

text \<open>Cleaning removes exactly the data of the nodes that are not in the graph, of the cleaned
  nodes and everything after them, and of the utility nodes attached to those; the rest stays in
  its order.\<close>

theorem cleaning_is_exact:
  assumes "wf_graph g" and "set nodesToClean \<subseteq> members g"
  shows "cleanRunData runData g nodesToClean =
    Inr (filter (\<lambda>(k, _). k \<in> n_name ` members g \<and>
      \<not> (\<exists>n \<in> set nodesToClean. \<exists>m. (n, m) \<in> (child_rel g)\<^sup>* \<and>
           (k = n_name m \<or> (\<exists>c \<in> conns g. c_type c \<noteq> Main \<and> (c_to c, m) \<in> (child_rel g)\<^sup>* \<and>
              k = n_name (c_from c))))) runData)"
proof -
  have "k \<in> staleNames g n \<longleftrightarrow> (\<exists>m. (n, m) \<in> (child_rel g)\<^sup>* \<and>
           (k = n_name m \<or> (\<exists>c \<in> conns g. c_type c \<noteq> Main \<and> (c_to c, m) \<in> (child_rel g)\<^sup>* \<and>
              k = n_name (c_from c))))" for k n
    unfolding staleNames_def subNodeNames_def by blast
  then show ?thesis unfolding cleanRunData_exact [OF assms] by simp
qed

theorem cleaning_is_exact_witness:
  "cleanRunData [(''Gone'', []), (''Trigger'', [ex_task]), (''Model'', []), (''Last'', [ex_task])] ex_flow [nAgent]
     = Inr [(''Trigger'', [ex_task])]"
proof -
  have "set [nAgent] \<subseteq> members ex_flow" by (simp add: ex_flow_members)
  from cleaning_is_exact [OF ex_flow_shape(1) this,
      of "[(''Gone'', []), (''Trigger'', [ex_task]), (''Model'', []), (''Last'', [ex_task])]"]
  have "\<exists>P. cleanRunData [(''Gone'', []), (''Trigger'', [ex_task]), (''Model'', []), (''Last'', [ex_task])]
      ex_flow [nAgent] = Inr (filter P [(''Gone'', []), (''Trigger'', [ex_task]), (''Model'', []), (''Last'', [ex_task])])"
    by blast
  moreover have "cleanRunData [(''Gone'', []), (''Trigger'', [ex_task]), (''Model'', []), (''Last'', [ex_task])]
      ex_flow [nAgent] = Inr [(''Trigger'', [ex_task])]" by code_simp
  ultimately show ?thesis by blast
qed

text \<open>The source groups of a node use each of its incoming connections that is a main one or has
  data exactly once; no group is empty, every group feeds consecutive inputs once each, and a group
  is complete exactly when all its sources have data.\<close>

theorem groups_partition_the_connections:
  "mset (concat (map sg_connections (getSourceDataGroups localeCompare g n runData pinData)))
     = mset (filter (\<lambda>c. hasSourceData runData pinData c \<or> c_type c = Main) (getConnections g (Some n))) \<and>
   list_all (\<lambda>gr. sg_connections gr \<noteq> [] \<and> consecutive (sg_connections gr) \<and>
       sg_complete gr = list_all (hasSourceData runData pinData) (sg_connections gr))
     (getSourceDataGroups localeCompare g n runData pinData)"
proof (intro conjI)
  show "mset (concat (map sg_connections (getSourceDataGroups localeCompare g n runData pinData)))
     = mset (filter (\<lambda>c. hasSourceData runData pinData c \<or> c_type c = Main) (getConnections g (Some n)))"
    by (rule getSourceDataGroups_exact(1))
  show "list_all (\<lambda>gr. sg_connections gr \<noteq> [] \<and> consecutive (sg_connections gr) \<and>
       sg_complete gr = list_all (hasSourceData runData pinData) (sg_connections gr))
     (getSourceDataGroups localeCompare g n runData pinData)"
    using getSourceDataGroups_exact(2) [of runData pinData localeCompare g n]
    by (simp add: good_group_def list_all_iff)
qed

text \<open>C18: The recursive search for the children of a node ends with exactly the nodes it leads to,
  itself included only when it lies on a cycle, each once.\<close>

theorem children_are_the_closure:
  assumes "wf_graph g" and "n \<in> members g"
  shows "\<exists>ns. getChildren g n = Inr ns \<and> distinct ns \<and> set ns = {m. (n, m) \<in> (child_rel g)\<^sup>+}"
  using getChildren_exact [OF assms] .

theorem children_are_the_closure_witness:
  "\<exists>ns. getChildren ex_flow nOff = Inr ns \<and> distinct ns \<and> set ns = {m. (nOff, m) \<in> (child_rel ex_flow)\<^sup>+}"
  using children_are_the_closure [OF ex_flow_shape(1), of nOff] by (simp add: ex_flow_members)

text \<open>The components reported are sound: they share no node, none is empty, and within one
  every node leads to every other.\<close>

theorem components_are_sound:
  assumes "wf_graph g"
  shows "\<exists>cs. getStronglyConnectedComponents g = Inr cs \<and> distinct (concat cs) \<and>
    (\<forall>C \<in> set cs. C \<noteq> [] \<and> (\<forall>a \<in> set C. \<forall>b \<in> set C. (a, b) \<in> (child_rel g)\<^sup>*))"
  using scc_sound [OF assms] unfolding connected_def by blast

theorem components_are_sound_witness:
  "\<exists>cs. getStronglyConnectedComponents ex_flow = Inr cs \<and> distinct (concat cs)"
  using components_are_sound [OF ex_flow_shape(1)] by blast

text \<open>The index of the next execution is above every index in the run data, and by exactly one
  above the largest (zero when there is none).\<close>

theorem next_index_is_the_least_above:
  "(\<forall>k tasks t i. (k, tasks) \<in> set runData \<longrightarrow> t \<in> set tasks \<longrightarrow> t_executionIndex t = Some i \<longrightarrow>
      i < getNextExecutionIndex runData) \<and>
   (\<forall>j. getNextExecutionIndex runData = Suc j \<longrightarrow>
      (\<exists>k tasks t. (k, tasks) \<in> set runData \<and> t \<in> set tasks \<and> t_executionIndex t = Some j))"
  using getNextExecutionIndex_above getNextExecutionIndex_least by blast

theorem next_index_is_the_least_above_witness:
  "4 < getNextExecutionIndex [(''Trigger'', [ex_task])]"
  using next_index_is_the_least_above [of "[(''Trigger'', [ex_task])]"] by (simp add: ex_task_def)



section \<open>Where the code falls short\<close>

text \<open>
  The components are not complete: a node whose low link is lowered after a child was left on the
  stack keeps the child's old low link apart from its own, so the pop stops early. In the graph
  below all four nodes form one component; only one of them is reported.
\<close>

definition nA :: node where "nA = ex_node 6 ''a'' ''set'' False"
definition nB :: node where "nB = ex_node 7 ''b'' ''set'' False"
definition nC :: node where "nC = ex_node 8 ''c'' ''set'' False"

definition ex_cycles :: digraph where
  "ex_cycles = ex_build [nOther, nA, nB, nC]
     [ex_link nOther Main 0 0 nA, ex_link nA Main 0 0 nB, ex_link nB Main 0 0 nA,
      ex_link nA Main 1 0 nC, ex_link nC Main 0 0 nOther]"

lemma ex_cycles_main: "(nOther, nA) \<in> child_rel ex_cycles" "(nA, nB) \<in> child_rel ex_cycles"
    "(nB, nA) \<in> child_rel ex_cycles" "(nA, nC) \<in> child_rel ex_cycles" "(nC, nOther) \<in> child_rel ex_cycles"
proof -
  have link: "(a, b) \<in> child_rel ex_cycles" if "ex_link a Main i 0 b \<in> conns ex_cycles" for a b i
    using child_relI [OF that] by simp
  have cs: "conns ex_cycles = {ex_link nOther Main 0 0 nA, ex_link nA Main 0 0 nB, ex_link nB Main 0 0 nA,
      ex_link nA Main 1 0 nC, ex_link nC Main 0 0 nOther}" by code_simp
  show "(nOther, nA) \<in> child_rel ex_cycles" "(nA, nB) \<in> child_rel ex_cycles" "(nB, nA) \<in> child_rel ex_cycles"
    by (rule link [of _ 0], simp add: cs)+
  show "(nA, nC) \<in> child_rel ex_cycles" by (rule link [of _ 1]) (simp add: cs)
  show "(nC, nOther) \<in> child_rel ex_cycles" by (rule link [of _ 0]) (simp add: cs)
qed

theorem components_can_be_missed:
  "wf_graph ex_cycles \<and> getStronglyConnectedComponents ex_cycles = Inr [[nC]] \<and>
   {(nC, nOther), (nOther, nA), (nA, nB), (nB, nA), (nA, nC)} \<subseteq> child_rel ex_cycles"
  using ex_cycles_main by (intro conjI) (code_simp, code_simp, blast)

text \<open>
  As a consequence a partial execution that starts inside such a cycle is not moved to its start.
\<close>

theorem cycles_can_be_started_inside:
  "handleCycles ex_cycles [nB] nOther = Inr [nB] \<and> handleCycles ex_cycles [nC] nOther = Inr [nC]"
  by code_simp

text \<open>
  Removing a node that is connected to itself puts its incoming connections back: two disabled nodes
  in a cycle leave a connection to a node that is no longer in the graph, and the next search fails.
\<close>

definition nOff2 :: node where "nOff2 = ex_node 9 ''Off2'' ''set'' True"

definition ex_off_cycle :: digraph where
  "ex_off_cycle = ex_build [nTrigger, nOff, nOff2, nLast]
     [ex_link nTrigger Main 0 0 nOff, ex_link nOff Main 0 0 nOff2, ex_link nOff2 Main 0 0 nOff,
      ex_link nOff2 Main 0 0 nLast]"

theorem disabled_cycles_break_the_graph:
  "wf_graph ex_off_cycle \<and>
   (case filterDisabledNodes ex_off_cycle of
      Inl _ \<Rightarrow> False
    | Inr g' \<Rightarrow> \<not> wf_graph g' \<and> getChildren g' nTrigger = Inl (NodeNotInGraph ''Off2''))"
  by code_simp

text \<open>
  Exporting a graph in which a node has outgoing connections of two types is a type error.
\<close>

theorem two_output_types_cannot_be_exported:
  "toIConnections (ex_build [nA, nB] [ex_link nA Main 0 0 nB, ex_link nA ai_languageModel 0 0 nB])
     = Inl (UndefinedProperty ai_languageModel)"
  by code_simp

text \<open>
  Keys are not injective: with hyphens in node names a connection replaces an unrelated one.
\<close>

definition nHyphen1 :: node where "nHyphen1 = ex_node 10 ''A-main-0-0-B'' ''set'' False"
definition nHyphen2 :: node where "nHyphen2 = ex_node 11 ''B-main-0-0-C'' ''set'' False"
definition nUpperA :: node where "nUpperA = ex_node 12 ''A'' ''set'' False"
definition nUpperC :: node where "nUpperC = ex_node 13 ''C'' ''set'' False"

theorem hyphens_lose_connections:
  "makeKey (ex_link nUpperA Main 0 0 nHyphen2) = makeKey (ex_link nHyphen1 Main 0 0 nUpperC) \<and>
   getConnections (ex_build [nUpperA, nUpperC, nHyphen1, nHyphen2]
     [ex_link nUpperA Main 0 0 nHyphen2, ex_link nHyphen1 Main 0 0 nUpperC]) None
     = [ex_link nHyphen1 Main 0 0 nUpperC]"
  by code_simp

text \<open>
  The subgraph can hold nodes the trigger does not lead to: a cycle above the destination is kept
  although no branch through it comes from the trigger.
\<close>

definition ex_side_cycle :: digraph where
  "ex_side_cycle = ex_build [nTrigger, nA, nB, nLast]
     [ex_link nTrigger Main 0 0 nLast, ex_link nA Main 0 0 nB, ex_link nB Main 0 0 nA, ex_link nA Main 0 0 nLast]"

theorem subgraph_keeps_foreign_cycles:
  "(case findSubgraph ex_side_cycle nLast nTrigger of
      Inl _ \<Rightarrow> False
    | Inr sub \<Rightarrow> getNodes sub = [nTrigger, nLast, nA, nB] \<and> getChildren sub nTrigger = Inr [nLast])"
  by code_simp

text \<open>
  A gap in the inputs splits a group although both sources have data, and what a stack entry holds
  is positioned by the order of its sources, not by their input: the second group below feeds input
  2 and its data is stored at position 0.
\<close>

definition ex_merge :: digraph where
  "ex_merge = ex_build [nA, nB, nLast] [ex_link nA Main 0 0 nLast, ex_link nB Main 0 2 nLast]"

definition ex_task_of :: "json \<Rightarrow> task_data" where
  "ex_task_of v = \<lparr>t_executionIndex = None, t_error = None, t_data = Some [(Main, [Some [v]])]\<rparr>"

theorem input_gaps_split_groups:
  "map (map c_inputIndex \<circ> sg_connections)
     (getSourceDataGroups (\<lambda>_ _. 0) ex_merge nLast
        [(''a'', [ex_task_of (JBool True)]), (''b'', [ex_task_of (JBool False)])] []) = [[0], [2]] \<and>
   (case recreateNodeExecutionStack (\<lambda>_ _. 0) ex_merge [nLast]
        [(''a'', [ex_task_of (JBool True)]), (''b'', [ex_task_of (JBool False)])] [] of
      Inl _ \<Rightarrow> False
    | Inr st \<Rightarrow> map ed_main (st_stack st) = [[[JBool True]], [[JBool False]]])"
  by code_simp

end
