(* ===== verification/TriggerSearch.thy ===== *)
theory TriggerSearch
  imports ConnectedNodes RunData
begin

text \<open>
  \<open>find-trigger-for-partial-execution.ts\<close>: the trigger a partial execution is run from,
  and the test that some root above the destination has data. The node types are a
  parameter: \<open>nodeTypes t v\<close> are the groups the description of the type \<open>t\<close> in version
  \<open>v\<close> lists. \<open>Array.prototype.sort\<close> is a parameter too, because the comparison the
  code passes is not a consistent one, for which the language leaves the order open; only
  that it permutes is used.
\<close>

section \<open>Any root with data\<close>

text \<open>One step of the loop over the nodes above: a node without main connections into it is a root.\<close>

definition addRoot :: "digraph \<Rightarrow> node \<Rightarrow> node list \<Rightarrow> assertion + node list" where
  "addRoot g parentNode rootNodes =
     rbind (getDirectParentConnections g parentNode) (\<lambda>cs.
       Inr (if list_ex (\<lambda>c. c_type c = Main) cs then rootNodes else set_add parentNode rootNodes))"

definition anyReachableRootHasRunData :: "digraph \<Rightarrow> string \<Rightarrow> run_data \<Rightarrow> assertion + bool" where
  "anyReachableRootHasRunData g destinationNodeName runData =
     (case jm_get (g_nodes g) destinationNodeName of
        None \<Rightarrow> Inr False
      | Some destinationNode \<Rightarrow>
          rbind (getParentConnections g destinationNode) (\<lambda>parentConnections.
          let parentNodes = js_set (map c_from parentConnections) in
          rbind (foldE (addRoot g) parentNodes []) (\<lambda>rootNodes.
          Inr (list_ex (\<lambda>r. jm_get runData (n_name r) \<noteq> None) rootNodes))))"

lemma rootNodes_loop:
  assumes wf: "wf_graph g" and "set ns \<subseteq> members g"
  shows "\<exists>rs. foldE (addRoot g) ns acc = Inr rs \<and>
     set rs = set acc \<union> {n \<in> set ns. n \<notin> Range (main_rel g)}"
  using assms(2)
proof (induction ns arbitrary: acc)
  case (Cons n ns)
  then obtain cs where cs: "getDirectParentConnections g n = Inr cs" "set cs = {c \<in> conns g. c_to c = n}"
    using getDirectParentConnections_ok [OF wf] by (force simp: conns_def)
  have root_iff: "list_ex (\<lambda>c. c_type c = Main) cs \<longleftrightarrow> n \<in> Range (main_rel g)"
    using cs(2) by (auto simp: list_ex_iff main_rel_def)
  let ?acc = "if list_ex (\<lambda>c. c_type c = Main) cs then acc else set_add n acc"
  have step: "addRoot g n acc = Inr ?acc" by (simp add: addRoot_def cs(1))
  obtain rs where rs: "foldE (addRoot g) ns ?acc = Inr rs"
      "set rs = set ?acc \<union> {n \<in> set ns. n \<notin> Range (main_rel g)}"
    using Cons.IH [of ?acc] Cons.prems by auto
  have "set rs = set acc \<union> {m \<in> set (n # ns). m \<notin> Range (main_rel g)}"
    unfolding rs(2) using root_iff by auto
  with rs(1) step show ?case by simp
qed simp

text \<open>It is true exactly when a root above the destination (over any connection) has data.\<close>

lemma anyReachableRootHasRunData_exact:
  assumes wf: "wf_graph g" and d: "jm_get (g_nodes g) k = Some d"
  shows "anyReachableRootHasRunData g k runData =
    Inr (\<exists>r. (r, d) \<in> (child_rel g)\<^sup>+ \<and> r \<notin> Range (main_rel g) \<and> jm_get runData (n_name r) \<noteq> None)"
proof -
  have "n_name d = k" using wf_graphD(3) [OF wf map_of_SomeD [OF d]] by simp
  with d have "isMember g d" by (simp add: isMember_def)
  then have "d \<in> members g" using isMember_iff [OF wf] by simp
  from getParentConnections_exact [OF wf this] obtain cs where
    cs: "getParentConnections g d = Inr cs" "set cs = {c \<in> conns g. (c_to c, d) \<in> (child_rel g)\<^sup>*}" by blast
  have above: "c_from ` set cs = {r. (r, d) \<in> (child_rel g)\<^sup>+}"
  proof (intro set_eqI iffI)
    fix r
    assume "r \<in> {r. (r, d) \<in> (child_rel g)\<^sup>+}"
    then obtain m where "(r, m) \<in> child_rel g" "(m, d) \<in> (child_rel g)\<^sup>*" by (auto dest: tranclD)
    then show "r \<in> c_from ` set cs" unfolding cs(2) by (auto simp: child_rel_def)
  qed (auto simp: cs(2) intro: rtrancl_into_trancl2 child_relI)
  have ns: "set (js_set (map c_from cs)) = {r. (r, d) \<in> (child_rel g)\<^sup>+}" by (simp add: above)
  moreover have "\<dots> \<subseteq> members g" using child_trancl_members [OF wf] by blast
  ultimately obtain rs where rs: "foldE (addRoot g) (js_set (map c_from cs)) [] = Inr rs"
      "set rs = {n \<in> set (js_set (map c_from cs)). n \<notin> Range (main_rel g)}"
    using rootNodes_loop [OF wf, of "js_set (map c_from cs)" "[]"] by auto
  have roots: "set rs = {r. (r, d) \<in> (child_rel g)\<^sup>+ \<and> r \<notin> Range (main_rel g)}"
    unfolding rs(2) ns by simp
  have "anyReachableRootHasRunData g k runData = Inr (list_ex (\<lambda>r. jm_get runData (n_name r) \<noteq> None) rs)"
    unfolding anyReachableRootHasRunData_def Let_def using d cs(1) rs(1) by simp
  then show ?thesis unfolding list_ex_iff roots by auto
qed

section \<open>The trigger of a partial execution\<close>

type_synonym node_groups = "string \<Rightarrow> js_number \<Rightarrow> string list"

definition isTriggerNode :: "string list \<Rightarrow> bool" where
  "isTriggerNode groups \<longleftrightarrow> ''trigger'' \<in> set groups"

text \<open>\<open>workflow.getParentNodes\<close> reads the connections the constructor turned around.\<close>

definition findAllParentTriggers :: "node_groups \<Rightarrow> flow \<Rightarrow> string \<Rightarrow> assertion + node list" where
  "findAllParentTriggers nodeTypes w destinationNodeName =
     rbind (foldE (\<lambda>name nodes.
              case jm_get (f_nodes w) name of
                None \<Rightarrow> Inl (UnknownNode name)
              | Some n \<Rightarrow> Inr (nodes @ [n]))
            (getParentNodes (mapConnectionsByDestination (f_connectionsBySourceNode w))
               destinationNodeName (OfType Main) (- 1)) []) (\<lambda>nodes.
     Inr (filter (\<lambda>n. isTriggerNode (nodeTypes (n_type n) (n_typeVersion n))) nodes))"

definition endsWith :: "string \<Rightarrow> string \<Rightarrow> bool" where
  "endsWith s t \<longleftrightarrow> length t \<le> length s \<and> drop (length s - length t) s = t"

definition isWebhook :: "node \<Rightarrow> bool" where
  "isWebhook n = endsWith (n_type n) ''webhook''"

definition webhookFirst :: "node \<Rightarrow> node \<Rightarrow> int" where
  "webhookFirst a b = (if isWebhook a then - 1 else if isWebhook b then 1 else 0)"

definition js_head :: "'a list \<Rightarrow> 'a option" where
  "js_head xs = (case xs of [] \<Rightarrow> None | x # _ \<Rightarrow> Some x)"

definition findTriggerForPartialExecution ::
  "((node \<Rightarrow> node \<Rightarrow> int) \<Rightarrow> node list \<Rightarrow> node list) \<Rightarrow> node_groups \<Rightarrow> flow \<Rightarrow> string \<Rightarrow> run_data
     \<Rightarrow> assertion + node option" where
  "findTriggerForPartialExecution sortBy nodeTypes w destinationNodeName runData =
     (case jm_get (f_nodes w) destinationNodeName of
        None \<Rightarrow> Inr None
      | Some destinationNode \<Rightarrow>
          if isTriggerNode (nodeTypes (n_type destinationNode) (n_typeVersion destinationNode)) \<and>
             \<not> n_disabled destinationNode
          then Inr (Some destinationNode)
          else
            rbind (findAllParentTriggers nodeTypes w destinationNodeName) (\<lambda>triggers.
            let parentTriggers = filter (\<lambda>t. \<not> n_disabled t) triggers in
            case find (\<lambda>t. jm_get runData (n_name t) \<noteq> None) parentTriggers of
              Some t \<Rightarrow> Inr (Some t)
            | None \<Rightarrow>
                let pinnedTriggers = sortBy webhookFirst
                      (filter (\<lambda>t. n_name t \<in> set (f_pinData w)) parentTriggers)
                in if pinnedTriggers \<noteq> [] then Inr (js_head pinnedTriggers)
                   else
                     let webhookTriggers = filter isWebhook parentTriggers
                     in Inr (if webhookTriggers \<noteq> [] then js_head webhookTriggers
                             else js_head parentTriggers)))"

lemma foldE_lookup:
  "foldE (\<lambda>k acc. case lookup k of None \<Rightarrow> Inl (e k) | Some v \<Rightarrow> Inr (acc @ [v])) ks acc =
     (if \<forall>k \<in> set ks. lookup k \<noteq> None then Inr (acc @ map (\<lambda>k. the (lookup k)) ks)
      else Inl (e (the (find (\<lambda>k. lookup k = None) ks))))"
  by (induction ks arbitrary: acc) (auto split: option.splits)

text \<open>Every node with outgoing connections is a node of the workflow.\<close>

definition sourcesKnown :: "flow \<Rightarrow> bool" where
  "sourcesKnown w \<longleftrightarrow> list_all (\<lambda>(k, _). jm_get (f_nodes w) k \<noteq> None) (f_connectionsBySourceNode w)"

lemma sourcesKnownD:
  assumes "sourcesKnown w" and "(a, k) \<in> (follows_rel (f_connectionsBySourceNode w) ft)\<^sup>+"
  shows "jm_get (f_nodes w) a \<noteq> None"
proof -
  obtain b where "(a, b) \<in> follows_rel (f_connectionsBySourceNode w) ft" using assms(2) by (meson tranclD)
  then obtain byType where "(a, byType) \<in> set (f_connectionsBySourceNode w)"
    by (auto simp: follows_rel_def dest: map_of_SomeD)
  with assms(1) show ?thesis by (auto simp: sourcesKnown_def list_all_iff)
qed

text \<open>
  The enabled triggers that lead to the destination over main connections.
\<close>

definition triggersAbove :: "node_groups \<Rightarrow> flow \<Rightarrow> string \<Rightarrow> node set" where
  "triggersAbove nodeTypes w k =
     {t. \<exists>a. (a, k) \<in> (follows_rel (f_connectionsBySourceNode w) (OfType Main))\<^sup>+ \<and> a \<noteq> k \<and>
        jm_get (f_nodes w) a = Some t \<and> isTriggerNode (nodeTypes (n_type t) (n_typeVersion t)) \<and> \<not> n_disabled t}"

lemma findAllParentTriggers_exact:
  assumes "keyed (f_connectionsBySourceNode w)" and "same_types (f_connectionsBySourceNode w)"
    and "sourcesKnown w"
  obtains ts where "findAllParentTriggers nodeTypes w k = Inr ts"
    and "set (filter (\<lambda>t. \<not> n_disabled t) ts) = triggersAbove nodeTypes w k"
proof -
  let ?ps = "getParentNodes (mapConnectionsByDestination (f_connectionsBySourceNode w)) k (OfType Main) (- 1)"
  have ps: "set ?ps = {a. (a, k) \<in> (follows_rel (f_connectionsBySourceNode w) (OfType Main))\<^sup>+ \<and> a \<noteq> k}"
    using getParentNodes_ancestors assms(1,2) by blast
  note known = sourcesKnownD [OF assms(3)]
  have "\<forall>a \<in> set ?ps. jm_get (f_nodes w) a \<noteq> None" using ps known by blast
  then have "findAllParentTriggers nodeTypes w k =
      Inr (filter (\<lambda>n. isTriggerNode (nodeTypes (n_type n) (n_typeVersion n))) (map (\<lambda>a. the (jm_get (f_nodes w) a)) ?ps))"
    unfolding findAllParentTriggers_def foldE_lookup by simp
  moreover have "set (filter (\<lambda>t. \<not> n_disabled t) (filter (\<lambda>n. isTriggerNode (nodeTypes (n_type n) (n_typeVersion n)))
      (map (\<lambda>a. the (jm_get (f_nodes w) a)) ?ps))) = triggersAbove nodeTypes w k"
    using known by (force simp: ps triggersAbove_def)
  ultimately show thesis by (rule that)
qed

lemma js_head_in: "js_head xs = Some x \<Longrightarrow> x \<in> set xs"
  by (auto simp: js_head_def split: list.splits)

lemma js_head_filter: "filter P xs \<noteq> [] \<Longrightarrow> \<exists>x. js_head (filter P xs) = Some x \<and> x \<in> set xs \<and> P x"
  by (cases "filter P xs") (auto simp: js_head_def filter_eq_Cons_iff)

text \<open>What the caller may rely on for a destination that is not an enabled trigger itself.\<close>

definition preferred :: "node set \<Rightarrow> run_data \<Rightarrow> string set \<Rightarrow> node option \<Rightarrow> bool" where
  "preferred T runData pinned result \<longleftrightarrow>
     (case result of
        None \<Rightarrow> T = {}
      | Some t \<Rightarrow> t \<in> T \<and>
          (if \<exists>u \<in> T. jm_get runData (n_name u) \<noteq> None then jm_get runData (n_name t) \<noteq> None
           else if \<exists>u \<in> T. n_name u \<in> pinned then n_name t \<in> pinned
           else if \<exists>u \<in> T. isWebhook u then isWebhook t else True))"

lemma findTriggerForPartialExecution_preferred:
  assumes flow: "keyed (f_connectionsBySourceNode w)" "same_types (f_connectionsBySourceNode w)"
    and known: "sourcesKnown w"
    and sorts: "\<And>cmp xs. mset (sortBy cmp xs) = mset xs"
    and d: "jm_get (f_nodes w) k = Some d"
    and other: "\<not> (isTriggerNode (nodeTypes (n_type d) (n_typeVersion d)) \<and> \<not> n_disabled d)"
  shows "\<exists>r. findTriggerForPartialExecution sortBy nodeTypes w k runData = Inr r \<and>
    preferred (triggersAbove nodeTypes w k) runData (set (f_pinData w)) r"
proof -
  obtain all where all: "findAllParentTriggers nodeTypes w k = Inr all"
    "set (filter (\<lambda>t. \<not> n_disabled t) all) = triggersAbove nodeTypes w k"
    by (rule findAllParentTriggers_exact [OF flow known])
  define ts where "ts = filter (\<lambda>t. \<not> n_disabled t) all"
  have T: "set ts = triggersAbove nodeTypes w k" using all(2) by (simp only: ts_def)
  have perm: "set (sortBy cmp xs) = set xs" for cmp and xs :: "node list"
    using arg_cong [OF sorts [of cmp xs], where f = set_mset] by simp
  let ?pinned = "sortBy webhookFirst (filter (\<lambda>t. n_name t \<in> set (f_pinData w)) ts)"
  have run: "findTriggerForPartialExecution sortBy nodeTypes w k runData =
      (case find (\<lambda>t. jm_get runData (n_name t) \<noteq> None) ts of
         Some t \<Rightarrow> Inr (Some t)
       | None \<Rightarrow> if ?pinned \<noteq> [] then Inr (js_head ?pinned)
                 else Inr (if filter isWebhook ts \<noteq> [] then js_head (filter isWebhook ts) else js_head ts))"
    unfolding findTriggerForPartialExecution_def d option.case if_not_P [OF other] all(1) Let_def ts_def
    by (simp cong: option.case_cong)
  show ?thesis
  proof (cases "find (\<lambda>t. jm_get runData (n_name t) \<noteq> None) ts")
    case (Some t)
    then have "t \<in> set ts" "jm_get runData (n_name t) \<noteq> None" by (auto simp: find_Some_iff)
    then show ?thesis unfolding run Some T [symmetric] by (auto simp: preferred_def)
  next
    case None
    then have nodata: "\<not> (\<exists>u \<in> set ts. jm_get runData (n_name u) \<noteq> None)" by (auto simp: find_None_iff)
    show ?thesis
    proof (cases "?pinned = []")
      case False
      then obtain t where t: "js_head ?pinned = Some t" by (cases ?pinned) (simp_all add: js_head_def)
      then have "t \<in> set ts" "n_name t \<in> set (f_pinData w)" using js_head_in [OF t] by (auto simp: perm)
      with False t nodata show ?thesis unfolding run None T [symmetric] by (auto simp: preferred_def)
    next
      case True
      then have "filter (\<lambda>t. n_name t \<in> set (f_pinData w)) ts = []" using perm by (metis set_empty2)
      then have nopin: "\<not> (\<exists>u \<in> set ts. n_name u \<in> set (f_pinData w))" by (auto simp: filter_empty_conv)
      show ?thesis
      proof (cases "filter isWebhook ts = []")
        case False
        from js_head_filter [OF this] obtain t where "js_head (filter isWebhook ts) = Some t" "t \<in> set ts" "isWebhook t"
          by blast
        with False True nodata nopin show ?thesis unfolding run None T [symmetric] by (simp add: preferred_def)
      next
        case noweb: True
        then have "\<not> (\<exists>u \<in> set ts. isWebhook u)" by (auto simp: filter_empty_conv)
        with True noweb nodata nopin show ?thesis
          unfolding run None T [symmetric] by (cases ts) (auto simp: preferred_def js_head_def)
      qed
    qed
  qed
qed

end
