(* ===== verification/GraphSelection.thy ===== *)
theory GraphSelection
  imports ConnectionMaps
begin

text \<open>
  \<open>packages/workflow/src/graph/graph-utils.ts\<close>: whether the selected nodes can be turned
  into a sub-workflow of their own. A selection is a set of names (a distinct list, in the
  order of insertion), the graph maps a name to the connections that leave it. The
  connections of a JavaScript \<open>Set\<close> are told apart as objects, and every connection of a
  workflow is an object of its own, so the set keeps all of them.
\<close>

section \<open>The graph\<close>

type_synonym adjacency = "(string, iconnection list) js_map"

definition neighbours :: "adjacency \<Rightarrow> string \<Rightarrow> iconnection list" where
  "neighbours adj n = (case jm_get adj n of None \<Rightarrow> [] | Some cs \<Rightarrow> cs)"

definition addOrCreate :: "string \<Rightarrow> iconnection \<Rightarrow> adjacency \<Rightarrow> adjacency" where
  "addOrCreate k v adj = jm_set adj k (neighbours adj k @ [v])"

definition buildAdjacencyList :: "iconnections \<Rightarrow> adjacency" where
  "buildAdjacencyList connectionsBySourceNode =
     foldl (\<lambda>adj (sourceNode, byType).
       foldl (\<lambda>adj (_, outs).
         foldl (\<lambda>adj conns.
           foldl (\<lambda>adj c. addOrCreate sourceNode c adj) adj (case conns of None \<Rightarrow> [] | Some cs \<Rightarrow> cs))
           adj outs)
         adj byType)
       [] connectionsBySourceNode"

definition getInputEdges :: "string list \<Rightarrow> adjacency \<Rightarrow> (string \<times> iconnection) list" where
  "getInputEdges graphIds adj =
     concat (map (\<lambda>(source, tos).
       if source \<in> set graphIds then []
       else map (Pair source) (filter (\<lambda>to. ic_node to \<in> set graphIds) tos)) adj)"

definition getOutputEdges :: "string list \<Rightarrow> adjacency \<Rightarrow> (string \<times> iconnection) list" where
  "getOutputEdges graphIds adj =
     concat (map (\<lambda>(source, tos).
       if source \<notin> set graphIds then []
       else map (Pair source) (filter (\<lambda>to. ic_node to \<notin> set graphIds) tos)) adj)"

section \<open>Sets\<close>

definition intersection :: "'a list \<Rightarrow> 'a list \<Rightarrow> 'a list" where
  "intersection a b = filter (\<lambda>x. x \<in> set b) a"

definition union' :: "'a list \<Rightarrow> 'a list \<Rightarrow> 'a list" where
  "union' a b = foldl (\<lambda>acc x. set_add x acc) (js_set a) b"

definition difference :: "'a list \<Rightarrow> 'a list \<Rightarrow> 'a list" where
  "difference minuend subtrahend = foldl (\<lambda>acc x. removeAll x acc) (js_set minuend) subtrahend"

lemma set_operations [simp]:
  "set (intersection a b) = set a \<inter> set b"
  "set (union' a b) = set a \<union> set b"
  "set (difference a b) = set a - set b"
  "distinct a \<Longrightarrow> distinct (intersection a b)"
  "distinct (difference a b)"
proof -
  have "set (foldl (\<lambda>acc x. removeAll x acc) c b) = set c - set b \<and>
      (distinct c \<longrightarrow> distinct (foldl (\<lambda>acc x. removeAll x acc) c b))" for c
    by (induction b arbitrary: c) (auto simp: distinct_removeAll)
  from this [of "js_set a"] show "set (difference a b) = set a - set b" "distinct (difference a b)"
    by (simp_all add: difference_def)
qed (auto simp: intersection_def union'_def foldl_set_add)

section \<open>Roots, leaves and paths\<close>

text \<open>The distinct targets of the main connections that leave a node.\<close>

definition mainTargets :: "adjacency \<Rightarrow> string \<Rightarrow> (iconnection \<Rightarrow> bool) \<Rightarrow> string list" where
  "mainTargets adj n keep =
     js_set (map ic_node (filter (\<lambda>x. ic_type x = Main \<and> keep x) (neighbours adj n)))"

definition getRootNodes :: "string list \<Rightarrow> adjacency \<Rightarrow> string list" where
  "getRootNodes graphIds adj =
     (let innerNodes = foldl (\<lambda>inner nodeId. union' inner (mainTargets adj nodeId (\<lambda>x. ic_node x \<noteq> nodeId)))
                         [] graphIds
      in difference graphIds innerNodes)"

definition getLeafNodes :: "string list \<Rightarrow> adjacency \<Rightarrow> string list" where
  "getLeafNodes graphIds adj =
     foldl (\<lambda>result nodeId.
       if intersection (mainTargets adj nodeId (\<lambda>x. ic_node x \<noteq> nodeId)) graphIds = []
       then set_add nodeId result else result) [] graphIds"

text \<open>
  The loop of \<open>hasPath\<close>; the top of the stack is the head of the list. A node can be on
  the stack more than once and is then expanded again, but what has been seen is never
  pushed again: either a new node is seen, or one that was seen leaves the stack.
\<close>

function hasPathLoop :: "adjacency \<Rightarrow> string \<Rightarrow> string list \<Rightarrow> string list \<Rightarrow> bool" where
  "hasPathLoop adj target [] seen = False"
| "hasPathLoop adj target (n # paths) seen =
     (if n = target then True
      else let seen' = set_add n seen
           in hasPathLoop adj target
                (rev (difference (mainTargets adj n (\<lambda>_. True)) seen') @ paths) seen')"
  by pat_completeness auto

definition pathUniverse :: "adjacency \<Rightarrow> string list \<Rightarrow> string set" where
  "pathUniverse adj paths = set paths \<union> ic_node ` (\<Union>(set ` snd ` set adj))"

lemma mainTargets_universe: "set (mainTargets adj n keep) \<subseteq> ic_node ` (\<Union>(set ` snd ` set adj))"
proof (cases "jm_get adj n")
  case (Some cs)
  from map_of_SomeD [OF this] have "set cs \<in> set ` snd ` set adj" by force
  with Some show ?thesis by (auto simp: mainTargets_def neighbours_def)
qed (simp add: mainTargets_def neighbours_def)

lemma pathUniverse_finite [simp]: "finite (pathUniverse adj paths)"
  by (simp add: pathUniverse_def)

termination hasPathLoop
proof (relation "measures [\<lambda>(adj, _, paths, seen). card (pathUniverse adj paths - set seen),
                           \<lambda>(_, _, paths, seen). length (filter (\<lambda>n. n \<in> set seen) paths)]", goal_cases)
  case (2 adj target n paths seen seen')
  let ?new = "rev (difference (mainTargets adj n (\<lambda>_. True)) seen')"
  have sub: "pathUniverse adj (?new @ paths) \<subseteq> pathUniverse adj (n # paths)"
    using mainTargets_universe [of adj n "\<lambda>_. True"] by (auto simp: pathUniverse_def)
  have seen': "set seen' = insert n (set seen)" using 2 by simp
  show ?case
  proof (cases "n \<in> set seen")
    case True
    have "card (pathUniverse adj (?new @ paths) - set seen') \<le> card (pathUniverse adj (n # paths) - set seen)"
      using sub seen' by (intro card_mono) auto
    moreover have "filter (\<lambda>m. m \<in> set seen') ?new = []"
      by (simp add: filter_empty_conv)
    ultimately show ?thesis using True seen' by (auto simp: insert_absorb)
  next
    case False
    have "card (pathUniverse adj (?new @ paths) - set seen') < card (pathUniverse adj (n # paths) - set seen)"
      using sub seen' False by (intro psubset_card_mono) (auto simp: pathUniverse_def)
    then show ?thesis by simp
  qed
qed simp

definition hasPath :: "string \<Rightarrow> string \<Rightarrow> adjacency \<Rightarrow> bool" where
  "hasPath source target adj = hasPathLoop adj target [source] []"

definition main_edges :: "adjacency \<Rightarrow> (string \<times> string) set" where
  "main_edges adj = {(a, b). \<exists>c \<in> set (neighbours adj a). ic_type c = Main \<and> ic_node c = b}"

lemma set_mainTargets: "set (mainTargets adj n keep) = ic_node ` {c \<in> set (neighbours adj n). ic_type c = Main \<and> keep c}"
  by (auto simp: mainTargets_def)

lemma leaves_closed_part:
  assumes "(x, e) \<in> R\<^sup>*" and "x \<in> S" and "e \<notin> S" and "\<And>a b. a \<in> S \<Longrightarrow> (a, b) \<in> R \<Longrightarrow> b \<in> S \<or> b \<in> W"
  shows "\<exists>w \<in> W. (w, e) \<in> R\<^sup>*"
  using assms(1,2)
proof (induction rule: converse_rtrancl_induct)
  case base
  with assms(3) show ?case by simp
next
  case (step y z)
  then show ?case using assms(4) by blast
qed

lemma hasPathLoop_iff:
  assumes "target \<notin> set seen"
    and "\<forall>a b. a \<in> set seen \<longrightarrow> (a, b) \<in> main_edges adj \<longrightarrow> b \<in> set seen \<or> b \<in> set paths"
  shows "hasPathLoop adj target paths seen \<longleftrightarrow> (\<exists>n \<in> set paths. (n, target) \<in> (main_edges adj)\<^sup>*)"
  using assms
proof (induction adj target paths seen rule: hasPathLoop.induct)
  case (2 adj target n paths seen)
  show ?case
  proof (cases "n = target")
    case False
    let ?seen' = "set_add n seen"
    let ?paths' = "rev (difference (mainTargets adj n (\<lambda>_. True)) ?seen') @ paths"
    have succ: "b \<in> set ?seen' \<or> b \<in> set ?paths'" if "a \<in> set ?seen'" "(a, b) \<in> main_edges adj" for a b
      using that "2.prems"(2) by (auto simp: set_mainTargets main_edges_def)
    have new: "(n, m) \<in> main_edges adj" if "m \<in> set (mainTargets adj n (\<lambda>_. True))" for m
      using that by (auto simp: set_mainTargets main_edges_def)
    have "hasPathLoop adj target (n # paths) seen \<longleftrightarrow> hasPathLoop adj target ?paths' ?seen'"
      using False by (simp add: Let_def)
    also have "\<dots> \<longleftrightarrow> (\<exists>m \<in> set ?paths'. (m, target) \<in> (main_edges adj)\<^sup>*)"
    proof (rule "2.IH" [OF False refl])
      show "target \<notin> set ?seen'" using "2.prems"(1) False by simp
      show "\<forall>a b. a \<in> set ?seen' \<longrightarrow> (a, b) \<in> main_edges adj \<longrightarrow> b \<in> set ?seen' \<or> b \<in> set ?paths'"
        using succ by blast
    qed
    also have "\<dots> \<longleftrightarrow> (\<exists>m \<in> set (n # paths). (m, target) \<in> (main_edges adj)\<^sup>*)" (is "?l \<longleftrightarrow> ?r")
    proof
      assume ?l
      then show ?r using new by (auto intro: converse_rtrancl_into_rtrancl)
    next
      assume ?r
      then consider "(n, target) \<in> (main_edges adj)\<^sup>*" | m where "m \<in> set paths" "(m, target) \<in> (main_edges adj)\<^sup>*"
        by auto
      then show ?l
      proof cases
        case 1
        then show ?l
          using leaves_closed_part [of n target _ "set ?seen'" "set ?paths'"] succ "2.prems"(1) False by simp
      qed auto
    qed
    finally show ?thesis .
  qed auto
qed simp

lemma hasPath_exact: "hasPath source target adj \<longleftrightarrow> (source, target) \<in> (main_edges adj)\<^sup>*"
  using hasPathLoop_iff [of target "[]" adj "[source]"] by (simp add: hasPath_def)

section \<open>Building the graph\<close>

lemma neighbours_addOrCreate:
  "neighbours (addOrCreate k v adj) n = neighbours adj n @ (if n = k then [v] else [])"
  by (simp add: neighbours_def addOrCreate_def)

lemma buildAdjacencyList_listed:
  "buildAdjacencyList m = foldl (\<lambda>adj e. addOrCreate (fst (fst e)) (snd e) adj) [] (listed m)"
proof -
  let ?f = "\<lambda>adj e. addOrCreate (fst (fst e)) (snd e) adj"
  have "foldl ?f adj (concat (map (\<lambda>(i, conns). map (Pair (n, ty, i)) (case conns of None \<Rightarrow> [] | Some cs \<Rightarrow> cs)) (enumerate k outs))) =
      foldl (\<lambda>adj conns. foldl (\<lambda>adj c. addOrCreate n c adj) adj (case conns of None \<Rightarrow> [] | Some cs \<Rightarrow> cs)) adj outs"
    for adj n ty outs k
    by (induction outs arbitrary: adj k) (simp_all add: foldl_map_body)
  then have slots: "foldl ?f adj (listed_out n ty outs) =
      foldl (\<lambda>adj conns. foldl (\<lambda>adj c. addOrCreate n c adj) adj (case conns of None \<Rightarrow> [] | Some cs \<Rightarrow> cs)) adj outs"
    for adj n ty outs by (simp add: listed_out_def)
  show ?thesis
    unfolding buildAdjacencyList_def listed_def foldl_concat foldl_map_body
    by (simp add: split_def foldl_concat foldl_map_body slots)
qed

lemma neighbours_buildAdjacencyList:
  "neighbours (buildAdjacencyList m) n = map snd (filter (\<lambda>e. fst (fst e) = n) (listed m))"
proof -
  have "neighbours (foldl (\<lambda>adj e. addOrCreate (fst (fst e)) (snd e) adj) adj es) n =
      neighbours adj n @ map snd (filter (\<lambda>e. fst (fst e) = n) es)" for adj es
    by (induction es arbitrary: adj) (auto simp: neighbours_addOrCreate)
  from this [of "[]"] show ?thesis by (simp add: buildAdjacencyList_listed neighbours_def)
qed

lemma distinct_buildAdjacencyList: "distinct (map fst (buildAdjacencyList m))"
proof -
  have "distinct (map fst adj) \<Longrightarrow> distinct (map fst (foldl (\<lambda>adj e. addOrCreate (fst (fst e)) (snd e) adj) adj es))" for adj es
    by (induction es arbitrary: adj) (simp_all add: addOrCreate_def)
  from this [of "[]"] show ?thesis by (simp add: buildAdjacencyList_listed)
qed

section \<open>The selection\<close>

datatype extractable_error =
    MultipleInputNodes "string list"
  | MultipleOutputNodes "string list"
  | InputEdgeToNonRootNode string
  | OutputEdgeFromNonLeafNode string
  | NoContinuousPath string string

definition inputNodesOf :: "string list \<Rightarrow> adjacency \<Rightarrow> string list" where
  "inputNodesOf graphIds adj =
     js_set (map (\<lambda>x. ic_node (snd x)) (filter (\<lambda>x. ic_type (snd x) = Main) (getInputEdges graphIds adj)))"

definition outputNodesOf :: "string list \<Rightarrow> adjacency \<Rightarrow> string list" where
  "outputNodesOf graphIds adj =
     js_set (map fst (filter (\<lambda>x. ic_type (snd x) = Main) (getOutputEdges graphIds adj)))"

text \<open>When there is no root (or leaf) and one node with outside connections, that node serves.\<close>

definition orOnly :: "string list \<Rightarrow> string list \<Rightarrow> string list" where
  "orOnly inner outer = (if inner = [] \<and> length outer = 1 then outer else inner)"

fun firstOf :: "'a list \<Rightarrow> 'a option" where
  "firstOf [] = None"
| "firstOf (x # _) = Some x"

definition parseExtractableSubgraphSelection ::
  "string list \<Rightarrow> adjacency \<Rightarrow> extractable_error list + string option \<times> string option" where
  "parseExtractableSubgraphSelection graphIds adj =
     (let inputNodes = inputNodesOf graphIds adj;
          rootNodes = orOnly (getRootNodes graphIds adj) inputNodes;
          rootInputNodes = intersection rootNodes inputNodes;
          outputNodes = outputNodesOf graphIds adj;
          leafNodes = orOnly (getLeafNodes graphIds adj) outputNodes;
          leafOutputNodes = intersection leafNodes outputNodes;
          origin = firstOf rootInputNodes;
          target = firstOf leafOutputNodes;
          errors =
            map InputEdgeToNonRootNode (difference inputNodes rootNodes) @
            (if 1 < length rootInputNodes then [MultipleInputNodes rootInputNodes] else []) @
            map OutputEdgeFromNonLeafNode (difference outputNodes leafNodes) @
            (if 1 < length leafOutputNodes then [MultipleOutputNodes leafOutputNodes] else []) @
            (case (origin, target) of
               (Some s, Some t) \<Rightarrow>
                 if s \<noteq> [] \<and> t \<noteq> [] \<and> \<not> hasPath s t adj then [NoContinuousPath s t] else []
             | _ \<Rightarrow> [])
      in if errors \<noteq> [] then Inl errors else Inr (origin, target))"

section \<open>What is accepted\<close>

definition selection_inputs :: "string list \<Rightarrow> adjacency \<Rightarrow> string set" where
  "selection_inputs ids adj = {b \<in> set ids. \<exists>a. a \<notin> set ids \<and> (a, b) \<in> main_edges adj}"

definition selection_outputs :: "string list \<Rightarrow> adjacency \<Rightarrow> string set" where
  "selection_outputs ids adj = {a \<in> set ids. \<exists>b. b \<notin> set ids \<and> (a, b) \<in> main_edges adj}"

definition selection_roots :: "string list \<Rightarrow> adjacency \<Rightarrow> string set" where
  "selection_roots ids adj = {b \<in> set ids. \<forall>a \<in> set ids. (a, b) \<in> main_edges adj \<longrightarrow> a = b}"

definition selection_leaves :: "string list \<Rightarrow> adjacency \<Rightarrow> string set" where
  "selection_leaves ids adj = {a \<in> set ids. \<forall>b \<in> set ids. (a, b) \<in> main_edges adj \<longrightarrow> b = a}"

lemma neighbours_entries:
  assumes "distinct (map fst adj)"
  shows "(\<exists>tos. (a, tos) \<in> set adj \<and> c \<in> set tos) \<longleftrightarrow> c \<in> set (neighbours adj a)"
  unfolding map_of_eq_Some_iff [OF assms, symmetric] by (cases "jm_get adj a") (simp_all add: neighbours_def)

lemma in_getInputEdges:
  "(a, c) \<in> set (getInputEdges ids adj) \<longleftrightarrow>
     a \<notin> set ids \<and> ic_node c \<in> set ids \<and> (\<exists>tos. (a, tos) \<in> set adj \<and> c \<in> set tos)"
proof (induction adj)
  case (Cons x adj)
  obtain s tos where x: "x = (s, tos)" by fastforce
  have "(a, c) \<in> set (getInputEdges ids (x # adj)) \<longleftrightarrow>
      a = s \<and> s \<notin> set ids \<and> c \<in> set tos \<and> ic_node c \<in> set ids \<or> (a, c) \<in> set (getInputEdges ids adj)"
    by (auto simp: x getInputEdges_def)
  then show ?case unfolding Cons.IH x by auto
qed (simp add: getInputEdges_def)

lemma in_getOutputEdges:
  "(a, c) \<in> set (getOutputEdges ids adj) \<longleftrightarrow>
     a \<in> set ids \<and> ic_node c \<notin> set ids \<and> (\<exists>tos. (a, tos) \<in> set adj \<and> c \<in> set tos)"
proof (induction adj)
  case (Cons x adj)
  obtain s tos where x: "x = (s, tos)" by fastforce
  have "(a, c) \<in> set (getOutputEdges ids (x # adj)) \<longleftrightarrow>
      a = s \<and> s \<in> set ids \<and> c \<in> set tos \<and> ic_node c \<notin> set ids \<or> (a, c) \<in> set (getOutputEdges ids adj)"
    by (auto simp: x getOutputEdges_def)
  then show ?case unfolding Cons.IH x by auto
qed (simp add: getOutputEdges_def)

lemma set_inputNodesOf:
  assumes "distinct (map fst adj)"
  shows "set (inputNodesOf ids adj) = selection_inputs ids adj"
proof -
  have "b \<in> set (inputNodesOf ids adj) \<longleftrightarrow>
      (\<exists>a c. (a, c) \<in> set (getInputEdges ids adj) \<and> ic_type c = Main \<and> ic_node c = b)" for b
    by (force simp: inputNodesOf_def)
  then show ?thesis
    unfolding in_getInputEdges neighbours_entries [OF assms] selection_inputs_def main_edges_def by auto blast
qed

lemma set_outputNodesOf:
  assumes "distinct (map fst adj)"
  shows "set (outputNodesOf ids adj) = selection_outputs ids adj"
proof -
  have "a \<in> set (outputNodesOf ids adj) \<longleftrightarrow> (\<exists>c. (a, c) \<in> set (getOutputEdges ids adj) \<and> ic_type c = Main)" for a
    by (force simp: outputNodesOf_def)
  then show ?thesis
    unfolding in_getOutputEdges neighbours_entries [OF assms] selection_outputs_def main_edges_def by auto blast
qed

lemma in_mainTargets:
  "m \<in> set (mainTargets adj n (\<lambda>x. ic_node x \<noteq> n)) \<longleftrightarrow> (n, m) \<in> main_edges adj \<and> m \<noteq> n"
  by (auto simp: set_mainTargets main_edges_def)

lemma getRootNodes_exact: "set (getRootNodes ids adj) = selection_roots ids adj"
proof -
  have "set (foldl (\<lambda>inner n. union' inner (f n)) acc ns) = set acc \<union> (\<Union>n \<in> set ns. set (f n))"
    for f :: "string \<Rightarrow> string list" and acc ns
    by (induction ns arbitrary: acc) auto
  then show ?thesis by (auto simp: getRootNodes_def Let_def in_mainTargets selection_roots_def)
qed

lemma getLeafNodes_exact: "set (getLeafNodes ids adj) = selection_leaves ids adj" "distinct (getLeafNodes ids adj)"
proof -
  have *: "set (foldl (\<lambda>r n. if P n then set_add n r else r) acc ns) = set acc \<union> {n \<in> set ns. P n} \<and>
      (distinct acc \<longrightarrow> distinct (foldl (\<lambda>r n. if P n then set_add n r else r) acc ns))"
    for P :: "string \<Rightarrow> bool" and acc ns
    by (induction ns arbitrary: acc) auto
  have "intersection (mainTargets adj n (\<lambda>x. ic_node x \<noteq> n)) ids = [] \<longleftrightarrow>
      (\<forall>b \<in> set ids. (n, b) \<in> main_edges adj \<longrightarrow> b = n)" for n
    by (auto simp: intersection_def filter_empty_conv in_mainTargets)
  then show "set (getLeafNodes ids adj) = selection_leaves ids adj" "distinct (getLeafNodes ids adj)"
    using * [where acc = "[]"] by (simp_all add: getLeafNodes_def selection_leaves_def)
qed

text \<open>One side of the check: at most one outer node, and it is an inner one if there are any.\<close>

lemma one_side:
  assumes "distinct inner" and "distinct outer"
  shows "difference outer (orOnly inner outer) = [] \<and> length (intersection (orOnly inner outer) outer) \<le> 1 \<longleftrightarrow>
      length outer \<le> 1 \<and> (inner = [] \<or> set outer \<subseteq> set inner)" (is "?l \<longleftrightarrow> ?r")
    and "length outer \<le> 1 \<and> (inner = [] \<or> set outer \<subseteq> set inner) \<Longrightarrow>
      firstOf (intersection (orOnly inner outer) outer) = firstOf outer"
proof -
  have diff: "difference outer (orOnly inner outer) = [] \<longleftrightarrow> set outer \<subseteq> set (orOnly inner outer)"
    by (metis Diff_eq_empty_iff set_empty2 set_operations(3))
  have len: "length (intersection inner outer) = length outer" if "set outer \<subseteq> set inner"
    using that assms by (metis distinct_card inf.absorb2 set_operations(1) set_operations(4))
  show "?l \<longleftrightarrow> ?r"
  proof (cases "inner = [] \<and> length outer = 1")
    case True
    then obtain x where "outer = [x]" by (auto simp: length_Suc_conv)
    with True show ?thesis by (simp add: orOnly_def difference_def intersection_def js_set_def set_add_def)
  next
    case False
    then have o: "orOnly inner outer = inner" by (auto simp: orOnly_def)
    show ?thesis
    proof (cases "set outer \<subseteq> set inner")
      case True
      then show ?thesis using diff len o by simp
    next
      case not_sub: False
      then have "inner \<noteq> [] \<or> 1 < length outer" using False by (cases outer) auto
      then show ?thesis using diff not_sub o by auto
    qed
  qed
  assume r: ?r
  then consider "outer = []" | x where "outer = [x]" by (cases outer) auto
  then show "firstOf (intersection (orOnly inner outer) outer) = firstOf outer"
  proof cases
    case (2 x)
    with r consider "inner = []" | "inner \<noteq> []" "x \<in> set inner" by auto
    then show ?thesis
    proof cases
      case 2
      then have "set (intersection inner outer) = {x}" using \<open>outer = [x]\<close> by auto
      moreover have "distinct (intersection inner outer)" using assms by simp
      ultimately have "intersection inner outer = [x]"
        by (cases "intersection inner outer"; cases "tl (intersection inner outer)") auto
      with 2 \<open>outer = [x]\<close> show ?thesis by (simp add: orOnly_def)
    qed (use \<open>outer = [x]\<close> in \<open>simp add: orOnly_def intersection_def\<close>)
  qed (simp add: intersection_def)
qed

lemma at_most_one:
  assumes "distinct xs"
  shows "length xs \<le> 1 \<and> firstOf xs = s \<longleftrightarrow> set xs = set_option s"
proof (cases xs)
  case (Cons x ys)
  with assms show ?thesis by (cases ys; cases s) auto
qed (cases s, auto)

definition extractable :: "string list \<Rightarrow> adjacency \<Rightarrow> string option \<Rightarrow> string option \<Rightarrow> bool" where
  "extractable ids adj s e \<longleftrightarrow>
     selection_inputs ids adj = set_option s \<and>
     (selection_roots ids adj = {} \<or> selection_inputs ids adj \<subseteq> selection_roots ids adj) \<and>
     selection_outputs ids adj = set_option e \<and>
     (selection_leaves ids adj = {} \<or> selection_outputs ids adj \<subseteq> selection_leaves ids adj) \<and>
     (\<forall>a b. s = Some a \<and> e = Some b \<and> a \<noteq> [] \<and> b \<noteq> [] \<longrightarrow> (a, b) \<in> (main_edges adj)\<^sup>*)"

lemma parseExtractableSubgraphSelection_exact:
  assumes "distinct (map fst adj)"
  shows "parseExtractableSubgraphSelection ids adj = Inr (s, e) \<longleftrightarrow> extractable ids adj s e"
proof -
  let ?in = "inputNodesOf ids adj" and ?out = "outputNodesOf ids adj"
  let ?roots = "getRootNodes ids adj" and ?leaves = "getLeafNodes ids adj"
  have d: "distinct ?in" "distinct ?out" "distinct ?roots" "distinct ?leaves"
    by (simp_all add: inputNodesOf_def outputNodesOf_def getRootNodes_def Let_def getLeafNodes_exact)
  have sets: "set ?in = selection_inputs ids adj" "set ?out = selection_outputs ids adj"
      "?roots = [] \<longleftrightarrow> selection_roots ids adj = {}" "?leaves = [] \<longleftrightarrow> selection_leaves ids adj = {}"
      "set ?roots = selection_roots ids adj" "set ?leaves = selection_leaves ids adj"
    using set_inputNodesOf [OF assms] set_outputNodesOf [OF assms] getRootNodes_exact [of ids adj]
      getLeafNodes_exact(1) [of ids adj] by (metis set_empty2)+
  let ?RI = "intersection (orOnly ?roots ?in) ?in" and ?LO = "intersection (orOnly ?leaves ?out) ?out"
  let ?path = "\<lambda>s e. \<forall>a b. s = Some a \<and> e = Some b \<and> a \<noteq> [] \<and> b \<noteq> [] \<longrightarrow> (a, b) \<in> (main_edges adj)\<^sup>*"
  have path: "(case (s, e) of (Some s, Some t) \<Rightarrow>
        if s \<noteq> [] \<and> t \<noteq> [] \<and> \<not> hasPath s t adj then [NoContinuousPath s t] else [] | _ \<Rightarrow> []) = [] \<longleftrightarrow> ?path s e"
    for s e by (auto simp: hasPath_exact split: option.splits)
  have "parseExtractableSubgraphSelection ids adj = Inr (s, e) \<longleftrightarrow>
      (difference ?in (orOnly ?roots ?in) = [] \<and> length ?RI \<le> 1) \<and>
      (difference ?out (orOnly ?leaves ?out) = [] \<and> length ?LO \<le> 1) \<and>
      firstOf ?RI = s \<and> firstOf ?LO = e \<and> ?path (firstOf ?RI) (firstOf ?LO)"
    unfolding parseExtractableSubgraphSelection_def Let_def path [symmetric]
    by (simp add: not_less) blast
  also have "\<dots> \<longleftrightarrow> (length ?in \<le> 1 \<and> (?roots = [] \<or> set ?in \<subseteq> set ?roots)) \<and>
      (length ?out \<le> 1 \<and> (?leaves = [] \<or> set ?out \<subseteq> set ?leaves)) \<and>
      firstOf ?in = s \<and> firstOf ?out = e \<and> ?path s e"
    unfolding one_side(1) [OF d(3,1)] one_side(1) [OF d(4,2)]
    using one_side(2) [OF d(3,1)] one_side(2) [OF d(4,2)] by metis
  also have "\<dots> \<longleftrightarrow> extractable ids adj s e"
    using at_most_one [OF d(1), of s] at_most_one [OF d(2), of e] sets
    unfolding extractable_def by metis
  finally show ?thesis .
qed

text \<open>
  The path is looked for in the whole workflow, but in an accepted selection a path out of
  it leaves from the end node: the nodes between the two ends are selected.
\<close>

lemma extractable_path_inside:
  assumes "extractable ids adj (Some a) (Some b)" and "a \<noteq> []" and "b \<noteq> []"
  shows "(a, b) \<in> (main_edges adj \<inter> set ids \<times> set ids)\<^sup>*"
proof -
  have out: "selection_outputs ids adj = {b}" and "selection_inputs ids adj = {a}"
    and path: "(a, b) \<in> (main_edges adj)\<^sup>*"
    using assms by (auto simp: extractable_def)
  then have "a \<in> set ids" by (auto simp: selection_inputs_def)
  with path show ?thesis
  proof (induction rule: converse_rtrancl_induct)
    case (step y z)
    show ?case
    proof (cases "y = b")
      case False
      have "z \<in> set ids"
      proof (rule ccontr)
        assume "z \<notin> set ids"
        with step.hyps(1) step.prems have "y \<in> selection_outputs ids adj" by (auto simp: selection_outputs_def)
        with out False show False by simp
      qed
      with step show ?thesis by (auto intro: converse_rtrancl_into_rtrancl)
    qed simp
  qed simp
qed

end
