(* ===== verification/WorkflowStart.thy ===== *)
theory WorkflowStart
  imports WorkflowClass
begin

text \<open>
  The rest of the \<open>Workflow\<close> class that changes or chooses nodes: the start node of a run
  (\<open>__getStartNode\<close>, \<open>getStartNode\<close>) and \<open>renameNode\<close>. Reading a property of
  \<open>undefined\<close> is a \<open>TypeError\<close>. Of a renamed node the parameters are not part of the
  model; their expressions are rewritten by regular expressions.
\<close>

section \<open>The start node\<close>

datatype type_error = UndefinedNode string | UndefinedNodeType string

definition manualChatTrigger :: string where
  "manualChatTrigger = ''@n8n/n8n-nodes-langchain.manualChatTrigger''"

definition STARTING_NODE_TYPES :: "string list" where
  "STARTING_NODE_TYPES =
     [''n8n-nodes-base.manualTrigger'', ''n8n-nodes-base.executeWorkflowTrigger'',
      ''n8n-nodes-base.errorTrigger'', ''n8n-nodes-base.evaluationTrigger'',
      ''n8n-nodes-base.formTrigger'']"

fun indexOf :: "'a list \<Rightarrow> 'a \<Rightarrow> int" where
  "indexOf [] y = - 1"
| "indexOf (x # xs) y = (if x = y then 0 else if y \<in> set xs then 1 + indexOf xs y else - 1)"

text \<open>The type of a node is read before the code tests that the type is known.\<close>

fun triggerLoop :: "node_types \<Rightarrow> workflow \<Rightarrow> string list \<Rightarrow> type_error + wnode option" where
  "triggerLoop nodeTypes w [] = Inr None"
| "triggerLoop nodeTypes w (k # ks) =
     (case getNode w k of
        None \<Rightarrow> Inl (UndefinedNode k)
      | Some n \<Rightarrow>
          (case nodeTypes (w_type n) (w_typeVersion n) of
             None \<Rightarrow> Inl (UndefinedNodeType (w_type n))
           | Some t \<Rightarrow>
               if nt_name t = manualChatTrigger then triggerLoop nodeTypes w ks
               else if nt_trigger t \<or> nt_poll t
               then if isDisabled n then triggerLoop nodeTypes w ks else Inr (Some n)
               else triggerLoop nodeTypes w ks))"

fun startingLoop :: "workflow \<Rightarrow> string list \<Rightarrow> type_error + wnode option" where
  "startingLoop w [] = Inr None"
| "startingLoop w (k # ks) =
     (case getNode w k of
        None \<Rightarrow> Inl (UndefinedNode k)
      | Some n \<Rightarrow>
          if w_type n \<in> set STARTING_NODE_TYPES \<and> \<not> isDisabled n then Inr (Some n)
          else startingLoop w ks)"

definition onlyNode :: "workflow \<Rightarrow> string list \<Rightarrow> wnode option" where
  "onlyNode w nodeNames =
     (case nodeNames of
        [k] \<Rightarrow> (case getNode w k of None \<Rightarrow> None | Some n \<Rightarrow> if isDisabled n then None else Some n)
      | _ \<Rightarrow> None)"

definition sortedNodeNames :: "workflow \<Rightarrow> string list" where
  "sortedNodeNames w =
     map w_name (sort_key (\<lambda>n. indexOf STARTING_NODE_TYPES (w_type n)) (jm_values (wf_nodes w)))"

definition startNodeOf :: "node_types \<Rightarrow> workflow \<Rightarrow> string list \<Rightarrow> type_error + wnode option" where
  "startNodeOf nodeTypes w nodeNames =
     (case onlyNode w nodeNames of
        Some n \<Rightarrow> Inr (Some n)
      | None \<Rightarrow>
          rbind (triggerLoop nodeTypes w nodeNames) (\<lambda>found.
          case found of
            Some n \<Rightarrow> Inr (Some n)
          | None \<Rightarrow> startingLoop w (sortedNodeNames w)))"

definition getStartNode :: "node_types \<Rightarrow> workflow \<Rightarrow> string option \<Rightarrow> type_error + wnode option" where
  "getStartNode nodeTypes w destination =
     (case destination of
        Some k \<Rightarrow>
          if k = [] then startNodeOf nodeTypes w (map fst (wf_nodes w))
          else
            let highest = fst (getHighestNode w k None []);
                nodeNames = (if highest = [] then [k] else highest)
            in rbind (startNodeOf nodeTypes w nodeNames) (\<lambda>found.
                 case found of
                   Some n \<Rightarrow> Inr (Some n)
                 | None \<Rightarrow> Inr (getNode w (hd nodeNames)))
      | None \<Rightarrow> startNodeOf nodeTypes w (map fst (wf_nodes w)))"

section \<open>Renaming\<close>

definition restrictedKeys :: "string list" where
  "restrictedKeys =
     [''hasOwnProperty'', ''isPrototypeOf'', ''propertyIsEnumerable'', ''toLocaleString'', ''toString'',
      ''valueOf'', ''constructor'', ''prototype'', ''__proto__'', ''__defineGetter__'',
      ''__defineSetter__'', ''__lookupGetter__'', ''__lookupSetter__'']"

text \<open>Lower case of the ASCII letters; the restricted names have no others.\<close>

definition lowerChar :: "char \<Rightarrow> char" where
  "lowerChar c = (if 65 \<le> (of_char c :: nat) \<and> (of_char c :: nat) \<le> 90 then char_of (of_char c + 32 :: nat) else c)"

definition toLowerCase :: "string \<Rightarrow> string" where
  "toLowerCase s = map lowerChar s"

definition isRestricted :: "string \<Rightarrow> bool" where
  "isRestricted newName \<longleftrightarrow> toLowerCase newName \<in> set (map toLowerCase restrictedKeys)"

definition renameKey :: "string \<Rightarrow> string \<Rightarrow> (string, 'v) js_map \<Rightarrow> ('v \<Rightarrow> 'v) \<Rightarrow> (string, 'v) js_map" where
  "renameKey currentName newName m change =
     (case jm_get m currentName of
        None \<Rightarrow> m
      | Some v \<Rightarrow> jm_delete (jm_set m newName (change v)) currentName)"

definition renameTarget :: "string \<Rightarrow> string \<Rightarrow> iconnection \<Rightarrow> iconnection" where
  "renameTarget currentName newName c = (if ic_node c = currentName then c\<lparr>ic_node := newName\<rparr> else c)"

definition renameTargets :: "string \<Rightarrow> string \<Rightarrow> iconnections \<Rightarrow> iconnections" where
  "renameTargets currentName newName connections =
     map (map_prod id (map (map_prod id (map (map_option (map (renameTarget currentName newName))))))) connections"

text \<open>The connections by destination are not touched.\<close>

definition renameNode :: "string \<Rightarrow> string \<Rightarrow> workflow \<Rightarrow> string + workflow" where
  "renameNode currentName newName w =
     (if isRestricted newName then Inl newName
      else Inr (w\<lparr>wf_nodes := renameKey currentName newName (wf_nodes w) (\<lambda>n. n\<lparr>w_name := newName\<rparr>),
                  wf_bySource := renameTargets currentName newName
                                   (renameKey currentName newName (wf_bySource w) id)\<rparr>))"

section \<open>The start node is an enabled one\<close>

definition typesKnown :: "node_types \<Rightarrow> workflow \<Rightarrow> bool" where
  "typesKnown nodeTypes w \<longleftrightarrow>
     list_all (\<lambda>(k, n). w_name n = k \<and> nodeTypes (w_type n) (w_typeVersion n) \<noteq> None) (wf_nodes w)"

lemma typesKnownD:
  "typesKnown nodeTypes w \<Longrightarrow> getNode w k = Some n \<Longrightarrow>
     w_name n = k \<and> nodeTypes (w_type n) (w_typeVersion n) \<noteq> None"
  by (fastforce simp: typesKnown_def list_all_iff getNode_def dest: map_of_SomeD)

text \<open>A node the first loop may return.\<close>

definition activates :: "node_types \<Rightarrow> wnode \<Rightarrow> bool" where
  "activates nodeTypes n \<longleftrightarrow>
     (\<exists>t. nodeTypes (w_type n) (w_typeVersion n) = Some t \<and> nt_name t \<noteq> manualChatTrigger \<and>
        (nt_trigger t \<or> nt_poll t) \<and> \<not> isDisabled n)"

lemma triggerLoop_ok:
  assumes "typesKnown nodeTypes w" and "\<forall>k \<in> set ks. getNode w k \<noteq> None"
  shows "triggerLoop nodeTypes w ks =
    Inr (find (activates nodeTypes) (map (\<lambda>k. the (getNode w k)) ks))"
  using assms(2)
proof (induction ks)
  case (Cons k ks)
  then obtain n where n: "getNode w k = Some n" by auto
  with typesKnownD [OF assms(1)] obtain t where "nodeTypes (w_type n) (w_typeVersion n) = Some t" by blast
  with n Cons show ?case by (auto simp: activates_def)
qed simp

definition canStart :: "wnode \<Rightarrow> bool" where
  "canStart n \<longleftrightarrow> w_type n \<in> set STARTING_NODE_TYPES \<and> \<not> isDisabled n"

lemma startingLoop_ok:
  "\<forall>k \<in> set ks. getNode w k \<noteq> None \<Longrightarrow>
     startingLoop w ks = Inr (find canStart (map (\<lambda>k. the (getNode w k)) ks))"
  by (induction ks) (auto simp: canStart_def)

lemma sorted_names_known:
  assumes "typesKnown nodeTypes w" and "distinct (map fst (wf_nodes w))"
  shows "\<forall>k \<in> set (sortedNodeNames w). getNode w k \<noteq> None"
proof
  fix k
  assume "k \<in> set (sortedNodeNames w)"
  then obtain k' n where "(k', n) \<in> set (wf_nodes w)" "k = w_name n" by (auto simp: sortedNodeNames_def)
  then have "getNode w k' = Some n" using assms(2) by (simp add: getNode_def)
  with typesKnownD [OF assms(1) this] \<open>k = w_name n\<close> show "getNode w k \<noteq> None" by simp
qed

lemma startNodeOf_ok:
  assumes "typesKnown nodeTypes w" and "distinct (map fst (wf_nodes w))" and "\<forall>k \<in> set ks. getNode w k \<noteq> None"
  obtains r where "startNodeOf nodeTypes w ks = Inr r"
    and "\<And>n. r = Some n \<Longrightarrow> \<not> isDisabled n"
    and "\<And>k n. k \<in> set ks \<Longrightarrow> getNode w k = Some n \<Longrightarrow> activates nodeTypes n \<Longrightarrow>
           \<exists>m k'. r = Some m \<and> k' \<in> set ks \<and> getNode w k' = Some m \<and> (activates nodeTypes m \<or> ks = [k'])"
proof (cases "onlyNode w ks")
  case (Some n)
  then obtain k where k: "ks = [k]" "getNode w k = Some n" "\<not> isDisabled n"
    by (auto simp: onlyNode_def split: list.splits option.splits if_splits)
  show thesis
  proof (rule that [of "Some n"])
    show "startNodeOf nodeTypes w ks = Inr (Some n)" using Some by (simp add: startNodeOf_def)
  qed (use k in auto)
next
  case None
  let ?fs = "find (activates nodeTypes) (map (\<lambda>k. the (getNode w k)) ks)"
  have run: "startNodeOf nodeTypes w ks = Inr (case ?fs of Some n \<Rightarrow> Some n
    | None \<Rightarrow> find canStart (map (\<lambda>k. the (getNode w k)) (sortedNodeNames w)))"
    unfolding startNodeOf_def None triggerLoop_ok [OF assms(1,3)]
    using startingLoop_ok [OF sorted_names_known [OF assms(1,2)]] by (simp add: Let_def split: option.split)
  show thesis
  proof (rule that [OF run])
    fix n
    assume "(case ?fs of Some n \<Rightarrow> Some n
      | None \<Rightarrow> find canStart (map (\<lambda>k. the (getNode w k)) (sortedNodeNames w))) = Some n"
    then show "\<not> isDisabled n"
      by (auto simp: activates_def canStart_def find_Some_iff split: option.splits)
  next
    fix k n
    assume k: "k \<in> set ks" "getNode w k = Some n" "activates nodeTypes n"
    then have "n \<in> set (map (\<lambda>k. the (getNode w k)) ks)" by force
    with k(3) have "?fs \<noteq> None" unfolding find_None_iff by blast
    then obtain m where m: "?fs = Some m" by auto
    then have "m \<in> set (map (\<lambda>k. the (getNode w k)) ks)" "activates nodeTypes m"
      by (auto simp: find_Some_iff)
    with assms(3) m show "\<exists>m k'. (case ?fs of Some n \<Rightarrow> Some n
      | None \<Rightarrow> find canStart (map (\<lambda>k. the (getNode w k)) (sortedNodeNames w))) = Some m \<and>
        k' \<in> set ks \<and> getNode w k' = Some m \<and> (activates nodeTypes m \<or> ks = [k'])"
      by force
  qed
qed

text \<open>
  With known types and an existing destination the start node is found without an error; it
  is an enabled node, or the destination itself when nothing else can start; and when a
  trigger is among the highest nodes, it is one of them.
\<close>

lemma getStartNode_ok:
  assumes "typesKnown nodeTypes w" and "distinct (map fst (wf_nodes w))"
    and "getNode w k \<noteq> None" and "k \<noteq> []"
  shows "\<exists>n. getStartNode nodeTypes w (Some k) = Inr (Some n) \<and> (isDisabled n \<longrightarrow> getNode w k = Some n) \<and>
    (\<forall>t m. topNode w t \<and> (t, k) \<in> (up_rel w)\<^sup>+ \<and> getNode w t = Some m \<and> activates nodeTypes m \<longrightarrow>
       (\<exists>q. getNode w q = Some n \<and> (q, k) \<in> (up_rel w)\<^sup>*))"
proof -
  let ?highest = "fst (getHighestNode w k None [])"
  let ?names = "if ?highest = [] then [k] else ?highest"
  note highest = getHighestNode_exact [OF assms(3)]
  have known: "\<forall>q \<in> set ?names. getNode w q \<noteq> None"
    using assms(3) highest(2) by (auto simp: enabledNode_def)
  have above: "(q, k) \<in> (up_rel w)\<^sup>*" if "q \<in> set ?names" for q
    using that highest(2) by (auto split: if_splits)
  obtain r where r: "startNodeOf nodeTypes w ?names = Inr r" "\<And>n. r = Some n \<Longrightarrow> \<not> isDisabled n"
    "\<And>q n. q \<in> set ?names \<Longrightarrow> getNode w q = Some n \<Longrightarrow> activates nodeTypes n \<Longrightarrow>
       \<exists>m q'. r = Some m \<and> q' \<in> set ?names \<and> getNode w q' = Some m \<and> (activates nodeTypes m \<or> ?names = [q'])"
    by (rule startNodeOf_ok [OF assms(1,2) known]) blast
  have trigger: "\<exists>n q. r = Some n \<and> getNode w q = Some n \<and> (q, k) \<in> (up_rel w)\<^sup>*"
    if "topNode w t" "(t, k) \<in> (up_rel w)\<^sup>+" "getNode w t = Some m" "activates nodeTypes m" for t m
  proof -
    have "t \<in> set ?names" using highest(3) [OF that(1,2)] by auto
    from r(3) [OF this that(3,4)] show ?thesis using above by blast
  qed
  show ?thesis
  proof (cases r)
    case (Some n)
    have "getStartNode nodeTypes w (Some k) = Inr (Some n)"
      using r(1) Some assms(4) by (simp add: getStartNode_def Let_def)
    with r(2) Some trigger show ?thesis by (intro exI [of _ n]) blast
  next
    case None
    have "hd ?names \<in> set ?names" by simp
    with known obtain n where n: "getNode w (hd ?names) = Some n" by blast
    have "getStartNode nodeTypes w (Some k) = Inr (Some n)"
      using r(1) None assms(4) n by (simp add: getStartNode_def Let_def split: if_splits)
    moreover have "isDisabled n \<longrightarrow> getNode w k = Some n"
    proof (cases "?highest = []")
      case False
      then have "enabledNode w (hd ?names)" using highest(2) by (simp add: hd_in_set)
      with n show ?thesis by (simp add: enabledNode_def)
    qed (use n in simp)
    ultimately show ?thesis using trigger None by blast
  qed
qed

section \<open>Renaming moves the connections\<close>

definition renamed :: "string \<Rightarrow> string \<Rightarrow> string \<Rightarrow> string" where
  "renamed currentName newName k = (if k = currentName then newName else k)"

lemma jm_get_renameTargets:
  "jm_get (renameTargets c n m) k =
     map_option (map (map_prod id (map (map_option (map (renameTarget c n)))))) (jm_get m k)"
  by (induction m) (auto simp: renameTargets_def)

lemma jm_get_mapped: "jm_get (map (map_prod id f) m) k = map_option f (jm_get m k)"
  by (induction m) auto

lemma slot_renameTargets: "slotAt (renameTargets c n m) k = map (renameTarget c n) (slotAt m k)"
proof -
  obtain q ty i where k: "k = (q, ty, i)" by (cases k)
  have "slot_of (map (map_option (map f)) outs) i = map f (slot_of outs i)" for f and outs :: outputs_of
    by (auto simp: slot_of_def arr_get_def split: option.splits)
  then show ?thesis by (simp add: k jm_get_renameTargets jm_get_mapped split: option.split)
qed

text \<open>Every slot of the renamed workflow is the slot it was, with the name replaced in it.\<close>

lemma renameNode_slots:
  assumes "renameNode currentName newName w = Inr w'" and "currentName \<noteq> newName"
    and "\<not> jm_has (wf_bySource w) newName" and "q \<noteq> newName"
  shows "slotAt (wf_bySource w') (renamed currentName newName q, ty, i) =
    map (renameTarget currentName newName) (slotAt (wf_bySource w) (q, ty, i))"
proof -
  have w': "wf_bySource w' = renameTargets currentName newName (renameKey currentName newName (wf_bySource w) id)"
    using assms(1) by (auto simp: renameNode_def split: if_splits)
  have none: "jm_get (wf_bySource w) newName = None" using assms(3) by (simp add: map_of_eq_None_iff)
  have "slotAt (renameKey currentName newName (wf_bySource w) id) (renamed currentName newName q, ty, i) =
      slotAt (wf_bySource w) (q, ty, i)"
    using assms(2,4) none by (auto simp: renameKey_def renamed_def split: option.split)
  then show ?thesis unfolding w' slot_renameTargets by simp
qed

end
