(* ===== verification/WorkflowSearch.thy ===== *)
theory WorkflowSearch
  imports WorkflowClass GraphSelection
begin

text \<open>
  The breadth-first searches of the \<open>Workflow\<close> class: \<open>searchNodesBFS\<close>, level by level
  with the depth of every node it finds, \<open>getNodeConnectionIndexes\<close>, which looks for the
  connection a parent is reached over, and \<open>getConnectionsBetweenNodes\<close>.
\<close>

section \<open>Levels\<close>

record connected_node =
  cn_name :: string
  cn_indicies :: "nat list"
  cn_depth :: nat

text \<open>
  The found nodes are the same objects as the visited ones, so a later change of the
  indices shows in them: the state keeps their names.
\<close>

record bfs_state =
  b_visited :: "(string, connected_node) js_map"
  b_found :: "string list"
  b_queue :: "connected_node list"

definition mainTargetsOf :: "iconnections \<Rightarrow> string \<Rightarrow> iconnection list" where
  "mainTargetsOf connections k =
     (case jm_get connections k of None \<Rightarrow> [] | Some byType \<Rightarrow> connectionsOf (OfType Main) byType)"

definition visit :: "iconnections \<Rightarrow> string \<Rightarrow> nat \<Rightarrow> connected_node \<Rightarrow> bfs_state \<Rightarrow> bfs_state" where
  "visit connections sourceNode depth current s =
     (case jm_get (b_visited s) (cn_name current) of
        Some v \<Rightarrow>
          s\<lparr>b_visited := jm_set (b_visited s) (cn_name current)
                           (v\<lparr>cn_indicies := js_set (cn_indicies v @ cn_indicies current)\<rparr>)\<rparr>
      | None \<Rightarrow>
          \<lparr>b_visited = jm_set (b_visited s) (cn_name current) current,
           b_found = (if cn_name current \<noteq> sourceNode then b_found s @ [cn_name current] else b_found s),
           b_queue = b_queue s @ map (\<lambda>c. \<lparr>cn_name = ic_node c, cn_indicies = [ic_index c], cn_depth = depth\<rparr>)
                                   (mainTargetsOf connections (cn_name current))\<rparr>)"

definition bfsLevel :: "iconnections \<Rightarrow> string \<Rightarrow> nat \<Rightarrow> bfs_state \<Rightarrow> bfs_state" where
  "bfsLevel connections sourceNode depth s =
     foldl (\<lambda>s current. visit connections sourceNode depth current s) (s\<lparr>b_queue := []\<rparr>) (b_queue s)"

function bfsLoop :: "iconnections \<Rightarrow> string \<Rightarrow> int \<Rightarrow> nat \<Rightarrow> bfs_state \<Rightarrow> bfs_state" where
  "bfsLoop connections sourceNode maxDepth depth s =
     (if b_queue s = [] then s
      else if maxDepth \<noteq> - 1 \<and> int depth > maxDepth then s
      else bfsLoop connections sourceNode maxDepth (depth + 1)
             (bfsLevel connections sourceNode (depth + 1) s))"
  by pat_completeness auto

text \<open>A level that visits nothing new leaves the queue empty.\<close>

definition visitedNames :: "bfs_state \<Rightarrow> string set" where
  "visitedNames s = fst ` set (b_visited s)"

definition bfsUniverse :: "iconnections \<Rightarrow> connected_node list \<Rightarrow> string set" where
  "bfsUniverse connections qs =
     cn_name ` set qs \<union> (\<Union>k \<in> fst ` set connections. ic_node ` set (mainTargetsOf connections k))"

lemma bfsUniverse_finite [simp]: "finite (bfsUniverse connections qs)"
  by (simp add: bfsUniverse_def)

lemma mainTargetsOf_universe: "ic_node ` set (mainTargetsOf connections k) \<subseteq> bfsUniverse connections qs"
proof (cases "jm_get connections k")
  case (Some byType)
  then have "k \<in> fst ` set connections" by (force dest: map_of_SomeD)
  then show ?thesis by (auto simp: bfsUniverse_def)
qed (simp add: mainTargetsOf_def)

lemma visit_names [simp]: "visitedNames (visit connections n d q s) = insert (cn_name q) (visitedNames s)"
  by (auto simp: visit_def visitedNames_def split: option.splits)

lemma visit_queue:
  "b_queue (visit connections n d q s) =
     b_queue s @ (if cn_name q \<in> visitedNames s then []
       else map (\<lambda>c. \<lparr>cn_name = ic_node c, cn_indicies = [ic_index c], cn_depth = d\<rparr>) (mainTargetsOf connections (cn_name q)))"
proof (cases "jm_get (b_visited s) (cn_name q)")
  case None
  then have "cn_name q \<notin> visitedNames s" by (simp add: map_of_eq_None_iff visitedNames_def)
  with None show ?thesis by (simp add: visit_def)
next
  case (Some v)
  then have "cn_name q \<in> visitedNames s" unfolding visitedNames_def by (force dest: map_of_SomeD)
  with Some show ?thesis by (simp add: visit_def)
qed

lemma visits_facts:
  fixes connections n d qs
  defines "run \<equiv> \<lambda>s qs. foldl (\<lambda>s q. visit connections n d q s) s qs"
  shows "visitedNames (run s qs) = visitedNames s \<union> cn_name ` set qs"
    and "cn_name ` set qs \<subseteq> visitedNames s \<Longrightarrow> b_queue (run s qs) = b_queue s"
    and "cn_name ` set (b_queue (run s qs)) \<subseteq> cn_name ` set (b_queue s) \<union> bfsUniverse connections []"
proof (induction qs arbitrary: s)
  case (Cons q qs)
  { case 1 show ?case using Cons(1) [of "visit connections n d q s"] by (simp add: run_def) }
  { case 2 then show ?case using Cons(2) [of "visit connections n d q s"]
      by (auto simp: run_def visit_queue) }
  { case 3
    have "cn_name ` set (b_queue (visit connections n d q s)) \<subseteq> cn_name ` set (b_queue s) \<union> bfsUniverse connections []"
      using mainTargetsOf_universe [of connections "cn_name q" "[]"]
      by (simp add: visit_queue image_Un image_image) blast
    moreover have "cn_name ` set (b_queue (run (visit connections n d q s) qs)) \<subseteq>
        cn_name ` set (b_queue (visit connections n d q s)) \<union> bfsUniverse connections []"
      by (rule Cons(3))
    ultimately show ?case by (simp add: run_def) blast }
qed (simp_all add: run_def)

termination bfsLoop
proof (relation "measures [\<lambda>(connections, _, _, _, s). card (bfsUniverse connections (b_queue s) - visitedNames s),
                           \<lambda>(_, _, _, _, s). length (b_queue s)]", goal_cases)
  case (2 connections n maxDepth depth s)
  let ?s' = "bfsLevel connections n (depth + 1) s"
  have names: "visitedNames ?s' = visitedNames s \<union> cn_name ` set (b_queue s)"
    unfolding bfsLevel_def visits_facts(1) by (simp add: visitedNames_def)
  have queue: "cn_name ` set (b_queue ?s') \<subseteq> bfsUniverse connections []"
    using visits_facts(3) [where s = "s\<lparr>b_queue := []\<rparr>" and qs = "b_queue s"] by (simp add: bfsLevel_def)
  have sub: "bfsUniverse connections (b_queue ?s') \<subseteq> bfsUniverse connections (b_queue s)"
    using queue by (auto simp: bfsUniverse_def)
  show ?case
  proof (cases "cn_name ` set (b_queue s) \<subseteq> visitedNames s")
    case True
    then have "b_queue ?s' = []"
      using visits_facts(2) [where s = "s\<lparr>b_queue := []\<rparr>" and qs = "b_queue s"]
      by (simp add: bfsLevel_def visitedNames_def)
    moreover have "card (bfsUniverse connections (b_queue ?s') - visitedNames ?s') \<le>
        card (bfsUniverse connections (b_queue s) - visitedNames s)"
      using sub names by (intro card_mono) auto
    ultimately show ?thesis using 2(1) by (auto simp: le_less)
  next
    case False
    then obtain k where "k \<in> cn_name ` set (b_queue s)" "k \<notin> visitedNames s" by blast
    then have "card (bfsUniverse connections (b_queue ?s') - visitedNames ?s') <
        card (bfsUniverse connections (b_queue s) - visitedNames s)"
      using sub names by (intro psubset_card_mono) (auto simp: bfsUniverse_def)
    then show ?thesis by simp
  qed
qed simp

declare bfsLoop.simps [simp del]

definition searchNodesBFS :: "iconnections \<Rightarrow> string \<Rightarrow> int \<Rightarrow> connected_node list" where
  "searchNodesBFS connections sourceNode maxDepth =
     (let s = bfsLoop connections sourceNode maxDepth 0
                \<lparr>b_visited = [], b_found = [],
                 b_queue = [\<lparr>cn_name = sourceNode, cn_indicies = [], cn_depth = 0\<rparr>]\<rparr>
      in map (\<lambda>k. the (jm_get (b_visited s) k)) (b_found s))"

definition getParentNodesByDepth :: "workflow \<Rightarrow> string \<Rightarrow> int \<Rightarrow> connected_node list" where
  "getParentNodesByDepth w nodeName maxDepth = searchNodesBFS (wf_byDestination w) nodeName maxDepth"

section \<open>Depths are shortest distances\<close>

definition main_steps :: "iconnections \<Rightarrow> (string \<times> string) set" where
  "main_steps connections = follows_rel connections (OfType Main)"

lemma main_steps_iff: "(a, b) \<in> main_steps connections \<longleftrightarrow> b \<in> ic_node ` set (mainTargetsOf connections a)"
  by (cases "jm_get connections a") (auto simp: main_steps_def follows_rel_def mainTargetsOf_def)

definition shortest :: "(string \<times> string) set \<Rightarrow> string \<Rightarrow> string \<Rightarrow> nat \<Rightarrow> bool" where
  "shortest R n m k \<longleftrightarrow> (n, m) \<in> R ^^ k \<and> (\<forall>j < k. (n, m) \<notin> R ^^ j)"

text \<open>What is visited: every node with its name and its distance; all but the source are found.\<close>

definition visited_ok :: "(string \<times> string) set \<Rightarrow> string \<Rightarrow> bfs_state \<Rightarrow> bool" where
  "visited_ok R n s \<longleftrightarrow>
     (\<forall>m v. jm_get (b_visited s) m = Some v \<longrightarrow> cn_name v = m \<and> shortest R n m (cn_depth v)) \<and>
     distinct (b_found s) \<and> set (b_found s) = visitedNames s - {n}"

definition during_level ::
  "iconnections \<Rightarrow> string \<Rightarrow> nat \<Rightarrow> string set \<Rightarrow> string set \<Rightarrow> bfs_state \<Rightarrow> bool" where
  "during_level connections n k V P s \<longleftrightarrow>
     visited_ok (main_steps connections) n s \<and> visitedNames s = V \<union> P \<and>
     (\<forall>q \<in> set (b_queue s). cn_depth q = k + 1 \<and> (n, cn_name q) \<in> main_steps connections ^^ (k + 1)) \<and>
     (\<forall>m b. m \<in> P - V \<longrightarrow> (m, b) \<in> main_steps connections \<longrightarrow> b \<in> cn_name ` set (b_queue s))"

lemma visit_during_level:
  assumes inv: "during_level connections n k V P s"
    and q: "cn_depth q = k" "(n, cn_name q) \<in> main_steps connections ^^ k"
    and V: "\<And>j. j < k \<Longrightarrow> (n, cn_name q) \<in> main_steps connections ^^ j \<Longrightarrow> cn_name q \<in> V"
  shows "during_level connections n k V (insert (cn_name q) P) (visit connections n (k + 1) q s)"
proof (cases "jm_get (b_visited s) (cn_name q)")
  case (Some v)
  then have "cn_name q \<in> visitedNames s" unfolding visitedNames_def by (force dest: map_of_SomeD)
  moreover have "visited_ok (main_steps connections) n (visit connections n (k + 1) q s)"
    using inv Some \<open>cn_name q \<in> visitedNames s\<close>
    by (auto simp: visit_def during_level_def visited_ok_def visitedNames_def)
  ultimately show ?thesis using inv by (auto simp: during_level_def visit_queue)
next
  case None
  then have new: "cn_name q \<notin> visitedNames s" by (simp add: map_of_eq_None_iff visitedNames_def)
  then have "shortest (main_steps connections) n (cn_name q) k"
    using inv q(2) V by (auto simp: during_level_def shortest_def)
  then have ok: "visited_ok (main_steps connections) n (visit connections n (k + 1) q s)"
    using inv None new q(1) by (auto simp: visit_def during_level_def visited_ok_def visitedNames_def)
  have targets: "(n, b) \<in> main_steps connections ^^ (k + 1)" if "b \<in> ic_node ` set (mainTargetsOf connections (cn_name q))" for b
    using q(2) that by (auto simp: main_steps_iff)
  have queue: "b_queue (visit connections n (k + 1) q s) =
      b_queue s @ map (\<lambda>c. \<lparr>cn_name = ic_node c, cn_indicies = [ic_index c], cn_depth = k + 1\<rparr>)
                      (mainTargetsOf connections (cn_name q))"
    using new by (simp add: visit_queue)
  have names: "cn_name ` set (b_queue (visit connections n (k + 1) q s)) =
      cn_name ` set (b_queue s) \<union> ic_node ` set (mainTargetsOf connections (cn_name q))"
    unfolding queue by (simp add: image_Un image_image)
  show ?thesis
    unfolding during_level_def
  proof (intro conjI ballI allI impI)
    show "visited_ok (main_steps connections) n (visit connections n (k + 1) q s)" by (rule ok)
    show "visitedNames (visit connections n (k + 1) q s) = V \<union> insert (cn_name q) P"
      using inv by (simp add: during_level_def)
  next
    fix r
    assume "r \<in> set (b_queue (visit connections n (k + 1) q s))"
    then consider "r \<in> set (b_queue s)" | c where "c \<in> set (mainTargetsOf connections (cn_name q))"
        "r = \<lparr>cn_name = ic_node c, cn_indicies = [ic_index c], cn_depth = k + 1\<rparr>"
      unfolding queue by auto
    then show "cn_depth r = k + 1" "(n, cn_name r) \<in> main_steps connections ^^ (k + 1)"
      using inv targets unfolding during_level_def by (cases, blast, simp)+
  next
    fix m b
    assume "m \<in> insert (cn_name q) P - V" and b: "(m, b) \<in> main_steps connections"
    then consider "m = cn_name q" | "m \<in> P - V" by blast
    then show "b \<in> cn_name ` set (b_queue (visit connections n (k + 1) q s))"
      unfolding names using inv b unfolding during_level_def by cases (simp add: main_steps_iff, blast)
  qed
qed

lemma level_during:
  assumes "during_level connections n k V P s"
    and "\<forall>q \<in> set qs. cn_depth q = k \<and> (n, cn_name q) \<in> main_steps connections ^^ k"
    and "\<And>m j. j < k \<Longrightarrow> (n, m) \<in> main_steps connections ^^ j \<Longrightarrow> m \<in> V"
  shows "during_level connections n k V (P \<union> cn_name ` set qs) (foldl (\<lambda>s q. visit connections n (k + 1) q s) s qs)"
  using assms(1,2)
proof (induction qs arbitrary: s P)
  case (Cons q qs)
  have "during_level connections n k V (insert (cn_name q) P) (visit connections n (k + 1) q s)"
    using Cons.prems assms(3) by (intro visit_during_level) auto
  from Cons.IH [OF this] Cons.prems(2) show ?case by simp
qed simp

text \<open>Between two levels: visited is what is nearer, queued what is next.\<close>

definition between_levels :: "iconnections \<Rightarrow> string \<Rightarrow> nat \<Rightarrow> bfs_state \<Rightarrow> bool" where
  "between_levels connections n k s \<longleftrightarrow>
     visited_ok (main_steps connections) n s \<and>
     (\<forall>m. m \<in> visitedNames s \<longleftrightarrow> (\<exists>j < k. (n, m) \<in> main_steps connections ^^ j)) \<and>
     (\<forall>q \<in> set (b_queue s). cn_depth q = k \<and> (n, cn_name q) \<in> main_steps connections ^^ k) \<and>
     (\<forall>m. (n, m) \<in> main_steps connections ^^ k \<longrightarrow> m \<in> cn_name ` set (b_queue s) \<or> m \<in> visitedNames s)"

lemma bfsLevel_between:
  assumes inv: "between_levels connections n k s"
  shows "between_levels connections n (k + 1) (bfsLevel connections n (k + 1) s)"
proof -
  let ?R = "main_steps connections" and ?s' = "bfsLevel connections n (k + 1) s"
  have V: "m \<in> visitedNames s \<longleftrightarrow> (\<exists>j < k. (n, m) \<in> ?R ^^ j)" for m using inv by (simp add: between_levels_def)
  have queue: "\<forall>q \<in> set (b_queue s). cn_depth q = k \<and> (n, cn_name q) \<in> ?R ^^ k"
    using inv by (simp add: between_levels_def)
  have next_level: "m \<in> cn_name ` set (b_queue s) \<or> m \<in> visitedNames s" if "(n, m) \<in> ?R ^^ k" for m
    using inv that unfolding between_levels_def by blast
  have "during_level connections n k (visitedNames s) {} (s\<lparr>b_queue := []\<rparr>)"
    using inv by (simp add: during_level_def between_levels_def visited_ok_def visitedNames_def)
  from level_during [OF this queue] V
  have d: "during_level connections n k (visitedNames s) (cn_name ` set (b_queue s)) ?s'"
    by (simp add: bfsLevel_def) blast
  then have names: "visitedNames ?s' = visitedNames s \<union> cn_name ` set (b_queue s)"
    by (simp add: during_level_def)
  have visited': "m \<in> visitedNames ?s' \<longleftrightarrow> (\<exists>j < k + 1. (n, m) \<in> ?R ^^ j)" for m
  proof
    assume "m \<in> visitedNames ?s'"
    then show "\<exists>j < k + 1. (n, m) \<in> ?R ^^ j" using names V queue by (auto intro: less_SucI)
  next
    assume "\<exists>j < k + 1. (n, m) \<in> ?R ^^ j"
    then consider "\<exists>j < k. (n, m) \<in> ?R ^^ j" | "(n, m) \<in> ?R ^^ k" by (auto simp: less_Suc_eq)
    then show "m \<in> visitedNames ?s'" by cases (use names V next_level in blast)+
  qed
  have "m \<in> cn_name ` set (b_queue ?s') \<or> m \<in> visitedNames ?s'" if "(n, m) \<in> ?R ^^ (k + 1)" for m
  proof -
    have "(n, m) \<in> ?R ^^ k O ?R" using that by simp
    then obtain p where p: "(n, p) \<in> ?R ^^ k" "(p, m) \<in> ?R" by blast
    show ?thesis
    proof (cases "p \<in> visitedNames s")
      case True
      then obtain j where "j < k" "(n, p) \<in> ?R ^^ j" using V by blast
      then have "j + 1 < k + 1" "(n, m) \<in> ?R ^^ (j + 1)" using p(2) by auto
      then show ?thesis using visited' by blast
    next
      case False
      with next_level p(1) have "p \<in> cn_name ` set (b_queue s) - visitedNames s" by blast
      with d p(2) show ?thesis unfolding during_level_def by blast
    qed
  qed
  moreover have "visited_ok ?R n ?s'"
    "\<forall>q \<in> set (b_queue ?s'). cn_depth q = k + 1 \<and> (n, cn_name q) \<in> ?R ^^ (k + 1)"
    using d by (simp_all add: during_level_def)
  ultimately show ?thesis unfolding between_levels_def using visited' by blast
qed

lemma no_next_level:
  fixes R :: "('a \<times> 'a) set"
  assumes "\<forall>m. (n, m) \<in> R ^^ k \<longrightarrow> (\<exists>j < k. (n, m) \<in> R ^^ j)"
  shows "(n, m) \<in> R ^^ i \<Longrightarrow> \<exists>j < k. (n, m) \<in> R ^^ j"
proof (induction i arbitrary: m)
  case 0
  then show ?case using assms by (cases k) (auto intro: exI [of _ 0])
next
  case (Suc i)
  then obtain p where "(n, p) \<in> R ^^ i" "(p, m) \<in> R" by auto
  with Suc.IH obtain j where j: "j < k" "(n, p) \<in> R ^^ j" by blast
  then have "(n, m) \<in> R ^^ Suc j" using \<open>(p, m) \<in> R\<close> by auto
  with j(1) assms show ?case by (metis Suc_lessI)
qed

lemma bfsLoop_result:
  assumes "between_levels connections n depth s" and "maxDepth \<noteq> - 1 \<longrightarrow> int depth \<le> maxDepth + 1"
  shows "visited_ok (main_steps connections) n (bfsLoop connections n maxDepth depth s) \<and>
    visitedNames (bfsLoop connections n maxDepth depth s) =
      {m. \<exists>j. (n, m) \<in> main_steps connections ^^ j \<and> (maxDepth = - 1 \<or> int j \<le> maxDepth)}"
  using assms
proof (induction connections n maxDepth depth s rule: bfsLoop.induct)
  case (1 connections n maxDepth depth s)
  let ?R = "main_steps connections"
  have V: "m \<in> visitedNames s \<longleftrightarrow> (\<exists>j < depth. (n, m) \<in> ?R ^^ j)" for m
    using "1.prems"(1) by (simp add: between_levels_def)
  have ok: "visited_ok ?R n s" using "1.prems"(1) by (simp add: between_levels_def)
  show ?case
  proof (cases "b_queue s = []")
    case True
    then have "\<forall>m. (n, m) \<in> ?R ^^ depth \<longrightarrow> (\<exists>j < depth. (n, m) \<in> ?R ^^ j)"
      using "1.prems"(1) V by (auto simp: between_levels_def)
    from no_next_level [OF this] have all: "(\<exists>j < depth. (n, m) \<in> ?R ^^ j) \<longleftrightarrow> (\<exists>j. (n, m) \<in> ?R ^^ j)" for m by blast
    have "(\<exists>j < depth. (n, m) \<in> ?R ^^ j) \<longleftrightarrow> (\<exists>j. (n, m) \<in> ?R ^^ j \<and> (maxDepth = - 1 \<or> int j \<le> maxDepth))" for m
    proof (cases "maxDepth = - 1")
      case False
      with "1.prems"(2) have "int j \<le> maxDepth" if "j < depth" for j using that by linarith
      with all show ?thesis by blast
    qed (use all in simp)
    with True V ok show ?thesis by (auto simp: bfsLoop.simps)
  next
    case False
    show ?thesis
    proof (cases "maxDepth \<noteq> - 1 \<and> int depth > maxDepth")
      case True
      with "1.prems"(2) have "j < depth \<longleftrightarrow> int j \<le> maxDepth" for j by linarith
      with True V ok False show ?thesis by (auto simp: bfsLoop.simps)
    next
      case go: False
      then have "maxDepth \<noteq> - 1 \<longrightarrow> int (depth + 1) \<le> maxDepth + 1" by auto
      from "1.IH" [OF False go bfsLevel_between [OF "1.prems"(1)] this]
      moreover have "bfsLoop connections n maxDepth depth s =
          bfsLoop connections n maxDepth (depth + 1) (bfsLevel connections n (depth + 1) s)"
        using False go by (subst bfsLoop.simps) auto
      ultimately show ?thesis by simp
    qed
  qed
qed

definition inReach :: "int \<Rightarrow> nat \<Rightarrow> bool" where
  "inReach maxDepth j \<longleftrightarrow> maxDepth = - 1 \<or> int j \<le> maxDepth"

lemma searchNodesBFS_exact:
  fixes connections :: iconnections and n :: string and maxDepth :: int
  defines "result \<equiv> searchNodesBFS connections n maxDepth"
  shows "distinct (map cn_name result) \<and>
    cn_name ` set result = {m. m \<noteq> n \<and> (\<exists>j. (n, m) \<in> main_steps connections ^^ j \<and> inReach maxDepth j)} \<and>
    (\<forall>r \<in> set result. shortest (main_steps connections) n (cn_name r) (cn_depth r))"
proof -
  let ?initial = "\<lparr>b_visited = [], b_found = [], b_queue = [\<lparr>cn_name = n, cn_indicies = [], cn_depth = 0\<rparr>]\<rparr>"
  let ?s = "bfsLoop connections n maxDepth 0 ?initial"
  show ?thesis
  proof (cases "maxDepth < - 1")
    case True
    then have "result = []" by (simp add: result_def searchNodesBFS_def bfsLoop.simps)
    moreover have "\<not> inReach maxDepth j" for j using True by (simp add: inReach_def)
    ultimately show ?thesis by simp
  next
    case False
    have "between_levels connections n 0 ?initial"
      by (auto simp: between_levels_def visited_ok_def visitedNames_def)
    moreover have "maxDepth \<noteq> - 1 \<longrightarrow> int 0 \<le> maxDepth + 1" using False by simp
    ultimately have "visited_ok (main_steps connections) n ?s \<and>
        visitedNames ?s = {m. \<exists>j. (n, m) \<in> main_steps connections ^^ j \<and> (maxDepth = - 1 \<or> int j \<le> maxDepth)}"
      by (rule bfsLoop_result)
    then have ok: "visited_ok (main_steps connections) n ?s" and
      names: "visitedNames ?s = {m. \<exists>j. (n, m) \<in> main_steps connections ^^ j \<and> inReach maxDepth j}"
      by (auto simp: inReach_def)
    have value_of: "\<exists>v. jm_get (b_visited ?s) k = Some v \<and> cn_name v = k \<and> shortest (main_steps connections) n k (cn_depth v)"
      if "k \<in> set (b_found ?s)" for k
    proof -
      have "k \<in> fst ` set (b_visited ?s)" using ok that by (simp add: visited_ok_def visitedNames_def)
      then obtain v where "jm_get (b_visited ?s) k = Some v" by (metis map_of_eq_None_iff option.exhaust)
      with ok show ?thesis by (auto simp: visited_ok_def)
    qed
    have found: "map cn_name result = b_found ?s"
      unfolding result_def searchNodesBFS_def Let_def map_map o_def
      by (rule map_idI) (use value_of in force)
    moreover have "distinct (b_found ?s)" "set (b_found ?s) = visitedNames ?s - {n}"
      using ok by (simp_all add: visited_ok_def)
    ultimately have "distinct (map cn_name result)" "set (map cn_name result) = visitedNames ?s - {n}" by simp_all
    moreover have "shortest (main_steps connections) n (cn_name r) (cn_depth r)" if "r \<in> set result" for r
    proof -
      obtain k where "k \<in> set (b_found ?s)" "r = the (jm_get (b_visited ?s) k)"
        using \<open>r \<in> set result\<close> by (auto simp: result_def searchNodesBFS_def Let_def)
      with value_of show ?thesis by force
    qed
    ultimately show ?thesis using names by auto
  qed
qed

section \<open>The connection to a parent\<close>

record node_connection =
  nc_sourceIndex :: nat
  nc_destinationIndex :: nat

text \<open>The connections into a node, each with its position in its list; empty slots are skipped.\<close>

definition positioned :: "outputs_of \<Rightarrow> (nat \<times> iconnection) list" where
  "positioned typeConnections =
     concat (map (\<lambda>conns. case conns of None \<Rightarrow> [] | Some cs \<Rightarrow> enumerate 0 cs) typeConnections)"

fun scanConnections ::
  "string \<Rightarrow> string list \<Rightarrow> (nat \<times> iconnection) list \<Rightarrow> string list \<Rightarrow> node_connection + string list" where
  "scanConnections parentNodeName visited [] queue = Inr queue"
| "scanConnections parentNodeName visited ((destinationIndex, c) # cs) queue =
     (if ic_node c = parentNodeName
      then Inl \<lparr>nc_sourceIndex = ic_index c, nc_destinationIndex = destinationIndex\<rparr>
      else scanConnections parentNodeName visited cs
             (if ic_node c \<in> set visited then queue else queue @ [ic_node c]))"

definition connectionsInto :: "iconnections \<Rightarrow> string \<Rightarrow> connection_type \<Rightarrow> outputs_of" where
  "connectionsInto byDest k ty =
     (case jm_get byDest k of None \<Rightarrow> []
      | Some byType \<Rightarrow> (case jm_get byType ty of None \<Rightarrow> [] | Some outs \<Rightarrow> outs))"

function indexLoop ::
  "iconnections \<Rightarrow> connection_type \<Rightarrow> string \<Rightarrow> string list \<Rightarrow> string list \<Rightarrow> node_connection option" where
  "indexLoop byDest ty parentNodeName [] visited = None"
| "indexLoop byDest ty parentNodeName (k # queue) visited =
     (if k \<in> set visited then indexLoop byDest ty parentNodeName queue visited
      else case scanConnections parentNodeName (k # visited) (positioned (connectionsInto byDest k ty)) queue of
        Inl found \<Rightarrow> Some found
      | Inr queue' \<Rightarrow> indexLoop byDest ty parentNodeName queue' (k # visited))"
  by pat_completeness auto

termination indexLoop
proof (relation "measures [\<lambda>(byDest, _, _, _, visited). card (fst ` set byDest - set visited),
                           \<lambda>(_, _, _, queue, _). length queue]", goal_cases)
  case (3 byDest ty parentNodeName k queue visited queue')
  show ?case
  proof (cases "k \<in> fst ` set byDest")
    case True
    then have "card (fst ` set byDest - set (k # visited)) < card (fst ` set byDest - set visited)"
      using 3(1) by (intro psubset_card_mono) auto
    then show ?thesis by simp
  next
    case False
    then have "jm_get byDest k = None" by (simp add: map_of_eq_None_iff)
    then have "queue' = queue" using 3(2) by (simp add: connectionsInto_def positioned_def)
    moreover have "fst ` set byDest - set (k # visited) = fst ` set byDest - set visited" using False by auto
    ultimately show ?thesis by simp
  qed
qed simp_all

definition getNodeConnectionIndexes ::
  "workflow \<Rightarrow> string \<Rightarrow> string \<Rightarrow> connection_type \<Rightarrow> node_connection option" where
  "getNodeConnectionIndexes w nodeName parentNodeName ty =
     (case getNode w parentNodeName of
        None \<Rightarrow> None
      | Some _ \<Rightarrow> indexLoop (wf_byDestination w) ty parentNodeName [nodeName] [])"

lemma positioned_iff:
  "(d, c) \<in> set (positioned outs) \<longleftrightarrow> (\<exists>i. d < length (slot_of outs i) \<and> slot_of outs i ! d = c)"
proof -
  have "(d, c) \<in> set (positioned outs) \<longleftrightarrow> (\<exists>cs. Some cs \<in> set outs \<and> d < length cs \<and> cs ! d = c)"
    unfolding positioned_def in_concat_map in_case_option
    by (auto simp: in_set_enumerate_eq)
  also have "\<dots> \<longleftrightarrow> (\<exists>i. d < length (slot_of outs i) \<and> slot_of outs i ! d = c)"
  proof
    assume "\<exists>cs. Some cs \<in> set outs \<and> d < length cs \<and> cs ! d = c"
    then obtain cs i where "i < length outs" "outs ! i = Some cs" "d < length cs" "cs ! d = c"
      by (auto simp: in_set_conv_nth)
    then show "\<exists>i. d < length (slot_of outs i) \<and> slot_of outs i ! d = c"
      by (intro exI [of _ i]) (simp add: slot_of_def arr_get_def)
  next
    assume "\<exists>i. d < length (slot_of outs i) \<and> slot_of outs i ! d = c"
    then obtain i where i: "d < length (slot_of outs i)" "slot_of outs i ! d = c" by blast
    then have "i < length outs" by (auto simp: slot_of_def arr_get_def split: if_splits)
    moreover obtain cs where "outs ! i = Some cs"
      using i(1) \<open>i < length outs\<close> by (cases "outs ! i") (auto simp: slot_of_def arr_get_def)
    ultimately show "\<exists>cs. Some cs \<in> set outs \<and> d < length cs \<and> cs ! d = c"
      using i by (intro exI [of _ cs]) (auto simp: slot_of_def arr_get_def dest: nth_mem)
  qed
  finally show ?thesis .
qed

lemma scanConnections_Inl:
  "scanConnections parent visited cs queue = Inl r \<Longrightarrow>
     \<exists>c. (nc_destinationIndex r, c) \<in> set cs \<and> ic_node c = parent \<and> ic_index c = nc_sourceIndex r"
  by (induction parent visited cs queue rule: scanConnections.induct) (auto split: if_splits)

lemma scanConnections_Inr:
  "scanConnections parent visited cs queue = Inr queue' \<Longrightarrow>
     parent \<notin> ic_node ` snd ` set cs \<and>
     set queue' = set queue \<union> (ic_node ` snd ` set cs - set visited)"
  by (induction parent visited cs queue rule: scanConnections.induct) (auto split: if_splits)

definition typed_steps :: "iconnections \<Rightarrow> connection_type \<Rightarrow> (string \<times> string) set" where
  "typed_steps connections ty = follows_rel connections (OfType ty)"

lemma slot_connectionsInto: "slotAt m (k, ty, i) = slot_of (connectionsInto m k ty) i"
proof -
  have "slot_of [] i = []" by (simp add: slot_of_def arr_get_def)
  then show ?thesis by (simp add: connectionsInto_def split: option.split)
qed

lemma typed_steps_iff: "(k, b) \<in> typed_steps m ty \<longleftrightarrow> b \<in> ic_node ` snd ` set (positioned (connectionsInto m k ty))"
proof -
  have "(k, b) \<in> typed_steps m ty \<longleftrightarrow> (\<exists>i c. c \<in> set (slot_of (connectionsInto m k ty) i) \<and> ic_node c = b)"
    unfolding typed_steps_def follows_slot slot_connectionsInto by simp
  also have "\<dots> \<longleftrightarrow> (\<exists>d c. (d, c) \<in> set (positioned (connectionsInto m k ty)) \<and> ic_node c = b)"
    unfolding positioned_iff in_set_conv_nth [of _ "slot_of _ _"] by blast
  finally show ?thesis by force
qed

text \<open>
  What is visited neither leads to the parent directly nor to anything unknown; so the
  parent can only be above what is still queued.
\<close>

lemma above_queue:
  assumes "\<forall>a b. a \<in> V \<longrightarrow> (a, b) \<in> R \<longrightarrow> b \<in> V \<or> b \<in> Q" and "\<forall>a \<in> V. (a, parent) \<notin> R"
    and "a \<in> V" and "(a, parent) \<in> R\<^sup>+"
  shows "\<exists>q \<in> Q. (q, parent) \<in> R\<^sup>+"
proof -
  obtain p where p: "(a, p) \<in> R\<^sup>*" "(p, parent) \<in> R" using assms(4) by (meson tranclD2)
  then have "p \<notin> V" using assms(2) by blast
  from leaves_closed_part [OF p(1) assms(3) this] assms(1) obtain q where "q \<in> Q" "(q, p) \<in> R\<^sup>*" by blast
  with p(2) show ?thesis by (meson rtrancl_into_trancl1)
qed

lemma indexLoop_None:
  assumes "\<forall>a b. a \<in> set visited \<longrightarrow> (a, b) \<in> typed_steps m ty \<longrightarrow> b \<in> set visited \<or> b \<in> set queue"
    and "\<forall>a \<in> set visited. (a, parent) \<notin> typed_steps m ty"
  shows "indexLoop m ty parent queue visited = None \<longleftrightarrow> (\<forall>q \<in> set queue. (q, parent) \<notin> (typed_steps m ty)\<^sup>+)"
  using assms
proof (induction m ty parent queue visited rule: indexLoop.induct)
  case (2 m ty parent k queue visited)
  let ?R = "typed_steps m ty"
  show ?case
  proof (cases "k \<in> set visited")
    case True
    have closed: "\<forall>a b. a \<in> set visited \<longrightarrow> (a, b) \<in> ?R \<longrightarrow> b \<in> set visited \<or> b \<in> set queue"
      using "2.prems"(1) True by auto
    have "(k, parent) \<in> ?R\<^sup>+ \<longrightarrow> (\<exists>q \<in> set queue. (q, parent) \<in> ?R\<^sup>+)"
      using above_queue [OF closed "2.prems"(2) True] by blast
    with "2.IH"(1) [OF True closed "2.prems"(2)] True show ?thesis by auto
  next
    case False
    let ?scan = "scanConnections parent (k # visited) (positioned (connectionsInto m k ty)) queue"
    show ?thesis
    proof (cases ?scan)
      case (Inl found)
      from scanConnections_Inl [OF this] have "(k, parent) \<in> ?R" unfolding typed_steps_iff by force
      with Inl False show ?thesis by auto
    next
      case (Inr queue')
      from scanConnections_Inr [OF this]
      have none: "(k, parent) \<notin> ?R" and queue': "set queue' = set queue \<union> ({b. (k, b) \<in> ?R} - set (k # visited))"
        unfolding typed_steps_iff by auto
      have closed: "\<forall>a b. a \<in> set (k # visited) \<longrightarrow> (a, b) \<in> ?R \<longrightarrow> b \<in> set (k # visited) \<or> b \<in> set queue'"
        using "2.prems"(1) queue' by auto
      have no_parent: "\<forall>a \<in> set (k # visited). (a, parent) \<notin> ?R" using "2.prems"(2) none by simp
      have "(\<forall>q \<in> set queue'. (q, parent) \<notin> ?R\<^sup>+) \<longleftrightarrow> (\<forall>q \<in> set (k # queue). (q, parent) \<notin> ?R\<^sup>+)"
      proof
        assume *: "\<forall>q \<in> set queue'. (q, parent) \<notin> ?R\<^sup>+"
        have "(k, parent) \<notin> ?R\<^sup>+" using above_queue [OF closed no_parent, of k] * by auto
        with * queue' show "\<forall>q \<in> set (k # queue). (q, parent) \<notin> ?R\<^sup>+" by auto
      next
        assume "\<forall>q \<in> set (k # queue). (q, parent) \<notin> ?R\<^sup>+"
        then show "\<forall>q \<in> set queue'. (q, parent) \<notin> ?R\<^sup>+"
          using queue' by (auto intro: trancl_into_trancl2)
      qed
      with "2.IH"(2) [OF False Inr closed no_parent] False Inr show ?thesis by simp
    qed
  qed
qed simp

lemma indexLoop_Some:
  assumes "indexLoop m ty parent queue visited = Some r"
  shows "\<exists>q \<in> set queue. \<exists>k i c. (q, k) \<in> (typed_steps m ty)\<^sup>* \<and> nc_destinationIndex r < length (slotAt m (k, ty, i)) \<and>
    slotAt m (k, ty, i) ! nc_destinationIndex r = c \<and> ic_node c = parent \<and> ic_index c = nc_sourceIndex r"
  using assms
proof (induction m ty parent queue visited rule: indexLoop.induct)
  case (2 m ty parent k queue visited)
  show ?case
  proof (cases "k \<in> set visited")
    case True
    with 2 show ?thesis by force
  next
    case False
    show ?thesis
    proof (cases "scanConnections parent (k # visited) (positioned (connectionsInto m k ty)) queue")
      case (Inl found)
      with "2.prems" False have "found = r" by simp
      with scanConnections_Inl [OF Inl] obtain c where
        "(nc_destinationIndex r, c) \<in> set (positioned (connectionsInto m k ty))" "ic_node c = parent" "ic_index c = nc_sourceIndex r"
        by blast
      then show ?thesis unfolding positioned_iff slot_connectionsInto by (intro bexI [of _ k] exI [of _ k]) auto
    next
      case (Inr queue')
      with "2.prems" False have "indexLoop m ty parent queue' (k # visited) = Some r" by simp
      from "2.IH"(2) [OF False Inr this] obtain q p i c where
        q: "q \<in> set queue'" "(q, p) \<in> (typed_steps m ty)\<^sup>*" "nc_destinationIndex r < length (slotAt m (p, ty, i))"
          "slotAt m (p, ty, i) ! nc_destinationIndex r = c" "ic_node c = parent" "ic_index c = nc_sourceIndex r"
        by blast
      have "q \<in> set queue \<or> (k, q) \<in> typed_steps m ty"
        using q(1) scanConnections_Inr [OF Inr] unfolding typed_steps_iff by auto
      then have "\<exists>q' \<in> set (k # queue). (q', p) \<in> (typed_steps m ty)\<^sup>*"
        using q(2) by (auto intro: converse_rtrancl_into_rtrancl)
      with q(3-6) show ?thesis by blast
    qed
  qed
qed simp

lemma getNodeConnectionIndexes_exact:
  "(getNodeConnectionIndexes w k parent ty = None \<longleftrightarrow>
      getNode w parent = None \<or> (k, parent) \<notin> (typed_steps (wf_byDestination w) ty)\<^sup>+) \<and>
   (\<forall>r. getNodeConnectionIndexes w k parent ty = Some r \<longrightarrow>
      (\<exists>q i c. (k, q) \<in> (typed_steps (wf_byDestination w) ty)\<^sup>* \<and>
         nc_destinationIndex r < length (slotAt (wf_byDestination w) (q, ty, i)) \<and>
         slotAt (wf_byDestination w) (q, ty, i) ! nc_destinationIndex r = c \<and>
         ic_node c = parent \<and> ic_index c = nc_sourceIndex r))"
proof (cases "getNode w parent")
  case None
  then show ?thesis by (simp add: getNodeConnectionIndexes_def)
next
  case (Some n)
  then have run: "getNodeConnectionIndexes w k parent ty = indexLoop (wf_byDestination w) ty parent [k] []"
    by (simp add: getNodeConnectionIndexes_def)
  show ?thesis
    unfolding run using Some indexLoop_None [of "[]" "wf_byDestination w" ty "[k]" parent]
      indexLoop_Some [of "wf_byDestination w" ty parent "[k]" "[]"]
    by simp
qed

section \<open>Connections between two groups of nodes\<close>

definition outputsBetween ::
  "string list \<Rightarrow> string \<Rightarrow> connection_type \<Rightarrow> outputs_of \<Rightarrow> (iconnection \<times> iconnection) list" where
  "outputsBetween targets source ty outs =
     concat (map (\<lambda>(sourceIndex, conns).
       map (Pair \<lparr>ic_node = source, ic_type = ty, ic_index = sourceIndex\<rparr>)
         (filter (\<lambda>c. ic_node c \<in> set targets) (case conns of None \<Rightarrow> [] | Some cs \<Rightarrow> cs)))
       (enumerate 0 outs))"

definition getConnectionsBetweenNodes :: "workflow \<Rightarrow> string list \<Rightarrow> string list \<Rightarrow> (iconnection \<times> iconnection) list" where
  "getConnectionsBetweenNodes w sources targets =
     concat (map (\<lambda>source.
       case jm_get (wf_bySource w) source of
         None \<Rightarrow> []
       | Some byType \<Rightarrow> concat (map (\<lambda>e. outputsBetween targets source (fst e) (snd e)) byType))
       sources)"

lemma in_outputsBetween:
  "(a, c) \<in> set (outputsBetween targets source ty outs) \<longleftrightarrow>
     ic_node a = source \<and> ic_type a = ty \<and> ic_node c \<in> set targets \<and> c \<in> set (slot_of outs (ic_index a))"
proof -
  have "(a, c) \<in> set (outputsBetween targets source ty outs) \<longleftrightarrow>
      (\<exists>i conns. (i, conns) \<in> set (enumerate 0 outs) \<and> a = \<lparr>ic_node = source, ic_type = ty, ic_index = i\<rparr> \<and>
        ic_node c \<in> set targets \<and> (\<exists>cs. conns = Some cs \<and> c \<in> set cs))"
    unfolding outputsBetween_def in_concat_map by (auto simp: in_case_option)
  also have "\<dots> \<longleftrightarrow> (\<exists>i cs. i < length outs \<and> outs ! i = Some cs \<and> c \<in> set cs \<and> ic_node c \<in> set targets \<and>
      a = \<lparr>ic_node = source, ic_type = ty, ic_index = i\<rparr>)"
    by (auto simp: in_set_enumerate_eq)
  also have "\<dots> \<longleftrightarrow> ic_node a = source \<and> ic_type a = ty \<and> ic_node c \<in> set targets \<and> c \<in> set (slot_of outs (ic_index a))"
    unfolding in_slot_of by (cases a) auto
  finally show ?thesis .
qed

lemma getConnectionsBetweenNodes_exact:
  assumes "keyed (wf_bySource w)"
  shows "(a, c) \<in> set (getConnectionsBetweenNodes w sources targets) \<longleftrightarrow>
    ic_node a \<in> set sources \<and> ic_node c \<in> set targets \<and>
    c \<in> set (slotAt (wf_bySource w) (ic_node a, ic_type a, ic_index a))"
proof -
  have entry: "(ty, outs) \<in> set byType \<longleftrightarrow> jm_get byType ty = Some outs"
    if "jm_get (wf_bySource w) n = Some byType" for n byType ty outs
    using that assms by (subst map_of_eq_Some_iff) (auto simp: keyed_def dest: map_of_SomeD)
  have "(a, c) \<in> set (getConnectionsBetweenNodes w sources targets) \<longleftrightarrow>
      (\<exists>n. n \<in> set sources \<and> (\<exists>byType. jm_get (wf_bySource w) n = Some byType \<and>
        (\<exists>e. e \<in> set byType \<and> ic_node a = n \<and> ic_type a = fst e \<and> ic_node c \<in> set targets \<and>
           c \<in> set (slot_of (snd e) (ic_index a)))))"
    unfolding getConnectionsBetweenNodes_def in_concat_map in_case_option in_outputsBetween by blast
  also have "\<dots> \<longleftrightarrow> ic_node a \<in> set sources \<and> (\<exists>byType. jm_get (wf_bySource w) (ic_node a) = Some byType \<and>
      (\<exists>outs. (ic_type a, outs) \<in> set byType \<and> ic_node c \<in> set targets \<and> c \<in> set (slot_of outs (ic_index a))))"
    by auto
  also have "\<dots> \<longleftrightarrow> ic_node a \<in> set sources \<and> ic_node c \<in> set targets \<and>
      c \<in> set (slotAt (wf_bySource w) (ic_node a, ic_type a, ic_index a))"
    unfolding slotAt.simps in_case_option using entry [of "ic_node a"] by blast
  finally show ?thesis .
qed

end
