(* ===== verification/WorkflowProperties.thy ===== *)
theory WorkflowProperties
  imports TriggerSearch SourceGroups GraphSelection WorkflowStart WorkflowSearch
begin

text \<open>
  The properties of the workflow package and of the search for the trigger of a partial
  execution, each with an instance, and the instances that show where the code departs
  from what it says.
\<close>

section \<open>A workflow to try them on\<close>

definition to_main :: "string \<Rightarrow> nat \<Rightarrow> iconnection" where
  "to_main k i = \<lparr>ic_node = k, ic_type = Main, ic_index = i\<rparr>"

definition memoryType :: connection_type where
  "memoryType = ''ai_memory''"

text \<open>A trigger, a diamond behind it, and a memory attached to one of its nodes.\<close>

definition wx_conns :: iconnections where
  "wx_conns =
     [(''t'', [(Main, [Some [to_main ''a'' 0]])]),
      (''a'', [(Main, [Some [to_main ''b'' 0], None, Some [to_main ''c'' 0]])]),
      (''b'', [(Main, [Some [to_main ''d'' 0]])]),
      (''c'', [(Main, [Some [to_main ''d'' 1]])]),
      (''m'', [(memoryType, [Some [\<lparr>ic_node = ''b'', ic_type = memoryType, ic_index = 0\<rparr>]])])]"

section \<open>Connected nodes\<close>

text \<open>\<open>getConnectedNodes\<close> without a depth ends and lists, each once, exactly the nodes a
  chain of connections of the followed types leads to, without the node itself, although
  branches meet and run in cycles and the results of earlier branches are reused.\<close>

theorem connected_nodes_are_exact:
  "distinct (getConnectedNodes connections n ft (- 1)) \<and>
   set (getConnectedNodes connections n ft (- 1)) = {m. (n, m) \<in> (follows_rel connections ft)\<^sup>+ \<and> m \<noteq> n}"
  by (rule getConnectedNodes_exact)

text \<open>C20: Turning the connections around twice gives, for every node, type and index, the
  connections that were there, up to their order.\<close>

theorem destinations_mirror_sources:
  assumes "keyed connections"
  shows "mset (slotAt (mapConnectionsByDestination (mapConnectionsByDestination connections)) k) =
    mset (slotAt connections k)"
  using assms by (rule mapConnectionsByDestination_twice)

theorem destinations_mirror_sources_witness:
  "mset (slotAt (mapConnectionsByDestination (mapConnectionsByDestination wx_conns)) (''a'', Main, 2)) =
    mset (slotAt wx_conns (''a'', Main, 2)) \<and>
   slotAt (mapConnectionsByDestination wx_conns) (''d'', Main, 1) = [to_main ''c'' 0]"
proof (rule conjI)
  have "keyed wx_conns" by code_simp
  then show "mset (slotAt (mapConnectionsByDestination (mapConnectionsByDestination wx_conns)) (''a'', Main, 2)) =
      mset (slotAt wx_conns (''a'', Main, 2))"
    by (rule destinations_mirror_sources)
  show "slotAt (mapConnectionsByDestination wx_conns) (''d'', Main, 1) = [to_main ''c'' 0]" by code_simp
qed

text \<open>The nodes that can run from a start node are those it leads to over main
  connections and, for each of them, everything attached to it over other connections.\<close>

theorem executable_nodes_are_exact:
  assumes "keyed connections" and "same_types connections"
  shows "set (getExecutableNodeNames connections (mapConnectionsByDestination connections) n) =
    {m. (n, m) \<in> (follows_rel connections (OfType Main))\<^sup>*} \<union>
    {s. \<exists>m. (n, m) \<in> (follows_rel connections (OfType Main))\<^sup>* \<and> (s, m) \<in> (follows_rel connections AllNonMain)\<^sup>+}"
  using getExecutableNodeNames_exact [OF assms, of n] by auto

theorem executable_nodes_are_exact_witness:
  "set (getExecutableNodeNames wx_conns (mapConnectionsByDestination wx_conns) ''b'') =
    {m. (''b'', m) \<in> (follows_rel wx_conns (OfType Main))\<^sup>*} \<union>
    {s. \<exists>m. (''b'', m) \<in> (follows_rel wx_conns (OfType Main))\<^sup>* \<and> (s, m) \<in> (follows_rel wx_conns AllNonMain)\<^sup>+} \<and>
   getExecutableNodeNames wx_conns (mapConnectionsByDestination wx_conns) ''b'' = [''b'', ''d'', ''m'']"
proof (rule conjI)
  have "keyed wx_conns" "same_types wx_conns" by code_simp+
  then show "set (getExecutableNodeNames wx_conns (mapConnectionsByDestination wx_conns) ''b'') =
    {m. (''b'', m) \<in> (follows_rel wx_conns (OfType Main))\<^sup>*} \<union>
    {s. \<exists>m. (''b'', m) \<in> (follows_rel wx_conns (OfType Main))\<^sup>* \<and> (s, m) \<in> (follows_rel wx_conns AllNonMain)\<^sup>+}"
    by (rule executable_nodes_are_exact)
  show "getExecutableNodeNames wx_conns (mapConnectionsByDestination wx_conns) ''b'' = [''b'', ''d'', ''m'']"
    by code_simp
qed

section \<open>The trigger of a partial execution\<close>

text \<open>For a destination that is no enabled trigger, the search does not fail and returns an
  enabled trigger above the destination whenever there is one: one with run data before
  one with pinned data, that before a webhook, and a webhook before any other.\<close>

theorem partial_trigger_is_preferred:
  assumes "keyed (f_connectionsBySourceNode w)" and "same_types (f_connectionsBySourceNode w)"
    and "sourcesKnown w"
    and "\<And>cmp xs. mset (arrange cmp xs) = mset xs"
    and "jm_get (f_nodes w) k = Some d"
    and "\<not> (isTriggerNode (nodeTypes (n_type d) (n_typeVersion d)) \<and> \<not> n_disabled d)"
  shows "\<exists>r. findTriggerForPartialExecution arrange nodeTypes w k runData = Inr r \<and>
    preferred (triggersAbove nodeTypes w k) runData (set (f_pinData w)) r"
  using assms by (rule findTriggerForPartialExecution_preferred)

text \<open>Node types that end in \<open>Trigger\<close> or \<open>webhook\<close> are triggers.\<close>

definition wx_node :: "nat \<Rightarrow> string \<Rightarrow> string \<Rightarrow> node" where
  "wx_node i k ty = \<lparr>n_ident = i, n_name = k, n_type = ty, n_typeVersion = 1, n_disabled = False\<rparr>"

definition wx_groups :: node_groups where
  "wx_groups ty v = (if endsWith ty ''Trigger'' \<or> endsWith ty ''webhook'' then [''trigger''] else [''transform''])"

definition wx_flow :: flow where
  "wx_flow =
     \<lparr>f_nodes = [(''s'', wx_node 1 ''s'' ''scheduleTrigger''), (''w'', wx_node 2 ''w'' ''webhook''),
                 (''a'', wx_node 3 ''a'' ''set'')],
      f_connectionsBySourceNode =
        [(''s'', [(Main, [Some [to_main ''a'' 0]])]), (''w'', [(Main, [Some [to_main ''a'' 0]])])],
      f_pinData = []\<rparr>"

theorem partial_trigger_is_preferred_witness:
  "(\<exists>r. findTriggerForPartialExecution sortBy wx_groups wx_flow ''a'' [] = Inr r \<and>
      preferred (triggersAbove wx_groups wx_flow ''a'') [] (set (f_pinData wx_flow)) r) \<and>
   findTriggerForPartialExecution sortBy wx_groups wx_flow ''a'' [] = Inr (Some (wx_node 2 ''w'' ''webhook''))"
proof (rule conjI)
  show "\<exists>r. findTriggerForPartialExecution sortBy wx_groups wx_flow ''a'' [] = Inr r \<and>
      preferred (triggersAbove wx_groups wx_flow ''a'') [] (set (f_pinData wx_flow)) r"
  proof (rule partial_trigger_is_preferred)
    show "keyed (f_connectionsBySourceNode wx_flow)" "same_types (f_connectionsBySourceNode wx_flow)"
      "sourcesKnown wx_flow" by code_simp+
    show "mset (sortBy cmp xs) = mset xs" for cmp and xs :: "node list" by (rule mset_sortBy)
    show "jm_get (f_nodes wx_flow) ''a'' = Some (wx_node 3 ''a'' ''set'')" by code_simp
    show "\<not> (isTriggerNode (wx_groups (n_type (wx_node 3 ''a'' ''set'')) (n_typeVersion (wx_node 3 ''a'' ''set''))) \<and>
        \<not> n_disabled (wx_node 3 ''a'' ''set''))" by code_simp
  qed
  show "findTriggerForPartialExecution sortBy wx_groups wx_flow ''a'' [] = Inr (Some (wx_node 2 ''w'' ''webhook''))"
    by code_simp
qed

text \<open>Whether any reachable root has run data is decided without a failed assertion, and as
  it says: some node above the destination, over connections of any type, has no main
  connection into it and has data.\<close>

theorem reachable_roots_are_exact:
  assumes "wf_graph g" and "jm_get (g_nodes g) k = Some d"
  shows "anyReachableRootHasRunData g k runData =
    Inr (\<exists>r. (r, d) \<in> (child_rel g)\<^sup>+ \<and> r \<notin> Range (main_rel g) \<and> jm_get runData (n_name r) \<noteq> None)"
  using assms by (rule anyReachableRootHasRunData_exact)

definition wx_graph :: digraph where
  "wx_graph =
     \<lparr>g_nodes = [(''s'', wx_node 1 ''s'' ''scheduleTrigger''), (''a'', wx_node 3 ''a'' ''set'')],
      g_connections =
        [(''s-main-0-0-a'', \<lparr>c_from = wx_node 1 ''s'' ''scheduleTrigger'', c_to = wx_node 3 ''a'' ''set'',
            c_type = Main, c_outputIndex = 0, c_inputIndex = 0\<rparr>)]\<rparr>"

theorem reachable_roots_are_exact_witness:
  "anyReachableRootHasRunData wx_graph ''a'' [(''s'', [])] =
    Inr (\<exists>r. (r, wx_node 3 ''a'' ''set'') \<in> (child_rel wx_graph)\<^sup>+ \<and> r \<notin> Range (main_rel wx_graph) \<and>
      jm_get [(''s'', [] :: task_data list)] (n_name r) \<noteq> None) \<and>
   anyReachableRootHasRunData wx_graph ''a'' [(''s'', [])] = Inr True"
proof (rule conjI)
  have "wf_graph wx_graph" "jm_get (g_nodes wx_graph) ''a'' = Some (wx_node 3 ''a'' ''set'')" by code_simp+
  then show "anyReachableRootHasRunData wx_graph ''a'' [(''s'', [])] =
    Inr (\<exists>r. (r, wx_node 3 ''a'' ''set'') \<in> (child_rel wx_graph)\<^sup>+ \<and> r \<notin> Range (main_rel wx_graph) \<and>
      jm_get [(''s'', [] :: task_data list)] (n_name r) \<noteq> None)"
    by (rule reachable_roots_are_exact)
  show "anyReachableRootHasRunData wx_graph ''a'' [(''s'', [])] = Inr True" by code_simp
qed

section \<open>Selections\<close>

text \<open>C21: A selection is accepted exactly when at most one selected node has main connections
  from outside and it is a root of the selection (or there is none), at most one has main
  connections to outside and it is a leaf (or there is none), and the first leads to the
  second; and then the nodes of a path between the two are all selected.\<close>

theorem extractable_selections_are_exact:
  fixes connections
  defines "adj \<equiv> buildAdjacencyList connections"
  shows "(parseExtractableSubgraphSelection ids adj = Inr (s, e) \<longleftrightarrow> extractable ids adj s e) \<and>
    (parseExtractableSubgraphSelection ids adj = Inr (Some a, Some b) \<longrightarrow> a \<noteq> [] \<longrightarrow> b \<noteq> [] \<longrightarrow>
       (a, b) \<in> (main_edges adj \<inter> set ids \<times> set ids)\<^sup>*)"
  using parseExtractableSubgraphSelection_exact [OF distinct_buildAdjacencyList] extractable_path_inside
  unfolding adj_def by blast

theorem extractable_selections_are_exact_witness:
  "(''a'', ''d'') \<in> (main_edges (buildAdjacencyList (wx_conns @ [(''d'', [(Main, [Some [to_main ''e'' 0]])])])) \<inter>
      set [''a'', ''b'', ''c'', ''d''] \<times> set [''a'', ''b'', ''c'', ''d''])\<^sup>*"
proof -
  have "parseExtractableSubgraphSelection [''a'', ''b'', ''c'', ''d'']
      (buildAdjacencyList (wx_conns @ [(''d'', [(Main, [Some [to_main ''e'' 0]])])])) = Inr (Some ''a'', Some ''d'')"
    by code_simp
  with extractable_selections_are_exact [of "[''a'', ''b'', ''c'', ''d'']"
      "wx_conns @ [(''d'', [(Main, [Some [to_main ''e'' 0]])])]" None None "''a''" "''d''"]
  show ?thesis by blast
qed

section \<open>Searches of the workflow class\<close>

text \<open>The breadth-first search lists each node above the given one once, as far as the
  maximal depth allows, and the depth it reports is the length of a shortest path.\<close>

theorem depths_are_shortest_paths:
  "distinct (map cn_name (getParentNodesByDepth w n maxDepth)) \<and>
   cn_name ` set (getParentNodesByDepth w n maxDepth) =
     {m. m \<noteq> n \<and> (\<exists>j. (n, m) \<in> main_steps (wf_byDestination w) ^^ j \<and> inReach maxDepth j)} \<and>
   (\<forall>r \<in> set (getParentNodesByDepth w n maxDepth).
      shortest (main_steps (wf_byDestination w)) n (cn_name r) (cn_depth r))"
  unfolding getParentNodesByDepth_def by (rule searchNodesBFS_exact)

definition wx_wnode :: "string \<Rightarrow> string \<Rightarrow> wnode" where
  "wx_wnode k ty = \<lparr>w_name = k, w_type = ty, w_typeVersion = 1, w_disabled = None\<rparr>"

definition wx_workflow :: workflow where
  "wx_workflow = newWorkflow
     [wx_wnode ''t'' ''webhook'', wx_wnode ''a'' ''set'', wx_wnode ''b'' ''set'', wx_wnode ''c'' ''set'',
      wx_wnode ''d'' ''set'', wx_wnode ''m'' ''memory''] wx_conns"

theorem depths_are_shortest_paths_witness:
  "shortest (main_steps (wf_byDestination wx_workflow)) ''d'' ''t'' 3 \<and>
   map (\<lambda>r. (cn_name r, cn_depth r)) (getParentNodesByDepth wx_workflow ''d'' 2) = [(''b'', 1), (''c'', 1), (''a'', 2)]"
proof (rule conjI)
  have "\<lparr>cn_name = ''t'', cn_indicies = [0], cn_depth = 3\<rparr> \<in> set (getParentNodesByDepth wx_workflow ''d'' (- 1))"
    by code_simp
  with depths_are_shortest_paths [of wx_workflow "''d''" "- 1"]
  show "shortest (main_steps (wf_byDestination wx_workflow)) ''d'' ''t'' 3" by fastforce
  show "map (\<lambda>r. (cn_name r, cn_depth r)) (getParentNodesByDepth wx_workflow ''d'' 2) = [(''b'', 1), (''c'', 1), (''a'', 2)]"
    by code_simp
qed

text \<open>With known node types and an existing destination the start node is found without an
  error; it is enabled, or the destination itself; and if an enabled trigger without
  parents leads to the destination, the start node is one of the nodes that do.\<close>

theorem start_node_can_start:
  assumes "typesKnown nodeTypes w" and "distinct (map fst (wf_nodes w))"
    and "getNode w k \<noteq> None" and "k \<noteq> []"
  shows "\<exists>n. getStartNode nodeTypes w (Some k) = Inr (Some n) \<and> (isDisabled n \<longrightarrow> getNode w k = Some n) \<and>
    (\<forall>t m. topNode w t \<and> (t, k) \<in> (up_rel w)\<^sup>+ \<and> getNode w t = Some m \<and> activates nodeTypes m \<longrightarrow>
       (\<exists>q. getNode w q = Some n \<and> (q, k) \<in> (up_rel w)\<^sup>*))"
  using assms by (rule getStartNode_ok)

definition wx_types :: node_types where
  "wx_types ty v = Some \<lparr>nt_name = ty, nt_trigger = (ty = ''webhook''), nt_poll = False\<rparr>"

theorem start_node_can_start_witness:
  "(\<exists>n. getStartNode wx_types wx_workflow (Some ''d'') = Inr (Some n) \<and>
      (isDisabled n \<longrightarrow> getNode wx_workflow ''d'' = Some n)) \<and>
   getStartNode wx_types wx_workflow (Some ''d'') = Inr (Some (wx_wnode ''t'' ''webhook''))"
proof (rule conjI)
  have "typesKnown wx_types wx_workflow" "distinct (map fst (wf_nodes wx_workflow))"
    "getNode wx_workflow ''d'' \<noteq> None" "''d'' \<noteq> []" by code_simp+
  from start_node_can_start [OF this]
  show "\<exists>n. getStartNode wx_types wx_workflow (Some ''d'') = Inr (Some n) \<and>
      (isDisabled n \<longrightarrow> getNode wx_workflow ''d'' = Some n)" by blast
  show "getStartNode wx_types wx_workflow (Some ''d'') = Inr (Some (wx_wnode ''t'' ''webhook''))" by code_simp
qed


definition wx_renamed :: workflow where
  "wx_renamed = (case renameNode ''a'' ''x'' wx_workflow of Inl _ \<Rightarrow> wx_workflow | Inr w \<Rightarrow> w)"


section \<open>Where the code departs from what it says\<close>

text \<open>
  \<open>getHighestNode\<close> is to find the highest parents. When two branches meet below a node that
  has parents itself, the second branch finds it checked and reports its own node: \<open>b\<close>
  below has the parents \<open>x\<close> and \<open>y\<close>.
\<close>

definition wx_meeting :: workflow where
  "wx_meeting = newWorkflow
     [wx_wnode ''y'' ''set'', wx_wnode ''x'' ''set'', wx_wnode ''a'' ''set'', wx_wnode ''b'' ''set'', wx_wnode ''d'' ''set'']
     [(''y'', [(Main, [Some [to_main ''x'' 0]])]), (''x'', [(Main, [Some [to_main ''a'' 0, to_main ''b'' 0]])]),
      (''a'', [(Main, [Some [to_main ''d'' 0]])]), (''b'', [(Main, [Some [to_main ''d'' 0]])])]"

theorem highest_nodes_can_have_parents:
  "fst (getHighestNode wx_meeting ''d'' None []) = [''y'', ''b'']"
  by code_simp

text \<open>
  A node of an unknown type, which the constructor tolerates, makes the choice of the start
  node fail: the name of its type is read before the test that the type is known.
\<close>

theorem unknown_types_fail_the_start:
  "getStartNode (\<lambda>_ _. None) wx_workflow (Some ''a'') = Inr (Some (wx_wnode ''t'' ''webhook'')) \<and>
   getStartNode (\<lambda>_ _. None) wx_workflow None = Inl (UndefinedNodeType ''webhook'')"
  by code_simp

text \<open>Renaming a node to the name it has removes the node and its outgoing connections.\<close>

theorem renaming_to_itself_removes:
  "(case renameNode ''a'' ''a'' wx_workflow of
      Inl _ \<Rightarrow> False
    | Inr w \<Rightarrow> getNode w ''a'' = None \<and> jm_get (wf_bySource w) ''a'' = None)"
  by code_simp

text \<open>After renaming, the connections by destination still have the old names.\<close>

theorem renaming_leaves_destinations:
  "getNode wx_renamed ''a'' = None \<and>
   slotAt (wf_byDestination wx_renamed) (''b'', Main, 0) = [to_main ''a'' 0]"
  by code_simp

end
