(* ===== verification/ConcurrencyQueue.thy ===== *)
theory ConcurrencyQueue
  imports JsMaps
begin

text \<open>
  \<open>packages/cli/src/concurrency/concurrency-queue.ts\<close>: the queue that limits how many
  executions run at once. The capacity is an unbounded integer; below zero, its amount is
  the number of executions that wait. A waiting execution is a promise that
  \<open>resolveNext\<close> resolves; the events the queue emits are part of every result.
\<close>

section \<open>The queue\<close>

record cqueue =
  cq_capacity :: int
  cq_waiting :: "string list"

datatype cqueue_event =
    ConcurrencyCheck int
  | ExecutionThrottled string
  | ExecutionReleased string

definition newQueue :: "int \<Rightarrow> cqueue" where
  "newQueue capacity = \<lparr>cq_capacity = capacity, cq_waiting = []\<rparr>"

text \<open>An \<open>enqueue\<close> that does not throttle returns at once: the execution may start.\<close>

definition enqueue :: "string \<Rightarrow> cqueue \<Rightarrow> cqueue \<times> cqueue_event list" where
  "enqueue executionId q =
     (let q1 = q\<lparr>cq_capacity := cq_capacity q - 1\<rparr>
      in if cq_capacity q1 < 0
         then (q1\<lparr>cq_waiting := cq_waiting q1 @ [executionId]\<rparr>,
               [ConcurrencyCheck (cq_capacity q1), ExecutionThrottled executionId])
         else (q1, [ConcurrencyCheck (cq_capacity q1)]))"

definition resolveNext :: "cqueue \<Rightarrow> cqueue \<times> cqueue_event list" where
  "resolveNext q =
     (case cq_waiting q of
        [] \<Rightarrow> (q, [])
      | executionId # rest \<Rightarrow> (q\<lparr>cq_waiting := rest\<rparr>, [ExecutionReleased executionId]))"

definition dequeue :: "cqueue \<Rightarrow> cqueue \<times> cqueue_event list" where
  "dequeue q = resolveNext (q\<lparr>cq_capacity := cq_capacity q + 1\<rparr>)"

definition removeWaiting :: "string \<Rightarrow> cqueue \<Rightarrow> cqueue \<times> cqueue_event list" where
  "removeWaiting executionId q =
     (if executionId \<in> set (cq_waiting q)
      then resolveNext (q\<lparr>cq_waiting := remove1 executionId (cq_waiting q),
                          cq_capacity := cq_capacity q + 1\<rparr>)
      else (q, []))"

definition getAll :: "cqueue \<Rightarrow> string list" where
  "getAll q = js_set (cq_waiting q)"

definition hasWaiting :: "cqueue \<Rightarrow> string \<Rightarrow> bool" where
  "hasWaiting q executionId \<longleftrightarrow> list_ex (\<lambda>e. e = executionId) (cq_waiting q)"

definition releasedBy :: "cqueue_event list \<Rightarrow> string list" where
  "releasedBy es = concat (map (\<lambda>e. case e of ExecutionReleased i \<Rightarrow> [i] | _ \<Rightarrow> []) es)"

definition throttledBy :: "cqueue_event list \<Rightarrow> bool" where
  "throttledBy es \<longleftrightarrow> list_ex (\<lambda>e. case e of ExecutionThrottled _ \<Rightarrow> True | _ \<Rightarrow> False) es"

lemma resolveNext_simps [simp]:
  "cq_capacity (fst (resolveNext q)) = cq_capacity q"
  "cq_waiting (fst (resolveNext q)) = tl (cq_waiting q)"
  "releasedBy (snd (resolveNext q)) = take 1 (cq_waiting q)"
  by (simp_all add: resolveNext_def releasedBy_def split: list.split)

lemma dequeue_simps [simp]:
  "cq_capacity (fst (dequeue q)) = cq_capacity q + 1"
  "cq_waiting (fst (dequeue q)) = tl (cq_waiting q)"
  "releasedBy (snd (dequeue q)) = take 1 (cq_waiting q)"
  by (simp_all add: dequeue_def)

lemma enqueue_simps [simp]:
  "cq_capacity (fst (enqueue i q)) = cq_capacity q - 1"
  "cq_waiting (fst (enqueue i q)) = (if cq_capacity q \<le> 0 then cq_waiting q @ [i] else cq_waiting q)"
  "throttledBy (snd (enqueue i q)) \<longleftrightarrow> cq_capacity q \<le> 0"
  by (simp_all add: enqueue_def throttledBy_def Let_def)

lemma removeWaiting_simps [simp]:
  "cq_capacity (fst (removeWaiting i q)) = (if i \<in> set (cq_waiting q) then cq_capacity q + 1 else cq_capacity q)"
  "cq_waiting (fst (removeWaiting i q)) =
     (if i \<in> set (cq_waiting q) then tl (remove1 i (cq_waiting q)) else cq_waiting q)"
  "releasedBy (snd (removeWaiting i q)) =
     (if i \<in> set (cq_waiting q) then take 1 (remove1 i (cq_waiting q)) else [])"
proof -
  have "releasedBy [] = []" by (simp add: releasedBy_def)
  then show "releasedBy (snd (removeWaiting i q)) =
      (if i \<in> set (cq_waiting q) then take 1 (remove1 i (cq_waiting q)) else [])"
    by (simp add: removeWaiting_def)
qed (simp_all add: removeWaiting_def)

section \<open>Executions that run\<close>

text \<open>
  The callers of the queue: an execution enters, leaves when it has run, or is cancelled
  while it waits. The running executions are those that were let through.
\<close>

record limiter =
  l_queue :: cqueue
  l_running :: "string list"

datatype action = Enter string | Leave string | Cancel string

fun act :: "action \<Rightarrow> limiter \<Rightarrow> limiter \<times> string list" where
  "act (Enter i) s =
     (let r = enqueue i (l_queue s); started = (if throttledBy (snd r) then [] else [i])
      in (\<lparr>l_queue = fst r, l_running = l_running s @ started\<rparr>, started))"
| "act (Leave i) s =
     (let r = dequeue (l_queue s); started = releasedBy (snd r)
      in (\<lparr>l_queue = fst r, l_running = remove1 i (l_running s) @ started\<rparr>, started))"
| "act (Cancel i) s =
     (let r = removeWaiting i (l_queue s); started = releasedBy (snd r)
      in (\<lparr>l_queue = fst r, l_running = l_running s @ started\<rparr>, started))"

definition waitingIn :: "limiter \<Rightarrow> string list" where
  "waitingIn s = cq_waiting (l_queue s)"

fun allowed :: "action \<Rightarrow> limiter \<Rightarrow> bool" where
  "allowed (Enter i) s \<longleftrightarrow> i \<notin> set (l_running s) \<and> i \<notin> set (waitingIn s)"
| "allowed (Leave i) s \<longleftrightarrow> i \<in> set (l_running s)"
| "allowed (Cancel i) s \<longleftrightarrow> True"

fun isCancel :: "action \<Rightarrow> bool" where
  "isCancel (Cancel _) = True"
| "isCancel _ = False"

text \<open>The states reached from an empty queue, with the actions that led there.\<close>

inductive reached :: "nat \<Rightarrow> action list \<Rightarrow> limiter \<Rightarrow> bool" for limit where
  start: "reached limit [] \<lparr>l_queue = newQueue (int limit), l_running = []\<rparr>"
| step: "reached limit acts s \<Longrightarrow> allowed a s \<Longrightarrow> reached limit (acts @ [a]) (fst (act a s))"

inductive_cases reached_stepE: "reached limit (acts @ [a]) s"

definition accounted :: "nat \<Rightarrow> limiter \<Rightarrow> bool" where
  "accounted limit s \<longleftrightarrow>
     cq_capacity (l_queue s) = int limit - int (length (l_running s)) - int (length (waitingIn s)) \<and>
     distinct (l_running s @ waitingIn s)"

lemma take1_tl: "take 1 xs @ tl xs = xs"
  by (cases xs) simp_all

lemma length_remove1_Suc: "x \<in> set xs \<Longrightarrow> length (remove1 x xs) + 1 = length xs"
  by (induction xs) auto

lemma accounted_act:
  assumes "accounted limit s" and "allowed a s"
  shows "accounted limit (fst (act a s))"
proof (cases a)
  case (Enter i)
  with assms show ?thesis by (auto simp: accounted_def waitingIn_def Let_def)
next
  case (Leave i)
  with assms have i: "i \<in> set (l_running s)" by simp
  then have "length (remove1 i (l_running s)) + 1 = length (l_running s)"
    by (rule length_remove1_Suc)
  with i Leave assms show ?thesis
    by (cases "waitingIn s") (auto simp: accounted_def waitingIn_def Let_def dest: notin_set_remove1)
next
  case (Cancel i)
  show ?thesis
  proof (cases "i \<in> set (waitingIn s)")
    case True
    then have len: "length (remove1 i (waitingIn s)) + 1 = length (waitingIn s)"
      by (rule length_remove1_Suc)
    have d: "distinct (remove1 i (waitingIn s))" using assms(1) by (simp add: accounted_def)
    have sub: "set (remove1 i (waitingIn s)) \<subseteq> set (waitingIn s)" by (rule set_remove1_subset)
    show ?thesis
    proof (cases "remove1 i (waitingIn s)")
      case Nil
      with True len Cancel assms show ?thesis by (auto simp: accounted_def waitingIn_def Let_def)
    next
      case (Cons j js)
      with d sub True len Cancel assms show ?thesis by (auto simp: accounted_def waitingIn_def Let_def)
    qed
  next
    case False
    with Cancel assms show ?thesis by (simp add: accounted_def waitingIn_def Let_def)
  qed
qed

lemma reached_accounted: "reached limit acts s \<Longrightarrow> accounted limit s"
proof (induction rule: reached.induct)
  case start
  show ?case by (simp add: accounted_def newQueue_def waitingIn_def)
qed (rule accounted_act)

section \<open>The limit\<close>

text \<open>
  Every cancellation lets at most one execution more run than the limit allows: it gives
  back the capacity the cancelled execution took and then lets the next one through.
\<close>

definition cancels :: "action list \<Rightarrow> nat" where
  "cancels acts = length (filter isCancel acts)"

lemma capacity_bound:
  assumes "reached limit acts s"
  shows "- cq_capacity (l_queue s) \<le> int (length (waitingIn s)) + int (cancels acts)"
  using assms
proof (induction rule: reached.induct)
  case start
  show ?case by (simp add: newQueue_def waitingIn_def)
next
  case (step acts s a)
  show ?case
  proof (cases a)
    case (Cancel i)
    show ?thesis
    proof (cases "i \<in> set (waitingIn s)")
      case True
      then have "int (length (waitingIn s)) \<le> int (length (tl (remove1 i (waitingIn s)))) + 2"
        by (simp add: length_remove1)
      with True Cancel step.IH show ?thesis by (simp add: waitingIn_def cancels_def Let_def)
    next
      case False
      with Cancel step.IH show ?thesis by (simp add: waitingIn_def cancels_def Let_def)
    qed
  qed (use step.IH in \<open>auto simp: waitingIn_def cancels_def Let_def\<close>)
qed

lemma running_bound:
  assumes "reached limit acts s"
  shows "length (l_running s) \<le> limit + cancels acts"
  using capacity_bound [OF assms] reached_accounted [OF assms] by (simp add: accounted_def)

lemma waiting_means_full:
  assumes "reached limit acts s" and "cancels acts = 0"
  shows "int (length (waitingIn s)) = max 0 (- cq_capacity (l_queue s))"
  using assms
proof (induction rule: reached.induct)
  case start
  show ?case by (simp add: newQueue_def waitingIn_def)
next
  case (step acts s a)
  then have "int (length (waitingIn s)) = max 0 (- cq_capacity (l_queue s))" "\<not> isCancel a"
    by (auto simp: cancels_def split: if_splits)
  then show ?case
    by (cases a) (auto simp: waitingIn_def Let_def max_def split: if_splits)
qed

text \<open>Without cancellations the limit holds, and nothing waits while there is room.\<close>

lemma limit_holds:
  assumes "reached limit acts s" and "cancels acts = 0"
  shows "length (l_running s) \<le> limit \<and> (waitingIn s \<noteq> [] \<longrightarrow> length (l_running s) = limit)"
proof -
  have "length (l_running s) \<le> limit" using running_bound [OF assms(1)] assms(2) by simp
  moreover have "length (l_running s) = limit" if "waitingIn s \<noteq> []"
    using that waiting_means_full [OF assms] reached_accounted [OF assms(1)]
    by (cases "waitingIn s") (auto simp: accounted_def max_def split: if_splits)
  ultimately show ?thesis by blast
qed

section \<open>Nobody waits for ever\<close>

fun startedBy :: "action list \<Rightarrow> limiter \<Rightarrow> string list" where
  "startedBy [] s = []"
| "startedBy (a # acts) s = snd (act a s) @ startedBy acts (fst (act a s))"

fun isLeave :: "action \<Rightarrow> bool" where
  "isLeave (Leave _) = True"
| "isLeave _ = False"

lemma tl_append_split: "tl (xs @ ys) = (if xs = [] then tl ys else tl xs @ ys)"
  by (cases xs) simp_all

text \<open>One action: the execution is started, or at most as many wait before it as did.\<close>

lemma act_advances:
  assumes "waitingIn s = before @ i # after" and "a \<noteq> Cancel i"
  shows "i \<in> set (snd (act a s)) \<or>
    (\<exists>before' after'. waitingIn (fst (act a s)) = before' @ i # after' \<and>
       length before' + (if isLeave a then 1 else 0) \<le> length before)"
proof (cases a)
  case (Enter j)
  have "waitingIn (fst (act a s)) = before @ i # (after @ (if cq_capacity (l_queue s) \<le> 0 then [j] else []))"
    using Enter assms(1) by (simp add: waitingIn_def Let_def)
  with Enter show ?thesis by auto
next
  case (Leave j)
  then have act: "snd (act a s) = take 1 (waitingIn s)" "waitingIn (fst (act a s)) = tl (waitingIn s)"
    by (simp_all add: waitingIn_def Let_def)
  show ?thesis
  proof (cases before)
    case Nil
    with act assms(1) show ?thesis by simp
  next
    case (Cons b bs)
    with act assms(1) Leave show ?thesis by (intro disjI2 exI [of _ bs] exI [of _ after]) simp
  qed
next
  case (Cancel j)
  with assms(2) have j: "j \<noteq> i" by simp
  show ?thesis
  proof (cases "j \<in> set (waitingIn s)")
    case True
    then have act: "snd (act a s) = take 1 (remove1 j (waitingIn s))" "waitingIn (fst (act a s)) = tl (remove1 j (waitingIn s))"
      using Cancel by (simp_all add: waitingIn_def Let_def)
    obtain bs as where rest: "remove1 j (waitingIn s) = bs @ i # as" "length bs \<le> length before"
    proof (cases "j \<in> set before")
      case True
      then have "remove1 j (waitingIn s) = remove1 j before @ i # after" using assms(1) by (simp add: remove1_append)
      then show thesis by (rule that) (simp add: length_remove1)
    next
      case False
      then have "remove1 j (waitingIn s) = before @ i # remove1 j after" using assms(1) j by (simp add: remove1_append)
      then show thesis by (rule that) simp
    qed
    show ?thesis
    proof (cases bs)
      case Nil
      with act rest show ?thesis by simp
    next
      case (Cons c cs)
      with act rest Cancel show ?thesis by (intro disjI2 exI [of _ cs] exI [of _ as]) simp
    qed
  next
    case False
    with Cancel assms(1) show ?thesis
      by (intro disjI2 exI [of _ before] exI [of _ after]) (simp add: waitingIn_def Let_def)
  qed
qed

lemma started_after_leaves:
  assumes "waitingIn s = before @ i # after" and "Cancel i \<notin> set acts"
    and "length before < length (filter isLeave acts)"
  shows "i \<in> set (startedBy acts s)"
  using assms
proof (induction acts arbitrary: s before after)
  case (Cons a acts)
  then have "a \<noteq> Cancel i" by auto
  from act_advances [OF Cons.prems(1) this] consider "i \<in> set (snd (act a s))" |
    bs as where "waitingIn (fst (act a s)) = bs @ i # as" "length bs + (if isLeave a then 1 else 0) \<le> length before"
    by blast
  then show ?case
  proof cases
    case (2 bs as)
    have "length bs < length (filter isLeave acts)" using 2(2) Cons.prems(3) by (auto split: if_splits)
    then show ?thesis using Cons.IH [OF 2(1)] Cons.prems(2) by simp
  qed simp
qed simp

end
