(* ===== verification/ConcurrencyControl.thy ===== *)
theory ConcurrencyControl
  imports ConcurrencyQueue
begin

text \<open>
  \<open>concurrency-control.service.ts\<close>, the helper that resolves the evaluation limit
  (\<open>evaluation-concurrency.helper.ts\<close>) and \<open>concurrency-capacity-reservation.ts\<close>: two
  queues, for production and for evaluation executions. The evaluation limit may come from
  the license, which is only known after start-up, so its queue is built on first use.
  Logging and telemetry leave the state alone; the events of the queues are returned.
\<close>

section \<open>Limits\<close>

datatype workflow_mode =
    ModeCli | ModeError | ModeIntegrated | ModeInternal | ModeManual | ModeRetry
  | ModeTrigger | ModeWebhook | ModeEvaluation | ModeChat | ModeAgent

datatype control_error =
    InvalidConcurrencyLimit int
  | UnknownExecutionMode workflow_mode
  | CapacityAlreadyReserved

datatype quota_value = QuotaNumber int | QuotaOther

record concurrency_config =
  cfg_queueMode :: bool
  cfg_productionLimit :: int
  cfg_evaluationLimit :: int
  cfg_evaluationLimitInEnv :: bool

record license =
  lic_quota :: quota_value
  lic_planName :: string

definition normaliseLimit :: "int \<Rightarrow> control_error + int" where
  "normaliseLimit limit =
     (if limit = 0 then Inl (InvalidConcurrencyLimit 0) else Inr (if limit < - 1 then - 1 else limit))"

definition readLicenseQuota :: "license \<Rightarrow> int option" where
  "readLicenseQuota lic =
     (case lic_quota lic of
        QuotaOther \<Rightarrow> None
      | QuotaNumber raw \<Rightarrow> if raw = 0 then None else Some raw)"

definition evaluationTierDefaults :: "(string \<times> int) list" where
  "evaluationTierDefaults = [(''Community'', 1), (''Pro'', 1), (''Business'', 3), (''Enterprise'', 5)]"

definition resolveEvaluationConcurrencyLimit :: "concurrency_config \<Rightarrow> license \<Rightarrow> int" where
  "resolveEvaluationConcurrencyLimit cfg lic =
     (if cfg_evaluationLimitInEnv cfg then cfg_evaluationLimit cfg
      else case readLicenseQuota lic of
        Some limit \<Rightarrow> limit
      | None \<Rightarrow> (case map_of evaluationTierDefaults (lic_planName lic) of Some limit \<Rightarrow> limit | None \<Rightarrow> 1))"

section \<open>The service\<close>

record control =
  k_isEnabled :: bool
  k_productionLimit :: int
  k_evaluationLimit :: int
  k_production :: "cqueue option"
  k_evaluation :: "cqueue option"
  k_evalQueueResolved :: bool

definition queueFor :: "int \<Rightarrow> cqueue option" where
  "queueFor limit = (if 0 < limit then Some (newQueue limit) else None)"

definition newControl :: "concurrency_config \<Rightarrow> control_error + control" where
  "newControl cfg =
     rbind (normaliseLimit (cfg_productionLimit cfg)) (\<lambda>p.
     rbind (normaliseLimit (cfg_evaluationLimit cfg)) (\<lambda>e.
     Inr (if cfg_queueMode cfg
          then \<lparr>k_isEnabled = False, k_productionLimit = p, k_evaluationLimit = e,
                k_production = None, k_evaluation = None, k_evalQueueResolved = False\<rparr>
          else \<lparr>k_isEnabled = (queueFor p \<noteq> None \<or> queueFor e \<noteq> None),
                k_productionLimit = p, k_evaluationLimit = e,
                k_production = queueFor p, k_evaluation = queueFor e, k_evalQueueResolved = (0 < e)\<rparr>)))"

text \<open>An exception leaves the flag set that was set before it.\<close>

definition ensureEvalQueueResolved ::
  "concurrency_config \<Rightarrow> license \<Rightarrow> control \<Rightarrow> control_error option \<times> control" where
  "ensureEvalQueueResolved cfg lic s =
     (if k_evalQueueResolved s then (None, s)
      else
        let s1 = s\<lparr>k_evalQueueResolved := True\<rparr>
        in if cfg_queueMode cfg then (None, s1)
           else case normaliseLimit (resolveEvaluationConcurrencyLimit cfg lic) of
             Inl e \<Rightarrow> (Some e, s1)
           | Inr normalised \<Rightarrow>
               let s2 = s1\<lparr>k_evaluationLimit := normalised\<rparr>
               in if 0 < normalised
                  then (None, s2\<lparr>k_evaluation := Some (newQueue normalised), k_isEnabled := True\<rparr>)
                  else (None, s2))"

definition getQueue :: "workflow_mode \<Rightarrow> control \<Rightarrow> control_error + cqueue option" where
  "getQueue mode s =
     (if mode \<in> {ModeError, ModeIntegrated, ModeCli, ModeInternal, ModeManual, ModeRetry} then Inr None
      else if mode \<in> {ModeWebhook, ModeTrigger, ModeChat} then Inr (k_production s)
      else if mode = ModeEvaluation then Inr (k_evaluation s)
      else Inl (UnknownExecutionMode mode))"

definition setQueue :: "workflow_mode \<Rightarrow> cqueue \<Rightarrow> control \<Rightarrow> control" where
  "setQueue mode q s =
     (if mode = ModeEvaluation then s\<lparr>k_evaluation := Some q\<rparr> else s\<lparr>k_production := Some q\<rparr>)"

text \<open>The common course of \<open>throttle\<close>, \<open>release\<close> and \<open>remove\<close>.\<close>

definition onQueue ::
  "concurrency_config \<Rightarrow> license \<Rightarrow> workflow_mode \<Rightarrow> (cqueue \<Rightarrow> cqueue \<times> cqueue_event list) \<Rightarrow> control
     \<Rightarrow> (control_error + cqueue_event list) \<times> control" where
  "onQueue cfg lic mode operation s =
     (case (if mode = ModeEvaluation then ensureEvalQueueResolved cfg lic s else (None, s)) of
        (Some e, s1) \<Rightarrow> (Inl e, s1)
      | (None, s1) \<Rightarrow>
          if \<not> k_isEnabled s1 then (Inr [], s1)
          else case getQueue mode s1 of
            Inl e \<Rightarrow> (Inl e, s1)
          | Inr None \<Rightarrow> (Inr [], s1)
          | Inr (Some q) \<Rightarrow> (Inr (snd (operation q)), setQueue mode (fst (operation q)) s1))"

definition throttle ::
  "concurrency_config \<Rightarrow> license \<Rightarrow> workflow_mode \<Rightarrow> string \<Rightarrow> control \<Rightarrow> (control_error + cqueue_event list) \<times> control" where
  "throttle cfg lic mode executionId s = onQueue cfg lic mode (enqueue executionId) s"

definition release ::
  "concurrency_config \<Rightarrow> license \<Rightarrow> workflow_mode \<Rightarrow> control \<Rightarrow> (control_error + cqueue_event list) \<times> control" where
  "release cfg lic mode s = onQueue cfg lic mode dequeue s"

definition removeExecution ::
  "concurrency_config \<Rightarrow> license \<Rightarrow> workflow_mode \<Rightarrow> string \<Rightarrow> control \<Rightarrow> (control_error + cqueue_event list) \<times> control" where
  "removeExecution cfg lic mode executionId s = onQueue cfg lic mode (removeWaiting executionId) s"

definition hasExecution :: "control \<Rightarrow> string \<Rightarrow> bool" where
  "hasExecution s executionId \<longleftrightarrow>
     k_isEnabled s \<and>
     list_ex (\<lambda>queue. case queue of None \<Rightarrow> False | Some q \<Rightarrow> hasWaiting q executionId) [k_production s, k_evaluation s]"

text \<open>The ids are collected first, then every one of them is removed.\<close>

definition removeEach :: "cqueue \<Rightarrow> cqueue \<times> cqueue_event list" where
  "removeEach q =
     foldl (\<lambda>(q, es) i. (fst (removeWaiting i q), es @ snd (removeWaiting i q))) (q, []) (getAll q)"

text \<open>The result has the events, the new state and the executions the repository cancels.\<close>

definition removeAllExecutions :: "string list \<Rightarrow> control \<Rightarrow> cqueue_event list \<times> control \<times> string list" where
  "removeAllExecutions executionIdsToCancel s =
     (if \<not> k_isEnabled s then ([], s, [])
      else
        let p = map_option removeEach (k_production s);
            e = map_option removeEach (k_evaluation s);
            events = (\<lambda>r. case r of None \<Rightarrow> [] | Some r \<Rightarrow> snd r)
        in (events p @ events e,
            s\<lparr>k_production := map_option fst p, k_evaluation := map_option fst e\<rparr>,
            executionIdsToCancel))"

definition disable :: "control \<Rightarrow> control" where
  "disable s = s\<lparr>k_isEnabled := False\<rparr>"

definition cloudProductionLimit :: int where
  "cloudProductionLimit = 999"

definition shouldReport :: "bool \<Rightarrow> int \<Rightarrow> bool" where
  "shouldReport isCloud capacity \<longleftrightarrow>
     isCloud \<and> capacity \<in> set (map (\<lambda>t. cloudProductionLimit - t) [5, 10, 20, 50, 100, 200])"

section \<open>Reservations\<close>

text \<open>
  \<open>reserve\<close> in its two halves: the check and the call of \<open>throttle\<close>, and the assignment
  after the promise has resolved.
\<close>

record target =
  tg_executionId :: string
  tg_mode :: workflow_mode

definition reserveBegin ::
  "concurrency_config \<Rightarrow> license \<Rightarrow> target \<Rightarrow> target option \<Rightarrow> control \<Rightarrow> (control_error + cqueue_event list) \<times> control" where
  "reserveBegin cfg lic t acquired s =
     (if acquired \<noteq> None then (Inl CapacityAlreadyReserved, s)
      else throttle cfg lic (tg_mode t) (tg_executionId t) s)"

definition reserveEnd :: "target \<Rightarrow> target option" where
  "reserveEnd t = Some t"

text \<open>When the release throws, the reservation is kept.\<close>

definition releaseReservation ::
  "concurrency_config \<Rightarrow> license \<Rightarrow> target option \<Rightarrow> control
     \<Rightarrow> (control_error + cqueue_event list) \<times> target option \<times> control" where
  "releaseReservation cfg lic acquired s =
     (case acquired of
        None \<Rightarrow> (Inr [], None, s)
      | Some t \<Rightarrow>
          (case release cfg lic (tg_mode t) s of
             (Inl e, s1) \<Rightarrow> (Inl e, acquired, s1)
           | (Inr es, s1) \<Rightarrow> (Inr es, None, s1)))"

section \<open>Facts\<close>

text \<open>The evaluation limit that is resolved late is never the one that is rejected.\<close>

lemma resolved_limit_nonzero:
  assumes "newControl cfg = Inr s0"
  shows "resolveEvaluationConcurrencyLimit cfg lic \<noteq> 0"
proof -
  have "cfg_evaluationLimit cfg \<noteq> 0"
    using assms by (auto simp: newControl_def normaliseLimit_def rbind_Inr_iff split: if_splits)
  moreover have "limit \<noteq> 0" if "map_of evaluationTierDefaults name = Some limit" for name limit
    using that by (auto simp: evaluationTierDefaults_def split: if_splits)
  ultimately show ?thesis
    by (auto simp: resolveEvaluationConcurrencyLimit_def readLicenseQuota_def split: option.splits quota_value.splits if_splits)
qed

lemma ensure_never_throws:
  "newControl cfg = Inr s0 \<Longrightarrow> fst (ensureEvalQueueResolved cfg lic s) = None"
  using resolved_limit_nonzero [of cfg s0 lic]
  by (simp add: ensureEvalQueueResolved_def normaliseLimit_def Let_def)

lemma ensure_idempotent:
  assumes "newControl cfg = Inr s0"
  shows "ensureEvalQueueResolved cfg lic (snd (ensureEvalQueueResolved cfg lic s)) =
    (None, snd (ensureEvalQueueResolved cfg lic s))"
proof -
  have "k_evalQueueResolved (snd (ensureEvalQueueResolved cfg lic s))"
    using resolved_limit_nonzero [OF assms, of lic]
    by (simp add: ensureEvalQueueResolved_def normaliseLimit_def Let_def)
  then show ?thesis by (simp add: ensureEvalQueueResolved_def)
qed

text \<open>The modes with a queue of their own, and those without.\<close>

definition unlimitedModes :: "workflow_mode set" where
  "unlimitedModes = {ModeError, ModeIntegrated, ModeCli, ModeInternal, ModeManual, ModeRetry}"

definition productionModes :: "workflow_mode set" where
  "productionModes = {ModeWebhook, ModeTrigger, ModeChat}"

lemma onQueue_unlimited: "mode \<in> unlimitedModes \<Longrightarrow> onQueue cfg lic mode f s = (Inr [], s)"
  by (auto simp: onQueue_def getQueue_def unlimitedModes_def)

lemma onQueue_production:
  "mode \<in> productionModes \<Longrightarrow> onQueue cfg lic mode f s =
     (case k_production s of
        Some q \<Rightarrow> if k_isEnabled s then (Inr (snd (f q)), s\<lparr>k_production := Some (fst (f q))\<rparr>) else (Inr [], s)
      | None \<Rightarrow> (Inr [], s))"
  by (auto simp: onQueue_def getQueue_def productionModes_def setQueue_def split: option.split)

lemma onQueue_evaluation:
  assumes "newControl cfg = Inr s0"
  shows "k_production (snd (onQueue cfg lic ModeEvaluation f s)) = k_production s"
    and "fst (onQueue cfg lic ModeEvaluation f s) \<noteq> Inl e"
proof -
  have "k_production (snd (ensureEvalQueueResolved cfg lic s)) = k_production s"
    using resolved_limit_nonzero [OF assms, of lic]
    by (simp add: ensureEvalQueueResolved_def normaliseLimit_def Let_def)
  with ensure_never_throws [OF assms, of lic s]
  show "k_production (snd (onQueue cfg lic ModeEvaluation f s)) = k_production s"
    and "fst (onQueue cfg lic ModeEvaluation f s) \<noteq> Inl e"
    by (cases "ensureEvalQueueResolved cfg lic s";
        simp add: onQueue_def getQueue_def setQueue_def split: option.split)+
qed

text \<open>Removing all: every second one is let through.\<close>

fun everySecond :: "'a list \<Rightarrow> 'a list" where
  "everySecond (a # b # xs) = b # everySecond xs"
| "everySecond _ = []"

lemma releasedBy_append [simp]: "releasedBy (es @ fs) = releasedBy es @ releasedBy fs"
  by (simp add: releasedBy_def)

lemma removeEach_loop:
  assumes "distinct xs" and "cq_waiting q = xs"
  shows "cq_waiting (fst (foldl (\<lambda>(q, es) i. (fst (removeWaiting i q), es @ snd (removeWaiting i q))) (q, es) xs)) = [] \<and>
    releasedBy (snd (foldl (\<lambda>(q, es) i. (fst (removeWaiting i q), es @ snd (removeWaiting i q))) (q, es) xs)) =
      releasedBy es @ everySecond xs"
  using assms
proof (induction xs arbitrary: q es rule: everySecond.induct)
  case (1 a b xs)
  let ?q1 = "fst (removeWaiting a q)" and ?es1 = "es @ snd (removeWaiting a q)"
  have q1: "cq_waiting ?q1 = xs" "releasedBy ?es1 = releasedBy es @ [b]" using 1(2,3) by auto
  have noop: "removeWaiting b ?q1 = (?q1, [])" using q1(1) 1(2) by (simp add: removeWaiting_def)
  have "distinct xs" using 1(2) by simp
  from "1.IH" [OF this q1(1), of ?es1] q1(2) show ?case by (simp add: noop)
qed (simp_all add: releasedBy_def removeWaiting_def resolveNext_def)

lemma removeEach_everySecond:
  assumes "distinct (cq_waiting q)"
  shows "cq_waiting (fst (removeEach q)) = []" "releasedBy (snd (removeEach q)) = everySecond (cq_waiting q)"
proof -
  have "getAll q = cq_waiting q" using assms by (simp add: getAll_def)
  with removeEach_loop [OF assms refl, of "[]"]
  show "cq_waiting (fst (removeEach q)) = []" "releasedBy (snd (removeEach q)) = everySecond (cq_waiting q)"
    by (simp_all add: removeEach_def releasedBy_def)
qed

end
