(* ===== verification/Delivery.thy ===== *)
theory Delivery
  imports JsMaps "HOL-Library.Sublist"
begin

text \<open>
  The contract the two message channels of the engine share: what is published is handed
  on in the order of publication. A channel keeps a list of messages that wait; an
  operation returns the messages it hands on. Publishing may drop the new message, other
  operations may drop waiting ones, but nothing is duplicated, reordered or made up. A
  lossless channel drops nothing.
\<close>

section \<open>Calls\<close>

datatype ('m, 's) channel_call = Publish 'm | Call "'s \<Rightarrow> 's \<times> 'm list"

fun runCalls ::
  "('m \<Rightarrow> 's \<Rightarrow> 's \<times> 'm list) \<Rightarrow> ('m, 's) channel_call list \<Rightarrow> 's \<Rightarrow> 's \<times> 'm list" where
  "runCalls publish [] s = (s, [])"
| "runCalls publish (c # cs) s =
     (let r = (case c of Publish m \<Rightarrow> publish m s | Call f \<Rightarrow> f s);
          rest = runCalls publish cs (fst r)
      in (fst rest, snd r @ snd rest))"

fun published :: "('m, 's) channel_call list \<Rightarrow> 'm list" where
  "published [] = []"
| "published (Publish m # cs) = m # published cs"
| "published (Call _ # cs) = published cs"

fun calledOps :: "('m, 's) channel_call list \<Rightarrow> ('s \<Rightarrow> 's \<times> 'm list) set" where
  "calledOps [] = {}"
| "calledOps (Publish _ # cs) = calledOps cs"
| "calledOps (Call f # cs) = insert f (calledOps cs)"

section \<open>The contract\<close>

locale ordered_delivery =
  fixes waitingOf :: "'s \<Rightarrow> 'm list"
    and publish :: "'m \<Rightarrow> 's \<Rightarrow> 's \<times> 'm list"
    and operations :: "('s \<Rightarrow> 's \<times> 'm list) set"
  assumes publish_law: "subseq (snd (publish m s) @ waitingOf (fst (publish m s))) (waitingOf s @ [m])"
    and operation_law: "f \<in> operations \<Longrightarrow> subseq (snd (f s) @ waitingOf (fst (f s))) (waitingOf s)"
begin

lemma delivered_in_order:
  assumes "calledOps cs \<subseteq> operations"
  shows "subseq (snd (runCalls publish cs s) @ waitingOf (fst (runCalls publish cs s))) (waitingOf s @ published cs)"
  using assms
proof (induction cs arbitrary: s)
  case (Cons c cs)
  have extend: "subseq (out @ snd (runCalls publish cs s') @ waitingOf (fst (runCalls publish cs s')))
      (before @ published cs)"
    if "calledOps cs \<subseteq> operations" "subseq (out @ waitingOf s') before" for out s' before
  proof -
    have "subseq (out @ snd (runCalls publish cs s') @ waitingOf (fst (runCalls publish cs s')))
        (out @ waitingOf s' @ published cs)"
      using Cons.IH [OF that(1), of s'] by (simp add: list_emb_append_mono)
    moreover have "subseq (out @ waitingOf s' @ published cs) (before @ published cs)"
      using list_emb_append_mono [OF that(2) subseq_order.refl [of "published cs"]] by simp
    ultimately show ?thesis by (rule subseq_order.order_trans)
  qed
  show ?case
  proof (cases c)
    case (Publish m)
    with extend [OF _ publish_law [of m s]] Cons.prems show ?thesis by (simp add: Let_def)
  next
    case (Call f)
    with Cons.prems have f: "f \<in> operations" "calledOps cs \<subseteq> operations" by simp_all
    with extend [OF f(2) operation_law [OF f(1), of s]] Call show ?thesis by (simp add: Let_def)
  qed
qed simp

end

locale lossless_delivery = ordered_delivery +
  assumes publish_keeps: "length (snd (publish m s) @ waitingOf (fst (publish m s))) = Suc (length (waitingOf s))"
    and operation_keeps: "f \<in> operations \<Longrightarrow> length (snd (f s) @ waitingOf (fst (f s))) = length (waitingOf s)"
begin

lemma nothing_lost:
  assumes "calledOps cs \<subseteq> operations"
  shows "length (snd (runCalls publish cs s) @ waitingOf (fst (runCalls publish cs s))) =
    length (waitingOf s @ published cs)"
  using assms
proof (induction cs arbitrary: s)
  case (Cons c cs)
  show ?case
  proof (cases c)
    case (Publish m)
    then show ?thesis using Cons.IH [of "fst (publish m s)"] Cons.prems publish_keeps [of m s] by (simp add: Let_def)
  next
    case (Call f)
    then have "f \<in> operations" using Cons.prems by simp
    then show ?thesis using Call Cons.IH [of "fst (f s)"] Cons.prems operation_keeps [of f s] by (simp add: Let_def)
  qed
qed simp

text \<open>A subsequence of full length is the sequence itself.\<close>

lemma delivered_exactly:
  assumes "calledOps cs \<subseteq> operations"
  shows "snd (runCalls publish cs s) @ waitingOf (fst (runCalls publish cs s)) = waitingOf s @ published cs"
  using subseq_same_length [OF delivered_in_order [OF assms] nothing_lost [OF assms]] .

end

end
