(* ===== verification/WorkQueue.thy ===== *)
theory WorkQueue
  imports Delivery
begin

text \<open>
  The in-memory work queue of the engine
  (\<open>packages/@n8n/engine/src/queue/in-memory-work-queue.ts\<close>). The dispatch loop runs until
  its first \<open>await\<close> in the call that starts it and goes on when the handler's promise
  settles; whether the handler failed makes no difference, its error is logged. Every
  operation returns the messages the handler is called with, so the state needs only to
  know which message is in flight. A handler that publishes while it is called finds the
  loop running, as one that publishes later does.
\<close>

section \<open>The queue\<close>

record 'm work_queue =
  wq_pending :: "'m list"
  wq_handler :: bool
  wq_dispatching :: bool
  wq_inFlight :: "'m option"
  wq_idleWaiters :: nat

definition newWorkQueue :: "'m work_queue" where
  "newWorkQueue = \<lparr>wq_pending = [], wq_handler = False, wq_dispatching = False, wq_inFlight = None, wq_idleWaiters = 0\<rparr>"

text \<open>One round of the loop of \<open>dispatchPending\<close>, or its end.\<close>

definition takeNext :: "'m work_queue \<Rightarrow> 'm work_queue \<times> 'm list" where
  "takeNext q =
     (case wq_pending q of
        message # rest \<Rightarrow>
          if wq_handler q then (q\<lparr>wq_pending := rest, wq_inFlight := Some message\<rparr>, [message])
          else (q\<lparr>wq_dispatching := False, wq_inFlight := None, wq_idleWaiters := 0\<rparr>, [])
      | [] \<Rightarrow> (q\<lparr>wq_dispatching := False, wq_inFlight := None, wq_idleWaiters := 0\<rparr>, []))"

definition startDispatchLoop :: "'m work_queue \<Rightarrow> 'm work_queue \<times> 'm list" where
  "startDispatchLoop q =
     (if wq_dispatching q \<or> \<not> wq_handler q \<or> wq_pending q = [] then (q, [])
      else takeNext (q\<lparr>wq_dispatching := True\<rparr>))"

definition publishMessage :: "'m \<Rightarrow> 'm work_queue \<Rightarrow> 'm work_queue \<times> 'm list" where
  "publishMessage message q = startDispatchLoop (q\<lparr>wq_pending := wq_pending q @ [message]\<rparr>)"

definition startQueue :: "'m work_queue \<Rightarrow> 'm work_queue \<times> 'm list" where
  "startQueue q = startDispatchLoop (q\<lparr>wq_handler := True\<rparr>)"

text \<open>The promise \<open>stop\<close> returns is resolved at once, or one of those that wait for the loop.\<close>

definition stopQueue :: "'m work_queue \<Rightarrow> 'm work_queue \<times> 'm list" where
  "stopQueue q =
     (let q1 = q\<lparr>wq_handler := False\<rparr>
      in if \<not> wq_dispatching q1 then (q1, [])
         else (q1\<lparr>wq_idleWaiters := wq_idleWaiters q1 + 1\<rparr>, []))"

text \<open>The promise of the handler settles.\<close>

definition settle :: "'m work_queue \<Rightarrow> 'm work_queue \<times> 'm list" where
  "settle q = (if wq_dispatching q then takeNext q else (q, []))"

definition queueOperations :: "('m work_queue \<Rightarrow> 'm work_queue \<times> 'm list) set" where
  "queueOperations = {startQueue, stopQueue, settle}"

section \<open>The contract of a lossless channel\<close>

lemma takeNext_messages: "snd (takeNext q) @ wq_pending (fst (takeNext q)) = wq_pending q"
  by (simp add: takeNext_def split: list.split)

lemma startDispatchLoop_messages:
  "snd (startDispatchLoop q) @ wq_pending (fst (startDispatchLoop q)) = wq_pending q"
  using takeNext_messages [of "q\<lparr>wq_dispatching := True\<rparr>"] by (simp add: startDispatchLoop_def)

lemma publishMessage_messages:
  "snd (publishMessage m q) @ wq_pending (fst (publishMessage m q)) = wq_pending q @ [m]"
  by (simp add: publishMessage_def startDispatchLoop_messages)

lemma queueOperation_messages:
  "f \<in> queueOperations \<Longrightarrow> snd (f q) @ wq_pending (fst (f q)) = wq_pending q"
  using takeNext_messages [of q]
  by (auto simp: queueOperations_def startQueue_def startDispatchLoop_messages stopQueue_def settle_def Let_def)

interpretation work_queue: lossless_delivery wq_pending publishMessage queueOperations
  by unfold_locales
     (simp_all only: publishMessage_messages queueOperation_messages subseq_order.order_refl length_append_singleton)

section \<open>Refinement of a simple channel\<close>

text \<open>
  What the loop and its flag amount to: messages wait, at most one is being handled, and
  as soon as the channel is open and idle the next one is handled.
\<close>

record 'm channel =
  ch_waiting :: "'m list"
  ch_open :: bool
  ch_busy :: "'m option"

definition proceed :: "'m channel \<Rightarrow> 'm channel \<times> 'm list" where
  "proceed c =
     (if ch_open c \<and> ch_busy c = None \<and> ch_waiting c \<noteq> []
      then (c\<lparr>ch_waiting := tl (ch_waiting c), ch_busy := Some (hd (ch_waiting c))\<rparr>, [hd (ch_waiting c)])
      else (c, []))"

definition abstractly :: "'m work_queue \<Rightarrow> 'm channel" where
  "abstractly q = \<lparr>ch_waiting = wq_pending q, ch_open = wq_handler q, ch_busy = wq_inFlight q\<rparr>"

text \<open>The loop runs exactly while a message is in flight, and it runs whenever it could.\<close>

definition queue_inv :: "'m work_queue \<Rightarrow> bool" where
  "queue_inv q \<longleftrightarrow>
     (wq_dispatching q \<longleftrightarrow> wq_inFlight q \<noteq> None) \<and>
     (wq_handler q \<and> \<not> wq_dispatching q \<longrightarrow> wq_pending q = []) \<and>
     (\<not> wq_dispatching q \<longrightarrow> wq_idleWaiters q = 0)"

lemma queue_inv_new: "queue_inv newWorkQueue"
  by (simp add: queue_inv_def newWorkQueue_def)

lemma refines:
  assumes "queue_inv q"
  shows "map_prod abstractly id (publishMessage m q) = proceed ((abstractly q)\<lparr>ch_waiting := wq_pending q @ [m]\<rparr>)"
    and "map_prod abstractly id (startQueue q) = proceed ((abstractly q)\<lparr>ch_open := True\<rparr>)"
    and "map_prod abstractly id (stopQueue q) = ((abstractly q)\<lparr>ch_open := False\<rparr>, [])"
    and "map_prod abstractly id (settle q) = proceed ((abstractly q)\<lparr>ch_busy := None\<rparr>)"
proof -
  have inv: "wq_dispatching q \<longleftrightarrow> wq_inFlight q \<noteq> None" "wq_handler q \<Longrightarrow> \<not> wq_dispatching q \<Longrightarrow> wq_pending q = []"
    using assms by (simp_all add: queue_inv_def)
  show "map_prod abstractly id (publishMessage m q) = proceed ((abstractly q)\<lparr>ch_waiting := wq_pending q @ [m]\<rparr>)"
    using inv by (auto simp: publishMessage_def startDispatchLoop_def takeNext_def proceed_def abstractly_def split: list.split)
  show "map_prod abstractly id (startQueue q) = proceed ((abstractly q)\<lparr>ch_open := True\<rparr>)"
    using inv by (auto simp: startQueue_def startDispatchLoop_def takeNext_def proceed_def abstractly_def split: list.split)
  show "map_prod abstractly id (stopQueue q) = ((abstractly q)\<lparr>ch_open := False\<rparr>, [])"
    by (simp add: stopQueue_def abstractly_def Let_def)
  show "map_prod abstractly id (settle q) = proceed ((abstractly q)\<lparr>ch_busy := None\<rparr>)"
    using inv by (auto simp: settle_def takeNext_def proceed_def abstractly_def split: list.split)
qed

lemma queue_inv_takeNext: "queue_inv (fst (takeNext (q\<lparr>wq_dispatching := True\<rparr>)))"
  by (simp add: queue_inv_def takeNext_def split: list.split)

lemma queue_inv_operations:
  assumes "queue_inv q"
  shows "queue_inv (fst (publishMessage m q))" and "f \<in> queueOperations \<Longrightarrow> queue_inv (fst (f q))"
proof -
  have loop: "queue_inv (fst (startDispatchLoop p))"
    if "wq_dispatching p \<longleftrightarrow> wq_inFlight p \<noteq> None" "\<not> wq_dispatching p \<longrightarrow> wq_idleWaiters p = 0" for p :: "'a work_queue"
    using that queue_inv_takeNext [of p] by (auto simp: startDispatchLoop_def queue_inv_def)
  show "queue_inv (fst (publishMessage m q))"
    unfolding publishMessage_def by (rule loop) (use assms in \<open>simp_all add: queue_inv_def\<close>)
  assume "f \<in> queueOperations"
  then consider "f = startQueue" | "f = stopQueue" | "f = settle" by (auto simp: queueOperations_def)
  then show "queue_inv (fst (f q))"
  proof cases
    case 1
    show ?thesis
      unfolding 1 startQueue_def by (rule loop) (use assms in \<open>simp_all add: queue_inv_def\<close>)
  next
    case 2
    with assms show ?thesis by (auto simp: stopQueue_def queue_inv_def Let_def)
  next
    case 3
    show ?thesis
    proof (cases "wq_dispatching q")
      case True
      then have "q\<lparr>wq_dispatching := True\<rparr> = q" by (cases q) simp
      then show ?thesis using queue_inv_takeNext [of q] True unfolding 3 settle_def by metis
    qed (use assms 3 in \<open>simp add: settle_def\<close>)
  qed
qed

section \<open>Everything is handled\<close>

text \<open>With a handler, every settled message brings the next one.\<close>

lemma settle_delivers:
  assumes "queue_inv q" and "wq_handler q" and "wq_pending q \<noteq> []"
  shows "snd (settle q) = [hd (wq_pending q)]" "wq_pending (fst (settle q)) = tl (wq_pending q)"
    "wq_handler (fst (settle q))"
  using assms by (auto simp: settle_def takeNext_def queue_inv_def split: list.splits)

lemma settles_deliver:
  assumes "queue_inv q" and "wq_handler q"
  shows "snd (runCalls publishMessage (replicate n (Call settle)) q) = take n (wq_pending q)"
  using assms
proof (induction n arbitrary: q)
  case (Suc n)
  have inv: "queue_inv (fst (settle q))"
    using queue_inv_operations(2) [OF Suc.prems(1)] by (simp add: queueOperations_def)
  show ?case
  proof (cases "wq_pending q")
    case Nil
    have "snd (settle q) = []" "wq_pending (fst (settle q)) = []" "wq_handler (fst (settle q))"
      using Nil Suc.prems by (simp_all add: settle_def takeNext_def)
    with Suc.IH [OF inv] Nil show ?thesis by (simp add: Let_def)
  next
    case (Cons m ms)
    then have "wq_pending q \<noteq> []" by simp
    note s = settle_delivers [OF Suc.prems this]
    from Suc.IH [OF inv s(3)] s Cons show ?thesis by (simp add: Let_def)
  qed
qed simp

end
