(* ===== verification/LifecyclePublisher.thy ===== *)
theory LifecyclePublisher
  imports Delivery
begin

text \<open>
  The batching publisher of lifecycle events
  (\<open>packages/@n8n/engine/src/lifecycle-events/batching-lifecycle-event-publisher.ts\<close>). The
  drain loop is an asynchronous function; its stages between two turns of the event loop
  are the values of \<open>drain_stage\<close>: it has yielded before its first round, a batch is on
  the wire, or it has ended and \<open>draining\<close> has not been reset yet. A batch that fails or
  outlives its deadline is dropped like one that succeeds is done, so both are one
  operation. Operations return the batch they send.
\<close>

section \<open>State\<close>

datatype drain_stage = NotDraining | Yielded | Sending | Finishing

record 'e publisher =
  lp_pending :: "'e list"
  lp_timer :: bool
  lp_draining :: drain_stage
  lp_stopped :: bool
  lp_abandoned :: bool
  lp_dropped :: nat

definition newPublisher :: "'e publisher" where
  "newPublisher = \<lparr>lp_pending = [], lp_timer = False, lp_draining = NotDraining,
                   lp_stopped = False, lp_abandoned = False, lp_dropped = 0\<rparr>"

definition startDraining :: "'e publisher \<Rightarrow> 'e publisher" where
  "startDraining p =
     (let p1 = p\<lparr>lp_timer := False\<rparr>
      in if lp_draining p1 \<noteq> NotDraining then p1 else p1\<lparr>lp_draining := Yielded\<rparr>)"

definition arm :: "'e publisher \<Rightarrow> 'e publisher" where
  "arm p = p\<lparr>lp_timer := True\<rparr>"

definition publishEvent :: "nat \<Rightarrow> nat \<Rightarrow> 'e \<Rightarrow> 'e publisher \<Rightarrow> 'e publisher \<times> 'e list" where
  "publishEvent batchSize maxPending event p =
     (if lp_stopped p then (p, [])
      else if maxPending \<le> length (lp_pending p) then (p\<lparr>lp_dropped := lp_dropped p + 1\<rparr>, [])
      else
        let p1 = p\<lparr>lp_pending := lp_pending p @ [event]\<rparr>
        in if batchSize \<le> length (lp_pending p1) then (startDraining p1, []) else (arm p1, []))"

definition timerFires :: "'e publisher \<Rightarrow> 'e publisher \<times> 'e list" where
  "timerFires p = (if lp_timer p then (startDraining (p\<lparr>lp_timer := False\<rparr>), []) else (p, []))"

text \<open>One round of the loop, or its end: what shutdown gave up on is dropped.\<close>

definition drainRound :: "nat \<Rightarrow> 'e publisher \<Rightarrow> 'e publisher \<times> 'e list" where
  "drainRound batchSize p =
     (if lp_pending p \<noteq> [] \<and> \<not> lp_abandoned p
      then (p\<lparr>lp_pending := drop batchSize (lp_pending p), lp_dropped := 0, lp_draining := Sending\<rparr>,
            take batchSize (lp_pending p))
      else (p\<lparr>lp_pending := [], lp_draining := Finishing\<rparr>, []))"

definition resume :: "nat \<Rightarrow> 'e publisher \<Rightarrow> 'e publisher \<times> 'e list" where
  "resume batchSize p =
     (if lp_draining p \<in> {Yielded, Sending} then drainRound batchSize p else (p, []))"

definition drainSettles :: "'e publisher \<Rightarrow> 'e publisher \<times> 'e list" where
  "drainSettles p =
     (if lp_draining p = Finishing then (p\<lparr>lp_draining := NotDraining\<rparr>, []) else (p, []))"

definition stopPublisher :: "'e publisher \<Rightarrow> 'e publisher \<times> 'e list" where
  "stopPublisher p = (startDraining (p\<lparr>lp_stopped := True\<rparr>), [])"

text \<open>The wait of \<open>stop\<close> ends, in time or not.\<close>

definition stopWaited :: "bool \<Rightarrow> 'e publisher \<Rightarrow> 'e publisher \<times> 'e list" where
  "stopWaited overdue p =
     ((if overdue then p\<lparr>lp_abandoned := True, lp_dropped := 0\<rparr> else p\<lparr>lp_dropped := 0\<rparr>), [])"

definition publisherOperations :: "nat \<Rightarrow> ('e publisher \<Rightarrow> 'e publisher \<times> 'e list) set" where
  "publisherOperations batchSize =
     {timerFires, resume batchSize, drainSettles, stopPublisher, stopWaited True, stopWaited False}"

section \<open>Events are sent in order\<close>

lemma startDraining_simps [simp]:
  "lp_pending (startDraining p) = lp_pending p" "lp_timer (startDraining p) = False"
  "lp_stopped (startDraining p) = lp_stopped p"
  "lp_draining (startDraining p) = (if lp_draining p = NotDraining then Yielded else lp_draining p)"
  by (simp_all add: startDraining_def Let_def)

lemma arm_simps [simp]:
  "lp_pending (arm p) = lp_pending p" "lp_timer (arm p)" "lp_stopped (arm p) = lp_stopped p"
  "lp_draining (arm p) = lp_draining p"
  by (simp_all add: arm_def)

lemma publishEvent_events:
  "snd (publishEvent b m e p) @ lp_pending (fst (publishEvent b m e p)) =
     (if lp_stopped p \<or> m \<le> length (lp_pending p) then lp_pending p else lp_pending p @ [e])"
  by (simp add: publishEvent_def Let_def)

lemma drainRound_events: "subseq (snd (drainRound b p) @ lp_pending (fst (drainRound b p))) (lp_pending p)"
  by (simp add: drainRound_def)

lemma publisherOperation_events:
  assumes "f \<in> publisherOperations b"
  shows "subseq (snd (f p) @ lp_pending (fst (f p))) (lp_pending p)"
  using assms drainRound_events [of b p]
  by (auto simp: publisherOperations_def timerFires_def resume_def drainSettles_def stopPublisher_def stopWaited_def)

interpretation publisher: ordered_delivery lp_pending "publishEvent b m" "publisherOperations b" for b m
  by unfold_locales (simp_all add: publishEvent_events publisherOperation_events subseq_rev_drop_many)

section \<open>Bounds\<close>

lemma pending_bound:
  assumes "length (lp_pending p) \<le> m"
  shows "length (lp_pending (fst (publishEvent b m e p))) \<le> m"
    and "f \<in> publisherOperations b \<Longrightarrow> length (lp_pending (fst (f p))) \<le> m"
proof -
  show "length (lp_pending (fst (publishEvent b m e p))) \<le> m"
    using assms by (auto simp: publishEvent_def Let_def)
  show "length (lp_pending (fst (f p))) \<le> m" if "f \<in> publisherOperations b"
    using that assms
    by (auto simp: publisherOperations_def timerFires_def resume_def drainRound_def drainSettles_def
        stopPublisher_def stopWaited_def)
qed

lemma batch_bound:
  "f \<in> publisherOperations b \<Longrightarrow> length (snd (f p)) \<le> b"
  by (auto simp: publisherOperations_def timerFires_def resume_def drainRound_def drainSettles_def
      stopPublisher_def stopWaited_def)

lemma pending_bound_runs:
  assumes "calledOps cs \<subseteq> publisherOperations b" and "length (lp_pending p) \<le> m"
  shows "length (lp_pending (fst (runCalls (publishEvent b m) cs p))) \<le> m"
  using assms
proof (induction cs arbitrary: p)
  case (Cons c cs)
  show ?case
  proof (cases c)
    case (Publish e)
    then show ?thesis using Cons pending_bound(1) [OF Cons.prems(2)] by (simp add: Let_def)
  next
    case (Call f)
    then have "f \<in> publisherOperations b" using Cons.prems(1) by simp
    from Cons.IH [OF _ pending_bound(2) [OF Cons.prems(2) this]] Call Cons.prems(1) show ?thesis
      by (simp add: Let_def)
  qed
qed simp

section \<open>Nothing is left behind\<close>

text \<open>
  While the publisher is not stopped, what is pending has a timer or a running loop,
  provided that no event is published between the end of the loop and its reset.
\<close>

definition scheduled :: "'e publisher \<Rightarrow> bool" where
  "scheduled p \<longleftrightarrow>
     (lp_pending p \<noteq> [] \<longrightarrow> lp_timer p \<or> lp_draining p \<in> {Yielded, Sending}) \<and>
     (lp_draining p = Finishing \<longrightarrow> lp_pending p = [])"

lemma scheduled_operations:
  assumes "scheduled p"
  shows "lp_draining p \<noteq> Finishing \<Longrightarrow> scheduled (fst (publishEvent b m e p))"
    and "f \<in> publisherOperations b \<Longrightarrow> scheduled (fst (f p))"
proof -
  show "scheduled (fst (publishEvent b m e p))" if "lp_draining p \<noteq> Finishing"
    using that assms by (cases "lp_draining p") (auto simp: scheduled_def publishEvent_def Let_def)
  assume "f \<in> publisherOperations b"
  then consider "f = timerFires" | "f = resume b" | "f = drainSettles" | "f = stopPublisher"
    | o' where "f = stopWaited o'"
    by (auto simp: publisherOperations_def)
  then show "scheduled (fst (f p))"
  proof cases
    case 1
    with assms show ?thesis by (cases "lp_draining p") (auto simp: scheduled_def timerFires_def)
  next
    case 2
    with assms show ?thesis by (auto simp: scheduled_def resume_def drainRound_def)
  next
    case 3
    with assms show ?thesis by (auto simp: scheduled_def drainSettles_def)
  next
    case 4
    with assms show ?thesis by (cases "lp_draining p") (auto simp: scheduled_def stopPublisher_def)
  next
    case (5 o')
    with assms show ?thesis by (simp add: scheduled_def stopWaited_def)
  qed
qed

end
