(* ===== verification/ServiceProperties.thy ===== *)
theory ServiceProperties
  imports ConcurrencyControl WorkQueue LifecyclePublisher
begin

text \<open>
  The properties of the services around executions: the concurrency limit of the server,
  the work queue of the engine and its lifecycle publisher.
\<close>

section \<open>The concurrency limit\<close>

text \<open>C23: As many executions run at once as the limit allows, plus one for every cancellation of a
  waiting one; while nothing was cancelled the limit holds and nothing waits below it.\<close>

theorem concurrency_is_limited:
  assumes "reached limit acts s"
  shows "length (l_running s) \<le> limit + cancels acts \<and>
    (cancels acts = 0 \<longrightarrow>
       length (l_running s) \<le> limit \<and> (waitingIn s \<noteq> [] \<longrightarrow> length (l_running s) = limit))"
  using running_bound [OF assms] limit_holds [OF assms] by blast

definition sx_two :: limiter where
  "sx_two = fst (act (Enter ''2'') (fst (act (Enter ''1'') \<lparr>l_queue = newQueue 1, l_running = []\<rparr>)))"

theorem concurrency_is_limited_witness:
  "length (l_running sx_two) \<le> 1 \<and> waitingIn sx_two = [''2''] \<and> l_running sx_two = [''1'']"
proof -
  have "reached 1 [] \<lparr>l_queue = newQueue (int 1), l_running = []\<rparr>" by (rule reached.start)
  then have "reached 1 ([] @ [Enter ''1'']) (fst (act (Enter ''1'') \<lparr>l_queue = newQueue 1, l_running = []\<rparr>))"
    by (intro reached.step) (simp_all add: newQueue_def waitingIn_def)
  then have "reached 1 (([] @ [Enter ''1'']) @ [Enter ''2'']) sx_two"
    unfolding sx_two_def by (rule reached.step) (simp add: newQueue_def waitingIn_def enqueue_def throttledBy_def Let_def)
  from concurrency_is_limited [OF this] have "length (l_running sx_two) \<le> 1"
    by (simp add: cancels_def)
  moreover have "waitingIn sx_two = [''2'']" "l_running sx_two = [''1'']" by code_simp+
  ultimately show ?thesis by blast
qed

text \<open>C24: An execution that waits behind \<open>p\<close> others and is not cancelled has been let through
  once more than \<open>p\<close> executions have left, whatever else enters or is cancelled.\<close>

theorem waiting_executions_get_through:
  assumes "p < length (waitingIn s)" and "waitingIn s ! p = i"
    and "Cancel i \<notin> set acts" and "p < length (filter isLeave acts)"
  shows "i \<in> set (startedBy acts s)"
proof -
  have "waitingIn s = take p (waitingIn s) @ i # drop (Suc p) (waitingIn s)"
    using assms(1,2) by (metis id_take_nth_drop)
  then show ?thesis by (rule started_after_leaves) (use assms in simp_all)
qed

theorem waiting_executions_get_through_witness:
  "''2'' \<in> set (startedBy [Enter ''3'', Leave ''1''] sx_two)"
proof (rule waiting_executions_get_through)
  show "0 < length (waitingIn sx_two)" "waitingIn sx_two ! 0 = ''2''" by code_simp+
qed simp_all

text \<open>
  A cancelled execution gives back capacity it did not have: with a limit of one, two
  executions run. And emptying a queue lets every second execution through.
\<close>

theorem cancelling_exceeds_the_limit:
  "l_running (fst (act (Cancel ''2'') (fst (act (Enter ''3'') sx_two)))) = [''1'', ''3'']"
  by code_simp

theorem emptying_lets_through:
  assumes "distinct (cq_waiting q)"
  shows "cq_waiting (fst (removeEach q)) = [] \<and> releasedBy (snd (removeEach q)) = everySecond (cq_waiting q)"
  using removeEach_everySecond [OF assms] by blast

theorem emptying_lets_through_witness:
  "releasedBy (snd (removeEach \<lparr>cq_capacity = - 4, cq_waiting = [''1'', ''2'', ''3'', ''4'']\<rparr>)) = [''2'', ''4'']"
  using emptying_lets_through [of "\<lparr>cq_capacity = - 4, cq_waiting = [''1'', ''2'', ''3'', ''4'']\<rparr>"] by simp

section \<open>The service\<close>

text \<open>Executions of the unlimited modes touch nothing; those of the production modes change
  the production queue alone and only while the service is enabled; evaluations never
  fail, because the limit that is resolved late is never the one that is rejected, and
  leave the production queue alone.\<close>

theorem modes_use_their_queue:
  assumes "newControl cfg = Inr s0"
  shows "(mode \<in> unlimitedModes \<longrightarrow> onQueue cfg lic mode f s = (Inr [], s)) \<and>
    (mode \<in> productionModes \<longrightarrow> onQueue cfg lic mode f s =
       (case k_production s of
          Some q \<Rightarrow> if k_isEnabled s then (Inr (snd (f q)), s\<lparr>k_production := Some (fst (f q))\<rparr>) else (Inr [], s)
        | None \<Rightarrow> (Inr [], s))) \<and>
    k_production (snd (onQueue cfg lic ModeEvaluation f s)) = k_production s \<and>
    (\<exists>es. fst (onQueue cfg lic ModeEvaluation f s) = Inr es)"
proof -
  have "\<exists>es. fst (onQueue cfg lic ModeEvaluation f s) = Inr es"
    using onQueue_evaluation(2) [OF assms] by (metis sum.exhaust)
  then show ?thesis
    using onQueue_unlimited onQueue_production onQueue_evaluation(1) [OF assms] by blast
qed

definition sx_config :: concurrency_config where
  "sx_config = \<lparr>cfg_queueMode = False, cfg_productionLimit = 1, cfg_evaluationLimit = - 1, cfg_evaluationLimitInEnv = False\<rparr>"

definition sx_license :: license where
  "sx_license = \<lparr>lic_quota = QuotaOther, lic_planName = ''Business''\<rparr>"

definition sx_control :: control where
  "sx_control = (case newControl sx_config of Inr s \<Rightarrow> s | Inl _ \<Rightarrow> undefined)"

theorem modes_use_their_queue_witness:
  "(\<exists>es. fst (throttle sx_config sx_license ModeEvaluation ''1'' sx_control) = Inr es) \<and>
   k_evaluation (snd (throttle sx_config sx_license ModeEvaluation ''1'' sx_control)) =
     Some \<lparr>cq_capacity = 2, cq_waiting = []\<rparr>"
proof (rule conjI)
  have "newControl sx_config = Inr sx_control"
    by (simp add: sx_control_def sx_config_def newControl_def normaliseLimit_def)
  from modes_use_their_queue [OF this, of ModeEvaluation sx_license "enqueue ''1''" sx_control]
  show "\<exists>es. fst (throttle sx_config sx_license ModeEvaluation ''1'' sx_control) = Inr es"
    by (simp add: throttle_def)
  show "k_evaluation (snd (throttle sx_config sx_license ModeEvaluation ''1'' sx_control)) =
      Some \<lparr>cq_capacity = 2, cq_waiting = []\<rparr>"
    by code_simp
qed

text \<open>
  After \<open>disable\<close> nothing is cancelled any more, and the first evaluation enables the
  service again. The mode \<open>agent\<close> of the mode list has no queue and no exemption.
\<close>

theorem disabled_service_cancels_nothing:
  "removeAllExecutions [''1''] (disable s) = ([], disable s, [])"
  by (simp add: removeAllExecutions_def disable_def)

theorem evaluations_enable_again:
  "k_isEnabled (snd (throttle sx_config sx_license ModeEvaluation ''1'' (disable sx_control)))"
  by code_simp

theorem agent_mode_is_unknown:
  "fst (throttle sx_config sx_license ModeAgent ''1'' sx_control) = Inl (UnknownExecutionMode ModeAgent)"
  by code_simp

section \<open>The work queue\<close>

text \<open>C25: The work queue, with its dispatch loop, flag and waiters, does what a channel does that
  handles one message at a time and the next as soon as it is open and idle; each
  operation keeps the invariant this rests on.\<close>

theorem work_queue_refines_a_channel:
  assumes "queue_inv q"
  shows "map_prod abstractly id (publishMessage m q) = proceed ((abstractly q)\<lparr>ch_waiting := wq_pending q @ [m]\<rparr>) \<and>
    map_prod abstractly id (startQueue q) = proceed ((abstractly q)\<lparr>ch_open := True\<rparr>) \<and>
    map_prod abstractly id (stopQueue q) = ((abstractly q)\<lparr>ch_open := False\<rparr>, []) \<and>
    map_prod abstractly id (settle q) = proceed ((abstractly q)\<lparr>ch_busy := None\<rparr>) \<and>
    queue_inv (fst (publishMessage m q)) \<and> queue_inv (fst (startQueue q)) \<and>
    queue_inv (fst (stopQueue q)) \<and> queue_inv (fst (settle q))"
proof -
  have "startQueue \<in> queueOperations" "stopQueue \<in> queueOperations" "settle \<in> queueOperations"
    by (simp_all add: queueOperations_def)
  then show ?thesis
    using refines(1) [OF assms, of m] refines(2-4) [OF assms] queue_inv_operations [OF assms] by blast
qed

theorem work_queue_refines_a_channel_witness:
  "queue_inv (fst (startQueue (fst (publishMessage ''m'' newWorkQueue)))) \<and>
   snd (startQueue (fst (publishMessage ''m'' newWorkQueue))) = [''m'']"
proof (rule conjI)
  have "queue_inv (fst (publishMessage ''m'' newWorkQueue))"
    using work_queue_refines_a_channel [OF queue_inv_new, of "''m''"] by blast
  from work_queue_refines_a_channel [OF this, of "''m''"]
  show "queue_inv (fst (startQueue (fst (publishMessage ''m'' newWorkQueue))))" by (elim conjE)
  show "snd (startQueue (fst (publishMessage ''m'' newWorkQueue))) = [''m'']" by code_simp
qed

text \<open>Over any sequence of operations the handler has been called with the published messages,
  in their order and each once, up to those that still wait; and with a handler, \<open>n\<close>
  more settlements handle the next \<open>n\<close> of these.\<close>

theorem messages_are_handled_in_order:
  assumes "calledOps cs \<subseteq> queueOperations"
  shows "snd (runCalls publishMessage cs q) @ wq_pending (fst (runCalls publishMessage cs q)) =
      wq_pending q @ published cs \<and>
    (queue_inv q \<and> wq_handler q \<longrightarrow>
       snd (runCalls publishMessage (replicate n (Call settle)) q) = take n (wq_pending q))"
  using work_queue.delivered_exactly [OF assms, of q] settles_deliver [of q n] by blast

definition sx_calls :: "(string, string work_queue) channel_call list" where
  "sx_calls = [Publish ''a'', Publish ''b'', Call startQueue, Publish ''c'', Call settle]"

theorem messages_are_handled_in_order_witness:
  "snd (runCalls publishMessage sx_calls newWorkQueue) @ wq_pending (fst (runCalls publishMessage sx_calls newWorkQueue)) =
     [''a'', ''b'', ''c''] \<and>
   snd (runCalls publishMessage sx_calls newWorkQueue) = [''a'', ''b'']"
proof (rule conjI)
  have "calledOps sx_calls \<subseteq> queueOperations" by (simp add: sx_calls_def queueOperations_def)
  from messages_are_handled_in_order [OF this, of newWorkQueue 0]
  show "snd (runCalls publishMessage sx_calls newWorkQueue) @ wq_pending (fst (runCalls publishMessage sx_calls newWorkQueue)) =
     [''a'', ''b'', ''c'']"
    by (simp add: sx_calls_def newWorkQueue_def)
  show "snd (runCalls publishMessage sx_calls newWorkQueue) = [''a'', ''b'']" by code_simp
qed

section \<open>The lifecycle publisher\<close>

text \<open>Over any sequence of operations the events that were sent, and those that wait, are some of
  the published ones in their order; no more wait than the cap allows, and no batch is
  larger than the batch size.\<close>

theorem publisher_is_bounded:
  assumes "calledOps cs \<subseteq> publisherOperations b"
  shows "subseq (snd (runCalls (publishEvent b m) cs newPublisher) @
        lp_pending (fst (runCalls (publishEvent b m) cs newPublisher))) (published cs) \<and>
    length (lp_pending (fst (runCalls (publishEvent b m) cs newPublisher))) \<le> m \<and>
    (\<forall>f \<in> publisherOperations b. length (snd (f p)) \<le> b)"
proof (intro conjI ballI)
  have empty: "lp_pending newPublisher = []" by (simp add: newPublisher_def)
  show "subseq (snd (runCalls (publishEvent b m) cs newPublisher) @
        lp_pending (fst (runCalls (publishEvent b m) cs newPublisher))) (published cs)"
    using publisher.delivered_in_order [OF assms, of m newPublisher] by (simp add: empty)
  show "length (lp_pending (fst (runCalls (publishEvent b m) cs newPublisher))) \<le> m"
    by (rule pending_bound_runs [OF assms]) (simp add: empty)
  show "length (snd (f p)) \<le> b" if "f \<in> publisherOperations b" for f by (rule batch_bound [OF that])
qed

definition sx_events :: "(nat, nat publisher) channel_call list" where
  "sx_events = [Publish 1, Publish 2, Publish 3, Publish 4, Call (resume 2), Publish 5, Call (resume 2)]"

theorem publisher_is_bounded_witness:
  "length (lp_pending (fst (runCalls (publishEvent 2 3) sx_events newPublisher))) \<le> 3 \<and>
   snd (runCalls (publishEvent 2 3) sx_events newPublisher) = [1, 2, 3, 5]"
proof (rule conjI)
  have "calledOps sx_events \<subseteq> publisherOperations 2" by (simp add: sx_events_def publisherOperations_def)
  from publisher_is_bounded [OF this, of 3 newPublisher]
  show "length (lp_pending (fst (runCalls (publishEvent 2 3) sx_events newPublisher))) \<le> 3" by blast
  show "snd (runCalls (publishEvent 2 3) sx_events newPublisher) = [1, 2, 3, 5]" by code_simp
qed

text \<open>While the publisher is not stopped, events that wait have a timer or a running loop that
  will send them, whatever is called, as long as no event is published between the end of
  a loop and its reset.\<close>

theorem waiting_events_are_scheduled:
  assumes "scheduled p"
  shows "(lp_draining p \<noteq> Finishing \<longrightarrow> scheduled (fst (publishEvent b m e p))) \<and>
    (f \<in> publisherOperations b \<longrightarrow> scheduled (fst (f p))) \<and>
    (lp_draining p = NotDraining \<and> lp_pending p \<noteq> [] \<longrightarrow>
       lp_draining (fst (timerFires p)) = Yielded)"
  using scheduled_operations [OF assms] assms by (auto simp: scheduled_def timerFires_def)

theorem waiting_events_are_scheduled_witness:
  "scheduled (fst (publishEvent 2 3 e (newPublisher :: nat publisher)))"
proof -
  have "scheduled (newPublisher :: nat publisher)" by (simp add: scheduled_def newPublisher_def)
  from waiting_events_are_scheduled [OF this] show ?thesis by (simp add: newPublisher_def)
qed

text \<open>
  In that gap a full batch is stranded: no timer is armed and the loop is not started.
\<close>

theorem events_can_be_stranded:
  "(let p = fst (runCalls (publishEvent 1 3)
        [Publish (1 :: nat), Call (resume 1), Call (resume 1), Publish 2, Call drainSettles] newPublisher)
    in lp_pending p = [2] \<and> \<not> lp_timer p \<and> lp_draining p = NotDraining \<and> \<not> lp_stopped p)"
  by code_simp

end
