(* ===== verification/Recurrence.thy ===== *)
theory Recurrence
  imports JsMaps
begin

text \<open>
  The rules of scheduled jobs and the instants they fire at (\<open>@n8n/scheduler\<close>,
  \<open>src/core/recurrence\<close> and \<open>types/schedule.ts\<close>). Instants are milliseconds. Parsing a cron
  expression and reading an instant in a time zone are done by libraries, which are a
  parameter.
\<close>

section \<open>Instants and the libraries\<close>

type_synonym instant = int

text \<open>A local time: the day is counted, so that days differ by a subtraction.\<close>

record local_time =
  lt_day :: int
  lt_hour :: int
  lt_weekday :: int
  lt_month :: int
  lt_year :: int

text \<open>
  What is used of \<open>cron-parser\<close> and \<open>luxon\<close>: is a zone known, can an expression be parsed in
  a zone, the first fire strictly after an instant (\<open>None\<close> when \<open>next()\<close> throws), and the
  local time of an instant.
\<close>

record cron_lib =
  cl_zone :: "string \<Rightarrow> bool"
  cl_parses :: "string \<Rightarrow> string \<Rightarrow> bool"
  cl_next :: "string \<Rightarrow> string \<Rightarrow> instant \<Rightarrow> instant option"
  cl_local :: "string \<Rightarrow> instant \<Rightarrow> local_time"

definition fires_ahead :: "cron_lib \<Rightarrow> bool" where
  "fires_ahead lib \<longleftrightarrow> (\<forall>e z t u. cl_next lib e z t = Some u \<longrightarrow> t < u)"

datatype sched_failure = InvalidSchedule | CorruptStorageRow | CronThrew

section \<open>Rules and jobs\<close>

datatype recurrence_unit = Hours | Days | Weeks | Months | OtherUnit string

datatype schedule =
    Cron string "string option"
  | RecurringCron string "string option" recurrence_unit int
  | Interval int
  | OneOff instant

datatype job_kind = KindCron | KindInterval | KindOneOff | KindRecurringCron | OtherKind string

datatype misfire_policy = Coalesce | CoalesceOwner | SkipMissed | OtherPolicy string

record job_owner =
  jo_type :: string
  jo_id :: string
  jo_member :: "string option"

record scheduled_job =
  sj_id :: nat
  sj_name :: string
  sj_owner :: job_owner
  sj_taskType :: string
  sj_payload :: json
  sj_kind :: job_kind
  sj_cronExpression :: "string option"
  sj_timezone :: "string option"
  sj_intervalSeconds :: "int option"
  sj_fireAt :: "instant option"
  sj_recurrenceUnit :: "recurrence_unit option"
  sj_recurrenceSize :: "int option"
  sj_nextRunAt :: "instant option"
  sj_lastFiredAt :: "instant option"
  sj_maxAttempts :: nat
  sj_misfirePolicy :: misfire_policy
  sj_misfireGraceSeconds :: int
  sj_enabled :: bool
  sj_orphanedAt :: "instant option"
  sj_createdAt :: instant

section \<open>Validation\<close>

definition isSpace :: "char \<Rightarrow> bool" where
  "isSpace c \<longleftrightarrow> c \<in> {CHR '' '', CHR 0x09, CHR 0x0A, CHR 0x0B, CHR 0x0C, CHR 0x0D, CHR 0xA0}"

fun countFields :: "bool \<Rightarrow> string \<Rightarrow> nat" where
  "countFields inField [] = 0"
| "countFields inField (c # cs) =
     (if isSpace c then countFields False cs
      else (if inField then 0 else 1) + countFields True cs)"

text \<open>\<open>expression.trim().split(/\s+/).length\<close>; splitting the empty string gives one part.\<close>

definition fieldCount :: "string \<Rightarrow> nat" where
  "fieldCount expression = max 1 (countFields False expression)"

definition validateCron :: "cron_lib \<Rightarrow> string \<Rightarrow> string option \<Rightarrow> sched_failure + unit" where
  "validateCron lib expression tz =
     rbind (throwIf (fieldCount expression < 5 \<or> fieldCount expression > 6) InvalidSchedule) (\<lambda>_.
     rbind (throwIf (case tz of None \<Rightarrow> False | Some z \<Rightarrow> \<not> cl_zone lib z) InvalidSchedule) (\<lambda>_.
       throwIf (\<not> cl_parses lib expression (case tz of None \<Rightarrow> ''UTC'' | Some z \<Rightarrow> z)) InvalidSchedule))"

fun knownUnit :: "recurrence_unit \<Rightarrow> bool" where
  "knownUnit (OtherUnit _) = False"
| "knownUnit _ = True"

fun validateSchedule :: "cron_lib \<Rightarrow> schedule \<Rightarrow> sched_failure + unit" where
  "validateSchedule lib (Cron e tz) = validateCron lib e tz"
| "validateSchedule lib (RecurringCron e tz unit every) =
     rbind (validateCron lib e tz) (\<lambda>_.
     rbind (throwIf (\<not> knownUnit unit) InvalidSchedule) (\<lambda>_. throwIf (every < 2) InvalidSchedule))"
| "validateSchedule lib (Interval seconds) = throwIf (seconds \<le> 0) InvalidSchedule"
| "validateSchedule lib (OneOff fireAt) = Inr ()"

definition resolvedTimezone :: "string option \<Rightarrow> sched_failure + string" where
  "resolvedTimezone tz = (case tz of None \<Rightarrow> Inl InvalidSchedule | Some z \<Rightarrow> Inr z)"

section \<open>Periods\<close>

definition startOfSundayWeek :: "local_time \<Rightarrow> int" where
  "startOfSundayWeek t = lt_day t - lt_weekday t mod 7"

text \<open>
  \<open>periodsBetween\<close>; for an unknown unit the code returns the unit, which compares with no
  number.
\<close>

definition periodsBetween ::
  "cron_lib \<Rightarrow> instant \<Rightarrow> instant \<Rightarrow> recurrence_unit \<Rightarrow> string \<Rightarrow> js_number option" where
  "periodsBetween lib from until unit tz =
     (let start = cl_local lib tz from; finish = cl_local lib tz until in
      case unit of
        Hours \<Rightarrow> Some (of_int ((lt_day finish - lt_day start) * 24 + lt_hour finish - lt_hour start))
      | Days \<Rightarrow> Some (of_int (lt_day finish - lt_day start))
      | Weeks \<Rightarrow> Some (of_int (startOfSundayWeek finish - startOfSundayWeek start) / 7)
      | Months \<Rightarrow> Some (of_int (lt_year finish * 12 + lt_month finish - (lt_year start * 12 + lt_month start)))
      | OtherUnit _ \<Rightarrow> None)"

definition isOnCadence ::
  "cron_lib \<Rightarrow> recurrence_unit \<Rightarrow> int \<Rightarrow> string \<Rightarrow> instant \<Rightarrow> instant \<Rightarrow> bool" where
  "isOnCadence lib unit every tz previousFire candidate =
     (case periodsBetween lib previousFire candidate unit tz of
        None \<Rightarrow> False
      | Some elapsed \<Rightarrow> elapsed = 0 \<or> elapsed \<ge> of_int every)"

section \<open>The next fire\<close>

definition parseCron :: "cron_lib \<Rightarrow> string \<Rightarrow> string \<Rightarrow> sched_failure + unit" where
  "parseCron lib e tz = throwIf (\<not> cl_parses lib e tz) InvalidSchedule"

definition cursorNext :: "cron_lib \<Rightarrow> string \<Rightarrow> string \<Rightarrow> instant \<Rightarrow> sched_failure + instant" where
  "cursorNext lib e tz t = (case cl_next lib e tz t of None \<Rightarrow> Inl CronThrew | Some u \<Rightarrow> Inr u)"

definition maxRecurrenceCandidates :: nat where
  "maxRecurrenceCandidates = 10000"

text \<open>The scan over the candidates; the cursor stands at the last candidate it returned.\<close>

primrec advanceToOnCadence ::
  "cron_lib \<Rightarrow> string \<Rightarrow> recurrence_unit \<Rightarrow> int \<Rightarrow> string \<Rightarrow> instant \<Rightarrow> nat \<Rightarrow> instant
     \<Rightarrow> sched_failure + instant" where
  "advanceToOnCadence lib e unit every tz previousFire 0 cursor = Inl InvalidSchedule"
| "advanceToOnCadence lib e unit every tz previousFire (Suc left) cursor =
     rbind (cursorNext lib e tz cursor) (\<lambda>candidate.
       if isOnCadence lib unit every tz previousFire candidate then Inr candidate
       else advanceToOnCadence lib e unit every tz previousFire left candidate)"

definition recurringCronNextRun ::
  "cron_lib \<Rightarrow> string \<Rightarrow> string option \<Rightarrow> recurrence_unit \<Rightarrow> int \<Rightarrow> instant \<Rightarrow> sched_failure + instant" where
  "recurringCronNextRun lib e tz unit every after =
     rbind (resolvedTimezone tz) (\<lambda>z. rbind (parseCron lib e z) (\<lambda>_.
       advanceToOnCadence lib e unit every z after maxRecurrenceCandidates after))"

definition cronNextRun :: "cron_lib \<Rightarrow> string \<Rightarrow> string option \<Rightarrow> instant \<Rightarrow> sched_failure + instant" where
  "cronNextRun lib e tz after =
     rbind (resolvedTimezone tz) (\<lambda>z. rbind (parseCron lib e z) (\<lambda>_. cursorNext lib e z after))"

definition intervalNextRun :: "int \<Rightarrow> instant \<Rightarrow> instant" where
  "intervalNextRun seconds after = after + seconds * 1000"

definition oneOffNextRun :: "instant \<Rightarrow> instant \<Rightarrow> instant option" where
  "oneOffNextRun fireAt after = (if after < fireAt then Some fireAt else None)"

definition computeNextRunAt :: "cron_lib \<Rightarrow> schedule \<Rightarrow> instant \<Rightarrow> sched_failure + instant option" where
  "computeNextRunAt lib s after =
     rbind (validateSchedule lib s) (\<lambda>_.
       case s of
         Cron e tz \<Rightarrow> rbind (cronNextRun lib e tz after) (\<lambda>t. Inr (Some t))
       | RecurringCron e tz unit every \<Rightarrow>
           rbind (recurringCronNextRun lib e tz unit every after) (\<lambda>t. Inr (Some t))
       | Interval seconds \<Rightarrow> Inr (Some (intervalNextRun seconds after))
       | OneOff fireAt \<Rightarrow> Inr (oneOffNextRun fireAt after))"

text \<open>The first run of a fresh job ignores the rule of every N periods.\<close>

definition computeFirstRunAt :: "cron_lib \<Rightarrow> schedule \<Rightarrow> instant \<Rightarrow> sched_failure + instant option" where
  "computeFirstRunAt lib s from =
     (case s of
        RecurringCron e tz unit every \<Rightarrow>
          rbind (validateSchedule lib s) (\<lambda>_. rbind (cronNextRun lib e tz from) (\<lambda>t. Inr (Some t)))
      | _ \<Rightarrow> computeNextRunAt lib s from)"

section \<open>A walk over the fires\<close>

text \<open>
  The generator of \<open>occurrencesFrom\<close>: starting it validates the rule and parses a cron
  expression; each later step goes on from the fire it yielded last, \<open>None\<close> when it is done.
\<close>

definition startWalk :: "cron_lib \<Rightarrow> schedule \<Rightarrow> sched_failure + unit" where
  "startWalk lib s =
     rbind (validateSchedule lib s) (\<lambda>_.
       case s of
         Cron e tz \<Rightarrow> rbind (resolvedTimezone tz) (parseCron lib e)
       | RecurringCron e tz unit every \<Rightarrow> rbind (resolvedTimezone tz) (parseCron lib e)
       | _ \<Rightarrow> Inr ())"

definition fireAfter :: "cron_lib \<Rightarrow> schedule \<Rightarrow> instant \<Rightarrow> sched_failure + instant option" where
  "fireAfter lib s fire =
     (case s of
        Cron e tz \<Rightarrow> rbind (resolvedTimezone tz) (\<lambda>z. rbind (cursorNext lib e z fire) (\<lambda>t. Inr (Some t)))
      | RecurringCron e tz unit every \<Rightarrow>
          rbind (resolvedTimezone tz) (\<lambda>z.
          rbind (advanceToOnCadence lib e unit every z fire maxRecurrenceCandidates fire) (\<lambda>t. Inr (Some t)))
      | Interval seconds \<Rightarrow> Inr (Some (intervalNextRun seconds fire))
      | OneOff fireAt \<Rightarrow> Inr None)"

section \<open>The rule of a stored job\<close>

definition required :: "'a option \<Rightarrow> sched_failure + 'a" where
  "required field = (case field of None \<Rightarrow> Inl CorruptStorageRow | Some v \<Rightarrow> Inr v)"

definition resolveSchedule :: "scheduled_job \<Rightarrow> string \<Rightarrow> sched_failure + schedule" where
  "resolveSchedule job defaultTimezone =
     (let tz = Some (case sj_timezone job of None \<Rightarrow> defaultTimezone | Some z \<Rightarrow> z) in
      case sj_kind job of
        KindCron \<Rightarrow> rbind (required (sj_cronExpression job)) (\<lambda>e. Inr (Cron e tz))
      | KindRecurringCron \<Rightarrow>
          rbind (required (sj_cronExpression job)) (\<lambda>e.
          rbind (required (sj_recurrenceUnit job)) (\<lambda>unit.
          rbind (required (sj_recurrenceSize job)) (\<lambda>every. Inr (RecurringCron e tz unit every))))
      | KindInterval \<Rightarrow> rbind (required (sj_intervalSeconds job)) (\<lambda>n. Inr (Interval n))
      | KindOneOff \<Rightarrow> rbind (required (sj_fireAt job)) (\<lambda>t. Inr (OneOff t))
      | OtherKind _ \<Rightarrow> Inl CorruptStorageRow)"

section \<open>Lemmas\<close>

lemma resolvedTimezone_simps [simp]:
  "resolvedTimezone None = Inl InvalidSchedule" "resolvedTimezone (Some z) = Inr z"
  by (simp_all add: resolvedTimezone_def)

lemma cursorNext_ahead: "fires_ahead lib \<Longrightarrow> cursorNext lib e z t = Inr u \<Longrightarrow> t < u"
  by (auto simp: cursorNext_def fires_ahead_def split: option.splits)

lemma advance_ahead:
  "fires_ahead lib \<Longrightarrow> advanceToOnCadence lib e unit every z p n c = Inr u \<Longrightarrow> c < u"
proof (induction n arbitrary: c)
  case (Suc n)
  obtain d where d: "cursorNext lib e z c = Inr d" using Suc.prems(2) by (cases "cursorNext lib e z c") auto
  have "c < d" using cursorNext_ahead [OF Suc.prems(1) d] .
  moreover have "u = d \<or> d < u"
    using Suc.prems d Suc.IH [OF Suc.prems(1), of d] by (auto split: if_splits)
  ultimately show ?case by auto
qed simp

lemma startWalk_Interval: "startWalk lib (Interval n) = Inr () \<longleftrightarrow> 0 < n"
  by (auto simp: startWalk_def rbind_Inr_iff)

lemma fireAfter_ahead:
  assumes "fires_ahead lib" and "startWalk lib s = Inr ()" and "fireAfter lib s t = Inr (Some u)"
  shows "t < u"
proof (cases s)
  case (Cron e tz)
  then show ?thesis using assms(1,3) cursorNext_ahead
    by (auto simp: fireAfter_def rbind_Inr_iff resolvedTimezone_def split: option.splits)
next
  case (RecurringCron e tz unit every)
  then show ?thesis using assms(1,3) advance_ahead
    by (auto simp: fireAfter_def rbind_Inr_iff resolvedTimezone_def split: option.splits)
next
  case (Interval n)
  then show ?thesis using assms(2,3) by (auto simp: startWalk_Interval fireAfter_def intervalNextRun_def)
qed (use assms(3) in \<open>auto simp: fireAfter_def\<close>)

text \<open>The scan returns the first candidate on the cadence, within the bound.\<close>

primrec candidateAfter :: "cron_lib \<Rightarrow> string \<Rightarrow> string \<Rightarrow> instant \<Rightarrow> nat \<Rightarrow> instant option" where
  "candidateAfter lib e z t 0 = Some t"
| "candidateAfter lib e z t (Suc k) =
     (case cl_next lib e z t of None \<Rightarrow> None | Some u \<Rightarrow> candidateAfter lib e z u k)"

lemma advance_first:
  "advanceToOnCadence lib e unit every z p n c = Inr u \<longleftrightarrow>
     (\<exists>k. 0 < k \<and> k \<le> n \<and> candidateAfter lib e z c k = Some u \<and> isOnCadence lib unit every z p u
        \<and> (\<forall>j v. 0 < j \<and> j < k \<and> candidateAfter lib e z c j = Some v \<longrightarrow> \<not> isOnCadence lib unit every z p v))"
proof (induction n arbitrary: c)
  case (Suc n)
  show ?case
  proof (cases "cl_next lib e z c")
    case None
    then show ?thesis by (auto simp: cursorNext_def gr0_conv_Suc)
  next
    case (Some d)
    show ?thesis
    proof (cases "isOnCadence lib unit every z p d")
      case True
      have "k = Suc 0" if "0 < k"
        "\<forall>j v. 0 < j \<and> j < k \<and> candidateAfter lib e z c j = Some v \<longrightarrow> \<not> isOnCadence lib unit every z p v" for k
      proof (rule ccontr)
        assume "k \<noteq> Suc 0"
        then have "Suc 0 < k" using that(1) by simp
        then show False using that(2) Some True by force
      qed
      note only = this
      have "(\<exists>k. 0 < k \<and> k \<le> Suc n \<and> candidateAfter lib e z c k = Some u \<and> isOnCadence lib unit every z p u
          \<and> (\<forall>j v. 0 < j \<and> j < k \<and> candidateAfter lib e z c j = Some v \<longrightarrow> \<not> isOnCadence lib unit every z p v))
          \<longleftrightarrow> d = u" (is "?L \<longleftrightarrow> _")
      proof
        assume ?L
        then obtain k where k: "0 < k" "candidateAfter lib e z c k = Some u"
            "\<forall>j v. 0 < j \<and> j < k \<and> candidateAfter lib e z c j = Some v \<longrightarrow> \<not> isOnCadence lib unit every z p v"
          by blast
        have "k = Suc 0" using only [OF k(1) k(3)] .
        then show "d = u" using k(2) Some by simp
      next
        assume "d = u"
        then show ?L using Some True by (intro exI [of _ "Suc 0"]) auto
      qed
      then show ?thesis using Some True by (simp add: cursorNext_def)
    next
      case False
      let ?first = "\<lambda>c k. candidateAfter lib e z c k = Some u \<and> isOnCadence lib unit every z p u
        \<and> (\<forall>j v. 0 < j \<and> j < k \<and> candidateAfter lib e z c j = Some v \<longrightarrow> \<not> isOnCadence lib unit every z p v)"
      have step: "?first c (Suc k) \<longleftrightarrow> ?first d k" if "0 < k" for k
      proof -
        have "(\<forall>j v. 0 < j \<and> j < Suc k \<and> candidateAfter lib e z c j = Some v \<longrightarrow> \<not> isOnCadence lib unit every z p v)
            \<longleftrightarrow> (\<forall>j v. 0 < j \<and> j < k \<and> candidateAfter lib e z d j = Some v \<longrightarrow> \<not> isOnCadence lib unit every z p v)"
          (is "?A \<longleftrightarrow> ?B")
        proof
          assume a: ?A
          show ?B
          proof (intro allI impI)
            fix j v assume "0 < j \<and> j < k \<and> candidateAfter lib e z d j = Some v"
            then show "\<not> isOnCadence lib unit every z p v"
              using a [rule_format, of "Suc j" v] Some by simp
          qed
        next
          assume b: ?B
          show ?A
          proof (intro allI impI)
            fix j v assume j: "0 < j \<and> j < Suc k \<and> candidateAfter lib e z c j = Some v"
            then obtain i where i: "j = Suc i" by (cases j) auto
            show "\<not> isOnCadence lib unit every z p v"
            proof (cases i)
              case 0
              then show ?thesis using j i Some False by auto
            next
              case (Suc i')
              then show ?thesis using b [rule_format, of i v] j i Some by auto
            qed
          qed
        qed
        then show ?thesis using Some by simp
      qed
      have "advanceToOnCadence lib e unit every z p (Suc n) c = Inr u
          \<longleftrightarrow> (\<exists>k. 0 < k \<and> k \<le> n \<and> ?first d k)"
        using Some False Suc.IH [of d] by (simp add: cursorNext_def)
      also have "\<dots> \<longleftrightarrow> (\<exists>k. 0 < k \<and> k \<le> n \<and> ?first c (Suc k))" using step by blast
      also have "\<dots> \<longleftrightarrow> (\<exists>k. 0 < k \<and> k \<le> Suc n \<and> ?first c k)"
      proof
        assume "\<exists>k. 0 < k \<and> k \<le> Suc n \<and> ?first c k"
        then obtain k where k: "0 < k" "k \<le> Suc n" "?first c k" by blast
        have "k \<noteq> Suc 0" using k(3) Some False by auto
        then obtain i where "k = Suc i" "0 < i" using k(1) by (cases k) auto
        then show "\<exists>k. 0 < k \<and> k \<le> n \<and> ?first c (Suc k)" using k(2,3) by auto
      qed (metis Suc_le_mono zero_less_Suc)
      finally show ?thesis .
    qed
  qed
qed simp

end
