(* ===== verification/OccurrencePlan.thy ===== *)
theory OccurrencePlan
  imports Recurrence "HOL-Library.Sublist"
begin

text \<open>
  The pure part of a planning pass (\<open>@n8n/scheduler\<close>, \<open>src/core/materializer\<close>): the
  occurrences of a due job, what its misfire policy discards of a backlog, and the late runs
  of the jobs of one owner.
\<close>

section \<open>The plan of one job\<close>

record plan =
  pl_occurrences :: "instant list"
  pl_skipped :: nat
  pl_catchUpAt :: "instant option"
  pl_retireBefore :: "instant option"
  pl_nextRunAt :: "instant option"
  pl_lastFiredAt :: "instant option"

type_synonym planned = "scheduled_job \<times> plan"

record materializer_options =
  mo_windowSeconds :: int
  mo_lookaheadSeconds :: int
  mo_maxPerJob :: nat
  mo_batchSize :: nat
  mo_planRetrySeconds :: int
  mo_defaultTimezone :: string

text \<open>
  The walk over the due fires; the second component is the fire the walk stopped at, \<open>None\<close>
  when there are no more.
\<close>

fun collectDue ::
  "cron_lib \<Rightarrow> schedule \<Rightarrow> instant \<Rightarrow> nat \<Rightarrow> instant option \<Rightarrow> sched_failure + instant list \<times> instant option" where
  "collectDue lib s windowEnd left None = Inr ([], None)"
| "collectDue lib s windowEnd 0 (Some fire) = Inr ([], Some fire)"
| "collectDue lib s windowEnd (Suc left) (Some fire) =
     (if fire \<le> windowEnd then
        rbind (fireAfter lib s fire) (\<lambda>nxt.
        rbind (collectDue lib s windowEnd left nxt) (\<lambda>(due, rest). Inr (fire # due, rest)))
      else Inr ([], Some fire))"

definition applyMisfirePolicy ::
  "instant list \<Rightarrow> instant \<Rightarrow> scheduled_job \<Rightarrow> bool \<Rightarrow> sched_failure + instant list \<times> instant option" where
  "applyMisfirePolicy due now job truncated =
     (let graceDeadline = now - sj_misfireGraceSeconds job * 1000;
          behind = filter (\<lambda>t. t \<le> now) due;
          ahead = drop (length behind) due
      in if behind = [] \<or> hd behind > graceDeadline then Inr (due, None)
         else case sj_misfirePolicy job of
           SkipMissed \<Rightarrow> Inr (ahead, None)
         | OtherPolicy _ \<Rightarrow> Inl CorruptStorageRow
         | _ \<Rightarrow> if truncated \<and> ahead = [] then Inr ([], None)
                else Inr (last behind # ahead, Some (last behind)))"

definition planOccurrences ::
  "cron_lib \<Rightarrow> scheduled_job \<Rightarrow> instant \<Rightarrow> materializer_options \<Rightarrow> sched_failure + plan" where
  "planOccurrences lib job now opts =
     rbind (resolveSchedule job (mo_defaultTimezone opts)) (\<lambda>s.
       let windowEnd = now + mo_windowSeconds opts * 1000 in
       case sj_nextRunAt job of
         None \<Rightarrow> Inr \<lparr>pl_occurrences = [], pl_skipped = 0, pl_catchUpAt = None, pl_retireBefore = None,
                     pl_nextRunAt = None, pl_lastFiredAt = sj_lastFiredAt job\<rparr>
       | Some first \<Rightarrow>
           rbind (startWalk lib s) (\<lambda>_.
           rbind (collectDue lib s windowEnd (mo_maxPerJob opts) (Some first)) (\<lambda>(due, fire).
             let truncated = (case fire of None \<Rightarrow> False | Some t \<Rightarrow> t \<le> windowEnd) in
             rbind (applyMisfirePolicy due now job truncated) (\<lambda>(occurrences, catchUpAt).
               Inr \<lparr>pl_occurrences = occurrences, pl_skipped = length due - length occurrences,
                    pl_catchUpAt = catchUpAt, pl_retireBefore = catchUpAt, pl_nextRunAt = fire,
                    pl_lastFiredAt = (if due = [] then sj_lastFiredAt job else Some (last due))\<rparr>))))"

text \<open>A job that cannot be planned is put off; nothing is recorded for it.\<close>

definition deferredPlan :: "scheduled_job \<Rightarrow> instant \<Rightarrow> materializer_options \<Rightarrow> plan" where
  "deferredPlan job now opts =
     \<lparr>pl_occurrences = [], pl_skipped = 0, pl_catchUpAt = None, pl_retireBefore = None,
      pl_nextRunAt = Some (now + mo_planRetrySeconds opts * 1000), pl_lastFiredAt = sj_lastFiredAt job\<rparr>"

definition planOrDeferJob :: "cron_lib \<Rightarrow> instant \<Rightarrow> materializer_options \<Rightarrow> scheduled_job \<Rightarrow> planned \<times> bool" where
  "planOrDeferJob lib now opts job =
     (case planOccurrences lib job now opts of
        Inr p \<Rightarrow> ((job, p), False)
      | Inl _ \<Rightarrow> ((job, deferredPlan job now opts), True))"

section \<open>One late run for an owner\<close>

text \<open>\<open>ownerKeyFor\<close>: every part is preceded by its length.\<close>

definition lengthPrefixed :: "string option \<Rightarrow> string" where
  "lengthPrefixed part = (case part of None \<Rightarrow> ''-:'' | Some p \<Rightarrow> nat_to_string (length p) @ '':'' @ p)"

definition ownerKeyFor :: "job_owner \<Rightarrow> string" where
  "ownerKeyFor ow = concat (map lengthPrefixed [Some (jo_type ow), Some (jo_id ow), jo_member ow])"

definition isOwnedMember :: "planned \<Rightarrow> bool" where
  "isOwnedMember e \<longleftrightarrow> pl_catchUpAt (snd e) \<noteq> None \<and> sj_misfirePolicy (fst e) = CoalesceOwner"

definition ownerKeyOf :: "planned \<Rightarrow> string" where
  "ownerKeyOf e = ownerKeyFor (sj_owner (fst e))"

text \<open>The entries of one group with their place in the pass; entries are told apart by it.\<close>

definition groupOf :: "planned list \<Rightarrow> string \<Rightarrow> (nat \<times> planned) list" where
  "groupOf planned key =
     filter (\<lambda>(i, e). isOwnedMember e \<and> ownerKeyOf e = key) (enumerate 0 planned)"

definition latestMissedAt :: "planned \<Rightarrow> instant" where
  "latestMissedAt e = the (pl_catchUpAt (snd e))"

definition latestThenLowestId :: "nat \<times> planned \<Rightarrow> nat \<times> planned \<Rightarrow> nat \<times> planned" where
  "latestThenLowestId current candidate =
     (if latestMissedAt (snd candidate) \<noteq> latestMissedAt (snd current)
      then (if latestMissedAt (snd candidate) > latestMissedAt (snd current) then candidate else current)
      else if sj_id (fst (snd candidate)) < sj_id (fst (snd current)) then candidate else current)"

definition winnerOf :: "(nat \<times> planned) list \<Rightarrow> nat \<times> planned" where
  "winnerOf members = foldl latestThenLowestId (hd members) (tl members)"

definition dropLateRun :: "planned \<Rightarrow> planned" where
  "dropLateRun e = (fst e, (snd e)\<lparr>pl_occurrences := tl (pl_occurrences (snd e)), pl_catchUpAt := None\<rparr>)"

definition losesLateRun :: "planned list \<Rightarrow> nat \<Rightarrow> planned \<Rightarrow> bool" where
  "losesLateRun planned i e \<longleftrightarrow>
     isOwnedMember e \<and> fst (winnerOf (groupOf planned (ownerKeyOf e))) \<noteq> i"

definition applyCoalesceOwnerPolicy :: "planned list \<Rightarrow> planned list" where
  "applyCoalesceOwnerPolicy planned =
     map (\<lambda>(i, e). if losesLateRun planned i e then dropLateRun e else e) (enumerate 0 planned)"

section \<open>What the pass writes\<close>

record new_occurrence =
  no_jobId :: nat
  no_taskType :: string
  no_payload :: json
  no_scheduledFor :: instant
  no_runAt :: instant
  no_maxAttempts :: nat
  no_missedAfter :: "instant option"

definition toNewOccurrence :: "instant \<Rightarrow> planned \<Rightarrow> instant \<Rightarrow> new_occurrence" where
  "toNewOccurrence now e t =
     (let job = fst e;
          runAt = (if pl_catchUpAt (snd e) = Some t then now else t);
          visibleAt = max runAt now
      in \<lparr>no_jobId = sj_id job, no_taskType = sj_taskType job, no_payload = sj_payload job,
          no_scheduledFor = t, no_runAt = runAt, no_maxAttempts = sj_maxAttempts job,
          no_missedAfter = Some (visibleAt + sj_misfireGraceSeconds job * 1000)\<rparr>)"

definition toNewOccurrences :: "planned list \<Rightarrow> instant \<Rightarrow> new_occurrence list" where
  "toNewOccurrences planned now =
     concat (map (\<lambda>e. map (toNewOccurrence now e) (pl_occurrences (snd e))) planned)"

definition toSuperseded :: "planned list \<Rightarrow> (nat \<times> instant) list" where
  "toSuperseded planned =
     concat (map (\<lambda>e. case pl_retireBefore (snd e) of None \<Rightarrow> [] | Some t \<Rightarrow> [(sj_id (fst e), t)]) planned)"

text \<open>The discarded occurrences by task type and policy, in the order the groups appear.\<close>

fun policyName :: "misfire_policy \<Rightarrow> string" where
  "policyName Coalesce = ''coalesce''"
| "policyName CoalesceOwner = ''coalesce_owner''"
| "policyName SkipMissed = ''skip''"
| "policyName (OtherPolicy s) = s"

definition misfireKey :: "scheduled_job \<Rightarrow> string" where
  "misfireKey job = sj_taskType job @ '':'' @ policyName (sj_misfirePolicy job)"

definition countMisfires :: "planned list \<Rightarrow> (string \<times> misfire_policy \<times> nat) list" where
  "countMisfires planned =
     map snd (foldl (\<lambda>groups e. let key = misfireKey (fst e);
                         old = (case jm_get groups key of None \<Rightarrow> 0 | Some (_, _, n) \<Rightarrow> n)
                     in jm_set groups key (sj_taskType (fst e), sj_misfirePolicy (fst e), old + pl_skipped (snd e)))
                 [] (filter (\<lambda>e. pl_skipped (snd e) > 0) planned))"

definition totalDiscarded :: "(string \<times> misfire_policy \<times> nat) list \<Rightarrow> nat" where
  "totalDiscarded misfires = sum_list (map (\<lambda>(_, _, n). n) misfires)"

section \<open>The walk of a pass\<close>

text \<open>\<open>walk lib s from due rest\<close>: \<open>due\<close> are consecutive fires, \<open>rest\<close> is the one after them.\<close>

inductive walk :: "cron_lib \<Rightarrow> schedule \<Rightarrow> instant option \<Rightarrow> instant list \<Rightarrow> instant option \<Rightarrow> bool"
  for lib s where
  walk_Nil: "walk lib s f [] f"
| walk_Cons: "fireAfter lib s t = Inr nxt \<Longrightarrow> walk lib s nxt due rest \<Longrightarrow> walk lib s (Some t) (t # due) rest"

inductive_cases walk_NilE [elim!]: "walk lib s f [] rest"
inductive_cases walk_ConsE [elim!]: "walk lib s f (t # due) rest"
inductive_simps walk_Nil_simp [simp]: "walk lib s f [] rest"

lemma walk_append: "walk lib s f xs g \<Longrightarrow> walk lib s g ys h \<Longrightarrow> walk lib s f (xs @ ys) h"
  by (induction rule: walk.induct) (auto intro: walk.intros)

lemma collectDue_walk:
  "collectDue lib s w n f = Inr (due, rest) \<Longrightarrow>
     walk lib s f due rest \<and> (\<forall>t \<in> set due. t \<le> w) \<and> length due \<le> n
     \<and> (length due < n \<longrightarrow> rest = None \<or> w < the rest)"
proof (induction lib s w n f arbitrary: due rest rule: collectDue.induct)
  case (3 lib s w n t)
  show ?case
  proof (cases "t \<le> w")
    case True
    then obtain nxt due' where step: "fireAfter lib s t = Inr nxt"
        "collectDue lib s w n nxt = Inr (due', rest)" "due = t # due'"
      using "3.prems" by (auto simp: rbind_Inr_iff)
    then show ?thesis using "3.IH" [OF True, of nxt due' rest] True by (auto intro: walk.intros)
  next
    case False
    then show ?thesis using "3.prems" by auto
  qed
qed auto

lemma walk_sorted:
  assumes "fires_ahead lib" "startWalk lib s = Inr ()"
  shows "walk lib s f due rest \<Longrightarrow> sorted_wrt (<) due \<and> (\<forall>t \<in> set due. the f \<le> t)
     \<and> (\<forall>r. rest = Some r \<longrightarrow> (\<forall>t \<in> set due. t < r)) \<and> (due \<noteq> [] \<longrightarrow> f = Some (hd due))"
proof (induction rule: walk.induct)
  case (walk_Cons t nxt due rest)
  have ahead: "nxt = Some u \<Longrightarrow> t < u" for u
    using fireAfter_ahead [OF assms] walk_Cons.hyps(1) by blast
  show ?case
  proof (cases "due = []")
    case True
    then show ?thesis using walk_Cons.hyps(2) ahead by auto
  next
    case False
    then obtain u where u: "nxt = Some u" "u = hd due" using walk_Cons.IH by auto
    then have "t < u" using ahead by simp
    moreover have "\<forall>x \<in> set due. u \<le> x" using walk_Cons.IH u by simp
    ultimately have later: "\<forall>x \<in> set due. t < x" by auto
    have "\<forall>r. rest = Some r \<longrightarrow> t < r"
      using walk_Cons.IH later False by (metis hd_in_set less_trans)
    then show ?thesis using walk_Cons.IH later by auto
  qed
qed simp

lemma sorted_filter_take:
  "sorted_wrt (<) xs \<Longrightarrow> filter (\<lambda>t. t \<le> (b::int)) xs = take (length (filter (\<lambda>t. t \<le> b) xs)) xs
     \<and> filter (\<lambda>t. b < t) xs = drop (length (filter (\<lambda>t. t \<le> b) xs)) xs"
proof (induction xs)
  case (Cons x xs)
  show ?case
  proof (cases "x \<le> b")
    case False
    then have "\<forall>y \<in> set xs. b < y" using Cons.prems by auto
    then have "filter (\<lambda>t. t \<le> b) xs = []" by (auto simp: filter_empty_conv)
    moreover have "filter (\<lambda>t. b < t) xs = xs" using \<open>\<forall>y \<in> set xs. b < y\<close> by simp
    ultimately show ?thesis using False by simp
  qed (use Cons in auto)
qed simp

end
