(* ===== verification/TaskStore.thy ===== *)
theory TaskStore
  imports OccurrencePlan
begin

text \<open>
  The table of occurrences (\<open>scheduled-task.ts\<close> and \<open>scheduled-task.repository.ts\<close> of
  \<open>@n8n/db\<close>): its rows, the statements the repository runs, and the invariant every statement
  keeps. A statement reads the clock of the database, which is the argument \<open>now\<close>; it is
  atomic. A condition on a column that is \<open>NULL\<close> does not hold. Rows that another
  transaction has locked are an argument of the statements that skip them.
\<close>

section \<open>Rows\<close>

datatype occurrence_status =
  OccPending | OccRunning | OccSucceeded | OccFailed | OccMissed | OccCancelled

definition terminalStatuses :: "occurrence_status list" where
  "terminalStatuses = [OccSucceeded, OccFailed, OccMissed, OccCancelled]"

record task_row =
  tr_id :: nat
  tr_jobId :: nat
  tr_taskType :: string
  tr_payload :: json
  tr_scheduledFor :: instant
  tr_runAt :: instant
  tr_status :: occurrence_status
  tr_attempts :: nat
  tr_maxAttempts :: nat
  tr_claimedBy :: "string option"
  tr_leaseExpiresAt :: "instant option"
  tr_leaseEpoch :: nat
  tr_startedAt :: "instant option"
  tr_dispatchedAt :: "instant option"
  tr_finishedAt :: "instant option"
  tr_errorMessage :: "string option"
  tr_missedAfter :: "instant option"

record task_table =
  tt_rows :: "task_row list"
  tt_nextId :: nat

definition emptyTable :: task_table where
  "emptyTable = \<lparr>tt_rows = [], tt_nextId = 0\<rparr>"

text \<open>An \<open>UPDATE\<close> and a \<open>DELETE\<close>, with the number of rows affected.\<close>

definition updateRows :: "(task_row \<Rightarrow> bool) \<Rightarrow> (task_row \<Rightarrow> task_row) \<Rightarrow> task_table \<Rightarrow> task_table \<times> nat" where
  "updateRows p f tbl =
     (tbl\<lparr>tt_rows := map (\<lambda>r. if p r then f r else r) (tt_rows tbl)\<rparr>, length (filter p (tt_rows tbl)))"

definition deleteWhere :: "(task_row \<Rightarrow> bool) \<Rightarrow> task_table \<Rightarrow> task_table \<times> nat" where
  "deleteWhere p tbl =
     (tbl\<lparr>tt_rows := filter (\<lambda>r. \<not> p r) (tt_rows tbl)\<rparr>, length (filter p (tt_rows tbl)))"

definition rowIds :: "task_row list \<Rightarrow> nat list" where
  "rowIds rows = map tr_id rows"

section \<open>Recording\<close>

text \<open>A new row takes the column defaults of the entity.\<close>

definition newRow :: "nat \<Rightarrow> new_occurrence \<Rightarrow> task_row" where
  "newRow i no =
     \<lparr>tr_id = i, tr_jobId = no_jobId no, tr_taskType = no_taskType no, tr_payload = no_payload no,
      tr_scheduledFor = no_scheduledFor no, tr_runAt = no_runAt no, tr_status = OccPending,
      tr_attempts = 0, tr_maxAttempts = no_maxAttempts no, tr_claimedBy = None,
      tr_leaseExpiresAt = None, tr_leaseEpoch = 0, tr_startedAt = None, tr_dispatchedAt = None,
      tr_finishedAt = None, tr_errorMessage = None, tr_missedAfter = no_missedAfter no\<rparr>"

definition occurrenceKey :: "task_row \<Rightarrow> nat \<times> instant" where
  "occurrenceKey r = (tr_jobId r, tr_scheduledFor r)"

text \<open>One row of \<open>INSERT ... ON CONFLICT DO NOTHING\<close>.\<close>

definition insertOne :: "new_occurrence \<Rightarrow> task_table \<Rightarrow> task_table \<times> task_row list" where
  "insertOne no tbl =
     (if (no_jobId no, no_scheduledFor no) \<in> set (map occurrenceKey (tt_rows tbl)) then (tbl, [])
      else let r = newRow (tt_nextId tbl) no
           in (\<lparr>tt_rows = tt_rows tbl @ [r], tt_nextId = tt_nextId tbl + 1\<rparr>, [r]))"

fun insertAll :: "new_occurrence list \<Rightarrow> task_table \<Rightarrow> task_table \<times> task_row list" where
  "insertAll [] tbl = (tbl, [])"
| "insertAll (no # nos) tbl =
     (case insertOne no tbl of (tbl, new) \<Rightarrow>
        case insertAll nos tbl of (tbl, rest) \<Rightarrow> (tbl, new @ rest))"

definition chunksOf :: "nat \<Rightarrow> 'a list \<Rightarrow> 'a list list" where
  "chunksOf n xs = map (\<lambda>i. take n (drop (i * n) xs)) [0..<(length xs + n - 1) div n]"

record insert_result =
  ir_recorded :: nat
  ir_created :: "(nat \<times> nat \<times> string) list"

text \<open>One statement per chunk; only Postgres gives back the rows it created.\<close>

fun insertChunks :: "bool \<Rightarrow> new_occurrence list list \<Rightarrow> insert_result \<Rightarrow> task_table \<Rightarrow> task_table \<times> insert_result" where
  "insertChunks isPostgres [] res tbl = (tbl, res)"
| "insertChunks isPostgres (chunk # chunks) res tbl =
     (case insertAll chunk tbl of (tbl, new) \<Rightarrow>
        insertChunks isPostgres chunks
          \<lparr>ir_recorded = ir_recorded res + length new,
           ir_created = ir_created res @
             (if isPostgres then map (\<lambda>r. (tr_id r, tr_jobId r, tr_taskType r)) new else [])\<rparr> tbl)"

definition insertIgnoringDuplicates ::
  "bool \<Rightarrow> new_occurrence list \<Rightarrow> nat \<Rightarrow> task_table \<Rightarrow> task_table \<times> insert_result" where
  "insertIgnoringDuplicates isPostgres occurrences chunkSize tbl =
     insertChunks isPostgres (chunksOf chunkSize occurrences) \<lparr>ir_recorded = 0, ir_created = []\<rparr> tbl"

definition deletePendingByJobIds :: "nat list \<Rightarrow> task_table \<Rightarrow> task_table" where
  "deletePendingByJobIds jobIds tbl =
     (if jobIds \<noteq> []
      then fst (deleteWhere (\<lambda>r. tr_jobId r \<in> set jobIds \<and> tr_status r = OccPending) tbl) else tbl)"

definition updateToMissed :: "instant \<Rightarrow> (nat \<times> instant) list \<Rightarrow> task_table \<Rightarrow> task_table \<times> nat" where
  "updateToMissed now superseded tbl =
     (if superseded = [] then (tbl, 0)
      else updateRows
             (\<lambda>r. tr_status r = OccPending \<and>
                (\<exists>(jobId, before) \<in> set superseded. tr_jobId r = jobId \<and> tr_scheduledFor r < before))
             (\<lambda>r. r\<lparr>tr_status := OccMissed, tr_finishedAt := Some now\<rparr>) tbl)"

definition updateMissedAfterForJobs :: "instant \<Rightarrow> nat list \<Rightarrow> int \<Rightarrow> task_table \<Rightarrow> task_table" where
  "updateMissedAfterForJobs now jobIds misfireGraceSeconds tbl =
     (if jobIds = [] then tbl
      else fst (updateRows
             (\<lambda>r. tr_jobId r \<in> set jobIds \<and> tr_status r = OccPending \<and>
                (case tr_missedAfter r of None \<Rightarrow> False | Some d \<Rightarrow> now < d))
             (\<lambda>r. r\<lparr>tr_missedAfter := Some (max (tr_runAt r) now + misfireGraceSeconds * 1000)\<rparr>) tbl))"

section \<open>Claiming\<close>

record claim_options =
  co_host :: string
  co_taskTypes :: "string list"
  co_lookaheadMs :: int
  co_leaseMs :: int
  co_batchSize :: nat

definition claimable :: "instant \<Rightarrow> task_row \<Rightarrow> bool" where
  "claimable now r \<longleftrightarrow>
     (case tr_missedAfter r of None \<Rightarrow> True | Some d \<Rightarrow> now < d) \<or> 0 < tr_attempts r"

definition dueForClaim :: "instant \<Rightarrow> claim_options \<Rightarrow> task_row \<Rightarrow> bool" where
  "dueForClaim now opts r \<longleftrightarrow>
     tr_status r = OccPending \<and> tr_taskType r \<in> set (co_taskTypes opts) \<and>
     tr_runAt r \<le> now + co_lookaheadMs opts \<and> claimable now r"

definition claimRow :: "instant \<Rightarrow> claim_options \<Rightarrow> task_row \<Rightarrow> task_row" where
  "claimRow now opts r =
     r\<lparr>tr_status := OccRunning, tr_claimedBy := Some (co_host opts),
       tr_leaseExpiresAt := Some (now + co_leaseMs opts), tr_leaseEpoch := tr_leaseEpoch r + 1\<rparr>"

text \<open>
  Both dialects take the same rows: Postgres leaves out the locked ones, SQLite has none. The
  rows come back in no promised order, here in that of the table.
\<close>

definition claimDueTasks ::
  "instant \<Rightarrow> nat set \<Rightarrow> claim_options \<Rightarrow> task_table \<Rightarrow> task_table \<times> task_row list" where
  "claimDueTasks now locked opts tbl =
     (if co_taskTypes opts = [] then (tbl, [])
      else let candidates = take (co_batchSize opts)
                 (sort_key tr_runAt (filter (\<lambda>r. dueForClaim now opts r \<and> tr_id r \<notin> locked) (tt_rows tbl)));
               claimed = (\<lambda>r. tr_id r \<in> set (rowIds candidates) \<and> tr_status r = OccPending)
           in (fst (updateRows claimed (claimRow now opts) tbl),
               map (claimRow now opts) (filter claimed (tt_rows tbl))))"

section \<open>The owner of a claim\<close>

record claimed_ref =
  cr_host :: string
  cr_id :: nat
  cr_epoch :: nat

text \<open>The condition of \<open>runGuardedUpdate\<close>.\<close>

definition owned :: "claimed_ref \<Rightarrow> task_row \<Rightarrow> bool" where
  "owned ref r \<longleftrightarrow> tr_id r = cr_id ref \<and> tr_status r = OccRunning \<and>
     tr_claimedBy r = Some (cr_host ref) \<and> tr_leaseEpoch r = cr_epoch ref"

definition runGuardedUpdate :: "claimed_ref \<Rightarrow> (task_row \<Rightarrow> task_row) \<Rightarrow> task_table \<Rightarrow> task_table \<times> nat" where
  "runGuardedUpdate ref values tbl = updateRows (owned ref) values tbl"

definition beginDispatch :: "instant \<Rightarrow> claimed_ref \<Rightarrow> int \<Rightarrow> task_table \<Rightarrow> task_table \<times> nat" where
  "beginDispatch now ref leaseMs tbl =
     updateRows (\<lambda>r. owned ref r \<and> tr_startedAt r = None)
       (\<lambda>r. r\<lparr>tr_startedAt := Some now, tr_leaseExpiresAt := Some (now + leaseMs)\<rparr>) tbl"

definition markDispatched :: "instant \<Rightarrow> claimed_ref \<Rightarrow> task_table \<Rightarrow> task_table \<times> nat" where
  "markDispatched now ref = runGuardedUpdate ref (\<lambda>r. r\<lparr>tr_dispatchedAt := Some now\<rparr>)"

definition completeTask :: "instant \<Rightarrow> claimed_ref \<Rightarrow> task_table \<Rightarrow> task_table \<times> nat" where
  "completeTask now ref = runGuardedUpdate ref
     (\<lambda>r. r\<lparr>tr_status := OccSucceeded, tr_finishedAt := Some now, tr_errorMessage := None\<rparr>)"

definition failTaskTerminal :: "instant \<Rightarrow> claimed_ref \<Rightarrow> string \<Rightarrow> task_table \<Rightarrow> task_table \<times> nat" where
  "failTaskTerminal now ref msg = runGuardedUpdate ref
     (\<lambda>r. r\<lparr>tr_status := OccFailed, tr_finishedAt := Some now, tr_attempts := tr_attempts r + 1,
            tr_errorMessage := Some msg\<rparr>)"

definition rescheduleTask :: "instant \<Rightarrow> claimed_ref \<Rightarrow> int \<Rightarrow> string \<Rightarrow> task_table \<Rightarrow> task_table \<times> nat" where
  "rescheduleTask now ref backoffMs msg = runGuardedUpdate ref
     (\<lambda>r. r\<lparr>tr_status := OccPending, tr_runAt := now + backoffMs, tr_attempts := tr_attempts r + 1,
            tr_errorMessage := Some msg, tr_claimedBy := None, tr_leaseExpiresAt := None,
            tr_startedAt := None, tr_dispatchedAt := None\<rparr>)"

definition releaseClaim :: "claimed_ref \<Rightarrow> task_table \<Rightarrow> task_table \<times> nat" where
  "releaseClaim ref = runGuardedUpdate ref
     (\<lambda>r. r\<lparr>tr_status := OccPending, tr_claimedBy := None, tr_leaseExpiresAt := None,
            tr_startedAt := None, tr_dispatchedAt := None\<rparr>)"

section \<open>The reaper\<close>

definition lapsed :: "instant \<Rightarrow> task_row \<Rightarrow> bool" where
  "lapsed now r \<longleftrightarrow> tr_status r = OccRunning \<and>
     (case tr_leaseExpiresAt r of None \<Rightarrow> False | Some e \<Rightarrow> e < now)"

definition findExpiredLeases :: "instant \<Rightarrow> nat \<Rightarrow> task_table \<Rightarrow> task_row list" where
  "findExpiredLeases now limit tbl =
     take limit (sort_key (\<lambda>r. the (tr_leaseExpiresAt r)) (filter (lapsed now) (tt_rows tbl)))"

datatype dispatch_fence = PreDispatch | PostDispatch

definition reapable :: "instant \<Rightarrow> nat \<Rightarrow> nat \<Rightarrow> dispatch_fence \<Rightarrow> task_row \<Rightarrow> bool" where
  "reapable now i epoch fence r \<longleftrightarrow>
     tr_id r = i \<and> lapsed now r \<and> tr_leaseEpoch r = epoch \<and>
     (case fence of PostDispatch \<Rightarrow> tr_dispatchedAt r \<noteq> None | PreDispatch \<Rightarrow> tr_dispatchedAt r = None)"

definition runReaperUpdate ::
  "instant \<Rightarrow> nat \<times> nat \<Rightarrow> (task_row \<Rightarrow> task_row) \<Rightarrow> dispatch_fence \<Rightarrow> task_table \<Rightarrow> task_table \<times> nat" where
  "runReaperUpdate now ref values fence tbl = updateRows (reapable now (fst ref) (snd ref) fence) values tbl"

definition reclaimExpired :: "instant \<Rightarrow> nat \<times> nat \<Rightarrow> int \<Rightarrow> string \<Rightarrow> task_table \<Rightarrow> task_table \<times> nat" where
  "reclaimExpired now ref backoffMs msg = runReaperUpdate now ref
     (\<lambda>r. r\<lparr>tr_status := OccPending, tr_runAt := now + backoffMs, tr_attempts := tr_attempts r + 1,
            tr_leaseEpoch := tr_leaseEpoch r + 1, tr_claimedBy := None, tr_leaseExpiresAt := None,
            tr_errorMessage := Some msg, tr_startedAt := None, tr_dispatchedAt := None\<rparr>) PreDispatch"

definition deadLetterExpired :: "instant \<Rightarrow> nat \<times> nat \<Rightarrow> string \<Rightarrow> task_table \<Rightarrow> task_table \<times> nat" where
  "deadLetterExpired now ref msg = runReaperUpdate now ref
     (\<lambda>r. r\<lparr>tr_status := OccFailed, tr_finishedAt := Some now, tr_attempts := tr_attempts r + 1,
            tr_errorMessage := Some msg\<rparr>) PreDispatch"

definition completeExpired :: "instant \<Rightarrow> nat \<times> nat \<Rightarrow> task_table \<Rightarrow> task_table \<times> nat" where
  "completeExpired now ref = runReaperUpdate now ref
     (\<lambda>r. r\<lparr>tr_status := OccSucceeded, tr_finishedAt := Some now, tr_errorMessage := None\<rparr>) PostDispatch"

section \<open>Retention, retirement and metrics\<close>

datatype store_failure = NotTerminal "occurrence_status list"

definition prunable :: "instant \<Rightarrow> occurrence_status list \<Rightarrow> int \<Rightarrow> task_row \<Rightarrow> bool" where
  "prunable now statuses olderThanMs r \<longleftrightarrow> tr_status r \<in> set statuses \<and>
     (case tr_finishedAt r of None \<Rightarrow> False | Some f \<Rightarrow> f \<le> now - olderThanMs)"

definition deleteFinishedOlderThan ::
  "instant \<Rightarrow> nat set \<Rightarrow> occurrence_status list \<Rightarrow> int \<Rightarrow> int \<Rightarrow> task_table \<Rightarrow> store_failure + task_table \<times> nat" where
  "deleteFinishedOlderThan now locked statuses olderThanMs limit tbl =
     (let invalid = filter (\<lambda>s. s \<notin> set terminalStatuses) statuses
      in if invalid \<noteq> [] then Inl (NotTerminal invalid)
         else if statuses = [] \<or> limit \<le> 0 then Inr (tbl, 0)
         else let ids = rowIds (take (nat limit) (sort_key (\<lambda>r. the (tr_finishedAt r))
                (filter (\<lambda>r. prunable now statuses olderThanMs r \<and> tr_id r \<notin> locked) (tt_rows tbl))))
              in Inr (deleteWhere (\<lambda>r. tr_id r \<in> set ids) tbl))"

definition overdueUnclaimed :: "instant \<Rightarrow> task_row \<Rightarrow> bool" where
  "overdueUnclaimed now r \<longleftrightarrow> tr_status r = OccPending \<and>
     (case tr_missedAfter r of None \<Rightarrow> False | Some d \<Rightarrow> d \<le> now) \<and> tr_attempts r = 0"

definition retireMissedPending :: "instant \<Rightarrow> nat set \<Rightarrow> int \<Rightarrow> task_table \<Rightarrow> task_table \<times> nat" where
  "retireMissedPending now locked limit tbl =
     (if limit \<le> 0 then (tbl, 0)
      else let ids = rowIds (take (nat limit) (sort_key (\<lambda>r. the (tr_missedAfter r))
             (filter (\<lambda>r. overdueUnclaimed now r \<and> tr_id r \<notin> locked) (tt_rows tbl))))
           in updateRows (\<lambda>r. tr_id r \<in> set ids)
                (\<lambda>r. r\<lparr>tr_status := OccMissed, tr_finishedAt := Some now\<rparr>) tbl)"

record metric_snapshot =
  ms_pending :: nat
  ms_due :: nat
  ms_running :: nat
  ms_oldestPendingAgeMs :: "int option"

definition getMetricSnapshot :: "instant \<Rightarrow> task_table \<Rightarrow> metric_snapshot" where
  "getMetricSnapshot now tbl =
     (let pending = filter (\<lambda>r. tr_status r = OccPending) (tt_rows tbl);
          due = filter (\<lambda>r. tr_runAt r \<le> now \<and> claimable now r) pending
      in \<lparr>ms_pending = length pending, ms_due = length due,
          ms_running = length (filter (\<lambda>r. tr_status r = OccRunning) (tt_rows tbl)),
          ms_oldestPendingAgeMs = (if due = [] then None else Some (now - Min (tr_runAt ` set due)))\<rparr>)"

text \<open>Rows go with their job.\<close>

definition deleteOfJobs :: "nat list \<Rightarrow> task_table \<Rightarrow> task_table" where
  "deleteOfJobs jobIds tbl = fst (deleteWhere (\<lambda>r. tr_jobId r \<in> set jobIds) tbl)"

end
