(* ===== verification/TaskInvariant.thy ===== *)
theory TaskInvariant
  imports TaskStore
begin

text \<open>
  What every statement of the repository keeps of the table of occurrences: rows have distinct
  ids and distinct pairs of job and instant, the columns of a row agree with its status, and a
  row that has ended never changes again.
\<close>

section \<open>The invariant\<close>

definition task_row_ok :: "task_row \<Rightarrow> bool" where
  "task_row_ok r \<longleftrightarrow>
     (tr_status r = OccPending \<longrightarrow> tr_claimedBy r = None \<and> tr_leaseExpiresAt r = None \<and>
        tr_startedAt r = None \<and> tr_dispatchedAt r = None) \<and>
     (tr_status r = OccRunning \<longrightarrow> tr_claimedBy r \<noteq> None \<and> tr_leaseExpiresAt r \<noteq> None \<and> 0 < tr_leaseEpoch r) \<and>
     (tr_finishedAt r = None \<longleftrightarrow> tr_status r \<notin> set terminalStatuses)"

definition table_ok :: "task_table \<Rightarrow> bool" where
  "table_ok tbl \<longleftrightarrow> distinct (rowIds (tt_rows tbl)) \<and> (\<forall>r \<in> set (tt_rows tbl). tr_id r < tt_nextId tbl) \<and>
     distinct (map occurrenceKey (tt_rows tbl)) \<and> (\<forall>r \<in> set (tt_rows tbl). task_row_ok r)"

lemmas row_simps = task_row_ok_def terminalStatuses_def occurrenceKey_def

definition rowsOf :: "task_table \<Rightarrow> nat \<Rightarrow> task_row set" where
  "rowsOf tbl i = {r \<in> set (tt_rows tbl). tr_id r = i}"

lemma row_unique: "table_ok tbl \<Longrightarrow> r \<in> rowsOf tbl i \<Longrightarrow> r' \<in> rowsOf tbl i \<Longrightarrow> r = r'"
  by (auto simp: table_ok_def rowsOf_def rowIds_def distinct_map inj_on_def)

lemma emptyTable_ok: "table_ok emptyTable"
  by (simp add: table_ok_def emptyTable_def rowIds_def)

section \<open>Updates and deletions in general\<close>

lemma updateRows_rows [simp]:
  "tt_rows (fst (updateRows p f tbl)) = map (\<lambda>r. if p r then f r else r) (tt_rows tbl)"
  "tt_nextId (fst (updateRows p f tbl)) = tt_nextId tbl"
  by (simp_all add: updateRows_def)

lemma deleteWhere_rows [simp]:
  "tt_rows (fst (deleteWhere p tbl)) = filter (\<lambda>r. \<not> p r) (tt_rows tbl)"
  "tt_nextId (fst (deleteWhere p tbl)) = tt_nextId tbl"
  by (simp_all add: deleteWhere_def)

text \<open>A statement whose condition no row meets does nothing, and says so.\<close>

lemma updateRows_none:
  "(\<And>r. r \<in> set (tt_rows tbl) \<Longrightarrow> \<not> p r) \<Longrightarrow> updateRows p f tbl = (tbl, 0)"
  by (simp add: updateRows_def filter_empty_conv map_idI)

lemma updateRows_count_0: "snd (updateRows p f tbl) = 0 \<longleftrightarrow> (\<forall>r \<in> set (tt_rows tbl). \<not> p r)"
  by (auto simp: updateRows_def filter_empty_conv)

definition keeps_identity :: "(task_row \<Rightarrow> task_row) \<Rightarrow> bool" where
  "keeps_identity f \<longleftrightarrow> (\<forall>r. tr_id (f r) = tr_id r \<and> occurrenceKey (f r) = occurrenceKey r)"

lemma updateRows_ok:
  assumes ok: "table_ok tbl" and f: "keeps_identity f"
    and row: "\<And>r. r \<in> set (tt_rows tbl) \<Longrightarrow> p r \<Longrightarrow> task_row_ok r \<Longrightarrow> task_row_ok (f r)"
  shows "table_ok (fst (updateRows p f tbl))"
proof -
  let ?g = "\<lambda>r. if p r then f r else r"
  have same: "tr_id \<circ> ?g = tr_id" "occurrenceKey \<circ> ?g = occurrenceKey"
    using f by (auto simp: keeps_identity_def fun_eq_iff)
  have "tr_id (f r) = tr_id r" for r using f by (simp add: keeps_identity_def)
  then show ?thesis using ok row by (auto simp: table_ok_def rowIds_def same)
qed

lemma deleteWhere_ok: "table_ok tbl \<Longrightarrow> table_ok (fst (deleteWhere p tbl))"
  by (auto simp: table_ok_def rowIds_def distinct_map_filter)

lemma keeps_identityI [intro]:
  "(\<And>r. tr_id (f r) = tr_id r) \<Longrightarrow> (\<And>r. tr_jobId (f r) = tr_jobId r) \<Longrightarrow>
   (\<And>r. tr_scheduledFor (f r) = tr_scheduledFor r) \<Longrightarrow> keeps_identity f"
  by (simp add: keeps_identity_def occurrenceKey_def)

section \<open>Recording\<close>

lemma insertOne_ok: "table_ok tbl \<Longrightarrow> table_ok (fst (insertOne no tbl))"
  by (auto simp: insertOne_def Let_def table_ok_def rowIds_def newRow_def row_simps)

lemma insertAll_ok: "table_ok tbl \<Longrightarrow> table_ok (fst (insertAll nos tbl))"
proof (induction nos arbitrary: tbl)
  case (Cons no nos)
  then show ?case using insertOne_ok [of tbl no] by (auto split: prod.splits) (metis fst_conv)
qed simp

lemma insertAll_fst: "fst (insertAll (no # nos) tbl) = fst (insertAll nos (fst (insertOne no tbl)))"
  by (simp split: prod.splits)

lemma insertAll_append: "fst (insertAll (xs @ ys) tbl) = fst (insertAll ys (fst (insertAll xs tbl)))"
  by (induction xs arbitrary: tbl) (simp_all add: insertAll_fst del: insertAll.simps(2))

lemma insertChunks_rows: "fst (insertChunks pg chunks res tbl) = fst (insertAll (concat chunks) tbl)"
proof (induction chunks arbitrary: res tbl)
  case (Cons chunk chunks)
  then show ?case by (simp add: insertAll_append split: prod.splits)
qed simp

lemma insertIgnoringDuplicates_ok:
  "table_ok tbl \<Longrightarrow> table_ok (fst (insertIgnoringDuplicates pg nos n tbl))"
  by (simp add: insertIgnoringDuplicates_def insertChunks_rows insertAll_ok)

section \<open>How a table table_evolves\<close>

definition row_evolves :: "task_row \<Rightarrow> task_row \<Rightarrow> bool" where
  "row_evolves r r' \<longleftrightarrow> tr_id r' = tr_id r \<and> occurrenceKey r' = occurrenceKey r
     \<and> tr_maxAttempts r' = tr_maxAttempts r \<and> tr_leaseEpoch r \<le> tr_leaseEpoch r'
     \<and> tr_attempts r \<le> tr_attempts r' \<and> (tr_status r \<in> set terminalStatuses \<longrightarrow> r' = r)
     \<and> (tr_leaseEpoch r' = tr_leaseEpoch r \<and> tr_status r' = OccRunning \<longrightarrow>
           tr_status r = OccRunning \<and> tr_attempts r' = tr_attempts r \<and>
           (tr_startedAt r \<noteq> None \<longrightarrow> tr_startedAt r' \<noteq> None))"

definition table_evolves :: "task_table \<Rightarrow> task_table \<Rightarrow> bool" where
  "table_evolves tbl tbl' \<longleftrightarrow> tt_nextId tbl \<le> tt_nextId tbl' \<and>
     (\<forall>r' \<in> set (tt_rows tbl'). tt_nextId tbl \<le> tr_id r' \<or> (\<exists>r \<in> set (tt_rows tbl). row_evolves r r'))"

lemma row_evolves_refl [simp]: "row_evolves r r"
  by (simp add: row_evolves_def)

lemma kept: "r \<in> set rows \<Longrightarrow> \<exists>q \<in> set rows. row_evolves q r"
  using row_evolves_refl by blast

lemma row_evolves_same:
  "row_evolves a b \<Longrightarrow> tr_id b = tr_id a" "row_evolves a b \<Longrightarrow> occurrenceKey b = occurrenceKey a"
  "row_evolves a b \<Longrightarrow> tr_maxAttempts b = tr_maxAttempts a"
  unfolding row_evolves_def by blast+

lemma row_evolves_le:
  "row_evolves a b \<Longrightarrow> tr_leaseEpoch a \<le> tr_leaseEpoch b" "row_evolves a b \<Longrightarrow> tr_attempts a \<le> tr_attempts b"
  unfolding row_evolves_def by blast+

lemma row_evolves_terminal: "row_evolves a b \<Longrightarrow> tr_status a \<in> set terminalStatuses \<Longrightarrow> b = a"
  unfolding row_evolves_def by blast

lemma row_evolves_held:
  "row_evolves a b \<Longrightarrow> tr_leaseEpoch b = tr_leaseEpoch a \<Longrightarrow> tr_status b = OccRunning \<Longrightarrow>
     tr_status a = OccRunning \<and> tr_attempts b = tr_attempts a \<and> (tr_startedAt a \<noteq> None \<longrightarrow> tr_startedAt b \<noteq> None)"
  unfolding row_evolves_def by blast

lemma row_evolves_trans:
  assumes "row_evolves a b" "row_evolves b c"
  shows "row_evolves a c"
proof -
  have same: "tr_id c = tr_id a" "occurrenceKey c = occurrenceKey a" "tr_maxAttempts c = tr_maxAttempts a"
    using row_evolves_same [OF assms(1)] row_evolves_same [OF assms(2)] by simp_all
  note le = row_evolves_le [OF assms(1)] row_evolves_le [OF assms(2)]
  have t: "c = a" if "tr_status a \<in> set terminalStatuses"
    using row_evolves_terminal [OF assms(1) that] row_evolves_terminal [OF assms(2)] that by simp
  have h: "tr_status a = OccRunning \<and> tr_attempts c = tr_attempts a \<and> (tr_startedAt a \<noteq> None \<longrightarrow> tr_startedAt c \<noteq> None)"
    if "tr_leaseEpoch c = tr_leaseEpoch a" "tr_status c = OccRunning"
  proof -
    have "tr_leaseEpoch b = tr_leaseEpoch a" "tr_leaseEpoch c = tr_leaseEpoch b" using le that(1) by simp_all
    then show ?thesis using row_evolves_held [OF assms(2) _ that(2)] row_evolves_held [OF assms(1)] by simp
  qed
  have "tr_leaseEpoch a \<le> tr_leaseEpoch c" "tr_attempts a \<le> tr_attempts c" using le by simp_all
  with same t h show ?thesis unfolding row_evolves_def by blast
qed

lemma table_evolves_refl [simp]: "table_evolves tbl tbl"
  unfolding table_evolves_def using row_evolves_refl by blast

lemma table_evolves_trans: "table_evolves a b \<Longrightarrow> table_evolves b c \<Longrightarrow> table_evolves a c"
proof -
  assume ab: "table_evolves a b" and bc: "table_evolves b c"
  have "tt_nextId a \<le> tr_id r \<or> (\<exists>q \<in> set (tt_rows a). row_evolves q r)" if r: "r \<in> set (tt_rows c)" for r
  proof (cases "tt_nextId b \<le> tr_id r")
    case True
    then show ?thesis using ab by (auto simp: table_evolves_def)
  next
    case False
    then obtain p where p: "p \<in> set (tt_rows b)" "row_evolves p r" using bc r by (auto simp: table_evolves_def)
    then have "tt_nextId a \<le> tr_id p \<or> (\<exists>q \<in> set (tt_rows a). row_evolves q p)"
      using ab by (auto simp: table_evolves_def)
    then show ?thesis using p(2) row_evolves_trans row_evolves_same(1) [OF p(2)] by metis
  qed
  then show "table_evolves a c" using ab bc by (auto simp: table_evolves_def)
qed

lemma updateRows_evolves:
  assumes "\<And>r. r \<in> set (tt_rows tbl) \<Longrightarrow> p r \<Longrightarrow> row_evolves r (f r)"
  shows "table_evolves tbl (fst (updateRows p f tbl))"
proof -
  have "\<exists>q \<in> set (tt_rows tbl). row_evolves q (if p r then f r else r)" if "r \<in> set (tt_rows tbl)" for r
    using assms [OF that] kept [OF that] that by auto
  then have "\<forall>r' \<in> (\<lambda>r. if p r then f r else r) ` set (tt_rows tbl).
      \<exists>q \<in> set (tt_rows tbl). row_evolves q r'" by blast
  then show ?thesis unfolding table_evolves_def updateRows_rows set_map by blast
qed

lemma deleteWhere_evolves: "table_evolves tbl (fst (deleteWhere p tbl))"
  by (simp add: table_evolves_def) (use kept in blast)

lemma insertOne_evolves: "table_evolves tbl (fst (insertOne no tbl))"
  by (auto simp: table_evolves_def insertOne_def Let_def newRow_def) (use kept in blast)+

lemma insertAll_evolves: "table_evolves tbl (fst (insertAll nos tbl))"
proof (induction nos arbitrary: tbl)
  case (Cons no nos)
  show ?case unfolding insertAll_fst
    by (rule table_evolves_trans [OF insertOne_evolves Cons.IH])
qed simp

section \<open>The statements\<close>

text \<open>
  Every write the repository can make, at any instant of the database clock: those of the
  passes that plan, retire and prune, and those of executors and reapers.
\<close>

inductive background :: "task_table \<Rightarrow> task_table \<Rightarrow> bool" where
  bg_insert: "background tbl (fst (insertIgnoringDuplicates pg nos n tbl))"
| bg_delete_pending: "background tbl (deletePendingByJobIds jobIds tbl)"
| bg_missed: "background tbl (fst (updateToMissed now superseded tbl))"
| bg_grace: "background tbl (updateMissedAfterForJobs now jobIds grace tbl)"
| bg_prune: "deleteFinishedOlderThan now locked statuses olderThanMs limit tbl = Inr (tbl', n) \<Longrightarrow>
    background tbl tbl'"
| bg_retire: "background tbl (fst (retireMissedPending now locked limit tbl))"
| bg_delete_job: "background tbl (deleteOfJobs jobIds tbl)"

inductive statement :: "task_table \<Rightarrow> task_table \<Rightarrow> bool" where
  st_background: "background tbl tbl' \<Longrightarrow> statement tbl tbl'"
| st_claim: "statement tbl (fst (claimDueTasks now locked opts tbl))"
| st_begin: "statement tbl (fst (beginDispatch now ref leaseMs tbl))"
| st_mark: "statement tbl (fst (markDispatched now ref tbl))"
| st_complete: "statement tbl (fst (completeTask now ref tbl))"
| st_fail: "statement tbl (fst (failTaskTerminal now ref msg tbl))"
| st_reschedule: "statement tbl (fst (rescheduleTask now ref backoffMs msg tbl))"
| st_release: "statement tbl (fst (releaseClaim ref tbl))"
| st_reclaim: "statement tbl (fst (reclaimExpired now eref backoffMs msg tbl))"
| st_dead_letter: "statement tbl (fst (deadLetterExpired now eref msg tbl))"
| st_complete_expired: "statement tbl (fst (completeExpired now eref tbl))"

lemmas update_defs =
  deletePendingByJobIds_def updateToMissed_def updateMissedAfterForJobs_def claimDueTasks_def
  beginDispatch_def markDispatched_def completeTask_def failTaskTerminal_def rescheduleTask_def
  releaseClaim_def runGuardedUpdate_def reclaimExpired_def deadLetterExpired_def completeExpired_def
  runReaperUpdate_def deleteFinishedOlderThan_def retireMissedPending_def deleteOfJobs_def Let_def

lemmas guard_defs = owned_def reapable_def lapsed_def prunable_def overdueUnclaimed_def claimRow_def

text \<open>The rows a statement selects by id are the rows its subquery chose.\<close>

lemma chosen_ids:
  assumes "table_ok tbl" "r \<in> set (tt_rows tbl)"
    "tr_id r \<in> set (rowIds (take n (sort_key k (filter q (tt_rows tbl)))))"
  shows "q r"
proof -
  obtain r' where "r' \<in> set (take n (sort_key k (filter q (tt_rows tbl))))" and i: "tr_id r' = tr_id r"
    using assms(3) by (auto simp: rowIds_def)
  then have "r' \<in> set (tt_rows tbl)" "q r'" by (auto dest: in_set_takeD)
  then show ?thesis using row_unique [OF assms(1), of r _ r'] assms(2) i by (simp add: rowsOf_def)
qed

lemma deleteFinished_deletes:
  assumes "deleteFinishedOlderThan now locked statuses olderThanMs limit tbl = Inr (tbl', n)"
  obtains p where "(tbl', n) = deleteWhere p tbl"
proof (cases "statuses = [] \<or> limit \<le> 0")
  case True
  then have "(tbl', n) = deleteWhere (\<lambda>_. False) tbl"
    using assms by (auto simp: deleteFinishedOlderThan_def deleteWhere_def Let_def split: if_splits)
  then show ?thesis by (rule that)
next
  case False
  then show ?thesis using assms that [OF sym]
    by (auto simp: deleteFinishedOlderThan_def Let_def split: if_splits)
qed

lemma background_evolves: "background tbl tbl' \<Longrightarrow> table_ok tbl \<Longrightarrow> table_evolves tbl tbl'"
proof (induction rule: background.induct)
  case (bg_prune now locked statuses olderThanMs limit tbl tbl' n)
  from bg_prune(1) obtain p where "(tbl', n) = deleteWhere p tbl" by (rule deleteFinished_deletes)
  then show ?case using deleteWhere_evolves [of tbl p] by (metis fst_conv)
qed (auto simp: update_defs guard_defs insertIgnoringDuplicates_def insertChunks_rows
       insertAll_evolves row_evolves_def row_simps dest: chosen_ids
       intro!: updateRows_evolves deleteWhere_evolves)

lemma background_ok: "background tbl tbl' \<Longrightarrow> table_ok tbl \<Longrightarrow> table_ok tbl'"
proof (induction rule: background.induct)
  case (bg_prune now locked statuses olderThanMs limit tbl tbl' n)
  from bg_prune(1) obtain p where "(tbl', n) = deleteWhere p tbl" by (rule deleteFinished_deletes)
  then show ?case using deleteWhere_ok [OF bg_prune(2), of p] by (metis fst_conv)
qed (auto simp: update_defs guard_defs insertIgnoringDuplicates_ok row_simps dest!: chosen_ids
       intro!: updateRows_ok deleteWhere_ok split: option.splits)

lemma statement_evolves: "statement tbl tbl' \<Longrightarrow> table_ok tbl \<Longrightarrow> table_evolves tbl tbl'"
proof (induction rule: statement.induct)
  case (st_background tbl tbl')
  then show ?case by (rule background_evolves)
qed (auto simp: update_defs guard_defs row_evolves_def row_simps dest: chosen_ids
       intro!: updateRows_evolves)

lemma statement_ok: "statement tbl tbl' \<Longrightarrow> table_ok tbl \<Longrightarrow> table_ok tbl'"
proof (induction rule: statement.induct)
  case (st_background tbl tbl')
  then show ?case by (rule background_ok)
next
  case (st_claim tbl now locked opts)
  then show ?case
    by (auto simp: claimDueTasks_def Let_def claimRow_def row_simps intro!: updateRows_ok)
qed (auto simp: update_defs guard_defs row_simps intro!: updateRows_ok split: option.splits)

lemma statements_ok: "statement\<^sup>*\<^sup>* tbl tbl' \<Longrightarrow> table_ok tbl \<Longrightarrow> table_ok tbl' \<and> table_evolves tbl tbl'"
  by (induction rule: rtranclp_induct) (auto intro: statement_ok statement_evolves table_evolves_trans)

end
