(* ===== verification/Executor.thy ===== *)
theory Executor
  imports TaskInvariant
begin

text \<open>
  The executor of an instance (\<open>executor.ts\<close>, \<open>task-handler.ts\<close>, \<open>backoff.ts\<close> of
  \<open>@n8n/scheduler\<close>). The fire of a claimed occurrence is cut where \<open>runFire\<close> awaits, so other
  instances, the reaper and the handler itself can act in between; the handler may report its
  dispatch at any time while it runs. A statement of the store can be rejected, before or
  after the database has applied it.
\<close>

section \<open>Retry backoff\<close>

definition backoffWith :: "int \<Rightarrow> nat \<Rightarrow> int \<Rightarrow> nat \<Rightarrow> int" where
  "backoffWith baseMs factor maxMs attempts =
     (if attempts < 1 then 0 else min (baseMs * int factor ^ (attempts - 1)) maxMs)"

definition backoff :: "nat \<Rightarrow> int" where
  "backoff attempts = backoffWith 5000 2 300000 attempts"

section \<open>The registry of handlers\<close>

type_synonym task_registry = "string list"

definition registerHandler :: "string \<Rightarrow> task_registry \<Rightarrow> string + task_registry" where
  "registerHandler taskType registry =
     (if taskType \<in> set registry then Inl taskType else Inr (registry @ [taskType]))"

section \<open>Firing one occurrence\<close>

text \<open>The write of the dispatch marker: not asked for, in flight, or settled.\<close>

datatype dispatch_mark = Unmarked | MarkRequested | MarkSettled

datatype handler_end = HandlerReturned | HandlerThrew string

datatype fire_result =
    FireCompleted
  | FireDeadLettered string
  | FireRescheduled string
  | SkippedNotOwned "string option"
  | SkippedNoHandler
  | FireRejected

datatype fire_phase =
    Starting
  | ReleasingClaim
  | Beginning
  | Handling dispatch_mark
  | AwaitingMark handler_end dispatch_mark
  | Ending handler_end dispatch_mark
  | FireDone fire_result

record fire =
  fi_task :: task_row
  fi_phase :: fire_phase

definition claimOf :: "string \<Rightarrow> task_row \<Rightarrow> claimed_ref" where
  "claimOf host task = \<lparr>cr_host = host, cr_id = tr_id task, cr_epoch = tr_leaseEpoch task\<rparr>"

text \<open>The write that records how the handler ended.\<close>

datatype outcome_write = WriteComplete | WriteFail string | WriteReschedule int string

definition outcomeWrite :: "task_row \<Rightarrow> handler_end \<Rightarrow> dispatch_mark \<Rightarrow> outcome_write" where
  "outcomeWrite task ended mk =
     (case ended of
        HandlerReturned \<Rightarrow> WriteComplete
      | HandlerThrew msg \<Rightarrow>
          let nextAttempts = tr_attempts task + 1
          in if tr_maxAttempts task \<le> nextAttempts
             then if mk \<noteq> Unmarked then WriteComplete else WriteFail msg
             else WriteReschedule (backoff nextAttempts) msg)"

definition writeOutcome :: "instant \<Rightarrow> claimed_ref \<Rightarrow> outcome_write \<Rightarrow> task_table \<Rightarrow> task_table \<times> nat" where
  "writeOutcome now ref w =
     (case w of
        WriteComplete \<Rightarrow> completeTask now ref
      | WriteFail msg \<Rightarrow> failTaskTerminal now ref msg
      | WriteReschedule ms msg \<Rightarrow> rescheduleTask now ref ms msg)"

definition outcomeResult :: "handler_end \<Rightarrow> outcome_write \<Rightarrow> nat \<Rightarrow> fire_result" where
  "outcomeResult ended w rowsAffected =
     (if 0 < rowsAffected
      then case w of WriteComplete \<Rightarrow> FireCompleted | WriteFail msg \<Rightarrow> FireDeadLettered msg
         | WriteReschedule _ msg \<Rightarrow> FireRescheduled msg
      else SkippedNotOwned (case ended of HandlerReturned \<Rightarrow> None | HandlerThrew msg \<Rightarrow> Some msg))"

text \<open>A handler that has returned counts as dispatched.\<close>

definition markAtEnd :: "handler_end \<Rightarrow> dispatch_mark \<Rightarrow> dispatch_mark" where
  "markAtEnd ended mk = (if ended = HandlerReturned \<and> mk = Unmarked then MarkRequested else mk)"

text \<open>
  \<open>fire_step types host leaseMs task (phase, tbl) called (phase', tbl')\<close>: one step of \<open>runFire\<close>;
  \<open>called\<close> says that the step calls the handler.
\<close>

inductive fire_step ::
  "string list \<Rightarrow> string \<Rightarrow> int \<Rightarrow> task_row \<Rightarrow> fire_phase \<times> task_table \<Rightarrow> bool \<Rightarrow> fire_phase \<times> task_table \<Rightarrow> bool"
  for types host leaseMs task where
  fire_no_handler: "tr_taskType task \<notin> set types \<Longrightarrow>
    fire_step types host leaseMs task (Starting, tbl) False (ReleasingClaim, tbl)"
| fire_handler: "tr_taskType task \<in> set types \<Longrightarrow>
    fire_step types host leaseMs task (Starting, tbl) False (Beginning, tbl)"
| fire_release: "tbl' \<in> {tbl, fst (releaseClaim (claimOf host task) tbl)} \<Longrightarrow>
    fire_step types host leaseMs task (ReleasingClaim, tbl) False (FireDone SkippedNoHandler, tbl')"
| fire_begin_won: "beginDispatch now (claimOf host task) leaseMs tbl = (tbl', won) \<Longrightarrow> won \<noteq> 0 \<Longrightarrow>
    fire_step types host leaseMs task (Beginning, tbl) True (Handling Unmarked, tbl')"
| fire_begin_lost: "beginDispatch now (claimOf host task) leaseMs tbl = (tbl', 0) \<Longrightarrow>
    fire_step types host leaseMs task (Beginning, tbl) False (FireDone (SkippedNotOwned None), tbl')"
| fire_begin_rejected: "tbl' \<in> {tbl, fst (beginDispatch now (claimOf host task) leaseMs tbl)} \<Longrightarrow>
    fire_step types host leaseMs task (Beginning, tbl) False (FireDone FireRejected, tbl')"
| fire_report: "fire_step types host leaseMs task (Handling Unmarked, tbl) False (Handling MarkRequested, tbl)"
| fire_mark: "tbl' \<in> {tbl, fst (markDispatched now (claimOf host task) tbl)} \<Longrightarrow>
    fire_step types host leaseMs task (Handling MarkRequested, tbl) False (Handling MarkSettled, tbl')"
| fire_handler_ends:
    "fire_step types host leaseMs task (Handling mk, tbl) False (AwaitingMark ended (markAtEnd ended mk), tbl)"
| fire_mark_awaited: "tbl' \<in> {tbl, fst (markDispatched now (claimOf host task) tbl)} \<Longrightarrow>
    fire_step types host leaseMs task (AwaitingMark ended MarkRequested, tbl) False
      (AwaitingMark ended MarkSettled, tbl')"
| fire_settled: "mk \<noteq> MarkRequested \<Longrightarrow>
    fire_step types host leaseMs task (AwaitingMark ended mk, tbl) False (Ending ended mk, tbl)"
| fire_outcome: "writeOutcome now (claimOf host task) (outcomeWrite task ended mk) tbl = (tbl', n) \<Longrightarrow>
    fire_step types host leaseMs task (Ending ended mk, tbl) False
      (FireDone (outcomeResult ended (outcomeWrite task ended mk) n), tbl')"
| fire_outcome_rejected:
    "tbl' \<in> {tbl, fst (writeOutcome now (claimOf host task) (outcomeWrite task ended mk) tbl)} \<Longrightarrow>
    fire_step types host leaseMs task (Ending ended mk, tbl) False (FireDone FireRejected, tbl')"

section \<open>The executor of an instance\<close>

text \<open>
  \<open>ex_replies\<close> are claims whose reply has not been handled yet, \<open>ex_armed\<close> the timers,
  \<open>ex_claimed\<close> is \<open>claimedTaskById\<close>, and \<open>ex_releases\<close> are releases in flight.
\<close>

record executor =
  ex_host :: string
  ex_types :: task_registry
  ex_leaseMs :: int
  ex_lookaheadMs :: int
  ex_batchSize :: nat
  ex_claimed :: "(nat \<times> task_row) list"
  ex_stopping :: bool
  ex_replies :: "task_row list list"
  ex_armed :: "task_row list"
  ex_fires :: "fire list"
  ex_releases :: "task_row list"

definition claimBatch :: "executor \<Rightarrow> claim_options" where
  "claimBatch ex =
     \<lparr>co_host = ex_host ex, co_taskTypes = ex_types ex, co_lookaheadMs = ex_lookaheadMs ex,
      co_leaseMs = ex_leaseMs ex, co_batchSize = ex_batchSize ex\<rparr>"

definition leaseShorterThanLookahead :: "executor \<Rightarrow> bool" where
  "leaseShorterThanLookahead ex \<longleftrightarrow> ex_leaseMs ex \<le> ex_lookaheadMs ex"

definition scheduleClaimed :: "task_row \<Rightarrow> executor \<Rightarrow> executor" where
  "scheduleClaimed task ex =
     ex\<lparr>ex_claimed := jm_set (ex_claimed ex) (tr_id task) task, ex_armed := ex_armed ex @ [task]\<rparr>"

definition handBackClaims :: "task_row list \<Rightarrow> executor \<Rightarrow> executor" where
  "handBackClaims tasks ex = ex\<lparr>ex_releases := ex_releases ex @ tasks\<rparr>"

text \<open>What \<open>claimAndSchedule\<close> does once its claim has resolved.\<close>

definition claimResolved :: "bool \<Rightarrow> task_row list \<Rightarrow> executor \<Rightarrow> executor" where
  "claimResolved aborted tasks ex =
     (if ex_stopping ex \<or> aborted then handBackClaims tasks ex
      else foldl (\<lambda>ex task. scheduleClaimed task ex) ex tasks)"

text \<open>The callback of a timer, and \<open>stop\<close> up to its releases.\<close>

definition taskTimerFires :: "nat \<Rightarrow> executor \<Rightarrow> executor" where
  "taskTimerFires i ex =
     (let task = ex_armed ex ! i
      in ex\<lparr>ex_armed := take i (ex_armed ex) @ drop (Suc i) (ex_armed ex),
            ex_claimed := jm_delete (ex_claimed ex) (tr_id task),
            ex_fires := ex_fires ex @ [\<lparr>fi_task = task, fi_phase = Starting\<rparr>]\<rparr>)"

definition stopExecutor :: "executor \<Rightarrow> executor" where
  "stopExecutor ex =
     ex\<lparr>ex_stopping := True, ex_armed := [],
        ex_releases := ex_releases ex @ map snd (ex_claimed ex), ex_claimed := []\<rparr>"

text \<open>An instance that dies forgets everything but its configuration.\<close>

definition restartExecutor :: "executor \<Rightarrow> executor" where
  "restartExecutor ex =
     ex\<lparr>ex_claimed := [], ex_stopping := False, ex_replies := [], ex_armed := [], ex_fires := [],
        ex_releases := []\<rparr>"

definition removeAt :: "nat \<Rightarrow> 'a list \<Rightarrow> 'a list" where
  "removeAt i xs = take i xs @ drop (Suc i) xs"

end
