(* ===== verification/Upkeep.thy ===== *)
theory Upkeep
  imports Executor
begin

text \<open>
  The two passes that keep the table of occurrences in order: the sweep that recovers lapsed
  leases (\<open>reaper/reap.ts\<close>) and the one that deletes old finished rows (\<open>retention/prune.ts\<close>).
  Each works on a store it is given, as the code does; the store's operations may throw.
\<close>

section \<open>The sweep\<close>

record reap_result =
  rr_reclaimed :: nat
  rr_deadLettered :: nat
  rr_missed :: nat

record 's reaper_store =
  rs_findExpiredLeases :: "nat \<Rightarrow> 's \<Rightarrow> 's \<times> (string + task_row list)"
  rs_reclaimExpired :: "nat \<times> nat \<Rightarrow> int \<Rightarrow> string \<Rightarrow> 's \<Rightarrow> 's \<times> (string + nat)"
  rs_deadLetterExpired :: "nat \<times> nat \<Rightarrow> string \<Rightarrow> 's \<Rightarrow> 's \<times> (string + nat)"
  rs_completeExpired :: "nat \<times> nat \<Rightarrow> 's \<Rightarrow> 's \<times> (string + nat)"
  rs_retireMissedPending :: "int \<Rightarrow> 's \<Rightarrow> 's \<times> (string + nat)"

definition leaseExpiredMessage :: string where
  "leaseExpiredMessage = ''Lease expired before completion''"

text \<open>What the sweep decides for a row, and the decision carried out.\<close>

datatype reap_decision = CompleteRow | DeadLetterRow | ReclaimRow int

definition reapDecision :: "task_row \<Rightarrow> reap_decision" where
  "reapDecision task =
     (let nextAttempts = tr_attempts task + 1
      in if tr_dispatchedAt task \<noteq> None then CompleteRow
         else if tr_maxAttempts task \<le> nextAttempts then DeadLetterRow
         else ReclaimRow (backoff nextAttempts))"

definition reapRow :: "'s reaper_store \<Rightarrow> task_row \<Rightarrow> 's \<times> reap_result \<Rightarrow> 's \<times> reap_result" where
  "reapRow store task sr =
     (let st = fst sr; res = snd sr; ref = (tr_id task, tr_leaseEpoch task)
      in case reapDecision task of
           CompleteRow \<Rightarrow> (fst (rs_completeExpired store ref st), res)
         | DeadLetterRow \<Rightarrow>
             (case rs_deadLetterExpired store ref leaseExpiredMessage st of
                (st, Inl _) \<Rightarrow> (st, res)
              | (st, Inr affected) \<Rightarrow> (st, res\<lparr>rr_deadLettered := rr_deadLettered res + affected\<rparr>))
         | ReclaimRow ms \<Rightarrow>
             (case rs_reclaimExpired store ref ms leaseExpiredMessage st of
                (st, Inl _) \<Rightarrow> (st, res)
              | (st, Inr affected) \<Rightarrow> (st, res\<lparr>rr_reclaimed := rr_reclaimed res + affected\<rparr>)))"

text \<open>\<open>aborted st\<close> reads the signal of the driving loop.\<close>

fun reapRows :: "'s reaper_store \<Rightarrow> ('s \<Rightarrow> bool) \<Rightarrow> task_row list \<Rightarrow> 's \<times> reap_result \<Rightarrow> 's \<times> reap_result" where
  "reapRows store aborted [] sr = sr"
| "reapRows store aborted (task # tasks) sr =
     (if aborted (fst sr) then sr else reapRows store aborted tasks (reapRow store task sr))"

definition retireStale :: "'s reaper_store \<Rightarrow> ('s \<Rightarrow> bool) \<Rightarrow> nat \<Rightarrow> 's \<Rightarrow> 's \<times> nat" where
  "retireStale store aborted batchSize st =
     (if aborted st then (st, 0)
      else case rs_retireMissedPending store (int batchSize) st of
             (st, Inl _) \<Rightarrow> (st, 0)
           | (st, Inr n) \<Rightarrow> (st, n))"

definition reap :: "'s reaper_store \<Rightarrow> ('s \<Rightarrow> bool) \<Rightarrow> nat \<Rightarrow> 's \<Rightarrow> 's \<times> (string + reap_result)" where
  "reap store aborted batchSize st =
     (let (st, missed) = retireStale store aborted batchSize st
      in case rs_findExpiredLeases store batchSize st of
           (st, Inl e) \<Rightarrow> (st, Inl e)
         | (st, Inr expired) \<Rightarrow>
             let (st, res) = reapRows store aborted expired
                   (st, \<lparr>rr_reclaimed = 0, rr_deadLettered = 0, rr_missed = missed\<rparr>)
             in (st, Inr res))"

section \<open>Retention\<close>

record retention_options =
  ro_retentionSeconds :: int
  ro_failedRetentionSeconds :: int
  ro_batchSize :: int
  ro_maxBatchesPerPass :: int

record retention_window =
  rw_statuses :: "occurrence_status list"
  rw_olderThanSeconds :: int

datatype retention_failure = InvalidRetentionOptions int | RetentionStoreThrew string

type_synonym 's retention_store =
  "occurrence_status list \<Rightarrow> int \<Rightarrow> int \<Rightarrow> 's \<Rightarrow> 's \<times> (string + nat)"

definition retentionWindows :: "retention_options \<Rightarrow> retention_window list" where
  "retentionWindows opts =
     [\<lparr>rw_statuses = [OccSucceeded, OccCancelled], rw_olderThanSeconds = ro_retentionSeconds opts\<rparr>,
      \<lparr>rw_statuses = [OccFailed, OccMissed], rw_olderThanSeconds = ro_failedRetentionSeconds opts\<rparr>]"

record pass_state =
  ps_deleted :: nat
  ps_budget :: int
  ps_drained :: bool

record window_result =
  wr_deleted :: nat
  wr_batches :: nat
  wr_drained :: bool

text \<open>\<open>left\<close> is what remains of the window's budget.\<close>

fun pruneWindow ::
  "'s retention_store \<Rightarrow> ('s \<Rightarrow> bool) \<Rightarrow> retention_window \<Rightarrow> int \<Rightarrow> nat \<Rightarrow> window_result \<Rightarrow> 's \<Rightarrow>
     's \<times> (string + window_result)" where
  "pruneWindow delete aborted w batchSize 0 acc st = (st, Inr acc)"
| "pruneWindow delete aborted w batchSize (Suc left) acc st =
     (if aborted st then (st, Inr acc)
      else case delete (rw_statuses w) (rw_olderThanSeconds w * 1000) batchSize st of
             (st, Inl e) \<Rightarrow> (st, Inl e)
           | (st, Inr affected) \<Rightarrow>
               let acc = acc\<lparr>wr_deleted := wr_deleted acc + affected, wr_batches := wr_batches acc + 1\<rparr>
               in if int affected < batchSize then (st, Inr (acc\<lparr>wr_drained := True\<rparr>))
                  else pruneWindow delete aborted w batchSize left acc st)"

definition windowBudget :: "int \<Rightarrow> nat \<Rightarrow> nat" where
  "windowBudget budget rest = (if budget \<le> 0 then 0 else nat (max (budget - int rest) 1))"

fun pruneWindows ::
  "'s retention_store \<Rightarrow> ('s \<Rightarrow> bool) \<Rightarrow> int \<Rightarrow> retention_window list \<Rightarrow> pass_state \<Rightarrow> 's \<Rightarrow>
     's \<times> (string + pass_state)" where
  "pruneWindows delete aborted batchSize [] ps st = (st, Inr ps)"
| "pruneWindows delete aborted batchSize (w # rest) ps st =
     (case pruneWindow delete aborted w batchSize (windowBudget (ps_budget ps) (length rest))
             \<lparr>wr_deleted = 0, wr_batches = 0, wr_drained = False\<rparr> st of
        (st, Inl e) \<Rightarrow> (st, Inl e)
      | (st, Inr pruned) \<Rightarrow>
          pruneWindows delete aborted batchSize rest
            \<lparr>ps_deleted = ps_deleted ps + wr_deleted pruned, ps_budget = ps_budget ps - int (wr_batches pruned),
             ps_drained = (ps_drained ps \<and> wr_drained pruned)\<rparr> st)"

record retention_summary =
  sm_deleted :: nat
  sm_drained :: bool

definition prune ::
  "'s retention_store \<Rightarrow> ('s \<Rightarrow> bool) \<Rightarrow> retention_options \<Rightarrow> 's \<Rightarrow>
     's \<times> (retention_failure + retention_summary)" where
  "prune delete aborted opts st =
     (if ro_batchSize opts \<le> 0 then (st, Inl (InvalidRetentionOptions (ro_batchSize opts)))
      else case pruneWindows delete aborted (ro_batchSize opts) (retentionWindows opts)
                  \<lparr>ps_deleted = 0, ps_budget = ro_maxBatchesPerPass opts, ps_drained = True\<rparr> st of
             (st, Inl e) \<Rightarrow> (st, Inl (RetentionStoreThrew e))
           | (st, Inr ps) \<Rightarrow> (st, Inr \<lparr>sm_deleted = ps_deleted ps, sm_drained = ps_drained ps\<rparr>))"

section \<open>The stores on the table\<close>

text \<open>The repository as the store of a pass, at one instant of the database clock.\<close>

definition answeredOk :: "'s \<times> 'a \<Rightarrow> 's \<times> (string + 'a)" where
  "answeredOk sa = (fst sa, Inr (snd sa))"

definition reaperStore :: "instant \<Rightarrow> nat set \<Rightarrow> task_table reaper_store" where
  "reaperStore now locked =
     \<lparr>rs_findExpiredLeases = (\<lambda>limit tbl. (tbl, Inr (findExpiredLeases now limit tbl))),
      rs_reclaimExpired = (\<lambda>ref ms msg tbl. answeredOk (reclaimExpired now ref ms msg tbl)),
      rs_deadLetterExpired = (\<lambda>ref msg tbl. answeredOk (deadLetterExpired now ref msg tbl)),
      rs_completeExpired = (\<lambda>ref tbl. answeredOk (completeExpired now ref tbl)),
      rs_retireMissedPending = (\<lambda>limit tbl. answeredOk (retireMissedPending now locked limit tbl))\<rparr>"

definition retentionStore :: "instant \<Rightarrow> nat set \<Rightarrow> task_table retention_store" where
  "retentionStore now locked statuses olderThanMs limit tbl =
     (case deleteFinishedOlderThan now locked statuses olderThanMs limit tbl of
        Inl _ \<Rightarrow> (tbl, Inl ''deleteFinishedOlderThan only deletes terminal tasks'')
      | Inr (tbl', n) \<Rightarrow> (tbl', Inr n))"

end
