(* ===== verification/ClaimProtocol.thy ===== *)
theory ClaimProtocol
  imports Upkeep "HOL-Library.Multiset"
begin

text \<open>
  The protocol by which instances and reapers share the table of occurrences, without the
  instances: which claims have not been fired, which fires have won the right to run their
  handler, which rows a sweep has read, and a log of the handler calls. The invariant says
  what the protocol promises; the executors are shown to follow it in the theory of the system.
\<close>

section \<open>The protocol\<close>

definition claimKey :: "task_row \<Rightarrow> nat \<times> nat" where
  "claimKey t = (tr_id t, tr_leaseEpoch t)"

record protocol =
  pr_table :: task_table
  pr_unfired :: "task_row multiset"
  pr_running :: "task_row set"
  pr_swept :: "task_row set"
  pr_runs :: "(nat \<times> nat) list"

definition reapWrite :: "instant \<Rightarrow> task_row \<Rightarrow> task_table \<Rightarrow> task_table \<times> nat" where
  "reapWrite now task =
     (let ref = (tr_id task, tr_leaseEpoch task)
      in case reapDecision task of
           CompleteRow \<Rightarrow> completeExpired now ref
         | DeadLetterRow \<Rightarrow> deadLetterExpired now ref leaseExpiredMessage
         | ReclaimRow ms \<Rightarrow> reclaimExpired now ref ms leaseExpiredMessage)"

inductive protocol_step :: "protocol \<Rightarrow> protocol \<Rightarrow> bool" where
  pr_background: "background (pr_table s) tbl' \<Longrightarrow> protocol_step s (s\<lparr>pr_table := tbl'\<rparr>)"
| pr_forget: "unf \<subseteq># pr_unfired s \<Longrightarrow> run \<subseteq> pr_running s \<Longrightarrow> swp \<subseteq> pr_swept s \<Longrightarrow>
    protocol_step s (s\<lparr>pr_unfired := unf, pr_running := run, pr_swept := swp\<rparr>)"
| pr_claim: "claimDueTasks now locked opts (pr_table s) = (tbl', tasks) \<Longrightarrow>
    protocol_step s (s\<lparr>pr_table := tbl', pr_unfired := pr_unfired s + mset tasks\<rparr>)"
| pr_begin: "t \<in># pr_unfired s \<Longrightarrow> beginDispatch now (claimOf host t) leaseMs (pr_table s) = (tbl', won) \<Longrightarrow> won \<noteq> 0 \<Longrightarrow>
    protocol_step s (s\<lparr>pr_table := tbl', pr_unfired := pr_unfired s - {#t#},
      pr_running := insert t (pr_running s), pr_runs := pr_runs s @ [claimKey t]\<rparr>)"
| pr_begin_unheard: "t \<in># pr_unfired s \<Longrightarrow>
    protocol_step s (s\<lparr>pr_table := fst (beginDispatch now (claimOf host t) leaseMs (pr_table s)),
      pr_unfired := pr_unfired s - {#t#}\<rparr>)"
| pr_release: "t \<in># pr_unfired s \<Longrightarrow>
    protocol_step s (s\<lparr>pr_table := fst (releaseClaim (claimOf host t) (pr_table s)),
      pr_unfired := pr_unfired s - {#t#}\<rparr>)"
| pr_mark: "t \<in> pr_running s \<Longrightarrow>
    protocol_step s (s\<lparr>pr_table := fst (markDispatched now (claimOf host t) (pr_table s))\<rparr>)"
| pr_outcome: "t \<in> pr_running s \<Longrightarrow>
    protocol_step s (s\<lparr>pr_table := fst (writeOutcome now (claimOf host t) (outcomeWrite t ended mk) (pr_table s))\<rparr>)"
| pr_sweep: "protocol_step s (s\<lparr>pr_swept := pr_swept s \<union> set (findExpiredLeases now limit (pr_table s))\<rparr>)"
| pr_reap: "t \<in> pr_swept s \<Longrightarrow>
    protocol_step s (s\<lparr>pr_table := fst (reapWrite now t (pr_table s))\<rparr>)"

inductive_cases protocol_stepE: "protocol_step s s'"

section \<open>The invariant\<close>

definition runsLogged :: "(nat \<times> nat) list \<Rightarrow> nat \<Rightarrow> nat" where
  "runsLogged runs i = length (filter (\<lambda>k. fst k = i) runs)"

text \<open>A claim that has run its handler is behind its row, or the row says so.\<close>

definition log_ok :: "task_table \<Rightarrow> (nat \<times> nat) list \<Rightarrow> bool" where
  "log_ok tbl runs \<longleftrightarrow> distinct runs \<and>
     (\<forall>k \<in> set runs. fst k < tt_nextId tbl \<and>
        (\<forall>r \<in> rowsOf tbl (fst k). snd k \<le> tr_leaseEpoch r \<and>
           (tr_leaseEpoch r = snd k \<and> tr_status r = OccRunning \<longrightarrow> tr_startedAt r \<noteq> None)))"

text \<open>A copy of a row that an instance or a sweep holds is an earlier state of the row.\<close>

definition copies_ok :: "task_table \<Rightarrow> task_row set \<Rightarrow> bool" where
  "copies_ok tbl ts \<longleftrightarrow> (\<forall>t \<in> ts. tr_id t < tt_nextId tbl \<and> (\<forall>r \<in> rowsOf tbl (tr_id t). row_evolves t r))"

definition claims_ok :: "task_row multiset \<Rightarrow> (nat \<times> nat) list \<Rightarrow> bool" where
  "claims_ok unf runs \<longleftrightarrow>
     (\<forall>k. count (image_mset claimKey unf) k \<le> 1) \<and> claimKey ` set_mset unf \<inter> set runs = {}"

text \<open>What the log says about a row.\<close>

definition attempts_ok :: "task_row \<Rightarrow> bool" where
  "attempts_ok r \<longleftrightarrow>
     (if tr_status r = OccFailed then tr_attempts r \<le> max 1 (tr_maxAttempts r)
      else tr_attempts r < max 1 (tr_maxAttempts r))"

definition row_logged :: "(nat \<times> nat) list \<Rightarrow> task_row \<Rightarrow> bool" where
  "row_logged runs r \<longleftrightarrow>
     runsLogged runs (tr_id r) \<le> tr_attempts r +
       (if claimKey r \<in> set runs \<and> tr_status r \<in> {OccRunning, OccSucceeded} then 1 else 0) \<and>
     attempts_ok r \<and>
     (tr_dispatchedAt r \<noteq> None \<longrightarrow> claimKey r \<in> set runs) \<and>
     (tr_status r = OccSucceeded \<longrightarrow> claimKey r \<in> set runs)"

definition protocol_inv :: "protocol \<Rightarrow> bool" where
  "protocol_inv s \<longleftrightarrow>
     table_ok (pr_table s) \<and> log_ok (pr_table s) (pr_runs s) \<and>
     copies_ok (pr_table s) (set_mset (pr_unfired s) \<union> pr_running s \<union> pr_swept s) \<and>
     claims_ok (pr_unfired s) (pr_runs s) \<and> claimKey ` pr_running s \<subseteq> set (pr_runs s) \<and>
     (\<forall>r \<in> set (tt_rows (pr_table s)). row_logged (pr_runs s) r)"

definition initialProtocol :: protocol where
  "initialProtocol = \<lparr>pr_table = emptyTable, pr_unfired = {#}, pr_running = {}, pr_swept = {}, pr_runs = []\<rparr>"

lemma initialProtocol_inv: "protocol_inv initialProtocol"
  using emptyTable_ok
  by (simp add: protocol_inv_def initialProtocol_def log_ok_def copies_ok_def claims_ok_def emptyTable_def)

section \<open>What evolution keeps\<close>

lemma table_evolves_row:
  assumes "table_evolves tbl tbl'" "r' \<in> rowsOf tbl' i" "i < tt_nextId tbl"
  obtains r where "r \<in> rowsOf tbl i" "row_evolves r r'"
proof -
  have r': "r' \<in> set (tt_rows tbl')" "tr_id r' = i" using assms(2) by (simp_all add: rowsOf_def)
  with assms(1,3) obtain q where q: "q \<in> set (tt_rows tbl)" "row_evolves q r'"
    by (auto simp: table_evolves_def)
  show thesis by (rule that [of q]) (use q r' row_evolves_same(1) [OF q(2)] in \<open>simp_all add: rowsOf_def\<close>)
qed

lemma table_evolves_next: "table_evolves tbl tbl' \<Longrightarrow> tt_nextId tbl \<le> tt_nextId tbl'"
  by (simp add: table_evolves_def)

lemma copies_evolve:
  assumes "copies_ok tbl ts" "table_evolves tbl tbl'"
  shows "copies_ok tbl' ts"
  unfolding copies_ok_def
proof (intro ballI conjI)
  fix t assume t: "t \<in> ts"
  with assms show "tr_id t < tt_nextId tbl'" using table_evolves_next [OF assms(2)] by (force simp: copies_ok_def)
  fix r assume "r \<in> rowsOf tbl' (tr_id t)"
  then obtain q where "q \<in> rowsOf tbl (tr_id t)" "row_evolves q r"
    using table_evolves_row [OF assms(2)] t assms(1) by (metis copies_ok_def)
  moreover from this(1) have "row_evolves t q" using t assms(1) by (simp add: copies_ok_def)
  ultimately show "row_evolves t r" using row_evolves_trans by blast
qed

lemma log_evolves:
  assumes "log_ok tbl runs" "table_evolves tbl tbl'"
  shows "log_ok tbl' runs"
proof -
  have "fst k < tt_nextId tbl' \<and> (\<forall>r \<in> rowsOf tbl' (fst k). snd k \<le> tr_leaseEpoch r \<and>
           (tr_leaseEpoch r = snd k \<and> tr_status r = OccRunning \<longrightarrow> tr_startedAt r \<noteq> None))"
    if k: "k \<in> set runs" for k
  proof (intro conjI ballI)
    have k': "fst k < tt_nextId tbl" using assms(1) k by (simp add: log_ok_def)
    then show "fst k < tt_nextId tbl'" using table_evolves_next [OF assms(2)] by simp
    fix r assume "r \<in> rowsOf tbl' (fst k)"
    then obtain q where q: "q \<in> rowsOf tbl (fst k)" "row_evolves q r"
      using table_evolves_row [OF assms(2) _ k'] by blast
    have old: "snd k \<le> tr_leaseEpoch q"
        "tr_leaseEpoch q = snd k \<Longrightarrow> tr_status q = OccRunning \<Longrightarrow> tr_startedAt q \<noteq> None"
      using assms(1) k q(1) by (auto simp: log_ok_def)
    show "snd k \<le> tr_leaseEpoch r" using old(1) row_evolves_le(1) [OF q(2)] by simp
    show "tr_leaseEpoch r = snd k \<and> tr_status r = OccRunning \<longrightarrow> tr_startedAt r \<noteq> None"
    proof (intro impI)
      assume h: "tr_leaseEpoch r = snd k \<and> tr_status r = OccRunning"
      then have e: "tr_leaseEpoch r = tr_leaseEpoch q" using old(1) row_evolves_le(1) [OF q(2)] by simp
      then show "tr_startedAt r \<noteq> None" using row_evolves_held [OF q(2) e] h old(2) by simp
    qed
  qed
  then show ?thesis using assms(1) by (simp add: log_ok_def)
qed

lemma log_entry:
  assumes "log_ok tbl runs" "(tr_id r, e) \<in> set runs" "r \<in> set (tt_rows tbl)"
  shows "e \<le> tr_leaseEpoch r" "tr_leaseEpoch r = e \<Longrightarrow> tr_status r = OccRunning \<Longrightarrow> tr_startedAt r \<noteq> None"
proof -
  from assms(1,2) have "\<forall>r' \<in> rowsOf tbl (tr_id r). e \<le> tr_leaseEpoch r' \<and>
      (tr_leaseEpoch r' = e \<and> tr_status r' = OccRunning \<longrightarrow> tr_startedAt r' \<noteq> None)"
    by (force simp: log_ok_def)
  then show "e \<le> tr_leaseEpoch r" "tr_leaseEpoch r = e \<Longrightarrow> tr_status r = OccRunning \<Longrightarrow> tr_startedAt r \<noteq> None"
    using assms(3) by (auto simp: rowsOf_def)
qed

section \<open>What every write keeps of the log\<close>

abbreviation rows_logged :: "task_table \<Rightarrow> (nat \<times> nat) list \<Rightarrow> bool" where
  "rows_logged tbl runs \<equiv> (\<forall>r \<in> set (tt_rows tbl). row_logged runs r)"

lemma update_logged:
  assumes "rows_logged tbl runs"
    "\<And>r. r \<in> set (tt_rows tbl) \<Longrightarrow> p r \<Longrightarrow> row_logged runs r \<Longrightarrow> row_logged runs (f r)"
  shows "rows_logged (fst (updateRows p f tbl)) runs"
  using assms by auto

lemma delete_logged: "rows_logged tbl runs \<Longrightarrow> rows_logged (fst (deleteWhere p tbl)) runs"
  by simp

lemma runsLogged_fresh: "log_ok tbl runs \<Longrightarrow> tt_nextId tbl \<le> i \<Longrightarrow> runsLogged runs i = 0"
  by (force simp: log_ok_def runsLogged_def filter_empty_conv)

lemma insertOne_logged:
  "rows_logged tbl runs \<Longrightarrow> log_ok tbl runs \<Longrightarrow> rows_logged (fst (insertOne no tbl)) runs"
  by (auto simp: insertOne_def Let_def newRow_def row_logged_def attempts_ok_def runsLogged_fresh)

lemma insertAll_logged:
  "rows_logged tbl runs \<Longrightarrow> log_ok tbl runs \<Longrightarrow> rows_logged (fst (insertAll nos tbl)) runs"
proof (induction nos arbitrary: tbl)
  case (Cons no nos)
  then show ?case unfolding insertAll_fst
    by (intro Cons.IH insertOne_logged log_evolves [OF _ insertOne_evolves])
qed simp

text \<open>A pending row is changed in nothing the log speaks of.\<close>

lemma pending_logged:
  assumes "row_logged runs r" "tr_status r = OccPending"
  shows "row_logged runs (r\<lparr>tr_status := OccMissed, tr_finishedAt := f\<rparr>)" "row_logged runs (r\<lparr>tr_missedAfter := m\<rparr>)"
  using assms by (simp_all add: row_logged_def attempts_ok_def claimKey_def)

lemma background_logged:
  "background tbl tbl' \<Longrightarrow> table_ok tbl \<Longrightarrow> log_ok tbl runs \<Longrightarrow> rows_logged tbl runs \<Longrightarrow> rows_logged tbl' runs"
proof (induction rule: background.induct)
  case (bg_insert tbl pg nos n)
  then show ?case by (simp add: insertIgnoringDuplicates_def insertChunks_rows insertAll_logged)
next
  case (bg_prune now locked statuses olderThanMs limit tbl tbl' n)
  from bg_prune(1) obtain p where "(tbl', n) = deleteWhere p tbl" by (rule deleteFinished_deletes)
  then show ?case using delete_logged [OF bg_prune(4), of p] by (metis fst_conv)
next
  case (bg_retire tbl now locked limit)
  then show ?case
  proof (cases "limit \<le> 0")
    case False
    show ?thesis
      unfolding retireMissedPending_def Let_def if_not_P [OF False]
    proof (rule update_logged [OF bg_retire(3)])
      fix r assume r: "r \<in> set (tt_rows tbl)" "tr_id r \<in> set (rowIds (take (nat limit) (sort_key (\<lambda>r. the (tr_missedAfter r))
             (filter (\<lambda>r. overdueUnclaimed now r \<and> tr_id r \<notin> locked) (tt_rows tbl)))))" "row_logged runs r"
      have "tr_status r = OccPending" using chosen_ids [OF bg_retire(1) r(1,2)] by (simp add: overdueUnclaimed_def)
      then show "row_logged runs (r\<lparr>tr_status := OccMissed, tr_finishedAt := Some now\<rparr>)"
        by (rule pending_logged(1) [OF r(3)])
    qed
  qed (simp add: retireMissedPending_def)
qed (auto simp: deletePendingByJobIds_def updateToMissed_def updateMissedAfterForJobs_def deleteOfJobs_def
       pending_logged)

text \<open>A claim: the new epoch has run nothing.\<close>

lemma claim_logged:
  assumes "table_ok tbl" "log_ok tbl runs" "rows_logged tbl runs"
  shows "rows_logged (fst (claimDueTasks now locked opts tbl)) runs"
proof -
  have "row_logged runs (claimRow now opts r)"
    if r: "r \<in> set (tt_rows tbl)" "tr_status r = OccPending" "row_logged runs r" for r
  proof -
    have "task_row_ok r" using assms(1) r(1) by (simp add: table_ok_def)
    moreover have "(tr_id r, Suc (tr_leaseEpoch r)) \<notin> set runs"
      using log_entry(1) [OF assms(2) _ r(1)] by fastforce
    ultimately show ?thesis using r(2,3)
      by (auto simp: row_logged_def claimRow_def attempts_ok_def claimKey_def task_row_ok_def)
  qed
  with assms(3) show ?thesis by (auto simp: claimDueTasks_def Let_def)
qed

text \<open>A row that matches a claim is a later state of the copy the claim was made with.\<close>

lemma owned_copy:
  assumes "copies_ok tbl ts" "t \<in> ts" "r \<in> set (tt_rows tbl)" "owned (claimOf host t) r"
  shows "row_evolves t r" "claimKey r = claimKey t" "tr_status r = OccRunning"
    "tr_attempts r = tr_attempts t" "tr_maxAttempts r = tr_maxAttempts t"
proof -
  have m: "tr_id r = tr_id t" "tr_leaseEpoch r = tr_leaseEpoch t" "tr_status r = OccRunning"
    using assms(4) by (simp_all add: owned_def claimOf_def)
  then show e: "row_evolves t r" using assms(1,2,3) by (simp add: copies_ok_def rowsOf_def)
  show "claimKey r = claimKey t" "tr_status r = OccRunning" using m by (simp_all add: claimKey_def)
  show "tr_attempts r = tr_attempts t" "tr_maxAttempts r = tr_maxAttempts t"
    using row_evolves_held [OF e] row_evolves_same [OF e] m by simp_all
qed

lemma reaped_copy:
  assumes "copies_ok tbl ts" "t \<in> ts" "r \<in> set (tt_rows tbl)"
    "reapable now (tr_id t) (tr_leaseEpoch t) fence r"
  shows "claimKey r = claimKey t" "tr_status r = OccRunning"
    "tr_attempts r = tr_attempts t" "tr_maxAttempts r = tr_maxAttempts t"
proof -
  have m: "tr_id r = tr_id t" "tr_leaseEpoch r = tr_leaseEpoch t" "tr_status r = OccRunning"
    using assms(4) by (simp_all add: reapable_def lapsed_def)
  then have e: "row_evolves t r" using assms(1,2,3) by (simp add: copies_ok_def rowsOf_def)
  show "claimKey r = claimKey t" "tr_status r = OccRunning" using m by (simp_all add: claimKey_def)
  show "tr_attempts r = tr_attempts t" "tr_maxAttempts r = tr_maxAttempts t"
    using row_evolves_held [OF e] row_evolves_same [OF e] m by simp_all
qed

lemma begin_logged:
  assumes "log_ok tbl runs" "rows_logged tbl runs"
  shows "rows_logged (fst (beginDispatch now ref leaseMs tbl)) runs"
  using assms(2) by (auto simp: beginDispatch_def row_logged_def attempts_ok_def claimKey_def)

lemma mark_logged:
  assumes "copies_ok tbl ts" "t \<in> ts" "claimKey t \<in> set runs" "rows_logged tbl runs"
  shows "rows_logged (fst (markDispatched now (claimOf host t) tbl)) runs"
  unfolding markDispatched_def runGuardedUpdate_def
proof (rule update_logged [OF assms(4)])
  fix r assume "r \<in> set (tt_rows tbl)" "owned (claimOf host t) r" "row_logged runs r"
  with owned_copy(2,3) [OF assms(1,2) this(1,2)] assms(3)
  show "row_logged runs (r\<lparr>tr_dispatchedAt := Some now\<rparr>)"
    by (simp add: row_logged_def attempts_ok_def claimKey_def)
qed

lemma release_logged:
  assumes "copies_ok tbl ts" "t \<in> ts" "claimKey t \<notin> set runs" "rows_logged tbl runs"
  shows "rows_logged (fst (releaseClaim (claimOf host t) tbl)) runs"
  unfolding releaseClaim_def runGuardedUpdate_def
proof (rule update_logged [OF assms(4)])
  fix r assume "r \<in> set (tt_rows tbl)" "owned (claimOf host t) r" "row_logged runs r"
  with owned_copy(2,3) [OF assms(1,2) this(1,2)] assms(3)
  show "row_logged runs (r\<lparr>tr_status := OccPending, tr_claimedBy := None, tr_leaseExpiresAt := None,
            tr_startedAt := None, tr_dispatchedAt := None\<rparr>)"
    by (simp add: row_logged_def attempts_ok_def claimKey_def)
qed

text \<open>The write that ends a fire counts the attempt, or records a success that was logged.\<close>

lemma outcome_logged:
  assumes "copies_ok tbl ts" "t \<in> ts" "claimKey t \<in> set runs" "rows_logged tbl runs"
  shows "rows_logged (fst (writeOutcome now (claimOf host t) (outcomeWrite t ended mk) tbl)) runs"
proof -
  have hit: "claimKey r \<in> set runs \<and> tr_status r = OccRunning \<and> tr_attempts r = tr_attempts t
      \<and> tr_maxAttempts r = tr_maxAttempts t \<and> tr_id r = tr_id t"
    if "r \<in> set (tt_rows tbl)" "owned (claimOf host t) r" for r
    using owned_copy [OF assms(1,2) that] assms(3) that(2) by (simp add: owned_def claimOf_def)
  have upd: "rows_logged (fst (updateRows (owned (claimOf host t)) f tbl)) runs"
    if "\<And>r. claimKey r \<in> set runs \<Longrightarrow> tr_status r = OccRunning \<Longrightarrow> tr_attempts r = tr_attempts t \<Longrightarrow>
          tr_maxAttempts r = tr_maxAttempts t \<Longrightarrow> row_logged runs r \<Longrightarrow> row_logged runs (f r)" for f
    by (rule update_logged [OF assms(4)]) (use hit that in blast)
  note logged = row_logged_def attempts_ok_def claimKey_def
  show ?thesis
  proof (cases "outcomeWrite t ended mk")
    case WriteComplete
    show ?thesis unfolding WriteComplete writeOutcome_def outcome_write.case completeTask_def runGuardedUpdate_def
      by (rule upd) (simp add: logged)
  next
    case (WriteFail msg)
    show ?thesis unfolding WriteFail writeOutcome_def outcome_write.case failTaskTerminal_def runGuardedUpdate_def
      by (rule upd) (simp add: logged)
  next
    case (WriteReschedule ms msg)
    then have "tr_attempts t + 1 < tr_maxAttempts t"
      by (auto simp: outcomeWrite_def Let_def split: handler_end.splits if_splits)
    then show ?thesis
      unfolding WriteReschedule writeOutcome_def outcome_write.case rescheduleTask_def runGuardedUpdate_def
      by (intro upd) (simp add: logged)
  qed
qed

lemma reap_logged:
  assumes "copies_ok tbl ts" "t \<in> ts" "log_ok tbl runs" "rows_logged tbl runs"
  shows "rows_logged (fst (reapWrite now t tbl)) runs"
proof -
  have hit: "claimKey r = claimKey t \<and> tr_status r = OccRunning \<and> tr_attempts r = tr_attempts t
      \<and> tr_maxAttempts r = tr_maxAttempts t"
    if "r \<in> set (tt_rows tbl)" "reapable now (tr_id t) (tr_leaseEpoch t) fence r" for r fence
    using reaped_copy [OF assms(1,2) that] by simp
  have upd: "rows_logged (fst (updateRows (reapable now (tr_id t) (tr_leaseEpoch t) fence) f tbl)) runs"
    if "\<And>r. (fence = PostDispatch \<Longrightarrow> claimKey r \<in> set runs) \<Longrightarrow> (tr_id r, Suc (tr_leaseEpoch r)) \<notin> set runs \<Longrightarrow>
          tr_status r = OccRunning \<Longrightarrow> tr_attempts r = tr_attempts t \<Longrightarrow>
          tr_maxAttempts r = tr_maxAttempts t \<Longrightarrow> row_logged runs r \<Longrightarrow> row_logged runs (f r)" for f fence
  proof (rule update_logged [OF assms(4)])
    fix r assume r: "r \<in> set (tt_rows tbl)" "reapable now (tr_id t) (tr_leaseEpoch t) fence r" "row_logged runs r"
    have "fence = PostDispatch \<Longrightarrow> claimKey r \<in> set runs"
      using r(2,3) by (simp add: reapable_def row_logged_def)
    moreover have "(tr_id r, Suc (tr_leaseEpoch r)) \<notin> set runs"
      using log_entry(1) [OF assms(3) _ r(1)] by fastforce
    ultimately show "row_logged runs (f r)" using hit [OF r(1,2)] r(3) that by blast
  qed
  note logged = row_logged_def attempts_ok_def claimKey_def
  show ?thesis
  proof (cases "reapDecision t")
    case CompleteRow
    show ?thesis
      unfolding reapWrite_def Let_def CompleteRow reap_decision.case completeExpired_def runReaperUpdate_def fst_conv snd_conv
      by (rule upd) (simp add: logged)
  next
    case DeadLetterRow
    show ?thesis
      unfolding reapWrite_def Let_def DeadLetterRow reap_decision.case deadLetterExpired_def runReaperUpdate_def fst_conv snd_conv
      by (rule upd) (auto simp: logged split: if_splits)
  next
    case (ReclaimRow ms)
    then have "tr_attempts t + 1 < tr_maxAttempts t"
      by (auto simp: reapDecision_def Let_def split: if_splits)
    then show ?thesis
      unfolding reapWrite_def Let_def ReclaimRow reap_decision.case reclaimExpired_def runReaperUpdate_def fst_conv snd_conv
      by (intro upd) (auto simp: logged split: if_splits)
  qed
qed

section \<open>The protocol keeps its invariant\<close>

lemma writeOutcome_statement: "statement tbl (fst (writeOutcome now ref w tbl))"
  by (cases w) (auto simp: writeOutcome_def intro: statement.intros)

lemma reapWrite_statement: "statement tbl (fst (reapWrite now t tbl))"
  by (cases "reapDecision t") (auto simp: reapWrite_def Let_def intro: statement.intros)

text \<open>
  A step that writes one statement and gives no one a new copy: the parts about the table
  follow from the statement.
\<close>

lemma inv_after_statement:
  assumes inv: "protocol_inv s" and st: "statement (pr_table s) tbl'"
    and logged: "rows_logged tbl' (pr_runs s)"
    and unf: "unf \<subseteq># pr_unfired s" and run: "run \<subseteq> pr_running s"
  shows "protocol_inv (s\<lparr>pr_table := tbl', pr_unfired := unf, pr_running := run\<rparr>)"
proof -
  note i = inv [unfolded protocol_inv_def]
  have ok: "table_ok (pr_table s)" using i by blast
  have ev: "table_evolves (pr_table s) tbl'" by (rule statement_evolves [OF st ok])
  have sub: "set_mset unf \<union> run \<union> pr_swept s \<subseteq> set_mset (pr_unfired s) \<union> pr_running s \<union> pr_swept s"
    using set_mset_mono [OF unf] run by blast
  have copies: "copies_ok tbl' (set_mset unf \<union> run \<union> pr_swept s)"
    using copies_evolve [OF _ ev] i sub unfolding copies_ok_def by blast
  have one: "count (image_mset claimKey (pr_unfired s)) k \<le> 1" for k
    using i unfolding claims_ok_def by blast
  have "count (image_mset claimKey unf) k \<le> 1" for k
    by (rule order_trans [OF mset_subset_eq_count [OF image_mset_subseteq_mono [OF unf]] one])
  moreover have "claimKey ` set_mset unf \<inter> set (pr_runs s) = {}"
    using i set_mset_mono [OF unf] unfolding claims_ok_def by blast
  ultimately have claims: "claims_ok unf (pr_runs s)" by (simp add: claims_ok_def)
  have "log_ok tbl' (pr_runs s)" using log_evolves [OF _ ev] i by blast
  moreover have "claimKey ` run \<subseteq> set (pr_runs s)" using i run by blast
  ultimately show ?thesis
    using statement_ok [OF st ok] copies claims logged by (simp add: protocol_inv_def)
qed

lemma inv_forget:
  assumes "protocol_inv s" "unf \<subseteq># pr_unfired s" "run \<subseteq> pr_running s" "swp \<subseteq> pr_swept s"
  shows "protocol_inv (s\<lparr>pr_unfired := unf, pr_running := run, pr_swept := swp\<rparr>)"
proof -
  have "statement (pr_table s) (deleteOfJobs [] (pr_table s))"
    by (intro st_background bg_delete_job)
  moreover have "deleteOfJobs [] tbl = tbl" for tbl
    by (simp add: deleteOfJobs_def deleteWhere_def)
  ultimately have "protocol_inv (s\<lparr>pr_table := pr_table s, pr_unfired := unf, pr_running := run\<rparr>)"
    by (intro inv_after_statement [OF assms(1) _ _ assms(2,3)]) (use assms(1) in \<open>auto simp: protocol_inv_def\<close>)
  then show ?thesis using assms(4) by (auto simp: protocol_inv_def copies_ok_def)
qed

lemma claimed_rows:
  assumes "claimDueTasks now locked opts tbl = (tbl', tasks)" "t \<in> set tasks"
  obtains r where "r \<in> set (tt_rows tbl)" "tr_status r = OccPending" "t = claimRow now opts r" "t \<in> set (tt_rows tbl')"
  using assms by (force simp: claimDueTasks_def Let_def updateRows_def split: if_splits)

lemma claimed_distinct:
  assumes "claimDueTasks now locked opts tbl = (tbl', tasks)" "table_ok tbl"
  shows "distinct (map tr_id tasks)"
proof -
  have "distinct (map tr_id (filter p (tt_rows tbl)))" for p
    using assms(2) by (simp add: table_ok_def rowIds_def distinct_map_filter)
  moreover have "tr_id (claimRow now opts r) = tr_id r" for r by (simp add: claimRow_def)
  ultimately show ?thesis using assms(1) by (auto simp: claimDueTasks_def Let_def comp_def split: if_splits)
qed

lemma inv_claim:
  assumes inv: "protocol_inv s" and cl: "claimDueTasks now locked opts (pr_table s) = (tbl', tasks)"
  shows "protocol_inv (s\<lparr>pr_table := tbl', pr_unfired := pr_unfired s + mset tasks\<rparr>)"
proof -
  note i = inv [unfolded protocol_inv_def]
  have ok: "table_ok (pr_table s)" using i by blast
  have st: "statement (pr_table s) tbl'" using st_claim [of "pr_table s" now locked opts] cl by simp
  note ev = statement_evolves [OF st ok] and ok' = statement_ok [OF st ok]
  have lg: "log_ok (pr_table s) (pr_runs s)" using i by blast
  have fresh: "(tr_id t, tr_leaseEpoch t) \<notin> set (pr_runs s)
      \<and> (tr_id t, tr_leaseEpoch t) \<notin> claimKey ` set_mset (pr_unfired s)" if t: "t \<in> set tasks" for t
  proof -
    obtain r where r: "r \<in> set (tt_rows (pr_table s))" "t = claimRow now opts r"
      by (rule claimed_rows [OF cl t])
    then have k: "tr_id t = tr_id r" "tr_leaseEpoch t = Suc (tr_leaseEpoch r)" by (simp_all add: claimRow_def)
    have "(tr_id r, Suc (tr_leaseEpoch r)) \<notin> set (pr_runs s)" using log_entry(1) [OF lg _ r(1)] by fastforce
    moreover have "tr_leaseEpoch u \<le> tr_leaseEpoch r" if "u \<in># pr_unfired s" "tr_id u = tr_id r" for u
    proof -
      have "row_evolves u r" using i that r(1) by (auto simp: copies_ok_def rowsOf_def)
      then show ?thesis by (rule row_evolves_le)
    qed
    ultimately show ?thesis using k by (force simp: claimKey_def)
  qed
  have cnt: "count (image_mset claimKey (pr_unfired s + mset tasks)) k \<le> 1" for k
  proof -
    have "distinct (map claimKey tasks)"
      using claimed_distinct [OF cl ok] by (auto simp: claimKey_def distinct_map inj_on_def)
    then have "count (mset (map claimKey tasks)) k \<le> 1" by (metis count_mset_0_iff distinct_count_atmost_1 le_numeral_extra(3) le_numeral_extra(4) zero_le)
    moreover have "count (mset (map claimKey tasks)) k = 0 \<or> count (image_mset claimKey (pr_unfired s)) k = 0"
      using fresh by (auto simp: count_eq_zero_iff claimKey_def)
    moreover have "count (image_mset claimKey (pr_unfired s)) k \<le> 1"
      using i unfolding claims_ok_def by blast
    ultimately show ?thesis by auto
  qed
  have copies: "copies_ok tbl' (set tasks)"
    unfolding copies_ok_def
  proof (intro ballI conjI)
    fix t assume "t \<in> set tasks"
    then have "t \<in> set (tt_rows tbl')" using claimed_rows [OF cl] by metis
    then show "tr_id t < tt_nextId tbl'" using ok' by (simp add: table_ok_def)
    fix r assume "r \<in> rowsOf tbl' (tr_id t)"
    then have "r = t" using row_unique [OF ok'] \<open>t \<in> set (tt_rows tbl')\<close> by (auto simp: rowsOf_def)
    then show "row_evolves t r" by simp
  qed
  have "rows_logged tbl' (pr_runs s)" using claim_logged [OF ok lg, of now locked opts] i cl by simp
  moreover have "copies_ok tbl' (set_mset (pr_unfired s) \<union> pr_running s \<union> pr_swept s)"
    using copies_evolve [OF _ ev] i by blast
  moreover have "claimKey ` set_mset (pr_unfired s + mset tasks) \<inter> set (pr_runs s) = {}"
    using i fresh by (auto simp: claims_ok_def claimKey_def)
  ultimately show ?thesis
    using ok' log_evolves [OF lg ev] copies cnt i
    by (auto simp: protocol_inv_def claims_ok_def copies_ok_def)
qed

lemma begin_won_row:
  assumes "beginDispatch now (claimOf host t) leaseMs tbl = (tbl', won)" "won \<noteq> 0"
  obtains r where "r \<in> set (tt_rows tbl)" "owned (claimOf host t) r" "tr_startedAt r = None"
proof -
  have "snd (beginDispatch now (claimOf host t) leaseMs tbl) \<noteq> 0" using assms by simp
  then show thesis using that unfolding beginDispatch_def updateRows_count_0 by blast
qed

text \<open>Winning the right to run: the row has no start, so the log does not have the claim yet.\<close>

lemma inv_begin:
  assumes inv: "protocol_inv s" and t: "t \<in># pr_unfired s"
    and bd: "beginDispatch now (claimOf host t) leaseMs (pr_table s) = (tbl', won)" "won \<noteq> 0"
  shows "protocol_inv (s\<lparr>pr_table := tbl', pr_unfired := pr_unfired s - {#t#},
      pr_running := insert t (pr_running s), pr_runs := pr_runs s @ [claimKey t]\<rparr>)"
proof -
  note i = inv [unfolded protocol_inv_def]
  let ?runs = "pr_runs s @ [claimKey t]"
  have ok: "table_ok (pr_table s)" using i by blast
  have st: "statement (pr_table s) tbl'" using st_begin [of "pr_table s" now "claimOf host t" leaseMs] bd by simp
  note ev = statement_evolves [OF st ok] and ok' = statement_ok [OF st ok]
  have cp: "copies_ok (pr_table s) (set_mset (pr_unfired s) \<union> pr_running s \<union> pr_swept s)" using i by blast
  obtain r where r: "r \<in> set (tt_rows (pr_table s))" "owned (claimOf host t) r" "tr_startedAt r = None"
    by (rule begin_won_row [OF bd])
  have key: "claimKey r = claimKey t" "tr_status r = OccRunning"
    using owned_copy(2,3) [OF cp _ r(1,2)] t by simp_all
  have new: "claimKey t \<notin> set (pr_runs s)" using i t by (auto simp: claims_ok_def)
  have only: "r' = r" if "r' \<in> set (tt_rows (pr_table s))" "tr_id r' = tr_id t" for r'
    using row_unique [OF ok, of r' "tr_id t" r] that r(1) key(1) by (auto simp: rowsOf_def claimKey_def)
  let ?f = "\<lambda>q. q\<lparr>tr_startedAt := Some now, tr_leaseExpiresAt := Some (now + leaseMs)\<rparr>"
  have rows': "set (tt_rows tbl') = (\<lambda>q. if owned (claimOf host t) q \<and> tr_startedAt q = None then ?f q else q) ` set (tt_rows (pr_table s))"
    using bd(1) by (auto simp: beginDispatch_def updateRows_def)
  have next': "tt_nextId tbl' = tt_nextId (pr_table s)"
    using bd(1) by (auto simp: beginDispatch_def updateRows_def)
  have row_t: "q = ?f r" if "q \<in> set (tt_rows tbl')" "tr_id q = tr_id t" for q
    using that only r by (auto simp: rows' split: if_splits)
  have "log_ok tbl' (pr_runs s)" using log_evolves [OF _ ev] i by blast
  moreover have "fst (claimKey t) < tt_nextId tbl'" using cp t next' by (auto simp: copies_ok_def claimKey_def)
  moreover have "tr_leaseEpoch t \<le> tr_leaseEpoch q \<and> tr_startedAt q \<noteq> None"
    if "q \<in> rowsOf tbl' (tr_id t)" for q
    using row_t [of q] that key by (simp add: rowsOf_def claimKey_def)
  ultimately have log: "log_ok tbl' ?runs"
    using new by (auto simp: log_ok_def claimKey_def)
  have old: "rows_logged tbl' (pr_runs s)"
    using begin_logged [of "pr_table s" "pr_runs s" now "claimOf host t" leaseMs] i bd by simp
  have "rows_logged tbl' ?runs"
  proof
    fix q assume q: "q \<in> set (tt_rows tbl')"
    have l: "row_logged (pr_runs s) q" using old q by blast
    show "row_logged ?runs q"
    proof (cases "tr_id q = tr_id t")
      case True
      then have "q = ?f r" by (rule row_t [OF q])
      then show ?thesis using l key new True
        by (auto simp: row_logged_def attempts_ok_def claimKey_def runsLogged_def)
    next
      case False
      then show ?thesis using l by (auto simp: row_logged_def claimKey_def runsLogged_def)
    qed
  qed
  moreover have "copies_ok tbl' (set_mset (pr_unfired s - {#t#}) \<union> insert t (pr_running s) \<union> pr_swept s)"
    using copies_evolve [OF cp ev] t in_diffD unfolding copies_ok_def by fastforce
  moreover have "claims_ok (pr_unfired s - {#t#}) ?runs"
  proof -
    have split: "pr_unfired s = add_mset t (pr_unfired s - {#t#})" using t by simp
    have one: "count (image_mset claimKey (pr_unfired s)) k \<le> 1" for k
      using i unfolding claims_ok_def by blast
    have le: "count (image_mset claimKey (pr_unfired s - {#t#})) k \<le> 1" for k
      using one [of k] by (subst (asm) split) (simp split: if_splits)
    have "count (image_mset claimKey (pr_unfired s - {#t#})) (claimKey t) = 0"
      using one [of "claimKey t"] by (subst (asm) split) simp
    then have "claimKey t \<notin> claimKey ` set_mset (pr_unfired s - {#t#})"
      by (simp add: count_eq_zero_iff)
    moreover have "claimKey ` set_mset (pr_unfired s - {#t#}) \<inter> set (pr_runs s) = {}"
      using i in_diffD unfolding claims_ok_def by fastforce
    ultimately show ?thesis using le by (auto simp: claims_ok_def)
  qed
  ultimately show ?thesis using ok' log i by (auto simp: protocol_inv_def)
qed

theorem protocol_step_inv: "protocol_step s s' \<Longrightarrow> protocol_inv s \<Longrightarrow> protocol_inv s'"
proof (induction rule: protocol_step.induct)
  case (pr_background s tbl')
  note i = pr_background(2) [unfolded protocol_inv_def]
  have "rows_logged tbl' (pr_runs s)" using background_logged [OF pr_background(1)] i by blast
  from inv_after_statement [OF pr_background(2) st_background [OF pr_background(1)] this subset_mset.order_refl order_refl]
  show ?case by simp
next
  case (pr_begin_unheard t s now host leaseMs)
  note i = pr_begin_unheard(2) [unfolded protocol_inv_def]
  have "rows_logged (fst (beginDispatch now (claimOf host t) leaseMs (pr_table s))) (pr_runs s)"
    by (rule begin_logged) (use i in blast)+
  from inv_after_statement [OF pr_begin_unheard(2) st_begin this diff_subset_eq_self order_refl]
  show ?case by simp
next
  case (pr_release t s host)
  note i = pr_release(2) [unfolded protocol_inv_def]
  have "claimKey t \<notin> set (pr_runs s)" using i pr_release(1) by (auto simp: claims_ok_def)
  then have "rows_logged (fst (releaseClaim (claimOf host t) (pr_table s))) (pr_runs s)"
    using i pr_release(1)
    by (intro release_logged [of _ "set_mset (pr_unfired s) \<union> pr_running s \<union> pr_swept s"]) simp_all
  from inv_after_statement [OF pr_release(2) st_release this diff_subset_eq_self order_refl]
  show ?case by simp
next
  case (pr_mark t s now host)
  note i = pr_mark(2) [unfolded protocol_inv_def]
  have "rows_logged (fst (markDispatched now (claimOf host t) (pr_table s))) (pr_runs s)"
    by (rule mark_logged [of _ "set_mset (pr_unfired s) \<union> pr_running s \<union> pr_swept s"]) (use i pr_mark(1) in \<open>simp_all, blast\<close>)
  from inv_after_statement [OF pr_mark(2) st_mark this subset_mset.order_refl order_refl]
  show ?case by simp
next
  case (pr_outcome t s now host ended mk)
  note i = pr_outcome(2) [unfolded protocol_inv_def]
  have "rows_logged (fst (writeOutcome now (claimOf host t) (outcomeWrite t ended mk) (pr_table s))) (pr_runs s)"
    by (rule outcome_logged [of _ "set_mset (pr_unfired s) \<union> pr_running s \<union> pr_swept s"])
      (use i pr_outcome(1) in \<open>simp_all, blast\<close>)
  from inv_after_statement [OF pr_outcome(2) writeOutcome_statement this subset_mset.order_refl order_refl]
  show ?case by simp
next
  case (pr_sweep s now limit)
  note i = pr_sweep [unfolded protocol_inv_def]
  have "copies_ok (pr_table s) (set (findExpiredLeases now limit (pr_table s)))"
    unfolding copies_ok_def
  proof (intro ballI conjI)
    fix t assume "t \<in> set (findExpiredLeases now limit (pr_table s))"
    then have t: "t \<in> set (tt_rows (pr_table s))" by (auto simp: findExpiredLeases_def dest: in_set_takeD)
    then show "tr_id t < tt_nextId (pr_table s)" using i by (simp add: table_ok_def)
    fix r assume "r \<in> rowsOf (pr_table s) (tr_id t)"
    then have "r = t" using row_unique i t by (auto simp: rowsOf_def)
    then show "row_evolves t r" by simp
  qed
  then show ?case using i by (auto simp: protocol_inv_def copies_ok_def)
next
  case (pr_reap t s now)
  note i = pr_reap(2) [unfolded protocol_inv_def]
  have "rows_logged (fst (reapWrite now t (pr_table s))) (pr_runs s)"
    by (rule reap_logged [of _ "set_mset (pr_unfired s) \<union> pr_running s \<union> pr_swept s"]) (use i pr_reap(1) in simp_all)
  from inv_after_statement [OF pr_reap(2) reapWrite_statement this subset_mset.order_refl order_refl]
  show ?case by simp
qed (auto intro: inv_forget inv_claim inv_begin)

theorem protocol_steps_inv: "protocol_step\<^sup>*\<^sup>* s s' \<Longrightarrow> protocol_inv s \<Longrightarrow> protocol_inv s'"
  by (induction rule: rtranclp_induct) (auto intro: protocol_step_inv)

end
