(* ===== verification/TaskSystem.thy ===== *)
theory TaskSystem
  imports ClaimProtocol
begin

text \<open>
  The scheduler as it runs: instances with their executors, sweeps of reapers and the other
  writers share one table, and any of them takes the next step. The simulation shows that every
  run follows the protocol of claims, so the protocol's invariant holds of the running system.
\<close>

section \<open>The system\<close>

record task_system =
  sy_table :: task_table
  sy_executors :: "executor list"
  sy_swept :: "task_row list"
  sy_runs :: "(nat \<times> nat) list"

inductive executor_step ::
  "executor \<times> task_table \<Rightarrow> (nat \<times> nat) list \<Rightarrow> executor \<times> task_table \<Rightarrow> bool" where
  ex_claim: "ex_types ex \<noteq> [] \<Longrightarrow> claimDueTasks now locked (claimBatch ex) tbl = (tbl', tasks) \<Longrightarrow>
    executor_step (ex, tbl) [] (ex\<lparr>ex_replies := ex_replies ex @ [tasks]\<rparr>, tbl')"
| ex_claim_resolved: "j < length (ex_replies ex) \<Longrightarrow>
    executor_step (ex, tbl) []
      (claimResolved aborted (ex_replies ex ! j) (ex\<lparr>ex_replies := removeAt j (ex_replies ex)\<rparr>), tbl)"
| ex_timer: "j < length (ex_armed ex) \<Longrightarrow> executor_step (ex, tbl) [] (taskTimerFires j ex, tbl)"
| ex_fire: "j < length (ex_fires ex) \<Longrightarrow>
    fire_step (ex_types ex) (ex_host ex) (ex_leaseMs ex) (fi_task (ex_fires ex ! j))
      (fi_phase (ex_fires ex ! j), tbl) called (phase', tbl') \<Longrightarrow>
    executor_step (ex, tbl) (if called then [claimKey (fi_task (ex_fires ex ! j))] else [])
      (ex\<lparr>ex_fires := (ex_fires ex)[j := (ex_fires ex ! j)\<lparr>fi_phase := phase'\<rparr>]\<rparr>, tbl')"
| ex_release: "j < length (ex_releases ex) \<Longrightarrow>
    tbl' \<in> {tbl, fst (releaseClaim (claimOf (ex_host ex) (ex_releases ex ! j)) tbl)} \<Longrightarrow>
    executor_step (ex, tbl) [] (ex\<lparr>ex_releases := removeAt j (ex_releases ex)\<rparr>, tbl')"
| ex_register: "registerHandler taskType (ex_types ex) = Inr types' \<Longrightarrow>
    executor_step (ex, tbl) [] (ex\<lparr>ex_types := types'\<rparr>, tbl)"
| ex_stop: "executor_step (ex, tbl) [] (stopExecutor ex, tbl)"
| ex_restart: "executor_step (ex, tbl) [] ((restartExecutor ex)\<lparr>ex_types := types'\<rparr>, tbl)"

inductive system_step :: "task_system \<Rightarrow> task_system \<Rightarrow> bool" where
  sy_background: "background (sy_table s) tbl' \<Longrightarrow> system_step s (s\<lparr>sy_table := tbl'\<rparr>)"
| sy_executor: "i < length (sy_executors s) \<Longrightarrow>
    executor_step (sy_executors s ! i, sy_table s) calls (ex', tbl') \<Longrightarrow>
    system_step s (s\<lparr>sy_table := tbl', sy_executors := (sy_executors s)[i := ex'], sy_runs := sy_runs s @ calls\<rparr>)"
| sy_sweep: "system_step s (s\<lparr>sy_swept := sy_swept s @ findExpiredLeases now limit (sy_table s)\<rparr>)"
| sy_reap: "j < length (sy_swept s) \<Longrightarrow>
    tbl' \<in> {sy_table s, fst (reapWrite now (sy_swept s ! j) (sy_table s))} \<Longrightarrow>
    system_step s (s\<lparr>sy_table := tbl', sy_swept := removeAt j (sy_swept s)\<rparr>)"

text \<open>Instances start with nothing claimed, on a table with no rows.\<close>

definition freshExecutor :: "executor \<Rightarrow> bool" where
  "freshExecutor ex \<longleftrightarrow> restartExecutor ex = ex"

definition initialSystem :: "task_system \<Rightarrow> bool" where
  "initialSystem s \<longleftrightarrow> sy_table s = emptyTable \<and> list_all freshExecutor (sy_executors s) \<and>
     sy_swept s = [] \<and> sy_runs s = []"

section \<open>What an executor holds\<close>

definition beforeRun :: "fire_phase \<Rightarrow> bool" where
  "beforeRun p \<longleftrightarrow> p \<in> {Starting, ReleasingClaim, Beginning}"

definition inRun :: "fire_phase \<Rightarrow> bool" where
  "inRun p \<longleftrightarrow> (case p of Handling _ \<Rightarrow> True | AwaitingMark _ _ \<Rightarrow> True | Ending _ _ \<Rightarrow> True | _ \<Rightarrow> False)"

lemma phase_simps [simp]:
  "beforeRun Starting" "beforeRun ReleasingClaim" "beforeRun Beginning" "\<not> beforeRun (Handling m)"
  "\<not> beforeRun (AwaitingMark e m)" "\<not> beforeRun (Ending e m)" "\<not> beforeRun (FireDone r)"
  "\<not> inRun Starting" "\<not> inRun ReleasingClaim" "\<not> inRun Beginning" "inRun (Handling m)"
  "inRun (AwaitingMark e m)" "inRun (Ending e m)" "\<not> inRun (FireDone r)"
  by (simp_all add: beforeRun_def inRun_def)

definition fireHolds :: "fire \<Rightarrow> task_row multiset" where
  "fireHolds f = (if beforeRun (fi_phase f) then {#fi_task f#} else {#})"

definition fireRuns :: "fire \<Rightarrow> task_row set" where
  "fireRuns f = (if inRun (fi_phase f) then {fi_task f} else {})"

definition unfired :: "executor \<Rightarrow> task_row multiset" where
  "unfired ex = mset (concat (ex_replies ex)) + mset (ex_armed ex) + sum_list (map fireHolds (ex_fires ex))
     + mset (ex_releases ex)"

definition running :: "executor \<Rightarrow> task_row set" where
  "running ex = \<Union> (fireRuns ` set (ex_fires ex))"

text \<open>What is in \<open>claimedTaskById\<close> has a timer armed.\<close>

definition claimed_ok :: "executor \<Rightarrow> bool" where
  "claimed_ok ex \<longleftrightarrow> distinct (map fst (ex_claimed ex)) \<and>
     (\<forall>(k, t) \<in> set (ex_claimed ex). tr_id t = k \<and> t \<in> set (ex_armed ex))"

definition protocolOf :: "task_system \<Rightarrow> protocol" where
  "protocolOf s =
     \<lparr>pr_table = sy_table s, pr_unfired = sum_list (map unfired (sy_executors s)),
      pr_running = \<Union> (running ` set (sy_executors s)), pr_swept = set (sy_swept s), pr_runs = sy_runs s\<rparr>"

section \<open>Lists of holdings\<close>

lemma sum_list_update_mset:
  fixes f :: "'a \<Rightarrow> 'b multiset"
  shows "i < length xs \<Longrightarrow> sum_list (map f (xs[i := x])) + f (xs ! i) = sum_list (map f xs) + f x"
proof (induction xs arbitrary: i)
  case (Cons y ys)
  show ?case
  proof (cases i)
    case (Suc k)
    then have "sum_list (map f (ys[k := x])) + f (ys ! k) = sum_list (map f ys) + f x"
      using Cons by simp
    then show ?thesis using Suc by (simp add: add.assoc)
  qed (simp add: ac_simps)
qed simp

lemma sum_list_member: "i < length xs \<Longrightarrow> f (xs ! i) \<subseteq># sum_list (map f xs)"
  for f :: "'a \<Rightarrow> 'b multiset"
  by (induction xs arbitrary: i) (auto simp: nth_Cons split: nat.splits intro: subset_mset.add_increasing)

lemma mset_removeAt: "j < length xs \<Longrightarrow> mset (removeAt j xs) = mset xs - {#xs ! j#}"
  unfolding removeAt_def
  by (metis add_mset_remove_trivial id_take_nth_drop mset.simps(2) mset_append union_mset_add_mset_right)

lemma concat_removeAt:
  "j < length xss \<Longrightarrow> mset (concat xss) = mset (concat (removeAt j xss)) + mset (xss ! j)"
proof -
  assume "j < length xss"
  then have "concat xss = concat (take j xss @ xss ! j # drop (Suc j) xss)" by (simp add: id_take_nth_drop [symmetric])
  then show ?thesis by (simp add: removeAt_def)
qed

lemma running_update_subset:
  "i < length xs \<Longrightarrow> f x \<subseteq> f (xs ! i) \<union> A \<Longrightarrow> \<Union> (f ` set (xs[i := x])) \<subseteq> \<Union> (f ` set xs) \<union> A"
  using set_update_subset_insert [of xs i x] nth_mem [of i xs] by blast

lemma foldl_scheduleClaimed:
  "foldl (\<lambda>ex task. scheduleClaimed task ex) ex tasks =
     ex\<lparr>ex_claimed := foldl (\<lambda>m t. jm_set m (tr_id t) t) (ex_claimed ex) tasks, ex_armed := ex_armed ex @ tasks\<rparr>"
  by (induction tasks arbitrary: ex) (simp_all add: scheduleClaimed_def)

section \<open>An executor follows the protocol\<close>

definition holding :: "task_table \<Rightarrow> task_row multiset \<Rightarrow> task_row set \<Rightarrow> (nat \<times> nat) list \<Rightarrow> protocol" where
  "holding tbl unf run calls =
     \<lparr>pr_table = tbl, pr_unfired = unf, pr_running = run, pr_swept = {}, pr_runs = calls\<rparr>"

lemma holding_simps [simp]:
  "pr_table (holding tbl unf run calls) = tbl" "pr_unfired (holding tbl unf run calls) = unf"
  "pr_running (holding tbl unf run calls) = run" "pr_swept (holding tbl unf run calls) = {}"
  "pr_runs (holding tbl unf run calls) = calls"
  by (simp_all add: holding_def)

text \<open>A step that may also drop what is held.\<close>

lemma then_forget:
  assumes "protocol_step s (holding tbl unf run calls)" "unf' \<subseteq># unf" "run' \<subseteq> run"
  shows "protocol_step\<^sup>*\<^sup>* s (holding tbl unf' run' calls)"
proof -
  have "protocol_step (holding tbl unf run calls) (holding tbl unf' run' calls)"
    using pr_forget [of unf' "holding tbl unf run calls" run' "{}"] assms(2,3) by (simp add: holding_def)
  with assms(1) show ?thesis by (meson r_into_rtranclp rtranclp.rtrancl_into_rtrancl)
qed

lemma only_forget:
  "unf' \<subseteq># unf \<Longrightarrow> run' \<subseteq> run \<Longrightarrow>
     protocol_step\<^sup>*\<^sup>* (holding tbl unf run calls) (holding tbl unf' run' calls)"
  using pr_forget [of unf' "holding tbl unf run calls" run' "{}"] by (simp add: holding_def r_into_rtranclp)

text \<open>One fire.\<close>

lemma fire_follows:
  assumes "fire_step types host leaseMs task (phase, tbl) called (phase', tbl')"
  shows "protocol_step\<^sup>*\<^sup>*
     (holding tbl (fireHolds \<lparr>fi_task = task, fi_phase = phase\<rparr>) (fireRuns \<lparr>fi_task = task, fi_phase = phase\<rparr>) [])
     (holding tbl' (fireHolds \<lparr>fi_task = task, fi_phase = phase'\<rparr>) (fireRuns \<lparr>fi_task = task, fi_phase = phase'\<rparr>)
        (if called then [claimKey task] else []))"
  using assms
proof (cases rule: fire_step.cases)
  case fire_release
  then show ?thesis
    using pr_release [of task "holding tbl {#task#} {} []" host]
      only_forget [of "{#}" "{#task#}" "{}" "{}" tbl "[]"]
    by (auto simp: fireHolds_def fireRuns_def holding_def intro: r_into_rtranclp)
next
  case (fire_begin_won now won)
  then show ?thesis
    using pr_begin [of task "holding tbl {#task#} {} []" now host leaseMs tbl' won]
    by (auto simp: fireHolds_def fireRuns_def holding_def intro: r_into_rtranclp)
next
  case (fire_begin_lost now)
  then show ?thesis
    using pr_begin_unheard [of task "holding tbl {#task#} {} []" now host leaseMs]
    by (auto simp: fireHolds_def fireRuns_def holding_def intro: r_into_rtranclp)
next
  case (fire_begin_rejected now)
  then show ?thesis
    using pr_begin_unheard [of task "holding tbl {#task#} {} []" now host leaseMs]
      only_forget [of "{#}" "{#task#}" "{}" "{}" tbl "[]"]
    by (auto simp: fireHolds_def fireRuns_def holding_def intro: r_into_rtranclp)
next
  case (fire_mark now)
  then show ?thesis
    using pr_mark [of task "holding tbl {#} {task} []" now host] only_forget [of "{#}" "{#}" "{task}" "{task}" tbl "[]"]
    by (auto simp: fireHolds_def fireRuns_def holding_def intro: r_into_rtranclp)
next
  case (fire_mark_awaited now ended)
  then show ?thesis
    using pr_mark [of task "holding tbl {#} {task} []" now host] only_forget [of "{#}" "{#}" "{task}" "{task}" tbl "[]"]
    by (auto simp: fireHolds_def fireRuns_def holding_def intro: r_into_rtranclp)
next
  case (fire_outcome now ended mk n)
  then have "fst (writeOutcome now (claimOf host task) (outcomeWrite task ended mk) tbl) = tbl'" by simp
  then show ?thesis using fire_outcome
    then_forget [of "holding tbl {#} {task} []" tbl' "{#}" "{task}" "[]" "{#}" "{}"]
      pr_outcome [of task "holding tbl {#} {task} []" now host ended mk]
    by (auto simp: fireHolds_def fireRuns_def holding_def)
next
  case (fire_outcome_rejected now ended mk)
  then show ?thesis
    using then_forget [of "holding tbl {#} {task} []" tbl' "{#}" "{task}" "[]" "{#}" "{}"]
      pr_outcome [of task "holding tbl {#} {task} []" now host ended mk]
      only_forget [of "{#}" "{#}" "{}" "{task}" tbl "[]"]
    by (auto simp: fireHolds_def fireRuns_def holding_def)
qed (auto simp: fireHolds_def fireRuns_def)

section \<open>The frame of a step\<close>

definition framed :: "task_row multiset \<Rightarrow> task_row set \<Rightarrow> task_row set \<Rightarrow> (nat \<times> nat) list \<Rightarrow> protocol \<Rightarrow> protocol" where
  "framed unf run swp runs p =
     p\<lparr>pr_unfired := unf + pr_unfired p, pr_running := run \<union> pr_running p, pr_swept := swp \<union> pr_swept p,
       pr_runs := runs @ pr_runs p\<rparr>"

lemma framed_simps [simp]:
  "pr_table (framed unf run swp runs p) = pr_table p"
  "pr_unfired (framed unf run swp runs p) = unf + pr_unfired p"
  "pr_running (framed unf run swp runs p) = run \<union> pr_running p"
  "pr_swept (framed unf run swp runs p) = swp \<union> pr_swept p"
  "pr_runs (framed unf run swp runs p) = runs @ pr_runs p"
  by (simp_all add: framed_def)

lemma protocol_eqI:
  "pr_table p = pr_table q \<Longrightarrow> pr_unfired p = pr_unfired q \<Longrightarrow> pr_running p = pr_running q \<Longrightarrow>
   pr_swept p = pr_swept q \<Longrightarrow> pr_runs p = pr_runs q \<Longrightarrow> p = q" for p q :: protocol
  by simp

lemma step_to: "protocol_step s t \<Longrightarrow> t = u \<Longrightarrow> protocol_step s u"
  by simp

lemma protocol_step_frame:
  "protocol_step p q \<Longrightarrow> protocol_step (framed unf run swp runs p) (framed unf run swp runs q)"
proof (induction rule: protocol_step.induct)
  case (pr_background s tbl')
  show ?case
    by (rule step_to [OF protocol_step.pr_background [of "framed unf run swp runs s" tbl']])
      (use pr_background in \<open>auto intro: protocol_eqI\<close>)
next
  case (pr_forget unf' s run' swp')
  show ?case
    by (rule step_to [OF protocol_step.pr_forget
          [of "unf + unf'" "framed unf run swp runs s" "run \<union> run'" "swp \<union> swp'"]])
      (use pr_forget in \<open>auto intro: protocol_eqI\<close>)
next
  case (pr_claim now locked opts s tbl' tasks)
  show ?case
    by (rule step_to [OF protocol_step.pr_claim [of now locked opts "framed unf run swp runs s" tbl' tasks]])
      (use pr_claim in \<open>auto intro!: protocol_eqI simp: add.assoc\<close>)
next
  case (pr_begin t s now host leaseMs tbl' won)
  show ?case
    by (rule step_to [OF protocol_step.pr_begin [of t "framed unf run swp runs s" now host leaseMs tbl' won]])
      (use pr_begin in \<open>auto intro!: protocol_eqI\<close>)
next
  case (pr_begin_unheard t s now host leaseMs)
  show ?case
    by (rule step_to [OF protocol_step.pr_begin_unheard [of t "framed unf run swp runs s" now host leaseMs]])
      (use pr_begin_unheard in \<open>auto intro!: protocol_eqI\<close>)
next
  case (pr_release t s host)
  show ?case
    by (rule step_to [OF protocol_step.pr_release [of t "framed unf run swp runs s" host]])
      (use pr_release in \<open>auto intro!: protocol_eqI\<close>)
next
  case (pr_mark t s now host)
  show ?case
    by (rule step_to [OF protocol_step.pr_mark [of t "framed unf run swp runs s" now host]])
      (use pr_mark in \<open>auto intro!: protocol_eqI\<close>)
next
  case (pr_outcome t s now host ended mk)
  show ?case
    by (rule step_to [OF protocol_step.pr_outcome [of t "framed unf run swp runs s" now host ended mk]])
      (use pr_outcome in \<open>auto intro!: protocol_eqI\<close>)
next
  case (pr_sweep s now limit)
  show ?case
    by (rule step_to [OF protocol_step.pr_sweep [of "framed unf run swp runs s" now limit]])
      (auto intro!: protocol_eqI)
next
  case (pr_reap t s now)
  show ?case
    by (rule step_to [OF protocol_step.pr_reap [of t "framed unf run swp runs s" now]])
      (use pr_reap in \<open>auto intro!: protocol_eqI\<close>)
qed

lemma protocol_steps_frame:
  "protocol_step\<^sup>*\<^sup>* p q \<Longrightarrow> protocol_step\<^sup>*\<^sup>* (framed unf run swp runs p) (framed unf run swp runs q)"
  by (induction rule: rtranclp_induct) (auto intro: protocol_step_frame rtranclp.rtrancl_into_rtrancl)

section \<open>Steps of an executor\<close>

definition executorHolds :: "executor \<Rightarrow> task_table \<Rightarrow> (nat \<times> nat) list \<Rightarrow> protocol" where
  "executorHolds ex tbl calls = holding tbl (unfired ex) (running ex) calls"

lemma executor_forget:
  "unfired ex' \<subseteq># unfired ex \<Longrightarrow> running ex' \<subseteq> running ex \<Longrightarrow>
     protocol_step\<^sup>*\<^sup>* (executorHolds ex tbl []) (executorHolds ex' tbl [])"
  unfolding executorHolds_def by (rule only_forget)

lemma claimed_foldl:
  assumes "distinct (map fst m)" "\<forall>(k, t) \<in> set m. tr_id t = k \<and> t \<in> A"
  shows "distinct (map fst (foldl (\<lambda>m t. jm_set m (tr_id t) t) m tasks)) \<and>
    (\<forall>(k, t) \<in> set (foldl (\<lambda>m t. jm_set m (tr_id t) t) m tasks). tr_id t = k \<and> t \<in> A \<union> set tasks)"
  using assms
proof (induction tasks arbitrary: m A)
  case (Cons t tasks)
  have "\<forall>(k, u) \<in> set (jm_set m (tr_id t) t). tr_id u = k \<and> u \<in> insert t A"
    using Cons.prems by (auto simp: set_jm_set)
  from Cons.IH [OF distinct_jm_set [OF Cons.prems(1)] this] show ?case by auto
qed auto

text \<open>The releases of a stopping executor are among its armed tasks.\<close>

lemma claimed_subset:
  assumes "claimed_ok ex"
  shows "mset (map snd (ex_claimed ex)) \<subseteq># mset (ex_armed ex)"
proof -
  have "distinct (map tr_id (map snd (ex_claimed ex)))"
  proof -
    have "map tr_id (map snd (ex_claimed ex)) = map fst (ex_claimed ex)"
      using assms by (auto simp: claimed_ok_def)
    then show ?thesis using assms unfolding claimed_ok_def by metis
  qed
  then have d: "distinct (map snd (ex_claimed ex))" by (simp only: distinct_map)
  have s: "set (map snd (ex_claimed ex)) \<subseteq> set (ex_armed ex)" using assms by (force simp: claimed_ok_def)
  have "mset (map snd (ex_claimed ex)) = mset_set (set (map snd (ex_claimed ex)))"
    using d by (metis mset_set_set)
  also have "\<dots> \<subseteq># mset_set (set (ex_armed ex))" by (rule subset_imp_msubset_mset_set [OF s]) simp
  also have "\<dots> \<subseteq># mset (ex_armed ex)" by (metis mset_set_set_mset_msubset set_mset_mset)
  finally show ?thesis .
qed

lemma unfired_claimResolved:
  assumes j: "j < length (ex_replies ex)"
  shows "unfired (claimResolved aborted (ex_replies ex ! j) (ex\<lparr>ex_replies := removeAt j (ex_replies ex)\<rparr>)) = unfired ex"
    "running (claimResolved aborted (ex_replies ex ! j) (ex\<lparr>ex_replies := removeAt j (ex_replies ex)\<rparr>)) = running ex"
  using concat_removeAt [OF j]
  by (simp_all add: claimResolved_def handBackClaims_def foldl_scheduleClaimed unfired_def running_def ac_simps)

lemma unfired_timer:
  assumes "j < length (ex_armed ex)"
  shows "unfired (taskTimerFires j ex) = unfired ex" "running (taskTimerFires j ex) = running ex"
  using mset_removeAt [OF assms] nth_mem_mset [OF assms]
  by (simp_all add: taskTimerFires_def Let_def unfired_def running_def fireHolds_def fireRuns_def
      removeAt_def [symmetric])

lemma unfired_fires:
  assumes "j < length (ex_fires ex)"
  shows "unfired (ex\<lparr>ex_fires := (ex_fires ex)[j := f]\<rparr>) = (unfired ex - fireHolds (ex_fires ex ! j)) + fireHolds f"
    "fireHolds (ex_fires ex ! j) \<subseteq># unfired ex"
proof -
  show sub: "fireHolds (ex_fires ex ! j) \<subseteq># unfired ex"
    using sum_list_member [OF assms, of fireHolds] by (simp add: unfired_def subset_mset.add_increasing subset_mset.add_increasing2)
  have "unfired (ex\<lparr>ex_fires := (ex_fires ex)[j := f]\<rparr>) + fireHolds (ex_fires ex ! j) = unfired ex + fireHolds f"
    using sum_list_update_mset [OF assms, of fireHolds f] by (simp add: unfired_def ac_simps)
  then show "unfired (ex\<lparr>ex_fires := (ex_fires ex)[j := f]\<rparr>) = (unfired ex - fireHolds (ex_fires ex ! j)) + fireHolds f"
    using sub by (metis add_diff_cancel_right' subset_mset.add_diff_assoc2)
qed

lemma executor_follows:
  assumes "executor_step (ex, tbl) calls (ex', tbl')" "claimed_ok ex"
  shows "protocol_step\<^sup>*\<^sup>* (executorHolds ex tbl []) (executorHolds ex' tbl' calls)"
  using assms(1)
proof (cases rule: executor_step.cases)
  case (ex_claim now locked tasks)
  have "protocol_step (executorHolds ex tbl []) (executorHolds ex' tbl' calls)"
    by (rule step_to [OF pr_claim [of now locked "claimBatch ex" "executorHolds ex tbl []" tbl' tasks]])
      (use ex_claim in \<open>auto simp: executorHolds_def unfired_def running_def ac_simps intro!: protocol_eqI\<close>)
  then show ?thesis by (rule r_into_rtranclp)
next
  case (ex_claim_resolved j aborted)
  then show ?thesis using unfired_claimResolved by (auto intro!: executor_forget)
next
  case (ex_timer j)
  then show ?thesis using unfired_timer by (auto intro!: executor_forget)
next
  case (ex_fire j called phase')
  let ?f = "ex_fires ex ! j" and ?f' = "(ex_fires ex ! j)\<lparr>fi_phase := phase'\<rparr>"
  let ?rest = "unfired ex - fireHolds ?f"
  note un = unfired_fires(1) [OF ex_fire(3), of ?f'] unfired_fires(2) [OF ex_fire(3)]
  have f: "\<lparr>fi_task = fi_task ?f, fi_phase = fi_phase ?f\<rparr> = ?f" "\<lparr>fi_task = fi_task ?f, fi_phase = phase'\<rparr> = ?f'"
    by simp_all
  have one: "protocol_step\<^sup>*\<^sup>* (holding tbl (fireHolds ?f) (fireRuns ?f) []) (holding tbl' (fireHolds ?f') (fireRuns ?f') calls)"
    using fire_follows [OF ex_fire(4)] by (simp only: f ex_fire(1))
  have run: "fireRuns ?f \<subseteq> running ex" using nth_mem [OF ex_fire(3)] unfolding running_def by blast
  have s: "framed ?rest (running ex) {} [] (holding tbl (fireHolds ?f) (fireRuns ?f) []) = executorHolds ex tbl []"
    using un(2) run by (auto simp: executorHolds_def intro!: protocol_eqI)
  have "protocol_step\<^sup>*\<^sup>* (executorHolds ex tbl [])
      (framed ?rest (running ex) {} [] (holding tbl' (fireHolds ?f') (fireRuns ?f') calls))"
    using protocol_steps_frame [OF one, of ?rest "running ex" "{}" "[]"] by (simp only: s)
  also have "framed ?rest (running ex) {} [] (holding tbl' (fireHolds ?f') (fireRuns ?f') calls)
      = holding tbl' (unfired ex') (running ex \<union> fireRuns ?f') calls"
    using un(1) ex_fire(2) by (auto intro!: protocol_eqI)
  also have "protocol_step\<^sup>*\<^sup>* (holding tbl' (unfired ex') (running ex \<union> fireRuns ?f') calls) (executorHolds ex' tbl' calls)"
    unfolding executorHolds_def
    by (rule only_forget) (use ex_fire(2,3) set_update_subset_insert [of "ex_fires ex" j ?f'] in \<open>auto simp: running_def\<close>)
  finally show ?thesis .
next
  case (ex_release j)
  let ?t = "ex_releases ex ! j"
  have un: "unfired ex = add_mset ?t (unfired ex')" "running ex' = running ex"
    using ex_release(2,3) mset_removeAt [OF ex_release(3)] nth_mem_mset [OF ex_release(3)]
    by (simp_all add: unfired_def running_def)
  show ?thesis
  proof (cases "tbl' = tbl")
    case True
    then show ?thesis using un ex_release(1) by (auto intro: executor_forget)
  next
    case False
    have "protocol_step (executorHolds ex tbl []) (executorHolds ex' tbl' calls)"
      by (rule step_to [OF pr_release [of ?t "executorHolds ex tbl []" "ex_host ex"]])
        (use un ex_release False in \<open>auto simp: executorHolds_def intro!: protocol_eqI\<close>)
    then show ?thesis by (rule r_into_rtranclp)
  qed
next
  case (ex_register taskType types')
  then show ?thesis by (auto simp: unfired_def running_def intro!: executor_forget)
next
  case ex_stop
  have "unfired (stopExecutor ex) \<subseteq># unfired ex"
    using claimed_subset [OF assms(2)] by (simp add: stopExecutor_def unfired_def subset_mset.add_mono ac_simps)
  then show ?thesis using ex_stop by (auto simp: running_def stopExecutor_def intro!: executor_forget)
next
  case (ex_restart types')
  then show ?thesis by (auto simp: unfired_def running_def restartExecutor_def intro!: executor_forget)
qed

text \<open>The map of claims stays within the armed timers.\<close>

lemma executor_claimed_ok:
  assumes "executor_step (ex, tbl) calls (ex', tbl')" "claimed_ok ex"
  shows "claimed_ok ex'"
  using assms(1)
proof (cases rule: executor_step.cases)
  case (ex_claim_resolved j aborted)
  then show ?thesis
    using assms(2) claimed_foldl [of "ex_claimed ex" "set (ex_armed ex)" "ex_replies ex ! j"]
    by (auto simp: claimResolved_def handBackClaims_def foldl_scheduleClaimed claimed_ok_def)
next
  case (ex_timer j)
  have "t \<in> set (take j (ex_armed ex) @ drop (Suc j) (ex_armed ex))"
    if "t \<in> set (ex_armed ex)" "tr_id t \<noteq> tr_id (ex_armed ex ! j)" for t
    using that id_take_nth_drop [OF ex_timer(4)] by (metis Un_iff set_ConsD set_append)
  then show ?thesis using ex_timer assms(2)
    by (fastforce simp: taskTimerFires_def Let_def claimed_ok_def)
qed (use assms(2) in \<open>auto simp: claimed_ok_def stopExecutor_def restartExecutor_def\<close>)

section \<open>The system follows the protocol\<close>

definition executors_ok :: "task_system \<Rightarrow> bool" where
  "executors_ok s \<longleftrightarrow> list_all claimed_ok (sy_executors s)"

lemma system_executors_ok: "system_step s s' \<Longrightarrow> executors_ok s \<Longrightarrow> executors_ok s'"
proof (induction rule: system_step.induct)
  case (sy_executor i s calls ex' tbl')
  have "claimed_ok ex'"
    by (rule executor_claimed_ok [OF sy_executor(2)]) (use sy_executor in \<open>simp add: executors_ok_def list_all_length\<close>)
  then show ?case using sy_executor(3) by (auto simp: executors_ok_def list_all_iff dest!: set_mp [OF set_update_subset_insert])
qed (simp_all add: executors_ok_def)

lemma executor_in_system:
  assumes "i < length (sy_executors s)"
  defines "rest \<equiv> sum_list (map unfired (sy_executors s)) - unfired (sy_executors s ! i)"
  defines "run \<equiv> \<Union> (running ` set (sy_executors s))"
  shows "framed rest run (set (sy_swept s)) (sy_runs s) (executorHolds (sy_executors s ! i) (sy_table s) [])
      = protocolOf s"
    "sum_list (map unfired ((sy_executors s)[i := ex'])) = rest + unfired ex'"
proof -
  have sub: "unfired (sy_executors s ! i) \<subseteq># sum_list (map unfired (sy_executors s))"
    by (rule sum_list_member [OF assms(1)])
  have "running (sy_executors s ! i) \<subseteq> run" using nth_mem [OF assms(1)] unfolding run_def by blast
  then have run: "run \<union> running (sy_executors s ! i) = run" by (rule Un_absorb2)
  show "framed rest run (set (sy_swept s)) (sy_runs s) (executorHolds (sy_executors s ! i) (sy_table s) [])
      = protocolOf s"
    by (rule protocol_eqI) (use sub run in \<open>simp_all add: rest_def protocolOf_def executorHolds_def run_def [symmetric]\<close>)
  show "sum_list (map unfired ((sy_executors s)[i := ex'])) = rest + unfired ex'"
    using sum_list_update_mset [OF assms(1), of unfired ex'] sub
    by (metis rest_def add_diff_cancel_right' subset_mset.add_diff_assoc2)
qed

theorem system_follows:
  assumes "system_step s s'" "executors_ok s"
  shows "protocol_step\<^sup>*\<^sup>* (protocolOf s) (protocolOf s')"
  using assms
proof (induction rule: system_step.induct)
  case (sy_background s tbl')
  have "protocol_step (protocolOf s) (protocolOf (s\<lparr>sy_table := tbl'\<rparr>))"
    by (rule step_to [OF pr_background [of "protocolOf s" tbl']])
      (use sy_background in \<open>auto simp: protocolOf_def\<close>)
  then show ?case by (rule r_into_rtranclp)
next
  case (sy_executor i s calls ex' tbl')
  let ?rest = "sum_list (map unfired (sy_executors s)) - unfired (sy_executors s ! i)"
  let ?run = "\<Union> (running ` set (sy_executors s))"
  let ?s' = "s\<lparr>sy_table := tbl', sy_executors := (sy_executors s)[i := ex'], sy_runs := sy_runs s @ calls\<rparr>"
  note un = executor_in_system [OF sy_executor(1)]
  have "claimed_ok (sy_executors s ! i)" using sy_executor(1,3) by (simp add: executors_ok_def list_all_length)
  from protocol_steps_frame [OF executor_follows [OF sy_executor(2) this], of ?rest ?run "set (sy_swept s)" "sy_runs s"]
  have "protocol_step\<^sup>*\<^sup>* (protocolOf s)
      (framed ?rest ?run (set (sy_swept s)) (sy_runs s) (executorHolds ex' tbl' calls))"
    by (simp only: un(1))
  moreover have "protocol_step (framed ?rest ?run (set (sy_swept s)) (sy_runs s) (executorHolds ex' tbl' calls))
      (protocolOf ?s')"
  proof (rule step_to [OF pr_forget [of "pr_unfired (protocolOf ?s')" _ "pr_running (protocolOf ?s')" "set (sy_swept s)"]])
    show "pr_running (protocolOf ?s')
        \<subseteq> pr_running (framed ?rest ?run (set (sy_swept s)) (sy_runs s) (executorHolds ex' tbl' calls))"
      using set_update_subset_insert [of "sy_executors s" i ex'] by (auto simp: protocolOf_def executorHolds_def)
  qed (use un(2) [of ex'] in \<open>auto simp: protocolOf_def executorHolds_def intro!: protocol_eqI\<close>)
  ultimately show ?case by (rule rtranclp.rtrancl_into_rtrancl)
next
  case (sy_sweep s now limit)
  have "protocol_step (protocolOf s) (protocolOf (s\<lparr>sy_swept := sy_swept s @ findExpiredLeases now limit (sy_table s)\<rparr>))"
    by (rule step_to [OF pr_sweep [of "protocolOf s" now limit]]) (auto simp: protocolOf_def intro!: protocol_eqI)
  then show ?case by (rule r_into_rtranclp)
next
  case (sy_reap j s tbl' now)
  let ?s' = "s\<lparr>sy_table := tbl', sy_swept := removeAt j (sy_swept s)\<rparr>"
  let ?p = "(protocolOf s)\<lparr>pr_table := tbl'\<rparr>"
  have t: "sy_swept s ! j \<in> pr_swept (protocolOf s)" using sy_reap(1) by (simp add: protocolOf_def)
  have "protocol_step\<^sup>*\<^sup>* (protocolOf s) ?p"
  proof (cases "tbl' = sy_table s")
    case True
    then have "?p = protocolOf s" by (simp add: protocolOf_def)
    then show ?thesis by simp
  next
    case False
    then have "tbl' = fst (reapWrite now (sy_swept s ! j) (pr_table (protocolOf s)))"
      using sy_reap(2) by (simp add: protocolOf_def)
    then show ?thesis using pr_reap [OF t, of now] by (simp add: r_into_rtranclp)
  qed
  moreover have "protocol_step ?p (protocolOf ?s')"
    by (rule step_to [OF pr_forget [of "pr_unfired ?p" ?p "pr_running ?p" "set (removeAt j (sy_swept s))"]])
      (auto simp: protocolOf_def removeAt_def dest: in_set_takeD in_set_dropD intro!: protocol_eqI)
  ultimately show ?case by (rule rtranclp.rtrancl_into_rtrancl)
qed

lemma fresh_holds: "freshExecutor ex \<Longrightarrow> unfired ex = {#} \<and> running ex = {} \<and> claimed_ok ex"
proof -
  assume "freshExecutor ex"
  then have "restartExecutor ex = ex" by (simp add: freshExecutor_def)
  moreover have "unfired (restartExecutor ex) = {#} \<and> running (restartExecutor ex) = {} \<and> claimed_ok (restartExecutor ex)"
    by (simp add: unfired_def running_def claimed_ok_def restartExecutor_def)
  ultimately show ?thesis by simp
qed

lemma initial_follows: "initialSystem s \<Longrightarrow> protocolOf s = initialProtocol \<and> executors_ok s"
proof -
  assume s: "initialSystem s"
  have "sum_list (map unfired exs) = {#} \<and> \<Union> (running ` set exs) = {} \<and> list_all claimed_ok exs"
    if "list_all freshExecutor exs" for exs
    using that by (induction exs) (simp_all add: fresh_holds)
  then show ?thesis using s
    by (auto simp: initialSystem_def protocolOf_def initialProtocol_def executors_ok_def intro!: protocol_eqI)
qed

theorem reachable_follows:
  "system_step\<^sup>*\<^sup>* s s' \<Longrightarrow> initialSystem s \<Longrightarrow>
     protocol_step\<^sup>*\<^sup>* initialProtocol (protocolOf s') \<and> executors_ok s'"
proof (induction rule: rtranclp_induct)
  case (step s' s'')
  then show ?case using system_follows system_executors_ok by (meson rtranclp_trans)
qed (simp add: initial_follows)

lemma reachable_inv: "system_step\<^sup>*\<^sup>* s s' \<Longrightarrow> initialSystem s \<Longrightarrow> protocol_inv (protocolOf s')"
  using reachable_follows protocol_steps_inv initialProtocol_inv by blast

end
