(* ===== verification/UpkeepLaws.thy ===== *)
theory UpkeepLaws
  imports ClaimProtocol
begin

text \<open>
  What the two upkeep passes achieve. The retention pass is reasoned about over the contract of
  its store, which the repository is then shown to keep; the sweep is equated with a function on
  the rows.
\<close>

section \<open>Retention over its store's contract\<close>

locale retention_contract =
  fixes delete :: "'s retention_store" and ok :: "'s \<Rightarrow> bool" and rows :: "'s \<Rightarrow> task_row set"
    and aged :: "occurrence_status list \<Rightarrow> int \<Rightarrow> task_row \<Rightarrow> bool"
  assumes keeps_ok: "delete ss ms n st = (st', res) \<Longrightarrow> ok st \<Longrightarrow> ok st'"
    and only_aged: "delete ss ms n st = (st', res) \<Longrightarrow> ok st \<Longrightarrow>
      rows st' \<subseteq> rows st \<and> (\<forall>r \<in> rows st - rows st'. aged ss ms r)"
    and within_limit: "delete ss ms n st = (st', Inr k) \<Longrightarrow> ok st \<Longrightarrow> 0 \<le> n \<Longrightarrow>
      int k \<le> n \<and> card (rows st) = card (rows st') + k"
    and short_is_empty: "delete ss ms n st = (st', Inr k) \<Longrightarrow> ok st \<Longrightarrow> int k < n \<Longrightarrow>
      \<forall>r \<in> rows st'. \<not> aged ss ms r"
begin

definition aged_in :: "retention_window \<Rightarrow> task_row \<Rightarrow> bool" where
  "aged_in w = aged (rw_statuses w) (rw_olderThanSeconds w * 1000)"

lemma pruneWindow_removes:
  "pruneWindow delete aborted w batch left acc st = (st', res) \<Longrightarrow> ok st \<Longrightarrow>
     ok st' \<and> rows st' \<subseteq> rows st \<and> (\<forall>r \<in> rows st - rows st'. aged_in w r)"
proof (induction left arbitrary: acc st)
  case (Suc left)
  show ?case
  proof (cases "aborted st")
    case False
    obtain st1 r1 where d: "delete (rw_statuses w) (rw_olderThanSeconds w * 1000) batch st = (st1, r1)"
      by fastforce
    note o = only_aged [OF d Suc.prems(2)] and ok1 = keeps_ok [OF d Suc.prems(2)]
    have "ok st' \<and> rows st' \<subseteq> rows st1 \<and> (\<forall>r \<in> rows st1 - rows st'. aged_in w r)"
      using Suc.prems(1) Suc.IH ok1 o False d by (auto simp: Let_def split: sum.splits if_splits)
    then show ?thesis using o by (auto simp: aged_in_def)
  qed (use Suc.prems in simp)
qed simp

lemma pruneWindow_step:
  assumes "pruneWindow delete aborted w batch (Suc left) acc st = (st', Inr res)" "\<not> aborted st"
  obtains st1 k where "delete (rw_statuses w) (rw_olderThanSeconds w * 1000) batch st = (st1, Inr k)"
    "int k < batch \<Longrightarrow> st' = st1 \<and> wr_drained res \<and> wr_deleted res = wr_deleted acc + k \<and> wr_batches res = wr_batches acc + 1"
    "\<not> int k < batch \<Longrightarrow> pruneWindow delete aborted w batch left
       (acc\<lparr>wr_deleted := wr_deleted acc + k, wr_batches := wr_batches acc + 1\<rparr>) st1 = (st', Inr res)"
proof -
  obtain st1 r1 where d: "delete (rw_statuses w) (rw_olderThanSeconds w * 1000) batch st = (st1, r1)"
    by fastforce
  show thesis
  proof (cases r1)
    case (Inl e)
    then show ?thesis using assms d by simp
  next
    case (Inr k)
    show ?thesis by (rule that [of st1 k]) (use assms d Inr in \<open>auto simp: Let_def\<close>)
  qed
qed

lemma pruneWindow_result:
  assumes "pruneWindow delete aborted w batch left acc st = (st', Inr res)" "0 < batch" "ok st"
    "\<not> wr_drained acc"
  shows "wr_batches acc \<le> wr_batches res \<and> wr_batches res \<le> wr_batches acc + left \<and>
    int (wr_deleted res) \<le> int (wr_deleted acc) + batch * (int (wr_batches res) - int (wr_batches acc)) \<and>
    card (rows st) + wr_deleted acc = card (rows st') + wr_deleted res \<and>
    (wr_drained res \<longrightarrow> (\<forall>r \<in> rows st'. \<not> aged_in w r))"
  using assms
proof (induction left arbitrary: acc st)
  case (Suc left)
  show ?case
  proof (cases "aborted st")
    case True
    then show ?thesis using Suc.prems by simp
  next
    case False
    obtain st1 k where d: "delete (rw_statuses w) (rw_olderThanSeconds w * 1000) batch st = (st1, Inr k)"
      and short: "int k < batch \<Longrightarrow> st' = st1 \<and> wr_drained res \<and> wr_deleted res = wr_deleted acc + k \<and> wr_batches res = wr_batches acc + 1"
      and more: "\<not> int k < batch \<Longrightarrow> pruneWindow delete aborted w batch left
       (acc\<lparr>wr_deleted := wr_deleted acc + k, wr_batches := wr_batches acc + 1\<rparr>) st1 = (st', Inr res)"
      using pruneWindow_step [OF Suc.prems(1) False] by metis
    have f: "ok st1" by (rule keeps_ok [OF d Suc.prems(3)])
    have le: "int k \<le> batch" and c: "card (rows st) = card (rows st1) + k"
      using within_limit [OF d Suc.prems(3)] Suc.prems(2) by simp_all
    show ?thesis
    proof (cases "int k < batch")
      case True
      then show ?thesis using short [OF True] short_is_empty [OF d Suc.prems(3) True] le c by (simp add: aged_in_def)
    next
      case False
      have "\<not> wr_drained (acc\<lparr>wr_deleted := wr_deleted acc + k, wr_batches := wr_batches acc + 1\<rparr>)"
        using Suc.prems(4) by simp
      note ih = Suc.IH [OF more [OF False] Suc.prems(2) f this]
      have "batch * (int (wr_batches res) - int (wr_batches acc)) =
          batch + batch * (int (wr_batches res) - int (wr_batches acc + 1))"
        by (simp add: algebra_simps)
      then show ?thesis using ih le c by simp
    qed
  qed
qed simp

definition windows_aged :: "retention_window list \<Rightarrow> task_row \<Rightarrow> bool" where
  "windows_aged ws r \<longleftrightarrow> (\<exists>w \<in> set ws. aged_in w r)"

lemma pruneWindows_removes:
  "pruneWindows delete aborted batch ws ps st = (st', res) \<Longrightarrow> ok st \<Longrightarrow>
     ok st' \<and> rows st' \<subseteq> rows st \<and> (\<forall>r \<in> rows st - rows st'. windows_aged ws r)"
proof (induction ws arbitrary: ps st)
  case (Cons w ws)
  obtain st1 r1 where p: "pruneWindow delete aborted w batch (windowBudget (ps_budget ps) (length ws))
             \<lparr>wr_deleted = 0, wr_batches = 0, wr_drained = False\<rparr> st = (st1, r1)" by fastforce
  note o = pruneWindow_removes [OF p Cons.prems(2)]
  show ?case
  proof (cases r1)
    case (Inl e)
    then show ?thesis using Cons.prems p o by (auto simp: windows_aged_def)
  next
    case (Inr pruned)
    then have "ok st' \<and> rows st' \<subseteq> rows st1 \<and> (\<forall>r \<in> rows st1 - rows st'. windows_aged ws r)"
      using Cons.prems(1) p o Cons.IH by auto
    then show ?thesis using o by (auto simp: windows_aged_def)
  qed
qed simp

lemma pruneWindows_result:
  assumes "pruneWindows delete aborted batch ws ps st = (st', Inr res)" "0 < batch" "ok st"
  shows "(ps_drained res \<longrightarrow> ps_drained ps \<and> (\<forall>r \<in> rows st'. \<not> windows_aged ws r)) \<and>
    card (rows st) + ps_deleted ps = card (rows st') + ps_deleted res \<and>
    int (ps_deleted res) \<le> int (ps_deleted ps) + batch * (ps_budget ps - ps_budget res) \<and>
    ps_budget res \<le> ps_budget ps \<and> (0 \<le> ps_budget ps \<longrightarrow> 0 \<le> ps_budget res)"
  using assms
proof (induction ws arbitrary: ps st)
  case (Cons w ws)
  obtain st1 pruned where p: "pruneWindow delete aborted w batch (windowBudget (ps_budget ps) (length ws))
             \<lparr>wr_deleted = 0, wr_batches = 0, wr_drained = False\<rparr> st = (st1, Inr pruned)"
    and rest: "pruneWindows delete aborted batch ws
            \<lparr>ps_deleted = ps_deleted ps + wr_deleted pruned, ps_budget = ps_budget ps - int (wr_batches pruned),
             ps_drained = (ps_drained ps \<and> wr_drained pruned)\<rparr> st1 = (st', Inr res)"
    using Cons.prems(1) by (auto split: prod.splits sum.splits)
  note one = pruneWindow_result [OF p Cons.prems(2,3)]
  have f: "ok st1" using pruneWindow_removes [OF p Cons.prems(3)] by blast
  note ih = Cons.IH [OF rest Cons.prems(2) f]
  have sub: "rows st' \<subseteq> rows st1" using pruneWindows_removes [OF rest f] by blast
  have b: "int (wr_batches pruned) \<le> max 0 (ps_budget ps)"
    using one by (auto simp: windowBudget_def split: if_splits)
  have "batch * (ps_budget ps - ps_budget res) =
      batch * int (wr_batches pruned) + batch * (ps_budget ps - int (wr_batches pruned) - ps_budget res)"
    by (simp add: algebra_simps)
  then show ?case using one ih b sub by (auto simp: windows_aged_def)
qed (simp add: windows_aged_def)

text \<open>A pass deletes only what a window lets go, within its budget; a drained pass leaves nothing behind.\<close>

lemma prune_removes:
  "prune delete aborted opts st = (st', res) \<Longrightarrow> ok st \<Longrightarrow>
     ok st' \<and> rows st' \<subseteq> rows st \<and> (\<forall>r \<in> rows st - rows st'. windows_aged (retentionWindows opts) r)"
proof -
  assume p: "prune delete aborted opts st = (st', res)" and ok: "ok st"
  obtain st1 r1 where w: "pruneWindows delete aborted (ro_batchSize opts) (retentionWindows opts)
      \<lparr>ps_deleted = 0, ps_budget = ro_maxBatchesPerPass opts, ps_drained = True\<rparr> st = (st1, r1)" by fastforce
  have "st' = (if ro_batchSize opts \<le> 0 then st else st1)"
    using p w by (auto simp: prune_def split: sum.splits)
  then show ?thesis using pruneWindows_removes [OF w ok] ok by auto
qed

lemma prune_result:
  assumes "prune delete aborted opts st = (st', Inr res)" "ok st" "0 \<le> ro_maxBatchesPerPass opts"
  shows "card (rows st) = card (rows st') + sm_deleted res"
    "int (sm_deleted res) \<le> ro_batchSize opts * ro_maxBatchesPerPass opts"
    "sm_drained res \<Longrightarrow> \<forall>r \<in> rows st'. \<not> windows_aged (retentionWindows opts) r"
proof -
  have pos: "0 < ro_batchSize opts" using assms(1) by (auto simp: prune_def split: if_splits)
  then obtain ps where ps: "pruneWindows delete aborted (ro_batchSize opts) (retentionWindows opts)
      \<lparr>ps_deleted = 0, ps_budget = ro_maxBatchesPerPass opts, ps_drained = True\<rparr> st = (st', Inr ps)"
    "res = \<lparr>sm_deleted = ps_deleted ps, sm_drained = ps_drained ps\<rparr>"
    using assms(1) by (auto simp: prune_def split: prod.splits sum.splits)
  note r = pruneWindows_result [OF ps(1) pos assms(2)]
  show "card (rows st) = card (rows st') + sm_deleted res" using r ps(2) by simp
  show "sm_drained res \<Longrightarrow> \<forall>r \<in> rows st'. \<not> windows_aged (retentionWindows opts) r" using r ps(2) by simp
  have "ro_batchSize opts * (ro_maxBatchesPerPass opts - ps_budget ps) \<le> ro_batchSize opts * ro_maxBatchesPerPass opts"
    using pos r assms(3) by (simp add: mult_left_mono)
  then show "int (sm_deleted res) \<le> ro_batchSize opts * ro_maxBatchesPerPass opts" using r ps(2) by simp
qed

end

section \<open>The repository keeps the contract\<close>

lemma card_rows: "table_ok tbl \<Longrightarrow> card (set (tt_rows tbl)) = length (tt_rows tbl)"
  by (metis distinct_card distinct_map rowIds_def table_ok_def)

lemma chosen_mem:
  assumes "table_ok tbl" "sub \<subseteq> set (tt_rows tbl)" "r \<in> set (tt_rows tbl)"
  shows "tr_id r \<in> tr_id ` sub \<longleftrightarrow> r \<in> sub"
proof
  assume "tr_id r \<in> tr_id ` sub"
  then obtain r' where r': "r' \<in> sub" "tr_id r' = tr_id r" by force
  then have "r' = r" using row_unique [OF assms(1), of r' "tr_id r" r] assms(2,3) by (auto simp: rowsOf_def)
  with r'(1) show "r \<in> sub" by simp
qed simp

lemma chosen_card:
  assumes "table_ok tbl" "sub \<subseteq> set (tt_rows tbl)"
  shows "length (filter (\<lambda>r. tr_id r \<in> tr_id ` sub) (tt_rows tbl)) = card sub"
proof -
  have "filter (\<lambda>r. tr_id r \<in> tr_id ` sub) (tt_rows tbl) = filter (\<lambda>r. r \<in> sub) (tt_rows tbl)"
    by (rule filter_cong [OF refl]) (simp add: chosen_mem [OF assms])
  moreover have "distinct (filter (\<lambda>r. r \<in> sub) (tt_rows tbl))"
    using assms(1) by (simp add: table_ok_def rowIds_def distinct_map)
  then have "length (filter (\<lambda>r. r \<in> sub) (tt_rows tbl)) = card (set (filter (\<lambda>r. r \<in> sub) (tt_rows tbl)))"
    by (rule distinct_card [symmetric])
  moreover have "set (filter (\<lambda>r. r \<in> sub) (tt_rows tbl)) = sub" using assms(2) by auto
  ultimately show ?thesis by simp
qed

text \<open>One delete statement: which rows go, and how many.\<close>

lemma delete_statement:
  assumes ok: "table_ok tbl"
    and d: "deleteFinishedOlderThan now locked ss ms n tbl = Inr (tbl', k)"
  shows "set (tt_rows tbl') \<subseteq> set (tt_rows tbl)"
    "\<forall>r \<in> set (tt_rows tbl) - set (tt_rows tbl'). prunable now ss ms r"
    "0 \<le> n \<Longrightarrow> int k \<le> n"
    "card (set (tt_rows tbl)) = card (set (tt_rows tbl')) + k"
    "locked = {} \<Longrightarrow> int k < n \<Longrightarrow> \<forall>r \<in> set (tt_rows tbl'). \<not> prunable now ss ms r"
proof -
  let ?p = "\<lambda>r. prunable now ss ms r \<and> tr_id r \<notin> locked"
  let ?cand = "sort_key (\<lambda>r. the (tr_finishedAt r)) (filter ?p (tt_rows tbl))"
  let ?sub = "set (take (nat n) ?cand)"
  have distinct: "distinct (tt_rows tbl)" using ok by (simp add: table_ok_def rowIds_def distinct_map)
  have "set (tt_rows tbl') \<subseteq> set (tt_rows tbl)
      \<and> (\<forall>r \<in> set (tt_rows tbl) - set (tt_rows tbl'). prunable now ss ms r)
      \<and> (0 \<le> n \<longrightarrow> int k \<le> n) \<and> card (set (tt_rows tbl)) = card (set (tt_rows tbl')) + k
      \<and> (locked = {} \<longrightarrow> int k < n \<longrightarrow> (\<forall>r \<in> set (tt_rows tbl'). \<not> prunable now ss ms r))"
  proof (cases "ss = [] \<or> n \<le> 0")
    case True
    then show ?thesis using d by (auto simp: deleteFinishedOlderThan_def Let_def prunable_def split: if_splits)
  next
    case False
    have sub: "?sub \<subseteq> set (tt_rows tbl)" by (auto dest: in_set_takeD)
    have del: "(tbl', k) = deleteWhere (\<lambda>r. tr_id r \<in> tr_id ` ?sub) tbl"
      using d False by (simp add: deleteFinishedOlderThan_def Let_def rowIds_def split: if_splits)
    have rows: "tt_rows tbl' = filter (\<lambda>r. r \<notin> ?sub) (tt_rows tbl)"
      using del chosen_mem [OF ok sub] by (auto simp: deleteWhere_def intro!: filter_cong)
    have k: "k = card ?sub" using chosen_card [OF ok sub] del by (auto simp: deleteWhere_def)
    have len: "card ?sub = min (length ?cand) (nat n)"
      using distinct by (simp add: distinct_card distinct_take)
    have rs: "set (tt_rows tbl') = set (tt_rows tbl) - ?sub" using rows by auto
    have c1: "card (set (tt_rows tbl) - ?sub) = card (set (tt_rows tbl)) - card ?sub"
      by (rule card_Diff_subset) (use sub in auto)
    have c2: "card ?sub \<le> card (set (tt_rows tbl))" by (rule card_mono) (use sub in auto)
    have gone: "\<forall>r \<in> ?sub. prunable now ss ms r" by (auto dest: in_set_takeD)
    have left: "\<forall>r \<in> set (tt_rows tbl) - ?sub. \<not> prunable now ss ms r" if "locked = {}" "int k < n"
    proof -
      have "take (nat n) ?cand = ?cand" using that k len by simp
      then have "?sub = set ?cand" by simp
      then show ?thesis using that(1) by auto
    qed
    have "card (set (tt_rows tbl)) = card (set (tt_rows tbl) - ?sub) + k" unfolding c1 k using c2 by simp
    moreover have "k \<le> nat n" using k len by simp
    then have "int k \<le> n" using False by linarith
    ultimately show ?thesis unfolding rs using gone left by blast
  qed
  then show "set (tt_rows tbl') \<subseteq> set (tt_rows tbl)"
    "\<forall>r \<in> set (tt_rows tbl) - set (tt_rows tbl'). prunable now ss ms r"
    "0 \<le> n \<Longrightarrow> int k \<le> n" "card (set (tt_rows tbl)) = card (set (tt_rows tbl')) + k"
    "locked = {} \<Longrightarrow> int k < n \<Longrightarrow> \<forall>r \<in> set (tt_rows tbl'). \<not> prunable now ss ms r"
    by blast+
qed

interpretation pruner: retention_contract "retentionStore now {}" table_ok "\<lambda>tbl. set (tt_rows tbl)" "prunable now"
  for now
proof unfold_locales
  fix ss ms n st st' k and res :: "string + nat"
  have split: "st' = st \<and> (\<exists>e. res = Inl e) \<or> (\<exists>k. res = Inr k \<and> deleteFinishedOlderThan now {} ss ms n st = Inr (st', k))"
    if "retentionStore now {} ss ms n st = (st', res)" for st' and res :: "string + nat"
    using that by (auto simp: retentionStore_def split: sum.splits)
  {
    assume d: "retentionStore now {} ss ms n st = (st', res)" and ok: "table_ok st"
    show "table_ok st'" using split [OF d] ok background_ok bg_prune by blast
    show "set (tt_rows st') \<subseteq> set (tt_rows st) \<and> (\<forall>r \<in> set (tt_rows st) - set (tt_rows st'). prunable now ss ms r)"
      using split [OF d] delete_statement(1,2) [OF ok] by blast
  next
    assume d: "retentionStore now {} ss ms n st = (st', Inr k)" and ok: "table_ok st" and n: "0 \<le> n"
    then have "deleteFinishedOlderThan now {} ss ms n st = Inr (st', k)" using split [OF d] by simp
    then show "int k \<le> n \<and> card (set (tt_rows st)) = card (set (tt_rows st')) + k"
      using delete_statement(3,4) [OF ok] n by blast
  next
    assume d: "retentionStore now {} ss ms n st = (st', Inr k)" and ok: "table_ok st" and n: "int k < n"
    then have "deleteFinishedOlderThan now {} ss ms n st = Inr (st', k)" using split [OF d] by simp
    then show "\<forall>r \<in> set (tt_rows st'). \<not> prunable now ss ms r" using delete_statement(5) [OF ok] n by blast
  }
qed

section \<open>The sweep as a function on rows\<close>

text \<open>What becomes of a row whose lease has lapsed.\<close>

definition recover :: "instant \<Rightarrow> task_row \<Rightarrow> task_row" where
  "recover now r =
     (case reapDecision r of
        CompleteRow \<Rightarrow> r\<lparr>tr_status := OccSucceeded, tr_finishedAt := Some now, tr_errorMessage := None\<rparr>
      | DeadLetterRow \<Rightarrow> r\<lparr>tr_status := OccFailed, tr_finishedAt := Some now, tr_attempts := tr_attempts r + 1,
            tr_errorMessage := Some leaseExpiredMessage\<rparr>
      | ReclaimRow ms \<Rightarrow> r\<lparr>tr_status := OccPending, tr_runAt := now + ms, tr_attempts := tr_attempts r + 1,
            tr_leaseEpoch := tr_leaseEpoch r + 1, tr_claimedBy := None, tr_leaseExpiresAt := None,
            tr_errorMessage := Some leaseExpiredMessage, tr_startedAt := None, tr_dispatchedAt := None\<rparr>)"

lemma recover_id [simp]: "tr_id (recover now r) = tr_id r"
  by (simp add: recover_def split: reap_decision.split)

lemma reapRow_table:
  "fst (reapRow (reaperStore now locked) t (tbl, res)) = fst (reapWrite now t tbl)"
  by (simp add: reapRow_def reapWrite_def reaperStore_def answeredOk_def Let_def split: reap_decision.split)

lemma reapWrite_row:
  assumes ok: "table_ok tbl" and t: "t \<in> set (tt_rows tbl)" "lapsed now t"
  shows "tt_rows (fst (reapWrite now t tbl)) = map (\<lambda>r. if tr_id r = tr_id t then recover now r else r) (tt_rows tbl)"
proof -
  have same: "r = t" if "r \<in> set (tt_rows tbl)" "tr_id r = tr_id t" for r
    using row_unique [OF ok, of r "tr_id t" t] that t(1) by (auto simp: rowsOf_def)
  have hit: "reapable now (tr_id t) (tr_leaseEpoch t) fence r \<longleftrightarrow> tr_id r = tr_id t"
    if "r \<in> set (tt_rows tbl)" "fence = (if tr_dispatchedAt t = None then PreDispatch else PostDispatch)" for r fence
    using that same [of r] t(2) by (auto simp: reapable_def)
  show ?thesis
    unfolding reapWrite_def completeExpired_def deadLetterExpired_def reclaimExpired_def runReaperUpdate_def
    by (auto simp: reapDecision_def recover_def Let_def hit dest: same intro!: map_cong)
qed

text \<open>The rows of a sweep are recovered one after the other; none is met twice.\<close>

lemma reapRows_rows:
  assumes "table_ok tbl" "distinct (map tr_id ts)" "set ts \<subseteq> set (tt_rows tbl)" "\<forall>t \<in> set ts. lapsed now t"
  shows "tt_rows (fst (reapRows (reaperStore now locked) (\<lambda>_. False) ts (tbl, res)))
    = map (\<lambda>r. if tr_id r \<in> tr_id ` set ts then recover now r else r) (tt_rows tbl)"
  using assms
proof (induction ts arbitrary: tbl res)
  case (Cons t ts)
  obtain tbl2 res2 where sr: "reapRow (reaperStore now locked) t (tbl, res) = (tbl2, res2)" by fastforce
  then have t2: "tbl2 = fst (reapWrite now t tbl)" using reapRow_table [of now locked t tbl res] by simp
  have rows: "tt_rows tbl2 = map (\<lambda>r. if tr_id r = tr_id t then recover now r else r) (tt_rows tbl)"
    unfolding t2 using Cons.prems by (intro reapWrite_row) auto
  have "table_ok tbl2"
    unfolding t2 by (rule statement_ok [OF reapWrite_statement Cons.prems(1)])
  moreover have "set ts \<subseteq> set (tt_rows tbl2)"
    using Cons.prems(2,3) rows by (force simp: image_iff)
  ultimately have "tt_rows (fst (reapRows (reaperStore now locked) (\<lambda>_. False) ts (tbl2, res2)))
      = map (\<lambda>r. if tr_id r \<in> tr_id ` set ts then recover now r else r) (tt_rows tbl2)"
    by (intro Cons.IH) (use Cons.prems in auto)
  moreover have "tr_id t \<notin> tr_id ` set ts" using Cons.prems(2) by auto
  ultimately show ?case by (auto simp: sr rows)
qed simp

definition sweptIds :: "instant \<Rightarrow> nat \<Rightarrow> task_table \<Rightarrow> nat set" where
  "sweptIds now batch tbl = tr_id ` set (findExpiredLeases now batch tbl)"

lemma reap_rows:
  fixes now :: int and batch :: nat and locked :: "nat set" and tbl :: task_table
  assumes ok: "table_ok tbl"
  defines "tbl1 \<equiv> fst (retireMissedPending now locked (int batch) tbl)"
  shows "tt_rows (fst (reap (reaperStore now locked) (\<lambda>_. False) batch tbl))
    = map (\<lambda>r. if tr_id r \<in> sweptIds now batch tbl1 then recover now r else r) (tt_rows tbl1)"
proof -
  have ok1: "table_ok tbl1"
    unfolding tbl1_def by (rule background_ok [OF bg_retire ok])
  obtain m where m: "retireStale (reaperStore now locked) (\<lambda>_. False) batch tbl = (tbl1, m)"
    by (cases "retireMissedPending now locked (int batch) tbl")
      (simp add: retireStale_def reaperStore_def answeredOk_def tbl1_def)
  let ?ts = "findExpiredLeases now batch tbl1"
  have d: "distinct (map tr_id ?ts)"
  proof -
    have "distinct (map tr_id (filter (lapsed now) (tt_rows tbl1)))"
      using ok1 by (simp add: table_ok_def rowIds_def distinct_map_filter)
    then have "distinct (map tr_id (sort_key (\<lambda>r. the (tr_leaseExpiresAt r)) (filter (lapsed now) (tt_rows tbl1))))"
      by (simp add: distinct_map)
    then show ?thesis by (simp add: findExpiredLeases_def take_map [symmetric] distinct_take)
  qed
  have l: "set ?ts \<subseteq> set (tt_rows tbl1)" "\<forall>t \<in> set ?ts. lapsed now t"
    by (auto simp: findExpiredLeases_def dest: in_set_takeD)
  note rows = reapRows_rows [OF ok1 d l]
  obtain tbl2 res2 where r: "reapRows (reaperStore now locked) (\<lambda>_. False) ?ts
      (tbl1, \<lparr>rr_reclaimed = 0, rr_deadLettered = 0, rr_missed = m\<rparr>) = (tbl2, res2)" by fastforce
  have "rs_findExpiredLeases (reaperStore now locked) batch tbl1 = (tbl1, Inr ?ts)"
    by (simp add: reaperStore_def)
  then have "fst (reap (reaperStore now locked) (\<lambda>_. False) batch tbl) = tbl2"
    by (simp add: reap_def m r)
  then show ?thesis
    using rows [where locked = locked and res = "\<lparr>rr_reclaimed = 0, rr_deadLettered = 0, rr_missed = m\<rparr>"] r by (simp add: sweptIds_def)
qed

text \<open>A batch that is large enough leaves no lapsed lease.\<close>

lemma recover_not_lapsed [simp]: "\<not> lapsed now (recover now r)"
  by (simp add: lapsed_def recover_def split: reap_decision.split)

lemma all_swept:
  assumes "length (filter (lapsed now) (tt_rows tbl)) \<le> batch" "r \<in> set (tt_rows tbl)" "lapsed now r"
  shows "tr_id r \<in> sweptIds now batch tbl"
  using assms by (auto simp: sweptIds_def findExpiredLeases_def)

end
