(* ===== verification/SchedulerPlanning.thy ===== *)
theory SchedulerPlanning
  imports OccurrencePlan
begin

text \<open>
  What a plan promises: it consumes consecutive fires of the rule, discards nothing but a
  backlog, keeps one late run at most; and how the late runs of one owner are reduced to one.
\<close>

section \<open>One pass over one job\<close>

text \<open>The fires a pass consumes, whether it records them or not.\<close>

definition consumed ::
  "cron_lib \<Rightarrow> scheduled_job \<Rightarrow> instant \<Rightarrow> materializer_options \<Rightarrow> sched_failure + instant list \<times> instant option" where
  "consumed lib job now opts =
     rbind (resolveSchedule job (mo_defaultTimezone opts)) (\<lambda>s.
       case sj_nextRunAt job of
         None \<Rightarrow> Inr ([], None)
       | Some first \<Rightarrow> rbind (startWalk lib s) (\<lambda>_.
           collectDue lib s (now + mo_windowSeconds opts * 1000) (mo_maxPerJob opts) (Some first)))"

text \<open>What the policy keeps of the due fires.\<close>

definition past :: "instant \<Rightarrow> instant list \<Rightarrow> instant list" where
  "past now due = filter (\<lambda>t. t \<le> now) due"

definition future :: "instant \<Rightarrow> instant list \<Rightarrow> instant list" where
  "future now due = filter (\<lambda>t. now < t) due"

definition overdue :: "scheduled_job \<Rightarrow> instant \<Rightarrow> instant list \<Rightarrow> bool" where
  "overdue job now due \<longleftrightarrow> (\<exists>t \<in> set due. t \<le> now \<and> t + sj_misfireGraceSeconds job * 1000 \<le> now)"

lemma past_future: "sorted_wrt (<) due \<Longrightarrow> due = past now due @ future now due"
  using sorted_filter_take [of due now] by (metis append_take_drop_id past_def future_def)

lemma hd_le_sorted: "sorted_wrt (<) xs \<Longrightarrow> x \<in> set xs \<Longrightarrow> hd xs \<le> (x::int)"
  by (cases xs) auto

lemma policy_simps:
  assumes "sorted_wrt (<) due"
  shows "\<not> overdue job now due \<Longrightarrow> applyMisfirePolicy due now job tr = Inr (due, None)"
    and "overdue job now due \<Longrightarrow> applyMisfirePolicy due now job tr =
      (case sj_misfirePolicy job of
         SkipMissed \<Rightarrow> Inr (future now due, None)
       | OtherPolicy _ \<Rightarrow> Inl CorruptStorageRow
       | _ \<Rightarrow> if tr \<and> future now due = [] then Inr ([], None)
              else Inr (last (past now due) # future now due, Some (last (past now due))))"
proof -
  have ahead: "drop (length (filter (\<lambda>t. t \<le> now) due)) due = future now due"
    using sorted_filter_take [OF assms, of now] by (simp add: future_def)
  have od: "overdue job now due \<longleftrightarrow>
      \<not> (past now due = [] \<or> hd (past now due) > now - sj_misfireGraceSeconds job * 1000)"
  proof (cases "past now due = []")
    case True
    then show ?thesis by (auto simp: overdue_def past_def filter_empty_conv)
  next
    case False
    have "sorted_wrt (<) (past now due)" using assms by (simp add: past_def sorted_wrt_filter)
    then have "\<forall>t \<in> set (past now due). hd (past now due) \<le> t" using hd_le_sorted by blast
    moreover have "hd (past now due) \<in> set (past now due)" using False by simp
    moreover have "set (past now due) = {t \<in> set due. t \<le> now}" by (auto simp: past_def)
    ultimately show ?thesis using False unfolding overdue_def by (smt (verit) mem_Collect_eq)
  qed
  show "\<not> overdue job now due \<Longrightarrow> applyMisfirePolicy due now job tr = Inr (due, None)"
    using od by (auto simp: applyMisfirePolicy_def Let_def past_def)
  show "overdue job now due \<Longrightarrow> applyMisfirePolicy due now job tr =
      (case sj_misfirePolicy job of
         SkipMissed \<Rightarrow> Inr (future now due, None)
       | OtherPolicy _ \<Rightarrow> Inl CorruptStorageRow
       | _ \<Rightarrow> if tr \<and> future now due = [] then Inr ([], None)
              else Inr (last (past now due) # future now due, Some (last (past now due))))"
    using od ahead
    by (auto simp: applyMisfirePolicy_def Let_def past_def split: misfire_policy.split)
qed

lemma planOccurrences_consumed:
  assumes "planOccurrences lib job now opts = Inr p" "sj_nextRunAt job = Some first" "fires_ahead lib"
  obtains s due where
    "resolveSchedule job (mo_defaultTimezone opts) = Inr s" "startWalk lib s = Inr ()"
    "consumed lib job now opts = Inr (due, pl_nextRunAt p)"
    "walk lib s (Some first) due (pl_nextRunAt p)" "sorted_wrt (<) due"
    "\<forall>t \<in> set due. t \<le> now + mo_windowSeconds opts * 1000" "length due \<le> mo_maxPerJob opts"
    "length due < mo_maxPerJob opts \<Longrightarrow>
       pl_nextRunAt p = None \<or> now + mo_windowSeconds opts * 1000 < the (pl_nextRunAt p)"
    "applyMisfirePolicy due now job
       (case pl_nextRunAt p of None \<Rightarrow> False | Some t \<Rightarrow> t \<le> now + mo_windowSeconds opts * 1000)
       = Inr (pl_occurrences p, pl_catchUpAt p)"
    "pl_retireBefore p = pl_catchUpAt p" "pl_skipped p = length due - length (pl_occurrences p)"
    "pl_lastFiredAt p = (if due = [] then sj_lastFiredAt job else Some (last due))"
proof -
  let ?w = "now + mo_windowSeconds opts * 1000"
  obtain s where s: "resolveSchedule job (mo_defaultTimezone opts) = Inr s"
    using assms(1) by (auto simp: planOccurrences_def rbind_Inr_iff)
  obtain u where u: "startWalk lib s = Inr u"
    using assms(1,2) s by (auto simp: planOccurrences_def Let_def rbind_Inr_iff)
  obtain due fire where d: "collectDue lib s ?w (mo_maxPerJob opts) (Some first) = Inr (due, fire)"
    using assms(1,2) s u by (auto simp: planOccurrences_def Let_def rbind_Inr_iff)
  obtain occ cu where o: "applyMisfirePolicy due now job (case fire of None \<Rightarrow> False | Some t \<Rightarrow> t \<le> ?w) = Inr (occ, cu)"
    using assms(1,2) s u d by (auto simp: planOccurrences_def Let_def rbind_Inr_iff)
  have p: "p = \<lparr>pl_occurrences = occ, pl_skipped = length due - length occ, pl_catchUpAt = cu,
      pl_retireBefore = cu, pl_nextRunAt = fire,
      pl_lastFiredAt = (if due = [] then sj_lastFiredAt job else Some (last due))\<rparr>"
    using assms(1,2) s u d o by (simp add: planOccurrences_def Let_def)
  note w = collectDue_walk [OF d]
  have start: "startWalk lib s = Inr ()" using u by simp
  show thesis
    by (rule that [of s due])
      (use p s start d o w walk_sorted [OF assms(3) start] assms(2) in \<open>auto simp: consumed_def\<close>)
qed

section \<open>One owner\<close>

lemma enumerate_mem: "(i, e) \<in> set (enumerate 0 xs) \<longleftrightarrow> i < length xs \<and> xs ! i = e"
  by (auto simp: in_set_enumerate_eq)

lemma applyCoalesce_nth:
  "i < length planned \<Longrightarrow> applyCoalesceOwnerPolicy planned ! i =
     (if losesLateRun planned i (planned ! i) then dropLateRun (planned ! i) else planned ! i)"
  by (simp add: applyCoalesceOwnerPolicy_def nth_enumerate_eq)

lemma length_applyCoalesce [simp]: "length (applyCoalesceOwnerPolicy planned) = length planned"
  by (simp add: applyCoalesceOwnerPolicy_def)

definition beats :: "nat \<times> planned \<Rightarrow> nat \<times> planned \<Rightarrow> bool" where
  "beats a b \<longleftrightarrow> latestMissedAt (snd b) < latestMissedAt (snd a)
     \<or> latestMissedAt (snd b) = latestMissedAt (snd a) \<and> sj_id (fst (snd a)) \<le> sj_id (fst (snd b))"

lemma beats_order [simp]: "beats a a"
  and beats_trans: "beats a b \<Longrightarrow> beats b c \<Longrightarrow> beats a c"
  by (auto simp: beats_def)

lemma latestThenLowestId_beats:
  "beats (latestThenLowestId a b) a" "beats (latestThenLowestId a b) b" "latestThenLowestId a b \<in> {a, b}"
  by (auto simp: latestThenLowestId_def beats_def)

lemma foldl_beats:
  "foldl latestThenLowestId a xs \<in> insert a (set xs) \<and> (\<forall>x \<in> insert a (set xs). beats (foldl latestThenLowestId a xs) x)"
proof (induction xs arbitrary: a)
  case (Cons x xs)
  let ?b = "latestThenLowestId a x"
  have ih: "foldl latestThenLowestId ?b xs \<in> insert ?b (set xs)"
      "\<And>y. y \<in> insert ?b (set xs) \<Longrightarrow> beats (foldl latestThenLowestId ?b xs) y"
    using Cons.IH [of ?b] by blast+
  have "beats (foldl latestThenLowestId ?b xs) ?b" using ih(2) by simp
  then have "beats (foldl latestThenLowestId ?b xs) a" "beats (foldl latestThenLowestId ?b xs) x"
    using latestThenLowestId_beats [of a x] beats_trans by blast+
  then show ?case using ih latestThenLowestId_beats(3) [of a x] by auto
qed simp

lemma winnerOf_beats:
  "members \<noteq> [] \<Longrightarrow> winnerOf members \<in> set members \<and> (\<forall>x \<in> set members. beats (winnerOf members) x)"
  using foldl_beats [of "hd members" "tl members"] by (cases members) (auto simp: winnerOf_def)

lemma groupOf_mem:
  "(i, e) \<in> set (groupOf planned key) \<longleftrightarrow>
     i < length planned \<and> planned ! i = e \<and> isOwnedMember e \<and> ownerKeyOf e = key"
  by (auto simp: groupOf_def enumerate_mem)

lemma owned_drop [simp]: "\<not> isOwnedMember (dropLateRun e)" "fst (dropLateRun e) = fst e"
  by (simp_all add: isOwnedMember_def dropLateRun_def)

lemma ownerKeyOf_drop [simp]: "ownerKeyOf (dropLateRun e) = ownerKeyOf e"
  by (simp add: ownerKeyOf_def)

text \<open>The key of an owner determines its parts.\<close>

lemma lengthPrefixed_prefix:
  assumes "lengthPrefixed a @ xs = lengthPrefixed b @ ys"
  shows "a = b \<and> xs = ys"
proof -
  have colon: "CHR '':'' \<notin> set (nat_to_string n)" "CHR ''-'' \<notin> set (nat_to_string n)" for n
    using nat_to_string_digits [of _ n] by force+
  have split: "us = vs \<and> us' = vs'" if "us @ c # us' = vs @ c # vs'" "c \<notin> set us" "c \<notin> set vs"
    for us vs us' vs' :: string and c
    using that by (induction us arbitrary: vs) (auto simp: Cons_eq_append_conv)
  show ?thesis
  proof (cases a)
    case None
    note a = this
    show ?thesis
    proof (cases b)
      case None
      then show ?thesis using assms a by (simp add: lengthPrefixed_def)
    next
      case (Some q)
      have "hd (nat_to_string (length q)) = CHR ''-''"
        using assms a Some by (cases "nat_to_string (length q)") (auto simp: lengthPrefixed_def)
      then show ?thesis using colon(2) [of "length q"] nat_to_string_nonempty(1) [of "length q"]
        by (metis hd_in_set)
    qed
  next
    case (Some p)
    note a = this
    show ?thesis
    proof (cases b)
      case None
      have "hd (nat_to_string (length p)) = CHR ''-''"
        using assms a None by (cases "nat_to_string (length p)") (auto simp: lengthPrefixed_def)
      then show ?thesis using colon(2) [of "length p"] nat_to_string_nonempty(1) [of "length p"]
        by (metis hd_in_set)
    next
      case (Some q)
      have "nat_to_string (length p) @ CHR '':'' # (p @ xs) = nat_to_string (length q) @ CHR '':'' # (q @ ys)"
        using assms a Some by (simp add: lengthPrefixed_def)
      then have "nat_to_string (length p) = nat_to_string (length q) \<and> p @ xs = q @ ys"
        by (rule split) (use colon in auto)
      then have "nat_to_string (length p) = nat_to_string (length q)" and e: "p @ xs = q @ ys"
        by blast+
      then have "length p = length q" by (simp add: nat_to_string_inj)
      with e have "p = q" "xs = ys" by simp_all
      then show ?thesis using a Some by simp
    qed
  qed
qed

lemma ownerKeyFor_inj: "ownerKeyFor a = ownerKeyFor b \<longleftrightarrow> a = b"
proof
  assume k: "ownerKeyFor a = ownerKeyFor b"
  have "lengthPrefixed (Some (jo_type a)) @ lengthPrefixed (Some (jo_id a)) @ lengthPrefixed (jo_member a) @ []
      = lengthPrefixed (Some (jo_type b)) @ lengthPrefixed (Some (jo_id b)) @ lengthPrefixed (jo_member b) @ []"
    using k by (simp add: ownerKeyFor_def)
  note t = lengthPrefixed_prefix [OF this]
  note i = lengthPrefixed_prefix [OF conjunct2 [OF t]]
  note m = lengthPrefixed_prefix [OF conjunct2 [OF i]]
  show "a = b" using t i m by (cases a, cases b) simp
qed simp

end
