(* ===== verification/SchedulerRuns.thy ===== *)
theory SchedulerRuns
  imports TaskSystem UpkeepLaws SchedulerPlanning
begin

text \<open>
  Executable runs of one instance: a list of commands picks the next step, and every run it gives
  is a run of the system. The runs below are the concrete cases the properties are applied to,
  and the ones that show where the code departs from its documentation.
\<close>

section \<open>Commands\<close>

datatype command =
    RecordOccurrence new_occurrence
  | ClaimNow instant
  | HandleReply
  | FireTimer
  | GoOn instant "handler_end option"

text \<open>The next step of a fire; \<open>None\<close> lets a running handler report its dispatch.\<close>

fun goOn :: "executor \<Rightarrow> instant \<Rightarrow> handler_end option \<Rightarrow> task_row \<Rightarrow> fire_phase \<Rightarrow> task_table \<Rightarrow>
    bool \<times> fire_phase \<times> task_table" where
  "goOn ex now choice task Starting tbl =
     (False, if tr_taskType task \<in> set (ex_types ex) then Beginning else ReleasingClaim, tbl)"
| "goOn ex now choice task ReleasingClaim tbl =
     (False, FireDone SkippedNoHandler, fst (releaseClaim (claimOf (ex_host ex) task) tbl))"
| "goOn ex now choice task Beginning tbl =
     (case beginDispatch now (claimOf (ex_host ex) task) (ex_leaseMs ex) tbl of (tbl', won) \<Rightarrow>
        if won = 0 then (False, FireDone (SkippedNotOwned None), tbl') else (True, Handling Unmarked, tbl'))"
| "goOn ex now choice task (Handling mk) tbl =
     (case choice of
        Some ended \<Rightarrow> (False, AwaitingMark ended (markAtEnd ended mk), tbl)
      | None \<Rightarrow>
          (case mk of
             Unmarked \<Rightarrow> (False, Handling MarkRequested, tbl)
           | MarkRequested \<Rightarrow> (False, Handling MarkSettled, fst (markDispatched now (claimOf (ex_host ex) task) tbl))
           | MarkSettled \<Rightarrow> (False, AwaitingMark HandlerReturned (markAtEnd HandlerReturned mk), tbl)))"
| "goOn ex now choice task (AwaitingMark ended mk) tbl =
     (if mk = MarkRequested
      then (False, AwaitingMark ended MarkSettled, fst (markDispatched now (claimOf (ex_host ex) task) tbl))
      else (False, Ending ended mk, tbl))"
| "goOn ex now choice task (Ending ended mk) tbl =
     (case writeOutcome now (claimOf (ex_host ex) task) (outcomeWrite task ended mk) tbl of (tbl', n) \<Rightarrow>
        (False, FireDone (outcomeResult ended (outcomeWrite task ended mk) n), tbl'))"
| "goOn ex now choice task (FireDone res) tbl = (False, FireDone res, tbl)"

fun runCommand :: "command \<Rightarrow> executor \<Rightarrow> task_table \<Rightarrow> executor \<times> task_table \<times> (nat \<times> nat) list" where
  "runCommand (RecordOccurrence no) ex tbl = (ex, fst (insertIgnoringDuplicates True [no] 1000 tbl), [])"
| "runCommand (ClaimNow now) ex tbl =
     (if ex_types ex = [] then (ex, tbl, [])
      else case claimDueTasks now {} (claimBatch ex) tbl of (tbl', tasks) \<Rightarrow>
        (ex\<lparr>ex_replies := ex_replies ex @ [tasks]\<rparr>, tbl', []))"
| "runCommand HandleReply ex tbl =
     (if ex_replies ex = [] then (ex, tbl, [])
      else (claimResolved False (ex_replies ex ! 0) (ex\<lparr>ex_replies := removeAt 0 (ex_replies ex)\<rparr>), tbl, []))"
| "runCommand FireTimer ex tbl =
     (if ex_armed ex = [] then (ex, tbl, []) else (taskTimerFires 0 ex, tbl, []))"
| "runCommand (GoOn now choice) ex tbl =
     (if ex_fires ex = [] then (ex, tbl, [])
      else let j = length (ex_fires ex) - 1; f = ex_fires ex ! j;
               (called, phase', tbl') = goOn ex now choice (fi_task f) (fi_phase f) tbl
           in (ex\<lparr>ex_fires := (ex_fires ex)[j := f\<lparr>fi_phase := phase'\<rparr>]\<rparr>, tbl',
               if called then [claimKey (fi_task f)] else []))"

definition oneInstance :: "executor \<Rightarrow> task_table \<Rightarrow> (nat \<times> nat) list \<Rightarrow> task_system" where
  "oneInstance ex tbl calls =
     \<lparr>sy_table = tbl, sy_executors = [ex], sy_swept = [], sy_runs = calls\<rparr>"

fun runCommands :: "command list \<Rightarrow> executor \<Rightarrow> task_table \<Rightarrow> (nat \<times> nat) list \<Rightarrow> task_system" where
  "runCommands [] ex tbl calls = oneInstance ex tbl calls"
| "runCommands (c # cs) ex tbl calls =
     (case runCommand c ex tbl of (ex', tbl', new) \<Rightarrow> runCommands cs ex' tbl' (calls @ new))"

section \<open>Every run of commands is a run of the system\<close>

lemma goOn_step:
  assumes "goOn ex now choice task phase tbl = (called, phase', tbl')"
  shows "(\<not> called \<and> phase' = phase \<and> tbl' = tbl) \<or>
    fire_step (ex_types ex) (ex_host ex) (ex_leaseMs ex) task (phase, tbl) called (phase', tbl')"
proof (cases phase)
  case (Handling mk)
  then show ?thesis using assms
    by (auto intro: fire_step.intros split: option.splits dispatch_mark.splits)
next
  case Beginning
  then show ?thesis using assms by (auto intro: fire_step.intros split: prod.splits if_splits)
next
  case (AwaitingMark ended mk)
  then show ?thesis using assms by (auto intro: fire_step.intros split: if_splits)
next
  case (Ending ended mk)
  then show ?thesis using assms by (auto intro: fire_step.intros split: prod.splits)
next
  case Starting
  then show ?thesis using assms
    by (cases "tr_taskType task \<in> set (ex_types ex)") (auto intro: fire_step.intros)
qed (use assms in \<open>auto intro: fire_step.intros\<close>)

lemma executor_alone:
  "executor_step (ex, tbl) new (ex', tbl') \<Longrightarrow>
     system_step\<^sup>*\<^sup>* (oneInstance ex tbl calls) (oneInstance ex' tbl' (calls @ new))"
  using sy_executor [of 0 "oneInstance ex tbl calls" new ex' tbl']
  by (simp add: oneInstance_def r_into_rtranclp)

lemma executor_quiet:
  "executor_step (ex, tbl) [] (ex', tbl') \<Longrightarrow>
     system_step\<^sup>*\<^sup>* (oneInstance ex tbl calls) (oneInstance ex' tbl' calls)"
  using executor_alone [of ex tbl "[]" ex' tbl' calls] by simp

lemma runCommand_steps:
  assumes "runCommand c ex tbl = (ex', tbl', new)"
  shows "system_step\<^sup>*\<^sup>* (oneInstance ex tbl calls) (oneInstance ex' tbl' (calls @ new))"
proof (cases c)
  case (RecordOccurrence no)
  then show ?thesis using assms sy_background [OF bg_insert, of "oneInstance ex tbl calls" True "[no]" 1000]
    by (auto simp: oneInstance_def intro: r_into_rtranclp)
next
  case (ClaimNow now)
  show ?thesis
  proof (cases "ex_types ex = []")
    case False
    then obtain tasks where "claimDueTasks now {} (claimBatch ex) tbl = (tbl', tasks)"
        "ex' = ex\<lparr>ex_replies := ex_replies ex @ [tasks]\<rparr>" "new = []"
      using assms ClaimNow by (auto split: prod.splits)
    then show ?thesis using executor_quiet [OF ex_claim [OF False]] by simp
  qed (use assms ClaimNow in simp)
next
  case HandleReply
  show ?thesis
  proof (cases "ex_replies ex = []")
    case False
    then show ?thesis using assms HandleReply ex_claim_resolved [of 0 ex tbl False]
      by (auto intro: executor_quiet)
  qed (use assms HandleReply in simp)
next
  case FireTimer
  show ?thesis
  proof (cases "ex_armed ex = []")
    case False
    then show ?thesis using assms FireTimer ex_timer [of 0 ex tbl] by (auto intro: executor_quiet)
  qed (use assms FireTimer in simp)
next
  case (GoOn now choice)
  show ?thesis
  proof (cases "ex_fires ex = []")
    case False
    let ?j = "length (ex_fires ex) - 1"
    let ?f = "ex_fires ex ! ?j"
    obtain called phase' tbl2 where g: "goOn ex now choice (fi_task ?f) (fi_phase ?f) tbl = (called, phase', tbl2)"
      by (metis prod.collapse)
    have j: "?j < length (ex_fires ex)" using False by simp
    have r: "ex' = ex\<lparr>ex_fires := (ex_fires ex)[?j := ?f\<lparr>fi_phase := phase'\<rparr>]\<rparr>" "tbl' = tbl2"
        "new = (if called then [claimKey (fi_task ?f)] else [])"
      using assms GoOn False g by (cases called; simp add: Let_def)+
    show ?thesis
    proof (cases "\<not> called \<and> phase' = fi_phase ?f \<and> tbl2 = tbl")
      case True
      then have "ex' = ex" using r(1) by simp
      then show ?thesis using r True by simp
    next
      case False
      then have "fire_step (ex_types ex) (ex_host ex) (ex_leaseMs ex) (fi_task ?f) (fi_phase ?f, tbl) called (phase', tbl2)"
        using goOn_step [OF g] by blast
      from executor_alone [OF ex_fire [OF j this]] show ?thesis unfolding r .
    qed
  qed (use assms GoOn in simp)
qed

lemma runCommands_steps: "system_step\<^sup>*\<^sup>* (oneInstance ex tbl calls) (runCommands cs ex tbl calls)"
proof (induction cs arbitrary: ex tbl calls)
  case (Cons c cs)
  obtain ex' tbl' new where r: "runCommand c ex tbl = (ex', tbl', new)" by (metis prod.collapse)
  show ?case using rtranclp_trans [OF runCommand_steps [OF r] Cons.IH] r by simp
qed simp

section \<open>A dispatched occurrence that fails\<close>

definition exInstance :: executor where
  "exInstance =
     \<lparr>ex_host = ''main'', ex_types = [''poll''], ex_leaseMs = 60000, ex_lookaheadMs = 5000, ex_batchSize = 10,
      ex_claimed = [], ex_stopping = False, ex_replies = [], ex_armed = [], ex_fires = [], ex_releases = []\<rparr>"

definition exOccurrence :: new_occurrence where
  "exOccurrence =
     \<lparr>no_jobId = 7, no_taskType = ''poll'', no_payload = JNull, no_scheduledFor = 1000, no_runAt = 1000,
      no_maxAttempts = 2, no_missedAfter = Some 61000\<rparr>"

text \<open>
  The handler reports its dispatch, the marker is stored, and then the handler throws; the
  occurrence is claimed again and its handler called a second time.
\<close>

definition exCommands :: "command list" where
  "exCommands =
     [RecordOccurrence exOccurrence, ClaimNow 0, HandleReply, FireTimer, GoOn 1000 None, GoOn 1000 None,
      GoOn 1100 None, GoOn 1200 None, GoOn 1300 (Some (HandlerThrew ''timeout'')), GoOn 1400 None, GoOn 1500 None,
      ClaimNow 10000, HandleReply, FireTimer, GoOn 10000 None, GoOn 10000 None,
      GoOn 10100 (Some HandlerReturned), GoOn 10200 None, GoOn 10300 None, GoOn 10400 None]"

definition exSystem :: task_system where
  "exSystem = runCommands exCommands exInstance emptyTable []"

definition exMarked :: task_system where
  "exMarked = runCommands (take 8 exCommands) exInstance emptyTable []"

lemma exSystem_value:
  "sy_runs exSystem = [(0, 1), (0, 2)]"
  "map tr_status (tt_rows (sy_table exSystem)) = [OccSucceeded]"
  "map tr_attempts (tt_rows (sy_table exSystem)) = [1]"
  by code_simp+

lemma exSystem_reached:
  "system_step\<^sup>*\<^sup>* (oneInstance exInstance emptyTable []) exSystem"
  "initialSystem (oneInstance exInstance emptyTable [])"
  using runCommands_steps [of exInstance emptyTable "[]" exCommands]
  by (simp_all add: exSystem_def initialSystem_def oneInstance_def freshExecutor_def restartExecutor_def exInstance_def)

lemma dispatched_occurrence_runs_again:
  "map tr_dispatchedAt (tt_rows (sy_table exMarked)) = [Some 1200]
   \<and> sy_runs exMarked = [(0, 1)] \<and> sy_runs exSystem = [(0, 1), (0, 2)]"
  unfolding exSystem_value(1) by code_simp

text \<open>An ended row keeps the lease and the owner it ended with, and a success counts no attempt.\<close>

lemma ended_rows_keep_their_lease:
  "map tr_leaseExpiresAt (tt_rows (sy_table exSystem)) = [Some 70000]
   \<and> map tr_claimedBy (tt_rows (sy_table exSystem)) = [Some ''main'']"
  by code_simp

section \<open>Other departures\<close>

text \<open>Two claims of one occurrence by one instance: the timer of the first drops the entry of the second.\<close>

definition exTwice :: executor where
  "exTwice =
     (let r = newRow 0 exOccurrence
      in foldl (\<lambda>ex task. scheduleClaimed task ex) exInstance
           [claimRow 0 (claimBatch exInstance) r, claimRow 0 (claimBatch exInstance) (r\<lparr>tr_leaseEpoch := 2\<rparr>)])"

lemma stale_timer_hides_a_claim:
  "map claimKey (ex_armed (taskTimerFires 0 exTwice)) = [(0, 3)] \<and> ex_releases (stopExecutor (taskTimerFires 0 exTwice)) = []"
  by code_simp

text \<open>With a budget of one statement, a full first window leaves the second none.\<close>

definition finishedRow :: "nat \<Rightarrow> occurrence_status \<Rightarrow> task_row" where
  "finishedRow i st =
     (newRow i (exOccurrence\<lparr>no_jobId := i\<rparr>))\<lparr>tr_status := st, tr_finishedAt := Some 2000\<rparr>"

definition exFinished :: task_table where
  "exFinished = \<lparr>tt_rows = [finishedRow 0 OccSucceeded, finishedRow 1 OccFailed, finishedRow 2 OccSucceeded], tt_nextId = 3\<rparr>"

definition exRetention :: "int \<Rightarrow> retention_options" where
  "exRetention budget =
     \<lparr>ro_retentionSeconds = 60, ro_failedRetentionSeconds = 60, ro_batchSize = 1, ro_maxBatchesPerPass = budget\<rparr>"

lemma one_statement_starves_the_failures:
  "map tr_status (tt_rows (fst (prune (retentionStore 1000000 {}) (\<lambda>_. False) (exRetention 1) exFinished)))
     = [OccFailed, OccSucceeded]"
  "map tr_status (tt_rows (fst (prune (retentionStore 1000000 {}) (\<lambda>_. False) (exRetention 2) exFinished)))
     = [OccSucceeded]"
  by code_simp+

section \<open>Planning examples\<close>

text \<open>A job every minute that stood still for more than its grace.\<close>

definition exLib :: cron_lib where
  "exLib = \<lparr>cl_zone = (\<lambda>_. True), cl_parses = (\<lambda>_ _. True), cl_next = (\<lambda>_ _ t. Some (t + 3600000)),
     cl_local = (\<lambda>_ t. \<lparr>lt_day = t div 86400000, lt_hour = t div 3600000 mod 24, lt_weekday = 1, lt_month = 1, lt_year = 2026\<rparr>)\<rparr>"

lemma exLib_ahead: "fires_ahead exLib"
  by (simp add: fires_ahead_def exLib_def)

definition exJob :: "nat \<Rightarrow> misfire_policy \<Rightarrow> instant \<Rightarrow> scheduled_job" where
  "exJob i policy first =
     \<lparr>sj_id = i, sj_name = ''job'', sj_owner = \<lparr>jo_type = ''workflow'', jo_id = ''w'', jo_member = Some ''n''\<rparr>,
      sj_taskType = ''poll'', sj_payload = JNull, sj_kind = KindInterval, sj_cronExpression = None, sj_timezone = None,
      sj_intervalSeconds = Some 60, sj_fireAt = None, sj_recurrenceUnit = None, sj_recurrenceSize = None,
      sj_nextRunAt = Some first, sj_lastFiredAt = None, sj_maxAttempts = 2, sj_misfirePolicy = policy,
      sj_misfireGraceSeconds = 60, sj_enabled = True, sj_orphanedAt = None, sj_createdAt = 0\<rparr>"

definition exOptions :: materializer_options where
  "exOptions = \<lparr>mo_windowSeconds = 60, mo_lookaheadSeconds = 0, mo_maxPerJob = 100, mo_batchSize = 50,
     mo_planRetrySeconds = 300, mo_defaultTimezone = ''UTC''\<rparr>"

definition exPlan :: "nat \<Rightarrow> instant \<Rightarrow> plan" where
  "exPlan i first = (case planOccurrences exLib (exJob i CoalesceOwner first) 300000 exOptions of Inr p \<Rightarrow> p)"

text \<open>The late run a job gives up for its owner is not counted among the discarded.\<close>

definition exPlanned :: "planned list" where
  "exPlanned = [(exJob 1 CoalesceOwner 60000, exPlan 1 60000), (exJob 2 CoalesceOwner 60000, exPlan 2 60000)]"

lemma dropped_late_run_is_not_counted:
  "map (pl_occurrences \<circ> snd) exPlanned = [[300000, 360000], [300000, 360000]]
   \<and> map (pl_occurrences \<circ> snd) (applyCoalesceOwnerPolicy exPlanned) = [[300000, 360000], [360000]]
   \<and> countMisfires (applyCoalesceOwnerPolicy exPlanned) = countMisfires exPlanned"
  by code_simp

end
