(* ===== verification/JobStore.thy ===== *)
theory JobStore
  imports TaskInvariant "HOL-Library.List_Lexorder" "HOL-Library.Char_ord"
begin

text \<open>
  The table of scheduled jobs (\<open>scheduled-job.ts\<close> and \<open>scheduled-job.repository.ts\<close> of
  \<open>@n8n/db\<close>) and the database of the scheduler: this table and that of the occurrences, whose
  rows go with their job. Names and owner ids are compared as strings of characters.
\<close>

section \<open>The tables\<close>

record job_table =
  jt_rows :: "scheduled_job list"
  jt_nextId :: nat

record scheduler_db =
  db_jobs :: job_table
  db_tasks :: task_table

definition jobIds :: "scheduled_job list \<Rightarrow> nat list" where
  "jobIds rows = map sj_id rows"

definition updateJobs :: "(scheduled_job \<Rightarrow> bool) \<Rightarrow> (scheduled_job \<Rightarrow> scheduled_job) \<Rightarrow> job_table \<Rightarrow> job_table \<times> nat" where
  "updateJobs p f jobs =
     (jobs\<lparr>jt_rows := map (\<lambda>j. if p j then f j else j) (jt_rows jobs)\<rparr>, length (filter p (jt_rows jobs)))"

text \<open>A deletion cascades to the occurrences.\<close>

definition deleteJobsWhere :: "(scheduled_job \<Rightarrow> bool) \<Rightarrow> scheduler_db \<Rightarrow> scheduler_db \<times> nat" where
  "deleteJobsWhere p db =
     (let gone = filter p (jt_rows (db_jobs db))
      in (\<lparr>db_jobs = (db_jobs db)\<lparr>jt_rows := filter (\<lambda>j. \<not> p j) (jt_rows (db_jobs db))\<rparr>,
           db_tasks = deleteOfJobs (jobIds gone) (db_tasks db)\<rparr>, length gone))"

text \<open>All jobs of an owner, and those of exactly one member of it.\<close>

definition ownerRefCriteria :: "string \<times> string \<Rightarrow> scheduled_job \<Rightarrow> bool" where
  "ownerRefCriteria ref j \<longleftrightarrow> jo_type (sj_owner j) = fst ref \<and> jo_id (sj_owner j) = snd ref"

definition ownerCriteria :: "job_owner \<Rightarrow> scheduled_job \<Rightarrow> bool" where
  "ownerCriteria ow j \<longleftrightarrow> jo_type (sj_owner j) = jo_type ow \<and> jo_id (sj_owner j) = jo_id ow
     \<and> jo_member (sj_owner j) = jo_member ow"

section \<open>Claiming and advancing\<close>

definition jobDue :: "instant \<Rightarrow> int \<Rightarrow> scheduled_job \<Rightarrow> bool" where
  "jobDue now lookaheadMs j \<longleftrightarrow> sj_enabled j \<and>
     (case sj_nextRunAt j of None \<Rightarrow> False | Some t \<Rightarrow> t \<le> now + lookaheadMs)"

definition claimDue :: "instant \<Rightarrow> nat set \<Rightarrow> nat \<Rightarrow> int \<Rightarrow> job_table \<Rightarrow> (instant \<times> scheduled_job list) option" where
  "claimDue now locked limit lookaheadMs jobs =
     (let claimed = take limit (sort_key (\<lambda>j. the (sj_nextRunAt j))
            (filter (\<lambda>j. jobDue now lookaheadMs j \<and> sj_id j \<notin> locked) (jt_rows jobs)))
      in if claimed = [] then None else Some (now, claimed))"

record job_advance =
  ja_id :: nat
  ja_nextRunAt :: "instant option"
  ja_lastFiredAt :: "instant option"

text \<open>One statement: \<open>CASE WHEN id = ...\<close> takes the first advance of a job.\<close>

definition advanceChunk :: "job_advance list \<Rightarrow> job_table \<Rightarrow> job_table" where
  "advanceChunk advances jobs = fst (updateJobs (\<lambda>j. sj_id j \<in> set (map ja_id advances))
     (\<lambda>j. case find (\<lambda>a. ja_id a = sj_id j) advances of
        None \<Rightarrow> j
      | Some a \<Rightarrow> j\<lparr>sj_nextRunAt := ja_nextRunAt a, sj_lastFiredAt := ja_lastFiredAt a\<rparr>) jobs)"

definition clampChunkSize :: "int \<Rightarrow> nat \<Rightarrow> nat" where
  "clampChunkSize chunkSize most = min (nat (max 1 chunkSize)) most"

definition maxAdvanceChunkSize :: "bool \<Rightarrow> nat" where
  "maxAdvanceChunkSize isPostgres = (if isPostgres then 1000 else 200)"

definition maxInsertChunkSize :: "bool \<Rightarrow> nat" where
  "maxInsertChunkSize isPostgres = (if isPostgres then 1000 else 500)"

definition advanceMany :: "bool \<Rightarrow> job_advance list \<Rightarrow> int \<Rightarrow> job_table \<Rightarrow> job_table" where
  "advanceMany isPostgres advances chunkSize jobs =
     foldl (\<lambda>js chunk. advanceChunk chunk js) jobs
       (chunksOf (clampChunkSize chunkSize (maxAdvanceChunkSize isPostgres)) advances)"

section \<open>Reading\<close>

definition findManyByOwner :: "job_owner \<Rightarrow> job_table \<Rightarrow> scheduled_job list" where
  "findManyByOwner ow jobs = filter (ownerCriteria ow) (jt_rows jobs)"

definition findManyByIds :: "nat list \<Rightarrow> job_table \<Rightarrow> scheduled_job list" where
  "findManyByIds ids jobs = (if ids = [] then [] else filter (\<lambda>j. sj_id j \<in> set ids) (jt_rows jobs))"

definition findPayloadsByOwnerIds :: "string \<Rightarrow> string list \<Rightarrow> job_table \<Rightarrow> (string \<times> json) list" where
  "findPayloadsByOwnerIds ownerType ownerIds jobs =
     (if ownerIds = [] then []
      else map (\<lambda>j. (jo_id (sj_owner j), sj_payload j))
             (filter (\<lambda>j. jo_type (sj_owner j) = ownerType \<and> jo_id (sj_owner j) \<in> set ownerIds) (jt_rows jobs)))"

definition findPayloadsByOwnerType :: "string \<Rightarrow> job_table \<Rightarrow> (nat \<times> string \<times> json) list" where
  "findPayloadsByOwnerType ownerType jobs =
     map (\<lambda>j. (sj_id j, jo_id (sj_owner j), sj_payload j))
       (filter (\<lambda>j. jo_type (sj_owner j) = ownerType) (jt_rows jobs))"

text \<open>A JavaScript \<open>Set\<close> keeps the first of equal values.\<close>

definition findOwnerMemberIds :: "string \<times> string \<Rightarrow> string \<Rightarrow> job_table \<Rightarrow> string list" where
  "findOwnerMemberIds ref taskType jobs =
     rev (remdups (rev (List.map_filter (\<lambda>j. jo_member (sj_owner j))
       (filter (\<lambda>j. ownerRefCriteria ref j \<and> sj_taskType j = taskType) (jt_rows jobs)))))"

definition countByOwner :: "job_owner \<Rightarrow> job_table \<Rightarrow> nat" where
  "countByOwner ow jobs = length (filter (ownerCriteria ow) (jt_rows jobs))"

definition existsRunnableByOwner :: "job_owner \<Rightarrow> job_table \<Rightarrow> bool" where
  "existsRunnableByOwner ow jobs =
     list_ex (\<lambda>j. ownerCriteria ow j \<and> sj_enabled j \<and> sj_orphanedAt j = None) (jt_rows jobs)"

definition findOwnerTypes :: "job_table \<Rightarrow> string list" where
  "findOwnerTypes jobs = sort (remdups (map (\<lambda>j. jo_type (sj_owner j)) (jt_rows jobs)))"

text \<open>One page of the owners of a type that have a settled job.\<close>

definition findOwnerIds :: "string \<Rightarrow> instant \<Rightarrow> nat \<Rightarrow> string option \<Rightarrow> job_table \<Rightarrow> string list" where
  "findOwnerIds ownerType settledBefore limit after jobs =
     take limit (sort (remdups (map (\<lambda>j. jo_id (sj_owner j))
       (filter (\<lambda>j. jo_type (sj_owner j) = ownerType \<and> sj_createdAt j \<le> settledBefore
            \<and> (case after of None \<Rightarrow> True | Some a \<Rightarrow> a < jo_id (sj_owner j))) (jt_rows jobs)))))"

section \<open>Inserting\<close>

record new_job =
  nj_name :: string
  nj_owner :: job_owner
  nj_taskType :: string
  nj_payload :: json
  nj_kind :: job_kind
  nj_cronExpression :: "string option"
  nj_timezone :: "string option"
  nj_recurrenceUnit :: "recurrence_unit option"
  nj_recurrenceSize :: "int option"
  nj_intervalSeconds :: "int option"
  nj_fireAt :: "instant option"
  nj_nextRunAt :: "instant option"
  nj_maxAttempts :: nat
  nj_misfirePolicy :: misfire_policy
  nj_misfireGraceSeconds :: int

text \<open>The row takes the defaults of the entity; \<open>createdAt\<close> is the time of the database.\<close>

definition newJobRow :: "instant \<Rightarrow> nat \<Rightarrow> new_job \<Rightarrow> scheduled_job" where
  "newJobRow now i nj =
     \<lparr>sj_id = i, sj_name = nj_name nj, sj_owner = nj_owner nj, sj_taskType = nj_taskType nj,
      sj_payload = nj_payload nj, sj_kind = nj_kind nj, sj_cronExpression = nj_cronExpression nj,
      sj_timezone = nj_timezone nj, sj_intervalSeconds = nj_intervalSeconds nj, sj_fireAt = nj_fireAt nj,
      sj_recurrenceUnit = nj_recurrenceUnit nj, sj_recurrenceSize = nj_recurrenceSize nj,
      sj_nextRunAt = nj_nextRunAt nj, sj_lastFiredAt = None, sj_maxAttempts = nj_maxAttempts nj,
      sj_misfirePolicy = nj_misfirePolicy nj, sj_misfireGraceSeconds = nj_misfireGraceSeconds nj,
      sj_enabled = True, sj_orphanedAt = None, sj_createdAt = now\<rparr>"

text \<open>One row of \<open>INSERT OR IGNORE\<close>: a name that is taken is left as it is.\<close>

definition insertJob :: "instant \<Rightarrow> new_job \<Rightarrow> job_table \<Rightarrow> job_table" where
  "insertJob now nj jobs =
     (if nj_name nj \<in> set (map sj_name (jt_rows jobs)) then jobs
      else \<lparr>jt_rows = jt_rows jobs @ [newJobRow now (jt_nextId jobs) nj], jt_nextId = jt_nextId jobs + 1\<rparr>)"

datatype job_failure =
    NoRowAfterInsert string
  | NameOfAnotherOwner string
  | UnexpectedJobKind string

fun idsInOrder :: "scheduled_job list \<Rightarrow> new_job list \<Rightarrow> job_failure + nat list" where
  "idsInOrder rows [] = Inr []"
| "idsInOrder rows (nj # njs) =
     (case find (\<lambda>row. sj_name row = nj_name nj) (rev rows) of
        None \<Rightarrow> Inl (NoRowAfterInsert (nj_name nj))
      | Some row \<Rightarrow>
          if sj_owner row \<noteq> nj_owner nj then Inl (NameOfAnotherOwner (nj_name nj))
          else rbind (idsInOrder rows njs) (\<lambda>ids. Inr (sj_id row # ids)))"

text \<open>The ids are read back by name, chunk by chunk as the rows were inserted.\<close>

definition insertMany :: "bool \<Rightarrow> instant \<Rightarrow> new_job list \<Rightarrow> int \<Rightarrow> job_table \<Rightarrow> job_failure + (nat list \<times> job_table)" where
  "insertMany isPostgres now njs chunkSize jobs =
     (if njs = [] then Inr ([], jobs)
      else let size = clampChunkSize chunkSize (maxInsertChunkSize isPostgres);
               inserted = foldl (\<lambda>js chunk. foldl (\<lambda>js nj. insertJob now nj js) js chunk) jobs (chunksOf size njs);
               rows = concat (map (\<lambda>names. filter (\<lambda>j. sj_name j \<in> set names) (jt_rows inserted))
                        (chunksOf size (map nj_name njs)))
           in rbind (idsInOrder rows njs) (\<lambda>ids. Inr (ids, inserted)))"

section \<open>Rewriting and deleting\<close>

record job_definition =
  jd_kind :: job_kind
  jd_cronExpression :: "string option"
  jd_timezone :: "string option"
  jd_recurrenceUnit :: "recurrence_unit option"
  jd_recurrenceSize :: "int option"
  jd_intervalSeconds :: "int option"
  jd_fireAt :: "instant option"

record run_options =
  rn_maxAttempts :: nat
  rn_misfirePolicy :: misfire_policy
  rn_misfireGraceSeconds :: int

definition withRunOptions :: "run_options \<Rightarrow> scheduled_job \<Rightarrow> scheduled_job" where
  "withRunOptions opts j =
     j\<lparr>sj_maxAttempts := rn_maxAttempts opts, sj_misfirePolicy := rn_misfirePolicy opts,
       sj_misfireGraceSeconds := rn_misfireGraceSeconds opts\<rparr>"

definition withDefinition :: "job_definition \<Rightarrow> scheduled_job \<Rightarrow> scheduled_job" where
  "withDefinition d j =
     j\<lparr>sj_kind := jd_kind d, sj_cronExpression := jd_cronExpression d, sj_timezone := jd_timezone d,
       sj_recurrenceUnit := jd_recurrenceUnit d, sj_recurrenceSize := jd_recurrenceSize d,
       sj_intervalSeconds := jd_intervalSeconds d, sj_fireAt := jd_fireAt d\<rparr>"

definition updateDefinition :: "nat \<Rightarrow> job_definition \<Rightarrow> instant option \<Rightarrow> run_options \<Rightarrow> job_table \<Rightarrow> job_table" where
  "updateDefinition i d nextRunAt opts jobs = fst (updateJobs (\<lambda>j. sj_id j = i)
     (\<lambda>j. (withRunOptions opts (withDefinition d j))\<lparr>sj_nextRunAt := nextRunAt\<rparr>) jobs)"

definition updateRunOptions :: "nat list \<Rightarrow> run_options \<Rightarrow> job_table \<Rightarrow> job_table" where
  "updateRunOptions ids opts jobs =
     (if ids = [] then jobs else fst (updateJobs (\<lambda>j. sj_id j \<in> set ids) (withRunOptions opts) jobs))"

definition updatePayload :: "nat list \<Rightarrow> json \<Rightarrow> job_table \<Rightarrow> job_table" where
  "updatePayload ids payload jobs =
     (if ids = [] then jobs else fst (updateJobs (\<lambda>j. sj_id j \<in> set ids) (\<lambda>j. j\<lparr>sj_payload := payload\<rparr>) jobs))"

definition backdateNextRunAt :: "instant \<Rightarrow> job_owner \<Rightarrow> int \<Rightarrow> job_table \<Rightarrow> job_table" where
  "backdateNextRunAt now ow secondsInPast jobs =
     fst (updateJobs (ownerCriteria ow) (\<lambda>j. j\<lparr>sj_nextRunAt := Some (now - secondsInPast * 1000)\<rparr>) jobs)"

definition deleteManyByIds :: "nat list \<Rightarrow> scheduler_db \<Rightarrow> scheduler_db" where
  "deleteManyByIds ids db = (if ids \<noteq> [] then fst (deleteJobsWhere (\<lambda>j. sj_id j \<in> set ids) db) else db)"

definition deleteByOwnerMember :: "job_owner \<Rightarrow> scheduler_db \<Rightarrow> scheduler_db \<times> nat" where
  "deleteByOwnerMember ow = deleteJobsWhere (ownerCriteria ow)"

definition deleteByOwnerRef :: "string \<times> string \<Rightarrow> scheduler_db \<Rightarrow> scheduler_db \<times> nat" where
  "deleteByOwnerRef ref = deleteJobsWhere (ownerRefCriteria ref)"

definition deleteByOwnerTaskType :: "string \<times> string \<Rightarrow> string \<Rightarrow> scheduler_db \<Rightarrow> scheduler_db \<times> nat" where
  "deleteByOwnerTaskType ref taskType = deleteJobsWhere (\<lambda>j. ownerRefCriteria ref j \<and> sj_taskType j = taskType)"

text \<open>Payloads are compared in the form they are stored in.\<close>

definition deleteIfPayloadUnchanged :: "nat \<Rightarrow> json \<Rightarrow> scheduler_db \<Rightarrow> scheduler_db \<times> nat" where
  "deleteIfPayloadUnchanged i payload = deleteJobsWhere (\<lambda>j. sj_id j = i \<and> sj_payload j = payload)"

section \<open>Quarantine\<close>

definition ownedByAny :: "string \<Rightarrow> string list \<Rightarrow> scheduled_job \<Rightarrow> bool" where
  "ownedByAny ownerType ownerIds j \<longleftrightarrow> jo_type (sj_owner j) = ownerType \<and> jo_id (sj_owner j) \<in> set ownerIds"

definition withdrawQueuedOccurrences :: "string \<Rightarrow> string list \<Rightarrow> scheduler_db \<Rightarrow> scheduler_db" where
  "withdrawQueuedOccurrences ownerType ownerIds db =
     (let jobs = jobIds (filter (\<lambda>j. ownedByAny ownerType ownerIds j \<and> sj_orphanedAt j \<noteq> None) (jt_rows (db_jobs db)))
      in db\<lparr>db_tasks := fst (deleteWhere (\<lambda>r. tr_status r = OccPending \<and> tr_jobId r \<in> set jobs) (db_tasks db))\<rparr>)"

definition quarantineByOwnerIds ::
  "string \<Rightarrow> string list \<Rightarrow> instant \<Rightarrow> instant \<Rightarrow> scheduler_db \<Rightarrow> scheduler_db \<times> nat" where
  "quarantineByOwnerIds ownerType ownerIds orphanedAt settledBefore db =
     (if ownerIds = [] then (db, 0)
      else let (jobs, affected) = updateJobs
                 (\<lambda>j. ownedByAny ownerType ownerIds j \<and> sj_orphanedAt j = None \<and> sj_createdAt j \<le> settledBefore)
                 (\<lambda>j. j\<lparr>sj_nextRunAt := None, sj_orphanedAt := Some orphanedAt\<rparr>) (db_jobs db)
           in (withdrawQueuedOccurrences ownerType ownerIds (db\<lparr>db_jobs := jobs\<rparr>), affected))"

definition quarantinedBy :: "instant \<Rightarrow> scheduled_job \<Rightarrow> bool" where
  "quarantinedBy deadline j = (case sj_orphanedAt j of None \<Rightarrow> False | Some t \<Rightarrow> t \<le> deadline)"

definition deleteQuarantinedByOwnerIds ::
  "string \<Rightarrow> string list \<Rightarrow> instant \<Rightarrow> scheduler_db \<Rightarrow> scheduler_db \<times> nat" where
  "deleteQuarantinedByOwnerIds ownerType ownerIds quarantinedBefore db =
     (if ownerIds = [] then (db, 0)
      else deleteJobsWhere (\<lambda>j. ownedByAny ownerType ownerIds j \<and> quarantinedBy quarantinedBefore j) db)"

definition findQuarantinedByOwnerIds :: "string \<Rightarrow> string list \<Rightarrow> nat \<Rightarrow> job_table \<Rightarrow> scheduled_job list" where
  "findQuarantinedByOwnerIds ownerType ownerIds limit jobs =
     (if ownerIds = [] then []
      else take limit (filter (\<lambda>j. ownedByAny ownerType ownerIds j \<and> sj_orphanedAt j \<noteq> None) (jt_rows jobs)))"

definition liftQuarantine :: "nat \<Rightarrow> instant option \<Rightarrow> job_table \<Rightarrow> job_table \<times> nat" where
  "liftQuarantine i nextRunAt = updateJobs (\<lambda>j. sj_id j = i \<and> sj_orphanedAt j \<noteq> None)
     (\<lambda>j. j\<lparr>sj_orphanedAt := None, sj_nextRunAt := nextRunAt\<rparr>)"

definition liftQuarantineByOwner :: "job_owner \<Rightarrow> job_table \<Rightarrow> job_table \<times> nat" where
  "liftQuarantineByOwner ow = updateJobs (\<lambda>j. ownerCriteria ow j \<and> sj_orphanedAt j \<noteq> None)
     (\<lambda>j. j\<lparr>sj_orphanedAt := None\<rparr>)"

section \<open>The invariant\<close>

text \<open>Ids and names are distinct, and every occurrence belongs to a job.\<close>

definition jobs_ok :: "job_table \<Rightarrow> bool" where
  "jobs_ok jobs \<longleftrightarrow> distinct (jobIds (jt_rows jobs)) \<and> distinct (map sj_name (jt_rows jobs))
     \<and> (\<forall>j \<in> set (jt_rows jobs). sj_id j < jt_nextId jobs)"

definition db_ok :: "scheduler_db \<Rightarrow> bool" where
  "db_ok db \<longleftrightarrow> jobs_ok (db_jobs db) \<and> table_ok (db_tasks db)
     \<and> (\<forall>r \<in> set (tt_rows (db_tasks db)). tr_jobId r \<in> set (jobIds (jt_rows (db_jobs db))))"

lemma updateJobs_rows [simp]:
  "jt_rows (fst (updateJobs p f jobs)) = map (\<lambda>j. if p j then f j else j) (jt_rows jobs)"
  "jt_nextId (fst (updateJobs p f jobs)) = jt_nextId jobs"
  by (simp_all add: updateJobs_def)

definition keeps_job :: "(scheduled_job \<Rightarrow> scheduled_job) \<Rightarrow> bool" where
  "keeps_job f \<longleftrightarrow> (\<forall>j. sj_id (f j) = sj_id j \<and> sj_name (f j) = sj_name j \<and> sj_owner (f j) = sj_owner j)"

lemma keeps_job_comp:
  assumes "keeps_job f"
  shows "sj_id \<circ> (\<lambda>j. if p j then f j else j) = sj_id" "sj_name \<circ> (\<lambda>j. if p j then f j else j) = sj_name"
  using assms by (auto simp: keeps_job_def)

lemma updateJobs_ids:
  assumes "keeps_job f"
  shows "jobIds (jt_rows (fst (updateJobs p f jobs))) = jobIds (jt_rows jobs)"
    and "map sj_name (jt_rows (fst (updateJobs p f jobs))) = map sj_name (jt_rows jobs)"
  by (simp_all add: jobIds_def keeps_job_comp [OF assms])

lemma updateJobs_ok:
  assumes "jobs_ok jobs" "keeps_job f"
  shows "jobs_ok (fst (updateJobs p f jobs))"
proof -
  have "\<forall>j \<in> set (jt_rows (fst (updateJobs p f jobs))). sj_id j < jt_nextId jobs"
    using assms by (auto simp: jobs_ok_def keeps_job_def)
  then show ?thesis using assms(1) by (simp add: jobs_ok_def updateJobs_ids [OF assms(2)] del: updateJobs_rows(1))
qed

lemma keeps_job_simps [simp]:
  "keeps_job (withRunOptions opts)"
  "keeps_job (\<lambda>j. (withRunOptions opts (withDefinition d j))\<lparr>sj_nextRunAt := t\<rparr>)"
  "keeps_job (\<lambda>j. j\<lparr>sj_payload := payload\<rparr>)"
  "keeps_job (\<lambda>j. j\<lparr>sj_nextRunAt := t\<rparr>)"
  "keeps_job (\<lambda>j. j\<lparr>sj_orphanedAt := u\<rparr>)"
  "keeps_job (\<lambda>j. j\<lparr>sj_orphanedAt := u, sj_nextRunAt := t\<rparr>)"
  by (simp_all add: keeps_job_def withRunOptions_def withDefinition_def)

lemma job_unique:
  "jobs_ok jobs \<Longrightarrow> j \<in> set (jt_rows jobs) \<Longrightarrow> k \<in> set (jt_rows jobs) \<Longrightarrow> sj_id j = sj_id k \<Longrightarrow> j = k"
  by (auto simp: jobs_ok_def jobIds_def distinct_map inj_on_def)

end
