(* ===== verification/Materialize.thy ===== *)
theory Materialize
  imports JobStore SchedulerPlanning
begin

text \<open>
  The planning pass (\<open>materializer/materialize.ts\<close>): one transaction that claims the due jobs,
  records their occurrences, retires what a late run supersedes and advances the clocks. It works
  on the operations it is given; \<open>durable-scheduler.ts\<close> of \<open>cli\<close> binds them to the repositories.
  An operation that throws, or a signal seen at a checkpoint, rolls the transaction back.
\<close>

section \<open>Transactions\<close>

definition txReturn :: "'a \<Rightarrow> 's \<Rightarrow> 'e + 'a \<times> 's" where
  "txReturn a s = Inr (a, s)"

definition txBind :: "('s \<Rightarrow> 'e + 'a \<times> 's) \<Rightarrow> ('a \<Rightarrow> 's \<Rightarrow> 'e + 'b \<times> 's) \<Rightarrow> 's \<Rightarrow> 'e + 'b \<times> 's" where
  "txBind m f s = (case m s of Inl e \<Rightarrow> Inl e | Inr (a, s') \<Rightarrow> f a s')"

definition txThrowIf :: "bool \<Rightarrow> 'e \<Rightarrow> 's \<Rightarrow> 'e + unit \<times> 's" where
  "txThrowIf b e s = (if b then Inl e else Inr ((), s))"

definition inTransaction :: "('s \<Rightarrow> 'e + 'a \<times> 's) \<Rightarrow> 's \<Rightarrow> 's \<times> ('e + 'a)" where
  "inTransaction work s = (case work s of Inl e \<Rightarrow> (s, Inl e) | Inr (a, s') \<Rightarrow> (s', Inr a))"

lemma txBind_Inr_iff: "txBind m f s = Inr r \<longleftrightarrow> (\<exists>a s'. m s = Inr (a, s') \<and> f a s' = Inr r)"
  by (auto simp: txBind_def split: sum.splits prod.splits)

lemma tx_simps [simp]:
  "txReturn a s = Inr r \<longleftrightarrow> r = (a, s)"
  "txThrowIf b e s = Inr (u, s') \<longleftrightarrow> \<not> b \<and> s = s'"
  by (auto simp: txReturn_def txThrowIf_def)

section \<open>The pass\<close>

datatype pass_failure = PassAborted | OperationThrew string

record 's materializer_tx =
  mt_claimDueJobs :: "nat \<Rightarrow> int \<Rightarrow> 's \<Rightarrow> pass_failure + (instant \<times> scheduled_job list) option \<times> 's"
  mt_recordOccurrences :: "new_occurrence list \<Rightarrow> 's \<Rightarrow> pass_failure + insert_result \<times> 's"
  mt_retireSuperseded :: "(nat \<times> instant) list \<Rightarrow> 's \<Rightarrow> pass_failure + nat \<times> 's"
  mt_advanceJobs :: "planned list \<Rightarrow> 's \<Rightarrow> pass_failure + unit \<times> 's"

record materializer_summary =
  mm_claimedJobs :: nat
  mm_occurrences :: nat
  mm_created :: "(nat \<times> nat \<times> string) list"
  mm_deferredJobs :: nat
  mm_misfires :: "(string \<times> misfire_policy \<times> nat) list"
  mm_retiredOccurrences :: nat

definition emptySummary :: materializer_summary where
  "emptySummary = \<lparr>mm_claimedJobs = 0, mm_occurrences = 0, mm_created = [], mm_deferredJobs = 0,
     mm_misfires = [], mm_retiredOccurrences = 0\<rparr>"

definition planOrDeferJobs ::
  "cron_lib \<Rightarrow> instant \<Rightarrow> materializer_options \<Rightarrow> scheduled_job list \<Rightarrow> planned list \<times> nat" where
  "planOrDeferJobs lib now opts jobs =
     (let plans = map (planOrDeferJob lib now opts) jobs
      in (map fst plans, length (filter snd plans)))"

text \<open>
  With the summary comes the call of the hook \<open>onSkippedDuplicates\<close>, if any: planned and
  recorded rows. \<open>aborted k\<close> is what the \<open>k\<close>-th checkpoint sees of the signal.
\<close>

definition materializePass ::
  "cron_lib \<Rightarrow> 's materializer_tx \<Rightarrow> materializer_options \<Rightarrow> (nat \<Rightarrow> bool) \<Rightarrow> 's \<Rightarrow>
     pass_failure + (materializer_summary \<times> (nat \<times> nat) option) \<times> 's" where
  "materializePass lib tx opts aborted =
     txBind (mt_claimDueJobs tx (mo_batchSize opts) (mo_lookaheadSeconds opts * 1000)) (\<lambda>claimed.
     txBind (txThrowIf (aborted 1) PassAborted) (\<lambda>_.
     case claimed of
       None \<Rightarrow> txReturn (emptySummary, None)
     | Some (now, jobs) \<Rightarrow>
         let (jobsPlanned, deferred) = planOrDeferJobs lib now opts jobs;
             planned = applyCoalesceOwnerPolicy jobsPlanned;
             rows = toNewOccurrences planned now
         in txBind (mt_recordOccurrences tx rows) (\<lambda>res.
            txBind (txThrowIf (aborted 2) PassAborted) (\<lambda>_.
            txBind (mt_retireSuperseded tx (toSuperseded planned)) (\<lambda>retired.
            txBind (txThrowIf (aborted 3) PassAborted) (\<lambda>_.
            txBind (mt_advanceJobs tx planned) (\<lambda>_.
            txReturn
              (\<lparr>mm_claimedJobs = length jobs, mm_occurrences = ir_recorded res, mm_created = ir_created res,
                mm_deferredJobs = deferred, mm_misfires = countMisfires planned,
                mm_retiredOccurrences = retired\<rparr>,
               if ir_recorded res < length rows then Some (length rows, ir_recorded res) else None))))))))"

definition materialize ::
  "cron_lib \<Rightarrow> 's materializer_tx \<Rightarrow> materializer_options \<Rightarrow> (nat \<Rightarrow> bool) \<Rightarrow> 's \<Rightarrow>
     's \<times> (pass_failure + materializer_summary \<times> (nat \<times> nat) option)" where
  "materialize lib tx opts aborted s =
     (if aborted 0 then (s, Inl PassAborted) else inTransaction (materializePass lib tx opts aborted) s)"

section \<open>The pass over the repositories\<close>

definition toAdvance :: "planned \<Rightarrow> job_advance" where
  "toAdvance e = \<lparr>ja_id = sj_id (fst e), ja_nextRunAt = pl_nextRunAt (snd e), ja_lastFiredAt = pl_lastFiredAt (snd e)\<rparr>"

definition recordIn :: "bool \<Rightarrow> new_occurrence list \<Rightarrow> scheduler_db \<Rightarrow> pass_failure + insert_result \<times> scheduler_db" where
  "recordIn isPostgres rows db =
     (case insertIgnoringDuplicates isPostgres rows 1000 (db_tasks db) of
        (tasks, res) \<Rightarrow> Inr (res, db\<lparr>db_tasks := tasks\<rparr>))"

definition retireIn :: "instant \<Rightarrow> (nat \<times> instant) list \<Rightarrow> scheduler_db \<Rightarrow> pass_failure + nat \<times> scheduler_db" where
  "retireIn now superseded db =
     (case updateToMissed now superseded (db_tasks db) of (tasks, n) \<Rightarrow> Inr (n, db\<lparr>db_tasks := tasks\<rparr>))"

definition advanceIn :: "bool \<Rightarrow> planned list \<Rightarrow> scheduler_db \<Rightarrow> pass_failure + unit \<times> scheduler_db" where
  "advanceIn isPostgres planned db =
     Inr ((), db\<lparr>db_jobs := advanceMany isPostgres (map toAdvance planned)
        (int (maxAdvanceChunkSize isPostgres)) (db_jobs db)\<rparr>)"

definition pollTransaction :: "bool \<Rightarrow> instant \<Rightarrow> nat set \<Rightarrow> scheduler_db materializer_tx" where
  "pollTransaction isPostgres now locked =
     \<lparr>mt_claimDueJobs = (\<lambda>limit lookaheadMs db. Inr (claimDue now locked limit lookaheadMs (db_jobs db), db)),
      mt_recordOccurrences = recordIn isPostgres,
      mt_retireSuperseded = retireIn now,
      mt_advanceJobs = advanceIn isPostgres\<rparr>"

section \<open>Plans and clocks\<close>

text \<open>
  A plan whose fires lie at or after the clock of its job and before the clock it leaves, in
  order.
\<close>

definition plan_ahead :: "planned \<Rightarrow> bool" where
  "plan_ahead e \<longleftrightarrow> sorted_wrt (<) (pl_occurrences (snd e)) \<and>
     (\<forall>t \<in> set (pl_occurrences (snd e)).
        (\<exists>c. sj_nextRunAt (fst e) = Some c \<and> c \<le> t) \<and> (\<forall>c. pl_nextRunAt (snd e) = Some c \<longrightarrow> t < c)) \<and>
     (\<forall>c'. pl_nextRunAt (snd e) = Some c' \<longrightarrow> (\<exists>c. sj_nextRunAt (fst e) = Some c \<and> c \<le> c'))"

lemma plan_aheadD:
  "plan_ahead e \<Longrightarrow> t \<in> set (pl_occurrences (snd e)) \<Longrightarrow> \<exists>c. sj_nextRunAt (fst e) = Some c \<and> c \<le> t"
  "plan_ahead e \<Longrightarrow> t \<in> set (pl_occurrences (snd e)) \<Longrightarrow> pl_nextRunAt (snd e) = Some c \<Longrightarrow> t < c"
  "plan_ahead e \<Longrightarrow> pl_nextRunAt (snd e) = Some c \<Longrightarrow> \<exists>c'. sj_nextRunAt (fst e) = Some c' \<and> c' \<le> c"
  unfolding plan_ahead_def by blast+

lemma policy_subseq:
  assumes "sorted_wrt (<) due" "applyMisfirePolicy due now job tr = Inr (occ, cu)"
  shows "subseq occ due"
proof (cases "overdue job now due")
  case False
  then show ?thesis using policy_simps(1) [OF assms(1)] assms(2) by simp
next
  case True
  have fut: "subseq (future now due) due" by (simp add: future_def)
  have split: "due = past now due @ future now due" by (rule past_future [OF assms(1)])
  have ne: "past now due \<noteq> []" using True by (auto simp: overdue_def past_def filter_empty_conv)
  have "subseq ([last (past now due)] @ future now due) (past now due @ future now due)"
    by (rule list_emb_append_mono) (use ne in \<open>simp_all add: subseq_singleton_left\<close>)
  then have late: "subseq (last (past now due) # future now due) due" using split by simp
  show ?thesis using policy_simps(2) [OF assms(1) True] assms(2) fut late
    by (auto split: misfire_policy.splits if_splits)
qed

lemma sorted_wrt_subseq: "subseq xs ys \<Longrightarrow> sorted_wrt P ys \<Longrightarrow> sorted_wrt P xs"
proof (induction rule: list_emb.induct)
  case (list_emb_Cons2 x y xs ys)
  then show ?case by (auto dest: list_emb_set)
qed auto

lemma planOccurrences_ahead:
  assumes p: "planOccurrences lib job now opts = Inr p" and lib: "fires_ahead lib"
  shows "plan_ahead (job, p)"
proof (cases "sj_nextRunAt job")
  case None
  then show ?thesis using p by (auto simp: planOccurrences_def plan_ahead_def rbind_Inr_iff)
next
  case (Some first)
  obtain s due where d: "startWalk lib s = Inr ()" "walk lib s (Some first) due (pl_nextRunAt p)"
      "sorted_wrt (<) due"
      "applyMisfirePolicy due now job
         (case pl_nextRunAt p of None \<Rightarrow> False | Some t \<Rightarrow> t \<le> now + mo_windowSeconds opts * 1000)
         = Inr (pl_occurrences p, pl_catchUpAt p)"
    using planOccurrences_consumed [OF p Some lib] by metis
  note w = walk_sorted [OF lib d(1) d(2)]
  have sub: "subseq (pl_occurrences p) due" by (rule policy_subseq [OF d(3,4)])
  have "set (pl_occurrences p) \<subseteq> set due" using sub by (auto elim: list_emb_set)
  moreover have "sorted_wrt (<) (pl_occurrences p)" by (rule sorted_wrt_subseq [OF sub d(3)])
  moreover have "first \<le> c" if c: "pl_nextRunAt p = Some c" for c
  proof (cases "due = []")
    case True
    then show ?thesis using d(2) c by auto
  next
    case False
    then have "first \<le> hd due" "hd due < c" using w c by auto
    then show ?thesis by simp
  qed
  ultimately show ?thesis using w Some by (auto simp: plan_ahead_def)
qed

lemma deferredPlan_ahead:
  assumes "sj_nextRunAt job = Some c" "c \<le> now + mo_lookaheadSeconds opts * 1000"
    "mo_lookaheadSeconds opts \<le> mo_planRetrySeconds opts"
  shows "plan_ahead (job, deferredPlan job now opts)"
  using assms by (simp add: plan_ahead_def deferredPlan_def)

lemma planOrDefer_job [simp]: "fst (fst (planOrDeferJob lib now opts job)) = job"
  by (simp add: planOrDeferJob_def split: sum.splits)

lemma dropLateRun_ahead: "plan_ahead e \<Longrightarrow> plan_ahead (dropLateRun e)"
  by (cases "pl_occurrences (snd e)") (auto simp: plan_ahead_def dropLateRun_def)

lemma applyCoalesce_ahead:
  assumes "\<forall>e \<in> set planned. plan_ahead e"
  shows "\<forall>e \<in> set (applyCoalesceOwnerPolicy planned). plan_ahead e"
proof
  fix e assume "e \<in> set (applyCoalesceOwnerPolicy planned)"
  then obtain i where "i < length planned" "e = applyCoalesceOwnerPolicy planned ! i"
    by (auto simp: in_set_conv_nth applyCoalesceOwnerPolicy_def)
  then show "plan_ahead e" using assms dropLateRun_ahead by (simp add: applyCoalesce_nth)
qed

lemma applyCoalesce_jobs: "map fst (applyCoalesceOwnerPolicy planned) = map fst planned"
  by (rule nth_equalityI) (simp_all add: applyCoalesce_nth)

section \<open>The interface of the pass\<close>

text \<open>
  What the pass relies on: a claim reads distinct jobs, recording adds the rows that are not
  there and counts them, retiring changes no key, advancing sets the clocks of the jobs named.
\<close>

definition rowKeys :: "new_occurrence list \<Rightarrow> (nat \<times> instant) list" where
  "rowKeys rows = map (\<lambda>no. (no_jobId no, no_scheduledFor no)) rows"

definition plannedKeys :: "planned list \<Rightarrow> (nat \<times> instant) list" where
  "plannedKeys planned = concat (map (\<lambda>e. map (Pair (sj_id (fst e))) (pl_occurrences (snd e))) planned)"

definition advancedBy :: "planned list \<Rightarrow> scheduled_job \<Rightarrow> scheduled_job" where
  "advancedBy planned j =
     (case find (\<lambda>e. sj_id (fst e) = sj_id j) planned of
        None \<Rightarrow> j
      | Some e \<Rightarrow> j\<lparr>sj_nextRunAt := pl_nextRunAt (snd e), sj_lastFiredAt := pl_lastFiredAt (snd e)\<rparr>)"

text \<open>No recorded occurrence lies at or after the clock of its job.\<close>

definition clocks_ahead :: "scheduled_job list \<Rightarrow> (nat \<times> instant) set \<Rightarrow> bool" where
  "clocks_ahead jobs keys \<longleftrightarrow>
     (\<forall>j \<in> set jobs. \<forall>t c. (sj_id j, t) \<in> keys \<and> sj_nextRunAt j = Some c \<longrightarrow> t < c)"

lemma rowKeys_toNewOccurrences: "rowKeys (toNewOccurrences planned now) = plannedKeys planned"
  by (induction planned)
     (auto simp: rowKeys_def toNewOccurrences_def plannedKeys_def toNewOccurrence_def Let_def)

lemma rowKeys_length [simp]: "length (rowKeys rows) = length rows"
  by (simp add: rowKeys_def)

lemma plannedKeys_mem:
  "(i, t) \<in> set (plannedKeys planned) \<longleftrightarrow> (\<exists>e \<in> set planned. sj_id (fst e) = i \<and> t \<in> set (pl_occurrences (snd e)))"
  by (auto simp: plannedKeys_def)

lemma plannedKeys_distinct:
  "\<forall>e \<in> set planned. plan_ahead e \<Longrightarrow> distinct (jobIds (map fst planned)) \<Longrightarrow> distinct (plannedKeys planned)"
proof (induction planned)
  case (Cons e planned)
  have "distinct (pl_occurrences (snd e))"
    using Cons.prems(1) by (auto simp: plan_ahead_def strict_sorted_iff)
  then have here: "distinct (map (Pair (sj_id (fst e))) (pl_occurrences (snd e)))" by (simp add: distinct_map inj_on_def)
  have "set (map (Pair (sj_id (fst e))) (pl_occurrences (snd e))) \<inter> set (plannedKeys planned) = {}"
  proof -
    have "\<not> (\<exists>x \<in> set planned. sj_id (fst x) = sj_id (fst e))"
      using Cons.prems(2) by (simp add: jobIds_def image_iff) metis
    then have "(sj_id (fst e), t) \<notin> set (plannedKeys planned)" for t
      unfolding plannedKeys_mem by blast
    then show ?thesis by auto
  qed
  then show ?case using Cons here by (simp add: plannedKeys_def jobIds_def)
qed (simp add: plannedKeys_def)

lemma find_planned:
  assumes "distinct (jobIds (map fst planned))" "e \<in> set planned"
  shows "find (\<lambda>x. sj_id (fst x) = sj_id (fst e)) planned = Some e"
  using assms
proof (induction planned)
  case (Cons x xs)
  then show ?case by (auto simp: jobIds_def)
qed simp

lemma advancedBy_id [simp]: "sj_id (advancedBy planned j) = sj_id j"
  by (simp add: advancedBy_def split: option.splits)

text \<open>The arithmetic of the pass: what it plans is not recorded yet, and stays behind the clocks.\<close>

lemma planned_ahead_of_recorded:
  assumes jobs: "distinct (jobIds jobs)" and plansOf: "\<forall>e \<in> set planned. plan_ahead e \<and> fst e \<in> set jobs"
    and ids: "distinct (jobIds (map fst planned))" and clocks: "clocks_ahead jobs keys"
  shows "set (plannedKeys planned) \<inter> keys = {}"
    and "clocks_ahead (map (advancedBy planned) jobs) (keys \<union> set (plannedKeys planned))"
proof -
  have late: "t < c" if "e \<in> set planned" "(sj_id (fst e), t) \<in> keys" "sj_nextRunAt (fst e) = Some c" for e t c
    using clocks plansOf that by (auto simp: clocks_ahead_def)
  show "set (plannedKeys planned) \<inter> keys = {}"
  proof (rule ccontr)
    assume "\<not> ?thesis"
    then obtain e t where e: "e \<in> set planned" "t \<in> set (pl_occurrences (snd e))" "(sj_id (fst e), t) \<in> keys"
      by (auto simp: plannedKeys_mem)
    then obtain c where "sj_nextRunAt (fst e) = Some c" "c \<le> t" using plansOf plan_aheadD(1) by blast
    with late [OF e(1,3)] show False by auto
  qed
  have "t < c" if j: "j \<in> set jobs" and k: "(sj_id j, t) \<in> keys \<union> set (plannedKeys planned)"
    and c: "sj_nextRunAt (advancedBy planned j) = Some c" for j t c
  proof (cases "\<exists>e \<in> set planned. sj_id (fst e) = sj_id j")
    case True
    then obtain e where e: "e \<in> set planned" "sj_id (fst e) = sj_id j" by blast
    then have nx: "pl_nextRunAt (snd e) = Some c"
      using find_planned [OF ids e(1)] c by (simp add: advancedBy_def)
    have only: "x = e" if "x \<in> set planned" "sj_id (fst x) = sj_id j" for x
      using find_planned [OF ids e(1)] find_planned [OF ids that(1)] e(2) that(2) by simp
    obtain c0 where c0: "sj_nextRunAt (fst e) = Some c0" "c0 \<le> c" using plansOf e(1) nx plan_aheadD(3) by blast
    show ?thesis
    proof (cases "(sj_id j, t) \<in> keys")
      case True
      then show ?thesis using late [OF e(1), of t c0] c0 e(2) by simp
    next
      case False
      then have "t \<in> set (pl_occurrences (snd e))" using k only by (auto simp: plannedKeys_mem)
      then show ?thesis using plansOf e(1) nx plan_aheadD(2) by blast
    qed
  next
    case False
    then have "find (\<lambda>e. sj_id (fst e) = sj_id j) planned = None" by (auto simp: find_None_iff)
    then have "sj_nextRunAt j = Some c" using c by (simp add: advancedBy_def)
    moreover have "(sj_id j, t) \<in> keys" using k False by (auto simp: plannedKeys_mem)
    ultimately show ?thesis using clocks j by (auto simp: clocks_ahead_def)
  qed
  then show "clocks_ahead (map (advancedBy planned) jobs) (keys \<union> set (plannedKeys planned))"
    by (auto simp: clocks_ahead_def)
qed

locale materializer_store =
  fixes tx :: "'s materializer_tx"
    and inv :: "'s \<Rightarrow> bool"
    and jobs :: "'s \<Rightarrow> scheduled_job list"
    and recorded :: "'s \<Rightarrow> (nat \<times> instant) set"
  assumes distinct_jobs: "inv s \<Longrightarrow> distinct (jobIds (jobs s))"
    and claims: "inv s \<Longrightarrow> mt_claimDueJobs tx n ms s = Inr (Some (now, claimed), s') \<Longrightarrow>
        s' = s \<and> set claimed \<subseteq> set (jobs s) \<and> distinct (jobIds claimed)"
    and claims_none: "mt_claimDueJobs tx n ms s = Inr (None, s') \<Longrightarrow> s' = s"
    and records: "inv s \<Longrightarrow> mt_recordOccurrences tx rows s = Inr (res, s') \<Longrightarrow>
        inv s' \<and> jobs s' = jobs s \<and> recorded s' = recorded s \<union> set (rowKeys rows)
        \<and> (distinct (rowKeys rows) \<and> set (rowKeys rows) \<inter> recorded s = {} \<longrightarrow> ir_recorded res = length rows)"
    and retires: "inv s \<Longrightarrow> mt_retireSuperseded tx superseded s = Inr (n, s') \<Longrightarrow>
        inv s' \<and> jobs s' = jobs s \<and> recorded s' = recorded s"
    and advances: "inv s \<Longrightarrow> distinct (jobIds (map fst planned)) \<Longrightarrow>
        mt_advanceJobs tx planned s = Inr ((), s') \<Longrightarrow>
        inv s' \<and> jobs s' = map (advancedBy planned) (jobs s) \<and> recorded s' = recorded s"
begin

lemma pass_cases:
  assumes inv: "inv s" and run: "materializePass lib tx opts aborted s = Inr ((smry, skipped), s')"
  obtains (idle) "s' = s" "skipped = None"
  | (busy) now js planned res n s2 s3 where
      "mt_claimDueJobs tx (mo_batchSize opts) (mo_lookaheadSeconds opts * 1000) s = Inr (Some (now, js), s)"
      "planned = applyCoalesceOwnerPolicy (map (fst \<circ> planOrDeferJob lib now opts) js)" "map fst planned = js"
      "mt_recordOccurrences tx (toNewOccurrences planned now) s = Inr (res, s2)"
      "mt_retireSuperseded tx (toSuperseded planned) s2 = Inr (n, s3)"
      "mt_advanceJobs tx planned s3 = Inr ((), s')"
      "skipped = (if ir_recorded res < length (toNewOccurrences planned now)
         then Some (length (toNewOccurrences planned now), ir_recorded res) else None)"
proof -
  obtain claimed s1 where c: "mt_claimDueJobs tx (mo_batchSize opts) (mo_lookaheadSeconds opts * 1000) s = Inr (claimed, s1)"
    using run by (auto simp: materializePass_def txBind_Inr_iff)
  show ?thesis
  proof (cases claimed)
    case None
    then show ?thesis using run c claims_none [OF c [unfolded None]] idle
      by (auto simp: materializePass_def txBind_Inr_iff)
  next
    case (Some nj)
    obtain now js where nj: "nj = (now, js)" by (cases nj)
    have s1: "s1 = s" using claims [OF inv c [unfolded Some nj]] by blast
    define planned where "planned = applyCoalesceOwnerPolicy (map (fst \<circ> planOrDeferJob lib now opts) js)"
    have jobsOf: "map fst planned = js" unfolding planned_def applyCoalesce_jobs by (simp add: map_idI)
    obtain res s2 n s3 where
        "mt_recordOccurrences tx (toNewOccurrences planned now) s = Inr (res, s2)"
        "mt_retireSuperseded tx (toSuperseded planned) s2 = Inr (n, s3)"
        "mt_advanceJobs tx planned s3 = Inr ((), s')"
        "skipped = (if ir_recorded res < length (toNewOccurrences planned now)
           then Some (length (toNewOccurrences planned now), ir_recorded res) else None)"
      using run c Some nj s1
      by (auto simp: materializePass_def txBind_Inr_iff planOrDeferJobs_def Let_def planned_def comp_def)
    then show ?thesis using busy [OF _ planned_def jobsOf] c Some nj s1 by simp
  qed
qed

text \<open>A pass changes nothing of a job but its clock, and only of the jobs it claimed.\<close>

lemma pass_advances_jobs:
  assumes "inv s" "materializePass lib tx opts aborted s = Inr ((smry, skipped), s')"
  shows "inv s' \<and> (\<exists>planned. jobs s' = map (advancedBy planned) (jobs s) \<and> (planned = [] \<or>
     (\<exists>now. mt_claimDueJobs tx (mo_batchSize opts) (mo_lookaheadSeconds opts * 1000) s
        = Inr (Some (now, map fst planned), s))))"
proof (rule pass_cases [OF assms])
  assume "s' = s"
  then show ?thesis using assms(1) by (auto intro!: exI [of _ "[]"] simp: advancedBy_def map_idI)
next
  fix now js planned res n s2 s3
  assume c: "mt_claimDueJobs tx (mo_batchSize opts) (mo_lookaheadSeconds opts * 1000) s = Inr (Some (now, js), s)"
    and p: "map fst planned = js" and r: "mt_recordOccurrences tx (toNewOccurrences planned now) s = Inr (res, s2)"
      "mt_retireSuperseded tx (toSuperseded planned) s2 = Inr (n, s3)" "mt_advanceJobs tx planned s3 = Inr ((), s')"
  note rec = records [OF assms(1) r(1)]
  note ret = retires [OF conjunct1 [OF rec] r(2)]
  have "distinct (jobIds (map fst planned))" using claims [OF assms(1) c] p by simp
  from advances [OF conjunct1 [OF ret] this r(3)] show ?thesis using rec ret c p by auto
qed

text \<open>
  When the clocks are ahead of what is recorded, a pass records every occurrence it plans, none
  of them a duplicate, and leaves the clocks ahead.
\<close>

lemma pass_records_what_it_plans:
  assumes inv: "inv s" and clocks: "clocks_ahead (jobs s) (recorded s)"
    and run: "materializePass lib tx opts aborted s = Inr ((smry, skipped), s')"
    and plans: "\<And>now claimed j. mt_claimDueJobs tx (mo_batchSize opts) (mo_lookaheadSeconds opts * 1000) s
        = Inr (Some (now, claimed), s) \<Longrightarrow> j \<in> set claimed \<Longrightarrow> plan_ahead (fst (planOrDeferJob lib now opts j))"
  shows "inv s' \<and> clocks_ahead (jobs s') (recorded s') \<and> skipped = None \<and> recorded s \<subseteq> recorded s'"
proof (rule pass_cases [OF inv run])
  assume "s' = s" "skipped = None"
  then show ?thesis using inv clocks by simp
next
  fix now js planned res n s2 s3
  assume c: "mt_claimDueJobs tx (mo_batchSize opts) (mo_lookaheadSeconds opts * 1000) s = Inr (Some (now, js), s)"
    and p: "planned = applyCoalesceOwnerPolicy (map (fst \<circ> planOrDeferJob lib now opts) js)" "map fst planned = js"
    and r: "mt_recordOccurrences tx (toNewOccurrences planned now) s = Inr (res, s2)"
      "mt_retireSuperseded tx (toSuperseded planned) s2 = Inr (n, s3)" "mt_advanceJobs tx planned s3 = Inr ((), s')"
      "skipped = (if ir_recorded res < length (toNewOccurrences planned now)
         then Some (length (toNewOccurrences planned now), ir_recorded res) else None)"
  note cl = claims [OF inv c]
  have ahead: "\<forall>e \<in> set planned. plan_ahead e"
    unfolding p(1) by (rule applyCoalesce_ahead) (use plans [OF c] in auto)
  have ids: "distinct (jobIds (map fst planned))" using cl p(2) by simp
  have plansOf: "\<forall>e \<in> set planned. plan_ahead e \<and> fst e \<in> set (jobs s)"
    using ahead cl p(2) by (metis imageI list.set_map subsetD)
  note new = planned_ahead_of_recorded [OF distinct_jobs [OF inv] plansOf ids clocks]
  note rec = records [OF inv r(1)]
  note ret = retires [OF conjunct1 [OF rec] r(2)]
  note adv = advances [OF conjunct1 [OF ret] ids r(3)]
  have "ir_recorded res = length (toNewOccurrences planned now)"
    using rec new(1) plannedKeys_distinct [OF ahead ids] by (simp add: rowKeys_toNewOccurrences)
  then show ?thesis using new(2) rec ret adv r(4) by (simp add: rowKeys_toNewOccurrences)
qed

end

text \<open>A poll claims only jobs that are due, so a job put off never moves back.\<close>

locale polling_store = materializer_store tx inv jobs recorded
  for tx :: "'s materializer_tx" and inv jobs recorded +
  assumes claims_due: "inv s \<Longrightarrow> mt_claimDueJobs tx n ms s = Inr (Some (now, claimed), s') \<Longrightarrow>
      j \<in> set claimed \<Longrightarrow> \<exists>c. sj_nextRunAt j = Some c \<and> c \<le> now + ms"
begin

lemma poll_records_what_it_plans:
  assumes "inv s" "clocks_ahead (jobs s) (recorded s)" "fires_ahead lib"
    "mo_lookaheadSeconds opts \<le> mo_planRetrySeconds opts"
    "materializePass lib tx opts aborted s = Inr ((smry, skipped), s')"
  shows "inv s' \<and> clocks_ahead (jobs s') (recorded s') \<and> skipped = None \<and> recorded s \<subseteq> recorded s'"
proof (rule pass_records_what_it_plans [OF assms(1,2,5)])
  fix now claimed j
  assume c: "mt_claimDueJobs tx (mo_batchSize opts) (mo_lookaheadSeconds opts * 1000) s = Inr (Some (now, claimed), s)"
    and j: "j \<in> set claimed"
  obtain t where t: "sj_nextRunAt j = Some t" "t \<le> now + mo_lookaheadSeconds opts * 1000"
    using claims_due [OF assms(1) c j] by blast
  show "plan_ahead (fst (planOrDeferJob lib now opts j))"
    using planOccurrences_ahead [of lib j now opts] deferredPlan_ahead [OF t assms(4)] assms(3)
    by (auto simp: planOrDeferJob_def split: sum.splits)
qed

end

section \<open>The repositories provide the interface\<close>

lemma concat_chunksOf:
  assumes "0 < n"
  shows "concat (chunksOf n xs) = xs"
proof -
  have steps: "concat (map (\<lambda>i. take n (drop (i * n) xs)) [0..<k]) = take (k * n) xs" for k
  proof (induction k)
    case (Suc k)
    have "take (Suc k * n) xs = take (k * n) xs @ take n (drop (k * n) xs)"
      by (metis add.commute mult_Suc take_add)
    then show ?case using Suc by simp
  qed simp
  have "length xs \<le> (length xs + n - 1) div n * n"
  proof (cases "length xs")
    case (Suc k)
    then show ?thesis using assms dividend_less_times_div [OF assms, of k] by (simp add: algebra_simps Suc_le_eq)
  qed simp
  then show ?thesis unfolding chunksOf_def steps by simp
qed

definition tableKeys :: "task_table \<Rightarrow> (nat \<times> instant) set" where
  "tableKeys tbl = set (map occurrenceKey (tt_rows tbl))"

lemma insertOne_keys:
  "tableKeys (fst (insertOne no tbl)) = insert (no_jobId no, no_scheduledFor no) (tableKeys tbl)"
  "(no_jobId no, no_scheduledFor no) \<notin> tableKeys tbl \<Longrightarrow> length (snd (insertOne no tbl)) = 1"
  by (auto simp: insertOne_def tableKeys_def Let_def newRow_def occurrenceKey_def)

lemma insertAll_keys:
  "tableKeys (fst (insertAll nos tbl)) = tableKeys tbl \<union> set (rowKeys nos)"
  "distinct (rowKeys nos) \<Longrightarrow> set (rowKeys nos) \<inter> tableKeys tbl = {} \<Longrightarrow>
     length (snd (insertAll nos tbl)) = length nos"
proof (induction nos arbitrary: tbl)
  case (Cons no nos)
  {
    case 1
    then show ?case using Cons.IH(1) [of "fst (insertOne no tbl)"] insertOne_keys(1) [of no tbl]
      by (auto simp: rowKeys_def split: prod.splits)
  next
    case 2
    then have "length (snd (insertOne no tbl)) = 1" "set (rowKeys nos) \<inter> tableKeys (fst (insertOne no tbl)) = {}"
      using insertOne_keys [of no tbl] by (auto simp: rowKeys_def)
    then show ?case using Cons.IH(2) [of "fst (insertOne no tbl)"] 2
      by (auto simp: rowKeys_def split: prod.splits)
  }
qed (simp_all add: rowKeys_def)

lemma insertAll_snd:
  "snd (insertAll (xs @ ys) tbl) = snd (insertAll xs tbl) @ snd (insertAll ys (fst (insertAll xs tbl)))"
  by (induction xs arbitrary: tbl) (simp_all add: split_beta)

lemma insertChunks_recorded:
  "ir_recorded (snd (insertChunks pg chunks res tbl)) = ir_recorded res + length (snd (insertAll (concat chunks) tbl))"
proof (induction chunks arbitrary: res tbl)
  case (Cons chunk chunks)
  then show ?case by (simp add: split_beta insertAll_snd)
qed simp

lemma updateRows_keys: "keeps_identity f \<Longrightarrow> tableKeys (fst (updateRows p f tbl)) = tableKeys tbl"
proof -
  assume "keeps_identity f"
  then have "occurrenceKey \<circ> (\<lambda>r. if p r then f r else r) = occurrenceKey" by (auto simp: keeps_identity_def)
  then show ?thesis by (simp only: tableKeys_def updateRows_rows map_map)
qed

lemma updateToMissed_keys [simp]: "tableKeys (fst (updateToMissed now superseded tbl)) = tableKeys tbl"
  unfolding updateToMissed_def
  by (simp add: updateRows_keys keeps_identity_def occurrenceKey_def)

lemma advanceChunk_rows:
  "jt_rows (advanceChunk (map toAdvance planned) jobs) = map (advancedBy planned) (jt_rows jobs)"
proof -
  have "(case find (\<lambda>a. ja_id a = sj_id j) (map toAdvance planned) of None \<Rightarrow> j
         | Some a \<Rightarrow> j\<lparr>sj_nextRunAt := ja_nextRunAt a, sj_lastFiredAt := ja_lastFiredAt a\<rparr>) = advancedBy planned j" for j
    by (induction planned) (auto simp: advancedBy_def toAdvance_def)
  moreover have "advancedBy planned j = j" if "sj_id j \<notin> set (map ja_id (map toAdvance planned))" for j
  proof -
    have "find (\<lambda>e. sj_id (fst e) = sj_id j) planned = None" using that
      by (auto simp: find_None_iff toAdvance_def) (metis fst_conv imageI)
    then show ?thesis by (simp add: advancedBy_def)
  qed
  ultimately show ?thesis by (auto simp: advanceChunk_def)
qed

text \<open>Advancing chunk by chunk is one advance, since no job is claimed twice.\<close>

lemma advancedBy_append:
  assumes "distinct (jobIds (map fst (ps @ qs)))"
  shows "advancedBy qs (advancedBy ps j) = advancedBy (ps @ qs) j"
proof (cases "find (\<lambda>e. sj_id (fst e) = sj_id j) ps")
  case None
  then have "find (\<lambda>e. sj_id (fst e) = sj_id j) (ps @ qs) = find (\<lambda>e. sj_id (fst e) = sj_id j) qs"
    by (induction ps) (auto split: if_splits)
  then show ?thesis using None by (simp add: advancedBy_def)
next
  case (Some e)
  then have e: "e \<in> set ps" "sj_id (fst e) = sj_id j" by (auto simp: find_Some_iff)
  then have "find (\<lambda>e. sj_id (fst e) = sj_id j) (ps @ qs) = Some e"
    using find_planned [OF assms, of e] by simp
  moreover have "find (\<lambda>x. sj_id (fst x) = sj_id j) qs = None"
  proof -
    have "sj_id (fst x) \<noteq> sj_id (fst e)" if "x \<in> set qs" for x
      using assms that e(1) by (auto simp: jobIds_def)
    then show ?thesis using e(2) by (auto simp: find_None_iff)
  qed
  ultimately show ?thesis using Some by (simp add: advancedBy_def)
qed

lemma advanceChunks_rows:
  "distinct (jobIds (map fst (concat pss))) \<Longrightarrow>
     jt_rows (foldl (\<lambda>js ps. advanceChunk (map toAdvance ps) js) jobs pss) = map (advancedBy (concat pss)) (jt_rows jobs)"
proof (induction pss arbitrary: jobs)
  case Nil
  then show ?case by (simp add: advancedBy_def map_idI)
next
  case (Cons ps pss)
  then have "distinct (jobIds (map fst (concat pss)))" by (simp add: jobIds_def)
  from Cons.IH [OF this, of "advanceChunk (map toAdvance ps) jobs"] show ?case
    using advancedBy_append [of ps "concat pss"] Cons.prems by (simp add: advanceChunk_rows)
qed

lemma advanceMany_rows:
  assumes "distinct (jobIds (map fst planned))"
  shows "jt_rows (advanceMany pg (map toAdvance planned) (int (maxAdvanceChunkSize pg)) jobs)
    = map (advancedBy planned) (jt_rows jobs)"
proof -
  let ?n = "clampChunkSize (int (maxAdvanceChunkSize pg)) (maxAdvanceChunkSize pg)"
  have pos: "0 < ?n" by (simp add: clampChunkSize_def maxAdvanceChunkSize_def)
  have "foldl (\<lambda>js chunk. advanceChunk chunk js) jobs (map (map toAdvance) pss)
      = foldl (\<lambda>js ps. advanceChunk (map toAdvance ps) js) jobs pss" for pss
    by (induction pss arbitrary: jobs) simp_all
  moreover have "chunksOf ?n (map toAdvance planned) = map (map toAdvance) (chunksOf ?n planned)"
    by (simp add: chunksOf_def take_map drop_map)
  ultimately show ?thesis
    using advanceChunks_rows [of "chunksOf ?n planned" jobs] assms concat_chunksOf [OF pos, of planned]
    by (simp add: advanceMany_def)
qed

lemma advanceChunk_nextId: "jt_nextId (advanceChunk advances jobs) = jt_nextId jobs"
  by (simp add: advanceChunk_def)

lemma advanceMany_nextId: "jt_nextId (advanceMany pg advances n jobs) = jt_nextId jobs"
proof -
  have "jt_nextId (foldl (\<lambda>js chunk. advanceChunk chunk js) jobs chunks) = jt_nextId jobs" for chunks
    by (induction chunks arbitrary: jobs) (simp_all add: advanceChunk_nextId)
  then show ?thesis by (simp add: advanceMany_def)
qed

lemma advancedBy_simps [simp]:
  "sj_name (advancedBy planned j) = sj_name j" "sj_owner (advancedBy planned j) = sj_owner j"
  "sj_enabled (advancedBy planned j) = sj_enabled j" "sj_orphanedAt (advancedBy planned j) = sj_orphanedAt j"
  "sj_createdAt (advancedBy planned j) = sj_createdAt j"
  by (simp_all add: advancedBy_def split: option.splits)

lemma advanceMany_ok:
  assumes "jobs_ok jobs" "distinct (jobIds (map fst planned))"
  shows "jobs_ok (advanceMany pg (map toAdvance planned) (int (maxAdvanceChunkSize pg)) jobs)"
  using assms(1) by (simp add: jobs_ok_def advanceMany_rows [OF assms(2)] advanceMany_nextId jobIds_def comp_def)

text \<open>The tables the pass needs in order.\<close>

definition stores_ok :: "scheduler_db \<Rightarrow> bool" where
  "stores_ok db \<longleftrightarrow> jobs_ok (db_jobs db) \<and> table_ok (db_tasks db)"

lemma recordIn_laws:
  assumes "stores_ok db" "recordIn pg rows db = Inr (res, db')"
  shows "stores_ok db' \<and> db_jobs db' = db_jobs db
    \<and> tableKeys (db_tasks db') = tableKeys (db_tasks db) \<union> set (rowKeys rows)
    \<and> (distinct (rowKeys rows) \<and> set (rowKeys rows) \<inter> tableKeys (db_tasks db) = {} \<longrightarrow> ir_recorded res = length rows)"
proof -
  let ?ins = "insertIgnoringDuplicates pg rows 1000 (db_tasks db)"
  have r: "res = snd ?ins" "db' = db\<lparr>db_tasks := fst ?ins\<rparr>" using assms(2) by (auto simp: recordIn_def split: prod.splits)
  have "concat (chunksOf 1000 rows) = rows" by (rule concat_chunksOf) simp
  then have ins: "fst ?ins = fst (insertAll rows (db_tasks db))"
      "ir_recorded res = length (snd (insertAll rows (db_tasks db)))"
    using r(1) by (simp_all add: insertIgnoringDuplicates_def insertChunks_rows insertChunks_recorded)
  show ?thesis
    using assms(1) insertAll_ok [of "db_tasks db" rows] insertAll_keys [of rows "db_tasks db"] ins r(2)
    by (simp add: stores_ok_def)
qed

lemma retireIn_laws:
  assumes "stores_ok db" "retireIn now superseded db = Inr (n, db')"
  shows "stores_ok db' \<and> db_jobs db' = db_jobs db \<and> tableKeys (db_tasks db') = tableKeys (db_tasks db)"
proof -
  have d: "db' = db\<lparr>db_tasks := fst (updateToMissed now superseded (db_tasks db))\<rparr>"
    using assms(2) by (auto simp: retireIn_def split: prod.splits)
  have "table_ok (fst (updateToMissed now superseded (db_tasks db)))"
    using background_ok [OF bg_missed] assms(1) by (simp add: stores_ok_def)
  then show ?thesis using d assms(1) by (simp add: stores_ok_def)
qed

lemma advanceIn_laws:
  assumes "stores_ok db" "distinct (jobIds (map fst planned))" "advanceIn pg planned db = Inr ((), db')"
  shows "stores_ok db' \<and> jt_rows (db_jobs db') = map (advancedBy planned) (jt_rows (db_jobs db))
    \<and> db_tasks db' = db_tasks db"
proof -
  have d: "db' = db\<lparr>db_jobs := advanceMany pg (map toAdvance planned) (int (maxAdvanceChunkSize pg)) (db_jobs db)\<rparr>"
    using assms(3) by (simp add: advanceIn_def)
  show ?thesis unfolding d using assms(1) advanceMany_ok [OF _ assms(2)] advanceMany_rows [OF assms(2)]
    by (simp add: stores_ok_def)
qed

lemma distinct_take_sort: "distinct (map f xs) \<Longrightarrow> distinct (map f (take n (sort_key g (filter p xs))))"
proof -
  assume "distinct (map f xs)"
  then have "distinct xs" "inj_on f (set xs)" by (simp_all add: distinct_map)
  then show ?thesis
    by (auto simp: distinct_map intro!: inj_on_subset [of f "set xs"] dest: in_set_takeD)
qed

lemma claimDue_laws:
  assumes "jobs_ok jobs" "claimDue now locked n ms jobs = Some (now', claimed)"
  shows "now' = now \<and> set claimed \<subseteq> set (jt_rows jobs) \<and> distinct (jobIds claimed) \<and> (\<forall>j \<in> set claimed. jobDue now ms j)"
proof -
  have c: "now' = now" "claimed = take n (sort_key (\<lambda>j. the (sj_nextRunAt j))
      (filter (\<lambda>j. jobDue now ms j \<and> sj_id j \<notin> locked) (jt_rows jobs)))"
    using assms(2) by (auto simp: claimDue_def Let_def split: if_splits)
  show ?thesis unfolding c(2) using assms(1) c(1) distinct_take_sort [of sj_id "jt_rows jobs"]
    by (auto simp: jobs_ok_def jobIds_def dest: in_set_takeD)
qed

interpretation poll: polling_store "pollTransaction pg now locked" stores_ok
    "\<lambda>db. jt_rows (db_jobs db)" "\<lambda>db. tableKeys (db_tasks db)" for pg now locked
proof unfold_locales
  fix n ms s t claimed s' j
  assume ok: "stores_ok s"
    and c: "mt_claimDueJobs (pollTransaction pg now locked) n ms s = Inr (Some (t, claimed), s')"
  then have cl: "claimDue now locked n ms (db_jobs s) = Some (t, claimed)" "s' = s" by (auto simp: pollTransaction_def)
  note laws = claimDue_laws [OF _ cl(1)]
  show "s' = s \<and> set claimed \<subseteq> set (jt_rows (db_jobs s)) \<and> distinct (jobIds claimed)"
    using laws ok cl(2) by (simp add: stores_ok_def)
  show "\<exists>c. sj_nextRunAt j = Some c \<and> c \<le> t + ms" if "j \<in> set claimed"
    using laws ok that by (auto simp: stores_ok_def jobDue_def split: option.splits)
next
  fix rows s res s'
  assume "stores_ok s" "mt_recordOccurrences (pollTransaction pg now locked) rows s = Inr (res, s')"
  then show "stores_ok s' \<and> jt_rows (db_jobs s') = jt_rows (db_jobs s)
      \<and> tableKeys (db_tasks s') = tableKeys (db_tasks s) \<union> set (rowKeys rows)
      \<and> (distinct (rowKeys rows) \<and> set (rowKeys rows) \<inter> tableKeys (db_tasks s) = {} \<longrightarrow> ir_recorded res = length rows)"
    using recordIn_laws [of s pg rows res s'] by (simp add: pollTransaction_def)
next
  fix superseded s n s'
  assume "stores_ok s" "mt_retireSuperseded (pollTransaction pg now locked) superseded s = Inr (n, s')"
  then show "stores_ok s' \<and> jt_rows (db_jobs s') = jt_rows (db_jobs s) \<and> tableKeys (db_tasks s') = tableKeys (db_tasks s)"
    using retireIn_laws [of s now superseded n s'] by (simp add: pollTransaction_def)
next
  fix s planned s'
  assume "stores_ok s" "distinct (jobIds (map fst planned))"
    "mt_advanceJobs (pollTransaction pg now locked) planned s = Inr ((), s')"
  then show "stores_ok s' \<and> jt_rows (db_jobs s') = map (advancedBy planned) (jt_rows (db_jobs s))
      \<and> tableKeys (db_tasks s') = tableKeys (db_tasks s)"
    using advanceIn_laws [of s planned pg s'] by (simp add: pollTransaction_def)
qed (auto simp: pollTransaction_def stores_ok_def jobs_ok_def)

end
