(* ===== verification/SchedulerProperties.thy ===== *)
theory SchedulerProperties
  imports SchedulerRuns Materialize
begin

text \<open>
  What the durable scheduler guarantees: of its planning passes, of the table of occurrences
  under any interleaving of instances, sweeps and passes, and of its upkeep. Concrete runs show
  that the hypotheses can hold, and where the code departs from its documentation.
\<close>

section \<open>Planning\<close>

text \<open>A recurring cron: the candidates are the fires of the cron after the last fire, in order.\<close>


text \<open>Several passes over one job: each plans at its instant and advances the job's clock.\<close>

definition advanceJob :: "scheduled_job \<Rightarrow> plan \<Rightarrow> scheduled_job" where
  "advanceJob job p = job\<lparr>sj_nextRunAt := pl_nextRunAt p, sj_lastFiredAt := pl_lastFiredAt p\<rparr>"

fun planPasses :: "cron_lib \<Rightarrow> materializer_options \<Rightarrow> instant list \<Rightarrow> scheduled_job \<Rightarrow>
    sched_failure + instant list \<times> scheduled_job" where
  "planPasses lib opts [] job = Inr ([], job)"
| "planPasses lib opts (now # nows) job =
     rbind (planOccurrences lib job now opts) (\<lambda>p.
     rbind (planPasses lib opts nows (advanceJob job p)) (\<lambda>(rest, job'). Inr (pl_occurrences p @ rest, job')))"

fun consumedBy :: "cron_lib \<Rightarrow> materializer_options \<Rightarrow> instant list \<Rightarrow> scheduled_job \<Rightarrow>
    sched_failure + instant list" where
  "consumedBy lib opts [] job = Inr []"
| "consumedBy lib opts (now # nows) job =
     rbind (consumed lib job now opts) (\<lambda>(due, _).
     rbind (planOccurrences lib job now opts) (\<lambda>p.
     rbind (consumedBy lib opts nows (advanceJob job p)) (\<lambda>rest. Inr (due @ rest))))"

lemma advanceJob_resolve [simp]: "resolveSchedule (advanceJob job p) z = resolveSchedule job z"
  by (cases "sj_kind job") (simp_all add: advanceJob_def resolveSchedule_def)

lemma passes_walk:
  assumes "fires_ahead lib" "resolveSchedule job (mo_defaultTimezone opts) = Inr s"
    "planPasses lib opts nows job = Inr (occ, job')"
  shows "\<exists>due. consumedBy lib opts nows job = Inr due \<and> walk lib s (sj_nextRunAt job) due (sj_nextRunAt job')
     \<and> subseq occ due \<and> (due \<noteq> [] \<longrightarrow> startWalk lib s = Inr ())"
  using assms(2,3)
proof (induction nows arbitrary: job occ)
  case (Cons now nows)
  obtain p rest where p: "planOccurrences lib job now opts = Inr p"
    and rest: "planPasses lib opts nows (advanceJob job p) = Inr (rest, job')" and occ: "occ = pl_occurrences p @ rest"
    using Cons.prems(2) by (auto simp: rbind_Inr_iff split: prod.splits)
  obtain due2 where due2: "consumedBy lib opts nows (advanceJob job p) = Inr due2"
      "walk lib s (sj_nextRunAt (advanceJob job p)) due2 (sj_nextRunAt job')" "subseq rest due2" "due2 \<noteq> [] \<longrightarrow> startWalk lib s = Inr ()"
    using Cons.IH [OF _ rest] Cons.prems(1) by auto
  have clock: "sj_nextRunAt (advanceJob job p) = pl_nextRunAt p" by (simp add: advanceJob_def)
  note due2 = due2 [unfolded clock]
  show ?case
  proof (cases "sj_nextRunAt job")
    case None
    then have "pl_occurrences p = []" "pl_nextRunAt p = None" "consumed lib job now opts = Inr ([], None)"
      using p Cons.prems(1) by (auto simp: planOccurrences_def consumed_def)
    then show ?thesis using due2 p occ None by (auto simp: rbind_Inr_iff)
  next
    case (Some first)
    obtain s' due where d: "resolveSchedule job (mo_defaultTimezone opts) = Inr s'" "startWalk lib s' = Inr ()"
        "consumed lib job now opts = Inr (due, pl_nextRunAt p)" "walk lib s' (Some first) due (pl_nextRunAt p)"
        "sorted_wrt (<) due"
        "applyMisfirePolicy due now job
           (case pl_nextRunAt p of None \<Rightarrow> False | Some t \<Rightarrow> t \<le> now + mo_windowSeconds opts * 1000)
           = Inr (pl_occurrences p, pl_catchUpAt p)"
      using planOccurrences_consumed [OF p Some assms(1)] by metis
    have s: "s' = s" using d(1) Cons.prems(1) by simp
    have "subseq (pl_occurrences p @ rest) (due @ due2)"
      by (rule list_emb_append_mono [OF policy_subseq [OF d(5,6)] due2(3)])
    moreover have "walk lib s (Some first) (due @ due2) (sj_nextRunAt job')"
      using walk_append d(4) due2(2) s by blast
    ultimately show ?thesis using d(2,3) p due2(1) occ Some s by (auto simp: rbind_Inr_iff)
  qed
qed simp

text \<open>C35: However many passes plan a job, the fires they consume are consecutive fires of its rule
  from its clock on, in order and none twice, ending where the clock then stands; what they
  record are some of these fires, in order.\<close>

theorem passes_consume_each_fire_once:
  assumes "fires_ahead lib" "resolveSchedule job (mo_defaultTimezone opts) = Inr s"
    "planPasses lib opts nows job = Inr (occ, job')"
  shows "\<exists>due. consumedBy lib opts nows job = Inr due \<and> walk lib s (sj_nextRunAt job) due (sj_nextRunAt job')
     \<and> sorted_wrt (<) due \<and> subseq occ due"
proof -
  obtain due where d: "consumedBy lib opts nows job = Inr due"
      "walk lib s (sj_nextRunAt job) due (sj_nextRunAt job')" "subseq occ due" "due \<noteq> [] \<longrightarrow> startWalk lib s = Inr ()"
    using passes_walk [OF assms] by (elim exE conjE)
  have "sorted_wrt (<) due"
  proof (cases "due = []")
    case False
    then show ?thesis using walk_sorted [OF assms(1) _ d(2)] d(4) by blast
  qed simp
  with d(1,2,3) show ?thesis by (intro exI conjI)
qed

lemma passes_consume_each_fire_once_witness:
  "\<exists>due. consumedBy exLib exOptions [300000, 400000] (exJob 1 Coalesce 60000) = Inr due
     \<and> walk exLib (Interval 60) (Some 60000) due (Some 480000) \<and> sorted_wrt (<) due
     \<and> subseq [300000, 360000, 420000] due"
proof -
  have run: "planPasses exLib exOptions [300000, 400000] (exJob 1 Coalesce 60000)
      = Inr ([300000, 360000, 420000], (exJob 1 Coalesce 480000)\<lparr>sj_lastFiredAt := Some 420000\<rparr>)"
    by code_simp
  have rule: "resolveSchedule (exJob 1 Coalesce 60000) (mo_defaultTimezone exOptions) = Inr (Interval 60)"
    by (simp add: exJob_def resolveSchedule_def required_def)
  have clock: "sj_nextRunAt (exJob 1 Coalesce 60000) = Some 60000"
      "sj_nextRunAt ((exJob 1 Coalesce 480000)\<lparr>sj_lastFiredAt := Some 420000\<rparr>) = Some 480000"
    by (simp_all add: exJob_def)
  show ?thesis
    using passes_consume_each_fire_once [OF exLib_ahead rule run] by (simp only: clock)
qed



text \<open>C37: Of the jobs of one owner that have a late run to catch up under the owner-wide policy,
  exactly one keeps it: the one whose missed fire is the latest, the lowest id among equals. The
  others lose that run only, and no other job is touched.\<close>

theorem one_late_run_per_owner:
  assumes "k < length planned" "isOwnedMember (planned ! k)"
  shows "\<exists>w < length planned. isOwnedMember (planned ! w)
      \<and> sj_owner (fst (planned ! w)) = sj_owner (fst (planned ! k))
      \<and> (\<forall>i < length planned.
           (isOwnedMember (planned ! i) \<and> sj_owner (fst (planned ! i)) = sj_owner (fst (planned ! k)) \<longrightarrow>
              beats (w, planned ! w) (i, planned ! i) \<and>
              applyCoalesceOwnerPolicy planned ! i = (if i = w then planned ! i else dropLateRun (planned ! i)))
         \<and> (\<not> isOwnedMember (planned ! i) \<longrightarrow> applyCoalesceOwnerPolicy planned ! i = planned ! i))"
proof -
  let ?key = "ownerKeyOf (planned ! k)"
  let ?w = "winnerOf (groupOf planned ?key)"
  have "(k, planned ! k) \<in> set (groupOf planned ?key)" using assms by (simp add: groupOf_mem)
  then have "groupOf planned ?key \<noteq> []" by auto
  from winnerOf_beats [OF this] have w: "?w \<in> set (groupOf planned ?key)"
      "\<forall>x \<in> set (groupOf planned ?key). beats ?w x" by auto
  have key: "ownerKeyOf (planned ! i) = ?key \<longleftrightarrow> sj_owner (fst (planned ! i)) = sj_owner (fst (planned ! k))" for i
    by (simp add: ownerKeyOf_def ownerKeyFor_inj)
  obtain w e where we: "?w = (w, e)" by (cases ?w)
  then have m: "w < length planned" "planned ! w = e" "isOwnedMember e" "ownerKeyOf e = ?key"
    using w(1) by (simp_all add: groupOf_mem)
  have "beats (w, planned ! w) (i, planned ! i)
      \<and> applyCoalesceOwnerPolicy planned ! i = (if i = w then planned ! i else dropLateRun (planned ! i))"
    if i: "i < length planned" "isOwnedMember (planned ! i)"
      "sj_owner (fst (planned ! i)) = sj_owner (fst (planned ! k))" for i
  proof -
    have "(i, planned ! i) \<in> set (groupOf planned ?key)" using i key by (simp add: groupOf_mem)
    then have "beats (w, planned ! w) (i, planned ! i)" using w(2) we m(2) by auto
    moreover have "losesLateRun planned i (planned ! i) \<longleftrightarrow> i \<noteq> w"
    proof -
      have "ownerKeyOf (planned ! i) = ?key" using i(3) key by simp
      then show ?thesis using i(2) we by (auto simp: losesLateRun_def)
    qed
    ultimately show ?thesis using i(1) by (simp add: applyCoalesce_nth)
  qed
  moreover have "applyCoalesceOwnerPolicy planned ! i = planned ! i"
    if "i < length planned" "\<not> isOwnedMember (planned ! i)" for i
    using that by (simp add: applyCoalesce_nth losesLateRun_def)
  ultimately show ?thesis using m key [of w] by (intro exI [of _ w]) auto
qed

lemma one_late_run_per_owner_witness:
  "\<exists>w < 2. \<forall>i < 2. beats (w, exPlanned ! w) (i, exPlanned ! i)
     \<and> applyCoalesceOwnerPolicy exPlanned ! i = (if i = w then exPlanned ! i else dropLateRun (exPlanned ! i))"
proof -
  have member: "isOwnedMember (exPlanned ! 0)" "isOwnedMember (exPlanned ! 1)" by code_simp+
  have len: "length exPlanned = 2" "(0::nat) < 2" by (simp_all add: exPlanned_def)
  have owner: "sj_owner (fst (exPlanned ! 1)) = sj_owner (fst (exPlanned ! 0))"
    by (simp add: exPlanned_def exJob_def)
  have each: "isOwnedMember (exPlanned ! i) \<and> sj_owner (fst (exPlanned ! i)) = sj_owner (fst (exPlanned ! 0))"
    if "i < 2" for i
    using that member owner by (auto simp: less_2_cases_iff)
  show ?thesis using one_late_run_per_owner [of 0 exPlanned, unfolded len(1), OF len(2) member(1)] each by blast
qed

section \<open>The table of occurrences while the system runs\<close>

text \<open>C34: Whatever instances, sweeps and passes do, in any interleaving and with any statement
  rejected or its reply lost, the table keeps its invariant: no occurrence is recorded twice, and
  the columns of every row agree with its status.\<close>

theorem occurrences_stay_consistent:
  assumes "system_step\<^sup>*\<^sup>* s0 s" "initialSystem s0"
  shows "distinct (map occurrenceKey (tt_rows (sy_table s))) \<and> distinct (rowIds (tt_rows (sy_table s)))
    \<and> (\<forall>r \<in> set (tt_rows (sy_table s)). task_row_ok r \<and> attempts_ok r)"
  using reachable_inv [OF assms]
  by (auto simp: protocol_inv_def protocolOf_def table_ok_def row_logged_def)

lemma occurrences_stay_consistent_witness:
  "list_all (\<lambda>r. task_row_ok r \<and> attempts_ok r) (tt_rows (sy_table exSystem)) \<and> tt_rows (sy_table exSystem) \<noteq> []"
  using occurrences_stay_consistent [OF exSystem_reached] exSystem_value(2) by (auto simp: list_all_iff)

text \<open>C30: The handler of an occurrence is called at most once under each claim of it.\<close>

theorem handler_runs_once_per_claim:
  assumes "system_step\<^sup>*\<^sup>* s0 s" "initialSystem s0"
  shows "distinct (sy_runs s)"
  using reachable_inv [OF assms] by (simp add: protocol_inv_def protocolOf_def log_ok_def)

lemma handler_runs_once_per_claim_witness: "distinct (sy_runs exSystem) \<and> length (sy_runs exSystem) = 2"
  using handler_runs_once_per_claim [OF exSystem_reached] by (simp add: exSystem_value(1))

text \<open>C31: The handler of an occurrence is called at most as often as the occurrence may be tried
  (once at least), crashes, lost leases and retries included.\<close>

theorem attempts_bound_the_runs:
  assumes "system_step\<^sup>*\<^sup>* s0 s" "initialSystem s0" "r \<in> set (tt_rows (sy_table s))"
  shows "runsLogged (sy_runs s) (tr_id r) \<le> max 1 (tr_maxAttempts r)"
proof -
  have "row_logged (sy_runs s) r"
    using reachable_inv [OF assms(1,2)] assms(3) by (simp add: protocol_inv_def protocolOf_def)
  then show ?thesis by (auto simp: row_logged_def attempts_ok_def split: if_splits)
qed

lemma attempts_bound_the_runs_witness:
  "runsLogged (sy_runs exSystem) (tr_id (hd (tt_rows (sy_table exSystem)))) \<le> max 1 (tr_maxAttempts (hd (tt_rows (sy_table exSystem))))"
proof -
  have "tt_rows (sy_table exSystem) \<noteq> []" using exSystem_value(2) by auto
  then show ?thesis using attempts_bound_the_runs [OF exSystem_reached] by simp
qed

text \<open>An occurrence recorded as succeeded, or as dispatched, has had its handler called under
  the claim the row holds.\<close>

theorem successes_were_run:
  assumes "system_step\<^sup>*\<^sup>* s0 s" "initialSystem s0" "r \<in> set (tt_rows (sy_table s))"
    "tr_status r = OccSucceeded \<or> tr_dispatchedAt r \<noteq> None"
  shows "(tr_id r, tr_leaseEpoch r) \<in> set (sy_runs s)"
proof -
  have "row_logged (sy_runs s) r"
    using reachable_inv [OF assms(1,2)] assms(3) by (simp add: protocol_inv_def protocolOf_def)
  then show ?thesis using assms(4) by (auto simp: row_logged_def claimKey_def)
qed

lemma successes_were_run_witness:
  "(tr_id (hd (tt_rows (sy_table exSystem))), tr_leaseEpoch (hd (tt_rows (sy_table exSystem)))) \<in> set (sy_runs exSystem)"
proof -
  have ne: "tt_rows (sy_table exSystem) \<noteq> []" using exSystem_value(2) by auto
  then have "tr_status (hd (tt_rows (sy_table exSystem))) = OccSucceeded"
    using exSystem_value(2) by (cases "tt_rows (sy_table exSystem)") auto
  then show ?thesis using successes_were_run [OF exSystem_reached] ne by simp
qed

text \<open>C32: Every step of the running system, timers, lost replies and crashes included, is a run of
  the protocol of claims, which starts where the protocol starts.\<close>

theorem executors_refine_the_protocol:
  assumes "system_step\<^sup>*\<^sup>* s0 s" "initialSystem s0" "system_step s s'"
  shows "protocolOf s0 = initialProtocol \<and> protocol_step\<^sup>*\<^sup>* (protocolOf s) (protocolOf s')"
  using initial_follows [OF assms(2)] reachable_follows [OF assms(1,2)] system_follows [OF assms(3)] by blast

lemma executors_refine_the_protocol_witness:
  "protocol_step\<^sup>*\<^sup>* (protocolOf exSystem)
     (protocolOf (exSystem\<lparr>sy_swept := sy_swept exSystem @ findExpiredLeases 0 10 (sy_table exSystem)\<rparr>))"
  using executors_refine_the_protocol [OF exSystem_reached sy_sweep, of 0 10] by blast

text \<open>C33: Once an occurrence has ended, or has been taken away from the instance that claimed it,
  no write of that instance does anything, whatever statements have run in between.\<close>

theorem stale_owners_are_fenced:
  assumes "table_ok tbl" "statement\<^sup>*\<^sup>* tbl tbl'" "t \<in> set (tt_rows tbl)"
    "tr_status t \<noteq> OccRunning \<or> tr_leaseEpoch t \<noteq> epoch"
    "epoch \<le> tr_leaseEpoch t" "ref = \<lparr>cr_host = host, cr_id = tr_id t, cr_epoch = epoch\<rparr>"
  shows "beginDispatch now ref ms tbl' = (tbl', 0) \<and> markDispatched now ref tbl' = (tbl', 0)
    \<and> completeTask now ref tbl' = (tbl', 0) \<and> failTaskTerminal now ref msg tbl' = (tbl', 0)
    \<and> rescheduleTask now ref ms msg tbl' = (tbl', 0) \<and> releaseClaim ref tbl' = (tbl', 0)"
proof -
  have ev: "table_evolves tbl tbl'" using statements_ok [OF assms(2,1)] by blast
  have none: "\<not> owned ref r" if r: "r \<in> set (tt_rows tbl')" for r
  proof
    assume o: "owned ref r"
    then have i: "tr_id r = tr_id t" "tr_status r = OccRunning" "tr_leaseEpoch r = epoch"
      by (simp_all add: owned_def assms(6))
    have "tr_id t < tt_nextId tbl" using assms(1,3) by (simp add: table_ok_def)
    then obtain q where q: "q \<in> rowsOf tbl (tr_id t)" "row_evolves q r"
      using table_evolves_row [OF ev, of r "tr_id t"] r i(1) by (auto simp: rowsOf_def)
    then have "q = t" using row_unique [OF assms(1)] assms(3) by (auto simp: rowsOf_def)
    with q have e: "row_evolves t r" by simp
    have "tr_leaseEpoch r = tr_leaseEpoch t" using row_evolves_le(1) [OF e] i(3) assms(5) by simp
    from row_evolves_held [OF e this i(2)] this i(3) assms(4) show False by simp
  qed
  then have "updateRows (owned ref) f tbl' = (tbl', 0)" for f by (intro updateRows_none) blast
  moreover have "updateRows (\<lambda>r. owned ref r \<and> tr_startedAt r = None) f tbl' = (tbl', 0)" for f
    by (intro updateRows_none) (use none in blast)
  ultimately show ?thesis
    by (simp add: beginDispatch_def markDispatched_def completeTask_def failTaskTerminal_def rescheduleTask_def
        releaseClaim_def runGuardedUpdate_def)
qed

lemma stale_owners_are_fenced_witness:
  "completeTask 99999 \<lparr>cr_host = ''main'', cr_id = 1, cr_epoch = 0\<rparr> exFinished = (exFinished, 0)"
proof -
  have ok: "table_ok exFinished"
    by (simp add: table_ok_def exFinished_def rowIds_def finishedRow_def newRow_def exOccurrence_def row_simps)
  have row: "finishedRow 1 OccFailed \<in> set (tt_rows exFinished)" by (simp add: exFinished_def)
  have cols: "tr_status (finishedRow 1 OccFailed) \<noteq> OccRunning \<or> tr_leaseEpoch (finishedRow 1 OccFailed) \<noteq> 0"
      "0 \<le> tr_leaseEpoch (finishedRow 1 OccFailed)" by (simp_all add: finishedRow_def)
  have ref: "\<lparr>cr_host = ''main'', cr_id = 1, cr_epoch = 0\<rparr>
      = \<lparr>cr_host = ''main'', cr_id = tr_id (finishedRow 1 OccFailed), cr_epoch = 0\<rparr>"
    by (simp add: finishedRow_def newRow_def)
  show ?thesis using stale_owners_are_fenced [OF ok rtranclp.rtrancl_refl row cols ref] by blast
qed

section \<open>Upkeep\<close>

text \<open>C39: A sweep first retires what was never claimed in time and then recovers exactly the lapsed
  leases it read, oldest first up to its batch: a dispatched occurrence is completed, one on its
  last attempt fails, any other goes back to be retried after its backoff. No other row changes,
  and a batch that is large enough leaves no lease lapsed.\<close>

theorem sweep_recovers_lapsed_leases:
  assumes "table_ok tbl" "tbl1 = fst (retireMissedPending now locked (int batch) tbl)"
    "tbl2 = fst (reap (reaperStore now locked) (\<lambda>_. False) batch tbl)"
  shows "tt_rows tbl2 = map (\<lambda>r. if tr_id r \<in> sweptIds now batch tbl1 then recover now r else r) (tt_rows tbl1)
    \<and> (length (filter (lapsed now) (tt_rows tbl1)) \<le> batch \<longrightarrow> (\<forall>r \<in> set (tt_rows tbl2). \<not> lapsed now r))"
proof -
  have rows: "tt_rows tbl2 = map (\<lambda>r. if tr_id r \<in> sweptIds now batch tbl1 then recover now r else r) (tt_rows tbl1)"
    using reap_rows [OF assms(1), of now locked batch] assms(2,3) by simp
  moreover have "\<not> lapsed now r" if "length (filter (lapsed now) (tt_rows tbl1)) \<le> batch" "r \<in> set (tt_rows tbl2)" for r
    using that all_swept [OF that(1)] rows by auto
  ultimately show ?thesis by blast
qed

lemma sweep_recovers_lapsed_leases_witness:
  "list_all (\<lambda>r. \<not> lapsed 1000000 r) (tt_rows (fst (reap (reaperStore 1000000 {}) (\<lambda>_. False) 5 (sy_table exMarked))))
   \<and> map (lapsed 1000000) (tt_rows (sy_table exMarked)) = [True]"
proof -
  have ok: "table_ok (sy_table exMarked)"
  proof -
    have "system_step\<^sup>*\<^sup>* (oneInstance exInstance emptyTable []) exMarked"
      unfolding exMarked_def by (rule runCommands_steps)
    from reachable_inv [OF this exSystem_reached(2)] show ?thesis by (simp add: protocol_inv_def protocolOf_def)
  qed
  have small: "length (filter (lapsed 1000000) (tt_rows (fst (retireMissedPending 1000000 {} (int 5) (sy_table exMarked))))) \<le> 5"
    by code_simp
  have row: "map (lapsed 1000000) (tt_rows (sy_table exMarked)) = [True]" by code_simp
  show ?thesis
    using sweep_recovers_lapsed_leases [OF ok refl refl, of 1000000 "{}" 5] small row by (simp add: list_all_iff)
qed

text \<open>C40: A retention pass deletes only ended rows past the window of their outcome, no more than its
  budget allows, and counts them; when it reports that it drained, none such row is left.\<close>

theorem retention_deletes_only_old_ended_rows:
  assumes "table_ok tbl" "0 \<le> ro_maxBatchesPerPass opts" "prune (retentionStore now {}) aborted opts tbl = (tbl', Inr res)"
  shows "set (tt_rows tbl') \<subseteq> set (tt_rows tbl)
    \<and> (\<forall>r \<in> set (tt_rows tbl). r \<notin> set (tt_rows tbl') \<longrightarrow>
         (\<exists>w \<in> set (retentionWindows opts). prunable now (rw_statuses w) (rw_olderThanSeconds w * 1000) r))
    \<and> card (set (tt_rows tbl)) = card (set (tt_rows tbl')) + sm_deleted res
    \<and> int (sm_deleted res) \<le> ro_batchSize opts * ro_maxBatchesPerPass opts
    \<and> (sm_drained res \<longrightarrow> (\<forall>r \<in> set (tt_rows tbl'). \<forall>w \<in> set (retentionWindows opts).
         \<not> prunable now (rw_statuses w) (rw_olderThanSeconds w * 1000) r))"
  using pruner.prune_removes [OF assms(3,1)] pruner.prune_result [OF assms(3,1,2)]
  unfolding pruner.windows_aged_def pruner.aged_in_def by blast

lemma retention_deletes_only_old_ended_rows_witness:
  "card (set (tt_rows exFinished))
     = card (set (tt_rows (fst (prune (retentionStore 1000000 {}) (\<lambda>_. False) (exRetention 9) exFinished)))) + 3"
proof -
  have ok: "table_ok exFinished"
    by (simp add: table_ok_def exFinished_def rowIds_def finishedRow_def newRow_def exOccurrence_def row_simps)
  have run: "prune (retentionStore 1000000 {}) (\<lambda>_. False) (exRetention 9) exFinished
      = (\<lparr>tt_rows = [], tt_nextId = 3\<rparr>, Inr \<lparr>sm_deleted = 3, sm_drained = True\<rparr>)" by code_simp
  have budget: "0 \<le> ro_maxBatchesPerPass (exRetention 9)" by (simp add: exRetention_def)
  show ?thesis using retention_deletes_only_old_ended_rows [OF ok budget run] run by simp
qed

end
