(* ===== verification/Provisioning.thy ===== *)
theory Provisioning
  imports Materialize
begin

text \<open>
  Provisioning: making the stored jobs of an owner those it wants (\<open>provisioning/provision.ts\<close>,
  \<open>schedule-identity.ts\<close>, \<open>provisioner.ts\<close>), over the operations of a transaction that
  \<open>durable-job-provisioner.ts\<close> of \<open>cli\<close> binds to the repositories, and the columns of a rule
  (\<open>schedule-columns.ts\<close>).
\<close>

section \<open>Rules as columns\<close>

definition emptyColumns :: "job_kind \<Rightarrow> job_definition" where
  "emptyColumns k =
     \<lparr>jd_kind = k, jd_cronExpression = None, jd_timezone = None, jd_recurrenceUnit = None,
      jd_recurrenceSize = None, jd_intervalSeconds = None, jd_fireAt = None\<rparr>"

definition scheduleColumns :: "schedule \<Rightarrow> job_definition" where
  "scheduleColumns s =
     (case s of
        Cron e tz \<Rightarrow> (emptyColumns KindCron)\<lparr>jd_cronExpression := Some e, jd_timezone := tz\<rparr>
      | RecurringCron e tz unit every \<Rightarrow> (emptyColumns KindRecurringCron)
          \<lparr>jd_cronExpression := Some e, jd_timezone := tz, jd_recurrenceUnit := Some unit,
           jd_recurrenceSize := Some every\<rparr>
      | Interval n \<Rightarrow> (emptyColumns KindInterval)\<lparr>jd_intervalSeconds := Some n\<rparr>
      | OneOff t \<Rightarrow> (emptyColumns KindOneOff)\<lparr>jd_fireAt := Some t\<rparr>)"

definition orElse :: "'a option \<Rightarrow> 'a \<Rightarrow> 'a" where
  "orElse v d = (case v of None \<Rightarrow> d | Some x \<Rightarrow> x)"

definition rowSchedule :: "scheduled_job \<Rightarrow> job_failure + schedule" where
  "rowSchedule row =
     (case sj_kind row of
        KindCron \<Rightarrow> Inr (Cron (orElse (sj_cronExpression row) []) (sj_timezone row))
      | KindRecurringCron \<Rightarrow> Inr (RecurringCron (orElse (sj_cronExpression row) []) (sj_timezone row)
          (orElse (sj_recurrenceUnit row) Hours) (orElse (sj_recurrenceSize row) 0))
      | KindInterval \<Rightarrow> Inr (Interval (orElse (sj_intervalSeconds row) 0))
      | KindOneOff \<Rightarrow> Inr (OneOff (orElse (sj_fireAt row) 0))
      | OtherKind k \<Rightarrow> Inl (UnexpectedJobKind k))"

section \<open>When two rules are the same\<close>

fun unitName :: "recurrence_unit \<Rightarrow> string" where
  "unitName Hours = ''hours''"
| "unitName Days = ''days''"
| "unitName Weeks = ''weeks''"
| "unitName Months = ''months''"
| "unitName (OtherUnit s) = s"

definition nullable :: "string option \<Rightarrow> json" where
  "nullable s = (case s of None \<Rightarrow> JNull | Some v \<Rightarrow> JString v)"

text \<open>The array whose JSON text is the key; texts of such arrays agree when the arrays do.\<close>

definition canonicalDefinition :: "schedule \<Rightarrow> json" where
  "canonicalDefinition s = JArray
     (case s of
        Cron e tz \<Rightarrow> [JString ''cron'', JString e, nullable tz]
      | RecurringCron e tz unit every \<Rightarrow>
          [JString ''recurring_cron'', JString e, nullable tz, JString (unitName unit), JNumber (of_int every)]
      | Interval n \<Rightarrow> [JString ''interval'', JNumber (of_int n)]
      | OneOff t \<Rightarrow> [JString ''one_off'', JNumber (of_int t)])"

definition sameSchedule :: "schedule \<Rightarrow> schedule \<Rightarrow> bool" where
  "sameSchedule a b \<longleftrightarrow> canonicalDefinition a = canonicalDefinition b"

text \<open>\<open>digest\<close> stands for the first 16 hex characters of the SHA-256 digest.\<close>

definition scheduleFingerprint :: "(json \<Rightarrow> bool \<Rightarrow> string) \<Rightarrow> schedule \<Rightarrow> bool \<Rightarrow> string" where
  "scheduleFingerprint digest s live = digest (canonicalDefinition s) live"

record desired_job =
  dj_name :: string
  dj_schedule :: schedule
  dj_firstRunAt :: "instant option"

fun nameJobs ::
  "(json \<Rightarrow> bool \<Rightarrow> string) \<Rightarrow> string \<Rightarrow> (string, nat) js_map \<Rightarrow> (schedule \<times> instant option) list \<Rightarrow> desired_job list" where
  "nameJobs digest scopeKey seen [] = []"
| "nameJobs digest scopeKey seen ((s, first) # rest) =
     (let fingerprint = scheduleFingerprint digest s (first \<noteq> None);
          occurrence = orElse (jm_get seen fingerprint) 0
      in \<lparr>dj_name = scopeKey @ fingerprint @ '':'' @ nat_to_string occurrence, dj_schedule = s, dj_firstRunAt = first\<rparr>
         # nameJobs digest scopeKey (jm_set seen fingerprint (occurrence + 1)) rest)"

definition nameDesiredJobs ::
  "(json \<Rightarrow> bool \<Rightarrow> string) \<Rightarrow> string \<Rightarrow> string \<Rightarrow> (schedule \<times> instant option) list \<Rightarrow> desired_job list" where
  "nameDesiredJobs digest workflowId nodeId schedules =
     nameJobs digest (workflowId @ '':'' @ nodeId @ '':'') [] schedules"

section \<open>The diff\<close>

record existing_job =
  ej_id :: nat
  ej_name :: string
  ej_schedule :: schedule
  ej_hasClock :: bool

record provision_summary =
  sm_inserted :: "(nat \<times> string) list"
  sm_redefined :: "(nat \<times> string) list"
  sm_unchanged :: "(nat \<times> string) list"
  sm_removed :: "(nat \<times> string) list"

record ('s, 'e) provision_tx =
  pv_findExisting :: "'s \<Rightarrow> 'e + existing_job list \<times> 's"
  pv_insert :: "desired_job list \<Rightarrow> 's \<Rightarrow> 'e + nat list \<times> 's"
  pv_redefine :: "nat \<Rightarrow> schedule \<Rightarrow> instant option \<Rightarrow> 's \<Rightarrow> 'e + unit \<times> 's"
  pv_withdrawPendingTasks :: "nat list \<Rightarrow> 's \<Rightarrow> 'e + unit \<times> 's"
  pv_deleteJobs :: "nat list \<Rightarrow> 's \<Rightarrow> 'e + unit \<times> 's"

definition holdsDefinition :: "existing_job \<Rightarrow> desired_job \<Rightarrow> bool" where
  "holdsDefinition current dj \<longleftrightarrow>
     sameSchedule (ej_schedule current) (dj_schedule dj) \<and> ej_hasClock current = (dj_firstRunAt dj \<noteq> None)"

definition existingByName :: "existing_job list \<Rightarrow> string \<Rightarrow> existing_job option" where
  "existingByName existing name = find (\<lambda>e. ej_name e = name) (rev existing)"

text \<open>The loop over the desired jobs: what to insert, what was redefined, what stays.\<close>

fun diffJobs ::
  "('s, 'e) provision_tx \<Rightarrow> existing_job list \<Rightarrow> desired_job list \<Rightarrow> 's \<Rightarrow>
     'e + (desired_job list \<times> (nat \<times> string) list \<times> (nat \<times> string) list) \<times> 's" where
  "diffJobs tx existing [] = txReturn ([], [], [])"
| "diffJobs tx existing (dj # rest) =
     (case existingByName existing (dj_name dj) of
        None \<Rightarrow> txBind (diffJobs tx existing rest) (\<lambda>(ins, red, unc). txReturn (dj # ins, red, unc))
      | Some current \<Rightarrow>
          if holdsDefinition current dj
          then txBind (diffJobs tx existing rest) (\<lambda>(ins, red, unc).
                 txReturn (ins, red, (ej_id current, ej_name current) # unc))
          else txBind (pv_redefine tx (ej_id current) (dj_schedule dj) (dj_firstRunAt dj)) (\<lambda>_.
               txBind (diffJobs tx existing rest) (\<lambda>(ins, red, unc).
                 txReturn (ins, (ej_id current, ej_name current) # red, unc))))"

definition removedJobs :: "existing_job list \<Rightarrow> desired_job list \<Rightarrow> (nat \<times> string) list" where
  "removedJobs existing desired =
     map (\<lambda>e. (ej_id e, ej_name e)) (filter (\<lambda>e. ej_name e \<notin> set (map dj_name desired)) existing)"

definition provision :: "('s, 'e) provision_tx \<Rightarrow> desired_job list \<Rightarrow> 's \<Rightarrow> 'e + provision_summary \<times> 's" where
  "provision tx desired =
     txBind (pv_findExisting tx) (\<lambda>existing.
     txBind (diffJobs tx existing desired) (\<lambda>(inserts, redefined, unchanged).
     let removed = removedJobs existing desired in
     txBind (pv_withdrawPendingTasks tx (map fst redefined)) (\<lambda>_.
     txBind (pv_deleteJobs tx (map fst removed)) (\<lambda>_.
     txBind (pv_insert tx inserts) (\<lambda>ids.
     txReturn \<lparr>sm_inserted = zip ids (map dj_name inserts), sm_redefined = redefined,
               sm_unchanged = unchanged, sm_removed = removed\<rparr>)))))"

section \<open>The owner that is allowed\<close>

datatype provision_failure =
    UnregisteredOwnerType string
  | InvalidOwnerId nat
  | InvalidOwnerMemberId nat
  | StoreFailed job_failure
  | SeedFailed pass_failure

definition assertProvisionableOwner :: "string list \<Rightarrow> job_owner \<Rightarrow> provision_failure + unit" where
  "assertProvisionableOwner registered ow =
     rbind (throwIf (jo_type ow \<notin> set registered) (UnregisteredOwnerType (jo_type ow))) (\<lambda>_.
     rbind (throwIf (jo_id ow = [] \<or> 255 < length (jo_id ow)) (InvalidOwnerId (length (jo_id ow)))) (\<lambda>_.
     case jo_member ow of
       None \<Rightarrow> Inr ()
     | Some m \<Rightarrow> throwIf (m = [] \<or> 36 < length m) (InvalidOwnerMemberId (length m))))"

section \<open>The grace of a request\<close>

record grace_config =
  gc_misfireGraceSeconds :: int
  gc_executorIntervalSeconds :: int
  gc_materializationWindowSeconds :: int

definition maxMisfireGraceSeconds :: int where
  "maxMisfireGraceSeconds = 30 * 86400"

text \<open>The request is \<open>None\<close> when it is no finite number.\<close>

definition js_trunc :: "js_number \<Rightarrow> int" where
  "js_trunc x = (if x < 0 then \<lceil>x\<rceil> else \<lfloor>x\<rfloor>)"

definition resolveMisfireGraceSeconds :: "grace_config \<Rightarrow> js_number option \<Rightarrow> int" where
  "resolveMisfireGraceSeconds cfg requested =
     (case requested of
        None \<Rightarrow> gc_misfireGraceSeconds cfg
      | Some numeric \<Rightarrow>
          let truncated = js_trunc numeric in
          if truncated < 1 then gc_misfireGraceSeconds cfg
          else let least = min (max (gc_executorIntervalSeconds cfg + 1) (gc_materializationWindowSeconds cfg))
                     maxMisfireGraceSeconds
               in min (max truncated least) maxMisfireGraceSeconds)"

section \<open>The transaction over the repositories\<close>

text \<open>Node's \<open>isDeepStrictEqual\<close> on JSON values: the order of keys does not matter.\<close>

lemma size_zip_left [termination_simp]: "(a, b) \<in> set (zip as bs) \<Longrightarrow> size a < Suc (size_list size as)"
  using size_list_estimation' [of a as "size a" size] by (auto dest: set_zip_leftD)

lemma size_json_field [termination_simp]:
  "json_field fs k = Some v \<Longrightarrow> size v < Suc (size_list (\<lambda>x. Suc (size (snd x))) fs)"
proof -
  assume "json_field fs k = Some v"
  then have "(k, v) \<in> set fs" by (auto simp: json_field_def dest: map_of_SomeD)
  from size_list_estimation' [OF this, of "size v" "\<lambda>x. Suc (size (snd x))"] show ?thesis by simp
qed

fun deepEqual :: "json \<Rightarrow> json \<Rightarrow> bool" where
  "deepEqual JNull JNull = True"
| "deepEqual (JBool a) (JBool b) = (a = b)"
| "deepEqual (JNumber a) (JNumber b) = (a = b)"
| "deepEqual (JString a) (JString b) = (a = b)"
| "deepEqual (JArray as) (JArray bs) = (length as = length bs \<and> list_all (\<lambda>(a, b). deepEqual a b) (zip as bs))"
| "deepEqual (JObject fs) (JObject gs) =
     (set (map fst fs) = set (map fst gs) \<and>
      list_all (\<lambda>k. case json_field fs k of None \<Rightarrow> True
         | Some v \<Rightarrow> (case json_field gs k of None \<Rightarrow> False | Some w \<Rightarrow> deepEqual v w)) (map fst fs))"
| "deepEqual _ _ = False"

lemma deepEqual_same: "a = b \<Longrightarrow> deepEqual a b"
proof (induction a b rule: deepEqual.induct)
  case (5 as bs)
  then show ?case by (auto simp: list_all_iff zip_same)
qed (auto simp: list_all_iff split: option.splits)

record provision_scope =
  vs_owner :: job_owner
  vs_taskType :: string
  vs_payload :: json
  vs_options :: run_options

text \<open>The database and what the operations note on the side.\<close>

record provision_state =
  vt_db :: scheduler_db
  vt_seeded :: "nat list"
  vt_outdatedRunOptions :: "nat list"
  vt_outdatedGrace :: "nat list"
  vt_outdatedPayload :: "nat list"

definition toExistingJob :: "scheduled_job \<Rightarrow> job_failure + existing_job" where
  "toExistingJob row = rbind (rowSchedule row) (\<lambda>s.
     Inr \<lparr>ej_id = sj_id row, ej_name = sj_name row, ej_schedule = s, ej_hasClock = (sj_nextRunAt row \<noteq> None)\<rparr>)"

fun toExistingJobs :: "scheduled_job list \<Rightarrow> job_failure + existing_job list" where
  "toExistingJobs [] = Inr []"
| "toExistingJobs (row # rows) =
     rbind (toExistingJob row) (\<lambda>e. rbind (toExistingJobs rows) (\<lambda>es. Inr (e # es)))"

definition toNewJob :: "provision_scope \<Rightarrow> desired_job \<Rightarrow> new_job" where
  "toNewJob scope dj =
     (let d = scheduleColumns (dj_schedule dj); ro = vs_options scope in
      \<lparr>nj_name = dj_name dj, nj_owner = vs_owner scope, nj_taskType = vs_taskType scope,
       nj_payload = vs_payload scope, nj_kind = jd_kind d, nj_cronExpression = jd_cronExpression d,
       nj_timezone = jd_timezone d, nj_recurrenceUnit = jd_recurrenceUnit d,
       nj_recurrenceSize = jd_recurrenceSize d, nj_intervalSeconds = jd_intervalSeconds d,
       nj_fireAt = jd_fireAt d, nj_nextRunAt = dj_firstRunAt dj, nj_maxAttempts = rn_maxAttempts ro,
       nj_misfirePolicy = rn_misfirePolicy ro, nj_misfireGraceSeconds = rn_misfireGraceSeconds ro\<rparr>)"

definition outdatedOptions :: "run_options \<Rightarrow> scheduled_job \<Rightarrow> bool" where
  "outdatedOptions opts row \<longleftrightarrow> sj_misfireGraceSeconds row \<noteq> rn_misfireGraceSeconds opts
     \<or> sj_misfirePolicy row \<noteq> rn_misfirePolicy opts \<or> sj_maxAttempts row \<noteq> rn_maxAttempts opts"

definition provisionTransaction ::
  "bool \<Rightarrow> instant \<Rightarrow> provision_scope \<Rightarrow> (provision_state, provision_failure) provision_tx" where
  "provisionTransaction isPostgres now scope =
     \<lparr>pv_findExisting = (\<lambda>st.
        let rows = findManyByOwner (vs_owner scope) (db_jobs (vt_db st)); opts = vs_options scope
        in case toExistingJobs rows of
             Inl e \<Rightarrow> Inl (StoreFailed e)
           | Inr existing \<Rightarrow> Inr (existing, st
               \<lparr>vt_outdatedGrace := vt_outdatedGrace st @
                  jobIds (filter (\<lambda>r. sj_misfireGraceSeconds r \<noteq> rn_misfireGraceSeconds opts) rows),
                vt_outdatedRunOptions := vt_outdatedRunOptions st @ jobIds (filter (outdatedOptions opts) rows),
                vt_outdatedPayload := vt_outdatedPayload st @
                  jobIds (filter (\<lambda>r. \<not> deepEqual (sj_payload r) (vs_payload scope)) rows)\<rparr>)),
      pv_insert = (\<lambda>desired st.
        case insertMany isPostgres now (map (toNewJob scope) desired)
               (int (maxInsertChunkSize isPostgres)) (db_jobs (vt_db st)) of
          Inl e \<Rightarrow> Inl (StoreFailed e)
        | Inr (ids, jobs) \<Rightarrow> Inr (ids, st\<lparr>vt_db := (vt_db st)\<lparr>db_jobs := jobs\<rparr>,
            vt_seeded := vt_seeded st @ ids\<rparr>)),
      pv_redefine = (\<lambda>i s nextRunAt st. Inr ((), st
        \<lparr>vt_db := (vt_db st)\<lparr>db_jobs := updateDefinition i (scheduleColumns s) nextRunAt (vs_options scope) (db_jobs (vt_db st))\<rparr>,
         vt_seeded := vt_seeded st @ [i]\<rparr>)),
      pv_withdrawPendingTasks = (\<lambda>ids st. Inr ((), st
        \<lparr>vt_db := (vt_db st)\<lparr>db_tasks := deletePendingByJobIds ids (db_tasks (vt_db st))\<rparr>\<rparr>)),
      pv_deleteJobs = (\<lambda>ids st. Inr ((), st\<lparr>vt_db := deleteManyByIds ids (vt_db st)\<rparr>))\<rparr>"

text \<open>The first window of the new clocks is recorded in the same transaction.\<close>

definition seedTransaction :: "bool \<Rightarrow> instant \<Rightarrow> nat list \<Rightarrow> scheduler_db materializer_tx" where
  "seedTransaction isPostgres now ids =
     \<lparr>mt_claimDueJobs = (\<lambda>limit lookaheadMs db.
        let claimed = filter (\<lambda>j. sj_enabled j \<and> sj_nextRunAt j \<noteq> None) (findManyByIds ids (db_jobs db))
        in Inr (if claimed = [] then None else Some (now, claimed), db)),
      mt_recordOccurrences = recordIn isPostgres,
      mt_retireSuperseded = retireIn now,
      mt_advanceJobs = advanceIn isPostgres\<rparr>"

definition seedInitialOccurrences ::
  "cron_lib \<Rightarrow> materializer_options \<Rightarrow> bool \<Rightarrow> instant \<Rightarrow> nat list \<Rightarrow> scheduler_db \<Rightarrow> provision_failure + unit \<times> scheduler_db" where
  "seedInitialOccurrences lib opts isPostgres now ids db =
     (if ids = [] then Inr ((), db)
      else case materializePass lib (seedTransaction isPostgres now ids) opts (\<lambda>_. False) db of
             Inl e \<Rightarrow> Inl (SeedFailed e)
           | Inr (_, db') \<Rightarrow> Inr ((), db'))"

definition provisionWork ::
  "cron_lib \<Rightarrow> materializer_options \<Rightarrow> bool \<Rightarrow> instant \<Rightarrow> provision_scope \<Rightarrow> desired_job list \<Rightarrow>
     scheduler_db \<Rightarrow> provision_failure + provision_summary \<times> scheduler_db" where
  "provisionWork lib mopts isPostgres now scope desired db =
     (let lifted = db\<lparr>db_jobs := fst (liftQuarantineByOwner (vs_owner scope) (db_jobs db))\<rparr>;
          st0 = \<lparr>vt_db = lifted, vt_seeded = [], vt_outdatedRunOptions = [], vt_outdatedGrace = [], vt_outdatedPayload = []\<rparr>
      in case provision (provisionTransaction isPostgres now scope) desired st0 of
           Inl e \<Rightarrow> Inl e
         | Inr (result, st) \<Rightarrow>
             let jobs1 = updateRunOptions (vt_outdatedRunOptions st) (vs_options scope) (db_jobs (vt_db st));
                 jobs2 = updatePayload (vt_outdatedPayload st) (vs_payload scope) jobs1;
                 tasks = updateMissedAfterForJobs now (vt_outdatedGrace st)
                           (rn_misfireGraceSeconds (vs_options scope)) (db_tasks (vt_db st))
             in case seedInitialOccurrences lib mopts isPostgres now (vt_seeded st)
                       \<lparr>db_jobs = jobs2, db_tasks = tasks\<rparr> of
                  Inl e \<Rightarrow> Inl e
                | Inr (_, db') \<Rightarrow> Inr (result, db'))"

definition provisionJobs ::
  "cron_lib \<Rightarrow> materializer_options \<Rightarrow> bool \<Rightarrow> instant \<Rightarrow> string list \<Rightarrow> provision_scope \<Rightarrow> desired_job list \<Rightarrow>
     scheduler_db \<Rightarrow> scheduler_db \<times> (provision_failure + provision_summary)" where
  "provisionJobs lib mopts isPostgres now registered scope desired db =
     (case assertProvisionableOwner registered (vs_owner scope) of
        Inl e \<Rightarrow> (db, Inl e)
      | Inr _ \<Rightarrow> inTransaction (provisionWork lib mopts isPostgres now scope desired) db)"

section \<open>Deprovisioning\<close>

datatype deprovision_scope =
    MemberScope job_owner
  | OwnerScope "string \<times> string"
  | TaskTypeScope "string \<times> string" string
  | JobScope nat json

fun deleteScope :: "deprovision_scope \<Rightarrow> scheduler_db \<Rightarrow> scheduler_db \<times> nat" where
  "deleteScope (MemberScope ow) db = deleteByOwnerMember ow db"
| "deleteScope (OwnerScope ref) db = deleteByOwnerRef ref db"
| "deleteScope (TaskTypeScope ref taskType) db = deleteByOwnerTaskType ref taskType db"
| "deleteScope (JobScope i payload) db = deleteIfPayloadUnchanged i payload db"

section \<open>Rules survive their columns\<close>

definition knownSchedule :: "schedule \<Rightarrow> bool" where
  "knownSchedule s \<longleftrightarrow> (case s of RecurringCron _ _ unit _ \<Rightarrow> knownUnit unit | _ \<Rightarrow> True)"

lemma unitName_inj: "knownUnit u \<Longrightarrow> knownUnit v \<Longrightarrow> unitName u = unitName v \<longleftrightarrow> u = v"
  by (cases u; cases v) auto

lemma sameSchedule_refl [simp]: "sameSchedule s s"
  by (simp add: sameSchedule_def)

lemma sameSchedule_trans: "sameSchedule a b \<Longrightarrow> sameSchedule b c \<Longrightarrow> sameSchedule a c"
  by (simp add: sameSchedule_def)

lemma nullable_inj [simp]: "nullable a = nullable b \<longleftrightarrow> a = b"
  by (cases a; cases b) (simp_all add: nullable_def)

lemma sameSchedule_iff: "knownSchedule a \<Longrightarrow> knownSchedule b \<Longrightarrow> sameSchedule a b \<longleftrightarrow> a = b"
  by (cases a; cases b) (auto simp: sameSchedule_def canonicalDefinition_def knownSchedule_def unitName_inj)

lemma rowSchedule_withDefinition:
  "rowSchedule ((withRunOptions opts (withDefinition (scheduleColumns s) j))\<lparr>sj_nextRunAt := t\<rparr>) = Inr s"
  by (cases s) (simp_all add: rowSchedule_def withRunOptions_def withDefinition_def scheduleColumns_def
      emptyColumns_def orElse_def)

lemma rowSchedule_newJobRow: "rowSchedule (newJobRow now i (toNewJob scope dj)) = Inr (dj_schedule dj)"
  by (cases "dj_schedule dj") (simp_all add: rowSchedule_def newJobRow_def toNewJob_def scheduleColumns_def
      emptyColumns_def orElse_def Let_def)

lemma resolveSchedule_withDefinition:
  "resolveSchedule (withDefinition (scheduleColumns s) j) z =
     Inr (case s of Cron e tz \<Rightarrow> Cron e (Some (orElse tz z))
            | RecurringCron e tz u n \<Rightarrow> RecurringCron e (Some (orElse tz z)) u n | _ \<Rightarrow> s)"
  by (cases s) (simp_all add: resolveSchedule_def withDefinition_def scheduleColumns_def emptyColumns_def
      required_def orElse_def)

section \<open>Names\<close>

text \<open>With digests of equal length, rules of one node get distinct names.\<close>

definition digestLength :: "(json \<Rightarrow> bool \<Rightarrow> string) \<Rightarrow> nat \<Rightarrow> bool" where
  "digestLength digest n \<longleftrightarrow> (\<forall>d live. length (digest d live) = n)"

lemma nameJobs_names:
  assumes "digestLength digest n" "dj \<in> set (nameJobs digest scopeKey seen jobs)"
  shows "\<exists>fp k. dj_name dj = scopeKey @ fp @ '':'' @ nat_to_string k \<and> length fp = n \<and> orElse (jm_get seen fp) 0 \<le> k"
  using assms(2)
proof (induction jobs arbitrary: seen)
  case (Cons job jobs)
  obtain s first where job: "job = (s, first)" by (cases job)
  let ?fp = "scheduleFingerprint digest s (first \<noteq> None)"
  have len: "length ?fp = n" using assms(1) by (simp add: scheduleFingerprint_def digestLength_def)
  show ?case
  proof (cases "dj \<in> set (nameJobs digest scopeKey (jm_set seen ?fp (orElse (jm_get seen ?fp) 0 + 1)) jobs)")
    case True
    then obtain fp k where n: "dj_name dj = scopeKey @ fp @ '':'' @ nat_to_string k" "length fp = n"
        "orElse (jm_get (jm_set seen ?fp (orElse (jm_get seen ?fp) 0 + 1)) fp) 0 \<le> k"
      using Cons.IH by blast
    have "orElse (jm_get seen fp) 0 \<le> k"
      using n(3) by (cases "fp = ?fp") (simp_all add: orElse_def)
    then show ?thesis using n(1,2) by blast
  next
    case False
    then have "dj_name dj = scopeKey @ ?fp @ '':'' @ nat_to_string (orElse (jm_get seen ?fp) 0)"
      using Cons.prems job by (auto simp: Let_def)
    then show ?thesis using len by blast
  qed
qed simp

lemma nameJobs_distinct:
  assumes "digestLength digest n"
  shows "distinct (map dj_name (nameJobs digest scopeKey seen jobs))"
proof (induction jobs arbitrary: seen)
  case (Cons job jobs)
  obtain s first where job: "job = (s, first)" by (cases job)
  let ?fp = "scheduleFingerprint digest s (first \<noteq> None)"
  let ?k = "orElse (jm_get seen ?fp) 0"
  have len: "length ?fp = n" using assms by (simp add: scheduleFingerprint_def digestLength_def)
  have "dj_name dj \<noteq> scopeKey @ ?fp @ '':'' @ nat_to_string ?k"
    if mem: "dj \<in> set (nameJobs digest scopeKey (jm_set seen ?fp (?k + 1)) jobs)" for dj
  proof
    assume eq: "dj_name dj = scopeKey @ ?fp @ '':'' @ nat_to_string ?k"
    obtain fp k where n: "dj_name dj = scopeKey @ fp @ '':'' @ nat_to_string k" "length fp = n"
        "orElse (jm_get (jm_set seen ?fp (?k + 1)) fp) 0 \<le> k"
      using nameJobs_names [OF assms mem] by blast
    then have "fp @ '':'' @ nat_to_string k = ?fp @ '':'' @ nat_to_string ?k" using eq by simp
    then have same: "fp = ?fp \<and> k = ?k" using n(2) len by (simp add: append_eq_append_conv)
    then have "orElse (jm_get (jm_set seen ?fp (?k + 1)) fp) 0 = k + 1" by (simp add: orElse_def)
    then show False using n(3) by simp
  qed
  then have "scopeKey @ ?fp @ '':'' @ nat_to_string ?k
      \<notin> dj_name ` set (nameJobs digest scopeKey (jm_set seen ?fp (?k + 1)) jobs)" by fastforce
  then show ?case using Cons.IH job by (simp add: Let_def)
qed simp

section \<open>The interface of a provision\<close>

text \<open>
  What a provision relies on, seen through the jobs of its scope; \<open>others\<close> is what lies outside
  of it. Reading the existing jobs leads from \<open>fresh\<close> to \<open>inv\<close>.
\<close>

definition redefinedAs :: "nat \<Rightarrow> schedule \<Rightarrow> instant option \<Rightarrow> existing_job \<Rightarrow> existing_job" where
  "redefinedAs i s t e = (if ej_id e = i then e\<lparr>ej_schedule := s, ej_hasClock := (t \<noteq> None)\<rparr> else e)"

definition insertedAs :: "nat \<Rightarrow> desired_job \<Rightarrow> existing_job" where
  "insertedAs i dj = \<lparr>ej_id = i, ej_name = dj_name dj, ej_schedule = dj_schedule dj, ej_hasClock = (dj_firstRunAt dj \<noteq> None)\<rparr>"

text \<open>The scope a provision should leave.\<close>

definition adjusted :: "desired_job list \<Rightarrow> existing_job \<Rightarrow> existing_job" where
  "adjusted desired e =
     (case find (\<lambda>dj. dj_name dj = ej_name e) desired of
        None \<Rightarrow> e
      | Some dj \<Rightarrow> if holdsDefinition e dj then e else redefinedAs (ej_id e) (dj_schedule dj) (dj_firstRunAt dj) e)"

definition wanted :: "desired_job list \<Rightarrow> existing_job \<Rightarrow> bool" where
  "wanted desired e \<longleftrightarrow> ej_name e \<in> set (map dj_name desired)"

definition missing :: "existing_job list \<Rightarrow> desired_job list \<Rightarrow> desired_job list" where
  "missing existing desired = filter (\<lambda>dj. dj_name dj \<notin> set (map ej_name existing)) desired"

lemma redefinedAs_simps [simp]:
  "ej_id (redefinedAs i s t e) = ej_id e" "ej_name (redefinedAs i s t e) = ej_name e"
  by (simp_all add: redefinedAs_def)

lemma adjusted_simps [simp]: "ej_id (adjusted desired e) = ej_id e" "ej_name (adjusted desired e) = ej_name e"
  by (simp_all add: adjusted_def split: option.splits)

lemma existingByName_iff:
  assumes "distinct (map ej_name existing)"
  shows "existingByName existing name = Some e \<longleftrightarrow> e \<in> set existing \<and> ej_name e = name"
    and "existingByName existing name = None \<longleftrightarrow> name \<notin> set (map ej_name existing)"
proof -
  have "find (\<lambda>e. ej_name e = name) xs = Some e \<longleftrightarrow> e \<in> set xs \<and> ej_name e = name"
    if "distinct (map ej_name xs)" for xs
    using that by (induction xs) auto
  moreover have "distinct (map ej_name (rev existing))" using assms by (simp flip: rev_map)
  ultimately show "existingByName existing name = Some e \<longleftrightarrow> e \<in> set existing \<and> ej_name e = name"
    by (simp add: existingByName_def)
  show "existingByName existing name = None \<longleftrightarrow> name \<notin> set (map ej_name existing)"
    by (auto simp: existingByName_def find_None_iff)
qed

lemma adjusted_Cons:
  "ej_name e \<noteq> dj_name dj \<Longrightarrow> adjusted (dj # rest) e = adjusted rest e"
  "ej_name e \<notin> set (map dj_name rest) \<Longrightarrow> adjusted rest e = e"
proof -
  show "ej_name e \<noteq> dj_name dj \<Longrightarrow> adjusted (dj # rest) e = adjusted rest e" by (simp add: adjusted_def)
  assume "ej_name e \<notin> set (map dj_name rest)"
  then have "find (\<lambda>dj. dj_name dj = ej_name e) rest = None" by (force simp: find_None_iff)
  then show "adjusted rest e = e" by (simp add: adjusted_def)
qed

lemma adjusted_here:
  "ej_name e = dj_name dj \<Longrightarrow> adjusted (dj # rest) e =
     (if holdsDefinition e dj then e else redefinedAs (ej_id e) (dj_schedule dj) (dj_firstRunAt dj) e)"
  by (simp add: adjusted_def)

locale provision_store =
  fixes tx :: "('s, 'e) provision_tx"
    and fresh inv :: "'s \<Rightarrow> bool"
    and scope :: "'s \<Rightarrow> existing_job list"
    and others :: "'s \<Rightarrow> 'o"
  assumes finds: "fresh s \<Longrightarrow> pv_findExisting tx s = Inr (existing, s') \<Longrightarrow>
        inv s' \<and> scope s' = scope s \<and> existing = scope s \<and> others s' = others s"
    and unique: "inv s \<Longrightarrow> distinct (map ej_id (scope s)) \<and> distinct (map ej_name (scope s))"
    and redefines: "inv s \<Longrightarrow> i \<in> set (map ej_id (scope s)) \<Longrightarrow> pv_redefine tx i sch t s = Inr (u, s') \<Longrightarrow>
        inv s' \<and> scope s' = map (redefinedAs i sch t) (scope s) \<and> others s' = others s"
    and withdraws: "inv s \<Longrightarrow> pv_withdrawPendingTasks tx ids s = Inr (u, s') \<Longrightarrow>
        inv s' \<and> scope s' = scope s \<and> others s' = others s"
    and deletes: "inv s \<Longrightarrow> set ids \<subseteq> set (map ej_id (scope s)) \<Longrightarrow> pv_deleteJobs tx ids s = Inr (u, s') \<Longrightarrow>
        inv s' \<and> scope s' = filter (\<lambda>e. ej_id e \<notin> set ids) (scope s) \<and> others s' = others s"
    and inserts: "inv s \<Longrightarrow> distinct (map dj_name djs) \<Longrightarrow>
        set (map dj_name djs) \<inter> set (map ej_name (scope s)) = {} \<Longrightarrow> pv_insert tx djs s = Inr (ids, s') \<Longrightarrow>
        inv s' \<and> length ids = length djs \<and> scope s' = scope s @ map2 insertedAs ids djs \<and> others s' = others s"
begin

lemma diffJobs_adjusts:
  assumes "distinct (map ej_name existing)" "distinct (map dj_name desired)"
    and "inv s" "map ej_name (scope s) = map ej_name existing"
    and "\<forall>e \<in> set (scope s). wanted desired e \<longrightarrow> e \<in> set existing"
    and "diffJobs tx existing desired s = Inr ((ins, red, unc), s')"
  shows "inv s' \<and> scope s' = map (adjusted desired) (scope s) \<and> others s' = others s
    \<and> ins = missing existing desired"
  using assms(2-)
proof (induction desired arbitrary: s ins red unc)
  case Nil
  then show ?case by (simp add: missing_def adjusted_def map_idI)
next
  case (Cons dj rest)
  have rest: "distinct (map dj_name rest)" "\<forall>e \<in> set (scope s). wanted rest e \<longrightarrow> e \<in> set existing"
    using Cons.prems by (auto simp: wanted_def)
  note by_name = existingByName_iff [OF assms(1)]
  note uniq = unique [OF Cons.prems(2)]
  show ?case
  proof (cases "existingByName existing (dj_name dj)")
    case None
    then have no: "dj_name dj \<notin> set (map ej_name (scope s))" using by_name(2) Cons.prems(3) by simp
    obtain ins' where run: "diffJobs tx existing rest s = Inr ((ins', red, unc), s')" "ins = dj # ins'"
      using Cons.prems(5) None by (auto simp: txBind_Inr_iff)
    have "map (adjusted (dj # rest)) (scope s) = map (adjusted rest) (scope s)"
    proof -
      have "ej_name e \<noteq> dj_name dj" if "e \<in> set (scope s)" for e using no that by (metis imageI list.set_map)
      then show ?thesis by (simp add: adjusted_Cons(1))
    qed
    then show ?thesis using Cons.IH [OF rest(1) Cons.prems(2,3) rest(2) run(1)] run(2) no Cons.prems(3)
      by (simp add: missing_def)
  next
    case (Some current)
    then have cur: "current \<in> set existing" "ej_name current = dj_name dj" using by_name(1) by auto
    then have missing: "missing existing (dj # rest) = missing existing rest" by (force simp: missing_def)
    have here: "e = current" if "e \<in> set (scope s)" "ej_name e = dj_name dj" for e
    proof -
      have "e \<in> set existing" using Cons.prems(4) that by (auto simp: wanted_def)
      then show ?thesis using cur that(2) assms(1) by (metis distinct_map inj_on_def)
    qed
    have away: "adjusted rest e = e" if "ej_name e = dj_name dj" for e
      using that Cons.prems(1) by (intro adjusted_Cons(2)) simp
    show ?thesis
    proof (cases "holdsDefinition current dj")
      case True
      obtain unc' where run: "diffJobs tx existing rest s = Inr ((ins, red, unc'), s')"
        using Cons.prems(5) Some True by (auto simp: txBind_Inr_iff)
      have "map (adjusted (dj # rest)) (scope s) = map (adjusted rest) (scope s)"
        using here True away by (auto simp: adjusted_here adjusted_Cons(1))
           (metis adjusted_Cons(1) adjusted_here)
      then show ?thesis using Cons.IH [OF rest(1) Cons.prems(2,3) rest(2) run] missing by simp
    next
      case False
      obtain s1 red' where red: "pv_redefine tx (ej_id current) (dj_schedule dj) (dj_firstRunAt dj) s = Inr ((), s1)"
        and run: "diffJobs tx existing rest s1 = Inr ((ins, red', unc), s')"
        using Cons.prems(5) Some False by (auto simp: txBind_Inr_iff)
      have "dj_name dj \<in> set (map ej_name (scope s))" using cur Cons.prems(3) by (metis imageI list.set_map)
      then have "current \<in> set (scope s)" using here by auto
      then have r: "inv s1 \<and> scope s1 = map (redefinedAs (ej_id current) (dj_schedule dj) (dj_firstRunAt dj)) (scope s)
          \<and> others s1 = others s"
        using redefines [OF Cons.prems(2) _ red] by simp
      have same: "redefinedAs (ej_id current) a b e = e" if "e \<in> set (scope s)" "ej_name e \<noteq> dj_name dj" for e a b
      proof -
        have "ej_id e \<noteq> ej_id current"
          using uniq that \<open>current \<in> set (scope s)\<close> cur(2) by (metis distinct_map inj_on_def)
        then show ?thesis by (simp add: redefinedAs_def)
      qed
      have names1: "map ej_name (scope s1) = map ej_name existing" using r Cons.prems(3) by (simp add: comp_def)
      have wanted1: "\<forall>e \<in> set (scope s1). wanted rest e \<longrightarrow> e \<in> set existing"
      proof (intro ballI impI)
        fix e assume "e \<in> set (scope s1)" "wanted rest e"
        then obtain e0 where e0: "e0 \<in> set (scope s)" "e = redefinedAs (ej_id current) (dj_schedule dj) (dj_firstRunAt dj) e0"
          using r by auto
        then have "ej_name e0 \<noteq> dj_name dj" using \<open>wanted rest e\<close> Cons.prems(1) by (auto simp: wanted_def)
        then show "e \<in> set existing" using same [OF e0(1)] e0 rest(2) \<open>wanted rest e\<close> by simp
      qed
      have "map (adjusted rest) (scope s1) = map (adjusted (dj # rest)) (scope s)"
      proof -
        have "adjusted rest (redefinedAs (ej_id current) (dj_schedule dj) (dj_firstRunAt dj) e) = adjusted (dj # rest) e"
          if e: "e \<in> set (scope s)" for e
        proof (cases "ej_name e = dj_name dj")
          case True
          then show ?thesis using here [OF e True] False cur(2) away by (simp add: adjusted_here)
        next
          case no: False
          then show ?thesis using same [OF e no] by (simp add: adjusted_Cons(1))
        qed
        then show ?thesis using r by simp
      qed
      then show ?thesis using Cons.IH [OF rest(1) conjunct1 [OF r] names1 wanted1 run] missing r by simp
    qed
  qed
qed

text \<open>A provision leaves the scope it should, and touches nothing else.\<close>

lemma provision_exact:
  assumes "fresh s" "distinct (map dj_name desired)" "provision tx desired s = Inr (res, s')"
  shows "inv s' \<and> others s' = others s \<and> (\<exists>ids. length ids = length (missing (scope s) desired)
    \<and> scope s' = map (adjusted desired) (filter (wanted desired) (scope s)) @ map2 insertedAs ids (missing (scope s) desired))"
proof -
  obtain s1 ins red unc s2 s3 s4 ids where run:
      "pv_findExisting tx s = Inr (scope s, s1)" "diffJobs tx (scope s) desired s1 = Inr ((ins, red, unc), s2)"
      "pv_withdrawPendingTasks tx (map fst red) s2 = Inr ((), s3)"
      "pv_deleteJobs tx (map fst (removedJobs (scope s) desired)) s3 = Inr ((), s4)"
      "pv_insert tx ins s4 = Inr (ids, s')"
  proof -
    obtain existing s1 where f: "pv_findExisting tx s = Inr (existing, s1)"
      using assms(3) by (auto simp: provision_def txBind_Inr_iff)
    then have "existing = scope s" using finds [OF assms(1) f] by simp
    then show ?thesis using that f assms(3) by (auto simp: provision_def txBind_Inr_iff Let_def)
  qed
  note f = finds [OF assms(1) run(1)]
  have uniq: "distinct (map ej_id (scope s))" "distinct (map ej_name (scope s))" using unique [of s1] f by simp_all
  have d: "inv s2 \<and> scope s2 = map (adjusted desired) (scope s1) \<and> others s2 = others s1 \<and> ins = missing (scope s) desired"
    using diffJobs_adjusts [OF uniq(2) assms(2) conjunct1 [OF f] _ _ run(2)] f by simp
  note w = withdraws [OF conjunct1 [OF d] run(3)]
  have ids: "set (map fst (removedJobs (scope s) desired)) \<subseteq> set (map ej_id (scope s3))"
    using w d f by (auto simp: removedJobs_def)
  note del = deletes [OF conjunct1 [OF w] ids run(4)]
  have "ej_id e \<in> set (map fst (removedJobs (scope s) desired)) \<longleftrightarrow> \<not> wanted desired e" if "e \<in> set (scope s)" for e
  proof -
    have "e' = e" if "e' \<in> set (scope s)" "ej_id e' = ej_id e" for e'
      using that \<open>e \<in> set (scope s)\<close> uniq(1) by (metis distinct_map inj_on_def)
    then show ?thesis using that by (auto simp: removedJobs_def wanted_def)
  qed
  then have "filter (\<lambda>e. ej_id e \<notin> set (map fst (removedJobs (scope s) desired))) (map (adjusted desired) (scope s))
      = map (adjusted desired) (filter (wanted desired) (scope s))"
    by (simp add: filter_map comp_def cong: filter_cong)
  then have kept: "scope s4 = map (adjusted desired) (filter (wanted desired) (scope s))" using del w d f by simp
  have "distinct (map dj_name ins)" using d assms(2) by (simp add: missing_def distinct_map_filter)
  moreover have "set (map dj_name ins) \<inter> set (map ej_name (scope s4)) = {}"
    using d kept by (auto simp: missing_def)
  ultimately show ?thesis using inserts [OF conjunct1 [OF del] _ _ run(5)] kept d w del f by auto
qed

end

end
