(* ===== verification/ProvisionLaws.thy ===== *)
theory ProvisionLaws
  imports Provisioning
begin

text \<open>
  What provisioning over the repositories does: the transaction of \<open>durable-job-provisioner.ts\<close>
  provides the interface of a provision, and seeding changes nothing of a job but its clock.
\<close>

section \<open>Inserting new jobs\<close>

lemma insertJob_ok: "jobs_ok jobs \<Longrightarrow> jobs_ok (insertJob now nj jobs)"
  by (auto simp: jobs_ok_def insertJob_def jobIds_def newJobRow_def less_Suc_eq)

lemma insertJobs_ok: "jobs_ok jobs \<Longrightarrow> jobs_ok (foldl (\<lambda>js nj. insertJob now nj js) jobs njs)"
  by (induction njs arbitrary: jobs) (simp_all add: insertJob_ok)

lemma insertJob_keeps: "set (jt_rows jobs) \<subseteq> set (jt_rows (insertJob now nj jobs))"
  by (auto simp: insertJob_def)

lemma insertJobs_keep: "set (jt_rows jobs) \<subseteq> set (jt_rows (foldl (\<lambda>js nj. insertJob now nj js) jobs njs))"
proof (induction njs arbitrary: jobs)
  case (Cons nj njs)
  show ?case using insertJob_keeps [of jobs now nj] Cons [of "insertJob now nj jobs"] by auto
qed simp

lemma insertJobs_fresh:
  assumes "distinct (map nj_name njs)" "set (map nj_name njs) \<inter> set (map sj_name (jt_rows jobs)) = {}"
  shows "foldl (\<lambda>js nj. insertJob now nj js) jobs njs =
    \<lparr>jt_rows = jt_rows jobs @ map2 (newJobRow now) [jt_nextId jobs..<jt_nextId jobs + length njs] njs,
     jt_nextId = jt_nextId jobs + length njs\<rparr>"
  using assms
proof (induction njs arbitrary: jobs)
  case (Cons nj njs)
  have one: "insertJob now nj jobs = \<lparr>jt_rows = jt_rows jobs @ [newJobRow now (jt_nextId jobs) nj], jt_nextId = jt_nextId jobs + 1\<rparr>"
    using Cons.prems(2) by (simp add: insertJob_def)
  have "set (map nj_name njs) \<inter> set (map sj_name (jt_rows (insertJob now nj jobs))) = {}"
    using Cons.prems by (auto simp: one newJobRow_def)
  from Cons.IH [OF _ this] Cons.prems(1) show ?case
    by (simp add: one upt_conv_Cons del: upt_Suc)
qed simp

lemma foldl_chunks: "foldl (\<lambda>s chunk. foldl f s chunk) s chunks = foldl f s (concat chunks)"
  by (induction chunks arbitrary: s) simp_all

lemma idsInOrder_rows:
  "idsInOrder rows njs = Inr ids \<Longrightarrow>
     list_all2 (\<lambda>nj i. \<exists>row \<in> set rows. sj_name row = nj_name nj \<and> sj_owner row = nj_owner nj \<and> sj_id row = i) njs ids"
proof (induction rows njs arbitrary: ids rule: idsInOrder.induct)
  case (2 rows nj njs)
  then obtain row where row: "find (\<lambda>row. sj_name row = nj_name nj) (rev rows) = Some row"
    by (auto split: option.splits)
  then have "row \<in> set rows" "sj_name row = nj_name nj" by (auto simp: find_Some_iff rev_nth)
  then show ?case using 2 row by (auto simp: rbind_Inr_iff split: if_splits)
qed simp

text \<open>A successful insert of names that the owner does not hold appends new rows.\<close>

lemma insertMany_new:
  assumes ok: "jobs_ok jobs" and run: "insertMany pg now njs (int (maxInsertChunkSize pg)) jobs = Inr (ids, jobs')"
    and names: "distinct (map nj_name njs)" and owner: "\<forall>nj \<in> set njs. nj_owner nj = ow"
    and free: "\<forall>j \<in> set (jt_rows jobs). sj_owner j = ow \<longrightarrow> sj_name j \<notin> set (map nj_name njs)"
  shows "ids = [jt_nextId jobs..<jt_nextId jobs + length njs]
    \<and> jobs' = \<lparr>jt_rows = jt_rows jobs @ map2 (newJobRow now) ids njs, jt_nextId = jt_nextId jobs + length njs\<rparr>"
proof (cases "njs = []")
  case True
  then show ?thesis using run by (simp add: insertMany_def)
next
  case False
  let ?n = "clampChunkSize (int (maxInsertChunkSize pg)) (maxInsertChunkSize pg)"
  have pos: "0 < ?n" by (simp add: clampChunkSize_def maxInsertChunkSize_def)
  let ?ins = "foldl (\<lambda>js nj. insertJob now nj js) jobs njs"
  have ins: "foldl (\<lambda>js chunk. foldl (\<lambda>js nj. insertJob now nj js) js chunk) jobs (chunksOf ?n njs) = ?ins"
    unfolding foldl_chunks concat_chunksOf [OF pos] ..
  define rows where "rows = concat (map (\<lambda>names. filter (\<lambda>j. sj_name j \<in> set names) (jt_rows ?ins)) (chunksOf ?n (map nj_name njs)))"
  have run': "idsInOrder rows njs = Inr ids" "jobs' = ?ins"
    using run False unfolding insertMany_def Let_def ins rows_def by (auto simp: rbind_Inr_iff)
  have rows: "set rows \<subseteq> set (jt_rows ?ins)" by (auto simp: rows_def)
  have uniq: "r = r'" if "r \<in> set (jt_rows ?ins)" "r' \<in> set (jt_rows ?ins)" "sj_name r = sj_name r'" for r r'
    using insertJobs_ok [OF ok, of now njs] that by (auto simp: jobs_ok_def distinct_map inj_on_def)
  note found = idsInOrder_rows [OF run'(1)]
  have "set (map nj_name njs) \<inter> set (map sj_name (jt_rows jobs)) = {}"
  proof (rule ccontr)
    assume "\<not> ?thesis"
    then obtain n where "n \<in> nj_name ` set njs" "n \<in> sj_name ` set (jt_rows jobs)" by auto
    then obtain nj j where nj: "nj \<in> set njs" "j \<in> set (jt_rows jobs)" "sj_name j = nj_name nj" by (metis imageE)
    then obtain row where row: "row \<in> set rows" "sj_name row = nj_name nj" "sj_owner row = nj_owner nj"
      using found by (auto simp: list_all2_conv_all_nth in_set_conv_nth)
    have "row = j" using uniq [of row j] row nj rows insertJobs_keep [of jobs now njs] by auto
    then show False using row(3) nj owner free by auto
  qed
  note fresh = insertJobs_fresh [OF names this, of now]
  have len: "length ids = length njs" using found by (simp add: list_all2_lengthD)
  have "ids ! k = jt_nextId jobs + k" if k: "k < length njs" for k
  proof -
    obtain row where row: "row \<in> set (jt_rows ?ins)" "sj_name row = nj_name (njs ! k)" "sj_id row = ids ! k"
      using list_all2_nthD [OF found k] rows by blast
    have "newJobRow now (jt_nextId jobs + k) (njs ! k) \<in> set (map2 (newJobRow now) [jt_nextId jobs..<jt_nextId jobs + length njs] njs)"
      using k nth_mem [of k "map2 (newJobRow now) [jt_nextId jobs..<jt_nextId jobs + length njs] njs"] by simp
    then have new: "newJobRow now (jt_nextId jobs + k) (njs ! k) \<in> set (jt_rows ?ins)" by (simp add: fresh)
    show ?thesis using uniq [OF row(1) new] row by (simp add: newJobRow_def)
  qed
  then have "ids = [jt_nextId jobs..<jt_nextId jobs + length njs]" using len by (intro nth_equalityI) auto
  then show ?thesis using run'(2) fresh by simp
qed

section \<open>The transaction provides the interface\<close>

definition existingOf :: "scheduled_job \<Rightarrow> existing_job" where
  "existingOf row = \<lparr>ej_id = sj_id row, ej_name = sj_name row,
     ej_schedule = (case rowSchedule row of Inr s \<Rightarrow> s | Inl _ \<Rightarrow> Interval 0), ej_hasClock = (sj_nextRunAt row \<noteq> None)\<rparr>"

lemma existingOf_simps [simp]: "ej_id (existingOf r) = sj_id r" "ej_name (existingOf r) = sj_name r"
  by (simp_all add: existingOf_def)

lemma toExistingJobs_Inr:
  "toExistingJobs rows = Inr es \<Longrightarrow> es = map existingOf rows \<and> (\<forall>r \<in> set rows. \<exists>s. rowSchedule r = Inr s)"
  by (induction rows arbitrary: es) (auto simp: rbind_Inr_iff toExistingJob_def existingOf_def)

definition ownerRows :: "job_owner \<Rightarrow> job_table \<Rightarrow> scheduled_job list" where
  "ownerRows ow jobs = filter (\<lambda>j. sj_owner j = ow) (jt_rows jobs)"

definition otherRows :: "job_owner \<Rightarrow> job_table \<Rightarrow> scheduled_job list" where
  "otherRows ow jobs = filter (\<lambda>j. sj_owner j \<noteq> ow) (jt_rows jobs)"

lemma ownerCriteria_iff: "ownerCriteria ow j \<longleftrightarrow> sj_owner j = ow"
  by (cases ow; cases "sj_owner j") (auto simp: ownerCriteria_def)

lemma findManyByOwner_rows: "findManyByOwner ow jobs = ownerRows ow jobs"
  unfolding findManyByOwner_def ownerRows_def ownerCriteria_iff ..

definition scopeJobs :: "provision_scope \<Rightarrow> provision_state \<Rightarrow> existing_job list" where
  "scopeJobs scope st = map existingOf (ownerRows (vs_owner scope) (db_jobs (vt_db st)))"

text \<open>A row of the owner agrees with the request, or its id is noted for an update.\<close>

definition noted :: "provision_scope \<Rightarrow> provision_state \<Rightarrow> scheduled_job \<Rightarrow> bool" where
  "noted scope st j \<longleftrightarrow> sj_orphanedAt j = None \<and> (\<exists>s. rowSchedule j = Inr s)
     \<and> (outdatedOptions (vs_options scope) j \<longrightarrow> sj_id j \<in> set (vt_outdatedRunOptions st))
     \<and> (\<not> deepEqual (sj_payload j) (vs_payload scope) \<longrightarrow> sj_id j \<in> set (vt_outdatedPayload st))"

text \<open>No id of another owner's job is noted.\<close>

definition not_noted :: "provision_state \<Rightarrow> scheduled_job \<Rightarrow> bool" where
  "not_noted st j \<longleftrightarrow>
     sj_id j \<notin> set (vt_seeded st) \<union> set (vt_outdatedRunOptions st) \<union> set (vt_outdatedPayload st)"

definition provision_fresh :: "provision_scope \<Rightarrow> provision_state \<Rightarrow> bool" where
  "provision_fresh scope st \<longleftrightarrow> stores_ok (vt_db st) \<and> vt_seeded st = [] \<and> vt_outdatedRunOptions st = []
     \<and> vt_outdatedPayload st = [] \<and> (\<forall>j \<in> set (ownerRows (vs_owner scope) (db_jobs (vt_db st))). sj_orphanedAt j = None)"

definition provision_inv :: "provision_scope \<Rightarrow> provision_state \<Rightarrow> bool" where
  "provision_inv scope st \<longleftrightarrow> stores_ok (vt_db st)
     \<and> (\<forall>j \<in> set (ownerRows (vs_owner scope) (db_jobs (vt_db st))). noted scope st j)
     \<and> (\<forall>j \<in> set (otherRows (vs_owner scope) (db_jobs (vt_db st))). not_noted st j)"

definition othersIn :: "provision_scope \<Rightarrow> provision_state \<Rightarrow> scheduled_job list" where
  "othersIn scope st = otherRows (vs_owner scope) (db_jobs (vt_db st))"

lemma owner_split: "set (jt_rows jobs) = set (ownerRows ow jobs) \<union> set (otherRows ow jobs)"
  by (auto simp: ownerRows_def otherRows_def)

lemma owner_other_ids:
  assumes "jobs_ok jobs" "j \<in> set (ownerRows ow jobs)" "k \<in> set (otherRows ow jobs)"
  shows "sj_id j \<noteq> sj_id k"
  using job_unique [OF assms(1), of j k] assms(2,3) by (auto simp: ownerRows_def otherRows_def)

lemma other_ids:
  assumes "jobs_ok jobs" "k \<in> set (otherRows ow jobs)"
  shows "sj_id k \<notin> sj_id ` set (ownerRows ow jobs)"
proof
  assume "sj_id k \<in> sj_id ` set (ownerRows ow jobs)"
  then obtain j where "j \<in> set (ownerRows ow jobs)" "sj_id k = sj_id j" by (rule imageE)
  from owner_other_ids [OF assms(1) this(1) assms(2)] this(2) show False by simp
qed

lemma updateDefinition_rows:
  "jt_rows (updateDefinition i d t opts jobs) =
     map (\<lambda>j. if sj_id j = i then (withRunOptions opts (withDefinition d j))\<lparr>sj_nextRunAt := t\<rparr> else j) (jt_rows jobs)"
  by (simp add: updateDefinition_def)

lemma filter_map_owner:
  assumes "\<And>j. sj_owner (f j) = sj_owner j"
  shows "filter (\<lambda>j. P (sj_owner j)) (map f xs) = map f (filter (\<lambda>j. P (sj_owner j)) xs)"
  using assms by (simp add: filter_map comp_def)

lemma redefine_laws:
  assumes inv: "provision_inv scope st" and i: "i \<in> set (map ej_id (scopeJobs scope st))"
    and run: "pv_redefine (provisionTransaction pg now scope) i sch t st = Inr (u, st')"
  shows "provision_inv scope st' \<and> scopeJobs scope st' = map (redefinedAs i sch t) (scopeJobs scope st)
    \<and> othersIn scope st' = othersIn scope st"
proof -
  let ?ow = "vs_owner scope" and ?jobs = "db_jobs (vt_db st)"
  let ?f = "\<lambda>j. if sj_id j = i
      then (withRunOptions (vs_options scope) (withDefinition (scheduleColumns sch) j))\<lparr>sj_nextRunAt := t\<rparr> else j"
  have st': "db_jobs (vt_db st') = updateDefinition i (scheduleColumns sch) t (vs_options scope) ?jobs"
      "vt_seeded st' = vt_seeded st @ [i]" "vt_outdatedRunOptions st' = vt_outdatedRunOptions st"
      "vt_outdatedPayload st' = vt_outdatedPayload st" "db_tasks (vt_db st') = db_tasks (vt_db st)"
    using run by (auto simp: provisionTransaction_def)
  have ok: "jobs_ok ?jobs" and tasks: "table_ok (db_tasks (vt_db st))"
    using inv by (simp_all add: provision_inv_def stores_ok_def)
  have ow: "sj_owner (?f j) = sj_owner j" for j by (simp add: withRunOptions_def withDefinition_def)
  have other: "sj_id k \<noteq> i" if "k \<in> set (otherRows ?ow ?jobs)" for k
    using i other_ids [OF ok that] by (auto simp: scopeJobs_def simp flip: image_image)
  have mine: "ownerRows ?ow (db_jobs (vt_db st')) = map ?f (ownerRows ?ow ?jobs)"
    unfolding st'(1) ownerRows_def updateDefinition_rows by (rule filter_map_owner [OF ow])
  have "otherRows ?ow (db_jobs (vt_db st')) = map ?f (otherRows ?ow ?jobs)"
    unfolding st'(1) otherRows_def updateDefinition_rows by (rule filter_map_owner [OF ow])
  then have others: "otherRows ?ow (db_jobs (vt_db st')) = otherRows ?ow ?jobs" using other by (simp add: map_idI)
  have "existingOf (?f j) = redefinedAs i sch t (existingOf j)" for j
  proof (cases "sj_id j = i")
    case True
    then show ?thesis using rowSchedule_withDefinition [where opts = "vs_options scope" and s = sch and j = j and t = t]
      by (simp add: existingOf_def redefinedAs_def) (simp add: withRunOptions_def withDefinition_def)
  qed (simp add: redefinedAs_def)
  then have scope: "scopeJobs scope st' = map (redefinedAs i sch t) (scopeJobs scope st)"
    by (simp add: scopeJobs_def mine)
  have noted: "noted scope st' (?f j)" if "j \<in> set (ownerRows ?ow ?jobs)" for j
  proof (cases "sj_id j = i")
    case True
    have "noted scope st j" using inv that by (simp add: provision_inv_def)
    then show ?thesis using True rowSchedule_withDefinition [where opts = "vs_options scope" and s = sch and j = j and t = t] st'
      by (simp add: noted_def outdatedOptions_def) (simp add: withRunOptions_def withDefinition_def)
  next
    case False
    then show ?thesis using inv that st' by (simp add: provision_inv_def noted_def)
  qed
  have "\<forall>j \<in> set (ownerRows ?ow (db_jobs (vt_db st'))). noted scope st' j"
    unfolding mine using noted by (auto simp only: set_map ball_simps)
  moreover have "stores_ok (vt_db st')"
    unfolding stores_ok_def st' updateDefinition_def using tasks updateJobs_ok [OF ok] by simp
  moreover have "not_noted st' k" if "k \<in> set (otherRows ?ow ?jobs)" for k
    using inv that other [OF that] st' by (simp add: provision_inv_def not_noted_def)
  ultimately show ?thesis using scope others by (simp add: provision_inv_def othersIn_def)
qed

lemma deleteMany_rows:
  "jt_rows (db_jobs (deleteManyByIds ids db)) = filter (\<lambda>j. sj_id j \<notin> set ids) (jt_rows (db_jobs db))"
  "jt_nextId (db_jobs (deleteManyByIds ids db)) = jt_nextId (db_jobs db)"
  by (simp_all add: deleteManyByIds_def deleteJobsWhere_def Let_def)

lemma delete_laws:
  assumes inv: "provision_inv scope st" and ids: "set ids \<subseteq> set (map ej_id (scopeJobs scope st))"
    and run: "pv_deleteJobs (provisionTransaction pg now scope) ids st = Inr (u, st')"
  shows "provision_inv scope st' \<and> scopeJobs scope st' = filter (\<lambda>e. ej_id e \<notin> set ids) (scopeJobs scope st)
    \<and> othersIn scope st' = othersIn scope st"
proof -
  let ?ow = "vs_owner scope" and ?jobs = "db_jobs (vt_db st)"
  have st': "vt_db st' = deleteManyByIds ids (vt_db st)" "vt_seeded st' = vt_seeded st"
      "vt_outdatedRunOptions st' = vt_outdatedRunOptions st" "vt_outdatedPayload st' = vt_outdatedPayload st"
    using run by (auto simp: provisionTransaction_def)
  have ok: "jobs_ok ?jobs" and tasks: "table_ok (db_tasks (vt_db st))"
    using inv by (simp_all add: provision_inv_def stores_ok_def)
  have mine: "ownerRows ?ow (db_jobs (vt_db st')) = filter (\<lambda>j. sj_id j \<notin> set ids) (ownerRows ?ow ?jobs)"
    by (simp add: st' ownerRows_def deleteMany_rows conj_commute)
  have "sj_id k \<notin> set ids" if "k \<in> set (otherRows ?ow ?jobs)" for k
    using ids other_ids [OF ok that] by (auto simp: scopeJobs_def)
  then have others: "otherRows ?ow (db_jobs (vt_db st')) = otherRows ?ow ?jobs"
    by (auto simp: st' otherRows_def deleteMany_rows intro!: filter_cong)
  have "jobs_ok (db_jobs (vt_db st'))"
    using ok by (auto simp: st' jobs_ok_def jobIds_def deleteMany_rows distinct_map_filter)
  moreover have "table_ok (db_tasks (vt_db st'))"
    using tasks background_ok [OF bg_delete_job tasks]
    by (simp add: st' deleteManyByIds_def deleteJobsWhere_def Let_def)
  ultimately have "stores_ok (vt_db st')" by (simp add: stores_ok_def)
  then show ?thesis using inv mine others st'
    by (auto simp: provision_inv_def scopeJobs_def othersIn_def noted_def not_noted_def filter_map comp_def)
qed

lemma insert_laws:
  assumes inv: "provision_inv scope st" and names: "distinct (map dj_name djs)"
    and free: "set (map dj_name djs) \<inter> set (map ej_name (scopeJobs scope st)) = {}"
    and run: "pv_insert (provisionTransaction pg now scope) djs st = Inr (ids, st')"
  shows "provision_inv scope st' \<and> length ids = length djs
    \<and> scopeJobs scope st' = scopeJobs scope st @ map2 insertedAs ids djs \<and> othersIn scope st' = othersIn scope st"
proof -
  let ?ow = "vs_owner scope" and ?jobs = "db_jobs (vt_db st)" and ?njs = "map (toNewJob scope) djs"
  obtain jobs' where ins: "insertMany pg now ?njs (int (maxInsertChunkSize pg)) ?jobs = Inr (ids, jobs')"
    and st': "db_jobs (vt_db st') = jobs'" "vt_seeded st' = vt_seeded st @ ids"
      "vt_outdatedRunOptions st' = vt_outdatedRunOptions st" "vt_outdatedPayload st' = vt_outdatedPayload st"
      "db_tasks (vt_db st') = db_tasks (vt_db st)"
    using run by (auto simp: provisionTransaction_def split: sum.splits)
  have ok: "jobs_ok ?jobs" and tasks: "table_ok (db_tasks (vt_db st))"
    using inv by (simp_all add: provision_inv_def stores_ok_def)
  have cols [simp]: "nj_name (toNewJob scope dj) = dj_name dj" "nj_owner (toNewJob scope dj) = ?ow" for dj
    by (simp_all add: toNewJob_def Let_def)
  have free': "\<forall>j \<in> set (jt_rows ?jobs). sj_owner j = ?ow \<longrightarrow> sj_name j \<notin> set (map nj_name ?njs)"
    using free by (force simp: scopeJobs_def ownerRows_def)
  have names': "distinct (map nj_name ?njs)" using names by (simp add: comp_def)
  let ?new = "map2 (\<lambda>i dj. newJobRow now i (toNewJob scope dj)) ids djs"
  have new: "ids = [jt_nextId ?jobs..<jt_nextId ?jobs + length djs]"
      "jobs' = \<lparr>jt_rows = jt_rows ?jobs @ ?new, jt_nextId = jt_nextId ?jobs + length djs\<rparr>"
    using insertMany_new [OF ok ins names' _ free'] by (simp_all add: zip_map2 comp_def split_beta)
  have len: "length ids = length djs" by (simp add: new(1))
  have new_owner: "sj_owner j = ?ow" if "j \<in> set ?new" for j using that by (auto simp: newJobRow_def)
  have mine: "ownerRows ?ow jobs' = ownerRows ?ow ?jobs @ ?new"
    using new_owner by (simp add: new(2) ownerRows_def)
  have others: "otherRows ?ow jobs' = otherRows ?ow ?jobs"
    using new_owner by (auto simp: new(2) otherRows_def filter_empty_conv)
  have "existingOf (newJobRow now i (toNewJob scope dj)) = insertedAs i dj" for i dj
    by (simp add: existingOf_def insertedAs_def rowSchedule_newJobRow) (simp add: newJobRow_def toNewJob_def Let_def)
  then have scope: "scopeJobs scope st' = scopeJobs scope st @ map2 insertedAs ids djs"
    by (simp add: scopeJobs_def st' mine comp_def split_beta)
  have note_new: "noted scope st' j" if "j \<in> set ?new" for j
  proof -
    from that obtain x where "j = (\<lambda>(i, dj). newJobRow now i (toNewJob scope dj)) x" by auto
    then obtain i dj where "j = newJobRow now i (toNewJob scope dj)" by (cases x) simp
    then show ?thesis
      using rowSchedule_newJobRow [of now i scope dj] deepEqual_same [OF refl, of "vs_payload scope"]
      by (simp add: noted_def outdatedOptions_def) (simp add: newJobRow_def toNewJob_def Let_def)
  qed
  have "jobs_ok jobs'"
  proof -
    have "jobs' = foldl (\<lambda>js nj. insertJob now nj js) ?jobs ?njs"
    proof (cases "djs = []")
      case True
      then show ?thesis using new by simp
    next
      case False
      let ?n = "clampChunkSize (int (maxInsertChunkSize pg)) (maxInsertChunkSize pg)"
      have pos: "0 < ?n" by (simp add: clampChunkSize_def maxInsertChunkSize_def)
      show ?thesis using ins False
        by (auto simp: insertMany_def Let_def rbind_Inr_iff foldl_chunks concat_chunksOf [OF pos])
    qed
    then show ?thesis using insertJobs_ok [OF ok] by simp
  qed
  then have "stores_ok (vt_db st')" using tasks by (simp add: stores_ok_def st')
  moreover have "not_noted st' k" if "k \<in> set (otherRows ?ow ?jobs)" for k
  proof -
    have "sj_id k < jt_nextId ?jobs" using ok that by (auto simp: jobs_ok_def otherRows_def)
    then show ?thesis using inv that st' by (auto simp: provision_inv_def not_noted_def new(1))
  qed
  moreover have "noted scope st' j" if "j \<in> set (ownerRows ?ow ?jobs)" for j
    using inv that st' by (simp add: provision_inv_def noted_def)
  ultimately show ?thesis using scope others mine len note_new
    by (auto simp: provision_inv_def othersIn_def st')
qed

interpretation provisioned: provision_store "provisionTransaction pg now scope" "provision_fresh scope"
    "provision_inv scope" "scopeJobs scope" "othersIn scope" for pg now scope
proof unfold_locales
  fix s existing s'
  assume fresh: "provision_fresh scope s"
    and run: "pv_findExisting (provisionTransaction pg now scope) s = Inr (existing, s')"
  let ?rows = "ownerRows (vs_owner scope) (db_jobs (vt_db s))"
  have "toExistingJobs ?rows = Inr existing"
    and s': "vt_db s' = vt_db s" "vt_seeded s' = []"
      "vt_outdatedRunOptions s' = jobIds (filter (outdatedOptions (vs_options scope)) ?rows)"
      "vt_outdatedPayload s' = jobIds (filter (\<lambda>r. \<not> deepEqual (sj_payload r) (vs_payload scope)) ?rows)"
    using run fresh by (auto simp: provisionTransaction_def provision_fresh_def findManyByOwner_rows Let_def split: sum.splits)
  note es = toExistingJobs_Inr [OF this(1)]
  have ok: "jobs_ok (db_jobs (vt_db s))" using fresh by (simp add: provision_fresh_def stores_ok_def)
  have "noted scope s' j" if "j \<in> set ?rows" for j
    using that es fresh by (auto simp: noted_def s' jobIds_def provision_fresh_def)
  moreover have "not_noted s' k" if "k \<in> set (otherRows (vs_owner scope) (db_jobs (vt_db s)))" for k
  proof -
    have "sj_id k \<notin> sj_id ` set ?rows" by (rule other_ids [OF ok that])
    then show ?thesis by (auto simp: not_noted_def s' jobIds_def)
  qed
  ultimately show "provision_inv scope s' \<and> scopeJobs scope s' = scopeJobs scope s \<and> existing = scopeJobs scope s
      \<and> othersIn scope s' = othersIn scope s"
    using es fresh by (simp add: provision_inv_def provision_fresh_def scopeJobs_def othersIn_def s')
next
  fix s assume "provision_inv scope s"
  then show "distinct (map ej_id (scopeJobs scope s)) \<and> distinct (map ej_name (scopeJobs scope s))"
    by (simp add: provision_inv_def stores_ok_def jobs_ok_def jobIds_def scopeJobs_def ownerRows_def comp_def distinct_map_filter)
next
  fix s ids u s'
  assume "provision_inv scope s" "pv_withdrawPendingTasks (provisionTransaction pg now scope) ids s = Inr (u, s')"
  then show "provision_inv scope s' \<and> scopeJobs scope s' = scopeJobs scope s \<and> othersIn scope s' = othersIn scope s"
    using background_ok [OF bg_delete_pending, of "db_tasks (vt_db s)" ids]
    by (auto simp: provisionTransaction_def provision_inv_def stores_ok_def scopeJobs_def othersIn_def noted_def not_noted_def)
qed (fact redefine_laws delete_laws insert_laws)+

section \<open>Seeding\<close>

interpretation seed: materializer_store "seedTransaction pg now ids" stores_ok
    "\<lambda>db. jt_rows (db_jobs db)" "\<lambda>db. tableKeys (db_tasks db)" for pg now ids
proof unfold_locales
  fix n ms s t claimed s'
  assume ok: "stores_ok s"
    and c: "mt_claimDueJobs (seedTransaction pg now ids) n ms s = Inr (Some (t, claimed), s')"
  then have "claimed = filter (\<lambda>j. sj_enabled j \<and> sj_nextRunAt j \<noteq> None) (findManyByIds ids (db_jobs s))" "s' = s"
    by (auto simp: seedTransaction_def Let_def split: if_splits)
  then show "s' = s \<and> set claimed \<subseteq> set (jt_rows (db_jobs s)) \<and> distinct (jobIds claimed)"
    using ok by (auto simp: findManyByIds_def stores_ok_def jobs_ok_def jobIds_def distinct_map_filter)
next
  fix s rows res s'
  assume "stores_ok s" "mt_recordOccurrences (seedTransaction pg now ids) rows s = Inr (res, s')"
  then show "stores_ok s' \<and> jt_rows (db_jobs s') = jt_rows (db_jobs s)
      \<and> tableKeys (db_tasks s') = tableKeys (db_tasks s) \<union> set (rowKeys rows)
      \<and> (distinct (rowKeys rows) \<and> set (rowKeys rows) \<inter> tableKeys (db_tasks s) = {} \<longrightarrow> ir_recorded res = length rows)"
    using recordIn_laws [of s pg rows res s'] by (simp add: seedTransaction_def)
next
  fix s superseded n s'
  assume "stores_ok s" "mt_retireSuperseded (seedTransaction pg now ids) superseded s = Inr (n, s')"
  then show "stores_ok s' \<and> jt_rows (db_jobs s') = jt_rows (db_jobs s) \<and> tableKeys (db_tasks s') = tableKeys (db_tasks s)"
    using retireIn_laws [of s now superseded n s'] by (simp add: seedTransaction_def)
next
  fix s planned s'
  assume "stores_ok s" "distinct (jobIds (map fst planned))"
    "mt_advanceJobs (seedTransaction pg now ids) planned s = Inr ((), s')"
  then show "stores_ok s' \<and> jt_rows (db_jobs s') = map (advancedBy planned) (jt_rows (db_jobs s))
      \<and> tableKeys (db_tasks s') = tableKeys (db_tasks s)"
    using advanceIn_laws [of s planned pg s'] by (simp add: seedTransaction_def)
qed (auto simp: seedTransaction_def Let_def stores_ok_def jobs_ok_def)

lemma seed_rows:
  assumes "stores_ok db" "seedInitialOccurrences lib mopts pg now ids db = Inr (u, db')"
  obtains planned where "stores_ok db'" "jt_rows (db_jobs db') = map (advancedBy planned) (jt_rows (db_jobs db))"
    "set (jobIds (map fst planned)) \<subseteq> set ids"
proof (cases "ids = []")
  case True
  then show ?thesis using that [of "[]"] assms by (simp add: seedInitialOccurrences_def jobIds_def advancedBy_def map_idI)
next
  case False
  then obtain smry skipped where run: "materializePass lib (seedTransaction pg now ids) mopts (\<lambda>_. False) db = Inr ((smry, skipped), db')"
    using assms(2) by (auto simp: seedInitialOccurrences_def split: sum.splits)
  obtain planned where p: "jt_rows (db_jobs db') = map (advancedBy planned) (jt_rows (db_jobs db))" "stores_ok db'"
    "planned = [] \<or> (\<exists>t. mt_claimDueJobs (seedTransaction pg now ids) (mo_batchSize mopts) (mo_lookaheadSeconds mopts * 1000) db
       = Inr (Some (t, map fst planned), db))"
    using seed.pass_advances_jobs [OF assms(1) run] by blast
  have "set (jobIds (map fst planned)) \<subseteq> set ids"
  proof (cases "planned = []")
    case no: False
    then have "map fst planned = filter (\<lambda>j. sj_enabled j \<and> sj_nextRunAt j \<noteq> None) (findManyByIds ids (db_jobs db))"
      using p(3) by (auto simp: seedTransaction_def Let_def split: if_splits)
    then show ?thesis by (simp add: jobIds_def findManyByIds_def) (auto simp: jobIds_def)
  qed (simp add: jobIds_def)
  with p show ?thesis using that by blast
qed

section \<open>The whole request\<close>

lemma updateRunOptions_rows:
  "jt_rows (updateRunOptions ids opts jobs) = map (\<lambda>j. if sj_id j \<in> set ids then withRunOptions opts j else j) (jt_rows jobs)"
  "jobs_ok jobs \<Longrightarrow> jobs_ok (updateRunOptions ids opts jobs)"
  by (auto simp: updateRunOptions_def map_idI updateJobs_ok)

lemma updatePayload_rows:
  "jt_rows (updatePayload ids payload jobs) = map (\<lambda>j. if sj_id j \<in> set ids then j\<lparr>sj_payload := payload\<rparr> else j) (jt_rows jobs)"
  "jobs_ok jobs \<Longrightarrow> jobs_ok (updatePayload ids payload jobs)"
  by (auto simp: updatePayload_def map_idI updateJobs_ok)

lemma rowSchedule_cong:
  "rowSchedule (advancedBy planned j) = rowSchedule j"
  "rowSchedule (withRunOptions opts j) = rowSchedule j"
  "rowSchedule (j\<lparr>sj_payload := payload\<rparr>) = rowSchedule j"
  by (cases "sj_kind j"; simp add: rowSchedule_def advancedBy_def withRunOptions_def split: option.splits)+

text \<open>What becomes of a row after the diff: its options, its payload and its clock.\<close>

definition finished :: "provision_scope \<Rightarrow> provision_state \<Rightarrow> planned list \<Rightarrow> scheduled_job \<Rightarrow> scheduled_job" where
  "finished scope st planned j = advancedBy planned
     ((\<lambda>j. if sj_id j \<in> set (vt_outdatedPayload st) then j\<lparr>sj_payload := vs_payload scope\<rparr> else j)
       (if sj_id j \<in> set (vt_outdatedRunOptions st) then withRunOptions (vs_options scope) j else j))"

lemma finished_simps [simp]:
  "sj_id (finished scope st planned j) = sj_id j" "sj_name (finished scope st planned j) = sj_name j"
  "sj_owner (finished scope st planned j) = sj_owner j"
  "rowSchedule (finished scope st planned j) = rowSchedule j"
  by (simp_all add: finished_def rowSchedule_cong) (simp_all add: withRunOptions_def)

lemma advancedBy_cols [simp]:
  "sj_payload (advancedBy planned j) = sj_payload j" "outdatedOptions opts (advancedBy planned j) = outdatedOptions opts j"
  by (simp_all add: advancedBy_def outdatedOptions_def split: option.splits)

lemma finished_noted:
  assumes "noted scope st j"
  shows "\<not> outdatedOptions (vs_options scope) (finished scope st planned j)"
    and "deepEqual (sj_payload (finished scope st planned j)) (vs_payload scope)"
    and "sj_orphanedAt (finished scope st planned j) = None"
  using assms deepEqual_same [OF refl, of "vs_payload scope"]
  by (auto simp: noted_def finished_def) (auto simp: outdatedOptions_def withRunOptions_def)

lemma finished_other:
  assumes "not_noted st j" "set (jobIds (map fst planned)) \<subseteq> set (vt_seeded st)"
  shows "finished scope st planned j = j"
proof -
  have "sj_id j \<notin> set (jobIds (map fst planned))" using assms by (auto simp: not_noted_def)
  then have "find (\<lambda>e. sj_id (fst e) = sj_id j) planned = None" by (force simp: find_None_iff jobIds_def)
  then show ?thesis using assms(1) by (simp add: finished_def not_noted_def advancedBy_def)
qed

lemma lifted_rows:
  fixes rows :: "scheduled_job list"
  shows "filter (\<lambda>j. sj_owner j = ow)
     (map (\<lambda>j. if sj_owner j = ow \<and> sj_orphanedAt j \<noteq> None then j\<lparr>sj_orphanedAt := None\<rparr> else j) rows)
   = map (\<lambda>j. j\<lparr>sj_orphanedAt := None\<rparr>) (filter (\<lambda>j. sj_owner j = ow) rows)"
  "filter (\<lambda>j. sj_owner j \<noteq> ow)
     (map (\<lambda>j. if sj_owner j = ow \<and> sj_orphanedAt j \<noteq> None then j\<lparr>sj_orphanedAt := None\<rparr> else j) rows)
   = filter (\<lambda>j. sj_owner j \<noteq> ow) rows"
proof -
  have same: "j\<lparr>sj_orphanedAt := None\<rparr> = j" if "sj_orphanedAt j = None" for j :: scheduled_job
    using that by (cases j) simp
  have lift: "(if sj_owner j = ow \<and> sj_orphanedAt j \<noteq> None then j\<lparr>sj_orphanedAt := None\<rparr> else j)
      = (if sj_owner j = ow then j\<lparr>sj_orphanedAt := None\<rparr> else j)" for j :: scheduled_job
    using same [of j] by (cases "sj_orphanedAt j = None") (simp_all only: simp_thms if_True if_False if_cancel)
  have mine: "filter (\<lambda>j. sj_owner j = ow) (map (\<lambda>j. if sj_owner j = ow then j\<lparr>sj_orphanedAt := None\<rparr> else j) rows)
      = map (\<lambda>j. j\<lparr>sj_orphanedAt := None\<rparr>) (filter (\<lambda>j. sj_owner j = ow) rows)"
    by (induction rows) simp_all
  have others: "filter (\<lambda>j. sj_owner j \<noteq> ow) (map (\<lambda>j. if sj_owner j = ow then j\<lparr>sj_orphanedAt := None\<rparr> else j) rows)
      = filter (\<lambda>j. sj_owner j \<noteq> ow) rows"
    by (induction rows) simp_all
  show "filter (\<lambda>j. sj_owner j = ow)
     (map (\<lambda>j. if sj_owner j = ow \<and> sj_orphanedAt j \<noteq> None then j\<lparr>sj_orphanedAt := None\<rparr> else j) rows)
   = map (\<lambda>j. j\<lparr>sj_orphanedAt := None\<rparr>) (filter (\<lambda>j. sj_owner j = ow) rows)"
    unfolding lift by (fact mine)
  show "filter (\<lambda>j. sj_owner j \<noteq> ow)
     (map (\<lambda>j. if sj_owner j = ow \<and> sj_orphanedAt j \<noteq> None then j\<lparr>sj_orphanedAt := None\<rparr> else j) rows)
   = filter (\<lambda>j. sj_owner j \<noteq> ow) rows"
    unfolding lift by (fact others)
qed

lemma missing_names:
  "set (map dj_name (missing existing desired)) = set (map dj_name desired) - set (map ej_name existing)"
  by (auto simp: missing_def)

lemma wanted_names:
  "set (map ej_name (map (adjusted desired) (filter (wanted desired) existing)))
     = set (map ej_name existing) \<inter> set (map dj_name desired)"
proof -
  have "set (map ej_name (filter (wanted desired) existing)) = set (map ej_name existing) \<inter> set (map dj_name desired)"
    unfolding wanted_def by (rule set_eqI) (simp only: set_map set_filter image_iff Int_iff mem_Collect_eq, blast)
  then show ?thesis by (simp add: comp_def)
qed

lemma provisionWork_result:
  assumes ok: "stores_ok db" and desired: "distinct (map dj_name desired)"
    and run: "provisionWork lib mopts pg now scope desired db = Inr (res, db')"
  obtains st planned ids where
    "provision_inv scope st" "stores_ok db'"
    "jt_rows (db_jobs db') = map (finished scope st planned) (jt_rows (db_jobs (vt_db st)))"
    "set (jobIds (map fst planned)) \<subseteq> set (vt_seeded st)"
    "otherRows (vs_owner scope) (db_jobs (vt_db st)) = otherRows (vs_owner scope) (db_jobs db)"
    "scopeJobs scope st = map (adjusted desired) (filter (wanted desired) (map existingOf (ownerRows (vs_owner scope) (db_jobs db))))
       @ map2 insertedAs ids (missing (map existingOf (ownerRows (vs_owner scope) (db_jobs db))) desired)"
    "length ids = length (missing (map existingOf (ownerRows (vs_owner scope) (db_jobs db))) desired)"
proof -
  let ?ow = "vs_owner scope"
  let ?jobs0 = "fst (liftQuarantineByOwner ?ow (db_jobs db))"
  let ?st0 = "\<lparr>vt_db = db\<lparr>db_jobs := ?jobs0\<rparr>, vt_seeded = [], vt_outdatedRunOptions = [], vt_outdatedGrace = [], vt_outdatedPayload = []\<rparr>"
  obtain st where p: "provision (provisionTransaction pg now scope) desired ?st0 = Inr (res, st)"
    and seed: "seedInitialOccurrences lib mopts pg now (vt_seeded st)
        \<lparr>db_jobs = updatePayload (vt_outdatedPayload st) (vs_payload scope)
            (updateRunOptions (vt_outdatedRunOptions st) (vs_options scope) (db_jobs (vt_db st))),
         db_tasks = updateMissedAfterForJobs now (vt_outdatedGrace st) (rn_misfireGraceSeconds (vs_options scope))
            (db_tasks (vt_db st))\<rparr> = Inr ((), db')"
    using run by (auto simp: provisionWork_def Let_def split: sum.splits)
  have lift: "?jobs0 = fst (updateJobs (\<lambda>j. sj_owner j = ?ow \<and> sj_orphanedAt j \<noteq> None) (\<lambda>j. j\<lparr>sj_orphanedAt := None\<rparr>) (db_jobs db))"
    by (simp add: liftQuarantineByOwner_def ownerCriteria_iff)
  have rows0: "jt_rows ?jobs0 = map (\<lambda>j. if sj_owner j = ?ow \<and> sj_orphanedAt j \<noteq> None then j\<lparr>sj_orphanedAt := None\<rparr> else j) (jt_rows (db_jobs db))"
    by (simp add: lift)
  have mine0: "ownerRows ?ow ?jobs0 = map (\<lambda>j. j\<lparr>sj_orphanedAt := None\<rparr>) (ownerRows ?ow (db_jobs db))"
    unfolding ownerRows_def rows0 by (rule lifted_rows(1))
  have others0: "otherRows ?ow ?jobs0 = otherRows ?ow (db_jobs db)"
    unfolding otherRows_def rows0 by (rule lifted_rows(2))
  have ex0: "map existingOf (ownerRows ?ow ?jobs0) = map existingOf (ownerRows ?ow (db_jobs db))"
  proof -
    have "existingOf (j\<lparr>sj_orphanedAt := None\<rparr>) = existingOf j" for j
      by (cases "sj_kind j"; simp add: existingOf_def rowSchedule_def)
    then show ?thesis by (simp add: mine0)
  qed
  have "provision_fresh scope ?st0"
    using ok updateJobs_ok [of "db_jobs db" "\<lambda>j. j\<lparr>sj_orphanedAt := None\<rparr>"] mine0
    by (auto simp: provision_fresh_def stores_ok_def lift)
  from provisioned.provision_exact [OF this desired p] obtain ids where e: "provision_inv scope st"
      "othersIn scope st = othersIn scope ?st0" "length ids = length (missing (scopeJobs scope ?st0) desired)"
      "scopeJobs scope st = map (adjusted desired) (filter (wanted desired) (scopeJobs scope ?st0))
         @ map2 insertedAs ids (missing (scopeJobs scope ?st0) desired)"
    by blast
  have s0: "scopeJobs scope ?st0 = map existingOf (ownerRows ?ow (db_jobs db))" using ex0 by (simp add: scopeJobs_def)
  let ?jobs2 = "updatePayload (vt_outdatedPayload st) (vs_payload scope)
      (updateRunOptions (vt_outdatedRunOptions st) (vs_options scope) (db_jobs (vt_db st)))"
  let ?tasks = "updateMissedAfterForJobs now (vt_outdatedGrace st) (rn_misfireGraceSeconds (vs_options scope)) (db_tasks (vt_db st))"
  have st_ok: "jobs_ok (db_jobs (vt_db st))" "table_ok (db_tasks (vt_db st))"
    using e(1) by (simp_all add: provision_inv_def stores_ok_def)
  have "stores_ok \<lparr>db_jobs = ?jobs2, db_tasks = ?tasks\<rparr>"
    using updatePayload_rows(2) [OF updateRunOptions_rows(2) [OF st_ok(1)]] background_ok [OF bg_grace st_ok(2)]
    by (simp add: stores_ok_def)
  from seed_rows [OF this seed] obtain planned where s: "stores_ok db'"
      "jt_rows (db_jobs db') = map (advancedBy planned) (jt_rows ?jobs2)" "set (jobIds (map fst planned)) \<subseteq> set (vt_seeded st)"
    by auto
  have "jt_rows (db_jobs db') = map (finished scope st planned) (jt_rows (db_jobs (vt_db st)))"
  proof -
    have id: "sj_id (if b then withRunOptions opts j else j) = sj_id j" for b opts j by (simp add: withRunOptions_def)
    show ?thesis unfolding s(2) updatePayload_rows updateRunOptions_rows by (simp add: finished_def comp_def id)
  qed
  then show ?thesis using that [OF e(1) s(1) _ s(3)] e(2-4) others0 s0 by (simp add: othersIn_def)
qed

text \<open>The rows of an owner after its request, and all other rows.\<close>

lemma provisioned_rows:
  assumes ok: "stores_ok db" and desired: "distinct (map dj_name desired)"
    and run: "provisionWork lib mopts pg now scope desired db = Inr (res, db')"
  shows "stores_ok db'"
    and "set (map sj_name (ownerRows (vs_owner scope) (db_jobs db'))) = set (map dj_name desired)"
    and "\<forall>j \<in> set (ownerRows (vs_owner scope) (db_jobs db')). \<exists>dj \<in> set desired. sj_name j = dj_name dj
        \<and> (\<exists>s. rowSchedule j = Inr s \<and> sameSchedule s (dj_schedule dj))
        \<and> \<not> outdatedOptions (vs_options scope) j \<and> deepEqual (sj_payload j) (vs_payload scope) \<and> sj_orphanedAt j = None"
    and "\<forall>j \<in> set (ownerRows (vs_owner scope) (db_jobs db)). sj_name j \<in> set (map dj_name desired) \<longrightarrow>
        (\<exists>k \<in> set (ownerRows (vs_owner scope) (db_jobs db')). sj_id k = sj_id j \<and> sj_name k = sj_name j)"
    and "otherRows (vs_owner scope) (db_jobs db') = otherRows (vs_owner scope) (db_jobs db)"
proof -
  let ?ow = "vs_owner scope"
  let ?existing = "map existingOf (ownerRows ?ow (db_jobs db))"
  obtain st planned ids where r: "provision_inv scope st" "stores_ok db'"
    "jt_rows (db_jobs db') = map (finished scope st planned) (jt_rows (db_jobs (vt_db st)))"
    "set (jobIds (map fst planned)) \<subseteq> set (vt_seeded st)"
    "otherRows ?ow (db_jobs (vt_db st)) = otherRows ?ow (db_jobs db)"
    "scopeJobs scope st = map (adjusted desired) (filter (wanted desired) ?existing) @ map2 insertedAs ids (missing ?existing desired)"
    "length ids = length (missing ?existing desired)"
    using provisionWork_result [OF ok desired run] by blast
  show "stores_ok db'" by fact
  have mine: "ownerRows ?ow (db_jobs db') = map (finished scope st planned) (ownerRows ?ow (db_jobs (vt_db st)))"
    unfolding ownerRows_def r(3) by (rule filter_map_owner) simp
  have "otherRows ?ow (db_jobs db') = map (finished scope st planned) (otherRows ?ow (db_jobs (vt_db st)))"
    unfolding otherRows_def r(3) by (rule filter_map_owner) simp
  also have "\<dots> = otherRows ?ow (db_jobs (vt_db st))"
    using r(1,4) finished_other by (simp add: provision_inv_def map_idI)
  finally show "otherRows ?ow (db_jobs db') = otherRows ?ow (db_jobs db)" using r(5) by simp
  have inserted: "map ej_name (map2 insertedAs ids djs) = map dj_name djs" if "length ids = length djs" for ids djs
    using that by (induction ids djs rule: list_induct2) (simp_all add: insertedAs_def)
  have names: "map sj_name (ownerRows ?ow (db_jobs db')) = map ej_name (scopeJobs scope st)"
    by (simp add: mine scopeJobs_def comp_def)
  have "set (map ej_name (scopeJobs scope st)) =
      set (map ej_name ?existing) \<inter> set (map dj_name desired) \<union> set (map dj_name (missing ?existing desired))"
    unfolding r(6) map_append set_append inserted [OF r(7)] wanted_names ..
  also have "\<dots> = set (map dj_name desired)" unfolding missing_names by blast
  finally show "set (map sj_name (ownerRows ?ow (db_jobs db'))) = set (map dj_name desired)" using names by simp
  have same: "\<exists>dj \<in> set desired. ej_name e = dj_name dj \<and> sameSchedule (ej_schedule e) (dj_schedule dj)"
    if e: "e \<in> set (scopeJobs scope st)" for e
  proof (cases "e \<in> set (map2 insertedAs ids (missing ?existing desired))")
    case True
    then obtain i dj where "dj \<in> set (missing ?existing desired)" "e = insertedAs i dj" by (auto dest: set_zip_rightD)
    then show ?thesis by (auto simp: missing_def insertedAs_def)
  next
    case False
    then obtain e0 where e0: "e = adjusted desired e0" "wanted desired e0" using e r(6) by auto
    then obtain dj where dj: "find (\<lambda>dj. dj_name dj = ej_name e0) desired = Some dj"
      by (cases "find (\<lambda>dj. dj_name dj = ej_name e0) desired") (auto simp: find_None_iff wanted_def)
    then have "dj \<in> set desired" "dj_name dj = ej_name e0" by (auto simp: find_Some_iff)
    then show ?thesis using dj e0(1)
      by (auto simp: adjusted_def holdsDefinition_def redefinedAs_def intro!: bexI [of _ dj])
  qed
  show "\<forall>j \<in> set (ownerRows ?ow (db_jobs db')). \<exists>dj \<in> set desired. sj_name j = dj_name dj
        \<and> (\<exists>s. rowSchedule j = Inr s \<and> sameSchedule s (dj_schedule dj))
        \<and> \<not> outdatedOptions (vs_options scope) j \<and> deepEqual (sj_payload j) (vs_payload scope) \<and> sj_orphanedAt j = None"
  proof
    fix j assume "j \<in> set (ownerRows ?ow (db_jobs db'))"
    then obtain k where k: "k \<in> set (ownerRows ?ow (db_jobs (vt_db st)))" "j = finished scope st planned k" by (auto simp: mine)
    have n: "noted scope st k" using r(1) k(1) by (simp add: provision_inv_def)
    then obtain s where s: "rowSchedule k = Inr s" by (auto simp: noted_def)
    have "existingOf k \<in> set (scopeJobs scope st)" using k(1) by (simp add: scopeJobs_def)
    moreover have "ej_schedule (existingOf k) = s" "ej_name (existingOf k) = sj_name k" using s by (simp_all add: existingOf_def)
    ultimately obtain dj where dj: "dj \<in> set desired" "sj_name k = dj_name dj" "sameSchedule s (dj_schedule dj)"
      using same [of "existingOf k"] by auto
    show "\<exists>dj \<in> set desired. sj_name j = dj_name dj \<and> (\<exists>s. rowSchedule j = Inr s \<and> sameSchedule s (dj_schedule dj))
        \<and> \<not> outdatedOptions (vs_options scope) j \<and> deepEqual (sj_payload j) (vs_payload scope) \<and> sj_orphanedAt j = None"
      using dj s k(2) finished_noted [OF n] by (intro bexI [OF _ dj(1)]) simp
  qed
  show "\<forall>j \<in> set (ownerRows ?ow (db_jobs db)). sj_name j \<in> set (map dj_name desired) \<longrightarrow>
        (\<exists>k \<in> set (ownerRows ?ow (db_jobs db')). sj_id k = sj_id j \<and> sj_name k = sj_name j)"
  proof (intro ballI impI)
    fix j assume j: "j \<in> set (ownerRows ?ow (db_jobs db))" "sj_name j \<in> set (map dj_name desired)"
    then have "adjusted desired (existingOf j) \<in> set (scopeJobs scope st)" by (auto simp: r(6) wanted_def)
    then obtain k where k: "k \<in> set (ownerRows ?ow (db_jobs (vt_db st)))" "existingOf k = adjusted desired (existingOf j)"
      by (auto simp: scopeJobs_def)
    have "sj_id k = sj_id j" "sj_name k = sj_name j"
      using arg_cong [OF k(2), of ej_id] arg_cong [OF k(2), of ej_name] by simp_all
    then show "\<exists>k \<in> set (ownerRows ?ow (db_jobs db')). sj_id k = sj_id j \<and> sj_name k = sj_name j"
      using k(1) by (auto simp: mine)
  qed
qed

end
