(* ===== verification/ScheduleJobsProperties.thy ===== *)
theory ScheduleJobsProperties
  imports SchedulerRuns ProvisionLaws
begin

text \<open>
  What the durable scheduler guarantees of its jobs: passes that record all they plan, the jobs a
  provision leaves to an owner, provisions repeated, and a job that could not be planned.
\<close>

section \<open>Passes\<close>

text \<open>
  A history of the database: passes, with the reports of skipped duplicates they end in, passes
  that throw, statements on the occurrences that add none, and jobs taken away.
\<close>

inductive planner_run ::
  "cron_lib \<Rightarrow> materializer_options \<Rightarrow> scheduler_db \<Rightarrow> (nat \<times> nat) option list \<Rightarrow> scheduler_db \<Rightarrow> bool"
  for lib opts db where
  pr_start: "planner_run lib opts db [] db"
| pr_pass: "planner_run lib opts db reports db1 \<Longrightarrow>
    materialize lib (pollTransaction pg now locked) opts aborted db1 = (db2, Inr (smry, report)) \<Longrightarrow>
    planner_run lib opts db (reports @ [report]) db2"
| pr_thrown: "planner_run lib opts db reports db1 \<Longrightarrow>
    materialize lib (pollTransaction pg now locked) opts aborted db1 = (db2, Inl e) \<Longrightarrow>
    planner_run lib opts db reports db2"
| pr_statement: "planner_run lib opts db reports db1 \<Longrightarrow> statement (db_tasks db1) tasks \<Longrightarrow>
    tableKeys tasks \<subseteq> tableKeys (db_tasks db1) \<Longrightarrow> planner_run lib opts db reports (db1\<lparr>db_tasks := tasks\<rparr>)"
| pr_deprovision: "planner_run lib opts db reports db1 \<Longrightarrow>
    planner_run lib opts db reports (fst (deleteScope sc db1))"

definition clocksAhead :: "scheduler_db \<Rightarrow> bool" where
  "clocksAhead db \<longleftrightarrow> clocks_ahead (jt_rows (db_jobs db)) (tableKeys (db_tasks db))"

lemma clocks_ahead_mono: "clocks_ahead jobs keys \<Longrightarrow> set jobs' \<subseteq> set jobs \<Longrightarrow> keys' \<subseteq> keys \<Longrightarrow> clocks_ahead jobs' keys'"
  unfolding clocks_ahead_def by blast

lemma deleteJobsWhere_keeps:
  assumes "stores_ok db"
  shows "stores_ok (fst (deleteJobsWhere p db))"
    and "set (jt_rows (db_jobs (fst (deleteJobsWhere p db)))) \<subseteq> set (jt_rows (db_jobs db))"
    and "tableKeys (db_tasks (fst (deleteJobsWhere p db))) \<subseteq> tableKeys (db_tasks db)"
proof -
  have "jobs_ok ((db_jobs db)\<lparr>jt_rows := filter (\<lambda>j. \<not> p j) (jt_rows (db_jobs db))\<rparr>)"
    using assms by (auto simp: stores_ok_def jobs_ok_def jobIds_def distinct_map_filter)
  then show "stores_ok (fst (deleteJobsWhere p db))"
    using assms background_ok [OF bg_delete_job] by (simp add: stores_ok_def deleteJobsWhere_def Let_def)
  show "set (jt_rows (db_jobs (fst (deleteJobsWhere p db)))) \<subseteq> set (jt_rows (db_jobs db))"
    by (auto simp: deleteJobsWhere_def Let_def)
  show "tableKeys (db_tasks (fst (deleteJobsWhere p db))) \<subseteq> tableKeys (db_tasks db)"
    by (auto simp: deleteJobsWhere_def Let_def tableKeys_def deleteOfJobs_def deleteWhere_def)
qed

lemma deleteScope_keeps:
  assumes "stores_ok db" "clocksAhead db"
  shows "stores_ok (fst (deleteScope sc db)) \<and> clocksAhead (fst (deleteScope sc db))"
proof -
  obtain p where p: "deleteScope sc db = deleteJobsWhere p db"
    by (cases sc) (simp_all add: deleteByOwnerMember_def deleteByOwnerRef_def deleteByOwnerTaskType_def
        deleteIfPayloadUnchanged_def)
  then show ?thesis
    using deleteJobsWhere_keeps [OF assms(1), of p] assms(2)
    by (auto simp: clocksAhead_def elim: clocks_ahead_mono)
qed

text \<open>C26: However passes, throwing passes, statements of executors and sweeps and deletions follow
  each other, the clock of a job stays ahead of all its recorded occurrences, and every pass records
  each occurrence it plans: none is ever reported as a skipped duplicate, provided a job that
  cannot be planned is put off by at least the lookahead.\<close>

theorem passes_record_what_they_plan:
  assumes "planner_run lib opts db reports db'" "stores_ok db" "clocksAhead db"
    "fires_ahead lib" "mo_lookaheadSeconds opts \<le> mo_planRetrySeconds opts"
  shows "stores_ok db' \<and> clocksAhead db' \<and> set reports \<subseteq> {None}"
  using assms(1)
proof (induction rule: planner_run.induct)
  case pr_start
  then show ?case using assms(2,3) by simp
next
  case (pr_pass reports db1 pg now locked aborted db2 smry report)
  then have "materializePass lib (pollTransaction pg now locked) opts aborted db1 = Inr ((smry, report), db2)"
    by (auto simp: materialize_def inTransaction_def split: if_splits sum.splits)
  from poll.poll_records_what_it_plans [OF _ _ assms(4,5) this] pr_pass.IH show ?case
    by (simp add: clocksAhead_def)
next
  case (pr_thrown reports db1 pg now locked aborted db2 e)
  then have "db2 = db1" by (auto simp: materialize_def inTransaction_def split: if_splits sum.splits)
  then show ?case using pr_thrown.IH by simp
next
  case (pr_statement reports db1 tasks)
  then have "table_ok tasks" using statement_ok by (auto simp: stores_ok_def)
  then show ?case using pr_statement
    by (auto simp: stores_ok_def clocksAhead_def elim: clocks_ahead_mono)
next
  case (pr_deprovision reports db1 sc)
  then show ?case using deleteScope_keeps by blast
qed

definition exDb :: "scheduled_job list \<Rightarrow> scheduler_db" where
  "exDb jobs = \<lparr>db_jobs = \<lparr>jt_rows = jobs, jt_nextId = 10\<rparr>, db_tasks = \<lparr>tt_rows = [], tt_nextId = 1\<rparr>\<rparr>"

definition exPass :: "instant \<Rightarrow> scheduler_db \<Rightarrow> scheduler_db" where
  "exPass now db = fst (materialize exLib (pollTransaction True now {}) exOptions (\<lambda>_. False) db)"

lemma exDb_ok:
  "stores_ok (exDb [exJob 1 Coalesce 60000])" "clocksAhead (exDb [exJob 1 Coalesce 60000])"
  by (auto simp: exDb_def exJob_def stores_ok_def jobs_ok_def jobIds_def table_ok_def clocksAhead_def
      clocks_ahead_def tableKeys_def rowIds_def)

lemma passes_record_what_they_plan_witness:
  "clocksAhead (exPass 180000 (exPass 60000 (exDb [exJob 1 Coalesce 60000])))
   \<and> map tr_scheduledFor (tt_rows (db_tasks (exPass 180000 (exPass 60000 (exDb [exJob 1 Coalesce 60000])))))
     = [60000, 120000, 180000, 240000]"
proof -
  let ?tx = "\<lambda>now. pollTransaction True now {}"
  let ?db = "exDb [exJob 1 Coalesce 60000]"
  have reports: "map_sum id snd (snd (materialize exLib (?tx 60000) exOptions (\<lambda>_. False) ?db)) = Inr None"
      "map_sum id snd (snd (materialize exLib (?tx 180000) exOptions (\<lambda>_. False) (exPass 60000 ?db))) = Inr None"
    by code_simp+
  have one: "\<exists>smry. materialize exLib (?tx 60000) exOptions (\<lambda>_. False) ?db = (exPass 60000 ?db, Inr (smry, None))"
    using reports(1) by (cases "snd (materialize exLib (?tx 60000) exOptions (\<lambda>_. False) ?db)")
      (auto simp: exPass_def prod_eq_iff)
  have two: "\<exists>smry. materialize exLib (?tx 180000) exOptions (\<lambda>_. False) (exPass 60000 ?db)
      = (exPass 180000 (exPass 60000 ?db), Inr (smry, None))"
    using reports(2) by (cases "snd (materialize exLib (?tx 180000) exOptions (\<lambda>_. False) (exPass 60000 ?db))")
      (auto simp: exPass_def prod_eq_iff)
  have run: "planner_run exLib exOptions ?db (([] @ [None]) @ [None]) (exPass 180000 (exPass 60000 ?db))"
    using one two pr_start pr_pass by metis
  have rows: "map tr_scheduledFor (tt_rows (db_tasks (exPass 180000 (exPass 60000 ?db))))
     = [60000, 120000, 180000, 240000]" by code_simp
  have "mo_lookaheadSeconds exOptions \<le> mo_planRetrySeconds exOptions" by (simp add: exOptions_def)
  then show ?thesis
    using passes_record_what_they_plan [OF run exDb_ok exLib_ahead] rows by blast
qed

section \<open>Provisions\<close>

text \<open>C27: A request either throws and changes nothing, or leaves the owner with exactly the jobs it
  wants: under their names, with their rules, options and payload, released from quarantine; a job
  it keeps keeps its id, and no job of another owner changes.\<close>

theorem provision_leaves_the_desired_jobs:
  assumes "stores_ok db" "digestLength digest n"
    "provisionJobs lib mopts pg now registered scope (nameDesiredJobs digest workflowId nodeId rules) db = (db', res)"
  shows "case res of
      Inl e \<Rightarrow> db' = db
    | Inr smry \<Rightarrow> (let desired = nameDesiredJobs digest workflowId nodeId rules;
          before = ownerRows (vs_owner scope) (db_jobs db); rows = ownerRows (vs_owner scope) (db_jobs db')
        in stores_ok db' \<and> jo_type (vs_owner scope) \<in> set registered
          \<and> set (map sj_name rows) = set (map dj_name desired)
          \<and> (\<forall>j \<in> set rows. \<exists>dj \<in> set desired. sj_name j = dj_name dj
               \<and> (\<exists>s. rowSchedule j = Inr s \<and> sameSchedule s (dj_schedule dj))
               \<and> \<not> outdatedOptions (vs_options scope) j \<and> deepEqual (sj_payload j) (vs_payload scope)
               \<and> sj_orphanedAt j = None)
          \<and> (\<forall>j \<in> set before. sj_name j \<in> set (map dj_name desired) \<longrightarrow>
               (\<exists>k \<in> set rows. sj_id k = sj_id j \<and> sj_name k = sj_name j))
          \<and> otherRows (vs_owner scope) (db_jobs db') = otherRows (vs_owner scope) (db_jobs db))"
proof (cases res)
  case (Inl e)
  then show ?thesis using assms(3) by (auto simp: provisionJobs_def inTransaction_def split: sum.splits)
next
  case (Inr smry)
  have distinct: "distinct (map dj_name (nameDesiredJobs digest workflowId nodeId rules))"
    unfolding nameDesiredJobs_def by (rule nameJobs_distinct [OF assms(2)])
  have run: "provisionWork lib mopts pg now scope (nameDesiredJobs digest workflowId nodeId rules) db = Inr (smry, db')"
    and "assertProvisionableOwner registered (vs_owner scope) = Inr ()"
    using assms(3) Inr by (auto simp: provisionJobs_def inTransaction_def split: sum.splits)
  then have "jo_type (vs_owner scope) \<in> set registered"
    by (auto simp: assertProvisionableOwner_def rbind_Inr_iff throwIf_def split: if_splits)
  then show ?thesis using provisioned_rows [OF assms(1) distinct run] Inr by (simp add: Let_def)
qed

text \<open>A request for two rules, where one job has an older rule and another is not wanted.\<close>

definition exDigest :: "json \<Rightarrow> bool \<Rightarrow> string" where
  "exDigest d live = (case d of JArray (JString k # _) \<Rightarrow> [hd k] | _ \<Rightarrow> ''x'')"

definition exScope :: provision_scope where
  "exScope = \<lparr>vs_owner = \<lparr>jo_type = ''workflow'', jo_id = ''w'', jo_member = Some ''n''\<rparr>, vs_taskType = ''poll'',
     vs_payload = JNull, vs_options = \<lparr>rn_maxAttempts = 3, rn_misfirePolicy = Coalesce, rn_misfireGraceSeconds = 90\<rparr>\<rparr>"

definition exRules :: "(schedule \<times> instant option) list" where
  "exRules = [(Interval 30, Some 30000), (Cron ''0 * * * *'' None, Some 3600000)]"

definition exBefore :: scheduler_db where
  "exBefore = exDb [(exJob 1 Coalesce 60000)\<lparr>sj_name := ''w:n:i:0''\<rparr>, (exJob 2 Coalesce 60000)\<lparr>sj_name := ''old''\<rparr>]"

definition exAfter :: scheduler_db where
  "exAfter = fst (provisionJobs exLib exOptions True 1000 [''workflow''] exScope
     (nameDesiredJobs exDigest ''w'' ''n'' exRules) exBefore)"

lemma exRun:
  "map_sum id (\<lambda>s. (sm_inserted s, sm_redefined s, sm_unchanged s, sm_removed s))
     (snd (provisionJobs exLib exOptions True 1000 [''workflow''] exScope
       (nameDesiredJobs exDigest ''w'' ''n'' exRules) exBefore))
   = Inr ([(10, ''w:n:c:0'')], [(1, ''w:n:i:0'')], [], [(2, ''old'')])"
  by code_simp

lemma exBefore_ok: "stores_ok exBefore" "digestLength exDigest 1"
  by (auto simp: exBefore_def exDb_def exJob_def stores_ok_def jobs_ok_def jobIds_def table_ok_def rowIds_def
      digestLength_def exDigest_def split: json.splits list.splits)

lemma provision_leaves_the_desired_jobs_witness:
  "set (map sj_name (ownerRows (vs_owner exScope) (db_jobs exAfter))) = {''w:n:i:0'', ''w:n:c:0''}
   \<and> map sj_id (ownerRows (vs_owner exScope) (db_jobs exAfter)) = [1, 10]"
proof -
  let ?desired = "nameDesiredJobs exDigest ''w'' ''n'' exRules"
  obtain smry where run: "provisionJobs exLib exOptions True 1000 [''workflow''] exScope ?desired exBefore = (exAfter, Inr smry)"
    using exRun by (cases "snd (provisionJobs exLib exOptions True 1000 [''workflow''] exScope ?desired exBefore)")
      (auto simp: exAfter_def prod_eq_iff)
  have "set (map dj_name ?desired) = {''w:n:i:0'', ''w:n:c:0''}" by code_simp
  moreover have "map sj_id (ownerRows (vs_owner exScope) (db_jobs exAfter)) = [1, 10]" by code_simp
  ultimately show ?thesis
    using provision_leaves_the_desired_jobs [OF exBefore_ok run] by (simp only: sum.case Let_def)
qed

section \<open>A job that cannot be planned\<close>

text \<open>C29: A job whose plan fails is not lost: nothing is recorded for it and it is put off. But the
  instant it is put off to takes the place of its next fire, so the pass that can plan it again
  counts that instant as its first due fire, on the rule or not.\<close>

theorem deferred_job_fires_off_schedule:
  assumes "planOccurrences lib job now opts = Inl e"
    "consumed lib' (advancedBy [(job, deferredPlan job now opts)] job) later opts = Inr (due, rest)"
    "now + mo_planRetrySeconds opts * 1000 \<le> later + mo_windowSeconds opts * 1000" "0 < mo_maxPerJob opts"
  shows "planOrDeferJob lib now opts job = ((job, deferredPlan job now opts), True)
    \<and> pl_occurrences (deferredPlan job now opts) = [] \<and> due \<noteq> []
    \<and> hd due = now + mo_planRetrySeconds opts * 1000"
proof -
  have clock: "sj_nextRunAt (advancedBy [(job, deferredPlan job now opts)] job)
      = Some (now + mo_planRetrySeconds opts * 1000)"
    by (simp add: advancedBy_def deferredPlan_def)
  obtain k where k: "mo_maxPerJob opts = Suc k" using assms(4) gr0_conv_Suc by blast
  then have "due \<noteq> [] \<and> hd due = now + mo_planRetrySeconds opts * 1000"
    using assms(2,3) by (auto simp: consumed_def clock rbind_Inr_iff)
  then show ?thesis using assms(1) by (simp add: planOrDeferJob_def deferredPlan_def)
qed

text \<open>An hourly job of an instance that does not know its time zone, and of one that does.\<close>

definition exHourly :: scheduled_job where
  "exHourly = (exJob 1 Coalesce 3600000)\<lparr>sj_kind := KindCron, sj_cronExpression := Some ''0 * * * *'',
     sj_timezone := Some ''Europe/Kyiv''\<rparr>"

lemma deferred_job_fires_off_schedule_witness:
  "planOrDeferJob (exLib\<lparr>cl_zone := \<lambda>_. False, cl_parses := \<lambda>_ _. False\<rparr>) 3600000 exOptions exHourly
     = ((exHourly, deferredPlan exHourly 3600000 exOptions), True)
   \<and> map tr_scheduledFor (tt_rows (db_tasks (exPass 3900000
       (exDb [advancedBy [(exHourly, deferredPlan exHourly 3600000 exOptions)] exHourly])))) = [3900000]"
proof -
  have fails: "planOccurrences (exLib\<lparr>cl_zone := \<lambda>_. False, cl_parses := \<lambda>_ _. False\<rparr>) exHourly 3600000 exOptions
      = Inl InvalidSchedule"
    by code_simp
  have due: "consumed exLib (advancedBy [(exHourly, deferredPlan exHourly 3600000 exOptions)] exHourly) 3900000 exOptions
      = Inr ([3900000], Some 7500000)"
    by code_simp
  have rows: "map tr_scheduledFor (tt_rows (db_tasks (exPass 3900000
       (exDb [advancedBy [(exHourly, deferredPlan exHourly 3600000 exOptions)] exHourly])))) = [3900000]"
    by code_simp
  have late: "3600000 + mo_planRetrySeconds exOptions * 1000 \<le> 3900000 + mo_windowSeconds exOptions * 1000"
    "0 < mo_maxPerJob exOptions" by (simp_all add: exOptions_def)
  show ?thesis using deferred_job_fires_off_schedule [OF fails due late] rows by blast
qed

section \<open>Repeating a request\<close>











end
