(* ===== verification/Spec2Isabelle.thy ===== *)
theory Spec2Isabelle
  imports EngineProperties ExecutionProperties PartialProperties WorkflowProperties ServiceProperties
    SchedulerProperties ScheduleJobsProperties
begin

text \<open>
  A model of the workflow automation platform n8n, in six parts. All paths are below
  \<open>src/packages\<close>.

  \<^bold>\<open>1. The engine\<close> (\<open>@n8n/engine/src\<close>) runs executions of a workflow graph with several
  workers over a database and two message queues. A caller starts an execution; the
  orchestration worker plans the steps of the graph (creates rows and publishes
  \<open>step:ready\<close>), step workers run them and publish \<open>step:settled\<close>, and every settlement lets
  the orchestration plan further, or finish the execution and answer the caller. Loops are
  batch nodes that hand out a list share by share and pass by pass.
  \<^item> \<open>WorkflowGraph\<close>: \<open>graph/workflow-graph.ts\<close> and \<open>workflow-graph-queries.ts\<close>; \<open>SccTarjan\<close>,
    \<open>SccCorrect\<close>: \<open>computeSccMembership\<close> of \<open>graph/loops.ts\<close> and its correctness; \<open>Loops\<close>,
    \<open>GraphValidation\<close>: the other functions of that file and \<open>validate-executable-graph.ts\<close>, and
    what an accepted graph looks like.
  \<^item> \<open>ExecutionTypes\<close>, \<open>IterationMapping\<close>, \<open>Settlement\<close>, \<open>Completion\<close>, \<open>BatchStep\<close>: the pure part of
    \<open>execution/\<close>: rows and keys, which iterations an edge connects, the fate of a node
    (queued, skipped, undecided), the number of steps an execution owes, a pass of a batch
    node.
  \<^item> \<open>Stores\<close>, \<open>StoreLifecycle\<close>: the TypeORM stores as operations on a record of two tables,
    each atomic as its SQL statement or transaction is, and what holds in every history of
    them from any number of workers.
  \<^item> \<open>Handlers\<close>, \<open>HandlerEffects\<close>, \<open>PlanInvariant\<close>, \<open>EngineRun\<close>: the handlers and workers as
    computations over the database, the messages and the answers (an exception ends one),
    and the runs of the whole engine with messages lost, repeated and reordered.
  \<^item> \<open>Delivery\<close>, \<open>WorkQueue\<close>, \<open>LifecyclePublisher\<close>: the in-memory queue and the batching
    publisher as machines whose asynchronous loops are cut at their awaits, with the
    contract both meet.

  \<^bold>\<open>2. Partial executions\<close> (\<open>core/src/execution-engine/partial-execution-utils\<close>) prepare a run
  that reuses the data of an earlier one: filter the disabled nodes, cut out the subgraph
  from trigger to destination, clean the run data, find the start nodes, leave cycles, build
  the execution stack.
  \<^item> \<open>JsMaps\<close>: insertion-ordered maps, arrays with holes and loops that may throw;
    \<open>DirectedGraph\<close>, \<open>GraphShape\<close>, \<open>GraphEdits\<close>: \<open>directed-graph.ts\<close>, its type invariant and what
    its edits do; \<open>Exploration\<close>, \<open>GraphSearch\<close>, \<open>GraphDfs\<close>, \<open>GraphScc\<close>: its searches.
  \<^item> \<open>RunData\<close>, \<open>Subgraph\<close>, \<open>StartNodes\<close>, \<open>Cycles\<close>, \<open>SourceGroups\<close>, \<open>ExecutionStack\<close>: one theory per
    step; \<open>PartialExecution\<close>: their composition in \<open>runPartialWorkflow2\<close>; \<open>TriggerSearch\<close>: the
    trigger such a run starts from.

  \<^bold>\<open>3. The execution of workflows\<close> (\<open>core/src/execution-engine/workflow-execute.ts\<close> and
  \<open>requests-response.ts\<close>). \<open>WorkflowExecute\<close> keeps a stack of nodes with their input data, the
  entries of nodes that wait for data on further inputs, and the tasks of the nodes that ran. A
  loop takes a node from the stack, runs it (with retries), records its task and adds the nodes
  below it; when the stack is empty a waiting node may run with the data it has.
  \<^item> \<open>ExecutionData\<close>: items, arrays whose elements may be absent or null, nodes, tasks, the
    state; \<open>WaitingInputs\<close>: \<open>addNodeToBeExecuted\<close>, and \<open>WaitingInvariant\<close> what it keeps.
  \<^item> \<open>NodeOutput\<close>: the functions on the data of one node (lineage, choice of the input, paired
    items, error output); \<open>EngineRequests\<close>: the requests of agents for tools; \<open>NodeRun\<close>:
    \<open>runNode\<close> and the tries; \<open>WaitingScan\<close>: the search for a waiting node that may run;
    \<open>ExecutionLoop\<close>: one iteration, the loop, errors, the status at the end, the start of a run
    and the resumption of one that waited.
  \<^item> \<open>LoopFrames\<close>, \<open>LoopHistory\<close>, \<open>LoopBounds\<close>, \<open>LoopOrder\<close>: what each step leaves alone, the tasks
    as a history, the number of calls of a node, the order in which nodes run.

  \<^bold>\<open>4. The workflow package\<close> (\<open>workflow/src\<close>).
  \<^item> \<open>ConnectionMaps\<close>, \<open>ConnectedNodes\<close>: \<open>common/\<close>: the connections by destination, connected,
    child, parent and executable nodes.
  \<^item> \<open>GraphSelection\<close>: \<open>graph/graph-utils.ts\<close>: which selections can become a sub-workflow.
  \<^item> \<open>WorkflowClass\<close>, \<open>WorkflowStart\<close>, \<open>WorkflowSearch\<close>: \<open>workflow.ts\<close>: the state and its queries,
    highest nodes, start node, renaming, and the breadth-first searches.

  \<^bold>\<open>5. The concurrency limit\<close> (\<open>cli/src/concurrency\<close>): \<open>ConcurrencyQueue\<close>, \<open>ConcurrencyControl\<close>.

  \<^bold>\<open>6. The durable scheduler\<close> (\<open>@n8n/scheduler/src/core\<close>, its repositories in \<open>@n8n/db\<close> and its
  binding in \<open>cli/src/scheduling\<close>).
  Jobs carry a rule and a clock. Passes turn the due fires of the jobs into rows of a table of
  occurrences; executors of several instances claim rows under a lease, run a handler at the
  time and record the outcome, fenced on the epoch of the lease; a sweep recovers the rows of
  instances that died, and a retention pass deletes old ended rows.
  \<^item> \<open>Recurrence\<close>: the rules, their validation and fires; \<open>OccurrencePlan\<close>, \<open>SchedulerPlanning\<close>:
    the plan of a job, the misfire policies, one late run for an owner.
  \<^item> \<open>TaskStore\<close>, \<open>TaskInvariant\<close>: the statements on the table of occurrences and what all of them
    keep; \<open>Executor\<close>: claiming, timers and the fire of an occurrence, cut at its awaits;
    \<open>Upkeep\<close>, \<open>UpkeepLaws\<close>: the sweep and the retention pass over a store that may throw.
  \<^item> \<open>ClaimProtocol\<close>: the protocol of claims as a step relation with a log of the calls of handlers,
    and its invariant; \<open>TaskSystem\<close>: any number of instances, sweeps and passes, with timers,
    crashes, rejected statements and lost replies, every run of which is one of the protocol.
    \<open>SchedulerRuns\<close> has concrete runs.
  \<^item> \<open>JobStore\<close>: the table of jobs and every statement on it, whose deletions cascade to the
    occurrences; \<open>Materialize\<close>: the planning pass as one transaction over four operations, and
    the binding of these to the two repositories; \<open>Provisioning\<close>, \<open>ProvisionLaws\<close>: the names,
    columns and identity of rules, and the transaction that makes the jobs of an owner those
    it wants and records their first window.

  \<open>EnginePrelude\<close> has the values and collections all parts share.
  \<open>EngineProperties\<close>, \<open>ExecutionProperties\<close>, \<open>PartialProperties\<close>, \<open>WorkflowProperties\<close>,
  \<open>ServiceProperties\<close>, \<open>SchedulerProperties\<close> and \<open>ScheduleJobsProperties\<close> state the properties, each
  followed by an instance, and the instances in which the code does not do what it says.

  \<^bold>\<open>How the code is read.\<close> A class is a record and its methods are functions that return the
  changed record; a value that may be \<open>undefined\<close> is an option; what is thrown is the left
  case of a sum, and an assertion or a \<open>TypeError\<close> is a value of a type of errors. A plain
  object or a \<open>Map\<close> is a list of entries; a plain object with keys like array indices, or
  like members of \<open>Object.prototype\<close>, is outside the model. Objects compared by \<open>===\<close> carry an
  identity. Numbers from outside are rational, those the code makes itself are naturals or
  integers; none of the modelled code depends on the width of a number.

  \<^bold>\<open>Interfaces.\<close> Locales state the contracts, and interpretations on the model discharge
  them: \<open>exploration\<close> (a search over items by key, for children and parents),
  \<open>step_lifecycle\<close> (what any store call may do to a step row), \<open>ordered_delivery\<close> and
  \<open>lossless_delivery\<close> (the publisher and the work queue), \<open>retention_contract\<close> (the store of the
  retention pass), \<open>materializer_store\<close> and its extension \<open>polling_store\<close> (the transaction of a
  planning pass, bound by the poll and by the seeding of a provision), \<open>provision_store\<close> (the
  transaction of a provision).

  \<^bold>\<open>Termination.\<close> Only \<open>execLoop\<close>, the loop over the stack, runs on fuel, one unit for each
  node taken from the stack, and ends with \<open>OutOfFuel\<close>: a workflow with a loop may run for ever.
  Its theorems hold for any fuel. All other recursions terminate; those that are not
  structural have measures: the tries those that are left; the scan of the waiting nodes the
  waiting entries, because it starts again after dropping one; the searches the number of nodes
  that are not seen yet; \<open>collectLoop\<close> the nodes with connections that are not on the path;
  \<open>hasPathLoop\<close>, whose stack can hold a node that was seen meanwhile, the unseen nodes and then the seen ones on the stack; \<open>bfsLoop\<close> the
  unvisited nodes and then the length of the queue, since a level without a new node
  queues nothing. Where a call follows another that changes the set of seen nodes, the
  measure rests on a lemma that the set only grows.

  \<^bold>\<open>Parameters.\<close> \<open>localeCompare\<close>; \<open>Array.prototype.sort\<close> under a comparison that is not
  consistent, of which only that it permutes is used; the node types a registry returns;
  the host that runs a step; the code of a node, a function of a state of the outside world that
  returns data, a request or an error; the data proxy and evaluated expressions; \<open>cron-parser\<close>
  and \<open>luxon\<close>, of which it is used that the next fire is later than the instant asked for; the
  digest in the names of jobs, of which it is used that its length is fixed. The
  graph edits assume names without hyphens, because connection keys are joined with hyphens, and
  bridging assumes that disabled nodes form no cycle; both conditions are shown to be needed.

  \<^bold>\<open>Not modelled.\<close> Of the engine: HTTP server, tokens, wiring and the read-only views. Of
  partial executions: \<open>rewireGraph\<close> for tools and \<open>toWorkflow\<close>. Of the workflow package: node
  parameters and expressions, static data, \<open>getParentMainInputNode\<close> and the other files. Of
  the concurrency limit: logging and telemetry. Of the execution of workflows: the check for
  issues before a run, the hooks other than the order of the node events, credentials,
  telemetry, hints, close functions, and what differs between poll, trigger and declarative
  nodes. Of the scheduler: the loops that start the passes, the sweep over owners that are
  gone (of which only the statements are modelled), metrics and traces. The rest of
  the repository: in-memory triggers, permissions, the server and its modules, database,
  frontend, nodes and agents. Only the scheduler has times; elsewhere a timeout is an
  operation that may happen.

  \<^bold>\<open>Next.\<close> The comparison and validation of workflows (\<open>connections-diff.ts\<close>,
  \<open>workflow-diff.ts\<close>, \<open>workflow-structure-validation.ts\<close>), the in-memory triggers and the
  scopes of the permissions.
\<close>

end
